(* ===== verification/Prelude.thy ===== *)
theory Prelude
  imports Main "HOL-Library.Word"
begin

text \<open>
  What every component shares: the types the C++ code calls \<open>unsigned char\<close>,
  \<open>std::vector<unsigned char>\<close>, \<open>uint32_t\<close> and \<open>uint64_t\<close>; the little-endian reading of
  a byte string as a number, which is how the program (on the little-endian hosts it targets)
  copies an integer to and from memory with \<open>memcpy\<close>; and the list and option facts the
  component proofs use. The collections \<open>byte_simps\<close> and \<open>slice_simps\<close> gather the rewrite
  rules about byte strings and about sub-ranges of a list.
\<close>

unbundle bit_operations_syntax

named_theorems byte_simps
named_theorems slice_simps

type_synonym byte = "8 word"
type_synonym valtype = "byte list"
type_synonym u32 = "32 word"
type_synonym u64 = "64 word"
type_synonym uint160 = "160 word"
type_synonym uint256 = "256 word"

section \<open>Little-endian numbers\<close>

lemma eq_div_mod_iff:
  fixes n m k r :: nat
  assumes "r < m"
  shows "n = m * k + r \<longleftrightarrow> n div m = k \<and> n mod m = r"
  using assms mult_div_mod_eq [of m n] by auto

text \<open>\<open>le_bytes k n\<close> is the memory image of the \<open>k\<close>-byte integer \<open>n\<close>.\<close>

fun le_bytes :: "nat \<Rightarrow> nat \<Rightarrow> valtype" where
  "le_bytes 0 n = []"
| "le_bytes (Suc k) n = of_nat n # le_bytes k (n div 256)"

fun le_val :: "valtype \<Rightarrow> nat" where
  "le_val [] = 0"
| "le_val (b # bs) = unat b + 256 * le_val bs"

lemma length_le_bytes [simp, byte_simps]: "length (le_bytes k n) = k"
  by (induction k arbitrary: n) auto

lemma unat_byte_less [simp, intro]: "unat (b :: byte) < 256"
  using unsigned_less [of b, where ?'a = nat] by simp

lemma unat_of_nat_byte [byte_simps]: "unat (of_nat n :: byte) = n mod 256"
  by (simp add: unat_of_nat)

lemma le_val_less [byte_simps]: "le_val bs < 256 ^ length bs"
proof (induction bs)
  case (Cons b bs)
  have "unat b < 256" by simp
  with Cons.IH have "unat b + 256 * le_val bs < 256 * 256 ^ length bs" by linarith
  then show ?case by simp
qed simp

lemma le_val_le_bytes [byte_simps]: "le_val (le_bytes k n) = n mod 256 ^ k"
proof (induction k arbitrary: n)
  case (Suc k)
  have "le_val (le_bytes (Suc k) n) = n mod 256 + 256 * (n div 256 mod 256 ^ k)"
    by (simp add: Suc.IH unat_of_nat_byte)
  also have "\<dots> = n mod (256 * 256 ^ k)"
    by (simp add: mod_mult2_eq)
  finally show ?case by simp
qed simp

lemma le_bytes_le_val [simp, byte_simps]: "le_bytes (length bs) (le_val bs) = bs"
proof (induction bs)
  case (Cons b bs)
  have "unat (of_nat (unat b + 256 * le_val bs) :: byte) = unat b"
    by (subst unat_of_nat_byte) simp
  then have "(of_nat (unat b + 256 * le_val bs) :: byte) = b"
    by (simp only: word_unat_eq_iff)
  moreover have "(unat b + 256 * le_val bs) div 256 = le_val bs"
    using unat_byte_less [of b] by simp
  ultimately show ?case using Cons.IH by simp
qed simp

lemma le_val_inject:
  assumes "length xs = length ys" and "le_val xs = le_val ys"
  shows "xs = ys"
  using assms by (metis le_bytes_le_val)

lemma le_val_append [byte_simps]: "le_val (xs @ ys) = le_val xs + 256 ^ length xs * le_val ys"
  by (induction xs) (auto simp: algebra_simps)

lemma le_val_replicate_0 [simp]: "le_val (replicate n 0) = 0"
  by (induction n) auto

text \<open>Bit \<open>n\<close> of the number is bit \<open>n mod 8\<close> of byte \<open>n div 8\<close>.\<close>

lemma bit_unat_byte: "bit (unat (b :: byte)) n = bit b n"
  by (simp add: bit_unsigned_iff)

lemma bit_byte_less: "bit (b :: byte) n \<Longrightarrow> n < 8"
  using bit_imp_le_length [of b n] by simp

lemma and_0x80_iff [byte_simps]: "(b :: byte) AND 0x80 = 0 \<longleftrightarrow> \<not> bit b 7"
  using and_exp_eq_0_iff_not_bit [of b 7] by simp

lemma and_0x7f [byte_simps]: "(b :: byte) AND 0x7f = take_bit 7 b"
  by (simp add: take_bit_eq_mask mask_eq_exp_minus_1)

lemma bit_eq_byteI: "(\<And>n. n < 8 \<Longrightarrow> bit a n = bit b n) \<Longrightarrow> a = (b :: byte)"
  by (rule bit_word_eqI) simp

lemma nat_less_8_cases: "n < (8 :: nat) \<longleftrightarrow> n < 7 \<or> n = 7"
  by auto

lemma bit_0x80: "bit (0x80 :: byte) n \<longleftrightarrow> n = 7"
  using bit_exp_iff [where ?'a = byte, of 7 n] by auto

lemma bit_0x80_int: "bit (0x80 :: int) n \<longleftrightarrow> n = 7"
  using bit_exp_iff [where ?'a = int, of 7 n] by simp

lemma byte_set_high [byte_simps]: "bit (b :: byte) 7 \<Longrightarrow> take_bit 7 b OR 0x80 = b"
  by (rule bit_eq_byteI) (auto simp: bit_simps bit_0x80 bit_0x80_int nat_less_8_cases)

lemma byte_low_or_high [byte_simps]: "take_bit 7 ((b :: byte) OR 0x80) = take_bit 7 b"
  by (rule bit_eq_byteI) (auto simp: bit_simps bit_0x80 bit_0x80_int)

lemma byte_low_id [byte_simps]: "\<not> bit (b :: byte) 7 \<Longrightarrow> take_bit 7 b = b"
  by (rule bit_eq_byteI) (auto simp: bit_simps nat_less_8_cases)

lemma bit_7_iff: "bit (b :: byte) 7 \<longleftrightarrow> 128 \<le> unat b"
proof -
  have "bit b 7 \<longleftrightarrow> odd (unat b div 128)"
    by (simp add: bit_unat_byte [symmetric] bit_iff_odd)
  also have "\<dots> \<longleftrightarrow> 128 \<le> unat b"
  proof -
    have "unat b < 256" by simp
    then have "unat b div 128 = 0 \<or> unat b div 128 = 1 \<and> 128 \<le> unat b" by linarith
    then show ?thesis by auto
  qed
  finally show ?thesis .
qed

lemma bit_le_val: "bit (le_val bs) n \<longleftrightarrow> n div 8 < length bs \<and> bit (bs ! (n div 8)) (n mod 8)"
proof (induction bs arbitrary: n)
  case (Cons b bs)
  have e: "le_val (b # bs) = unat b OR push_bit 8 (le_val bs)"
  proof -
    have "unat b + 256 * le_val bs = unat b + push_bit 8 (le_val bs)"
      by (simp add: push_bit_eq_mult)
    also have "\<dots> = unat b OR push_bit 8 (le_val bs)"
      by (rule disjunctive_add)
        (auto simp: bit_unat_byte bit_push_bit_iff dest: bit_byte_less)
    finally show ?thesis by simp
  qed
  show ?case
  proof (cases "n < 8")
    case True
    then show ?thesis by (simp only: e) (simp add: bit_simps bit_unat_byte)
  next
    case False
    then have "n = 8 + (n - 8)" "n div 8 = Suc ((n - 8) div 8)" "n mod 8 = (n - 8) mod 8"
      by (simp_all add: le_div_geq le_mod_geq)
    moreover have "\<not> bit b n" using False bit_byte_less by auto
    ultimately show ?thesis
      using False by (simp only: e) (simp add: bit_simps bit_unat_byte Cons.IH [of "n - 8"])
  qed
qed simp

section \<open>Sub-ranges\<close>

text \<open>An iterator into a vector is modelled by the suffix that starts at it, so
  \<open>pc - begin\<close> is a difference of lengths and \<open>[pc2, pc)\<close> is a prefix of the suffix at
  \<open>pc2\<close>.\<close>

definition range_between :: "'a list \<Rightarrow> 'a list \<Rightarrow> 'a list" where
  "range_between p q = take (length p - length q) p"

lemma range_between_append [simp, slice_simps]: "range_between (xs @ ys) ys = xs"
  by (simp add: range_between_def)

lemma range_between_self [simp, slice_simps]: "range_between xs xs = []"
  by (simp add: range_between_def)

lemma range_between_Nil [simp, slice_simps]: "range_between xs [] = xs"
  by (simp add: range_between_def)

text \<open>\<open>memcpy(buf + at, data, length data)\<close> on an array held as a list.\<close>

definition memcpy_at :: "nat \<Rightarrow> 'a list \<Rightarrow> 'a list \<Rightarrow> 'a list" where
  "memcpy_at at xs buf = take at buf @ xs @ drop (at + length xs) buf"

lemma length_memcpy_at [slice_simps]:
  "at + length xs \<le> length buf \<Longrightarrow> length (memcpy_at at xs buf) = length buf"
  by (simp add: memcpy_at_def)

lemma take_memcpy_at [slice_simps]:
  "at \<le> length buf \<Longrightarrow> take (at + length xs) (memcpy_at at xs buf) = take at buf @ xs"
  by (simp add: memcpy_at_def)

lemma take_Suc_conv: "n < length xs \<Longrightarrow> take (Suc n) xs = take n xs @ [xs ! n]"
  by (rule take_Suc_conv_app_nth)

section \<open>Results\<close>

text \<open>A step of the code that may stop with an error, followed by the next one.\<close>

definition and_then :: "'e + 'a \<Rightarrow> ('a \<Rightarrow> 'e + 'b) \<Rightarrow> 'e + 'b" where
  "and_then r k = (case r of Inl e \<Rightarrow> Inl e | Inr x \<Rightarrow> k x)"

lemma and_then_simps [simp]:
  "and_then (Inl e) k = Inl e"
  "and_then (Inr x) k = k x"
  by (simp_all add: and_then_def)

lemma and_then_Inr_iff: "and_then r k = Inr y \<longleftrightarrow> (\<exists>x. r = Inr x \<and> k x = Inr y)"
  by (cases r) auto

lemma and_then_Inl_iff:
  "and_then r k = Inl e \<longleftrightarrow> r = Inl e \<or> (\<exists>x. r = Inr x \<and> k x = Inl e)"
  by (cases r) auto

end
