(* ===== verification/Uint256.thy ===== *)
theory Uint256
  imports Prelude
begin

text \<open>
  Big unsigned integers (\<open>base_uint\<close> of \<open>src/uint256.h\<close>, \<open>src/uint256.cpp\<close>). The array \<open>pn\<close> is
  the list of its 32-bit limbs, the lowest first; an operation of the class is the recursion its
  loop over the limbs is. \<open>limbs_val\<close> is the number the limbs stand for, and each operation is
  related to the operation on numbers, so the code computes modulo \<open>2 ^ BITS\<close>.
\<close>

type_synonym limbs = "u32 list"

fun limbs_val :: "limbs \<Rightarrow> nat" where
  "limbs_val [] = 0"
| "limbs_val (p # ps) = unat p + 2 ^ 32 * limbs_val ps"

section \<open>The operations\<close>

definition bu_zero :: "nat \<Rightarrow> limbs" where
  "bu_zero W = replicate W 0"

definition bu_of_u64 :: "nat \<Rightarrow> u64 \<Rightarrow> limbs" where
  "bu_of_u64 W b = ucast b # ucast (drop_bit 32 b) # replicate (W - 2) 0"

definition bu_IsNull :: "limbs \<Rightarrow> bool" where
  "bu_IsNull pn = list_all (\<lambda>p. p = 0) pn"

definition bu_not :: "limbs \<Rightarrow> limbs" where
  "bu_not pn = map (\<lambda>p. NOT p) pn"

fun bu_inc :: "limbs \<Rightarrow> limbs" where
  "bu_inc [] = []"
| "bu_inc (p # ps) = (let p = p + 1 in if p = 0 \<and> ps \<noteq> [] then p # bu_inc ps else p # ps)"

fun bu_dec :: "limbs \<Rightarrow> limbs" where
  "bu_dec [] = []"
| "bu_dec (p # ps) = (let p = p - 1 in if p = -1 \<and> ps \<noteq> [] then p # bu_dec ps else p # ps)"

definition bu_neg :: "limbs \<Rightarrow> limbs" where
  "bu_neg pn = bu_inc (map (\<lambda>p. NOT p) pn)"

definition bu_xor :: "limbs \<Rightarrow> limbs \<Rightarrow> limbs" where
  "bu_xor a b = map2 (\<lambda>p q. p XOR q) a b"

definition bu_and :: "limbs \<Rightarrow> limbs \<Rightarrow> limbs" where
  "bu_and a b = map2 (\<lambda>p q. p AND q) a b"

definition bu_or :: "limbs \<Rightarrow> limbs \<Rightarrow> limbs" where
  "bu_or a b = map2 (\<lambda>p q. p OR q) a b"

fun add_loop :: "u64 \<Rightarrow> limbs \<Rightarrow> limbs \<Rightarrow> limbs" where
  "add_loop carry (p # ps) (b # bs) =
     (let n = carry + ucast p + ucast b
      in ucast (n AND 0xffffffff) # add_loop (drop_bit 32 n) ps bs)"
| "add_loop carry _ _ = []"

definition bu_add :: "limbs \<Rightarrow> limbs \<Rightarrow> limbs" where
  "bu_add a b = add_loop 0 a b"

definition bu_sub :: "limbs \<Rightarrow> limbs \<Rightarrow> limbs" where
  "bu_sub a b = bu_add a (bu_neg b)"

definition bu_add64 :: "limbs \<Rightarrow> u64 \<Rightarrow> limbs" where
  "bu_add64 a b64 = bu_add a (bu_of_u64 (length a) b64)"

definition bu_sub64 :: "limbs \<Rightarrow> u64 \<Rightarrow> limbs" where
  "bu_sub64 a b64 = bu_add a (bu_neg (bu_of_u64 (length a) b64))"

text \<open>One round of the loops of \<open><<=\<close> and \<open>>>=\<close>; \<open>a\<close> is the copy of the old limbs.\<close>

definition shl_step :: "limbs \<Rightarrow> nat \<Rightarrow> nat \<Rightarrow> limbs \<Rightarrow> nat \<Rightarrow> limbs" where
  "shl_step a k shift pn i =
     (let pn = if i + k + 1 < length a \<and> shift \<noteq> 0
            then pn[i + k + 1 := pn ! (i + k + 1) OR drop_bit (32 - shift) (a ! i)] else pn
      in if i + k < length a then pn[i + k := pn ! (i + k) OR push_bit shift (a ! i)] else pn)"

definition bu_shl :: "limbs \<Rightarrow> nat \<Rightarrow> limbs" where
  "bu_shl a shift =
     foldl (shl_step a (shift div 32) (shift mod 32)) (replicate (length a) 0) [0..<length a]"

definition shr_step :: "limbs \<Rightarrow> nat \<Rightarrow> nat \<Rightarrow> limbs \<Rightarrow> nat \<Rightarrow> limbs" where
  "shr_step a k shift pn i =
     (let pn = if i \<ge> k + 1 \<and> shift \<noteq> 0
            then pn[i - k - 1 := pn ! (i - k - 1) OR push_bit (32 - shift) (a ! i)] else pn
      in if i \<ge> k then pn[i - k := pn ! (i - k) OR drop_bit shift (a ! i)] else pn)"

definition bu_shr :: "limbs \<Rightarrow> nat \<Rightarrow> limbs" where
  "bu_shr a shift =
     foldl (shr_step a (shift div 32) (shift mod 32)) (replicate (length a) 0) [0..<length a]"

fun mul32_loop :: "u64 \<Rightarrow> u32 \<Rightarrow> limbs \<Rightarrow> limbs" where
  "mul32_loop carry b32 [] = []"
| "mul32_loop carry b32 (p # ps) =
     (let n = carry + ucast b32 * ucast p
      in ucast (n AND 0xffffffff) # mul32_loop (drop_bit 32 n) b32 ps)"

definition bu_mul32 :: "limbs \<Rightarrow> u32 \<Rightarrow> limbs" where
  "bu_mul32 a b32 = mul32_loop 0 b32 a"

text \<open>The inner loop of \<open>*=\<close> on the limbs from \<open>j\<close> on.\<close>

fun mul_row :: "u64 \<Rightarrow> u32 \<Rightarrow> limbs \<Rightarrow> limbs \<Rightarrow> limbs" where
  "mul_row carry aj (p # ps) (b # bs) =
     (let n = carry + ucast p + ucast aj * ucast b
      in ucast (n AND 0xffffffff) # mul_row (drop_bit 32 n) aj ps bs)"
| "mul_row carry aj _ _ = []"

definition mul_step :: "limbs \<Rightarrow> limbs \<Rightarrow> limbs \<Rightarrow> nat \<Rightarrow> limbs" where
  "mul_step a b pn j = take j pn @ mul_row 0 (a ! j) (drop j pn) b"

definition bu_mul :: "limbs \<Rightarrow> limbs \<Rightarrow> limbs" where
  "bu_mul a b = foldl (mul_step a b) (replicate (length a) 0) [0..<length a]"

text \<open>From the highest limb down.\<close>

fun compare_loop :: "limbs \<Rightarrow> limbs \<Rightarrow> int" where
  "compare_loop (p # ps) (b # bs) =
     (if p < b then -1 else if p > b then 1 else compare_loop ps bs)"
| "compare_loop _ _ = 0"

definition bu_CompareTo :: "limbs \<Rightarrow> limbs \<Rightarrow> int" where
  "bu_CompareTo a b = compare_loop (rev a) (rev b)"

definition bu_EqualTo :: "limbs \<Rightarrow> u64 \<Rightarrow> bool" where
  "bu_EqualTo pn b \<longleftrightarrow>
     (if \<not> list_all (\<lambda>p. p = 0) (drop 2 pn) then False
      else if ucast (pn ! 1) \<noteq> drop_bit 32 b then False
      else if ucast (pn ! 0) \<noteq> b AND 0xffffffff then False
      else True)"

fun limb_bits :: "u32 \<Rightarrow> nat \<Rightarrow> nat" where
  "limb_bits p 0 = 0"
| "limb_bits p (Suc n) = (if p AND push_bit (Suc n) 1 \<noteq> 0 then Suc n else limb_bits p n)"

text \<open>On the limbs from the highest down; \<open>pos\<close> is how many are left behind the first.\<close>

fun bits_loop :: "limbs \<Rightarrow> nat" where
  "bits_loop [] = 0"
| "bits_loop (p # ps) = (if p \<noteq> 0 then 32 * length ps + limb_bits p 31 + 1 else bits_loop ps)"

definition bu_bits :: "limbs \<Rightarrow> nat" where
  "bu_bits pn = bits_loop (rev pn)"

text \<open>The loop of \<open>/=\<close>: the quotient, \<open>num\<close>, \<open>div\<close>, and \<open>shift + 1\<close>.\<close>

fun div_loop :: "limbs \<Rightarrow> limbs \<Rightarrow> limbs \<Rightarrow> nat \<Rightarrow> limbs" where
  "div_loop pn num dv 0 = pn"
| "div_loop pn num dv (Suc shift) =
     (if bu_CompareTo num dv \<ge> 0 then
        div_loop (pn[shift div 32 := pn ! (shift div 32) OR push_bit (shift mod 32) 1])
          (bu_sub num dv) (bu_shr dv 1) shift
      else div_loop pn num (bu_shr dv 1) shift)"

text \<open>\<open>None\<close> is \<open>uint_error("Division by zero")\<close>.\<close>

definition bu_div :: "limbs \<Rightarrow> limbs \<Rightarrow> limbs option" where
  "bu_div a b =
     (let num_bits = bu_bits a; div_bits = bu_bits b
      in if div_bits = 0 then None
         else if div_bits > num_bits then Some (replicate (length a) 0)
         else
           (let shift = num_bits - div_bits
            in Some (div_loop (replicate (length a) 0) a (bu_shl b shift) (shift + 1))))"

definition bu_GetLow64 :: "limbs \<Rightarrow> u64" where
  "bu_GetLow64 pn = ucast (pn ! 0) OR push_bit 32 (ucast (pn ! 1))"

definition bu_Get64 :: "limbs \<Rightarrow> nat \<Rightarrow> u64" where
  "bu_Get64 pn n = ucast (pn ! (2 * n)) OR push_bit 32 (ucast (pn ! (2 * n + 1)))"

section \<open>Numbers and limbs\<close>

lemma unat_u32_lt: "unat (p :: u32) < 2 ^ 32"
  using unsigned_less [of p, where ?'a = nat] by simp

lemma limbs_val_less: "limbs_val pn < 2 ^ (32 * length pn)"
proof (induction pn)
  case (Cons p ps)
  have "unat p + 2 ^ 32 * limbs_val ps < 2 ^ 32 * (limbs_val ps + 1)"
    using unat_u32_lt [of p] by simp
  also have "\<dots> \<le> 2 ^ 32 * 2 ^ (32 * length ps)"
    using Cons.IH by (intro mult_le_mono2) simp
  finally show ?case by (simp add: power_add)
qed simp

lemma limbs_val_replicate [simp]: "limbs_val (replicate n 0) = 0"
  by (induction n) auto

lemma limbs_val_append: "limbs_val (xs @ ys) = limbs_val xs + 2 ^ (32 * length xs) * limbs_val ys"
  by (induction xs) (simp_all add: power_add algebra_simps)

lemma limbs_val_inject: "length xs = length ys \<Longrightarrow> limbs_val xs = limbs_val ys \<Longrightarrow> xs = ys"
proof (induction xs ys rule: list_induct2)
  case (Cons x xs y ys)
  have "unat x mod 2 ^ 32 = unat x" "unat y mod 2 ^ 32 = unat y" using unat_u32_lt by simp_all
  then have "unat x = (unat x + 2 ^ 32 * limbs_val xs) mod 2 ^ 32"
    "unat y = (unat y + 2 ^ 32 * limbs_val ys) mod 2 ^ 32" by simp_all
  then have e: "unat x = unat y" using Cons.prems by (simp del: mod_mult_self2)
  then have "x = y" by (simp add: word_unat_eq_iff)
  moreover have "limbs_val xs = limbs_val ys" using Cons.prems e by simp
  ultimately show ?case using Cons.IH by simp
qed simp

lemma limbs_val_0_iff: "limbs_val pn = 0 \<longleftrightarrow> list_all (\<lambda>p. p = 0) pn"
  by (induction pn) (auto simp: unat_eq_0)

section \<open>Addition and subtraction\<close>

lemma low_high_u64:
  fixes n :: u64
  shows "unat (ucast (n AND 0xffffffff) :: u32) = unat n mod 2 ^ 32"
    and "unat (drop_bit 32 n) = unat n div 2 ^ 32"
proof -
  have "n AND 0xffffffff = take_bit 32 n" by (simp add: take_bit_eq_mask mask_eq_exp_minus_1)
  then show "unat (ucast (n AND 0xffffffff) :: u32) = unat n mod 2 ^ 32"
    by (simp add: unsigned_ucast_eq unsigned_take_bit_eq) (simp add: take_bit_eq_mod)
  show "unat (drop_bit 32 n) = unat n div 2 ^ 32"
    by (simp only: unat_drop_bit_eq drop_bit_eq_div unat_div_distrib) simp
qed

text \<open>One limb of a result and the carry into the others.\<close>

lemma mod_limb: "m mod B + B * ((m div B + r) mod K) = (m + B * r) mod (B * K)" if "0 < B" for m B r K :: nat
  using that by (simp add: mod_mult2_eq add.commute)

lemma unat_ucast_u64: "unat (ucast (a :: u32) :: u64) = unat a"
  using unat_u32_lt [of a] by (simp add: unsigned_ucast_eq take_bit_nat_eq_self)

lemma add_loop_val:
  "length xs = length ys \<Longrightarrow> unat c \<le> 1 \<Longrightarrow>
   limbs_val (add_loop c xs ys) = (unat c + limbs_val xs + limbs_val ys) mod 2 ^ (32 * length xs)"
proof (induction xs ys arbitrary: c rule: list_induct2)
  case (Cons x xs y ys)
  let ?n = "c + ucast x + ucast y" and ?m = "unat c + unat x + unat y"
  have l: "unat c + unat x < 2 ^ 64" "?m < 2 ^ 64" "?m < 2 * 2 ^ 32"
    using Cons.prems unat_u32_lt [of x] unat_u32_lt [of y] by simp_all
  have m: "unat ?n = ?m" using l by (simp add: unat_word_ariths unat_ucast_u64)
  have "?m div 2 ^ 32 \<le> 1" using l(3) by (simp add: less_mult_imp_div_less less_Suc_eq_le [symmetric])
  then have "limbs_val (add_loop (drop_bit 32 ?n) xs ys) =
      (?m div 2 ^ 32 + (limbs_val xs + limbs_val ys)) mod 2 ^ (32 * length xs)"
    using Cons.IH [of "drop_bit 32 ?n"] by (simp only: low_high_u64 m add.assoc [of _ "limbs_val xs"])
  then have "limbs_val (add_loop c (x # xs) (y # ys)) =
      (?m + 2 ^ 32 * (limbs_val xs + limbs_val ys)) mod (2 ^ 32 * 2 ^ (32 * length xs))"
    using mod_limb [of "2 ^ 32" ?m "limbs_val xs + limbs_val ys" "2 ^ (32 * length xs)"]
    by (simp only: add_loop.simps Let_def limbs_val.simps low_high_u64 m) simp
  then show ?case by (simp add: power_add algebra_simps)
qed simp

lemma length_add_loop [simp]: "length xs = length ys \<Longrightarrow> length (add_loop c xs ys) = length xs"
  by (induction xs ys arbitrary: c rule: list_induct2) (simp_all add: Let_def)

lemma bu_add_val:
  "length a = length b \<Longrightarrow> limbs_val (bu_add a b) = (limbs_val a + limbs_val b) mod 2 ^ (32 * length a)"
  by (simp add: bu_add_def add_loop_val)

lemma length_bu_add [simp]: "length a = length b \<Longrightarrow> length (bu_add a b) = length a"
  by (simp add: bu_add_def)

lemma length_bu_inc [simp]: "length (bu_inc pn) = length pn"
  by (induction pn) (simp_all add: Let_def)

lemma bu_inc_val: "limbs_val (bu_inc pn) = (limbs_val pn + 1) mod 2 ^ (32 * length pn)"
proof (induction pn)
  case (Cons p ps)
  show ?case
  proof (cases "p + 1 = 0")
    case True
    then have "p = -1" by (simp add: add_eq_0_iff2)
    then have p: "unat p = 2 ^ 32 - 1" by (simp add: unsigned_minus_1_eq_mask mask_eq_exp_minus_1)
    show ?thesis
    proof (cases "ps = []")
      case False
      then have "limbs_val (bu_inc (p # ps)) = 2 ^ 32 * ((limbs_val ps + 1) mod 2 ^ (32 * length ps))"
        using True Cons.IH by simp
      also have "\<dots> = (2 ^ 32 * (limbs_val ps + 1)) mod (2 ^ 32 * 2 ^ (32 * length ps))"
        by (rule mult_mod_right)
      finally show ?thesis using p by (simp add: power_add algebra_simps)
    qed (use True p in simp)
  next
    case False
    then have u: "unat (p + 1) = unat p + 1" by (metis Suc_eq_plus1 add.commute unatSuc)
    then have "unat p + 1 < 2 ^ 32" using unat_u32_lt [of "p + 1"] by simp
    then have "limbs_val (p # ps) + 1 < 2 ^ (32 * length (p # ps))"
      using limbs_val_less [of "(p + 1) # ps"] u by simp
    then show ?thesis using False u by (simp add: Let_def)
  qed
qed simp

lemma bu_not_val: "limbs_val (map (\<lambda>p. NOT p) pn) = 2 ^ (32 * length pn) - 1 - limbs_val pn"
proof (induction pn)
  case (Cons p ps)
  have "NOT p = -1 - p" by (simp add: not_eq_complement)
  then have "unat (NOT p) = 2 ^ 32 - 1 - unat p" by (simp add: unat_sub unsigned_minus_1_eq_mask mask_eq_exp_minus_1)
  moreover have "limbs_val ps < 2 ^ (32 * length ps)" "unat p < 2 ^ 32"
    using limbs_val_less unat_u32_lt by blast+
  ultimately show ?case by (simp add: Cons.IH power_add diff_mult_distrib2)
qed simp

lemma bu_neg_val: "limbs_val (bu_neg pn) = (2 ^ (32 * length pn) - limbs_val pn) mod 2 ^ (32 * length pn)"
  using limbs_val_less [of pn] by (simp add: bu_neg_def bu_inc_val bu_not_val Suc_diff_Suc)

lemma length_bu_neg [simp]: "length (bu_neg pn) = length pn"
  by (simp add: bu_neg_def)

lemma length_bu_sub [simp]: "length a = length b \<Longrightarrow> length (bu_sub a b) = length a"
  by (simp add: bu_sub_def)

lemma bu_sub_val:
  assumes "length a = length b"
  shows "limbs_val (bu_sub a b) =
    (limbs_val a + (2 ^ (32 * length a) - limbs_val b)) mod 2 ^ (32 * length a)"
  using assms by (simp add: bu_sub_def bu_add_val bu_neg_val mod_add_right_eq)

lemma bu_sub_int:
  assumes "length a = length b"
  shows "int (limbs_val (bu_sub a b)) = (int (limbs_val a) - int (limbs_val b)) mod 2 ^ (32 * length a)"
proof -
  let ?M = "2 ^ (32 * length a) :: nat"
  have "limbs_val b \<le> ?M" using limbs_val_less [of b] assms by simp
  then have "int (limbs_val (bu_sub a b)) = (int (limbs_val a) - int (limbs_val b) + int ?M) mod int ?M"
    using bu_sub_val [OF assms] by (simp add: zmod_int of_nat_diff algebra_simps)
  then show ?thesis by simp
qed

lemma bu_sub_le:
  assumes "length a = length b" and "limbs_val b \<le> limbs_val a"
  shows "limbs_val (bu_sub a b) = limbs_val a - limbs_val b"
proof -
  have "limbs_val a + (2 ^ (32 * length a) - limbs_val b) = (limbs_val a - limbs_val b) + 2 ^ (32 * length a)"
    using assms limbs_val_less [of b] by simp
  moreover have "limbs_val a - limbs_val b < 2 ^ (32 * length a)" using limbs_val_less [of a] by simp
  ultimately show ?thesis by (simp only: bu_sub_val [OF assms(1)] mod_add_self2 mod_less)
qed

section \<open>Multiplication\<close>

lemma mul_limb_bound:
  assumes "c < 2 ^ 32" "p < 2 ^ 32" "a < 2 ^ 32" "b < (2 ^ 32 :: nat)"
  shows "c + p + a * b < 2 ^ 64"
proof -
  have "a * b \<le> (2 ^ 32 - 1) * (2 ^ 32 - 1)" using assms by (intro mult_le_mono) simp_all
  then show ?thesis using assms by simp
qed

lemma mul_limb_val:
  fixes c :: u64 and p a b :: u32
  assumes "unat c < 2 ^ 32"
  shows "unat (c + ucast p + ucast a * ucast b) = unat c + unat p + unat a * unat b"
proof -
  have "unat c + unat p + unat a * unat b < 2 ^ 64" using assms by (intro mul_limb_bound unat_u32_lt)
  then show ?thesis by (simp add: unat_word_ariths unat_ucast_u64)
qed

lemma mul_row_val:
  "unat c < 2 ^ 32 \<Longrightarrow> length ps \<le> length bs \<Longrightarrow>
   limbs_val (mul_row c a ps bs) =
     (unat c + limbs_val ps + unat a * limbs_val (take (length ps) bs)) mod 2 ^ (32 * length ps)"
proof (induction c a ps bs rule: mul_row.induct)
  case (1 c a p ps b bs)
  let ?n = "c + ucast p + ucast a * ucast b" and ?m = "unat c + unat p + unat a * unat b"
  let ?r = "limbs_val ps + unat a * limbs_val (take (length ps) bs)"
  have m: "unat ?n = ?m" using "1.prems" by (intro mul_limb_val) simp
  have "?m < 2 ^ 64" using "1.prems" by (intro mul_limb_bound unat_u32_lt) simp
  then have "?m div 2 ^ 32 < 2 ^ 32" by (simp add: less_mult_imp_div_less)
  then have "limbs_val (mul_row (drop_bit 32 ?n) a ps bs) = (?m div 2 ^ 32 + ?r) mod 2 ^ (32 * length ps)"
    using "1.IH" [OF refl] "1.prems" by (simp add: low_high_u64 m add.assoc [of _ "limbs_val ps"])
  then have "limbs_val (mul_row c a (p # ps) (b # bs)) = (?m + 2 ^ 32 * ?r) mod (2 ^ 32 * 2 ^ (32 * length ps))"
    using mod_limb [of "2 ^ 32" ?m ?r "2 ^ (32 * length ps)"]
    by (simp only: mul_row.simps Let_def limbs_val.simps low_high_u64 m) simp
  then show ?case by (simp add: power_add algebra_simps)
qed simp_all

lemma length_mul_row: "length ps \<le> length bs \<Longrightarrow> length (mul_row c a ps bs) = length ps"
  by (induction c a ps bs rule: mul_row.induct) (simp_all add: Let_def)

lemma mul32_loop_val:
  "unat c < 2 ^ 32 \<Longrightarrow>
   limbs_val (mul32_loop c b ps) = (unat c + unat b * limbs_val ps) mod 2 ^ (32 * length ps)"
proof (induction c b ps rule: mul32_loop.induct)
  case (2 c b p ps)
  let ?n = "c + ucast b * ucast p" and ?m = "unat c + unat b * unat p"
  have m: "unat ?n = ?m" using mul_limb_val [of c 0 b p] "2.prems" by simp
  have "?m < 2 ^ 64" using mul_limb_bound [of "unat c" 0 "unat b" "unat p"] "2.prems" unat_u32_lt by simp
  then have "?m div 2 ^ 32 < 2 ^ 32" by (simp add: less_mult_imp_div_less)
  then have "limbs_val (mul32_loop (drop_bit 32 ?n) b ps) =
      (?m div 2 ^ 32 + unat b * limbs_val ps) mod 2 ^ (32 * length ps)"
    using "2.IH" [OF refl] by (simp only: low_high_u64 m)
  then have "limbs_val (mul32_loop c b (p # ps)) =
      (?m + 2 ^ 32 * (unat b * limbs_val ps)) mod (2 ^ 32 * 2 ^ (32 * length ps))"
    using mod_limb [of "2 ^ 32" ?m "unat b * limbs_val ps" "2 ^ (32 * length ps)"]
    by (simp only: mul32_loop.simps Let_def limbs_val.simps low_high_u64 m) simp
  then show ?case by (simp add: power_add algebra_simps)
qed simp

lemma length_mul32_loop [simp]: "length (mul32_loop c b ps) = length ps"
  by (induction c b ps rule: mul32_loop.induct) (simp_all add: Let_def)

lemma bu_mul32_val:
  "limbs_val (bu_mul32 a b) = (limbs_val a * unat b) mod 2 ^ (32 * length a)"
  by (simp add: bu_mul32_def mul32_loop_val mult.commute)

lemma length_bu_mul32 [simp]: "length (bu_mul32 a b) = length a"
  by (simp add: bu_mul32_def)

lemma mod_shift: "x + B * (y mod K) = (x + B * y) mod (B * K)" if "x < B" for x B y K :: nat
proof -
  have "(x + B * y) div B = y" "(x + B * y) mod B = x" using that by simp_all
  then show ?thesis by (simp add: mod_mult2_eq)
qed

lemma limbs_val_split: "limbs_val xs = limbs_val (take j xs) + 2 ^ (32 * j) * limbs_val (drop j xs)"
proof (cases "j \<le> length xs")
  case True
  then show ?thesis using limbs_val_append [of "take j xs" "drop j xs"] by simp
qed simp

lemma limbs_val_take_Suc:
  "j < length xs \<Longrightarrow> limbs_val (take (Suc j) xs) = limbs_val (take j xs) + 2 ^ (32 * j) * unat (xs ! j)"
  by (simp add: take_Suc_conv limbs_val_append)

lemma mul_step_val:
  assumes "length pn = length b" and "j \<le> length b"
  shows "limbs_val (mul_step a b pn j) =
      (limbs_val pn + 2 ^ (32 * j) * (unat (a ! j) * limbs_val b)) mod 2 ^ (32 * length b)"
    and "length (mul_step a b pn j) = length b"
proof -
  let ?d = "length b - j" and ?B = "2 ^ (32 * j) :: nat"
  let ?K = "2 ^ (32 * ?d) :: nat"
  have BK: "?B * ?K = 2 ^ (32 * length b)" using assms(2) by (simp flip: power_add)
  have "limbs_val (take j pn) < ?B" using limbs_val_less [of "take j pn"] assms by simp
  then have "limbs_val (mul_step a b pn j) =
      (limbs_val (take j pn) + ?B * (limbs_val (drop j pn) + unat (a ! j) * limbs_val (take ?d b))) mod (?B * ?K)"
    using assms by (simp add: mul_step_def limbs_val_append mul_row_val mod_shift)
  also have "\<dots> = (limbs_val pn + ?B * (unat (a ! j) * limbs_val (take ?d b))) mod (?B * ?K)"
    by (simp add: limbs_val_split [of pn j] algebra_simps)
  also have "\<dots> = (limbs_val pn + ?B * (unat (a ! j) * limbs_val b)) mod (?B * ?K)"
  proof -
    have "limbs_val pn + ?B * (unat (a ! j) * limbs_val b) =
        limbs_val pn + ?B * (unat (a ! j) * limbs_val (take ?d b)) +
        (?B * ?K) * (unat (a ! j) * limbs_val (drop ?d b))"
      by (subst limbs_val_split [of b ?d]) (simp add: algebra_simps)
    then show ?thesis by (simp only: mod_mult_self2)
  qed
  finally show "limbs_val (mul_step a b pn j) =
      (limbs_val pn + ?B * (unat (a ! j) * limbs_val b)) mod 2 ^ (32 * length b)" unfolding BK .
  show "length (mul_step a b pn j) = length b"
    using assms by (simp add: mul_step_def length_mul_row)
qed

lemma mul_steps_val:
  assumes "length a = length b" and "m \<le> length b"
  shows "length (foldl (mul_step a b) (replicate (length b) 0) [0..<m]) = length b \<and>
    limbs_val (foldl (mul_step a b) (replicate (length b) 0) [0..<m]) =
      (limbs_val (take m a) * limbs_val b) mod 2 ^ (32 * length b)"
  using assms(2)
proof (induction m)
  case (Suc m)
  let ?p = "foldl (mul_step a b) (replicate (length b) 0) [0..<m]"
  have l: "length ?p = length b" and v: "limbs_val ?p = (limbs_val (take m a) * limbs_val b) mod 2 ^ (32 * length b)"
    using Suc by simp_all
  have "limbs_val (mul_step a b ?p m) = (limbs_val (take m a) * limbs_val b +
      2 ^ (32 * m) * (unat (a ! m) * limbs_val b)) mod 2 ^ (32 * length b)"
    using mul_step_val(1) [OF l, of m] Suc.prems v by (simp add: mod_add_left_eq)
  moreover have "limbs_val (take (Suc m) a) = limbs_val (take m a) + 2 ^ (32 * m) * unat (a ! m)"
    using Suc.prems assms(1) by (intro limbs_val_take_Suc) simp
  ultimately show ?case using mul_step_val(2) [OF l] Suc.prems by (simp add: algebra_simps)
qed simp

lemma bu_mul_val:
  "length a = length b \<Longrightarrow> limbs_val (bu_mul a b) = (limbs_val a * limbs_val b) mod 2 ^ (32 * length a)"
  using mul_steps_val [of a b "length b"] by (simp add: bu_mul_def)

lemma length_bu_mul: "length a = length b \<Longrightarrow> length (bu_mul a b) = length a"
  using mul_steps_val [of a b "length b"] by (simp add: bu_mul_def)

section \<open>Comparison\<close>

lemma compare_loop_val:
  "length xs = length ys \<Longrightarrow>
   compare_loop xs ys = (if limbs_val (rev xs) < limbs_val (rev ys) then -1
     else if limbs_val (rev xs) > limbs_val (rev ys) then 1 else 0)"
proof (induction xs ys rule: list_induct2)
  case (Cons x xs y ys)
  let ?B = "2 ^ (32 * length ys) :: nat"
  have b: "limbs_val (rev xs) < ?B" "limbs_val (rev ys) < ?B"
    using limbs_val_less [of "rev xs"] limbs_val_less [of "rev ys"] Cons.hyps by simp_all
  have lt: "u + ?B * k < v + ?B * k'" if "k < k'" "u < ?B" for u v k k' :: nat
  proof -
    have "?B * (k + 1) \<le> ?B * k'" using that(1) by (intro mult_le_mono2) simp
    then have "?B * k + ?B \<le> ?B * k'" by simp
    then show ?thesis using that(2) by linarith
  qed
  consider "unat x < unat y" | "unat x > unat y" | "x = y"
    by (metis linorder_neqE_nat word_unat_eq_iff)
  then show ?case
  proof cases
    case 1
    then show ?thesis using lt [OF 1 b(1)] Cons.hyps
      by (simp add: word_less_nat_alt limbs_val_append)
  next
    case 2
    then show ?thesis using lt [OF 2 b(2)] Cons.hyps
      by (simp add: word_less_nat_alt limbs_val_append less_imp_not_less)
  next
    case 3
    then show ?thesis using Cons by (simp add: limbs_val_append)
  qed
qed simp

lemma bu_CompareTo_val:
  "length a = length b \<Longrightarrow> bu_CompareTo a b = (if limbs_val a < limbs_val b then -1
     else if limbs_val a > limbs_val b then 1 else 0)"
  using compare_loop_val [of "rev a" "rev b"] by (simp add: bu_CompareTo_def)

section \<open>The highest bit\<close>

lemma bit_unat_u32: "bit (unat (p :: u32)) n = bit p n"
  by (simp add: bit_unsigned_iff)

lemma bit_u32_less: "bit (p :: u32) n \<Longrightarrow> n < 32"
  using bit_imp_le_length [of p n] by simp

lemma limb_bits_bounds:
  "p \<noteq> 0 \<Longrightarrow> unat p < 2 ^ Suc n \<Longrightarrow> n < 32 \<Longrightarrow>
   2 ^ limb_bits p n \<le> unat p \<and> unat p < 2 ^ Suc (limb_bits p n)"
proof (induction p n rule: limb_bits.induct)
  case (1 p)
  then show ?case by (simp add: word_greater_zero_iff [symmetric] word_less_nat_alt Suc_le_eq)
next
  case (2 p n)
  have b: "p AND push_bit (Suc n) 1 \<noteq> 0 \<longleftrightarrow> bit p (Suc n)"
    using and_exp_eq_0_iff_not_bit [of p "Suc n"] by (simp add: push_bit_of_1)
  have d: "bit p (Suc n) \<longleftrightarrow> odd (unat p div 2 ^ Suc n)"
    by (simp add: bit_unat_u32 [symmetric] bit_iff_odd)
  have q: "unat p div 2 ^ Suc n < 2" using 2(3) by (simp add: less_mult_imp_div_less)
  show ?case
  proof (cases "bit p (Suc n)")
    case True
    then have "unat p div 2 ^ Suc n \<noteq> 0" using d by (metis even_zero)
    then have "2 ^ Suc n \<le> unat p" by (metis div_less not_le)
    then show ?thesis using True b 2 by simp
  next
    case False
    then have "unat p div 2 ^ Suc n = 0" using d q by (metis less_2_cases odd_one One_nat_def)
    then have "unat p < 2 ^ Suc n" by (simp add: div_eq_0_iff)
    then show ?thesis using False b 2 by simp
  qed
qed

lemma bits_loop_bounds:
  "limbs_val (rev xs) < 2 ^ bits_loop xs \<and>
   (bits_loop xs \<noteq> 0 \<longrightarrow> 2 ^ (bits_loop xs - 1) \<le> limbs_val (rev xs))"
proof (induction xs)
  case (Cons x xs)
  let ?B = "2 ^ (32 * length xs) :: nat"
  have r: "limbs_val (rev xs) < ?B" using limbs_val_less [of "rev xs"] by simp
  show ?case
  proof (cases "x = 0")
    case False
    let ?l = "limb_bits x 31"
    have l: "2 ^ ?l \<le> unat x" "unat x + 1 \<le> 2 ^ Suc ?l"
      using limb_bits_bounds [OF False, of 31] unat_u32_lt [of x] by simp_all
    have "limbs_val (rev xs) + ?B * unat x < ?B * (unat x + 1)" using r by simp
    also have "\<dots> \<le> ?B * 2 ^ Suc ?l" using l(2) by (rule mult_le_mono2)
    finally have "limbs_val (rev xs) + ?B * unat x < 2 ^ (32 * length xs + ?l + 1)" by (simp add: power_add)
    moreover have "2 ^ (32 * length xs + ?l) \<le> limbs_val (rev xs) + ?B * unat x"
      using mult_le_mono2 [OF l(1), of ?B] by (simp add: power_add trans_le_add2)
    ultimately show ?thesis using False by (simp add: limbs_val_append)
  qed (use Cons in \<open>simp add: limbs_val_append\<close>)
qed simp

lemma bu_bits_bounds:
  "limbs_val pn < 2 ^ bu_bits pn" "bu_bits pn \<noteq> 0 \<Longrightarrow> 2 ^ (bu_bits pn - 1) \<le> limbs_val pn"
  using bits_loop_bounds [of "rev pn"] by (simp_all add: bu_bits_def)

lemma bu_bits_0_iff: "bu_bits pn = 0 \<longleftrightarrow> limbs_val pn = 0"
  using bu_bits_bounds [of pn] by (metis One_nat_def gr_zeroI less_one not_less0 power_0 zero_less_numeral zero_less_power leD)

text \<open>\<open>bits\<close> is the only number with these bounds.\<close>

lemma bu_bits_eqI: "2 ^ k \<le> limbs_val pn \<Longrightarrow> limbs_val pn < 2 ^ Suc k \<Longrightarrow> bu_bits pn = Suc k"
proof -
  assume a: "2 ^ k \<le> limbs_val pn" "limbs_val pn < 2 ^ Suc k"
  have "k < bu_bits pn"
    using a(1) bu_bits_bounds(1) [of pn] by (metis le_less_trans nat_power_less_imp_less numeral_2_eq_2 zero_less_Suc)
  moreover then have "2 ^ (bu_bits pn - 1) < (2 :: nat) ^ Suc k"
    using a(2) bu_bits_bounds(2) [of pn] by simp
  then have "bu_bits pn - 1 < Suc k" by (rule nat_power_less_imp_less [rotated]) simp
  ultimately show ?thesis by simp
qed

lemma bu_bits_le: "bu_bits pn \<le> 32 * length pn"
proof (rule ccontr)
  assume "\<not> ?thesis"
  then have "2 ^ (32 * length pn) \<le> (2 :: nat) ^ (bu_bits pn - 1)" "bu_bits pn \<noteq> 0"
    by (auto intro: power_increasing)
  then show False using bu_bits_bounds(2) [of pn] limbs_val_less [of pn] by linarith
qed

section \<open>Bits and shifts\<close>

lemma bit_limbs_val:
  "bit (limbs_val pn) n \<longleftrightarrow> n div 32 < length pn \<and> bit (pn ! (n div 32)) (n mod 32)"
proof (induction pn arbitrary: n)
  case (Cons p ps)
  have e: "limbs_val (p # ps) = unat p OR push_bit 32 (limbs_val ps)"
  proof -
    have "unat p + 2 ^ 32 * limbs_val ps = unat p + push_bit 32 (limbs_val ps)"
      by (simp add: push_bit_eq_mult)
    also have "\<dots> = unat p OR push_bit 32 (limbs_val ps)"
      by (rule disjunctive_add) (auto simp: bit_unat_u32 bit_push_bit_iff dest: bit_u32_less)
    finally show ?thesis by simp
  qed
  show ?case
  proof (cases "n < 32")
    case True
    then show ?thesis by (simp only: e) (simp add: bit_simps bit_unat_u32)
  next
    case False
    then have "n = 32 + (n - 32)" "n div 32 = Suc ((n - 32) div 32)" "n mod 32 = (n - 32) mod 32"
      by (simp_all add: le_div_geq le_mod_geq)
    moreover have "\<not> bit p n" using False bit_u32_less by auto
    ultimately show ?thesis
      using False by (simp only: e) (simp add: bit_simps bit_unat_u32 Cons.IH [of "n - 32"])
  qed
qed simp

lemma limbs_val_eqI:
  assumes "\<And>i r. i < length pn \<Longrightarrow> r < 32 \<Longrightarrow> bit (pn ! i) r = bit v (32 * i + r)"
    and "v < 2 ^ (32 * length pn)"
  shows "limbs_val pn = v"
proof (rule bit_eqI)
  fix n :: nat
  have n: "n = 32 * (n div 32) + n mod 32" by simp
  show "bit (limbs_val pn) n = bit v n"
  proof (cases "n div 32 < length pn")
    case True
    then show ?thesis using assms(1) [of "n div 32" "n mod 32"] by (simp add: bit_limbs_val)
  next
    case False
    then have "32 * length pn \<le> n" by (simp add: not_less less_eq_div_iff_mult_less_eq mult.commute)
    then have "2 ^ (32 * length pn) \<le> (2 :: nat) ^ n" by (intro power_increasing) simp_all
    then have "v < 2 ^ n" using assms(2) by linarith
    then have "\<not> bit v n" by (simp add: bit_iff_odd)
    then show ?thesis using False by (simp add: bit_limbs_val)
  qed
qed

lemma length_shl_step [simp]: "length (shl_step a k s pn i) = length pn"
  by (simp add: shl_step_def Let_def)

lemma length_foldl_shl [simp]: "length (foldl (shl_step a k s) pn is) = length pn"
  by (induction "is" arbitrary: pn) simp_all

lemma length_bu_shl [simp]: "length (bu_shl a n) = length a"
  by (simp add: bu_shl_def)

lemma length_shr_step [simp]: "length (shr_step a k s pn i) = length pn"
  by (simp add: shr_step_def Let_def)

lemma length_foldl_shr [simp]: "length (foldl (shr_step a k s) pn is) = length pn"
  by (induction "is" arbitrary: pn) simp_all

lemma length_bu_shr [simp]: "length (bu_shr a n) = length a"
  by (simp add: bu_shr_def)

text \<open>What the loops have written after \<open>m\<close> rounds.\<close>

definition shl_limb :: "limbs \<Rightarrow> nat \<Rightarrow> nat \<Rightarrow> nat \<Rightarrow> nat \<Rightarrow> u32" where
  "shl_limb a k s m j =
     (if k \<le> j \<and> j - k < m then push_bit s (a ! (j - k)) else 0) OR
     (if k + 1 \<le> j \<and> j - k - 1 < m \<and> s \<noteq> 0 then drop_bit (32 - s) (a ! (j - k - 1)) else 0)"

lemma nth_shl_step:
  assumes "length pn = length a" and "m < length a" and "j < length a"
  shows "shl_step a k s pn m ! j = pn ! j OR ((if j = m + k then push_bit s (a ! m) else 0) OR
    (if j = m + k + 1 \<and> s \<noteq> 0 then drop_bit (32 - s) (a ! m) else 0))"
  using assms by (auto simp: shl_step_def Let_def nth_list_update)

lemma shl_steps:
  "m \<le> length a \<Longrightarrow> j < length a \<Longrightarrow>
   foldl (shl_step a k s) (replicate (length a) 0) [0..<m] ! j = shl_limb a k s m j"
proof (induction m arbitrary: j)
  case 0
  then show ?case by (simp add: shl_limb_def)
next
  case (Suc m)
  let ?p = "foldl (shl_step a k s) (replicate (length a) 0) [0..<m]"
  have IH: "?p ! i = shl_limb a k s m i" if "i < length a" for i using Suc that by simp
  have "shl_limb a k s (Suc m) j = shl_limb a k s m j OR ((if j = m + k then push_bit s (a ! m) else 0) OR
      (if j = m + k + 1 \<and> s \<noteq> 0 then drop_bit (32 - s) (a ! m) else 0))"
    using Suc.prems by (auto simp: shl_limb_def less_Suc_eq ac_simps)
  then show ?case using Suc.prems IH by (simp add: nth_shl_step)
qed

definition shr_limb :: "limbs \<Rightarrow> nat \<Rightarrow> nat \<Rightarrow> nat \<Rightarrow> nat \<Rightarrow> u32" where
  "shr_limb a k s m j =
     (if j + k < m then drop_bit s (a ! (j + k)) else 0) OR
     (if j + k + 1 < m \<and> s \<noteq> 0 then push_bit (32 - s) (a ! (j + k + 1)) else 0)"

lemma nth_shr_step:
  assumes "length pn = length a" and "m < length a" and "j < length a"
  shows "shr_step a k s pn m ! j = pn ! j OR ((if m = j + k then drop_bit s (a ! m) else 0) OR
    (if m = j + k + 1 \<and> s \<noteq> 0 then push_bit (32 - s) (a ! m) else 0))"
  using assms by (auto simp: shr_step_def Let_def nth_list_update)

lemma shr_steps:
  "m \<le> length a \<Longrightarrow> j < length a \<Longrightarrow>
   foldl (shr_step a k s) (replicate (length a) 0) [0..<m] ! j = shr_limb a k s m j"
proof (induction m arbitrary: j)
  case 0
  then show ?case by (simp add: shr_limb_def)
next
  case (Suc m)
  let ?p = "foldl (shr_step a k s) (replicate (length a) 0) [0..<m]"
  have IH: "?p ! i = shr_limb a k s m i" if "i < length a" for i using Suc that by simp
  have "shr_limb a k s (Suc m) j = shr_limb a k s m j OR ((if m = j + k then drop_bit s (a ! m) else 0) OR
      (if m = j + k + 1 \<and> s \<noteq> 0 then push_bit (32 - s) (a ! m) else 0))"
    using Suc.prems by (auto simp: shr_limb_def less_Suc_eq ac_simps)
  then show ?case using Suc.prems IH by (simp add: nth_shr_step)
qed

lemma bit_limbs_at:
  "n = 32 * i + r \<Longrightarrow> r < 32 \<Longrightarrow> bit (limbs_val pn) n \<longleftrightarrow> i < length pn \<and> bit (pn ! i) r"
  by (simp add: bit_limbs_val)

lemma bit_shl_limb:
  assumes "i < length a" and "r < 32" and "s < 32"
  shows "bit (shl_limb a k s (length a) i) r \<longleftrightarrow>
    32 * k + s \<le> 32 * i + r \<and> bit (limbs_val a) (32 * i + r - (32 * k + s))"
proof (cases "s \<le> r")
  case True
  have "\<not> bit (drop_bit (32 - s) x) r" for x :: u32
    using True assms bit_u32_less [of x "32 - s + r"] by (auto simp: bit_drop_bit_eq)
  then have l: "bit (shl_limb a k s (length a) i) r \<longleftrightarrow> k \<le> i \<and> bit (a ! (i - k)) (r - s)"
    using True assms by (auto simp: shl_limb_def bit_or_iff bit_push_bit_iff)
  show ?thesis
  proof (cases "k \<le> i")
    case True
    then have e: "32 * i + r - (32 * k + s) = 32 * (i - k) + (r - s)" using \<open>s \<le> r\<close> by simp
    then have "bit (limbs_val a) (32 * i + r - (32 * k + s)) \<longleftrightarrow> bit (a ! (i - k)) (r - s)"
      using bit_limbs_at [OF e, of a] assms by (simp add: less_imp_diff_less)
    then show ?thesis using l True \<open>s \<le> r\<close> by simp
  qed (use l assms in simp)
next
  case False
  then have l: "bit (shl_limb a k s (length a) i) r \<longleftrightarrow> k + 1 \<le> i \<and> bit (a ! (i - k - 1)) (32 - s + r)"
    using assms by (auto simp: shl_limb_def bit_or_iff bit_push_bit_iff bit_drop_bit_eq)
  show ?thesis
  proof (cases "k + 1 \<le> i")
    case True
    then have e: "32 * i + r - (32 * k + s) = 32 * (i - k - 1) + (32 - s + r)" using False assms by simp
    then have "bit (limbs_val a) (32 * i + r - (32 * k + s)) \<longleftrightarrow> bit (a ! (i - k - 1)) (32 - s + r)"
      using bit_limbs_at [OF e, of a] False assms True by (simp add: less_imp_diff_less)
    then show ?thesis using l True False assms by simp
  qed (use l False assms in simp)
qed

lemma bit_shr_limb:
  assumes "i < length a" and "r < 32" and "s < 32"
  shows "bit (shr_limb a k s (length a) i) r \<longleftrightarrow> bit (limbs_val a) (32 * i + r + (32 * k + s))"
proof (cases "r + s < 32")
  case True
  then have "bit (shr_limb a k s (length a) i) r \<longleftrightarrow> i + k < length a \<and> bit (a ! (i + k)) (s + r)"
    using assms by (auto simp: shr_limb_def bit_or_iff bit_push_bit_iff bit_drop_bit_eq)
  moreover have e: "32 * i + r + (32 * k + s) = 32 * (i + k) + (s + r)" by simp
  ultimately show ?thesis using True bit_limbs_at [OF e, of a] by simp
next
  case False
  have "\<not> bit (drop_bit s x) r" for x :: u32
    using False bit_u32_less [of x "s + r"] by (auto simp: bit_drop_bit_eq)
  then have "bit (shr_limb a k s (length a) i) r \<longleftrightarrow>
      i + k + 1 < length a \<and> bit (a ! (i + k + 1)) (r - (32 - s))"
    using False assms by (auto simp: shr_limb_def bit_or_iff bit_push_bit_iff)
  moreover have e: "32 * i + r + (32 * k + s) = 32 * (i + k + 1) + (r - (32 - s))" using False assms by simp
  ultimately show ?thesis using False assms bit_limbs_at [OF e, of a] by simp
qed

lemma bu_shl_val: "limbs_val (bu_shl a n) = (limbs_val a * 2 ^ n) mod 2 ^ (32 * length a)"
proof -
  let ?k = "n div 32" and ?s = "n mod 32"
  have n: "32 * ?k + ?s = n" by simp
  have "limbs_val (bu_shl a n) = take_bit (32 * length a) (push_bit n (limbs_val a))"
  proof (rule limbs_val_eqI)
    fix i r :: nat
    assume i: "i < length (bu_shl a n)" and r: "r < 32"
    have "bit (bu_shl a n ! i) r \<longleftrightarrow> n \<le> 32 * i + r \<and> bit (limbs_val a) (32 * i + r - n)"
      using i r bit_shl_limb [of i a r ?s ?k] unfolding n by (simp add: bu_shl_def shl_steps)
    then show "bit (bu_shl a n ! i) r = bit (take_bit (32 * length a) (push_bit n (limbs_val a))) (32 * i + r)"
      using i r by (simp add: bit_take_bit_iff bit_push_bit_iff)
  qed simp
  then show ?thesis by (simp add: push_bit_eq_mult take_bit_eq_mod)
qed

lemma bu_shr_val: "limbs_val (bu_shr a n) = limbs_val a div 2 ^ n"
proof -
  let ?k = "n div 32" and ?s = "n mod 32"
  have n: "32 * ?k + ?s = n" by simp
  have "limbs_val (bu_shr a n) = drop_bit n (limbs_val a)"
  proof (rule limbs_val_eqI)
    fix i r :: nat
    assume i: "i < length (bu_shr a n)" and r: "r < 32"
    show "bit (bu_shr a n ! i) r = bit (drop_bit n (limbs_val a)) (32 * i + r)"
      using i r bit_shr_limb [of i a r ?s ?k] unfolding n
      by (simp add: bu_shr_def shr_steps bit_drop_bit_eq add.commute)
  next
    have "limbs_val a div 2 ^ n \<le> limbs_val a" by simp
    then show "drop_bit n (limbs_val a) < 2 ^ (32 * length (bu_shr a n))"
      using limbs_val_less [of a] by (simp only: drop_bit_eq_div length_bu_shr)
  qed
  then show ?thesis by (simp add: drop_bit_eq_div)
qed

lemma limbs_val_map2:
  assumes "length a = length b" and "\<And>p q n. bit (f p q) n \<longleftrightarrow> g (bit p n) (bit q n)"
    and "\<not> g False False" and "\<And>n. bit v n \<longleftrightarrow> g (bit (limbs_val a) n) (bit (limbs_val b) n)"
  shows "limbs_val (map2 f a b) = v"
proof (rule bit_eqI)
  fix n :: nat
  have "bit (limbs_val (map2 f a b)) n \<longleftrightarrow>
      n div 32 < length b \<and> g (bit (a ! (n div 32)) (n mod 32)) (bit (b ! (n div 32)) (n mod 32))"
    using assms(1) by (cases "n div 32 < length b") (simp_all add: bit_limbs_val assms(2))
  also have "\<dots> \<longleftrightarrow> g (bit (limbs_val a) n) (bit (limbs_val b) n)"
    using assms(1,3) by (cases "n div 32 < length b") (simp_all add: bit_limbs_val)
  finally show "bit (limbs_val (map2 f a b)) n = bit v n" by (simp only: assms(4))
qed

lemma bu_bitwise_val:
  assumes "length a = length b"
  shows "limbs_val (bu_and a b) = limbs_val a AND limbs_val b"
    and "limbs_val (bu_or a b) = limbs_val a OR limbs_val b"
    and "limbs_val (bu_xor a b) = limbs_val a XOR limbs_val b"
  unfolding bu_and_def bu_or_def bu_xor_def
  subgoal by (rule limbs_val_map2 [OF assms, where g = "\<lambda>x y. x \<and> y"]) (simp_all add: bit_and_iff)
  subgoal by (rule limbs_val_map2 [OF assms, where g = "\<lambda>x y. x \<or> y"]) (simp_all add: bit_or_iff)
  subgoal by (rule limbs_val_map2 [OF assms, where g = "\<lambda>x y. x \<noteq> y"]) (simp_all add: bit_xor_iff)
  done

section \<open>Division\<close>

text \<open>Setting a bit that is not set adds its value.\<close>

lemma limbs_val_set_bit:
  assumes "i div 32 < length pn" and "\<not> bit (limbs_val pn) i"
  shows "limbs_val (pn[i div 32 := pn ! (i div 32) OR push_bit (i mod 32) 1]) = limbs_val pn + 2 ^ i"
proof -
  let ?j = "i div 32" and ?r = "i mod 32"
  have n: "32 * ?j + ?r = i" by simp
  have nb: "\<not> bit (pn ! ?j) ?r" using assms by (simp add: bit_limbs_val)
  have b: "bit (push_bit ?r 1 :: u32) k \<longleftrightarrow> k = ?r" for k
    using bit_exp_iff [where ?'a = u32, of ?r k] by (auto simp: push_bit_of_1)
  have b': "bit (push_bit i 1 :: nat) k \<longleftrightarrow> k = i" for k
    using bit_exp_iff [where ?'a = nat, of i k] by (auto simp: push_bit_of_1)
  have k: "k = i \<longleftrightarrow> k div 32 = ?j \<and> k mod 32 = ?r" for k by (metis mult_div_mod_eq)
  have "limbs_val (pn[?j := pn ! ?j OR push_bit ?r 1]) = limbs_val pn OR push_bit i 1"
  proof (rule bit_eqI)
    fix m :: nat
    show "bit (limbs_val (pn[?j := pn ! ?j OR push_bit ?r 1])) m = bit (limbs_val pn OR push_bit i 1) m"
      using assms(1) by (cases "m div 32 = ?j")
        (simp_all only: bit_limbs_val bit_or_iff b b' k length_list_update nth_list_update_eq
          nth_list_update_neq simp_thms)
  qed
  also have "\<dots> = limbs_val pn + push_bit i 1"
    by (rule disjunctive_add [symmetric]) (use assms(2) in \<open>simp only: b', blast\<close>)
  finally show ?thesis by (simp add: push_bit_eq_mult)
qed

lemma length_div_loop: "length (div_loop pn num dv s) = length pn"
  by (induction pn num dv s rule: div_loop.induct) simp_all

lemma div_loop_val:
  "length num = length pn \<Longrightarrow> length dv = length pn \<Longrightarrow> s \<le> 32 * length pn \<Longrightarrow> 0 < D \<Longrightarrow>
   (s \<noteq> 0 \<Longrightarrow> limbs_val dv = D * 2 ^ (s - 1)) \<Longrightarrow> limbs_val num < D * 2 ^ s \<Longrightarrow>
   2 ^ s dvd limbs_val pn \<Longrightarrow>
   limbs_val (div_loop pn num dv s) = limbs_val pn + limbs_val num div D"
proof (induction pn num dv s rule: div_loop.induct)
  case (2 pn num dv s)
  have dv: "limbs_val dv = D * 2 ^ s" using 2 by simp
  have dv': "s \<noteq> 0 \<Longrightarrow> limbs_val (bu_shr dv 1) = D * 2 ^ (s - 1)"
    by (cases s) (simp_all add: bu_shr_val dv)
  obtain k where k: "limbs_val pn = 2 ^ Suc s * k" using 2 by (elim dvdE)
  show ?case
  proof (cases "limbs_val dv \<le> limbs_val num")
    case True
    let ?pn = "pn[s div 32 := pn ! (s div 32) OR push_bit (s mod 32) 1]"
    have "limbs_val pn div 2 ^ s = 2 * k" by (simp add: k)
    then have "\<not> bit (limbs_val pn) s" by (simp add: bit_iff_odd)
    then have p: "limbs_val ?pn = limbs_val pn + 2 ^ s" using 2 by (intro limbs_val_set_bit) simp_all
    have n: "limbs_val (bu_sub num dv) = limbs_val num - D * 2 ^ s" using 2 True by (simp add: bu_sub_le dv)
    have "2 ^ s dvd limbs_val pn" by (simp add: k)
    then have "limbs_val (div_loop ?pn (bu_sub num dv) (bu_shr dv 1) s) =
        limbs_val ?pn + limbs_val (bu_sub num dv) div D"
      using 2 True dv' n p by (intro "2.IH"(1)) (simp_all add: bu_CompareTo_val)
    also have "limbs_val (bu_sub num dv) div D = limbs_val num div D - 2 ^ s"
    proof -
      obtain x where x: "limbs_val num = D * 2 ^ s + x" using True dv by (auto simp: le_iff_add)
      then have "limbs_val num div D = 2 ^ s + x div D" using 2 by simp
      then show ?thesis using n x by simp
    qed
    finally have "limbs_val (div_loop ?pn (bu_sub num dv) (bu_shr dv 1) s) =
        limbs_val pn + (2 ^ s + (limbs_val num div D - 2 ^ s))" by (simp only: p add.assoc)
    moreover have "2 ^ s \<le> limbs_val num div D"
      using True 2 by (simp add: dv less_eq_div_iff_mult_less_eq mult.commute)
    ultimately show ?thesis using 2 True by (simp add: bu_CompareTo_val)
  next
    case False
    have "2 ^ s dvd limbs_val pn" by (simp add: k)
    then have "limbs_val (div_loop pn num (bu_shr dv 1) s) = limbs_val pn + limbs_val num div D"
      using 2 False dv' dv by (intro "2.IH"(2)) (simp_all add: bu_CompareTo_val)
    then show ?thesis using 2 False by (simp add: bu_CompareTo_val)
  qed
qed simp

lemma bu_div_val:
  assumes "length a = length b" and "limbs_val b \<noteq> 0"
  shows "\<exists>q. bu_div a b = Some q \<and> length q = length a \<and> limbs_val q = limbs_val a div limbs_val b"
proof -
  have db: "bu_bits b \<noteq> 0" using assms by (simp add: bu_bits_0_iff)
  note bnd = bu_bits_bounds [of a] bu_bits_bounds [of b]
  show ?thesis
  proof (cases "bu_bits b > bu_bits a")
    case True
    then have "(2 :: nat) ^ bu_bits a \<le> 2 ^ (bu_bits b - 1)" by (intro power_increasing) simp_all
    then have "limbs_val a < limbs_val b" using bnd db by linarith
    then show ?thesis using True db by (simp add: bu_div_def Let_def)
  next
    case False
    let ?s = "bu_bits a - bu_bits b"
    have "limbs_val b * 2 ^ ?s < 2 ^ bu_bits b * 2 ^ ?s" using bnd by simp
    also have "\<dots> = 2 ^ bu_bits a" using False by (simp flip: power_add)
    also have "\<dots> \<le> 2 ^ (32 * length a)" using bu_bits_le [of a] by (intro power_increasing) simp_all
    finally have sh: "limbs_val (bu_shl b ?s) = limbs_val b * 2 ^ ?s"
      using assms by (simp add: bu_shl_val)
    have e: "bu_bits b - 1 + Suc ?s = bu_bits a" using False db by simp
    have "limbs_val a < 2 ^ bu_bits a" by (rule bnd)
    also have "\<dots> = 2 ^ (bu_bits b - 1) * 2 ^ Suc ?s" by (simp only: power_add [symmetric] e)
    also have "\<dots> \<le> limbs_val b * 2 ^ Suc ?s" using bnd(4) db by (intro mult_le_mono1) simp
    finally have "limbs_val (div_loop (replicate (length a) 0) a (bu_shl b ?s) (Suc ?s)) =
        limbs_val (replicate (length a) 0) + limbs_val a div limbs_val b"
      using assms sh bu_bits_le [of a] db False by (intro div_loop_val) simp_all
    then show ?thesis using False db by (simp add: bu_div_def Let_def length_div_loop)
  qed
qed

lemma bu_div_zero: "limbs_val b = 0 \<Longrightarrow> bu_div a b = None"
  by (simp add: bu_div_def bu_bits_0_iff [symmetric])

section \<open>Conversions\<close>

lemma unat_u64_lt: "unat (b :: u64) < 2 ^ 64"
  using unsigned_less [of b, where ?'a = nat] by simp

lemma unat_ucast_u32: "unat (ucast (b :: u64) :: u32) = unat b mod 2 ^ 32"
  by (simp add: unsigned_ucast_eq take_bit_eq_mod)

lemma bu_of_u64_val: "limbs_val (bu_of_u64 W b) = unat b"
proof -
  have "unat b div 2 ^ 32 < 2 ^ 32" using unat_u64_lt [of b] by (simp add: less_mult_imp_div_less)
  then show ?thesis by (simp add: bu_of_u64_def unat_ucast_u32 low_high_u64(2) del: power_numeral)
qed

lemma length_bu_of_u64 [simp]: "2 \<le> W \<Longrightarrow> length (bu_of_u64 W b) = W"
  by (simp add: bu_of_u64_def)

lemma bu_GetLow64_val:
  assumes "2 \<le> length pn"
  shows "unat (bu_GetLow64 pn) = limbs_val pn mod 2 ^ 64"
proof -
  obtain p q ps where pn: "pn = p # q # ps"
    using assms by (metis Suc_le_length_iff numeral_2_eq_2)
  have "bu_GetLow64 pn = ucast p + push_bit 32 (ucast q)"
    by (simp only: bu_GetLow64_def pn nth_Cons_0 One_nat_def nth_Cons_Suc, rule disjunctive_add [symmetric])
      (auto simp: bit_push_bit_iff bit_ucast_iff dest: bit_u32_less)
  also have "\<dots> = ucast p + 2 ^ 32 * ucast q" by (simp add: push_bit_eq_mult mult.commute)
  finally have "unat (bu_GetLow64 pn) = (unat p + 2 ^ 32 * unat q) mod 2 ^ 64"
    by (simp add: unat_word_ariths unat_ucast_u64 mod_simps)
  also have "\<dots> = (unat p + 2 ^ 32 * unat q + 2 ^ 64 * limbs_val ps) mod 2 ^ 64"
    by (simp only: mod_mult_self2)
  finally show ?thesis by (simp add: pn algebra_simps)
qed

section \<open>Properties\<close>

text \<open>
  C15. The operators of base_uint on limbs compute modulo 2^(32*WIDTH): +, -, *, and the shifts,
  with the carries between limbs, are the operations on the numbers; / is integer division and
  throws exactly on a zero divisor; comparison is the order of the numbers.
\<close>

theorem uint_arithmetic:
  assumes "length a = length b"
  shows "limbs_val (bu_add a b) = (limbs_val a + limbs_val b) mod 2 ^ (32 * length a) \<and>
    int (limbs_val (bu_sub a b)) = (int (limbs_val a) - int (limbs_val b)) mod 2 ^ (32 * length a) \<and>
    limbs_val (bu_mul a b) = (limbs_val a * limbs_val b) mod 2 ^ (32 * length a) \<and>
    limbs_val (bu_shl a n) = (limbs_val a * 2 ^ n) mod 2 ^ (32 * length a) \<and>
    limbs_val (bu_shr a n) = limbs_val a div 2 ^ n \<and>
    map_option limbs_val (bu_div a b) =
      (if limbs_val b = 0 then None else Some (limbs_val a div limbs_val b)) \<and>
    bu_CompareTo a b = sgn (int (limbs_val a) - int (limbs_val b))"
proof (intro conjI)
  show "int (limbs_val (bu_sub a b)) = (int (limbs_val a) - int (limbs_val b)) mod 2 ^ (32 * length a)"
    by (rule bu_sub_int [OF assms])
  show "bu_CompareTo a b = sgn (int (limbs_val a) - int (limbs_val b))"
    using bu_CompareTo_val [OF assms] by (simp add: sgn_if)
  show "map_option limbs_val (bu_div a b) =
      (if limbs_val b = 0 then None else Some (limbs_val a div limbs_val b))"
    using bu_div_zero [of b a] bu_div_val [OF assms] by auto
qed (rule bu_add_val [OF assms] bu_mul_val [OF assms] bu_shl_val bu_shr_val)+

theorem uint_arithmetic_witness:
  "limbs_val (bu_mul [0xffffffff, 1] [2, 3]) = (limbs_val [0xffffffff, 1] * limbs_val [2, 3]) mod 2 ^ 64"
  using uint_arithmetic [of "[0xffffffff, 1]" "[2, 3]"] by simp

end
