(* ===== verification/Compact.thy ===== *)
theory Compact
  imports Uint256
begin

section \<open>Compact targets\<close>

text \<open>\<open>*this\<close>, \<open>*pfNegative\<close> and \<open>*pfOverflow\<close>.\<close>

definition SetCompact :: "u32 \<Rightarrow> limbs \<times> bool \<times> bool" where
  "SetCompact nCompact =
     (let nSize = unat (drop_bit 24 nCompact); nWord = nCompact AND 0x007fffff;
          nWord = (if nSize \<le> 3 then drop_bit (8 * (3 - nSize)) nWord else nWord);
          this = (if nSize \<le> 3 then bu_of_u64 8 (ucast nWord)
            else bu_shl (bu_of_u64 8 (ucast nWord)) (8 * (nSize - 3)))
      in (this,
          nWord \<noteq> 0 \<and> nCompact AND 0x00800000 \<noteq> 0,
          nWord \<noteq> 0 \<and>
            (nSize > 34 \<or> (nWord > 0xff \<and> nSize > 33) \<or> (nWord > 0xffff \<and> nSize > 32))))"

text \<open>\<open>None\<close> is a failed assertion.\<close>

definition GetCompact :: "limbs \<Rightarrow> bool \<Rightarrow> u32 option" where
  "GetCompact pn fNegative =
     (let nSize = (bu_bits pn + 7) div 8;
          nCompact = (if nSize \<le> 3 then ucast (push_bit (8 * (3 - nSize)) (bu_GetLow64 pn))
            else ucast (bu_GetLow64 (bu_shr pn (8 * (nSize - 3)))));
          (nCompact, nSize) = (if nCompact AND 0x00800000 \<noteq> 0
            then (drop_bit 8 nCompact, nSize + 1) else (nCompact, nSize))
      in if nCompact AND NOT 0x007fffff \<noteq> 0 then None
         else if \<not> nSize < 256 then None
         else
           (let nCompact = nCompact OR push_bit 24 (of_nat nSize)
            in Some (nCompact OR (if fNegative \<and> nCompact AND 0x007fffff \<noteq> 0 then 0x00800000 else 0))))"

text \<open>Exponent and mantissa of a compact number.\<close>

definition compact_exp :: "u32 \<Rightarrow> nat" where
  "compact_exp c = unat c div 2 ^ 24"

definition compact_mant :: "u32 \<Rightarrow> nat" where
  "compact_mant c = unat c mod 2 ^ 23"

lemma unat_u32_drop_24: "unat (drop_bit 24 (c :: u32)) = compact_exp c"
  by (simp only: compact_exp_def unat_drop_bit_eq drop_bit_eq_div unat_div_distrib) simp

lemma unat_u32_mant: "unat ((c :: u32) AND 0x007fffff) = compact_mant c"
proof -
  have "c AND 0x007fffff = take_bit 23 c" by (simp add: take_bit_eq_mask mask_eq_exp_minus_1)
  then show ?thesis by (simp add: compact_mant_def unsigned_take_bit_eq) (simp add: take_bit_eq_mod)
qed

lemma unat_u32_drop: "unat (drop_bit n (w :: u32)) = unat w div 2 ^ n"
  by (subst unat_drop_bit_eq) (rule drop_bit_eq_div)

text \<open>The word the mantissa is shifted to.\<close>

definition compact_word :: "u32 \<Rightarrow> u32" where
  "compact_word c = (if compact_exp c \<le> 3 then drop_bit (8 * (3 - compact_exp c)) (c AND 0x007fffff)
     else c AND 0x007fffff)"

lemma SetCompact_eq:
  "SetCompact c =
     ((if compact_exp c \<le> 3 then bu_of_u64 8 (ucast (compact_word c))
       else bu_shl (bu_of_u64 8 (ucast (compact_word c))) (8 * (compact_exp c - 3))),
      compact_word c \<noteq> 0 \<and> c AND 0x00800000 \<noteq> 0,
      compact_word c \<noteq> 0 \<and> (compact_exp c > 34 \<or> (compact_word c > 0xff \<and> compact_exp c > 33) \<or>
        (compact_word c > 0xffff \<and> compact_exp c > 32)))"
  by (simp add: SetCompact_def compact_word_def unat_u32_drop_24 Let_def)

lemma pow_256: "(256 :: nat) ^ k = 2 ^ (8 * k)"
  by (simp add: power_mult)

lemma unat_compact_word:
  "unat (compact_word c) = (if compact_exp c \<le> 3 then compact_mant c div 256 ^ (3 - compact_exp c)
     else compact_mant c)"
  by (cases "compact_exp c \<le> 3")
    (simp_all only: compact_word_def if_True if_False unat_u32_drop unat_u32_mant pow_256 simp_thms)

lemma length_SetCompact [simp]: "length (fst (SetCompact c)) = 8"
  by (simp add: SetCompact_eq)

lemma SetCompact_val:
  "limbs_val (fst (SetCompact c)) =
     (if compact_exp c \<le> 3 then compact_mant c div 256 ^ (3 - compact_exp c)
      else (compact_mant c * 256 ^ (compact_exp c - 3)) mod 2 ^ 256)"
  by (simp add: SetCompact_eq bu_of_u64_val bu_shl_val unat_ucast_u64 unat_compact_word pow_256)

lemma compact_mant_less: "compact_mant c < 2 ^ 23"
  by (simp add: compact_mant_def)

lemma pow_mult_le_iff: "(2 :: nat) ^ a \<le> m * 2 ^ b \<longleftrightarrow> (if b \<le> a then 2 ^ (a - b) \<le> m else 0 < m)"
proof (cases "b \<le> a")
  case True
  then have "(2 :: nat) ^ a = 2 ^ (a - b) * 2 ^ b" by (simp flip: power_add)
  then show ?thesis using True by simp
next
  case False
  then have "(2 :: nat) ^ a \<le> 2 ^ b" by (intro power_increasing) simp_all
  then show ?thesis using False by (cases m) (auto intro: trans_le_add1)
qed

lemma SetCompact_overflow:
  "snd (snd (SetCompact c)) \<longleftrightarrow> 2 ^ 256 \<le> compact_mant c * 256 ^ (compact_exp c - 3)"
proof -
  let ?m = "compact_mant c" and ?e = "compact_exp c"
  have m: "?m < 2 ^ 23" by (rule compact_mant_less)
  show ?thesis
  proof (cases "?e \<le> 32")
    case True
    have "8 * (?e - 3) \<le> 232" using True by simp
    then have "\<not> 2 ^ 256 \<le> ?m * 2 ^ (8 * (?e - 3))"
    proof -
      have "(2 :: nat) ^ 23 \<le> 2 ^ (256 - 8 * (?e - 3))" using True by (intro power_increasing) simp_all
      then show ?thesis unfolding pow_mult_le_iff using m True by auto
    qed
    then show ?thesis using True by (simp add: SetCompact_eq pow_256)
  next
    case False
    have w: "unat (compact_word c) = ?m" using False by (simp add: unat_compact_word)
    have gt: "compact_word c > of_nat k \<longleftrightarrow> k < ?m" if "k < 2 ^ 32" for k
      using that by (simp add: word_less_nat_alt w unat_of_nat)
    have nz: "compact_word c \<noteq> 0 \<longleftrightarrow> 0 < ?m" using w by (metis gr0I unat_0 unat_eq_0 not_gr0)
    have g: "compact_word c > 0xff \<longleftrightarrow> 2 ^ 8 \<le> ?m" "compact_word c > 0xffff \<longleftrightarrow> 2 ^ 16 \<le> ?m"
      using gt [of 255] gt [of 65535] by auto
    have l: "2 ^ 256 \<le> ?m * 256 ^ (?e - 3) \<longleftrightarrow>
        (if 8 * (?e - 3) \<le> 256 then 2 ^ (256 - 8 * (?e - 3)) \<le> ?m else 0 < ?m)"
      unfolding pow_256 by (rule pow_mult_le_iff)
    consider "?e = 33" | "?e = 34" | "?e = 35" | "?e > 35" using False by linarith
    then show ?thesis unfolding l by cases (auto simp: SetCompact_eq nz g)
  qed
qed

lemma SetCompact_negative:
  "fst (snd (SetCompact c)) \<longleftrightarrow> bit c 23 \<and> compact_word c \<noteq> 0"
proof -
  have "c AND 0x00800000 \<noteq> 0 \<longleftrightarrow> bit c 23" using and_exp_eq_0_iff_not_bit [of c 23] by simp
  then show ?thesis by (auto simp: SetCompact_eq)
qed

section \<open>GetCompact\<close>

lemma eq_of_nat_u32: "unat (w :: u32) = k \<Longrightarrow> w = of_nat k"
  by auto

text \<open>The number of bytes of a number and its leading three bytes.\<close>

definition byte_size :: "limbs \<Rightarrow> nat" where
  "byte_size pn = (bu_bits pn + 7) div 8"

definition top3 :: "nat \<Rightarrow> nat \<Rightarrow> nat" where
  "top3 n v = (if n \<le> 3 then v * 256 ^ (3 - n) else v div 256 ^ (n - 3))"

lemma byte_size_bounds:
  "limbs_val pn < 256 ^ byte_size pn" "byte_size pn \<noteq> 0 \<Longrightarrow> 256 ^ (byte_size pn - 1) \<le> limbs_val pn"
proof -
  have "bu_bits pn \<le> 8 * byte_size pn" by (simp add: byte_size_def)
  then have "(2 :: nat) ^ bu_bits pn \<le> 256 ^ byte_size pn" unfolding pow_256 by (intro power_increasing) simp_all
  then show "limbs_val pn < 256 ^ byte_size pn" using bu_bits_bounds(1) [of pn] by linarith
  assume "byte_size pn \<noteq> 0"
  then have "8 * (byte_size pn - 1) \<le> bu_bits pn - 1" "bu_bits pn \<noteq> 0" by (auto simp: byte_size_def)
  then have "(256 :: nat) ^ (byte_size pn - 1) \<le> 2 ^ (bu_bits pn - 1)"
    unfolding pow_256 by (intro power_increasing) simp_all
  then show "256 ^ (byte_size pn - 1) \<le> limbs_val pn"
    using bu_bits_bounds(2) [of pn] \<open>bu_bits pn \<noteq> 0\<close> by linarith
qed

lemma top3_less: "v < 256 ^ n \<Longrightarrow> top3 n v < 2 ^ 24"
proof -
  assume v: "v < 256 ^ n"
  have p: "(256 :: nat) ^ 3 = 2 ^ 24" by simp
  show ?thesis
  proof (cases "n \<le> 3")
    case True
    have "v * 256 ^ (3 - n) < 256 ^ n * 256 ^ (3 - n)" using v by simp
    also have "\<dots> = 256 ^ 3" using True by (simp flip: power_add)
    finally show ?thesis using True p by (simp add: top3_def)
  next
    case False
    then have "3 + (n - 3) = n" by simp
    then have "(256 :: nat) ^ n = 256 ^ 3 * 256 ^ (n - 3)" by (simp only: power_add [symmetric])
    then have "v < 256 ^ 3 * 256 ^ (n - 3)" using v by simp
    then have "v div 256 ^ (n - 3) < 256 ^ 3" by (rule less_mult_imp_div_less)
    then show ?thesis using False p by (simp add: top3_def)
  qed
qed

lemma compact_word_top3:
  assumes "length pn = 8" and "n = byte_size pn"
  shows "unat ((if n \<le> 3 then ucast (push_bit (8 * (3 - n)) (bu_GetLow64 pn))
      else ucast (bu_GetLow64 (bu_shr pn (8 * (n - 3))))) :: u32) = top3 n (limbs_val pn)"
proof -
  have t: "top3 n (limbs_val pn) < 2 ^ 24" using byte_size_bounds(1) assms(2) by (intro top3_less) simp
  show ?thesis
  proof (cases "n \<le> 3")
    case True
    have tv: "limbs_val pn * 2 ^ (8 * (3 - n)) < 2 ^ 24" using t True by (simp add: top3_def pow_256)
    moreover have "limbs_val pn \<le> limbs_val pn * 2 ^ (8 * (3 - n))" by simp
    ultimately have v: "limbs_val pn < 2 ^ 24" by linarith
    have "unat (push_bit (8 * (3 - n)) (bu_GetLow64 pn)) = (limbs_val pn * 2 ^ (8 * (3 - n))) mod 2 ^ 64"
      using assms v by (subst unsigned_push_bit_eq) (simp add: bu_GetLow64_val take_bit_eq_mod push_bit_eq_mult)
    then show ?thesis using True tv by (simp add: unat_ucast_u32 top3_def pow_256)
  next
    case False
    have "unat (bu_GetLow64 (bu_shr pn (8 * (n - 3)))) = top3 n (limbs_val pn) mod 2 ^ 64"
      using assms False by (simp add: bu_GetLow64_val bu_shr_val top3_def pow_256)
    then show ?thesis using False t by (simp add: unat_ucast_u32)
  qed
qed

text \<open>Mantissa and exponent after the sign bit has been cleared.\<close>

definition norm_compact :: "nat \<Rightarrow> nat \<Rightarrow> nat \<times> nat" where
  "norm_compact m n = (if 2 ^ 23 \<le> m then (m div 256, n + 1) else (m, n))"

lemma no_high_bits:
  assumes "m < 2 ^ j" and "j \<le> 32" and "j \<le> k"
  shows "\<not> bit (of_nat m :: u32) k"
proof -
  have "(2 :: nat) ^ j \<le> 2 ^ k" using assms(3) by (intro power_increasing) simp_all
  then have "m div 2 ^ k = 0" using assms(1) by (intro div_less) linarith
  then have "\<not> bit m k" by (simp add: bit_iff_odd)
  moreover have "(2 :: nat) ^ j \<le> 2 ^ 32" using assms(2) by (intro power_increasing) simp_all
  then have "m < 2 ^ 32" using assms(1) by linarith
  then have "unat (of_nat m :: u32) = m" by (simp only: unat_of_nat) simp
  ultimately show ?thesis by (metis bit_unat_u32)
qed

lemma or_add_u32:
  assumes "m < 2 ^ 24" and "n < 256"
  shows "unat ((of_nat m :: u32) OR push_bit 24 (of_nat n)) = m + n * 2 ^ 24"
proof -
  have l: "m + n * 2 ^ 24 < 2 ^ 32" using assms by simp
  have nb: "\<not> bit (of_nat m :: u32) k" if "24 \<le> k" for k
    using no_high_bits [OF assms(1) _ that] by simp
  have "(of_nat m :: u32) OR push_bit 24 (of_nat n) = of_nat m + push_bit 24 (of_nat n)"
    by (rule disjunctive_add [symmetric]) (use nb in \<open>auto simp: bit_push_bit_iff\<close>)
  also have "\<dots> = of_nat (m + n * 2 ^ 24)" by (simp add: push_bit_eq_mult)
  finally show ?thesis using l by (simp only: unat_of_nat) simp
qed

lemma GetCompact_val:
  assumes "length pn = 8"
  shows "\<exists>c. GetCompact pn False = Some c \<and>
    (case norm_compact (top3 (byte_size pn) (limbs_val pn)) (byte_size pn) of
       (m, n) \<Rightarrow> m < 2 ^ 23 \<and> n < 256 \<and> unat c = m + n * 2 ^ 24)"
proof -
  let ?n = "byte_size pn" and ?t = "top3 (byte_size pn) (limbs_val pn)"
  let ?w = "(if ?n \<le> 3 then ucast (push_bit (8 * (3 - ?n)) (bu_GetLow64 pn))
      else ucast (bu_GetLow64 (bu_shr pn (8 * (?n - 3))))) :: u32"
  have w: "unat ?w = ?t" using compact_word_top3 [OF assms refl] .
  have t: "?t < 2 ^ 24" using byte_size_bounds(1) by (rule top3_less)
  have n: "?n \<le> 32" using bu_bits_le [of pn] assms by (simp add: byte_size_def)
  have s: "?w AND 0x00800000 \<noteq> 0 \<longleftrightarrow> 2 ^ 23 \<le> ?t"
  proof -
    have "?w AND 0x00800000 \<noteq> 0 \<longleftrightarrow> bit ?w 23" using and_exp_eq_0_iff_not_bit [of ?w 23] by simp
    also have "\<dots> \<longleftrightarrow> odd (?t div 2 ^ 23)" unfolding w [symmetric] bit_unat_u32 [symmetric] bit_iff_odd ..
    also have "\<dots> \<longleftrightarrow> 2 ^ 23 \<le> ?t"
    proof -
      have "?t div 2 ^ 23 = (if 2 ^ 23 \<le> ?t then 1 else 0)" using t by (auto intro: div_nat_eqI)
      then show ?thesis by simp
    qed
    finally show ?thesis .
  qed
  obtain m k where mk: "norm_compact ?t ?n = (m, k)" by (metis prod.collapse)
  let ?p = "if ?w AND 0x00800000 \<noteq> 0 then (drop_bit 8 ?w, ?n + 1) else (?w, ?n)"
  have p: "?p = (of_nat m, k)"
  proof -
    have "?w = of_nat ?t" using w by (rule eq_of_nat_u32)
    moreover have "drop_bit 8 ?w = of_nat (?t div 256)"
      by (rule eq_of_nat_u32) (simp only: unat_u32_drop w, simp)
    ultimately show ?thesis using s mk by (auto simp: norm_compact_def split: if_splits)
  qed
  have m: "m < 2 ^ 23" "k < 256" using mk t n by (auto simp: norm_compact_def split: if_splits)
  have a: "(of_nat m :: u32) AND NOT 0x007fffff = 0"
  proof -
    have "(0x007fffff :: u32) = mask 23" by (simp add: mask_eq_exp_minus_1)
    moreover have "(of_nat m :: u32) AND NOT (mask 23) = 0"
    proof (rule bit_word_eqI)
      fix n
      show "bit ((of_nat m :: u32) AND NOT (mask 23)) n = bit (0 :: u32) n"
        using no_high_bits [OF m(1), of n] by (cases "23 \<le> n") (simp_all add: bit_and_iff bit_not_iff bit_mask_iff)
    qed
    ultimately show ?thesis by simp
  qed
  have "GetCompact pn False = Some (of_nat m OR push_bit 24 (of_nat k))"
    using a m(2) p unfolding GetCompact_def byte_size_def Let_def by simp
  moreover have "unat ((of_nat m :: u32) OR push_bit 24 (of_nat k)) = m + k * 2 ^ 24"
    using m by (intro or_add_u32) simp_all
  ultimately show ?thesis using mk m by simp
qed

text \<open>What \<open>SetCompact\<close> makes of a mantissa and an exponent.\<close>

lemma compact_parts:
  assumes "unat c = m + n * 2 ^ 24" and "m < 2 ^ 23"
  shows "compact_exp c = n" and "compact_mant c = m"
proof -
  have "m + n * 2 ^ 24 = m + 2 ^ 23 * (2 * n)" by simp
  then show "compact_mant c = m" using assms by (simp only: compact_mant_def mod_mult_self2 mod_less)
  show "compact_exp c = n" using assms by (simp add: compact_exp_def)
qed

lemma div_256_diff: "v div 256 ^ k div 256 = v div (256 * (256 :: nat) ^ k)"
  by (simp add: div_mult2_eq [symmetric] mult.commute)

text \<open>The mantissa \<open>GetCompact\<close> stores is the number without its low bytes.\<close>

lemma norm_compact_val:
  assumes "norm_compact (top3 n v) n = (m, k)"
  shows "(if k \<le> 3 then m div 256 ^ (3 - k) else m * 256 ^ (k - 3)) = v div 256 ^ (k - 3) * 256 ^ (k - 3)"
proof (cases "2 ^ 23 \<le> top3 n v")
  case False
  then have "m = top3 n v" "k = n" using assms by (auto simp: norm_compact_def)
  then show ?thesis by (simp add: top3_def)
next
  case True
  then have m: "m = top3 n v div 256" and k: "k = Suc n" using assms by (auto simp: norm_compact_def)
  consider "n < 3" | "n = 3" | "3 < n" by linarith
  then show ?thesis
  proof cases
    case 1
    then have "(256 :: nat) ^ (3 - n) = 256 * 256 ^ (3 - k)" by (simp add: k Suc_diff_Suc flip: power_Suc)
    then have "m = v * 256 ^ (3 - k)" using 1 by (simp add: m top3_def)
    then show ?thesis using 1 k by simp
  next
    case 2
    then show ?thesis by (simp add: m k top3_def)
  next
    case 3
    then have "k - 3 = Suc (n - 3)" using k by simp
    then show ?thesis using 3 k by (simp add: m top3_def div_256_diff)
  qed
qed

lemma compact_roundtrip:
  assumes "length pn = 8"
  shows "\<exists>c. GetCompact pn False = Some c \<and>
    limbs_val (fst (SetCompact c)) =
      limbs_val pn div 256 ^ (compact_exp c - 3) * 256 ^ (compact_exp c - 3) \<and>
    \<not> fst (snd (SetCompact c)) \<and> \<not> snd (snd (SetCompact c))"
proof -
  obtain m n where mn: "norm_compact (top3 (byte_size pn) (limbs_val pn)) (byte_size pn) = (m, n)"
    by (metis prod.collapse)
  obtain c where c: "GetCompact pn False = Some c" "m < 2 ^ 23" "unat c = m + n * 2 ^ 24"
    using GetCompact_val [OF assms] mn by auto
  note p = compact_parts [OF c(3,2)]
  note v = norm_compact_val [OF mn]
  have "limbs_val pn div 256 ^ (n - 3) * 256 ^ (n - 3) \<le> limbs_val pn" by simp
  moreover have "limbs_val pn < 2 ^ 256" using limbs_val_less [of pn] assms by simp
  ultimately have lt: "limbs_val pn div 256 ^ (n - 3) * 256 ^ (n - 3) < 2 ^ 256" by (rule le_less_trans)
  have no: "\<not> 2 ^ 256 \<le> m * 256 ^ (n - 3)"
  proof (cases "n \<le> 3")
    case True
    then show ?thesis using c(2) by simp
  next
    case False
    then show ?thesis using v lt by simp
  qed
  have "limbs_val (fst (SetCompact c)) = limbs_val pn div 256 ^ (n - 3) * 256 ^ (n - 3)"
    using v lt by (cases "n \<le> 3") (simp_all add: SetCompact_val p)
  moreover have "\<not> bit c 23"
  proof -
    have "unat c div 2 ^ 23 = 2 * n"
    proof -
      have "m + n * 2 ^ 24 = m + 2 ^ 23 * (2 * n)" by simp
      then show ?thesis using c by (simp only: div_mult_self2) simp
    qed
    then show ?thesis unfolding bit_unat_u32 [symmetric] bit_iff_odd by simp
  qed
  ultimately show ?thesis using c no by (simp add: SetCompact_overflow SetCompact_negative p)
qed

text \<open>The mantissa \<open>GetCompact\<close> chooses has at least 16 significant bits.\<close>

lemma top3_ge: "n \<noteq> 0 \<Longrightarrow> 256 ^ (n - 1) \<le> v \<Longrightarrow> 2 ^ 16 \<le> top3 n v"
proof -
  assume n: "n \<noteq> 0" and v: "256 ^ (n - 1) \<le> v"
  have p: "(256 :: nat) ^ 2 = 2 ^ 16" by simp
  show ?thesis
  proof (cases "n \<le> 3")
    case True
    then have "n - 1 + (3 - n) = 2" using n by simp
    then have "(256 :: nat) ^ 2 = 256 ^ (n - 1) * 256 ^ (3 - n)" by (simp only: power_add [symmetric])
    also have "\<dots> \<le> v * 256 ^ (3 - n)" using v by (rule mult_le_mono1)
    finally show ?thesis using True p by (simp add: top3_def)
  next
    case False
    then have "2 + (n - 3) = n - 1" by simp
    then have "(256 :: nat) ^ 2 * 256 ^ (n - 3) \<le> v" using v by (simp only: power_add [symmetric])
    then have "256 ^ 2 \<le> v div 256 ^ (n - 3)" by (simp add: less_eq_div_iff_mult_less_eq)
    then show ?thesis using False p by (simp add: top3_def)
  qed
qed

lemma GetCompact_mant:
  assumes "length pn = 8" and "GetCompact pn False = Some c" and "limbs_val pn \<noteq> 0"
  shows "2 ^ 15 \<le> compact_mant c"
proof -
  obtain m n where mn: "norm_compact (top3 (byte_size pn) (limbs_val pn)) (byte_size pn) = (m, n)"
    by (metis prod.collapse)
  then have c: "m < 2 ^ 23" "unat c = m + n * 2 ^ 24"
    using GetCompact_val [OF assms(1)] assms(2) by auto
  have "byte_size pn \<noteq> 0" using byte_size_bounds(1) [of pn] assms(3) by (metis less_one power_0)
  then have "2 ^ 16 \<le> top3 (byte_size pn) (limbs_val pn)" using byte_size_bounds(2) by (intro top3_ge)
  then have "2 ^ 15 \<le> m" using mn by (auto simp: norm_compact_def split: if_splits)
  then show ?thesis using compact_parts(2) [OF c(2,1)] by simp
qed

section \<open>Properties\<close>

text \<open>
  C16. SetCompact raises its overflow flag exactly when mantissa times 256^(exponent-3) does not
  fit 256 bits; GetCompact never fails, its result decodes without sign or overflow and loses only
  the low bytes below its exponent.
\<close>

theorem compact_encoding:
  assumes "length pn = 8"
  shows "(\<forall>c. snd (snd (SetCompact c)) = (2 ^ 256 \<le> compact_mant c * 256 ^ (compact_exp c - 3))) \<and>
    (\<exists>c. GetCompact pn False = Some c \<and> \<not> fst (snd (SetCompact c)) \<and> \<not> snd (snd (SetCompact c)) \<and>
      limbs_val (fst (SetCompact c)) =
        limbs_val pn div 256 ^ (compact_exp c - 3) * 256 ^ (compact_exp c - 3))"
proof (intro conjI allI)
  show "snd (snd (SetCompact c)) = (2 ^ 256 \<le> compact_mant c * 256 ^ (compact_exp c - 3))" for c
    by (rule SetCompact_overflow)
qed (use compact_roundtrip [OF assms] in blast)

theorem compact_encoding_witness:
  "\<exists>c. GetCompact (replicate 8 0xffffffff) False = Some c \<and> \<not> snd (snd (SetCompact c))"
  using compact_encoding [of "replicate 8 0xffffffff"] by auto

end
