(* ===== verification/Pow.thy ===== *)
theory Pow
  imports Compact "HOL-Library.Signed_Division"
begin

text \<open>
  Difficulty (\<open>src/pow.cpp\<close>): the next target, the check of a hash against a target, the work a
  block stands for. The block index a function walks back from is the list of its entries, the
  last block first, so \<open>pprev\<close> is the tail and a null pointer the empty list. \<open>Params()\<close> and the
  height of the second staking protocol are arguments. \<open>None\<close> is a null pointer followed, a
  failed assertion or a division by zero.
\<close>

record CBlockIndex =
  bi_nHeight :: int
  bi_nTime :: u32
  bi_nBits :: u32

record CChainParams =
  ProofOfWorkLimit :: limbs
  LAST_POW_BLOCK :: int
  SkipProofOfWorkCheck :: bool

definition GetBlockTime :: "'a CBlockIndex_scheme \<Rightarrow> int" where
  "GetBlockTime b = uint (bi_nTime b)"

definition REWARDFORK_BLOCK :: int where
  "REWARDFORK_BLOCK = 1141660"

definition bu_gt :: "limbs \<Rightarrow> limbs \<Rightarrow> bool" where
  "bu_gt a b \<longleftrightarrow> bu_CompareTo a b > 0"

definition uint256_of :: "u64 \<Rightarrow> limbs" where
  "uint256_of b = bu_of_u64 8 b"

text \<open>The limit of the first algorithm.\<close>

definition bnPowLimit :: limbs where
  "bnPowLimit = replicate 7 0xffffffff @ [0]"

definition get_compact :: "limbs \<Rightarrow> u32 option" where
  "get_compact bn = GetCompact bn False"

text \<open>\<open>nTargetSpacing\<close> is 60, \<open>nTargetTimespan\<close> 30 minutes. The factor is converted to
  \<open>uint32_t\<close>, the divisor to \<open>uint256\<close>.\<close>

definition retarget_new :: "CChainParams \<Rightarrow> u32 \<Rightarrow> int \<Rightarrow> u32 option" where
  "retarget_new params nBits nActualTimespan =
     (let nTargetSpacing = 60; nTargetTimespan = 30 * 60; bnNew = fst (SetCompact nBits)
      in if bnNew = ProofOfWorkLimit params \<and> nActualTimespan \<ge> nTargetSpacing then get_compact bnNew
         else
           (let nInterval = nTargetTimespan sdiv nTargetSpacing;
                bnNew = bu_mul32 bnNew
                  (of_int ((nInterval - 1) * nTargetSpacing + nActualTimespan + nActualTimespan))
            in case bu_div bnNew (uint256_of (of_int ((nInterval + 1) * nTargetSpacing))) of
                 None \<Rightarrow> None
               | Some bnNew \<Rightarrow>
                   (let bnNew = if bu_EqualTo bnNew 0 \<or> bu_gt bnNew (ProofOfWorkLimit params)
                      then ProofOfWorkLimit params else bnNew
                    in get_compact bnNew)))"

definition retarget_first :: "CChainParams \<Rightarrow> int \<Rightarrow> u32 \<Rightarrow> int \<Rightarrow> u32 option" where
  "retarget_first params nHeight nBits nActualTimespan =
     (let bnNew = fst (SetCompact nBits);
          bnNew = bu_mul32 bnNew (of_int nActualTimespan)
      in case bu_div bnNew (uint256_of 60) of
           None \<Rightarrow> None
         | Some bnNew \<Rightarrow>
             (let bnNew = if bu_gt bnNew bnPowLimit then bnPowLimit else bnNew
              in case get_compact bnNew of
                   None \<Rightarrow> None
                 | Some c \<Rightarrow>
                     (let bnNew = if nHeight < LAST_POW_BLOCK params + 2 \<and> c > 469827583
                        then fst (SetCompact 469827583) else bnNew
                      in get_compact bnNew)))"

definition retarget_old :: "CChainParams \<Rightarrow> u32 \<Rightarrow> int \<Rightarrow> u32 option" where
  "retarget_old params nBits nActualTimespan =
     (let bnNew = fst (SetCompact nBits)
      in if bnNew = ProofOfWorkLimit params \<and> nActualTimespan \<ge> 60 then get_compact bnNew
         else
           (case bu_div bnNew (uint256_of 60) of
              None \<Rightarrow> None
            | Some bnNew \<Rightarrow>
                (let bnNew = bu_mul32 bnNew (of_int nActualTimespan);
                     bnNew = if bu_gt bnNew (ProofOfWorkLimit params) then ProofOfWorkLimit params
                       else bnNew
                 in get_compact bnNew)))"

text \<open>\<open>while (pindexFirst->nHeight > nHeightFirst) pindexFirst = pindexFirst->pprev\<close>.\<close>

fun find_first :: "int \<Rightarrow> CBlockIndex list \<Rightarrow> CBlockIndex option" where
  "find_first nHeightFirst [] = None"
| "find_first nHeightFirst (b # bs) =
     (if bi_nHeight b > nHeightFirst then find_first nHeightFirst bs else Some b)"

definition clamp :: "int \<Rightarrow> int \<Rightarrow> int \<Rightarrow> int" where
  "clamp lo hi x = (if x < lo then lo else if x > hi then hi else x)"

definition GetNextWorkRequired :: "CChainParams \<Rightarrow> int \<Rightarrow> CBlockIndex list \<Rightarrow> u32 option" where
  "GetNextWorkRequired params spork13 pindexLast =
     (case pindexLast of
        [] \<Rightarrow> get_compact (ProofOfWorkLimit params)
      | tip # prev \<Rightarrow>
          if bi_nHeight tip \<le> LAST_POW_BLOCK params then get_compact (ProofOfWorkLimit params)
          else if bi_nHeight tip + 1 \<ge> REWARDFORK_BLOCK then
            (if bi_nHeight tip + 1 = REWARDFORK_BLOCK then retarget_new params (bi_nBits tip) 300
             else
               (case prev of
                  [] \<Rightarrow> None
                | p # _ \<Rightarrow>
                    (let nActualTimespan = GetBlockTime tip - GetBlockTime p;
                         nActualTimespan =
                           (if nActualTimespan < 0 then 1
                            else if nActualTimespan > 60 * 10 then 60 * 10 else nActualTimespan)
                     in retarget_new params (bi_nBits tip) nActualTimespan)))
          else if bi_nHeight tip < 6538 then
            (case prev of
               [] \<Rightarrow> None
             | p # _ \<Rightarrow> retarget_first params (bi_nHeight tip) (bi_nBits tip)
                 (clamp 30 120 (GetBlockTime tip - GetBlockTime p)))
          else if bi_nHeight tip + 1 = spork13 then retarget_old params (bi_nBits tip) 2000
          else if bi_nHeight tip smod 10 \<noteq> 1 then Some (bi_nBits tip)
          else
            (case find_first (bi_nHeight tip - 10) prev of
               None \<Rightarrow> None
             | Some first \<Rightarrow> retarget_old params (bi_nBits tip)
                 (clamp 30 120 ((GetBlockTime tip - GetBlockTime first) sdiv 10))))"

text \<open>The call of \<open>error\<close> for a target out of range writes a message; its result is not
  returned.\<close>

definition CheckProofOfWork :: "CChainParams \<Rightarrow> limbs \<Rightarrow> u32 \<Rightarrow> bool" where
  "CheckProofOfWork params h nBits =
     (if SkipProofOfWorkCheck params then True
      else
        (case SetCompact nBits of
           (bnTarget, fNegative, fOverflow) \<Rightarrow> if bu_gt h bnTarget then False else True))"

definition GetBlockProof :: "u32 \<Rightarrow> limbs option" where
  "GetBlockProof nBits =
     (case SetCompact nBits of
        (bnTarget, fNegative, fOverflow) \<Rightarrow>
          if fNegative \<or> fOverflow \<or> bu_EqualTo bnTarget 0 then Some (uint256_of 0)
          else map_option (\<lambda>q. bu_add q (uint256_of 1))
            (bu_div (bu_not bnTarget) (bu_add bnTarget (uint256_of 1))))"

section \<open>Comparisons as numbers\<close>

lemma bu_gt_val: "length a = length b \<Longrightarrow> bu_gt a b \<longleftrightarrow> limbs_val b < limbs_val a"
  by (simp add: bu_gt_def bu_CompareTo_val)

lemma uint256_of_val [simp]: "limbs_val (uint256_of b) = unat b"
  by (simp add: uint256_of_def bu_of_u64_val)

lemma length_uint256_of [simp]: "length (uint256_of b) = 8"
  by (simp add: uint256_of_def)

lemma bu_EqualTo_0:
  assumes "length pn = 8"
  shows "bu_EqualTo pn 0 \<longleftrightarrow> limbs_val pn = 0"
proof -
  obtain p ps' where p: "pn = p # ps'" using assms by (cases pn) auto
  obtain q ps where q: "ps' = q # ps" using assms p by (cases ps') auto
  have u: "ucast (w :: u32) = (0 :: u64) \<longleftrightarrow> w = 0" for w
    by (metis unat_eq_0 unat_ucast_u64 unsigned_0)
  show ?thesis by (auto simp: bu_EqualTo_def p q u limbs_val_0_iff unat_eq_0)
qed

lemma get_compact_total:
  assumes "length bn = 8"
  obtains c where "get_compact bn = Some c" and "limbs_val (fst (SetCompact c)) \<le> limbs_val bn"
  using compact_roundtrip [OF assms] by (auto simp: get_compact_def)

section \<open>The retarget formulas\<close>

definition wf_params :: "CChainParams \<Rightarrow> bool" where
  "wf_params params \<longleftrightarrow> length (ProofOfWorkLimit params) = 8"

abbreviation compact_target :: "u32 \<Rightarrow> nat" where
  "compact_target c \<equiv> limbs_val (fst (SetCompact c))"

lemma div_uint256:
  assumes "length bn = 8" and "unat d \<noteq> 0"
  obtains q where "bu_div bn (uint256_of d) = Some q" "length q = 8"
    "limbs_val q = limbs_val bn div unat d"
  using bu_div_val [of bn "uint256_of d"] assms by auto

lemma unat_of_int_u32: "0 \<le> k \<Longrightarrow> k < 2 ^ 32 \<Longrightarrow> unat (of_int k :: u32) = nat k"
  by (simp add: unat_eq_nat_uint uint_word_of_int)

text \<open>Every block target the third algorithm sets is the scaled target, cut off at the limit.\<close>

definition new_target :: "nat \<Rightarrow> nat \<Rightarrow> nat \<Rightarrow> nat" where
  "new_target limit t k =
     (let x = t * k mod 2 ^ 256 div 1860 in if x = 0 \<or> limit < x then limit else x)"

lemma retarget_new_val:
  assumes "wf_params params" and "0 \<le> dt" and "dt \<le> 600"
    and "\<not> (fst (SetCompact nBits) = ProofOfWorkLimit params \<and> 60 \<le> dt)"
  shows "\<exists>bn. length bn = 8 \<and> retarget_new params nBits dt = get_compact bn \<and>
    limbs_val bn = new_target (limbs_val (ProofOfWorkLimit params)) (compact_target nBits)
      (nat (1740 + 2 * dt))"
proof -
  let ?k = "29 * 60 + dt + dt" and ?m = "bu_mul32 (fst (SetCompact nBits)) (of_int (29 * 60 + dt + dt))"
  have u: "unat (of_int ?k :: u32) = nat (1740 + 2 * dt)"
    using assms by (subst unat_of_int_u32) (simp_all add: algebra_simps)
  obtain q where q: "bu_div ?m (uint256_of 1860) = Some q" "length q = 8"
    "limbs_val q = limbs_val ?m div unat (1860 :: u64)"
    by (rule div_uint256 [of ?m 1860]) simp_all
  have qv: "limbs_val q = compact_target nBits * nat (1740 + 2 * dt) mod 2 ^ 256 div 1860"
    using q(3) u by (simp add: bu_mul32_val)
  let ?bn = "if bu_EqualTo q 0 \<or> bu_gt q (ProofOfWorkLimit params) then ProofOfWorkLimit params else q"
  have "retarget_new params nBits dt = get_compact ?bn"
    using assms(4) q(1) by (auto simp: retarget_new_def Let_def)
  moreover have "limbs_val ?bn = new_target (limbs_val (ProofOfWorkLimit params)) (compact_target nBits)
      (nat (1740 + 2 * dt))"
    using q(2) qv assms(1) by (simp add: new_target_def Let_def bu_EqualTo_0 bu_gt_val wf_params_def)
  ultimately show ?thesis using q(2) assms(1)
    by (intro exI [of _ ?bn]) (simp add: wf_params_def)
qed

lemma retarget_new_le:
  assumes "wf_params params" and "0 \<le> dt" and "dt \<le> 600"
  shows "\<exists>c. retarget_new params nBits dt = Some c \<and>
    compact_target c \<le> limbs_val (ProofOfWorkLimit params)"
proof (cases "fst (SetCompact nBits) = ProofOfWorkLimit params \<and> 60 \<le> dt")
  case True
  obtain c where "get_compact (ProofOfWorkLimit params) = Some c"
    "compact_target c \<le> limbs_val (ProofOfWorkLimit params)"
    by (rule get_compact_total [of "ProofOfWorkLimit params"]) (use assms in \<open>simp_all add: wf_params_def\<close>)
  then show ?thesis using True by (simp add: retarget_new_def Let_def)
next
  case False
  obtain bn where b: "length bn = 8" "retarget_new params nBits dt = get_compact bn"
    "limbs_val bn = new_target (limbs_val (ProofOfWorkLimit params)) (compact_target nBits) (nat (1740 + 2 * dt))"
    using retarget_new_val [OF assms False] by blast
  obtain c where c: "get_compact bn = Some c" "compact_target c \<le> limbs_val bn"
    using get_compact_total [OF b(1)] by blast
  have "limbs_val bn \<le> limbs_val (ProofOfWorkLimit params)" by (simp add: b(3) new_target_def Let_def)
  then show ?thesis using b(2) c by auto
qed

lemma retarget_old_le:
  assumes "wf_params params"
  shows "\<exists>c. retarget_old params nBits dt = Some c \<and>
    compact_target c \<le> limbs_val (ProofOfWorkLimit params)"
proof -
  let ?L = "ProofOfWorkLimit params"
  obtain q where q: "bu_div (fst (SetCompact nBits)) (uint256_of 60) = Some q" "length q = 8"
    by (rule div_uint256 [of "fst (SetCompact nBits)" 60]) simp_all
  let ?m = "bu_mul32 q (of_int dt)"
  let ?bn = "if fst (SetCompact nBits) = ?L \<and> 60 \<le> dt then fst (SetCompact nBits)
    else if bu_gt ?m ?L then ?L else ?m"
  have b: "length ?bn = 8" "limbs_val ?bn \<le> limbs_val ?L"
    using assms q(2) by (auto simp: wf_params_def bu_gt_val)
  obtain c where c: "get_compact ?bn = Some c" "compact_target c \<le> limbs_val ?bn"
    using get_compact_total [OF b(1)] by blast
  have "retarget_old params nBits dt = get_compact ?bn" using q(1) by (simp add: retarget_old_def Let_def)
  then show ?thesis using b(2) c by auto
qed

lemma bnPowLimit_val: "limbs_val bnPowLimit = 2 ^ 224 - 1"
proof -
  have "replicate 7 x @ [y] = [x, x, x, x, x, x, x, y]" for x y :: u32 by (simp add: eval_nat_numeral)
  then show ?thesis by (simp add: bnPowLimit_def)
qed

lemma first_limit: "compact_target 469827583 \<le> 2 ^ 224 - 1"
  by (simp add: SetCompact_val compact_exp_def compact_mant_def pow_256)

lemma retarget_first_le:
  "\<exists>c. retarget_first params h nBits dt = Some c \<and> compact_target c \<le> 2 ^ 224 - 1"
proof -
  obtain q where q: "bu_div (bu_mul32 (fst (SetCompact nBits)) (of_int dt)) (uint256_of 60) = Some q" "length q = 8"
    by (rule div_uint256 [of "bu_mul32 (fst (SetCompact nBits)) (of_int dt)" 60]) simp_all
  let ?b = "if bu_gt q bnPowLimit then bnPowLimit else q"
  have l: "length ?b = 8" using q(2) by (simp add: bnPowLimit_def)
  then obtain c where c: "get_compact ?b = Some c" using get_compact_total by blast
  let ?b' = "if h < LAST_POW_BLOCK params + 2 \<and> c > 469827583 then fst (SetCompact 469827583) else ?b"
  have b: "limbs_val ?b \<le> 2 ^ 224 - 1"
    using q(2) unfolding bnPowLimit_val [symmetric] by (auto simp: bu_gt_val bnPowLimit_def)
  have "length ?b' = 8" using l by simp
  then obtain c' where c': "get_compact ?b' = Some c'" "compact_target c' \<le> limbs_val ?b'"
    using get_compact_total by blast
  have "limbs_val ?b' \<le> 2 ^ 224 - 1" by (cases "h < LAST_POW_BLOCK params + 2 \<and> c > 469827583") (use first_limit b in \<open>simp_all only: if_True if_False simp_thms\<close>)
  then show ?thesis using q(1) c c' by (auto simp: retarget_first_def Let_def)
qed

section \<open>The next target always exists\<close>

text \<open>The entries from the tip to the genesis block.\<close>

definition full_chain :: "CBlockIndex list \<Rightarrow> bool" where
  "full_chain bs \<longleftrightarrow> map bi_nHeight bs = map int (rev [0..<length bs])"

lemma full_chain_Cons:
  "full_chain (b # bs) \<longleftrightarrow> bi_nHeight b = int (length bs) \<and> full_chain bs"
  by (simp add: full_chain_def)

lemma find_first_ex: "full_chain bs \<Longrightarrow> bs \<noteq> [] \<Longrightarrow> 0 \<le> h \<Longrightarrow> \<exists>b. find_first h bs = Some b"
proof (induction bs)
  case (Cons b bs)
  then show ?case by (cases bs) (auto simp: full_chain_Cons)
qed simp

text \<open>A result within a limit; the limit of the first algorithm need not be below it.\<close>

abbreviation within :: "CChainParams \<Rightarrow> u32 option \<Rightarrow> bool" where
  "within params r \<equiv> \<exists>c. r = Some c \<and>
     (2 ^ 224 - 1 \<le> limbs_val (ProofOfWorkLimit params) \<longrightarrow>
       compact_target c \<le> limbs_val (ProofOfWorkLimit params))"

lemma within_retarget:
  assumes "wf_params params"
  shows "within params (get_compact (ProofOfWorkLimit params))"
    and "0 \<le> dt \<Longrightarrow> dt \<le> 600 \<Longrightarrow> within params (retarget_new params nBits dt)"
    and "within params (retarget_old params nBits dt)"
    and "within params (retarget_first params h nBits dt)"
proof -
  show "within params (get_compact (ProofOfWorkLimit params))"
    using get_compact_total [of "ProofOfWorkLimit params"] assms unfolding wf_params_def by metis
  show "within params (retarget_new params nBits dt)" if "0 \<le> dt" "dt \<le> 600"
    using retarget_new_le [OF assms that] by blast
  show "within params (retarget_old params nBits dt)" using retarget_old_le [OF assms] by blast
  show "within params (retarget_first params h nBits dt)"
    using retarget_first_le [of params h nBits dt] by (blast intro: order_trans)
qed

lemma GetNextWorkRequired_within:
  assumes "wf_params params" and "0 \<le> LAST_POW_BLOCK params" and "full_chain bs"
    and "\<And>tip prev. bs = tip # prev \<Longrightarrow> 2 ^ 224 - 1 \<le> limbs_val (ProofOfWorkLimit params) \<Longrightarrow>
      compact_target (bi_nBits tip) \<le> limbs_val (ProofOfWorkLimit params)"
  shows "within params (GetNextWorkRequired params spork bs)"
proof (cases bs)
  case Nil
  then show ?thesis using within_retarget(1) [OF assms(1)] by (simp only: GetNextWorkRequired_def list.case)
next
  case (Cons tip prev)
  then have h: "bi_nHeight tip = int (length prev)" and fp: "full_chain prev"
    using assms(3) by (simp_all add: full_chain_Cons)
  note w = within_retarget [OF assms(1)]
  show ?thesis
  proof (cases "bi_nHeight tip \<le> LAST_POW_BLOCK params")
    case True
    then show ?thesis using Cons w(1) by (simp only: GetNextWorkRequired_def list.case if_True)
  next
    case False
    then obtain p ps where p: "prev = p # ps" using h assms(2) by (cases prev) auto
    let ?dt = "GetBlockTime tip - GetBlockTime p"
    let ?dt' = "if ?dt < 0 then 1 else if ?dt > 60 * 10 then 60 * 10 else ?dt"
    have r1: "within params (retarget_new params (bi_nBits tip) ?dt')"
      "within params (retarget_new params (bi_nBits tip) 300)" by (rule w(2); simp)+
    have r4: "within params (Some (bi_nBits tip))" using assms(4) [OF Cons] by blast
    show ?thesis
    proof (cases "6538 \<le> bi_nHeight tip")
      case True
      obtain b where b: "find_first (bi_nHeight tip - 10) prev = Some b"
        using find_first_ex [OF fp, of "bi_nHeight tip - 10"] p True by auto
      have n: "\<not> bi_nHeight tip < 6538" using True by simp
      show ?thesis
        unfolding GetNextWorkRequired_def Cons p list.case Let_def b [unfolded p] option.case
        using False n r1 r4 w(3) by (simp only: if_False if_True split: if_split) blast
    next
      case t: False
      then have n: "bi_nHeight tip < 6538" by simp
      show ?thesis
        unfolding GetNextWorkRequired_def Cons p list.case Let_def
        using False n r1 w(4) by (simp only: if_False if_True split: if_split) blast
    qed
  qed
qed

section \<open>The check and the work\<close>

lemma CheckProofOfWork_iff:
  assumes "length h = 8"
  shows "CheckProofOfWork params h nBits \<longleftrightarrow>
    SkipProofOfWorkCheck params \<or> limbs_val h \<le> compact_target nBits"
proof -
  obtain t n v where s: "SetCompact nBits = (t, n, v)" by (metis prod.collapse)
  then have "length t = 8" using length_SetCompact [of nBits] by simp
  then show ?thesis using assms s by (auto simp: CheckProofOfWork_def bu_gt_val)
qed

lemma compact_target_less: "compact_target c + 1 < 2 ^ 256"
proof (cases "compact_exp c \<le> 3")
  case True
  have "compact_mant c div 256 ^ (3 - compact_exp c) \<le> compact_mant c" by (rule div_le_dividend)
  then have "compact_target c < 2 ^ 23"
    using True compact_mant_less [of c] by (simp only: SetCompact_val if_True)
  then show ?thesis by simp
next
  case False
  let ?x = "compact_mant c * 256 ^ (compact_exp c - 3)"
  have "even ?x" using False by simp
  then have "even (?x mod 2 ^ 256)" by (simp add: dvd_mod)
  then have "?x mod 2 ^ 256 \<noteq> 2 ^ 256 - 1" by auto
  moreover have "?x mod 2 ^ 256 < 2 ^ 256" by simp
  ultimately show ?thesis using False by (simp only: SetCompact_val if_False)
qed

lemma GetBlockProof_val:
  assumes "\<not> fst (snd (SetCompact nBits))" and "\<not> snd (snd (SetCompact nBits))"
    and "compact_target nBits \<noteq> 0"
  shows "\<exists>p. GetBlockProof nBits = Some p \<and> limbs_val p = 2 ^ 256 div (compact_target nBits + 1)"
proof -
  let ?t = "compact_target nBits"
  obtain t where s: "SetCompact nBits = (t, False, False)"
    using assms by (metis prod.collapse)
  have l: "length t = 8" and tv: "limbs_val t = ?t" using s length_SetCompact [of nBits] by simp_all
  have ub: "?t + 1 < 2 ^ 256" by (rule compact_target_less)
  have d: "limbs_val (bu_add t (uint256_of 1)) = ?t + 1" using l tv ub by (simp add: bu_add_val)
  obtain q where q: "bu_div (bu_not t) (bu_add t (uint256_of 1)) = Some q" "length q = 8"
    "limbs_val q = limbs_val (bu_not t) div (?t + 1)"
    using bu_div_val [of "bu_not t" "bu_add t (uint256_of 1)"] l d by (auto simp: bu_not_def)
  have n: "limbs_val (bu_not t) = 2 ^ 256 - 1 - ?t" using l tv by (simp add: bu_not_def bu_not_val)
  have "2 ^ 256 = (2 ^ 256 - 1 - ?t) + (?t + 1)" using ub by simp
  then have e: "2 ^ 256 div (?t + 1) = (2 ^ 256 - 1 - ?t) div (?t + 1) + 1"
    by (metis div_add_self2 add_is_0 one_neq_zero)
  have "(2 ^ 256 - 1 - ?t) div (?t + 1) \<le> 2 ^ 256 - 1 - ?t" by (rule div_le_dividend)
  moreover have "2 ^ 256 - 1 - ?t < 2 ^ 256 - 1" using assms(3) ub by linarith
  ultimately have lt: "(2 ^ 256 - 1 - ?t) div (?t + 1) + 1 < 2 ^ 256" by linarith
  have "limbs_val (bu_add q (uint256_of 1)) = (limbs_val q + 1) mod 2 ^ 256"
    using bu_add_val [of q "uint256_of 1"] q(2) by simp
  also have "\<dots> = limbs_val q + 1" using lt unfolding q(3) n by (rule mod_less)
  also have "\<dots> = 2 ^ 256 div (?t + 1)" unfolding q(3) n e ..
  finally have v: "limbs_val (bu_add q (uint256_of 1)) = 2 ^ 256 div (?t + 1)" .
  have "\<not> bu_EqualTo t 0" using l tv assms(3) by (simp add: bu_EqualTo_0)
  then have "GetBlockProof nBits = Some (bu_add q (uint256_of 1))"
    by (simp add: GetBlockProof_def s q(1))
  then show ?thesis using v by blast
qed

section \<open>Findings\<close>

text \<open>Main network and test network have the limit \<open>~uint256(0) >> 1\<close>.\<close>

definition network_limit :: limbs where
  "network_limit = bu_shr (bu_not (uint256_of 0)) 1"

lemma network_limit_val: "limbs_val network_limit = 2 ^ 255 - 1"
  by (simp add: network_limit_def bu_shr_val bu_not_def bu_not_val)

text \<open>No compact number stands for that limit, so the test whether the target is at the limit
  never succeeds.\<close>

lemma compact_target_not_limit: "fst (SetCompact c) \<noteq> network_limit"
proof
  assume "fst (SetCompact c) = network_limit"
  then have v: "compact_target c = 2 ^ 255 - 1" by (simp add: network_limit_val)
  show False
  proof (cases "compact_exp c \<le> 3")
    case True
    have "compact_mant c div 256 ^ (3 - compact_exp c) \<le> compact_mant c" by (rule div_le_dividend)
    then have "compact_target c < 2 ^ 23"
      using True compact_mant_less [of c] by (simp only: SetCompact_val if_True)
    then show False using v by simp
  next
    case False
    let ?x = "compact_mant c * 256 ^ (compact_exp c - 3)"
    have "even ?x" using False by simp
    then have "even (?x mod 2 ^ 256)" by (simp add: dvd_mod)
    then have "even (compact_target c)" using False by (simp only: SetCompact_val if_False)
    then show False by (simp add: v)
  qed
qed

text \<open>The third algorithm multiplies before it divides: a target above \<open>2 ^ 256 div 2940\<close> wraps
  around. After the slowest block the easiest target becomes more than 700 times harder.\<close>

lemma retarget_new_wraps:
  assumes "wf_params params" and "ProofOfWorkLimit params = network_limit"
  shows "\<exists>bn. length bn = 8 \<and> retarget_new params 0x207fffff 600 = get_compact bn \<and>
    limbs_val bn * 700 < compact_target 0x207fffff"
proof -
  have t: "compact_target 0x207fffff = 0x7fffff * 2 ^ 232"
    by (simp add: SetCompact_val compact_exp_def compact_mant_def pow_256)
  have "\<not> (fst (SetCompact 0x207fffff) = ProofOfWorkLimit params \<and> 60 \<le> (600 :: int))"
    using compact_target_not_limit assms(2) by simp
  then obtain bn where b: "length bn = 8" "retarget_new params 0x207fffff 600 = get_compact bn"
    "limbs_val bn = new_target (limbs_val network_limit) (compact_target 0x207fffff) 2940"
    using retarget_new_val [OF assms(1), of 600 "0x207fffff"] assms(2) by auto
  moreover have "limbs_val bn * 700 < compact_target 0x207fffff"
    unfolding b(3) t network_limit_val new_target_def Let_def by simp
  ultimately show ?thesis by blast
qed

text \<open>\<open>CheckProofOfWork\<close> accepts a target with the sign bit set and one above any limit.\<close>

lemma CheckProofOfWork_out_of_range:
  "CheckProofOfWork params (uint256_of 0) nBits"
  by (simp add: CheckProofOfWork_iff)

section \<open>Consequences\<close>

text \<open>
  For bits that are in range GetBlockProof is 2^256 div (target + 1), although 2^256 does not fit
  the type it computes in.
\<close>

lemma block_proof:
  assumes "\<not> fst (snd (SetCompact nBits))" and "\<not> snd (snd (SetCompact nBits))"
    and "compact_target nBits \<noteq> 0"
  shows "\<exists>p. GetBlockProof nBits = Some p \<and> limbs_val p = 2 ^ 256 div (compact_target nBits + 1)"
  using assms by (rule GetBlockProof_val)

text \<open>
  CheckProofOfWork accepts a hash exactly when it is at most the target of the bits, or the
  network skips the check; the test of the range of the bits has no effect, whatever their sign,
  overflow flag and distance to the limit.
\<close>

lemma pow_check:
  assumes "length h = 8"
  shows "CheckProofOfWork params h nBits \<longleftrightarrow>
    SkipProofOfWorkCheck params \<or> limbs_val h \<le> compact_target nBits"
  using assms by (rule CheckProofOfWork_iff)

section \<open>Properties\<close>

text \<open>
  C17. GetNextWorkRequired always returns on a chain down to the genesis block: no null pointer is
  followed, no assertion fails, no division by zero. The target it returns is within the limit of
  the network, provided the one of the tip is and the limit is at least that of the first
  algorithm.
\<close>

theorem next_work:
  assumes "wf_params params" and "0 \<le> LAST_POW_BLOCK params" and "full_chain bs"
    and "\<And>tip prev. bs = tip # prev \<Longrightarrow> 2 ^ 224 - 1 \<le> limbs_val (ProofOfWorkLimit params) \<Longrightarrow>
      compact_target (bi_nBits tip) \<le> limbs_val (ProofOfWorkLimit params)"
  shows "\<exists>c. GetNextWorkRequired params spork bs = Some c \<and>
     (2 ^ 224 - 1 \<le> limbs_val (ProofOfWorkLimit params) \<longrightarrow>
       compact_target c \<le> limbs_val (ProofOfWorkLimit params))"
  using assms by (rule GetNextWorkRequired_within)

theorem next_work_witness:
  "\<exists>c. GetNextWorkRequired \<lparr>ProofOfWorkLimit = network_limit, LAST_POW_BLOCK = 0, SkipProofOfWorkCheck = False\<rparr> 5
      [\<lparr>bi_nHeight = 1, bi_nTime = 90, bi_nBits = 0\<rparr>, \<lparr>bi_nHeight = 0, bi_nTime = 0, bi_nBits = 0\<rparr>] = Some c"
proof -
  let ?p = "\<lparr>ProofOfWorkLimit = network_limit, LAST_POW_BLOCK = 0, SkipProofOfWorkCheck = False\<rparr>"
  let ?bs = "[\<lparr>bi_nHeight = 1, bi_nTime = 90, bi_nBits = 0\<rparr>, \<lparr>bi_nHeight = 0, bi_nTime = 0, bi_nBits = 0\<rparr>]"
  have z: "compact_target 0 \<le> limbs_val network_limit" by (simp add: SetCompact_val compact_mant_def)
  have w: "wf_params ?p" by (simp add: wf_params_def network_limit_def bu_not_def uint256_of_def)
  have f: "full_chain ?bs" by (simp add: full_chain_Cons full_chain_def)
  have "0 \<le> LAST_POW_BLOCK ?p" by simp
  then have "within ?p (GetNextWorkRequired ?p 5 ?bs)" by (rule next_work [OF w _ f]) (use z in auto)
  then show ?thesis by blast
qed

end
