(* ===== verification/Chain.thy ===== *)
theory Chain
  imports Pow "HOL-Library.Sublist"
begin

text \<open>
  The block index and the active chain (\<open>src/chain.h\<close>, \<open>src/chain.cpp\<close>, the skip list of
  \<open>src/main.cpp\<close>). A \<open>CBlockIndex*\<close> is an address, the entries are a map from addresses, and a
  loop that follows pointers is a \<open>partial_function\<close>, so \<open>None\<close> is an invalid pointer followed
  or a loop that does not end. The specification walks back over \<open>pprev\<close> one block at a time.
\<close>

type_synonym ptr = nat

record index_entry = CBlockIndex +
  phashBlock :: uint256
  pprev :: "ptr option"
  pskip :: "ptr option"
  bi_nVersion :: int
  bi_nStatus :: u32
  bi_nFlags :: u32

type_synonym block_map = "ptr \<Rightarrow> index_entry option"

section \<open>The entry\<close>

abbreviation BLOCK_VALID_MASK :: u32 where "BLOCK_VALID_MASK \<equiv> 7"
abbreviation BLOCK_FAILED_MASK :: u32 where "BLOCK_FAILED_MASK \<equiv> 96"
abbreviation BLOCK_PROOF_OF_STAKE :: u32 where "BLOCK_PROOF_OF_STAKE \<equiv> 1"
abbreviation BLOCK_STAKE_ENTROPY :: u32 where "BLOCK_STAKE_ENTROPY \<equiv> 2"
abbreviation BLOCK_STAKE_MODIFIER :: u32 where "BLOCK_STAKE_MODIFIER \<equiv> 4"

definition bi_IsProofOfStake :: "index_entry \<Rightarrow> bool" where
  "bi_IsProofOfStake b \<longleftrightarrow> bi_nFlags b AND BLOCK_PROOF_OF_STAKE \<noteq> 0"

definition bi_IsProofOfWork :: "index_entry \<Rightarrow> bool" where
  "bi_IsProofOfWork b \<longleftrightarrow> \<not> (bi_nFlags b AND BLOCK_PROOF_OF_STAKE \<noteq> 0)"

definition SetProofOfStake :: "index_entry \<Rightarrow> index_entry" where
  "SetProofOfStake b = b\<lparr>bi_nFlags := bi_nFlags b OR BLOCK_PROOF_OF_STAKE\<rparr>"

definition SetStakeEntropyBit :: "index_entry \<Rightarrow> u32 \<Rightarrow> bool \<times> index_entry" where
  "SetStakeEntropyBit b nEntropyBit =
     (if nEntropyBit > 1 then (False, b)
      else (True, b\<lparr>bi_nFlags := bi_nFlags b OR (if nEntropyBit \<noteq> 0 then BLOCK_STAKE_ENTROPY else 0)\<rparr>))"

definition GetStakeEntropyBit :: "index_entry \<Rightarrow> u32" where
  "GetStakeEntropyBit b = ucast (phashBlock b AND 1)"

definition GeneratedStakeModifier :: "index_entry \<Rightarrow> bool" where
  "GeneratedStakeModifier b \<longleftrightarrow> bi_nFlags b AND BLOCK_STAKE_MODIFIER \<noteq> 0"

text \<open>\<open>None\<close> is the failed assertion that only validity flags are asked for.\<close>

definition bi_IsValid :: "index_entry \<Rightarrow> u32 \<Rightarrow> bool option" where
  "bi_IsValid b nUpTo =
     (if nUpTo AND NOT BLOCK_VALID_MASK \<noteq> 0 then None
      else Some
        (if bi_nStatus b AND BLOCK_FAILED_MASK \<noteq> 0 then False
         else bi_nStatus b AND BLOCK_VALID_MASK \<ge> nUpTo))"

definition RaiseValidity :: "index_entry \<Rightarrow> u32 \<Rightarrow> (bool \<times> index_entry) option" where
  "RaiseValidity b nUpTo =
     (if nUpTo AND NOT BLOCK_VALID_MASK \<noteq> 0 then None
      else Some
        (if bi_nStatus b AND BLOCK_FAILED_MASK \<noteq> 0 then (False, b)
         else if bi_nStatus b AND BLOCK_VALID_MASK < nUpTo then
           (True, b\<lparr>bi_nStatus := (bi_nStatus b AND NOT BLOCK_VALID_MASK) OR nUpTo\<rparr>)
         else (False, b)))"

text \<open>The times of at most \<open>n\<close> blocks, walking back.\<close>

fun median_times :: "block_map \<Rightarrow> nat \<Rightarrow> ptr option \<Rightarrow> int list option" where
  "median_times t 0 p = Some []"
| "median_times t (Suc n) None = Some []"
| "median_times t (Suc n) (Some p) =
     (case t p of
        None \<Rightarrow> None
      | Some b \<Rightarrow> map_option (\<lambda>ts. GetBlockTime b # ts) (median_times t n (pprev b)))"

definition GetMedianTimePast :: "block_map \<Rightarrow> ptr \<Rightarrow> int option" where
  "GetMedianTimePast t p =
     map_option (\<lambda>ts. sort ts ! (length ts div 2)) (median_times t 11 (Some p))"

text \<open>\<open>n\<close> is how many blocks are left to check.\<close>

fun count_versions :: "block_map \<Rightarrow> int \<Rightarrow> nat \<Rightarrow> nat \<Rightarrow> ptr option \<Rightarrow> nat \<Rightarrow> nat option" where
  "count_versions t minVersion nRequired 0 pstart nFound = Some nFound"
| "count_versions t minVersion nRequired (Suc n) pstart nFound =
     (if nFound < nRequired then
        (case pstart of
           None \<Rightarrow> Some nFound
         | Some p \<Rightarrow>
             (case t p of
                None \<Rightarrow> None
              | Some b \<Rightarrow> count_versions t minVersion nRequired n (pprev b)
                  (if bi_nVersion b \<ge> minVersion then nFound + 1 else nFound)))
      else Some nFound)"

definition IsSuperMajority :: "block_map \<Rightarrow> nat \<Rightarrow> int \<Rightarrow> ptr option \<Rightarrow> nat \<Rightarrow> bool option" where
  "IsSuperMajority t nToCheck minVersion pstart nRequired =
     map_option (\<lambda>nFound. nFound \<ge> nRequired) (count_versions t minVersion nRequired nToCheck pstart 0)"

section \<open>The skip list\<close>

definition InvertLowestOne :: "int \<Rightarrow> int" where
  "InvertLowestOne n = n AND (n - 1)"

definition GetSkipHeight :: "int \<Rightarrow> int" where
  "GetSkipHeight height =
     (if height < 2 then 0
      else if height AND 1 \<noteq> 0 then InvertLowestOne (InvertLowestOne (height - 1)) + 1
      else InvertLowestOne height)"

lemma InvertLowestOne_bounds:
  assumes "0 < n"
  shows "0 \<le> InvertLowestOne n" and "InvertLowestOne n < n"
proof -
  show "0 \<le> InvertLowestOne n" using assms by (simp add: InvertLowestOne_def)
  have "n AND (n - 1) \<le> n - 1" using assms by (intro AND_upper2) simp
  then show "InvertLowestOne n < n" by (simp add: InvertLowestOne_def)
qed

lemma InvertLowestOne_0 [simp]: "InvertLowestOne 0 = 0"
  by (simp add: InvertLowestOne_def)

lemma GetSkipHeight_bounds:
  assumes "0 < h"
  shows "0 \<le> GetSkipHeight h" and "GetSkipHeight h < h"
proof -
  have "0 \<le> InvertLowestOne (InvertLowestOne (h - 1)) \<and> InvertLowestOne (InvertLowestOne (h - 1)) + 1 < h"
    if "2 \<le> h"
  proof (cases "InvertLowestOne (h - 1) = 0")
    case False
    have "0 < h - 1" using that by simp
    note b = InvertLowestOne_bounds [OF this]
    then have "0 < InvertLowestOne (h - 1)" using False by simp
    from InvertLowestOne_bounds [OF this] b show ?thesis by simp
  qed (use that in simp)
  then show "0 \<le> GetSkipHeight h" "GetSkipHeight h < h"
    using InvertLowestOne_bounds [of h] assms by (auto simp: GetSkipHeight_def)
qed

text \<open>The loop: \<open>pindexWalk\<close> and \<open>heightWalk\<close>. A pointer read through an invalid one is the
  outer \<open>None\<close>.\<close>

function ancestor_loop :: "block_map \<Rightarrow> ptr option \<Rightarrow> int \<Rightarrow> int \<Rightarrow> ptr option option" where
  "ancestor_loop t pindexWalk heightWalk height =
     (if heightWalk > height \<and> 0 \<le> height then
        (case pindexWalk of
           None \<Rightarrow> None
         | Some p \<Rightarrow>
             (case t p of
                None \<Rightarrow> None
              | Some b \<Rightarrow>
                  (let heightSkip = GetSkipHeight heightWalk;
                       heightSkipPrev = GetSkipHeight (heightWalk - 1)
                   in if heightSkip = height \<or>
                        (heightSkip > height \<and>
                         \<not> (heightSkipPrev < heightSkip - 2 \<and> heightSkipPrev \<ge> height))
                      then ancestor_loop t (pskip b) heightSkip height
                      else ancestor_loop t (pprev b) (heightWalk - 1) height)))
      else Some pindexWalk)"
  by pat_completeness auto
termination
proof (relation "measure (\<lambda>(t, p, hw, h). nat hw)", goal_cases)
  case (2 t p hw h q b)
  then have "0 < hw" by simp
  from GetSkipHeight_bounds [OF this] 2 show ?case by simp
qed simp_all

declare ancestor_loop.simps [simp del]

text \<open>\<open>this->GetAncestor(height)\<close>; a null result is \<open>Some None\<close>.\<close>

definition GetAncestor :: "block_map \<Rightarrow> ptr \<Rightarrow> int \<Rightarrow> ptr option option" where
  "GetAncestor t this height =
     (case t this of
        None \<Rightarrow> None
      | Some b \<Rightarrow>
          if height > bi_nHeight b \<or> height < 0 then Some None
          else ancestor_loop t (Some this) (bi_nHeight b) height)"

definition BuildSkip :: "block_map \<Rightarrow> ptr \<Rightarrow> block_map option" where
  "BuildSkip t this =
     (case t this of
        None \<Rightarrow> None
      | Some b \<Rightarrow>
          (case pprev b of
             None \<Rightarrow> Some t
           | Some q \<Rightarrow>
               (case GetAncestor t q (GetSkipHeight (bi_nHeight b)) of
                  None \<Rightarrow> None
                | Some r \<Rightarrow> Some (t(this \<mapsto> b\<lparr>pskip := r\<rparr>)))))"

section \<open>The block tree\<close>

text \<open>\<open>pprev\<close> lowers the height by one, down to the genesis block.\<close>

definition wf_tree :: "block_map \<Rightarrow> bool" where
  "wf_tree t \<longleftrightarrow> (\<forall>p b. t p = Some b \<longrightarrow>
     0 \<le> bi_nHeight b \<and> (pprev b = None \<longleftrightarrow> bi_nHeight b = 0) \<and>
     (\<forall>q. pprev b = Some q \<longrightarrow> (\<exists>c. t q = Some c \<and> bi_nHeight c = bi_nHeight b - 1)))"

text \<open>\<open>k\<close> steps back.\<close>

fun walk_back :: "block_map \<Rightarrow> nat \<Rightarrow> ptr \<Rightarrow> ptr option" where
  "walk_back t 0 p = Some p"
| "walk_back t (Suc k) p =
     (case t p of
        None \<Rightarrow> None
      | Some b \<Rightarrow> (case pprev b of None \<Rightarrow> None | Some q \<Rightarrow> walk_back t k q))"

definition height_of :: "block_map \<Rightarrow> ptr \<Rightarrow> int" where
  "height_of t p = (case t p of None \<Rightarrow> -1 | Some b \<Rightarrow> bi_nHeight b)"

definition ancestor_at :: "block_map \<Rightarrow> int \<Rightarrow> ptr \<Rightarrow> ptr option" where
  "ancestor_at t h p = (if 0 \<le> h \<and> h \<le> height_of t p then walk_back t (nat (height_of t p - h)) p else None)"

definition skips_ok_upto :: "block_map \<Rightarrow> int \<Rightarrow> bool" where
  "skips_ok_upto t H \<longleftrightarrow> (\<forall>p b. t p = Some b \<longrightarrow> 0 < bi_nHeight b \<longrightarrow> bi_nHeight b \<le> H \<longrightarrow>
     pskip b = ancestor_at t (GetSkipHeight (bi_nHeight b)) p)"

definition skips_ok :: "block_map \<Rightarrow> bool" where
  "skips_ok t \<longleftrightarrow> (\<forall>p b. t p = Some b \<longrightarrow> 0 < bi_nHeight b \<longrightarrow>
     pskip b = ancestor_at t (GetSkipHeight (bi_nHeight b)) p)"

lemma skips_ok_uptoI: "skips_ok t \<Longrightarrow> skips_ok_upto t H"
  by (simp add: skips_ok_def skips_ok_upto_def)

lemma height_of_Some [simp]: "t p = Some b \<Longrightarrow> height_of t p = bi_nHeight b"
  by (simp add: height_of_def)

lemma wf_treeD:
  assumes "wf_tree t" and "t p = Some b"
  shows "0 \<le> bi_nHeight b" and "pprev b = None \<longleftrightarrow> bi_nHeight b = 0"
    and "\<And>q. pprev b = Some q \<Longrightarrow> \<exists>c. t q = Some c \<and> bi_nHeight c = bi_nHeight b - 1"
  using assms unfolding wf_tree_def by blast+

lemma walk_back_add: "walk_back t (i + j) p = (case walk_back t i p of None \<Rightarrow> None | Some q \<Rightarrow> walk_back t j q)"
  by (induction t i p rule: walk_back.induct) (auto split: option.split)

lemma walk_back_height:
  assumes "wf_tree t"
  shows "t p = Some b \<Longrightarrow> int k \<le> bi_nHeight b \<Longrightarrow>
    \<exists>q c. walk_back t k p = Some q \<and> t q = Some c \<and> bi_nHeight c = bi_nHeight b - int k"
proof (induction k arbitrary: p b)
  case (Suc k)
  have "pprev b \<noteq> None" using wf_treeD(2) [OF assms Suc.prems(1)] Suc.prems(2) by simp
  then obtain q c where q: "pprev b = Some q" "t q = Some c" "bi_nHeight c = bi_nHeight b - 1"
    using wf_treeD(3) [OF assms Suc.prems(1)] by blast
  show ?case using Suc.IH [OF q(2)] Suc.prems q by auto
qed auto

lemma ancestor_at_height:
  assumes "wf_tree t" and "t p = Some b" and "0 \<le> h" and "h \<le> bi_nHeight b"
  obtains q c where "ancestor_at t h p = Some q" "t q = Some c" "bi_nHeight c = h"
  using walk_back_height [OF assms(1,2), of "nat (bi_nHeight b - h)"] assms by (auto simp: ancestor_at_def)

lemma ancestor_at_self: "t p = Some b \<Longrightarrow> 0 \<le> bi_nHeight b \<Longrightarrow> ancestor_at t (bi_nHeight b) p = Some p"
  by (simp add: ancestor_at_def)

text \<open>An ancestor of an ancestor is an ancestor.\<close>

lemma ancestor_at_trans:
  assumes "wf_tree t" and "t p = Some b" and "0 \<le> h" and "h \<le> k" and "k \<le> bi_nHeight b"
    and "ancestor_at t k p = Some q"
  shows "ancestor_at t h q = ancestor_at t h p"
proof -
  obtain c where c: "t q = Some c" "bi_nHeight c = k"
    using ancestor_at_height [OF assms(1,2), of k] assms by auto
  have "nat (bi_nHeight b - h) = nat (bi_nHeight b - k) + nat (k - h)" using assms by simp
  then show ?thesis using assms c walk_back_add [of t "nat (bi_nHeight b - k)" "nat (k - h)" p]
    by (simp add: ancestor_at_def)
qed

lemma ancestor_at_prev:
  assumes "wf_tree t" and "t p = Some b" and "pprev b = Some q" and "0 \<le> h" and "h < bi_nHeight b"
  shows "ancestor_at t h p = ancestor_at t h q"
proof -
  obtain c where c: "t q = Some c" "bi_nHeight c = bi_nHeight b - 1"
    using wf_treeD(3) [OF assms(1-3)] by blast
  have "nat (bi_nHeight b - h) = Suc (nat (bi_nHeight b - 1 - h))" using assms by simp
  then show ?thesis using assms c by (simp add: ancestor_at_def)
qed

text \<open>The skip list finds what walking back finds.\<close>

lemma ancestor_loop_correct:
  assumes "wf_tree t"
  shows "skips_ok_upto t (bi_nHeight b) \<Longrightarrow> t p = Some b \<Longrightarrow> 0 \<le> h \<Longrightarrow> h \<le> bi_nHeight b \<Longrightarrow>
    ancestor_loop t (Some p) (bi_nHeight b) h = Some (ancestor_at t h p)"
proof (induction "nat (bi_nHeight b)" arbitrary: p b rule: less_induct)
  case less
  show ?case
  proof (cases "h = bi_nHeight b")
    case True
    then show ?thesis using less.prems by (subst ancestor_loop.simps) (simp add: ancestor_at_self)
  next
    case False
    then have pos: "0 < bi_nHeight b" "h < bi_nHeight b" using less.prems by simp_all
    have up: "k \<le> bi_nHeight b \<Longrightarrow> skips_ok_upto t k" for k
      using less.prems(1) by (simp add: skips_ok_upto_def)
    note sk = GetSkipHeight_bounds [OF pos(1)]
    obtain s c where s: "ancestor_at t (GetSkipHeight (bi_nHeight b)) p = Some s" "t s = Some c"
      "bi_nHeight c = GetSkipHeight (bi_nHeight b)"
      using ancestor_at_height [OF assms(1) less.prems(2) sk(1)] sk(2) by auto
    have ps: "pskip b = Some s" using less.prems(1,2) pos s(1) by (simp add: skips_ok_upto_def)
    obtain q d where q: "pprev b = Some q" "t q = Some d" "bi_nHeight d = bi_nHeight b - 1"
      using wf_treeD(2,3) [OF assms(1) less.prems(2)] pos by (metis less_irrefl option.exhaust)
    have skip: "ancestor_loop t (Some s) (bi_nHeight c) h = Some (ancestor_at t h p)"
      if "h \<le> GetSkipHeight (bi_nHeight b)"
      using less.hyps [of c s] s sk that less.prems pos up
        ancestor_at_trans [OF assms(1) less.prems(2,3) that _ s(1)] by simp
    have pv: "ancestor_loop t (Some q) (bi_nHeight d) h = Some (ancestor_at t h p)"
      using less.hyps [of d q] q less.prems pos up ancestor_at_prev [OF assms(1) less.prems(2) q(1)] by simp
    show ?thesis
      using pos less.prems skip pv ps q(1) s(3) q(3)
      by (subst ancestor_loop.simps) (auto simp: Let_def)
  qed
qed

lemma GetAncestor_upto:
  assumes "wf_tree t" and "t p = Some b" and "skips_ok_upto t (bi_nHeight b)"
  shows "GetAncestor t p h = Some (ancestor_at t h p)"
  using ancestor_loop_correct [OF assms(1,3,2), of h] assms(2)
  by (auto simp: GetAncestor_def ancestor_at_def)

lemma GetAncestor_correct:
  assumes "wf_tree t" and "skips_ok t" and "t p = Some b"
  shows "GetAncestor t p h = Some (ancestor_at t h p)"
  using GetAncestor_upto [OF assms(1,3) skips_ok_uptoI [OF assms(2)]] .

section \<open>A block added to the tree\<close>

text \<open>Pointers below a block that is there do not see a new one.\<close>

lemma walk_back_new:
  assumes "wf_tree t" and "t p = None"
  shows "t q = Some c \<Longrightarrow> walk_back (t(p \<mapsto> b)) k q = walk_back t k q"
proof (induction k arbitrary: q c)
  case (Suc k)
  then have "q \<noteq> p" using assms(2) by auto
  then show ?case using Suc wf_treeD(3) [OF assms(1) Suc.prems] by (cases "pprev c") auto
qed simp

lemma walk_back_cong:
  "(\<And>q. map_option pprev (t q) = map_option pprev (t' q)) \<Longrightarrow> walk_back t k p = walk_back t' k p"
proof (induction k arbitrary: p)
  case (Suc k)
  have "map_option pprev (t p) = map_option pprev (t' p)" by (rule Suc.prems)
  then show ?case using Suc.IH [OF Suc.prems]
    by (cases "t p"; cases "t' p") (auto split: option.split)
qed simp

lemma ancestor_at_pskip:
  assumes "t p = Some b"
  shows "ancestor_at (t(p \<mapsto> b\<lparr>pskip := r\<rparr>)) h q = ancestor_at t h q"
proof -
  have "walk_back (t(p \<mapsto> b\<lparr>pskip := r\<rparr>)) k q = walk_back t k q" for k
    by (rule walk_back_cong) (use assms in auto)
  moreover have "height_of (t(p \<mapsto> b\<lparr>pskip := r\<rparr>)) q = height_of t q"
    using assms by (simp add: height_of_def)
  ultimately show ?thesis by (simp add: ancestor_at_def)
qed

lemma ancestor_at_new:
  assumes "wf_tree t" and "t p = None" and "t q = Some c"
  shows "ancestor_at (t(p \<mapsto> b)) h q = ancestor_at t h q"
proof -
  have "q \<noteq> p" using assms by auto
  then show ?thesis using assms walk_back_new [OF assms] by (simp add: ancestor_at_def)
qed

lemma wf_tree_new:
  assumes "wf_tree t" and "t p = None" and "pprev b = Some q" and "t q = Some c"
    and "bi_nHeight b = bi_nHeight c + 1"
  shows "wf_tree (t(p \<mapsto> b))"
  unfolding wf_tree_def
proof (intro allI impI)
  fix p' b' assume a: "(t(p \<mapsto> b)) p' = Some b'"
  have c0: "0 \<le> bi_nHeight c" by (rule wf_treeD [OF assms(1,4)])
  have qp: "q \<noteq> p" using assms by auto
  show "0 \<le> bi_nHeight b' \<and> (pprev b' = None \<longleftrightarrow> bi_nHeight b' = 0) \<and>
    (\<forall>q'. pprev b' = Some q' \<longrightarrow> (\<exists>c'. (t(p \<mapsto> b)) q' = Some c' \<and> bi_nHeight c' = bi_nHeight b' - 1))"
  proof (cases "p' = p")
    case True
    then show ?thesis using a assms qp c0 by auto
  next
    case False
    then have t': "t p' = Some b'" using a by simp
    note w = wf_treeD [OF assms(1) t']
    have "\<exists>c'. (t(p \<mapsto> b)) q' = Some c' \<and> bi_nHeight c' = bi_nHeight b' - 1" if "pprev b' = Some q'" for q'
      using w(3) [OF that] assms(2) by auto
    then show ?thesis using w(1,2) by blast
  qed
qed

lemma wf_tree_pskip:
  assumes "wf_tree t" and "t p = Some b"
  shows "wf_tree (t(p \<mapsto> b\<lparr>pskip := r\<rparr>))"
  unfolding wf_tree_def
proof (intro allI impI)
  fix p' b' assume a: "(t(p \<mapsto> b\<lparr>pskip := r\<rparr>)) p' = Some b'"
  have e: "map_option (\<lambda>b. (bi_nHeight b, pprev b)) ((t(p \<mapsto> b\<lparr>pskip := r\<rparr>)) x) =
      map_option (\<lambda>b. (bi_nHeight b, pprev b)) (t x)" for x using assms(2) by simp
  obtain b0 where b0: "t p' = Some b0" "bi_nHeight b0 = bi_nHeight b'" "pprev b0 = pprev b'"
    using e [of p'] a by (cases "t p'") auto
  note w = wf_treeD [OF assms(1) b0(1)]
  have "\<exists>c'. (t(p \<mapsto> b\<lparr>pskip := r\<rparr>)) q = Some c' \<and> bi_nHeight c' = bi_nHeight b' - 1"
    if "pprev b' = Some q" for q
    using w(3) [of q] that b0 e [of q] by auto
  then show "0 \<le> bi_nHeight b' \<and> (pprev b' = None \<longleftrightarrow> bi_nHeight b' = 0) \<and>
    (\<forall>q. pprev b' = Some q \<longrightarrow>
      (\<exists>c'. (t(p \<mapsto> b\<lparr>pskip := r\<rparr>)) q = Some c' \<and> bi_nHeight c' = bi_nHeight b' - 1))"
    using w(1,2) b0 by auto
qed

text \<open>A block whose predecessor is in the tree gets its skip pointer from \<open>BuildSkip\<close>.\<close>

lemma BuildSkip_keeps:
  assumes "wf_tree t" and "skips_ok t" and "t p = None" and "pprev b = Some q" and "t q = Some c"
    and "bi_nHeight b = bi_nHeight c + 1"
  shows "\<exists>t'. BuildSkip (t(p \<mapsto> b)) p = Some t' \<and> wf_tree t' \<and> skips_ok t' \<and>
    (\<forall>x h. ancestor_at t' h x = ancestor_at (t(p \<mapsto> b)) h x)"
proof -
  let ?t = "t(p \<mapsto> b)" and ?h = "GetSkipHeight (bi_nHeight b)"
  have qp: "q \<noteq> p" using assms by auto
  have w: "wf_tree ?t" by (rule wf_tree_new [OF assms(1,3-6)])
  have c0: "0 \<le> bi_nHeight c" by (rule wf_treeD [OF assms(1,5)])
  note h = GetSkipHeight_bounds [of "bi_nHeight b"]
  have "skips_ok_upto ?t (bi_nHeight c)"
    using assms(2,6) ancestor_at_new [OF assms(1,3)] by (auto simp: skips_ok_upto_def skips_ok_def)
  then have g: "GetAncestor ?t q ?h = Some (ancestor_at ?t ?h q)"
    using qp assms(5) by (intro GetAncestor_upto [OF w]) simp_all
  let ?b = "b\<lparr>pskip := ancestor_at ?t ?h q\<rparr>"
  let ?t' = "?t(p \<mapsto> ?b)"
  have a: "ancestor_at ?t' k x = ancestor_at ?t k x" for k x
    by (rule ancestor_at_pskip) simp
  have "ancestor_at ?t ?h p = ancestor_at ?t ?h q"
    by (rule ancestor_at_prev [OF w _ assms(4)]) (use assms(6) c0 h in simp_all)
  then have "skips_ok ?t'"
    using assms(2) a ancestor_at_new [OF assms(1,3)] unfolding skips_ok_def
    by (metis fun_upd_apply index_entry.select_convs(3) index_entry.surjective index_entry.update_convs(3)
        option.sel CBlockIndex.select_convs(1) assms(3))
  moreover have "wf_tree ?t'" using w by (rule wf_tree_pskip) simp
  moreover have "BuildSkip ?t p = Some ?t'" using assms(4) g by (simp add: BuildSkip_def)
  ultimately show ?thesis using a by blast
qed

section \<open>The active chain\<close>

text \<open>\<open>vChain\<close>; an entry may be null while \<open>SetTip\<close> runs.\<close>

type_synonym CChain = "ptr option list"

definition Genesis :: "CChain \<Rightarrow> ptr option" where
  "Genesis vChain = (if length vChain > 0 then vChain ! 0 else None)"

partial_function (option) stake_tip_loop :: "block_map \<Rightarrow> ptr option \<Rightarrow> ptr option option" where
  "stake_tip_loop t pindex =
     (case pindex of
        None \<Rightarrow> Some None
      | Some p \<Rightarrow>
          (case t p of
             None \<Rightarrow> None
           | Some b \<Rightarrow>
               if pprev b \<noteq> None \<and> \<not> bi_IsProofOfStake b then stake_tip_loop t (pprev b)
               else Some (Some p)))"

definition Tip :: "block_map \<Rightarrow> CChain \<Rightarrow> bool \<Rightarrow> ptr option option" where
  "Tip t vChain fProofOfStake =
     (if length vChain < 1 then Some None
      else
        (let pindex = vChain ! (length vChain - 1)
         in if fProofOfStake then stake_tip_loop t pindex else Some pindex))"

text \<open>\<open>operator==\<close>; two empty chains make it read before the first entry.\<close>

definition chain_eq :: "CChain \<Rightarrow> CChain \<Rightarrow> bool option" where
  "chain_eq a b =
     (if length a = length b then
        (if a = [] then None else Some (a ! (length a - 1) = b ! (length b - 1)))
      else Some False)"

definition chain_at :: "CChain \<Rightarrow> int \<Rightarrow> ptr option" where
  "chain_at vChain nHeight =
     (if nHeight < 0 \<or> nHeight \<ge> int (length vChain) then None else vChain ! nat nHeight)"

definition Height :: "CChain \<Rightarrow> int" where
  "Height vChain = int (length vChain) - 1"

definition Contains :: "block_map \<Rightarrow> CChain \<Rightarrow> ptr \<Rightarrow> bool option" where
  "Contains t vChain p =
     (case t p of None \<Rightarrow> None | Some b \<Rightarrow> Some (chain_at vChain (bi_nHeight b) = Some p))"

definition Next :: "block_map \<Rightarrow> CChain \<Rightarrow> ptr \<Rightarrow> ptr option option" where
  "Next t vChain p =
     (case t p of
        None \<Rightarrow> None
      | Some b \<Rightarrow>
          Some (if chain_at vChain (bi_nHeight b) = Some p then chain_at vChain (bi_nHeight b + 1)
            else None))"

text \<open>\<open>std::vector::resize\<close>.\<close>

definition vec_resize :: "nat \<Rightarrow> CChain \<Rightarrow> CChain" where
  "vec_resize n v = take n v @ replicate (n - length v) None"

partial_function (option) set_tip_loop ::
    "block_map \<Rightarrow> CChain \<Rightarrow> ptr option \<Rightarrow> CChain option" where
  "set_tip_loop t vChain pindex =
     (case pindex of
        None \<Rightarrow> Some vChain
      | Some p \<Rightarrow>
          (case t p of
             None \<Rightarrow> None
           | Some b \<Rightarrow>
               if bi_nHeight b < 0 \<or> bi_nHeight b \<ge> int (length vChain) then None
               else if vChain ! nat (bi_nHeight b) \<noteq> Some p then
                 set_tip_loop t (vChain[nat (bi_nHeight b) := Some p]) (pprev b)
               else Some vChain))"

definition SetTip :: "block_map \<Rightarrow> CChain \<Rightarrow> ptr option \<Rightarrow> CChain option" where
  "SetTip t vChain pindex =
     (case pindex of
        None \<Rightarrow> Some []
      | Some p \<Rightarrow>
          (case t p of
             None \<Rightarrow> None
           | Some b \<Rightarrow> set_tip_loop t (vec_resize (nat (bi_nHeight b + 1)) vChain) (Some p)))"

partial_function (option) find_fork_loop ::
    "block_map \<Rightarrow> CChain \<Rightarrow> ptr option \<Rightarrow> ptr option option" where
  "find_fork_loop t vChain pindex =
     (case pindex of
        None \<Rightarrow> Some None
      | Some p \<Rightarrow>
          (case t p of
             None \<Rightarrow> None
           | Some b \<Rightarrow>
               if chain_at vChain (bi_nHeight b) = Some p then Some (Some p)
               else find_fork_loop t vChain (pprev b)))"

definition FindFork :: "block_map \<Rightarrow> CChain \<Rightarrow> ptr option \<Rightarrow> ptr option option" where
  "FindFork t vChain pindex =
     (case pindex of
        None \<Rightarrow> Some None
      | Some p \<Rightarrow>
          (case t p of
             None \<Rightarrow> None
           | Some b \<Rightarrow>
               if bi_nHeight b > Height vChain then
                 (case GetAncestor t p (Height vChain) of
                    None \<Rightarrow> None
                  | Some q \<Rightarrow> find_fork_loop t vChain q)
               else find_fork_loop t vChain (Some p)))"

text \<open>\<open>vHave\<close> so far and \<open>nStep\<close>.\<close>

partial_function (option) locator_loop ::
    "block_map \<Rightarrow> CChain \<Rightarrow> ptr option \<Rightarrow> uint256 list \<Rightarrow> int \<Rightarrow> uint256 list option" where
  "locator_loop t vChain pindex vHave nStep =
     (case pindex of
        None \<Rightarrow> Some vHave
      | Some p \<Rightarrow>
          (case t p of
             None \<Rightarrow> None
           | Some b \<Rightarrow>
               if bi_nHeight b = 0 then Some (vHave @ [phashBlock b])
               else
                 (case (if chain_at vChain (bi_nHeight b) = Some p
                        then Some (chain_at vChain (max (bi_nHeight b - nStep) 0))
                        else GetAncestor t p (max (bi_nHeight b - nStep) 0)) of
                    None \<Rightarrow> None
                  | Some q \<Rightarrow>
                      locator_loop t vChain q (vHave @ [phashBlock b])
                        (if length vHave + 1 > 10 then nStep * 2 else nStep))))"

definition GetLocator :: "block_map \<Rightarrow> CChain \<Rightarrow> ptr option \<Rightarrow> uint256 list option" where
  "GetLocator t vChain pindex =
     (case (if pindex = None then Tip t vChain False else Some pindex) of
        None \<Rightarrow> None
      | Some q \<Rightarrow> locator_loop t vChain q [] 1)"

text \<open>\<open>LastCommonAncestor\<close>; the assertion at the end is that the walks have met.\<close>

partial_function (option) common_loop ::
    "block_map \<Rightarrow> ptr option \<Rightarrow> ptr option \<Rightarrow> (ptr option \<times> ptr option) option" where
  "common_loop t pa pb =
     (if pa \<noteq> pb \<and> pa \<noteq> None \<and> pb \<noteq> None then
        (case (t (the pa), t (the pb)) of
           (Some a, Some b) \<Rightarrow> common_loop t (pprev a) (pprev b)
         | _ \<Rightarrow> None)
      else Some (pa, pb))"

definition LastCommonAncestor :: "block_map \<Rightarrow> ptr \<Rightarrow> ptr \<Rightarrow> ptr option option" where
  "LastCommonAncestor t pa pb =
     (case (t pa, t pb) of
        (Some a, Some b) \<Rightarrow>
          (case (if bi_nHeight a > bi_nHeight b
                 then map_option (\<lambda>q. (q, Some pb)) (GetAncestor t pa (bi_nHeight b))
                 else if bi_nHeight b > bi_nHeight a
                 then map_option (\<lambda>q. (Some pa, q)) (GetAncestor t pb (bi_nHeight a))
                 else Some (Some pa, Some pb)) of
             None \<Rightarrow> None
           | Some (qa, qb) \<Rightarrow>
               (case common_loop t qa qb of
                  None \<Rightarrow> None
                | Some (ra, rb) \<Rightarrow> if ra = rb then Some ra else None))
      | _ \<Rightarrow> None)"

section \<open>The chain of a tip\<close>

definition chain_of :: "block_map \<Rightarrow> ptr \<Rightarrow> CChain" where
  "chain_of t p = map (\<lambda>h. ancestor_at t (int h) p) [0..<nat (height_of t p + 1)]"

definition is_chain :: "block_map \<Rightarrow> CChain \<Rightarrow> bool" where
  "is_chain t v \<longleftrightarrow> v = [] \<or> (\<exists>p b. t p = Some b \<and> v = chain_of t p)"

lemma length_chain_of [simp]: "length (chain_of t p) = nat (height_of t p + 1)"
  by (simp add: chain_of_def)

lemma nth_chain_of: "h < nat (height_of t p + 1) \<Longrightarrow> chain_of t p ! h = ancestor_at t (int h) p"
  by (simp add: chain_of_def)

text \<open>Below an entry of a chain everything is an ancestor of it.\<close>

definition down_closed :: "block_map \<Rightarrow> CChain \<Rightarrow> bool" where
  "down_closed t v \<longleftrightarrow> (\<forall>i < length v. \<forall>q. v ! i = Some q \<longrightarrow>
     (\<forall>j \<le> i. v ! j = ancestor_at t (int j) q))"

lemma down_closed_chain_of:
  assumes "wf_tree t" and "t p = Some b"
  shows "down_closed t (chain_of t p)"
  unfolding down_closed_def
proof (intro allI impI)
  fix i q j assume i: "i < length (chain_of t p)" and q: "chain_of t p ! i = Some q" and j: "j \<le> i"
  then have "ancestor_at t (int i) p = Some q" by (simp add: nth_chain_of)
  moreover have "int i \<le> bi_nHeight b" using i assms(2) by simp
  ultimately have "ancestor_at t (int j) q = ancestor_at t (int j) p"
    using ancestor_at_trans [OF assms, of "int j" "int i" q] j by simp
  then show "chain_of t p ! j = ancestor_at t (int j) q" using i j by (simp add: nth_chain_of)
qed

lemma down_closed_is_chain: "wf_tree t \<Longrightarrow> is_chain t v \<Longrightarrow> down_closed t v"
  using down_closed_chain_of by (auto simp: is_chain_def) (simp add: down_closed_def)

text \<open>The loop: what is above \<open>h\<close> is done, what is at or below is closed downwards.\<close>

lemma set_tip_done:
  assumes "wf_tree t" and "t p = Some b" and "length v = nat (bi_nHeight b + 1)" and "h < length v"
    and "ancestor_at t (int h) p = Some q"
    and "\<And>i. i < length v \<Longrightarrow> h < i \<Longrightarrow> v ! i = ancestor_at t (int i) p"
    and "\<And>j. j \<le> h \<Longrightarrow> v ! j = ancestor_at t (int j) q"
  shows "v = chain_of t p"
proof (rule nth_equalityI)
  show "length v = length (chain_of t p)" using assms(2,3) by simp
  fix i assume i: "i < length v"
  have "v ! i = ancestor_at t (int i) p"
  proof (cases "h < i")
    case False
    then have "ancestor_at t (int i) q = ancestor_at t (int i) p"
      using assms(3,4) i by (intro ancestor_at_trans [OF assms(1,2) _ _ _ assms(5)]) simp_all
    then show ?thesis using False assms(7) by simp
  qed (use assms(6) i in simp)
  then show "v ! i = chain_of t p ! i" using i assms(2,3) by (simp add: nth_chain_of)
qed

lemma set_tip_loop_correct:
  assumes "wf_tree t" and "t p = Some b"
  shows "length v = nat (bi_nHeight b + 1) \<Longrightarrow> h < length v \<Longrightarrow> ancestor_at t (int h) p = Some q \<Longrightarrow>
    (\<And>i. i < length v \<Longrightarrow> h < i \<Longrightarrow> v ! i = ancestor_at t (int i) p) \<Longrightarrow>
    (\<And>i r j. i \<le> h \<Longrightarrow> v ! i = Some r \<Longrightarrow> j \<le> i \<Longrightarrow> v ! j = ancestor_at t (int j) r) \<Longrightarrow>
    set_tip_loop t v (Some q) = Some (chain_of t p)"
proof (induction h arbitrary: v q)
  case 0
  have "0 \<le> bi_nHeight b" by (rule wf_treeD [OF assms])
  then obtain c where c: "t q = Some c" "bi_nHeight c = 0"
    using ancestor_at_height [OF assms, of 0] 0(3) by auto
  have q0: "ancestor_at t 0 q = Some q" using ancestor_at_self [of t q c] c by simp
  have "pprev c = None" using wf_treeD(2) [OF assms(1) c(1)] c(2) by simp
  moreover have "v[0 := Some q] = chain_of t p"
    using 0(1-4) q0 by (intro set_tip_done [OF assms, of _ 0 q]) simp_all
  moreover have "v ! 0 = Some q \<Longrightarrow> v[0 := Some q] = v" by (metis list_update_id)
  ultimately show ?case using c 0(2)
    by (subst set_tip_loop.simps, simp) (subst set_tip_loop.simps, simp)
next
  case (Suc h)
  have "int (Suc h) \<le> bi_nHeight b" using Suc.prems(1,2) by simp
  then obtain c where c: "t q = Some c" "bi_nHeight c = int (Suc h)"
    using ancestor_at_height [OF assms, of "int (Suc h)"] Suc.prems(3) by auto
  have n: "nat (bi_nHeight c) = Suc h" "\<not> bi_nHeight c < 0" "\<not> bi_nHeight c \<ge> int (length v)"
    using c(2) Suc.prems(2) by simp_all
  have "pprev c \<noteq> None" using wf_treeD(2) [OF assms(1) c(1)] c(2) by simp
  then obtain q' d where q': "pprev c = Some q'" "t q' = Some d" "bi_nHeight d = int h"
    using wf_treeD(3) [OF assms(1) c(1)] c(2) by auto
  show ?case
  proof (cases "v ! Suc h = Some q")
    case True
    then have "v = chain_of t p"
      using Suc.prems(5) [of "Suc h" q] by (intro set_tip_done [OF assms Suc.prems(1-4)]) simp_all
    moreover have "set_tip_loop t v (Some q) = Some v"
      using True by (subst set_tip_loop.simps) (simp add: c(1) n)
    ultimately show ?thesis by simp
  next
    case False
    have "ancestor_at t (int h) q = ancestor_at t (int h) q'"
      using ancestor_at_prev [OF assms(1) c(1) q'(1)] c(2) by simp
    also have "\<dots> = Some q'" using ancestor_at_self [of t q' d] q'(2,3) by simp
    also have "ancestor_at t (int h) q = ancestor_at t (int h) p"
      using Suc.prems(1,2) by (intro ancestor_at_trans [OF assms _ _ _ Suc.prems(3)]) simp_all
    finally have a: "ancestor_at t (int h) p = Some q'" .
    have "set_tip_loop t (v[Suc h := Some q]) (Some q') = Some (chain_of t p)"
    proof (rule Suc.IH [OF _ _ a])
      show "v[Suc h := Some q] ! j = ancestor_at t (int j) r"
        if "i \<le> h" "v[Suc h := Some q] ! i = Some r" "j \<le> i" for i r j
        using Suc.prems(5) [of i r j] that by simp
      fix i assume "i < length (v[Suc h := Some q])" "h < i"
      then show "v[Suc h := Some q] ! i = ancestor_at t (int i) p"
        using Suc.prems(3) Suc.prems(4) [of i] by (cases "i = Suc h") simp_all
    qed (use Suc.prems(1,2) in simp_all)
    then show ?thesis using False by (subst set_tip_loop.simps) (simp add: c(1) n q'(1))
  qed
qed

lemma nth_vec_resize: "i < n \<Longrightarrow> vec_resize n v ! i = (if i < length v then v ! i else None)"
  by (simp add: vec_resize_def nth_append min_def)

lemma length_vec_resize [simp]: "length (vec_resize n v) = n"
  by (simp add: vec_resize_def)

lemma SetTip_correct:
  assumes "wf_tree t" and "is_chain t v" and "t p = Some b"
  shows "SetTip t v (Some p) = Some (chain_of t p)"
proof -
  have h0: "0 \<le> bi_nHeight b" by (rule wf_treeD [OF assms(1,3)])
  note dc = down_closed_is_chain [OF assms(1,2), unfolded down_closed_def]
  have "set_tip_loop t (vec_resize (nat (bi_nHeight b + 1)) v) (Some p) = Some (chain_of t p)"
  proof (rule set_tip_loop_correct [OF assms(1,3), where h = "nat (bi_nHeight b)"])
    show "ancestor_at t (int (nat (bi_nHeight b))) p = Some p"
      using ancestor_at_self [of t p b] assms(3) h0 by simp
    fix i r j assume a: "i \<le> nat (bi_nHeight b)"
      "vec_resize (nat (bi_nHeight b + 1)) v ! i = Some r" "j \<le> i"
    then have i: "i < nat (bi_nHeight b + 1)" "j < nat (bi_nHeight b + 1)" using h0 by auto
    then have "i < length v" "v ! i = Some r" using a(2) nth_vec_resize [OF i(1), of v]
      by (metis option.distinct(1))+
    then show "vec_resize (nat (bi_nHeight b + 1)) v ! j = ancestor_at t (int j) r"
      using dc a(3) nth_vec_resize [OF i(2), of v] by auto
  qed (use h0 in auto)
  then show ?thesis using assms(3) by (simp add: SetTip_def)
qed


section \<open>Forks\<close>

lemma chain_at_chain_of:
  "t p = Some b \<Longrightarrow> 0 \<le> bi_nHeight b \<Longrightarrow> chain_at (chain_of t p) h = ancestor_at t h p"
  by (auto simp: chain_at_def nth_chain_of ancestor_at_def)

text \<open>\<open>find_fork_loop\<close> walks back until it meets the chain.\<close>

lemma find_fork_loop_correct:
  assumes "wf_tree t"
  shows "t q = Some c \<Longrightarrow>
    (\<exists>h. 0 \<le> h \<and> h \<le> bi_nHeight c \<and> chain_at v h = ancestor_at t h q \<and>
       (\<forall>k. h < k \<longrightarrow> k \<le> bi_nHeight c \<longrightarrow> chain_at v k \<noteq> ancestor_at t k q) \<and>
       find_fork_loop t v (Some q) = Some (ancestor_at t h q)) \<or>
    (\<forall>k. 0 \<le> k \<longrightarrow> k \<le> bi_nHeight c \<longrightarrow> chain_at v k \<noteq> ancestor_at t k q) \<and>
       find_fork_loop t v (Some q) = Some None"
proof (induction "nat (bi_nHeight c)" arbitrary: q c)
  case 0
  have "bi_nHeight c = 0" using 0 wf_treeD(1) [OF assms 0(2)] by simp
  moreover have "pprev c = None" using wf_treeD(2) [OF assms 0(2)] calculation by simp
  moreover have "ancestor_at t 0 q = Some q" using ancestor_at_self [of t q c] 0(2) calculation by simp
  moreover have "find_fork_loop t v (Some q) = Some (if chain_at v 0 = Some q then Some q else None)"
    using 0(2) calculation by (subst find_fork_loop.simps, simp) (subst find_fork_loop.simps, simp)
  ultimately show ?case by (auto intro!: exI [of _ 0])
next
  case (Suc n)
  have pos: "0 < bi_nHeight c" using Suc(2) by simp
  have self: "ancestor_at t (bi_nHeight c) q = Some q" using ancestor_at_self [of t q c] Suc(3) pos by simp
  have "pprev c \<noteq> None" using wf_treeD(2) [OF assms Suc(3)] pos by simp
  then obtain r d where r: "pprev c = Some r" "t r = Some d" "bi_nHeight d = bi_nHeight c - 1"
    using wf_treeD(3) [OF assms Suc(3)] by blast
  have a: "ancestor_at t k q = ancestor_at t k r" if "0 \<le> k" "k < bi_nHeight c" for k
    using that by (rule ancestor_at_prev [OF assms Suc(3) r(1)])
  show ?case
  proof (cases "chain_at v (bi_nHeight c) = Some q")
    case True
    then have "find_fork_loop t v (Some q) = Some (Some q)"
      using Suc(3) by (subst find_fork_loop.simps) simp
    then show ?thesis using True pos self by (intro disjI1 exI [of _ "bi_nHeight c"]) simp
  next
    case False
    then have l: "find_fork_loop t v (Some q) = find_fork_loop t v (Some r)"
      using Suc(3) r(1) by (subst find_fork_loop.simps) simp
    have top: "chain_at v k \<noteq> ancestor_at t k q \<longleftrightarrow> chain_at v k \<noteq> ancestor_at t k r"
      if "0 \<le> k" "k \<le> bi_nHeight d" for k using a [of k] that r(3) by simp
    have hc: "chain_at v k \<noteq> ancestor_at t k q" if "k \<le> bi_nHeight c" "bi_nHeight d < k" for k
      using that r(3) self False by (cases "k = bi_nHeight c") auto
    have n: "n = nat (bi_nHeight d)" using Suc(2) r(3) by simp
    from Suc(1) [OF n r(2)] show ?thesis
    proof (elim disjE exE conjE)
      fix h assume h: "0 \<le> h" "h \<le> bi_nHeight d" "chain_at v h = ancestor_at t h r"
        "\<forall>k. h < k \<longrightarrow> k \<le> bi_nHeight d \<longrightarrow> chain_at v k \<noteq> ancestor_at t k r"
        "find_fork_loop t v (Some r) = Some (ancestor_at t h r)"
      have "chain_at v k \<noteq> ancestor_at t k q" if "h < k" "k \<le> bi_nHeight c" for k
        using h(1,4) top [of k] hc [of k] that by (cases "k \<le> bi_nHeight d") auto
      then show ?thesis using h l a [of h] r(3)
        by (intro disjI1 exI [of _ h]) simp
    next
      assume h: "\<forall>k. 0 \<le> k \<longrightarrow> k \<le> bi_nHeight d \<longrightarrow> chain_at v k \<noteq> ancestor_at t k r"
        "find_fork_loop t v (Some r) = Some None"
      have "chain_at v k \<noteq> ancestor_at t k q" if "0 \<le> k" "k \<le> bi_nHeight c" for k
        using h(1) top [of k] hc [of k] that by (cases "k \<le> bi_nHeight d") auto
      then show ?thesis using h(2) l by auto
    qed
  qed
qed

text \<open>The heights at which the chain and the ancestors of a block agree.\<close>

definition common_heights :: "block_map \<Rightarrow> CChain \<Rightarrow> ptr \<Rightarrow> int set" where
  "common_heights t v p = {h. 0 \<le> h \<and> h \<le> height_of t p \<and> chain_at v h = ancestor_at t h p}"

lemma find_fork_loop_Max:
  assumes "wf_tree t" and "t q = Some c"
  shows "find_fork_loop t v (Some q) =
    Some (if common_heights t v q = {} then None else ancestor_at t (Max (common_heights t v q)) q)"
  using find_fork_loop_correct [OF assms, of v]
proof (elim disjE exE conjE)
  fix h assume h: "0 \<le> h" "h \<le> bi_nHeight c" "chain_at v h = ancestor_at t h q"
    "\<forall>k. h < k \<longrightarrow> k \<le> bi_nHeight c \<longrightarrow> chain_at v k \<noteq> ancestor_at t k q"
    "find_fork_loop t v (Some q) = Some (ancestor_at t h q)"
  have "finite (common_heights t v q)"
    by (rule finite_subset [of _ "{0..height_of t q}"]) (auto simp: common_heights_def)
  then have "Max (common_heights t v q) = h"
    using h assms(2) by (intro Max_eqI) (auto simp: common_heights_def not_less [symmetric])
  moreover have "h \<in> common_heights t v q" using h assms(2) by (simp add: common_heights_def)
  ultimately show ?thesis using h(5) by auto
qed (use assms(2) in \<open>auto simp: common_heights_def\<close>)

lemma common_heights_ancestor:
  assumes "wf_tree t" and "t p = Some b" and "0 \<le> k" and "k \<le> bi_nHeight b"
    and "ancestor_at t k p = Some q" and "int (length v) \<le> k + 1"
  shows "common_heights t v p = common_heights t v q"
proof -
  obtain c where c: "t q = Some c" "bi_nHeight c = k"
    using ancestor_at_height [OF assms(1-4)] assms(5) by auto
  have "h \<in> common_heights t v p \<longleftrightarrow> h \<in> common_heights t v q" for h
  proof (cases "0 \<le> h \<and> h \<le> k")
    case True
    then show ?thesis
      using ancestor_at_trans [OF assms(1,2) _ _ assms(4,5), of h] c assms by (auto simp: common_heights_def)
  next
    case False
    then have "h \<notin> common_heights t v q" using c by (auto simp: common_heights_def)
    moreover have "h \<notin> common_heights t v p"
    proof
      assume a: "h \<in> common_heights t v p"
      then have "0 \<le> h" "h \<le> bi_nHeight b" using assms(2) by (auto simp: common_heights_def)
      then obtain r where "ancestor_at t h p = Some r" by (rule ancestor_at_height [OF assms(1,2)])
      then show False using a False assms(6) by (auto simp: common_heights_def chain_at_def split: if_splits)
    qed
    ultimately show ?thesis by simp
  qed
  then show ?thesis by blast
qed

lemma FindFork_correct:
  assumes "wf_tree t" and "skips_ok t" and "t p = Some b"
  shows "FindFork t v (Some p) =
    Some (if common_heights t v p = {} then None else ancestor_at t (Max (common_heights t v p)) p)"
proof (cases "bi_nHeight b > Height v \<and> v \<noteq> []")
  case True
  then have k: "0 \<le> Height v" "Height v \<le> bi_nHeight b" by (cases v; simp add: Height_def)+
  obtain q c where q: "ancestor_at t (Height v) p = Some q" "t q = Some c" "bi_nHeight c = Height v"
    using ancestor_at_height [OF assms(1,3) k] .
  have e: "common_heights t v p = common_heights t v q"
    by (rule common_heights_ancestor [OF assms(1,3) k q(1)]) (simp add: Height_def)
  have m: "Max (common_heights t v q) \<in> {0..Height v}" if "common_heights t v q \<noteq> {}"
  proof -
    have sub: "common_heights t v q \<subseteq> {0..Height v}" using q by (auto simp: common_heights_def)
    then show ?thesis using Max_in [OF finite_subset [OF sub] that] by auto
  qed
  have "ancestor_at t (Max (common_heights t v q)) q = ancestor_at t (Max (common_heights t v q)) p"
    if "common_heights t v q \<noteq> {}"
    using m [OF that] by (intro ancestor_at_trans [OF assms(1,3) _ _ k(2) q(1)]) simp_all
  then show ?thesis
    using True assms(3) q find_fork_loop_Max [OF assms(1) q(2), of v] e GetAncestor_correct [OF assms]
    by (simp add: FindFork_def)
next
  case False
  show ?thesis
  proof (cases "v = []")
    case True
    have "h \<notin> common_heights t v p" for h
    proof
      assume a: "h \<in> common_heights t v p"
      then have "0 \<le> h" "h \<le> bi_nHeight b" using assms(3) by (auto simp: common_heights_def)
      then obtain r where "ancestor_at t h p = Some r" by (rule ancestor_at_height [OF assms(1,3)])
      then show False using a True \<open>0 \<le> h\<close> by (simp add: common_heights_def chain_at_def)
    qed
    then have "common_heights t v p = {}" by blast
    then show ?thesis using True assms wf_treeD(1) [OF assms(1,3)] find_fork_loop_Max [OF assms(1,3), of v]
      GetAncestor_correct [OF assms]
      by (simp add: FindFork_def Height_def ancestor_at_def find_fork_loop.simps)
  next
    case ne: False
    then show ?thesis using False assms(3) find_fork_loop_Max [OF assms(1,3), of v]
      by (simp add: FindFork_def)
  qed
qed

section \<open>The last common ancestor\<close>

text \<open>Walking back from both blocks is searching the chain of one for the other.\<close>

lemma common_loop_fork:
  assumes "wf_tree t"
  shows "t p = Some a \<Longrightarrow> t q = Some b \<Longrightarrow> bi_nHeight a = bi_nHeight b \<Longrightarrow>
    (\<And>k. 0 \<le> k \<Longrightarrow> k \<le> bi_nHeight b \<Longrightarrow> chain_at v k = ancestor_at t k q) \<Longrightarrow>
    common_loop t (Some p) (Some q) = map_option (\<lambda>r. (r, r)) (find_fork_loop t v (Some p))"
proof (induction "nat (bi_nHeight a)" arbitrary: p q a b)
  case 0
  have h: "bi_nHeight a = 0" "bi_nHeight b = 0"
    using 0(1,4) wf_treeD(1) [OF assms 0(2)] by simp_all
  have "pprev a = None" "pprev b = None"
    using wf_treeD(2) [OF assms 0(2)] wf_treeD(2) [OF assms 0(3)] h by simp_all
  moreover have "chain_at v 0 = Some q" using 0(5) [of 0] ancestor_at_self [of t q b] 0(3) h by simp
  ultimately show ?case using 0(2,3) h
    by (subst common_loop.simps, subst common_loop.simps, subst find_fork_loop.simps) (simp add: find_fork_loop.simps)
next
  case (Suc n)
  have pos: "0 < bi_nHeight a" "0 < bi_nHeight b" using Suc.hyps(2) Suc.prems(3) by simp_all
  have "chain_at v (bi_nHeight b) = Some q"
    using Suc.prems(4) [of "bi_nHeight b"] ancestor_at_self [of t q b] Suc.prems(2) pos by simp
  note top = this [folded Suc.prems(3)]
  show ?case
  proof (cases "p = q")
    case True
    then show ?thesis using top Suc.prems(1)
      by (subst common_loop.simps, subst find_fork_loop.simps) simp
  next
    case False
    have "pprev a \<noteq> None" using wf_treeD(2) [OF assms Suc.prems(1)] pos by simp
    then obtain p' a' where p': "pprev a = Some p'" "t p' = Some a'" "bi_nHeight a' = bi_nHeight a - 1"
      using wf_treeD(3) [OF assms Suc.prems(1)] by blast
    have "pprev b \<noteq> None" using wf_treeD(2) [OF assms Suc.prems(2)] pos by simp
    then obtain q' b' where q': "pprev b = Some q'" "t q' = Some b'" "bi_nHeight b' = bi_nHeight b - 1"
      using wf_treeD(3) [OF assms Suc.prems(2)] by blast
    have "common_loop t (Some p') (Some q') = map_option (\<lambda>r. (r, r)) (find_fork_loop t v (Some p'))"
    proof (rule Suc.hyps(1) [OF _ p'(2) q'(2)])
      fix k assume "0 \<le> k" "k \<le> bi_nHeight b'"
      then show "chain_at v k = ancestor_at t k q'"
        using Suc.prems(4) [of k] ancestor_at_prev [OF assms Suc.prems(2) q'(1), of k] q'(3) by simp
    qed (use Suc.hyps(2) Suc.prems(3) p'(3) q'(3) in simp_all)
    then show ?thesis using False top Suc.prems(1,2) p'(1) q'(1)
      by (subst common_loop.simps, subst find_fork_loop.simps) simp
  qed
qed

lemma common_loop_Max:
  assumes "wf_tree t" and "t p = Some a" and "t q = Some b" and "bi_nHeight a = bi_nHeight b"
  shows "common_loop t (Some p) (Some q) =
    (let H = common_heights t (chain_of t q) p;
         r = if H = {} then None else ancestor_at t (Max H) p in Some (r, r))"
proof -
  have "common_loop t (Some p) (Some q) =
      map_option (\<lambda>r. (r, r)) (find_fork_loop t (chain_of t q) (Some p))"
    using chain_at_chain_of [of t q b] assms(3) wf_treeD(1) [OF assms(1,3)]
    by (intro common_loop_fork [OF assms]) simp
  then show ?thesis using find_fork_loop_Max [OF assms(1,2)] by (simp add: Let_def)
qed

definition common_ancestors :: "block_map \<Rightarrow> ptr \<Rightarrow> ptr \<Rightarrow> int set" where
  "common_ancestors t p q =
     {h. 0 \<le> h \<and> h \<le> height_of t p \<and> h \<le> height_of t q \<and> ancestor_at t h p = ancestor_at t h q}"

lemma common_heights_chain_of:
  assumes "wf_tree t" and "t p = Some a" and "t q = Some b"
  shows "common_heights t (chain_of t q) p = common_ancestors t p q"
proof -
  have "h \<le> bi_nHeight b" if "0 \<le> h" "h \<le> bi_nHeight a" "ancestor_at t h q = ancestor_at t h p" for h
    using ancestor_at_height [OF assms(1,2) that(1,2)] that(3) assms(3)
    by (metis ancestor_at_def height_of_Some option.distinct(1))
  then show ?thesis
    using chain_at_chain_of [of t q b] assms(3) wf_treeD(1) [OF assms(1,3)] assms(2,3)
    by (auto simp: common_heights_def common_ancestors_def)
qed

lemma LastCommonAncestor_correct:
  assumes "wf_tree t" and "skips_ok t" and "t p = Some a" and "t q = Some b"
  shows "LastCommonAncestor t p q =
    Some (if common_ancestors t p q = {} then None else ancestor_at t (Max (common_ancestors t p q)) p)"
proof -
  have eq: "LastCommonAncestor t p q = Some r"
    if "t p' = Some a'" "t q' = Some b'" "bi_nHeight a' = bi_nHeight b'"
      "common_ancestors t p' q' = common_ancestors t p q"
      "\<And>h. h \<in> common_ancestors t p q \<Longrightarrow> ancestor_at t h p' = ancestor_at t h p"
      "(if bi_nHeight a > bi_nHeight b then map_option (\<lambda>x. (x, Some q)) (GetAncestor t p (bi_nHeight b))
        else if bi_nHeight b > bi_nHeight a then map_option (\<lambda>x. (Some p, x)) (GetAncestor t q (bi_nHeight a))
        else Some (Some p, Some q)) = Some (Some p', Some q')"
      "r = (if common_ancestors t p q = {} then None else ancestor_at t (Max (common_ancestors t p q)) p)"
    for p' q' a' b' r
  proof -
    have "finite (common_ancestors t p q)"
      by (rule finite_subset [of _ "{0..height_of t p}"]) (auto simp: common_ancestors_def)
    then have "common_ancestors t p q \<noteq> {} \<Longrightarrow>
        ancestor_at t (Max (common_ancestors t p q)) p' = ancestor_at t (Max (common_ancestors t p q)) p"
      using that(5) Max_in by blast
    then show ?thesis
      using common_loop_Max [OF assms(1) that(1-3)] common_heights_chain_of [OF assms(1) that(1,2)] that(4,6,7)
        assms(3,4) by (simp add: LastCommonAncestor_def Let_def)
  qed
  have h0: "0 \<le> bi_nHeight a" "0 \<le> bi_nHeight b"
    using wf_treeD(1) [OF assms(1,3)] wf_treeD(1) [OF assms(1,4)] .
  consider "bi_nHeight a > bi_nHeight b" | "bi_nHeight b > bi_nHeight a" | "bi_nHeight a = bi_nHeight b"
    by linarith
  then show ?thesis
  proof cases
    case 1
    then obtain p' a' where p': "ancestor_at t (bi_nHeight b) p = Some p'" "t p' = Some a'"
        "bi_nHeight a' = bi_nHeight b"
      using ancestor_at_height [OF assms(1,3), of "bi_nHeight b"] h0 by auto
    have tr: "ancestor_at t h p' = ancestor_at t h p" if "0 \<le> h" "h \<le> bi_nHeight b" for h
      using 1 that by (intro ancestor_at_trans [OF assms(1,3) _ _ _ p'(1)]) simp_all
    show ?thesis
    proof (rule eq [OF p'(2) assms(4) p'(3)])
      show "common_ancestors t p' q = common_ancestors t p q"
        using 1 tr p' assms(3,4) by (auto simp: common_ancestors_def)
    qed (use 1 tr p' assms(3,4) GetAncestor_correct [OF assms(1-3)] in \<open>auto simp: common_ancestors_def\<close>)
  next
    case 2
    then obtain q' b' where q': "ancestor_at t (bi_nHeight a) q = Some q'" "t q' = Some b'"
        "bi_nHeight b' = bi_nHeight a"
      using ancestor_at_height [OF assms(1,4), of "bi_nHeight a"] h0 by auto
    have tr: "ancestor_at t h q' = ancestor_at t h q" if "0 \<le> h" "h \<le> bi_nHeight a" for h
      using 2 that by (intro ancestor_at_trans [OF assms(1,4) _ _ _ q'(1)]) simp_all
    show ?thesis
    proof (rule eq [OF assms(3) q'(2) q'(3) [symmetric]])
      show "common_ancestors t p q' = common_ancestors t p q"
        using 2 tr q' assms(3,4) by (auto simp: common_ancestors_def)
    qed (use 2 q' assms(3,4) GetAncestor_correct [OF assms(1,2,4)] in simp_all)
  next
    case 3
    then show ?thesis by (intro eq [OF assms(3,4)]) simp_all
  qed
qed

lemma last_chain_of:
  assumes "t p = Some b" and "0 \<le> bi_nHeight b"
  shows "chain_of t p \<noteq> []" and "chain_of t p ! (length (chain_of t p) - 1) = Some p"
proof -
  have l: "length (chain_of t p) - 1 = nat (bi_nHeight b)" "0 < length (chain_of t p)"
    using assms by simp_all
  then show "chain_of t p \<noteq> []" by force
  have "nat (bi_nHeight b) < nat (height_of t p + 1)" using assms by simp
  then show "chain_of t p ! (length (chain_of t p) - 1) = Some p"
    using ancestor_at_self [of t p b] assms by (simp add: l(1) nth_chain_of)
qed

lemma chain_eq_chain_of:
  assumes "wf_tree t" and "t p = Some a" and "t q = Some b"
  shows "chain_eq (chain_of t p) (chain_of t q) = Some (chain_of t p = chain_of t q)"
proof -
  have h: "0 \<le> bi_nHeight a" "0 \<le> bi_nHeight b"
    using wf_treeD(1) [OF assms(1,2)] wf_treeD(1) [OF assms(1,3)] .
  note p = last_chain_of [of t p a, OF assms(2) h(1)] and q = last_chain_of [of t q b, OF assms(3) h(2)]
  let ?v = "chain_of t p" and ?w = "chain_of t q"
  have e: "?v = ?w \<longleftrightarrow> Some p = Some q"
  proof
    assume "?v = ?w"
    with p(2) q(2) show "Some p = Some q" by metis
  qed simp
  show ?thesis
  proof (cases "length ?v = length ?w")
    case True
    then show ?thesis unfolding chain_eq_def p(2) q(2) using p(1) e by (simp only: if_True if_False refl)
  next
    case False
    then have "?v \<noteq> ?w" by metis
    with False show ?thesis unfolding chain_eq_def by (simp only: if_False)
  qed
qed

section \<open>The block locator\<close>

definition hash_at :: "block_map \<Rightarrow> ptr \<Rightarrow> int \<Rightarrow> uint256" where
  "hash_at t p h = phashBlock (the (t (the (ancestor_at t h p))))"

lemma hash_at_self: "t p = Some b \<Longrightarrow> 0 \<le> bi_nHeight b \<Longrightarrow> hash_at t p (bi_nHeight b) = phashBlock b"
  by (simp add: hash_at_def ancestor_at_self)

text \<open>Where the loop goes on from: the chain and the skip list agree.\<close>

lemma locator_next:
  assumes "wf_tree t" and "skips_ok t" and "is_chain t v" and "t q = Some c"
    and "0 \<le> h" and "h \<le> bi_nHeight c"
  shows "(if chain_at v (bi_nHeight c) = Some q then Some (chain_at v h) else GetAncestor t q h) =
    Some (ancestor_at t h q)"
proof (cases "chain_at v (bi_nHeight c) = Some q")
  case True
  then have "nat (bi_nHeight c) < length v" "v ! nat (bi_nHeight c) = Some q"
    using wf_treeD(1) [OF assms(1,4)] by (auto simp: chain_at_def split: if_splits)
  then have "v ! nat h = ancestor_at t h q" "nat h < length v"
    using down_closed_is_chain [OF assms(1,3), unfolded down_closed_def, rule_format,
        of "nat (bi_nHeight c)" q "nat h"] assms(5,6) by simp_all
  then have "chain_at v h = ancestor_at t h q" using assms(5) by (auto simp: chain_at_def)
  then show ?thesis using True by simp
qed (simp add: GetAncestor_correct [OF assms(1,2,4)])

lemma locator_loop_correct:
  assumes "wf_tree t" and "skips_ok t" and "is_chain t v"
  shows "t q = Some c \<Longrightarrow> 1 \<le> nStep \<Longrightarrow>
    \<exists>ks. locator_loop t v (Some q) vHave nStep = Some (vHave @ map (hash_at t q) ks) \<and>
      ks \<noteq> [] \<and> hd ks = bi_nHeight c \<and> last ks = 0 \<and> sorted_wrt (>) ks"
proof (induction "nat (bi_nHeight c)" arbitrary: q c vHave nStep rule: less_induct)
  case less
  note c0 = wf_treeD(1) [OF assms(1) less.prems(1)]
  have self: "hash_at t q (bi_nHeight c) = phashBlock c"
    by (rule hash_at_self [of t q c, OF less.prems(1) c0])
  show ?case
  proof (cases "bi_nHeight c = 0")
    case True
    then have "locator_loop t v (Some q) vHave nStep = Some (vHave @ map (hash_at t q) [0])"
      using less.prems(1) self by (subst locator_loop.simps) simp
    then show ?thesis using True by (intro exI [of _ "[0]"]) simp
  next
    case False
    let ?h = "max (bi_nHeight c - nStep) 0"
    have h: "0 \<le> ?h" "?h < bi_nHeight c" using False c0 less.prems(2) by auto
    obtain r d where r: "ancestor_at t ?h q = Some r" "t r = Some d" "bi_nHeight d = ?h"
      using ancestor_at_height [OF assms(1) less.prems(1) h(1)] h(2) by auto
    let ?n = "if length vHave + 1 > 10 then nStep * 2 else nStep"
    have n1: "1 \<le> ?n" using less.prems(2) by simp
    have l: "locator_loop t v (Some q) vHave nStep =
        locator_loop t v (Some r) (vHave @ [phashBlock c]) ?n"
      using locator_next [OF assms less.prems(1) h(1)] h(2) less.prems(1) False r(1)
      by (subst locator_loop.simps) (simp add: Let_def)
    obtain ks where ks: "locator_loop t v (Some r) (vHave @ [phashBlock c]) ?n =
        Some ((vHave @ [phashBlock c]) @ map (hash_at t r) ks)"
      "ks \<noteq> []" "hd ks = ?h" "last ks = 0" "sorted_wrt (>) ks"
      using less.hyps [of d r ?n "vHave @ [phashBlock c]", OF _ r(2)] h r(3) n1 by auto
    have le: "k \<le> ?h \<and> 0 \<le> k" if "k \<in> set ks" for k
    proof -
      have "k \<le> hd ks" using ks(2,5) that by (cases ks) auto
      moreover have "last ks \<le> k"
      proof -
        obtain ys y where y: "ks = ys @ [y]" using ks(2) by (metis rev_exhaust)
        then show ?thesis using ks(5) that by (auto simp: sorted_wrt_append)
      qed
      ultimately show ?thesis using ks(3,4) by simp
    qed
    have "hash_at t r k = hash_at t q k" if "k \<in> set ks" for k
      using ancestor_at_trans [OF assms(1) less.prems(1) _ _ _ r(1), of k] le [OF that] h
      by (simp add: hash_at_def)
    then have "map (hash_at t r) ks = map (hash_at t q) ks" by simp
    then have "locator_loop t v (Some q) vHave nStep =
        Some (vHave @ map (hash_at t q) (bi_nHeight c # ks))"
      using l ks(1) self by simp
    moreover have "sorted_wrt (>) (bi_nHeight c # ks)" using ks(5) le h(2) by fastforce
    ultimately show ?thesis using ks(2,4) by (intro exI [of _ "bi_nHeight c # ks"]) simp
  qed
qed

section \<open>A tree for examples\<close>

definition entry :: "int \<Rightarrow> ptr option \<Rightarrow> index_entry" where
  "entry h q = \<lparr>bi_nHeight = h, bi_nTime = 0, bi_nBits = 0, phashBlock = of_int h, pprev = q, pskip = q,
     bi_nVersion = 1, bi_nStatus = 0, bi_nFlags = 0\<rparr>"

definition two_blocks :: block_map where
  "two_blocks = [0 \<mapsto> entry 0 None, 1 \<mapsto> entry 1 (Some 0)]"

lemma two_blocks_ok:
  "wf_tree two_blocks" "skips_ok two_blocks" "two_blocks 1 = Some (entry 1 (Some 0))"
  "ancestor_at two_blocks 0 1 = Some 0"
proof -
  show "wf_tree two_blocks" by (auto simp: wf_tree_def two_blocks_def entry_def split: if_splits)
  show a: "ancestor_at two_blocks 0 1 = Some 0"
    by (simp add: ancestor_at_def height_of_def two_blocks_def entry_def)
  then have "ancestor_at two_blocks 0 (Suc 0) = Some 0" by simp
  then show "skips_ok two_blocks"
    by (auto simp: skips_ok_def GetSkipHeight_def) (auto simp: two_blocks_def entry_def split: if_splits)
qed (simp add: two_blocks_def)

section \<open>Consequences\<close>

text \<open>
  Adding a block on top of a block of the tree and calling BuildSkip keeps the tree and its skip
  list well formed and changes no ancestor relation.
\<close>

lemma build_skip:
  assumes "wf_tree t" and "skips_ok t" and "t p = None" and "pprev b = Some q" and "t q = Some c"
    and "bi_nHeight b = bi_nHeight c + 1"
  shows "\<exists>t'. BuildSkip (t(p \<mapsto> b)) p = Some t' \<and> wf_tree t' \<and> skips_ok t' \<and>
    (\<forall>x h. ancestor_at t' h x = ancestor_at (t(p \<mapsto> b)) h x)"
  using assms by (rule BuildSkip_keeps)

text \<open>
  FindFork returns the highest block a branch shares with the active chain, or a null pointer when
  there is none; LastCommonAncestor returns the highest common ancestor of two blocks.
\<close>

lemma find_fork:
  assumes "wf_tree t" and "skips_ok t" and "t p = Some a" and "t q = Some b"
  shows "FindFork t v (Some p) =
      Some (if common_heights t v p = {} then None else ancestor_at t (Max (common_heights t v p)) p) \<and>
    LastCommonAncestor t p q =
      Some (if common_ancestors t p q = {} then None else ancestor_at t (Max (common_ancestors t p q)) p)"
  using FindFork_correct [OF assms(1-3)] LastCommonAncestor_correct [OF assms] by blast

text \<open>
  GetLocator always ends, and lists the hashes of ancestors of the block at strictly falling
  heights, from the block itself down to the genesis block.
\<close>

lemma block_locator:
  assumes "wf_tree t" and "skips_ok t" and "is_chain t v" and "t q = Some c"
  shows "\<exists>ks. GetLocator t v (Some q) = Some (map (hash_at t q) ks) \<and>
    ks \<noteq> [] \<and> hd ks = bi_nHeight c \<and> last ks = 0 \<and> sorted_wrt (>) ks"
  using locator_loop_correct [OF assms, of 1 "[]"] by (simp add: GetLocator_def)

section \<open>Properties\<close>

text \<open>
  C18. GetAncestor, which jumps over the skip list, finds at every height the block that walking
  back over pprev finds, and a null pointer for a height that is negative or above the block.
\<close>

theorem get_ancestor:
  assumes "wf_tree t" and "skips_ok t" and "t p = Some b"
  shows "GetAncestor t p h = Some (ancestor_at t h p)"
  using assms by (rule GetAncestor_correct)

theorem get_ancestor_witness:
  "GetAncestor two_blocks 1 0 = Some (Some 0)"
  using get_ancestor [OF two_blocks_ok(1,2), of 1 _ 0] two_blocks_ok(3,4) by auto

text \<open>
  C19. SetTip turns the vector of any earlier chain into the vector of all ancestors of the new
  tip by height: the loop may stop at the first entry that is already right because everything
  below it is.
\<close>

theorem set_tip:
  assumes "wf_tree t" and "is_chain t v" and "t p = Some b"
  shows "SetTip t v (Some p) = Some (chain_of t p)"
  using assms by (rule SetTip_correct)

theorem set_tip_witness:
  "SetTip two_blocks (chain_of two_blocks 0) (Some 1) = Some (chain_of two_blocks 1)"
proof -
  have "two_blocks 0 = Some (entry 0 None)" by (simp add: two_blocks_def)
  then have "is_chain two_blocks (chain_of two_blocks 0)" unfolding is_chain_def by blast
  then show ?thesis by (rule set_tip [OF two_blocks_ok(1) _ two_blocks_ok(3)])
qed

end
