(* ===== verification/ScriptNum.thy ===== *)
theory ScriptNum
  imports Opcodes
begin

text \<open>
  \<open>CScriptNum\<close> (\<open>src/script/script.h\<close>): numbers on the script stack. A number is an
  \<open>int64_t\<close>, here the \<open>int\<close> it denotes; on the stack it is a little-endian byte string with
  the sign in the top bit of the last byte. The constructor from a byte string throws
  \<open>scriptnum_error\<close>, here \<open>None\<close>, on more than \<open>nMaxNumSize\<close> bytes and, when minimal encoding
  is required, on any string that \<open>serialize\<close> does not produce.
\<close>

unbundle bit_operations_syntax

definition nMaxNumSize :: nat where
  "nMaxNumSize = 4"

text \<open>\<open>result |= static_cast<int64_t>(vch[i]) << 8*i\<close>, then the sign bit is removed. The loop is
  run on at most \<open>nMaxNumSize\<close> bytes, so no shift reaches the width of the type.\<close>

definition set_vch :: "valtype \<Rightarrow> int" where
  "set_vch vch =
     (if vch = [] then 0
      else let result = foldl (\<lambda>r i. r OR push_bit (8 * i) (ucast (vch ! i))) (0 :: u64)
                          [0..<length vch]
           in if last vch AND 0x80 \<noteq> 0
              then - sint (result AND NOT (push_bit (8 * (length vch - 1)) 0x80))
              else sint result)"

definition CScriptNum :: "valtype \<Rightarrow> bool \<Rightarrow> int option" where
  "CScriptNum vch fRequireMinimal =
     (if length vch > nMaxNumSize then None
      else if fRequireMinimal \<and> length vch > 0 \<and> last vch AND 0x7f = 0 \<and>
              (length vch \<le> 1 \<or> (vch ! (length vch - 2)) AND 0x80 = 0)
           then None
      else Some (set_vch vch))"

text \<open>\<open>while (absvalue) { push_back(absvalue & 0xff); absvalue >>= 8; }\<close>\<close>

function serialize_loop :: "u64 \<Rightarrow> valtype" where
  "serialize_loop absvalue =
     (if absvalue \<noteq> 0 then ucast (absvalue AND 0xff) # serialize_loop (drop_bit 8 absvalue)
      else [])"
  by pat_completeness auto
termination
proof (relation "measure unat")
  fix w :: u64
  assume "w \<noteq> 0"
  then have "unat w div 256 < unat w" by (simp add: unat_gt_0)
  moreover have "unat (drop_bit 8 w) = unat w div 256"
    by (simp only: unat_drop_bit_eq drop_bit_eq_div unat_div_distrib) simp
  ultimately show "(drop_bit 8 w, w) \<in> measure unat" by (simp only: in_measure)
qed simp

declare serialize_loop.simps [simp del]

definition serialize :: "int \<Rightarrow> valtype" where
  "serialize value =
     (if value = 0 then []
      else let neg = value < 0;
               absvalue = (if neg then of_int (- value) else of_int value);
               result = serialize_loop absvalue
           in if last result AND 0x80 \<noteq> 0
              then result @ [if neg then 0x80 else 0]
              else if neg then butlast result @ [last result OR 0x80]
              else result)"

definition getvch :: "int \<Rightarrow> valtype" where
  "getvch m_value = serialize m_value"

definition getint :: "int \<Rightarrow> int" where
  "getint m_value =
     (if m_value > 2147483647 then 2147483647
      else if m_value < -2147483648 then -2147483648
      else m_value)"

text \<open>\<open>operator+=\<close>, \<open>operator-=\<close> and unary minus assert that the result is an \<open>int64_t\<close>;
  \<open>None\<close> is a failed assertion.\<close>

definition int64_max :: int where
  "int64_max = 9223372036854775807"

definition int64_min :: int where
  "int64_min = -9223372036854775808"

definition num_add_assign :: "int \<Rightarrow> int \<Rightarrow> int option" where
  "num_add_assign m_value rhs =
     (if rhs = 0 \<or> (rhs > 0 \<and> m_value \<le> int64_max - rhs) \<or> (rhs < 0 \<and> m_value \<ge> int64_min - rhs)
      then Some (m_value + rhs) else None)"

definition num_sub_assign :: "int \<Rightarrow> int \<Rightarrow> int option" where
  "num_sub_assign m_value rhs =
     (if rhs = 0 \<or> (rhs > 0 \<and> m_value \<ge> int64_min + rhs) \<or> (rhs < 0 \<and> m_value \<le> int64_max + rhs)
      then Some (m_value - rhs) else None)"

definition num_negate :: "int \<Rightarrow> int option" where
  "num_negate m_value = (if m_value \<noteq> int64_min then Some (- m_value) else None)"

section \<open>The digits of the magnitude\<close>

lemma foldl_or_bit:
  fixes vch :: valtype
  shows "bit (foldl (\<lambda>r i. r OR push_bit (8 * i) (ucast (vch ! i))) (0 :: u64) [0..<n]) k \<longleftrightarrow>
     k < 64 \<and> (k div 8 < n \<and> bit (vch ! (k div 8)) (k mod 8))"
proof (induction n)
  case (Suc n)
  have step: "bit (push_bit (8 * n) (ucast (vch ! n)) :: u64) k \<longleftrightarrow>
      k < 64 \<and> k div 8 = n \<and> bit (vch ! n) (k mod 8)"
  proof (cases "k div 8 = n")
    case True
    then have "8 * n \<le> k" "k - 8 * n = k mod 8" by (auto simp: minus_mult_div_eq_mod)
    with True show ?thesis by (auto simp: bit_simps)
  next
    case False
    have "k < 8 * n \<or> 8 \<le> k - 8 * n" using False by linarith
    moreover have "\<not> bit (vch ! n) j" if "8 \<le> j" for j
      using that bit_byte_less [of "vch ! n" j] by linarith
    ultimately show ?thesis using False by (auto simp: bit_simps)
  qed
  show ?case by (auto simp: bit_or_iff Suc.IH step less_Suc_eq)
qed simp

lemma foldl_or_le_val:
  assumes "length vch \<le> 8"
  shows "foldl (\<lambda>r i. r OR push_bit (8 * i) (ucast (vch ! i))) (0 :: u64) [0..<length vch]
    = of_nat (le_val vch)"
  by (rule bit_word_eqI) (auto simp: foldl_or_bit bit_of_nat_iff possible_bit_word bit_le_val)

text \<open>What a byte string denotes: its magnitude without the sign bit, and the sign.\<close>

definition num_denotes :: "valtype \<Rightarrow> int" where
  "num_denotes vch =
     (if vch = [] then 0
      else let mag = int (le_val (butlast vch @ [last vch AND 0x7f]))
           in if last vch AND 0x80 \<noteq> 0 then - mag else mag)"

lemma le_val_signed_less:
  assumes "vch \<noteq> []"
  shows "le_val (butlast vch @ [last vch AND 0x7f]) < 128 * 256 ^ (length vch - 1)"
proof -
  have "le_val (butlast vch) < 256 ^ (length vch - 1)"
    using le_val_less [of "butlast vch"] by simp
  moreover have "unat (last vch AND 0x7f) \<le> 127"
    by (simp only: and_0x7f unsigned_take_bit_eq) (simp add: take_bit_eq_mod)
  then have "256 ^ (length vch - 1) * unat (last vch AND 0x7f) \<le> 256 ^ (length vch - 1) * 127"
    by (rule mult_le_mono2)
  ultimately have "le_val (butlast vch) + 256 ^ (length vch - 1) * unat (last vch AND 0x7f)
      < 128 * 256 ^ (length vch - 1)"
    by linarith
  then show ?thesis by (simp add: le_val_append)
qed

lemma sint_of_nat_u64: "n < 2 ^ 63 \<Longrightarrow> sint (of_nat n :: u64) = int n"
  by (simp add: signed_of_nat signed_take_bit_int_eq_self)

lemma clear_sign_bit:
  assumes "vch \<noteq> []" and "length vch \<le> 8"
  shows "(of_nat (le_val vch) :: u64) AND NOT (push_bit (8 * (length vch - 1)) 0x80)
    = of_nat (le_val (butlast vch @ [last vch AND 0x7f]))"
proof (rule bit_word_eqI)
  fix n assume n: "n < LENGTH(64)"
  let ?k = "length vch - 1"
  have sgn: "bit (push_bit (8 * ?k) 0x80 :: u64) n \<longleftrightarrow> n = 8 * ?k + 7"
    using n bit_exp_iff [where ?'a = u64, of 7 "n - 8 * ?k"] by (auto simp: bit_push_bit_iff)
  have "n div 8 < length vch \<longleftrightarrow> n div 8 < ?k \<or> n div 8 = ?k" using assms(1) by auto
  moreover have "n = 8 * ?k + 7 \<longleftrightarrow> n div 8 = ?k \<and> n mod 8 = 7"
    by (simp add: eq_div_mod_iff)
  moreover have "n mod 8 < 7 \<or> n mod 8 = 7" by linarith
  ultimately show "bit (of_nat (le_val vch) AND NOT (push_bit (8 * ?k) (0x80 :: u64))) n
      = bit (of_nat (le_val (butlast vch @ [last vch AND 0x7f])) :: u64) n"
    using n assms sgn
    by (auto simp: bit_simps bit_le_val nth_append nth_butlast last_conv_nth and_0x7f)
qed

lemma set_vch_denotes: "length vch \<le> 8 \<Longrightarrow> set_vch vch = num_denotes vch"
proof -
  assume l: "length vch \<le> 8"
  show ?thesis
  proof (cases "vch = []")
    case False
    let ?m = "le_val (butlast vch @ [last vch AND 0x7f])"
    have "(256 :: nat) ^ (length vch - 1) \<le> 256 ^ 7" using l by (intro power_increasing) auto
    then have "?m < 2 ^ 63" using le_val_signed_less [OF False] by simp
    then have s: "sint (of_nat ?m :: u64) = int ?m" by (rule sint_of_nat_u64)
    show ?thesis
    proof (cases "last vch AND 0x80 = 0")
      case True
      then have "butlast vch @ [last vch AND 0x7f] = vch"
        using False by (simp add: byte_simps)
      then show ?thesis
        using True False s by (simp add: set_vch_def num_denotes_def foldl_or_le_val [OF l])
    next
      case neg: False
      then show ?thesis
        using False s clear_sign_bit [OF False l]
        by (simp add: set_vch_def num_denotes_def foldl_or_le_val [OF l])
    qed
  qed (simp add: set_vch_def num_denotes_def)
qed

section \<open>serialize writes the shortest encoding\<close>

lemma serialize_loop_step:
  "serialize_loop w = (if w = 0 then [] else of_nat (unat w mod 256) # serialize_loop (of_nat (unat w div 256)))"
proof -
  have "w AND 0xff = of_nat (unat w mod 256)"
  proof -
    have "w AND 0xff = take_bit 8 w" by (simp add: take_bit_eq_mask mask_eq_exp_minus_1)
    moreover have "unat (take_bit 8 w) = unat w mod 256"
      by (simp only: unsigned_take_bit_eq) (simp add: take_bit_eq_mod)
    ultimately show ?thesis by (metis of_nat_unat ucast_id)
  qed
  then have "(ucast (w AND 0xff) :: byte) = of_nat (unat w mod 256)"
    by (simp add: unsigned_of_nat take_bit_eq_mod mod_mod_cancel)
  moreover have "drop_bit 8 w = of_nat (unat w div 256)"
    by (simp add: drop_bit_eq_div word_arith_nat_div)
  ultimately show ?thesis by (subst serialize_loop.simps) simp
qed

lemma le_val_serialize_loop: "le_val (serialize_loop w) = unat w"
proof (induction "unat w" arbitrary: w rule: less_induct)
  case less
  show ?case
  proof (cases "w = 0")
    case False
    then have d: "unat w div 256 < unat w" by (simp add: unat_gt_0)
    then have "unat (of_nat (unat w div 256) :: u64) = unat w div 256"
      using unsigned_less [of w, where ?'a = nat] by (simp add: unat_of_nat)
    with d less [of "of_nat (unat w div 256)"] False show ?thesis
      by (simp add: serialize_loop_step [of w] unat_of_nat_byte)
  qed (simp add: serialize_loop_step)
qed

text \<open>A digit string without a superfluous zero at the top is determined by its value.\<close>

definition minimal_digits :: "valtype \<Rightarrow> bool" where
  "minimal_digits ds \<longleftrightarrow> ds = [] \<or> last ds \<noteq> 0"

lemma minimal_digits_pos: "minimal_digits ds \<Longrightarrow> ds \<noteq> [] \<Longrightarrow> 0 < le_val ds"
  by (cases ds rule: rev_cases) (auto simp: minimal_digits_def le_val_append unat_gt_0)

lemma serialize_loop_minimal: "minimal_digits (serialize_loop w)"
proof (induction "unat w" arbitrary: w rule: less_induct)
  case less
  show ?case
  proof (cases "w = 0")
    case False
    let ?w' = "of_nat (unat w div 256) :: u64"
    have d: "unat w div 256 < unat w" using False by (simp add: unat_gt_0)
    then have u: "unat ?w' = unat w div 256"
      using unsigned_less [of w, where ?'a = nat] by (simp add: unat_of_nat)
    with d less have IH: "minimal_digits (serialize_loop ?w')" by simp
    show ?thesis
    proof (cases "serialize_loop ?w' = []")
      case True
      then have "unat w div 256 = 0" using le_val_serialize_loop [of ?w'] u by simp
      then have "unat w mod 256 \<noteq> 0" using False by (simp add: unat_eq_0 mod_eq_self_iff_div_eq_0)
      then have "(of_nat (unat w mod 256) :: byte) \<noteq> 0"
        by (metis unat_of_nat_byte mod_mod_trivial unat_0)
      then show ?thesis
        using True False by (simp add: serialize_loop_step [of w] minimal_digits_def)
    next
      case ne: False
      then show ?thesis
        using IH False by (simp add: serialize_loop_step [of w] minimal_digits_def)
    qed
  qed (simp add: serialize_loop_step minimal_digits_def)
qed

lemma serialize_loop_unique:
  assumes "minimal_digits ds" and "length ds \<le> 8"
  shows "serialize_loop (of_nat (le_val ds)) = ds"
  using assms
proof (induction ds)
  case (Cons b ds)
  have "le_val (b # ds) < 256 ^ length (b # ds)" by (rule le_val_less)
  also have "(256 :: nat) ^ length (b # ds) \<le> 256 ^ 8"
    using Cons.prems(2) by (intro power_increasing) auto
  finally have "le_val (b # ds) < 2 ^ 64" by simp
  then have u: "unat (of_nat (le_val (b # ds)) :: u64) = le_val (b # ds)"
    by (simp only: unat_of_nat) simp
  have "0 < le_val (b # ds)" using Cons.prems(1) by (rule minimal_digits_pos) simp
  then have nz: "(of_nat (le_val (b # ds)) :: u64) \<noteq> 0" using u by (metis less_irrefl unat_0)
  have "serialize_loop (of_nat (le_val ds)) = ds"
    using Cons by (cases "ds = []") (auto simp: minimal_digits_def)
  moreover have "le_val (b # ds) mod 256 = unat b" "le_val (b # ds) div 256 = le_val ds"
    by simp_all
  ultimately show ?case
    using nz by (subst serialize_loop_step) (simp only: u if_False, simp)
qed (simp add: serialize_loop_step)

section \<open>Round trips\<close>

lemma serialize_nonzero:
  assumes "n \<noteq> 0" and "\<bar>n\<bar> < 2 ^ 64"
  obtains ds where "ds = serialize_loop (of_nat (nat \<bar>n\<bar>))" and "ds \<noteq> []" and "le_val ds = nat \<bar>n\<bar>"
    and "last ds \<noteq> 0"
    and "serialize n =
      (if bit (last ds) 7 then ds @ [if n < 0 then 0x80 else 0]
       else if n < 0 then butlast ds @ [last ds OR 0x80] else ds)"
proof -
  let ?w = "of_nat (nat \<bar>n\<bar>) :: u64"
  have "nat \<bar>n\<bar> < 2 ^ 64" using assms(2) by simp
  then have u: "unat ?w = nat \<bar>n\<bar>" by (simp only: unat_of_nat) simp
  have le: "le_val (serialize_loop ?w) = nat \<bar>n\<bar>" by (simp only: le_val_serialize_loop u)
  then have ne: "serialize_loop ?w \<noteq> []" using assms(1) by (metis le_val.simps(1) nat_0_iff abs_le_zero_iff)
  then have l: "last (serialize_loop ?w) \<noteq> 0"
    using serialize_loop_minimal [of ?w] by (simp add: minimal_digits_def)
  have w: "(if n < 0 then of_int (- n) else of_int n) = ?w" by simp
  have "serialize n =
      (if bit (last (serialize_loop ?w)) 7 then serialize_loop ?w @ [if n < 0 then 0x80 else 0]
       else if n < 0 then butlast (serialize_loop ?w) @ [last (serialize_loop ?w) OR 0x80]
       else serialize_loop ?w)"
    using assms(1) unfolding serialize_def Let_def w by (auto simp: and_0x80_iff)
  with that [of "serialize_loop ?w"] ne le l show ?thesis by simp
qed

lemma num_denotes_snoc:
  "num_denotes (ds @ [b]) =
     (if bit b 7 then - int (le_val (ds @ [take_bit 7 b])) else int (le_val (ds @ [b])))"
  by (simp add: num_denotes_def Let_def byte_simps)

lemma num_denotes_serialize:
  assumes "\<bar>n\<bar> < 2 ^ 64"
  shows "num_denotes (serialize n) = n"
proof (cases "n = 0")
  case False
  then obtain ds where ds: "ds \<noteq> []" "le_val ds = nat \<bar>n\<bar>"
    and s: "serialize n = (if bit (last ds) 7 then ds @ [if n < 0 then 0x80 else 0]
       else if n < 0 then butlast ds @ [last ds OR 0x80] else ds)"
    using serialize_nonzero [OF _ assms] by metis
  obtain xs b where xs: "ds = xs @ [b]" using ds(1) by (cases ds rule: rev_cases) auto
  show ?thesis
  proof (cases "bit b 7")
    case True
    have "bit (0x80 :: byte) 7" by (simp add: bit_0x80)
    moreover have "take_bit 7 (0x80 :: byte) = 0" by simp
    ultimately show ?thesis
      using s xs ds(2) True num_denotes_snoc [of ds "0x80"] num_denotes_snoc [of ds 0]
      by (simp add: le_val_append split: if_splits)
  next
    case low: False
    have "bit (b OR 0x80) 7" by (simp add: bit_or_iff bit_0x80 bit_0x80_int)
    then show ?thesis
      using s xs ds(2) low num_denotes_snoc [of xs b] num_denotes_snoc [of xs "b OR 0x80"]
      by (simp add: byte_simps split: if_splits)
  qed
qed (simp add: serialize_def num_denotes_def)

lemma serialize_num_denotes:
  assumes "length vch \<le> 8"
    and "vch \<noteq> [] \<Longrightarrow> last vch AND 0x7f \<noteq> 0 \<or> (length vch > 1 \<and> (vch ! (length vch - 2)) AND 0x80 \<noteq> 0)"
  shows "serialize (num_denotes vch) = vch"
proof (cases "vch = []")
  case False
  then obtain xs b where v: "vch = xs @ [b]" by (cases vch rule: rev_cases) auto
  let ?t = "take_bit 7 b"
  have nb: "\<not> bit ?t 7" by (simp add: bit_take_bit_iff)
  define ds where "ds = (if ?t \<noteq> 0 then xs @ [?t] else xs)"
  have snd: "?t = 0 \<Longrightarrow> xs \<noteq> [] \<and> bit (last xs) 7"
  proof -
    assume "?t = 0"
    then have "length xs > 0 \<and> bit (vch ! (length vch - 2)) 7"
      using assms(2) v by (auto simp: byte_simps)
    moreover have "length xs > 0 \<Longrightarrow> vch ! (length vch - 2) = last xs"
      using v by (simp add: nth_append last_conv_nth)
    ultimately show ?thesis by auto
  qed
  have m: "minimal_digits ds" using snd by (auto simp: ds_def minimal_digits_def)
  have ne: "ds \<noteq> []" using snd by (auto simp: ds_def)
  have len: "length ds \<le> 8" using assms(1) v by (simp add: ds_def)
  have le: "le_val ds = le_val (xs @ [?t])" by (simp add: ds_def le_val_append)
  have pos: "0 < le_val ds" using m ne by (rule minimal_digits_pos)
  have n: "num_denotes vch = (if bit b 7 then - int (le_val ds) else int (le_val ds))"
    using le by (simp add: v num_denotes_snoc byte_low_id)
  have w: "(if num_denotes vch < 0 then of_int (- num_denotes vch) else of_int (num_denotes vch))
      = (of_nat (le_val ds) :: u64)"
    using pos by (simp add: n)
  have "serialize (num_denotes vch) =
      (if last ds AND 0x80 \<noteq> 0 then ds @ [if bit b 7 then 0x80 else 0]
       else if bit b 7 then butlast ds @ [last ds OR 0x80] else ds)"
    using pos unfolding serialize_def Let_def w serialize_loop_unique [OF m len]
    by (simp add: n)
  also have "\<dots> = vch"
  proof (cases "?t = 0")
    case True
    have "bit b 7 \<Longrightarrow> b = 0x80" using True byte_set_high [of b] by simp
    moreover have "\<not> bit b 7 \<Longrightarrow> b = 0" using True byte_low_id [of b] by simp
    ultimately show ?thesis using True snd by (simp add: ds_def v and_0x80_iff)
  next
    case nz: False
    then show ?thesis
      using nb by (auto simp: ds_def v and_0x80_iff byte_set_high byte_low_id)
  qed
  finally show ?thesis .
qed (simp add: serialize_def num_denotes_def)

section \<open>What the decoder accepts\<close>

lemma CScriptNum_denotes:
  "CScriptNum vch m = Some n \<Longrightarrow> length vch \<le> 4 \<and> n = num_denotes vch"
  by (auto simp: CScriptNum_def nMaxNumSize_def set_vch_denotes split: if_splits)

lemma num_denotes_bound:
  assumes "vch \<noteq> []"
  shows "\<bar>num_denotes vch\<bar> < 128 * 256 ^ (length vch - 1)"
proof -
  have "int (le_val (butlast vch @ [last vch AND 0x7f])) < int (128 * 256 ^ (length vch - 1))"
    using le_val_signed_less [OF assms] by (simp only: of_nat_less_iff)
  then show ?thesis using assms by (simp add: num_denotes_def Let_def)
qed

lemma num_denotes_bound_le:
  assumes "length vch \<le> k" and "0 < k"
  shows "\<bar>num_denotes vch\<bar> < 128 * 256 ^ (k - 1)"
proof (cases "vch = []")
  case False
  have "(256 :: int) ^ (length vch - 1) \<le> 256 ^ (k - 1)"
    using assms by (intro power_increasing) auto
  with num_denotes_bound [OF False] show ?thesis by linarith
qed (use assms in \<open>simp add: num_denotes_def\<close>)

lemma CScriptNum_bound: "CScriptNum vch m = Some n \<Longrightarrow> \<bar>n\<bar> < 2 ^ 31"
  using CScriptNum_denotes [of vch m n] num_denotes_bound_le [of vch 4] by simp

lemma le_val_ge:
  assumes "ds \<noteq> []" and "c \<le> unat (last ds)"
  shows "c * 256 ^ (length ds - 1) \<le> le_val ds"
proof -
  have "le_val ds = le_val (butlast ds) + 256 ^ (length ds - 1) * unat (last ds)"
    using le_val_append [of "butlast ds" "[last ds]"] assms(1) by simp
  moreover have "256 ^ (length ds - 1) * c \<le> 256 ^ (length ds - 1) * unat (last ds)"
    using assms(2) by (rule mult_le_mono2)
  ultimately show ?thesis by (metis mult.commute trans_le_add2)
qed

lemma power_256_less: "(256 :: nat) ^ i < 256 ^ j \<Longrightarrow> i < j"
  by (rule power_less_imp_less_exp [of 256]) simp_all

lemma length_serialize_le:
  assumes "\<bar>n\<bar> < 128 * 256 ^ (k - 1)" and "0 < k" and "\<bar>n\<bar> < 2 ^ 64"
  shows "length (serialize n) \<le> k"
proof (cases "n = 0")
  case False
  obtain ds where ds: "ds \<noteq> []" "le_val ds = nat \<bar>n\<bar>" "last ds \<noteq> 0"
    and s: "serialize n = (if bit (last ds) 7 then ds @ [if n < 0 then 0x80 else 0]
       else if n < 0 then butlast ds @ [last ds OR 0x80] else ds)"
    using serialize_nonzero [OF False assms(3)] by metis
  have "int (nat \<bar>n\<bar>) < int (128 * 256 ^ (k - 1))" using assms(1) by simp
  then have up: "le_val ds < 128 * 256 ^ (k - 1)" using ds(2) by (simp only: of_nat_less_iff)
  show ?thesis
  proof (cases "bit (last ds) 7")
    case True
    then have "128 \<le> unat (last ds)" by (simp only: bit_7_iff)
    from le_val_ge [OF ds(1) this] up
    have "128 * 256 ^ (length ds - 1) < (128 * 256 ^ (k - 1) :: nat)" by (rule le_less_trans)
    then have "length ds - 1 < k - 1" by simp
    then show ?thesis using s True by simp
  next
    case low: False
    have "1 \<le> unat (last ds)" using ds(3) by (simp add: unat_gt_0 Suc_le_eq)
    then have "256 ^ (length ds - 1) \<le> le_val ds" using le_val_ge [OF ds(1), of 1] by simp
    moreover have "128 * 256 ^ (k - 1) \<le> (256 ^ k :: nat)" using assms(2) by (cases k) auto
    ultimately have "(256 :: nat) ^ (length ds - 1) < 256 ^ k" using up by linarith
    then have "length ds - 1 < k" by (rule power_256_less)
    then show ?thesis using s low ds(1) assms(2) by auto
  qed
qed (simp add: serialize_def)

lemma length_serialize_iff:
  assumes "\<bar>n\<bar> < 2 ^ 64" and "0 < k"
  shows "length (serialize n) \<le> k \<longleftrightarrow> \<bar>n\<bar> < 128 * 256 ^ (k - 1)"
  using length_serialize_le [of n k] num_denotes_bound_le [of "serialize n" k] assms
  by (auto simp: num_denotes_serialize)

lemma serialize_is_minimal:
  assumes "\<bar>n\<bar> < 2 ^ 64"
  shows "\<not> (length (serialize n) > 0 \<and> last (serialize n) AND 0x7f = 0 \<and>
      (length (serialize n) \<le> 1 \<or> (serialize n ! (length (serialize n) - 2)) AND 0x80 = 0))"
proof (cases "n = 0")
  case False
  then obtain ds where ds: "ds \<noteq> []" "last ds \<noteq> 0"
    and s: "serialize n = (if bit (last ds) 7 then ds @ [if n < 0 then 0x80 else 0]
       else if n < 0 then butlast ds @ [last ds OR 0x80] else ds)"
    using serialize_nonzero [OF _ assms] by metis
  show ?thesis
  proof (cases "bit (last ds) 7")
    case True
    then show ?thesis using s ds(1) by (auto simp: nth_append last_conv_nth and_0x80_iff)
  next
    case low: False
    then have "take_bit 7 (last ds) \<noteq> 0" using ds(2) by (simp add: byte_low_id)
    then show ?thesis using s low by (simp add: and_0x7f byte_low_or_high)
  qed
qed (simp add: serialize_def)

text \<open>The encoder's output is read back, with or without the minimality check, exactly when it
  fits the four bytes an operand may have; the minimality check accepts only the encoder's
  output. So under \<open>SCRIPT_VERIFY_MINIMALDATA\<close> numbers and their encodings correspond one to
  one.\<close>

lemma CScriptNum_serialize:
  assumes "\<bar>n\<bar> < 2 ^ 64"
  shows "CScriptNum (serialize n) m = (if \<bar>n\<bar> < 2 ^ 31 then Some n else None)"
proof -
  have "length (serialize n) \<le> 4 \<longleftrightarrow> \<bar>n\<bar> < 2 ^ 31"
    using length_serialize_iff [OF assms, of 4] by simp
  then show ?thesis
    using serialize_is_minimal [OF assms] num_denotes_serialize [OF assms]
    unfolding CScriptNum_def nMaxNumSize_def by (auto simp: set_vch_denotes)
qed

lemma CScriptNum_minimal_iff:
  "CScriptNum vch True = Some n \<longleftrightarrow> \<bar>n\<bar> < 2 ^ 31 \<and> vch = serialize n"
proof
  assume a: "CScriptNum vch True = Some n"
  then have l: "length vch \<le> 4" and n: "n = num_denotes vch" by (auto dest: CScriptNum_denotes)
  have "serialize (num_denotes vch) = vch"
    using a l by (intro serialize_num_denotes) (auto simp: CScriptNum_def split: if_splits)
  then show "\<bar>n\<bar> < 2 ^ 31 \<and> vch = serialize n" using CScriptNum_bound [OF a] n by simp
qed (auto simp: CScriptNum_serialize)

lemma int64_add_ok:
  "int64_min \<le> a \<and> a \<le> int64_max \<Longrightarrow>
   num_add_assign a b = (if int64_min \<le> a + b \<and> a + b \<le> int64_max then Some (a + b) else None)"
  by (auto simp: num_add_assign_def int64_min_def int64_max_def)

lemma int64_sub_ok:
  "int64_min \<le> a \<and> a \<le> int64_max \<Longrightarrow>
   num_sub_assign a b = (if int64_min \<le> a - b \<and> a - b \<le> int64_max then Some (a - b) else None)"
  by (auto simp: num_sub_assign_def int64_min_def int64_max_def)

text \<open>Operands decoded from the stack never trip the assertions, and results need five bytes at
  most.\<close>

lemma operands_in_range:
  assumes "\<bar>a\<bar> < 2 ^ 31" and "\<bar>b\<bar> < 2 ^ 31"
  shows "num_add_assign a b = Some (a + b)" and "num_sub_assign a b = Some (a - b)"
    and "num_negate a = Some (- a)"
  using assms by (auto simp: num_add_assign_def num_sub_assign_def num_negate_def
      int64_min_def int64_max_def)

section \<open>Consequences\<close>

text \<open>
  A number written by CScriptNum::serialize is read back, with or without the minimality check,
  when it fits four bytes, and throws otherwise; with the minimality check the reader accepts
  nothing else, so accepted strings and numbers correspond one to one.
\<close>

lemma script_num_roundtrip:
  assumes "\<bar>n\<bar> < 2 ^ 63"
  shows "CScriptNum (serialize n) m = (if \<bar>n\<bar> < 2 ^ 31 then Some n else None) \<and>
    (CScriptNum vch True = Some k \<longleftrightarrow> \<bar>k\<bar> < 2 ^ 31 \<and> vch = serialize k)"
  using CScriptNum_serialize [of n m] CScriptNum_minimal_iff [of vch k] assms by simp

end
