(* ===== verification/Script.thy ===== *)
theory Script
  imports ScriptNum
begin

text \<open>
  \<open>CScript\<close> (\<open>src/script/script.h\<close>, \<open>src/script/script.cpp\<close>): a script is a byte string, and
  a \<open>const_iterator\<close> into it is the suffix that starts there, so \<open>end() - pc\<close> is the length of
  the suffix and \<open>pc < end()\<close> says that it is not empty. \<open>GetOp2\<close> reads one operation and moves
  the iterator, also when it fails half way. The loops over a script are recursive functions on
  the suffix; \<open>parse_script\<close> is the list of operations they all see, and the lemmas say what
  each loop computes from it.
\<close>

definition MAX_SCRIPT_ELEMENT_SIZE :: nat where
  "MAX_SCRIPT_ELEMENT_SIZE = 520"

definition MAX_SCRIPT_SIZE :: nat where
  "MAX_SCRIPT_SIZE = 10000"

section \<open>Building scripts: operator<<\<close>

definition push_opcode :: "byte list \<Rightarrow> byte \<Rightarrow> byte list" where
  "push_opcode script opcode = script @ [opcode]"

definition push_data :: "byte list \<Rightarrow> valtype \<Rightarrow> byte list" where
  "push_data script b =
     (let script =
        (if length b < unat OP_PUSHDATA1 then script @ [of_nat (length b)]
         else if length b \<le> 0xff then script @ [OP_PUSHDATA1] @ [of_nat (length b)]
         else if length b \<le> 0xffff then script @ [OP_PUSHDATA2] @ le_bytes 2 (length b)
         else script @ [OP_PUSHDATA4] @ le_bytes 4 (length b))
      in script @ b)"

definition push_int64 :: "byte list \<Rightarrow> int \<Rightarrow> byte list" where
  "push_int64 script n =
     (if n = -1 \<or> (n \<ge> 1 \<and> n \<le> 16) then script @ [of_int n + (OP_1 - 1)]
      else if n = 0 then script @ [OP_0]
      else push_data script (serialize n))"

definition push_num :: "byte list \<Rightarrow> int \<Rightarrow> byte list" where
  "push_num script b = push_data script (getvch b)"

section \<open>Reading an operation\<close>

text \<open>The size of the immediate operand, and the iterator behind the size; \<open>None\<close> when the
  script ends inside the size, which leaves the iterator where it was.\<close>

definition push_size :: "byte \<Rightarrow> byte list \<Rightarrow> (nat \<times> byte list) option" where
  "push_size opcode pc =
     (if opcode < OP_PUSHDATA1 then Some (unat opcode, pc)
      else if opcode = OP_PUSHDATA1 then
        (if length pc < 1 then None else Some (unat (hd pc), drop 1 pc))
      else if opcode = OP_PUSHDATA2 then
        (if length pc < 2 then None else Some (le_val (take 2 pc), drop 2 pc))
      else
        (if length pc < 4 then None else Some (le_val (take 4 pc), drop 4 pc)))"

text \<open>The result of \<open>GetOp2\<close>: what it returns, \<open>opcodeRet\<close>, \<open>*pvchRet\<close> and \<open>pc\<close>.\<close>

definition GetOp2 :: "byte list \<Rightarrow> bool \<times> byte \<times> valtype \<times> byte list" where
  "GetOp2 pc =
     (case pc of
        [] \<Rightarrow> (False, OP_INVALIDOPCODE, [], [])
      | opcode # pc \<Rightarrow>
          if opcode \<le> OP_PUSHDATA4 then
            (case push_size opcode pc of
               None \<Rightarrow> (False, OP_INVALIDOPCODE, [], pc)
             | Some (nSize, pc) \<Rightarrow>
                 if length pc < nSize then (False, OP_INVALIDOPCODE, [], pc)
                 else (True, opcode, take nSize pc, drop nSize pc))
          else (True, opcode, [], pc))"

lemma push_size_shorter: "push_size opcode pc = Some (n, pc') \<Longrightarrow> length pc' \<le> length pc"
  by (auto simp: push_size_def split: if_splits)

lemma push_size_suffix: "push_size opcode pc = Some (n, pc') \<Longrightarrow> \<exists>xs. pc = xs @ pc'"
proof (unfold push_size_def, goal_cases)
  case 1
  then show ?case
    by (auto split: if_splits intro: exI [of _ "[]"]
        exI [of _ "take 1 pc"] exI [of _ "take 2 pc"] exI [of _ "take 4 pc"]
        append_take_drop_id [symmetric])
qed

lemma GetOp2_Nil [simp]: "GetOp2 [] = (False, OP_INVALIDOPCODE, [], [])"
  by (simp add: GetOp2_def)

lemma GetOp2_suffix: "GetOp2 pc = (r, op, vch, pc') \<Longrightarrow> \<exists>xs. pc = xs @ pc'"
proof (cases pc)
  case (Cons opcode rest)
  assume g: "GetOp2 pc = (r, op, vch, pc')"
  have "\<exists>xs. rest = xs @ pc'"
  proof (cases "opcode \<le> OP_PUSHDATA4")
    case True
    show ?thesis
    proof (cases "push_size opcode rest")
      case (Some q)
      obtain n p where q: "q = (n, p)" by (cases q)
      obtain xs where "rest = xs @ p" using push_size_suffix Some q by blast
      then have "rest = xs @ p \<and> rest = (xs @ take n p) @ drop n p" by simp
      moreover have "pc' = p \<or> pc' = drop n p"
        using g Cons True Some q by (auto simp: GetOp2_def split: if_splits)
      ultimately show ?thesis by metis
    qed (use g Cons True in \<open>simp add: GetOp2_def\<close>)
  qed (use g Cons in \<open>simp add: GetOp2_def\<close>)
  then show ?thesis using Cons by (metis append_Cons)
qed (simp add: GetOp2_def)

lemma GetOp2_shorter: "GetOp2 pc = (r, op, vch, pc') \<Longrightarrow> pc \<noteq> [] \<Longrightarrow> length pc' < length pc"
proof (cases pc)
  case (Cons opcode rest)
  assume g: "GetOp2 pc = (r, op, vch, pc')"
  have "length pc' \<le> length rest"
  proof (cases "opcode \<le> OP_PUSHDATA4")
    case True
    show ?thesis
    proof (cases "push_size opcode rest")
      case (Some q)
      obtain n p where q: "q = (n, p)" by (cases q)
      then have "length p \<le> length rest" using push_size_shorter Some by blast
      moreover have "pc' = p \<or> pc' = drop n p"
        using g Cons True Some q by (auto simp: GetOp2_def split: if_splits)
      ultimately show ?thesis by auto
    qed (use g Cons True in \<open>simp add: GetOp2_def\<close>)
  qed (use g Cons in \<open>simp add: GetOp2_def\<close>)
  then show ?thesis using Cons by simp
qed simp

lemma GetOp2_True_shorter: "GetOp2 pc = (True, op, vch, pc') \<Longrightarrow> length pc' < length pc"
  by (cases "pc = []") (auto dest: GetOp2_shorter)

lemma GetOp2_split:
  "GetOp2 pc = (r, op, vch, pc') \<Longrightarrow> pc = range_between pc pc' @ pc'"
  using GetOp2_suffix by fastforce

lemma GetOp2_data_only_for_pushes:
  "GetOp2 pc = (r, op, vch, pc') \<Longrightarrow> op > OP_PUSHDATA4 \<Longrightarrow> vch = []"
  by (auto simp: GetOp2_def split: list.splits if_splits option.splits)

section \<open>The loops over a script\<close>

definition DecodeOP_N :: "byte \<Rightarrow> int option" where
  "DecodeOP_N opcode =
     (if opcode = OP_0 then Some 0
      else if opcode \<ge> OP_1 \<and> opcode \<le> OP_16 then Some (uint opcode - uint (OP_1 - 1))
      else None)"

definition EncodeOP_N :: "int \<Rightarrow> byte option" where
  "EncodeOP_N n =
     (if n \<ge> 0 \<and> n \<le> 16 then Some (if n = 0 then OP_0 else of_int (uint OP_1 + n - 1)) else None)"

text \<open>\<open>FindAndDelete\<close>: the inner loop steps over occurrences of \<open>b\<close>, the outer one copies the
  operations in between. The state is the copy, \<open>pc2\<close>, \<open>pc\<close> and \<open>nFound\<close>.\<close>

function skip_found :: "byte list \<Rightarrow> byte list \<Rightarrow> nat \<Rightarrow> byte list \<times> nat" where
  "skip_found b pc nFound =
     (if b \<noteq> [] \<and> length pc \<ge> length b \<and> take (length b) pc = b
      then skip_found b (drop (length b) pc) (nFound + 1)
      else (pc, nFound))"
  by pat_completeness auto
termination
proof (relation "measure (\<lambda>(b, pc, n). length pc)", simp)
  fix b pc :: "byte list" and n :: nat
  assume "b \<noteq> [] \<and> length pc \<ge> length b \<and> take (length b) pc = b"
  then have "0 < length b" and "length b \<le> length pc" by simp_all
  then show "((b, drop (length b) pc, n + 1), (b, pc, n)) \<in> measure (\<lambda>(b, pc, n). length pc)"
    by (simp del: length_greater_0_conv)
qed

declare skip_found.simps [simp del]

lemma skip_found_shorter: "skip_found b pc n = (pc', n') \<Longrightarrow> length pc' \<le> length pc"
proof (induction b pc n arbitrary: pc' n' rule: skip_found.induct)
  case (1 b pc n)
  show ?case
  proof (cases "b \<noteq> [] \<and> length pc \<ge> length b \<and> take (length b) pc = b")
    case True
    then have "length pc' \<le> length (drop (length b) pc)"
      using 1 by (metis (no_types, lifting) skip_found.simps)
    then show ?thesis by simp
  next
    case False
    then have "skip_found b pc n = (pc, n)" by (subst skip_found.simps) (simp only: if_False)
    then show ?thesis using 1 by simp
  qed
qed

function FindAndDelete_loop ::
    "byte list \<Rightarrow> byte list \<Rightarrow> byte list \<Rightarrow> byte list \<Rightarrow> nat \<Rightarrow> byte list \<times> byte list \<times> nat" where
  "FindAndDelete_loop b result pc2 pc nFound =
     (let result = result @ range_between pc2 pc;
          s = skip_found b pc nFound;
          g = GetOp2 (fst s)
      in if fst g then FindAndDelete_loop b result (fst s) (snd (snd (snd g))) (snd s)
         else (result, fst s, snd s))"
  by pat_completeness auto
termination
proof (relation "measure (\<lambda>(b, result, pc2, pc, n). length pc)", simp)
  fix b result pc2 pc nFound x s g
  assume s: "s = skip_found b pc nFound" and g: "g = GetOp2 (fst s)" and t: "fst g"
  have "length (fst s) \<le> length pc" using skip_found_shorter [of b pc nFound "fst s" "snd s"] s by simp
  moreover have "length (snd (snd (snd g))) < length (fst s)"
    using g t GetOp2_True_shorter [of "fst s" "fst (snd g)" "fst (snd (snd g))"] by (metis (full_types) prod.collapse)
  ultimately show "((b, x, fst s, snd (snd (snd g)), snd s), (b, result, pc2, pc, nFound))
      \<in> measure (\<lambda>(b, result, pc2, pc, n). length pc)" by simp
qed

declare FindAndDelete_loop.simps [simp del]

definition FindAndDelete :: "byte list \<Rightarrow> byte list \<Rightarrow> byte list \<times> nat" where
  "FindAndDelete script b =
     (if b = [] then (script, 0)
      else case FindAndDelete_loop b [] script script 0 of
        (result, pc2, nFound) \<Rightarrow> (if nFound > 0 then result @ pc2 else script, nFound))"

function Find_loop :: "byte \<Rightarrow> byte list \<Rightarrow> nat \<Rightarrow> nat" where
  "Find_loop op pc nFound =
     (if pc \<noteq> [] then
        (case GetOp2 pc of
           (False, _, _, _) \<Rightarrow> nFound
         | (True, opcode, _, pc') \<Rightarrow>
             Find_loop op pc' (if opcode = op then nFound + 1 else nFound))
      else nFound)"
  by pat_completeness auto
termination
  by (relation "measure (\<lambda>(op, pc, n). length pc)") (auto dest!: GetOp2_True_shorter [OF sym])

declare Find_loop.simps [simp del]

definition Find :: "byte list \<Rightarrow> byte \<Rightarrow> nat" where
  "Find script op = Find_loop op script 0"

text \<open>\<open>None\<close> is the failed assertion of \<open>DecodeOP_N\<close>.\<close>

function GetSigOpCount_loop :: "bool \<Rightarrow> byte \<Rightarrow> byte list \<Rightarrow> u32 \<Rightarrow> u32 option" where
  "GetSigOpCount_loop fAccurate lastOpcode pc n =
     (if pc \<noteq> [] then
        (case GetOp2 pc of
           (False, _, _, _) \<Rightarrow> Some n
         | (True, opcode, _, pc') \<Rightarrow>
             if opcode = OP_CHECKSIG \<or> opcode = OP_CHECKSIGVERIFY
             then GetSigOpCount_loop fAccurate opcode pc' (n + 1)
             else if opcode = OP_CHECKMULTISIG \<or> opcode = OP_CHECKMULTISIGVERIFY then
               (if fAccurate \<and> lastOpcode \<ge> OP_1 \<and> lastOpcode \<le> OP_16
                then (case DecodeOP_N lastOpcode of
                        None \<Rightarrow> None
                      | Some k \<Rightarrow> GetSigOpCount_loop fAccurate opcode pc' (n + of_int k))
                else GetSigOpCount_loop fAccurate opcode pc' (n + 20))
             else GetSigOpCount_loop fAccurate opcode pc' n)
      else Some n)"
  by pat_completeness auto
termination
  by (relation "measure (\<lambda>(a, l, pc, n). length pc)") (auto dest!: GetOp2_True_shorter [OF sym])

declare GetSigOpCount_loop.simps [simp del]

definition GetSigOpCount :: "byte list \<Rightarrow> bool \<Rightarrow> u32 option" where
  "GetSigOpCount script fAccurate = GetSigOpCount_loop fAccurate OP_INVALIDOPCODE script 0"

definition IsPayToScriptHash :: "byte list \<Rightarrow> bool" where
  "IsPayToScriptHash script \<longleftrightarrow>
     length script = 23 \<and> script ! 0 = OP_HASH160 \<and> script ! 1 = 0x14 \<and> script ! 22 = OP_EQUAL"

text \<open>The last item \<open>scriptSig\<close> pushes, \<open>None\<close> when the loop returns 0.\<close>

function last_push :: "byte list \<Rightarrow> valtype \<Rightarrow> valtype option" where
  "last_push pc data =
     (if pc \<noteq> [] then
        (case GetOp2 pc of
           (False, _, _, _) \<Rightarrow> None
         | (True, opcode, data, pc') \<Rightarrow> if opcode > OP_16 then None else last_push pc' data)
      else Some data)"
  by pat_completeness auto
termination
  by (relation "measure (\<lambda>(pc, d). length pc)") (auto dest!: GetOp2_True_shorter [OF sym])

declare last_push.simps [simp del]

definition GetSigOpCount_P2SH :: "byte list \<Rightarrow> byte list \<Rightarrow> u32 option" where
  "GetSigOpCount_P2SH script scriptSig =
     (if \<not> IsPayToScriptHash script then GetSigOpCount script True
      else case last_push scriptSig [] of
        None \<Rightarrow> Some 0
      | Some data \<Rightarrow> GetSigOpCount data True)"

text \<open>\<open>IsNormalPaymentScript\<close> ignores what \<open>GetOp\<close> returns, so an operation cut off at the end
  of the script counts as \<open>OP_INVALIDOPCODE\<close>.\<close>

function IsNormalPaymentScript_loop :: "byte list \<Rightarrow> nat \<Rightarrow> bool" where
  "IsNormalPaymentScript_loop pc i =
     (if pc \<noteq> [] then
        (case GetOp2 pc of
           (_, opcode, _, pc') \<Rightarrow>
             if i = 0 \<and> opcode \<noteq> OP_DUP then False
             else if i = 1 \<and> opcode \<noteq> OP_HASH160 then False
             else if i = 3 \<and> opcode \<noteq> OP_EQUALVERIFY then False
             else if i = 4 \<and> opcode \<noteq> OP_CHECKSIG then False
             else if i = 5 then False
             else IsNormalPaymentScript_loop pc' (i + 1))
      else True)"
  by pat_completeness auto
termination
  by (relation "measure (\<lambda>(pc, i). length pc)") (auto dest!: GetOp2_shorter [OF sym])

declare IsNormalPaymentScript_loop.simps [simp del]

definition IsNormalPaymentScript :: "byte list \<Rightarrow> bool" where
  "IsNormalPaymentScript script \<longleftrightarrow>
     (if length script \<noteq> 25 then False else IsNormalPaymentScript_loop script 0)"

definition IsPayToPublicKeyHash :: "byte list \<Rightarrow> bool" where
  "IsPayToPublicKeyHash script \<longleftrightarrow>
     length script = 25 \<and> script ! 0 = OP_DUP \<and> script ! 1 = OP_HASH160 \<and> script ! 2 = 0x14 \<and>
     script ! 23 = OP_EQUALVERIFY \<and> script ! 24 = OP_CHECKSIG"

definition IsZerocoinMint :: "byte list \<Rightarrow> bool" where
  "IsZerocoinMint script \<longleftrightarrow> length script > 0 \<and> script ! 0 = OP_ZEROCOINMINT"

definition IsZerocoinSpend :: "byte list \<Rightarrow> bool" where
  "IsZerocoinSpend script \<longleftrightarrow> length script > 0 \<and> script ! 0 = OP_ZEROCOINSPEND"

function IsPushOnly :: "byte list \<Rightarrow> bool" where
  "IsPushOnly pc =
     (if pc \<noteq> [] then
        (case GetOp2 pc of
           (False, _, _, _) \<Rightarrow> False
         | (True, opcode, _, pc') \<Rightarrow> if opcode > OP_16 then False else IsPushOnly pc')
      else True)"
  by pat_completeness auto
termination
  by (relation "measure length") (auto dest!: GetOp2_True_shorter [OF sym])

declare IsPushOnly.simps [simp del]

definition IsUnspendable :: "byte list \<Rightarrow> bool" where
  "IsUnspendable script \<longleftrightarrow>
     (length script > 0 \<and> hd script = OP_RETURN) \<or> length script > MAX_SCRIPT_SIZE"

section \<open>The operations of a script\<close>

text \<open>The operations \<open>GetOp\<close> reads one after the other, and whether it reached the end.\<close>

function parse_script :: "byte list \<Rightarrow> (byte \<times> valtype) list \<times> bool" where
  "parse_script pc =
     (if pc = [] then ([], True)
      else case GetOp2 pc of
        (False, _, _, _) \<Rightarrow> ([], False)
      | (True, opcode, vch, pc') \<Rightarrow>
          (case parse_script pc' of (ops, ok) \<Rightarrow> ((opcode, vch) # ops, ok)))"
  by pat_completeness auto
termination
  by (relation "measure length") (auto dest!: GetOp2_True_shorter [OF sym])

declare parse_script.simps [simp del]

text \<open>One unfolding of a loop, by what \<open>GetOp2\<close> returns.\<close>

lemma parse_script_Nil [simp]: "parse_script [] = ([], True)"
  by (simp add: parse_script.simps)

lemma parse_script_step:
  "GetOp2 pc = (True, op, vch, pc') \<Longrightarrow>
   parse_script pc = ((op, vch) # fst (parse_script pc'), snd (parse_script pc'))"
  by (subst parse_script.simps) (auto split: prod.splits)

lemma parse_script_fail:
  "GetOp2 pc = (False, op, vch, pc') \<Longrightarrow> pc \<noteq> [] \<Longrightarrow> parse_script pc = ([], False)"
  by (subst parse_script.simps) auto

text \<open>Induction over a script: it ends, an operation cannot be read, or one is read.\<close>

lemma script_induct [case_names Nil Fail Op]:
  assumes "P []"
    and "\<And>pc op vch pc'. pc \<noteq> [] \<Longrightarrow> GetOp2 pc = (False, op, vch, pc') \<Longrightarrow> P pc"
    and "\<And>pc op vch pc'. pc \<noteq> [] \<Longrightarrow> GetOp2 pc = (True, op, vch, pc') \<Longrightarrow> P pc' \<Longrightarrow> P pc"
  shows "P s"
proof (induction "length s" arbitrary: s rule: less_induct)
  case less
  obtain r op vch pc' where g: "GetOp2 s = (r, op, vch, pc')" by (metis prod.collapse)
  show ?case
  proof (cases "s = []")
    case False
    with g less assms GetOp2_shorter [OF g False] show ?thesis by (cases r) metis+
  qed (use assms in simp)
qed

lemma Find_counts:
  "Find_loop op s n = n + length (filter (\<lambda>x. fst x = op) (fst (parse_script s)))"
proof (induction s arbitrary: n rule: script_induct)
  case (Op pc op' vch pc')
  then show ?case by (subst Find_loop.simps) (simp add: parse_script_step)
next
  case (Fail pc op' vch pc')
  then show ?case by (subst Find_loop.simps) (simp add: parse_script_fail)
qed (simp add: Find_loop.simps)

lemma IsPushOnly_iff:
  "IsPushOnly s \<longleftrightarrow>
     snd (parse_script s) \<and> list_all (\<lambda>(op, vch). op \<le> OP_16) (fst (parse_script s))"
proof (induction s rule: script_induct)
  case (Op pc op vch pc')
  then show ?case
    by (subst IsPushOnly.simps) (simp add: parse_script_step linorder_not_less [symmetric])
next
  case (Fail pc op vch pc')
  then show ?case by (subst IsPushOnly.simps) (simp add: parse_script_fail)
qed (simp add: IsPushOnly.simps)

text \<open>The signature operations of a list of operations, with the operation before each.\<close>

fun sigops :: "bool \<Rightarrow> byte \<Rightarrow> (byte \<times> valtype) list \<Rightarrow> nat" where
  "sigops acc l [] = 0"
| "sigops acc l ((op, vch) # ops) =
     (if op = OP_CHECKSIG \<or> op = OP_CHECKSIGVERIFY then 1
      else if op = OP_CHECKMULTISIG \<or> op = OP_CHECKMULTISIGVERIFY then
        (if acc \<and> OP_1 \<le> l \<and> l \<le> OP_16 then unat l - 80 else 20)
      else 0) + sigops acc op ops"

lemma DecodeOP_N_small:
  assumes "OP_1 \<le> op" and "op \<le> OP_16"
  shows "DecodeOP_N op = Some (int (unat op - 80))" and "unat op - 80 \<le> 16"
proof -
  have b: "81 \<le> unat op" "unat op \<le> 96" using assms by (simp_all add: word_le_nat_alt)
  then have "uint op - 80 = int (unat op - 80)" by (simp only: uint_nat of_nat_diff)
  then show "DecodeOP_N op = Some (int (unat op - 80))" "unat op - 80 \<le> 16"
    using assms b by (auto simp: DecodeOP_N_def)
qed

lemma GetSigOpCount_loop_sigops:
  "GetSigOpCount_loop acc l s n = Some (n + of_nat (sigops acc l (fst (parse_script s))))"
proof (induction s arbitrary: l n rule: script_induct)
  case (Op pc op vch pc')
  then show ?case
    by (subst GetSigOpCount_loop.simps)
      (auto simp: parse_script_step DecodeOP_N_small algebra_simps)
next
  case (Fail pc op vch pc')
  then show ?case by (subst GetSigOpCount_loop.simps) (simp add: parse_script_fail)
qed (simp add: GetSigOpCount_loop.simps)

lemma sigops_accurate_le: "sigops True l ops \<le> sigops False l' ops"
proof (induction ops arbitrary: l l')
  case (Cons x ops)
  obtain op vch where x: "x = (op, vch)" by (cases x)
  have "OP_1 \<le> l \<Longrightarrow> l \<le> OP_16 \<Longrightarrow> unat l - 80 \<le> 16" by (rule DecodeOP_N_small)
  with Cons [of op op] show ?case by (fastforce simp: x)
qed simp

lemma last_push_spec:
  "last_push s d =
     (if IsPushOnly s then Some (last (d # map snd (fst (parse_script s)))) else None)"
proof (induction s arbitrary: d rule: script_induct)
  case (Op pc op vch pc')
  then show ?case
    by (subst last_push.simps, subst IsPushOnly.simps) (auto simp: parse_script_step)
next
  case (Fail pc op vch pc')
  then show ?case by (subst last_push.simps, subst IsPushOnly.simps) (simp add: parse_script_fail)
qed (simp add: last_push.simps IsPushOnly.simps)

section \<open>FindAndDelete\<close>

text \<open>What the two loops compute: walking over the operations, an occurrence of \<open>b\<close> at the
  start of an operation is dropped.\<close>

function delete_ops :: "byte list \<Rightarrow> byte list \<Rightarrow> byte list \<times> nat" where
  "delete_ops b s =
     (if b \<noteq> [] \<and> length s \<ge> length b \<and> take (length b) s = b
      then (let r = delete_ops b (drop (length b) s) in (fst r, snd r + 1))
      else case GetOp2 s of
        (False, _, _, _) \<Rightarrow> (s, 0)
      | (True, _, _, s') \<Rightarrow>
          (let r = delete_ops b s' in (range_between s s' @ fst r, snd r)))"
  by pat_completeness auto
termination
proof (relation "measure (\<lambda>(b, s). length s)", simp, goal_cases)
  case (1 b s)
  then have "0 < length b" and "length b \<le> length s" by simp_all
  then show ?case by (simp del: length_greater_0_conv)
qed (auto dest!: GetOp2_True_shorter [OF sym])

declare delete_ops.simps [simp del]

lemma delete_ops_skip:
  "skip_found b s n = (s', n') \<Longrightarrow>
   delete_ops b s = (fst (delete_ops b s'), snd (delete_ops b s') + (n' - n)) \<and> n \<le> n' \<and>
   \<not> (b \<noteq> [] \<and> length s' \<ge> length b \<and> take (length b) s' = b)"
proof (induction b s n arbitrary: s' n' rule: skip_found.induct)
  case (1 b pc n)
  show ?case
  proof (cases "b \<noteq> [] \<and> length pc \<ge> length b \<and> take (length b) pc = b")
    case True
    have "skip_found b (drop (length b) pc) (n + 1) = (s', n')"
      using "1.prems" True by (subst (asm) skip_found.simps) (simp only: if_True simp_thms)
    note IH = "1.IH" [OF True this]
    have "delete_ops b pc = (fst (delete_ops b (drop (length b) pc)), snd (delete_ops b (drop (length b) pc)) + 1)"
      using True by (subst delete_ops.simps) (simp only: if_True simp_thms Let_def)
    with IH show ?thesis by auto
  next
    case False
    then have "skip_found b pc n = (pc, n)" by (subst skip_found.simps) (simp only: if_False)
    with 1 False show ?thesis by auto
  qed
qed

lemma delete_ops_step:
  assumes "\<not> (b \<noteq> [] \<and> length s \<ge> length b \<and> take (length b) s = b)"
  shows "GetOp2 s = (True, op, vch, s') \<Longrightarrow>
      delete_ops b s = (range_between s s' @ fst (delete_ops b s'), snd (delete_ops b s'))"
    and "GetOp2 s = (False, op, vch, s') \<Longrightarrow> delete_ops b s = (s, 0)"
  by (subst delete_ops.simps; simp only: assms if_False Let_def prod.case bool.case)+

lemma FindAndDelete_loop_spec:
  "FindAndDelete_loop b result pc2 pc n = (r, p, n') \<Longrightarrow>
   r @ p = result @ range_between pc2 pc @ fst (delete_ops b pc) \<and> n' = n + snd (delete_ops b pc)"
proof (induction "length pc" arbitrary: result pc2 pc n rule: less_induct)
  case less
  obtain s m where s: "skip_found b pc n = (s, m)" by (cases "skip_found b pc n")
  obtain ok op vch s' where g: "GetOp2 s = (ok, op, vch, s')" by (metis prod.collapse)
  note sk = delete_ops_skip [OF s]
  show ?case
  proof (cases ok)
    case True
    have "FindAndDelete_loop b (result @ range_between pc2 pc) s s' m = (r, p, n')"
      using less.prems s g True by (subst (asm) FindAndDelete_loop.simps) (simp add: Let_def)
    then have "r @ p = (result @ range_between pc2 pc) @ range_between s s' @ fst (delete_ops b s') \<and>
        n' = m + snd (delete_ops b s')"
      using GetOp2_True_shorter [of s] skip_found_shorter [OF s] g True by (intro less.hyps) auto
    moreover have "delete_ops b s = (range_between s s' @ fst (delete_ops b s'), snd (delete_ops b s'))"
      using sk g True by (intro delete_ops_step) auto
    ultimately show ?thesis using sk by auto
  next
    case False
    have "(r, p, n') = (result @ range_between pc2 pc, s, m)"
      using less.prems s g False by (subst (asm) FindAndDelete_loop.simps) (simp add: Let_def)
    moreover have "delete_ops b s = (s, 0)"
      using sk g False by (intro delete_ops_step) auto
    ultimately show ?thesis using sk by auto
  qed
qed

lemma delete_ops_length:
  "length (fst (delete_ops b s)) + snd (delete_ops b s) * length b = length s \<and>
   (snd (delete_ops b s) = 0 \<longrightarrow> fst (delete_ops b s) = s)"
proof (induction b s rule: delete_ops.induct)
  case (1 b s)
  show ?case
  proof (cases "b \<noteq> [] \<and> length s \<ge> length b \<and> take (length b) s = b")
    case True
    have "delete_ops b s = (fst (delete_ops b (drop (length b) s)), snd (delete_ops b (drop (length b) s)) + 1)"
      using True by (subst delete_ops.simps) (simp only: if_True simp_thms Let_def)
    moreover have "length (drop (length b) s) + length b = length s" using True by simp
    ultimately show ?thesis using "1.IH"(1) [OF True] by (simp only: fst_conv snd_conv) simp
  next
    case no: False
    obtain ok op vch s' where g: "GetOp2 s = (ok, op, vch, s')" by (metis prod.collapse)
    show ?thesis
    proof (cases ok)
      case True
      with "1.IH"(2) [OF no] g have IH: "length (fst (delete_ops b s')) + snd (delete_ops b s') * length b
          = length s' \<and> (snd (delete_ops b s') = 0 \<longrightarrow> fst (delete_ops b s') = s')" by simp
      moreover have "s = range_between s s' @ s'" using g by (rule GetOp2_split)
      then have "length s = length (range_between s s') + length s'" by (metis length_append)
      ultimately show ?thesis
        using delete_ops_step(1) [OF no] g True \<open>s = range_between s s' @ s'\<close> by auto
    qed (use delete_ops_step(2) [OF no] g in auto)
  qed
qed

lemma FindAndDelete_eq:
  "b \<noteq> [] \<Longrightarrow> FindAndDelete s b = delete_ops b s"
proof -
  assume b: "b \<noteq> []"
  obtain r p n where l: "FindAndDelete_loop b [] s s 0 = (r, p, n)"
    by (cases "FindAndDelete_loop b [] s s 0")
  from FindAndDelete_loop_spec [OF this]
  have "r @ p = fst (delete_ops b s)" "n = snd (delete_ops b s)" by auto
  moreover have "n = 0 \<Longrightarrow> fst (delete_ops b s) = s"
    using delete_ops_length [of b s] calculation by simp
  ultimately have "(if n > 0 then r @ p else s, n) = delete_ops b s"
    by (cases "n > 0") (auto simp: prod_eq_iff)
  then show ?thesis using b by (simp add: FindAndDelete_def l)
qed

section \<open>What is written is read back\<close>

lemma unat_of_nat_small: "n < 256 \<Longrightarrow> unat (of_nat n :: byte) = n"
  by (simp add: unat_of_nat_byte)

lemma le_val_le_bytes_small: "n < 256 ^ k \<Longrightarrow> le_val (le_bytes k n) = n"
  by (simp add: le_val_le_bytes)

lemma GetOp2_push_data:
  assumes "length b < 2 ^ 32"
  shows "\<exists>op \<le> OP_PUSHDATA4. \<forall>rest. GetOp2 (push_data [] b @ rest) = (True, op, b, rest)"
proof -
  consider "length b < 76" | "76 \<le> length b" "length b \<le> 0xff"
    | "0xff < length b" "length b \<le> 0xffff" | "0xffff < length b" by linarith
  then show ?thesis
  proof cases
    case 1
    then have u: "unat (of_nat (length b) :: byte) = length b" by (simp add: unat_of_nat_small)
    then have "(of_nat (length b) :: byte) < OP_PUSHDATA1" using 1 by (simp add: word_less_nat_alt)
    then have "(of_nat (length b) :: byte) \<le> OP_PUSHDATA4"
      and "\<forall>rest. GetOp2 (push_data [] b @ rest) = (True, of_nat (length b), b, rest)"
      using 1 u by (auto simp: push_data_def GetOp2_def push_size_def word_le_nat_alt word_less_nat_alt)
    then show ?thesis by blast
  next
    case 2
    then have "\<forall>rest. GetOp2 (push_data [] b @ rest) = (True, OP_PUSHDATA1, b, rest)"
      by (auto simp: push_data_def GetOp2_def push_size_def unat_of_nat_small)
    then show ?thesis by (intro exI [of _ OP_PUSHDATA1]) simp
  next
    case 3
    then have "le_val (le_bytes 2 (length b)) = length b" by (intro le_val_le_bytes_small) simp
    then have "\<forall>rest. GetOp2 (push_data [] b @ rest) = (True, OP_PUSHDATA2, b, rest)"
      using 3 by (auto simp: push_data_def GetOp2_def push_size_def)
    then show ?thesis by (intro exI [of _ OP_PUSHDATA2]) simp
  next
    case 4
    then have "le_val (le_bytes 4 (length b)) = length b"
      using assms by (intro le_val_le_bytes_small) simp
    then have "\<forall>rest. GetOp2 (push_data [] b @ rest) = (True, OP_PUSHDATA4, b, rest)"
      using 4 by (auto simp: push_data_def GetOp2_def push_size_def)
    then show ?thesis by (intro exI [of _ OP_PUSHDATA4]) simp
  qed
qed

lemma push_data_append: "push_data script b = script @ push_data [] b"
  by (simp add: push_data_def)

lemma GetOp2_opcode: "op > OP_PUSHDATA4 \<Longrightarrow> GetOp2 (op # rest) = (True, op, [], rest)"
  by (simp add: GetOp2_def linorder_not_le [symmetric])

lemma push_data_not_Nil: "push_data [] b \<noteq> []"
  by (simp add: push_data_def Let_def)

text \<open>The operations of a script, each as the bytes that spell it, and what is left when the
  last one cannot be read.\<close>

function script_chunks :: "byte list \<Rightarrow> byte list list \<times> byte list" where
  "script_chunks s =
     (case GetOp2 s of
        (False, _, _, _) \<Rightarrow> ([], s)
      | (True, _, _, s') \<Rightarrow>
          (range_between s s' # fst (script_chunks s'), snd (script_chunks s')))"
  by pat_completeness auto
termination
  by (relation "measure length") (auto dest!: GetOp2_True_shorter [OF sym])

declare script_chunks.simps [simp del]

lemma script_chunks_step:
  "GetOp2 s = (True, op, vch, s') \<Longrightarrow>
   script_chunks s = (range_between s s' # fst (script_chunks s'), snd (script_chunks s'))"
  "GetOp2 s = (False, op, vch, s') \<Longrightarrow> script_chunks s = ([], s)"
  by (subst script_chunks.simps; simp)+

lemma prefix_of_single:
  assumes single: "\<And>rest. GetOp2 (b @ rest) = (True, op, vch, rest)"
    and "b \<noteq> []"
  shows "(b \<noteq> [] \<and> length s \<ge> length b \<and> take (length b) s = b) \<longleftrightarrow>
    (\<exists>op' vch' s'. GetOp2 s = (True, op', vch', s') \<and> range_between s s' = b)"
proof
  assume "b \<noteq> [] \<and> length s \<ge> length b \<and> take (length b) s = b"
  then have "s = b @ drop (length b) s" by (metis append_take_drop_id)
  with single [of "drop (length b) s"]
  show "\<exists>op' vch' s'. GetOp2 s = (True, op', vch', s') \<and> range_between s s' = b"
    by (metis range_between_append)
next
  assume "\<exists>op' vch' s'. GetOp2 s = (True, op', vch', s') \<and> range_between s s' = b"
  then obtain s' where "s = b @ s'" using GetOp2_split by metis
  then show "b \<noteq> [] \<and> length s \<ge> length b \<and> take (length b) s = b" using assms(2) by simp
qed

lemma delete_ops_single:
  assumes single: "\<And>rest. GetOp2 (b @ rest) = (True, op, vch, rest)" and b: "b \<noteq> []"
  shows "delete_ops b s =
    (concat (filter (\<lambda>c. c \<noteq> b) (fst (script_chunks s))) @ snd (script_chunks s),
     length (filter (\<lambda>c. c = b) (fst (script_chunks s))))"
proof (induction "length s" arbitrary: s rule: less_induct)
  case less
  obtain ok op' vch' s' where g: "GetOp2 s = (ok, op', vch', s')" by (metis prod.collapse)
  note pre = prefix_of_single [OF single b, of s]
  show ?case
  proof (cases ok)
    case False
    then show ?thesis
      using pre g script_chunks_step(2) [of s op' vch' s'] delete_ops_step(2) [of b s op' vch' s']
      by auto
  next
    case True
    then have IH: "delete_ops b s' =
        (concat (filter (\<lambda>c. c \<noteq> b) (fst (script_chunks s'))) @ snd (script_chunks s'),
         length (filter (\<lambda>c. c = b) (fst (script_chunks s'))))"
      using GetOp2_True_shorter [of s] g by (intro less.hyps) auto
    show ?thesis
    proof (cases "range_between s s' = b")
      case eq: True
      then have pf: "b \<noteq> [] \<and> length s \<ge> length b \<and> take (length b) s = b" by (subst pre) (use g True eq in auto)
      have "drop (length b) s = s'" using GetOp2_split [OF g] eq by (metis append_eq_conv_conj)
      then have "delete_ops b s = (fst (delete_ops b s'), snd (delete_ops b s') + 1)"
        using pf by (subst delete_ops.simps) (simp only: if_True simp_thms Let_def)
      then show ?thesis using IH eq script_chunks_step(1) g True by simp
    next
      case ne: False
      then have "\<not> (b \<noteq> [] \<and> length s \<ge> length b \<and> take (length b) s = b)" using pre g by auto
      then show ?thesis
        using delete_ops_step(1) [of b s] IH ne script_chunks_step(1) g True by simp
    qed
  qed
qed

text \<open>A script built with \<open>operator<<\<close>.\<close>

datatype script_item = Push valtype | Opc byte

fun shl_item :: "byte list \<Rightarrow> script_item \<Rightarrow> byte list" where
  "shl_item s (Push b) = push_data s b"
| "shl_item s (Opc op) = push_opcode s op"

fun item_ok :: "script_item \<Rightarrow> bool" where
  "item_ok (Push b) \<longleftrightarrow> length b < 2 ^ 32"
| "item_ok (Opc op) \<longleftrightarrow> op > OP_PUSHDATA4"

fun item_matches :: "script_item \<Rightarrow> byte \<times> valtype \<Rightarrow> bool" where
  "item_matches (Push b) (op, vch) \<longleftrightarrow> op \<le> OP_PUSHDATA4 \<and> vch = b"
| "item_matches (Opc op') (op, vch) \<longleftrightarrow> op = op' \<and> vch = []"

lemma shl_item_append: "shl_item s it = s @ shl_item [] it"
  by (cases it) (simp_all add: push_data_append [of s] push_opcode_def)

lemma foldl_shl_item: "foldl shl_item s its = s @ foldl shl_item [] its"
proof (induction its arbitrary: s)
  case (Cons it its)
  show ?case using Cons [of "shl_item s it"] Cons [of "shl_item [] it"] by (simp add: shl_item_append [of s])
qed simp

lemma GetOp2_item:
  assumes "item_ok it"
  shows "\<exists>x. item_matches it x \<and> (\<forall>rest. GetOp2 (shl_item [] it @ rest) = (True, fst x, snd x, rest))"
proof (cases it)
  case (Push b)
  with assms GetOp2_push_data [of b] obtain op where
    "op \<le> OP_PUSHDATA4" "\<forall>rest. GetOp2 (push_data [] b @ rest) = (True, op, b, rest)" by auto
  then show ?thesis using Push by (intro exI [of _ "(op, b)"]) simp
next
  case (Opc op)
  then show ?thesis using assms by (intro exI [of _ "(op, [])"]) (simp add: push_opcode_def GetOp2_opcode)
qed

lemma parse_built_script:
  assumes "list_all item_ok its"
  shows "snd (parse_script (foldl shl_item [] its)) \<and>
    list_all2 item_matches its (fst (parse_script (foldl shl_item [] its)))"
  using assms
proof (induction its)
  case (Cons it its)
  then obtain x where x: "item_matches it x"
    "\<And>rest. GetOp2 (shl_item [] it @ rest) = (True, fst x, snd x, rest)"
    using GetOp2_item [of it] by auto
  have "foldl shl_item [] (it # its) = shl_item [] it @ foldl shl_item [] its"
    by (simp add: foldl_shl_item [of "shl_item [] it"])
  then have "parse_script (foldl shl_item [] (it # its)) =
      (x # fst (parse_script (foldl shl_item [] its)), snd (parse_script (foldl shl_item [] its)))"
    using parse_script_step [OF x(2)] by simp
  then show ?case using Cons x(1) by simp
qed simp

section \<open>The standard shapes\<close>

lemma list_eq_takes: "n \<le> length s \<Longrightarrow> \<exists>a b. s = a @ b \<and> length a = n"
  by (metis append_take_drop_id length_take min.absorb2)

lemma IsPayToScriptHash_iff:
  "IsPayToScriptHash s \<longleftrightarrow> (\<exists>h. length h = 20 \<and> s = [OP_HASH160, 0x14] @ h @ [OP_EQUAL])"
proof
  assume a: "IsPayToScriptHash s"
  then have "length s = 23" by (simp add: IsPayToScriptHash_def)
  then have "s = [s ! 0, s ! 1] @ take 20 (drop 2 s) @ [s ! 22]"
    by (intro nth_equalityI) (auto simp: nth_append nth_Cons' intro!: arg_cong [of _ _ "(!) s"])
  then show "\<exists>h. length h = 20 \<and> s = [OP_HASH160, 0x14] @ h @ [OP_EQUAL]"
    using a by (intro exI [of _ "take 20 (drop 2 s)"]) (simp add: IsPayToScriptHash_def)
qed (auto simp: IsPayToScriptHash_def nth_append)

lemma IsPayToPublicKeyHash_iff:
  "IsPayToPublicKeyHash s \<longleftrightarrow>
     (\<exists>h. length h = 20 \<and> s = [OP_DUP, OP_HASH160, 0x14] @ h @ [OP_EQUALVERIFY, OP_CHECKSIG])"
proof
  assume a: "IsPayToPublicKeyHash s"
  then have "length s = 25" by (simp add: IsPayToPublicKeyHash_def)
  then have "s = [s ! 0, s ! 1, s ! 2] @ take 20 (drop 3 s) @ [s ! 23, s ! 24]"
    by (intro nth_equalityI) (auto simp: nth_append nth_Cons' intro!: arg_cong [of _ _ "(!) s"])
  then show "\<exists>h. length h = 20 \<and>
      s = [OP_DUP, OP_HASH160, 0x14] @ h @ [OP_EQUALVERIFY, OP_CHECKSIG]"
    using a by (intro exI [of _ "take 20 (drop 3 s)"]) (simp add: IsPayToPublicKeyHash_def)
qed (auto simp: IsPayToPublicKeyHash_def nth_append)

lemma GetOp2_direct_push:
  assumes "op < OP_PUSHDATA1" and "length h = unat op"
  shows "GetOp2 (op # h @ rest) = (True, op, h, rest)"
proof -
  have "op \<le> OP_PUSHDATA4" using assms(1) by (simp add: word_le_nat_alt word_less_nat_alt)
  then show ?thesis using assms by (simp add: GetOp2_def push_size_def)
qed

lemma IsNormalPaymentScript_step:
  "GetOp2 pc = (r, op, vch, pc') \<Longrightarrow> pc \<noteq> [] \<Longrightarrow>
   IsNormalPaymentScript_loop pc i \<longleftrightarrow>
     \<not> (i = 0 \<and> op \<noteq> OP_DUP) \<and> \<not> (i = 1 \<and> op \<noteq> OP_HASH160) \<and>
     \<not> (i = 3 \<and> op \<noteq> OP_EQUALVERIFY) \<and> \<not> (i = 4 \<and> op \<noteq> OP_CHECKSIG) \<and> i \<noteq> 5 \<and>
     IsNormalPaymentScript_loop pc' (i + 1)"
  by (subst IsNormalPaymentScript_loop.simps) simp

lemma IsNormalPaymentScript_loop_Nil [simp]: "IsNormalPaymentScript_loop [] i"
  by (subst IsNormalPaymentScript_loop.simps) simp

lemma p2pkh_is_normal:
  assumes "IsPayToPublicKeyHash s"
  shows "IsNormalPaymentScript s"
proof -
  from assms obtain h where h: "length h = 20"
    and s: "s = [OP_DUP, OP_HASH160, 0x14] @ h @ [OP_EQUALVERIFY, OP_CHECKSIG]"
    unfolding IsPayToPublicKeyHash_iff by blast
  have "IsNormalPaymentScript_loop s 0"
    using h GetOp2_direct_push [of "0x14" h]
    by (simp add: s IsNormalPaymentScript_step GetOp2_opcode)
  then show ?thesis using h s by (simp add: IsNormalPaymentScript_def)
qed

text \<open>The converse fails: the loop ends early when one push covers the rest of the script.\<close>

lemma normal_not_p2pkh:
  fixes s :: "byte list"
  defines "s \<equiv> [OP_DUP, OP_HASH160, 22] @ replicate 22 0"
  shows "IsNormalPaymentScript s \<and> \<not> IsPayToPublicKeyHash s"
proof
  have "IsNormalPaymentScript_loop s 0"
    using GetOp2_direct_push [of 22 "replicate 22 0" "[]"]
    by (simp add: s_def IsNormalPaymentScript_step GetOp2_opcode)
  then show "IsNormalPaymentScript s" by (simp add: s_def IsNormalPaymentScript_def)
  show "\<not> IsPayToPublicKeyHash s" by (simp add: s_def IsPayToPublicKeyHash_def)
qed

section \<open>Consequences\<close>

text \<open>
  A script built with operator<< from opcodes and data is read by GetOp as exactly those
  operations, up to its end.
\<close>

lemma script_build_parse:
  assumes "list_all item_ok its"
  shows "snd (parse_script (foldl shl_item [] its)) \<and>
    list_all2 item_matches its (fst (parse_script (foldl shl_item [] its)))"
  using assms by (rule parse_built_script)

text \<open>
  GetSigOpCount never reaches the assertion in DecodeOP_N and returns, modulo 2^32, the number of
  signature operations of the operations it can read; counting accurately never gives more than
  counting each multisig as 20.
\<close>

lemma sigop_count:
  "GetSigOpCount script acc = Some (of_nat (sigops acc OP_INVALIDOPCODE (fst (parse_script script)))) \<and>
   sigops True OP_INVALIDOPCODE ops \<le> sigops False OP_INVALIDOPCODE ops"
  using sigops_accurate_le by (simp add: GetSigOpCount_def GetSigOpCount_loop_sigops)

text \<open>
  IsPayToPublicKeyHash accepts exactly the scripts of the standard form, all of which
  IsNormalPaymentScript accepts too; IsNormalPaymentScript also accepts a script that is not of
  that form, a single push that covers the rest of the 25 bytes.
\<close>

lemma payment_script_test:
  "(IsPayToPublicKeyHash s \<longleftrightarrow>
     (\<exists>h. length h = 20 \<and> s = [OP_DUP, OP_HASH160, 0x14] @ h @ [OP_EQUALVERIFY, OP_CHECKSIG])) \<and>
   (IsPayToPublicKeyHash s \<longrightarrow> IsNormalPaymentScript s) \<and>
   (\<exists>s. IsNormalPaymentScript s \<and> \<not> IsPayToPublicKeyHash s)"
  using IsPayToPublicKeyHash_iff p2pkh_is_normal normal_not_p2pkh by blast

section \<open>Properties\<close>

text \<open>
  C9. FindAndDelete of the script that pushes b removes exactly the operations spelled like it, at
  operation boundaries only, keeps every other byte in order, and returns how many it removed.
\<close>

theorem find_and_delete:
  assumes "length b < 2 ^ 32"
  shows "FindAndDelete script (push_data [] b) =
    (concat (filter (\<lambda>c. c \<noteq> push_data [] b) (fst (script_chunks script))) @ snd (script_chunks script),
     length (filter (\<lambda>c. c = push_data [] b) (fst (script_chunks script))))"
proof -
  from GetOp2_push_data [OF assms] obtain op where
    "\<And>rest. GetOp2 (push_data [] b @ rest) = (True, op, b, rest)" by blast
  from delete_ops_single [OF this push_data_not_Nil] show ?thesis
    by (simp add: FindAndDelete_eq [OF push_data_not_Nil])
qed

theorem find_and_delete_witness:
  "snd (FindAndDelete [] (push_data [] [7])) = 0"
  using find_and_delete [of "[7]" "[]"] by (simp add: script_chunks_step(2) [OF GetOp2_Nil])

end
