(* ===== verification/BlockHash.thy ===== *)
theory BlockHash
  imports Prelude
begin

text \<open>
  The buffering that \<open>CSHA256\<close>, \<open>CSHA1\<close> and \<open>CRIPEMD160\<close> (\<open>src/crypto/*.cpp\<close>) share word
  for word: a state of 32-bit words, a 64-byte buffer and a byte counter of type \<open>size_t\<close>;
  \<open>Write\<close> fills the buffer, hashes whole chunks straight from the input and keeps the rest;
  \<open>Finalize\<close> writes the padding and the length. Each class differs in its compression
  function and in the byte order of the length and of the digest, which are arguments here.
  The locale \<open>block_hash\<close> states what the three have in common; its theorem is that any way
  of cutting a message into \<open>Write\<close> calls gives the digest of the padded message.
\<close>

section \<open>Byte order (crypto/common.h)\<close>

definition ReadBE32 :: "byte list \<Rightarrow> u32" where
  "ReadBE32 p = push_bit 24 (ucast (p ! 0)) OR push_bit 16 (ucast (p ! 1)) OR
                push_bit 8 (ucast (p ! 2)) OR ucast (p ! 3)"

definition ReadLE32 :: "byte list \<Rightarrow> u32" where
  "ReadLE32 p = push_bit 24 (ucast (p ! 3)) OR push_bit 16 (ucast (p ! 2)) OR
                push_bit 8 (ucast (p ! 1)) OR ucast (p ! 0)"

definition WriteBE32 :: "u32 \<Rightarrow> byte list" where
  "WriteBE32 x = [ucast (drop_bit 24 x), ucast (drop_bit 16 x), ucast (drop_bit 8 x), ucast x]"

definition WriteLE32 :: "u32 \<Rightarrow> byte list" where
  "WriteLE32 x = [ucast x, ucast (drop_bit 8 x), ucast (drop_bit 16 x), ucast (drop_bit 24 x)]"

definition WriteBE64 :: "u64 \<Rightarrow> byte list" where
  "WriteBE64 x = [ucast (drop_bit 56 x), ucast (drop_bit 48 x), ucast (drop_bit 40 x),
     ucast (drop_bit 32 x), ucast (drop_bit 24 x), ucast (drop_bit 16 x), ucast (drop_bit 8 x),
     ucast x]"

definition WriteLE64 :: "u64 \<Rightarrow> byte list" where
  "WriteLE64 x = [ucast x, ucast (drop_bit 8 x), ucast (drop_bit 16 x), ucast (drop_bit 24 x),
     ucast (drop_bit 32 x), ucast (drop_bit 40 x), ucast (drop_bit 48 x), ucast (drop_bit 56 x)]"

lemma length_WriteBE [simp]:
  "length (WriteBE32 x) = 4" "length (WriteLE32 x) = 4"
  "length (WriteBE64 y) = 8" "length (WriteLE64 y) = 8"
  by (simp_all add: WriteBE32_def WriteLE32_def WriteBE64_def WriteLE64_def)

lemma length_concat_WriteBE32 [simp]:
  "length (concat (map WriteBE32 xs)) = 4 * length xs"
  by (induction xs) auto

lemma length_concat_WriteLE32 [simp]:
  "length (concat (map WriteLE32 xs)) = 4 * length xs"
  by (induction xs) auto

lemma ReadBE32_WriteBE32: "ReadBE32 (WriteBE32 x) = x"
proof (rule bit_word_eqI)
  fix n assume "n < LENGTH(32)"
  then consider "n < 8" | "8 \<le> n" "n < 16" | "16 \<le> n" "n < 24" | "24 \<le> n" "n < 32"
    by (auto simp: not_less) linarith
  then show "bit (ReadBE32 (WriteBE32 x)) n = bit x n"
    by cases (simp_all add: ReadBE32_def WriteBE32_def bit_simps less_diff_conv2)
qed

lemma ReadLE32_WriteLE32: "ReadLE32 (WriteLE32 x) = x"
proof (rule bit_word_eqI)
  fix n assume "n < LENGTH(32)"
  then consider "n < 8" | "8 \<le> n" "n < 16" | "16 \<le> n" "n < 24" | "24 \<le> n" "n < 32"
    by (auto simp: not_less) linarith
  then show "bit (ReadLE32 (WriteLE32 x)) n = bit x n"
    by cases (simp_all add: ReadLE32_def WriteLE32_def bit_simps less_diff_conv2)
qed

section \<open>The hasher object\<close>

record hasher =
  hs :: "u32 list"
  hbuf :: "byte list"
  hbytes :: u64

text \<open>A new object: the counter is zero and the words are the initial ones. The C++ buffer is
  uninitialised; no byte of it is read before it is written (\<open>hasher_rep\<close> below only speaks
  of the bytes the counter says are there).\<close>

definition hasher_new :: "u32 list \<Rightarrow> hasher" where
  "hasher_new initial = \<lparr>hs = initial, hbuf = replicate 64 0, hbytes = 0\<rparr>"

function hasher_chunks ::
    "(u32 list \<Rightarrow> byte list \<Rightarrow> u32 list) \<Rightarrow> hasher \<Rightarrow> byte list \<Rightarrow> hasher \<times> byte list" where
  "hasher_chunks Transform c data =
     (if length data \<ge> 64
      then hasher_chunks Transform
             (c\<lparr>hs := Transform (hs c) (take 64 data), hbytes := hbytes c + 64\<rparr>) (drop 64 data)
      else (c, data))"
  by pat_completeness auto
termination
  by (relation "measure (\<lambda>(t, c, d). length d)") auto

declare hasher_chunks.simps [simp del]

definition hasher_Write ::
    "(u32 list \<Rightarrow> byte list \<Rightarrow> u32 list) \<Rightarrow> hasher \<Rightarrow> byte list \<Rightarrow> hasher" where
  "hasher_Write Transform c data =
     (let bufsize = unat (hbytes c mod 64);
          (c1, data1, bufsize1) =
            (if bufsize \<noteq> 0 \<and> bufsize + length data \<ge> 64
             then let buf' = memcpy_at bufsize (take (64 - bufsize) data) (hbuf c)
                  in (c\<lparr>hbuf := buf', hbytes := hbytes c + of_nat (64 - bufsize),
                        hs := Transform (hs c) buf'\<rparr>,
                      drop (64 - bufsize) data, 0)
             else (c, data, bufsize));
          (c2, data2) = hasher_chunks Transform c1 data1
      in if data2 \<noteq> []
         then c2\<lparr>hbuf := memcpy_at bufsize1 data2 (hbuf c2),
                 hbytes := hbytes c2 + of_nat (length data2)\<rparr>
         else c2)"

definition hasher_pad :: "byte list" where
  "hasher_pad = 0x80 # replicate 63 0"

definition hasher_Finalize ::
    "(u32 list \<Rightarrow> byte list \<Rightarrow> u32 list) \<Rightarrow> (u64 \<Rightarrow> byte list) \<Rightarrow> (u32 list \<Rightarrow> byte list)
     \<Rightarrow> hasher \<Rightarrow> hasher \<times> byte list" where
  "hasher_Finalize Transform WriteSize output c =
     (let sizedesc = WriteSize (push_bit 3 (hbytes c));
          c1 = hasher_Write Transform c
                 (take (1 + (119 - unat (hbytes c mod 64)) mod 64) hasher_pad);
          c2 = hasher_Write Transform c1 sizedesc
      in (c2, output (hs c2)))"

definition hasher_Reset :: "u32 list \<Rightarrow> hasher \<Rightarrow> hasher" where
  "hasher_Reset initial c = c\<lparr>hbytes := 0, hs := initial\<rparr>"

section \<open>The message digest it should compute\<close>

text \<open>\<open>absorb\<close> compresses the whole 64-byte blocks of a message, \<open>block_rest\<close> is what is left
  over.\<close>

function absorb :: "(u32 list \<Rightarrow> byte list \<Rightarrow> u32 list) \<Rightarrow> u32 list \<Rightarrow> byte list \<Rightarrow> u32 list" where
  "absorb Transform s m =
     (if length m < 64 then s else absorb Transform (Transform s (take 64 m)) (drop 64 m))"
  by pat_completeness auto
termination
  by (relation "measure (\<lambda>(t, s, m). length m)") auto

declare absorb.simps [simp del]

definition block_rest :: "byte list \<Rightarrow> byte list" where
  "block_rest m = drop (64 * (length m div 64)) m"

definition md_padding :: "nat \<Rightarrow> byte list" where
  "md_padding n = 0x80 # replicate ((119 - n mod 64) mod 64) 0"

definition md_digest ::
    "(u32 list \<Rightarrow> byte list \<Rightarrow> u32 list) \<Rightarrow> u32 list \<Rightarrow> (u64 \<Rightarrow> byte list) \<Rightarrow> (u32 list \<Rightarrow> byte list)
     \<Rightarrow> byte list \<Rightarrow> byte list" where
  "md_digest Transform initial WriteSize output m =
     output (absorb Transform initial
       (m @ md_padding (length m) @ WriteSize (of_nat (8 * length m))))"

text \<open>The padding is the shortest that makes the padded message a whole number of blocks.\<close>

lemma md_padding_fills:
  "(n + length (md_padding n) + 8) mod 64 = 0"
proof -
  define r where "r = n mod 64"
  have "r < 64" by (simp add: r_def)
  then have "(r + Suc ((119 - r) mod 64) + 8) mod 64 = 0"
  proof (cases "r \<le> 55")
    case True
    then have "119 - r = 64 + (55 - r)" by simp
    then have "(119 - r) mod 64 = 55 - r" using True by (simp only: mod_add_self1) simp
    with True show ?thesis by simp
  qed simp
  moreover have "(n + length (md_padding n) + 8) mod 64 = (r + Suc ((119 - r) mod 64) + 8) mod 64"
  proof -
    have "(n + l + 8) mod 64 = (n mod 64 + l + 8) mod 64" for l :: nat
      by (metis add.assoc mod_add_left_eq)
    from this [of "length (md_padding n)"] show ?thesis
      by (simp only: r_def) (simp add: md_padding_def)
  qed
  ultimately show ?thesis by simp
qed

lemma length_block_rest [simp]: "length (block_rest m) = length m mod 64"
  by (simp add: block_rest_def minus_mult_div_eq_mod)

lemma block_rest_short [simp]: "length m < 64 \<Longrightarrow> block_rest m = m"
  by (simp add: block_rest_def)

lemma absorb_short [simp]: "length m < 64 \<Longrightarrow> absorb t s m = s"
  by (simp add: absorb.simps)

lemma absorb_step: "length b = 64 \<Longrightarrow> absorb t s (b @ m) = absorb t (t s b) m"
  by (subst absorb.simps) simp

lemma block_rest_step: "length b = 64 \<Longrightarrow> block_rest (b @ m) = block_rest m"
proof -
  assume b: "length b = 64"
  then have "64 * (length (b @ m) div 64) = 64 + 64 * (length m div 64)"
    by (simp add: div_add_self1)
  with b show ?thesis by (simp add: block_rest_def)
qed

lemma absorb_append: "absorb t s (m @ d) = absorb t (absorb t s m) (block_rest m @ d)"
proof (induction t s m rule: absorb.induct)
  case (1 t s m)
  show ?case
  proof (cases "length m < 64")
    case False
    define b r where "b = take 64 m" and "r = drop 64 m"
    have m: "m = b @ r" and b: "length b = 64" using False by (simp_all add: b_def r_def)
    have "absorb t (t s b) (r @ d) = absorb t (absorb t (t s b) r) (block_rest r @ d)"
      using "1.IH" False by (simp add: b_def r_def)
    then show ?thesis using b by (simp add: m absorb_step block_rest_step)
  qed simp
qed

lemma block_rest_append: "block_rest (m @ d) = block_rest (block_rest m @ d)"
proof (induction "length m" arbitrary: m rule: less_induct)
  case less
  show ?case
  proof (cases "length m < 64")
    case False
    define b r where "b = take 64 m" and "r = drop 64 m"
    have m: "m = b @ r" and b: "length b = 64" using False by (simp_all add: b_def r_def)
    have "block_rest (r @ d) = block_rest (block_rest r @ d)"
      by (rule less) (use m b in simp)
    then show ?thesis using b by (simp add: m block_rest_step)
  qed simp
qed

lemma hasher_chunks_eq:
  "hasher_chunks t c d =
     (c\<lparr>hs := absorb t (hs c) d, hbytes := hbytes c + of_nat (64 * (length d div 64))\<rparr>,
      block_rest d)"
proof (induction t c d rule: hasher_chunks.induct)
  case (1 t c d)
  show ?case
  proof (cases "length d \<ge> 64")
    case True
    define b r where "b = take 64 d" and "r = drop 64 d"
    have d: "d = b @ r" and b: "length b = 64" using True by (simp_all add: b_def r_def)
    have "(length d) div 64 = Suc (length r div 64)" using d b by simp
    moreover have "hasher_chunks t c d =
        hasher_chunks t (c\<lparr>hs := t (hs c) b, hbytes := hbytes c + 64\<rparr>) r"
      using True by (simp add: hasher_chunks.simps [of t c d] b_def r_def)
    moreover note "1.IH" [OF True]
    ultimately show ?thesis
      using b by (simp add: d absorb_step block_rest_step b_def [symmetric] r_def [symmetric]
        algebra_simps)
  next
    case False
    then show ?thesis by (subst hasher_chunks.simps) simp
  qed
qed

section \<open>The object represents the message written so far\<close>

definition hasher_rep ::
    "(u32 list \<Rightarrow> byte list \<Rightarrow> u32 list) \<Rightarrow> u32 list \<Rightarrow> hasher \<Rightarrow> byte list \<Rightarrow> bool" where
  "hasher_rep t initial c m \<longleftrightarrow>
     hs c = absorb t initial m \<and> hbytes c = of_nat (length m) \<and>
     length (hbuf c) = 64 \<and> take (length m mod 64) (hbuf c) = block_rest m"

lemma u64_mod_64: "unat ((of_nat n :: u64) mod 64) = n mod 64"
  by (simp add: unat_mod unat_of_nat mod_mod_cancel)

lemma hasher_rep_new: "hasher_rep t initial (hasher_new initial) []"
  by (simp add: hasher_rep_def hasher_new_def)

lemma hasher_Write_nofill:
  assumes "unat (hbytes c mod 64) = n" and "\<not> (n \<noteq> 0 \<and> n + length d \<ge> 64)"
  shows "hasher_Write t c d =
    (let c1 = c\<lparr>hs := absorb t (hs c) d, hbytes := hbytes c + of_nat (64 * (length d div 64))\<rparr>
     in if block_rest d = [] then c1
        else c1\<lparr>hbuf := memcpy_at n (block_rest d) (hbuf c),
                hbytes := hbytes c1 + of_nat (length d mod 64)\<rparr>)"
  unfolding hasher_Write_def assms(1) Let_def if_not_P [OF assms(2)]
  by (simp add: hasher_chunks_eq)

lemma block_rest_Nil_iff: "block_rest m = [] \<longleftrightarrow> length m mod 64 = 0"
  by (metis length_block_rest length_0_conv)

lemma hasher_Write_fill:
  assumes "unat (hbytes c mod 64) = n" and "n \<noteq> 0 \<and> n + length d \<ge> 64"
    and "memcpy_at n (take (64 - n) d) (hbuf c) = B" and "drop (64 - n) d = y"
  shows "hasher_Write t c d =
    (let c1 = c\<lparr>hbuf := B, hs := absorb t (t (hs c) B) y,
                hbytes := hbytes c + of_nat (64 - n) + of_nat (64 * (length y div 64))\<rparr>
     in if block_rest y = [] then c1
        else c1\<lparr>hbuf := memcpy_at 0 (block_rest y) B,
                hbytes := hbytes c1 + of_nat (length y mod 64)\<rparr>)"
  unfolding hasher_Write_def assms(1) Let_def if_P [OF assms(2)] assms(3,4)
  by (simp add: hasher_chunks_eq)

text \<open>The three ways \<open>Write\<close> can go: it completes the buffered block, there is nothing buffered,
  or everything stays in the buffer.\<close>

lemma hasher_rep_Write_fill:
  assumes rep: "hasher_rep t initial c m"
    and fill: "length m mod 64 \<noteq> 0 \<and> length m mod 64 + length d \<ge> 64"
  shows "hasher_rep t initial (hasher_Write t c d) (m @ d)"
proof -
  let ?r = "block_rest m" and ?n = "length m mod 64"
  have c: "hs c = absorb t initial m" "hbytes c = of_nat (length m)" "length (hbuf c) = 64"
    "take ?n (hbuf c) = ?r" and bs: "unat (hbytes c mod 64) = ?n" and n: "?n < 64"
    using rep by (simp_all add: hasher_rep_def u64_mod_64)
  define x y B where "x = take (64 - ?n) d" and "y = drop (64 - ?n) d" and "B = ?r @ x"
  have d: "d = x @ y" and x: "length x + ?n = 64" using fill n by (auto simp: x_def y_def)
  then have B: "length B = 64" by (simp add: B_def)
  define c1 where "c1 = c\<lparr>hbuf := B, hs := absorb t (t (hs c) B) y,
      hbytes := hbytes c + of_nat (64 - ?n) + of_nat (64 * (length y div 64))\<rparr>"
  have "memcpy_at ?n (take (64 - ?n) d) (hbuf c) = B"
    using x n c(3,4) by (simp add: memcpy_at_def B_def x_def [symmetric])
  from hasher_Write_fill [OF bs fill this y_def [symmetric]]
  have w: "hasher_Write t c d =
      (if block_rest y = [] then c1
       else c1\<lparr>hbuf := memcpy_at 0 (block_rest y) B,
               hbytes := hbytes c1 + of_nat (length y mod 64)\<rparr>)"
    by (simp add: c1_def Let_def)
  have "64 * (length m div 64) + ?n = length m" by simp
  with x d have len: "length (m @ d) = 64 * Suc (length m div 64) + length y"
    by (simp only: length_append mult_Suc_right)
  have L: "length (m @ d) mod 64 = length y mod 64"
    unfolding len by (simp only: mod_mult_self4)
  have A: "absorb t initial (m @ d) = absorb t (t (absorb t initial m) B) y"
    using absorb_step [OF B] by (simp add: absorb_append [of _ _ m] d B_def)
  have R: "block_rest (m @ d) = block_rest y"
    using block_rest_step [OF B] by (simp add: block_rest_append [of m] d B_def)
  have "length m + (64 - ?n) + 64 * (length y div 64) + length y mod 64 = length (m @ d)"
    using x by (simp add: d)
  then have N: "hbytes c + of_nat (64 - ?n) + of_nat (64 * (length y div 64))
      + of_nat (length y mod 64) = of_nat (length (m @ d))"
    unfolding c(2) by (metis of_nat_add)
  show ?thesis
    unfolding hasher_rep_def R L A w block_rest_Nil_iff N [symmetric]
    using block_rest_Nil_iff [of y] by (auto simp: c1_def c(1) B memcpy_at_def)
qed

lemma hasher_rep_Write_nofill:
  assumes rep: "hasher_rep t initial c m"
    and nofill: "\<not> (length m mod 64 \<noteq> 0 \<and> length m mod 64 + length d \<ge> 64)"
  shows "hasher_rep t initial (hasher_Write t c d) (m @ d)"
proof -
  let ?r = "block_rest m" and ?n = "length m mod 64"
  have c: "hs c = absorb t initial m" "hbytes c = of_nat (length m)" "length (hbuf c) = 64"
    "take ?n (hbuf c) = ?r" and bs: "unat (hbytes c mod 64) = ?n" and n: "?n < 64"
    using rep by (simp_all add: hasher_rep_def u64_mod_64)
  define c1 where "c1 = c\<lparr>hs := absorb t (hs c) d,
      hbytes := hbytes c + of_nat (64 * (length d div 64))\<rparr>"
  have w: "hasher_Write t c d =
      (if block_rest d = [] then c1
       else c1\<lparr>hbuf := memcpy_at ?n (block_rest d) (hbuf c),
               hbytes := hbytes c1 + of_nat (length d mod 64)\<rparr>)"
    using hasher_Write_nofill [OF bs nofill] by (simp add: c1_def Let_def)
  have "length m + 64 * (length d div 64) + length d mod 64 = length (m @ d)" by simp
  then have N: "hbytes c + of_nat (64 * (length d div 64)) + of_nat (length d mod 64)
      = of_nat (length (m @ d))"
    unfolding c(2) by (metis of_nat_add)
  have k: "hbytes (hasher_Write t c d) = of_nat (length (m @ d))"
    unfolding w block_rest_Nil_iff N [symmetric]
    by (cases "length d mod 64 = 0") (simp_all add: c1_def)
  have short: "?n = 0 \<or> length d < 64 \<and> ?n + length d < 64" using nofill by auto
  have l: "length (hbuf (hasher_Write t c d)) = 64"
    unfolding w using short c(3) by (auto simp: c1_def memcpy_at_def)
  have h: "hs (hasher_Write t c d) = absorb t initial (m @ d)"
    unfolding w using short block_rest_Nil_iff [of m]
    by (auto simp: c1_def c(1) absorb_append [of _ _ m])
  have "length (m @ d) mod 64 = (?n + length d) mod 64"
    by (metis length_append mod_add_left_eq)
  then have e: "take (length (m @ d) mod 64) (hbuf (hasher_Write t c d)) = block_rest (m @ d)"
    unfolding w block_rest_append [of m]
    using short c(3,4) block_rest_Nil_iff [of m] block_rest_Nil_iff [of d]
    by (auto simp: c1_def memcpy_at_def)
  show ?thesis
    unfolding hasher_rep_def by (intro conjI h k l e)
qed

lemma hasher_rep_Write:
  "hasher_rep t initial c m \<Longrightarrow> hasher_rep t initial (hasher_Write t c d) (m @ d)"
  using hasher_rep_Write_fill hasher_rep_Write_nofill by blast

lemma hasher_Finalize_rep:
  assumes "hasher_rep t initial c m"
  shows "snd (hasher_Finalize t WriteSize output c) = md_digest t initial WriteSize output m"
    and "\<exists>m'. hasher_rep t initial (fst (hasher_Finalize t WriteSize output c)) m'"
proof -
  have c: "hbytes c = of_nat (length m)" using assms by (simp add: hasher_rep_def)
  have pad: "take (1 + (119 - unat (hbytes c mod 64)) mod 64) hasher_pad = md_padding (length m)"
    by (simp add: hasher_pad_def md_padding_def c u64_mod_64)
  have size: "push_bit 3 (hbytes c) = of_nat (8 * length m)"
    by (simp add: c push_bit_eq_mult)
  define c2 where "c2 = hasher_Write t (hasher_Write t c (md_padding (length m)))
      (WriteSize (of_nat (8 * length m)))"
  have rep: "hasher_rep t initial c2
      ((m @ md_padding (length m)) @ WriteSize (of_nat (8 * length m)))"
    unfolding c2_def by (intro hasher_rep_Write assms)
  have fin: "hasher_Finalize t WriteSize output c = (c2, output (hs c2))"
    unfolding hasher_Finalize_def pad size Let_def c2_def ..
  show "snd (hasher_Finalize t WriteSize output c) = md_digest t initial WriteSize output m"
    using rep by (simp add: fin md_digest_def hasher_rep_def)
  show "\<exists>m'. hasher_rep t initial (fst (hasher_Finalize t WriteSize output c)) m'"
    using rep by (auto simp: fin)
qed

text \<open>\<open>Reset\<close> forgets what was written, whatever is left in the buffer.\<close>

lemma hasher_rep_Reset: "hasher_rep t initial c m \<Longrightarrow> hasher_rep t initial (hasher_Reset initial c) []"
  by (simp add: hasher_rep_def hasher_Reset_def)

section \<open>The interface\<close>

text \<open>What a hasher class promises its users: created or reset, fed with any sequence of writes
  and finalized, it returns the \<open>width\<close>-byte digest of the concatenation; \<open>Finalize\<close> leaves
  the object in a state from which \<open>Reset\<close> starts afresh.\<close>

locale block_hash =
  fixes create :: "'h"
    and feed :: "'h \<Rightarrow> byte list \<Rightarrow> 'h"
    and finalize :: "'h \<Rightarrow> 'h \<times> byte list"
    and reset :: "'h \<Rightarrow> 'h"
    and rep :: "'h \<Rightarrow> byte list \<Rightarrow> bool"
    and digest :: "byte list \<Rightarrow> byte list"
    and width :: nat
  assumes rep_create: "rep create []"
    and rep_feed: "rep h m \<Longrightarrow> rep (feed h d) (m @ d)"
    and finalize_rep: "rep h m \<Longrightarrow> snd (finalize h) = digest m"
    and rep_reset: "rep h m \<Longrightarrow> rep (reset (fst (finalize h))) []"
    and length_digest: "length (digest m) = width"
begin

lemma rep_feeds: "rep h m \<Longrightarrow> rep (foldl feed h ds) (m @ concat ds)"
proof (induction ds arbitrary: h m)
  case (Cons d ds)
  from Cons.IH [OF rep_feed [OF Cons.prems]] show ?case by simp
qed simp

lemma streaming: "snd (finalize (foldl feed create ds)) = digest (concat ds)"
  using finalize_rep [OF rep_feeds [OF rep_create]] by simp

lemma chunking_irrelevant:
  "concat ds = concat es \<Longrightarrow>
     snd (finalize (foldl feed create ds)) = snd (finalize (foldl feed create es))"
  by (simp add: streaming)

lemma one_feed: "snd (finalize (feed create d)) = digest d"
  using streaming [of "[d]"] by simp

lemma reuse: "rep h m \<Longrightarrow> snd (finalize (feed (reset (fst (finalize h))) d)) = digest d"
  using finalize_rep [OF rep_feed [OF rep_reset]] by simp

lemma length_finalize: "rep h m \<Longrightarrow> length (snd (finalize h)) = width"
  by (simp add: finalize_rep length_digest)

end

lemma absorb_length:
  assumes "\<And>s b. length s = k \<Longrightarrow> length (t s b) = k"
  shows "length s = k \<Longrightarrow> length (absorb t s m) = k"
  using assms
proof (induction t s m rule: absorb.induct)
  case (1 t s m)
  then show ?case by (cases "length m < 64") (simp_all add: absorb.simps [of t s m])
qed

end
