(* ===== verification/Sha256.thy ===== *)
theory Sha256
  imports BlockHash
begin

text \<open>
  SHA-256 (\<open>src/crypto/sha256.cpp\<close>). The source unrolls the 64 rounds and renames the eight
  working registers by rotating the arguments of \<open>Round\<close>; here \<open>sha256_Round\<close> returns the
  registers already rotated and the rounds are a recursion over the list of round constants.
  The sixteen schedule words \<open>w0 .. w15\<close> are the list \<open>ws\<close>, rotated in the same way: the word of
  the current round is at its head.
\<close>

unbundle bit_operations_syntax

definition sha256_Ch :: "u32 \<Rightarrow> u32 \<Rightarrow> u32 \<Rightarrow> u32" where
  "sha256_Ch x y z = z XOR (x AND (y XOR z))"

definition sha256_Maj :: "u32 \<Rightarrow> u32 \<Rightarrow> u32 \<Rightarrow> u32" where
  "sha256_Maj x y z = (x AND y) OR (z AND (x OR y))"

definition sha256_Sigma0 :: "u32 \<Rightarrow> u32" where
  "sha256_Sigma0 x = (drop_bit 2 x OR push_bit 30 x) XOR (drop_bit 13 x OR push_bit 19 x) XOR
                     (drop_bit 22 x OR push_bit 10 x)"

definition sha256_Sigma1 :: "u32 \<Rightarrow> u32" where
  "sha256_Sigma1 x = (drop_bit 6 x OR push_bit 26 x) XOR (drop_bit 11 x OR push_bit 21 x) XOR
                     (drop_bit 25 x OR push_bit 7 x)"

definition sha256_sigma0 :: "u32 \<Rightarrow> u32" where
  "sha256_sigma0 x = (drop_bit 7 x OR push_bit 25 x) XOR (drop_bit 18 x OR push_bit 14 x) XOR
                     drop_bit 3 x"

definition sha256_sigma1 :: "u32 \<Rightarrow> u32" where
  "sha256_sigma1 x = (drop_bit 17 x OR push_bit 15 x) XOR (drop_bit 19 x OR push_bit 13 x) XOR
                     drop_bit 10 x"

type_synonym sha256_regs = "u32 \<times> u32 \<times> u32 \<times> u32 \<times> u32 \<times> u32 \<times> u32 \<times> u32"

fun sha256_Round :: "sha256_regs \<Rightarrow> u32 \<Rightarrow> u32 \<Rightarrow> sha256_regs" where
  "sha256_Round (a, b, c, d, e, f, g, h) k w =
     (let t1 = h + sha256_Sigma1 e + sha256_Ch e f g + k + w;
          t2 = sha256_Sigma0 a + sha256_Maj a b c
      in (t1 + t2, a, b, c, d + t1, e, f, g))"

definition sha256_Initialize :: "u32 list" where
  "sha256_Initialize =
     [0x6a09e667, 0xbb67ae85, 0x3c6ef372, 0xa54ff53a,
      0x510e527f, 0x9b05688c, 0x1f83d9ab, 0x5be0cd19]"

text \<open>The constants of the rounds, a row for each time the registers have gone round.\<close>

definition sha256_constants :: "u32 list" where
  "sha256_constants = concat
     [[0x428a2f98, 0x71374491, 0xb5c0fbcf, 0xe9b5dba5,
       0x3956c25b, 0x59f111f1, 0x923f82a4, 0xab1c5ed5],
      [0xd807aa98, 0x12835b01, 0x243185be, 0x550c7dc3,
       0x72be5d74, 0x80deb1fe, 0x9bdc06a7, 0xc19bf174],
      [0xe49b69c1, 0xefbe4786, 0x0fc19dc6, 0x240ca1cc,
       0x2de92c6f, 0x4a7484aa, 0x5cb0a9dc, 0x76f988da],
      [0x983e5152, 0xa831c66d, 0xb00327c8, 0xbf597fc7,
       0xc6e00bf3, 0xd5a79147, 0x06ca6351, 0x14292967],
      [0x27b70a85, 0x2e1b2138, 0x4d2c6dfc, 0x53380d13,
       0x650a7354, 0x766a0abb, 0x81c2c92e, 0x92722c85],
      [0xa2bfe8a1, 0xa81a664b, 0xc24b8b70, 0xc76c51a3,
       0xd192e819, 0xd6990624, 0xf40e3585, 0x106aa070],
      [0x19a4c116, 0x1e376c08, 0x2748774c, 0x34b0bcb5,
       0x391c0cb3, 0x4ed8aa4a, 0x5b9cca4f, 0x682e6ff3],
      [0x748f82ee, 0x78a5636f, 0x84c87814, 0x8cc70208,
       0x90befffa, 0xa4506ceb, 0xbef9a3f7, 0xc67178f2]]"

text \<open>The first sixteen rounds use the words as they are read from the chunk, the others
  update them: \<open>w0 += sigma1(w14) + w9 + sigma0(w1)\<close>.\<close>

fun sha256_first_rounds :: "u32 list \<Rightarrow> u32 list \<Rightarrow> sha256_regs \<Rightarrow> sha256_regs" where
  "sha256_first_rounds (k # ks) (w # ws) r = sha256_first_rounds ks ws (sha256_Round r k w)"
| "sha256_first_rounds _ _ r = r"

definition sha256_expand :: "u32 list \<Rightarrow> u32" where
  "sha256_expand ws = ws ! 0 + (sha256_sigma1 (ws ! 14) + ws ! 9 + sha256_sigma0 (ws ! 1))"

fun sha256_next_rounds :: "u32 list \<Rightarrow> u32 list \<Rightarrow> sha256_regs \<Rightarrow> sha256_regs" where
  "sha256_next_rounds [] ws r = r"
| "sha256_next_rounds (k # ks) ws r =
     (let w = sha256_expand ws
      in sha256_next_rounds ks (tl ws @ [w]) (sha256_Round r k w))"

definition chunk_words_BE :: "byte list \<Rightarrow> u32 list" where
  "chunk_words_BE chunk = map (\<lambda>i. ReadBE32 (drop (4 * i) chunk)) [0..<16]"

definition sha256_Transform :: "u32 list \<Rightarrow> byte list \<Rightarrow> u32 list" where
  "sha256_Transform s chunk =
     (let ws = chunk_words_BE chunk;
          r0 = (s ! 0, s ! 1, s ! 2, s ! 3, s ! 4, s ! 5, s ! 6, s ! 7);
          r1 = sha256_first_rounds (take 16 sha256_constants) ws r0;
          (a, b, c, d, e, f, g, h) = sha256_next_rounds (drop 16 sha256_constants) ws r1
      in [s ! 0 + a, s ! 1 + b, s ! 2 + c, s ! 3 + d,
          s ! 4 + e, s ! 5 + f, s ! 6 + g, s ! 7 + h])"

section \<open>The class CSHA256\<close>

definition CSHA256 :: hasher where
  "CSHA256 = hasher_new sha256_Initialize"

definition CSHA256_Write :: "hasher \<Rightarrow> byte list \<Rightarrow> hasher" where
  "CSHA256_Write = hasher_Write sha256_Transform"

definition sha256_output :: "u32 list \<Rightarrow> byte list" where
  "sha256_output s = concat (map WriteBE32 s)"

definition CSHA256_Finalize :: "hasher \<Rightarrow> hasher \<times> byte list" where
  "CSHA256_Finalize = hasher_Finalize sha256_Transform WriteBE64 sha256_output"

definition CSHA256_Reset :: "hasher \<Rightarrow> hasher" where
  "CSHA256_Reset = hasher_Reset sha256_Initialize"

definition sha256_rep :: "hasher \<Rightarrow> byte list \<Rightarrow> bool" where
  "sha256_rep = hasher_rep sha256_Transform sha256_Initialize"

text \<open>The digest of a whole message, in the shape of the standard: pad, cut into blocks,
  compress.\<close>

definition sha256 :: "byte list \<Rightarrow> byte list" where
  "sha256 = md_digest sha256_Transform sha256_Initialize WriteBE64 sha256_output"

lemma length_sha256_Transform: "length (sha256_Transform s b) = 8"
  by (simp add: sha256_Transform_def Let_def split: prod.split)

lemma length_sha256 [simp]: "length (sha256 m) = 32"
proof -
  have "length (absorb sha256_Transform sha256_Initialize m') = 8" for m'
    by (rule absorb_length) (simp_all add: length_sha256_Transform sha256_Initialize_def)
  then show ?thesis by (simp add: sha256_def md_digest_def sha256_output_def)
qed

interpretation sha256h: block_hash CSHA256 CSHA256_Write CSHA256_Finalize CSHA256_Reset sha256_rep sha256 32
proof unfold_locales
  show "sha256_rep CSHA256 []"
    by (simp add: sha256_rep_def CSHA256_def hasher_rep_new)
  show "sha256_rep (CSHA256_Write h d) (m @ d)" if "sha256_rep h m" for h m d
    using that by (simp add: sha256_rep_def CSHA256_Write_def hasher_rep_Write)
  show "snd (CSHA256_Finalize h) = sha256 m" if "sha256_rep h m" for h m
    using that by (simp add: sha256_rep_def CSHA256_Finalize_def sha256_def hasher_Finalize_rep)
  show "sha256_rep (CSHA256_Reset (fst (CSHA256_Finalize h))) []" if "sha256_rep h m" for h m
  proof -
    have "\<exists>m'. sha256_rep (fst (CSHA256_Finalize h)) m'"
      using that unfolding sha256_rep_def CSHA256_Finalize_def by (rule hasher_Finalize_rep)
    then show ?thesis
      by (auto simp: sha256_rep_def CSHA256_Reset_def intro: hasher_rep_Reset)
  qed
qed simp

end
