(* ===== verification/Sha1.thy ===== *)
theory Sha1
  imports Sha256
begin

text \<open>
  SHA-1 (\<open>src/crypto/sha1.cpp\<close>), used by \<open>OP_SHA1\<close> only. The 80 unrolled rounds are a
  recursion over the round number, with the registers and the schedule words rotated as in
  theory \<open>Sha256\<close>.
\<close>

unbundle bit_operations_syntax

type_synonym sha1_regs = "u32 \<times> u32 \<times> u32 \<times> u32 \<times> u32"

fun sha1_Round :: "sha1_regs \<Rightarrow> u32 \<Rightarrow> u32 \<Rightarrow> u32 \<Rightarrow> sha1_regs" where
  "sha1_Round (a, b, c, d, e) f k w =
     (e + ((push_bit 5 a OR drop_bit 27 a) + f + k + w),
      a, push_bit 30 b OR drop_bit 2 b, c, d)"

definition sha1_f1 :: "u32 \<Rightarrow> u32 \<Rightarrow> u32 \<Rightarrow> u32" where
  "sha1_f1 b c d = d XOR (b AND (c XOR d))"

definition sha1_f2 :: "u32 \<Rightarrow> u32 \<Rightarrow> u32 \<Rightarrow> u32" where
  "sha1_f2 b c d = b XOR c XOR d"

definition sha1_f3 :: "u32 \<Rightarrow> u32 \<Rightarrow> u32 \<Rightarrow> u32" where
  "sha1_f3 b c d = (b AND c) OR (d AND (b OR c))"

definition sha1_left :: "u32 \<Rightarrow> u32" where
  "sha1_left x = push_bit 1 x OR drop_bit 31 x"

definition sha1_Initialize :: "u32 list" where
  "sha1_Initialize = [0x67452301, 0xEFCDAB89, 0x98BADCFE, 0x10325476, 0xC3D2E1F0]"

text \<open>Rounds 0-19 use \<open>f1, k1\<close>, 20-39 \<open>f2, k2\<close>, 40-59 \<open>f3, k3\<close> and 60-79 \<open>f2, k4\<close>.\<close>

definition sha1_f :: "nat \<Rightarrow> u32 \<Rightarrow> u32 \<Rightarrow> u32 \<Rightarrow> u32" where
  "sha1_f i = (if i < 20 then sha1_f1 else if i < 40 then sha1_f2
               else if i < 60 then sha1_f3 else sha1_f2)"

definition sha1_k :: "nat \<Rightarrow> u32" where
  "sha1_k i = (if i < 20 then 0x5A827999 else if i < 40 then 0x6ED9EBA1
               else if i < 60 then 0x8F1BBCDC else 0xCA62C1D6)"

definition sha1_step :: "nat \<Rightarrow> u32 \<Rightarrow> sha1_regs \<Rightarrow> sha1_regs" where
  "sha1_step i w r = (case r of (a, b, c, d, e) \<Rightarrow> sha1_Round r (sha1_f i b c d) (sha1_k i) w)"

fun sha1_rounds :: "nat list \<Rightarrow> u32 list \<Rightarrow> sha1_regs \<Rightarrow> sha1_regs" where
  "sha1_rounds [] ws r = r"
| "sha1_rounds (i # is) ws r =
     (let w = (if i < 16 then ws ! 0
               else sha1_left (ws ! 0 XOR ws ! 13 XOR ws ! 8 XOR ws ! 2))
      in sha1_rounds is (tl ws @ [w]) (sha1_step i w r))"

definition sha1_Transform :: "u32 list \<Rightarrow> byte list \<Rightarrow> u32 list" where
  "sha1_Transform s chunk =
     (let (a, b, c, d, e) = sha1_rounds [0..<80] (chunk_words_BE chunk)
                              (s ! 0, s ! 1, s ! 2, s ! 3, s ! 4)
      in [s ! 0 + a, s ! 1 + b, s ! 2 + c, s ! 3 + d, s ! 4 + e])"

section \<open>The class CSHA1\<close>

definition CSHA1 :: hasher where
  "CSHA1 = hasher_new sha1_Initialize"

definition CSHA1_Write :: "hasher \<Rightarrow> byte list \<Rightarrow> hasher" where
  "CSHA1_Write = hasher_Write sha1_Transform"

definition sha1_output :: "u32 list \<Rightarrow> byte list" where
  "sha1_output s = concat (map WriteBE32 s)"

definition CSHA1_Finalize :: "hasher \<Rightarrow> hasher \<times> byte list" where
  "CSHA1_Finalize = hasher_Finalize sha1_Transform WriteBE64 sha1_output"

definition CSHA1_Reset :: "hasher \<Rightarrow> hasher" where
  "CSHA1_Reset = hasher_Reset sha1_Initialize"

definition sha1_rep :: "hasher \<Rightarrow> byte list \<Rightarrow> bool" where
  "sha1_rep = hasher_rep sha1_Transform sha1_Initialize"

definition sha1 :: "byte list \<Rightarrow> byte list" where
  "sha1 = md_digest sha1_Transform sha1_Initialize WriteBE64 sha1_output"

lemma length_sha1_Transform: "length (sha1_Transform s b) = 5"
  by (simp add: sha1_Transform_def Let_def split: prod.split)

lemma length_sha1 [simp]: "length (sha1 m) = 20"
proof -
  have "length (absorb sha1_Transform sha1_Initialize m') = 5" for m'
    by (rule absorb_length) (simp_all add: length_sha1_Transform sha1_Initialize_def)
  then show ?thesis by (simp add: sha1_def md_digest_def sha1_output_def)
qed

interpretation sha1h: block_hash CSHA1 CSHA1_Write CSHA1_Finalize CSHA1_Reset sha1_rep sha1 20
proof unfold_locales
  show "sha1_rep CSHA1 []"
    by (simp add: sha1_rep_def CSHA1_def hasher_rep_new)
  show "sha1_rep (CSHA1_Write h d) (m @ d)" if "sha1_rep h m" for h m d
    using that by (simp add: sha1_rep_def CSHA1_Write_def hasher_rep_Write)
  show "snd (CSHA1_Finalize h) = sha1 m" if "sha1_rep h m" for h m
    using that by (simp add: sha1_rep_def CSHA1_Finalize_def sha1_def hasher_Finalize_rep)
  show "sha1_rep (CSHA1_Reset (fst (CSHA1_Finalize h))) []" if "sha1_rep h m" for h m
  proof -
    have "\<exists>m'. sha1_rep (fst (CSHA1_Finalize h)) m'"
      using that unfolding sha1_rep_def CSHA1_Finalize_def by (rule hasher_Finalize_rep)
    then show ?thesis
      by (auto simp: sha1_rep_def CSHA1_Reset_def intro: hasher_rep_Reset)
  qed
qed simp

end
