(* ===== verification/Ripemd160.thy ===== *)
theory Ripemd160
  imports BlockHash
begin

text \<open>
  RIPEMD-160 (\<open>src/crypto/ripemd160.cpp\<close>): two lines of 80 rounds. The word index and the
  rotation of each \<open>R11 .. R52\<close> call of the source are the tables below, in the order of the
  calls; every group of sixteen calls has its own boolean function and constant. As in the
  other hash theories the registers come back from a round already rotated.
\<close>

unbundle bit_operations_syntax

definition ripemd_f1 :: "u32 \<Rightarrow> u32 \<Rightarrow> u32 \<Rightarrow> u32" where
  "ripemd_f1 x y z = x XOR y XOR z"

definition ripemd_f2 :: "u32 \<Rightarrow> u32 \<Rightarrow> u32 \<Rightarrow> u32" where
  "ripemd_f2 x y z = (x AND y) OR (NOT x AND z)"

definition ripemd_f3 :: "u32 \<Rightarrow> u32 \<Rightarrow> u32 \<Rightarrow> u32" where
  "ripemd_f3 x y z = (x OR NOT y) XOR z"

definition ripemd_f4 :: "u32 \<Rightarrow> u32 \<Rightarrow> u32 \<Rightarrow> u32" where
  "ripemd_f4 x y z = (x AND z) OR (y AND NOT z)"

definition ripemd_f5 :: "u32 \<Rightarrow> u32 \<Rightarrow> u32 \<Rightarrow> u32" where
  "ripemd_f5 x y z = x XOR (y OR NOT z)"

definition ripemd_Initialize :: "u32 list" where
  "ripemd_Initialize = [0x67452301, 0xEFCDAB89, 0x98BADCFE, 0x10325476, 0xC3D2E1F0]"

definition ripemd_rol :: "u32 \<Rightarrow> nat \<Rightarrow> u32" where
  "ripemd_rol x i = push_bit i x OR drop_bit (32 - i) x"

type_synonym ripemd_regs = "u32 \<times> u32 \<times> u32 \<times> u32 \<times> u32"

fun ripemd_Round :: "ripemd_regs \<Rightarrow> u32 \<Rightarrow> u32 \<Rightarrow> u32 \<Rightarrow> nat \<Rightarrow> ripemd_regs" where
  "ripemd_Round (a, b, c, d, e) f x k r =
     (e, ripemd_rol (a + f + x + k) r + e, b, ripemd_rol c 10, d)"

text \<open>\<open>R11, R21, R31, R41, R51\<close> (the left line) and \<open>R12 .. R52\<close> (the right line).\<close>

definition ripemd_left_fk :: "nat \<Rightarrow> (u32 \<Rightarrow> u32 \<Rightarrow> u32 \<Rightarrow> u32) \<times> u32" where
  "ripemd_left_fk i =
     (if i < 16 then (ripemd_f1, 0) else if i < 32 then (ripemd_f2, 0x5A827999)
      else if i < 48 then (ripemd_f3, 0x6ED9EBA1) else if i < 64 then (ripemd_f4, 0x8F1BBCDC)
      else (ripemd_f5, 0xA953FD4E))"

definition ripemd_right_fk :: "nat \<Rightarrow> (u32 \<Rightarrow> u32 \<Rightarrow> u32 \<Rightarrow> u32) \<times> u32" where
  "ripemd_right_fk i =
     (if i < 16 then (ripemd_f5, 0x50A28BE6) else if i < 32 then (ripemd_f4, 0x5C4DD124)
      else if i < 48 then (ripemd_f3, 0x6D703EF3) else if i < 64 then (ripemd_f2, 0x7A6D76E9)
      else (ripemd_f1, 0))"

definition ripemd_left_calls :: "(nat \<times> nat) list" where
  "ripemd_left_calls =
     [(0, 11), (1, 14), (2, 15), (3, 12), (4, 5), (5, 8), (6, 7), (7, 9),
      (8, 11), (9, 13), (10, 14), (11, 15), (12, 6), (13, 7), (14, 9), (15, 8),
      (7, 7), (4, 6), (13, 8), (1, 13), (10, 11), (6, 9), (15, 7), (3, 15),
      (12, 7), (0, 12), (9, 15), (5, 9), (2, 11), (14, 7), (11, 13), (8, 12),
      (3, 11), (10, 13), (14, 6), (4, 7), (9, 14), (15, 9), (8, 13), (1, 15),
      (2, 14), (7, 8), (0, 13), (6, 6), (13, 5), (11, 12), (5, 7), (12, 5),
      (1, 11), (9, 12), (11, 14), (10, 15), (0, 14), (8, 15), (12, 9), (4, 8),
      (13, 9), (3, 14), (7, 5), (15, 6), (14, 8), (5, 6), (6, 5), (2, 12),
      (4, 9), (0, 15), (5, 5), (9, 11), (7, 6), (12, 8), (2, 13), (10, 12),
      (14, 5), (1, 12), (3, 13), (8, 14), (11, 11), (6, 8), (15, 5), (13, 6)]"

definition ripemd_right_calls :: "(nat \<times> nat) list" where
  "ripemd_right_calls =
     [(5, 8), (14, 9), (7, 9), (0, 11), (9, 13), (2, 15), (11, 15), (4, 5),
      (13, 7), (6, 7), (15, 8), (8, 11), (1, 14), (10, 14), (3, 12), (12, 6),
      (6, 9), (11, 13), (3, 15), (7, 7), (0, 12), (13, 8), (5, 9), (10, 11),
      (14, 7), (15, 7), (8, 12), (12, 7), (4, 6), (9, 15), (1, 13), (2, 11),
      (15, 9), (5, 7), (1, 15), (3, 11), (7, 8), (14, 6), (6, 6), (9, 14),
      (11, 12), (8, 13), (12, 5), (2, 14), (10, 13), (0, 13), (4, 7), (13, 5),
      (8, 15), (6, 5), (4, 8), (1, 11), (3, 14), (11, 14), (15, 6), (0, 14),
      (5, 6), (12, 9), (2, 12), (13, 9), (9, 12), (7, 5), (10, 15), (14, 8),
      (12, 8), (15, 5), (10, 12), (4, 9), (1, 12), (5, 5), (8, 14), (7, 6),
      (6, 8), (2, 13), (13, 6), (14, 5), (0, 15), (3, 13), (9, 11), (11, 11)]"

definition ripemd_step ::
    "(nat \<Rightarrow> (u32 \<Rightarrow> u32 \<Rightarrow> u32 \<Rightarrow> u32) \<times> u32) \<Rightarrow> u32 list \<Rightarrow> nat \<Rightarrow> nat \<times> nat \<Rightarrow> ripemd_regs \<Rightarrow> ripemd_regs" where
  "ripemd_step fk ws i call r =
     (case (fk i, call, r) of ((f, k), (j, s), (a, b, c, d, e)) \<Rightarrow>
        ripemd_Round r (f b c d) (ws ! j) k s)"

fun ripemd_line ::
    "(nat \<Rightarrow> (u32 \<Rightarrow> u32 \<Rightarrow> u32 \<Rightarrow> u32) \<times> u32) \<Rightarrow> u32 list \<Rightarrow> nat \<Rightarrow> (nat \<times> nat) list \<Rightarrow> ripemd_regs \<Rightarrow> ripemd_regs" where
  "ripemd_line fk ws i [] r = r"
| "ripemd_line fk ws i (call # calls) r =
     ripemd_line fk ws (Suc i) calls (ripemd_step fk ws i call r)"

definition ripemd_Transform :: "u32 list \<Rightarrow> byte list \<Rightarrow> u32 list" where
  "ripemd_Transform s chunk =
     (let ws = map (\<lambda>i. ReadLE32 (drop (4 * i) chunk)) [0..<16];
          r = (s ! 0, s ! 1, s ! 2, s ! 3, s ! 4);
          (a1, b1, c1, d1, e1) = ripemd_line ripemd_left_fk ws 0 ripemd_left_calls r;
          (a2, b2, c2, d2, e2) = ripemd_line ripemd_right_fk ws 0 ripemd_right_calls r
      in [s ! 1 + c1 + d2, s ! 2 + d1 + e2, s ! 3 + e1 + a2, s ! 4 + a1 + b2, s ! 0 + b1 + c2])"

section \<open>The class CRIPEMD160\<close>

definition CRIPEMD160 :: hasher where
  "CRIPEMD160 = hasher_new ripemd_Initialize"

definition CRIPEMD160_Write :: "hasher \<Rightarrow> byte list \<Rightarrow> hasher" where
  "CRIPEMD160_Write = hasher_Write ripemd_Transform"

definition ripemd_output :: "u32 list \<Rightarrow> byte list" where
  "ripemd_output s = concat (map WriteLE32 s)"

definition CRIPEMD160_Finalize :: "hasher \<Rightarrow> hasher \<times> byte list" where
  "CRIPEMD160_Finalize = hasher_Finalize ripemd_Transform WriteLE64 ripemd_output"

definition CRIPEMD160_Reset :: "hasher \<Rightarrow> hasher" where
  "CRIPEMD160_Reset = hasher_Reset ripemd_Initialize"

definition ripemd_rep :: "hasher \<Rightarrow> byte list \<Rightarrow> bool" where
  "ripemd_rep = hasher_rep ripemd_Transform ripemd_Initialize"

definition ripemd160 :: "byte list \<Rightarrow> byte list" where
  "ripemd160 = md_digest ripemd_Transform ripemd_Initialize WriteLE64 ripemd_output"

lemma length_ripemd_Transform: "length (ripemd_Transform s b) = 5"
  by (simp add: ripemd_Transform_def Let_def split: prod.split)

lemma length_ripemd160 [simp]: "length (ripemd160 m) = 20"
proof -
  have "length (absorb ripemd_Transform ripemd_Initialize m') = 5" for m'
    by (rule absorb_length) (simp_all add: length_ripemd_Transform ripemd_Initialize_def)
  then show ?thesis by (simp add: ripemd160_def md_digest_def ripemd_output_def)
qed

interpretation ripemd160h: block_hash
  CRIPEMD160 CRIPEMD160_Write CRIPEMD160_Finalize CRIPEMD160_Reset ripemd_rep ripemd160 20
proof unfold_locales
  show "ripemd_rep CRIPEMD160 []"
    by (simp add: ripemd_rep_def CRIPEMD160_def hasher_rep_new)
  show "ripemd_rep (CRIPEMD160_Write h d) (m @ d)" if "ripemd_rep h m" for h m d
    using that by (simp add: ripemd_rep_def CRIPEMD160_Write_def hasher_rep_Write)
  show "snd (CRIPEMD160_Finalize h) = ripemd160 m" if "ripemd_rep h m" for h m
    using that by (simp add: ripemd_rep_def CRIPEMD160_Finalize_def ripemd160_def hasher_Finalize_rep)
  show "ripemd_rep (CRIPEMD160_Reset (fst (CRIPEMD160_Finalize h))) []" if "ripemd_rep h m" for h m
  proof -
    have "\<exists>m'. ripemd_rep (fst (CRIPEMD160_Finalize h)) m'"
      using that unfolding ripemd_rep_def CRIPEMD160_Finalize_def by (rule hasher_Finalize_rep)
    then show ?thesis
      by (auto simp: ripemd_rep_def CRIPEMD160_Reset_def intro: hasher_rep_Reset)
  qed
qed simp

end
