(* ===== verification/Hash.thy ===== *)
theory Hash
  imports Sha1 Ripemd160
begin

text \<open>
  The composed hashes of \<open>src/hash.h\<close> and \<open>src/hash.cpp\<close>: \<open>CHash256\<close> (double SHA-256),
  \<open>CHash160\<close> (SHA-256, then RIPEMD-160), the \<open>Hash\<close> and \<open>Hash160\<close> functions, the writer stream
  \<open>CHashWriter\<close> and MurmurHash3, which the Bloom filters use. Each class is shown to keep the
  \<open>block_hash\<close> contract, so what it returns depends only on the bytes written, not on how the
  serializer cut them.
\<close>

unbundle bit_operations_syntax

section \<open>CHash256 and CHash160\<close>

text \<open>Both classes hold one member, the SHA-256 object \<open>sha\<close>.\<close>

definition CHash256 :: hasher where
  "CHash256 = CSHA256"

definition CHash256_Write :: "hasher \<Rightarrow> byte list \<Rightarrow> hasher" where
  "CHash256_Write sha data = CSHA256_Write sha data"

definition CHash256_Finalize :: "hasher \<Rightarrow> hasher \<times> byte list" where
  "CHash256_Finalize sha =
     (let (sha1, buf) = CSHA256_Finalize sha
      in CSHA256_Finalize (CSHA256_Write (CSHA256_Reset sha1) buf))"

definition CHash256_Reset :: "hasher \<Rightarrow> hasher" where
  "CHash256_Reset sha = CSHA256_Reset sha"

definition CHash160_Write :: "hasher \<Rightarrow> byte list \<Rightarrow> hasher" where
  "CHash160_Write sha data = CSHA256_Write sha data"

definition CHash160_Finalize :: "hasher \<Rightarrow> hasher \<times> byte list" where
  "CHash160_Finalize sha =
     (let (sha1, buf) = CSHA256_Finalize sha
      in (sha1, snd (CRIPEMD160_Finalize (CRIPEMD160_Write CRIPEMD160 buf))))"

definition CHash160_Reset :: "hasher \<Rightarrow> hasher" where
  "CHash160_Reset sha = CSHA256_Reset sha"

text \<open>The digests they should compute.\<close>

definition hash256 :: "byte list \<Rightarrow> byte list" where
  "hash256 m = sha256 (sha256 m)"

definition hash160 :: "byte list \<Rightarrow> byte list" where
  "hash160 m = ripemd160 (sha256 m)"

lemma length_hash256 [simp]: "length (hash256 m) = 32"
  by (simp add: hash256_def)

lemma length_hash160 [simp]: "length (hash160 m) = 20"
  by (simp add: hash160_def)

lemma CHash256_Finalize_rep:
  assumes "sha256_rep h m"
  shows "snd (CHash256_Finalize h) = hash256 m"
    and "sha256_rep (CHash256_Reset (fst (CHash256_Finalize h))) []"
proof -
  have r: "sha256_rep (CSHA256_Write (CSHA256_Reset (fst (CSHA256_Finalize h))) (sha256 m))
      (sha256 m)"
    using sha256h.rep_feed [OF sha256h.rep_reset [OF assms]] by simp
  have "snd (CSHA256_Finalize h) = sha256 m" by (rule sha256h.finalize_rep [OF assms])
  then have f: "CHash256_Finalize h =
      CSHA256_Finalize (CSHA256_Write (CSHA256_Reset (fst (CSHA256_Finalize h))) (sha256 m))"
    by (simp add: CHash256_Finalize_def split_beta)
  show "snd (CHash256_Finalize h) = hash256 m"
    using sha256h.finalize_rep [OF r] by (simp add: f hash256_def)
  show "sha256_rep (CHash256_Reset (fst (CHash256_Finalize h))) []"
    using sha256h.rep_reset [OF r] by (simp add: f CHash256_Reset_def)
qed

interpretation hash256h: block_hash
  CHash256 CHash256_Write CHash256_Finalize CHash256_Reset sha256_rep hash256 32
  by unfold_locales
    (simp_all add: CHash256_def CHash256_Write_def sha256h.rep_create sha256h.rep_feed
      CHash256_Finalize_rep)

lemma CHash160_Finalize_rep:
  assumes "sha256_rep h m"
  shows "snd (CHash160_Finalize h) = hash160 m"
    and "sha256_rep (CHash160_Reset (fst (CHash160_Finalize h))) []"
  using sha256h.finalize_rep [OF assms] sha256h.rep_reset [OF assms] ripemd160h.one_feed
  by (simp_all add: CHash160_Finalize_def CHash160_Reset_def hash160_def split_beta)

interpretation hash160h: block_hash
  CSHA256 CHash160_Write CHash160_Finalize CHash160_Reset sha256_rep hash160 20
  by unfold_locales
    (simp_all add: CHash160_Write_def sha256h.rep_create sha256h.rep_feed CHash160_Finalize_rep)

section \<open>Hashing objects\<close>

text \<open>A digest is copied into the memory of a \<open>uint256\<close> or \<open>uint160\<close>: its bytes are the
  little-endian bytes of the number.\<close>

definition uint256_of_bytes :: "byte list \<Rightarrow> uint256" where
  "uint256_of_bytes bs = of_nat (le_val bs)"

definition uint256_bytes :: "uint256 \<Rightarrow> byte list" where
  "uint256_bytes w = le_bytes 32 (unat w)"

definition uint160_of_bytes :: "byte list \<Rightarrow> uint160" where
  "uint160_of_bytes bs = of_nat (le_val bs)"

definition uint160_bytes :: "uint160 \<Rightarrow> byte list" where
  "uint160_bytes w = le_bytes 20 (unat w)"

lemma length_uint256_bytes [simp]: "length (uint256_bytes w) = 32"
  by (simp add: uint256_bytes_def)

lemma length_uint160_bytes [simp]: "length (uint160_bytes w) = 20"
  by (simp add: uint160_bytes_def)

lemma uint256_of_bytes_bytes [simp]: "uint256_of_bytes (uint256_bytes w) = w"
proof -
  have "unat w < 256 ^ 32" using unsigned_less [of w, where ?'a = nat] by simp
  then show ?thesis by (simp add: uint256_of_bytes_def uint256_bytes_def le_val_le_bytes)
qed

lemma uint160_of_bytes_bytes [simp]: "uint160_of_bytes (uint160_bytes w) = w"
proof -
  have "unat w < 256 ^ 20" using unsigned_less [of w, where ?'a = nat] by simp
  then show ?thesis by (simp add: uint160_of_bytes_def uint160_bytes_def le_val_le_bytes)
qed

lemma uint256_bytes_of_bytes: "length bs = 32 \<Longrightarrow> uint256_bytes (uint256_of_bytes bs) = bs"
proof -
  assume l: "length bs = 32"
  then have "le_val bs < 2 ^ 256" using le_val_less [of bs] by simp
  then have "unat (of_nat (le_val bs) :: uint256) = le_val bs" by (simp add: unat_of_nat)
  then show ?thesis using l le_bytes_le_val [of bs]
    by (simp add: uint256_bytes_def uint256_of_bytes_def)
qed

lemma uint160_bytes_of_bytes: "length bs = 20 \<Longrightarrow> uint160_bytes (uint160_of_bytes bs) = bs"
proof -
  assume l: "length bs = 20"
  then have "le_val bs < 2 ^ 160" using le_val_less [of bs] by simp
  then have "unat (of_nat (le_val bs) :: uint160) = le_val bs" by (simp add: unat_of_nat)
  then show ?thesis using l le_bytes_le_val [of bs]
    by (simp add: uint160_bytes_def uint160_of_bytes_def)
qed

definition Hash :: "byte list \<Rightarrow> uint256" where
  "Hash data = uint256_of_bytes (snd (CHash256_Finalize (CHash256_Write CHash256 data)))"

text \<open>The overload for two ranges, which the Merkle tree uses.\<close>

definition Hash2 :: "byte list \<Rightarrow> byte list \<Rightarrow> uint256" where
  "Hash2 p1 p2 =
     uint256_of_bytes (snd (CHash256_Finalize (CHash256_Write (CHash256_Write CHash256 p1) p2)))"

definition Hash160 :: "byte list \<Rightarrow> uint160" where
  "Hash160 data = uint160_of_bytes (snd (CHash160_Finalize (CHash160_Write CSHA256 data)))"

lemma Hash_eq: "Hash m = uint256_of_bytes (hash256 m)"
  by (simp add: Hash_def hash256h.one_feed)

lemma Hash2_eq: "Hash2 p q = Hash (p @ q)"
  using hash256h.streaming [of "[p, q]"] by (simp add: Hash2_def Hash_eq)

lemma Hash160_eq: "Hash160 m = uint160_of_bytes (hash160 m)"
  by (simp add: Hash160_def hash160h.one_feed)

lemma uint256_bytes_Hash: "uint256_bytes (Hash m) = hash256 m"
  by (simp add: Hash_eq uint256_bytes_of_bytes)

lemma uint160_bytes_Hash160: "uint160_bytes (Hash160 m) = hash160 m"
  by (simp add: Hash160_eq uint160_bytes_of_bytes)

text \<open>\<open>CHashWriter\<close>: a stream whose \<open>write\<close> calls feed the hasher.\<close>

definition CHashWriter_write :: "hasher \<Rightarrow> byte list \<Rightarrow> hasher" where
  "CHashWriter_write ctx pch = CHash256_Write ctx pch"

definition CHashWriter_GetHash :: "hasher \<Rightarrow> uint256" where
  "CHashWriter_GetHash ctx = uint256_of_bytes (snd (CHash256_Finalize ctx))"

lemma CHashWriter_eq:
  "CHashWriter_GetHash (foldl CHashWriter_write CHash256 pieces) = Hash (concat pieces)"
proof -
  have "CHashWriter_write = CHash256_Write" by (simp add: fun_eq_iff CHashWriter_write_def)
  then show ?thesis by (simp add: CHashWriter_GetHash_def hash256h.streaming Hash_eq)
qed

section \<open>MurmurHash3\<close>

definition ROTL32 :: "u32 \<Rightarrow> nat \<Rightarrow> u32" where
  "ROTL32 x r = push_bit r x OR drop_bit (32 - r) x"

definition murmur_mix :: "u32 \<Rightarrow> u32" where
  "murmur_mix k1 = ROTL32 (k1 * 0xcc9e2d51) 15 * 0x1b873593"

fun murmur_body :: "u32 \<Rightarrow> byte list \<Rightarrow> u32 \<times> byte list" where
  "murmur_body h1 (b0 # b1 # b2 # b3 # rest) =
     (let k1 = ReadLE32 [b0, b1, b2, b3];
          h2 = h1 XOR murmur_mix k1
      in murmur_body (ROTL32 h2 13 * 5 + 0xe6546b64) rest)"
| "murmur_body h1 tail = (h1, tail)"

text \<open>The fall-through cases 3, 2, 1 of the source's switch over \<open>size & 3\<close>.\<close>

fun murmur_tail :: "u32 \<Rightarrow> byte list \<Rightarrow> u32" where
  "murmur_tail h1 [] = h1"
| "murmur_tail h1 [t0] = h1 XOR murmur_mix (ucast t0)"
| "murmur_tail h1 [t0, t1] = h1 XOR murmur_mix (push_bit 8 (ucast t1) XOR ucast t0)"
| "murmur_tail h1 (t0 # t1 # t2 # _) =
     h1 XOR murmur_mix (push_bit 16 (ucast t2) XOR push_bit 8 (ucast t1) XOR ucast t0)"

definition murmur_final :: "u32 \<Rightarrow> nat \<Rightarrow> u32" where
  "murmur_final h1 nSize =
     (let h2 = h1 XOR of_nat nSize;
          h3 = (h2 XOR drop_bit 16 h2) * 0x85ebca6b;
          h4 = (h3 XOR drop_bit 13 h3) * 0xc2b2ae35
      in h4 XOR drop_bit 16 h4)"

definition MurmurHash3 :: "u32 \<Rightarrow> byte list \<Rightarrow> u32" where
  "MurmurHash3 nHashSeed vDataToHash =
     (let (h1, tail) = murmur_body nHashSeed vDataToHash
      in murmur_final (murmur_tail h1 tail) (length vDataToHash))"

text \<open>A hasher that was fed, finalized and then \<open>Reset\<close> is untouched by what it held before.\<close>

lemma hash_reuse:
  assumes "sha256_rep h m"
  shows "snd (CSHA256_Finalize (CSHA256_Write (CSHA256_Reset (fst (CSHA256_Finalize h))) d)) = sha256 d \<and>
    snd (CHash256_Finalize (CHash256_Write (CHash256_Reset (fst (CHash256_Finalize h))) d)) = hash256 d"
  using sha256h.reuse [OF assms] hash256h.reuse [OF assms] by simp

section \<open>Properties\<close>

text \<open>
  C10. However a message is cut into Write calls, CSHA256, CSHA1, CRIPEMD160, CHash256 and
  CHash160 return the digest of the whole message, padded as the standards say.
\<close>

theorem hash_streaming:
  "snd (CSHA256_Finalize (foldl CSHA256_Write CSHA256 ds)) = sha256 (concat ds) \<and>
   snd (CSHA1_Finalize (foldl CSHA1_Write CSHA1 ds)) = sha1 (concat ds) \<and>
   snd (CRIPEMD160_Finalize (foldl CRIPEMD160_Write CRIPEMD160 ds)) = ripemd160 (concat ds) \<and>
   snd (CHash256_Finalize (foldl CHash256_Write CHash256 ds)) = sha256 (sha256 (concat ds)) \<and>
   snd (CHash160_Finalize (foldl CHash160_Write CSHA256 ds)) = ripemd160 (sha256 (concat ds))"
  using sha256h.streaming sha1h.streaming ripemd160h.streaming hash256h.streaming hash160h.streaming
  by (simp add: hash256_def hash160_def)

end
