(* ===== verification/Serialize.thy ===== *)
theory Serialize
  imports Hash
begin

text \<open>
  Serialization (\<open>src/serialize.h\<close>, \<open>CDataStream::read\<close> of \<open>src/streams.h\<close>): integers as their
  memory on a little-endian host, \<open>CompactSize\<close>, \<open>VARINT\<close>, byte vectors and vectors of objects.
  A stream to write to is the list of bytes written, a stream to read from the list of bytes
  left; an \<open>ios_base::failure\<close> or a failed assertion is a value of \<open>ser_error\<close>. The locale \<open>codec\<close> states what a
  \<open>Serialize\<close>/\<open>Unserialize\<close> pair promises: what was written is read back, and whatever is read
  is the serialization of the result, so an object has one serialization.
\<close>

datatype ser_error = End_of_data | Non_canonical | Size_too_large | Assertion_failed

type_synonym 'a reader = "byte list \<Rightarrow> ser_error + 'a \<times> byte list"

section \<open>The contract of Serialize and Unserialize\<close>

locale codec =
  fixes ser :: "'a \<Rightarrow> byte list"
    and unser :: "'a reader"
    and ok :: "'a \<Rightarrow> bool"
  assumes unser_ser: "ok x \<Longrightarrow> unser (ser x @ r) = Inr (x, r)"
    and ser_unser: "unser s = Inr (x, r) \<Longrightarrow> ok x \<and> s = ser x @ r"
begin

lemma prefix_free: "ok x \<Longrightarrow> ok y \<Longrightarrow> ser x @ r = ser y @ s \<Longrightarrow> x = y \<and> r = s"
  by (metis unser_ser sum.inject(2) prod.inject)

lemma ser_inject: "ok x \<Longrightarrow> ok y \<Longrightarrow> ser x = ser y \<Longrightarrow> x = y"
  using prefix_free [of x y "[]" "[]"] by simp

lemma unser_iff: "unser s = Inr (x, r) \<longleftrightarrow> ok x \<and> s = ser x @ r"
  using unser_ser ser_unser by blast

end

section \<open>Reading bytes and integers\<close>

definition stream_read :: "nat \<Rightarrow> byte list reader" where
  "stream_read nSize s =
     (if length s < nSize then Inl End_of_data else Inr (take nSize s, drop nSize s))"

lemma stream_read_iff: "stream_read n s = Inr (x, r) \<longleftrightarrow> length x = n \<and> s = x @ r"
  by (auto simp: stream_read_def append_eq_conv_conj)

lemma stream_read_append [simp]: "length x = n \<Longrightarrow> stream_read n (x @ r) = Inr (x, r)"
  by (simp add: stream_read_iff)

text \<open>\<open>ignore\<close> takes an \<open>int\<close> and asserts that it is not negative.\<close>

definition stream_ignore :: "u32 \<Rightarrow> unit reader" where
  "stream_ignore nSize s =
     (if nSize <s 0 then Inl Assertion_failed
      else if length s < unat nSize then Inl End_of_data else Inr ((), drop (unat nSize) s))"

text \<open>\<open>WRITEDATA\<close> and \<open>READDATA\<close> of an unsigned integer of \<open>k\<close> bytes.\<close>

definition read_le :: "nat \<Rightarrow> nat reader" where
  "read_le k s = and_then (stream_read k s) (\<lambda>(x, r). Inr (le_val x, r))"

lemma read_le_iff: "read_le k s = Inr (n, r) \<longleftrightarrow> n < 256 ^ k \<and> s = le_bytes k n @ r"
proof
  assume "read_le k s = Inr (n, r)"
  then obtain x where "length x = k" "s = x @ r" "n = le_val x"
    by (auto simp: read_le_def and_then_Inr_iff stream_read_iff)
  then show "n < 256 ^ k \<and> s = le_bytes k n @ r" using le_val_less [of x] by auto
next
  assume "n < 256 ^ k \<and> s = le_bytes k n @ r"
  then show "read_le k s = Inr (n, r)" by (simp add: read_le_def le_val_le_bytes)
qed

lemma read_le_le_bytes: "n < 256 ^ k \<Longrightarrow> read_le k (le_bytes k n @ r) = Inr (n, r)"
  by (simp add: read_le_iff)

definition ser_u32 :: "u32 \<Rightarrow> byte list" where
  "ser_u32 a = le_bytes 4 (unat a)"

definition unser_u32 :: "u32 reader" where
  "unser_u32 s = and_then (read_le 4 s) (\<lambda>(n, r). Inr (of_nat n, r))"

definition ser_u64 :: "u64 \<Rightarrow> byte list" where
  "ser_u64 a = le_bytes 8 (unat a)"

definition unser_u64 :: "u64 reader" where
  "unser_u64 s = and_then (read_le 8 s) (\<lambda>(n, r). Inr (of_nat n, r))"

lemma unat_u32_less: "unat (a :: u32) < 256 ^ 4"
  using unsigned_less [of a, where ?'a = nat] by simp

lemma unat_u64_less: "unat (a :: u64) < 256 ^ 8"
  using unsigned_less [of a, where ?'a = nat] by simp

lemma unat_of_nat_u32: "n < 256 ^ 4 \<Longrightarrow> unat (of_nat n :: u32) = n"
  by (simp only: unat_of_nat) simp

lemma unat_of_nat_u64: "n < 256 ^ 8 \<Longrightarrow> unat (of_nat n :: u64) = n"
  by (simp only: unat_of_nat) simp

interpretation u32: codec ser_u32 unser_u32 "\<lambda>_. True"
proof
  show "unser_u32 (ser_u32 x @ r) = Inr (x, r)" for x r
    using unat_u32_less [of x] by (simp add: unser_u32_def ser_u32_def read_le_le_bytes)
  show "unser_u32 s = Inr (x, r) \<Longrightarrow> True \<and> s = ser_u32 x @ r" for s x r
    by (auto simp: unser_u32_def ser_u32_def and_then_Inr_iff read_le_iff simp del: power_numeral
        dest: unat_of_nat_u32)
qed

interpretation u64: codec ser_u64 unser_u64 "\<lambda>_. True"
proof
  show "unser_u64 (ser_u64 x @ r) = Inr (x, r)" for x r
    using unat_u64_less [of x] by (simp add: unser_u64_def ser_u64_def read_le_le_bytes)
  show "unser_u64 s = Inr (x, r) \<Longrightarrow> True \<and> s = ser_u64 x @ r" for s x r
    by (auto simp: unser_u64_def ser_u64_def and_then_Inr_iff read_le_iff simp del: power_numeral
        dest: unat_of_nat_u64)
qed

section \<open>CompactSize\<close>

definition MAX_SIZE :: nat where
  "MAX_SIZE = 0x02000000"

definition GetSizeOfCompactSize :: "nat \<Rightarrow> nat" where
  "GetSizeOfCompactSize nSize =
     (if nSize < 253 then 1 else if nSize \<le> 0xffff then 1 + 2
      else if nSize \<le> 0xffffffff then 1 + 4 else 1 + 8)"

definition WriteCompactSize :: "nat \<Rightarrow> byte list" where
  "WriteCompactSize nSize =
     (if nSize < 253 then [of_nat nSize]
      else if nSize \<le> 0xffff then 253 # le_bytes 2 nSize
      else if nSize \<le> 0xffffffff then 254 # le_bytes 4 nSize
      else 255 # le_bytes 8 nSize)"

definition ReadCompactSize :: "nat reader" where
  "ReadCompactSize s =
     and_then (read_le 1 s) (\<lambda>(chSize, s).
     and_then
       (if chSize < 253 then Inr (chSize, s)
        else if chSize = 253 then
          and_then (read_le 2 s) (\<lambda>(xSize, s).
            if xSize < 253 then Inl Non_canonical else Inr (xSize, s))
        else if chSize = 254 then
          and_then (read_le 4 s) (\<lambda>(xSize, s).
            if xSize < 0x10000 then Inl Non_canonical else Inr (xSize, s))
        else
          and_then (read_le 8 s) (\<lambda>(xSize, s).
            if xSize < 0x100000000 then Inl Non_canonical else Inr (xSize, s))) (\<lambda>(nSizeRet, s).
     if nSizeRet > MAX_SIZE then Inl Size_too_large else Inr (nSizeRet, s)))"

lemma read_le_1: "read_le (Suc 0) (b # r) = Inr (unat b, r)"
  by (simp add: read_le_def stream_read_def)

lemma length_WriteCompactSize: "length (WriteCompactSize n) = GetSizeOfCompactSize n"
  by (simp add: WriteCompactSize_def GetSizeOfCompactSize_def)

lemma ReadCompactSize_Write:
  assumes "n \<le> MAX_SIZE"
  shows "ReadCompactSize (WriteCompactSize n @ r) = Inr (n, r)"
proof -
  have n: "n \<le> 0xffffffff" "\<not> MAX_SIZE < n" using assms by (simp_all add: MAX_SIZE_def)
  consider "n < 253" | "253 \<le> n" "n \<le> 0xffff" | "0xffff < n" by linarith
  then show ?thesis
  proof cases
    case 1
    then have "unat (of_nat n :: byte) = n" by (simp add: unat_of_nat_byte)
    then show ?thesis using 1 n by (simp add: ReadCompactSize_def WriteCompactSize_def read_le_1)
  next
    case 2
    then have "read_le 2 (le_bytes 2 n @ r) = Inr (n, r)" by (intro read_le_le_bytes) simp
    then show ?thesis using 2 n by (simp add: ReadCompactSize_def WriteCompactSize_def read_le_1)
  next
    case 3
    then have "read_le 4 (le_bytes 4 n @ r) = Inr (n, r)" using n by (intro read_le_le_bytes) simp
    then show ?thesis using 3 n by (simp add: ReadCompactSize_def WriteCompactSize_def read_le_1)
  qed
qed

lemma ReadCompactSize_unique:
  assumes "ReadCompactSize s = Inr (n, r)"
  shows "n \<le> MAX_SIZE \<and> s = WriteCompactSize n @ r"
proof -
  obtain ch s1 where ch: "read_le 1 s = Inr (ch, s1)"
    using assms by (auto simp: ReadCompactSize_def and_then_Inr_iff)
  then have s: "s = of_nat ch # s1" "ch < 256" by (auto simp: read_le_iff)
  have m: "n \<le> MAX_SIZE" using assms ch
    by (auto simp: ReadCompactSize_def and_then_Inr_iff split: if_splits)
  then have n: "n \<le> 0xffffffff" by (simp add: MAX_SIZE_def)
  consider "ch < 253" | "ch = 253" | "ch = 254" | "ch = 255" using s(2) by linarith
  then have "s = WriteCompactSize n @ r"
  proof cases
    case 1
    then show ?thesis using assms ch s
      by (auto simp: ReadCompactSize_def WriteCompactSize_def and_then_Inr_iff split: if_splits)
  next
    case 2
    then have "read_le 2 s1 = Inr (n, r)" "253 \<le> n" using assms ch
      by (auto simp: ReadCompactSize_def and_then_Inr_iff split: if_splits)
    then show ?thesis using 2 s by (simp add: read_le_iff WriteCompactSize_def)
  next
    case 3
    then have "read_le 4 s1 = Inr (n, r)" "0x10000 \<le> n" using assms ch
      by (auto simp: ReadCompactSize_def and_then_Inr_iff split: if_splits)
    then show ?thesis using 3 s by (simp add: read_le_iff WriteCompactSize_def)
  next
    case 4
    then have "0x100000000 \<le> n" using assms ch
      by (auto simp: ReadCompactSize_def and_then_Inr_iff split: if_splits)
    then show ?thesis using n by simp
  qed
  with m show ?thesis by simp
qed

interpretation compact: codec WriteCompactSize ReadCompactSize "\<lambda>n. n \<le> MAX_SIZE"
  by unfold_locales (auto simp: ReadCompactSize_Write dest: ReadCompactSize_unique)

section \<open>Vectors\<close>

text \<open>Vectors of bytes are read in blocks of at most 5000000 bytes.\<close>

definition ser_bytes :: "byte list \<Rightarrow> byte list" where
  "ser_bytes v = WriteCompactSize (length v) @ v"

function read_blocks :: "nat \<Rightarrow> byte list reader" where
  "read_blocks n s =
     (if 0 < n then
        (case stream_read (min n 5000000) s of
           Inl e \<Rightarrow> Inl e
         | Inr (x, s) \<Rightarrow>
             (case read_blocks (n - min n 5000000) s of
                Inl e \<Rightarrow> Inl e
              | Inr (y, s) \<Rightarrow> Inr (x @ y, s)))
      else Inr ([], s))"
  by pat_completeness auto
termination by (relation "measure fst") auto

declare read_blocks.simps [simp del]

lemma stream_read_split:
  assumes "b \<le> n"
  shows "stream_read n s =
    (case stream_read b s of
       Inl e \<Rightarrow> Inl e
     | Inr (x, s) \<Rightarrow>
         (case stream_read (n - b) s of Inl e \<Rightarrow> Inl e | Inr (y, s) \<Rightarrow> Inr (x @ y, s)))"
proof (cases "length s < b")
  case False
  have "take n s = take b s @ take (n - b) (drop b s)"
    using assms by (metis le_add_diff_inverse take_add)
  then show ?thesis using assms False less_diff_iff [of b "length s" n]
    by (simp add: stream_read_def)
qed (use assms in \<open>simp add: stream_read_def\<close>)

lemma read_blocks_eq: "read_blocks n s = stream_read n s"
proof (induction n arbitrary: s rule: less_induct)
  case (less n)
  show ?case
  proof (cases "n = 0")
    case False
    let ?b = "min n 5000000"
    have "n - ?b < n" using False by simp
    then have "read_blocks (n - ?b) s = stream_read (n - ?b) s" for s by (rule less.IH)
    then show ?thesis
      using False stream_read_split [of ?b n s] by (subst read_blocks.simps) (simp only: if_True
        simp_thms neq0_conv min.cobounded1)
  qed (simp add: read_blocks.simps stream_read_def)
qed

definition unser_bytes :: "byte list reader" where
  "unser_bytes s = and_then (ReadCompactSize s) (\<lambda>(nSize, s). read_blocks nSize s)"

interpretation bytes: codec ser_bytes unser_bytes "\<lambda>v. length v \<le> MAX_SIZE"
  by unfold_locales
    (auto simp: ser_bytes_def unser_bytes_def compact.unser_ser read_blocks_eq and_then_Inr_iff
      compact.unser_iff stream_read_iff)

fun unser_n :: "'a reader \<Rightarrow> nat \<Rightarrow> 'a list reader" where
  "unser_n unser 0 s = Inr ([], s)"
| "unser_n unser (Suc n) s =
     and_then (unser s) (\<lambda>(x, s). and_then (unser_n unser n s) (\<lambda>(xs, s). Inr (x # xs, s)))"

definition ser_vector :: "('a \<Rightarrow> byte list) \<Rightarrow> 'a list \<Rightarrow> byte list" where
  "ser_vector ser v = WriteCompactSize (length v) @ concat (map ser v)"

definition unser_vector :: "'a reader \<Rightarrow> 'a list reader" where
  "unser_vector unser s = and_then (ReadCompactSize s) (\<lambda>(nSize, s). unser_n unser nSize s)"

locale vector_codec = elem: codec ser unser ok
  for ser :: "'a \<Rightarrow> byte list" and unser :: "'a reader" and ok :: "'a \<Rightarrow> bool"
begin

lemma unser_n_iff:
  "unser_n unser n s = Inr (xs, r) \<longleftrightarrow>
     length xs = n \<and> list_all ok xs \<and> s = concat (map ser xs) @ r"
proof (induction n arbitrary: s xs)
  case (Suc n)
  show ?case
    by (cases xs) (auto simp: and_then_Inr_iff elem.unser_iff Suc.IH)
qed auto

end

text \<open>A codec of elements gives one of vectors.\<close>

sublocale vector_codec \<subseteq> vec: codec "ser_vector ser" "unser_vector unser"
  "\<lambda>v. length v \<le> MAX_SIZE \<and> list_all ok v"
  by unfold_locales
    (auto simp: ser_vector_def unser_vector_def compact.unser_ser and_then_Inr_iff unser_n_iff
      compact.unser_iff)

section \<open>VARINT\<close>

lemma varint_step_less:
  assumes "\<not> (n :: u64) \<le> 0x7F"
  shows "unat (drop_bit 7 n - 1) < unat n"
proof -
  have n: "128 \<le> unat n" using assms by (simp add: word_le_nat_alt)
  have d: "unat (drop_bit 7 n) = unat n div 128"
    by (simp only: unat_drop_bit_eq drop_bit_eq_div unat_div_distrib) simp
  moreover have "unat (drop_bit 7 n - 1) = unat (drop_bit 7 n) - 1"
    using n d by (intro unat_minus_one) (metis div_le_mono div_self gr_zeroI less_one
        linorder_not_less numeral_neq_zero unat_0)
  ultimately show ?thesis using n by simp
qed

text \<open>\<open>WriteVarInt\<close> fills \<open>tmp\<close> from the last digit and writes it backwards; the accumulator is
  what has been put in \<open>tmp\<close> so far, the last written first.\<close>

function varint_digits :: "u64 \<Rightarrow> byte list \<Rightarrow> byte list" where
  "varint_digits n tmp =
     (let tmp = (ucast (n AND 0x7F) OR (if tmp \<noteq> [] then 0x80 else 0x00)) # tmp
      in if n \<le> 0x7F then tmp else varint_digits (drop_bit 7 n - 1) tmp)"
  by pat_completeness auto
termination by (relation "measure (\<lambda>(n, tmp). unat n)") (simp_all add: varint_step_less)

declare varint_digits.simps [simp del]

function varint_size :: "nat \<Rightarrow> u64 \<Rightarrow> nat" where
  "varint_size nRet n =
     (let nRet = nRet + 1 in if n \<le> 0x7F then nRet else varint_size nRet (drop_bit 7 n - 1))"
  by pat_completeness auto
termination by (relation "measure (\<lambda>(nRet, n). unat n)") (simp_all add: varint_step_less)

declare varint_size.simps [simp del]

definition GetSizeOfVarInt :: "u64 \<Rightarrow> nat" where
  "GetSizeOfVarInt n = varint_size 0 n"

definition WriteVarInt :: "u64 \<Rightarrow> byte list" where
  "WriteVarInt n = varint_digits n []"

fun ReadVarInt_loop :: "u64 \<Rightarrow> byte list \<Rightarrow> ser_error + u64 \<times> byte list" where
  "ReadVarInt_loop n [] = Inl End_of_data"
| "ReadVarInt_loop n (chData # s) =
     (let n = push_bit 7 n OR ucast (chData AND 0x7F)
      in if chData AND 0x80 \<noteq> 0 then ReadVarInt_loop (n + 1) s else Inr (n, s))"

definition ReadVarInt :: "u64 reader" where
  "ReadVarInt s = ReadVarInt_loop 0 s"

lemma varint_byte:
  fixes n :: u64
  shows "ucast ((ucast (n AND 0x7F) OR (if c then 0x80 else 0x00) :: byte) AND 0x7F) = take_bit 7 n"
    and "((ucast (n AND 0x7F) OR (if c then 0x80 else 0x00) :: byte) AND 0x80 \<noteq> 0) = c"
proof -
  have m: "n AND 0x7F = take_bit 7 n" by (simp add: take_bit_eq_mask mask_eq_exp_minus_1)
  show "ucast ((ucast (n AND 0x7F) OR (if c then 0x80 else 0x00) :: byte) AND 0x7F) = take_bit 7 n"
    by (rule bit_word_eqI) (auto simp: m and_0x7f bit_simps bit_0x80 bit_0x80_int)
  show "((ucast (n AND 0x7F) OR (if c then 0x80 else 0x00) :: byte) AND 0x80 \<noteq> 0) = c"
    by (simp add: m and_0x80_iff bit_simps)
qed

lemma push_drop_bit_or: "push_bit 7 (drop_bit 7 n) OR take_bit 7 n = (n :: u64)"
  by (rule bit_word_eqI) (auto simp: bit_simps)

text \<open>Reading what \<open>varint_digits\<close> wrote resumes with what was in \<open>tmp\<close> before.\<close>

lemma ReadVarInt_loop_digits:
  "ReadVarInt_loop 0 (varint_digits n tmp @ r) =
     (if tmp = [] then Inr (n, r) else ReadVarInt_loop (n + 1) (tmp @ r))"
proof (induction n tmp rule: varint_digits.induct)
  case (1 n tmp)
  show ?case
  proof (cases "n \<le> 0x7F")
    case True
    then have "unat n < 2 ^ 7" by (simp add: word_le_nat_alt)
    then have "take_bit 7 n = n" by (simp add: word_unat_eq_iff unsigned_take_bit_eq take_bit_nat_eq_self)
    then show ?thesis
      using True by (subst varint_digits.simps) (simp add: Let_def varint_byte)
  next
    case False
    show ?thesis
      using 1 [OF refl False] False
      by (subst varint_digits.simps) (simp add: Let_def varint_byte push_drop_bit_or)
  qed
qed

lemma ReadVarInt_WriteVarInt: "ReadVarInt (WriteVarInt n @ r) = Inr (n, r)"
  by (simp add: ReadVarInt_def WriteVarInt_def ReadVarInt_loop_digits)

lemma length_varint_digits: "length (varint_digits n tmp) = varint_size (length tmp) n"
proof (induction n tmp rule: varint_digits.induct)
  case (1 n tmp)
  show ?case
    using 1 [OF refl] by (subst varint_digits.simps, subst varint_size.simps) (simp add: Let_def)
qed

lemma length_WriteVarInt: "length (WriteVarInt n) = GetSizeOfVarInt n"
  by (simp add: WriteVarInt_def GetSizeOfVarInt_def length_varint_digits)

text \<open>The instances for \<open>unsigned int\<close> and \<open>int\<close>, whose bits the reader treats alike. A negative
  \<open>int\<close> is at most \<open>0x7F\<close>, so the writer stops at its lowest digit.\<close>

definition WriteVarInt_u32 :: "u32 \<Rightarrow> byte list" where
  "WriteVarInt_u32 n = WriteVarInt (ucast n)"

definition WriteVarInt_int :: "u32 \<Rightarrow> byte list" where
  "WriteVarInt_int n = (if n <s 0 then [ucast (n AND 0x7F)] else WriteVarInt (ucast n))"

fun ReadVarInt_u32_loop :: "u32 \<Rightarrow> byte list \<Rightarrow> ser_error + u32 \<times> byte list" where
  "ReadVarInt_u32_loop n [] = Inl End_of_data"
| "ReadVarInt_u32_loop n (chData # s) =
     (let n = push_bit 7 n OR ucast (chData AND 0x7F)
      in if chData AND 0x80 \<noteq> 0 then ReadVarInt_u32_loop (n + 1) s else Inr (n, s))"

definition ReadVarInt_u32 :: "u32 reader" where
  "ReadVarInt_u32 s = ReadVarInt_u32_loop 0 s"

lemma ucast_u64_u32:
  fixes a :: u64 and b :: byte and n :: u32
  shows "(ucast (push_bit 7 a OR ucast b) :: u32) = push_bit 7 (ucast a) OR ucast b"
    and "(ucast (ucast n :: u64) :: u32) = n" and "(ucast (a + 1) :: u32) = ucast a + 1"
proof -
  show "(ucast (push_bit 7 a OR ucast b) :: u32) = push_bit 7 (ucast a) OR ucast b"
    by (rule bit_word_eqI) (auto simp: bit_simps)
  show "(ucast (ucast n :: u64) :: u32) = n"
    by (rule bit_word_eqI) (auto simp: bit_simps)
  show "(ucast (a + 1) :: u32) = ucast a + 1"
    by (simp add: unsigned_ucast_eq word_uint_eq_iff uint_word_ariths take_bit_eq_mod mod_mod_cancel mod_simps)
qed

lemma ReadVarInt_u32_loop_eq:
  "ReadVarInt_u32_loop (ucast n) s = and_then (ReadVarInt_loop n s) (\<lambda>(n, s). Inr (ucast n, s))"
proof (induction n s rule: ReadVarInt_loop.induct)
  case (2 n chData s)
  show ?case using 2 [OF refl] by (simp add: Let_def ucast_u64_u32(1,3))
qed simp

lemma ReadVarInt_u32_eq: "ReadVarInt_u32 s = and_then (ReadVarInt s) (\<lambda>(n, s). Inr (ucast n, s))"
  using ReadVarInt_u32_loop_eq [of 0 s] by (simp add: ReadVarInt_u32_def ReadVarInt_def)

lemma ReadVarInt_u32_Write [simp]: "ReadVarInt_u32 (WriteVarInt_u32 n @ r) = Inr (n, r)"
  by (simp add: ReadVarInt_u32_eq WriteVarInt_u32_def ReadVarInt_WriteVarInt ucast_u64_u32(2))

lemma ReadVarInt_u32_int [simp]: "\<not> n <s 0 \<Longrightarrow> ReadVarInt_u32 (WriteVarInt_int n @ r) = Inr (n, r)"
  by (simp add: ReadVarInt_u32_eq WriteVarInt_int_def ReadVarInt_WriteVarInt ucast_u64_u32(2))

text \<open>The value that is read back for an \<open>int\<close>: a negative one loses all but its lowest digit.\<close>

definition stored_int :: "u32 \<Rightarrow> u32" where
  "stored_int n = (if n <s 0 then n AND 0x7F else n)"

lemma stored_int_nonneg [simp]: "\<not> n <s 0 \<Longrightarrow> stored_int n = n"
  by (simp add: stored_int_def)

lemma ReadVarInt_u32_stored: "ReadVarInt_u32 (WriteVarInt_int n @ r) = Inr (stored_int n, r)"
proof (cases "n <s 0")
  case True
  have a: "a AND 0x7F = take_bit 7 a" for a :: "'a::len word" by (simp add: take_bit_eq_mask mask_eq_exp_minus_1)
  have "\<not> bit (ucast (n AND 0x7F) :: byte) 7" unfolding a by (simp add: bit_simps)
  then have "(ucast (n AND 0x7F) :: byte) AND 0x80 = 0"
    using and_exp_eq_0_iff_not_bit [of "ucast (n AND 0x7F) :: byte" 7] by simp
  moreover have "(ucast ((ucast (n AND 0x7F) :: byte) AND 0x7F) :: u32) = n AND 0x7F"
    unfolding a by (rule bit_word_eqI) (auto simp: bit_simps)
  ultimately show ?thesis
    using True by (simp add: ReadVarInt_u32_def WriteVarInt_int_def stored_int_def Let_def)
qed simp

lemma WriteVarInt_65535: "WriteVarInt 65535 = [0x82, 0xFE, 0x7F]"
  by code_simp

text \<open>The reader keeps 64 bits, so the digits of \<open>2 ^ 64\<close> read as \<open>0\<close>.\<close>

lemma ReadVarInt_overlong:
  "ReadVarInt [128, 254, 254, 254, 254, 254, 254, 254, 255, 0] = ReadVarInt [0]"
  by code_simp

section \<open>Consequences\<close>

text \<open>
  ReadCompactSize accepts exactly what WriteCompactSize writes for sizes up to MAX_SIZE and leaves
  the rest of the stream; every other encoding, longer than needed, too large or cut off, is an
  error.
\<close>

lemma compact_size_canonical:
  "ReadCompactSize s = Inr (n, r) \<longleftrightarrow> n \<le> MAX_SIZE \<and> s = WriteCompactSize n @ r"
  by (rule compact.unser_iff)

end
