(* ===== verification/Transaction.thy ===== *)
theory Transaction
  imports Script Serialize "HOL-Library.Product_Lexorder"
begin

text \<open>
  Transactions (\<open>src/primitives/transaction.h\<close>, \<open>src/primitives/transaction.cpp\<close>,
  \<open>src/amount.h\<close>, \<open>src/amount.cpp\<close>): outpoints, inputs and outputs, the mutable transaction and
  the transaction with its cached hash, their serialization as interpretations of \<open>codec\<close>, and
  the predicates and sums the validation code asks of a transaction. A \<open>CAmount\<close> is the 64-bit
  word of its memory, read by \<open>sint\<close> where the code compares it as a signed number; a sum that
  overflows \<open>int64_t\<close> wraps, which is what the overflow check of \<open>GetValueOut\<close> expects.
\<close>

type_synonym CAmount = u64

definition COIN :: CAmount where
  "COIN = 100000000"

section \<open>Data\<close>

record COutPoint =
  op_hash :: uint256
  op_n :: u32

record CTxIn =
  prevout :: COutPoint
  scriptSig :: "byte list"
  nSequence :: u32
  prevPubKey :: "byte list"

record CTxOut =
  nValue :: CAmount
  scriptPubKey :: "byte list"
  nRounds :: int

record CMutableTransaction =
  nVersion :: u32
  vin :: "CTxIn list"
  vout :: "CTxOut list"
  nLockTime :: u32

record CTransaction = CMutableTransaction +
  tx_hash :: uint256

definition COutPoint_Null :: COutPoint where
  "COutPoint_Null = \<lparr>op_hash = 0, op_n = -1\<rparr>"

definition COutPoint_IsNull :: "COutPoint \<Rightarrow> bool" where
  "COutPoint_IsNull p \<longleftrightarrow> op_hash p = 0 \<and> op_n p = -1"

definition COutPoint_less :: "COutPoint \<Rightarrow> COutPoint \<Rightarrow> bool" where
  "COutPoint_less a b \<longleftrightarrow> op_hash a < op_hash b \<or> op_hash a = op_hash b \<and> op_n a < op_n b"

definition COutPoint_GetHash :: "COutPoint \<Rightarrow> uint256" where
  "COutPoint_GetHash p = Hash2 (uint256_bytes (op_hash p)) (le_bytes 4 (unat (op_n p)))"

definition CTxIn_of :: "COutPoint \<Rightarrow> byte list \<Rightarrow> u32 \<Rightarrow> CTxIn" where
  "CTxIn_of prevoutIn scriptSigIn nSequenceIn =
     \<lparr>prevout = prevoutIn, scriptSig = scriptSigIn, nSequence = nSequenceIn, prevPubKey = []\<rparr>"

definition IsFinal :: "CTxIn \<Rightarrow> bool" where
  "IsFinal txin \<longleftrightarrow> nSequence txin = -1"

definition CTxIn_eq :: "CTxIn \<Rightarrow> CTxIn \<Rightarrow> bool" where
  "CTxIn_eq a b \<longleftrightarrow> prevout a = prevout b \<and> scriptSig a = scriptSig b \<and> nSequence a = nSequence b"

definition CTxIn_IsZerocoinSpend :: "CTxIn \<Rightarrow> bool" where
  "CTxIn_IsZerocoinSpend txin \<longleftrightarrow> op_hash (prevout txin) = 0 \<and> IsZerocoinSpend (scriptSig txin)"

definition CTxOut_of :: "CAmount \<Rightarrow> byte list \<Rightarrow> CTxOut" where
  "CTxOut_of nValueIn scriptPubKeyIn =
     \<lparr>nValue = nValueIn, scriptPubKey = scriptPubKeyIn, nRounds = -10\<rparr>"

definition CTxOut_Null :: CTxOut where
  "CTxOut_Null = \<lparr>nValue = -1, scriptPubKey = [], nRounds = -10\<rparr>"

definition CTxOut_IsNull :: "CTxOut \<Rightarrow> bool" where
  "CTxOut_IsNull txout \<longleftrightarrow> nValue txout = -1"

definition CTxOut_SetEmpty :: "CTxOut \<Rightarrow> CTxOut" where
  "CTxOut_SetEmpty txout = txout\<lparr>nValue := 0, scriptPubKey := []\<rparr>"

definition CTxOut_IsEmpty :: "CTxOut \<Rightarrow> bool" where
  "CTxOut_IsEmpty txout \<longleftrightarrow> nValue txout = 0 \<and> scriptPubKey txout = []"

definition CTxOut_IsZerocoinMint :: "CTxOut \<Rightarrow> bool" where
  "CTxOut_IsZerocoinMint txout = IsZerocoinMint (scriptPubKey txout)"

definition CTxOut_GetZerocoinMinted :: "CTxOut \<Rightarrow> CAmount" where
  "CTxOut_GetZerocoinMinted txout = (if \<not> CTxOut_IsZerocoinMint txout then 0 else nValue txout)"

section \<open>Serialization\<close>

text \<open>\<open>FLATDATA(*this)\<close>: the 36 bytes of the outpoint's memory.\<close>

definition ser_COutPoint :: "COutPoint \<Rightarrow> byte list" where
  "ser_COutPoint p = uint256_bytes (op_hash p) @ ser_u32 (op_n p)"

definition unser_COutPoint :: "COutPoint reader" where
  "unser_COutPoint s = and_then (stream_read 36 s) (\<lambda>(x, s).
     Inr (\<lparr>op_hash = uint256_of_bytes (take 32 x), op_n = of_nat (le_val (drop 32 x))\<rparr>, s))"

definition ser_CTxIn :: "CTxIn \<Rightarrow> byte list" where
  "ser_CTxIn txin =
     ser_COutPoint (prevout txin) @ ser_bytes (scriptSig txin) @ ser_u32 (nSequence txin)"

definition unser_CTxIn :: "CTxIn reader" where
  "unser_CTxIn s =
     and_then (unser_COutPoint s) (\<lambda>(p, s).
     and_then (unser_bytes s) (\<lambda>(sig, s).
     and_then (unser_u32 s) (\<lambda>(nseq, s).
     Inr (\<lparr>prevout = p, scriptSig = sig, nSequence = nseq, prevPubKey = []\<rparr>, s))))"

definition ser_CTxOut :: "CTxOut \<Rightarrow> byte list" where
  "ser_CTxOut txout = ser_u64 (nValue txout) @ ser_bytes (scriptPubKey txout)"

definition unser_CTxOut :: "CTxOut reader" where
  "unser_CTxOut s =
     and_then (unser_u64 s) (\<lambda>(v, s).
     and_then (unser_bytes s) (\<lambda>(spk, s).
     Inr (\<lparr>nValue = v, scriptPubKey = spk, nRounds = -10\<rparr>, s)))"

definition ser_tx :: "('a) CMutableTransaction_scheme \<Rightarrow> byte list" where
  "ser_tx tx = ser_u32 (nVersion tx) @ ser_vector ser_CTxIn (vin tx) @
     ser_vector ser_CTxOut (vout tx) @ ser_u32 (nLockTime tx)"

definition unser_CMutableTransaction :: "CMutableTransaction reader" where
  "unser_CMutableTransaction s =
     and_then (unser_u32 s) (\<lambda>(ver, s).
     and_then (unser_vector unser_CTxIn s) (\<lambda>(ins, s).
     and_then (unser_vector unser_CTxOut s) (\<lambda>(outs, s).
     and_then (unser_u32 s) (\<lambda>(lock, s).
     Inr (\<lparr>nVersion = ver, vin = ins, vout = outs, nLockTime = lock\<rparr>, s)))))"

text \<open>\<open>SerializeHash\<close> streams the serialization into a \<open>CHashWriter\<close>.\<close>

definition SerializeHash :: "byte list \<Rightarrow> uint256" where
  "SerializeHash bytes = CHashWriter_GetHash (CHashWriter_write CHash256 bytes)"

definition CMutableTransaction_GetHash :: "CMutableTransaction \<Rightarrow> uint256" where
  "CMutableTransaction_GetHash tx = SerializeHash (ser_tx tx)"

definition CTxOut_GetHash :: "CTxOut \<Rightarrow> uint256" where
  "CTxOut_GetHash txout = SerializeHash (ser_CTxOut txout)"

definition UpdateHash :: "CTransaction \<Rightarrow> CTransaction" where
  "UpdateHash tx = tx\<lparr>tx_hash := SerializeHash (ser_tx tx)\<rparr>"

definition CTransaction_Null :: CTransaction where
  "CTransaction_Null = \<lparr>nVersion = 1, vin = [], vout = [], nLockTime = 0, tx_hash = 0\<rparr>"

definition CTransaction_of :: "CMutableTransaction \<Rightarrow> CTransaction" where
  "CTransaction_of tx = UpdateHash
     \<lparr>nVersion = nVersion tx, vin = vin tx, vout = vout tx, nLockTime = nLockTime tx, tx_hash = 0\<rparr>"

definition CMutableTransaction_of :: "CTransaction \<Rightarrow> CMutableTransaction" where
  "CMutableTransaction_of tx =
     \<lparr>nVersion = nVersion tx, vin = vin tx, vout = vout tx, nLockTime = nLockTime tx\<rparr>"

definition unser_CTransaction :: "CTransaction reader" where
  "unser_CTransaction s =
     and_then (unser_u32 s) (\<lambda>(ver, s).
     and_then (unser_vector unser_CTxIn s) (\<lambda>(ins, s).
     and_then (unser_vector unser_CTxOut s) (\<lambda>(outs, s).
     and_then (unser_u32 s) (\<lambda>(lock, s).
     Inr (UpdateHash \<lparr>nVersion = ver, vin = ins, vout = outs, nLockTime = lock, tx_hash = 0\<rparr>, s)))))"

section \<open>What the validation code asks\<close>

definition CTransaction_IsNull :: "CTransaction \<Rightarrow> bool" where
  "CTransaction_IsNull tx \<longleftrightarrow> vin tx = [] \<and> vout tx = []"

definition HasZerocoinSpendInputs :: "CTransaction \<Rightarrow> bool" where
  "HasZerocoinSpendInputs tx = list_ex CTxIn_IsZerocoinSpend (vin tx)"

definition HasZerocoinMintOutputs :: "CTransaction \<Rightarrow> bool" where
  "HasZerocoinMintOutputs tx = list_ex CTxOut_IsZerocoinMint (vout tx)"

definition ContainsZerocoins :: "CTransaction \<Rightarrow> bool" where
  "ContainsZerocoins tx \<longleftrightarrow> HasZerocoinSpendInputs tx \<or> HasZerocoinMintOutputs tx"

definition IsCoinBase :: "CTransaction \<Rightarrow> bool" where
  "IsCoinBase tx \<longleftrightarrow>
     length (vin tx) = 1 \<and> COutPoint_IsNull (prevout (vin tx ! 0)) \<and> \<not> ContainsZerocoins tx"

definition IsCoinStake :: "CTransaction \<Rightarrow> bool" where
  "IsCoinStake tx =
     (if vin tx = [] then False
      else
        (let fAllowNull = CTxIn_IsZerocoinSpend (vin tx ! 0)
         in if COutPoint_IsNull (prevout (vin tx ! 0)) \<and> \<not> fAllowNull then False
            else length (vout tx) \<ge> 2 \<and> CTxOut_IsEmpty (vout tx ! 0)))"

definition IsMasternodeReward :: "COutPoint \<Rightarrow> CTransaction \<Rightarrow> bool" where
  "IsMasternodeReward p tx =
     (if \<not> IsCoinStake tx then False
      else unat (op_n p) = length (vout tx) - 1 \<and>
        scriptPubKey (vout tx ! 1) \<noteq> scriptPubKey (vout tx ! unat (op_n p)))"

datatype value_error = Less_than_0 | Wraps

fun GetValueOut_loop :: "CAmount \<Rightarrow> CTxOut list \<Rightarrow> value_error + CAmount" where
  "GetValueOut_loop nValueOut [] = Inr nValueOut"
| "GetValueOut_loop nValueOut (it # its) =
     (if nValue it <s 0 then Inl Less_than_0
      else if nValueOut + nValue it <s nValueOut then Inl Wraps
      else GetValueOut_loop (nValueOut + nValue it) its)"

definition GetValueOut :: "CTransaction \<Rightarrow> value_error + CAmount" where
  "GetValueOut tx = GetValueOut_loop 0 (vout tx)"

definition GetZerocoinMinted :: "CTransaction \<Rightarrow> CAmount" where
  "GetZerocoinMinted tx =
     foldl (\<lambda>nValueOut txOut. nValueOut + CTxOut_GetZerocoinMinted txOut) 0 (vout tx)"

definition GetZerocoinSpent :: "CTransaction \<Rightarrow> CAmount" where
  "GetZerocoinSpent tx =
     foldl (\<lambda>nValueOut txin.
       if \<not> CTxIn_IsZerocoinSpend txin then nValueOut
       else nValueOut + ucast (nSequence txin) * COIN) 0 (vin tx)"

definition GetZerocoinMintCount :: "CTransaction \<Rightarrow> int" where
  "GetZerocoinMintCount tx =
     foldl (\<lambda>nCount out. if CTxOut_IsZerocoinMint out then nCount + 1 else nCount) 0 (vout tx)"

definition UsesUTXO :: "CTransaction \<Rightarrow> COutPoint \<Rightarrow> bool" where
  "UsesUTXO tx out = list_ex (\<lambda>txin. prevout txin = out) (vin tx)"

definition GetOutPoints :: "CTransaction \<Rightarrow> COutPoint list" where
  "GetOutPoints tx =
     map (\<lambda>i. \<lparr>op_hash = tx_hash tx, op_n = of_nat i\<rparr>) [0..<length (vout tx)]"

fun modified_size_loop :: "u32 \<Rightarrow> CTxIn list \<Rightarrow> u32" where
  "modified_size_loop nTxSize [] = nTxSize"
| "modified_size_loop nTxSize (it # its) =
     (let offset = 41 + min 110 (of_nat (length (scriptSig it)))
      in modified_size_loop (if nTxSize > offset then nTxSize - offset else nTxSize) its)"

definition CalculateModifiedSize :: "CTransaction \<Rightarrow> u32 \<Rightarrow> u32" where
  "CalculateModifiedSize tx nTxSize =
     modified_size_loop (if nTxSize = 0 then of_nat (length (ser_tx tx)) else nTxSize) (vin tx)"

section \<open>Fee rates and dust\<close>

text \<open>\<open>int64_t\<close> times \<open>size_t\<close> is computed in \<open>uint64_t\<close>.\<close>

definition CFeeRate :: "CAmount \<Rightarrow> u64 \<Rightarrow> CAmount" where
  "CFeeRate nFeePaid nSize = (if nSize > 0 then (nFeePaid * 1000) div nSize else 0)"

definition GetFee :: "CAmount \<Rightarrow> u64 \<Rightarrow> CAmount" where
  "GetFee nSatoshisPerK nSize =
     (let nFee = (nSatoshisPerK * nSize) div 1000
      in if nFee = 0 \<and> 0 <s nSatoshisPerK then nSatoshisPerK else nFee)"

definition IsDust :: "CTxOut \<Rightarrow> CAmount \<Rightarrow> bool" where
  "IsDust txout minRelayTxFee =
     (let nSize = of_nat (length (ser_CTxOut txout)) + 148
      in nValue txout <s 3 * GetFee minRelayTxFee nSize)"

section \<open>The order of outpoints\<close>

text \<open>The order \<open>operator<\<close> gives is a linear order, so outpoints can be keys of a map.\<close>

definition outpoint_key :: "'a COutPoint_scheme \<Rightarrow> uint256 \<times> u32 \<times> 'a" where
  "outpoint_key a = (op_hash a, op_n a, COutPoint.more a)"

lemma outpoint_key_inject: "outpoint_key a = outpoint_key b \<Longrightarrow> a = b"
  by (simp add: outpoint_key_def COutPoint.equality)

instantiation COutPoint_ext :: (linorder) linorder
begin

definition less_COutPoint_ext :: "'a COutPoint_scheme \<Rightarrow> 'a COutPoint_scheme \<Rightarrow> bool" where
  "less_COutPoint_ext a b \<longleftrightarrow> outpoint_key a < outpoint_key b"

definition less_eq_COutPoint_ext :: "'a COutPoint_scheme \<Rightarrow> 'a COutPoint_scheme \<Rightarrow> bool" where
  "less_eq_COutPoint_ext a b \<longleftrightarrow> outpoint_key a \<le> outpoint_key b"

instance
proof
  fix a b c :: "'a COutPoint_scheme"
  show "(a < b) = (a \<le> b \<and> \<not> b \<le> a)" "a \<le> a" "a \<le> b \<or> b \<le> a"
    by (auto simp only: less_COutPoint_ext_def less_eq_COutPoint_ext_def)
  show "a \<le> b \<Longrightarrow> b \<le> c \<Longrightarrow> a \<le> c"
    unfolding less_eq_COutPoint_ext_def by (rule order_trans)
  show "a \<le> b \<Longrightarrow> b \<le> a \<Longrightarrow> a = b"
    unfolding less_eq_COutPoint_ext_def by (intro outpoint_key_inject antisym)
qed

end

lemma COutPoint_less_eq: "COutPoint_less a b \<longleftrightarrow> a < b"
  by (auto simp: COutPoint_less_def less_COutPoint_ext_def outpoint_key_def)

section \<open>The serializations are codecs\<close>

lemmas codec_iffs = and_then_Inr_iff u32.unser_iff u64.unser_iff bytes.unser_iff compact.unser_iff

lemma length_ser_u32 [simp]: "length (ser_u32 a) = 4"
  by (simp add: ser_u32_def)

lemma length_ser_u64 [simp]: "length (ser_u64 a) = 8"
  by (simp add: ser_u64_def)

lemma le_val_ser_u32: "(of_nat (le_val (ser_u32 a)) :: u32) = a"
proof -
  have "le_val (ser_u32 a) = unat a"
    using unat_u32_less [of a] by (simp add: ser_u32_def le_val_le_bytes)
  then show ?thesis by simp
qed

lemma ser_u32_le_val: "length x = 4 \<Longrightarrow> ser_u32 (of_nat (le_val x)) = x"
  using le_val_less [of x] le_bytes_le_val [of x]
  by (simp add: ser_u32_def unat_of_nat_u32 del: le_bytes_le_val)

interpretation outpoint: codec ser_COutPoint unser_COutPoint "\<lambda>_. True"
proof
  show "unser_COutPoint (ser_COutPoint x @ r) = Inr (x, r)" for x r
    by (simp add: unser_COutPoint_def ser_COutPoint_def stream_read_def le_val_ser_u32)
  show "unser_COutPoint s = Inr (x, r) \<Longrightarrow> True \<and> s = ser_COutPoint x @ r" for s x r
    by (auto simp: unser_COutPoint_def ser_COutPoint_def codec_iffs stream_read_iff ser_u32_le_val
        uint256_bytes_of_bytes simp flip: append_assoc)
qed

definition wf_txin :: "CTxIn \<Rightarrow> bool" where
  "wf_txin txin \<longleftrightarrow> length (scriptSig txin) \<le> MAX_SIZE \<and> prevPubKey txin = []"

definition wf_txout :: "CTxOut \<Rightarrow> bool" where
  "wf_txout txout \<longleftrightarrow> length (scriptPubKey txout) \<le> MAX_SIZE \<and> nRounds txout = -10"

definition wf_tx :: "'a CMutableTransaction_scheme \<Rightarrow> bool" where
  "wf_tx tx \<longleftrightarrow> length (vin tx) \<le> MAX_SIZE \<and> list_all wf_txin (vin tx) \<and>
     length (vout tx) \<le> MAX_SIZE \<and> list_all wf_txout (vout tx)"

interpretation txin: codec ser_CTxIn unser_CTxIn wf_txin
proof
  show "wf_txin x \<Longrightarrow> unser_CTxIn (ser_CTxIn x @ r) = Inr (x, r)" for x r
    by (simp add: unser_CTxIn_def ser_CTxIn_def wf_txin_def outpoint.unser_ser bytes.unser_ser
        u32.unser_ser)
  show "unser_CTxIn s = Inr (x, r) \<Longrightarrow> wf_txin x \<and> s = ser_CTxIn x @ r" for s x r
    by (auto simp: unser_CTxIn_def ser_CTxIn_def wf_txin_def outpoint.unser_iff codec_iffs)
qed

interpretation txout: codec ser_CTxOut unser_CTxOut wf_txout
proof
  show "wf_txout x \<Longrightarrow> unser_CTxOut (ser_CTxOut x @ r) = Inr (x, r)" for x r
    by (simp add: unser_CTxOut_def ser_CTxOut_def wf_txout_def bytes.unser_ser u64.unser_ser)
  show "unser_CTxOut s = Inr (x, r) \<Longrightarrow> wf_txout x \<and> s = ser_CTxOut x @ r" for s x r
    by (auto simp: unser_CTxOut_def ser_CTxOut_def wf_txout_def codec_iffs)
qed

interpretation txins: vector_codec ser_CTxIn unser_CTxIn wf_txin
  by unfold_locales

interpretation txouts: vector_codec ser_CTxOut unser_CTxOut wf_txout
  by unfold_locales

lemmas vector_iffs = txins.vec.unser_iff txouts.vec.unser_iff codec_iffs

interpretation mtx: codec ser_tx unser_CMutableTransaction wf_tx
proof
  show "wf_tx x \<Longrightarrow> unser_CMutableTransaction (ser_tx x @ r) = Inr (x, r)"
    for x :: CMutableTransaction and r
    by (simp add: unser_CMutableTransaction_def ser_tx_def wf_tx_def txins.vec.unser_ser
        txouts.vec.unser_ser u32.unser_ser)
  show "unser_CMutableTransaction s = Inr (x, r) \<Longrightarrow> wf_tx x \<and> s = ser_tx x @ r" for s x r
    by (auto simp: unser_CMutableTransaction_def ser_tx_def wf_tx_def vector_iffs)
qed

text \<open>A transaction whose cached hash is up to date.\<close>

definition hash_ok :: "CTransaction \<Rightarrow> bool" where
  "hash_ok tx \<longleftrightarrow> tx_hash tx = SerializeHash (ser_tx tx)"

lemma ser_tx_update [simp]: "ser_tx (tx_hash_update f tx) = ser_tx tx"
  by (simp add: ser_tx_def)

lemma wf_tx_update [simp]: "wf_tx (tx_hash_update f tx) = wf_tx tx"
  by (simp add: wf_tx_def)

lemma hash_ok_UpdateHash [simp]: "hash_ok (UpdateHash tx)"
  by (simp add: hash_ok_def UpdateHash_def)

lemma hash_ok_CTransaction_of [simp]: "hash_ok (CTransaction_of tx)"
  by (simp add: CTransaction_of_def)

lemma UpdateHash_id: "hash_ok tx \<Longrightarrow> UpdateHash (tx\<lparr>tx_hash := 0\<rparr>) = tx"
  by (simp add: hash_ok_def UpdateHash_def)

lemma unser_CTransaction_eq:
  "unser_CTransaction s = and_then (unser_CMutableTransaction s) (\<lambda>(tx, s). Inr (CTransaction_of tx, s))"
  by (auto simp: unser_CTransaction_def unser_CMutableTransaction_def CTransaction_of_def and_then_def
      split: sum.split)

lemma ser_tx_CTransaction_of [simp]: "ser_tx (CTransaction_of tx) = ser_tx tx"
  by (simp add: CTransaction_of_def UpdateHash_def) (simp add: ser_tx_def)

lemma wf_tx_CTransaction_of [simp]: "wf_tx (CTransaction_of tx) = wf_tx tx"
  by (simp add: CTransaction_of_def UpdateHash_def) (simp add: wf_tx_def)

lemma CTransaction_of_mutable:
  "hash_ok tx \<Longrightarrow> CTransaction_of (CMutableTransaction_of tx) = tx"
  by (cases tx) (simp add: CTransaction_of_def CMutableTransaction_of_def hash_ok_def UpdateHash_def ser_tx_def)

lemma CMutableTransaction_of_of [simp]: "CMutableTransaction_of (CTransaction_of tx) = tx"
  by (cases tx) (simp add: CTransaction_of_def CMutableTransaction_of_def UpdateHash_def)

lemma ser_tx_mutable [simp]: "ser_tx (CMutableTransaction_of tx) = ser_tx tx"
  by (simp add: CMutableTransaction_of_def ser_tx_def)

lemma wf_tx_mutable [simp]: "wf_tx (CMutableTransaction_of tx) = wf_tx tx"
  by (simp add: CMutableTransaction_of_def wf_tx_def)

interpretation tx: codec ser_tx unser_CTransaction "\<lambda>tx. wf_tx tx \<and> hash_ok tx"
proof
  fix x :: CTransaction and r s
  show "wf_tx x \<and> hash_ok x \<Longrightarrow> unser_CTransaction (ser_tx x @ r) = Inr (x, r)"
    using mtx.unser_ser [of "CMutableTransaction_of x" r]
    by (simp add: unser_CTransaction_eq CTransaction_of_mutable)
  show "unser_CTransaction s = Inr (x, r) \<Longrightarrow> (wf_tx x \<and> hash_ok x) \<and> s = ser_tx x @ r"
    by (auto simp: unser_CTransaction_eq and_then_Inr_iff mtx.unser_iff)
qed

lemma SerializeHash_eq: "SerializeHash m = Hash m"
  using CHashWriter_eq [of "[m]"] by (simp add: SerializeHash_def)

text \<open>Two transactions with one hash are the same, or their serializations collide.\<close>

lemma tx_hash_collision:
  assumes "wf_tx a" and "wf_tx b" and "hash_ok a" and "hash_ok b" and "tx_hash a = tx_hash b" and "a \<noteq> b"
  shows "ser_tx a \<noteq> ser_tx b \<and> hash256 (ser_tx a) = hash256 (ser_tx b)"
proof
  show "ser_tx a \<noteq> ser_tx b" using tx.ser_inject assms by blast
  show "hash256 (ser_tx a) = hash256 (ser_tx b)"
    using assms by (simp add: hash_ok_def SerializeHash_eq flip: uint256_bytes_Hash)
qed

section \<open>Sums and classes\<close>

lemma coinbase_not_coinstake: "IsCoinBase tx \<Longrightarrow> \<not> IsCoinStake tx"
  by (cases "vin tx") (auto simp: IsCoinBase_def IsCoinStake_def ContainsZerocoins_def
      HasZerocoinSpendInputs_def)

lemma sint_u64: "- (2 ^ 63) \<le> sint (a :: u64)" "sint (a :: u64) < 2 ^ 63"
  using sint_range_size [of a] by (simp_all add: word_size)

lemma sint_add_nonneg:
  fixes a b :: u64
  assumes "0 \<le> sint a" and "0 \<le> sint b"
  shows "a + b <s a \<longleftrightarrow> 2 ^ 63 \<le> sint a + sint b"
    and "sint a + sint b < 2 ^ 63 \<Longrightarrow> sint (a + b) = sint a + sint b"
proof -
  note r = sint_u64 [of a] sint_u64 [of b] sint_u64 [of "a + b"]
  have w: "sint (a + b) = (sint a + sint b + 2 ^ 63) mod 2 ^ 64 - 2 ^ 63"
    by (simp add: sint_word_add signed_take_bit_eq_take_bit_shift take_bit_eq_mod)
  have e: "sint (a + b) = (if 2 ^ 63 \<le> sint a + sint b then sint a + sint b - 2 ^ 64 else sint a + sint b)"
  proof (cases "2 ^ 63 \<le> sint a + sint b")
    case True
    have "(sint a + sint b + 2 ^ 63) mod 2 ^ 64 = (sint a + sint b + 2 ^ 63 - 2 ^ 64) mod 2 ^ 64"
      by (simp only: minus_mod_self2)
    also have "\<dots> = sint a + sint b + 2 ^ 63 - 2 ^ 64"
      using r True by (intro mod_pos_pos_trivial) auto
    finally show ?thesis using True w by simp
  next
    case False
    then have "(sint a + sint b + 2 ^ 63) mod 2 ^ 64 = sint a + sint b + 2 ^ 63"
      using assms by (intro mod_pos_pos_trivial) auto
    then show ?thesis using False w by simp
  qed
  then show "a + b <s a \<longleftrightarrow> 2 ^ 63 \<le> sint a + sint b"
    using r assms by (simp add: word_sless_alt)
  show "sint a + sint b < 2 ^ 63 \<Longrightarrow> sint (a + b) = sint a + sint b" using e by simp
qed

lemma GetValueOut_loop_iff:
  "0 \<le> sint acc \<Longrightarrow> GetValueOut_loop acc outs = Inr v \<longleftrightarrow>
    list_all (\<lambda>out. 0 \<le> sint (nValue out)) outs \<and>
    sint acc + sum_list (map (\<lambda>out. sint (nValue out)) outs) < 2 ^ 63 \<and>
    sint v = sint acc + sum_list (map (\<lambda>out. sint (nValue out)) outs)"
proof (induction outs arbitrary: acc)
  case Nil
  have "acc = v \<longleftrightarrow> sint v = sint acc" by (metis signed_word_eqI)
  then show ?case using sint_u64 [of acc] by simp
next
  case (Cons x xs)
  show ?case
  proof (cases "0 \<le> sint (nValue x)")
    case True
    have nn: "list_all (\<lambda>out. 0 \<le> sint (nValue out)) xs \<Longrightarrow> 0 \<le> sum_list (map (\<lambda>out. sint (nValue out)) xs)"
      by (induction xs) auto
    show ?thesis
    proof (cases "2 ^ 63 \<le> sint acc + sint (nValue x)")
      case True
      then have "acc + nValue x <s acc"
        using Cons.prems \<open>0 \<le> sint (nValue x)\<close> by (simp add: sint_add_nonneg)
      then show ?thesis using True nn by (auto simp: word_sless_alt)
    next
      case False
      then have "sint (acc + nValue x) = sint acc + sint (nValue x)" "\<not> acc + nValue x <s acc"
        using Cons.prems True by (auto simp: sint_add_nonneg)
      then show ?thesis
        using Cons.IH [of "acc + nValue x"] Cons.prems True by (simp add: word_sless_alt add.assoc)
    qed
  qed (simp add: word_sless_alt)
qed

lemma GetValueOut_iff:
  "GetValueOut tx = Inr v \<longleftrightarrow>
    list_all (\<lambda>out. 0 \<le> sint (nValue out)) (vout tx) \<and>
    sum_list (map (\<lambda>out. sint (nValue out)) (vout tx)) < 2 ^ 63 \<and>
    sint v = sum_list (map (\<lambda>out. sint (nValue out)) (vout tx))"
  by (simp add: GetValueOut_def GetValueOut_loop_iff)

lemma modified_size_le: "modified_size_loop n ins \<le> n"
proof (induction ins arbitrary: n)
  case (Cons x xs)
  have "n - off \<le> n" if "off < n" for off :: u32
    using that by (simp add: word_le_nat_alt word_less_nat_alt unat_sub)
  then show ?case by (auto simp: Let_def intro: order_trans [OF Cons.IH])
qed simp

section \<open>Consequences\<close>

text \<open>
  Two different well formed transactions have different transaction ids unless their two
  serializations, which differ, collide under the double SHA-256.
\<close>

lemma txid_binding:
  assumes "wf_tx a" and "wf_tx b" and "tx_hash (CTransaction_of a) = tx_hash (CTransaction_of b)"
  shows "a = b \<or> ser_tx a \<noteq> ser_tx b \<and> hash256 (ser_tx a) = hash256 (ser_tx b)"
proof (cases "a = b")
  case False
  then have "ser_tx a \<noteq> ser_tx b" using mtx.ser_inject assms(1,2) by blast
  moreover have "hash256 (ser_tx a) = hash256 (ser_tx b)"
    using assms(3) by (simp add: CTransaction_of_def UpdateHash_def ser_tx_def SerializeHash_eq
        flip: uint256_bytes_Hash)
  ultimately show ?thesis by blast
qed simp

text \<open>
  GetValueOut returns a value exactly when no output is negative and the sum fits a signed 64-bit
  integer, and then it is the sum; otherwise it throws.
\<close>

lemma value_out:
  "GetValueOut tx = Inr v \<longleftrightarrow>
    list_all (\<lambda>out. 0 \<le> sint (nValue out)) (vout tx) \<and>
    sum_list (map (\<lambda>out. sint (nValue out)) (vout tx)) < 2 ^ 63 \<and>
    sint v = sum_list (map (\<lambda>out. sint (nValue out)) (vout tx))"
  by (rule GetValueOut_iff)

section \<open>Properties\<close>

text \<open>
  C14. Deserializing a transaction accepts exactly the serializations of well formed transactions,
  gives back what was serialized with its cached hash computed, and leaves the rest of the stream.
\<close>

theorem tx_roundtrip:
  "unser_CTransaction s = Inr (tx, r) \<longleftrightarrow> (wf_tx tx \<and> hash_ok tx) \<and> s = ser_tx tx @ r"
  by (rule tx.unser_iff)

end
