(* ===== verification/PubKey.thy ===== *)
theory PubKey
  imports Serialize
begin

text \<open>
  Public keys as data (\<open>CPubKey\<close> of \<open>src/pubkey.h\<close>): a buffer of 65 bytes whose first byte
  says how many of them are used. The buffer is not cleared when a key is set, so the operations
  take its old contents; the lemmas show that nothing a caller sees depends on them. Verifying a
  signature is a call of OpenSSL or libsecp256k1, which is a parameter.
\<close>

type_synonym CPubKey = "byte list"

text \<open>\<open>ecdsa hash sig key\<close>: what the library answers for the \<open>size()\<close> bytes of the key.\<close>

type_synonym ecdsa_verify = "uint256 \<Rightarrow> valtype \<Rightarrow> valtype \<Rightarrow> bool"

definition GetLen :: "byte \<Rightarrow> nat" where
  "GetLen chHeader =
     (if chHeader = 2 \<or> chHeader = 3 then 33
      else if chHeader = 4 \<or> chHeader = 6 \<or> chHeader = 7 then 65 else 0)"

definition CPubKey_Invalidate :: "CPubKey \<Rightarrow> CPubKey" where
  "CPubKey_Invalidate vch = vch[0 := 0xFF]"

definition CPubKey_Set :: "CPubKey \<Rightarrow> byte list \<Rightarrow> CPubKey" where
  "CPubKey_Set vch data =
     (let len = if data = [] then 0 else GetLen (data ! 0)
      in if len \<noteq> 0 \<and> len = length data then memcpy_at 0 (take len data) vch
         else CPubKey_Invalidate vch)"

definition CPubKey_size :: "CPubKey \<Rightarrow> nat" where
  "CPubKey_size vch = GetLen (vch ! 0)"

definition CPubKey_IsValid :: "CPubKey \<Rightarrow> bool" where
  "CPubKey_IsValid vch \<longleftrightarrow> CPubKey_size vch > 0"

definition CPubKey_IsCompressed :: "CPubKey \<Rightarrow> bool" where
  "CPubKey_IsCompressed vch \<longleftrightarrow> CPubKey_size vch = 33"

definition CPubKey_Raw :: "CPubKey \<Rightarrow> valtype" where
  "CPubKey_Raw vch = take (CPubKey_size vch) vch"

definition CPubKey_eq :: "CPubKey \<Rightarrow> CPubKey \<Rightarrow> bool" where
  "CPubKey_eq a b \<longleftrightarrow> a ! 0 = b ! 0 \<and> take (CPubKey_size a) a = take (CPubKey_size a) b"

definition CPubKey_GetID :: "CPubKey \<Rightarrow> uint160" where
  "CPubKey_GetID vch = Hash160 (take (CPubKey_size vch) vch)"

definition CPubKey_GetHash :: "CPubKey \<Rightarrow> uint256" where
  "CPubKey_GetHash vch = Hash (take (CPubKey_size vch) vch)"

definition ser_CPubKey :: "CPubKey \<Rightarrow> byte list" where
  "ser_CPubKey vch =
     (let len = CPubKey_size vch in WriteCompactSize len @ take len vch)"

text \<open>A longer vector is read byte by byte and dropped.\<close>

definition unser_CPubKey :: "CPubKey \<Rightarrow> CPubKey reader" where
  "unser_CPubKey vch s =
     and_then (ReadCompactSize s) (\<lambda>(len, s).
       if len \<le> 65 then and_then (stream_read len s) (\<lambda>(x, s). Inr (memcpy_at 0 x vch, s))
       else and_then (unser_n (stream_read 1) len s) (\<lambda>(xs, s). Inr (CPubKey_Invalidate vch, s)))"

definition CPubKey_Verify :: "ecdsa_verify \<Rightarrow> CPubKey \<Rightarrow> uint256 \<Rightarrow> valtype \<Rightarrow> bool" where
  "CPubKey_Verify ecdsa vch h vchSig =
     (if \<not> CPubKey_IsValid vch then False
      else if \<not> ecdsa h vchSig (take (CPubKey_size vch) vch) then False else True)"

section \<open>Nothing depends on the old contents\<close>

definition key_shaped :: "valtype \<Rightarrow> bool" where
  "key_shaped data \<longleftrightarrow> data \<noteq> [] \<and> length data = GetLen (data ! 0)"

lemma GetLen_cases: "GetLen h = 0 \<or> GetLen h = 33 \<or> GetLen h = 65"
  by (simp add: GetLen_def)

lemma GetLen_FF [simp]: "GetLen 0xFF = 0"
  by (simp add: GetLen_def)

lemma CPubKey_Raw_Set:
  assumes "length vch = 65"
  shows "CPubKey_Raw (CPubKey_Set vch data) = (if key_shaped data then data else [])"
proof (cases "key_shaped data")
  case True
  then have "data \<noteq> []" "length data = GetLen (data ! 0)" by (simp_all add: key_shaped_def)
  moreover from this have "GetLen (data ! 0) \<noteq> 0" by (metis length_0_conv)
  ultimately show ?thesis
    by (simp add: CPubKey_Raw_def CPubKey_Set_def CPubKey_size_def memcpy_at_def nth_append
        key_shaped_def Let_def)
next
  case False
  have "vch \<noteq> []" using assms by auto
  then show ?thesis using False
    by (auto simp: CPubKey_Raw_def CPubKey_Set_def CPubKey_Invalidate_def CPubKey_size_def
        key_shaped_def Let_def)
qed

lemma CPubKey_size_Set:
  assumes "length vch = 65"
  shows "CPubKey_size (CPubKey_Set vch data) = (if key_shaped data then length data else 0)"
proof (cases "key_shaped data")
  case True
  then show ?thesis
    by (auto simp: CPubKey_Set_def CPubKey_size_def memcpy_at_def nth_append key_shaped_def Let_def)
next
  case False
  have "vch \<noteq> []" using assms by auto
  then show ?thesis using False
    by (auto simp: CPubKey_Set_def CPubKey_Invalidate_def CPubKey_size_def key_shaped_def Let_def)
qed

lemma CPubKey_IsValid_Set:
  "length vch = 65 \<Longrightarrow> CPubKey_IsValid (CPubKey_Set vch data) \<longleftrightarrow> key_shaped data"
  by (auto simp: CPubKey_IsValid_def CPubKey_size_Set key_shaped_def simp flip: length_greater_0_conv)

lemma CPubKey_GetID_Set:
  "length vch = 65 \<Longrightarrow> key_shaped data \<Longrightarrow> CPubKey_GetID (CPubKey_Set vch data) = Hash160 data"
  using CPubKey_Raw_Set [of vch data] by (simp add: CPubKey_GetID_def CPubKey_Raw_def)

lemma CPubKey_Verify_Set:
  "length vch = 65 \<Longrightarrow>
   CPubKey_Verify ecdsa (CPubKey_Set vch data) h sig \<longleftrightarrow> key_shaped data \<and> ecdsa h sig data"
  using CPubKey_Raw_Set [of vch data]
  by (auto simp: CPubKey_Verify_def CPubKey_IsValid_Set CPubKey_Raw_def)

lemma length_CPubKey_Set: "length vch = 65 \<Longrightarrow> length (CPubKey_Set vch data) = 65"
  using GetLen_cases [of "data ! 0"]
  by (auto simp: CPubKey_Set_def CPubKey_Invalidate_def Let_def length_memcpy_at)

text \<open>A key that was set is read back, whatever the buffer held.\<close>

lemma unser_ser_CPubKey:
  assumes "length vch = 65" and "length vch' = 65" and "key_shaped data"
  shows "\<exists>k. unser_CPubKey vch' (ser_CPubKey (CPubKey_Set vch data) @ r) = Inr (k, r) \<and>
    CPubKey_Raw k = data"
proof -
  have r: "take (CPubKey_size (CPubKey_Set vch data)) (CPubKey_Set vch data) = data"
    and l: "CPubKey_size (CPubKey_Set vch data) = length data"
    using CPubKey_Raw_Set [of vch data] CPubKey_size_Set [of vch data] assms
    by (simp_all add: CPubKey_Raw_def)
  have "length data \<le> 65" and "GetLen (data ! 0) = length data" "data \<noteq> []"
    using assms(3) GetLen_cases [of "data ! 0"] by (auto simp: key_shaped_def)
  then show ?thesis
    using r l by (simp add: ser_CPubKey_def unser_CPubKey_def compact.unser_ser MAX_SIZE_def Let_def
        CPubKey_Raw_def CPubKey_size_def memcpy_at_def nth_append)
qed

end
