(* ===== verification/Coins.thy ===== *)
theory Coins
  imports Transaction PubKey "HOL-Library.AList"
begin

text \<open>
  Unspent outputs (\<open>src/coins.h\<close>, \<open>src/coins.cpp\<close>, \<open>src/undo.h\<close>): the outputs of one transaction
  and how they are spent and restored. A \<open>CCoins\<close> stands for the function from output numbers to
  the outputs that are left, each with the data the transaction carries.
\<close>

section \<open>The outputs of a transaction\<close>

text \<open>\<open>nHeight\<close> is an \<open>int\<close> here and an \<open>unsigned int\<close> in the undo data; both are the 32 bits.\<close>

record CCoins =
  cc_fCoinBase :: bool
  cc_fCoinStake :: bool
  cc_vout :: "CTxOut list"
  cc_nHeight :: u32
  cc_nVersion :: u32

definition CCoins_Clear :: CCoins where
  "CCoins_Clear = \<lparr>cc_fCoinBase = False, cc_fCoinStake = False, cc_vout = [], cc_nHeight = 0, cc_nVersion = 0\<rparr>"

function cleanup_loop :: "CTxOut list \<Rightarrow> CTxOut list" where
  "cleanup_loop vs =
     (if vs \<noteq> [] \<and> CTxOut_IsNull (last vs) then cleanup_loop (butlast vs) else vs)"
  by pat_completeness auto
termination
  by (relation "measure length") auto

declare cleanup_loop.simps [simp del]

lemma cleanup_loop_end: "\<not> (vs \<noteq> [] \<and> CTxOut_IsNull (last vs)) \<Longrightarrow> cleanup_loop vs = vs"
  by (subst cleanup_loop.simps) (rule if_not_P)

definition CCoins_Cleanup :: "CCoins \<Rightarrow> CCoins" where
  "CCoins_Cleanup c = c\<lparr>cc_vout := cleanup_loop (cc_vout c)\<rparr>"

definition ClearUnspendable :: "CCoins \<Rightarrow> CCoins" where
  "ClearUnspendable c = CCoins_Cleanup
     (c\<lparr>cc_vout := map (\<lambda>txout. if IsUnspendable (scriptPubKey txout) then CTxOut_Null else txout) (cc_vout c)\<rparr>)"

definition CCoins_FromTx :: "CTransaction \<Rightarrow> u32 \<Rightarrow> CCoins" where
  "CCoins_FromTx tx nHeightIn = ClearUnspendable
     \<lparr>cc_fCoinBase = IsCoinBase tx, cc_fCoinStake = IsCoinStake tx, cc_vout = vout tx,
      cc_nHeight = nHeightIn, cc_nVersion = nVersion tx\<rparr>"

definition IsPruned :: "CCoins \<Rightarrow> bool" where
  "IsPruned c \<longleftrightarrow> list_all CTxOut_IsNull (cc_vout c)"

definition IsAvailable :: "CCoins \<Rightarrow> nat \<Rightarrow> bool" where
  "IsAvailable c nPos \<longleftrightarrow> nPos < length (cc_vout c) \<and> \<not> CTxOut_IsNull (cc_vout c ! nPos) \<and>
     \<not> CTxOut_IsZerocoinMint (cc_vout c ! nPos)"

definition CCoins_eq :: "CCoins \<Rightarrow> CCoins \<Rightarrow> bool" where
  "CCoins_eq a b \<longleftrightarrow>
     (if IsPruned a \<and> IsPruned b then True
      else cc_fCoinBase a = cc_fCoinBase b \<and> cc_fCoinStake a = cc_fCoinStake b \<and>
        cc_nHeight a = cc_nHeight b \<and> cc_nVersion a = cc_nVersion b \<and> cc_vout a = cc_vout b)"

record CTxInUndo =
  un_txout :: CTxOut
  un_fCoinBase :: bool
  un_fCoinStake :: bool
  un_nHeight :: u32
  un_nVersion :: u32

definition CTxInUndo_of :: "CTxOut \<Rightarrow> CTxInUndo" where
  "CTxInUndo_of txoutIn = \<lparr>un_txout = txoutIn, un_fCoinBase = False, un_fCoinStake = False,
     un_nHeight = 0, un_nVersion = 0\<rparr>"

text \<open>\<open>None\<close> is \<open>false\<close>, with nothing changed.\<close>

definition CCoins_Spend :: "CCoins \<Rightarrow> nat \<Rightarrow> (CCoins \<times> CTxInUndo) option" where
  "CCoins_Spend c n =
     (if n \<ge> length (cc_vout c) then None
      else if CTxOut_IsNull (cc_vout c ! n) then None
      else
        (let undo = CTxInUndo_of (cc_vout c ! n);
             c = CCoins_Cleanup (c\<lparr>cc_vout := (cc_vout c)[n := CTxOut_Null]\<rparr>)
         in Some (c,
              if length (cc_vout c) = 0
              then undo\<lparr>un_nHeight := cc_nHeight c, un_fCoinBase := cc_fCoinBase c,
                un_fCoinStake := cc_fCoinStake c, un_nVersion := cc_nVersion c\<rparr>
              else undo)))"

section \<open>The outputs that are left\<close>

record coin =
  coin_out :: CTxOut
  coin_base :: bool
  coin_stake :: bool
  coin_height :: u32
  coin_version :: u32

definition coins_abs :: "CCoins \<Rightarrow> nat \<Rightarrow> coin option" where
  "coins_abs c n =
     (if n < length (cc_vout c) \<and> \<not> CTxOut_IsNull (cc_vout c ! n)
      then Some \<lparr>coin_out = cc_vout c ! n, coin_base = cc_fCoinBase c, coin_stake = cc_fCoinStake c,
        coin_height = cc_nHeight c, coin_version = cc_nVersion c\<rparr>
      else None)"

lemma IsPruned_iff: "IsPruned c \<longleftrightarrow> coins_abs c = (\<lambda>n. None)"
  by (auto simp: IsPruned_def coins_abs_def list_all_length fun_eq_iff)

lemma coins_abs_Clear [simp]: "coins_abs CCoins_Clear = (\<lambda>n. None)"
  by (simp add: coins_abs_def CCoins_Clear_def fun_eq_iff)

lemma IsNull_CTxOut_Null [simp]: "CTxOut_IsNull CTxOut_Null"
  by (simp add: CTxOut_IsNull_def CTxOut_Null_def)

lemma cleanup_loop_append: "\<exists>zs. vs = cleanup_loop vs @ zs \<and> list_all CTxOut_IsNull zs"
proof (induction vs rule: cleanup_loop.induct)
  case (1 vs)
  show ?case
  proof (cases "vs \<noteq> [] \<and> CTxOut_IsNull (last vs)")
    case True
    then obtain zs where "butlast vs = cleanup_loop (butlast vs) @ zs" "list_all CTxOut_IsNull zs"
      using 1 by blast
    moreover have "vs = butlast vs @ [last vs]" using True by simp
    ultimately have "vs = cleanup_loop (butlast vs) @ (zs @ [last vs])" by (metis append_assoc)
    moreover have "cleanup_loop vs = cleanup_loop (butlast vs)"
      using True by (subst cleanup_loop.simps) simp
    ultimately show ?thesis
      using True \<open>list_all CTxOut_IsNull zs\<close> by (intro exI [of _ "zs @ [last vs]"]) simp
  next
    case False
    then have "cleanup_loop vs = vs" by (rule cleanup_loop_end)
    then show ?thesis by simp
  qed
qed

lemma last_cleanup_loop: "cleanup_loop vs \<noteq> [] \<Longrightarrow> \<not> CTxOut_IsNull (last (cleanup_loop vs))"
proof (induction vs rule: cleanup_loop.induct)
  case (1 vs)
  show ?case
  proof (cases "vs \<noteq> [] \<and> CTxOut_IsNull (last vs)")
    case True
    then have "cleanup_loop vs = cleanup_loop (butlast vs)" by (subst cleanup_loop.simps) simp
    then show ?thesis using 1 True by simp
  next
    case False
    then have "cleanup_loop vs = vs" by (rule cleanup_loop_end)
    then show ?thesis using False 1 by simp
  qed
qed

lemma coins_abs_Cleanup [simp]: "coins_abs (CCoins_Cleanup c) = coins_abs c"
proof
  fix n
  obtain zs where zs: "cc_vout c = cleanup_loop (cc_vout c) @ zs" "list_all CTxOut_IsNull zs"
    using cleanup_loop_append by blast
  show "coins_abs (CCoins_Cleanup c) n = coins_abs c n"
  proof (cases "n < length (cleanup_loop (cc_vout c))")
    case True
    then have "cc_vout c ! n = cleanup_loop (cc_vout c) ! n" "n < length (cc_vout c)"
      by (subst zs(1), simp add: nth_append)+
    then show ?thesis using True by (simp add: coins_abs_def CCoins_Cleanup_def)
  next
    case False
    then have "n < length (cc_vout c) \<Longrightarrow> CTxOut_IsNull (cc_vout c ! n)"
      using zs(2) by (subst zs(1), subst (asm) zs(1)) (auto simp: nth_append list_all_length)
    then show ?thesis using False by (simp add: coins_abs_def CCoins_Cleanup_def)
  qed
qed

lemma Cleanup_empty_iff: "cc_vout (CCoins_Cleanup c) = [] \<longleftrightarrow> coins_abs c = (\<lambda>n. None)"
proof
  assume "cc_vout (CCoins_Cleanup c) = []"
  then have "coins_abs (CCoins_Cleanup c) = (\<lambda>n. None)"
    by (simp add: coins_abs_def fun_eq_iff del: coins_abs_Cleanup)
  then show "coins_abs c = (\<lambda>n. None)" by simp
next
  assume a: "coins_abs c = (\<lambda>n. None)"
  show "cc_vout (CCoins_Cleanup c) = []"
  proof (rule ccontr)
    assume ne: "cc_vout (CCoins_Cleanup c) \<noteq> []"
    then have "\<not> CTxOut_IsNull (last (cc_vout (CCoins_Cleanup c)))"
      using last_cleanup_loop [of "cc_vout c"] by (simp add: CCoins_Cleanup_def)
    then have "coins_abs (CCoins_Cleanup c) (length (cc_vout (CCoins_Cleanup c)) - 1) \<noteq> None"
      using ne by (simp add: coins_abs_def last_conv_nth del: coins_abs_Cleanup)
    then show False using a by simp
  qed
qed

text \<open>Spending removes one output and remembers what it takes to put it back.\<close>

lemma CCoins_Spend_None: "CCoins_Spend c n = None \<longleftrightarrow> coins_abs c n = None"
  by (auto simp: CCoins_Spend_def coins_abs_def Let_def)

lemma CCoins_Spend_Some:
  assumes "CCoins_Spend c n = Some (c', undo)"
  shows "\<exists>x. coins_abs c n = Some x \<and> coins_abs c' = (coins_abs c)(n := None) \<and>
    undo = (if coins_abs c' = (\<lambda>n. None)
      then \<lparr>un_txout = coin_out x, un_fCoinBase = coin_base x, un_fCoinStake = coin_stake x,
        un_nHeight = coin_height x, un_nVersion = coin_version x\<rparr>
      else CTxInUndo_of (coin_out x))"
proof -
  let ?c = "c\<lparr>cc_vout := (cc_vout c)[n := CTxOut_Null]\<rparr>"
  have n: "n < length (cc_vout c)" "\<not> CTxOut_IsNull (cc_vout c ! n)"
    using assms by (auto simp: CCoins_Spend_def split: if_splits)
  have c': "c' = CCoins_Cleanup ?c" and u: "undo = (if length (cc_vout c') = 0
      then (CTxInUndo_of (cc_vout c ! n))\<lparr>un_nHeight := cc_nHeight c', un_fCoinBase := cc_fCoinBase c',
        un_fCoinStake := cc_fCoinStake c', un_nVersion := cc_nVersion c'\<rparr>
      else CTxInUndo_of (cc_vout c ! n))"
    using assms n by (auto simp: CCoins_Spend_def Let_def)
  have abs: "coins_abs c' = (coins_abs c)(n := None)"
    using n by (auto simp: c' coins_abs_def fun_eq_iff nth_list_update)
  have "length (cc_vout c') = 0 \<longleftrightarrow> coins_abs c' = (\<lambda>n. None)"
    using Cleanup_empty_iff [of ?c] by (simp add: c')
  then show ?thesis
    using n abs u by (auto simp: coins_abs_def c' CCoins_Cleanup_def CTxInUndo_of_def)
qed

section \<open>Putting an output back\<close>

text \<open>The part of \<open>DisconnectBlock\<close> that restores one input. The first component of the result is
  \<open>false\<close> when the undo data does not fit; \<open>None\<close> is an index out of range. The flag
  \<open>fCoinStake\<close> of the undo data is not copied.\<close>

definition restore_output :: "CCoins \<Rightarrow> u32 \<Rightarrow> CTxInUndo \<Rightarrow> (bool \<times> CCoins) option" where
  "restore_output coins n undo =
     (let fClean = (if un_nHeight undo \<noteq> 0 then IsPruned coins else \<not> IsPruned coins);
          coins = (if un_nHeight undo \<noteq> 0
            then CCoins_Clear\<lparr>cc_fCoinBase := un_fCoinBase undo, cc_nHeight := un_nHeight undo,
              cc_nVersion := un_nVersion undo\<rparr>
            else coins);
          fClean = (if IsAvailable coins (unat n) then False else fClean);
          vs = cc_vout coins;
          vs = (if length vs < unat (n + 1) then vs @ replicate (unat (n + 1) - length vs) CTxOut_Null else vs)
      in if unat n < length vs then Some (fClean, coins\<lparr>cc_vout := vs[unat n := un_txout undo]\<rparr>) else None)"

lemma nth_resize:
  "n \<noteq> -1 \<Longrightarrow> (let vs' = (if length vs < unat (n + 1) then vs @ replicate (unat (n + 1) - length vs) x else vs)
    in unat n < length vs' \<and>
      (\<forall>i. (if i < length vs' then vs' ! i else x) = (if i < length vs then vs ! i else x)))"
proof -
  assume "n \<noteq> -1"
  then have "1 + n \<noteq> 0" by (metis add.commute eq_neg_iff_add_eq_0)
  then have "unat (n + 1) = unat n + 1" using unatSuc [of n] by (simp add: add.commute)
  then show ?thesis by (auto simp: Let_def nth_append)
qed

lemma coins_abs_cong:
  assumes "\<And>i. (if i < length vs then vs ! i else CTxOut_Null) = (if i < length ws then ws ! i else CTxOut_Null)"
  shows "coins_abs (c\<lparr>cc_vout := vs\<rparr>) = coins_abs (c\<lparr>cc_vout := ws\<rparr>)"
proof
  fix i
  show "coins_abs (c\<lparr>cc_vout := vs\<rparr>) i = coins_abs (c\<lparr>cc_vout := ws\<rparr>) i"
    using assms [of i] by (auto simp: coins_abs_def split: if_splits)
qed

lemma coins_abs_update:
  assumes "n < length vs" and "\<not> CTxOut_IsNull txout"
  shows "coins_abs (c\<lparr>cc_vout := vs[n := txout]\<rparr>) = (coins_abs (c\<lparr>cc_vout := vs\<rparr>))(n \<mapsto>
    \<lparr>coin_out = txout, coin_base = cc_fCoinBase c, coin_stake = cc_fCoinStake c,
      coin_height = cc_nHeight c, coin_version = cc_nVersion c\<rparr>)"
  using assms by (auto simp: coins_abs_def fun_eq_iff nth_list_update)

text \<open>What the restored output belongs to: the data in the undo record, without the stake flag, or
  the data of the outputs that are still there.\<close>

definition restored_coin :: "(nat \<Rightarrow> coin option) \<Rightarrow> CTxInUndo \<Rightarrow> coin" where
  "restored_coin f undo =
     (if un_nHeight undo \<noteq> 0
      then \<lparr>coin_out = un_txout undo, coin_base = un_fCoinBase undo, coin_stake = False,
        coin_height = un_nHeight undo, coin_version = un_nVersion undo\<rparr>
      else (the (f (LEAST m. f m \<noteq> None)))\<lparr>coin_out := un_txout undo\<rparr>)"

lemma restore_output_abs:
  assumes "n \<noteq> -1" and "\<not> CTxOut_IsNull (un_txout undo)" and "coins_abs c (unat n) = None"
    and "un_nHeight undo \<noteq> 0 \<longleftrightarrow> coins_abs c = (\<lambda>n. None)"
  shows "\<exists>c'. restore_output c n undo = Some (True, c') \<and>
    coins_abs c' = (coins_abs c)(unat n \<mapsto> restored_coin (coins_abs c) undo)"
proof -
  let ?c = "if un_nHeight undo \<noteq> 0
    then CCoins_Clear\<lparr>cc_fCoinBase := un_fCoinBase undo, cc_nHeight := un_nHeight undo,
      cc_nVersion := un_nVersion undo\<rparr> else c"
  let ?vs = "cc_vout ?c"
  let ?vs' = "if length ?vs < unat (n + 1) then ?vs @ replicate (unat (n + 1) - length ?vs) CTxOut_Null else ?vs"
  have r: "unat n < length ?vs'"
    "\<And>i. (if i < length ?vs' then ?vs' ! i else CTxOut_Null) = (if i < length ?vs then ?vs ! i else CTxOut_Null)"
    using nth_resize [OF assms(1), of ?vs CTxOut_Null] unfolding Let_def by blast+
  have abs: "coins_abs ?c = coins_abs c"
    using assms(4) by (auto simp: coins_abs_def CCoins_Clear_def fun_eq_iff)
  have na: "\<not> IsAvailable ?c (unat n)"
    using abs assms(3) by (metis IsAvailable_def coins_abs_def option.distinct(1))
  have pr: "(if un_nHeight undo \<noteq> 0 then IsPruned c else \<not> IsPruned c) = True"
    using assms(4) by (simp add: IsPruned_iff)
  let ?c' = "?c\<lparr>cc_vout := ?vs'[unat n := un_txout undo]\<rparr>"
  have res: "restore_output c n undo = Some (True, ?c')"
    unfolding restore_output_def Let_def using r(1) na pr by (simp only: if_True if_False)
  have e: "coins_abs (?c\<lparr>cc_vout := ?vs'\<rparr>) = coins_abs c"
    using coins_abs_cong [OF r(2), where c = ?c] abs by (cases "un_nHeight undo \<noteq> 0") simp_all
  have upd: "coins_abs ?c' = (coins_abs (?c\<lparr>cc_vout := ?vs'\<rparr>))(unat n \<mapsto>
      \<lparr>coin_out = un_txout undo, coin_base = cc_fCoinBase ?c, coin_stake = cc_fCoinStake ?c,
        coin_height = cc_nHeight ?c, coin_version = cc_nVersion ?c\<rparr>)"
    by (rule coins_abs_update [OF r(1) assms(2)])
  have "restored_coin (coins_abs c) undo =
      \<lparr>coin_out = un_txout undo, coin_base = cc_fCoinBase ?c, coin_stake = cc_fCoinStake ?c,
        coin_height = cc_nHeight ?c, coin_version = cc_nVersion ?c\<rparr>"
  proof (cases "un_nHeight undo \<noteq> 0")
    case True
    then show ?thesis by (simp add: restored_coin_def CCoins_Clear_def)
  next
    case False
    then have "\<exists>m. coins_abs c m \<noteq> None" using assms(4) by (auto simp: fun_eq_iff)
    then have "coins_abs c (LEAST m. coins_abs c m \<noteq> None) \<noteq> None" by (rule LeastI_ex)
    then obtain m x where m: "(LEAST m. coins_abs c m \<noteq> None) = m" "coins_abs c m = Some x" by blast
    then have "x\<lparr>coin_out := un_txout undo\<rparr> = \<lparr>coin_out = un_txout undo, coin_base = cc_fCoinBase c,
      coin_stake = cc_fCoinStake c, coin_height = cc_nHeight c, coin_version = cc_nVersion c\<rparr>"
      by (auto simp: coins_abs_def split: if_splits)
    then show ?thesis using False m by (simp add: restored_coin_def)
  qed
  then show ?thesis using res upd e by simp
qed

text \<open>Restoring what was spent gives back the output, except that the stake flag is lost with the
  last output of a transaction.\<close>

lemma coins_abs_same_tx:
  assumes "coins_abs c n = Some x" and "coins_abs c m = Some y"
  shows "y\<lparr>coin_out := coin_out x\<rparr> = x"
  using assms by (auto simp: coins_abs_def split: if_splits)

lemma restore_Spend:
  assumes "CCoins_Spend c (unat n) = Some (c', undo)" and "n \<noteq> -1"
    and "coins_abs d = coins_abs c'" and "coins_abs c (unat n) = Some x" and "coin_height x \<noteq> 0"
  shows "\<exists>d'. restore_output d n undo = Some (True, d') \<and>
    coins_abs d' = (coins_abs c)(unat n \<mapsto>
      (if coins_abs c' = (\<lambda>n. None) then x\<lparr>coin_stake := False\<rparr> else x))"
proof -
  from CCoins_Spend_Some [OF assms(1)] assms(4)
  have c': "coins_abs c' = (coins_abs c)(unat n := None)"
    and u: "undo = (if coins_abs c' = (\<lambda>n. None)
      then \<lparr>un_txout = coin_out x, un_fCoinBase = coin_base x, un_fCoinStake = coin_stake x,
        un_nHeight = coin_height x, un_nVersion = coin_version x\<rparr>
      else CTxInUndo_of (coin_out x))" by auto
  have ut: "un_txout undo = coin_out x" by (simp add: u CTxInUndo_of_def)
  have nn: "\<not> CTxOut_IsNull (coin_out x)" using assms(4) by (auto simp: coins_abs_def split: if_splits)
  have h: "un_nHeight undo \<noteq> 0 \<longleftrightarrow> coins_abs d = (\<lambda>n. None)"
    using assms(3,5) by (simp add: u CTxInUndo_of_def)
  obtain d' where d': "restore_output d n undo = Some (True, d')"
      "coins_abs d' = (coins_abs d)(unat n \<mapsto> restored_coin (coins_abs d) undo)"
    using restore_output_abs [OF assms(2) _ _ h] ut nn assms(3) c' by auto
  have "restored_coin (coins_abs d) undo = (if coins_abs c' = (\<lambda>n. None) then x\<lparr>coin_stake := False\<rparr> else x)"
  proof (cases "coins_abs c' = (\<lambda>n. None)")
    case True
    then show ?thesis using assms(5) by (simp add: restored_coin_def u)
  next
    case False
    then have "\<exists>m. coins_abs c' m \<noteq> None" by (auto simp: fun_eq_iff)
    then have "coins_abs c' (LEAST m. coins_abs c' m \<noteq> None) \<noteq> None" by (rule LeastI_ex)
    then obtain y where y: "coins_abs c' (LEAST m. coins_abs c' m \<noteq> None) = Some y" by blast
    then have "y\<lparr>coin_out := coin_out x\<rparr> = x"
      using coins_abs_same_tx [OF assms(4)] c' by (auto split: if_splits)
    then show ?thesis using False y assms(3) by (simp add: restored_coin_def u CTxInUndo_of_def)
  qed
  then show ?thesis using d' assms(3) c' by auto
qed

end
