(* ===== verification/Compressor.thy ===== *)
theory Compressor
  imports Coins
begin

text \<open>
  The compact form of outputs in the coins database and the undo files (\<open>src/compressor.h\<close>,
  \<open>src/compressor.cpp\<close>): amounts as a code for digits and trailing zeros, the common scripts as
  20 or 32 bytes. An assertion is the value \<open>None\<close>. \<open>valid\<close> and \<open>decompress\<close> stand for
  \<open>CPubKey::IsFullyValid\<close> and \<open>CPubKey::Decompress\<close>, which call a library for curve points.
\<close>

lemma u32_neg_iff: "(a :: u32) <s 0 \<longleftrightarrow> 2 ^ 31 \<le> unat a"
proof -
  have "a <s 0 \<longleftrightarrow> bit a 31" using bit_last_iff [of a] by (simp add: word_sless_alt)
  also have "\<dots> \<longleftrightarrow> odd (unat a div 2 ^ 31)" 
  proof -
    have "bit (unat a) 31 \<longleftrightarrow> bit a 31" by (simp add: bit_unsigned_iff)
    then show ?thesis by (simp only: bit_iff_odd [of "unat a"])
  qed
  also have "\<dots> \<longleftrightarrow> 2 ^ 31 \<le> unat a"
  proof (cases "unat a < 2 ^ 31")
    case False
    have "unat a < 2 ^ 31 * 2" using unsigned_less [of a] by simp
    then have "unat a div 2 ^ 31 = 1" using False by (simp add: div_nat_eqI)
    then show ?thesis using False by simp
  qed simp
  finally show ?thesis .
qed

section \<open>Amounts\<close>

function compress_loop :: "u64 \<Rightarrow> nat \<Rightarrow> u64 \<times> nat" where
  "compress_loop n e = (if n mod 10 = 0 \<and> e < 9 then compress_loop (n div 10) (e + 1) else (n, e))"
  by pat_completeness auto
termination by (relation "measure (\<lambda>(n, e). 9 - e)") auto

declare compress_loop.simps [simp del]

definition CompressAmount :: "u64 \<Rightarrow> u64 option" where
  "CompressAmount n =
     (if n = 0 then Some 0
      else
        (case compress_loop n 0 of (n, e) \<Rightarrow>
          if e < 9 then
            (let d = n mod 10 in
             if 1 \<le> d \<and> d \<le> 9
             then (let n = n div 10 in Some (1 + (n * 9 + d - 1) * 10 + of_nat e))
             else None)
          else Some (1 + (n - 1) * 10 + 9)))"

fun times_ten :: "nat \<Rightarrow> u64 \<Rightarrow> u64" where
  "times_ten 0 n = n"
| "times_ten (Suc e) n = times_ten e (n * 10)"

definition DecompressAmount :: "u64 \<Rightarrow> u64" where
  "DecompressAmount x =
     (if x = 0 then 0
      else
        (let x = x - 1;
             e = unat (x mod 10);
             x = x div 10
         in times_ten e (if e < 9 then (let d = x mod 9 + 1; x = x div 9 in x * 10 + d) else x + 1)))"

text \<open>The amount a code stands for.\<close>

definition amount_of :: "nat \<Rightarrow> nat" where
  "amount_of x =
     (if x = 0 then 0
      else if (x - 1) mod 10 < 9
      then ((x - 1) div 10 div 9 * 10 + (x - 1) div 10 mod 9 + 1) * 10 ^ ((x - 1) mod 10)
      else ((x - 1) div 10 + 1) * 10 ^ 9)"

lemma times_ten_eq: "times_ten e n = n * 10 ^ e"
  by (induction e n rule: times_ten.induct) (simp_all add: mult.assoc)

lemma compress_loop_ok:
  assumes "compress_loop n e = (n', e')" and "e \<le> 9"
  shows "e \<le> e' \<and> e' \<le> 9 \<and> unat n = unat n' * 10 ^ (e' - e) \<and> (e' < 9 \<longrightarrow> unat n' mod 10 \<noteq> 0)"
  using assms
proof (induction n e rule: compress_loop.induct)
  case (1 n e)
  show ?case
  proof (cases "n mod 10 = 0 \<and> e < 9")
    case True
    then have "compress_loop (n div 10) (e + 1) = (n', e')"
      using 1(2) by (subst (asm) compress_loop.simps) simp
    then have ih: "e + 1 \<le> e'" "e' \<le> 9" "unat (n div 10) = unat n' * 10 ^ (e' - (e + 1))"
        "e' < 9 \<longrightarrow> unat n' mod 10 \<noteq> 0"
      using 1(1) [OF True] True by auto
    have "unat n mod 10 = 0" using True unat_mod_distrib [of n 10] by simp
    then have "unat n = unat (n div 10) * 10" using unat_div_distrib [of n 10] by (simp add: mod_0_imp_dvd)
    moreover have "e' - e = Suc (e' - (e + 1))" using ih by simp
    ultimately show ?thesis using ih by simp
  next
    case False
    then have "compress_loop n e = (n, e)" by (subst compress_loop.simps) (rule if_not_P)
    then have "n' = n" "e' = e" using 1(2) by simp_all
    moreover have "n mod 10 = 0 \<longleftrightarrow> unat n mod 10 = 0" using unat_mod_distrib [of n 10] by (simp add: unat_eq_0 [symmetric])
    ultimately show ?thesis using 1(3) False by auto
  qed
qed

text \<open>An amount has one mantissa and exponent, and these have one code.\<close>

definition amount_code :: "nat \<Rightarrow> nat \<Rightarrow> nat" where
  "amount_code m e = (if e < 9 then 1 + (m div 10 * 9 + m mod 10 - 1) * 10 + e else 10 * m)"

definition mantissa :: "nat \<Rightarrow> nat \<Rightarrow> bool" where
  "mantissa m e \<longleftrightarrow> m \<noteq> 0 \<and> e \<le> 9 \<and> (e < 9 \<longrightarrow> m mod 10 \<noteq> 0)"

lemma div_mod_digit: "b < k \<Longrightarrow> (b + k * a) div k = a \<and> (b + k * a) mod k = (b :: nat)"
  by simp

lemma digit_split: "0 < k \<Longrightarrow> \<exists>q r. x = r + k * q \<and> r < (k :: nat)"
  by (intro exI [of _ "x div k"] exI [of _ "x mod k"]) simp

lemma mantissa_unique:
  assumes "mantissa m e" and "mantissa m' e'" and "m * 10 ^ e = m' * 10 ^ e'"
  shows "m = m' \<and> e = e'"
proof -
  have less: "\<not> e < e'" if "mantissa m e" "mantissa m' e'" "m * 10 ^ e = m' * 10 ^ e'" for m e m' e' :: nat
  proof
    assume "e < e'"
    then obtain k where "e' = e + Suc k" using less_iff_Suc_add by auto
    then have "m = m' * 10 ^ k * 10" using that(3) by (simp add: power_add)
    then have "m mod 10 = 0" by simp
    then show False using that \<open>e < e'\<close> by (simp add: mantissa_def)
  qed
  have "e = e'" using less [OF assms] less [OF assms(2,1) assms(3) [symmetric]] by simp
  then show ?thesis using assms(3) by simp
qed

lemma amount_of_code:
  assumes "mantissa m e"
  shows "amount_of (amount_code m e) = m * 10 ^ e"
proof (cases "e < 9")
  case True
  obtain a b where m: "m = b + 10 * a" "b < 10" using digit_split [of 10 m] by auto
  then have d: "m div 10 = a" "m mod 10 = b" using div_mod_digit [of b 10 a] by auto
  then obtain k where k: "b = Suc k" using assms True by (cases b) (simp_all add: mantissa_def)
  have x: "amount_code m e = Suc (e + 10 * (k + 9 * a))" using True by (simp add: amount_code_def d k)
  have "amount_of (Suc (e + 10 * (k + 9 * a))) = (a * 10 + k + 1) * 10 ^ e"
    using True m(2) k div_mod_digit [of k 9 a] div_mod_digit [of e 10 "k + 9 * a"]
    by (simp add: amount_of_def)
  also have "a * 10 + k + 1 = m" by (simp add: m(1) k)
  finally show ?thesis unfolding x .
next
  case False
  then have "e = 9" "m \<noteq> 0" using assms by (simp_all add: mantissa_def)
  then obtain k where "m = Suc k" by (cases m) auto
  then show ?thesis using \<open>e = 9\<close> by (simp add: amount_of_def amount_code_def)
qed

lemma code_of_amount:
  assumes "x \<noteq> 0"
  obtains m e where "mantissa m e" and "x = amount_code m e"
proof -
  obtain y e where y: "x - 1 = e + 10 * y" "e < 10" using digit_split [of 10 "x - 1"] by auto
  show ?thesis
  proof (cases "e < 9")
    case True
    obtain q r where q: "y = r + 9 * q" "r < 9" using digit_split [of 9 y] by auto
    then have m: "(r + 1 + 10 * q) div 10 = q" "(r + 1 + 10 * q) mod 10 = r + 1"
      using div_mod_digit [of "r + 1" 10 q] by auto
    have "amount_code (r + 1 + 10 * q) e = 1 + (q * 9 + (r + 1) - 1) * 10 + e"
      unfolding amount_code_def m using True by simp
    then have "x = amount_code (r + 1 + 10 * q) e" using y q assms by simp
    moreover have "mantissa (r + 1 + 10 * q) e" using True m(2) unfolding mantissa_def by simp
    ultimately show ?thesis using that by blast
  next
    case False
    then show ?thesis using that [of "y + 1" 9] y assms by (simp add: mantissa_def amount_code_def)
  qed
qed

lemma amount_of_inject: "amount_of x = amount_of y \<longleftrightarrow> x = y"
proof
  assume eq: "amount_of x = amount_of y"
  have pos: "amount_of x \<noteq> 0" if "x \<noteq> 0" for x
    using that by (rule code_of_amount) (auto simp: amount_of_code mantissa_def)
  show "x = y"
  proof (cases "x = 0 \<or> y = 0")
    case True
    then show ?thesis using eq pos [of x] pos [of y] by (cases "x = 0"; cases "y = 0") (auto simp: amount_of_def [of 0])
  next
    case False
    obtain m e where x: "mantissa m e" "x = amount_code m e" using False code_of_amount by blast
    obtain m' e' where y: "mantissa m' e'" "y = amount_code m' e'" using False code_of_amount by blast
    show ?thesis using mantissa_unique [OF x(1) y(1)] eq by (simp add: x y amount_of_code)
  qed
qed simp

lemma unat_word: "n < 2 ^ 64 \<Longrightarrow> unat (of_nat n :: u64) = n"
  by (rule unat_of_nat_u64) simp

lemma unat_compressed:
  assumes "n \<noteq> 0" and "unat n \<le> 2 ^ 60"
  shows "\<exists>m e. mantissa m e \<and> unat n = m * 10 ^ e \<and> amount_code m e < 2 ^ 64 \<and>
    CompressAmount n = Some (of_nat (amount_code m e))"
proof -
  obtain n' e where l: "compress_loop n 0 = (n', e)" by (cases "compress_loop n 0") auto
  then have ok: "e \<le> 9" "unat n = unat n' * 10 ^ e" "e < 9 \<longrightarrow> unat n' mod 10 \<noteq> 0"
    using compress_loop_ok [OF l] by auto
  have "n' \<noteq> 0" using ok(2) assms(1) by (auto simp: unat_eq_0 [symmetric])
  then have man: "mantissa (unat n') e" using ok by (simp add: mantissa_def unat_eq_0)
  have "unat n' * 1 \<le> unat n' * 10 ^ e" by (rule mult_le_mono2) simp
  then have "unat n' \<le> 2 ^ 60" by (metis mult_1_right ok(2) assms(2) le_trans)
  moreover have "unat n' div 10 * 9 + unat n' mod 10 - 1 \<le> unat n'"
  proof -
    obtain q r where "unat n' = r + 10 * q" "r < 10" using digit_split [of 10 "unat n'"] by auto
    then show ?thesis using div_mod_digit [of r 10 q] by simp
  qed
  ultimately have small: "amount_code (unat n') e < 2 ^ 64"
    using ok(1) by (cases "e < 9") (simp_all add: amount_code_def del: One_nat_def)
  have d10: "unat (n' mod 10) = unat n' mod 10" "unat (n' div 10) = unat n' div 10"
    using unat_mod_distrib [of n' 10] unat_div_distrib [of n' 10] by simp_all
  have "CompressAmount n = Some (of_nat (amount_code (unat n') e))"
  proof (cases "e < 9")
    case True
    have "1 \<le> n' mod 10" "n' mod 10 \<le> 9"
      using ok(3) True d10(1) by (auto simp: word_le_nat_alt)
    moreover have "of_nat (unat n' div 10 * 9 + unat n' mod 10 - 1) = n' div 10 * 9 + n' mod 10 - 1"
      using ok(3) True by (simp add: of_nat_diff flip: d10)
    ultimately show ?thesis using True assms(1) l by (simp add: CompressAmount_def amount_code_def Let_def)
  next
    case False
    have "1 + (n' - 1) * 10 + 9 = 10 * n'" by (simp add: algebra_simps)
    then show ?thesis using False assms(1) l by (simp add: CompressAmount_def amount_code_def)
  qed
  then show ?thesis using man ok(2) small by blast
qed

lemma unat_decompressed:
  assumes "amount_of (unat x) < 2 ^ 64"
  shows "unat (DecompressAmount x) = amount_of (unat x)"
proof (cases "x = 0")
  case False
  define t where "t = (x - 1) mod 10"
  define y where "y = (x - 1) div 10"
  define q where "q = y div 9"
  define r where "r = y mod 9"
  have "unat (x - 1) = unat x - 1" using False by (simp add: unat_minus_one)
  then have d: "unat t = (unat x - 1) mod 10" "unat y = (unat x - 1) div 10"
    by (simp_all add: t_def y_def unat_mod_distrib unat_div_distrib)
  have qr: "unat q = unat y div 9" "unat r = unat y mod 9"
    by (simp_all add: q_def r_def unat_mod_distrib unat_div_distrib)
  have x: "unat x \<noteq> 0" using False by (simp add: unat_eq_0)
  let ?n = "if unat t < 9 then unat q * 10 + unat r + 1 else unat y + 1"
  have "DecompressAmount x = times_ten (unat t) (of_nat ?n)"
    using False by (simp add: DecompressAmount_def Let_def t_def y_def q_def r_def ac_simps)
  also have "\<dots> = of_nat (?n * 10 ^ unat t)" by (simp add: times_ten_eq)
  also have "?n * 10 ^ unat t = amount_of (unat x)"
  proof (cases "unat t < 9")
    case True
    then show ?thesis using x by (simp only: amount_of_def d qr if_P if_not_P if_False)
  next
    case False
    then have "unat t = 9" using d(1) mod_less_divisor [of 10 "unat x - 1"] by linarith
    then show ?thesis using x d by (simp add: amount_of_def)
  qed
  finally show ?thesis using unat_word [OF assms] by simp
qed (simp add: DecompressAmount_def amount_of_def)

text \<open>Every amount up to \<open>2 ^ 60\<close> has one code, and it is read back.\<close>

lemma CompressAmount_ok:
  assumes "unat n \<le> 2 ^ 60"
  shows "\<exists>x. CompressAmount n = Some x \<and> amount_of (unat x) = unat n \<and> DecompressAmount x = n"
proof (cases "n = 0")
  case True
  then show ?thesis by (simp add: CompressAmount_def DecompressAmount_def amount_of_def)
next
  case False
  from unat_compressed [OF this assms] obtain m e where
    me: "mantissa m e" "unat n = m * 10 ^ e" "amount_code m e < 2 ^ 64"
      "CompressAmount n = Some (of_nat (amount_code m e))" by blast
  let ?x = "of_nat (amount_code m e) :: u64"
  have a: "amount_of (unat ?x) = unat n" using me unat_word by (simp add: amount_of_code)
  then have "DecompressAmount ?x = n" using unat_decompressed [of ?x] assms by (simp add: word_unat_eq_iff)
  then show ?thesis using a me(4) by blast
qed

section \<open>Scripts\<close>

text \<open>\<open>verify\<close> and \<open>uncompress\<close> are the library: whether the bytes are a point of the curve, and
  the point in 65 bytes.\<close>

definition CPubKey_IsFullyValid :: "(valtype \<Rightarrow> bool) \<Rightarrow> CPubKey \<Rightarrow> bool" where
  "CPubKey_IsFullyValid verify vch \<longleftrightarrow>
     (if \<not> CPubKey_IsValid vch then False
      else if \<not> verify (take (CPubKey_size vch) vch) then False else True)"

definition CPubKey_Decompress ::
    "(valtype \<Rightarrow> bool) \<Rightarrow> (valtype \<Rightarrow> valtype) \<Rightarrow> CPubKey \<Rightarrow> bool \<times> CPubKey" where
  "CPubKey_Decompress verify uncompress vch =
     (if \<not> CPubKey_IsValid vch then (False, vch)
      else if \<not> verify (take (CPubKey_size vch) vch) then (False, vch)
      else (True, CPubKey_Set vch (uncompress (take (CPubKey_size vch) vch))))"

definition nSpecialScripts :: u32 where
  "nSpecialScripts = 6"

definition IsToKeyID :: "byte list \<Rightarrow> valtype option" where
  "IsToKeyID script =
     (if length script = 25 \<and> script ! 0 = OP_DUP \<and> script ! 1 = OP_HASH160 \<and> script ! 2 = 20 \<and>
        script ! 23 = OP_EQUALVERIFY \<and> script ! 24 = OP_CHECKSIG
      then Some (take 20 (drop 3 script)) else None)"

definition IsToScriptID :: "byte list \<Rightarrow> valtype option" where
  "IsToScriptID script =
     (if length script = 23 \<and> script ! 0 = OP_HASH160 \<and> script ! 1 = 20 \<and> script ! 22 = OP_EQUAL
      then Some (take 20 (drop 2 script)) else None)"

text \<open>\<open>buf\<close> is what the memory of the local \<open>CPubKey\<close> held.\<close>

definition IsToPubKey :: "(valtype \<Rightarrow> bool) \<Rightarrow> CPubKey \<Rightarrow> byte list \<Rightarrow> CPubKey option" where
  "IsToPubKey verify buf script =
     (if length script = 35 \<and> script ! 0 = 33 \<and> script ! 34 = OP_CHECKSIG \<and> (script ! 1 = 2 \<or> script ! 1 = 3)
      then Some (CPubKey_Set buf (take 33 (drop 1 script)))
      else if length script = 67 \<and> script ! 0 = 65 \<and> script ! 66 = OP_CHECKSIG \<and> script ! 1 = 4
      then (let pubkey = CPubKey_Set buf (take 65 (drop 1 script))
            in if CPubKey_IsFullyValid verify pubkey then Some pubkey else None)
      else None)"

definition Compress :: "(valtype \<Rightarrow> bool) \<Rightarrow> CPubKey \<Rightarrow> byte list \<Rightarrow> valtype option" where
  "Compress verify buf script =
     (case IsToKeyID script of
        Some keyID \<Rightarrow> Some (0x00 # keyID)
      | None \<Rightarrow>
          (case IsToScriptID script of
             Some scriptID \<Rightarrow> Some (0x01 # scriptID)
           | None \<Rightarrow>
               (case IsToPubKey verify (CPubKey_Invalidate buf) script of
                  Some pubkey \<Rightarrow>
                    if pubkey ! 0 = 0x02 \<or> pubkey ! 0 = 0x03 then Some (pubkey ! 0 # take 32 (drop 1 pubkey))
                    else if pubkey ! 0 = 0x04
                    then Some ((0x04 OR (pubkey ! 64 AND 0x01)) # take 32 (drop 1 pubkey))
                    else None
                | None \<Rightarrow> None)))"

definition GetSpecialSize :: "u32 \<Rightarrow> nat" where
  "GetSpecialSize nSize =
     (if nSize = 0 \<or> nSize = 1 then 20
      else if nSize = 2 \<or> nSize = 3 \<or> nSize = 4 \<or> nSize = 5 then 32 else 0)"

definition Decompress ::
    "(valtype \<Rightarrow> bool) \<Rightarrow> (valtype \<Rightarrow> valtype) \<Rightarrow> CPubKey \<Rightarrow> u32 \<Rightarrow> valtype \<Rightarrow> byte list \<Rightarrow>
     ser_error + bool \<times> byte list" where
  "Decompress verify uncompress buf nSize x script =
     (if nSize = 0x00 then
        Inr (True, [OP_DUP, OP_HASH160, 20] @ take 20 x @ [OP_EQUALVERIFY, OP_CHECKSIG])
      else if nSize = 0x01 then Inr (True, [OP_HASH160, 20] @ take 20 x @ [OP_EQUAL])
      else if nSize = 0x02 \<or> nSize = 0x03 then
        Inr (True, [33, ucast nSize] @ take 32 x @ [OP_CHECKSIG])
      else if nSize = 0x04 \<or> nSize = 0x05 then
        (case CPubKey_Decompress verify uncompress (CPubKey_Set buf (ucast (nSize - 2) # take 32 x)) of
           (False, pubkey) \<Rightarrow> Inr (False, script)
         | (True, pubkey) \<Rightarrow>
             if CPubKey_size pubkey \<noteq> 65 then Inl Assertion_failed
             else Inr (True, [65] @ take 65 pubkey @ [OP_CHECKSIG]))
      else Inr (False, script))"

definition ser_script :: "(valtype \<Rightarrow> bool) \<Rightarrow> CPubKey \<Rightarrow> byte list \<Rightarrow> byte list" where
  "ser_script verify buf script =
     (case Compress verify buf script of
        Some compr \<Rightarrow> compr
      | None \<Rightarrow>
          (let nSize = of_nat (length script) + nSpecialScripts in WriteVarInt_u32 nSize @ script))"

definition unser_script ::
    "(valtype \<Rightarrow> bool) \<Rightarrow> (valtype \<Rightarrow> valtype) \<Rightarrow> CPubKey \<Rightarrow> byte list \<Rightarrow> byte list reader" where
  "unser_script verify uncompress buf script s =
     and_then (ReadVarInt_u32 s) (\<lambda>(nSize, s).
       if nSize < nSpecialScripts then
         and_then (stream_read (GetSpecialSize nSize) s) (\<lambda>(vch, s).
         and_then (Decompress verify uncompress buf nSize vch script) (\<lambda>(_, script).
         Inr (script, s)))
       else
         (let nSize = nSize - nSpecialScripts
          in if unat nSize > MAX_SCRIPT_SIZE then
               and_then (stream_ignore nSize s) (\<lambda>(_, s). Inr (script @ [OP_RETURN], s))
             else stream_read (unat nSize) s))"

definition size_script :: "(valtype \<Rightarrow> bool) \<Rightarrow> CPubKey \<Rightarrow> byte list \<Rightarrow> nat" where
  "size_script verify buf script =
     (case Compress verify buf script of
        Some compr \<Rightarrow> length compr
      | None \<Rightarrow> length script + GetSizeOfVarInt (ucast (of_nat (length script) + nSpecialScripts :: u32)))"

section \<open>Outputs\<close>

definition ser_CTxOutCompressor :: "(valtype \<Rightarrow> bool) \<Rightarrow> CPubKey \<Rightarrow> CTxOut \<Rightarrow> byte list option" where
  "ser_CTxOutCompressor verify buf txout =
     (case CompressAmount (nValue txout) of
        None \<Rightarrow> None
      | Some nVal \<Rightarrow> Some (WriteVarInt nVal @ ser_script verify buf (scriptPubKey txout)))"

definition unser_CTxOutCompressor ::
    "(valtype \<Rightarrow> bool) \<Rightarrow> (valtype \<Rightarrow> valtype) \<Rightarrow> CPubKey \<Rightarrow> CTxOut \<Rightarrow> CTxOut reader" where
  "unser_CTxOutCompressor verify uncompress buf txout s =
     and_then (ReadVarInt s) (\<lambda>(nVal, s).
     and_then (unser_script verify uncompress buf (scriptPubKey txout) s) (\<lambda>(script, s).
     Inr (txout\<lparr>nValue := DecompressAmount nVal, scriptPubKey := script\<rparr>, s)))"

section \<open>What is written is read back\<close>

text \<open>What the library documents of points in 33 and in 65 bytes.\<close>

definition curve_library :: "(valtype \<Rightarrow> bool) \<Rightarrow> (valtype \<Rightarrow> valtype) \<Rightarrow> bool" where
  "curve_library verify uncompress \<longleftrightarrow>
     (\<forall>x y. length x = 32 \<longrightarrow> length y = 32 \<longrightarrow> verify (4 # x @ y) \<longrightarrow>
       verify ((2 + (last y AND 1)) # x) \<and> uncompress ((2 + (last y AND 1)) # x) = 4 # x @ y)"

lemma length_Compress: "Compress verify buf script = Some out \<Longrightarrow> length script \<le> 67"
  by (auto simp: Compress_def IsToKeyID_def IsToScriptID_def IsToPubKey_def Let_def
      split: option.splits if_splits)

lemma list_eq_slices:
  assumes "length xs = i + n + j"
  shows "xs = take i xs @ take n (drop i xs) @ drop (i + n) xs"
  by (metis append_take_drop_id drop_drop add.commute)

lemma IsToKeyID_iff:
  "IsToKeyID script = Some h \<longleftrightarrow>
     length h = 20 \<and> script = [OP_DUP, OP_HASH160, 20] @ h @ [OP_EQUALVERIFY, OP_CHECKSIG]"
proof
  assume a: "IsToKeyID script = Some h"
  then have l: "length script = 3 + 20 + 2" by (auto simp: IsToKeyID_def split: if_splits)
  have "take 3 script = [script ! 0, script ! 1, script ! 2]" "drop 23 script = [script ! 23, script ! 24]"
    using l by (auto simp: list_eq_iff_nth_eq nth_Cons numeral_2_eq_2 split: nat.splits)
  then show "length h = 20 \<and> script = [OP_DUP, OP_HASH160, 20] @ h @ [OP_EQUALVERIFY, OP_CHECKSIG]"
    using a l list_eq_slices [OF l] by (auto simp: IsToKeyID_def split: if_splits)
qed (auto simp: IsToKeyID_def nth_append)


lemma IsToScriptID_iff:
  "IsToScriptID script = Some h \<longleftrightarrow> length h = 20 \<and> script = [OP_HASH160, 20] @ h @ [OP_EQUAL]"
proof
  assume a: "IsToScriptID script = Some h"
  then have l: "length script = 2 + 20 + 1" by (auto simp: IsToScriptID_def split: if_splits)
  have "take 2 script = [script ! 0, script ! 1]" "drop 22 script = [script ! 22]"
    using l by (auto simp: list_eq_iff_nth_eq nth_Cons numeral_2_eq_2 split: nat.splits)
  then show "length h = 20 \<and> script = [OP_HASH160, 20] @ h @ [OP_EQUAL]"
    using a l list_eq_slices [OF l] by (auto simp: IsToScriptID_def split: if_splits)
qed (auto simp: IsToScriptID_def nth_append)

lemma key_slices:
  assumes "length script = n + 2"
  shows "script = [script ! 0] @ take n (drop 1 script) @ [script ! (n + 1)]"
    and "take n (drop 1 script) ! 0 = (if n = 0 then take n (drop 1 script) ! 0 else script ! 1)"
proof -
  have l: "length script = 1 + n + 1" using assms by simp
  have "take 1 script = [script ! 0]" "drop (1 + n) script = [script ! (n + 1)]"
    using l by (auto simp: list_eq_iff_nth_eq nth_Cons split: nat.splits)
  then show "script = [script ! 0] @ take n (drop 1 script) @ [script ! (n + 1)]"
    using list_eq_slices [OF l] by simp
qed (use assms in simp)

lemma Set_shaped:
  assumes "length buf = 65" and "key_shaped key"
  shows "CPubKey_Set buf key = key @ drop (length key) buf"
  using assms by (auto simp: CPubKey_Set_def key_shaped_def memcpy_at_def Let_def)

lemma Suc_length: "length xs = Suc n \<Longrightarrow> \<exists>x ys. xs = x # ys \<and> length ys = n"
  by (cases xs) auto

lemma IsToPubKey_cases:
  assumes "IsToPubKey verify buf script = Some pubkey" and "length buf = 65"
  obtains h x where "h = 2 \<or> h = 3" and "length x = 32" and "script = [33, h] @ x @ [OP_CHECKSIG]"
      and "pubkey = (h # x) @ drop 33 buf"
    | x y where "length x = 32" and "length y = 32" and "verify (4 # x @ y)"
      and "script = [65, 4] @ x @ y @ [OP_CHECKSIG]" and "pubkey = 4 # x @ y"
proof (cases "length script = 35 \<and> script ! 0 = 33 \<and> script ! 34 = OP_CHECKSIG \<and> (script ! 1 = 2 \<or> script ! 1 = 3)")
  case True
  let ?key = "take 33 (drop 1 script)"
  have "length ?key = Suc 32" using True by simp
  then obtain h x where hx: "?key = h # x" "length x = 32" by (metis length_Suc_conv)
  have s: "script = [33] @ ?key @ [OP_CHECKSIG]" "?key ! 0 = script ! 1"
    using key_slices [of script 33] True by auto
  then have h: "h = 2 \<or> h = 3" using True hx by simp
  then have "key_shaped ?key" using hx by (auto simp: key_shaped_def GetLen_def)
  then have "pubkey = ?key @ drop 33 buf" using assms True Set_shaped [of buf ?key] by (simp add: IsToPubKey_def)
  then show ?thesis using that(1) [OF h hx(2)] s(1) hx by simp
next
  case False
  let ?key = "take 65 (drop 1 script)"
  have c: "length script = 67" "script ! 0 = 65" "script ! 66 = OP_CHECKSIG" "script ! 1 = 4"
    "CPubKey_IsFullyValid verify (CPubKey_Set buf ?key)" "pubkey = CPubKey_Set buf ?key"
    using assms(1) False by (auto simp: IsToPubKey_def Let_def split: if_splits)
  have s: "script = [65] @ ?key @ [OP_CHECKSIG]" "?key ! 0 = 4"
    using key_slices [of script 65] c(1-4) by auto
  have "length ?key = Suc 64" using c(1) by simp
  then obtain h xy where "?key = h # xy" "length xy = 64" using Suc_length [of ?key 64] by blast
  with s(2) have xy: "?key = 4 # xy" "length xy = 64" by (metis nth_Cons_0)+
  have k: "key_shaped ?key" using xy by (simp add: key_shaped_def GetLen_def)
  then have p: "pubkey = ?key" using Set_shaped [OF assms(2) k] c(1,6) assms(2) by simp
  have "verify ?key" using c(5,6) p xy
    by (auto simp: CPubKey_IsFullyValid_def CPubKey_size_def GetLen_def split: if_splits)
  then show ?thesis
    using that(2) [of "take 32 xy" "drop 32 xy"] xy s(1) p by simp
qed


text \<open>The first byte of a special script is a \<open>VARINT\<close> of one digit.\<close>

lemma ReadVarInt_u32_byte: "b < 0x80 \<Longrightarrow> ReadVarInt_u32 (b # s) = Inr (ucast b, s)"
proof -
  assume b: "b < 0x80"
  then have "unat b < 2 ^ 7" by (simp add: word_less_nat_alt)
  then have t: "take_bit 7 b = b" by (simp add: word_unat_eq_iff unsigned_take_bit_eq take_bit_nat_eq_self)
  then have "b AND 0x7F = b" by (simp add: and_0x7f)
  moreover have "\<not> bit b 7" using t by (metis bit_take_bit_iff less_irrefl)
  ultimately show ?thesis by (simp add: ReadVarInt_u32_def Let_def and_0x80_iff)
qed

lemma Decompress_point:
  assumes "curve_library verify uncompress" and "length buf = 65"
    and "length x = 32" and "length y = 32" and "verify (4 # x @ y)"
  shows "unser_script verify uncompress buf old (((4 OR (last y AND 1)) # x) @ r) =
    Inr ([65, 4] @ x @ y @ [OP_CHECKSIG], r)"
proof -
  let ?p = "last y AND 1"
  have "?p = 0 \<or> ?p = 1" by (simp add: and_one_eq mod_2_eq_odd)
  then have p: "4 OR ?p < 0x80" "(ucast (4 OR ?p) :: u32) = 4 \<or> (ucast (4 OR ?p) :: u32) = 5"
    "(ucast ((ucast (4 OR ?p) :: u32) - 2) :: byte) = 2 + ?p" "2 + ?p = 2 \<or> 2 + ?p = 3"
    by auto
  let ?key = "(2 + ?p) # x"
  have lib: "verify ?key" "uncompress ?key = 4 # x @ y"
    using assms unfolding curve_library_def by blast+
  have k: "key_shaped ?key" "key_shaped (4 # x @ y)"
    using assms(3,4) p(4) by (auto simp: key_shaped_def GetLen_def)
  have s: "CPubKey_Set buf ?key = ?key @ drop 33 buf" using Set_shaped [OF assms(2) k(1)] assms(3) by simp
  have sz: "CPubKey_size (?key @ drop 33 buf) = 33" using p(4) by (auto simp: CPubKey_size_def GetLen_def)
  have t: "take 33 (?key @ drop 33 buf) = ?key" using assms(3) by simp
  have "CPubKey_Set (?key @ drop 33 buf) (4 # x @ y) = 4 # x @ y"
    using Set_shaped [of "?key @ drop 33 buf", OF _ k(2)] assms(2-4) by simp
  then have d: "CPubKey_Decompress verify uncompress (CPubKey_Set buf ?key) = (True, 4 # x @ y)"
    unfolding s CPubKey_Decompress_def CPubKey_IsValid_def sz t using lib by simp
  have "Decompress verify uncompress buf (ucast (4 OR ?p)) x old = Inr (True, [65, 4] @ x @ y @ [OP_CHECKSIG])"
    using p(2) d assms(3,4) unfolding Decompress_def p(3) by (auto simp: CPubKey_size_def GetLen_def)
  then show ?thesis using p(1,2) assms(3)
    by (auto simp: unser_script_def ReadVarInt_u32_byte nSpecialScripts_def GetSpecialSize_def)
qed

lemma Compress_read:
  assumes "curve_library verify uncompress" and "length buf = 65" and "length buf' = 65"
    and "Compress verify buf script = Some out"
  shows "unser_script verify uncompress buf' old (out @ r) = Inr (script, r)"
proof -
  have b: "length (CPubKey_Invalidate buf) = 65" using assms(2) by (simp add: CPubKey_Invalidate_def)
  consider (key) h where "IsToKeyID script = Some h" "out = 0 # h"
    | (script) h where "IsToScriptID script = Some h" "out = 1 # h"
    | (pub) pubkey where "IsToPubKey verify (CPubKey_Invalidate buf) script = Some pubkey"
      "out = (if pubkey ! 0 = 2 \<or> pubkey ! 0 = 3 then pubkey ! 0 else 4 OR (pubkey ! 64 AND 1)) # take 32 (drop 1 pubkey)"
    using assms(4) by (auto simp: Compress_def split: option.splits if_splits)
  then show ?thesis
  proof cases
    case key
    then have h: "length h = 20" "script = [OP_DUP, OP_HASH160, 20] @ h @ [OP_EQUALVERIFY, OP_CHECKSIG]"
      by (simp_all add: IsToKeyID_iff)
    then show ?thesis using key(2)
      by (simp add: unser_script_def ReadVarInt_u32_byte nSpecialScripts_def GetSpecialSize_def Decompress_def)
  next
    case script
    then have h: "length h = 20" "script = [OP_HASH160, 20] @ h @ [OP_EQUAL]"
      by (simp_all add: IsToScriptID_iff)
    then show ?thesis using script(2)
      by (simp add: unser_script_def ReadVarInt_u32_byte nSpecialScripts_def GetSpecialSize_def Decompress_def)
  next
    case pub
    show ?thesis
    proof (rule IsToPubKey_cases [OF pub(1) b], goal_cases)
      case (1 h x)
      then have "out = h # x" using pub(2) by auto
      then show ?case using 1
        by (auto simp: unser_script_def ReadVarInt_u32_byte nSpecialScripts_def GetSpecialSize_def Decompress_def)
    next
      case (2 x y)
      moreover from this have "y \<noteq> []" by auto
      ultimately have "pubkey ! 64 = last y" by (simp add: last_conv_nth nth_append)
      then have out: "out = (4 OR (last y AND 1)) # x" using pub(2) 2 by simp
      show ?case unfolding out using Decompress_point [OF assms(1,3) 2(1-3)] 2(4) by simp
    qed
  qed
qed

text \<open>A script longer than the interpreter takes is not kept: what is read cannot be spent either.\<close>

lemma unser_ser_script:
  assumes "curve_library verify uncompress" and "length buf = 65" and "length buf' = 65"
    and "length script < 2 ^ 31"
  shows "unser_script verify uncompress buf' [] (ser_script verify buf script @ r) =
    Inr (if length script > MAX_SCRIPT_SIZE then [OP_RETURN] else script, r)"
proof (cases "Compress verify buf script")
  case None
  let ?n = "of_nat (length script) :: u32"
  have n: "unat ?n = length script" using assms(4) by (intro unat_of_nat_u32) simp
  have "unat (?n + 6) = length script + 6"
    using assms(4) n by (subst unat_add_lem [THEN iffD1]) auto
  then have "\<not> ?n + nSpecialScripts < nSpecialScripts"
    by (simp add: word_less_nat_alt nSpecialScripts_def)
  moreover have "\<not> ?n <s 0" using assms(4) n by (simp add: u32_neg_iff)
  ultimately show ?thesis
    using None n by (simp add: ser_script_def unser_script_def Let_def stream_ignore_def)
next
  case (Some out)
  then have "length script \<le> MAX_SCRIPT_SIZE" using length_Compress [OF Some] by (simp add: MAX_SCRIPT_SIZE_def)
  then show ?thesis using Compress_read [OF assms(1-3) Some] Some by (simp add: ser_script_def)
qed

lemma size_script: "size_script verify buf script = length (ser_script verify buf script)"
  by (simp add: size_script_def ser_script_def length_WriteVarInt WriteVarInt_u32_def Let_def split: option.split)

text \<open>The rounds of obfuscation are kept in memory only, where \<open>-10\<close> stands for unknown.\<close>

definition storable :: "CTxOut \<Rightarrow> bool" where
  "storable txout \<longleftrightarrow> unat (nValue txout) \<le> 2 ^ 60 \<and> length (scriptPubKey txout) \<le> MAX_SCRIPT_SIZE \<and>
     nRounds txout = -10"

lemma unser_ser_CTxOut:
  assumes "curve_library verify uncompress" and "length buf = 65" and "length buf' = 65" and "storable txout"
  shows "\<exists>x. ser_CTxOutCompressor verify buf txout = Some x \<and>
    unser_CTxOutCompressor verify uncompress buf' CTxOut_Null (x @ r) = Inr (txout, r)"
proof -
  obtain v where v: "CompressAmount (nValue txout) = Some v" "DecompressAmount v = nValue txout"
    using CompressAmount_ok assms(4) unfolding storable_def by blast
  have l: "length (scriptPubKey txout) < 2 ^ 31" "\<not> length (scriptPubKey txout) > MAX_SCRIPT_SIZE"
    using assms(4) by (auto simp: storable_def MAX_SCRIPT_SIZE_def)
  have "\<lparr>nValue = nValue txout, scriptPubKey = scriptPubKey txout, nRounds = -10\<rparr> = txout"
    using assms(4) by (cases txout) (simp add: storable_def)
  then show ?thesis
    using v unser_ser_script [OF assms(1-3) l(1)] l(2)
    by (simp add: ser_CTxOutCompressor_def unser_CTxOutCompressor_def ReadVarInt_WriteVarInt CTxOut_Null_def)
qed

section \<open>Consequences\<close>

text \<open>
  CompressAmount never fails its assertion on an amount up to 2^60, DecompressAmount gives the
  amount back, and no other code stands for it.
\<close>

lemma compress_amount:
  assumes "unat n \<le> 2 ^ 60"
  shows "\<exists>x. CompressAmount n = Some x \<and> DecompressAmount x = n \<and>
    (\<forall>y. amount_of (unat y) = unat n \<longleftrightarrow> y = x)"
proof -
  obtain x where x: "CompressAmount n = Some x" "amount_of (unat x) = unat n" "DecompressAmount x = n"
    using CompressAmount_ok [OF assms] by blast
  then have "amount_of (unat y) = unat n \<longleftrightarrow> y = x" for y
    by (metis amount_of_inject word_unat_eq_iff)
  then show ?thesis using x by blast
qed

end
