(* ===== verification/CoinsSer.thy ===== *)
theory CoinsSer
  imports Compressor
begin

text \<open>
  How unspent outputs and undo data are stored (the serialization of \<open>CCoins\<close> in \<open>src/coins.h\<close>,
  \<open>CCoins::CalcMaskSize\<close> in \<open>src/coins.cpp\<close>, \<open>CTxInUndo\<close> in \<open>src/undo.h\<close>): a code for the flags
  and the number of bitmask bytes that are not zero, the bitmask of the outputs that are left, the
  compressed outputs and the height. An assertion is the value \<open>None\<close>.
\<close>

section \<open>Unspent outputs\<close>

definition mask_bit :: "CTxOut list \<Rightarrow> nat \<Rightarrow> nat \<Rightarrow> bool" where
  "mask_bit vs b i \<longleftrightarrow> 2 + b * 8 + i < length vs \<and> \<not> CTxOut_IsNull (vs ! (2 + b * 8 + i))"

function mask_loop :: "CTxOut list \<Rightarrow> nat \<Rightarrow> nat \<Rightarrow> nat \<Rightarrow> nat \<times> nat" where
  "mask_loop vs b nLastUsedByte nNonzeroBytes =
     (if 2 + b * 8 < length vs then
        (let fZero = \<not> list_ex (mask_bit vs b) [0..<8]
         in if \<not> fZero then mask_loop vs (b + 1) (b + 1) (nNonzeroBytes + 1)
            else mask_loop vs (b + 1) nLastUsedByte nNonzeroBytes)
      else (nLastUsedByte, nNonzeroBytes))"
  by pat_completeness auto
termination by (relation "measure (\<lambda>(vs, b, _). length vs - b)") auto

declare mask_loop.simps [simp del]

definition CalcMaskSize :: "CCoins \<Rightarrow> nat \<times> nat" where
  "CalcMaskSize c = mask_loop (cc_vout c) 0 0 0"

definition mask_byte :: "CTxOut list \<Rightarrow> nat \<Rightarrow> byte" where
  "mask_byte vs b = foldl (\<lambda>chAvail i. if mask_bit vs b i then chAvail OR push_bit i 1 else chAvail) 0 [0..<8]"

fun ser_outs :: "(valtype \<Rightarrow> bool) \<Rightarrow> CPubKey \<Rightarrow> CTxOut list \<Rightarrow> byte list option" where
  "ser_outs verify buf [] = Some []"
| "ser_outs verify buf (txout # vs) =
     (if CTxOut_IsNull txout then ser_outs verify buf vs
      else
        (case ser_CTxOutCompressor verify buf txout of
           None \<Rightarrow> None
         | Some x \<Rightarrow> map_option ((@) x) (ser_outs verify buf vs)))"

definition has_output :: "CCoins \<Rightarrow> nat \<Rightarrow> bool" where
  "has_output c i \<longleftrightarrow> length (cc_vout c) > i \<and> \<not> CTxOut_IsNull (cc_vout c ! i)"

definition header_code :: "CCoins \<Rightarrow> nat \<Rightarrow> u32" where
  "header_code c nMaskCode =
     (let fFirst = has_output c 0; fSecond = has_output c 1
      in 16 * (of_nat nMaskCode - (if fFirst \<or> fSecond then 0 else 1)) + (if cc_fCoinBase c then 1 else 0) +
         (if cc_fCoinStake c then 2 else 0) + (if fFirst then 4 else 0) + (if fSecond then 8 else 0))"

definition ser_CCoins :: "(valtype \<Rightarrow> bool) \<Rightarrow> CPubKey \<Rightarrow> CCoins \<Rightarrow> byte list option" where
  "ser_CCoins verify buf c =
     (case CalcMaskSize c of (nMaskSize, nMaskCode) \<Rightarrow>
       if \<not> (has_output c 0 \<or> has_output c 1 \<or> nMaskCode \<noteq> 0) then None
       else map_option (\<lambda>outs.
         WriteVarInt_int (cc_nVersion c) @ WriteVarInt_u32 (header_code c nMaskCode) @
         map (mask_byte (cc_vout c)) [0..<nMaskSize] @ outs @ WriteVarInt_int (cc_nHeight c))
         (ser_outs verify buf (cc_vout c)))"

definition mask_bools :: "byte \<Rightarrow> bool list" where
  "mask_bools chAvail = map (\<lambda>p. chAvail AND push_bit p 1 \<noteq> 0) [0..<8]"

fun read_mask :: "u32 \<Rightarrow> bool list \<Rightarrow> bool list reader" where
  "read_mask nMaskCode vAvail [] = (if nMaskCode > 0 then Inl End_of_data else Inr (vAvail, []))"
| "read_mask nMaskCode vAvail (chAvail # s) =
     (if nMaskCode > 0
      then read_mask (if chAvail \<noteq> 0 then nMaskCode - 1 else nMaskCode) (vAvail @ mask_bools chAvail) s
      else Inr (vAvail, chAvail # s))"

fun read_outs ::
    "(valtype \<Rightarrow> bool) \<Rightarrow> (valtype \<Rightarrow> valtype) \<Rightarrow> CPubKey \<Rightarrow> bool list \<Rightarrow> CTxOut list reader" where
  "read_outs verify uncompress buf [] s = Inr ([], s)"
| "read_outs verify uncompress buf (avail # vAvail) s =
     and_then (if avail then unser_CTxOutCompressor verify uncompress buf CTxOut_Null s
               else Inr (CTxOut_Null, s)) (\<lambda>(txout, s).
     and_then (read_outs verify uncompress buf vAvail s) (\<lambda>(vs, s). Inr (txout # vs, s)))"

definition unser_CCoins ::
    "(valtype \<Rightarrow> bool) \<Rightarrow> (valtype \<Rightarrow> valtype) \<Rightarrow> CPubKey \<Rightarrow> CCoins reader" where
  "unser_CCoins verify uncompress buf s =
     and_then (ReadVarInt_u32 s) (\<lambda>(ver, s).
     and_then (ReadVarInt_u32 s) (\<lambda>(nCode, s).
       (let nMaskCode = nCode div 16 + (if nCode AND 12 \<noteq> 0 then 0 else 1)
        in and_then (read_mask nMaskCode [nCode AND 4 \<noteq> 0, nCode AND 8 \<noteq> 0] s) (\<lambda>(vAvail, s).
           and_then (read_outs verify uncompress buf vAvail s) (\<lambda>(vs, s).
           and_then (ReadVarInt_u32 s) (\<lambda>(height, s).
           Inr (CCoins_Cleanup \<lparr>cc_fCoinBase = nCode AND 1 \<noteq> 0, cc_fCoinStake = nCode AND 2 \<noteq> 0,
             cc_vout = vs, cc_nHeight = height, cc_nVersion = ver\<rparr>, s)))))))"

section \<open>Undo data\<close>

definition undo_code :: "CTxInUndo \<Rightarrow> u32" where
  "undo_code undo = un_nHeight undo * 4 + (if un_fCoinBase undo then 2 else 0) + (if un_fCoinStake undo then 1 else 0)"

definition ser_CTxInUndo :: "(valtype \<Rightarrow> bool) \<Rightarrow> CPubKey \<Rightarrow> CTxInUndo \<Rightarrow> byte list option" where
  "ser_CTxInUndo verify buf undo =
     map_option (\<lambda>x. WriteVarInt_u32 (undo_code undo) @
         (if un_nHeight undo > 0 then WriteVarInt_int (un_nVersion undo) else []) @ x)
       (ser_CTxOutCompressor verify buf (un_txout undo))"

definition unser_CTxInUndo ::
    "(valtype \<Rightarrow> bool) \<Rightarrow> (valtype \<Rightarrow> valtype) \<Rightarrow> CPubKey \<Rightarrow> CTxInUndo \<Rightarrow> CTxInUndo reader" where
  "unser_CTxInUndo verify uncompress buf undo s =
     and_then (ReadVarInt_u32 s) (\<lambda>(nCode, s).
       (let undo = undo\<lparr>un_nHeight := drop_bit 2 nCode, un_fCoinBase := nCode AND 2 \<noteq> 0,
              un_fCoinStake := nCode AND 1 \<noteq> 0\<rparr>
        in and_then (if un_nHeight undo > 0 then ReadVarInt_u32 s else Inr (un_nVersion undo, s)) (\<lambda>(ver, s).
           and_then (unser_CTxOutCompressor verify uncompress buf (un_txout undo) s) (\<lambda>(txout, s).
           Inr (undo\<lparr>un_nVersion := ver, un_txout := txout\<rparr>, s)))))"

section \<open>The bitmask\<close>

lemma mask_bools_nth: "p < 8 \<Longrightarrow> mask_bools ch ! p = bit ch p"
  by (simp add: mask_bools_def and_exp_eq_0_iff_not_bit push_bit_of_1)

lemma bit_mask_byte: "bit (mask_byte vs b) p \<longleftrightarrow> p < 8 \<and> mask_bit vs b p"
proof -
  have "bit (foldl (\<lambda>ch i. if mask_bit vs b i then ch OR push_bit i 1 else ch) a is) p \<longleftrightarrow>
      bit a p \<or> p \<in> set is \<and> mask_bit vs b p \<and> p < 8" for a :: byte and "is" :: "nat list"
    by (induction "is" arbitrary: a) (auto simp: bit_simps)
  from this [of 0 "[0..<8]"] show ?thesis by (auto simp: mask_byte_def)
qed

lemma mask_bools_byte: "mask_bools (mask_byte vs b) = map (mask_bit vs b) [0..<8]"
proof (rule nth_equalityI)
  fix p assume "p < length (mask_bools (mask_byte vs b))"
  then have "p < 8" by (simp add: mask_bools_def)
  then show "mask_bools (mask_byte vs b) ! p = map (mask_bit vs b) [0..<8] ! p"
    by (simp add: mask_bools_nth bit_mask_byte)
qed (simp add: mask_bools_def)

lemma mask_byte_zero: "mask_byte vs b = 0 \<longleftrightarrow> \<not> list_ex (mask_bit vs b) [0..<8]"
proof -
  have "mask_byte vs b = 0 \<longleftrightarrow> (\<forall>p. \<not> bit (mask_byte vs b) p)" by (auto intro: bit_word_eqI)
  then show ?thesis by (auto simp: bit_mask_byte list_ex_iff)
qed

lemma read_mask_ok:
  assumes "bs = [] \<or> last bs \<noteq> 0" and "length bs < 2 ^ 32"
  shows "read_mask (of_nat (length (filter (\<lambda>b. b \<noteq> 0) bs))) v (bs @ r) = Inr (v @ concat (map mask_bools bs), r)"
  using assms
proof (induction bs arbitrary: v)
  case Nil
  then show ?case by (cases r) auto
next
  case (Cons b bs)
  let ?n = "length (filter (\<lambda>b. b \<noteq> 0) (b # bs))"
  have "last (b # bs) \<in> set (b # bs)" by (rule last_in_set) simp
  then have "?n \<noteq> 0" using Cons.prems(1) by (auto simp: filter_empty_conv)
  moreover have "?n \<le> length (b # bs)" by (rule length_filter_le)
  then have "unat (of_nat ?n :: u32) = ?n" using Cons.prems(2) by (intro unat_of_nat_u32) simp
  ultimately have pos: "(of_nat ?n :: u32) > 0" by (simp add: word_less_nat_alt del: filter.simps)
  have "(if b \<noteq> 0 then of_nat ?n - 1 else of_nat ?n) = (of_nat (length (filter (\<lambda>b. b \<noteq> 0) bs)) :: u32)" by simp
  then show ?case
    using pos Cons.IH [of "v @ mask_bools b"] Cons.prems by (simp del: filter.simps) (cases "bs = []"; simp)
qed

text \<open>The last byte of the bitmask is not zero, and \<open>CalcMaskSize\<close> counts those that are not.\<close>

lemma mask_loop_ok:
  assumes "mask_loop vs b l n = (sz, cd)" and "l \<le> b"
    and "n = length (filter (\<lambda>i. mask_byte vs i \<noteq> 0) [0..<b])"
    and "\<And>i. l \<le> i \<Longrightarrow> i < b \<Longrightarrow> mask_byte vs i = 0" and "l \<noteq> 0 \<Longrightarrow> mask_byte vs (l - 1) \<noteq> 0"
  shows "cd = length (filter (\<lambda>i. mask_byte vs i \<noteq> 0) [0..<sz]) \<and>
    (\<forall>i \<ge> sz. mask_byte vs i = 0) \<and> (sz \<noteq> 0 \<longrightarrow> mask_byte vs (sz - 1) \<noteq> 0) \<and>
    (sz = 0 \<or> 2 + (sz - 1) * 8 < length vs)"
  using assms
proof (induction vs b l n rule: mask_loop.induct)
  case (1 vs b l n)
  show ?case
  proof (cases "2 + b * 8 < length vs")
    case True
    show ?thesis
    proof (cases "list_ex (mask_bit vs b) [0..<8]")
      case nz: True
      then have l: "mask_loop vs (b + 1) (b + 1) (n + 1) = (sz, cd)"
        using 1(3) True by (subst (asm) mask_loop.simps) simp
      have b: "mask_byte vs b \<noteq> 0" using nz mask_byte_zero by blast
      then have "n + 1 = length (filter (\<lambda>i. mask_byte vs i \<noteq> 0) [0..<b + 1])" by (simp add: 1(5))
      from 1(1) [OF True refl _ l le_refl this] show ?thesis using nz b by simp
    next
      case z: False
      then have l: "mask_loop vs (b + 1) l n = (sz, cd)"
        using 1(3) True by (subst (asm) mask_loop.simps) simp
      have b: "mask_byte vs b = 0" using z mask_byte_zero by blast
      then have n: "n = length (filter (\<lambda>i. mask_byte vs i \<noteq> 0) [0..<b + 1])" by (simp add: 1(5))
      have zero: "mask_byte vs i = 0" if "l \<le> i" "i < b + 1" for i
        using 1(6) b that by (cases "i = b") auto
      have "l \<le> b + 1" using 1(4) by simp
      from 1(2) [OF True refl _ l this n zero 1(7)] show ?thesis using z by simp
    qed
  next
    case False
    then have r: "sz = l" "cd = n" using 1(3) by (subst (asm) mask_loop.simps; simp)+
    have out: "mask_byte vs i = 0" if "b \<le> i" for i
      using that False by (auto simp: mask_byte_zero list_ex_iff mask_bit_def)
    have "[0..<b] = [0..<l] @ [l..<b]" using 1(4) upt_add_eq_append [of 0 l "b - l"] by simp
    moreover have "filter (\<lambda>i. mask_byte vs i \<noteq> 0) [l..<b] = []"
      using 1(6) by (auto simp: filter_empty_conv)
    ultimately have n: "n = length (filter (\<lambda>i. mask_byte vs i \<noteq> 0) [0..<l])" using 1(5) by simp
    have z: "\<forall>i \<ge> l. mask_byte vs i = 0" using out 1(6) by (meson linorder_not_le)
    have "l = 0 \<or> 2 + (l - 1) * 8 < length vs"
    proof (cases "l = 0")
      case nz: False
      then have "list_ex (mask_bit vs (l - 1)) [0..<8]" using 1(7) mask_byte_zero by blast
      then show ?thesis by (auto simp: list_ex_iff mask_bit_def)
    qed simp
    then show ?thesis unfolding r using n z 1(7) by blast
  qed
qed

lemma CalcMaskSize_ok:
  assumes "CalcMaskSize c = (sz, cd)"
  shows "cd = length (filter (\<lambda>b. b \<noteq> 0) (map (mask_byte (cc_vout c)) [0..<sz]))"
    and "\<And>i. 2 + 8 * sz \<le> i \<Longrightarrow> \<not> has_output c i"
    and "map (mask_byte (cc_vout c)) [0..<sz] = [] \<or> last (map (mask_byte (cc_vout c)) [0..<sz]) \<noteq> 0"
    and "8 * sz \<le> length (cc_vout c) + 8" and "cd \<le> sz"
proof -
  have m: "cd = length (filter (\<lambda>i. mask_byte (cc_vout c) i \<noteq> 0) [0..<sz])"
    "\<And>i. sz \<le> i \<Longrightarrow> mask_byte (cc_vout c) i = 0"
    "sz \<noteq> 0 \<Longrightarrow> mask_byte (cc_vout c) (sz - 1) \<noteq> 0"
    "sz = 0 \<or> 2 + (sz - 1) * 8 < length (cc_vout c)"
    using mask_loop_ok [of "cc_vout c" 0 0 0 sz cd] assms by (auto simp: CalcMaskSize_def)
  show "cd = length (filter (\<lambda>b. b \<noteq> 0) (map (mask_byte (cc_vout c)) [0..<sz]))"
    using m(1) by (simp add: filter_map comp_def)
  show "cd \<le> sz" using m(1) length_filter_le [of _ "[0..<sz]"] by simp
  show "8 * sz \<le> length (cc_vout c) + 8" using m(4) by auto
  show "map (mask_byte (cc_vout c)) [0..<sz] = [] \<or> last (map (mask_byte (cc_vout c)) [0..<sz]) \<noteq> 0"
    using m(3) by (cases "sz = 0") (auto simp: last_map)
  show "\<not> has_output c i" if "2 + 8 * sz \<le> i" for i
  proof -
    have i: "i = 2 + ((i - 2) div 8) * 8 + (i - 2) mod 8" using that by simp
    have "sz \<le> (i - 2) div 8" using that by (simp add: less_eq_div_iff_mult_less_eq)
    then have "\<not> mask_bit (cc_vout c) ((i - 2) div 8) ((i - 2) mod 8)"
      using m(2) mask_byte_zero by (auto simp: list_ex_iff)
    then show ?thesis using i by (simp add: mask_bit_def has_output_def)
  qed
qed

section \<open>What is stored is read back\<close>

lemma read_outs_ok:
  assumes "curve_library verify uncompress" and "length buf = 65" and "length buf' = 65"
    and "\<And>t. t \<in> set ts \<Longrightarrow> \<not> CTxOut_IsNull t \<Longrightarrow> storable t"
  shows "\<exists>x. ser_outs verify buf ts = Some x \<and>
    read_outs verify uncompress buf' (map (\<lambda>t. \<not> CTxOut_IsNull t) ts @ replicate k False) (x @ r) =
      Inr (map (\<lambda>t. if CTxOut_IsNull t then CTxOut_Null else t) ts @ replicate k CTxOut_Null, r)"
  using assms(4)
proof (induction ts)
  case Nil
  show ?case by (induction k) auto
next
  case (Cons t ts)
  then obtain x where x: "ser_outs verify buf ts = Some x"
    "read_outs verify uncompress buf' (map (\<lambda>t. \<not> CTxOut_IsNull t) ts @ replicate k False) (x @ r) =
      Inr (map (\<lambda>t. if CTxOut_IsNull t then CTxOut_Null else t) ts @ replicate k CTxOut_Null, r)" by auto
  show ?case
  proof (cases "CTxOut_IsNull t")
    case True
    then show ?thesis using x by simp
  next
    case False
    then obtain y where "ser_CTxOutCompressor verify buf t = Some y"
      "unser_CTxOutCompressor verify uncompress buf' CTxOut_Null (y @ x @ r) = Inr (t, x @ r)"
      using unser_ser_CTxOut [OF assms(1-3), of t "x @ r"] Cons.prems by auto
    then show ?thesis using x False by simp
  qed
qed

lemma ser_outs_append_null:
  "(\<And>t. t \<in> set us \<Longrightarrow> CTxOut_IsNull t) \<Longrightarrow> ser_outs verify buf (ts @ us) = ser_outs verify buf ts"
proof (induction ts)
  case Nil
  then show ?case by (induction us) auto
next
  case (Cons t ts)
  then show ?case by (auto split: option.split)
qed

lemma flag_digit:
  "(of_bool b + 2 * x) div 2 = x" "odd (of_bool b + 2 * x) \<longleftrightarrow> b" for x :: nat
  by (cases b; simp)+

lemma flag_digits:
  fixes k :: nat
  assumes "N = of_bool b + 2 * (of_bool s + 2 * (of_bool f + 2 * (of_bool g + 2 * k)))"
  shows "odd N \<longleftrightarrow> b" and "odd (N div 2) \<longleftrightarrow> s" and "odd (N div 4) \<longleftrightarrow> f" and "odd (N div 8) \<longleftrightarrow> g"
    and "N div 16 = k"
proof -
  have d: "N div 4 = N div 2 div 2" "N div 8 = N div 2 div 2 div 2" "N div 16 = N div 2 div 2 div 2 div 2"
    by (simp_all flip: div_mult2_eq)
  show "odd N \<longleftrightarrow> b" "odd (N div 2) \<longleftrightarrow> s" "odd (N div 4) \<longleftrightarrow> f" "odd (N div 8) \<longleftrightarrow> g" "N div 16 = k"
    unfolding d unfolding assms flag_digit by (rule refl)+
qed

lemma and_bits_u32:
  fixes w :: u32
  shows "w AND 1 \<noteq> 0 \<longleftrightarrow> odd (unat w)" and "w AND 2 \<noteq> 0 \<longleftrightarrow> odd (unat w div 2)"
    and "w AND 4 \<noteq> 0 \<longleftrightarrow> odd (unat w div 4)" and "w AND 8 \<noteq> 0 \<longleftrightarrow> odd (unat w div 8)"
    and "w AND 12 \<noteq> 0 \<longleftrightarrow> w AND 4 \<noteq> 0 \<or> w AND 8 \<noteq> 0"
proof -
  have b: "bit w n \<longleftrightarrow> odd (unat w div 2 ^ n)" if "n < 32" for n
  proof -
    have "bit (unat w) n \<longleftrightarrow> bit w n" using that by (simp add: bit_unsigned_iff)
    then show ?thesis by (simp only: bit_iff_odd [of "unat w"])
  qed
  have a: "w AND 2 ^ n \<noteq> 0 \<longleftrightarrow> odd (unat w div 2 ^ n)" if "n < 32" for n
    using b [OF that] by (simp add: and_exp_eq_0_iff_not_bit)
  show "w AND 1 \<noteq> 0 \<longleftrightarrow> odd (unat w)" using a [of 0] by simp
  show "w AND 2 \<noteq> 0 \<longleftrightarrow> odd (unat w div 2)" using a [of 1] by simp
  show "w AND 4 \<noteq> 0 \<longleftrightarrow> odd (unat w div 4)" using a [of 2] by simp
  show "w AND 8 \<noteq> 0 \<longleftrightarrow> odd (unat w div 8)" using a [of 3] by simp
  have "w AND 12 = w AND 4 OR w AND 8" by (simp flip: bit.conj_disj_distrib)
  then show "w AND 12 \<noteq> 0 \<longleftrightarrow> w AND 4 \<noteq> 0 \<or> w AND 8 \<noteq> 0" by (simp add: or_eq_0_iff)
qed

lemma header_code_ok:
  assumes "m < 2 ^ 28" and "has_output c 0 \<or> has_output c 1 \<or> m \<noteq> 0"
  shows "header_code c m AND 1 \<noteq> 0 \<longleftrightarrow> cc_fCoinBase c" and "header_code c m AND 2 \<noteq> 0 \<longleftrightarrow> cc_fCoinStake c"
    and "header_code c m AND 4 \<noteq> 0 \<longleftrightarrow> has_output c 0" and "header_code c m AND 8 \<noteq> 0 \<longleftrightarrow> has_output c 1"
    and "header_code c m div 16 + (if header_code c m AND 12 \<noteq> 0 then 0 else 1) = of_nat m"
proof -
  define k where "k = (if has_output c 0 \<or> has_output c 1 then m else m - 1)"
  define N where "N = of_bool (cc_fCoinBase c) + 2 * (of_bool (cc_fCoinStake c) +
    2 * (of_bool (has_output c 0) + 2 * (of_bool (has_output c 1) + 2 * k)))"
  have "(of_nat m - (if has_output c 0 \<or> has_output c 1 then 0 else 1) :: u32) = of_nat k"
    using assms(2) by (cases m) (auto simp: k_def)
  then have "header_code c m = of_nat N"
    unfolding header_code_def Let_def N_def by (simp only: of_nat_add of_nat_mult of_nat_numeral)
      (simp add: of_bool_def)
  moreover have "of_bool b \<le> (1 :: nat)" for b by simp
  then have "N \<le> 1 + 2 * (1 + 2 * (1 + 2 * (1 + 2 * k)))"
    unfolding N_def by (intro add_mono mult_le_mono2) blast+
  then have "N < 2 ^ 32" using assms(1) unfolding k_def by (simp split: if_splits)
  ultimately have u: "unat (header_code c m) = N" by (simp add: unat_of_nat_u32)
  note d = flag_digits [OF N_def] and a = and_bits_u32 [of "header_code c m", unfolded u]
  show "header_code c m AND 1 \<noteq> 0 \<longleftrightarrow> cc_fCoinBase c" "header_code c m AND 2 \<noteq> 0 \<longleftrightarrow> cc_fCoinStake c"
    and 4: "header_code c m AND 4 \<noteq> 0 \<longleftrightarrow> has_output c 0" and 8: "header_code c m AND 8 \<noteq> 0 \<longleftrightarrow> has_output c 1"
    by (simp_all only: a d)
  have "unat (header_code c m div 16) = k" using d(5) by (simp add: unat_div_distrib u)
  then have "header_code c m div 16 = of_nat k" by auto
  moreover have "header_code c m AND 12 \<noteq> 0 \<longleftrightarrow> has_output c 0 \<or> has_output c 1"
    unfolding a(5) 4 8 ..
  ultimately show "header_code c m div 16 + (if header_code c m AND 12 \<noteq> 0 then 0 else 1) = of_nat m"
    using assms(2) by (cases m) (auto simp: k_def)
qed

text \<open>What the reader builds from the bitmask are the outputs that are left.\<close>

lemma mask_bits:
  "[has_output c 0, has_output c 1] @ concat (map mask_bools (map (mask_byte (cc_vout c)) [0..<n])) =
    map (has_output c) [0..<2 + 8 * n]"
proof (induction n)
  case 0
  show ?case by (simp add: upt_rec)
next
  case (Suc n)
  have "map (mask_bit (cc_vout c) n) [0..<8] = map (has_output c) [2 + 8 * n..<2 + 8 * n + 8]"
    by (rule nth_equalityI) (auto simp: mask_bit_def has_output_def ac_simps)
  moreover have "[0..<2 + 8 * Suc n] = [0..<2 + 8 * n] @ [2 + 8 * n..<2 + 8 * n + 8]"
    using upt_add_eq_append [of 0 "2 + 8 * n" 8] by (simp add: ac_simps)
  ultimately show ?case using Suc by (simp add: mask_bools_byte)
qed

lemma has_output_list:
  assumes "\<And>i. k \<le> i \<Longrightarrow> \<not> has_output c i"
  shows "map (has_output c) [0..<k] =
    map (\<lambda>t. \<not> CTxOut_IsNull t) (take k (cc_vout c)) @ replicate (k - length (cc_vout c)) False"
proof (rule nth_equalityI)
  fix i assume "i < length (map (has_output c) [0..<k])"
  then show "map (has_output c) [0..<k] ! i =
    (map (\<lambda>t. \<not> CTxOut_IsNull t) (take k (cc_vout c)) @ replicate (k - length (cc_vout c)) False) ! i"
    by (auto simp: nth_append has_output_def min_def)
qed simp

text \<open>What is read back: all of the coins, but for the version and the height where they are negative.\<close>

definition stored_coins :: "CCoins \<Rightarrow> CCoins" where
  "stored_coins c = c\<lparr>cc_nHeight := stored_int (cc_nHeight c), cc_nVersion := stored_int (cc_nVersion c)\<rparr>"

definition stored_ok :: "CCoins \<Rightarrow> bool" where
  "stored_ok c \<longleftrightarrow> \<not> IsPruned c \<and> length (cc_vout c) < 2 ^ 30 \<and>
     (\<forall>t \<in> set (cc_vout c). \<not> CTxOut_IsNull t \<longrightarrow> storable t)"

lemma unser_ser_CCoins:
  assumes "curve_library verify uncompress" and "length buf = 65" and "length buf' = 65" and "stored_ok c"
  shows "\<exists>x c'. ser_CCoins verify buf c = Some x \<and>
    unser_CCoins verify uncompress buf' (x @ r) = Inr (c', r) \<and> coins_abs c' = coins_abs (stored_coins c)"
proof -
  obtain n m where nm: "CalcMaskSize c = (n, m)" by (cases "CalcMaskSize c") auto
  note mask = CalcMaskSize_ok [OF nm]
  let ?bs = "map (mask_byte (cc_vout c)) [0..<n]" and ?k = "2 + 8 * n"
  let ?ts = "take ?k (cc_vout c)" and ?j = "?k - length (cc_vout c)"
  let ?vs = "map (\<lambda>t. if CTxOut_IsNull t then CTxOut_Null else t) ?ts @ replicate ?j CTxOut_Null"
  let ?H = "WriteVarInt_int (cc_nHeight c)" and ?h = "header_code c m"
  have ok: "\<not> IsPruned c" "length (cc_vout c) < 2 ^ 30"
    "\<And>t. t \<in> set (cc_vout c) \<Longrightarrow> \<not> CTxOut_IsNull t \<Longrightarrow> storable t"
    using assms(4) unfolding stored_ok_def by blast+
  have null: "\<And>i. ?k \<le> i \<Longrightarrow> \<not> has_output c i" by (rule mask(2)) simp
  have some: "has_output c 0 \<or> has_output c 1 \<or> m \<noteq> 0"
  proof (rule ccontr)
    assume a: "\<not> ?thesis"
    then have "length (filter (\<lambda>b. b \<noteq> 0) ?bs) = 0" using mask(1) by argo
    then have z: "\<forall>b \<in> set ?bs. \<not> b \<noteq> 0" unfolding length_0_conv filter_empty_conv .
    have "n = 0"
    proof (rule ccontr)
      assume "n \<noteq> 0"
      then have ne: "?bs \<noteq> []" by simp
      from last_in_set [OF ne] ne mask(3) z show False by blast
    qed
    have "\<not> has_output c i" for i
    proof (cases "i < 2")
      case True
      then show ?thesis using a by (cases i) (auto simp: less_Suc_eq)
    next
      case False
      then show ?thesis using null [of i] \<open>n = 0\<close> by simp
    qed
    then show False using ok(1) by (auto simp: IsPruned_def list_all_length has_output_def)
  qed
  have "m < 2 ^ 28" "length ?bs < 2 ^ 32" using mask(4,5) ok(2) by simp_all
  note head = header_code_ok [OF this(1) some] and mask_read = read_mask_ok [OF mask(3) this(2)]
  have st: "\<And>t. t \<in> set ?ts \<Longrightarrow> \<not> CTxOut_IsNull t \<Longrightarrow> storable t" using ok(3) in_set_takeD by fast
  have bits: "map (has_output c) [0..<?k] = map (\<lambda>t. \<not> CTxOut_IsNull t) ?ts @ replicate ?j False"
    by (rule has_output_list) (rule null)
  have "\<exists>x. ser_outs verify buf ?ts = Some x \<and>
    read_outs verify uncompress buf' (map (has_output c) [0..<?k]) (x @ ?H @ r) = Inr (?vs, ?H @ r)"
    unfolding bits by (rule read_outs_ok [OF assms(1-3)]) (rule st)
  then obtain x where x: "ser_outs verify buf ?ts = Some x"
      "read_outs verify uncompress buf' (map (has_output c) [0..<?k]) (x @ ?H @ r) = Inr (?vs, ?H @ r)"
    by (elim exE conjE) (rule that)
  have "ser_outs verify buf (?ts @ drop ?k (cc_vout c)) = ser_outs verify buf ?ts"
  proof (rule ser_outs_append_null)
    fix t assume "t \<in> set (drop ?k (cc_vout c))"
    then obtain i where "i < length (cc_vout c) - ?k" "t = cc_vout c ! (?k + i)"
      by (auto simp: in_set_conv_nth)
    then show "CTxOut_IsNull t" using null [of "?k + i"] by (simp add: has_output_def)
  qed
  then have outs: "ser_outs verify buf (cc_vout c) = Some x" using x(1) by (simp only: append_take_drop_id)
  let ?c = "\<lparr>cc_fCoinBase = cc_fCoinBase c, cc_fCoinStake = cc_fCoinStake c, cc_vout = ?vs,
    cc_nHeight = stored_int (cc_nHeight c), cc_nVersion = stored_int (cc_nVersion c)\<rparr>"
  have w: "ser_CCoins verify buf c = Some (WriteVarInt_int (cc_nVersion c) @ WriteVarInt_u32 ?h @ ?bs @ x @ ?H)"
    using some outs by (simp add: ser_CCoins_def nm)
  have rd: "read_mask (?h div 16 + (if ?h AND 12 \<noteq> 0 then 0 else 1)) [?h AND 4 \<noteq> 0, ?h AND 8 \<noteq> 0] (?bs @ x @ ?H @ r) =
      Inr (map (has_output c) [0..<?k], x @ ?H @ r)"
    using mask_read [of "[has_output c 0, has_output c 1]" "x @ ?H @ r"] mask_bits [of c n]
    unfolding head(3-5) mask(1) [symmetric] by simp
  have u: "unser_CCoins verify uncompress buf' ((WriteVarInt_int (cc_nVersion c) @ WriteVarInt_u32 ?h @ ?bs @ x @ ?H) @ r) =
      Inr (CCoins_Cleanup ?c, r)"
    unfolding unser_CCoins_def append_assoc ReadVarInt_u32_stored and_then_simps prod.case Let_def
      ReadVarInt_u32_Write rd x(2) ReadVarInt_u32_stored head(1,2) ..
  have "coins_abs ?c i = coins_abs (stored_coins c) i" for i
    using null [of i] by (auto simp: stored_coins_def coins_abs_def has_output_def nth_append not_le)
  then show ?thesis using w u by (simp add: fun_eq_iff)
qed

definition CTxInUndo_new :: CTxInUndo where
  "CTxInUndo_new = CTxInUndo_of CTxOut_Null"

lemma undo_code_ok:
  assumes "unat (un_nHeight undo) < 2 ^ 30"
  shows "drop_bit 2 (undo_code undo) = un_nHeight undo" and "undo_code undo AND 2 \<noteq> 0 \<longleftrightarrow> un_fCoinBase undo"
    and "undo_code undo AND 1 \<noteq> 0 \<longleftrightarrow> un_fCoinStake undo"
proof -
  let ?h = "unat (un_nHeight undo)"
  define N where "N = of_bool (un_fCoinStake undo) + 2 * (of_bool (un_fCoinBase undo) + 2 * ?h)"
  have "undo_code undo = of_nat N" by (simp add: undo_code_def N_def of_bool_def)
  moreover have "N < 2 ^ 32" using assms by (simp add: N_def)
  ultimately have u: "unat (undo_code undo) = N" by (simp add: unat_of_nat_u32)
  have d: "N div 4 = N div 2 div 2" by (simp flip: div_mult2_eq)
  have "unat (drop_bit 2 (undo_code undo)) = ?h"
  proof -
    have "unat (drop_bit 2 (undo_code undo)) = N div 4"
      using unat_div_distrib [of "undo_code undo" 4] u by (simp add: drop_bit_eq_div)
    also have "\<dots> = ?h" unfolding d unfolding N_def flag_digit ..
    finally show ?thesis .
  qed
  then show "drop_bit 2 (undo_code undo) = un_nHeight undo" by (simp add: word_unat_eq_iff)
  show "undo_code undo AND 2 \<noteq> 0 \<longleftrightarrow> un_fCoinBase undo" "undo_code undo AND 1 \<noteq> 0 \<longleftrightarrow> un_fCoinStake undo"
    unfolding and_bits_u32 u N_def flag_digit by (rule refl)+
qed

lemma unser_ser_CTxInUndo:
  assumes "curve_library verify uncompress" and "length buf = 65" and "length buf' = 65"
    and "storable (un_txout undo)" and "unat (un_nHeight undo) < 2 ^ 30" and "\<not> un_nVersion undo <s 0"
    and "un_nHeight undo = 0 \<Longrightarrow> un_nVersion undo = 0"
  shows "\<exists>x. ser_CTxInUndo verify buf undo = Some x \<and>
    unser_CTxInUndo verify uncompress buf' CTxInUndo_new (x @ r) = Inr (undo, r)"
proof -
  obtain x where x: "ser_CTxOutCompressor verify buf (un_txout undo) = Some x"
    "unser_CTxOutCompressor verify uncompress buf' CTxOut_Null (x @ r) = Inr (un_txout undo, r)"
    using unser_ser_CTxOut [OF assms(1-4)] by blast
  show ?thesis
    using x undo_code_ok [OF assms(5)] assms(6,7)
    by (cases undo; cases "un_nHeight undo = 0")
      (simp_all add: ser_CTxInUndo_def unser_CTxInUndo_def CTxInUndo_new_def CTxInUndo_of_def word_gt_0)
qed

section \<open>An example\<close>

text \<open>A curve with one point.\<close>

definition one_point :: "valtype \<Rightarrow> bool" where
  "one_point key \<longleftrightarrow> key = 4 # replicate 64 1 \<or> key = 3 # replicate 32 1"

definition one_point_uncompress :: "valtype \<Rightarrow> valtype" where
  "one_point_uncompress key = 4 # replicate 64 1"

lemma one_point_curve: "curve_library one_point one_point_uncompress"
  unfolding curve_library_def
proof (intro allI impI)
  fix x y :: valtype
  assume l: "length x = 32" "length y = 32" and v: "one_point (4 # x @ y)"
  then have "x @ y = replicate 32 1 @ replicate 32 1"
    by (simp add: one_point_def flip: replicate_add)
  then have "x = replicate 32 1" "y = replicate 32 1" using l by simp_all
  then show "one_point ((2 + (last y AND 1)) # x) \<and>
      one_point_uncompress ((2 + (last y AND 1)) # x) = 4 # x @ y"
    by (simp add: one_point_def one_point_uncompress_def flip: replicate_add)
qed

text \<open>Two outputs of a transaction are left, one paying to the point.\<close>

definition two_outputs :: CCoins where
  "two_outputs = \<lparr>cc_fCoinBase = False, cc_fCoinStake = True,
     cc_vout = [CTxOut_of 500 ([65, 4] @ replicate 64 1 @ [OP_CHECKSIG]), CTxOut_Null, CTxOut_Null, CTxOut_of 70 [OP_1]],
     cc_nHeight = 120891, cc_nVersion = 1\<rparr>"

lemma two_outputs_ok: "stored_ok two_outputs"
  by (simp add: stored_ok_def two_outputs_def IsPruned_def CTxOut_of_def CTxOut_Null_def CTxOut_IsNull_def
      storable_def MAX_SCRIPT_SIZE_def)

section \<open>Properties\<close>

text \<open>
  C21. Unspent outputs that are written to the database never fail the assertion of Serialize, and
  are read back as the same outputs with the same data where their version and height are not
  negative. A negative version, which a transaction can have, is not kept: the writer stores the
  lowest seven bits of it, and those are the version that is read back. In either case the reader
  stops where the writer did: the bitmask, its count in the header code and the compressed outputs
  fit together. The coins are not pruned, have fewer than 2^30 outputs, and the outputs are in the
  range the compressor keeps: at most 2^60 satoshis, a script of at most MAX_SCRIPT_SIZE bytes,
  and the default nRounds, which is not stored.
\<close>

theorem coins_stored:
  assumes "curve_library verify uncompress" and "length buf = 65" and "length buf' = 65" and "stored_ok c"
  shows "\<exists>x c'. ser_CCoins verify buf c = Some x \<and>
    unser_CCoins verify uncompress buf' (x @ r) = Inr (c', r) \<and> coins_abs c' = coins_abs (stored_coins c)"
  using assms by (rule unser_ser_CCoins)

theorem coins_stored_witness:
  "\<exists>x c'. ser_CCoins one_point (replicate 65 0) two_outputs = Some x \<and>
     unser_CCoins one_point one_point_uncompress (replicate 65 7) (x @ [1, 2, 3]) = Inr (c', [1, 2, 3]) \<and>
     coins_abs c' = coins_abs (stored_coins two_outputs)"
  by (rule coins_stored [OF one_point_curve _ _ two_outputs_ok]) simp_all

end
