(* ===== verification/Merkle.thy ===== *)
theory Merkle
  imports Transaction
begin

text \<open>
  Merkle trees (\<open>CBlock::BuildMerkleTree\<close>, \<open>GetMerkleBranch\<close>, \<open>CheckMerkleBranch\<close> of
  \<open>src/primitives/block.cpp\<close>, \<open>CPartialMerkleTree\<close> of \<open>src/merkleblock.h\<close> and
  \<open>src/merkleblock.cpp\<close>). The code keeps all levels of the tree in one vector, the transaction
  ids first; the specification is a level above a level. Sizes and positions are natural numbers;
  a block has far less than \<open>2 ^ 31\<close> transactions.
\<close>

section \<open>The tree in a vector\<close>

definition node_hash :: "uint256 \<Rightarrow> uint256 \<Rightarrow> uint256" where
  "node_hash a b = Hash2 (uint256_bytes a) (uint256_bytes b)"

function merkle_row :: "uint256 list \<Rightarrow> nat \<Rightarrow> nat \<Rightarrow> nat \<Rightarrow> bool \<Rightarrow> uint256 list \<times> bool" where
  "merkle_row vMerkleTree j nSize i mutated =
     (if i < nSize then
        (let i2 = min (i + 1) (nSize - 1);
             mutated = (if i2 = i + 1 \<and> i2 + 1 = nSize \<and> vMerkleTree ! (j + i) = vMerkleTree ! (j + i2)
                        then True else mutated);
             vMerkleTree = vMerkleTree @ [node_hash (vMerkleTree ! (j + i)) (vMerkleTree ! (j + i2))]
         in merkle_row vMerkleTree j nSize (i + 2) mutated)
      else (vMerkleTree, mutated))"
  by pat_completeness auto
termination by (relation "measure (\<lambda>(_, _, nSize, i, _). nSize - i)") auto

function merkle_rows :: "uint256 list \<Rightarrow> nat \<Rightarrow> nat \<Rightarrow> bool \<Rightarrow> uint256 list \<times> bool" where
  "merkle_rows vMerkleTree j nSize mutated =
     (if nSize > 1 then
        (case merkle_row vMerkleTree j nSize 0 mutated of
           (vMerkleTree, mutated) \<Rightarrow> merkle_rows vMerkleTree (j + nSize) ((nSize + 1) div 2) mutated)
      else (vMerkleTree, mutated))"
  by pat_completeness auto
termination by (relation "measure (\<lambda>(_, _, nSize, _). nSize)") auto

declare merkle_row.simps [simp del] merkle_rows.simps [simp del]

text \<open>The argument is the transaction ids, the result the root, the flag and \<open>vMerkleTree\<close>.\<close>

definition BuildMerkleTree :: "uint256 list \<Rightarrow> uint256 \<times> bool \<times> uint256 list" where
  "BuildMerkleTree txids =
     (case merkle_rows txids 0 (length txids) False of
        (vMerkleTree, mutated) \<Rightarrow>
          (if vMerkleTree = [] then 0 else last vMerkleTree, mutated, vMerkleTree))"

text \<open>\<open>None\<close> is an index outside of the vector.\<close>

function branch_loop :: "uint256 list \<Rightarrow> nat \<Rightarrow> nat \<Rightarrow> int \<Rightarrow> uint256 list option" where
  "branch_loop vMerkleTree j nSize nIndex =
     (if nSize > 1 then
        (let i = min (nIndex XOR 1) (int nSize - 1) in
         if i < 0 \<or> nat i + j \<ge> length vMerkleTree then None
         else map_option ((#) (vMerkleTree ! (j + nat i)))
           (branch_loop vMerkleTree (j + nSize) ((nSize + 1) div 2) (drop_bit 1 nIndex)))
      else Some [])"
  by pat_completeness auto
termination by (relation "measure (\<lambda>(_, _, nSize, _). nSize)") auto

declare branch_loop.simps [simp del]

text \<open>\<open>vMerkleTree\<close> is what an earlier call of \<open>BuildMerkleTree\<close> left.\<close>

definition GetMerkleBranch :: "uint256 list \<Rightarrow> uint256 list \<Rightarrow> int \<Rightarrow> uint256 list option" where
  "GetMerkleBranch txids vMerkleTree nIndex =
     (let vMerkleTree = (if vMerkleTree = [] then snd (snd (BuildMerkleTree txids)) else vMerkleTree)
      in branch_loop vMerkleTree 0 (length txids) nIndex)"

fun check_loop :: "uint256 \<Rightarrow> uint256 list \<Rightarrow> int \<Rightarrow> uint256" where
  "check_loop h [] nIndex = h"
| "check_loop h (it # vMerkleBranch) nIndex =
     check_loop (if nIndex AND 1 \<noteq> 0 then node_hash it h else node_hash h it) vMerkleBranch (drop_bit 1 nIndex)"

definition CheckMerkleBranch :: "uint256 \<Rightarrow> uint256 list \<Rightarrow> int \<Rightarrow> uint256" where
  "CheckMerkleBranch h vMerkleBranch nIndex =
     (if nIndex = -1 then 0 else check_loop h vMerkleBranch nIndex)"

section \<open>Levels\<close>

fun up :: "uint256 list \<Rightarrow> uint256 list" where
  "up [] = []"
| "up [a] = [node_hash a a]"
| "up (a # b # r) = node_hash a b # up r"

text \<open>The last two hashes of a level of even size are the same.\<close>

fun twins :: "uint256 list \<Rightarrow> bool" where
  "twins [a, b] \<longleftrightarrow> a = b"
| "twins (a # b # r) = twins r"
| "twins r = False"

lemma length_up: "length (up r) = (length r + 1) div 2"
  by (induction r rule: up.induct) auto

lemma nth_up: "k < length (up r) \<Longrightarrow> up r ! k = node_hash (r ! (2 * k)) (r ! min (2 * k + 1) (length r - 1))"
proof (induction r arbitrary: k rule: up.induct)
  case (3 a b r)
  then show ?case by (cases k) (auto simp: min_def length_up nth_Cons')
qed auto

function levels :: "uint256 list \<Rightarrow> uint256 list list" where
  "levels r = (if length r > 1 then r # levels (up r) else [r])"
  by pat_completeness auto
termination by (relation "measure length") (auto simp: length_up)

declare levels.simps [simp del]

lemma levels_small: "length r \<le> 1 \<Longrightarrow> levels r = [r]"
  by (subst levels.simps) simp

lemma levels_large: "length r > 1 \<Longrightarrow> levels r = r # levels (up r)"
  by (subst levels.simps) simp

definition merkle_root :: "uint256 list \<Rightarrow> uint256" where
  "merkle_root r = (if r = [] then 0 else hd (last (levels r)))"

lemma levels_induct [case_names small large]:
  assumes "\<And>r. length r \<le> 1 \<Longrightarrow> P r" and "\<And>r. length r > 1 \<Longrightarrow> P (up r) \<Longrightarrow> P r"
  shows "P r"
proof (induction r rule: levels.induct)
  case (1 r)
  then show ?case using assms by (cases "length r > 1") auto
qed

lemma levels_not_Nil [simp]: "levels r \<noteq> []"
  by (subst levels.simps) simp

lemma up_not_Nil [simp]: "up r = [] \<longleftrightarrow> r = []"
  by (cases r rule: up.cases) auto

lemma merkle_root_up: "length r > 1 \<Longrightarrow> merkle_root r = merkle_root (up r)"
  by (auto simp: merkle_root_def levels_large)

lemma merkle_root_single [simp]: "merkle_root [a] = a"
  by (simp add: merkle_root_def levels_small)

lemma merkle_row_ok:
  assumes "even i" and "i \<le> length r + 1"
  shows "merkle_row (pre @ r @ acc) (length pre) (length r) i m = (pre @ r @ acc @ up (drop i r), m \<or> twins (drop i r))"
  using assms
proof (induction "length r - i" arbitrary: i acc m rule: less_induct)
  case less
  show ?case
  proof (cases "i < length r")
    case False
    then show ?thesis by (subst merkle_row.simps) simp
  next
    case True
    let ?t = "pre @ r @ acc" and ?i2 = "min (i + 1) (length r - 1)"
    have n: "?t ! (length pre + i) = r ! i" "?t ! (length pre + ?i2) = r ! ?i2"
      using True by (auto simp: nth_append min_def)
    have step: "merkle_row ?t (length pre) (length r) i m =
        merkle_row (pre @ r @ (acc @ [node_hash (r ! i) (r ! ?i2)])) (length pre) (length r) (i + 2)
          ((?i2 = i + 1 \<and> ?i2 + 1 = length r \<and> r ! i = r ! ?i2) \<or> m)"
    proof -
      have e: "(if c then True else m) \<longleftrightarrow> c \<or> m" for c by simp
      have "merkle_row ?t (length pre) (length r) i m =
          merkle_row (?t @ [node_hash (?t ! (length pre + i)) (?t ! (length pre + ?i2))]) (length pre) (length r) (i + 2)
            (if ?i2 = i + 1 \<and> ?i2 + 1 = length r \<and> ?t ! (length pre + i) = ?t ! (length pre + ?i2) then True else m)"
        by (subst merkle_row.simps) (simp only: True if_True Let_def)
      then show ?thesis unfolding n e append_assoc .
    qed
    have ih: "merkle_row (pre @ r @ (acc @ [x])) (length pre) (length r) (i + 2) m' =
        (pre @ r @ (acc @ [x]) @ up (drop (i + 2) r), m' \<or> twins (drop (i + 2) r))" for x m'
      using True less.prems by (intro less.hyps) (auto simp: le_less_Suc_eq elim!: evenE)
    show ?thesis
    proof (cases "i + 1 < length r")
      case True
      then have "drop i r = r ! i # r ! (i + 1) # drop (i + 2) r"
        by (simp add: Cons_nth_drop_Suc)
      then show ?thesis unfolding step ih using True by (cases "drop (i + 2) r") auto
    next
      case False
      then have "drop i r = [r ! i]" "length r = i + 1" using True by (simp_all add: Cons_nth_drop_Suc [symmetric])
      then show ?thesis unfolding step ih by simp
    qed
  qed
qed

lemma merkle_rows_ok:
  "merkle_rows (pre @ r) (length pre) (length r) m = (pre @ concat (levels r), m \<or> list_ex twins (levels r))"
proof (induction r arbitrary: pre m rule: levels_induct)
  case (small r)
  then have "\<not> twins r" by (cases r rule: twins.cases) auto
  then show ?case using small by (subst merkle_rows.simps) (simp add: levels_small)
next
  case (large r)
  have "merkle_rows (pre @ r) (length pre) (length r) m =
      merkle_rows ((pre @ r) @ up r) (length (pre @ r)) (length (up r)) (m \<or> twins r)"
    using large(1) merkle_row_ok [of 0 r pre "[]" m] by (subst merkle_rows.simps) (simp add: length_up)
  then show ?case unfolding large(2) using large(1) by (simp add: levels_large)
qed

lemma BuildMerkleTree_eq:
  "BuildMerkleTree txids = (merkle_root txids, list_ex twins (levels txids), concat (levels txids))"
proof -
  have "last (concat (levels r)) = hd (last (levels r))" if "r \<noteq> []" for r
    using that
  proof (induction r rule: levels_induct)
    case (small r)
    then show ?case by (cases r) (auto simp: levels_small)
  next
    case (large r)
    moreover have "concat (levels (up r)) \<noteq> []" using large by (subst levels.simps) auto
    ultimately show ?case by (simp add: levels_large)
  qed
  moreover have "concat (levels txids) = [] \<longleftrightarrow> txids = []" by (subst levels.simps) auto
  ultimately show ?thesis
    using merkle_rows_ok [of "[]" txids False] by (simp add: BuildMerkleTree_def merkle_root_def)
qed

section \<open>Branches\<close>

lemma branch_loop_ok:
  assumes "i < length r"
  shows "\<exists>b. branch_loop (pre @ concat (levels r)) (length pre) (length r) (int i) = Some b \<and>
    check_loop (r ! i) b (int i) = merkle_root r"
  using assms
proof (induction r arbitrary: pre i rule: levels_induct)
  case (small r)
  then have "r = [r ! 0]" "i = 0" by (cases r; simp)+
  then have "merkle_root r = r ! i" by (metis merkle_root_single)
  then show ?case using small by (subst branch_loop.simps) simp
next
  case (large r)
  let ?t = "pre @ concat (levels r)" and ?k = "i div 2"
  let ?s = "if even i then min (i + 1) (length r - 1) else i - 1"
  have k: "?k < length (up r)" using large(3) by (simp add: length_up)
  obtain b where b: "branch_loop ?t (length (pre @ r)) (length (up r)) (int ?k) = Some b"
    "check_loop (up r ! ?k) b (int ?k) = merkle_root (up r)"
    using large(2) [OF k, of "pre @ r"] large(1) by (auto simp: levels_large)
  have s: "min (int i XOR 1) (int (length r) - 1) = int ?s" "?s < length r"
  proof -
    have "odd i \<Longrightarrow> int (i - 1) = int i - 1" by (simp add: of_nat_diff odd_pos Suc_leI)
    then show "min (int i XOR 1) (int (length r) - 1) = int ?s" "?s < length r"
      using large(1,3) by (auto simp: xor_one_eq min_def)
  qed
  have t: "?t ! (length pre + ?s) = r ! ?s" "length pre + ?s < length ?t"
    using large(1) s(2) by (simp_all add: levels_large nth_append)
  have d: "drop_bit (Suc 0) (int i) = int ?k" by (simp add: drop_bit_eq_div)
  have "branch_loop ?t (length pre) (length r) (int i) = Some (r ! ?s # b)"
    using large(1) t b(1) by (subst branch_loop.simps) (simp add: Let_def s(1) d length_up add.commute)
  moreover have "up r ! ?k = (if int i AND 1 \<noteq> 0 then node_hash (r ! ?s) (r ! i) else node_hash (r ! i) (r ! ?s))"
  proof -
    have a: "int i AND 1 \<noteq> 0 \<longleftrightarrow> odd i" by (simp add: and_one_eq flip: even_iff_mod_2_eq_zero)
    show ?thesis
    proof (cases "even i")
      case True
      then show ?thesis using a large(3) by (auto simp: nth_up [OF k])
    next
      case False
      then obtain q where q: "i = 2 * q + 1" by (auto elim: oddE)
      then have "min (2 * ?k + 1) (length r - 1) = i" using large(3) by (simp add: min_def)
      then have "up r ! ?k = node_hash (r ! (i - 1)) (r ! i)" using nth_up [OF k] q by simp
      then show ?thesis using a False by simp
    qed
  qed
  ultimately show ?case using b(2) large(1) by (simp add: d merkle_root_up)
qed

lemma GetMerkleBranch_ok:
  assumes "i < length txids" and "vMerkleTree = [] \<or> vMerkleTree = snd (snd (BuildMerkleTree txids))"
  shows "\<exists>b. GetMerkleBranch txids vMerkleTree (int i) = Some b \<and>
    CheckMerkleBranch (txids ! i) b (int i) = fst (BuildMerkleTree txids)"
proof -
  have "GetMerkleBranch txids vMerkleTree (int i) =
      branch_loop (concat (levels txids)) 0 (length txids) (int i)"
    using assms(2) by (auto simp: GetMerkleBranch_def BuildMerkleTree_eq)
  then show ?thesis using branch_loop_ok [OF assms(1), of "[]"] by (simp add: CheckMerkleBranch_def BuildMerkleTree_eq)
qed

section \<open>What a root stands for\<close>

text \<open>
  Some hash is no injection, so a bare \<open>there is a collision\<close> would say nothing: a collision is
  one between pairs of hashes that are written down in the two trees.
\<close>

fun pairs :: "uint256 list \<Rightarrow> (uint256 \<times> uint256) list" where
  "pairs [] = []"
| "pairs [a] = [(a, a)]"
| "pairs (a # b # r) = (a, b) # pairs r"

function tree_pairs :: "uint256 list \<Rightarrow> (uint256 \<times> uint256) list" where
  "tree_pairs r = (if length r > 1 then pairs r @ tree_pairs (up r) else [])"
  by pat_completeness auto
termination by (relation "measure length") (auto simp: length_up)

declare tree_pairs.simps [simp del]

definition collision :: "(uint256 \<times> uint256) list \<Rightarrow> (uint256 \<times> uint256) list \<Rightarrow> bool" where
  "collision ps qs \<longleftrightarrow>
     list_ex (\<lambda>(a, b). list_ex (\<lambda>(c, d). (a, b) \<noteq> (c, d) \<and> node_hash a b = node_hash c d) qs) ps"

lemma collision_iff: "collision ps qs \<longleftrightarrow>
    (\<exists>a b c d. (a, b) \<in> set ps \<and> (c, d) \<in> set qs \<and> (a, b) \<noteq> (c, d) \<and> node_hash a b = node_hash c d)"
  by (fastforce simp: collision_def list_ex_iff)

lemma collision_mono: "collision ps qs \<Longrightarrow> set ps \<subseteq> set ps' \<Longrightarrow> set qs \<subseteq> set qs' \<Longrightarrow> collision ps' qs'"
  by (fastforce simp: collision_iff)

text \<open>A colliding pair of hashes is a collision of the double SHA-256.\<close>

lemma collision_hash256:
  assumes "collision ps qs"
  shows "\<exists>(a, b) \<in> set ps. \<exists>(c, d) \<in> set qs. uint256_bytes a @ uint256_bytes b \<noteq> uint256_bytes c @ uint256_bytes d \<and>
    hash256 (uint256_bytes a @ uint256_bytes b) = hash256 (uint256_bytes c @ uint256_bytes d)"
proof -
  obtain a b c d where m: "(a, b) \<in> set ps" "(c, d) \<in> set qs" and n: "(a, b) \<noteq> (c, d)"
    and e: "node_hash a b = node_hash c d" using assms by (auto simp: collision_iff)
  have "hash256 (uint256_bytes a @ uint256_bytes b) = hash256 (uint256_bytes c @ uint256_bytes d)"
    using e by (metis node_hash_def Hash2_eq uint256_bytes_Hash)
  moreover have "a = c \<and> b = d" if "uint256_bytes a @ uint256_bytes b = uint256_bytes c @ uint256_bytes d"
    using that by simp (metis uint256_of_bytes_bytes)
  ultimately show ?thesis using m n by blast
qed

lemma up_pairs: "up r = map (\<lambda>(a, b). node_hash a b) (pairs r)"
  by (induction r rule: pairs.induct) auto

lemma pairs_inject: "pairs r = pairs s \<Longrightarrow> \<not> twins r \<Longrightarrow> \<not> twins s \<Longrightarrow> r = s"
proof (induction r arbitrary: s rule: pairs.induct)
  case 1
  then show ?case by (cases s rule: pairs.cases) auto
next
  case (2 a)
  then show ?case
  proof (cases s rule: pairs.cases)
    case (3 c d s')
    then show ?thesis using 2 by (cases s' rule: pairs.cases) auto
  qed auto
next
  case (3 a b r)
  show ?case
  proof (cases s rule: pairs.cases)
    case (2 c)
    then show ?thesis using 3 by (cases r rule: pairs.cases) auto
  next
    case s: (3 c d s')
    have "\<not> twins r" using 3(3) by (cases r) auto
    moreover have "\<not> twins s'" using 3(4) s by (cases s') auto
    ultimately show ?thesis using 3(1,2) s by auto
  qed (use 3 in auto)
qed

text \<open>Without identical hashes at the end, a level determines the one below.\<close>

lemma up_inject:
  assumes "up r = up s" and "\<not> twins r" and "\<not> twins s" and "\<not> collision (pairs r) (pairs s)"
  shows "r = s"
proof (rule pairs_inject [OF _ assms(2,3)])
  have "a = b" if "a \<in> set (pairs r)" and "b \<in> set (pairs s)"
    and "(\<lambda>(a, b). node_hash a b) a = (\<lambda>(a, b). node_hash a b) b" for a b
  proof -
    obtain a1 a2 b1 b2 where "a = (a1, a2)" "b = (b1, b2)" by fastforce
    then show ?thesis using that assms(4) unfolding collision_iff by fast
  qed
  then show "pairs r = pairs s"
    using assms(1) unfolding up_pairs by (rule list.inj_map_strong)
qed

lemma length_levels: "length (levels r) = 1 \<longleftrightarrow> length r \<le> 1"
  by (cases "length r \<le> 1") (auto simp: levels_small levels_large)

lemma merkle_root_inject:
  assumes "merkle_root r = merkle_root s" and "length (levels r) = length (levels s)"
    and "r \<noteq> []" and "s \<noteq> []"
    and "\<not> list_ex twins (levels r)" and "\<not> list_ex twins (levels s)"
  shows "r = s \<or> collision (tree_pairs r) (tree_pairs s)"
  using assms
proof (induction r arbitrary: s rule: levels_induct)
  case (small r)
  then have "length s \<le> 1" using length_levels [of r] length_levels [of s] by simp
  then show ?case using small by (cases r; cases s) auto
next
  case (large r)
  have s: "length s > 1" using large.prems(2) large(1) length_levels [of r] length_levels [of s] by auto
  have t: "tree_pairs r = pairs r @ tree_pairs (up r)" "tree_pairs s = pairs s @ tree_pairs (up s)"
    using large(1) s by (simp_all add: tree_pairs.simps [of r] tree_pairs.simps [of s])
  have "up r = up s \<or> collision (tree_pairs (up r)) (tree_pairs (up s))"
    using large s by (intro large(2)) (auto simp: merkle_root_up levels_large)
  then show ?case
  proof
    assume "up r = up s"
    then show ?thesis
      using up_inject [of r s] large.prems(5,6) large(1) s by (auto simp: levels_large t collision_iff)
  next
    assume "collision (tree_pairs (up r)) (tree_pairs (up s))"
    then show ?thesis by (auto simp: t collision_iff)
  qed
qed

text \<open>The duplicates that the flag is for: a level of odd size and the same one with its last hash
  twice have one root, and only the flag tells them apart.\<close>

lemma up_duplicate: "odd (length r) \<Longrightarrow> up (r @ [last r]) = up r \<and> twins (r @ [last r])"
proof (induction r rule: up.induct)
  case (3 a b r)
  then have "r \<noteq> []" by auto
  then obtain c r' where "r = c # r'" by (cases r) auto
  then show ?case using 3 by simp
qed auto

lemma BuildMerkleTree_duplicate:
  assumes "odd (length r)" and "length r > 1"
  shows "fst (BuildMerkleTree (r @ [last r])) = fst (BuildMerkleTree r)"
    and "fst (snd (BuildMerkleTree (r @ [last r])))"
proof -
  have l: "length (r @ [last r]) > 1" using assms(2) by (cases r) auto
  show "fst (BuildMerkleTree (r @ [last r])) = fst (BuildMerkleTree r)"
    using merkle_root_up [OF l] merkle_root_up [OF assms(2)] up_duplicate [OF assms(1)]
    by (auto simp: BuildMerkleTree_eq)
  show "fst (snd (BuildMerkleTree (r @ [last r])))"
    unfolding BuildMerkleTree_eq levels_large [OF l] using up_duplicate [OF assms(1)] by simp
qed

section \<open>Reading hashes\<close>

definition unser_uint256 :: "uint256 reader" where
  "unser_uint256 s = and_then (stream_read 32 s) (\<lambda>(x, s). Inr (uint256_of_bytes x, s))"

interpretation u256: vector_codec uint256_bytes unser_uint256 "\<lambda>w. True"
  by unfold_locales
    (auto simp: unser_uint256_def and_then_Inr_iff stream_read_iff uint256_bytes_of_bytes)

section \<open>Properties\<close>

text \<open>
  C22. Two lists of transaction ids with the same Merkle root, the same number of levels and no
  mutation flag are the same list, unless two different pairs of hashes, one written down in each
  tree, have the same hash: without the flag the tree commits to its leaves, duplicates at the end
  included.
\<close>

theorem merkle_root_binding:
  assumes "BuildMerkleTree r = (root, False, t)" and "BuildMerkleTree s = (root, False, u)"
    and "r \<noteq> []" and "s \<noteq> []" and "length (levels r) = length (levels s)"
  shows "r = s \<or> collision (tree_pairs r) (tree_pairs s)"
  using merkle_root_inject [of r s] assms by (simp add: BuildMerkleTree_eq)

theorem merkle_root_binding_witness:
  "\<exists>root t. BuildMerkleTree [1, 2] = (root, False, t) \<and> \<not> twins [1, 2] \<and>
     (([1, 2] :: uint256 list) = [1, 2] \<or> collision (tree_pairs [1, 2]) (tree_pairs [1, 2]))"
proof -
  obtain root t where t: "BuildMerkleTree [1, 2] = (root, False, t)"
    by (simp add: BuildMerkleTree_eq levels_large levels_small)
  from merkle_root_binding [OF t t] t show ?thesis by auto
qed

end
