(* ===== verification/PartialMerkle.thy ===== *)
theory PartialMerkle
  imports Merkle
begin

text \<open>
  Partial Merkle trees (\<open>CPartialMerkleTree\<close> of \<open>src/merkleblock.h\<close>, \<open>src/merkleblock.cpp\<close>): a
  depth first walk that stores a bit for every node it visits and a hash where it stops. Reading
  one back is shown to give the Merkle root and the transactions that were selected, and whoever
  makes one up for the root of a block cannot name a transaction that is not in it.
\<close>

section \<open>The tree\<close>

record CPartialMerkleTree =
  pt_nTransactions :: nat
  pt_vBits :: "bool list"
  pt_vHash :: "uint256 list"
  pt_fBad :: bool

definition CPartialMerkleTree_new :: CPartialMerkleTree where
  "CPartialMerkleTree_new = \<lparr>pt_nTransactions = 0, pt_vBits = [], pt_vHash = [], pt_fBad = True\<rparr>"

definition CalcTreeWidth :: "nat \<Rightarrow> nat \<Rightarrow> nat" where
  "CalcTreeWidth nTransactions height = drop_bit height (nTransactions + push_bit height 1 - 1)"

lemma CalcTreeWidth_less: "p < CalcTreeWidth n h \<longleftrightarrow> p * 2 ^ h < n"
proof -
  have "p < CalcTreeWidth n h \<longleftrightarrow> Suc p \<le> (n + 2 ^ h - 1) div 2 ^ h"
    by (simp add: CalcTreeWidth_def drop_bit_eq_div push_bit_eq_mult Suc_le_eq)
  also have "\<dots> \<longleftrightarrow> Suc p * 2 ^ h \<le> n + 2 ^ h - 1" by (rule less_eq_div_iff_mult_less_eq) simp
  also have "\<dots> \<longleftrightarrow> p * 2 ^ h < n"
  proof -
    have "0 < (2 :: nat) ^ h" by simp
    then show ?thesis unfolding mult_Suc by linarith
  qed
  finally show ?thesis .
qed

lemma CalcTreeWidth_Suc: "CalcTreeWidth n (Suc h) = (CalcTreeWidth n h + 1) div 2"
proof -
  have "p < CalcTreeWidth n (Suc h) \<longleftrightarrow> p < (CalcTreeWidth n h + 1) div 2" for p
  proof -
    have "p < (CalcTreeWidth n h + 1) div 2 \<longleftrightarrow> 2 * p < CalcTreeWidth n h" by auto
    then show ?thesis by (simp add: CalcTreeWidth_less mult.assoc mult.commute)
  qed
  then show ?thesis by (meson less_irrefl linorder_neqE_nat)
qed

fun CalcHash :: "nat \<Rightarrow> nat \<Rightarrow> nat \<Rightarrow> uint256 list \<Rightarrow> uint256" where
  "CalcHash n 0 pos vTxid = vTxid ! pos"
| "CalcHash n (Suc height) pos vTxid =
     (let left = CalcHash n height (pos * 2) vTxid;
          right = (if pos * 2 + 1 < CalcTreeWidth n height then CalcHash n height (pos * 2 + 1) vTxid else left)
      in node_hash left right)"

function tree_height :: "nat \<Rightarrow> nat \<Rightarrow> nat" where
  "tree_height n nHeight = (if CalcTreeWidth n nHeight > 1 then tree_height n (nHeight + 1) else nHeight)"
  by pat_completeness auto
termination by (relation "measure (\<lambda>(n, h). CalcTreeWidth n h)") (auto simp: CalcTreeWidth_Suc)

declare tree_height.simps [simp del]

definition parent_of_match :: "nat \<Rightarrow> nat \<Rightarrow> nat \<Rightarrow> bool list \<Rightarrow> bool" where
  "parent_of_match n height pos vMatch \<longleftrightarrow>
     list_ex (\<lambda>p. vMatch ! p) [push_bit height pos..<min (push_bit height (pos + 1)) n]"

fun TraverseAndBuild ::
    "nat \<Rightarrow> nat \<Rightarrow> nat \<Rightarrow> uint256 list \<Rightarrow> bool list \<Rightarrow> bool list \<times> uint256 list \<Rightarrow> bool list \<times> uint256 list" where
  "TraverseAndBuild n 0 pos vTxid vMatch (vBits, vHash) =
     (vBits @ [parent_of_match n 0 pos vMatch], vHash @ [CalcHash n 0 pos vTxid])"
| "TraverseAndBuild n (Suc height) pos vTxid vMatch (vBits, vHash) =
     (let fParentOfMatch = parent_of_match n (Suc height) pos vMatch;
          vBits = vBits @ [fParentOfMatch]
      in if \<not> fParentOfMatch then (vBits, vHash @ [CalcHash n (Suc height) pos vTxid])
         else
           (let st = TraverseAndBuild n height (pos * 2) vTxid vMatch (vBits, vHash)
            in if pos * 2 + 1 < CalcTreeWidth n height
               then TraverseAndBuild n height (pos * 2 + 1) vTxid vMatch st else st))"

text \<open>\<open>None\<close> is the assertion in \<open>CalcHash\<close>, which fails in the first call when there are no
  transactions, and never otherwise.\<close>

definition CPartialMerkleTree_of :: "uint256 list \<Rightarrow> bool list \<Rightarrow> CPartialMerkleTree option" where
  "CPartialMerkleTree_of vTxid vMatch =
     (if vTxid = [] then None
      else
        (let n = length vTxid;
             (vBits, vHash) = TraverseAndBuild n (tree_height n 0) 0 vTxid vMatch ([], [])
         in Some \<lparr>pt_nTransactions = n, pt_vBits = vBits, pt_vHash = vHash, pt_fBad = False\<rparr>))"

record extract_state =
  nBitsUsed :: nat
  nHashUsed :: nat
  found :: "uint256 list"
  fBad :: bool

definition take_hash :: "CPartialMerkleTree \<Rightarrow> bool \<Rightarrow> extract_state \<Rightarrow> uint256 \<times> extract_state" where
  "take_hash t matched st =
     (if nHashUsed st \<ge> length (pt_vHash t) then (0, st\<lparr>fBad := True\<rparr>)
      else
        (let h = pt_vHash t ! nHashUsed st; st = st\<lparr>nHashUsed := nHashUsed st + 1\<rparr>
         in (h, if matched then st\<lparr>found := found st @ [h]\<rparr> else st)))"

fun TraverseAndExtract :: "CPartialMerkleTree \<Rightarrow> nat \<Rightarrow> nat \<Rightarrow> extract_state \<Rightarrow> uint256 \<times> extract_state" where
  "TraverseAndExtract t 0 pos st =
     (if nBitsUsed st \<ge> length (pt_vBits t) then (0, st\<lparr>fBad := True\<rparr>)
      else take_hash t (pt_vBits t ! nBitsUsed st) (st\<lparr>nBitsUsed := nBitsUsed st + 1\<rparr>))"
| "TraverseAndExtract t (Suc height) pos st =
     (if nBitsUsed st \<ge> length (pt_vBits t) then (0, st\<lparr>fBad := True\<rparr>)
      else
        (let fParentOfMatch = pt_vBits t ! nBitsUsed st; st = st\<lparr>nBitsUsed := nBitsUsed st + 1\<rparr>
         in if \<not> fParentOfMatch then take_hash t False st
            else
              (let (left, st) = TraverseAndExtract t height (pos * 2) st;
                   (right, st) = (if pos * 2 + 1 < CalcTreeWidth (pt_nTransactions t) height
                     then TraverseAndExtract t height (pos * 2 + 1) st else (left, st))
               in (node_hash left right, st))))"

definition MAX_BLOCK_SIZE_CURRENT :: nat where
  "MAX_BLOCK_SIZE_CURRENT = 4194304"

text \<open>The root or \<open>0\<close>, and what is left in \<open>vMatch\<close>.\<close>

definition ExtractMatches :: "CPartialMerkleTree \<Rightarrow> uint256 \<times> uint256 list" where
  "ExtractMatches t =
     (if pt_nTransactions t = 0 then (0, [])
      else if pt_nTransactions t > MAX_BLOCK_SIZE_CURRENT div 60 then (0, [])
      else if length (pt_vHash t) > pt_nTransactions t then (0, [])
      else if length (pt_vBits t) < length (pt_vHash t) then (0, [])
      else
        (let nHeight = tree_height (pt_nTransactions t) 0;
             (hashMerkleRoot, st) = TraverseAndExtract t nHeight 0
               \<lparr>nBitsUsed = 0, nHashUsed = 0, found = [], fBad = pt_fBad t\<rparr>
         in if fBad st then (0, found st)
            else if (nBitsUsed st + 7) div 8 \<noteq> (length (pt_vBits t) + 7) div 8 then (0, found st)
            else if nHashUsed st \<noteq> length (pt_vHash t) then (0, found st)
            else (hashMerkleRoot, found st)))"

section \<open>Serialization\<close>

definition pack_bits :: "bool list \<Rightarrow> byte list" where
  "pack_bits vBits = foldl
     (\<lambda>vBytes p. vBytes[p div 8 := vBytes ! (p div 8) OR push_bit (p mod 8) (of_bool (vBits ! p))])
     (replicate ((length vBits + 7) div 8) 0) [0..<length vBits]"

definition unpack_bits :: "byte list \<Rightarrow> bool list" where
  "unpack_bits vBytes = map (\<lambda>p. vBytes ! (p div 8) AND push_bit (p mod 8) 1 \<noteq> 0) [0..<length vBytes * 8]"

definition ser_CPartialMerkleTree :: "CPartialMerkleTree \<Rightarrow> byte list" where
  "ser_CPartialMerkleTree t = ser_u32 (of_nat (pt_nTransactions t)) @
     ser_vector uint256_bytes (pt_vHash t) @ ser_bytes (pack_bits (pt_vBits t))"

definition unser_CPartialMerkleTree :: "CPartialMerkleTree reader" where
  "unser_CPartialMerkleTree s =
     and_then (unser_u32 s) (\<lambda>(n, s).
     and_then (unser_vector unser_uint256 s) (\<lambda>(vHash, s).
     and_then (unser_bytes s) (\<lambda>(vBytes, s).
     Inr (\<lparr>pt_nTransactions = unat n, pt_vBits = unpack_bits vBytes, pt_vHash = vHash, pt_fBad = False\<rparr>, s))))"

section \<open>Nodes\<close>

lemma length_ups: "length ((up ^^ h) r) = CalcTreeWidth (length r) h"
  by (induction h) (simp_all add: CalcTreeWidth_Suc length_up, simp add: CalcTreeWidth_def)

lemma CalcHash_ups:
  assumes "pos < CalcTreeWidth (length r) h"
  shows "CalcHash (length r) h pos r = (up ^^ h) r ! pos"
  using assms
proof (induction h arbitrary: pos)
  case (Suc h)
  let ?l = "(up ^^ h) r"
  have l: "length ?l = CalcTreeWidth (length r) h" by (rule length_ups)
  have pos: "pos < length (up ?l)" using Suc.prems by (simp add: length_up l CalcTreeWidth_Suc)
  then have 2: "2 * pos < length ?l" by (simp add: length_up)
  show ?case
  proof (cases "pos * 2 + 1 < CalcTreeWidth (length r) h")
    case True
    then have "min (2 * pos + 1) (length ?l - 1) = 2 * pos + 1" using l by simp
    then show ?thesis using True Suc.IH [of "pos * 2"] Suc.IH [of "pos * 2 + 1"] nth_up [OF pos]
      by (simp add: Let_def mult.commute)
  next
    case False
    then have "min (2 * pos + 1) (length ?l - 1) = 2 * pos" using l 2 by simp
    then show ?thesis using False Suc.IH [of "pos * 2"] nth_up [OF pos] 2 l
      by (simp add: Let_def mult.commute)
  qed
qed simp

lemma tree_height_root:
  assumes "r \<noteq> []"
  shows "merkle_root r = CalcHash (length r) (tree_height (length r) 0) 0 r"
proof -
  have "merkle_root ((up ^^ h) r) = (up ^^ tree_height (length r) h) r ! 0 \<and>
      0 < CalcTreeWidth (length r) (tree_height (length r) h)" for h
  proof (induction "length r" h rule: tree_height.induct)
    case (1 h)
    have pos: "0 < CalcTreeWidth (length r) h" using assms by (simp add: CalcTreeWidth_less)
    show ?case
    proof (cases "CalcTreeWidth (length r) h > 1")
      case True
      then have "merkle_root ((up ^^ h) r) = merkle_root ((up ^^ (h + 1)) r)"
        using merkle_root_up [of "(up ^^ h) r"] by (simp add: length_ups)
      then show ?thesis using 1 [OF True] True by (simp add: tree_height.simps [of _ h])
    next
      case False
      then have "length ((up ^^ h) r) = 1" using pos length_ups [of h r] by simp
      then obtain a where "(up ^^ h) r = [a]" by (cases "(up ^^ h) r") auto
      then show ?thesis using False pos by (simp add: tree_height.simps [of _ h])
    qed
  qed
  from this [of 0] show ?thesis by (simp add: CalcHash_ups)
qed

section \<open>What is built is extracted\<close>

text \<open>The leaves below a node.\<close>

abbreviation leaves :: "nat \<Rightarrow> nat \<Rightarrow> nat \<Rightarrow> nat list" where
  "leaves n h pos \<equiv> [push_bit h pos..<min (push_bit h (pos + 1)) n]"

definition matched :: "nat list \<Rightarrow> uint256 list \<Rightarrow> bool list \<Rightarrow> uint256 list" where
  "matched ps vTxid vMatch = map (\<lambda>p. vTxid ! p) (filter (\<lambda>p. vMatch ! p) ps)"

lemma matched_append: "matched (ps @ qs) vTxid vMatch = matched ps vTxid vMatch @ matched qs vTxid vMatch"
  by (simp add: matched_def)

lemma matched_Nil: "\<not> list_ex (\<lambda>p. vMatch ! p) ps \<Longrightarrow> matched ps vTxid vMatch = []"
  by (auto simp: matched_def list_ex_iff filter_empty_conv)

lemma leaves_Suc:
  "leaves n (Suc h) pos = leaves n h (pos * 2) @ (if pos * 2 + 1 < CalcTreeWidth n h then leaves n h (pos * 2 + 1) else [])"
proof -
  let ?a = "2 * pos * 2 ^ h" and ?b = "(2 * pos + 1) * 2 ^ h" and ?c = "(2 * pos + 2) * 2 ^ h"
  have l: "leaves n (Suc h) pos = [?a..<min ?c n]" "leaves n h (pos * 2) = [?a..<min ?b n]"
    "leaves n h (pos * 2 + 1) = [?b..<min ?c n]"
    by (simp_all add: push_bit_eq_mult algebra_simps)
  have ab: "?a \<le> ?b" "?b \<le> ?c" by simp_all
  have w: "pos * 2 + 1 < CalcTreeWidth n h \<longleftrightarrow> ?b < n" by (simp add: CalcTreeWidth_less mult.commute)
  show ?thesis
  proof (cases "?b < n")
    case True
    then have "[?a..<min ?c n] = [?a..<?b] @ [?b..<min ?c n]"
      using ab upt_add_eq_append [of ?a ?b "min ?c n - ?b"] by simp
    then show ?thesis unfolding l w using True by (simp add: min_absorb1)
  next
    case False
    then show ?thesis unfolding l w using ab by simp
  qed
qed

lemma TraverseAndBuild_append:
  "\<exists>b k. TraverseAndBuild n h pos vTxid vMatch st = (fst st @ b, snd st @ k) \<and>
    (\<forall>st. TraverseAndBuild n h pos vTxid vMatch st = (fst st @ b, snd st @ k))"
proof (induction h arbitrary: pos st)
  case 0
  have "TraverseAndBuild n 0 pos vTxid vMatch st =
      (fst st @ [parent_of_match n 0 pos vMatch], snd st @ [CalcHash n 0 pos vTxid])" for st
    by (cases st) simp
  then show ?case by blast
next
  case (Suc h)
  obtain b1 k1 where 1: "\<And>st. TraverseAndBuild n h (pos * 2) vTxid vMatch st = (fst st @ b1, snd st @ k1)"
    using Suc by blast
  obtain b2 k2 where 2: "\<And>st. TraverseAndBuild n h (pos * 2 + 1) vTxid vMatch st = (fst st @ b2, snd st @ k2)"
    using Suc by blast
  let ?p = "parent_of_match n (Suc h) pos vMatch" and ?w = "pos * 2 + 1 < CalcTreeWidth n h"
  have "TraverseAndBuild n (Suc h) pos vTxid vMatch st =
      (fst st @ [?p] @ (if ?p then b1 @ (if ?w then b2 else []) else []),
       snd st @ (if ?p then k1 @ (if ?w then k2 else []) else [CalcHash n (Suc h) pos vTxid]))" for st
    using 1 2 by (cases st) (simp add: Let_def)
  then show ?case by blast
qed

text \<open>Bits and hashes of the walk below a node.\<close>

definition walk :: "nat \<Rightarrow> nat \<Rightarrow> nat \<Rightarrow> uint256 list \<Rightarrow> bool list \<Rightarrow> bool list \<times> uint256 list" where
  "walk n h pos vTxid vMatch = TraverseAndBuild n h pos vTxid vMatch ([], [])"

lemma TraverseAndBuild_walk:
  "TraverseAndBuild n h pos vTxid vMatch (vBits, vHash) =
     (vBits @ fst (walk n h pos vTxid vMatch), vHash @ snd (walk n h pos vTxid vMatch))"
  using TraverseAndBuild_append [of n h pos vTxid vMatch "([], [])"] unfolding walk_def by auto

lemma walk_simps:
  "walk n 0 pos vTxid vMatch = ([parent_of_match n 0 pos vMatch], [CalcHash n 0 pos vTxid])"
  "walk n (Suc h) pos vTxid vMatch =
     (if \<not> parent_of_match n (Suc h) pos vMatch then ([False], [CalcHash n (Suc h) pos vTxid])
      else
        (let (b1, k1) = walk n h (pos * 2) vTxid vMatch;
             (b2, k2) = (if pos * 2 + 1 < CalcTreeWidth n h then walk n h (pos * 2 + 1) vTxid vMatch else ([], []))
         in (True # b1 @ b2, k1 @ k2)))"
proof -
  show "walk n 0 pos vTxid vMatch = ([parent_of_match n 0 pos vMatch], [CalcHash n 0 pos vTxid])"
    by (simp add: walk_def)
  show "walk n (Suc h) pos vTxid vMatch =
     (if \<not> parent_of_match n (Suc h) pos vMatch then ([False], [CalcHash n (Suc h) pos vTxid])
      else
        (let (b1, k1) = walk n h (pos * 2) vTxid vMatch;
             (b2, k2) = (if pos * 2 + 1 < CalcTreeWidth n h then walk n h (pos * 2 + 1) vTxid vMatch else ([], []))
         in (True # b1 @ b2, k1 @ k2)))"
    unfolding walk_def [of n "Suc h"] TraverseAndBuild.simps(2)
    by (simp add: Let_def TraverseAndBuild_walk del: CalcHash.simps split: prod.split)
qed

lemma walk_length:
  assumes "pos < CalcTreeWidth n h"
  shows "length (snd (walk n h pos vTxid vMatch)) \<le> length (fst (walk n h pos vTxid vMatch)) \<and>
    length (snd (walk n h pos vTxid vMatch)) \<le> length (leaves n h pos)"
  using assms
proof (induction h arbitrary: pos)
  case 0
  then show ?case by (simp add: walk_simps CalcTreeWidth_less)
next
  case (Suc h)
  then have "pos * 2 < CalcTreeWidth n h" by (simp add: CalcTreeWidth_Suc)
  note 1 = Suc.IH [OF this]
  show ?case
  proof (cases "parent_of_match n (Suc h) pos vMatch")
    case True
    then show ?thesis
      using 1 Suc.IH [of "pos * 2 + 1"] unfolding leaves_Suc
      by (auto simp: walk_simps Let_def split: prod.split)
  next
    case False
    have "push_bit (Suc h) pos < min (push_bit (Suc h) (pos + 1)) n"
      using Suc.prems unfolding min_less_iff_conj by (simp add: CalcTreeWidth_less push_bit_eq_mult)
    then have "1 \<le> length (leaves n (Suc h) pos)" unfolding length_upt by linarith
    then show ?thesis using False by (simp add: walk_simps)
  qed
qed

lemma drop_Cons:
  assumes "drop k xs = y # ys"
  shows "k < length xs" and "xs ! k = y" and "drop (Suc k) xs = ys"
proof -
  show k: "k < length xs" using assms by (metis drop_all leI list.distinct(1))
  show "xs ! k = y" "drop (Suc k) xs = ys" using assms Cons_nth_drop_Suc [OF k] by simp_all
qed

lemma drop_append_drop: "drop k xs = ys @ zs \<Longrightarrow> drop (k + length ys) xs = zs"
  by (metis add.commute append_eq_conv_conj drop_drop)

lemma take_hash_ok:
  assumes "drop (nHashUsed st) (pt_vHash t) = x # ks"
  shows "take_hash t m st = (x, st\<lparr>nHashUsed := nHashUsed st + 1, found := found st @ (if m then [x] else [])\<rparr>)"
  using drop_Cons [OF assms] by (simp add: take_hash_def Let_def)

lemma TraverseAndExtract_ok:
  assumes "pos < CalcTreeWidth n h" and "pt_nTransactions t = n"
    and "drop (nBitsUsed st) (pt_vBits t) = fst (walk n h pos vTxid vMatch) @ bs"
    and "drop (nHashUsed st) (pt_vHash t) = snd (walk n h pos vTxid vMatch) @ ks"
  shows "TraverseAndExtract t h pos st = (CalcHash n h pos vTxid,
    st\<lparr>nBitsUsed := nBitsUsed st + length (fst (walk n h pos vTxid vMatch)),
      nHashUsed := nHashUsed st + length (snd (walk n h pos vTxid vMatch)),
      found := found st @ matched (leaves n h pos) vTxid vMatch\<rparr>)"
  using assms(1,3,4)
proof (induction h arbitrary: pos st bs ks)
  case 0
  then have "pos < n" by (simp add: CalcTreeWidth_less)
  then have l: "leaves n 0 pos = [pos]" by simp
  have p: "parent_of_match n 0 pos vMatch = vMatch ! pos" unfolding parent_of_match_def l by simp
  show ?case
    using drop_Cons [of "nBitsUsed st" "pt_vBits t"] 0(2,3)
      take_hash_ok [of "st\<lparr>nBitsUsed := nBitsUsed st + 1\<rparr>" t "vTxid ! pos" ks]
    unfolding l by (simp add: walk_simps p matched_def)
next
  case (Suc h)
  let ?p = "parent_of_match n (Suc h) pos vMatch" and ?st = "st\<lparr>nBitsUsed := nBitsUsed st + 1\<rparr>"
  show ?case
  proof (cases ?p)
    case False
    then have w: "walk n (Suc h) pos vTxid vMatch = ([False], [CalcHash n (Suc h) pos vTxid])" by (simp add: walk_simps)
    have b: "nBitsUsed st < length (pt_vBits t)" "pt_vBits t ! nBitsUsed st = False"
      using drop_Cons [of "nBitsUsed st" "pt_vBits t" False bs] Suc.prems(2) by (simp_all add: w)
    have m: "matched (leaves n (Suc h) pos) vTxid vMatch = []"
      using False unfolding parent_of_match_def by (rule matched_Nil)
    show ?thesis
      using b m take_hash_ok [of ?st t "CalcHash n (Suc h) pos vTxid" ks False] Suc.prems(3)
      by (simp add: w Let_def del: CalcHash.simps)
  next
    case True
    obtain b1 k1 where w1: "walk n h (pos * 2) vTxid vMatch = (b1, k1)" by fastforce
    obtain b2 k2 where w2: "(if pos * 2 + 1 < CalcTreeWidth n h then walk n h (pos * 2 + 1) vTxid vMatch else ([], [])) = (b2, k2)"
      by fastforce
    have w: "walk n (Suc h) pos vTxid vMatch = (True # b1 @ b2, k1 @ k2)"
      using True w1 w2 by (simp add: walk_simps)
    have b: "nBitsUsed st < length (pt_vBits t)" "pt_vBits t ! nBitsUsed st"
      and d: "drop (nBitsUsed ?st) (pt_vBits t) = b1 @ b2 @ bs" "drop (nHashUsed ?st) (pt_vHash t) = k1 @ k2 @ ks"
      using drop_Cons [of "nBitsUsed st" "pt_vBits t" True "b1 @ b2 @ bs"] Suc.prems(2,3) by (simp_all add: w)
    have "pos * 2 < CalcTreeWidth n h" using Suc.prems(1) by (simp add: CalcTreeWidth_Suc)
    from Suc.IH [OF this, of ?st "b2 @ bs" "k2 @ ks"] d
    have 1: "TraverseAndExtract t h (pos * 2) ?st = (CalcHash n h (pos * 2) vTxid,
      st\<lparr>nBitsUsed := nBitsUsed st + 1 + length b1, nHashUsed := nHashUsed st + length k1,
        found := found st @ matched (leaves n h (pos * 2)) vTxid vMatch\<rparr>)" (is "_ = (_, ?st1)") by (simp add: w1)
    show ?thesis
    proof (cases "pos * 2 + 1 < CalcTreeWidth n h")
      case w': True
      have "drop (nBitsUsed ?st1) (pt_vBits t) = b2 @ bs" "drop (nHashUsed ?st1) (pt_vHash t) = k2 @ ks"
        using drop_append_drop [OF d(1)] drop_append_drop [OF d(2)] by simp_all
      with Suc.IH [OF w', of ?st1 bs ks] w2 w'
      have "TraverseAndExtract t h (pos * 2 + 1) ?st1 = (CalcHash n h (pos * 2 + 1) vTxid,
        st\<lparr>nBitsUsed := nBitsUsed st + 1 + length b1 + length b2, nHashUsed := nHashUsed st + length k1 + length k2,
          found := found st @ matched (leaves n (Suc h) pos) vTxid vMatch\<rparr>)"
        unfolding leaves_Suc matched_append by simp
      then show ?thesis using b 1 w' assms(2) unfolding w by (simp add: Let_def add.assoc)
    next
      case w': False
      then have "b2 = []" "k2 = []" using w2 by simp_all
      moreover have "leaves n (Suc h) pos = leaves n h (pos * 2)" unfolding leaves_Suc using w' by simp
      ultimately show ?thesis using b 1 w' assms(2) unfolding w by (simp add: Let_def)
    qed
  qed
qed

lemma tree_height_le: "h \<le> k \<Longrightarrow> n \<le> 2 ^ k \<Longrightarrow> tree_height n h \<le> k"
proof (induction n h rule: tree_height.induct)
  case (1 n h)
  show ?case
  proof (cases "CalcTreeWidth n h > 1")
    case True
    then have "2 ^ h < n" using CalcTreeWidth_less [of 1 n h] by simp
    then have "(2 :: nat) ^ h < 2 ^ k" using 1(3) by (rule less_le_trans)
    then have "h < k" by simp
    then show ?thesis using 1 True by (subst tree_height.simps) simp
  qed (use 1 in \<open>subst tree_height.simps; simp\<close>)
qed

lemma tree_height_covers: "n \<le> 2 ^ tree_height n h"
proof (induction n h rule: tree_height.induct)
  case (1 n h)
  show ?case
  proof (cases "CalcTreeWidth n h > 1")
    case True
    then show ?thesis using 1 by (subst tree_height.simps) simp
  next
    case False
    then show ?thesis using CalcTreeWidth_less [of 1 n h] by (subst tree_height.simps) simp
  qed
qed

lemma walk_bits: "length (fst (walk n h pos vTxid vMatch)) < 2 ^ (h + 1)"
proof (induction h arbitrary: pos)
  case (Suc h)
  show ?case using Suc [of "pos * 2"] Suc [of "pos * 2 + 1"] one_le_power [of "2 :: nat" h]
    by (auto simp: walk_simps Let_def split: prod.split)
qed (simp add: walk_simps)

lemma matched_zip:
  "length vTxid = length vMatch \<Longrightarrow> matched [0..<length vTxid] vTxid vMatch = map fst (filter snd (zip vTxid vMatch))"
proof (induction vTxid vMatch rule: rev_induct2)
  case (4 x xs y ys)
  have f: "filter (\<lambda>p. (ys @ [y]) ! p) [0..<length xs] = filter (\<lambda>p. ys ! p) [0..<length xs]"
    using 4(2) by (intro filter_cong) (auto simp: nth_append)
  have "map (\<lambda>p. (xs @ [x]) ! p) (filter (\<lambda>p. ys ! p) [0..<length xs]) =
      map (\<lambda>p. xs ! p) (filter (\<lambda>p. ys ! p) [0..<length xs])"
    by (rule map_cong) (auto simp: nth_append)
  then have "matched [0..<length xs] (xs @ [x]) (ys @ [y]) = matched [0..<length xs] xs ys"
    unfolding matched_def f .
  moreover have "matched [length xs] (xs @ [x]) (ys @ [y]) = (if y then [x] else [])"
    using 4(2) by (auto simp: matched_def nth_append)
  ultimately show ?case using 4 by (simp add: matched_append)
qed (simp_all add: matched_def)

text \<open>The bits that pad the last byte are not used.\<close>

lemma CPartialMerkleTree_of_Some:
  "vTxid \<noteq> [] \<Longrightarrow> \<exists>t. CPartialMerkleTree_of vTxid vMatch = Some t \<and> pt_nTransactions t = length vTxid"
  by (cases "TraverseAndBuild (length vTxid) (tree_height (length vTxid) 0) 0 vTxid vMatch ([], [])")
    (simp add: CPartialMerkleTree_of_def)

lemma ExtractMatches_ok:
  assumes "CPartialMerkleTree_of vTxid vMatch = Some t" and "length vTxid = length vMatch"
    and "length vTxid \<le> MAX_BLOCK_SIZE_CURRENT div 60"
    and "(length (pt_vBits t @ pad) + 7) div 8 = (length (pt_vBits t) + 7) div 8"
  shows "ExtractMatches (t\<lparr>pt_vBits := pt_vBits t @ pad\<rparr>) =
    (merkle_root vTxid, map fst (filter snd (zip vTxid vMatch)))"
proof -
  let ?n = "length vTxid" and ?h = "tree_height (length vTxid) 0" and ?t = "t\<lparr>pt_vBits := pt_vBits t @ pad\<rparr>"
  obtain b k where w: "walk ?n ?h 0 vTxid vMatch = (b, k)" by fastforce
  have ne: "vTxid \<noteq> []" and t: "t = \<lparr>pt_nTransactions = ?n, pt_vBits = b, pt_vHash = k, pt_fBad = False\<rparr>"
    using assms(1) w by (auto simp: CPartialMerkleTree_of_def walk_def Let_def split: if_splits)
  have pos: "0 < CalcTreeWidth ?n ?h" using ne by (simp add: CalcTreeWidth_less)
  have l: "leaves ?n ?h 0 = [0..<?n]" using tree_height_covers [of ?n 0] by (simp add: push_bit_eq_mult)
  have len: "length k \<le> length b" "length k \<le> ?n" using walk_length [OF pos, of vTxid vMatch] unfolding l w by simp_all
  have "TraverseAndExtract ?t ?h 0 \<lparr>nBitsUsed = 0, nHashUsed = 0, found = [], fBad = False\<rparr> =
    (merkle_root vTxid, \<lparr>nBitsUsed = length b, nHashUsed = length k,
      found = map fst (filter snd (zip vTxid vMatch)), fBad = False\<rparr>)"
    using TraverseAndExtract_ok [OF pos, of ?t "\<lparr>nBitsUsed = 0, nHashUsed = 0, found = [], fBad = False\<rparr>" vTxid vMatch pad "[]"]
      tree_height_root [OF ne] matched_zip [OF assms(2)]
    unfolding l w by (simp add: t)
  then show ?thesis using ne len assms(3,4) by (simp add: ExtractMatches_def t)
qed

section \<open>Nothing else is extracted\<close>

lemma take_hash_sound:
  assumes "take_hash t m st = (x, st')" and "\<not> fBad st'"
  shows "\<not> fBad st \<and> found st' = found st @ (if m then [x] else [])"
  using assms by (auto simp: take_hash_def Let_def split: if_splits)

text \<open>The pairs of hashes that \<open>TraverseAndExtract\<close> hashes on its way.\<close>

fun extract_pairs :: "CPartialMerkleTree \<Rightarrow> nat \<Rightarrow> nat \<Rightarrow> extract_state \<Rightarrow> (uint256 \<times> uint256) list" where
  "extract_pairs t 0 pos st = []"
| "extract_pairs t (Suc height) pos st =
     (if nBitsUsed st \<ge> length (pt_vBits t) \<or> \<not> pt_vBits t ! nBitsUsed st then []
      else
        (let st = st\<lparr>nBitsUsed := nBitsUsed st + 1\<rparr>;
             (left, st1) = TraverseAndExtract t height (pos * 2) st
         in if pos * 2 + 1 < CalcTreeWidth (pt_nTransactions t) height
            then (left, fst (TraverseAndExtract t height (pos * 2 + 1) st1)) #
              extract_pairs t height (pos * 2) st @ extract_pairs t height (pos * 2 + 1) st1
            else (left, left) # extract_pairs t height (pos * 2) st))"

definition root_pairs :: "CPartialMerkleTree \<Rightarrow> (uint256 \<times> uint256) list" where
  "root_pairs t = extract_pairs t (tree_height (pt_nTransactions t) 0) 0
     \<lparr>nBitsUsed = 0, nHashUsed = 0, found = [], fBad = pt_fBad t\<rparr>"

lemma nth_pairs: "k < length (up r) \<Longrightarrow> pairs r ! k = (r ! (2 * k), r ! min (2 * k + 1) (length r - 1))"
proof (induction r arbitrary: k rule: pairs.induct)
  case (3 a b r)
  then show ?case by (cases k) (auto simp: min_def length_up nth_Cons')
qed auto

lemma ups_tree_pairs: "length ((up ^^ h) r) > 1 \<Longrightarrow> set (pairs ((up ^^ h) r)) \<subseteq> set (tree_pairs r)"
proof (induction h arbitrary: r)
  case 0
  then show ?case by (simp add: tree_pairs.simps [of r])
next
  case (Suc h)
  have "length ((up ^^ h) (up r)) > 1" using Suc.prems by (simp add: funpow_swap1)
  moreover have "length r > 1"
  proof -
    have "2 ^ Suc h < length r" using Suc.prems CalcTreeWidth_less [of 1 "length r" "Suc h"] by (simp only: length_ups mult_1)
    moreover have "(1 :: nat) \<le> 2 ^ Suc h" by simp
    ultimately show ?thesis by linarith
  qed
  ultimately show ?case using Suc.IH [of "up r"] by (auto simp: tree_pairs.simps [of r] funpow_swap1)
qed

lemma tree_height_wide: "k \<le> h \<Longrightarrow> h < tree_height n k \<Longrightarrow> CalcTreeWidth n h > 1"
proof (induction n k rule: tree_height.induct)
  case (1 n k)
  show ?case
  proof (cases "CalcTreeWidth n k > 1")
    case True
    then show ?thesis using 1 by (cases "h = k") (auto simp: tree_height.simps [of n k])
  next
    case False
    then show ?thesis using "1.prems" by (simp add: tree_height.simps [of n k])
  qed
qed

lemma CalcHash_pair:
  assumes "pos < CalcTreeWidth (length r) (Suc h)" and "Suc h \<le> tree_height (length r) 0"
  shows "(CalcHash (length r) h (pos * 2) r,
      if pos * 2 + 1 < CalcTreeWidth (length r) h then CalcHash (length r) h (pos * 2 + 1) r
      else CalcHash (length r) h (pos * 2) r) \<in> set (tree_pairs r)"
proof -
  let ?l = "(up ^^ h) r"
  have l: "length ?l = CalcTreeWidth (length r) h" by (rule length_ups)
  have pos: "pos < length (up ?l)" using assms(1) by (simp add: length_up l CalcTreeWidth_Suc)
  then have 2: "2 * pos < length ?l" by (simp add: length_up)
  have "length ?l > 1" using tree_height_wide [of 0 h "length r"] assms(2) by (simp add: l)
  from ups_tree_pairs [OF this] have m: "pairs ?l ! pos \<in> set (tree_pairs r)"
    using pos by (metis length_map nth_mem subsetD up_pairs)
  show ?thesis
  proof (cases "pos * 2 + 1 < CalcTreeWidth (length r) h")
    case True
    then have "min (2 * pos + 1) (length ?l - 1) = 2 * pos + 1" using l by simp
    then show ?thesis using m True 2 l nth_pairs [OF pos] CalcHash_ups [of "pos * 2" r h] CalcHash_ups [of "pos * 2 + 1" r h]
      by (simp add: mult.commute)
  next
    case False
    then have "min (2 * pos + 1) (length ?l - 1) = 2 * pos" using l 2 by simp
    then show ?thesis using m False 2 l nth_pairs [OF pos] CalcHash_ups [of "pos * 2" r h]
      by (simp add: mult.commute)
  qed
qed

lemma TraverseAndExtract_sound:
  assumes "pos < CalcTreeWidth n h" and "pt_nTransactions t = n" and "length vTxid = n"
    and "h \<le> tree_height n 0"
    and "TraverseAndExtract t h pos st = (x, st')" and "\<not> fBad st'"
    and "\<not> collision (extract_pairs t h pos st) (tree_pairs vTxid)"
  shows "\<not> fBad st \<and> (x = CalcHash n h pos vTxid \<longrightarrow>
    (\<exists>ms. found st' = found st @ ms \<and> set ms \<subseteq> set vTxid))"
  using assms(1,4-7)
proof (induction h arbitrary: pos st x st')
  case 0
  then have "pos < n" by (simp add: CalcTreeWidth_less)
  have e: "nBitsUsed st < length (pt_vBits t)"
      "take_hash t (pt_vBits t ! nBitsUsed st) (st\<lparr>nBitsUsed := nBitsUsed st + 1\<rparr>) = (x, st')"
    using 0(3,4) by (auto split: if_splits)
  from take_hash_sound [OF e(2) 0(4)] have "\<not> fBad st"
    "found st' = found st @ (if pt_vBits t ! nBitsUsed st then [x] else [])" by simp_all
  moreover have "x = CalcHash n 0 pos vTxid \<Longrightarrow> x \<in> set vTxid" using \<open>pos < n\<close> assms(3) by simp
  ultimately show ?case by auto
next
  case (Suc h)
  let ?st = "st\<lparr>nBitsUsed := nBitsUsed st + 1\<rparr>"
  note run = Suc.prems(3) and ok = Suc.prems(4)
  have len: "nBitsUsed st < length (pt_vBits t)" using run ok by (auto split: if_splits)
  show ?case
  proof (cases "pt_vBits t ! nBitsUsed st")
    case False
    then have "take_hash t False ?st = (x, st')" using run len by (simp add: Let_def)
    from take_hash_sound [OF this ok] show ?thesis by simp
  next
    case True
    let ?w = "pos * 2 + 1 < CalcTreeWidth n h"
    obtain l st1 where 1: "TraverseAndExtract t h (pos * 2) ?st = (l, st1)" by fastforce
    obtain r st2 where 2: "(if ?w then TraverseAndExtract t h (pos * 2 + 1) st1 else (l, st1)) = (r, st2)"
      by fastforce
    have x: "x = node_hash l r" "st' = st2" using run len True 1 2 assms(2) by (simp_all add: Let_def)
    have ps: "extract_pairs t (Suc h) pos st = (l, r) # extract_pairs t h (pos * 2) ?st @
        (if ?w then extract_pairs t h (pos * 2 + 1) st1 else [])"
      using len True 1 2 assms(2) by (auto simp: Let_def split: if_splits)
    have nc: "\<not> collision (extract_pairs t h (pos * 2) ?st) (tree_pairs vTxid)"
      "?w \<Longrightarrow> \<not> collision (extract_pairs t h (pos * 2 + 1) st1) (tree_pairs vTxid)"
      "\<not> collision [(l, r)] (tree_pairs vTxid)"
      using Suc.prems(5) unfolding ps collision_def by auto
    have w: "pos * 2 < CalcTreeWidth n h" using Suc.prems(1) by (simp add: CalcTreeWidth_Suc)
    let ?L = "CalcHash n h (pos * 2) vTxid"
    let ?R = "if ?w then CalcHash n h (pos * 2 + 1) vTxid else ?L"
    have R: "\<not> fBad st1 \<and> (r = ?R \<longrightarrow> l = ?L \<longrightarrow> (\<exists>ms. found st2 = found st1 @ ms \<and> set ms \<subseteq> set vTxid))"
    proof (cases ?w)
      case w': True
      then have "TraverseAndExtract t h (pos * 2 + 1) st1 = (r, st2)" using 2 by simp
      from Suc.IH [OF w' _ this] Suc.prems(2) ok nc(2) x(2) w' show ?thesis by simp
    next
      case False
      then show ?thesis using 2 ok x(2) by simp
    qed
    then have "\<not> fBad st1" by blast
    from Suc.IH [OF w _ 1 this nc(1)] Suc.prems(2)
    have L: "\<not> fBad st \<and> (l = ?L \<longrightarrow> (\<exists>ms. found st1 = found st @ ms \<and> set ms \<subseteq> set vTxid))" by simp
    have "\<exists>ms. found st' = found st @ ms \<and> set ms \<subseteq> set vTxid" if "x = CalcHash n (Suc h) pos vTxid"
    proof -
      have "node_hash l r = node_hash ?L ?R" using that x(1) by (simp add: Let_def)
      moreover have "(?L, ?R) \<in> set (tree_pairs vTxid)"
        using CalcHash_pair [of pos vTxid h, unfolded assms(3)] Suc.prems(1,2) by blast
      ultimately have "(l, r) = (?L, ?R)" using nc(3) unfolding collision_iff by (metis list.set_intros(1))
      then obtain m1 m2 where "found st1 = found st @ m1" "set m1 \<subseteq> set vTxid"
        "found st2 = found st1 @ m2" "set m2 \<subseteq> set vTxid" using L R by blast
      then show ?thesis using x(2) by (intro exI [of _ "m1 @ m2"]) simp
    qed
    then show ?thesis using L by blast
  qed
qed

lemma ExtractMatches_sound:
  assumes "fst (ExtractMatches t) = merkle_root vTxid" and "merkle_root vTxid \<noteq> 0"
    and "pt_nTransactions t = length vTxid"
  shows "set (snd (ExtractMatches t)) \<subseteq> set vTxid \<or> collision (root_pairs t) (tree_pairs vTxid)"
proof (cases "collision (root_pairs t) (tree_pairs vTxid)")
  case False
  let ?n = "length vTxid" and ?h = "tree_height (length vTxid) 0"
  have ne: "vTxid \<noteq> []" using assms(2) by (auto simp: merkle_root_def)
  obtain x st where x: "TraverseAndExtract t ?h 0 \<lparr>nBitsUsed = 0, nHashUsed = 0, found = [], fBad = pt_fBad t\<rparr> = (x, st)"
    by fastforce
  have e: "ExtractMatches t = (x, found st)" "\<not> fBad st"
    using assms x by (auto simp: ExtractMatches_def Let_def split: if_splits)
  have "0 < CalcTreeWidth ?n ?h" using ne by (simp add: CalcTreeWidth_less)
  from TraverseAndExtract_sound [OF this assms(3) refl order_refl x e(2)] False
  show ?thesis using e(1) assms(1,3) tree_height_root [OF ne] by (auto simp: root_pairs_def)
qed simp

section \<open>Sending a tree\<close>

lemma pack_fold:
  defines "F \<equiv> \<lambda>bits vBytes p. (vBytes :: byte list)[p div 8 := vBytes ! (p div 8) OR push_bit (p mod 8) (of_bool (bits ! p))]"
  assumes "\<forall>p \<in> set ps. p div 8 < length v"
  shows "length (foldl (F bits) v ps) = length v \<and>
    (\<forall>q r. q < length v \<longrightarrow> r < 8 \<longrightarrow> bit (foldl (F bits) v ps ! q) r = (bit (v ! q) r \<or> 8 * q + r \<in> set ps \<and> bits ! (8 * q + r)))"
  using assms(2)
proof (induction ps arbitrary: v)
  case (Cons p ps)
  have l: "length (F bits v p) = length v" by (simp add: F_def)
  have b: "bit (F bits v p ! q) r = (bit (v ! q) r \<or> 8 * q + r = p \<and> bits ! p)" if "q < length v" "r < 8" for q r
  proof (cases "q = p div 8")
    case True
    then have "8 * q + r = p \<longleftrightarrow> r = p mod 8" by (metis add_left_cancel mult_div_mod_eq)
    then show ?thesis using that True by (auto simp: F_def bit_simps)
  next
    case False
    then have "8 * q + r \<noteq> p" using that(2) by auto
    then show ?thesis using False by (simp add: F_def)
  qed
  show ?case using Cons.IH [of "F bits v p"] Cons.prems l b by (auto simp: F_def [symmetric])
qed simp

lemma length_pack_bits: "length (pack_bits bits) = (length bits + 7) div 8"
proof -
  have p: "\<forall>p \<in> set [0..<length bits]. p div 8 < length (replicate ((length bits + 7) div 8) (0 :: byte))" by auto
  show ?thesis using pack_fold [OF p, of bits, folded pack_bits_def] by simp
qed

lemma unpack_pack: "unpack_bits (pack_bits bits) = bits @ replicate (8 * ((length bits + 7) div 8) - length bits) False"
proof -
  let ?n = "(length bits + 7) div 8"
  have p: "\<forall>p \<in> set [0..<length bits]. p div 8 < length (replicate ?n (0 :: byte))" by auto
  note f = pack_fold [OF p, of bits, folded pack_bits_def]
  have l: "length (pack_bits bits) = ?n" by (rule length_pack_bits)
  show ?thesis
  proof (rule nth_equalityI)
    show "length (unpack_bits (pack_bits bits)) = length (bits @ replicate (8 * ?n - length bits) False)"
      by (simp add: unpack_bits_def l)
    fix i assume "i < length (unpack_bits (pack_bits bits))"
    then have i: "i < 8 * ?n" by (simp add: unpack_bits_def l)
    then have "bit (pack_bits bits ! (i div 8)) (i mod 8) \<longleftrightarrow> i < length bits \<and> bits ! i"
      using f by (auto simp: less_mult_imp_div_less)
    then show "unpack_bits (pack_bits bits) ! i = (bits @ replicate (8 * ?n - length bits) False) ! i"
      using i by (auto simp: unpack_bits_def l nth_append push_bit_of_1 and_exp_eq_0_iff_not_bit)
  qed
qed

lemma unser_ser_tree:
  assumes "CPartialMerkleTree_of vTxid vMatch = Some t" and "length vTxid \<le> MAX_BLOCK_SIZE_CURRENT div 60"
  shows "\<exists>pad. unser_CPartialMerkleTree (ser_CPartialMerkleTree t @ r) =
      Inr (t\<lparr>pt_vBits := pt_vBits t @ pad\<rparr>, r) \<and>
    (length (pt_vBits t @ pad) + 7) div 8 = (length (pt_vBits t) + 7) div 8"
proof -
  let ?n = "length vTxid" and ?h = "tree_height (length vTxid) 0"
  obtain b k where w: "walk ?n ?h 0 vTxid vMatch = (b, k)" by fastforce
  have ne: "vTxid \<noteq> []" and t: "t = \<lparr>pt_nTransactions = ?n, pt_vBits = b, pt_vHash = k, pt_fBad = False\<rparr>"
    using assms(1) w by (auto simp: CPartialMerkleTree_of_def walk_def Let_def split: if_splits)
  have n: "?n \<le> 69905" using assms(2) by (simp add: MAX_BLOCK_SIZE_CURRENT_def)
  have pos: "0 < CalcTreeWidth ?n ?h" using ne by (simp add: CalcTreeWidth_less)
  have "length k \<le> length (leaves ?n ?h 0)" using walk_length [OF pos, of vTxid vMatch] by (simp only: w snd_conv)
  then have lk: "length k \<le> MAX_SIZE" using n by (simp add: MAX_SIZE_def)
  have "?h \<le> 17" using n by (intro tree_height_le) simp_all
  then have "(2 :: nat) ^ (?h + 1) \<le> 2 ^ 18" by (intro power_increasing) simp_all
  then have "length b < 2 ^ 18" using walk_bits [of ?n ?h 0 vTxid vMatch] by (simp add: w)
  then have lb: "(length b + 7) div 8 \<le> MAX_SIZE" by (simp add: MAX_SIZE_def)
  have lp: "length (pack_bits b) = (length b + 7) div 8"
    by (rule length_pack_bits)
  let ?pad = "replicate (8 * ((length b + 7) div 8) - length b) False"
  have "(8 * ((length b + 7) div 8) + 7) div 8 = (length b + 7) div 8" by simp
  moreover have "length b \<le> 8 * ((length b + 7) div 8)" by linarith
  ultimately have "(length (b @ ?pad) + 7) div 8 = (length b + 7) div 8" by simp
  moreover have "unser_CPartialMerkleTree (ser_CPartialMerkleTree t @ r) = Inr (t\<lparr>pt_vBits := b @ ?pad\<rparr>, r)"
  proof -
    have "unser_vector unser_uint256 (ser_vector uint256_bytes k @ s) = Inr (k, s)" for s
      using u256.vec.unser_ser [of k s] lk by (simp add: list_all_iff)
    then show ?thesis using n lb lp unat_of_nat_u32 [of ?n]
      by (simp add: unser_CPartialMerkleTree_def ser_CPartialMerkleTree_def t u32.unser_ser
          bytes.unser_ser unpack_pack)
  qed
  ultimately show ?thesis by (auto simp: t)
qed

section \<open>Consequences\<close>

text \<open>
  A partial Merkle tree built for a block of 1 to 69905 transactions, serialized and read back,
  extracts the Merkle root of the block and exactly the matched transaction ids, in their order;
  the bits that fill up the last byte do no harm.
\<close>

lemma partial_merkle:
  assumes "vTxid \<noteq> []" and "length vTxid = length vMatch" and "length vTxid \<le> MAX_BLOCK_SIZE_CURRENT div 60"
  shows "\<exists>t t'. CPartialMerkleTree_of vTxid vMatch = Some t \<and>
    unser_CPartialMerkleTree (ser_CPartialMerkleTree t @ r) = Inr (t', r) \<and>
    ExtractMatches t' = (fst (BuildMerkleTree vTxid), map fst (filter snd (zip vTxid vMatch)))"
proof -
  obtain t where t: "CPartialMerkleTree_of vTxid vMatch = Some t"
    using CPartialMerkleTree_of_Some [OF assms(1)] by blast
  from unser_ser_tree [OF t assms(3), of r] obtain pad where
    u: "unser_CPartialMerkleTree (ser_CPartialMerkleTree t @ r) = Inr (t\<lparr>pt_vBits := pt_vBits t @ pad\<rparr>, r)" and
    p: "(length (pt_vBits t @ pad) + 7) div 8 = (length (pt_vBits t) + 7) div 8" by blast
  from ExtractMatches_ok [OF t assms(2,3) p] t u show ?thesis by (simp add: BuildMerkleTree_eq)
qed

section \<open>Properties\<close>

text \<open>
  C23. Whatever partial tree a peer makes up, with the number of transactions of a block and
  accepted with its Merkle root, every transaction id it extracts is in the block, unless a pair
  of hashes it walks through and another pair of the tree of the block have the same hash.
\<close>

theorem partial_merkle_sound:
  assumes "ExtractMatches t = (root, matches)" and "root = fst (BuildMerkleTree vTxid)" and "root \<noteq> 0"
    and "pt_nTransactions t = length vTxid"
  shows "set matches \<subseteq> set vTxid \<or> collision (root_pairs t) (tree_pairs vTxid)"
  using ExtractMatches_sound [of t vTxid] assms by (simp add: BuildMerkleTree_eq)

theorem partial_merkle_sound_witness:
  "\<exists>t. ExtractMatches t = (5, [5]) \<and> (set [5 :: uint256] \<subseteq> set [5] \<or> collision (root_pairs t) (tree_pairs [5]))"
proof -
  have b: "fst (BuildMerkleTree [5]) = 5" by (simp add: BuildMerkleTree_eq)
  obtain t where t: "CPartialMerkleTree_of [5] [True] = Some t" and n: "pt_nTransactions t = 1"
    using CPartialMerkleTree_of_Some [of "[5]" "[True]"] by auto
  have e: "ExtractMatches t = (5, [5])"
    using ExtractMatches_ok [OF t, of "[]"] by (simp add: MAX_BLOCK_SIZE_CURRENT_def)
  from partial_merkle_sound [OF e, of "[5]"] e n b show ?thesis by auto
qed

end
