(* ===== verification/SigEncoding.thy ===== *)
theory SigEncoding
  imports Script
begin

text \<open>
  The checks on the form of signatures and public keys the interpreter makes before it verifies
  anything: \<open>src/script/script_error.h\<close> and \<open>.cpp\<close>, the verification flags of
  \<open>src/script/interpreter.h\<close>, \<open>src/eccryptoverify.cpp\<close> and the static functions at the top of
  \<open>src/script/interpreter.cpp\<close>. A function that returns \<open>false\<close> after setting \<open>*serror\<close> returns
  that error here, and \<open>None\<close> where the source returns \<open>true\<close>.
\<close>

section \<open>Errors and flags\<close>

datatype ScriptError =
    SCRIPT_ERR_OK
  | SCRIPT_ERR_UNKNOWN_ERROR
  | SCRIPT_ERR_EVAL_FALSE
  | SCRIPT_ERR_OP_RETURN
  | SCRIPT_ERR_SCRIPT_SIZE
  | SCRIPT_ERR_PUSH_SIZE
  | SCRIPT_ERR_OP_COUNT
  | SCRIPT_ERR_STACK_SIZE
  | SCRIPT_ERR_SIG_COUNT
  | SCRIPT_ERR_PUBKEY_COUNT
  | SCRIPT_ERR_VERIFY
  | SCRIPT_ERR_EQUALVERIFY
  | SCRIPT_ERR_CHECKMULTISIGVERIFY
  | SCRIPT_ERR_CHECKSIGVERIFY
  | SCRIPT_ERR_NUMEQUALVERIFY
  | SCRIPT_ERR_BAD_OPCODE
  | SCRIPT_ERR_DISABLED_OPCODE
  | SCRIPT_ERR_INVALID_STACK_OPERATION
  | SCRIPT_ERR_INVALID_ALTSTACK_OPERATION
  | SCRIPT_ERR_UNBALANCED_CONDITIONAL
  | SCRIPT_ERR_SIG_HASHTYPE
  | SCRIPT_ERR_SIG_DER
  | SCRIPT_ERR_MINIMALDATA
  | SCRIPT_ERR_SIG_PUSHONLY
  | SCRIPT_ERR_SIG_HIGH_S
  | SCRIPT_ERR_SIG_NULLDUMMY
  | SCRIPT_ERR_PUBKEYTYPE
  | SCRIPT_ERR_DISCOURAGE_UPGRADABLE_NOPS
  | SCRIPT_ERR_ERROR_COUNT

fun ScriptErrorString :: "ScriptError \<Rightarrow> string" where
  "ScriptErrorString SCRIPT_ERR_OK = ''No error''"
| "ScriptErrorString SCRIPT_ERR_EVAL_FALSE = ''Script evaluated without error but finished with a false/empty top stack element''"
| "ScriptErrorString SCRIPT_ERR_VERIFY = ''Script failed an OP_VERIFY operation''"
| "ScriptErrorString SCRIPT_ERR_EQUALVERIFY = ''Script failed an OP_EQUALVERIFY operation''"
| "ScriptErrorString SCRIPT_ERR_CHECKMULTISIGVERIFY = ''Script failed an OP_CHECKMULTISIGVERIFY operation''"
| "ScriptErrorString SCRIPT_ERR_CHECKSIGVERIFY = ''Script failed an OP_CHECKSIGVERIFY operation''"
| "ScriptErrorString SCRIPT_ERR_NUMEQUALVERIFY = ''Script failed an OP_NUMEQUALVERIFY operation''"
| "ScriptErrorString SCRIPT_ERR_SCRIPT_SIZE = ''Script is too big''"
| "ScriptErrorString SCRIPT_ERR_PUSH_SIZE = ''Push value size limit exceeded''"
| "ScriptErrorString SCRIPT_ERR_OP_COUNT = ''Operation limit exceeded''"
| "ScriptErrorString SCRIPT_ERR_STACK_SIZE = ''Stack size limit exceeded''"
| "ScriptErrorString SCRIPT_ERR_SIG_COUNT = ''Signature count negative or greater than pubkey count''"
| "ScriptErrorString SCRIPT_ERR_PUBKEY_COUNT = ''Pubkey count negative or limit exceeded''"
| "ScriptErrorString SCRIPT_ERR_BAD_OPCODE = ''Opcode missing or not understood''"
| "ScriptErrorString SCRIPT_ERR_DISABLED_OPCODE = ''Attempted to use a disabled opcode''"
| "ScriptErrorString SCRIPT_ERR_INVALID_STACK_OPERATION = ''Operation not valid with the current stack size''"
| "ScriptErrorString SCRIPT_ERR_INVALID_ALTSTACK_OPERATION = ''Operation not valid with the current altstack size''"
| "ScriptErrorString SCRIPT_ERR_OP_RETURN = ''OP_RETURN was encountered''"
| "ScriptErrorString SCRIPT_ERR_UNBALANCED_CONDITIONAL = ''Invalid OP_IF construction''"
| "ScriptErrorString SCRIPT_ERR_SIG_HASHTYPE = ''Signature hash type missing or not understood''"
| "ScriptErrorString SCRIPT_ERR_SIG_DER = ''Non-canonical DER signature''"
| "ScriptErrorString SCRIPT_ERR_MINIMALDATA = ''Data push larger than necessary''"
| "ScriptErrorString SCRIPT_ERR_SIG_PUSHONLY = ''Only non-push operators allowed in signatures''"
| "ScriptErrorString SCRIPT_ERR_SIG_HIGH_S = ''Non-canonical signature: S value is unnecessarily high''"
| "ScriptErrorString SCRIPT_ERR_SIG_NULLDUMMY = ''Dummy CHECKMULTISIG argument must be zero''"
| "ScriptErrorString SCRIPT_ERR_DISCOURAGE_UPGRADABLE_NOPS = ''NOPx reserved for soft-fork upgrades''"
| "ScriptErrorString SCRIPT_ERR_PUBKEYTYPE = ''Public key is neither compressed or uncompressed''"
| "ScriptErrorString _ = ''unknown error''"

abbreviation SCRIPT_VERIFY_NONE :: u32 where "SCRIPT_VERIFY_NONE \<equiv> 0"

abbreviation SCRIPT_VERIFY_P2SH :: u32 where "SCRIPT_VERIFY_P2SH \<equiv> 1"

abbreviation SCRIPT_VERIFY_STRICTENC :: u32 where "SCRIPT_VERIFY_STRICTENC \<equiv> 2"

abbreviation SCRIPT_VERIFY_DERSIG :: u32 where "SCRIPT_VERIFY_DERSIG \<equiv> 4"

abbreviation SCRIPT_VERIFY_LOW_S :: u32 where "SCRIPT_VERIFY_LOW_S \<equiv> 8"

abbreviation SCRIPT_VERIFY_NULLDUMMY :: u32 where "SCRIPT_VERIFY_NULLDUMMY \<equiv> 16"

abbreviation SCRIPT_VERIFY_SIGPUSHONLY :: u32 where "SCRIPT_VERIFY_SIGPUSHONLY \<equiv> 32"

abbreviation SCRIPT_VERIFY_MINIMALDATA :: u32 where "SCRIPT_VERIFY_MINIMALDATA \<equiv> 64"

abbreviation SCRIPT_VERIFY_DISCOURAGE_UPGRADABLE_NOPS :: u32 where "SCRIPT_VERIFY_DISCOURAGE_UPGRADABLE_NOPS \<equiv> 128"

abbreviation SIGHASH_ALL :: u32 where "SIGHASH_ALL \<equiv> 1"

abbreviation SIGHASH_NONE :: u32 where "SIGHASH_NONE \<equiv> 2"

abbreviation SIGHASH_SINGLE :: u32 where "SIGHASH_SINGLE \<equiv> 3"

abbreviation SIGHASH_ANYONECANPAY :: u32 where "SIGHASH_ANYONECANPAY \<equiv> 0x80"

section \<open>Comparing big-endian numbers (eccryptoverify.cpp)\<close>

definition vchMaxModOrder :: "byte list" where
  "vchMaxModOrder = [
    0xFF, 0xFF, 0xFF, 0xFF, 0xFF, 0xFF, 0xFF, 0xFF,
    0xFF, 0xFF, 0xFF, 0xFF, 0xFF, 0xFF, 0xFF, 0xFE,
    0xBA, 0xAE, 0xDC, 0xE6, 0xAF, 0x48, 0xA0, 0x3B,
    0xBF, 0xD2, 0x5E, 0x8C, 0xD0, 0x36, 0x41, 0x40]"

definition vchMaxModHalfOrder :: "byte list" where
  "vchMaxModHalfOrder = [
    0x7F, 0xFF, 0xFF, 0xFF, 0xFF, 0xFF, 0xFF, 0xFF,
    0xFF, 0xFF, 0xFF, 0xFF, 0xFF, 0xFF, 0xFF, 0xFF,
    0x5D, 0x57, 0x6E, 0x73, 0x57, 0xA4, 0x50, 0x1D,
    0xDF, 0xE9, 0x2F, 0x46, 0x68, 0x1B, 0x20, 0xA0]"

text \<open>\<open>while (c1len > c2len) { if ( *c1) return 1; c1++; c1len--; }\<close>: \<open>None\<close> when it returns.\<close>

fun skip_zeros :: "byte list \<Rightarrow> nat \<Rightarrow> byte list option" where
  "skip_zeros [] n = Some []"
| "skip_zeros (c # cs) n =
     (if length (c # cs) > n then (if c \<noteq> 0 then None else skip_zeros cs n) else Some (c # cs))"

fun compare_bytes :: "byte list \<Rightarrow> byte list \<Rightarrow> int" where
  "compare_bytes (a # as) (b # bs) =
     (if a > b then 1 else if b > a then -1 else compare_bytes as bs)"
| "compare_bytes _ _ = 0"

definition CompareBigEndian :: "byte list \<Rightarrow> byte list \<Rightarrow> int" where
  "CompareBigEndian c1 c2 =
     (case skip_zeros c1 (length c2) of
        None \<Rightarrow> 1
      | Some c1 \<Rightarrow>
          (case skip_zeros c2 (length c1) of
             None \<Rightarrow> -1
           | Some c2 \<Rightarrow> compare_bytes c1 c2))"

definition Check :: "byte list \<Rightarrow> bool" where
  "Check vch \<longleftrightarrow>
     CompareBigEndian (take 32 vch) [] > 0 \<and> CompareBigEndian (take 32 vch) vchMaxModOrder \<le> 0"

definition CheckSignatureElement :: "byte list \<Rightarrow> bool \<Rightarrow> bool" where
  "CheckSignatureElement vch half \<longleftrightarrow>
     CompareBigEndian vch [] > 0 \<and>
     CompareBigEndian vch (if half then vchMaxModHalfOrder else vchMaxModOrder) \<le> 0"

section \<open>The encodings (interpreter.cpp)\<close>

definition IsCompressedOrUncompressedPubKey :: "valtype \<Rightarrow> bool" where
  "IsCompressedOrUncompressedPubKey vchPubKey \<longleftrightarrow>
     (if length vchPubKey < 33 then False
      else if vchPubKey ! 0 = 0x04 then
        (if length vchPubKey \<noteq> 65 then False else True)
      else if vchPubKey ! 0 = 0x02 \<or> vchPubKey ! 0 = 0x03 then
        (if length vchPubKey \<noteq> 33 then False else True)
      else False)"

definition IsValidSignatureEncoding :: "valtype \<Rightarrow> bool" where
  "IsValidSignatureEncoding sig \<longleftrightarrow>
     (if length sig < 9 then False
      else if length sig > 73 then False
      else if sig ! 0 \<noteq> 0x30 then False
      else if unat (sig ! 1) \<noteq> length sig - 3 then False
      else let lenR = unat (sig ! 3) in
        if 5 + lenR \<ge> length sig then False
        else let lenS = unat (sig ! (5 + lenR)) in
          if lenR + lenS + 7 \<noteq> length sig then False
          else if sig ! 2 \<noteq> 0x02 then False
          else if lenR = 0 then False
          else if sig ! 4 AND 0x80 \<noteq> 0 then False
          else if lenR > 1 \<and> sig ! 4 = 0x00 \<and> \<not> (sig ! 5 AND 0x80 \<noteq> 0) then False
          else if sig ! (lenR + 4) \<noteq> 0x02 then False
          else if lenS = 0 then False
          else if sig ! (lenR + 6) AND 0x80 \<noteq> 0 then False
          else if lenS > 1 \<and> sig ! (lenR + 6) = 0x00 \<and> \<not> (sig ! (lenR + 7) AND 0x80 \<noteq> 0) then False
          else True)"

definition IsLowDERSignature :: "valtype \<Rightarrow> ScriptError option" where
  "IsLowDERSignature vchSig =
     (if \<not> IsValidSignatureEncoding vchSig then Some SCRIPT_ERR_SIG_DER
      else let nLenR = unat (vchSig ! 3);
               nLenS = unat (vchSig ! (5 + nLenR));
               S = take nLenS (drop (6 + nLenR) vchSig)
           in if \<not> CheckSignatureElement S True then Some SCRIPT_ERR_SIG_HIGH_S else None)"

definition IsDefinedHashtypeSignature :: "valtype \<Rightarrow> bool" where
  "IsDefinedHashtypeSignature vchSig \<longleftrightarrow>
     (if length vchSig = 0 then False
      else let nHashType = ucast (vchSig ! (length vchSig - 1)) AND NOT SIGHASH_ANYONECANPAY
           in if nHashType < SIGHASH_ALL \<or> nHashType > SIGHASH_SINGLE then False else True)"

definition CheckSignatureEncoding :: "valtype \<Rightarrow> u32 \<Rightarrow> ScriptError option" where
  "CheckSignatureEncoding vchSig flags =
     (if length vchSig = 0 then None
      else if flags AND (SCRIPT_VERIFY_DERSIG OR SCRIPT_VERIFY_LOW_S OR SCRIPT_VERIFY_STRICTENC) \<noteq> 0 \<and>
              \<not> IsValidSignatureEncoding vchSig then Some SCRIPT_ERR_SIG_DER
      else if flags AND SCRIPT_VERIFY_LOW_S \<noteq> 0 \<and> IsLowDERSignature vchSig \<noteq> None
        then IsLowDERSignature vchSig
      else if flags AND SCRIPT_VERIFY_STRICTENC \<noteq> 0 \<and> \<not> IsDefinedHashtypeSignature vchSig
        then Some SCRIPT_ERR_SIG_HASHTYPE
      else None)"

definition CheckPubKeyEncoding :: "valtype \<Rightarrow> u32 \<Rightarrow> ScriptError option" where
  "CheckPubKeyEncoding vchPubKey flags =
     (if flags AND SCRIPT_VERIFY_STRICTENC \<noteq> 0 \<and> \<not> IsCompressedOrUncompressedPubKey vchPubKey
      then Some SCRIPT_ERR_PUBKEYTYPE else None)"

definition CheckMinimalPush :: "valtype \<Rightarrow> byte \<Rightarrow> bool" where
  "CheckMinimalPush data opcode \<longleftrightarrow>
     (if length data = 0 then opcode = OP_0
      else if length data = 1 \<and> data ! 0 \<ge> 1 \<and> data ! 0 \<le> 16 then opcode = OP_1 + (data ! 0 - 1)
      else if length data = 1 \<and> data ! 0 = 0x81 then opcode = OP_1NEGATE
      else if length data \<le> 75 then unat opcode = length data
      else if length data \<le> 255 then opcode = OP_PUSHDATA1
      else if length data \<le> 65535 then opcode = OP_PUSHDATA2
      else True)"

text \<open>The loop of \<open>CastToBool\<close>; \<open>i == vch.size()-1\<close> is an empty rest.\<close>

fun CastToBool :: "valtype \<Rightarrow> bool" where
  "CastToBool [] = False"
| "CastToBool (b # bs) =
     (if b \<noteq> 0 then (if bs = [] \<and> b = 0x80 then False else True) else CastToBool bs)"

section \<open>Big-endian values\<close>

definition be_val :: "byte list \<Rightarrow> nat" where
  "be_val bs = le_val (rev bs)"

lemma be_val_Nil [simp]: "be_val [] = 0"
  by (simp add: be_val_def)

lemma be_val_Cons: "be_val (b # bs) = unat b * 256 ^ length bs + be_val bs"
  by (simp add: be_val_def le_val_append)

lemma be_val_less: "be_val bs < 256 ^ length bs"
  using le_val_less [of "rev bs"] by (simp add: be_val_def)

lemma be_val_ge: "1 \<le> unat b \<Longrightarrow> 256 ^ length bs \<le> be_val (b # bs)"
  by (simp add: be_val_Cons trans_le_add1)

lemma skip_zeros_None:
  "skip_zeros c n = None \<Longrightarrow> 256 ^ n \<le> be_val c"
proof (induction c)
  case (Cons b c)
  show ?case
  proof (cases "b = 0")
    case False
    then have "n \<le> length c" using Cons.prems by (auto split: if_splits)
    then have "(256 :: nat) ^ n \<le> 256 ^ length c" by (intro power_increasing) auto
    also have "\<dots> \<le> be_val (b # c)" using False by (intro be_val_ge) (simp add: unat_gt_0 Suc_le_eq)
    finally show ?thesis .
  qed (use Cons in \<open>auto simp: be_val_Cons split: if_splits\<close>)
qed simp

lemma skip_zeros_Some:
  "skip_zeros c n = Some c' \<Longrightarrow> be_val c' = be_val c \<and> length c' = min (length c) n"
  by (induction c) (auto simp: be_val_Cons split: if_splits)

lemma compare_bytes_sgn:
  "length as = length bs \<Longrightarrow> compare_bytes as bs = sgn (int (be_val as) - int (be_val bs))"
proof (induction as bs rule: compare_bytes.induct)
  case (1 a as b bs)
  have bounds: "be_val as < 256 ^ length bs" "be_val bs < 256 ^ length bs"
    using be_val_less [of as] be_val_less [of bs] "1.prems" by simp_all
  have lt: "be_val (x # xs) < be_val (y # ys)"
    if "x < y" "length xs = length ys" for x y xs ys
  proof -
    have "unat x + 1 \<le> unat y" using that(1) by (simp add: word_less_nat_alt)
    then have "(unat x + 1) * 256 ^ length ys \<le> unat y * 256 ^ length ys" by (rule mult_le_mono1)
    moreover have "be_val xs < 256 ^ length ys" using be_val_less [of xs] that(2) by simp
    ultimately show ?thesis using that(2) by (simp add: be_val_Cons)
  qed
  show ?case
  proof (cases "a = b")
    case True
    then show ?thesis using 1 by (simp add: be_val_Cons)
  next
    case False
    then show ?thesis using lt [of a b as bs] lt [of b a bs as] "1.prems"
      by (cases "a < b") (auto simp: sgn_if)
  qed
qed auto

lemma CompareBigEndian_sgn:
  "CompareBigEndian c1 c2 = sgn (int (be_val c1) - int (be_val c2))"
proof (cases "skip_zeros c1 (length c2)")
  case None
  then show ?thesis
    using skip_zeros_None [OF None] be_val_less [of c2] by (simp add: CompareBigEndian_def sgn_if)
next
  case (Some d1)
  note d1 = skip_zeros_Some [OF Some]
  show ?thesis
  proof (cases "skip_zeros c2 (length d1)")
    case None
    then show ?thesis
      using skip_zeros_None [OF None] be_val_less [of d1] d1 Some
      by (simp add: CompareBigEndian_def sgn_if)
  next
    case d2: (Some d2)
    then show ?thesis
      using skip_zeros_Some [OF d2] d1 Some by (simp add: CompareBigEndian_def compare_bytes_sgn)
  qed
qed

text \<open>The order \<open>n\<close> of the generator of secp256k1; a signature element is accepted when it is in
  \<open>[1, n-1]\<close>, or in \<open>[1, (n-1)/2]\<close>.\<close>

definition secp256k1_order :: nat where
  "secp256k1_order = 0xFFFFFFFFFFFFFFFFFFFFFFFFFFFFFFFEBAAEDCE6AF48A03BBFD25E8CD0364141"

lemma be_val_orders:
  "be_val vchMaxModOrder = secp256k1_order - 1"
  "be_val vchMaxModHalfOrder = (secp256k1_order - 1) div 2"
  by (simp_all add: vchMaxModOrder_def vchMaxModHalfOrder_def be_val_def secp256k1_order_def)

lemma CheckSignatureElement_iff:
  "CheckSignatureElement S half \<longleftrightarrow>
     1 \<le> be_val S \<and> be_val S \<le> (if half then (secp256k1_order - 1) div 2 else secp256k1_order - 1)"
proof -
  have "sgn (int x - int y) \<le> 0 \<longleftrightarrow> x \<le> y" for x y by (auto simp: sgn_if)
  moreover have "sgn (int x) > 0 \<longleftrightarrow> 1 \<le> x" for x by (auto simp: sgn_if)
  ultimately show ?thesis
    by (simp add: CheckSignatureElement_def CompareBigEndian_sgn be_val_orders)
qed

section \<open>What the encodings are\<close>

text \<open>A positive DER integer in its shortest form.\<close>

definition der_int :: "byte list \<Rightarrow> bool" where
  "der_int R \<longleftrightarrow> R \<noteq> [] \<and> \<not> bit (hd R) 7 \<and> (length R > 1 \<and> hd R = 0 \<longrightarrow> bit (R ! 1) 7)"

definition der_signature :: "byte list \<Rightarrow> byte list \<Rightarrow> byte \<Rightarrow> valtype" where
  "der_signature R S hashtype =
     [0x30, of_nat (length R + length S + 4), 0x02, of_nat (length R)] @ R @
     [0x02, of_nat (length S)] @ S @ [hashtype]"

lemma der_signature_valid:
  assumes "der_int R" and "der_int S" and "length R + length S \<le> 66"
  shows "IsValidSignatureEncoding (der_signature R S ht)"
proof -
  obtain r rs where R: "R = r # rs" using assms(1) by (cases R) (auto simp: der_int_def)
  obtain s ss where S: "S = s # ss" using assms(2) by (cases S) (auto simp: der_int_def)
  let ?sig = "der_signature R S ht"
  have u: "unat (of_nat (length R) :: byte) = length R" "unat (of_nat (length S) :: byte) = length S"
    "unat (of_nat (length R + length S + 4) :: byte) = length R + length S + 4"
    using assms(3) by (simp_all only: unat_of_nat_byte) simp_all
  have n: "?sig ! 0 = 0x30" "?sig ! 1 = of_nat (length R + length S + 4)" "?sig ! 2 = 0x02"
    "?sig ! 3 = of_nat (length R)" "?sig ! 4 = r"
    by (simp_all add: der_signature_def R del: of_nat_add of_nat_Suc)
  have m: "?sig ! (length R + 4) = 0x02" "?sig ! (5 + length R) = of_nat (length S)"
    "?sig ! (length R + 6) = s"
    by (simp_all add: der_signature_def S nth_append nth_Cons' del: of_nat_Suc)
  have k: "length R > 1 \<Longrightarrow> ?sig ! 5 = R ! 1" "length S > 1 \<Longrightarrow> ?sig ! (length R + 7) = S ! 1"
    by (simp_all add: der_signature_def nth_append nth_Cons')
  have len: "length ?sig = length R + length S + 7" by (simp add: der_signature_def)
  have b: "\<not> bit r 7" "\<not> bit s 7" using assms by (auto simp: der_int_def R S)
  have "length R > 1 \<Longrightarrow> r = 0 \<Longrightarrow> bit (R ! 1) 7" "length S > 1 \<Longrightarrow> s = 0 \<Longrightarrow> bit (S ! 1) 7"
    using assms(1,2) by (simp_all add: der_int_def R S)
  then have c: "\<not> (length R > 1 \<and> r = 0 \<and> \<not> bit (?sig ! 5) 7)"
    "\<not> (length S > 1 \<and> s = 0 \<and> \<not> bit (?sig ! (length R + 7)) 7)"
    using k by metis+
  have "1 \<le> length R" "1 \<le> length S" by (simp_all add: R S)
  then show ?thesis
    using assms(3) b c unfolding IsValidSignatureEncoding_def Let_def n m u len and_0x80_iff
    by auto
qed

lemma sub_list_nth: "i < n \<Longrightarrow> m + n \<le> length xs \<Longrightarrow> take n (drop m xs) ! i = xs ! (m + i)"
  by simp

lemma valid_is_der_signature:
  assumes "IsValidSignatureEncoding sig"
  shows "\<exists>R S ht. der_int R \<and> der_int S \<and> length R + length S \<le> 66 \<and> sig = der_signature R S ht"
proof -
  define lR where "lR = unat (sig ! 3)"
  define lS where "lS = unat (sig ! (5 + lR))"
  have v: "length sig \<ge> 9" "length sig \<le> 73" "sig ! 0 = 0x30" "unat (sig ! 1) = length sig - 3"
    "lR + lS + 7 = length sig" "sig ! 2 = 0x02" "lR \<noteq> 0" "\<not> bit (sig ! 4) 7"
    "lR > 1 \<and> sig ! 4 = 0 \<longrightarrow> bit (sig ! 5) 7" "sig ! (lR + 4) = 0x02" "lS \<noteq> 0"
    "\<not> bit (sig ! (lR + 6)) 7" "lS > 1 \<and> sig ! (lR + 6) = 0 \<longrightarrow> bit (sig ! (lR + 7)) 7"
    using assms
    by (auto simp: IsValidSignatureEncoding_def Let_def lR_def [symmetric] lS_def [symmetric]
        and_0x80_iff not_less split: if_splits)
  define R where "R = take lR (drop 4 sig)"
  define S where "S = take lS (drop (lR + 6) sig)"
  have l: "length R = lR" "length S = lS" using v by (simp_all add: R_def S_def)
  have nR: "\<And>i. i < lR \<Longrightarrow> R ! i = sig ! (4 + i)" and nS: "\<And>i. i < lS \<Longrightarrow> S ! i = sig ! (lR + 6 + i)"
    using v by (simp_all add: R_def S_def)
  have "R \<noteq> []" "S \<noteq> []" using l v by auto
  then have "hd R = sig ! 4" "hd S = sig ! (lR + 6)"
    using nR [of 0] nS [of 0] v by (simp_all add: hd_conv_nth)
  then have d: "der_int R" "der_int S"
    using v l nR [of 1] nS [of 1] \<open>R \<noteq> []\<close> \<open>S \<noteq> []\<close>
    by (auto simp: der_int_def add.commute [of 7])
  have o: "of_nat (lR + lS + 4) = sig ! 1" "of_nat lR = sig ! 3" "of_nat lS = sig ! (5 + lR)"
  proof -
    have "lR + lS + 4 = unat (sig ! 1)" using v by simp
    then show "of_nat (lR + lS + 4) = sig ! 1" by (metis of_nat_unat ucast_id)
  qed (simp_all add: lR_def lS_def)
  have "sig = der_signature R S (sig ! (lR + lS + 6))"
  proof (rule nth_equalityI)
    fix i assume i: "i < length sig"
    consider "i = 0" | "i = 1" | "i = 2" | "i = 3" | j where "i = 4 + j" "j < lR" | "i = lR + 4"
      | "i = lR + 5" | j where "i = lR + 6 + j" "j < lS" | "i = lR + lS + 6"
    proof -
      have "i < 4 \<or> (4 \<le> i \<and> i < lR + 4) \<or> i = lR + 4 \<or> i = lR + 5 \<or>
          (lR + 6 \<le> i \<and> i < lR + lS + 6) \<or> i = lR + lS + 6" using i v by linarith
      moreover have "i < 4 \<Longrightarrow> i = 0 \<or> i = 1 \<or> i = 2 \<or> i = 3" by linarith
      moreover have "4 \<le> i \<and> i < lR + 4 \<Longrightarrow> i = 4 + (i - 4) \<and> i - 4 < lR"
        "lR + 6 \<le> i \<and> i < lR + lS + 6 \<Longrightarrow> i = lR + 6 + (i - (lR + 6)) \<and> i - (lR + 6) < lS"
        by linarith+
      ultimately show thesis using that by blast
    qed
    then show "sig ! i = der_signature R S (sig ! (lR + lS + 6)) ! i"
    proof cases
      case (5 j)
      then show ?thesis unfolding der_signature_def l o by (simp add: nth_append l nR)
    next
      case (8 j)
      then show ?thesis unfolding der_signature_def l o by (simp add: nth_append l nS)
    qed (unfold der_signature_def l o, simp_all add: nth_append l v nth_Cons' add.commute [of 4] add.commute [of 5])
  qed (use v l in \<open>simp add: der_signature_def\<close>)
  then show ?thesis using d l v by (intro exI [of _ R] exI [of _ S]) auto
qed

lemma CastToBool_iff: "CastToBool vch \<longleftrightarrow> num_denotes vch \<noteq> 0"
proof -
  have "CastToBool vch \<longleftrightarrow> vch \<noteq> [] \<and> le_val (butlast vch @ [last vch AND 0x7f]) \<noteq> 0"
  proof (induction vch rule: CastToBool.induct)
    case (2 b bs)
    have z: "b AND 0x7f = 0 \<longleftrightarrow> b = 0 \<or> b = 0x80"
    proof
      assume "b AND 0x7f = 0"
      then have t: "take_bit 7 b = 0" by (simp add: and_0x7f)
      show "b = 0 \<or> b = 0x80"
      proof (cases "bit b 7")
        case True
        then show ?thesis using byte_set_high [of b] t by simp
      next
        case False
        then show ?thesis using byte_low_id [of b] t by simp
      qed
    qed auto
    show ?case using 2 z by (auto simp del: gr0_conv_Suc neq0_conv simp: unat_eq_0)
  qed simp
  then show ?thesis by (auto simp: num_denotes_def Let_def)
qed

text \<open>The minimal spelling of a push is the one \<open>operator<<\<close> writes.\<close>

definition small_push :: "valtype \<Rightarrow> bool" where
  "small_push data \<longleftrightarrow> length data = 1 \<and> (1 \<le> data ! 0 \<and> data ! 0 \<le> 16 \<or> data ! 0 = 0x81)"

lemma push_spelling:
  assumes "GetOp2 s = (True, op, data, [])" and "op \<le> OP_PUSHDATA4"
  shows "op < OP_PUSHDATA1 \<and> unat op = length data \<and> s = op # data \<or>
    op = OP_PUSHDATA1 \<and> length data \<le> 0xff \<and> s = [OP_PUSHDATA1, of_nat (length data)] @ data \<or>
    op = OP_PUSHDATA2 \<and> length data \<le> 0xffff \<and> s = [OP_PUSHDATA2] @ le_bytes 2 (length data) @ data \<or>
    op = OP_PUSHDATA4 \<and> length data < 2 ^ 32 \<and> s = [OP_PUSHDATA4] @ le_bytes 4 (length data) @ data"
proof -
  obtain rest where s: "s = op # rest"
    using assms by (cases s) (auto simp: GetOp2_def split: if_splits option.splits)
  then obtain n pc where p: "push_size op rest = Some (n, pc)" and d: "data = take n pc" "length pc = n"
    using assms by (auto simp: GetOp2_def split: if_splits option.splits)
  then have d: "data = pc" "n = length data" by simp_all
  have head: "rest = take k rest @ drop k rest" "length rest \<ge> k \<Longrightarrow> length (take k rest) = k" for k
    by simp_all
  consider "op < OP_PUSHDATA1" | "op = OP_PUSHDATA1" | "op = OP_PUSHDATA2" | "op = OP_PUSHDATA4"
  proof -
    have "unat op \<le> 78" using assms(2) by (simp add: word_le_nat_alt)
    then have "unat op < 76 \<or> unat op = 76 \<or> unat op = 77 \<or> unat op = 78" by linarith
    then have "op < OP_PUSHDATA1 \<or> op = OP_PUSHDATA1 \<or> op = OP_PUSHDATA2 \<or> op = OP_PUSHDATA4"
      by (simp add: word_less_nat_alt word_unat_eq_iff)
    then show ?thesis using that by blast
  qed
  then show ?thesis
  proof cases
    case 1
    then show ?thesis using p d s by (simp add: push_size_def)
  next
    case 2
    then have "rest \<noteq> []" "n = unat (hd rest)" "pc = tl rest"
      using p by (auto simp: push_size_def drop_Suc split: if_splits)
    then have "rest = of_nat n # pc" "n < 256" by simp_all
    then show ?thesis using 2 s d by simp
  next
    case 3
    then have h: "length rest \<ge> 2" "n = le_val (take 2 rest)" "pc = drop 2 rest"
      using p by (auto simp: push_size_def split: if_splits)
    then have "le_bytes 2 n = take 2 rest" "n < 256 ^ 2"
      using le_bytes_le_val [of "take 2 rest"] le_val_less [of "take 2 rest"] by simp_all
    then show ?thesis using 3 s d h by simp
  next
    case 4
    then have h: "length rest \<ge> 4" "n = le_val (take 4 rest)" "pc = drop 4 rest"
      using p by (auto simp: push_size_def split: if_splits)
    then have "le_bytes 4 n = take 4 rest" "n < 256 ^ 4"
      using le_bytes_le_val [of "take 4 rest"] le_val_less [of "take 4 rest"] by simp_all
    then show ?thesis using 4 s d h by simp
  qed
qed

lemma small_not_push: "small_push data \<Longrightarrow> op \<le> OP_PUSHDATA4 \<Longrightarrow> \<not> CheckMinimalPush data op"
proof
  assume s: "small_push data" and o: "op \<le> OP_PUSHDATA4" and c: "CheckMinimalPush data op"
  have "1 \<le> data ! 0 \<and> data ! 0 \<le> 16 \<Longrightarrow> OP_PUSHDATA4 < OP_1 + (data ! 0 - 1)"
  proof -
    assume a: "1 \<le> data ! 0 \<and> data ! 0 \<le> 16"
    then have u: "1 \<le> unat (data ! 0)" "unat (data ! 0) \<le> 16" by (simp_all add: word_le_nat_alt)
    have "unat (OP_1 + (data ! 0 - 1)) = 81 + (unat (data ! 0) - 1)"
    proof -
      have "OP_1 + (data ! 0 - 1) = of_nat (81 + (unat (data ! 0) - 1))"
        using u by (simp add: of_nat_diff)
      then show ?thesis using u by (simp only: unat_of_nat_byte) simp
    qed
    then show "OP_PUSHDATA4 < OP_1 + (data ! 0 - 1)" by (simp add: word_less_nat_alt)
  qed
  then show False using s o c by (auto simp: small_push_def CheckMinimalPush_def not_less [symmetric] split: if_splits)
qed

lemma CheckMinimalPush_iff:
  assumes "GetOp2 s = (True, op, data, [])" and "op \<le> OP_PUSHDATA4"
  shows "CheckMinimalPush data op \<longleftrightarrow> s = push_data [] data \<and> \<not> small_push data"
proof (cases "small_push data")
  case False
  have m: "CheckMinimalPush data op \<longleftrightarrow>
     (if length data \<le> 75 then unat op = length data
      else if length data \<le> 255 then op = OP_PUSHDATA1
      else if length data \<le> 65535 then op = OP_PUSHDATA2 else True)"
    using False by (auto simp: CheckMinimalPush_def small_push_def unat_eq_0)
  have e: "unat op = length data \<Longrightarrow> of_nat (length data) = op" by (metis of_nat_unat ucast_id)
  consider "length data < 76" | "76 \<le> length data" "length data \<le> 255"
    | "256 \<le> length data" "length data \<le> 65535" | "65536 \<le> length data" by linarith
  then show ?thesis
  proof cases
    case 1
    then have "unat (of_nat (length data) :: byte) = length data" by (simp add: unat_of_nat_small)
    then show ?thesis
      using push_spelling [OF assms] 1 False m e
      by (auto simp: push_data_def word_less_nat_alt)
  next
    case 2
    then show ?thesis
      using push_spelling [OF assms] False m by (auto simp: push_data_def word_less_nat_alt)
  next
    case 3
    then show ?thesis
      using push_spelling [OF assms] False m by (auto simp: push_data_def word_less_nat_alt)
  next
    case 4
    then show ?thesis
      using push_spelling [OF assms] False m by (auto simp: push_data_def word_less_nat_alt)
  qed
qed (use small_not_push [OF _ assms(2)] in simp)

lemma IsDefinedHashtypeSignature_iff:
  "IsDefinedHashtypeSignature sig \<longleftrightarrow>
     sig \<noteq> [] \<and> last sig AND 0x7f \<in> {1, 2, 3}"
proof (cases "sig = []")
  case False
  let ?b = "last sig AND 0x7f"
  have "(ucast (last sig) :: u32) AND NOT SIGHASH_ANYONECANPAY = ucast ?b"
    by (rule bit_word_eqI) (auto simp: bit_simps and_0x7f nat_less_8_cases bit_0x80_int dest: bit_byte_less)
  moreover have "(ucast ?b :: u32) < 1 \<or> (ucast ?b :: u32) > 3 \<longleftrightarrow> ?b \<notin> {1, 2, 3}"
  proof -
    have "unat ?b < 2 ^ 32" by (rule less_le_trans [OF unat_byte_less]) simp
    then have "unat (ucast ?b :: u32) = unat ?b"
      by (simp only: unsigned_ucast_eq) (simp add: take_bit_nat_eq_self)
    then have "(ucast ?b :: u32) < 1 \<or> (ucast ?b :: u32) > 3 \<longleftrightarrow> unat ?b < 1 \<or> unat ?b > 3"
      by (simp add: word_less_nat_alt)
    also have "\<dots> \<longleftrightarrow> ?b \<notin> {1, 2, 3}"
      by (auto simp: word_unat_eq_iff)
    finally show ?thesis .
  qed
  ultimately show ?thesis
    using False by (auto simp: IsDefinedHashtypeSignature_def last_conv_nth Let_def)
qed (simp add: IsDefinedHashtypeSignature_def)

section \<open>Consequences\<close>

text \<open>
  CheckSignatureElement, through CompareBigEndian, accepts exactly the big-endian numbers from 1
  to n-1, or to (n-1)/2 for the low-S rule, where n is the order of secp256k1; CompareBigEndian is
  the sign of the difference for operands of any lengths.
\<close>

lemma low_s:
  "(CheckSignatureElement S half \<longleftrightarrow>
     1 \<le> be_val S \<and> be_val S \<le> (if half then (secp256k1_order - 1) div 2 else secp256k1_order - 1)) \<and>
   CompareBigEndian c1 c2 = sgn (int (be_val c1) - int (be_val c2))"
  by (simp add: CheckSignatureElement_iff CompareBigEndian_sgn)

text \<open>
  An operation that pushes data passes CheckMinimalPush exactly when it is spelled as operator<<
  spells the push and the data is not one of the numbers that have an opcode of their own.
\<close>

lemma minimal_push:
  assumes "GetOp2 s = (True, op, data, [])" and "op \<le> OP_PUSHDATA4"
  shows "CheckMinimalPush data op \<longleftrightarrow> s = push_data [] data \<and> \<not> small_push data"
  using assms by (rule CheckMinimalPush_iff)

text \<open>
  CastToBool is false exactly on the byte strings that denote the number zero, negative zero
  included.
\<close>

lemma cast_to_bool:
  "CastToBool vch \<longleftrightarrow> num_denotes vch \<noteq> 0"
  by (rule CastToBool_iff)

section \<open>Properties\<close>

text \<open>
  C8. IsValidSignatureEncoding accepts exactly the byte strings 30 len 02 lenR R 02 lenS S
  hashtype whose R and S are positive DER integers in their shortest form and which are at most 73
  bytes long.
\<close>

theorem der_encoding:
  "IsValidSignatureEncoding sig \<longleftrightarrow>
    (\<exists>R S ht. der_int R \<and> der_int S \<and> length R + length S \<le> 66 \<and> sig = der_signature R S ht)"
  using valid_is_der_signature der_signature_valid by blast

end
