(* ===== verification/Interpreter.thy ===== *)
theory Interpreter
  imports SigEncoding Hash
begin

text \<open>
  \<open>EvalScript\<close> and \<open>VerifyScript\<close> (\<open>src/script/interpreter.cpp\<close>). A stack is a list whose head
  is the top, so \<open>push_back(x)\<close> is \<open>x # stack\<close> and \<open>stacktop(-i)\<close> is element \<open>i - 1\<close>;
  \<open>vfExec\<close> is kept in the same order. The remaining local variables of the loop are the fields
  of \<open>eval_state\<close>, except \<open>pc\<close>, which the loop passes on. The signature checker, a virtual
  class in the source, is a function parameter. A \<open>return set_error(...)\<close> is \<open>Fail\<close>; an exception
  (\<open>scriptnum_error\<close>, or \<open>popstack\<close> and \<open>at\<close> out of range) is \<open>Throw\<close> until the \<open>catch\<close> of
  \<open>EvalScript\<close> turns it into \<open>SCRIPT_ERR_UNKNOWN_ERROR\<close>; a failed \<open>assert\<close> is \<open>AssertFailed\<close>.
\<close>

datatype script_failure = Fail ScriptError | Throw | AssertFailed

type_synonym sig_checker = "valtype \<Rightarrow> valtype \<Rightarrow> byte list \<Rightarrow> bool"

record eval_state =
  st_codehash :: "byte list"
  st_stack :: "valtype list"
  st_altstack :: "valtype list"
  st_vfExec :: "bool list"
  st_nOpCount :: int

abbreviation vchTrue :: valtype where "vchTrue \<equiv> [1]"

abbreviation vchFalse :: valtype where "vchFalse \<equiv> []"

text \<open>The constructor of \<open>CScriptNum\<close> throws, its operators assert.\<close>

definition num_arg :: "valtype \<Rightarrow> bool \<Rightarrow> script_failure + int" where
  "num_arg vch fRequireMinimal =
     (case CScriptNum vch fRequireMinimal of None \<Rightarrow> Inl Throw | Some n \<Rightarrow> Inr n)"

definition asserted :: "int option \<Rightarrow> script_failure + int" where
  "asserted r = (case r of None \<Rightarrow> Inl AssertFailed | Some n \<Rightarrow> Inr n)"

definition of_bool_num :: "bool \<Rightarrow> int" where
  "of_bool_num b = (if b then 1 else 0)"

section \<open>The operations\<close>

subsection \<open>Push value\<close>

definition op_push_value :: "byte \<Rightarrow> eval_state \<Rightarrow> script_failure + eval_state" where
  "op_push_value opcode st =
     (let bn = uint opcode - uint (OP_1 - 1)
      in Inr (st\<lparr>st_stack := getvch bn # st_stack st\<rparr>))"

subsection \<open>Control\<close>

definition op_nop :: "u32 \<Rightarrow> eval_state \<Rightarrow> script_failure + eval_state" where
  "op_nop flags st =
     (if flags AND SCRIPT_VERIFY_DISCOURAGE_UPGRADABLE_NOPS \<noteq> 0
      then Inl (Fail SCRIPT_ERR_DISCOURAGE_UPGRADABLE_NOPS) else Inr st)"

definition op_if :: "byte \<Rightarrow> bool \<Rightarrow> eval_state \<Rightarrow> script_failure + eval_state" where
  "op_if opcode fExec st =
     (if fExec then
        (case st_stack st of
           [] \<Rightarrow> Inl (Fail SCRIPT_ERR_UNBALANCED_CONDITIONAL)
         | vch # stack \<Rightarrow>
             (let fValue = CastToBool vch;
                  fValue = (if opcode = OP_NOTIF then \<not> fValue else fValue)
              in Inr (st\<lparr>st_stack := stack, st_vfExec := fValue # st_vfExec st\<rparr>)))
      else Inr (st\<lparr>st_vfExec := False # st_vfExec st\<rparr>))"

definition op_else :: "eval_state \<Rightarrow> script_failure + eval_state" where
  "op_else st =
     (case st_vfExec st of
        [] \<Rightarrow> Inl (Fail SCRIPT_ERR_UNBALANCED_CONDITIONAL)
      | b # bs \<Rightarrow> Inr (st\<lparr>st_vfExec := (\<not> b) # bs\<rparr>))"

definition op_endif :: "eval_state \<Rightarrow> script_failure + eval_state" where
  "op_endif st =
     (case st_vfExec st of
        [] \<Rightarrow> Inl (Fail SCRIPT_ERR_UNBALANCED_CONDITIONAL)
      | b # bs \<Rightarrow> Inr (st\<lparr>st_vfExec := bs\<rparr>))"

definition op_verify :: "eval_state \<Rightarrow> script_failure + eval_state" where
  "op_verify st =
     (case st_stack st of
        [] \<Rightarrow> Inl (Fail SCRIPT_ERR_INVALID_STACK_OPERATION)
      | vch # stack \<Rightarrow>
          if CastToBool vch then Inr (st\<lparr>st_stack := stack\<rparr>) else Inl (Fail SCRIPT_ERR_VERIFY))"

subsection \<open>Stack ops\<close>

definition op_toaltstack :: "eval_state \<Rightarrow> script_failure + eval_state" where
  "op_toaltstack st =
     (case st_stack st of
        x # s \<Rightarrow> Inr (st\<lparr>st_stack := s, st_altstack := x # st_altstack st\<rparr>)
      | _ \<Rightarrow> Inl (Fail SCRIPT_ERR_INVALID_STACK_OPERATION))"

definition op_fromaltstack :: "eval_state \<Rightarrow> script_failure + eval_state" where
  "op_fromaltstack st =
     (case st_altstack st of
        x # a \<Rightarrow> Inr (st\<lparr>st_stack := x # st_stack st, st_altstack := a\<rparr>)
      | _ \<Rightarrow> Inl (Fail SCRIPT_ERR_INVALID_ALTSTACK_OPERATION))"

text \<open>\<open>( -- stacksize)\<close>, then \<open>OP_PICK\<close> and \<open>OP_ROLL\<close>, which read an index from the stack.\<close>

definition op_depth :: "valtype list \<Rightarrow> script_failure + valtype list" where
  "op_depth stack = (let bn = int (length stack) in Inr (getvch bn # stack))"

definition op_pick_roll :: "byte \<Rightarrow> bool \<Rightarrow> valtype list \<Rightarrow> script_failure + valtype list" where
  "op_pick_roll opcode fRequireMinimal stack =
     (if length stack < 2 then Inl (Fail SCRIPT_ERR_INVALID_STACK_OPERATION)
      else and_then (num_arg (hd stack) fRequireMinimal) (\<lambda>bn.
        let n = getint bn; stack = tl stack
        in if n < 0 \<or> n \<ge> int (length stack) then Inl (Fail SCRIPT_ERR_INVALID_STACK_OPERATION)
           else let vch = stack ! nat n;
                    stack = (if opcode = OP_ROLL then take (nat n) stack @ drop (nat n + 1) stack
                             else stack)
                in Inr (vch # stack)))"

text \<open>The operations that only rearrange the stack. The comments of the source give each as
  \<open>(x1 x2 -- ...)\<close> with the top on the right. First those behind \<open>OP_PICK\<close> in the source.\<close>

definition op_stack_last :: "byte \<Rightarrow> valtype list \<Rightarrow> script_failure + valtype list" where
  "op_stack_last opcode stack =
     (let invalid = Inl (Fail SCRIPT_ERR_INVALID_STACK_OPERATION) in
      if opcode = OP_ROT then
        (case stack of x3 # x2 # x1 # s \<Rightarrow> Inr (x1 # x3 # x2 # s) | _ \<Rightarrow> invalid)
      else if opcode = OP_SWAP then
        (case stack of x2 # x1 # s \<Rightarrow> Inr (x1 # x2 # s) | _ \<Rightarrow> invalid)
      else if opcode = OP_TUCK then
        (case stack of x2 # x1 # s \<Rightarrow> Inr (x2 # x1 # x2 # s) | _ \<Rightarrow> invalid)
      else \<comment> \<open>\<open>OP_SIZE\<close>\<close>
        (case stack of x # s \<Rightarrow> Inr (getvch (int (length x)) # x # s) | _ \<Rightarrow> invalid))"

definition op_stack :: "byte \<Rightarrow> valtype list \<Rightarrow> script_failure + valtype list" where
  "op_stack opcode stack =
     (let invalid = Inl (Fail SCRIPT_ERR_INVALID_STACK_OPERATION) in
      if opcode = OP_2DROP then
        (case stack of x2 # x1 # s \<Rightarrow> Inr s | _ \<Rightarrow> invalid)
      else if opcode = OP_2DUP then
        (case stack of x2 # x1 # s \<Rightarrow> Inr (x2 # x1 # x2 # x1 # s) | _ \<Rightarrow> invalid)
      else if opcode = OP_3DUP then
        (case stack of
           x3 # x2 # x1 # s \<Rightarrow> Inr (x3 # x2 # x1 # x3 # x2 # x1 # s) | _ \<Rightarrow> invalid)
      else if opcode = OP_2OVER then
        (case stack of
           x4 # x3 # x2 # x1 # s \<Rightarrow> Inr (x2 # x1 # x4 # x3 # x2 # x1 # s) | _ \<Rightarrow> invalid)
      else if opcode = OP_2ROT then
        (case stack of
           x6 # x5 # x4 # x3 # x2 # x1 # s \<Rightarrow> Inr (x2 # x1 # x6 # x5 # x4 # x3 # s)
         | _ \<Rightarrow> invalid)
      else if opcode = OP_2SWAP then
        (case stack of x4 # x3 # x2 # x1 # s \<Rightarrow> Inr (x2 # x1 # x4 # x3 # s) | _ \<Rightarrow> invalid)
      else if opcode = OP_IFDUP then
        (case stack of x # s \<Rightarrow> Inr (if CastToBool x then x # x # s else x # s) | _ \<Rightarrow> invalid)
      else if opcode = OP_DEPTH then op_depth stack
      else if opcode = OP_DROP then
        (case stack of x # s \<Rightarrow> Inr s | _ \<Rightarrow> invalid)
      else if opcode = OP_DUP then
        (case stack of x # s \<Rightarrow> Inr (x # x # s) | _ \<Rightarrow> invalid)
      else if opcode = OP_NIP then
        (case stack of x2 # x1 # s \<Rightarrow> Inr (x2 # s) | _ \<Rightarrow> invalid)
      else if opcode = OP_OVER then
        (case stack of x2 # x1 # s \<Rightarrow> Inr (x1 # x2 # x1 # s) | _ \<Rightarrow> invalid)
      else op_stack_last opcode stack)"

subsection \<open>Bitwise logic\<close>

definition op_equal :: "byte \<Rightarrow> valtype list \<Rightarrow> script_failure + valtype list" where
  "op_equal opcode stack =
     (case stack of
        vch2 # vch1 # stack \<Rightarrow>
          (let fEqual = (vch1 = vch2);
               stack = (if fEqual then vchTrue else vchFalse) # stack
           in if opcode = OP_EQUALVERIFY then
                (if fEqual then Inr (tl stack) else Inl (Fail SCRIPT_ERR_EQUALVERIFY))
              else Inr stack)
      | _ \<Rightarrow> Inl (Fail SCRIPT_ERR_INVALID_STACK_OPERATION))"

subsection \<open>Numeric\<close>

definition unary_num :: "byte \<Rightarrow> int \<Rightarrow> script_failure + int" where
  "unary_num opcode bn =
     (if opcode = OP_1ADD then asserted (num_add_assign bn 1)
      else if opcode = OP_1SUB then asserted (num_sub_assign bn 1)
      else if opcode = OP_NEGATE then asserted (num_negate bn)
      else if opcode = OP_ABS then (if bn < 0 then asserted (num_negate bn) else Inr bn)
      else if opcode = OP_NOT then Inr (of_bool_num (bn = 0))
      else if opcode = OP_0NOTEQUAL then Inr (of_bool_num (bn \<noteq> 0))
      else Inl AssertFailed)"

definition op_unary :: "byte \<Rightarrow> bool \<Rightarrow> valtype list \<Rightarrow> script_failure + valtype list" where
  "op_unary opcode fRequireMinimal stack =
     (case stack of
        vch # stack \<Rightarrow>
          and_then (num_arg vch fRequireMinimal) (\<lambda>bn.
          and_then (unary_num opcode bn) (\<lambda>bn. Inr (getvch bn # stack)))
      | _ \<Rightarrow> Inl (Fail SCRIPT_ERR_INVALID_STACK_OPERATION))"

definition binary_num :: "byte \<Rightarrow> int \<Rightarrow> int \<Rightarrow> script_failure + int" where
  "binary_num opcode bn1 bn2 =
     (if opcode = OP_ADD then Inr (bn1 + bn2)
      else if opcode = OP_SUB then Inr (bn1 - bn2)
      else if opcode = OP_BOOLAND then Inr (of_bool_num (bn1 \<noteq> 0 \<and> bn2 \<noteq> 0))
      else if opcode = OP_BOOLOR then Inr (of_bool_num (bn1 \<noteq> 0 \<or> bn2 \<noteq> 0))
      else if opcode = OP_NUMEQUAL then Inr (of_bool_num (bn1 = bn2))
      else if opcode = OP_NUMEQUALVERIFY then Inr (of_bool_num (bn1 = bn2))
      else if opcode = OP_NUMNOTEQUAL then Inr (of_bool_num (bn1 \<noteq> bn2))
      else if opcode = OP_LESSTHAN then Inr (of_bool_num (bn1 < bn2))
      else if opcode = OP_GREATERTHAN then Inr (of_bool_num (bn1 > bn2))
      else if opcode = OP_LESSTHANOREQUAL then Inr (of_bool_num (bn1 \<le> bn2))
      else if opcode = OP_GREATERTHANOREQUAL then Inr (of_bool_num (bn1 \<ge> bn2))
      else if opcode = OP_MIN then Inr (if bn1 < bn2 then bn1 else bn2)
      else if opcode = OP_MAX then Inr (if bn1 > bn2 then bn1 else bn2)
      else Inl AssertFailed)"

definition op_binary :: "byte \<Rightarrow> bool \<Rightarrow> valtype list \<Rightarrow> script_failure + valtype list" where
  "op_binary opcode fRequireMinimal stack =
     (case stack of
        vch2 # vch1 # stack \<Rightarrow>
          and_then (num_arg vch1 fRequireMinimal) (\<lambda>bn1.
          and_then (num_arg vch2 fRequireMinimal) (\<lambda>bn2.
          and_then (binary_num opcode bn1 bn2) (\<lambda>bn.
            let stack = getvch bn # stack
            in if opcode = OP_NUMEQUALVERIFY then
                 (if CastToBool (hd stack) then Inr (tl stack)
                  else Inl (Fail SCRIPT_ERR_NUMEQUALVERIFY))
               else Inr stack)))
      | _ \<Rightarrow> Inl (Fail SCRIPT_ERR_INVALID_STACK_OPERATION))"

definition op_within :: "bool \<Rightarrow> valtype list \<Rightarrow> script_failure + valtype list" where
  "op_within fRequireMinimal stack =
     (case stack of
        vch3 # vch2 # vch1 # stack \<Rightarrow>
          and_then (num_arg vch1 fRequireMinimal) (\<lambda>bn1.
          and_then (num_arg vch2 fRequireMinimal) (\<lambda>bn2.
          and_then (num_arg vch3 fRequireMinimal) (\<lambda>bn3.
            let fValue = (bn2 \<le> bn1 \<and> bn1 < bn3)
            in Inr ((if fValue then vchTrue else vchFalse) # stack))))
      | _ \<Rightarrow> Inl (Fail SCRIPT_ERR_INVALID_STACK_OPERATION))"

subsection \<open>Crypto\<close>

definition op_hash :: "byte \<Rightarrow> valtype list \<Rightarrow> script_failure + valtype list" where
  "op_hash opcode stack =
     (case stack of
        vch # stack \<Rightarrow>
          (let vchHash =
             (if opcode = OP_RIPEMD160 then
                snd (CRIPEMD160_Finalize (CRIPEMD160_Write CRIPEMD160 vch))
              else if opcode = OP_SHA1 then snd (CSHA1_Finalize (CSHA1_Write CSHA1 vch))
              else if opcode = OP_SHA256 then snd (CSHA256_Finalize (CSHA256_Write CSHA256 vch))
              else if opcode = OP_HASH160 then snd (CHash160_Finalize (CHash160_Write CSHA256 vch))
              else snd (CHash256_Finalize (CHash256_Write CHash256 vch)))
           in Inr (vchHash # stack))
      | _ \<Rightarrow> Inl (Fail SCRIPT_ERR_INVALID_STACK_OPERATION))"

text \<open>\<open>CScript(vchSig)\<close> is the script that pushes the signature.\<close>

definition drop_signature :: "byte list \<Rightarrow> valtype \<Rightarrow> byte list" where
  "drop_signature scriptCode vchSig = fst (FindAndDelete scriptCode (push_data [] vchSig))"

definition check_encodings :: "valtype \<Rightarrow> valtype \<Rightarrow> u32 \<Rightarrow> ScriptError option" where
  "check_encodings vchSig vchPubKey flags =
     (case CheckSignatureEncoding vchSig flags of
        Some e \<Rightarrow> Some e
      | None \<Rightarrow> CheckPubKeyEncoding vchPubKey flags)"

definition op_checksig ::
    "byte \<Rightarrow> u32 \<Rightarrow> sig_checker \<Rightarrow> byte list \<Rightarrow> valtype list \<Rightarrow> script_failure + valtype list" where
  "op_checksig opcode flags checker codehash stack =
     (case stack of
        vchPubKey # vchSig # stack \<Rightarrow>
          (let scriptCode = drop_signature codehash vchSig in
           case check_encodings vchSig vchPubKey flags of
             Some e \<Rightarrow> Inl (Fail e)
           | None \<Rightarrow>
               (let fSuccess = checker vchSig vchPubKey scriptCode;
                    stack = (if fSuccess then vchTrue else vchFalse) # stack
                in if opcode = OP_CHECKSIGVERIFY then
                     (if fSuccess then Inr (tl stack)
                      else Inl (Fail SCRIPT_ERR_CHECKSIGVERIFY))
                   else Inr stack))
      | _ \<Rightarrow> Inl (Fail SCRIPT_ERR_INVALID_STACK_OPERATION))"

text \<open>The loop of \<open>OP_CHECKMULTISIG\<close>: \<open>isig\<close> and \<open>ikey\<close> are the depths of the next signature and
  the next key. The result is \<open>fSuccess\<close>.\<close>

function multisig_loop ::
    "u32 \<Rightarrow> sig_checker \<Rightarrow> byte list \<Rightarrow> valtype list \<Rightarrow> nat \<Rightarrow> nat \<Rightarrow> nat \<Rightarrow> nat \<Rightarrow> script_failure + bool"
where
  "multisig_loop flags checker scriptCode stack isig nSigsCount ikey nKeysCount =
     (if nSigsCount > 0 then
        (let vchSig = stack ! (isig - 1); vchPubKey = stack ! (ikey - 1) in
         case check_encodings vchSig vchPubKey flags of
           Some e \<Rightarrow> Inl (Fail e)
         | None \<Rightarrow>
             (let fOk = checker vchSig vchPubKey scriptCode;
                  isig = (if fOk then isig + 1 else isig);
                  nSigsCount = (if fOk then nSigsCount - 1 else nSigsCount);
                  ikey = ikey + 1;
                  nKeysCount = nKeysCount - 1
              in if nSigsCount > nKeysCount then Inr False
                 else multisig_loop flags checker scriptCode stack isig nSigsCount ikey nKeysCount))
      else Inr True)"
  by pat_completeness auto
termination
  by (relation "measure (\<lambda>(f, c, s, st, isig, ns, ikey, nk). ns + nk)")
    (auto split: if_splits)

declare multisig_loop.simps [simp del]

definition op_checkmultisig ::
    "byte \<Rightarrow> u32 \<Rightarrow> sig_checker \<Rightarrow> bool \<Rightarrow> eval_state \<Rightarrow> script_failure + eval_state" where
  "op_checkmultisig opcode flags checker fRequireMinimal st =
     (let stack = st_stack st; i = 1 in
      if length stack < i then Inl (Fail SCRIPT_ERR_INVALID_STACK_OPERATION)
      else and_then (num_arg (stack ! (i - 1)) fRequireMinimal) (\<lambda>bn.
        let nKeysCount = getint bn in
        if nKeysCount < 0 \<or> nKeysCount > 20 then Inl (Fail SCRIPT_ERR_PUBKEY_COUNT)
        else let nOpCount = st_nOpCount st + nKeysCount in
        if nOpCount > 201 then Inl (Fail SCRIPT_ERR_OP_COUNT)
        else let i = i + 1; ikey = i; i = i + nat nKeysCount in
        if length stack < i then Inl (Fail SCRIPT_ERR_INVALID_STACK_OPERATION)
        else and_then (num_arg (stack ! (i - 1)) fRequireMinimal) (\<lambda>bn.
          let nSigsCount = getint bn in
          if nSigsCount < 0 \<or> nSigsCount > nKeysCount then Inl (Fail SCRIPT_ERR_SIG_COUNT)
          else let i = i + 1; isig = i; i = i + nat nSigsCount in
          if length stack < i then Inl (Fail SCRIPT_ERR_INVALID_STACK_OPERATION)
          else
            let scriptCode =
              foldl (\<lambda>code k. drop_signature code (stack ! (isig + k - 1)))
                (st_codehash st) [0..<nat nSigsCount] in
            and_then
              (multisig_loop flags checker scriptCode stack isig (nat nSigsCount) ikey
                (nat nKeysCount)) (\<lambda>fSuccess.
            case drop (i - 1) stack of
              [] \<Rightarrow> Inl (Fail SCRIPT_ERR_INVALID_STACK_OPERATION)
            | dummy # stack \<Rightarrow>
                if flags AND SCRIPT_VERIFY_NULLDUMMY \<noteq> 0 \<and> length dummy \<noteq> 0
                then Inl (Fail SCRIPT_ERR_SIG_NULLDUMMY)
                else let stack = (if fSuccess then vchTrue else vchFalse) # stack in
                if opcode = OP_CHECKMULTISIGVERIFY then
                  (if fSuccess then Inr (st\<lparr>st_stack := tl stack, st_nOpCount := nOpCount\<rparr>)
                   else Inl (Fail SCRIPT_ERR_CHECKMULTISIGVERIFY))
                else Inr (st\<lparr>st_stack := stack, st_nOpCount := nOpCount\<rparr>)))))"

section \<open>The switch and the loop\<close>

text \<open>An operation that only works on the stack.\<close>

definition on_stack ::
    "(valtype list \<Rightarrow> script_failure + valtype list) \<Rightarrow> eval_state \<Rightarrow> script_failure + eval_state" where
  "on_stack f st = and_then (f (st_stack st)) (\<lambda>stack. Inr (st\<lparr>st_stack := stack\<rparr>))"

text \<open>The \<open>switch\<close>. \<open>pc\<close> is the position behind the operation, where \<open>OP_CODESEPARATOR\<close> lets
  the signed script begin.\<close>

definition exec_opcode ::
    "u32 \<Rightarrow> sig_checker \<Rightarrow> bool \<Rightarrow> byte \<Rightarrow> byte list \<Rightarrow> eval_state \<Rightarrow> script_failure + eval_state" where
  "exec_opcode flags checker fExec opcode pc st =
     (let fRequireMinimal = (flags AND SCRIPT_VERIFY_MINIMALDATA \<noteq> 0) in
      if opcode = OP_1NEGATE \<or> (OP_1 \<le> opcode \<and> opcode \<le> OP_16) then op_push_value opcode st
      else if opcode = OP_NOP then Inr st
      else if OP_NOP1 \<le> opcode \<and> opcode \<le> OP_NOP10 then op_nop flags st
      else if opcode = OP_IF \<or> opcode = OP_NOTIF then op_if opcode fExec st
      else if opcode = OP_ELSE then op_else st
      else if opcode = OP_ENDIF then op_endif st
      else if opcode = OP_VERIFY then op_verify st
      else if opcode = OP_RETURN then Inl (Fail SCRIPT_ERR_OP_RETURN)
      else if opcode = OP_TOALTSTACK then op_toaltstack st
      else if opcode = OP_FROMALTSTACK then op_fromaltstack st
      else if opcode \<in> {OP_2DROP, OP_2DUP, OP_3DUP, OP_2OVER, OP_2ROT, OP_2SWAP, OP_IFDUP,
          OP_DEPTH, OP_DROP, OP_DUP, OP_NIP, OP_OVER, OP_ROT, OP_SWAP, OP_TUCK, OP_SIZE}
        then on_stack (op_stack opcode) st
      else if opcode \<in> {OP_PICK, OP_ROLL} then on_stack (op_pick_roll opcode fRequireMinimal) st
      else if opcode \<in> {OP_EQUAL, OP_EQUALVERIFY} then on_stack (op_equal opcode) st
      else if opcode \<in> {OP_1ADD, OP_1SUB, OP_NEGATE, OP_ABS, OP_NOT, OP_0NOTEQUAL}
        then on_stack (op_unary opcode fRequireMinimal) st
      else if opcode \<in> {OP_ADD, OP_SUB, OP_BOOLAND, OP_BOOLOR, OP_NUMEQUAL, OP_NUMEQUALVERIFY,
          OP_NUMNOTEQUAL, OP_LESSTHAN, OP_GREATERTHAN, OP_LESSTHANOREQUAL,
          OP_GREATERTHANOREQUAL, OP_MIN, OP_MAX}
        then on_stack (op_binary opcode fRequireMinimal) st
      else if opcode = OP_WITHIN then on_stack (op_within fRequireMinimal) st
      else if opcode \<in> {OP_RIPEMD160, OP_SHA1, OP_SHA256, OP_HASH160, OP_HASH256}
        then on_stack (op_hash opcode) st
      else if opcode = OP_CODESEPARATOR then Inr (st\<lparr>st_codehash := pc\<rparr>)
      else if opcode = OP_CHECKSIG \<or> opcode = OP_CHECKSIGVERIFY
        then on_stack (op_checksig opcode flags checker (st_codehash st)) st
      else if opcode = OP_CHECKMULTISIG \<or> opcode = OP_CHECKMULTISIGVERIFY
        then op_checkmultisig opcode flags checker fRequireMinimal st
      else Inl (Fail SCRIPT_ERR_BAD_OPCODE))"

definition disabled_opcode :: "byte \<Rightarrow> bool" where
  "disabled_opcode opcode \<longleftrightarrow>
     opcode \<in> {OP_CAT, OP_SUBSTR, OP_LEFT, OP_RIGHT, OP_INVERT, OP_AND, OP_OR, OP_XOR, OP_2MUL,
       OP_2DIV, OP_MUL, OP_DIV, OP_MOD, OP_LSHIFT, OP_RSHIFT}"

text \<open>The body of the loop, after \<open>GetOp\<close>.\<close>

definition count_op :: "byte \<Rightarrow> eval_state \<Rightarrow> eval_state" where
  "count_op opcode st = (if opcode > OP_16 then st\<lparr>st_nOpCount := st_nOpCount st + 1\<rparr> else st)"

definition run_op ::
    "u32 \<Rightarrow> sig_checker \<Rightarrow> byte \<Rightarrow> valtype \<Rightarrow> byte list \<Rightarrow> eval_state \<Rightarrow> script_failure + eval_state" where
  "run_op flags checker opcode vchPushValue pc st =
     (let fExec = list_all (\<lambda>b. b) (st_vfExec st) in
      if fExec \<and> opcode \<le> OP_PUSHDATA4 then
        (if flags AND SCRIPT_VERIFY_MINIMALDATA \<noteq> 0 \<and> \<not> CheckMinimalPush vchPushValue opcode
         then Inl (Fail SCRIPT_ERR_MINIMALDATA)
         else Inr (st\<lparr>st_stack := vchPushValue # st_stack st\<rparr>))
      else if fExec \<or> (OP_IF \<le> opcode \<and> opcode \<le> OP_ENDIF)
        then exec_opcode flags checker fExec opcode pc st
      else Inr st)"

definition eval_step ::
    "u32 \<Rightarrow> sig_checker \<Rightarrow> byte \<Rightarrow> valtype \<Rightarrow> byte list \<Rightarrow> eval_state \<Rightarrow> script_failure + eval_state" where
  "eval_step flags checker opcode vchPushValue pc st =
     (if length vchPushValue > MAX_SCRIPT_ELEMENT_SIZE then Inl (Fail SCRIPT_ERR_PUSH_SIZE)
      else let st = count_op opcode st in
      if opcode > OP_16 \<and> st_nOpCount st > 201 then Inl (Fail SCRIPT_ERR_OP_COUNT)
      else if disabled_opcode opcode then Inl (Fail SCRIPT_ERR_DISABLED_OPCODE)
      else and_then (run_op flags checker opcode vchPushValue pc st) (\<lambda>st.
        if length (st_stack st) + length (st_altstack st) > 1000
        then Inl (Fail SCRIPT_ERR_STACK_SIZE) else Inr st))"

function eval_loop ::
    "u32 \<Rightarrow> sig_checker \<Rightarrow> byte list \<Rightarrow> eval_state \<Rightarrow> script_failure + eval_state" where
  "eval_loop flags checker pc st =
     (if pc \<noteq> [] then
        (case GetOp2 pc of
           (False, _, _, _) \<Rightarrow> Inl (Fail SCRIPT_ERR_BAD_OPCODE)
         | (True, opcode, vchPushValue, pc') \<Rightarrow>
             (case eval_step flags checker opcode vchPushValue pc' st of
                Inl e \<Rightarrow> Inl e
              | Inr st' \<Rightarrow> eval_loop flags checker pc' st'))
      else Inr st)"
  by pat_completeness auto
termination
  by (relation "measure (\<lambda>(f, c, pc, st). length pc)") (auto dest!: GetOp2_True_shorter [OF sym])

declare eval_loop.simps [simp del]

definition catch_all :: "script_failure \<Rightarrow> script_failure" where
  "catch_all e = (if e = Throw then Fail SCRIPT_ERR_UNKNOWN_ERROR else e)"

definition EvalScript ::
    "valtype list \<Rightarrow> byte list \<Rightarrow> u32 \<Rightarrow> sig_checker \<Rightarrow> script_failure + valtype list" where
  "EvalScript stack script flags checker =
     (if length script > MAX_SCRIPT_SIZE then Inl (Fail SCRIPT_ERR_SCRIPT_SIZE)
      else case eval_loop flags checker script
          \<lparr>st_codehash = script, st_stack = stack, st_altstack = [], st_vfExec = [],
           st_nOpCount = 0\<rparr> of
        Inl e \<Rightarrow> Inl (catch_all e)
      | Inr st \<Rightarrow>
          if st_vfExec st \<noteq> [] then Inl (Fail SCRIPT_ERR_UNBALANCED_CONDITIONAL)
          else Inr (st_stack st))"

definition VerifyScript ::
    "byte list \<Rightarrow> byte list \<Rightarrow> u32 \<Rightarrow> sig_checker \<Rightarrow> script_failure + unit" where
  "VerifyScript scriptSig scriptPubKey flags checker =
     (if flags AND SCRIPT_VERIFY_SIGPUSHONLY \<noteq> 0 \<and> \<not> IsPushOnly scriptSig
      then Inl (Fail SCRIPT_ERR_SIG_PUSHONLY)
      else and_then (EvalScript [] scriptSig flags checker) (\<lambda>stackCopy.
        and_then (EvalScript stackCopy scriptPubKey flags checker) (\<lambda>stack.
        if stack = [] then Inl (Fail SCRIPT_ERR_EVAL_FALSE)
        else if \<not> CastToBool (hd stack) then Inl (Fail SCRIPT_ERR_EVAL_FALSE)
        else if flags AND SCRIPT_VERIFY_P2SH \<noteq> 0 \<and> IsPayToScriptHash scriptPubKey then
          (if \<not> IsPushOnly scriptSig then Inl (Fail SCRIPT_ERR_SIG_PUSHONLY)
           else case stackCopy of
             [] \<Rightarrow> Inl AssertFailed
           | pubKeySerialized # stackCopy \<Rightarrow>
               and_then (EvalScript stackCopy pubKeySerialized flags checker) (\<lambda>stackCopy.
                 if stackCopy = [] then Inl (Fail SCRIPT_ERR_EVAL_FALSE)
                 else if \<not> CastToBool (hd stackCopy) then Inl (Fail SCRIPT_ERR_EVAL_FALSE)
                 else Inr ()))
        else Inr ())))"

end
