(* ===== verification/ScriptLimits.thy ===== *)
theory ScriptLimits
  imports Interpreter
begin

text \<open>
  The limits the interpreter keeps. The rules \<open>exec_opcode_rule\<close> and \<open>exec_opcode_rel\<close> reduce
  a statement about the \<open>switch\<close> to one about each operation. Between two operations the stacks
  hold at most 1000 elements of at most 520 bytes, at most 201 operations have been counted, and
  no assertion of the code can fail.
\<close>

section \<open>Reasoning about the switch\<close>

lemma if_rule: "(c \<Longrightarrow> P a) \<Longrightarrow> (\<not> c \<Longrightarrow> P b) \<Longrightarrow> P (if c then a else b)"
  by simp

lemma if_rel: "(c \<Longrightarrow> R a a') \<Longrightarrow> (\<not> c \<Longrightarrow> R b b') \<Longrightarrow> R (if c then a else b) (if c then a' else b')"
  by simp

lemma exec_opcode_rule:
  assumes "P (op_push_value opcode st)" and "P (Inr st)" and "P (op_nop flags st)"
    and "opcode = OP_IF \<or> opcode = OP_NOTIF \<Longrightarrow> P (op_if opcode fExec st)"
    and "opcode = OP_ELSE \<Longrightarrow> P (op_else st)" and "opcode = OP_ENDIF \<Longrightarrow> P (op_endif st)"
    and "P (op_verify st)" and "P (Inl (Fail SCRIPT_ERR_OP_RETURN))" and "P (op_toaltstack st)"
    and "P (op_fromaltstack st)" and "P (on_stack (op_stack opcode) st)"
    and "\<And>m. P (on_stack (op_pick_roll opcode m) st)" and "P (on_stack (op_equal opcode) st)"
    and "\<And>m. opcode \<in> {OP_1ADD, OP_1SUB, OP_NEGATE, OP_ABS, OP_NOT, OP_0NOTEQUAL} \<Longrightarrow>
      P (on_stack (op_unary opcode m) st)"
    and "\<And>m. opcode \<in> {OP_ADD, OP_SUB, OP_BOOLAND, OP_BOOLOR, OP_NUMEQUAL, OP_NUMEQUALVERIFY,
          OP_NUMNOTEQUAL, OP_LESSTHAN, OP_GREATERTHAN, OP_LESSTHANOREQUAL,
          OP_GREATERTHANOREQUAL, OP_MIN, OP_MAX} \<Longrightarrow> P (on_stack (op_binary opcode m) st)"
    and "\<And>m. P (on_stack (op_within m) st)" and "P (on_stack (op_hash opcode) st)"
    and "P (Inr (st\<lparr>st_codehash := pc\<rparr>))"
    and "P (on_stack (op_checksig opcode flags checker (st_codehash st)) st)"
    and "\<And>m. P (op_checkmultisig opcode flags checker m st)"
    and "P (Inl (Fail SCRIPT_ERR_BAD_OPCODE))"
  shows "P (exec_opcode flags checker fExec opcode pc st)"
  unfolding exec_opcode_def Let_def
  by (intro if_rule [where P = P]; (rule assms; assumption)?)

lemma exec_opcode_rel:
  assumes "R (op_push_value opcode st) (op_push_value opcode st)" and "R (Inr st) (Inr st)"
    and "R (op_nop flags st) (op_nop flags' st)"
    and "R (op_if opcode fExec st) (op_if opcode fExec st)"
    and "R (op_else st) (op_else st)" and "R (op_endif st) (op_endif st)"
    and "R (op_verify st) (op_verify st)"
    and "\<And>e. R (Inl e) (Inl e)" and "R (op_toaltstack st) (op_toaltstack st)"
    and "R (op_fromaltstack st) (op_fromaltstack st)"
    and "R (on_stack (op_stack opcode) st) (on_stack (op_stack opcode) st)"
    and "R (on_stack (op_pick_roll opcode m) st) (on_stack (op_pick_roll opcode m') st)"
    and "R (on_stack (op_equal opcode) st) (on_stack (op_equal opcode) st)"
    and "R (on_stack (op_unary opcode m) st) (on_stack (op_unary opcode m') st)"
    and "R (on_stack (op_binary opcode m) st) (on_stack (op_binary opcode m') st)"
    and "R (on_stack (op_within m) st) (on_stack (op_within m') st)"
    and "R (on_stack (op_hash opcode) st) (on_stack (op_hash opcode) st)"
    and "R (Inr (st\<lparr>st_codehash := pc\<rparr>)) (Inr (st\<lparr>st_codehash := pc\<rparr>))"
    and "R (on_stack (op_checksig opcode flags checker (st_codehash st)) st)
           (on_stack (op_checksig opcode flags' checker (st_codehash st)) st)"
    and "R (op_checkmultisig opcode flags checker m st)
           (op_checkmultisig opcode flags' checker m' st)"
    and "m = (flags AND SCRIPT_VERIFY_MINIMALDATA \<noteq> 0)"
    and "m' = (flags' AND SCRIPT_VERIFY_MINIMALDATA \<noteq> 0)"
  shows "R (exec_opcode flags checker fExec opcode pc st)
           (exec_opcode flags' checker fExec opcode pc st)"
  unfolding exec_opcode_def Let_def assms(21,22) [symmetric]
  by (intro if_rel [where R = R]; rule assms)

section \<open>The limits on the stack\<close>

definition elems_ok :: "valtype list \<Rightarrow> bool" where
  "elems_ok s \<longleftrightarrow> list_all (\<lambda>v. length v \<le> MAX_SCRIPT_ELEMENT_SIZE) s"

definition result_ok :: "script_failure + valtype list \<Rightarrow> bool" where
  "result_ok r \<longleftrightarrow> (\<forall>s. r = Inr s \<longrightarrow> elems_ok s) \<and> r \<noteq> Inl AssertFailed"

lemma result_ok_simps [simp]:
  "result_ok (Inr s) \<longleftrightarrow> elems_ok s"
  "result_ok (Inl e) \<longleftrightarrow> e \<noteq> AssertFailed"
  by (auto simp: result_ok_def)

lemma result_ok_and_then:
  "r \<noteq> Inl AssertFailed \<Longrightarrow> (\<And>x. r = Inr x \<Longrightarrow> result_ok (f x)) \<Longrightarrow> result_ok (and_then r f)"
  by (cases r) auto

lemma elems_ok_simps [simp]:
  "elems_ok []"
  "elems_ok (v # s) \<longleftrightarrow> length v \<le> 520 \<and> elems_ok s"
  "elems_ok (s @ t) \<longleftrightarrow> elems_ok s \<and> elems_ok t"
  by (simp_all add: elems_ok_def MAX_SCRIPT_ELEMENT_SIZE_def)

lemma elems_ok_parts:
  "elems_ok s \<Longrightarrow> elems_ok (take n s)" "elems_ok s \<Longrightarrow> elems_ok (drop n s)"
  "elems_ok s \<Longrightarrow> elems_ok (tl s)"
  "elems_ok s \<Longrightarrow> n < length s \<Longrightarrow> length (s ! n) \<le> 520"
  by (auto simp: elems_ok_def MAX_SCRIPT_ELEMENT_SIZE_def list_all_iff dest: in_set_takeD in_set_dropD
      list.set_sel(2) nth_mem) (metis list.set_sel(2) tl_Nil list.set(1) empty_iff)

text \<open>Numbers written to the stack are small.\<close>

lemma num_arg_bound: "num_arg v m = Inr n \<Longrightarrow> \<bar>n\<bar> < 2 ^ 31"
  by (auto simp: num_arg_def split: option.splits dest: CScriptNum_bound)

lemma num_arg_not_assert [simp]: "num_arg v m \<noteq> Inl AssertFailed"
  by (simp add: num_arg_def split: option.splits)

lemma getvch_small: "\<bar>n\<bar> < 2 ^ 33 \<Longrightarrow> length (getvch n) \<le> 520"
  using length_serialize_le [of n 520] by (simp add: getvch_def)

lemma getvch_size: "k \<le> 2 ^ 32 \<Longrightarrow> length (getvch (int k)) \<le> 520"
  by (rule getvch_small) simp

lemma op_stack_ok:
  assumes "elems_ok s" and "length s \<le> 1000"
  shows "result_ok (op_stack opcode s)"
proof -
  have "length (getvch (int (length s))) \<le> 520" using assms(2) by (intro getvch_size) simp
  moreover have "\<And>x. length x \<le> 520 \<Longrightarrow> length (getvch (int (length x))) \<le> 520"
    by (intro getvch_size) simp
  ultimately show ?thesis
    using assms(1) unfolding op_stack_def op_stack_last_def Let_def op_depth_def
    by (intro if_rule [where P = result_ok]; clarsimp split: list.split)
qed

lemma op_pick_roll_ok:
  assumes "elems_ok s" shows "result_ok (op_pick_roll opcode m s)"
  using assms unfolding op_pick_roll_def Let_def
  by (auto intro!: result_ok_and_then elems_ok_parts)

lemma op_equal_ok: "elems_ok s \<Longrightarrow> result_ok (op_equal opcode s)"
  by (auto simp: op_equal_def Let_def split: list.splits)

lemma unary_num_ok:
  assumes "\<bar>n\<bar> < 2 ^ 31"
    and "opcode \<in> {OP_1ADD, OP_1SUB, OP_NEGATE, OP_ABS, OP_NOT, OP_0NOTEQUAL}"
  shows "\<exists>r. unary_num opcode n = Inr r \<and> \<bar>r\<bar> < 2 ^ 33"
proof -
  have "num_add_assign n 1 = Some (n + 1)" "num_sub_assign n 1 = Some (n - 1)"
    "num_negate n = Some (- n)"
    using operands_in_range [OF assms(1), of 1] by simp_all
  then show ?thesis
    using assms by (auto simp: unary_num_def asserted_def of_bool_num_def)
qed

lemma binary_num_ok:
  assumes "\<bar>a\<bar> < 2 ^ 31" and "\<bar>b\<bar> < 2 ^ 31"
    and "opcode \<in> {OP_ADD, OP_SUB, OP_BOOLAND, OP_BOOLOR, OP_NUMEQUAL, OP_NUMEQUALVERIFY,
      OP_NUMNOTEQUAL, OP_LESSTHAN, OP_GREATERTHAN, OP_LESSTHANOREQUAL,
      OP_GREATERTHANOREQUAL, OP_MIN, OP_MAX}"
  shows "\<exists>r. binary_num opcode a b = Inr r \<and> \<bar>r\<bar> < 2 ^ 33"
  using assms(3)
  by (elim insertE emptyE) (use assms(1,2) in \<open>auto simp: binary_num_def of_bool_num_def\<close>)

lemma op_unary_ok:
  assumes "elems_ok s"
    and o: "opcode \<in> {OP_1ADD, OP_1SUB, OP_NEGATE, OP_ABS, OP_NOT, OP_0NOTEQUAL}"
  shows "result_ok (op_unary opcode m s)"
proof (cases s)
  case (Cons v s')
  have "result_ok (and_then (unary_num opcode n) (\<lambda>n. Inr (getvch n # s')))"
    if n: "num_arg v m = Inr n" for n
    using unary_num_ok [OF num_arg_bound [OF n] o] assms(1) Cons getvch_small by auto
  then show ?thesis using Cons by (auto simp: op_unary_def intro!: result_ok_and_then [of "num_arg v m"])
qed (simp add: op_unary_def)

lemma op_binary_ok:
  assumes "elems_ok s"
    and o: "opcode \<in> {OP_ADD, OP_SUB, OP_BOOLAND, OP_BOOLOR, OP_NUMEQUAL, OP_NUMEQUALVERIFY,
      OP_NUMNOTEQUAL, OP_LESSTHAN, OP_GREATERTHAN, OP_LESSTHANOREQUAL,
      OP_GREATERTHANOREQUAL, OP_MIN, OP_MAX}"
  shows "result_ok (op_binary opcode m s)"
proof (cases s)
  case s: (Cons v2 s1)
  show ?thesis
  proof (cases s1)
    case (Cons v1 s')
    have "result_ok (and_then (binary_num opcode n1 n2) (\<lambda>bn.
            let stack = getvch bn # s'
            in if opcode = OP_NUMEQUALVERIFY then
                 (if CastToBool (hd stack) then Inr (tl stack)
                  else Inl (Fail SCRIPT_ERR_NUMEQUALVERIFY))
               else Inr stack))"
      if n: "num_arg v1 m = Inr n1" "num_arg v2 m = Inr n2" for n1 n2
      using binary_num_ok [OF num_arg_bound [OF n(1)] num_arg_bound [OF n(2)] o] assms(1) s Cons
        getvch_small by (auto simp: Let_def)
    then show ?thesis
      using s Cons by (auto simp: op_binary_def intro!: result_ok_and_then [of "num_arg v1 m"]
          result_ok_and_then [of "num_arg v2 m"])
  qed (simp add: s op_binary_def)
qed (simp add: op_binary_def)

lemma op_within_ok: "elems_ok s \<Longrightarrow> result_ok (op_within m s)"
  by (auto simp: op_within_def Let_def split: list.splits intro!: result_ok_and_then)

lemma op_hash_digest:
  "op_hash opcode (vch # s) = Inr
     ((if opcode = OP_RIPEMD160 then ripemd160 vch else if opcode = OP_SHA1 then sha1 vch
       else if opcode = OP_SHA256 then sha256 vch else if opcode = OP_HASH160 then hash160 vch
       else hash256 vch) # s)"
  by (simp add: op_hash_def Let_def ripemd160h.one_feed sha1h.one_feed sha256h.one_feed
      hash160h.one_feed hash256h.one_feed)

lemma op_hash_ok: "elems_ok s \<Longrightarrow> result_ok (op_hash opcode s)"
proof (cases s)
  case (Cons v s')
  have "length (ripemd160 v) \<le> 520" "length (sha1 v) \<le> 520" "length (sha256 v) \<le> 520"
    by (simp_all)
  then show "elems_ok s \<Longrightarrow> ?thesis" by (simp add: Cons op_hash_digest)
qed (simp add: op_hash_def)

lemma op_checksig_ok: "elems_ok s \<Longrightarrow> result_ok (op_checksig opcode flags checker code s)"
  by (auto simp: op_checksig_def Let_def split: list.splits option.splits)

lemma multisig_loop_assert: "multisig_loop flags checker code s isig ns ikey nk \<noteq> Inl AssertFailed"
  by (induction flags checker code s isig ns ikey nk rule: multisig_loop.induct)
    (subst multisig_loop.simps, auto simp: Let_def split: option.split)

text \<open>The state between two operations: at most 1000 elements of at most 520 bytes, at most 201
  operations counted.\<close>

definition eval_ok :: "eval_state \<Rightarrow> bool" where
  "eval_ok st \<longleftrightarrow>
     elems_ok (st_stack st) \<and> elems_ok (st_altstack st) \<and>
     length (st_stack st) + length (st_altstack st) \<le> 1000 \<and> st_nOpCount st \<le> 201"

definition step_ok :: "script_failure + eval_state \<Rightarrow> bool" where
  "step_ok r \<longleftrightarrow> r \<noteq> Inl AssertFailed \<and>
     (\<forall>st. r = Inr st \<longrightarrow> elems_ok (st_stack st) \<and> elems_ok (st_altstack st) \<and> st_nOpCount st \<le> 201)"

lemma step_ok_simps [simp]:
  "step_ok (Inl e) \<longleftrightarrow> e \<noteq> AssertFailed"
  "step_ok (Inr st) \<longleftrightarrow> elems_ok (st_stack st) \<and> elems_ok (st_altstack st) \<and> st_nOpCount st \<le> 201"
  by (auto simp: step_ok_def)

lemma on_stack_ok: "eval_ok st \<Longrightarrow> result_ok (f (st_stack st)) \<Longrightarrow> step_ok (on_stack f st)"
  by (cases "f (st_stack st)") (auto simp: on_stack_def eval_ok_def)

lemma step_ok_and_then:
  "r \<noteq> Inl AssertFailed \<Longrightarrow> (\<And>x. r = Inr x \<Longrightarrow> step_ok (f x)) \<Longrightarrow> step_ok (and_then r f)"
  by (cases r) auto

lemma op_checkmultisig_ok:
  assumes "elems_ok (st_stack st)" "elems_ok (st_altstack st)"
  shows "step_ok (op_checkmultisig opcode flags checker m st)"
proof -
  have "elems_ok (drop n (st_stack st))" for n using assms by (intro elems_ok_parts)
  then have d: "drop n (st_stack st) = x # s \<Longrightarrow> elems_ok s" for n x s by (metis elems_ok_simps(2))
  show ?thesis
    unfolding op_checkmultisig_def Let_def using assms d
    by (intro if_rule [where P = step_ok] step_ok_and_then num_arg_not_assert multisig_loop_assert)
      (simp_all split: list.split)
qed

lemma op_push_value_ok:
  assumes "eval_ok st" shows "step_ok (op_push_value opcode st)"
proof -
  have "uint opcode < 256" using uint_lt2p [of opcode] by simp
  moreover have "0 \<le> uint opcode" by simp
  ultimately have "\<bar>uint opcode - 80\<bar> < 8589934592" by linarith
  then have "length (getvch (uint opcode - uint (OP_1 - 1))) \<le> 520"
    by (intro getvch_small) simp
  then show ?thesis using assms by (simp add: op_push_value_def Let_def eval_ok_def)
qed

lemma exec_opcode_ok:
  assumes "eval_ok st"
  shows "step_ok (exec_opcode flags checker fExec opcode pc st)"
proof -
  have e: "elems_ok (st_stack st)" "elems_ok (st_altstack st)" "st_nOpCount st \<le> 201"
    "length (st_stack st) \<le> 1000" using assms by (auto simp: eval_ok_def)
  show ?thesis
    by (rule exec_opcode_rule [where P = step_ok])
      (use e assms in \<open>simp_all add: on_stack_ok op_stack_ok op_pick_roll_ok op_equal_ok op_unary_ok
        op_binary_ok op_within_ok op_hash_ok op_checksig_ok op_checkmultisig_ok op_push_value_ok
        op_nop_def op_if_def op_else_def op_endif_def op_verify_def op_toaltstack_def
        op_fromaltstack_def Let_def split: list.split\<close>, use e in auto)
qed

lemma eval_step_ok:
  assumes "eval_ok st"
  shows "eval_step flags checker opcode vch pc st \<noteq> Inl AssertFailed \<and>
    (\<forall>st'. eval_step flags checker opcode vch pc st = Inr st' \<longrightarrow> eval_ok st')"
proof (cases "length vch > 520 \<or> opcode > OP_16 \<and> st_nOpCount (count_op opcode st) > 201 \<or> disabled_opcode opcode")
  case True
  then show ?thesis by (auto simp: eval_step_def MAX_SCRIPT_ELEMENT_SIZE_def Let_def)
next
  case False
  let ?st = "count_op opcode st"
  have ok: "eval_ok ?st" using assms False by (auto simp: count_op_def eval_ok_def)
  then have "step_ok (run_op flags checker opcode vch pc ?st)"
    using False exec_opcode_ok [OF ok] by (auto simp: run_op_def Let_def eval_ok_def)
  then show ?thesis
    using False unfolding eval_step_def Let_def MAX_SCRIPT_ELEMENT_SIZE_def
    by (cases "run_op flags checker opcode vch pc ?st") (auto simp: eval_ok_def)
qed

text \<open>Induction over the operations the loop executes.\<close>

lemma eval_loop_step:
  "GetOp2 pc = (True, opcode, vch, pc') \<Longrightarrow>
   eval_loop flags checker pc st =
     (case eval_step flags checker opcode vch pc' st of
        Inl e \<Rightarrow> Inl e | Inr st' \<Rightarrow> eval_loop flags checker pc' st')"
  by (subst eval_loop.simps) (auto split: sum.split)

lemma eval_loop_fail:
  "GetOp2 pc = (False, opcode, vch, pc') \<Longrightarrow> pc \<noteq> [] \<Longrightarrow>
   eval_loop flags checker pc st = Inl (Fail SCRIPT_ERR_BAD_OPCODE)"
  by (subst eval_loop.simps) simp

lemma eval_loop_Nil [simp]: "eval_loop flags checker [] st = Inr st"
  by (subst eval_loop.simps) simp

lemma eval_loop_ok:
  "eval_ok st \<Longrightarrow> eval_loop flags checker pc st \<noteq> Inl AssertFailed \<and>
    (\<forall>st'. eval_loop flags checker pc st = Inr st' \<longrightarrow> eval_ok st')"
proof (induction pc arbitrary: st rule: script_induct)
  case (Op pc op vch pc')
  then show ?case
    using eval_step_ok [OF Op.prems, of flags checker op vch pc']
    by (cases "eval_step flags checker op vch pc' st") (auto simp: eval_loop_step)
qed (auto simp: eval_loop_fail)

lemma EvalScript_ok:
  assumes "elems_ok stack" and "length stack \<le> 1000"
  shows "EvalScript stack script flags checker \<noteq> Inl AssertFailed \<and>
    (\<forall>s. EvalScript stack script flags checker = Inr s \<longrightarrow> elems_ok s \<and> length s \<le> 1000)"
proof -
  let ?st = "\<lparr>st_codehash = script, st_stack = stack, st_altstack = [], st_vfExec = [],
           st_nOpCount = 0\<rparr>"
  have "eval_ok ?st" using assms by (simp add: eval_ok_def)
  from eval_loop_ok [OF this, of flags checker script] show ?thesis
    by (auto simp: EvalScript_def catch_all_def eval_ok_def split: sum.splits)
qed

section \<open>Properties\<close>

text \<open>
  C5. From a stack within the limits (1000 elements of at most 520 bytes) EvalScript ends within
  them, and between any two operations of the loop the two stacks together hold at most 1000
  elements of at most 520 bytes and at most 201 operations have been counted.
\<close>

theorem script_limits:
  assumes "elems_ok stack" and "length stack \<le> 1000"
  shows "(EvalScript stack script flags checker = Inr s \<longrightarrow> elems_ok s \<and> length s \<le> 1000) \<and>
    (\<forall>st. eval_ok st \<and> eval_step flags checker opcode vch pc st = Inr st' \<longrightarrow> eval_ok st')"
  using EvalScript_ok [OF assms, of script flags checker] eval_step_ok by blast

theorem script_limits_witness:
  "EvalScript [] [OP_1] 0 (\<lambda>_ _ _. False) = Inr [[1]] \<and> elems_ok [[1]]"
proof -
  have e: "EvalScript [] [OP_1] 0 (\<lambda>_ _ _. False) = Inr [[1]]" by code_simp
  then show ?thesis using script_limits [of "[]" "[OP_1]" 0 "\<lambda>_ _ _. False" "[[1]]"] by simp
qed

end
