(* ===== verification/ScriptControl.thy ===== *)
theory ScriptControl
  imports ScriptLimits
begin

text \<open>
  What a script that \<open>EvalScript\<close> accepts looks like, whatever the data: every operation can be
  read, no push is too long, no disabled operation occurs even in a branch that is not executed,
  the operations counted are at most 201, and the conditionals are balanced. And what a branch
  that is not executed does: nothing.
\<close>

section \<open>Conditionals\<close>

text \<open>The nesting depth after an operation, \<open>None\<close> when \<open>OP_ELSE\<close> or \<open>OP_ENDIF\<close> stand alone.\<close>

definition depth_op :: "byte \<Rightarrow> nat \<Rightarrow> nat option" where
  "depth_op op d =
     (if op = OP_IF \<or> op = OP_NOTIF then Some (d + 1)
      else if op = OP_ELSE then (if d = 0 then None else Some d)
      else if op = OP_ENDIF then (if d = 0 then None else Some (d - 1))
      else Some d)"

fun depth_ops :: "(byte \<times> valtype) list \<Rightarrow> nat \<Rightarrow> nat option" where
  "depth_ops [] d = Some d"
| "depth_ops ((op, vch) # ops) d =
     (case depth_op op d of None \<Rightarrow> None | Some d' \<Rightarrow> depth_ops ops d')"

definition keeps_vfExec :: "eval_state \<Rightarrow> script_failure + eval_state \<Rightarrow> bool" where
  "keeps_vfExec st r \<longleftrightarrow> (\<forall>st'. r = Inr st' \<longrightarrow> st_vfExec st' = st_vfExec st)"

lemma keeps_vfExec_simps [simp]:
  "keeps_vfExec st (Inl e)"
  "keeps_vfExec st (Inr st') \<longleftrightarrow> st_vfExec st' = st_vfExec st"
  by (auto simp: keeps_vfExec_def)

lemma keeps_on_stack: "keeps_vfExec st (on_stack f st)"
  by (cases "f (st_stack st)") (simp_all add: on_stack_def)

lemma keeps_and_then: "(\<And>x. keeps_vfExec st (f x)) \<Longrightarrow> keeps_vfExec st (and_then r f)"
  by (cases r) simp_all

lemma keeps_checkmultisig: "keeps_vfExec st (op_checkmultisig opcode flags checker m st)"
  unfolding op_checkmultisig_def Let_def
  by (intro if_rule [where P = "keeps_vfExec st"] keeps_and_then) (simp_all split: list.split)

definition depth_ok :: "byte \<Rightarrow> eval_state \<Rightarrow> script_failure + eval_state \<Rightarrow> bool" where
  "depth_ok op st r \<longleftrightarrow>
     (\<forall>st'. r = Inr st' \<longrightarrow> depth_op op (length (st_vfExec st)) = Some (length (st_vfExec st')))"

lemma depth_ok_keeps:
  "keeps_vfExec st r \<Longrightarrow> op \<notin> {OP_IF, OP_NOTIF, OP_ELSE, OP_ENDIF} \<Longrightarrow> depth_ok op st r"
  by (auto simp: depth_ok_def keeps_vfExec_def depth_op_def)

lemma exec_opcode_keeps:
  assumes "opcode \<notin> {OP_IF, OP_NOTIF, OP_ELSE, OP_ENDIF}"
  shows "keeps_vfExec st (exec_opcode flags checker fExec opcode pc st)"
  by (rule exec_opcode_rule [where P = "keeps_vfExec st"])
    (use assms in \<open>auto simp: keeps_on_stack keeps_checkmultisig op_push_value_def op_nop_def
      op_verify_def op_toaltstack_def op_fromaltstack_def Let_def split: list.split\<close>)

lemma exec_conditional:
  "exec_opcode flags checker fExec OP_IF pc st = op_if OP_IF fExec st"
  "exec_opcode flags checker fExec OP_NOTIF pc st = op_if OP_NOTIF fExec st"
  "exec_opcode flags checker fExec OP_ELSE pc st = op_else st"
  "exec_opcode flags checker fExec OP_ENDIF pc st = op_endif st"
  by (simp_all add: exec_opcode_def Let_def)

lemma exec_opcode_depth: "depth_ok opcode st (exec_opcode flags checker fExec opcode pc st)"
proof (cases "opcode \<in> {OP_IF, OP_NOTIF, OP_ELSE, OP_ENDIF}")
  case True
  then show ?thesis
    by (elim insertE emptyE)
      (auto simp: exec_conditional depth_ok_def depth_op_def op_if_def op_else_def op_endif_def Let_def
        split: list.splits if_splits)
qed (simp add: depth_ok_keeps exec_opcode_keeps)

lemma run_op_depth: "depth_ok opcode st (run_op flags checker opcode vch pc st)"
proof -
  have "opcode \<le> OP_PUSHDATA4 \<or> \<not> (OP_IF \<le> opcode \<and> opcode \<le> OP_ENDIF) \<Longrightarrow>
      opcode \<notin> {OP_IF, OP_NOTIF, OP_ELSE, OP_ENDIF}" by (auto simp: word_le_nat_alt)
  then show ?thesis
    unfolding run_op_def Let_def
    by (intro if_rule [where P = "depth_ok opcode st"] exec_opcode_depth depth_ok_keeps) simp_all
qed

lemma count_op_simps [simp]:
  "st_vfExec (count_op op st) = st_vfExec st" "st_stack (count_op op st) = st_stack st"
  "st_altstack (count_op op st) = st_altstack st" "st_codehash (count_op op st) = st_codehash st"
  "st_nOpCount (count_op op st) = st_nOpCount st + (if op > OP_16 then 1 else 0)"
  by (simp_all add: count_op_def)

section \<open>What an accepted step says of the operation\<close>

text \<open>\<open>OP_CHECKMULTISIG\<close> adds the number of its keys to the count, the other operations leave it.\<close>

definition count_mono :: "eval_state \<Rightarrow> script_failure + eval_state \<Rightarrow> bool" where
  "count_mono st r \<longleftrightarrow> (\<forall>st'. r = Inr st' \<longrightarrow> st_nOpCount st \<le> st_nOpCount st')"

lemma count_mono_simps [simp]:
  "count_mono st (Inl e)"
  "count_mono st (Inr st') \<longleftrightarrow> st_nOpCount st \<le> st_nOpCount st'"
  by (auto simp: count_mono_def)

lemma count_on_stack: "count_mono st (on_stack f st)"
  by (cases "f (st_stack st)") (simp_all add: on_stack_def)

lemma count_and_then: "(\<And>x. count_mono st (f x)) \<Longrightarrow> count_mono st (and_then r f)"
  by (cases r) simp_all

lemma count_checkmultisig: "count_mono st (op_checkmultisig opcode flags checker m st)"
  unfolding op_checkmultisig_def Let_def
  by (intro if_rule [where P = "count_mono st"] count_and_then) (simp_all split: list.split)

lemma run_op_count: "count_mono st (run_op flags checker opcode vch pc st)"
proof -
  have "count_mono st (exec_opcode flags checker fExec opcode pc st)" for fExec
    by (rule exec_opcode_rule [where P = "count_mono st"])
      (auto simp: count_on_stack count_checkmultisig op_push_value_def op_nop_def op_if_def
        op_else_def op_endif_def op_verify_def op_toaltstack_def op_fromaltstack_def Let_def
        split: list.split)
  then show ?thesis
    unfolding run_op_def Let_def
    by (intro if_rule [where P = "count_mono st"]) simp_all
qed

lemma eval_step_accepts:
  assumes "eval_step flags checker opcode vch pc st = Inr st'"
  shows "length vch \<le> 520" and "\<not> disabled_opcode opcode"
    and "depth_op opcode (length (st_vfExec st)) = Some (length (st_vfExec st'))"
    and "st_nOpCount st + (if opcode > OP_16 then 1 else 0) \<le> st_nOpCount st'"
proof -
  let ?st = "count_op opcode st"
  have r: "run_op flags checker opcode vch pc ?st = Inr st'" "length vch \<le> 520" "\<not> disabled_opcode opcode"
    using assms by (auto simp: eval_step_def Let_def MAX_SCRIPT_ELEMENT_SIZE_def and_then_Inr_iff
        split: if_splits)
  show "length vch \<le> 520" "\<not> disabled_opcode opcode" using r by simp_all
  show "depth_op opcode (length (st_vfExec st)) = Some (length (st_vfExec st'))"
    using run_op_depth [of opcode ?st flags checker vch pc] r(1) by (simp add: depth_ok_def)
  show "st_nOpCount st + (if opcode > OP_16 then 1 else 0) \<le> st_nOpCount st'"
    using run_op_count [of ?st flags checker opcode vch pc] r(1) by (simp add: count_mono_def)
qed

definition counted_ops :: "(byte \<times> valtype) list \<Rightarrow> nat" where
  "counted_ops ops = length (filter (\<lambda>x. fst x > OP_16) ops)"

lemma eval_loop_accepts:
  "eval_loop flags checker pc st = Inr st' \<Longrightarrow>
   snd (parse_script pc) \<and>
   list_all (\<lambda>(op, vch). length vch \<le> 520 \<and> \<not> disabled_opcode op) (fst (parse_script pc)) \<and>
   depth_ops (fst (parse_script pc)) (length (st_vfExec st)) = Some (length (st_vfExec st')) \<and>
   st_nOpCount st + int (counted_ops (fst (parse_script pc))) \<le> st_nOpCount st'"
proof (induction pc arbitrary: st rule: script_induct)
  case (Op pc op vch pc')
  then obtain st1 where st1: "eval_step flags checker op vch pc' st = Inr st1"
    "eval_loop flags checker pc' st1 = Inr st'"
    by (auto simp: eval_loop_step split: sum.splits)
  show ?case
  proof (intro conjI)
    note IH = Op.IH [OF st1(2)] and acc = eval_step_accepts [OF st1(1)]
    show "snd (parse_script pc)" using IH unfolding parse_script_step [OF Op(2)] snd_conv by blast
    show "list_all (\<lambda>(op, vch). length vch \<le> 520 \<and> \<not> disabled_opcode op) (fst (parse_script pc))"
      using IH acc(1,2) unfolding parse_script_step [OF Op(2)] fst_conv list.pred_inject(2) prod.case by blast
    show "depth_ops (fst (parse_script pc)) (length (st_vfExec st)) = Some (length (st_vfExec st'))"
      using IH acc(3) unfolding parse_script_step [OF Op(2)] fst_conv depth_ops.simps by simp
    have "counted_ops (fst (parse_script pc)) =
        (if op > OP_16 then 1 else 0) + counted_ops (fst (parse_script pc'))"
      unfolding parse_script_step [OF Op(2)] counted_ops_def by simp
    then show "st_nOpCount st + int (counted_ops (fst (parse_script pc))) \<le> st_nOpCount st'"
      using IH acc(4) by (cases "op > OP_16") simp_all
  qed
qed (auto simp: eval_loop_fail counted_ops_def)

lemma EvalScript_accepts:
  assumes "EvalScript stack script flags checker = Inr s" and "elems_ok stack" and "length stack \<le> 1000"
  shows "length script \<le> 10000 \<and> snd (parse_script script) \<and>
    list_all (\<lambda>(op, vch). length vch \<le> 520 \<and> \<not> disabled_opcode op) (fst (parse_script script)) \<and>
    depth_ops (fst (parse_script script)) 0 = Some 0 \<and> counted_ops (fst (parse_script script)) \<le> 201"
proof -
  let ?st = "\<lparr>st_codehash = script, st_stack = stack, st_altstack = [], st_vfExec = [],
           st_nOpCount = 0\<rparr>"
  obtain st' where l: "eval_loop flags checker script ?st = Inr st'" "st_vfExec st' = []"
    "length script \<le> 10000"
    using assms(1) by (auto simp: EvalScript_def MAX_SCRIPT_SIZE_def split: sum.splits if_splits)
  have "eval_ok ?st" using assms by (simp add: eval_ok_def)
  from eval_loop_ok [OF this, of flags checker script] l(1)
  have "st_nOpCount st' \<le> 201" by (simp add: eval_ok_def)
  with eval_loop_accepts [OF l(1)] l(2,3) show ?thesis by simp
qed

section \<open>A branch that is not executed\<close>

lemma eval_step_unexecuted:
  assumes "eval_step flags checker opcode vch pc st = Inr st'" and "False \<in> set (st_vfExec st)"
  shows "st_stack st' = st_stack st" and "st_altstack st' = st_altstack st"
    and "st_codehash st' = st_codehash st"
proof -
  let ?st = "count_op opcode st"
  have f: "\<not> list_all (\<lambda>b. b) (st_vfExec ?st)" using assms(2) by (auto simp: list_all_iff)
  have r: "run_op flags checker opcode vch pc ?st = Inr st'"
    using assms(1) by (auto simp: eval_step_def Let_def and_then_Inr_iff split: if_splits)
  have "OP_IF \<le> opcode \<and> opcode \<le> OP_ENDIF \<Longrightarrow>
      opcode = OP_IF \<or> opcode = OP_NOTIF \<or> opcode = OP_VERIF \<or> opcode = OP_VERNOTIF \<or>
      opcode = OP_ELSE \<or> opcode = OP_ENDIF"
  proof -
    assume "OP_IF \<le> opcode \<and> opcode \<le> OP_ENDIF"
    then have "99 \<le> unat opcode" "unat opcode \<le> 104" by (simp_all add: word_le_nat_alt)
    then have "unat opcode = 99 \<or> unat opcode = 100 \<or> unat opcode = 101 \<or> unat opcode = 102 \<or>
        unat opcode = 103 \<or> unat opcode = 104" by linarith
    then show ?thesis by (simp add: word_unat_eq_iff)
  qed
  moreover have "exec_opcode flags checker False OP_VERIF pc st = Inl (Fail SCRIPT_ERR_BAD_OPCODE)"
    "exec_opcode flags checker False OP_VERNOTIF pc st = Inl (Fail SCRIPT_ERR_BAD_OPCODE)" for st
    by (simp_all add: exec_opcode_def Let_def)
  ultimately have "st_stack st' = st_stack ?st \<and> st_altstack st' = st_altstack ?st \<and>
      st_codehash st' = st_codehash ?st"
    using r f unfolding run_op_def Let_def
    by (auto simp: exec_conditional op_if_def op_else_def op_endif_def split: if_splits list.splits)
  then show "st_stack st' = st_stack st" "st_altstack st' = st_altstack st"
    "st_codehash st' = st_codehash st" by simp_all
qed

lemma unexecuted_branch:
  assumes "eval_step flags checker opcode vch pc st = Inr st'" and "False \<in> set (st_vfExec st)"
  shows "st_stack st' = st_stack st \<and> st_altstack st' = st_altstack st \<and> st_codehash st' = st_codehash st"
  using eval_step_unexecuted [OF assms] by simp

section \<open>Properties\<close>

text \<open>
  C7. A script EvalScript accepts is at most 10000 bytes long, every operation in it can be read,
  no push is longer than 520 bytes, no disabled opcode occurs even in a branch that is not
  executed, its conditionals are balanced and at most 201 of its operations count.
\<close>

theorem accepted_script_shape:
  assumes "EvalScript stack script flags checker = Inr s" and "elems_ok stack" and "length stack \<le> 1000"
  shows "length script \<le> 10000 \<and> snd (parse_script script) \<and>
    list_all (\<lambda>(op, vch). length vch \<le> 520 \<and> \<not> disabled_opcode op) (fst (parse_script script)) \<and>
    depth_ops (fst (parse_script script)) 0 = Some 0 \<and> counted_ops (fst (parse_script script)) \<le> 201"
  using assms by (rule EvalScript_accepts)

theorem accepted_script_shape_witness:
  "snd (parse_script [OP_1, OP_IF, OP_1, OP_ENDIF]) \<and>
    depth_ops (fst (parse_script [OP_1, OP_IF, OP_1, OP_ENDIF])) 0 = Some 0"
proof -
  have "EvalScript [] [OP_1, OP_IF, OP_1, OP_ENDIF] 0 (\<lambda>_ _ _. False) = Inr [[1]]" by code_simp
  from accepted_script_shape [OF this] show ?thesis by simp
qed

end
