(* ===== verification/ScriptFlags.thy ===== *)
theory ScriptFlags
  imports ScriptLimits
begin

text \<open>
  The comments in \<open>src/script/interpreter.h\<close> call the verification flags soft-fork safe: turning
  one on may make a script fail, but never makes a failing script succeed. Here this is proved for
  every operation, for \<open>EvalScript\<close> (which also ends with the same stack) and for
  \<open>VerifyScript\<close>.
\<close>

definition flags_le :: "u32 \<Rightarrow> u32 \<Rightarrow> bool" where
  "flags_le flags flags' \<longleftrightarrow> flags AND flags' = flags"

lemma flags_leD: "flags_le flags flags' \<Longrightarrow> flags AND c \<noteq> 0 \<Longrightarrow> flags' AND c \<noteq> 0"
proof
  assume a: "flags_le flags flags'" "flags AND c \<noteq> 0" and z: "flags' AND c = 0"
  have "flags AND c = (flags AND flags') AND c" using a(1) by (simp only: flags_le_def)
  also have "\<dots> = flags AND (flags' AND c)" by (simp only: and.assoc)
  finally show False using a(2) by (simp only: z and_zero_eq)
qed

text \<open>A run under more flags, when it succeeds, is the run under fewer.\<close>

definition stricter :: "'e + 'a \<Rightarrow> 'e + 'a \<Rightarrow> bool" where
  "stricter r' r \<longleftrightarrow> (\<forall>x. r' = Inr x \<longrightarrow> r = Inr x)"

lemma stricterI: "(\<And>x. r' = Inr x \<Longrightarrow> r = Inr x) \<Longrightarrow> stricter r' r"
  by (simp add: stricter_def)

lemma stricter_refl [simp]: "stricter r r"
  by (simp add: stricter_def)

lemma stricter_Inl [simp]: "stricter (Inl e) r"
  by (simp add: stricter_def)

lemma stricter_and_then:
  "stricter r' r \<Longrightarrow> (\<And>x. stricter (f' x) (f x)) \<Longrightarrow> stricter (and_then r' f') (and_then r f)"
  by (cases r') (auto simp: stricter_def and_then_Inr_iff)

lemma stricter_if:
  "(c \<Longrightarrow> stricter a' a) \<Longrightarrow> (\<not> c \<Longrightarrow> stricter b' b) \<Longrightarrow>
   stricter (if c then a' else b') (if c then a else b)"
  by simp

lemma stricter_guard:
  "(c \<Longrightarrow> c') \<Longrightarrow> stricter a' a \<Longrightarrow>
   stricter (if c' then Inl e else a') (if c then Inl e else a)"
  by auto

lemma stricter_unit: "stricter r' (Inr ())"
  by (simp add: stricter_def)

lemma stricter_num_arg: "(m \<Longrightarrow> m') \<Longrightarrow> stricter (num_arg v m') (num_arg v m)"
  by (auto simp: stricter_def num_arg_def CScriptNum_def split: option.splits if_splits)

lemma CheckSignatureEncoding_None:
  "CheckSignatureEncoding s flags = None \<longleftrightarrow>
     s = [] \<or>
     (flags AND (SCRIPT_VERIFY_DERSIG OR SCRIPT_VERIFY_LOW_S OR SCRIPT_VERIFY_STRICTENC) \<noteq> 0 \<longrightarrow>
        IsValidSignatureEncoding s) \<and>
     (flags AND SCRIPT_VERIFY_LOW_S \<noteq> 0 \<longrightarrow> IsLowDERSignature s = None) \<and>
     (flags AND SCRIPT_VERIFY_STRICTENC \<noteq> 0 \<longrightarrow> IsDefinedHashtypeSignature s)"
  unfolding CheckSignatureEncoding_def by (simp split: if_split)

lemma CheckPubKeyEncoding_None:
  "CheckPubKeyEncoding k flags = None \<longleftrightarrow>
     (flags AND SCRIPT_VERIFY_STRICTENC \<noteq> 0 \<longrightarrow> IsCompressedOrUncompressedPubKey k)"
  unfolding CheckPubKeyEncoding_def by simp

lemma check_encodings_None:
  "check_encodings s k flags = None \<longleftrightarrow>
     CheckSignatureEncoding s flags = None \<and> CheckPubKeyEncoding k flags = None"
  by (simp add: check_encodings_def split: option.split)

lemma check_encodings_le:
  assumes "flags_le flags flags'" and "check_encodings s k flags' = None"
  shows "check_encodings s k flags = None"
  using assms(2) flags_leD [OF assms(1)]
  unfolding check_encodings_None CheckSignatureEncoding_None CheckPubKeyEncoding_None by blast

lemma multisig_loop_le:
  assumes "flags_le flags flags'"
  shows "stricter (multisig_loop flags' checker code s isig ns ikey nk)
    (multisig_loop flags checker code s isig ns ikey nk)"
proof (induction "ns + nk" arbitrary: isig ns ikey nk rule: less_induct)
  case less
  let ?s = "s ! (isig - 1)" and ?k = "s ! (ikey - 1)"
  show ?case
  proof (cases "0 < ns \<and> check_encodings ?s ?k flags' = None")
    case False
    then show ?thesis
      by (subst (1 2) multisig_loop.simps) (auto simp: Let_def split: option.split)
  next
    case True
    then have e: "check_encodings ?s ?k flags = None" using check_encodings_le [OF assms] by blast
    let ?ns = "if checker ?s ?k code then ns - 1 else ns"
    have "\<not> nk - 1 < ?ns \<Longrightarrow> ?ns + (nk - 1) < ns + nk" using True by auto
    then show ?thesis
      using True e less by (subst (1 2) multisig_loop.simps) (simp add: Let_def)
  qed
qed

lemma op_checksig_le:
  "flags_le flags flags' \<Longrightarrow>
   stricter (op_checksig opcode flags' checker code s) (op_checksig opcode flags checker code s)"
  by (rule stricterI)
    (auto simp: op_checksig_def Let_def check_encodings_le split: list.splits option.splits if_splits)

lemma op_checkmultisig_le:
  assumes "flags_le flags flags'" and "m \<Longrightarrow> m'"
  shows "stricter (op_checkmultisig opcode flags' checker m' st)
    (op_checkmultisig opcode flags checker m st)"
proof -
  have "flags' AND SCRIPT_VERIFY_NULLDUMMY = 0 \<Longrightarrow> flags AND SCRIPT_VERIFY_NULLDUMMY = 0"
    using flags_leD [OF assms(1)] by blast
  then show ?thesis
    unfolding op_checkmultisig_def Let_def
    by (intro stricter_if stricter_and_then stricter_num_arg multisig_loop_le assms stricter_Inl)
      (auto simp: stricter_def split: list.splits if_splits)
qed

lemma on_stack_le: "(\<And>s. stricter (f' s) (f s)) \<Longrightarrow> stricter (on_stack f' st) (on_stack f st)"
  by (simp add: on_stack_def stricter_and_then)

lemma op_pick_roll_le: "(m \<Longrightarrow> m') \<Longrightarrow> stricter (op_pick_roll op m' s) (op_pick_roll op m s)"
  unfolding op_pick_roll_def Let_def
  by (intro stricter_if stricter_and_then stricter_num_arg) simp_all

lemma op_unary_le: "(m \<Longrightarrow> m') \<Longrightarrow> stricter (op_unary op m' s) (op_unary op m s)"
  unfolding op_unary_def
  by (cases s) (auto intro!: stricter_and_then stricter_num_arg)

lemma op_binary_le: "(m \<Longrightarrow> m') \<Longrightarrow> stricter (op_binary op m' s) (op_binary op m s)"
  unfolding op_binary_def
  by (auto split: list.split intro!: stricter_and_then stricter_num_arg)

lemma op_within_le: "(m \<Longrightarrow> m') \<Longrightarrow> stricter (op_within m' s) (op_within m s)"
  unfolding op_within_def
  by (auto split: list.split intro!: stricter_and_then stricter_num_arg)

lemma op_nop_le: "flags_le flags flags' \<Longrightarrow> stricter (op_nop flags' st) (op_nop flags st)"
  using flags_leD [of flags flags' SCRIPT_VERIFY_DISCOURAGE_UPGRADABLE_NOPS]
  by (auto simp: op_nop_def stricter_def)

lemma exec_opcode_le:
  assumes "flags_le flags flags'"
  shows "stricter (exec_opcode flags' checker fExec opcode pc st)
    (exec_opcode flags checker fExec opcode pc st)"
proof (rule exec_opcode_rel [where R = stricter and flags = flags' and flags' = flags])
  let ?m = "\<lambda>f. f AND SCRIPT_VERIFY_MINIMALDATA \<noteq> 0"
  have m: "?m flags \<Longrightarrow> ?m flags'" by (rule flags_leD [OF assms])
  show "stricter (on_stack (op_pick_roll opcode (?m flags')) st) (on_stack (op_pick_roll opcode (?m flags)) st)"
    "stricter (on_stack (op_unary opcode (?m flags')) st) (on_stack (op_unary opcode (?m flags)) st)"
    "stricter (on_stack (op_binary opcode (?m flags')) st) (on_stack (op_binary opcode (?m flags)) st)"
    "stricter (on_stack (op_within (?m flags')) st) (on_stack (op_within (?m flags)) st)"
    "stricter (op_checkmultisig opcode flags' checker (?m flags') st)
       (op_checkmultisig opcode flags checker (?m flags) st)"
    using m assms
    by (blast intro: on_stack_le op_pick_roll_le op_unary_le op_binary_le op_within_le
        op_checkmultisig_le)+
qed (simp_all add: assms op_nop_le on_stack_le op_checksig_le)

lemma eval_step_le:
  assumes "flags_le flags flags'"
  shows "stricter (eval_step flags' checker opcode vch pc st) (eval_step flags checker opcode vch pc st)"
proof -
  have "flags' AND SCRIPT_VERIFY_MINIMALDATA = 0 \<Longrightarrow> flags AND SCRIPT_VERIFY_MINIMALDATA = 0"
    using flags_leD [OF assms] by blast
  then have "stricter (run_op flags' checker opcode vch pc st) (run_op flags checker opcode vch pc st)" for st
    unfolding run_op_def Let_def
    by (intro stricter_if exec_opcode_le assms) (auto simp: stricter_def)
  then show ?thesis
    unfolding eval_step_def Let_def by (intro stricter_if stricter_and_then) simp_all
qed

lemma eval_loop_le:
  assumes "flags_le flags flags'"
  shows "stricter (eval_loop flags' checker pc st) (eval_loop flags checker pc st)"
proof (induction pc arbitrary: st rule: script_induct)
  case (Op pc op vch pc')
  then show ?case
    using eval_step_le [OF assms, of checker op vch pc' st]
    by (auto simp: eval_loop_step stricter_def split: sum.split)
qed (simp_all add: eval_loop_fail)

lemma EvalScript_le:
  assumes "flags_le flags flags'"
  shows "stricter (EvalScript stack script flags' checker) (EvalScript stack script flags checker)"
  using eval_loop_le [OF assms, of checker script]
  by (auto simp: stricter_def EvalScript_def split: sum.splits if_splits)

lemma VerifyScript_le:
  assumes "flags_le flags flags'"
  shows "stricter (VerifyScript scriptSig scriptPubKey flags' checker)
    (VerifyScript scriptSig scriptPubKey flags checker)"
proof -
  have f: "flags AND SCRIPT_VERIFY_SIGPUSHONLY \<noteq> 0 \<Longrightarrow> flags' AND SCRIPT_VERIFY_SIGPUSHONLY \<noteq> 0"
    "flags AND SCRIPT_VERIFY_P2SH \<noteq> 0 \<Longrightarrow> flags' AND SCRIPT_VERIFY_P2SH \<noteq> 0"
    using flags_leD [OF assms] by blast+
  have p2sh: "stricter (if flags' AND SCRIPT_VERIFY_P2SH \<noteq> 0 \<and> p then x' else Inr ())
      (if flags AND SCRIPT_VERIFY_P2SH \<noteq> 0 \<and> p then x else Inr ())"
    if "stricter x' x" for p and x x' :: "script_failure + unit"
    using that f(2) by (cases p; cases "flags AND SCRIPT_VERIFY_P2SH = 0") (simp_all add: stricter_unit)
  show ?thesis
    unfolding VerifyScript_def
    by (intro stricter_guard stricter_and_then EvalScript_le [OF assms] p2sh)
      (use f in \<open>auto split: list.split intro!: stricter_and_then EvalScript_le [OF assms]\<close>)
qed

section \<open>Properties\<close>

text \<open>
  C6. The verification flags are soft-fork safe, as their comments claim: whatever VerifyScript
  accepts under a set of flags it accepts under every subset, and EvalScript ends with the same
  stack.
\<close>

theorem flags_soft_fork_safe:
  assumes "flags AND flags' = flags"
  shows "(VerifyScript scriptSig scriptPubKey flags' checker = Inr () \<longrightarrow>
      VerifyScript scriptSig scriptPubKey flags checker = Inr ()) \<and>
    (EvalScript stack script flags' checker = Inr s \<longrightarrow> EvalScript stack script flags checker = Inr s)"
  using VerifyScript_le [of flags flags' scriptSig scriptPubKey checker]
    EvalScript_le [of flags flags' stack script checker] assms
  by (simp add: stricter_def flags_le_def)

theorem flags_soft_fork_safe_witness:
  "EvalScript [] [OP_1] SCRIPT_VERIFY_P2SH (\<lambda>_ _ _. False) = Inr [[1]]"
proof -
  have "EvalScript [] [OP_1] (SCRIPT_VERIFY_P2SH OR SCRIPT_VERIFY_MINIMALDATA) (\<lambda>_ _ _. False) = Inr [[1]]"
    by code_simp
  then show ?thesis
    using flags_soft_fork_safe [of SCRIPT_VERIFY_P2SH "SCRIPT_VERIFY_P2SH OR SCRIPT_VERIFY_MINIMALDATA"
        "[]" "[]" "\<lambda>_ _ _. False" "[]" "[OP_1]" "[[1]]"] by simp
qed

end
