(* ===== verification/ScriptTemplates.thy ===== *)
theory ScriptTemplates
  imports ScriptControl ScriptFlags "HOL-Library.Sublist"
begin

text \<open>
  What the operations and the standard scripts mean: arithmetic on encoded numbers, which
  signatures \<open>OP_CHECKMULTISIG\<close> accepts, and when pay-to-pubkey-hash and pay-to-script-hash
  outputs are spent.
\<close>

section \<open>OP_CHECKMULTISIG\<close>

text \<open>The signatures match keys in the order of the keys.\<close>

definition sigs_match :: "(valtype \<Rightarrow> valtype \<Rightarrow> bool) \<Rightarrow> valtype list \<Rightarrow> valtype list \<Rightarrow> bool" where
  "sigs_match c sigs keys \<longleftrightarrow> (\<exists>ks. subseq ks keys \<and> list_all2 c sigs ks)"

lemma sigs_match_Nil [simp]: "sigs_match c [] keys"
  by (auto simp: sigs_match_def)

lemma sigs_match_too_many: "length keys < length sigs \<Longrightarrow> \<not> sigs_match c sigs keys"
  by (auto simp: sigs_match_def dest!: list_all2_lengthD list_emb_length)

text \<open>Matching the first signature with the first key that fits loses nothing.\<close>

lemma sigs_match_Cons:
  "sigs_match c (s # sigs) (k # keys) \<longleftrightarrow>
     (if c s k then sigs_match c sigs keys else sigs_match c (s # sigs) keys)"
proof (cases "c s k")
  case True
  have "sigs_match c sigs keys" if "subseq ks (k # keys)" "list_all2 c (s # sigs) ks" for ks
  proof -
    obtain k' ks' where ks: "ks = k' # ks'" "list_all2 c sigs ks'"
      using \<open>list_all2 c (s # sigs) ks\<close> by (auto simp: list_all2_Cons1)
    with \<open>subseq ks (k # keys)\<close> have "subseq ks' keys"
      by (metis subseq_Cons' subseq_Cons2_iff)
    with ks show ?thesis by (auto simp: sigs_match_def)
  qed
  moreover have "sigs_match c (s # sigs) (k # keys)" if "subseq ks keys" "list_all2 c sigs ks" for ks
    unfolding sigs_match_def using True that by (intro exI [of _ "k # ks"]) simp
  ultimately show ?thesis using True by (auto simp: sigs_match_def)
next
  case False
  have "subseq ks keys" if "subseq ks (k # keys)" "list_all2 c (s # sigs) ks" for ks
  proof -
    obtain k' ks' where "ks = k' # ks'" "c s k'"
      using \<open>list_all2 c (s # sigs) ks\<close> by (auto simp: list_all2_Cons1)
    then show ?thesis using \<open>subseq ks (k # keys)\<close> False by (metis subseq_Cons2_neq)
  qed
  moreover have "subseq ks (k # keys)" if "subseq ks keys" for ks using that by auto
  ultimately show ?thesis using False by (auto simp: sigs_match_def)
qed

abbreviation stack_slice :: "valtype list \<Rightarrow> nat \<Rightarrow> nat \<Rightarrow> valtype list" where
  "stack_slice s i n \<equiv> take n (drop (i - 1) s)"

lemma stack_slice_Suc:
  "1 \<le> i \<Longrightarrow> i - 1 + n < length s \<Longrightarrow>
   stack_slice s i (Suc n) = s ! (i - 1) # stack_slice s (i + 1) n"
  by (subst Cons_nth_drop_Suc [symmetric]) auto

lemma multisig_loop_match:
  assumes "1 \<le> isig" "1 \<le> ikey" "isig - 1 + ns \<le> length s" "ikey - 1 + nk \<le> length s" "ns \<le> nk"
    and "multisig_loop flags checker code s isig ns ikey nk = Inr b"
  shows "b \<longleftrightarrow> sigs_match (\<lambda>sig key. checker sig key code) (stack_slice s isig ns) (stack_slice s ikey nk)"
  using assms
proof (induction "ns + nk" arbitrary: isig ns ikey nk rule: less_induct)
  case less
  let ?c = "\<lambda>sig key. checker sig key code"
  show ?case
  proof (cases ns)
    case 0
    with less.prems(6) have "b" by (subst (asm) multisig_loop.simps) simp
    with 0 show ?thesis by simp
  next
    case (Suc ns')
    then obtain nk' where nk: "nk = Suc nk'" using less.prems(5) by (cases nk) auto
    let ?sig = "s ! (isig - 1)" and ?key = "s ! (ikey - 1)"
    have sl: "stack_slice s isig ns = ?sig # stack_slice s (isig + 1) ns'"
      "stack_slice s ikey nk = ?key # stack_slice s (ikey + 1) nk'"
      using less.prems(1-4) unfolding Suc nk by (intro stack_slice_Suc; simp)+
    have e: "check_encodings ?sig ?key flags = None"
      using less.prems(6) by (subst (asm) multisig_loop.simps) (auto simp: Suc Let_def split: option.splits)
    show ?thesis
    proof (cases "?c ?sig ?key")
      case True
      then have "multisig_loop flags checker code s (isig + 1) ns' (ikey + 1) nk' = Inr b"
        using less.prems(5,6) e by (subst (asm) multisig_loop.simps) (simp add: Suc nk Let_def)
      then have "b \<longleftrightarrow> sigs_match ?c (stack_slice s (isig + 1) ns') (stack_slice s (ikey + 1) nk')"
        using less.prems Suc nk by (intro less.hyps) auto
      then show ?thesis using True unfolding sl sigs_match_Cons by simp
    next
      case False
      show ?thesis
      proof (cases "ns > nk'")
        case True
        then have "\<not> b" using less.prems(6) e False
          by (subst (asm) multisig_loop.simps) (simp add: Suc nk Let_def)
        moreover have "\<not> sigs_match ?c (stack_slice s isig ns) (stack_slice s (ikey + 1) nk')"
          using True less.prems by (intro sigs_match_too_many) simp
        ultimately show ?thesis using False sl by (simp add: sigs_match_Cons)
      next
        case le: False
        then have "multisig_loop flags checker code s isig ns (ikey + 1) nk' = Inr b"
          using less.prems(6) e False by (subst (asm) multisig_loop.simps) (simp add: Suc nk Let_def)
        then have "b \<longleftrightarrow> sigs_match ?c (stack_slice s isig ns) (stack_slice s (ikey + 1) nk')"
          using less.prems le nk by (intro less.hyps) auto
        then show ?thesis using False sl by (simp add: sigs_match_Cons)
      qed
    qed
  qed
qed

text \<open>The loop has a result when the encodings of the signatures and the keys pass.\<close>

lemma multisig_loop_returns:
  assumes "1 \<le> isig" and "1 \<le> ikey" and "ns \<le> nk"
    and "\<forall>i < ns. \<forall>j < nk. check_encodings (s ! (isig - 1 + i)) (s ! (ikey - 1 + j)) flags = None"
  shows "\<exists>b. multisig_loop flags checker code s isig ns ikey nk = Inr b"
  using assms
proof (induction "ns + nk" arbitrary: isig ns ikey nk rule: less_induct)
  case less
  show ?case
  proof (cases ns)
    case 0
    then show ?thesis by (subst multisig_loop.simps) auto
  next
    case (Suc ns')
    then obtain nk' where nk: "nk = Suc nk'" using less.prems(3) by (cases nk) auto
    note e = less.prems(4) [rule_format]
    have e0: "check_encodings (s ! (isig - 1)) (s ! (ikey - 1)) flags = None" using e [of 0 0] Suc nk by simp
    have "\<exists>b. multisig_loop flags checker code s (isig + 1) ns' (ikey + 1) nk' = Inr b"
    proof (rule less.hyps)
      show "\<forall>i < ns'. \<forall>j < nk'. check_encodings (s ! (isig + 1 - 1 + i)) (s ! (ikey + 1 - 1 + j)) flags = None"
        using e [of "Suc i" "Suc j" for i j] less.prems(1,2) Suc nk by simp
    qed (use less.prems Suc nk in simp_all)
    moreover have "\<exists>b. multisig_loop flags checker code s isig ns (ikey + 1) nk' = Inr b" if "ns \<le> nk'"
    proof (rule less.hyps)
      show "\<forall>i < ns. \<forall>j < nk'. check_encodings (s ! (isig - 1 + i)) (s ! (ikey + 1 - 1 + j)) flags = None"
        using e [of i "Suc j" for i j] less.prems(2) nk by simp
    qed (use less.prems that nk in simp_all)
    ultimately show ?thesis
      by (subst multisig_loop.simps) (auto simp: Let_def e0 [simplified] Suc nk)
  qed
qed

text \<open>The arguments of \<open>OP_CHECKMULTISIG\<close> as the comment of the source lays them out, the top
  on the left: the number of keys, the keys, the number of signatures, the signatures, and one
  more element that is dropped.\<close>

definition multisig_args :: "valtype list \<Rightarrow> valtype list \<Rightarrow> valtype \<Rightarrow> valtype list \<Rightarrow> valtype list" where
  "multisig_args keys sigs dummy s =
     serialize (int (length keys)) # keys @ serialize (int (length sigs)) # sigs @ dummy # s"

definition drop_signatures :: "byte list \<Rightarrow> valtype list \<Rightarrow> byte list" where
  "drop_signatures code sigs = foldl drop_signature code sigs"

lemma num_arg_serialize: "\<bar>n\<bar> < 2 ^ 31 \<Longrightarrow> num_arg (serialize n) m = Inr n"
  by (simp add: num_arg_def CScriptNum_serialize)

lemma getint_small: "\<bar>n\<bar> < 2 ^ 31 \<Longrightarrow> getint n = n"
  by (auto simp: getint_def)

lemma foldl_upt_nth:
  "foldl (\<lambda>c k. f c (xs ! (i + k))) c0 [0..<n] = foldl f c0 (map (\<lambda>k. xs ! (i + k)) [0..<n])"
  by (simp add: foldl_map)

lemma op_checkmultisig_args:
  assumes "length sigs \<le> length keys" and "length keys \<le> 20"
    and "st_stack st = multisig_args keys sigs dummy s"
    and "st_nOpCount st + int (length keys) \<le> 201"
    and "\<And>sig key. sig \<in> set sigs \<Longrightarrow> key \<in> set keys \<Longrightarrow> check_encodings sig key flags = None"
    and "flags AND SCRIPT_VERIFY_NULLDUMMY \<noteq> 0 \<Longrightarrow> dummy = []"
  shows "op_checkmultisig OP_CHECKMULTISIG flags checker m st =
    Inr (st\<lparr>st_stack :=
        (if sigs_match (\<lambda>sig key. checker sig key (drop_signatures (st_codehash st) sigs)) sigs keys
         then vchTrue else vchFalse) # s,
      st_nOpCount := st_nOpCount st + int (length keys)\<rparr>)"
proof -
  let ?stack = "multisig_args keys sigs dummy s"
  let ?nk = "length keys" and ?ns = "length sigs"
  let ?code = "drop_signatures (st_codehash st) sigs"
  have len: "length ?stack = ?nk + ?ns + 3 + length s" by (simp add: multisig_args_def)
  have n: "num_arg (?stack ! 0) m = Inr (int ?nk)" "num_arg (?stack ! (?nk + 1)) m = Inr (int ?ns)"
    using assms(1,2) by (simp_all add: multisig_args_def nth_append num_arg_serialize)
  have g: "getint (int ?nk) = int ?nk" "getint (int ?ns) = int ?ns"
    using assms(1,2) by (simp_all add: getint_small)
  have sl: "stack_slice ?stack 2 ?nk = keys" "stack_slice ?stack (?nk + 3) ?ns = sigs"
    by (simp_all add: multisig_args_def)
  have code: "foldl (\<lambda>code k. drop_signature code (?stack ! (?nk + 3 + k - 1))) (st_codehash st) [0..<?ns]
      = ?code"
  proof -
    have "map (\<lambda>k. ?stack ! (?nk + 2 + k)) [0..<?ns] = sigs"
      by (rule nth_equalityI) (simp_all add: multisig_args_def nth_append)
    then show ?thesis
      using foldl_upt_nth [of drop_signature ?stack "?nk + 2" "st_codehash st" ?ns]
      by (simp add: drop_signatures_def)
  qed
  have d: "drop (?nk + 2 + ?ns) ?stack = dummy # s" by (simp add: multisig_args_def)
  obtain b where b: "multisig_loop flags checker ?code ?stack (?nk + 3) ?ns 2 ?nk = Inr b"
  proof -
    have "check_encodings (?stack ! (?nk + 3 - 1 + i)) (?stack ! (2 - 1 + j)) flags = None" if "i < ?ns" "j < ?nk" for i j
      using assms(5) [of "sigs ! i" "keys ! j"] that by (simp add: multisig_args_def nth_append)
    then show thesis using that multisig_loop_returns [of "?nk + 3" 2 ?ns ?nk ?stack flags checker ?code] assms(1) by auto
  qed
  have m: "b = sigs_match (\<lambda>sig key. checker sig key ?code) sigs keys"
    using multisig_loop_match [OF _ _ _ _ assms(1) b] len sl by simp
  have i: "1 + 1 = (2::nat)" "2 + ?nk + 1 = ?nk + 3" "2 + ?nk - 1 = ?nk + 1"
    "?nk + 3 + ?ns - 1 = ?nk + 2 + ?ns" "1 - 1 = (0::nat)" "nat (int k) = k" for k
    by simp_all
  show ?thesis
    unfolding op_checkmultisig_def Let_def assms(3) i n and_then_simps g code b d
    using assms(1,2,4,6) len by (auto simp: m)
qed

section \<open>Arithmetic on encoded numbers\<close>

lemma op_binary_serialized:
  assumes "\<bar>a\<bar> < 2 ^ 31" and "\<bar>b\<bar> < 2 ^ 31"
  shows "op_binary OP_ADD m (serialize b # serialize a # s) = Inr (serialize (a + b) # s)"
    and "op_binary OP_SUB m (serialize b # serialize a # s) = Inr (serialize (a - b) # s)"
    and "op_binary OP_MIN m (serialize b # serialize a # s) = Inr (serialize (min a b) # s)"
    and "op_binary OP_MAX m (serialize b # serialize a # s) = Inr (serialize (max a b) # s)"
  using assms by (auto simp: op_binary_def num_arg_serialize binary_num_def getvch_def)

section \<open>Pushes\<close>

abbreviation start_state :: "byte list \<Rightarrow> valtype list \<Rightarrow> eval_state" where
  "start_state script stack \<equiv>
     \<lparr>st_codehash = script, st_stack = stack, st_altstack = [], st_vfExec = [], st_nOpCount = 0\<rparr>"

text \<open>Data as a wallet pushes it: short enough, and not a number that has an opcode of its own.\<close>

definition pushable :: "valtype \<Rightarrow> bool" where
  "pushable d \<longleftrightarrow> length d \<le> 520 \<and> \<not> small_push d"

definition push_all :: "valtype list \<Rightarrow> byte list" where
  "push_all ds = foldl push_data [] ds"

lemma foldl_push_data: "foldl push_data s ds = s @ foldl push_data [] ds"
proof (induction ds arbitrary: s)
  case (Cons d ds)
  show ?case
    using Cons [of "push_data s d"] Cons [of "push_data [] d"] by (simp add: push_data_append [of s])
qed simp

lemma push_all_simps [simp]:
  "push_all [] = []"
  "push_all (d # ds) = push_data [] d @ push_all ds"
  by (simp_all add: push_all_def foldl_push_data [of "push_data [] d"])

lemma disabled_not_push: "op \<le> OP_PUSHDATA4 \<Longrightarrow> \<not> disabled_opcode op \<and> \<not> OP_16 < op"
proof -
  assume "op \<le> OP_PUSHDATA4"
  then have "unat op \<le> 78" by (simp add: word_le_nat_alt)
  then show ?thesis by (auto simp: disabled_opcode_def word_less_nat_alt)
qed

lemma eval_step_push:
  assumes "pushable d" and "op \<le> OP_PUSHDATA4" and "GetOp2 (push_data [] d) = (True, op, d, [])"
    and "list_all (\<lambda>b. b) (st_vfExec st)" and "length (st_stack st) + length (st_altstack st) < 1000"
  shows "eval_step flags checker op d pc st = Inr (st\<lparr>st_stack := d # st_stack st\<rparr>)"
proof -
  have "CheckMinimalPush d op"
    using CheckMinimalPush_iff [OF assms(3,2)] assms(1) by (simp add: pushable_def)
  then show ?thesis
    using assms disabled_not_push [OF assms(2)]
    by (simp add: eval_step_def run_op_def count_op_def pushable_def MAX_SCRIPT_ELEMENT_SIZE_def Let_def)
qed

lemma eval_loop_pushes:
  assumes "list_all pushable ds" and "list_all (\<lambda>b. b) (st_vfExec st)"
    and "length ds + length (st_stack st) + length (st_altstack st) \<le> 1000"
  shows "eval_loop flags checker (push_all ds @ rest) st =
    eval_loop flags checker rest (st\<lparr>st_stack := rev ds @ st_stack st\<rparr>)"
  using assms
proof (induction ds arbitrary: st)
  case (Cons d ds)
  have "length d < 2 ^ 32" using Cons.prems(1) by (simp add: pushable_def)
  from GetOp2_push_data [OF this] obtain op where op: "op \<le> OP_PUSHDATA4"
    "\<And>r. GetOp2 (push_data [] d @ r) = (True, op, d, r)" by blast
  have "eval_step flags checker op d (push_all ds @ rest) st = Inr (st\<lparr>st_stack := d # st_stack st\<rparr>)"
    using Cons.prems op(1) op(2) [of "[]"] by (intro eval_step_push) auto
  then have "eval_loop flags checker (push_all (d # ds) @ rest) st =
      eval_loop flags checker (push_all ds @ rest) (st\<lparr>st_stack := d # st_stack st\<rparr>)"
    using eval_loop_step [OF op(2)] by simp
  also have "\<dots> = eval_loop flags checker rest
      ((st\<lparr>st_stack := d # st_stack st\<rparr>)\<lparr>st_stack := rev ds @ (d # st_stack st)\<rparr>)"
    using Cons.IH [of "st\<lparr>st_stack := d # st_stack st\<rparr>"] Cons.prems by simp
  finally show ?case by simp
qed simp

lemma EvalScript_pushes:
  assumes "list_all pushable ds" and "length (push_all ds) \<le> 10000" and "length ds + length stack \<le> 1000"
  shows "EvalScript stack (push_all ds) flags checker = Inr (rev ds @ stack)"
  using eval_loop_pushes [of ds "start_state (push_all ds) stack" flags checker "[]"] assms
  by (simp add: EvalScript_def MAX_SCRIPT_SIZE_def)

lemma IsPushOnly_push_all:
  assumes "list_all pushable ds" shows "IsPushOnly (push_all ds)"
  using assms
proof (induction ds)
  case (Cons d ds)
  have "length d < 2 ^ 32" using Cons.prems by (simp add: pushable_def)
  from GetOp2_push_data [OF this] obtain op where op: "op \<le> OP_PUSHDATA4"
    "\<And>r. GetOp2 (push_data [] d @ r) = (True, op, d, r)" by blast
  then show ?case
    using Cons disabled_not_push [OF op(1)] push_data_not_Nil by (subst IsPushOnly.simps) simp
qed (simp add: IsPushOnly.simps)

section \<open>Pay to public key hash\<close>

definition p2pkh_script :: "byte list \<Rightarrow> byte list" where
  "p2pkh_script h = [OP_DUP, OP_HASH160, 0x14] @ h @ [OP_EQUALVERIFY, OP_CHECKSIG]"

lemma push_data_20: "length h = 20 \<Longrightarrow> push_data [] h = 0x14 # h"
  by (simp add: push_data_def)

lemma drop_signature_p2pkh:
  assumes "length h = 20" and "sig \<noteq> h" and "length sig \<le> 520"
  shows "drop_signature (p2pkh_script h) sig = p2pkh_script h"
proof -
  let ?b = "push_data [] sig"
  have "length sig < 2 ^ 32" using assms(3) by simp
  from GetOp2_push_data [OF this] obtain op where
    b: "\<And>r. GetOp2 (?b @ r) = (True, op, sig, r)" by blast
  have "script_chunks (p2pkh_script h) = ([[OP_DUP], [OP_HASH160], 0x14 # h, [OP_EQUALVERIFY], [OP_CHECKSIG]], [])"
  proof -
    have r: "range_between (x # xs) xs = [x]" for x :: byte and xs
      using range_between_append [of "[x]" xs] by simp
    have h: "range_between (0x14 # h @ rest) rest = 0x14 # h" for rest
      using range_between_append [of "0x14 # h" rest] by simp
    have "GetOp2 (0x14 # h @ rest) = (True, 0x14, h, rest)" for rest
      using assms(1) by (intro GetOp2_direct_push) simp_all
    then show ?thesis
      by (simp add: p2pkh_script_def script_chunks_step(1) GetOp2_opcode r h)
        (simp add: script_chunks_step(2) [OF GetOp2_Nil])
  qed
  moreover have "?b \<noteq> 0x14 # h"
  proof
    assume "?b = 0x14 # h"
    then have "GetOp2 (?b @ []) = (True, 0x14, h, [])"
      using GetOp2_direct_push [of "0x14" h "[]"] assms(1) by simp
    then show False using b [of "[]"] assms(2) by simp
  qed
  moreover have "[x] \<noteq> ?b" if "x \<noteq> 0" for x
    using that by (auto simp: push_data_def Let_def split: if_splits)
  ultimately show ?thesis
    unfolding drop_signature_def FindAndDelete_eq [OF push_data_not_Nil]
      delete_ops_single [OF b push_data_not_Nil]
    by (simp add: p2pkh_script_def)
qed

lemma EvalScript_p2pkh:
  assumes "length h = 20" and "length pubkey \<le> 520" and "length s + 4 \<le> 1000"
  shows "EvalScript (pubkey # sig # s) (p2pkh_script h) flags checker =
    (if hash160 pubkey \<noteq> h then Inl (Fail SCRIPT_ERR_EQUALVERIFY)
     else case check_encodings sig pubkey flags of
       Some e \<Rightarrow> Inl (Fail e)
     | None \<Rightarrow> Inr ((if checker sig pubkey (drop_signature (p2pkh_script h) sig)
                     then vchTrue else vchFalse) # s))"
proof -
  let ?S = "p2pkh_script h"
  have op: "eval_loop flags checker (op # rest) st =
      (case eval_step flags checker op [] rest st of Inl e \<Rightarrow> Inl e | Inr st' \<Rightarrow> eval_loop flags checker rest st')"
    if "op > OP_PUSHDATA4" for op rest st
    by (rule eval_loop_step [OF GetOp2_opcode [OF that]])
  have "pushable h" using assms(1) by (simp add: pushable_def small_push_def)
  then have h: "eval_loop flags checker (0x14 # h @ rest) st =
      eval_loop flags checker rest (st\<lparr>st_stack := h # st_stack st\<rparr>)"
    if "st_vfExec st = []" "length (st_stack st) + length (st_altstack st) < 1000" for rest st
    using eval_loop_pushes [of "[h]" st flags checker rest] that assms(1) by (simp add: push_data_20)
  note step = eval_step_def run_op_def exec_opcode_def count_op_def on_stack_def disabled_opcode_def
    MAX_SCRIPT_ELEMENT_SIZE_def Let_def
  have "eval_loop flags checker ?S (start_state ?S (pubkey # sig # s)) =
    (if hash160 pubkey \<noteq> h then Inl (Fail SCRIPT_ERR_EQUALVERIFY)
     else case check_encodings sig pubkey flags of
       Some e \<Rightarrow> Inl (Fail e)
     | None \<Rightarrow> Inr \<lparr>st_codehash = ?S,
         st_stack = (if checker sig pubkey (drop_signature ?S sig) then vchTrue else vchFalse) # s,
         st_altstack = [], st_vfExec = [], st_nOpCount = 4\<rparr>)"
    using assms
    by (subst (1) p2pkh_script_def)
      (simp add: op h step op_stack_def op_hash_digest op_equal_def op_checksig_def split: option.split)
  then show ?thesis
    using assms(1) by (auto simp: EvalScript_def MAX_SCRIPT_SIZE_def p2pkh_script_def catch_all_def split: option.split)
qed

lemma VerifyScript_p2pkh:
  assumes "length h = 20" and "pushable sig" and "pushable pubkey" and "sig \<noteq> h"
  shows "VerifyScript (push_all [sig, pubkey]) (p2pkh_script h) flags checker = Inr () \<longleftrightarrow>
    hash160 pubkey = h \<and> check_encodings sig pubkey flags = None \<and>
    checker sig pubkey (p2pkh_script h)"
proof -
  have l: "length sig \<le> 520" "length pubkey \<le> 520" using assms by (simp_all add: pushable_def)
  have p: "length (push_data [] d) \<le> length d + 5" for d by (simp add: push_data_def Let_def)
  have "length (push_all [sig, pubkey]) \<le> 10000" using l p [of sig] p [of pubkey] by simp
  then have e: "EvalScript [] (push_all [sig, pubkey]) flags checker = Inr [pubkey, sig]"
    using EvalScript_pushes [of "[sig, pubkey]" "[]" flags checker] assms by simp
  have "\<not> IsPayToScriptHash (p2pkh_script h)" by (simp add: IsPayToScriptHash_def p2pkh_script_def)
  moreover have "IsPushOnly (push_all [sig, pubkey])" using assms by (intro IsPushOnly_push_all) simp
  ultimately show ?thesis
    unfolding VerifyScript_def
    using e EvalScript_p2pkh [OF assms(1) l(2), of "[]" sig flags checker]
      drop_signature_p2pkh [OF assms(1,4) l(1)]
    by (auto split: option.split)
qed

section \<open>Pay to script hash\<close>

definition p2sh_script :: "byte list \<Rightarrow> byte list" where
  "p2sh_script h = [OP_HASH160, 0x14] @ h @ [OP_EQUAL]"

lemma EvalScript_p2sh:
  assumes "length h = 20"
  shows "EvalScript (ser # s) (p2sh_script h) flags checker = Inr r \<longleftrightarrow>
    length s + 2 \<le> 1000 \<and> r = (if hash160 ser = h then vchTrue else vchFalse) # s"
proof -
  let ?S = "p2sh_script h"
  have op: "eval_loop flags checker (op # rest) st =
      (case eval_step flags checker op [] rest st of Inl e \<Rightarrow> Inl e | Inr st' \<Rightarrow> eval_loop flags checker rest st')"
    if "op > OP_PUSHDATA4" for op rest st
    by (rule eval_loop_step [OF GetOp2_opcode [OF that]])
  have h: "eval_loop flags checker (0x14 # h @ rest) st =
      (case eval_step flags checker 0x14 h rest st of Inl e \<Rightarrow> Inl e | Inr st' \<Rightarrow> eval_loop flags checker rest st')"
    for rest st
    using assms by (intro eval_loop_step GetOp2_direct_push) simp_all
  have m: "CheckMinimalPush h 0x14" using assms by (simp add: CheckMinimalPush_def)
  note step = eval_step_def run_op_def exec_opcode_def count_op_def on_stack_def disabled_opcode_def
    MAX_SCRIPT_ELEMENT_SIZE_def Let_def
  have "eval_loop flags checker ?S (start_state ?S (ser # s)) =
     (if length s + 2 \<le> 1000 then Inr \<lparr>st_codehash = ?S,
         st_stack = (if hash160 ser = h then vchTrue else vchFalse) # s,
         st_altstack = [], st_vfExec = [], st_nOpCount = 2\<rparr>
      else Inl (Fail SCRIPT_ERR_STACK_SIZE))"
    using assms m by (subst (1) p2sh_script_def) (simp add: op h step op_hash_digest op_equal_def)
  then show ?thesis
    using assms by (auto simp: EvalScript_def MAX_SCRIPT_SIZE_def p2sh_script_def)
qed

lemma EvalScript_p2sh_Nil: "EvalScript [] (p2sh_script h) flags checker \<noteq> Inr r"
proof -
  have op: "eval_loop flags checker (op # rest) st =
      (case eval_step flags checker op [] rest st of Inl e \<Rightarrow> Inl e | Inr st' \<Rightarrow> eval_loop flags checker rest st')"
    if "op > OP_PUSHDATA4" for op rest st
    by (rule eval_loop_step [OF GetOp2_opcode [OF that]])
  show ?thesis
    by (simp add: EvalScript_def p2sh_script_def op eval_step_def run_op_def exec_opcode_def count_op_def
        on_stack_def disabled_opcode_def MAX_SCRIPT_ELEMENT_SIZE_def Let_def op_hash_def)
qed

lemma VerifyScript_p2sh:
  assumes "length h = 20" and "flags AND SCRIPT_VERIFY_P2SH \<noteq> 0"
  shows "VerifyScript scriptSig (p2sh_script h) flags checker = Inr () \<longleftrightarrow>
    IsPushOnly scriptSig \<and>
    (\<exists>ser s top rest. EvalScript [] scriptSig flags checker = Inr (ser # s) \<and> length s + 2 \<le> 1000 \<and>
       hash160 ser = h \<and> EvalScript s ser flags checker = Inr (top # rest) \<and> CastToBool top)"
proof -
  have p: "IsPayToScriptHash (p2sh_script h)"
    unfolding IsPayToScriptHash_iff p2sh_script_def using assms(1) by blast
  show ?thesis
  proof (cases "EvalScript [] scriptSig flags checker")
    case (Inl e)
    then show ?thesis by (auto simp: VerifyScript_def)
  next
    case (Inr st)
    show ?thesis
    proof (cases st)
      case Nil
      then show ?thesis
        using Inr EvalScript_p2sh_Nil [of h flags checker]
        by (auto simp: VerifyScript_def and_then_Inr_iff)
    next
      case (Cons ser s)
      show ?thesis
      proof (cases "length s + 2 \<le> 1000 \<and> hash160 ser = h")
        case True
        then have "EvalScript (ser # s) (p2sh_script h) flags checker = Inr (vchTrue # s)"
          using EvalScript_p2sh [OF assms(1)] by simp
        then show ?thesis
          using Inr Cons True p assms(2)
          by (cases "EvalScript s ser flags checker")
            (auto simp: VerifyScript_def neq_Nil_conv)
      next
        case False
        then show ?thesis
          using Inr Cons EvalScript_p2sh [OF assms(1), of ser s flags checker]
          by (auto simp: VerifyScript_def and_then_Inr_iff)
      qed
    qed
  qed
qed

lemma VerifyScript_no_assert: "VerifyScript scriptSig scriptPubKey flags checker \<noteq> Inl AssertFailed"
proof
  assume a: "VerifyScript scriptSig scriptPubKey flags checker = Inl AssertFailed"
  note ok = EvalScript_ok [of _ _ flags checker]
  have first: "EvalScript [] scriptSig flags checker \<noteq> Inl AssertFailed"
    "EvalScript [] scriptSig flags checker = Inr st \<Longrightarrow> elems_ok st \<and> length st \<le> 1000" for st
    using EvalScript_ok [of "[]" scriptSig flags checker] by auto
  then obtain st where st: "EvalScript [] scriptSig flags checker = Inr st" "elems_ok st" "length st \<le> 1000"
    using a by (auto simp: VerifyScript_def and_then_Inl_iff split: if_splits)
  have second: "EvalScript st scriptPubKey flags checker \<noteq> Inl AssertFailed"
    using EvalScript_ok st(2,3) by blast
  obtain st2 where st2: "EvalScript st scriptPubKey flags checker = Inr st2"
    "IsPayToScriptHash scriptPubKey"
    using a st(1) second by (auto simp: VerifyScript_def and_then_Inl_iff split: if_splits)
  obtain h where h: "length h = 20" "scriptPubKey = p2sh_script h"
    using st2(2) unfolding IsPayToScriptHash_iff p2sh_script_def by blast
  then obtain ser s where s: "st = ser # s" using st2(1) EvalScript_p2sh_Nil by (cases st) auto
  then have "EvalScript s ser flags checker \<noteq> Inl AssertFailed"
    using EvalScript_ok [of s ser flags checker] st by auto
  then show False
    using a st(1) st2(1) s by (auto simp: VerifyScript_def and_then_Inl_iff split: if_splits)
qed

section \<open>Consequences\<close>

text \<open>
  The arithmetic opcodes on encoded operands of at most 31 bits push the encoding of the exact
  sum, difference, minimum and maximum; no result overflows.
\<close>

lemma script_arithmetic:
  assumes "\<bar>a\<bar> < 2 ^ 31" and "\<bar>b\<bar> < 2 ^ 31"
  shows "op_binary OP_ADD m (serialize b # serialize a # s) = Inr (serialize (a + b) # s) \<and>
    op_binary OP_SUB m (serialize b # serialize a # s) = Inr (serialize (a - b) # s) \<and>
    op_binary OP_MIN m (serialize b # serialize a # s) = Inr (serialize (min a b) # s) \<and>
    op_binary OP_MAX m (serialize b # serialize a # s) = Inr (serialize (max a b) # s)"
  using op_binary_serialized [OF assms] by simp

section \<open>Properties\<close>

text \<open>
  C1. A pay-to-pubkey-hash output is spent by a signature and a key exactly when the key hashes to
  the hash in the output, the encodings pass the checks the flags ask for, and the checker accepts
  the signature for the unchanged output script.
\<close>

theorem p2pkh_spend:
  assumes "length h = 20" and "pushable sig" and "pushable pubkey" and "sig \<noteq> h"
  shows "VerifyScript (push_all [sig, pubkey]) (p2pkh_script h) flags checker = Inr () \<longleftrightarrow>
    hash160 pubkey = h \<and> check_encodings sig pubkey flags = None \<and>
    checker sig pubkey (p2pkh_script h)"
  using assms by (rule VerifyScript_p2pkh)

theorem p2pkh_spend_witness:
  "VerifyScript (push_all [replicate 71 0x30, replicate 33 2]) (p2pkh_script (hash160 (replicate 33 2)))
     SCRIPT_VERIFY_P2SH (\<lambda>sig pubkey code. True) = Inr ()"
proof -
  have "replicate 71 0x30 \<noteq> hash160 (replicate 33 2)" by (auto dest: arg_cong [where f = length])
  moreover have "pushable (replicate 71 0x30)" "pushable (replicate 33 2)"
    by (simp_all add: pushable_def small_push_def)
  ultimately show ?thesis
    using p2pkh_spend [of "hash160 (replicate 33 2)" "replicate 71 0x30" "replicate 33 2"
        SCRIPT_VERIFY_P2SH "\<lambda>sig pubkey code. True"]
    by (simp add: check_encodings_None CheckSignatureEncoding_None CheckPubKeyEncoding_None)
qed

text \<open>
  C2. Under SCRIPT_VERIFY_P2SH a pay-to-script-hash output is spent exactly when scriptSig only
  pushes data, its last push hashes to the hash in the output, and that push, run as a script on
  the other pushes, leaves true.
\<close>

theorem p2sh_spend:
  assumes "length h = 20" and "flags AND SCRIPT_VERIFY_P2SH \<noteq> 0"
  shows "VerifyScript scriptSig (p2sh_script h) flags checker = Inr () \<longleftrightarrow>
    IsPushOnly scriptSig \<and>
    (\<exists>ser s top rest. EvalScript [] scriptSig flags checker = Inr (ser # s) \<and> length s + 2 \<le> 1000 \<and>
       hash160 ser = h \<and> EvalScript s ser flags checker = Inr (top # rest) \<and> CastToBool top)"
  using assms by (rule VerifyScript_p2sh)

theorem p2sh_spend_witness:
  "\<exists>h. length h = 20 \<and> (VerifyScript [] (p2sh_script h) SCRIPT_VERIFY_P2SH (\<lambda>sig pubkey code. True) = Inr ()
     \<longleftrightarrow> IsPushOnly [] \<and>
    (\<exists>ser s top rest. EvalScript [] [] SCRIPT_VERIFY_P2SH (\<lambda>sig pubkey code. True) = Inr (ser # s) \<and>
       length s + 2 \<le> 1000 \<and> hash160 ser = h \<and>
       EvalScript s ser SCRIPT_VERIFY_P2SH (\<lambda>sig pubkey code. True) = Inr (top # rest) \<and> CastToBool top))"
  using p2sh_spend [of "replicate 20 0" SCRIPT_VERIFY_P2SH "[]" "\<lambda>sig pubkey code. True"]
  by (intro exI [of _ "replicate 20 0"]) simp

text \<open>
  C3. For at most 20 keys and no more signatures than keys, when the encoding checks the flags ask
  for pass for each signature and each key, and the extra element is empty if
  SCRIPT_VERIFY_NULLDUMMY is set, OP_CHECKMULTISIG pushes true exactly when the signatures can be
  matched, in order, with a subsequence of the keys (the greedy loop misses no matching), consumes
  all arguments and the extra element, and counts the keys as operations.
\<close>

theorem checkmultisig_accepts:
  assumes "length sigs \<le> length keys" and "length keys \<le> 20"
    and "st_stack st = multisig_args keys sigs dummy s"
    and "st_nOpCount st + int (length keys) \<le> 201"
    and "\<And>sig key. sig \<in> set sigs \<Longrightarrow> key \<in> set keys \<Longrightarrow> check_encodings sig key flags = None"
    and "flags AND SCRIPT_VERIFY_NULLDUMMY \<noteq> 0 \<Longrightarrow> dummy = []"
  shows "op_checkmultisig OP_CHECKMULTISIG flags checker m st =
    Inr (st\<lparr>st_stack :=
        (if \<exists>ks. subseq ks keys \<and>
              list_all2 (\<lambda>sig key. checker sig key (drop_signatures (st_codehash st) sigs)) sigs ks
         then vchTrue else vchFalse) # s,
      st_nOpCount := st_nOpCount st + int (length keys)\<rparr>)"
  unfolding sigs_match_def [symmetric] using assms by (rule op_checkmultisig_args)

theorem checkmultisig_accepts_witness:
  "let sig = (\<lambda>r. [0x30, 6, 2, 1, r, 2, 1, 1, 1]); key = (\<lambda>k. 2 # k # replicate 31 0);
       flags = SCRIPT_VERIFY_DERSIG OR SCRIPT_VERIFY_STRICTENC OR SCRIPT_VERIFY_NULLDUMMY
   in op_checkmultisig OP_CHECKMULTISIG flags (\<lambda>sig key code. sig ! 4 = key ! 1) False
        (start_state [] (multisig_args [key 1, key 2, key 3] [sig 1, sig 3] [] [])) =
      Inr \<lparr>st_codehash = [], st_stack = [vchTrue], st_altstack = [], st_vfExec = [], st_nOpCount = 3\<rparr>" 
proof -
  define sig where "sig = (\<lambda>r :: byte. [0x30, 6, 2, 1, r, 2, 1, 1, 1 :: byte])"
  define key where "key = (\<lambda>k :: byte. 2 # k # replicate 31 (0 :: byte))"
  let ?f = "SCRIPT_VERIFY_DERSIG OR SCRIPT_VERIFY_STRICTENC OR SCRIPT_VERIFY_NULLDUMMY"
  have "list_all (\<lambda>r. list_all (\<lambda>k. check_encodings [0x30, 6, 2, 1, r, 2, 1, 1, 1] (2 # k # replicate 31 0) ?f = None)
      [1, 2, 3]) [1, 3]" by code_simp
  then have e: "check_encodings s k ?f = None" if "s \<in> set [sig 1, sig 3]" "k \<in> set [key 1, key 2, key 3]" for s k
    using that by (auto simp: sig_def key_def)
  have "subseq [key 1, key 3] [key 1, key 2, key 3]" by simp
  moreover have "list_all2 (\<lambda>sig key. sig ! 4 = key ! 1) [sig 1, sig 3] [key 1, key 3]" by (simp add: sig_def key_def)
  ultimately have "\<exists>ks. subseq ks [key 1, key 2, key 3] \<and> list_all2 (\<lambda>sig key. sig ! 4 = key ! 1) [sig 1, sig 3] ks"
    by blast
  then show ?thesis
    using checkmultisig_accepts [of "[sig 1, sig 3]" "[key 1, key 2, key 3]"
        "start_state [] (multisig_args [key 1, key 2, key 3] [sig 1, sig 3] [] [])" "[]" "[]" ?f
        "\<lambda>sig key code. sig ! 4 = key ! 1" False] e
    unfolding sig_def key_def by (simp add: Let_def)
qed

text \<open>
  C4. VerifyScript never fails an assertion, whatever the scripts, flags and checker: not in the
  number operators, not in the nested switch statements, and not assert(!stackCopy.empty()).
\<close>

theorem verify_no_assert:
  "VerifyScript scriptSig scriptPubKey flags checker \<noteq> Inl AssertFailed"
  by (rule VerifyScript_no_assert)

end
