(* ===== verification/SigHash.thy ===== *)
theory SigHash
  imports Transaction ScriptTemplates PubKey
begin

text \<open>
  The signature hash (\<open>CTransactionSignatureSerializer\<close>, \<open>SignatureHash\<close> and
  \<open>TransactionSignatureChecker\<close> of \<open>src/script/interpreter.cpp\<close>). The code serializes the parts of
  the transaction the hash type asks for on the fly; the specification builds the modified
  transaction and serializes it, and the refinement lemma says that the bytes are the same.
\<close>

section \<open>The serializer\<close>

definition fAnyoneCanPay :: "u32 \<Rightarrow> bool" where
  "fAnyoneCanPay nHashType \<longleftrightarrow> nHashType AND SIGHASH_ANYONECANPAY \<noteq> 0"

definition fHashSingle :: "u32 \<Rightarrow> bool" where
  "fHashSingle nHashType \<longleftrightarrow> nHashType AND 0x1f = SIGHASH_SINGLE"

definition fHashNone :: "u32 \<Rightarrow> bool" where
  "fHashNone nHashType \<longleftrightarrow> nHashType AND 0x1f = SIGHASH_NONE"

function count_separators :: "byte list \<Rightarrow> nat \<Rightarrow> nat" where
  "count_separators it nCodeSeparators =
     (case GetOp2 it of
        (r, opcode, vch, it') \<Rightarrow>
          if r then
            count_separators it'
              (if opcode = OP_CODESEPARATOR then nCodeSeparators + 1 else nCodeSeparators)
          else nCodeSeparators)"
  by pat_completeness auto
termination
  by (relation "measure (\<lambda>(it, n). length it)") (auto dest!: GetOp2_True_shorter [OF sym])

text \<open>What is written: \<open>itBegin\<close> is where the operations not written yet begin. When \<open>GetOp\<close>
  fails it has moved \<open>it\<close> behind the opcode and the size it read, and only the bytes before \<open>it\<close>
  are written.\<close>

function write_code :: "byte list \<Rightarrow> byte list \<Rightarrow> byte list" where
  "write_code itBegin it =
     (case GetOp2 it of
        (r, opcode, vch, it') \<Rightarrow>
          if r then
            (if opcode = OP_CODESEPARATOR
             then take (length itBegin - length it' - 1) itBegin @ write_code it' it'
             else write_code itBegin it')
          else (if itBegin \<noteq> [] then take (length itBegin - length it') itBegin else []))"
  by pat_completeness auto
termination
  by (relation "measure (\<lambda>(b, it). length it)") (auto dest!: GetOp2_True_shorter [OF sym])

declare count_separators.simps [simp del] write_code.simps [simp del]

definition SerializeScriptCode :: "byte list \<Rightarrow> byte list" where
  "SerializeScriptCode scriptCode =
     WriteCompactSize (length scriptCode - count_separators scriptCode 0) @
     write_code scriptCode scriptCode"

definition SerializeInput :: "CTransaction \<Rightarrow> byte list \<Rightarrow> nat \<Rightarrow> u32 \<Rightarrow> nat \<Rightarrow> byte list" where
  "SerializeInput txTo scriptCode nIn nHashType nInput =
     (let nInput = if fAnyoneCanPay nHashType then nIn else nInput
      in ser_COutPoint (prevout (vin txTo ! nInput)) @
         (if nInput \<noteq> nIn then ser_bytes [] else SerializeScriptCode scriptCode) @
         (if nInput \<noteq> nIn \<and> (fHashSingle nHashType \<or> fHashNone nHashType)
          then ser_u32 0 else ser_u32 (nSequence (vin txTo ! nInput))))"

definition SerializeOutput :: "CTransaction \<Rightarrow> nat \<Rightarrow> u32 \<Rightarrow> nat \<Rightarrow> byte list" where
  "SerializeOutput txTo nIn nHashType nOutput =
     (if fHashSingle nHashType \<and> nOutput \<noteq> nIn then ser_CTxOut CTxOut_Null
      else ser_CTxOut (vout txTo ! nOutput))"

definition SerializeTx :: "CTransaction \<Rightarrow> byte list \<Rightarrow> nat \<Rightarrow> u32 \<Rightarrow> byte list" where
  "SerializeTx txTo scriptCode nIn nHashType =
     (let nInputs = if fAnyoneCanPay nHashType then 1 else length (vin txTo);
          nOutputs = if fHashNone nHashType then 0
            else if fHashSingle nHashType then nIn + 1 else length (vout txTo)
      in ser_u32 (nVersion txTo) @
         WriteCompactSize nInputs @
         concat (map (SerializeInput txTo scriptCode nIn nHashType) [0..<nInputs]) @
         WriteCompactSize nOutputs @
         concat (map (SerializeOutput txTo nIn nHashType) [0..<nOutputs]) @
         ser_u32 (nLockTime txTo))"

definition SignatureHash :: "byte list \<Rightarrow> CTransaction \<Rightarrow> nat \<Rightarrow> u32 \<Rightarrow> uint256" where
  "SignatureHash scriptCode txTo nIn nHashType =
     (if nIn \<ge> length (vin txTo) then 1
      else if nHashType AND 0x1f = SIGHASH_SINGLE \<and> nIn \<ge> length (vout txTo) then 1
      else CHashWriter_GetHash
        (CHashWriter_write
          (CHashWriter_write CHash256 (SerializeTx txTo scriptCode nIn nHashType))
          (ser_u32 nHashType)))"

section \<open>The checker\<close>

text \<open>The buffer of the local \<open>CPubKey\<close> is uninitialised memory; here it is zero, and by
  \<open>CPubKey_Verify_Set\<close> any other contents give the same.\<close>

definition TransactionSignatureChecker :: "ecdsa_verify \<Rightarrow> CTransaction \<Rightarrow> nat \<Rightarrow> sig_checker" where
  "TransactionSignatureChecker ecdsa txTo nIn vchSigIn vchPubKey scriptCode =
     (let pubkey = CPubKey_Set (replicate 65 0) vchPubKey
      in if \<not> CPubKey_IsValid pubkey then False
         else if vchSigIn = [] then False
         else
           (let nHashType = ucast (last vchSigIn); vchSig = butlast vchSigIn;
                sighash = SignatureHash scriptCode txTo nIn nHashType
            in if \<not> CPubKey_Verify ecdsa pubkey sighash vchSig then False else True))"

section \<open>The script code without separators\<close>

function strip_separators :: "byte list \<Rightarrow> byte list" where
  "strip_separators pc =
     (case GetOp2 pc of
        (r, op, vch, pc') \<Rightarrow>
          if r then (if op = OP_CODESEPARATOR then [] else range_between pc pc') @ strip_separators pc'
          else [])"
  by pat_completeness auto
termination
  by (relation "measure length") (auto dest!: GetOp2_True_shorter [OF sym])

declare strip_separators.simps [simp del]

lemma GetOp2_one_byte:
  assumes "GetOp2 pc = (True, op, vch, pc')" and "op > OP_PUSHDATA4"
  shows "pc = op # pc'"
  using assms by (auto simp: GetOp2_def split: list.splits if_splits option.splits)

lemma write_code_strip:
  "snd (parse_script it) \<Longrightarrow> write_code (x @ it) it = x @ strip_separators it"
proof (induction it arbitrary: x rule: script_induct)
  case Nil
  then show ?case by (simp add: write_code.simps [of x] strip_separators.simps [of "[]"])
next
  case (Fail pc op vch pc')
  then show ?case by (simp add: parse_script_fail)
next
  case (Op pc op vch pc')
  have p: "snd (parse_script pc')" using Op by (simp add: parse_script_step)
  note g = Op(2)
  show ?case
  proof (cases "op = OP_CODESEPARATOR")
    case True
    then have "pc = op # pc'" using GetOp2_one_byte [OF g] by simp
    then show ?thesis using True g Op.IH [OF p, of "[]"]
      by (subst write_code.simps, subst strip_separators.simps) simp
  next
    case False
    have "x @ pc = (x @ range_between pc pc') @ pc'" using GetOp2_split [OF g] by simp
    then show ?thesis using False g Op.IH [OF p, of "x @ range_between pc pc'"]
      by (subst write_code.simps, subst strip_separators.simps) simp
  qed
qed

lemma count_separators_strip:
  "snd (parse_script it) \<Longrightarrow> count_separators it n + length (strip_separators it) = n + length it"
proof (induction it arbitrary: n rule: script_induct)
  case Nil
  then show ?case by (simp add: count_separators.simps strip_separators.simps)
next
  case (Fail pc op vch pc')
  then show ?case by (simp add: parse_script_fail)
next
  case (Op pc op vch pc')
  have p: "snd (parse_script pc')" using Op by (simp add: parse_script_step)
  note g = Op(2)
  show ?case
  proof (cases "op = OP_CODESEPARATOR")
    case True
    then have "pc = op # pc'" using GetOp2_one_byte [OF g] by simp
    then show ?thesis using True g Op.IH [OF p, of "n + 1"]
      by (subst count_separators.simps, subst strip_separators.simps) simp
  next
    case False
    have "length pc = length (range_between pc pc') + length pc'"
      using GetOp2_split [OF g] by (metis length_append)
    then show ?thesis using False g Op.IH [OF p, of n]
      by (subst count_separators.simps, subst strip_separators.simps) simp
  qed
qed

lemma SerializeScriptCode_strip:
  assumes "snd (parse_script code)"
  shows "SerializeScriptCode code = ser_bytes (strip_separators code)"
proof -
  have "length code - count_separators code 0 = length (strip_separators code)"
    using count_separators_strip [OF assms, of 0] by simp
  then show ?thesis
    using write_code_strip [OF assms, of "[]"] by (simp add: SerializeScriptCode_def ser_bytes_def)
qed

lemma strip_separators_id:
  "snd (parse_script code) \<Longrightarrow> list_all (\<lambda>(op, v). op \<noteq> OP_CODESEPARATOR) (fst (parse_script code)) \<Longrightarrow>
   strip_separators code = code"
proof (induction code rule: script_induct)
  case (Op pc op vch pc')
  then show ?case
    using GetOp2_split [OF Op(2)] by (subst strip_separators.simps) (simp add: parse_script_step)
qed (simp_all add: strip_separators.simps parse_script_fail)

section \<open>The transaction that is signed\<close>

definition signed_input :: "byte list \<Rightarrow> u32 \<Rightarrow> nat \<Rightarrow> nat \<Rightarrow> CTxIn \<Rightarrow> CTxIn" where
  "signed_input code h nIn i txin =
     (if i = nIn then txin\<lparr>scriptSig := code\<rparr>
      else txin\<lparr>scriptSig := [], nSequence := (if fHashSingle h \<or> fHashNone h then 0 else nSequence txin)\<rparr>)"

definition signed_tx :: "byte list \<Rightarrow> CTransaction \<Rightarrow> nat \<Rightarrow> u32 \<Rightarrow> CMutableTransaction" where
  "signed_tx code tx nIn h =
     \<lparr>nVersion = nVersion tx,
      vin = (if fAnyoneCanPay h then [(vin tx ! nIn)\<lparr>scriptSig := code\<rparr>]
             else map (\<lambda>i. signed_input code h nIn i (vin tx ! i)) [0..<length (vin tx)]),
      vout = (if fHashNone h then []
              else if fHashSingle h then replicate nIn CTxOut_Null @ [vout tx ! nIn]
              else vout tx),
      nLockTime = nLockTime tx\<rparr>"

lemma SerializeInput_signed:
  assumes "SerializeScriptCode code = ser_bytes code'"
  shows "SerializeInput tx code nIn h i =
    ser_CTxIn (if fAnyoneCanPay h then (vin tx ! nIn)\<lparr>scriptSig := code'\<rparr>
               else signed_input code' h nIn i (vin tx ! i))"
  by (simp add: SerializeInput_def signed_input_def ser_CTxIn_def assms Let_def)

lemma map_SerializeOutput_single:
  "fHashSingle h \<Longrightarrow> map (SerializeOutput tx nIn h) [0..<nIn] = replicate nIn (ser_CTxOut CTxOut_Null)"
  by (rule nth_equalityI) (simp_all add: SerializeOutput_def)

lemma map_SerializeOutput_all:
  "\<not> fHashSingle h \<Longrightarrow> map (SerializeOutput tx nIn h) [0..<length (vout tx)] = map ser_CTxOut (vout tx)"
  by (rule nth_equalityI) (simp_all add: SerializeOutput_def)

lemma SerializeTx_signed:
  assumes "snd (parse_script code)"
  shows "SerializeTx tx code nIn h = ser_tx (signed_tx (strip_separators code) tx nIn h)"
proof -
  have i: "SerializeInput tx code nIn h = (\<lambda>i. ser_CTxIn
      (if fAnyoneCanPay h then (vin tx ! nIn)\<lparr>scriptSig := strip_separators code\<rparr>
       else signed_input (strip_separators code) h nIn i (vin tx ! i)))"
    by (rule ext) (rule SerializeInput_signed [OF SerializeScriptCode_strip [OF assms]])
  have o1: "SerializeOutput tx nIn h nIn = ser_CTxOut (vout tx ! nIn)" by (simp add: SerializeOutput_def)
  show ?thesis
    by (simp add: SerializeTx_def ser_tx_def signed_tx_def ser_vector_def i o1 comp_def
        map_SerializeOutput_single map_SerializeOutput_all Let_def)
qed

lemma SignatureHash_signed:
  assumes "snd (parse_script code)" and "nIn < length (vin tx)"
    and "fHashSingle h \<Longrightarrow> nIn < length (vout tx)"
  shows "SignatureHash code tx nIn h =
    Hash (ser_tx (signed_tx (strip_separators code) tx nIn h) @ ser_u32 h)"
proof -
  have "\<not> (h AND 0x1f = SIGHASH_SINGLE \<and> length (vout tx) \<le> nIn)"
    using assms(3) by (auto simp: fHashSingle_def)
  then show ?thesis
    using assms(2) CHashWriter_eq [of "[SerializeTx tx code nIn h, ser_u32 h]"]
    by (auto simp: SignatureHash_def SerializeTx_signed [OF assms(1)] not_le)
qed

lemma CheckSig_iff:
  "TransactionSignatureChecker ecdsa tx nIn sig key code \<longleftrightarrow>
     key_shaped key \<and> sig \<noteq> [] \<and> ecdsa (SignatureHash code tx nIn (ucast (last sig))) (butlast sig) key"
  by (auto simp: TransactionSignatureChecker_def CPubKey_IsValid_Set CPubKey_Verify_Set Let_def)

text \<open>What is signed is well formed, so the bytes determine it.\<close>

lemma wf_signed_tx:
  assumes "wf_tx tx" and "nIn < length (vin tx)" and "length code \<le> MAX_SIZE"
    and "fHashSingle h \<Longrightarrow> nIn < length (vout tx)"
  shows "wf_tx (signed_tx code tx nIn h)"
proof -
  have i: "wf_txin (vin tx ! i)" if "i < length (vin tx)" for i
    using assms(1) that by (simp add: wf_tx_def list_all_length)
  have "wf_txin (signed_input code h nIn i (vin tx ! i))" if "i < length (vin tx)" for i
    using i [OF that] assms(3) by (cases "i = nIn") (simp_all add: wf_txin_def signed_input_def)
  moreover have "wf_txin ((vin tx ! nIn)\<lparr>scriptSig := code\<rparr>)"
    using i [OF assms(2)] assms(3) by (simp add: wf_txin_def)
  moreover have "wf_txout CTxOut_Null" by (simp add: wf_txout_def CTxOut_Null_def)
  ultimately show ?thesis
    using assms by (auto simp: wf_tx_def signed_tx_def list_all_length MAX_SIZE_def nth_append)
qed

text \<open>Equal signature hashes mean equal signed transactions and hash types, or the hashed messages collide.\<close>

definition sighash_preimage :: "byte list \<Rightarrow> CTransaction \<Rightarrow> nat \<Rightarrow> u32 \<Rightarrow> byte list" where
  "sighash_preimage code tx nIn h = ser_tx (signed_tx (strip_separators code) tx nIn h) @ ser_u32 h"

lemma SignatureHash_inject:
  assumes "snd (parse_script code)" and "nIn < length (vin tx)"
    and "fHashSingle h \<Longrightarrow> nIn < length (vout tx)"
    and "wf_tx tx" and "length (strip_separators code) \<le> MAX_SIZE"
    and "snd (parse_script code')" and "nIn' < length (vin tx')"
    and "fHashSingle h' \<Longrightarrow> nIn' < length (vout tx')"
    and "wf_tx tx'" and "length (strip_separators code') \<le> MAX_SIZE"
    and "SignatureHash code tx nIn h = SignatureHash code' tx' nIn' h'"
  shows "h = h' \<and> signed_tx (strip_separators code) tx nIn h =
      signed_tx (strip_separators code') tx' nIn' h' \<or>
    (sighash_preimage code tx nIn h \<noteq> sighash_preimage code' tx' nIn' h' \<and>
     hash256 (sighash_preimage code tx nIn h) = hash256 (sighash_preimage code' tx' nIn' h'))"
proof -
  let ?t = "signed_tx (strip_separators code) tx nIn h"
  let ?t' = "signed_tx (strip_separators code') tx' nIn' h'"
  have w: "wf_tx ?t" "wf_tx ?t'" using assms by (auto intro!: wf_signed_tx)
  have "Hash (ser_tx ?t @ ser_u32 h) = Hash (ser_tx ?t' @ ser_u32 h')"
    using assms by (simp add: SignatureHash_signed)
  then have e: "hash256 (ser_tx ?t @ ser_u32 h) = hash256 (ser_tx ?t' @ ser_u32 h')"
    by (simp flip: uint256_bytes_Hash)
  show ?thesis
  proof (cases "ser_tx ?t @ ser_u32 h = ser_tx ?t' @ ser_u32 h'")
    case True
    then have "?t = ?t' \<and> ser_u32 h = ser_u32 h'" using mtx.prefix_free w by blast
    then show ?thesis using u32.ser_inject by blast
  qed (use e in \<open>simp add: sighash_preimage_def\<close>)
qed

text \<open>What each hash type leaves out.\<close>

lemma signed_tx_all:
  assumes "\<not> fAnyoneCanPay h" and "\<not> fHashNone h" and "\<not> fHashSingle h"
    and "signed_tx code tx nIn h = signed_tx code' tx' nIn' h" and "nIn < length (vin tx)"
  shows "nVersion tx = nVersion tx' \<and> nLockTime tx = nLockTime tx' \<and> vout tx = vout tx' \<and>
    map prevout (vin tx) = map prevout (vin tx') \<and> map nSequence (vin tx) = map nSequence (vin tx')"
proof -
  let ?f = "\<lambda>c (tx :: CTransaction) n i. signed_input c h n i (vin tx ! i)"
  have m: "map (?f code tx nIn) [0..<length (vin tx)] = map (?f code' tx' nIn') [0..<length (vin tx')]"
    using assms by (simp add: signed_tx_def)
  have p: "prevout (signed_input c h n i t) = prevout t" "nSequence (signed_input c h n i t) = nSequence t"
    for c n i t using assms by (simp_all add: signed_input_def)
  have q: "map prevout (vin t) = map prevout (map (?f c t n) [0..<length (vin t)])"
    "map nSequence (vin t) = map nSequence (map (?f c t n) [0..<length (vin t)])"
    for c n and t :: CTransaction by (auto intro!: nth_equalityI simp: p)
  have "map prevout (vin tx) = map prevout (vin tx')" "map nSequence (vin tx) = map nSequence (vin tx')"
    unfolding q(1) [of tx code nIn] q(1) [of tx' code' nIn'] q(2) [of tx code nIn]
      q(2) [of tx' code' nIn'] m by simp_all
  then show ?thesis using assms by (simp add: signed_tx_def)
qed

lemma signed_tx_anyonecanpay:
  assumes "fAnyoneCanPay h" and "\<not> fHashSingle h"
    and "nVersion tx = nVersion tx'" and "nLockTime tx = nLockTime tx'"
    and "fHashNone h \<or> vout tx = vout tx'"
    and "(vin tx ! nIn)\<lparr>scriptSig := []\<rparr> = (vin tx' ! nIn')\<lparr>scriptSig := []\<rparr>"
  shows "signed_tx code tx nIn h = signed_tx code tx' nIn' h"
proof -
  have "(vin tx ! nIn)\<lparr>scriptSig := code\<rparr> = (vin tx' ! nIn')\<lparr>scriptSig := code\<rparr>"
    using arg_cong [OF assms(6), of "scriptSig_update (\<lambda>_. code)"] by simp
  then show ?thesis using assms by (auto simp: signed_tx_def)
qed

section \<open>A pay-to-pubkey-hash input\<close>

lemma parse_p2pkh_script:
  assumes "length h = 20"
  shows "parse_script (p2pkh_script h) =
    ([(OP_DUP, []), (OP_HASH160, []), (20, h), (OP_EQUALVERIFY, []), (OP_CHECKSIG, [])], True)"
proof -
  have "GetOp2 (20 # h @ [OP_EQUALVERIFY, OP_CHECKSIG]) = (True, 20, h, [OP_EQUALVERIFY, OP_CHECKSIG])"
    using assms by (intro GetOp2_direct_push) simp_all
  then show ?thesis
    by (simp add: p2pkh_script_def GetOp2_opcode parse_script_step)
qed

lemma strip_p2pkh_script:
  "length h = 20 \<Longrightarrow> strip_separators (p2pkh_script h) = p2pkh_script h"
  by (intro strip_separators_id) (simp_all add: parse_p2pkh_script)

lemma VerifyScript_p2pkh_tx:
  assumes "length h = 20" and "pushable sig" and "pushable pubkey" and "sig \<noteq> h"
    and "nIn < length (vin tx)" and "fHashSingle (ucast (last sig)) \<Longrightarrow> nIn < length (vout tx)"
  shows "VerifyScript (push_all [sig, pubkey]) (p2pkh_script h) flags
      (TransactionSignatureChecker ecdsa tx nIn) = Inr () \<longleftrightarrow>
    hash160 pubkey = h \<and> check_encodings sig pubkey flags = None \<and> key_shaped pubkey \<and> sig \<noteq> [] \<and>
    ecdsa (Hash (ser_tx (signed_tx (p2pkh_script h) tx nIn (ucast (last sig))) @
        ser_u32 (ucast (last sig)))) (butlast sig) pubkey"
proof -
  have "SignatureHash (p2pkh_script h) tx nIn (ucast (last sig)) =
      Hash (ser_tx (signed_tx (p2pkh_script h) tx nIn (ucast (last sig))) @ ser_u32 (ucast (last sig)))"
    using SignatureHash_signed [of "p2pkh_script h" nIn tx "ucast (last sig)"] assms
    by (simp add: parse_p2pkh_script strip_p2pkh_script)
  then show ?thesis
    using VerifyScript_p2pkh [OF assms(1-4), of flags "TransactionSignatureChecker ecdsa tx nIn"]
    by (simp add: CheckSig_iff)
qed

section \<open>A transaction for examples\<close>

definition example_tx :: CTransaction where
  "example_tx = \<lparr>nVersion = 1, vin = [CTxIn_of (COutPoint.make 7 0) [] 0],
     vout = [CTxOut_of 5 []], nLockTime = 0, tx_hash = 0\<rparr>"

lemma example_code: "snd (parse_script [OP_CHECKSIG])" "strip_separators [OP_CHECKSIG] = [OP_CHECKSIG]"
  by code_simp+

section \<open>Properties\<close>

text \<open>
  C11. The bytes SignatureHash digests are the serialization of one transaction, the given one
  with the input scripts, sequence numbers, inputs and outputs that the hash type leaves out
  blanked or dropped and OP_CODESEPARATOR removed from the signed script, followed by the hash
  type.
\<close>

theorem sighash_is_signed_tx:
  assumes "snd (parse_script code)" and "nIn < length (vin tx)"
    and "fHashSingle h \<Longrightarrow> nIn < length (vout tx)"
  shows "SignatureHash code tx nIn h =
    Hash (ser_tx (signed_tx (strip_separators code) tx nIn h) @ ser_u32 h)"
  using assms by (rule SignatureHash_signed)

theorem sighash_is_signed_tx_witness:
  "SignatureHash [OP_CHECKSIG] example_tx 0 1 =
    Hash (ser_tx (signed_tx (strip_separators [OP_CHECKSIG]) example_tx 0 1) @ ser_u32 1)"
proof -
  have "snd (parse_script [OP_CHECKSIG])" by code_simp
  then show ?thesis
    using sighash_is_signed_tx [of "[OP_CHECKSIG]" 0 example_tx 1] by (simp add: example_tx_def)
qed

text \<open>
  C12. What a signature hash commits to, for script codes that parse, inputs that exist and, under
  SIGHASH_SINGLE, an output of the index of the input (without one the hash is 1 for every
  transaction, and commits to nothing): equal signature hashes of two well formed transactions
  mean the same hash type and the same signed parts of the transactions and scripts, or the two
  hashed messages collide under the double SHA-256.
\<close>

theorem sighash_commits:
  assumes "snd (parse_script code)" and "nIn < length (vin tx)"
    and "fHashSingle h \<Longrightarrow> nIn < length (vout tx)"
    and "wf_tx tx" and "length (strip_separators code) \<le> MAX_SIZE"
    and "snd (parse_script code')" and "nIn' < length (vin tx')"
    and "fHashSingle h' \<Longrightarrow> nIn' < length (vout tx')"
    and "wf_tx tx'" and "length (strip_separators code') \<le> MAX_SIZE"
    and "SignatureHash code tx nIn h = SignatureHash code' tx' nIn' h'"
  shows "h = h' \<and> signed_tx (strip_separators code) tx nIn h =
      signed_tx (strip_separators code') tx' nIn' h' \<or>
    (sighash_preimage code tx nIn h \<noteq> sighash_preimage code' tx' nIn' h' \<and>
     hash256 (sighash_preimage code tx nIn h) = hash256 (sighash_preimage code' tx' nIn' h'))"
  using assms by (rule SignatureHash_inject)

theorem sighash_commits_witness:
  "\<exists>code tx tx'. tx \<noteq> tx' \<and> SignatureHash code tx 0 1 = SignatureHash code tx' 0 1 \<and>
    (signed_tx (strip_separators code) tx 0 1 = signed_tx (strip_separators code) tx' 0 1 \<or>
     sighash_preimage code tx 0 1 \<noteq> sighash_preimage code tx' 0 1)"
proof -
  let ?tx' = "example_tx\<lparr>vin := map (\<lambda>i. i\<lparr>scriptSig := [OP_1]\<rparr>) (vin example_tx)\<rparr>"
  have e: "SignatureHash [OP_CHECKSIG] example_tx 0 1 = SignatureHash [OP_CHECKSIG] ?tx' 0 1"
    by (simp add: SignatureHash_signed example_code signed_tx_def example_tx_def signed_input_def CTxIn_of_def)
  have "1 = (1 :: u32) \<and> signed_tx (strip_separators [OP_CHECKSIG]) example_tx 0 1 =
      signed_tx (strip_separators [OP_CHECKSIG]) ?tx' 0 1 \<or>
     (sighash_preimage [OP_CHECKSIG] example_tx 0 1 \<noteq> sighash_preimage [OP_CHECKSIG] ?tx' 0 1 \<and>
      hash256 (sighash_preimage [OP_CHECKSIG] example_tx 0 1) = hash256 (sighash_preimage [OP_CHECKSIG] ?tx' 0 1))"
    by (rule sighash_commits [OF _ _ _ _ _ _ _ _ _ _ e])
       (simp_all add: example_code example_tx_def wf_tx_def wf_txin_def wf_txout_def MAX_SIZE_def CTxIn_of_def CTxOut_of_def)
  moreover have "example_tx \<noteq> ?tx'" by (simp add: example_tx_def CTxIn_of_def)
  ultimately show ?thesis using e by blast
qed

text \<open>
  C13. With the checker of a transaction, an input spends a pay-to-pubkey-hash output exactly when
  its key hashes to the hash in the output, has the shape of a public key, the encodings pass, and
  the signature without its last byte verifies for the hash of the signed transaction that this
  byte selects.
\<close>

theorem p2pkh_spend_tx:
  assumes "length h = 20" and "pushable sig" and "pushable pubkey" and "sig \<noteq> h"
    and "nIn < length (vin tx)" and "fHashSingle (ucast (last sig)) \<Longrightarrow> nIn < length (vout tx)"
  shows "VerifyScript (push_all [sig, pubkey]) (p2pkh_script h) flags
      (TransactionSignatureChecker ecdsa tx nIn) = Inr () \<longleftrightarrow>
    hash160 pubkey = h \<and> check_encodings sig pubkey flags = None \<and> key_shaped pubkey \<and> sig \<noteq> [] \<and>
    ecdsa (Hash (ser_tx (signed_tx (p2pkh_script h) tx nIn (ucast (last sig))) @
        ser_u32 (ucast (last sig)))) (butlast sig) pubkey"
  using assms by (rule VerifyScript_p2pkh_tx)

theorem p2pkh_spend_tx_witness:
  "VerifyScript (push_all [replicate 71 0x30, replicate 33 2]) (p2pkh_script (hash160 (replicate 33 2)))
     SCRIPT_VERIFY_P2SH (TransactionSignatureChecker (\<lambda>h sig key. sig = replicate 70 0x30) example_tx 0) = Inr ()"
proof -
  have "replicate 71 0x30 \<noteq> hash160 (replicate 33 2)" by (auto dest: arg_cong [where f = length])
  moreover have "pushable (replicate 71 0x30)" "pushable (replicate 33 2)"
    by (simp_all add: pushable_def small_push_def)
  moreover have "butlast (replicate 71 0x30) = (replicate 70 0x30 :: byte list)"
    by (simp add: butlast_conv_take)
  moreover have "key_shaped (replicate 33 2)" by (simp add: key_shaped_def GetLen_def)
  ultimately show ?thesis
    using p2pkh_spend_tx [of "hash160 (replicate 33 2)" "replicate 71 0x30" "replicate 33 2" 0 example_tx
        SCRIPT_VERIFY_P2SH "\<lambda>h sig key. sig = replicate 70 0x30"]
    by (simp add: check_encodings_None CheckSignatureEncoding_None CheckPubKeyEncoding_None example_tx_def)
qed

end
