(* ===== verification/Standard.thy ===== *)
theory Standard
  imports SigHash
begin

text \<open>
  Standard scripts (\<open>src/script/standard.h\<close>, \<open>src/script/standard.cpp\<close>): \<open>Solver\<close>, which
  matches an output script against the templates, what is derived from it, and the scripts that
  pay to a destination. The lemmas describe the scripts \<open>Solver\<close> accepts by the operations
  they parse to and show that the destination a script was made for is extracted from it.
\<close>

datatype txnouttype =
  TX_NONSTANDARD | TX_PUBKEY | TX_PUBKEYHASH | TX_SCRIPTHASH | TX_MULTISIG | TX_NULL_DATA
  | TX_ZEROCOINMINT

datatype CTxDestination = CNoDestination | CKeyID uint160 | CScriptID uint160

definition MAX_OP_RETURN_RELAY :: nat where
  "MAX_OP_RETURN_RELAY = 83"

definition CScriptID_of :: "byte list \<Rightarrow> CTxDestination" where
  "CScriptID_of script = CScriptID (Hash160 script)"

fun GetTxnOutputType :: "txnouttype \<Rightarrow> string" where
  "GetTxnOutputType TX_NONSTANDARD = ''nonstandard''"
| "GetTxnOutputType TX_PUBKEY = ''pubkey''"
| "GetTxnOutputType TX_PUBKEYHASH = ''pubkeyhash''"
| "GetTxnOutputType TX_SCRIPTHASH = ''scripthash''"
| "GetTxnOutputType TX_MULTISIG = ''multisig''"
| "GetTxnOutputType TX_NULL_DATA = ''nulldata''"
| "GetTxnOutputType TX_ZEROCOINMINT = ''zerocoinmint''"

section \<open>Solver\<close>

text \<open>The \<open>multimap\<close> is in the order of its keys.\<close>

definition mTemplates :: "(txnouttype \<times> byte list) list" where
  "mTemplates =
     [(TX_PUBKEY, foldl push_opcode [] [OP_PUBKEY, OP_CHECKSIG]),
      (TX_PUBKEYHASH,
        foldl push_opcode [] [OP_DUP, OP_HASH160, OP_PUBKEYHASH, OP_EQUALVERIFY, OP_CHECKSIG]),
      (TX_MULTISIG,
        foldl push_opcode [] [OP_SMALLINTEGER, OP_PUBKEYS, OP_SMALLINTEGER, OP_CHECKMULTISIG])]"

text \<open>The inner loop of \<open>OP_PUBKEYS\<close>: \<open>vSolutionsRet\<close>, \<open>opcode1\<close>, \<open>vch1\<close> and \<open>pc1\<close>.\<close>

function match_pubkeys ::
    "valtype list \<Rightarrow> byte \<Rightarrow> valtype \<Rightarrow> byte list \<Rightarrow> valtype list \<times> byte \<times> valtype \<times> byte list" where
  "match_pubkeys sols opcode1 vch1 pc1 =
     (if length vch1 \<ge> 33 \<and> length vch1 \<le> 65 then
        (case GetOp2 pc1 of
           (r, opcode1, vch1', pc1') \<Rightarrow>
             if \<not> r then (sols @ [vch1], opcode1, vch1', pc1')
             else match_pubkeys (sols @ [vch1]) opcode1 vch1' pc1')
      else (sols, opcode1, vch1, pc1))"
  by pat_completeness auto
termination
  by (relation "measure (\<lambda>(s, op, v, pc). length pc)") (auto dest!: GetOp2_True_shorter [OF sym])

declare match_pubkeys.simps [simp del]

text \<open>One operation of the script against one of the template that is not \<open>OP_PUBKEYS\<close>;
  \<open>None\<close> is \<open>break\<close>.\<close>

definition match_element ::
    "byte \<Rightarrow> valtype \<Rightarrow> byte \<Rightarrow> valtype \<Rightarrow> valtype list \<Rightarrow> valtype list option" where
  "match_element opcode1 vch1 opcode2 vch2 sols =
     (if opcode2 = OP_PUBKEY then
        (if length vch1 < 33 \<or> length vch1 > 65 then None else Some (sols @ [vch1]))
      else if opcode2 = OP_PUBKEYHASH then
        (if length vch1 \<noteq> 20 then None else Some (sols @ [vch1]))
      else if opcode2 = OP_SMALLINTEGER then
        (if opcode1 = OP_0 \<or> (opcode1 \<ge> OP_1 \<and> opcode1 \<le> OP_16)
         then Some (sols @ [replicate 1 (of_int (the (DecodeOP_N opcode1)))])
         else None)
      else if opcode1 \<noteq> opcode2 \<or> vch1 \<noteq> vch2 then None
      else Some sols)"

lemma GetOp2_rest_le: "length (snd (snd (snd (GetOp2 pc)))) \<le> length pc"
  by (cases "pc = []") (use GetOp2_shorter [of pc] in \<open>auto simp: order_less_imp_le
    intro: prod.exhaust [of "GetOp2 pc"] split: prod.splits\<close>)

lemma match_pubkeys_rest_le: "length (snd (snd (snd (match_pubkeys sols op v pc)))) \<le> length pc"
proof (induction sols op v pc rule: match_pubkeys.induct)
  case (1 sols op v pc)
  obtain r op' v' pc' where g: "GetOp2 pc = (r, op', v', pc')" by (metis prod.collapse)
  have "length pc' \<le> length pc" using GetOp2_rest_le [of pc] g by simp
  then show ?case using 1 g by (subst match_pubkeys.simps) fastforce
qed

lemma match_pubkeys_shorter:
  "match_pubkeys sols op v pc = (sols', op', v', pc') \<Longrightarrow> length pc' \<le> length pc"
  using match_pubkeys_rest_le [of sols op v pc] by simp

function match_template :: "byte list \<Rightarrow> byte list \<Rightarrow> valtype list \<Rightarrow> valtype list option" where
  "match_template pc1 pc2 sols =
     (if pc1 = [] \<and> pc2 = [] then Some sols
      else
        (case GetOp2 pc1 of (r1, opcode1, vch1, pc1') \<Rightarrow>
           if \<not> r1 then None
           else
             (case GetOp2 pc2 of (r2, opcode2, vch2, pc2') \<Rightarrow>
                if \<not> r2 then None
                else if opcode2 = OP_PUBKEYS then
                  (case match_pubkeys sols opcode1 vch1 pc1' of (sols, opcode1, vch1, pc1'') \<Rightarrow>
                     (case GetOp2 pc2' of (r2, opcode2, vch2, pc2') \<Rightarrow>
                        if \<not> r2 then None
                        else
                          (case match_element opcode1 vch1 opcode2 vch2 sols of
                             None \<Rightarrow> None
                           | Some sols \<Rightarrow> match_template pc1'' pc2' sols)))
                else
                  (case match_element opcode1 vch1 opcode2 vch2 sols of
                     None \<Rightarrow> None
                   | Some sols \<Rightarrow> match_template pc1' pc2' sols))))"
  by pat_completeness auto
termination
  by (relation "measure (\<lambda>(pc1, pc2, s). length pc1)")
    (auto dest!: GetOp2_True_shorter [OF sym] match_pubkeys_shorter [OF sym])

declare match_template.simps [simp del]

text \<open>What is done with a match, \<open>None\<close> for none: the result, \<open>typeRet\<close> and \<open>vSolutionsRet\<close>.\<close>

definition found_match :: "txnouttype \<Rightarrow> valtype list \<Rightarrow> bool \<times> txnouttype \<times> valtype list" where
  "found_match typeRet sols =
     (if typeRet = TX_MULTISIG then
        (let m = hd (hd sols); n = hd (last sols)
         in if m < 1 \<or> n < 1 \<or> m > n \<or> length sols - 2 \<noteq> unat n then (False, typeRet, sols)
            else (True, typeRet, sols))
      else (True, typeRet, sols))"

fun scan_templates ::
    "byte list \<Rightarrow> (txnouttype \<times> byte list) list \<Rightarrow> bool \<times> txnouttype \<times> valtype list" where
  "scan_templates script1 [] = (False, TX_NONSTANDARD, [])"
| "scan_templates script1 ((t, script2) # ts) =
     (case match_template script1 script2 [] of
        None \<Rightarrow> scan_templates script1 ts
      | Some sols \<Rightarrow> found_match t sols)"

text \<open>\<open>None\<close> is undefined behaviour: \<open>begin() + 2\<close> behind \<open>end()\<close>.\<close>

definition Solver ::
    "byte list \<Rightarrow> valtype list \<Rightarrow> (bool \<times> txnouttype \<times> valtype list) option" where
  "Solver script vSolutionsRet =
     (if IsPayToScriptHash script then
        Some (True, TX_SCRIPTHASH, vSolutionsRet @ [take 20 (drop 2 script)])
      else if IsZerocoinMint script then
        (if length script > 150 then Some (False, TX_ZEROCOINMINT, vSolutionsRet)
         else if length script < 2 then None
         else Some (True, TX_ZEROCOINMINT, vSolutionsRet @ [drop 2 script]))
      else if length script \<ge> 1 \<and> script ! 0 = OP_RETURN \<and> IsPushOnly (drop 1 script)
      then Some (True, TX_NULL_DATA, vSolutionsRet)
      else Some (scan_templates script mTemplates))"

section \<open>What is derived from it\<close>

definition ScriptSigArgsExpected :: "txnouttype \<Rightarrow> valtype list \<Rightarrow> int" where
  "ScriptSigArgsExpected t vSolutions =
     (case t of
        TX_NONSTANDARD \<Rightarrow> -1
      | TX_NULL_DATA \<Rightarrow> -1
      | TX_ZEROCOINMINT \<Rightarrow> -1
      | TX_PUBKEY \<Rightarrow> 1
      | TX_PUBKEYHASH \<Rightarrow> 2
      | TX_MULTISIG \<Rightarrow>
          if length vSolutions < 1 \<or> length (vSolutions ! 0) < 1 then -1
          else uint (vSolutions ! 0 ! 0) + 1
      | TX_SCRIPTHASH \<Rightarrow> 1)"

text \<open>\<open>datacarrier\<close> is the option \<open>-datacarrier\<close>; the result comes with \<open>whichType\<close>.\<close>

definition IsStandard :: "bool \<Rightarrow> nat \<Rightarrow> byte list \<Rightarrow> (bool \<times> txnouttype) option" where
  "IsStandard datacarrier nMaxDatacarrierBytes script =
     (case Solver script [] of
        None \<Rightarrow> None
      | Some (r, whichType, vSolutions) \<Rightarrow>
          Some
            (if \<not> r then (False, whichType)
             else if whichType = TX_MULTISIG then
               (let m = hd (hd vSolutions); n = hd (last vSolutions)
                in if n < 1 \<or> n > 3 then (False, whichType)
                   else if m < 1 \<or> m > n then (False, whichType)
                   else (whichType \<noteq> TX_NONSTANDARD, whichType))
             else if whichType = TX_NULL_DATA \<and>
               (\<not> datacarrier \<or> length script > nMaxDatacarrierBytes)
             then (False, whichType)
             else (whichType \<noteq> TX_NONSTANDARD, whichType)))"

text \<open>A destination when the function returns true.\<close>

definition ExtractDestination :: "byte list \<Rightarrow> CTxDestination option option" where
  "ExtractDestination script =
     (case Solver script [] of
        None \<Rightarrow> None
      | Some (r, whichType, vSolutions) \<Rightarrow>
          Some
            (if \<not> r then None
             else if whichType = TX_PUBKEY then
               (let pubKey = CPubKey_Set (replicate 65 0) (vSolutions ! 0)
                in if \<not> CPubKey_IsValid pubKey then None else Some (CKeyID (CPubKey_GetID pubKey)))
             else if whichType = TX_PUBKEYHASH then Some (CKeyID (uint160_of_bytes (vSolutions ! 0)))
             else if whichType = TX_SCRIPTHASH then Some (CScriptID (uint160_of_bytes (vSolutions ! 0)))
             else None))"

text \<open>The loop over the keys of a multisignature script.\<close>

fun key_destinations :: "valtype list \<Rightarrow> CTxDestination list" where
  "key_destinations [] = []"
| "key_destinations (v # vs) =
     (let pubKey = CPubKey_Set (replicate 65 0) v
      in if \<not> CPubKey_IsValid pubKey then key_destinations vs
         else CKeyID (CPubKey_GetID pubKey) # key_destinations vs)"

definition ExtractDestinations ::
    "byte list \<Rightarrow> (bool \<times> txnouttype \<times> CTxDestination list \<times> int option) option" where
  "ExtractDestinations script =
     (case Solver script [] of
        None \<Rightarrow> None
      | Some (r, typeRet, vSolutions) \<Rightarrow>
          if \<not> r then Some (False, typeRet, [], None)
          else if typeRet = TX_NULL_DATA then Some (False, typeRet, [], None)
          else if typeRet = TX_MULTISIG then
            (let nRequiredRet = uint (hd (hd vSolutions));
                 addressRet = key_destinations (butlast (tl vSolutions))
             in Some (addressRet \<noteq> [], typeRet, addressRet, Some nRequiredRet))
          else
            (case ExtractDestination script of
               None \<Rightarrow> None
             | Some None \<Rightarrow> Some (False, typeRet, [], Some 1)
             | Some (Some address) \<Rightarrow> Some (True, typeRet, [address], Some 1)))"

fun GetScriptForDestination :: "CTxDestination \<Rightarrow> byte list" where
  "GetScriptForDestination CNoDestination = []"
| "GetScriptForDestination (CKeyID keyID) =
     push_opcode (push_opcode
       (push_data (push_opcode (push_opcode [] OP_DUP) OP_HASH160) (uint160_bytes keyID))
       OP_EQUALVERIFY) OP_CHECKSIG"
| "GetScriptForDestination (CScriptID scriptID) =
     push_opcode (push_data (push_opcode [] OP_HASH160) (uint160_bytes scriptID)) OP_EQUAL"

text \<open>\<open>None\<close> is a failed assertion of \<open>EncodeOP_N\<close>.\<close>

definition GetScriptForMultisig :: "int \<Rightarrow> CPubKey list \<Rightarrow> byte list option" where
  "GetScriptForMultisig nRequired keys =
     (case (EncodeOP_N nRequired, EncodeOP_N (int (length keys))) of
        (Some m, Some n) \<Rightarrow>
          Some (push_opcode (push_opcode
            (foldl (\<lambda>script key. push_data script (CPubKey_Raw key)) (push_opcode [] m) keys) n)
            OP_CHECKMULTISIG)
      | _ \<Rightarrow> None)"

section \<open>What the templates accept\<close>

text \<open>\<open>reads pc ops pc'\<close>: \<open>GetOp\<close> reads the operations and stops at \<open>pc'\<close>.\<close>

fun reads :: "byte list \<Rightarrow> (byte \<times> valtype) list \<Rightarrow> byte list \<Rightarrow> bool" where
  "reads pc [] pc' \<longleftrightarrow> pc = pc'"
| "reads pc ((op, v) # ops) pc' \<longleftrightarrow> (\<exists>pc''. GetOp2 pc = (True, op, v, pc'') \<and> reads pc'' ops pc')"

lemma parse_script_Cons:
  "parse_script pc = ((op, v) # ops, ok) \<longleftrightarrow>
     (\<exists>pc'. GetOp2 pc = (True, op, v, pc') \<and> parse_script pc' = (ops, ok))"
proof (cases "pc = []")
  case False
  obtain r op' v' pc' where g: "GetOp2 pc = (r, op', v', pc')" by (metis prod.collapse)
  show ?thesis
    using False g by (cases r) (auto simp: parse_script_step parse_script_fail prod_eq_iff)
qed simp

lemma parse_script_Nil_True: "parse_script pc = ([], True) \<longleftrightarrow> pc = []"
proof (cases "pc = []")
  case False
  obtain r op' v' pc' where g: "GetOp2 pc = (r, op', v', pc')" by (metis prod.collapse)
  show ?thesis using False g by (cases r) (auto simp: parse_script_step parse_script_fail)
qed simp

lemma reads_all: "reads pc ops [] \<longleftrightarrow> parse_script pc = (ops, True)"
  by (induction ops arbitrary: pc) (auto simp: parse_script_Nil_True parse_script_Cons)

lemma reads_append: "reads pc (xs @ ys) pc' \<longleftrightarrow> (\<exists>pc''. reads pc xs pc'' \<and> reads pc'' ys pc')"
  by (induction xs arbitrary: pc) fastforce+

definition key_sized :: "valtype \<Rightarrow> bool" where
  "key_sized v \<longleftrightarrow> 33 \<le> length v \<and> length v \<le> 65"

definition small_op :: "byte \<Rightarrow> bool" where
  "small_op op \<longleftrightarrow> op = OP_0 \<or> OP_1 \<le> op \<and> op \<le> OP_16"

definition small_byte :: "byte \<Rightarrow> byte" where
  "small_byte op = of_int (the (DecodeOP_N op))"

text \<open>One step of the match for each kind of template operation.\<close>

lemma match_template_Nil: "match_template pc [] sols = Some r \<longleftrightarrow> pc = [] \<and> r = sols"
  by (subst match_template.simps) (auto split: prod.split)

lemma match_template_step:
  assumes "op2 > OP_PUSHDATA4" and "op2 \<noteq> OP_PUBKEYS"
  shows "match_template pc (op2 # pc2) sols = Some r \<longleftrightarrow>
    (\<exists>op v pc' sols'. GetOp2 pc = (True, op, v, pc') \<and> match_element op v op2 [] sols = Some sols' \<and>
       match_template pc' pc2 sols' = Some r)"
  by (subst match_template.simps)
    (auto simp: GetOp2_opcode [OF assms(1)] assms(2) split: prod.split option.split)

lemma match_element_const:
  assumes "op2 \<noteq> OP_PUBKEY" and "op2 \<noteq> OP_PUBKEYHASH" and "op2 \<noteq> OP_SMALLINTEGER"
  shows "match_element op v op2 [] sols = Some sols' \<longleftrightarrow> op = op2 \<and> v = [] \<and> sols' = sols"
  using assms by (auto simp: match_element_def)

lemma match_element_pubkey:
  "match_element op v OP_PUBKEY [] sols = Some sols' \<longleftrightarrow> key_sized v \<and> sols' = sols @ [v]"
  by (auto simp: match_element_def key_sized_def)

lemma match_element_hash:
  "match_element op v OP_PUBKEYHASH [] sols = Some sols' \<longleftrightarrow> length v = 20 \<and> sols' = sols @ [v]"
  by (auto simp: match_element_def)

lemma match_element_small:
  "match_element op v OP_SMALLINTEGER [] sols = Some sols' \<longleftrightarrow>
     small_op op \<and> sols' = sols @ [[small_byte op]]"
  by (auto simp: match_element_def small_op_def small_byte_def)

lemma mTemplates_eq:
  "mTemplates =
     [(TX_PUBKEY, [OP_PUBKEY, OP_CHECKSIG]),
      (TX_PUBKEYHASH, [OP_DUP, OP_HASH160, OP_PUBKEYHASH, OP_EQUALVERIFY, OP_CHECKSIG]),
      (TX_MULTISIG, [OP_SMALLINTEGER, OP_PUBKEYS, OP_SMALLINTEGER, OP_CHECKMULTISIG])]"
  by (simp add: mTemplates_def push_opcode_def)

lemmas match_simps = match_template_step match_template_Nil match_element_const
  match_element_pubkey match_element_hash match_element_small

lemma match_pubkey:
  "match_template script [OP_PUBKEY, OP_CHECKSIG] [] = Some sols \<longleftrightarrow>
     (\<exists>op k. parse_script script = ([(op, k), (OP_CHECKSIG, [])], True) \<and> key_sized k \<and> sols = [k])"
  by (auto simp: match_simps simp flip: reads_all)

lemma match_pubkeyhash:
  "match_template script [OP_DUP, OP_HASH160, OP_PUBKEYHASH, OP_EQUALVERIFY, OP_CHECKSIG] [] = Some sols \<longleftrightarrow>
     (\<exists>op h. parse_script script = ([(OP_DUP, []), (OP_HASH160, []), (op, h), (OP_EQUALVERIFY, []),
         (OP_CHECKSIG, [])], True) \<and> length h = 20 \<and> sols = [h])"
  by (auto simp: match_simps simp flip: reads_all)

lemma GetOp2_small:
  assumes "GetOp2 pc = (True, op, v, pc')" and "small_op op"
  shows "v = []"
proof (cases "op > OP_PUSHDATA4")
  case True
  then show ?thesis using GetOp2_data_only_for_pushes assms(1) by blast
next
  case False
  then have "op = OP_0"
    using assms(2) by (auto simp: small_op_def word_le_nat_alt word_less_nat_alt)
  then show ?thesis using assms(1)
    by (cases pc) (auto simp: GetOp2_def push_size_def split: if_splits)
qed

lemma GetOp2_fail_opcode: "GetOp2 pc = (False, op, v, pc') \<Longrightarrow> op = OP_INVALIDOPCODE"
  by (auto simp: GetOp2_def split: list.splits if_splits option.splits)

text \<open>The keys are read up to the first operation that does not push one.\<close>

lemma match_pubkeys_iff:
  "GetOp2 pc = (True, op, v, pc1) \<Longrightarrow>
   (\<exists>ops opn vn pc'. reads pc (ops @ [(opn, vn)]) pc' \<and> list_all (\<lambda>x. key_sized (snd x)) ops \<and>
      small_op opn \<and> R pc' (sols @ map snd ops) opn) \<longleftrightarrow>
   (case match_pubkeys sols op v pc1 of (s', op', v', pc') \<Rightarrow> small_op op' \<and> R pc' s' op')"
proof (induction sols op v pc1 arbitrary: pc rule: match_pubkeys.induct)
  case (1 sols op v pc1)
  note g = "1.prems"
  show ?case
  proof (cases "key_sized v")
    case False
    have "match_pubkeys sols op v pc1 = (sols, op, v, pc1)"
      using False by (subst match_pubkeys.simps) (auto simp: key_sized_def)
    moreover have l: "ops = [] \<and> opn = op \<and> pc' = pc1"
      if "reads pc (ops @ [(opn, vn)]) pc'" "list_all (\<lambda>x. key_sized (snd x)) ops" for ops opn vn pc'
      using g False that by (cases ops) auto
    have "(\<exists>ops opn vn pc'. reads pc (ops @ [(opn, vn)]) pc' \<and> list_all (\<lambda>x. key_sized (snd x)) ops \<and>
        small_op opn \<and> R pc' (sols @ map snd ops) opn) \<longleftrightarrow> small_op op \<and> R pc1 sols op" (is "?L \<longleftrightarrow> ?R")
    proof
      assume ?L
      then obtain ops opn vn pc' where *: "reads pc (ops @ [(opn, vn)]) pc'"
        "list_all (\<lambda>x. key_sized (snd x)) ops" "small_op opn" "R pc' (sols @ map snd ops) opn" by blast
      then show ?R using l [OF *(1,2)] by simp
    next
      assume ?R
      then show ?L using g by (intro exI [of _ "[]"] exI [of _ op] exI [of _ v] exI [of _ pc1]) simp
    qed
    ultimately show ?thesis by simp
  next
    case True
    then have nz: "v \<noteq> []" by (auto simp: key_sized_def)
    have ns: "\<not> small_op op" using GetOp2_small [OF g] nz by blast
    have e: "(\<exists>ops opn vn pc'. reads pc (ops @ [(opn, vn)]) pc' \<and>
          list_all (\<lambda>x. key_sized (snd x)) ops \<and> small_op opn \<and> R pc' (sols @ map snd ops) opn) \<longleftrightarrow>
        (\<exists>ops opn vn pc'. reads pc1 (ops @ [(opn, vn)]) pc' \<and>
          list_all (\<lambda>x. key_sized (snd x)) ops \<and> small_op opn \<and> R pc' ((sols @ [v]) @ map snd ops) opn)"
      (is "?L \<longleftrightarrow> ?R")
    proof
      assume ?L
      then obtain ops opn vn pc' where *: "reads pc (ops @ [(opn, vn)]) pc'"
        "list_all (\<lambda>x. key_sized (snd x)) ops" "small_op opn" "R pc' (sols @ map snd ops) opn" by blast
      then obtain ops' where "ops = (op, v) # ops'" "reads pc1 (ops' @ [(opn, vn)]) pc'"
        using g ns by (cases ops) auto
      then show ?R using * by (intro exI [of _ ops'] exI [of _ opn] exI [of _ vn] exI [of _ pc']) simp
    next
      assume ?R
      then obtain ops opn vn pc' where *: "reads pc1 (ops @ [(opn, vn)]) pc'"
        "list_all (\<lambda>x. key_sized (snd x)) ops" "small_op opn" "R pc' ((sols @ [v]) @ map snd ops) opn" by blast
      then show ?L using g True
        by (intro exI [of _ "(op, v) # ops"] exI [of _ opn] exI [of _ vn] exI [of _ pc']) simp
    qed
    obtain r op2 v2 pc2 where g2: "GetOp2 pc1 = (r, op2, v2, pc2)" by (metis prod.collapse)
    have m: "match_pubkeys sols op v pc1 =
        (if r then match_pubkeys (sols @ [v]) op2 v2 pc2 else (sols @ [v], op2, v2, pc2))"
      using True g2 by (subst match_pubkeys.simps) (simp add: key_sized_def)
    show ?thesis
    proof (cases r)
      case True
      have IH: "(\<exists>ops opn vn pc'. reads pc1 (ops @ [(opn, vn)]) pc' \<and>
          list_all (\<lambda>x. key_sized (snd x)) ops \<and> small_op opn \<and> R pc' ((sols @ [v]) @ map snd ops) opn) \<longleftrightarrow>
        (case match_pubkeys (sols @ [v]) op2 v2 pc2 of (s', op', v', pc') \<Rightarrow> small_op op' \<and> R pc' s' op')"
        using \<open>key_sized v\<close> g2 True by (intro "1.IH") (auto simp: key_sized_def)
      show ?thesis unfolding e IH m using True by simp
    next
      case False
      then have "\<not> small_op op2" using GetOp2_fail_opcode [of pc1 op2] g2 by (simp add: small_op_def)
      moreover have "\<not> reads pc1 (ops' @ [(opn, vn)]) pc'" for ops' opn vn pc'
        using g2 False by (cases ops') auto
      ultimately show ?thesis unfolding e m using False by simp
    qed
  qed
qed

lemma match_template_keys:
  "match_template pc (OP_PUBKEYS # OP_SMALLINTEGER # pc2) sols = Some r \<longleftrightarrow>
    (\<exists>ops opn vn pc'. reads pc (ops @ [(opn, vn)]) pc' \<and> list_all (\<lambda>x. key_sized (snd x)) ops \<and>
       small_op opn \<and> match_template pc' pc2 (sols @ map snd ops @ [[small_byte opn]]) = Some r)"
proof -
  obtain r1 op v pc1 where g: "GetOp2 pc = (r1, op, v, pc1)" by (metis prod.collapse)
  show ?thesis
  proof (cases r1)
    case True
    have "match_template pc (OP_PUBKEYS # OP_SMALLINTEGER # pc2) sols = Some r \<longleftrightarrow>
      (case match_pubkeys sols op v pc1 of (s', op', v', pc') \<Rightarrow>
         small_op op' \<and> match_template pc' pc2 (s' @ [[small_byte op']]) = Some r)"
      by (subst match_template.simps)
        (auto simp: GetOp2_opcode g True match_element_def small_op_def small_byte_def
          split: prod.split option.split)
    then show ?thesis
      using match_pubkeys_iff [of pc op v pc1 "\<lambda>pc' s' op'. match_template pc' pc2 (s' @ [[small_byte op']]) = Some r" sols]
        g True by simp
  next
    case False
    then have "\<not> reads pc (ops @ [(opn, vn)]) pc'" for ops opn vn pc'
      using g by (cases ops) auto
    moreover have "match_template pc (OP_PUBKEYS # OP_SMALLINTEGER # pc2) sols = None"
      using g False by (subst match_template.simps) auto
    ultimately show ?thesis by simp
  qed
qed

definition multisig_ops :: "byte \<Rightarrow> valtype \<Rightarrow> (byte \<times> valtype) list \<Rightarrow> byte \<Rightarrow> valtype \<Rightarrow> (byte \<times> valtype) list" where
  "multisig_ops opm vm ops opn vn = (opm, vm) # ops @ [(opn, vn), (OP_CHECKMULTISIG, [])]"

lemma match_multisig:
  "match_template script [OP_SMALLINTEGER, OP_PUBKEYS, OP_SMALLINTEGER, OP_CHECKMULTISIG] [] = Some sols \<longleftrightarrow>
     (\<exists>opm vm ops opn vn. parse_script script = (multisig_ops opm vm ops opn vn, True) \<and>
        small_op opm \<and> list_all (\<lambda>x. key_sized (snd x)) ops \<and> small_op opn \<and>
        sols = [small_byte opm] # map snd ops @ [[small_byte opn]])"
  by (auto simp: match_simps match_template_keys multisig_ops_def reads_append simp flip: reads_all)
    blast+

section \<open>Solver on the templates\<close>

lemma GetOp2_first: "GetOp2 pc = (True, op, v, pc') \<Longrightarrow> pc \<noteq> [] \<and> pc ! 0 = op"
  by (cases pc) (auto simp: GetOp2_def split: if_splits option.splits)

lemma Solver_scan:
  assumes "script ! 0 \<notin> {OP_HASH160, OP_ZEROCOINMINT, OP_RETURN}"
  shows "Solver script sols = Some (scan_templates script mTemplates)"
  using assms by (simp add: Solver_def IsPayToScriptHash_def IsZerocoinMint_def)

lemma key_push_opcode:
  assumes "GetOp2 pc = (True, op, k, pc')" and "key_sized k"
  shows "op \<le> OP_PUSHDATA4"
proof (rule ccontr)
  assume "\<not> op \<le> OP_PUSHDATA4"
  then have "k = []" using GetOp2_data_only_for_pushes [OF assms(1)] by simp
  then show False using assms(2) by (simp add: key_sized_def)
qed

lemma match_None: "(\<And>r. match_template s t sols \<noteq> Some r) \<Longrightarrow> match_template s t sols = None"
  by auto

lemma Solver_pubkey:
  assumes "parse_script script = ([(op, k), (OP_CHECKSIG, [])], True)" and "key_sized k"
  shows "Solver script sols = Some (True, TX_PUBKEY, [k])"
proof -
  obtain pc where g: "GetOp2 script = (True, op, k, pc)" using assms(1) by (auto simp: parse_script_Cons)
  have f: "script ! 0 = op" using GetOp2_first [OF g] by simp
  have "op \<le> OP_PUSHDATA4" using key_push_opcode [OF g assms(2)] .
  then have "op \<notin> {OP_HASH160, OP_ZEROCOINMINT, OP_RETURN}"
    by (auto simp: word_le_nat_alt)
  moreover have "match_template script [OP_PUBKEY, OP_CHECKSIG] [] = Some [k]"
    using assms by (simp add: match_pubkey)
  ultimately show ?thesis using Solver_scan f by (simp add: mTemplates_eq found_match_def)
qed

lemma Solver_pubkeyhash:
  assumes "parse_script script = ([(OP_DUP, []), (OP_HASH160, []), (op, h), (OP_EQUALVERIFY, []),
      (OP_CHECKSIG, [])], True)" and "length h = 20"
  shows "Solver script sols = Some (True, TX_PUBKEYHASH, [h])"
proof -
  have "script ! 0 = OP_DUP"
    using assms(1) GetOp2_first by (auto simp: parse_script_Cons)
  moreover have "match_template script [OP_PUBKEY, OP_CHECKSIG] [] = None"
    by (rule match_None) (use assms in \<open>auto simp: match_pubkey\<close>)
  moreover have "match_template script [OP_DUP, OP_HASH160, OP_PUBKEYHASH, OP_EQUALVERIFY, OP_CHECKSIG] [] = Some [h]"
    using assms by (simp add: match_pubkeyhash)
  ultimately show ?thesis using Solver_scan [of script sols] by (simp add: mTemplates_eq found_match_def)
qed

lemma Solver_multisig:
  assumes "parse_script script = (multisig_ops opm vm ops opn vn, True)"
    and "small_op opm" and "small_op opn" and "list_all (\<lambda>x. key_sized (snd x)) ops"
  shows "Solver script sols = Some
    (1 \<le> small_byte opm \<and> 1 \<le> small_byte opn \<and> small_byte opm \<le> small_byte opn \<and>
       length ops = unat (small_byte opn),
     TX_MULTISIG, [small_byte opm] # map snd ops @ [[small_byte opn]])"
proof -
  have "script ! 0 = opm"
    using assms(1) GetOp2_first by (auto simp: parse_script_Cons multisig_ops_def)
  then have f: "script ! 0 \<notin> {OP_HASH160, OP_ZEROCOINMINT, OP_RETURN}"
    using assms(2) by (auto simp: small_op_def word_le_nat_alt)
  have "match_template script [OP_PUBKEY, OP_CHECKSIG] [] = None"
    by (rule match_None) (use assms in \<open>auto simp: match_pubkey multisig_ops_def\<close>)
  moreover have "match_template script [OP_DUP, OP_HASH160, OP_PUBKEYHASH, OP_EQUALVERIFY, OP_CHECKSIG] [] = None"
    by (rule match_None) (use assms in \<open>auto simp: match_pubkeyhash multisig_ops_def small_op_def\<close>)
  moreover have "match_template script [OP_SMALLINTEGER, OP_PUBKEYS, OP_SMALLINTEGER, OP_CHECKMULTISIG] [] =
      Some ([small_byte opm] # map snd ops @ [[small_byte opn]])"
    unfolding match_multisig using assms by blast
  ultimately show ?thesis
    using Solver_scan [OF f, of sols]
    by (auto simp: mTemplates_eq found_match_def Let_def word_less_nat_alt word_le_nat_alt not_less)
qed

text \<open>The converse: what \<open>Solver\<close> calls a template has its operations.\<close>

lemma Solver_cases:
  assumes "Solver script sols = Some (r, t, sols')" and "t \<in> {TX_PUBKEY, TX_PUBKEYHASH, TX_MULTISIG}"
  shows "(r, t, sols') = scan_templates script mTemplates"
  using assms by (auto simp: Solver_def split: if_splits)

lemma Solver_pubkeyhash_iff:
  "Solver script sols = Some (r, TX_PUBKEYHASH, sols') \<longleftrightarrow>
     (\<exists>op h. parse_script script = ([(OP_DUP, []), (OP_HASH160, []), (op, h), (OP_EQUALVERIFY, []),
        (OP_CHECKSIG, [])], True) \<and> length h = 20 \<and> r \<and> sols' = [h])" (is "?L \<longleftrightarrow> ?R")
proof
  assume ?L
  then have "(r, TX_PUBKEYHASH, sols') = scan_templates script mTemplates" by (rule Solver_cases) simp
  then show ?R
    by (auto simp: mTemplates_eq found_match_def match_pubkeyhash Let_def split: option.splits if_splits)
qed (auto simp: Solver_pubkeyhash)

lemma Solver_pubkey_iff:
  "Solver script sols = Some (r, TX_PUBKEY, sols') \<longleftrightarrow>
     (\<exists>op k. parse_script script = ([(op, k), (OP_CHECKSIG, [])], True) \<and> key_sized k \<and> r \<and> sols' = [k])"
    (is "?L \<longleftrightarrow> ?R")
proof
  assume ?L
  then have "(r, TX_PUBKEY, sols') = scan_templates script mTemplates" by (rule Solver_cases) simp
  then show ?R
    by (auto simp: mTemplates_eq found_match_def match_pubkey Let_def split: option.splits if_splits)
qed (auto simp: Solver_pubkey)

lemma Solver_multisig_iff:
  "Solver script sols = Some (True, TX_MULTISIG, sols') \<longleftrightarrow>
     (\<exists>opm vm ops opn vn. parse_script script = (multisig_ops opm vm ops opn vn, True) \<and>
        small_op opm \<and> small_op opn \<and> list_all (\<lambda>x. key_sized (snd x)) ops \<and>
        1 \<le> small_byte opm \<and> small_byte opm \<le> small_byte opn \<and> length ops = unat (small_byte opn) \<and>
        sols' = [small_byte opm] # map snd ops @ [[small_byte opn]])" (is "?L \<longleftrightarrow> ?R")
proof
  assume l: ?L
  then have "(True, TX_MULTISIG, sols') = scan_templates script mTemplates" by (rule Solver_cases) simp
  then have "match_template script [OP_SMALLINTEGER, OP_PUBKEYS, OP_SMALLINTEGER, OP_CHECKMULTISIG] [] = Some sols'"
    by (auto simp: mTemplates_eq found_match_def Let_def split: option.splits if_splits)
  then obtain opm vm ops opn vn where m: "parse_script script = (multisig_ops opm vm ops opn vn, True)"
    "small_op opm" "small_op opn" "list_all (\<lambda>x. key_sized (snd x)) ops"
    "sols' = [small_byte opm] # map snd ops @ [[small_byte opn]]"
    unfolding match_multisig by blast
  moreover from Solver_multisig [OF m(1-4), of sols] l
  have "1 \<le> small_byte opm \<and> small_byte opm \<le> small_byte opn \<and> length ops = unat (small_byte opn)" by simp
  ultimately show ?R by blast
next
  assume ?R
  then obtain opm vm ops opn vn where m: "parse_script script = (multisig_ops opm vm ops opn vn, True)"
    "small_op opm" "small_op opn" "list_all (\<lambda>x. key_sized (snd x)) ops"
    "1 \<le> small_byte opm" "small_byte opm \<le> small_byte opn" "length ops = unat (small_byte opn)"
    "sols' = [small_byte opm] # map snd ops @ [[small_byte opn]]" by blast
  moreover have "1 \<le> small_byte opn" using m(5,6) by (rule order_trans)
  ultimately show ?L using Solver_multisig [OF m(1-4), of sols] by simp
qed

section \<open>Scripts made for a destination\<close>

lemma push_data_small: "length b < 76 \<Longrightarrow> push_data s b = s @ of_nat (length b) # b"
  by (simp add: push_data_def)

lemma script_for_key: "GetScriptForDestination (CKeyID k) = p2pkh_script (uint160_bytes k)"
  by (simp add: push_data_small push_opcode_def p2pkh_script_def)

lemma script_for_script: "GetScriptForDestination (CScriptID k) = p2sh_script (uint160_bytes k)"
  by (simp add: push_data_small push_opcode_def p2sh_script_def)

lemma Solver_p2sh: "length h = 20 \<Longrightarrow> Solver (p2sh_script h) sols = Some (True, TX_SCRIPTHASH, sols @ [h])"
  by (simp add: Solver_def IsPayToScriptHash_def p2sh_script_def nth_append nth_Cons')

lemma Solver_p2pkh: "length h = 20 \<Longrightarrow> Solver (p2pkh_script h) sols = Some (True, TX_PUBKEYHASH, [h])"
  by (intro Solver_pubkeyhash) (simp_all add: parse_p2pkh_script)

lemma ExtractDestination_script:
  "d \<noteq> CNoDestination \<Longrightarrow> ExtractDestination (GetScriptForDestination d) = Some (Some d)"
  by (cases d) (simp_all add: ExtractDestination_def script_for_key script_for_script Solver_p2sh
      Solver_p2pkh del: GetScriptForDestination.simps)

lemma IsStandard_script:
  "d \<noteq> CNoDestination \<Longrightarrow> fst (the (IsStandard dc n (GetScriptForDestination d)))"
  by (cases d) (simp_all add: IsStandard_def script_for_key script_for_script Solver_p2sh
      Solver_p2pkh del: GetScriptForDestination.simps)

lemma push_keys: "foldl (\<lambda>s k. push_data s (f k)) s keys = s @ concat (map (\<lambda>k. push_data [] (f k)) keys)"
proof (induction keys arbitrary: s)
  case (Cons k ks)
  show ?case using push_data_append [of s "f k"] by (simp add: Cons.IH)
qed simp

lemma reads_pushes:
  "list_all (\<lambda>b. length b < 2 ^ 32) bs \<Longrightarrow>
   \<exists>ops. map snd ops = bs \<and> reads (concat (map (push_data []) bs) @ rest) ops rest"
proof (induction bs)
  case (Cons b bs)
  then obtain ops where o: "map snd ops = bs" "reads (concat (map (push_data []) bs) @ rest) ops rest"
    by auto
  obtain op where "\<And>rest. GetOp2 (push_data [] b @ rest) = (True, op, b, rest)"
    using GetOp2_push_data [of b] Cons.prems by auto
  then show ?case using o by (intro exI [of _ "(op, b) # ops"]) simp
qed simp

lemma EncodeOP_N_small:
  assumes "1 \<le> n" and "n \<le> 16"
  shows "EncodeOP_N n = Some (of_int (0x50 + n))" and "small_op (of_int (0x50 + n))"
    and "small_byte (of_int (0x50 + n)) = of_int n"
proof -
  have "n = 1 \<or> n = 2 \<or> n = 3 \<or> n = 4 \<or> n = 5 \<or> n = 6 \<or> n = 7 \<or> n = 8 \<or> n = 9 \<or> n = 10 \<or> n = 11 \<or>
    n = 12 \<or> n = 13 \<or> n = 14 \<or> n = 15 \<or> n = 16" using assms by presburger
  then show "EncodeOP_N n = Some (of_int (0x50 + n))" "small_op (of_int (0x50 + n))"
    "small_byte (of_int (0x50 + n)) = of_int n"
    by (elim disjE; simp add: EncodeOP_N_def small_op_def small_byte_def DecodeOP_N_def)+
qed

lemma unat_small_byte: "1 \<le> n \<Longrightarrow> n \<le> 16 \<Longrightarrow> unat (of_int n :: byte) = nat n"
  by (simp add: unat_eq_nat_uint uint_word_of_int)

lemma key_shaped_sized: "key_shaped k \<Longrightarrow> key_sized k"
  using GetLen_cases [of "k ! 0"] by (auto simp: key_shaped_def key_sized_def)

lemma Solver_GetScriptForMultisig:
  assumes "GetScriptForMultisig m keys = Some script" and "1 \<le> m" and "m \<le> int (length keys)"
    and "length keys \<le> 16" and "list_all (\<lambda>k. key_shaped (CPubKey_Raw k)) keys"
  shows "Solver script sols = Some (True, TX_MULTISIG,
    [of_int m] # map CPubKey_Raw keys @ [[of_int (int (length keys))]])"
proof -
  let ?n = "int (length keys)"
  have mn: "1 \<le> m" "m \<le> 16" "1 \<le> ?n" "?n \<le> 16" using assms by simp_all
  let ?om = "of_int (0x50 + m) :: byte" and ?on = "of_int (0x50 + ?n) :: byte"
  note e = EncodeOP_N_small [OF mn(1,2)] EncodeOP_N_small [OF mn(3,4)]
  have s: "script = ?om # concat (map (push_data []) (map CPubKey_Raw keys)) @ [?on, OP_CHECKMULTISIG]"
    using assms(1) e(1,4) by (auto simp: GetScriptForMultisig_def push_opcode_def push_keys comp_def)
  have ks: "list_all key_sized (map CPubKey_Raw keys)"
    using assms(5) by (auto simp: list.pred_map comp_def list_all_iff key_shaped_sized)
  have "list_all (\<lambda>b. length b < 2 ^ 32) (map CPubKey_Raw keys)"
    using ks by (auto simp: list_all_iff key_sized_def)
  then obtain ops where o: "map snd ops = map CPubKey_Raw keys"
    "reads (concat (map (push_data []) (map CPubKey_Raw keys)) @ [?on, OP_CHECKMULTISIG]) ops
       [?on, OP_CHECKMULTISIG]"
    using reads_pushes by blast
  have "OP_PUSHDATA4 < of_int (0x50 + n)" if "1 \<le> n" "n \<le> 16" for n
  proof -
    have "uint (of_int (0x50 + n) :: byte) = 0x50 + n" using that by (simp only: uint_word_of_int) simp
    then show ?thesis using that by (simp add: word_less_def)
  qed
  then have big: "?om > OP_PUSHDATA4" "?on > OP_PUSHDATA4" using mn by blast+
  have "reads script (multisig_ops ?om [] ops ?on []) []"
    using o(2) big by (fastforce simp: multisig_ops_def s GetOp2_opcode reads_append)
  then have p: "parse_script script = (multisig_ops ?om [] ops ?on [], True)" by (simp add: reads_all)
  have "list_all (\<lambda>x. key_sized (snd x)) ops" using ks unfolding o(1) [symmetric] by (simp add: list.pred_map comp_def)
  moreover have "length ops = length keys" using arg_cong [OF o(1), of length] by simp
  ultimately show ?thesis
    using Solver_multisig [OF p e(2,5), of sols] o(1) e(3,6) mn assms(3) unat_small_byte [OF mn(1,2)]
      unat_small_byte [OF mn(3,4)]
    by (simp add: word_le_nat_alt) linarith
qed

lemma key_destinations_shaped:
  "list_all key_shaped ks \<Longrightarrow> key_destinations ks = map (\<lambda>k. CKeyID (Hash160 k)) ks"
  by (induction ks) (simp_all add: CPubKey_IsValid_Set CPubKey_GetID_Set Let_def)

lemma ExtractDestinations_multisig:
  assumes "GetScriptForMultisig m keys = Some script" and "1 \<le> m" and "m \<le> int (length keys)"
    and "length keys \<le> 16" and "list_all (\<lambda>k. key_shaped (CPubKey_Raw k)) keys"
  shows "ExtractDestinations script =
    Some (True, TX_MULTISIG, map (\<lambda>k. CKeyID (CPubKey_GetID k)) keys, Some m)"
proof -
  have d: "key_destinations (map CPubKey_Raw keys) = map (\<lambda>k. CKeyID (CPubKey_GetID k)) keys"
    using key_destinations_shaped [of "map CPubKey_Raw keys"] assms(5)
    by (simp add: list.pred_map comp_def CPubKey_GetID_def CPubKey_Raw_def)
  have "keys \<noteq> []" using assms by auto
  moreover have "uint (of_int m :: byte) = m" using assms by (simp add: uint_word_of_int)
  ultimately show ?thesis
    by (simp add: ExtractDestinations_def Solver_GetScriptForMultisig [OF assms] d Let_def)
qed

section \<open>Consequences\<close>

text \<open>
  Solver answers TX_MULTISIG exactly for the scripts m, n keys of 33 to 65 bytes, n,
  OP_CHECKMULTISIG with 1 <= m <= n <= 16 given as small integers, and the solutions are m, the
  keys and n.
\<close>

lemma solver_multisig:
  "Solver script sols = Some (True, TX_MULTISIG, sols') \<longleftrightarrow>
     (\<exists>opm vm ops opn vn. parse_script script = (multisig_ops opm vm ops opn vn, True) \<and>
        small_op opm \<and> small_op opn \<and> list_all (\<lambda>x. key_sized (snd x)) ops \<and>
        1 \<le> small_byte opm \<and> small_byte opm \<le> small_byte opn \<and> length ops = unat (small_byte opn) \<and>
        sols' = [small_byte opm] # map snd ops @ [[small_byte opn]])"
  by (rule Solver_multisig_iff)

text \<open>
  The script GetScriptForDestination makes for a key or script hash is standard and
  ExtractDestination finds the destination in it.
\<close>

lemma destination_roundtrip:
  assumes "d \<noteq> CNoDestination"
  shows "ExtractDestination (GetScriptForDestination d) = Some (Some d) \<and>
    fst (the (IsStandard datacarrier nMaxDatacarrierBytes (GetScriptForDestination d)))"
  using ExtractDestination_script [OF assms] IsStandard_script [OF assms] by blast

end
