(* ===== verification/Block.thy ===== *)
theory Block
  imports Merkle Standard
begin

text \<open>
  Blocks (\<open>src/primitives/block.h\<close>, \<open>src/primitives/block.cpp\<close>): headers, their hash, the
  serialization, proof of stake and the signature of a block. The Quark hash of the headers
  before version 4 is C code of another library and a parameter; so is ECDSA. \<open>nVersion\<close> is a
  signed number.
\<close>

section \<open>Headers and blocks\<close>

record CBlockHeader =
  bh_nVersion :: u32
  hashPrevBlock :: uint256
  hashMerkleRoot :: uint256
  bh_nTime :: u32
  bh_nBits :: u32
  nNonce :: u32
  nAccumulatorCheckpoint :: uint256

record CBlock = CBlockHeader +
  vtx :: "CTransaction list"
  vchBlockSig :: valtype
  payee :: "byte list"
  vMerkleTree :: "uint256 list"

definition CBlockHeader_Null :: CBlockHeader where
  "CBlockHeader_Null = \<lparr>bh_nVersion = 4, hashPrevBlock = 0, hashMerkleRoot = 0, bh_nTime = 0, bh_nBits = 0,
     nNonce = 0, nAccumulatorCheckpoint = 0\<rparr>"

definition CBlock_of :: "CBlockHeader \<Rightarrow> CBlock" where
  "CBlock_of header = CBlockHeader.extend header (CBlock.fields [] [] [] [])"

definition CBlock_Null :: CBlock where
  "CBlock_Null = CBlock_of CBlockHeader_Null"

definition CBlockHeader_IsNull :: "'a CBlockHeader_scheme \<Rightarrow> bool" where
  "CBlockHeader_IsNull h \<longleftrightarrow> bh_nBits h = 0"

definition GetBlockHeader :: "CBlock \<Rightarrow> CBlockHeader" where
  "GetBlockHeader b = \<lparr>bh_nVersion = bh_nVersion b, hashPrevBlock = hashPrevBlock b, hashMerkleRoot = hashMerkleRoot b,
     bh_nTime = bh_nTime b, bh_nBits = bh_nBits b, nNonce = nNonce b, nAccumulatorCheckpoint = nAccumulatorCheckpoint b\<rparr>"

text \<open>The members from \<open>nVersion\<close> to \<open>nNonce\<close>, as they lie in memory.\<close>

definition header_bytes :: "'a CBlockHeader_scheme \<Rightarrow> byte list" where
  "header_bytes h = ser_u32 (bh_nVersion h) @ uint256_bytes (hashPrevBlock h) @ uint256_bytes (hashMerkleRoot h) @
     ser_u32 (bh_nTime h) @ ser_u32 (bh_nBits h) @ ser_u32 (nNonce h)"

definition CBlockHeader_GetHash :: "(byte list \<Rightarrow> uint256) \<Rightarrow> 'a CBlockHeader_scheme \<Rightarrow> uint256" where
  "CBlockHeader_GetHash HashQuark h =
     (if bh_nVersion h <s 4 then HashQuark (header_bytes h)
      else Hash (header_bytes h @ uint256_bytes (nAccumulatorCheckpoint h)))"

definition ser_CBlockHeader :: "'a CBlockHeader_scheme \<Rightarrow> byte list" where
  "ser_CBlockHeader h = header_bytes h @
     (if 3 <s bh_nVersion h then uint256_bytes (nAccumulatorCheckpoint h) else [])"

text \<open>Into a header that was just made.\<close>

definition unser_CBlockHeader :: "CBlockHeader reader" where
  "unser_CBlockHeader s =
     and_then (unser_u32 s) (\<lambda>(ver, s).
     and_then (unser_uint256 s) (\<lambda>(prev, s).
     and_then (unser_uint256 s) (\<lambda>(root, s).
     and_then (unser_u32 s) (\<lambda>(time, s).
     and_then (unser_u32 s) (\<lambda>(bits, s).
     and_then (unser_u32 s) (\<lambda>(nonce, s).
     and_then (if 3 <s ver then unser_uint256 s else Inr (nAccumulatorCheckpoint CBlockHeader_Null, s)) (\<lambda>(check, s).
     Inr (\<lparr>bh_nVersion = ver, hashPrevBlock = prev, hashMerkleRoot = root, bh_nTime = time, bh_nBits = bits,
       nNonce = nonce, nAccumulatorCheckpoint = check\<rparr>, s))))))))"

definition IsProofOfStake :: "CBlock \<Rightarrow> bool" where
  "IsProofOfStake b \<longleftrightarrow> length (vtx b) > 1 \<and> IsCoinStake (vtx b ! 1)"

definition IsProofOfWork :: "CBlock \<Rightarrow> bool" where
  "IsProofOfWork b \<longleftrightarrow> \<not> IsProofOfStake b"

definition GetProofOfStake :: "CBlock \<Rightarrow> COutPoint \<times> u32" where
  "GetProofOfStake b =
     (if IsProofOfStake b then (prevout (vin (vtx b ! 1) ! 0), bh_nTime b) else (COutPoint_Null, 0))"

definition ser_CBlock :: "CBlock \<Rightarrow> byte list" where
  "ser_CBlock b = ser_CBlockHeader b @ ser_vector ser_tx (vtx b) @
     (if length (vtx b) > 1 \<and> IsCoinStake (vtx b ! 1) then ser_bytes (vchBlockSig b) else [])"

definition unser_CBlock :: "CBlock reader" where
  "unser_CBlock s =
     and_then (unser_CBlockHeader s) (\<lambda>(header, s).
     and_then (unser_vector unser_CTransaction s) (\<lambda>(txs, s).
     and_then (if length txs > 1 \<and> IsCoinStake (txs ! 1) then unser_bytes s else Inr ([], s)) (\<lambda>(sig, s).
     Inr ((CBlock_of header)\<lparr>vtx := txs, vchBlockSig := sig\<rparr>, s))))"

section \<open>The signature of a block\<close>

text \<open>\<open>None\<close> stands for an index out of range or the failure of \<open>Solver\<close>; \<open>buf\<close> is the memory of
  the local key.\<close>

definition CheckBlockSignature ::
    "ecdsa_verify \<Rightarrow> (byte list \<Rightarrow> uint256) \<Rightarrow> CPubKey \<Rightarrow> CBlock \<Rightarrow> bool option" where
  "CheckBlockSignature ecdsa HashQuark buf b =
     (if IsProofOfWork b then Some (vchBlockSig b = [])
      else if length (vout (vtx b ! 1)) \<le> 1 then None
      else
        (case Solver (scriptPubKey (vout (vtx b ! 1) ! 1)) [] of
           None \<Rightarrow> None
         | Some (False, _, _) \<Rightarrow> Some False
         | Some (True, whichType, vSolutions) \<Rightarrow>
             if whichType = TX_PUBKEY \<or> whichType = TX_PUBKEYHASH then
               (if vSolutions = [] then None
                else
                  (let pubkey = CPubKey_Set buf (vSolutions ! 0)
                   in if \<not> CPubKey_IsValid pubkey then Some False
                      else if vchBlockSig b = [] then Some False
                      else Some (CPubKey_Verify ecdsa pubkey (CBlockHeader_GetHash HashQuark b) (vchBlockSig b))))
             else Some False))"

section \<open>Serialization\<close>

definition wf_header :: "'a CBlockHeader_scheme \<Rightarrow> bool" where
  "wf_header h \<longleftrightarrow> (\<not> 3 <s bh_nVersion h \<longrightarrow> nAccumulatorCheckpoint h = 0)"

interpretation header: codec ser_CBlockHeader unser_CBlockHeader wf_header
proof
  show "wf_header h \<Longrightarrow> unser_CBlockHeader (ser_CBlockHeader h @ r) = Inr (h, r)" for h :: CBlockHeader and r
    by (cases h) (simp add: unser_CBlockHeader_def ser_CBlockHeader_def header_bytes_def wf_header_def
        u32.unser_ser u256.elem.unser_ser CBlockHeader_Null_def)
  show "unser_CBlockHeader s = Inr (h, r) \<Longrightarrow> wf_header h \<and> s = ser_CBlockHeader h @ r" for s h r
    by (auto simp: unser_CBlockHeader_def ser_CBlockHeader_def header_bytes_def wf_header_def and_then_Inr_iff
        u32.unser_iff u256.elem.unser_iff CBlockHeader_Null_def split: if_splits)
qed

interpretation txs: vector_codec ser_tx unser_CTransaction "\<lambda>tx. wf_tx tx \<and> hash_ok tx"
  by unfold_locales

definition wf_block :: "CBlock \<Rightarrow> bool" where
  "wf_block b \<longleftrightarrow> wf_header b \<and> length (vtx b) \<le> MAX_SIZE \<and> list_all (\<lambda>tx. wf_tx tx \<and> hash_ok tx) (vtx b) \<and>
     (if IsProofOfStake b then length (vchBlockSig b) \<le> MAX_SIZE else vchBlockSig b = []) \<and>
     payee b = [] \<and> vMerkleTree b = []"

lemma ser_header_of_block: "ser_CBlockHeader (GetBlockHeader b) = ser_CBlockHeader b"
  by (simp add: ser_CBlockHeader_def header_bytes_def GetBlockHeader_def)

lemma CBlock_of_header:
  "payee b = [] \<Longrightarrow> vMerkleTree b = [] \<Longrightarrow>
    (CBlock_of (GetBlockHeader b))\<lparr>vtx := vtx b, vchBlockSig := vchBlockSig b\<rparr> = b"
  by (cases b) (simp add: CBlock_of_def GetBlockHeader_def CBlockHeader.defs CBlock.defs)

lemma CBlock_of_fields [simp]:
  "bh_nVersion (CBlock_of h) = bh_nVersion h" "hashPrevBlock (CBlock_of h) = hashPrevBlock h"
  "hashMerkleRoot (CBlock_of h) = hashMerkleRoot h" "bh_nTime (CBlock_of h) = bh_nTime h"
  "bh_nBits (CBlock_of h) = bh_nBits h" "nNonce (CBlock_of h) = nNonce h"
  "nAccumulatorCheckpoint (CBlock_of h) = nAccumulatorCheckpoint h"
  "vtx (CBlock_of h) = []" "vchBlockSig (CBlock_of h) = []" "payee (CBlock_of h) = []"
  "vMerkleTree (CBlock_of h) = []"
  by (simp_all add: CBlock_of_def CBlockHeader.defs CBlock.defs)

lemma wf_GetBlockHeader: "wf_header (GetBlockHeader b) \<longleftrightarrow> wf_header b"
  by (simp add: wf_header_def GetBlockHeader_def)

lemma ser_read_block:
  "ser_CBlockHeader ((CBlock_of h)\<lparr>vtx := txs, vchBlockSig := sig\<rparr>) = ser_CBlockHeader h"
  by (simp add: ser_CBlockHeader_def header_bytes_def)

lemma wf_read_block:
  "wf_header ((CBlock_of h)\<lparr>vtx := txs, vchBlockSig := sig\<rparr>) \<longleftrightarrow> wf_header h"
  by (simp add: wf_header_def)

interpretation block: codec ser_CBlock unser_CBlock wf_block
proof
  show "wf_block b \<Longrightarrow> unser_CBlock (ser_CBlock b @ r) = Inr (b, r)" for b r
  proof -
    assume b: "wf_block b"
    then have "wf_header (GetBlockHeader b)" by (simp add: wf_block_def wf_GetBlockHeader)
    then have h: "unser_CBlockHeader (ser_CBlockHeader b @ s) = Inr (GetBlockHeader b, s)" for s
      using header.unser_ser [of "GetBlockHeader b" s] by (simp add: ser_header_of_block)
    have t: "unser_vector unser_CTransaction (ser_vector ser_tx (vtx b) @ s) = Inr (vtx b, s)" for s
      using b by (intro txs.vec.unser_ser) (simp add: wf_block_def)
    show ?thesis
      using b CBlock_of_header [of b]
      by (auto simp: unser_CBlock_def ser_CBlock_def h t bytes.unser_ser wf_block_def IsProofOfStake_def)
  qed
  show "unser_CBlock s = Inr (b, r) \<Longrightarrow> wf_block b \<and> s = ser_CBlock b @ r" for s b r
  proof -
    let ?stake = "\<lambda>txs :: CTransaction list. length txs > 1 \<and> IsCoinStake (txs ! 1)"
    assume "unser_CBlock s = Inr (b, r)"
    then obtain h t txs t' sig where h: "unser_CBlockHeader s = Inr (h, t)"
      and t: "unser_vector unser_CTransaction t = Inr (txs, t')"
      and g: "(if ?stake txs then unser_bytes t' else Inr ([], t')) = Inr (sig, r)"
      and b: "b = (CBlock_of h)\<lparr>vtx := txs, vchBlockSig := sig\<rparr>"
      by (fastforce simp: unser_CBlock_def and_then_Inr_iff)
    have "wf_block b"
      using h t g by (auto simp: b wf_block_def wf_read_block IsProofOfStake_def header.unser_iff txs.vec.unser_iff
          bytes.unser_iff split: if_splits)
    moreover have "s = ser_CBlockHeader h @ ser_vector ser_tx txs @ t'"
      using h t by (simp add: header.unser_iff txs.vec.unser_iff)
    moreover have "t' = (if ?stake txs then ser_bytes sig else []) @ r"
      using g by (auto simp: bytes.unser_iff split: if_splits)
    ultimately show ?thesis by (simp add: ser_CBlock_def b ser_read_block)
  qed
qed

section \<open>Which blocks pass the check of their signature\<close>

text \<open>The script that \<open>CheckBlockSignature\<close> looks at.\<close>

abbreviation stake_script :: "CBlock \<Rightarrow> byte list" where
  "stake_script b \<equiv> scriptPubKey (vout (vtx b ! 1) ! 1)"

lemma key_shaped_length: "key_shaped data \<Longrightarrow> length data = 33 \<or> length data = 65"
  using GetLen_cases [of "data ! 0"] by (auto simp: key_shaped_def)

lemma check_stake_signature:
  assumes "IsProofOfStake b" and "length buf = 65"
  shows "CheckBlockSignature ecdsa HashQuark buf b = Some True \<longleftrightarrow>
    (\<exists>op k. parse_script (stake_script b) = ([(op, k), (OP_CHECKSIG, [])], True) \<and> key_shaped k \<and>
       vchBlockSig b \<noteq> [] \<and> ecdsa (CBlockHeader_GetHash HashQuark b) (vchBlockSig b) k)"
    (is "?L \<longleftrightarrow> ?R")
proof
  have g: "\<not> IsProofOfWork b" "\<not> length (vout (vtx b ! 1)) \<le> 1"
    using assms(1) by (auto simp: IsProofOfWork_def IsProofOfStake_def IsCoinStake_def Let_def split: if_splits)
  note d = CheckBlockSignature_def CPubKey_Verify_Set [OF assms(2)] CPubKey_IsValid_Set [OF assms(2)] Let_def
  {
    assume ?L
    then obtain t sols where s: "Solver (stake_script b) [] = Some (True, t, sols)"
      and t: "t = TX_PUBKEY \<or> t = TX_PUBKEYHASH" and k: "sols \<noteq> []" "key_shaped (sols ! 0)"
      and v: "vchBlockSig b \<noteq> []" "ecdsa (CBlockHeader_GetHash HashQuark b) (vchBlockSig b) (sols ! 0)"
      using g by (auto simp: d split: option.splits bool.splits if_splits)
    have "t \<noteq> TX_PUBKEYHASH"
      using s k(2) key_shaped_length [of "sols ! 0"] by (auto simp: Solver_pubkeyhash_iff)
    then show ?R using s t k v by (auto simp: Solver_pubkey_iff)
  next
    assume ?R
    then obtain k where "Solver (stake_script b) [] = Some (True, TX_PUBKEY, [k])" and "key_shaped k"
      and "vchBlockSig b \<noteq> []" and "ecdsa (CBlockHeader_GetHash HashQuark b) (vchBlockSig b) k"
      using key_shaped_length by (force simp: Solver_pubkey_iff key_sized_def)
    then show ?L using g by (simp add: d)
  }
qed

text \<open>A block with a coinstake whose second output pays to a key.\<close>

definition stake_key :: "byte list" where
  "stake_key = 2 # replicate 32 7"

definition stake_block :: CBlock where
  "stake_block =
     (let coinstake = CTransaction_of \<lparr>nVersion = 1, vin = [CTxIn_of (COutPoint.make 3 0) [] 0],
            vout = [CTxOut_of 0 [], CTxOut_of 5 (33 # stake_key @ [OP_CHECKSIG])], nLockTime = 0\<rparr>
      in CBlock_Null\<lparr>vtx := [coinstake, coinstake], vchBlockSig := [1]\<rparr>)"

lemma stake_block_ok:
  "IsProofOfStake stake_block" "vchBlockSig stake_block = [1]"
  "parse_script (stake_script stake_block) = ([(33, stake_key), (OP_CHECKSIG, [])], True)" "key_shaped stake_key"
proof -
  show "IsProofOfStake stake_block" "vchBlockSig stake_block = [1]"
    by (simp_all add: stake_block_def IsProofOfStake_def IsCoinStake_def CTransaction_of_def UpdateHash_def
        CTxIn_of_def CTxOut_of_def COutPoint_IsNull_def COutPoint.make_def CTxOut_IsEmpty_def Let_def)
  have "stake_script stake_block = 33 # stake_key @ [OP_CHECKSIG]"
    by (simp add: stake_block_def CTransaction_of_def UpdateHash_def CTxOut_of_def Let_def)
  moreover have "parse_script (33 # stake_key @ [OP_CHECKSIG]) = ([(33, stake_key), (OP_CHECKSIG, [])], True)"
    by code_simp
  ultimately show "parse_script (stake_script stake_block) = ([(33, stake_key), (OP_CHECKSIG, [])], True)" by simp
  show "key_shaped stake_key" by code_simp
qed

section \<open>Properties\<close>

text \<open>
  C24. CheckBlockSignature passes a block without a coinstake exactly when it has no signature,
  and one with a coinstake exactly when the second output of the coinstake pays to a public key of
  the right shape and the non-empty signature verifies for the block hash under it: a stake paid
  to a public key hash never passes.
\<close>

theorem check_block_signature:
  assumes "length buf = 65"
  shows "CheckBlockSignature ecdsa HashQuark buf b = Some True \<longleftrightarrow>
    (if IsProofOfStake b then
       \<exists>op k. parse_script (stake_script b) = ([(op, k), (OP_CHECKSIG, [])], True) \<and> key_shaped k \<and>
         vchBlockSig b \<noteq> [] \<and> ecdsa (CBlockHeader_GetHash HashQuark b) (vchBlockSig b) k
     else vchBlockSig b = [])"
proof (cases "IsProofOfStake b")
  case True
  then show ?thesis using check_stake_signature [OF True assms] by simp
qed (simp add: CheckBlockSignature_def IsProofOfWork_def)

theorem check_block_signature_witness:
  "CheckBlockSignature (\<lambda>h sig k. sig = [1]) (\<lambda>h. 0) (replicate 65 0) stake_block = Some True"
  using check_block_signature [of "replicate 65 0" "\<lambda>h sig k. sig = [1]" "\<lambda>h. 0" stake_block] stake_block_ok by auto

end
