(* ===== verification/Bloom.thy ===== *)
theory Bloom
  imports PartialMerkle Block
begin

text \<open>
  Bloom filters (\<open>src/bloom.h\<close>, \<open>src/bloom.cpp\<close>) and the filtered blocks that are made with them
  (\<open>CMerkleBlock\<close> of \<open>src/merkleblock.h\<close>, \<open>src/merkleblock.cpp\<close>). The constructor that computes the
  size of a filter with floating point logarithms is not modelled: a node gets its filters from
  the stream.
\<close>

section \<open>The filter\<close>

definition MAX_BLOOM_FILTER_SIZE :: nat where
  "MAX_BLOOM_FILTER_SIZE = 36000"

definition MAX_HASH_FUNCS :: u32 where
  "MAX_HASH_FUNCS = 50"

abbreviation "BLOOM_UPDATE_NONE \<equiv> 0 :: byte"
abbreviation "BLOOM_UPDATE_ALL \<equiv> 1 :: byte"
abbreviation "BLOOM_UPDATE_P2PUBKEY_ONLY \<equiv> 2 :: byte"
abbreviation "BLOOM_UPDATE_MASK \<equiv> 3 :: byte"

record CBloomFilter =
  vData :: "byte list"
  isFull :: bool
  isEmpty :: bool
  nHashFuncs :: u32
  nTweak :: u32
  nFlags :: byte

definition CBloomFilter_new :: CBloomFilter where
  "CBloomFilter_new = \<lparr>vData = [], isFull = True, isEmpty = False, nHashFuncs = 0, nTweak = 0, nFlags = 0\<rparr>"

text \<open>\<open>None\<close> is the division by zero of a filter without bytes.\<close>

definition bloom_Hash :: "CBloomFilter \<Rightarrow> nat \<Rightarrow> byte list \<Rightarrow> nat option" where
  "bloom_Hash f nHashNum vDataToHash =
     (if vData f = [] then None
      else Some (unat (MurmurHash3 (of_nat nHashNum * 0xFBA4C795 + nTweak f) vDataToHash) mod (length (vData f) * 8)))"

fun insert_loop :: "byte list \<Rightarrow> nat list \<Rightarrow> CBloomFilter \<Rightarrow> CBloomFilter option" where
  "insert_loop vKey [] f = Some f"
| "insert_loop vKey (i # js) f =
     (case bloom_Hash f i vKey of
        None \<Rightarrow> None
      | Some nIndex \<Rightarrow>
          (let k = drop_bit 3 nIndex
           in insert_loop vKey js
                (f\<lparr>vData := (vData f)[k := vData f ! k OR push_bit (7 AND nIndex) 1]\<rparr>)))"

definition bloom_insert :: "CBloomFilter \<Rightarrow> byte list \<Rightarrow> CBloomFilter option" where
  "bloom_insert f vKey =
     (if isFull f then Some f
      else map_option (\<lambda>f. f\<lparr>isEmpty := False\<rparr>) (insert_loop vKey [0..<unat (nHashFuncs f)] f))"

definition bloom_insert_outpoint :: "CBloomFilter \<Rightarrow> COutPoint \<Rightarrow> CBloomFilter option" where
  "bloom_insert_outpoint f p = bloom_insert f (ser_COutPoint p)"

definition bloom_insert_hash :: "CBloomFilter \<Rightarrow> uint256 \<Rightarrow> CBloomFilter option" where
  "bloom_insert_hash f h = bloom_insert f (uint256_bytes h)"

fun contains_loop :: "byte list \<Rightarrow> nat list \<Rightarrow> CBloomFilter \<Rightarrow> bool option" where
  "contains_loop vKey [] f = Some True"
| "contains_loop vKey (i # js) f =
     (case bloom_Hash f i vKey of
        None \<Rightarrow> None
      | Some nIndex \<Rightarrow>
          if vData f ! drop_bit 3 nIndex AND push_bit (7 AND nIndex) 1 = 0 then Some False
          else contains_loop vKey js f)"

definition bloom_contains :: "CBloomFilter \<Rightarrow> byte list \<Rightarrow> bool option" where
  "bloom_contains f vKey =
     (if isFull f then Some True
      else if isEmpty f then Some False
      else contains_loop vKey [0..<unat (nHashFuncs f)] f)"

definition bloom_contains_outpoint :: "CBloomFilter \<Rightarrow> COutPoint \<Rightarrow> bool option" where
  "bloom_contains_outpoint f p = bloom_contains f (ser_COutPoint p)"

definition bloom_contains_hash :: "CBloomFilter \<Rightarrow> uint256 \<Rightarrow> bool option" where
  "bloom_contains_hash f h = bloom_contains f (uint256_bytes h)"

definition bloom_clear :: "CBloomFilter \<Rightarrow> CBloomFilter" where
  "bloom_clear f = f\<lparr>vData := replicate (length (vData f)) 0, isFull := False, isEmpty := True\<rparr>"

definition IsWithinSizeConstraints :: "CBloomFilter \<Rightarrow> bool" where
  "IsWithinSizeConstraints f \<longleftrightarrow> length (vData f) \<le> MAX_BLOOM_FILTER_SIZE \<and> nHashFuncs f \<le> MAX_HASH_FUNCS"

definition UpdateEmptyFull :: "CBloomFilter \<Rightarrow> CBloomFilter" where
  "UpdateEmptyFull f =
     f\<lparr>isFull := list_all (\<lambda>b. b = 0xff) (vData f), isEmpty := list_all (\<lambda>b. b = 0) (vData f)\<rparr>"

definition ser_CBloomFilter :: "CBloomFilter \<Rightarrow> byte list" where
  "ser_CBloomFilter f = ser_bytes (vData f) @ ser_u32 (nHashFuncs f) @ ser_u32 (nTweak f) @ [nFlags f]"

text \<open>Into a filter made by the default constructor.\<close>

definition unser_CBloomFilter :: "CBloomFilter reader" where
  "unser_CBloomFilter s =
     and_then (unser_bytes s) (\<lambda>(d, s).
     and_then (unser_u32 s) (\<lambda>(n, s).
     and_then (unser_u32 s) (\<lambda>(t, s).
     and_then (stream_read 1 s) (\<lambda>(b, s).
     Inr (CBloomFilter_new\<lparr>vData := d, nHashFuncs := n, nTweak := t, nFlags := b ! 0\<rparr>, s)))))"

section \<open>Transactions\<close>

text \<open>The loop over the operations of an output script: is a data element contained?\<close>

function script_data_loop :: "CBloomFilter \<Rightarrow> byte list \<Rightarrow> bool option" where
  "script_data_loop f pc =
     (if pc = [] then Some False
      else case GetOp2 pc of
        (False, _, _, _) \<Rightarrow> Some False
      | (True, opcode, data, pc') \<Rightarrow>
          (if length data = 0 then script_data_loop f pc'
           else case bloom_contains f data of
             None \<Rightarrow> None
           | Some True \<Rightarrow> Some True
           | Some False \<Rightarrow> script_data_loop f pc'))"
  by pat_completeness auto
termination
  by (relation "measure (\<lambda>(f, pc). length pc)") (auto dest!: GetOp2_True_shorter [OF sym])

declare script_data_loop.simps [simp del]

text \<open>What is added to the filter for an output that matched.\<close>

definition update_filter :: "CBloomFilter \<Rightarrow> byte list \<Rightarrow> COutPoint \<Rightarrow> CBloomFilter option" where
  "update_filter f script p =
     (if nFlags f AND BLOOM_UPDATE_MASK = BLOOM_UPDATE_ALL then bloom_insert_outpoint f p
      else if nFlags f AND BLOOM_UPDATE_MASK = BLOOM_UPDATE_P2PUBKEY_ONLY then
        (case Solver script [] of
           None \<Rightarrow> None
         | Some (r, type, _) \<Rightarrow>
             if r \<and> (type = TX_PUBKEY \<or> type = TX_MULTISIG) then bloom_insert_outpoint f p else Some f)
      else Some f)"

fun outputs_loop :: "uint256 \<Rightarrow> (nat \<times> CTxOut) list \<Rightarrow> bool \<Rightarrow> CBloomFilter \<Rightarrow> (bool \<times> CBloomFilter) option" where
  "outputs_loop h [] fFound f = Some (fFound, f)"
| "outputs_loop h ((i, txout) # outs) fFound f =
     (case script_data_loop f (scriptPubKey txout) of
        None \<Rightarrow> None
      | Some False \<Rightarrow> outputs_loop h outs fFound f
      | Some True \<Rightarrow>
          (case update_filter f (scriptPubKey txout) (COutPoint.make h (of_nat i)) of
             None \<Rightarrow> None
           | Some f \<Rightarrow> outputs_loop h outs True f))"

fun inputs_loop :: "CBloomFilter \<Rightarrow> CTxIn list \<Rightarrow> bool option" where
  "inputs_loop f [] = Some False"
| "inputs_loop f (txin # ins) =
     (case bloom_contains_outpoint f (prevout txin) of
        None \<Rightarrow> None
      | Some True \<Rightarrow> Some True
      | Some False \<Rightarrow>
          (case script_data_loop f (scriptSig txin) of
             None \<Rightarrow> None
           | Some True \<Rightarrow> Some True
           | Some False \<Rightarrow> inputs_loop f ins))"

definition IsRelevantAndUpdate :: "CBloomFilter \<Rightarrow> CTransaction \<Rightarrow> (bool \<times> CBloomFilter) option" where
  "IsRelevantAndUpdate f tx =
     (if isFull f then Some (True, f)
      else if isEmpty f then Some (False, f)
      else
        (case bloom_contains_hash f (tx_hash tx) of
           None \<Rightarrow> None
         | Some fFound \<Rightarrow>
             (case outputs_loop (tx_hash tx) (zip [0..<length (vout tx)] (vout tx)) fFound f of
                None \<Rightarrow> None
              | Some (fFound, f) \<Rightarrow>
                  if fFound then Some (True, f) else map_option (\<lambda>r. (r, f)) (inputs_loop f (vin tx)))))"

section \<open>Filtered blocks\<close>

record CMerkleBlock =
  mb_header :: CBlockHeader
  mb_txn :: CPartialMerkleTree
  vMatchedTxn :: "(nat \<times> uint256) list"

fun filter_loop ::
    "(nat \<times> CTransaction) list \<Rightarrow> CBloomFilter \<Rightarrow> (bool list \<times> (nat \<times> uint256) list \<times> CBloomFilter) option" where
  "filter_loop [] f = Some ([], [], f)"
| "filter_loop ((i, tx) # txs) f =
     (case IsRelevantAndUpdate f tx of
        None \<Rightarrow> None
      | Some (r, f) \<Rightarrow>
          (case filter_loop txs f of
             None \<Rightarrow> None
           | Some (vMatch, hits, f) \<Rightarrow>
               Some (r # vMatch, (if r then [(i, tx_hash tx)] else []) @ hits, f)))"

definition CMerkleBlock_of :: "CBlock \<Rightarrow> CBloomFilter \<Rightarrow> (CMerkleBlock \<times> CBloomFilter) option" where
  "CMerkleBlock_of b f =
     (case filter_loop (zip [0..<length (vtx b)] (vtx b)) f of
        None \<Rightarrow> None
      | Some (vMatch, hits, f) \<Rightarrow>
          map_option (\<lambda>t. (\<lparr>mb_header = GetBlockHeader b, mb_txn = t, vMatchedTxn = hits\<rparr>, f))
            (CPartialMerkleTree_of (map tx_hash (vtx b)) vMatch))"

definition ser_CMerkleBlock :: "CMerkleBlock \<Rightarrow> byte list" where
  "ser_CMerkleBlock m = ser_CBlockHeader (mb_header m) @ ser_CPartialMerkleTree (mb_txn m)"

text \<open>The matched transactions are not sent.\<close>

definition unser_CMerkleBlock :: "CMerkleBlock reader" where
  "unser_CMerkleBlock s =
     and_then (unser_CBlockHeader s) (\<lambda>(header, s).
     and_then (unser_CPartialMerkleTree s) (\<lambda>(t, s).
     Inr (\<lparr>mb_header = header, mb_txn = t, vMatchedTxn = []\<rparr>, s)))"

section \<open>A filter has no false negatives\<close>

definition bloom_ok :: "CBloomFilter \<Rightarrow> bool" where
  "bloom_ok f \<longleftrightarrow> vData f \<noteq> [] \<or> isFull f \<or> nHashFuncs f = 0"

lemma bloom_ok_new: "bloom_ok CBloomFilter_new"
  by (simp add: bloom_ok_def CBloomFilter_new_def)

lemma bloom_ok_UpdateEmptyFull: "bloom_ok (UpdateEmptyFull f)"
  by (simp add: bloom_ok_def UpdateEmptyFull_def)

text \<open>The bits of a key, and the filters that have them.\<close>

definition bloom_bits :: "CBloomFilter \<Rightarrow> byte list \<Rightarrow> nat list" where
  "bloom_bits f vKey = map (\<lambda>i. unat (MurmurHash3 (of_nat i * 0xFBA4C795 + nTweak f) vKey) mod (length (vData f) * 8))
     [0..<unat (nHashFuncs f)]"

definition has_bit :: "byte list \<Rightarrow> nat \<Rightarrow> bool" where
  "has_bit v n \<longleftrightarrow> bit (v ! (n div 8)) (n mod 8)"

definition set_bit_at :: "byte list \<Rightarrow> nat \<Rightarrow> byte list" where
  "set_bit_at v n = v[n div 8 := v ! (n div 8) OR push_bit (n mod 8) 1]"

definition bloom_has :: "CBloomFilter \<Rightarrow> byte list \<Rightarrow> bool" where
  "bloom_has f vKey \<longleftrightarrow> isFull f \<or> \<not> isEmpty f \<and> list_all (has_bit (vData f)) (bloom_bits f vKey)"

lemma low_three_bits: "7 AND n = n mod (8 :: nat)"
  using take_bit_eq_mask [of 3 n] by (simp add: take_bit_eq_mod mask_eq_exp_minus_1 and.commute)

lemma test_bit: "w AND push_bit m 1 = 0 \<longleftrightarrow> \<not> bit w m" if "m < 8" for w :: byte
proof -
  have "w AND push_bit m 1 = (if bit w m then push_bit m 1 else 0)"
    using that by (auto intro!: bit_word_eqI simp: bit_simps simp del: push_bit_of_1)
  moreover have "push_bit m (1 :: byte) \<noteq> 0"
  proof
    assume "push_bit m (1 :: byte) = 0"
    moreover have "bit (push_bit m (1 :: byte)) m" using that by (simp add: bit_simps)
    ultimately show False by (simp del: push_bit_of_1)
  qed
  ultimately show ?thesis by simp
qed

lemma has_bit_set: "m div 8 < length v \<Longrightarrow> has_bit (set_bit_at v m) n \<longleftrightarrow> has_bit v n \<or> n = m"
proof -
  assume m: "m div 8 < length v"
  show ?thesis
  proof (cases "n div 8 = m div 8")
    case True
    then have "n = m \<longleftrightarrow> n mod 8 = m mod 8" by (metis div_mult_mod_eq)
    moreover have "bit (push_bit (m mod 8) (1 :: byte)) (n mod 8) \<longleftrightarrow> n mod 8 = m mod 8"
      by (auto simp: bit_simps)
    ultimately show ?thesis using True m by (auto simp: has_bit_def set_bit_at_def bit_or_iff)
  next
    case False
    then show ?thesis by (auto simp: has_bit_def set_bit_at_def)
  qed
qed

lemma length_set_bit_at [simp]: "length (set_bit_at v n) = length v" "set_bit_at v n = [] \<longleftrightarrow> v = []"
  by (simp_all add: set_bit_at_def)

lemma has_bit_fold:
  "\<forall>m \<in> set ns. m div 8 < length v \<Longrightarrow> has_bit (fold (\<lambda>m v. set_bit_at v m) ns v) n \<longleftrightarrow> has_bit v n \<or> n \<in> set ns"
  by (induction ns arbitrary: v) (auto simp: has_bit_set)

lemma length_fold_set_bit: "length (fold (\<lambda>m v. set_bit_at v m) ns v) = length v"
  by (induction ns arbitrary: v) auto

lemma insert_loop_bits:
  "vData f \<noteq> [] \<Longrightarrow> insert_loop vKey js f = Some (f\<lparr>vData := fold (\<lambda>m v. set_bit_at v m)
    (map (\<lambda>i. unat (MurmurHash3 (of_nat i * 0xFBA4C795 + nTweak f) vKey) mod (length (vData f) * 8)) js) (vData f)\<rparr>)"
proof (induction js arbitrary: f)
  case (Cons i js)
  let ?n = "unat (MurmurHash3 (of_nat i * 0xFBA4C795 + nTweak f) vKey) mod (length (vData f) * 8)"
  have s: "(vData f)[drop_bit 3 ?n := vData f ! drop_bit 3 ?n OR push_bit (7 AND ?n) 1] = set_bit_at (vData f) ?n"
    by (simp only: set_bit_at_def low_three_bits drop_bit_eq_div) simp
  have "vData (f\<lparr>vData := set_bit_at (vData f) ?n\<rparr>) \<noteq> []"
    using Cons.prems by simp
  from Cons.IH [OF this] show ?case
    using Cons.prems by (simp add: bloom_Hash_def Let_def s del: push_bit_of_1)
qed simp

lemma contains_loop_bits:
  "vData f \<noteq> [] \<Longrightarrow> contains_loop vKey js f = Some (list_all (has_bit (vData f))
    (map (\<lambda>i. unat (MurmurHash3 (of_nat i * 0xFBA4C795 + nTweak f) vKey) mod (length (vData f) * 8)) js))"
proof (induction js)
  case (Cons i js)
  let ?n = "unat (MurmurHash3 (of_nat i * 0xFBA4C795 + nTweak f) vKey) mod (length (vData f) * 8)"
  have "vData f ! drop_bit 3 ?n AND push_bit (7 AND ?n) 1 = 0 \<longleftrightarrow> \<not> has_bit (vData f) ?n"
    using test_bit [of "?n mod 8" "vData f ! (?n div 8)"]
    by (simp only: has_bit_def low_three_bits drop_bit_eq_div) simp
  then show ?case using Cons by (simp add: bloom_Hash_def del: push_bit_of_1)
qed simp

lemma bloom_bits_range: "vData f \<noteq> [] \<Longrightarrow> n \<in> set (bloom_bits f vKey) \<Longrightarrow> n div 8 < length (vData f)"
  by (auto simp: bloom_bits_def less_mult_imp_div_less)

lemma bloom_contains_has:
  assumes "bloom_ok f"
  shows "bloom_contains f vKey = Some (bloom_has f vKey)"
proof (cases "vData f = []")
  case True
  then have "isFull f \<or> bloom_bits f vKey = [] \<and> unat (nHashFuncs f) = 0"
    using assms by (auto simp: bloom_ok_def bloom_bits_def)
  then show ?thesis by (auto simp: bloom_contains_def bloom_has_def)
qed (simp add: bloom_contains_def bloom_has_def bloom_bits_def contains_loop_bits)

lemma bloom_insert_ok:
  assumes "bloom_ok f"
  shows "\<exists>f'. bloom_insert f vKey = Some f' \<and> bloom_ok f' \<and> isFull f' = isFull f \<and> nFlags f' = nFlags f \<and>
    bloom_has f' vKey \<and> (\<forall>k. bloom_has f k \<longrightarrow> bloom_has f' k)"
proof (cases "isFull f \<or> vData f = []")
  case True
  then have "isFull f \<or> unat (nHashFuncs f) = 0" using assms by (auto simp: bloom_ok_def)
  then show ?thesis using assms True by (auto simp: bloom_insert_def bloom_has_def bloom_bits_def bloom_ok_def)
next
  case False
  let ?v = "fold (\<lambda>m v. set_bit_at v m) (bloom_bits f vKey) (vData f)"
  let ?f = "f\<lparr>vData := ?v, isEmpty := False\<rparr>"
  have i: "bloom_insert f vKey = Some ?f"
    using False by (simp add: bloom_insert_def insert_loop_bits bloom_bits_def)
  have l: "length ?v = length (vData f)" by (rule length_fold_set_bit)
  then have b: "bloom_bits ?f k = bloom_bits f k" for k by (simp add: bloom_bits_def)
  have "?v \<noteq> []" using False l by (metis length_0_conv)
  moreover have "has_bit ?v n \<longleftrightarrow> has_bit (vData f) n \<or> n \<in> set (bloom_bits f vKey)" for n
    using has_bit_fold bloom_bits_range False by blast
  ultimately show ?thesis
    using i False by (intro exI [of _ ?f]) (auto simp: bloom_ok_def bloom_has_def b list_all_iff)
qed

section \<open>Which transactions are relevant\<close>

text \<open>A data element of the script is in the filter.\<close>

definition script_relevant :: "CBloomFilter \<Rightarrow> byte list \<Rightarrow> bool" where
  "script_relevant f script \<longleftrightarrow> list_ex (\<lambda>(op, data). data \<noteq> [] \<and> bloom_has f data) (fst (parse_script script))"

definition tx_relevant :: "CBloomFilter \<Rightarrow> CTransaction \<Rightarrow> bool" where
  "tx_relevant f tx \<longleftrightarrow> isFull f \<or> bloom_has f (uint256_bytes (tx_hash tx)) \<or>
     list_ex (\<lambda>out. script_relevant f (scriptPubKey out)) (vout tx) \<or>
     list_ex (\<lambda>txin. bloom_has f (ser_COutPoint (prevout txin)) \<or> script_relevant f (scriptSig txin)) (vin tx)"

text \<open>The flags ask for the outpoints of such an output.\<close>

definition wants_update :: "CBloomFilter \<Rightarrow> byte list \<Rightarrow> bool" where
  "wants_update f script \<longleftrightarrow>
     nFlags f AND BLOOM_UPDATE_MASK = BLOOM_UPDATE_ALL \<or>
     nFlags f AND BLOOM_UPDATE_MASK = BLOOM_UPDATE_P2PUBKEY_ONLY \<and>
       (\<exists>sols. Solver script [] = Some (True, TX_PUBKEY, sols) \<or> Solver script [] = Some (True, TX_MULTISIG, sols))"

lemma script_data_loop_relevant:
  assumes "bloom_ok f"
  shows "script_data_loop f script = Some (script_relevant f script)"
proof (induction script rule: script_induct)
  case (Op pc op vch pc')
  then show ?case
    using assms by (subst script_data_loop.simps)
      (auto simp: script_relevant_def parse_script_step bloom_contains_has split: bool.splits)
next
  case (Fail pc op vch pc')
  then show ?case by (subst script_data_loop.simps) (simp add: script_relevant_def parse_script_fail)
qed (simp add: script_data_loop.simps script_relevant_def)

lemma relevant_Solver:
  assumes "script_relevant f script"
  shows "Solver script sols \<noteq> None"
proof
  assume "Solver script sols = None"
  then have "length script < 2" and z: "IsZerocoinMint script"
    by (auto simp: Solver_def split: if_splits)
  then obtain x where x: "script = [x]" by (cases script rule: list.exhaust) (auto simp: IsZerocoinMint_def Suc_le_eq)
  then have "x = OP_ZEROCOINMINT" using z by (simp add: IsZerocoinMint_def)
  then have "fst (parse_script script) = [(OP_ZEROCOINMINT, [])]"
    unfolding x by (subst parse_script.simps) (simp add: GetOp2_def)
  then show False using assms by (simp add: script_relevant_def)
qed

lemma update_filter_ok:
  assumes "bloom_ok f" and "script_relevant f script"
  shows "\<exists>f'. update_filter f script p = Some f' \<and> bloom_ok f' \<and> isFull f' = isFull f \<and> nFlags f' = nFlags f \<and>
    (\<forall>k. bloom_has f k \<longrightarrow> bloom_has f' k) \<and> (wants_update f script \<longrightarrow> bloom_has f' (ser_COutPoint p))"
proof -
  obtain r t sols where s: "Solver script [] = Some (r, t, sols)"
    using relevant_Solver [OF assms(2), of "[]"] by (metis not_Some_eq prod_cases3)
  show ?thesis
    using bloom_insert_ok [OF assms(1), of "ser_COutPoint p"] assms(1)
    by (auto simp: update_filter_def bloom_insert_outpoint_def wants_update_def s)
qed

lemma script_relevant_mono:
  "(\<And>k. bloom_has f k \<Longrightarrow> bloom_has f' k) \<Longrightarrow> script_relevant f script \<Longrightarrow> script_relevant f' script"
  by (fastforce simp: script_relevant_def list_ex_iff)

lemma wants_update_flags: "nFlags f' = nFlags f \<Longrightarrow> wants_update f' script = wants_update f script"
  by (simp add: wants_update_def)

text \<open>What the walk over the outputs leaves: it has seen a relevant output exactly when there is one
  for the filter it began with, and then holds the outpoints that its flags ask for.\<close>

lemma outputs_loop_ok:
  assumes "bloom_ok f"
  shows "\<exists>f'. outputs_loop h outs fFound f =
      Some (fFound \<or> list_ex (\<lambda>(i, out). script_relevant f (scriptPubKey out)) outs, f') \<and>
    bloom_ok f' \<and> isFull f' = isFull f \<and> nFlags f' = nFlags f \<and> (\<forall>k. bloom_has f k \<longrightarrow> bloom_has f' k) \<and>
    (\<not> list_ex (\<lambda>(i, out). script_relevant f (scriptPubKey out)) outs \<longrightarrow> f' = f) \<and>
    (\<forall>(i, out) \<in> set outs. script_relevant f (scriptPubKey out) \<and> wants_update f (scriptPubKey out) \<longrightarrow>
      bloom_has f' (ser_COutPoint (COutPoint.make h (of_nat i))))"
  using assms
proof (induction outs arbitrary: fFound f)
  case (Cons x outs)
  obtain i out where x: "x = (i, out)" by fastforce
  let ?s = "scriptPubKey out" and ?p = "COutPoint.make h (of_nat i)"
  note loop = script_data_loop_relevant [OF Cons.prems, of ?s]
  show ?case
  proof (cases "script_relevant f ?s")
    case False
    then show ?thesis using Cons.IH [OF Cons.prems, of fFound] loop by (simp add: x)
  next
    case True
    obtain g where g: "update_filter f ?s ?p = Some g" "bloom_ok g" "isFull g = isFull f" "nFlags g = nFlags f"
      "\<And>k. bloom_has f k \<Longrightarrow> bloom_has g k" "wants_update f ?s \<Longrightarrow> bloom_has g (ser_COutPoint ?p)"
      using update_filter_ok [OF Cons.prems True, of ?p] by blast
    obtain f' where f': "outputs_loop h outs True g = Some (True, f')" "bloom_ok f'" "isFull f' = isFull g"
      "nFlags f' = nFlags g" "\<And>k. bloom_has g k \<Longrightarrow> bloom_has f' k"
      "\<And>i out. (i, out) \<in> set outs \<Longrightarrow> script_relevant g (scriptPubKey out) \<Longrightarrow> wants_update g (scriptPubKey out) \<Longrightarrow>
        bloom_has f' (ser_COutPoint (COutPoint.make h (of_nat i)))"
      using Cons.IH [OF g(2), of True] by fastforce
    have "bloom_has f' (ser_COutPoint (COutPoint.make h (of_nat j)))"
      if "(j, out') \<in> set (x # outs)" "script_relevant f (scriptPubKey out')" "wants_update f (scriptPubKey out')" for j out'
      using that f'(5,6) g(5,6) script_relevant_mono [OF g(5)] wants_update_flags [OF g(4)] by (auto simp: x)
    then show ?thesis using True loop g f' by (intro exI [of _ f']) (auto simp: x)
  qed
qed simp

lemma inputs_loop_ok:
  assumes "bloom_ok f"
  shows "inputs_loop f ins =
    Some (list_ex (\<lambda>txin. bloom_has f (ser_COutPoint (prevout txin)) \<or> script_relevant f (scriptSig txin)) ins)"
  by (induction ins) (auto simp: bloom_contains_outpoint_def bloom_contains_has [OF assms]
      script_data_loop_relevant [OF assms] split: bool.splits)

lemma list_ex_index: "list_ex (\<lambda>(i, x). P x) (zip [0..<length xs] xs) \<longleftrightarrow> list_ex P xs"
  by (fastforce simp: list_ex_iff set_zip in_set_conv_nth)

lemma not_has_empty: "isEmpty f \<Longrightarrow> \<not> isFull f \<Longrightarrow> \<not> tx_relevant f tx"
  by (auto simp: tx_relevant_def script_relevant_def bloom_has_def list_ex_iff)

lemma IsRelevantAndUpdate_ok:
  assumes "bloom_ok f"
  shows "\<exists>f'. IsRelevantAndUpdate f tx = Some (tx_relevant f tx, f') \<and> bloom_ok f' \<and>
    (\<forall>k. bloom_has f k \<longrightarrow> bloom_has f' k) \<and>
    (\<forall>i < length (vout tx). script_relevant f (scriptPubKey (vout tx ! i)) \<and> wants_update f (scriptPubKey (vout tx ! i)) \<longrightarrow>
      bloom_has f' (ser_COutPoint (COutPoint.make (tx_hash tx) (of_nat i))))"
proof (cases "isFull f \<or> isEmpty f")
  case True
  moreover have "bloom_has f k" if "isFull f" for k using that by (simp add: bloom_has_def)
  moreover have "\<not> script_relevant f script" if "\<not> isFull f" "isEmpty f" for script
    using that by (auto simp: script_relevant_def bloom_has_def list_ex_iff)
  ultimately show ?thesis
    using assms not_has_empty [of f tx] by (auto simp: IsRelevantAndUpdate_def tx_relevant_def)
next
  case False
  let ?h = "bloom_has f (uint256_bytes (tx_hash tx))" and ?outs = "zip [0..<length (vout tx)] (vout tx)"
  let ?R = "list_ex (\<lambda>(i, out). script_relevant f (scriptPubKey out)) ?outs"
  obtain f' where f': "outputs_loop (tx_hash tx) ?outs ?h f = Some (?h \<or> ?R, f')" "bloom_ok f'"
    "\<And>k. bloom_has f k \<Longrightarrow> bloom_has f' k" "\<not> ?R \<Longrightarrow> f' = f"
    "\<And>i out. (i, out) \<in> set ?outs \<Longrightarrow> script_relevant f (scriptPubKey out) \<Longrightarrow> wants_update f (scriptPubKey out) \<Longrightarrow>
      bloom_has f' (ser_COutPoint (COutPoint.make (tx_hash tx) (of_nat i)))"
    using outputs_loop_ok [OF assms, of "tx_hash tx" ?outs ?h] by fastforce
  have R: "?R \<longleftrightarrow> list_ex (\<lambda>out. script_relevant f (scriptPubKey out)) (vout tx)"
    by (rule list_ex_index)
  have "(i, vout tx ! i) \<in> set ?outs" if "i < length (vout tx)" for i
    using that by (force simp: set_zip)
  then have "\<forall>i < length (vout tx). script_relevant f (scriptPubKey (vout tx ! i)) \<and>
      wants_update f (scriptPubKey (vout tx ! i)) \<longrightarrow>
      bloom_has f' (ser_COutPoint (COutPoint.make (tx_hash tx) (of_nat i)))" using f'(5) by blast
  moreover have "IsRelevantAndUpdate f tx = Some (tx_relevant f tx, f')"
    using False f'(1,4) R inputs_loop_ok [OF assms, of "vin tx"]
    by (auto simp: IsRelevantAndUpdate_def bloom_contains_hash_def bloom_contains_has [OF assms] tx_relevant_def)
  ultimately show ?thesis using f'(2,3) by blast
qed

text \<open>A transaction that spends an output that matched is relevant from then on.\<close>

lemma spender_relevant:
  assumes "txin \<in> set (vin tx)" and "bloom_has f (ser_COutPoint (prevout txin))"
  shows "tx_relevant f tx"
  using assms by (auto simp: tx_relevant_def list_ex_iff)

section \<open>Filtered blocks\<close>

text \<open>The filter grows from a transaction to the next.\<close>

fun filtered :: "CTransaction list \<Rightarrow> CBloomFilter \<Rightarrow> CTransaction list" where
  "filtered [] f = []"
| "filtered (tx # txs) f =
     (case IsRelevantAndUpdate f tx of
        Some (True, f') \<Rightarrow> tx # filtered txs f'
      | Some (False, f') \<Rightarrow> filtered txs f'
      | None \<Rightarrow> [])"

lemma filter_loop_ok:
  assumes "bloom_ok f"
  shows "\<exists>ms hits f'. filter_loop (zip [k..<k + length txs] txs) f = Some (ms, hits, f') \<and> length ms = length txs \<and>
    map fst (filter snd (zip (map tx_hash txs) ms)) = map tx_hash (filtered txs f) \<and>
    map snd hits = map tx_hash (filtered txs f) \<and> bloom_ok f'"
  using assms
proof (induction txs arbitrary: k f)
  case (Cons tx txs)
  obtain g where g: "IsRelevantAndUpdate f tx = Some (tx_relevant f tx, g)" "bloom_ok g"
    using IsRelevantAndUpdate_ok [OF Cons.prems, of tx] by blast
  have u: "[k..<k + length (tx # txs)] = k # [Suc k..<Suc k + length txs]"
    by (simp add: upt_rec)
  show ?case
    using Cons.IH [OF g(2), of "Suc k"] g unfolding u by (cases "tx_relevant f tx") auto
qed simp

lemma CMerkleBlock_ok:
  assumes "bloom_ok f" and "vtx b \<noteq> []"
  shows "\<exists>ms t hits f'. CPartialMerkleTree_of (map tx_hash (vtx b)) ms = Some t \<and> length ms = length (vtx b) \<and>
    CMerkleBlock_of b f = Some (\<lparr>mb_header = GetBlockHeader b, mb_txn = t, vMatchedTxn = hits\<rparr>, f') \<and>
    map fst (filter snd (zip (map tx_hash (vtx b)) ms)) = map tx_hash (filtered (vtx b) f) \<and>
    map snd hits = map tx_hash (filtered (vtx b) f) \<and> bloom_ok f'"
proof -
  obtain ms hits f' where l: "filter_loop (zip [0..<length (vtx b)] (vtx b)) f = Some (ms, hits, f')"
    "length ms = length (vtx b)"
    "map fst (filter snd (zip (map tx_hash (vtx b)) ms)) = map tx_hash (filtered (vtx b) f)"
    "map snd hits = map tx_hash (filtered (vtx b) f)" "bloom_ok f'"
    using filter_loop_ok [OF assms(1), of 0 "vtx b"] by auto
  moreover obtain t where "CPartialMerkleTree_of (map tx_hash (vtx b)) ms = Some t"
    using CPartialMerkleTree_of_Some [of "map tx_hash (vtx b)" ms] assms(2) by auto
  ultimately show ?thesis by (intro exI [of _ ms] exI [of _ t] exI [of _ hits] exI [of _ f']) (simp add: CMerkleBlock_of_def)
qed

lemma CMerkleBlock_sent:
  assumes "bloom_ok f" and "vtx b \<noteq> []" and "length (vtx b) \<le> MAX_BLOCK_SIZE_CURRENT div 60" and "wf_header b"
  shows "\<exists>m f' m'. CMerkleBlock_of b f = Some (m, f') \<and> bloom_ok f' \<and>
    map snd (vMatchedTxn m) = map tx_hash (filtered (vtx b) f) \<and>
    unser_CMerkleBlock (ser_CMerkleBlock m @ r) = Inr (m', r) \<and> mb_header m' = GetBlockHeader b \<and>
    ExtractMatches (mb_txn m') = (merkle_root (map tx_hash (vtx b)), map tx_hash (filtered (vtx b) f))"
proof -
  obtain ms t hits f' where t: "CPartialMerkleTree_of (map tx_hash (vtx b)) ms = Some t" "length ms = length (vtx b)"
    and c: "CMerkleBlock_of b f = Some (\<lparr>mb_header = GetBlockHeader b, mb_txn = t, vMatchedTxn = hits\<rparr>, f')"
    and e: "map fst (filter snd (zip (map tx_hash (vtx b)) ms)) = map tx_hash (filtered (vtx b) f)"
      "map snd hits = map tx_hash (filtered (vtx b) f)" "bloom_ok f'"
    using CMerkleBlock_ok [OF assms(1,2)] by blast
  have n: "length (map tx_hash (vtx b)) \<le> MAX_BLOCK_SIZE_CURRENT div 60" "length (map tx_hash (vtx b)) = length ms"
    using assms(3) t(2) by simp_all
  obtain pad where u: "unser_CPartialMerkleTree (ser_CPartialMerkleTree t @ r) = Inr (t\<lparr>pt_vBits := pt_vBits t @ pad\<rparr>, r)"
    and p: "(length (pt_vBits t @ pad) + 7) div 8 = (length (pt_vBits t) + 7) div 8"
    using unser_ser_tree [OF t(1) n(1)] by blast
  have "wf_header (GetBlockHeader b)" using assms(4) by (simp add: wf_GetBlockHeader)
  from header.unser_ser [OF this] have h: "unser_CBlockHeader (ser_CBlockHeader (GetBlockHeader b) @ s) = Inr (GetBlockHeader b, s)"
    for s .
  show ?thesis
    using c e ExtractMatches_ok [OF t(1) n(2,1) p] by (simp add: unser_CMerkleBlock_def ser_CMerkleBlock_def h u)
qed

text \<open>A filter for the address of a key.\<close>

definition key_filter :: CBloomFilter where
  "key_filter = \<lparr>vData = replicate 8 0, isFull = False, isEmpty = True, nHashFuncs = 3, nTweak = 5, nFlags = BLOOM_UPDATE_ALL\<rparr>"

lemma key_filter_ok: "bloom_ok key_filter" "\<not> isFull key_filter" "isEmpty key_filter"
  by (simp_all add: bloom_ok_def key_filter_def)

section \<open>Properties\<close>

text \<open>
  C25. A filter without bytes is never divided by: IsRelevantAndUpdate answers true exactly for
  the transactions with an id, a data element, or a spent outpoint in the filter, never forgets a
  key, and if the flags ask for it, every later transaction that spends an output that matched is
  relevant to the filter it leaves; a key that was inserted is always found.
\<close>

theorem bloom_relevant:
  assumes "bloom_ok f"
  shows "(\<exists>f'. IsRelevantAndUpdate f tx = Some (tx_relevant f tx, f') \<and> bloom_ok f' \<and>
      (\<forall>k. bloom_contains f k = Some True \<longrightarrow> bloom_contains f' k = Some True) \<and>
      (\<forall>i txin tx'. i < length (vout tx) \<and> script_relevant f (scriptPubKey (vout tx ! i)) \<and>
        wants_update f (scriptPubKey (vout tx ! i)) \<and>
        txin \<in> set (vin tx') \<and> prevout txin = COutPoint.make (tx_hash tx) (of_nat i) \<longrightarrow> tx_relevant f' tx')) \<and>
    (\<exists>f'. bloom_insert f vKey = Some f' \<and> bloom_ok f' \<and> bloom_contains f' vKey = Some True)"
proof -
  obtain f' where "IsRelevantAndUpdate f tx = Some (tx_relevant f tx, f')" "bloom_ok f'"
    "\<And>k. bloom_has f k \<Longrightarrow> bloom_has f' k"
    "\<And>i. i < length (vout tx) \<Longrightarrow> script_relevant f (scriptPubKey (vout tx ! i)) \<Longrightarrow>
      wants_update f (scriptPubKey (vout tx ! i)) \<Longrightarrow> bloom_has f' (ser_COutPoint (COutPoint.make (tx_hash tx) (of_nat i)))"
    using IsRelevantAndUpdate_ok [OF assms, of tx] by blast
  moreover obtain g where "bloom_insert f vKey = Some g" "bloom_ok g" "bloom_has g vKey"
    using bloom_insert_ok [OF assms, of vKey] by blast
  ultimately show ?thesis
    using assms by (auto simp: bloom_contains_has intro: spender_relevant)
qed

theorem bloom_relevant_witness:
  "\<exists>f'. bloom_insert key_filter [1, 2, 3] = Some f' \<and> bloom_contains f' [1, 2, 3] = Some True"
  using bloom_relevant [OF key_filter_ok(1), of _ "[1, 2, 3]"] by blast

text \<open>
  C26. A filtered block of 1 to 69905 transactions, sent and read back, has the header of the
  block and a partial tree from which the Merkle root of the block and exactly the ids of the
  transactions that the growing filter let through are extracted.
\<close>

theorem merkle_block:
  assumes "bloom_ok f" and "vtx b \<noteq> []" and "length (vtx b) \<le> MAX_BLOCK_SIZE_CURRENT div 60" and "wf_header b"
  shows "\<exists>m f' m'. CMerkleBlock_of b f = Some (m, f') \<and> bloom_ok f' \<and>
    map snd (vMatchedTxn m) = map tx_hash (filtered (vtx b) f) \<and>
    unser_CMerkleBlock (ser_CMerkleBlock m @ r) = Inr (m', r) \<and> mb_header m' = GetBlockHeader b \<and>
    ExtractMatches (mb_txn m') =
      (fst (BuildMerkleTree (map tx_hash (vtx b))), map tx_hash (filtered (vtx b) f))"
  using CMerkleBlock_sent [OF assms, of r] by (simp add: BuildMerkleTree_eq)

theorem merkle_block_witness:
  "\<exists>m f' m'. CMerkleBlock_of stake_block key_filter = Some (m, f') \<and>
     unser_CMerkleBlock (ser_CMerkleBlock m) = Inr (m', []) \<and> mb_header m' = GetBlockHeader stake_block"
proof -
  have "length (vtx stake_block) = 2" "wf_header stake_block"
    by (simp_all add: stake_block_def wf_header_def CBlock_Null_def CBlockHeader_Null_def Let_def)
  then show ?thesis
    using merkle_block [OF key_filter_ok(1), of stake_block "[]"] by (force simp: MAX_BLOCK_SIZE_CURRENT_def)
qed

end
