(* ===== verification/StdMap.thy ===== *)
theory StdMap
  imports Main
begin

text \<open>
  \<open>std::map\<close>: a list of keys and values in strictly ascending order of the keys, which is the order
  the code iterates in. Look-up is \<open>map_of\<close>.
\<close>

fun map_assign :: "'k :: linorder \<Rightarrow> 'v \<Rightarrow> ('k \<times> 'v) list \<Rightarrow> ('k \<times> 'v) list" where
  "map_assign k v [] = [(k, v)]"
| "map_assign k v ((k', v') # m) =
     (if k < k' then (k, v) # (k', v') # m
      else if k = k' then (k, v) # m
      else (k', v') # map_assign k v m)"

definition map_erase :: "'k \<Rightarrow> ('k \<times> 'v) list \<Rightarrow> ('k \<times> 'v) list" where
  "map_erase k m = filter (\<lambda>x. fst x \<noteq> k) m"

definition map_wf :: "('k :: linorder \<times> 'v) list \<Rightarrow> bool" where
  "map_wf m \<longleftrightarrow> sorted_wrt (<) (map fst m)"

lemma map_of_assign [simp]: "map_of (map_assign k v m) = (map_of m)(k \<mapsto> v)"
  by (induction m) (auto simp: fun_eq_iff)

lemma map_of_erase [simp]: "map_of (map_erase k m) = (map_of m)(k := None)"
  by (induction m) (auto simp: map_erase_def fun_eq_iff)

lemma set_assign: "fst ` set (map_assign k v m) = insert k (fst ` set m)"
  by (induction k v m rule: map_assign.induct) auto

lemma map_wf_Nil [simp]: "map_wf []"
  by (simp add: map_wf_def)

lemma map_wf_assign [simp, intro]: "map_wf m \<Longrightarrow> map_wf (map_assign k v m)"
proof (induction m)
  case (Cons x m)
  have "\<forall>y \<in> fst ` set (map_assign k v m). fst x < y" if "\<not> k < fst x" "k \<noteq> fst x"
    using that Cons.prems by (auto simp: set_assign map_wf_def)
  then show ?case using Cons by (cases x) (auto simp: map_wf_def)
qed (simp add: map_wf_def)

lemma map_wf_erase [simp, intro]: "map_wf m \<Longrightarrow> map_wf (map_erase k m)"
  by (induction m) (auto simp: map_wf_def map_erase_def)

lemma map_erase_other: "k \<notin> fst ` set m \<Longrightarrow> map_erase k m = m"
  by (auto simp: map_erase_def filter_id_conv)

lemma length_map_erase: "map_of m k = Some v \<Longrightarrow> length (map_erase k m) < length m"
  by (induction m) (auto simp: map_erase_def less_Suc_eq_le split: if_splits)

lemma distinct_map_wf: "map_wf m \<Longrightarrow> distinct (map fst m)"
  by (simp add: map_wf_def strict_sorted_iff)

lemma map_of_iff: "map_wf m \<Longrightarrow> map_of m k = Some v \<longleftrightarrow> (k, v) \<in> set m"
  using distinct_map_wf by (metis map_of_eq_Some_iff)

text \<open>Sums over a map.\<close>

lemma sum_map_assign:
  fixes f :: "_ \<Rightarrow> 'a :: comm_monoid_add"
  shows "map_of m k = None \<Longrightarrow> sum_list (map f (map_assign k v m)) = f (k, v) + sum_list (map f m)"
  by (induction m) (auto simp: ac_simps split: if_splits)

lemma sum_map_erase:
  fixes f :: "_ \<Rightarrow> 'a :: comm_monoid_add"
  assumes "map_wf m" and "map_of m k = Some v"
  shows "sum_list (map f m) = f (k, v) + sum_list (map f (map_erase k m))"
  using assms
proof (induction m)
  case (Cons x m)
  show ?case
  proof (cases "fst x = k")
    case True
    then have "k \<notin> fst ` set m" using Cons.prems(1) by (force simp: map_wf_def)
    then show ?thesis
      using True Cons.prems(2) map_erase_other [of k m] by (cases x) (auto simp: map_erase_def)
  next
    case False
    then show ?thesis using Cons by (cases x) (auto simp: map_wf_def map_erase_def ac_simps)
  qed
qed simp

text \<open>Loops that assign or erase.\<close>

lemma fold_assign_other:
  "p \<notin> f ` set xs \<Longrightarrow> map_of (fold (\<lambda>i. map_assign (f i) (g i)) xs m) p = map_of m p"
  by (induction xs arbitrary: m) auto

lemma fold_assign_at:
  "inj_on f (set xs) \<Longrightarrow> i \<in> set xs \<Longrightarrow> map_of (fold (\<lambda>i. map_assign (f i) (g i)) xs m) (f i) = Some (g i)"
proof (induction xs arbitrary: m)
  case (Cons x xs)
  show ?case
  proof (cases "i \<in> set xs")
    case True
    then show ?thesis using Cons by simp
  next
    case False
    then have "f i \<notin> f ` set xs" "i = x" using Cons.prems by (auto simp: inj_on_def)
    then show ?thesis by (simp add: fold_assign_other)
  qed
qed simp

lemma map_of_fold_erase:
  "map_of (fold (\<lambda>x. map_erase (f x)) xs m) p = (if p \<in> f ` set xs then None else map_of m p)"
  by (induction xs arbitrary: m) auto

lemma map_wf_fold_assign: "map_wf m \<Longrightarrow> map_wf (fold (\<lambda>i. map_assign (f i) (g i)) xs m)"
  by (induction xs arbitrary: m) auto

lemma map_wf_fold_erase: "map_wf m \<Longrightarrow> map_wf (fold (\<lambda>x. map_erase (f x)) xs m)"
  by (induction xs arbitrary: m) auto

end
