(* ===== verification/CoinsView.thy ===== *)
theory CoinsView
  imports Coins
begin

text \<open>
  Views of the unspent outputs (\<open>CCoinsView\<close>, \<open>CCoinsViewCache\<close>, \<open>CCoinsModifier\<close> of \<open>src/coins.h\<close>
  and \<open>src/coins.cpp\<close>, \<open>CCoinsViewDB\<close> of \<open>src/txdb.cpp\<close>). A view is the record of its virtual
  methods over a state; a cache is a view over another one. The locales state what a view
  promises: a source stands for a function from outpoints to coins, which reading does not change;
  a view is a source through which a batch of entries is written when their flags are right. A
  cache over a source is a view, so caches can be stacked.
\<close>

section \<open>Entries and views\<close>

record CCoinsCacheEntry =
  ce_coins :: CCoins
  ce_flags :: byte

abbreviation DIRTY :: byte where "DIRTY \<equiv> 1"
abbreviation FRESH :: byte where "FRESH \<equiv> 2"

abbreviation is_dirty :: "CCoinsCacheEntry \<Rightarrow> bool" where
  "is_dirty e \<equiv> ce_flags e AND DIRTY \<noteq> 0"

abbreviation is_fresh :: "CCoinsCacheEntry \<Rightarrow> bool" where
  "is_fresh e \<equiv> ce_flags e AND FRESH \<noteq> 0"

text \<open>An \<open>unordered_map\<close>, in the order it is iterated in.\<close>

type_synonym CCoinsMap = "(uint256 \<times> CCoinsCacheEntry) list"

text \<open>The methods may change the state even when they are \<open>const\<close>: a cache fills itself. \<open>None\<close> of
  \<open>BatchWrite\<close> is a failed assertion.\<close>

record 's CCoinsView =
  view_GetCoins :: "'s \<Rightarrow> uint256 \<Rightarrow> CCoins option \<times> 's"
  view_GetBestBlock :: "'s \<Rightarrow> uint256 \<times> 's"
  view_BatchWrite :: "'s \<Rightarrow> CCoinsMap \<Rightarrow> uint256 \<Rightarrow> (bool \<times> 's) option"

record CCoinsViewCache =
  hasModifier :: bool
  cache_hashBlock :: uint256
  cacheCoins :: CCoinsMap

definition CCoinsViewCache_new :: CCoinsViewCache where
  "CCoinsViewCache_new = \<lparr>hasModifier = False, cache_hashBlock = 0, cacheCoins = []\<rparr>"

section \<open>The cache\<close>

definition FetchCoins ::
    "'s CCoinsView \<Rightarrow> 's \<times> CCoinsViewCache \<Rightarrow> uint256 \<Rightarrow> CCoinsCacheEntry option \<times> 's \<times> CCoinsViewCache" where
  "FetchCoins base st txid =
     (case st of (s, c) \<Rightarrow>
       (case map_of (cacheCoins c) txid of
          Some e \<Rightarrow> (Some e, s, c)
        | None \<Rightarrow>
            (case view_GetCoins base s txid of
               (None, s) \<Rightarrow> (None, s, c)
             | (Some tmp, s) \<Rightarrow>
                 (let e = \<lparr>ce_coins = tmp, ce_flags = if IsPruned tmp then FRESH else 0\<rparr>
                  in (Some e, s, c\<lparr>cacheCoins := AList.update txid e (cacheCoins c)\<rparr>)))))"

definition GetCoins ::
    "'s CCoinsView \<Rightarrow> 's \<times> CCoinsViewCache \<Rightarrow> uint256 \<Rightarrow> CCoins option \<times> 's \<times> CCoinsViewCache" where
  "GetCoins base st txid = (case FetchCoins base st txid of (r, st) \<Rightarrow> (map_option ce_coins r, st))"

definition HaveCoins ::
    "'s CCoinsView \<Rightarrow> 's \<times> CCoinsViewCache \<Rightarrow> uint256 \<Rightarrow> bool \<times> 's \<times> CCoinsViewCache" where
  "HaveCoins base st txid =
     (case FetchCoins base st txid of
        (r, st) \<Rightarrow> (case r of None \<Rightarrow> False | Some e \<Rightarrow> cc_vout (ce_coins e) \<noteq> [], st))"

definition GetBestBlock ::
    "'s CCoinsView \<Rightarrow> 's \<times> CCoinsViewCache \<Rightarrow> uint256 \<times> 's \<times> CCoinsViewCache" where
  "GetBestBlock base st =
     (case st of (s, c) \<Rightarrow>
       if cache_hashBlock c = 0 then
         (case view_GetBestBlock base s of (h, s) \<Rightarrow> (h, s, c\<lparr>cache_hashBlock := h\<rparr>))
       else (cache_hashBlock c, s, c))"

definition SetBestBlock :: "'s \<times> CCoinsViewCache \<Rightarrow> uint256 \<Rightarrow> 's \<times> CCoinsViewCache" where
  "SetBestBlock st hashBlockIn = (case st of (s, c) \<Rightarrow> (s, c\<lparr>cache_hashBlock := hashBlockIn\<rparr>))"

text \<open>\<open>ModifyCoins\<close> gives out a reference to the entry, which \<open>CCoinsModifier\<close> cleans up when it is
  destroyed. \<open>modify\<close> is the life of a modifier, with \<open>f\<close> what is done through it.\<close>

definition ModifyCoins ::
    "'s CCoinsView \<Rightarrow> 's \<times> CCoinsViewCache \<Rightarrow> uint256 \<Rightarrow> (CCoinsCacheEntry \<times> 's \<times> CCoinsViewCache) option" where
  "ModifyCoins base st txid =
     (case st of (s, c) \<Rightarrow>
       if hasModifier c then None
       else
         (let (e, s) =
            (case map_of (cacheCoins c) txid of
               Some e \<Rightarrow> (e, s)
             | None \<Rightarrow>
                 (case view_GetCoins base s txid of
                    (None, s) \<Rightarrow> (\<lparr>ce_coins = CCoins_Clear, ce_flags = FRESH\<rparr>, s)
                  | (Some coins, s) \<Rightarrow>
                      (\<lparr>ce_coins = coins, ce_flags = if IsPruned coins then FRESH else 0\<rparr>, s)));
              e = e\<lparr>ce_flags := ce_flags e OR DIRTY\<rparr>
          in Some (e, s, c\<lparr>cacheCoins := AList.update txid e (cacheCoins c), hasModifier := True\<rparr>)))"

definition CCoinsModifier_destroy ::
    "'s \<times> CCoinsViewCache \<Rightarrow> uint256 \<Rightarrow> ('s \<times> CCoinsViewCache) option" where
  "CCoinsModifier_destroy st txid =
     (case st of (s, c) \<Rightarrow>
       if \<not> hasModifier c then None
       else
         (case map_of (cacheCoins c) txid of
            None \<Rightarrow> None
          | Some e \<Rightarrow>
              (let e = e\<lparr>ce_coins := CCoins_Cleanup (ce_coins e)\<rparr>;
                   c = c\<lparr>hasModifier := False, cacheCoins := AList.update txid e (cacheCoins c)\<rparr>
               in Some (s,
                    if is_fresh e \<and> IsPruned (ce_coins e)
                    then c\<lparr>cacheCoins := AList.delete txid (cacheCoins c)\<rparr> else c))))"

definition modify ::
    "'s CCoinsView \<Rightarrow> uint256 \<Rightarrow> (CCoins \<Rightarrow> ('r \<times> CCoins) option) \<Rightarrow> 's \<times> CCoinsViewCache \<Rightarrow>
     ('r \<times> 's \<times> CCoinsViewCache) option" where
  "modify base txid f st =
     (case ModifyCoins base st txid of
        None \<Rightarrow> None
      | Some (e, s, c) \<Rightarrow>
          (case f (ce_coins e) of
             None \<Rightarrow> None
           | Some (r, coins) \<Rightarrow>
               map_option (Pair r) (CCoinsModifier_destroy
                 (s, c\<lparr>cacheCoins := AList.update txid (e\<lparr>ce_coins := coins\<rparr>) (cacheCoins c)\<rparr>) txid)))"

fun batch_loop :: "CCoinsMap \<Rightarrow> CCoinsMap \<Rightarrow> CCoinsMap option" where
  "batch_loop [] cache = Some cache"
| "batch_loop ((txid, e) # mapCoins) cache =
     (if is_dirty e then
        (case map_of cache txid of
           None \<Rightarrow>
             if \<not> IsPruned (ce_coins e) then
               (if is_fresh e then
                  batch_loop mapCoins
                    (AList.update txid \<lparr>ce_coins = ce_coins e, ce_flags = DIRTY OR FRESH\<rparr> cache)
                else None)
             else batch_loop mapCoins cache
         | Some us \<Rightarrow>
             if is_fresh us \<and> IsPruned (ce_coins e) then batch_loop mapCoins (AList.delete txid cache)
             else batch_loop mapCoins
               (AList.update txid \<lparr>ce_coins = ce_coins e, ce_flags = ce_flags us OR DIRTY\<rparr> cache))
      else batch_loop mapCoins cache)"

definition BatchWrite ::
    "'s \<times> CCoinsViewCache \<Rightarrow> CCoinsMap \<Rightarrow> uint256 \<Rightarrow> (bool \<times> 's \<times> CCoinsViewCache) option" where
  "BatchWrite st mapCoins hashBlockIn =
     (case st of (s, c) \<Rightarrow>
       if hasModifier c then None
       else map_option (\<lambda>m. (True, s, c\<lparr>cacheCoins := m, cache_hashBlock := hashBlockIn\<rparr>))
         (batch_loop mapCoins (cacheCoins c)))"

definition Flush ::
    "'s CCoinsView \<Rightarrow> 's \<times> CCoinsViewCache \<Rightarrow> (bool \<times> 's \<times> CCoinsViewCache) option" where
  "Flush base st =
     (case st of (s, c) \<Rightarrow>
       map_option (\<lambda>(fOk, s). (fOk, s, c\<lparr>cacheCoins := []\<rparr>))
         (view_BatchWrite base s (cacheCoins c) (cache_hashBlock c)))"

definition GetCacheSize :: "'s \<times> CCoinsViewCache \<Rightarrow> nat" where
  "GetCacheSize st = length (cacheCoins (snd st))"

definition cache_view :: "'s CCoinsView \<Rightarrow> ('s \<times> CCoinsViewCache) CCoinsView" where
  "cache_view base = \<lparr>view_GetCoins = GetCoins base, view_GetBestBlock = GetBestBlock base,
     view_BatchWrite = BatchWrite\<rparr>"

section \<open>The database\<close>

text \<open>LevelDB is a map, and a batch is written as a whole.\<close>

record CCoinsViewDB =
  db_coins :: "uint256 \<Rightarrow> CCoins option"
  db_best :: "uint256 option"

definition db_GetCoins :: "CCoinsViewDB \<Rightarrow> uint256 \<Rightarrow> CCoins option \<times> CCoinsViewDB" where
  "db_GetCoins db txid = (db_coins db txid, db)"

definition db_GetBestBlock :: "CCoinsViewDB \<Rightarrow> uint256 \<times> CCoinsViewDB" where
  "db_GetBestBlock db = (case db_best db of None \<Rightarrow> 0 | Some h \<Rightarrow> h, db)"

fun db_batch :: "CCoinsMap \<Rightarrow> (uint256 \<Rightarrow> CCoins option) \<Rightarrow> uint256 \<Rightarrow> CCoins option" where
  "db_batch [] coins = coins"
| "db_batch ((txid, e) # mapCoins) coins =
     db_batch mapCoins
       (if is_dirty e then
          if IsPruned (ce_coins e) then coins(txid := None) else coins(txid \<mapsto> ce_coins e)
        else coins)"

definition db_BatchWrite :: "CCoinsViewDB \<Rightarrow> CCoinsMap \<Rightarrow> uint256 \<Rightarrow> (bool \<times> CCoinsViewDB) option" where
  "db_BatchWrite db mapCoins hashBlock =
     Some (True, \<lparr>db_coins = db_batch mapCoins (db_coins db),
       db_best = if hashBlock \<noteq> 0 then Some hashBlock else db_best db\<rparr>)"

definition db_view :: "CCoinsViewDB CCoinsView" where
  "db_view = \<lparr>view_GetCoins = db_GetCoins, view_GetBestBlock = db_GetBestBlock,
     view_BatchWrite = db_BatchWrite\<rparr>"

section \<open>What a view stands for\<close>

type_synonym coins_fun = "uint256 \<Rightarrow> nat \<Rightarrow> coin option"

definition coins_opt :: "CCoins option \<Rightarrow> nat \<Rightarrow> coin option" where
  "coins_opt r = (case r of None \<Rightarrow> (\<lambda>n. None) | Some c \<Rightarrow> coins_abs c)"

lemma coins_opt_simps [simp]: "coins_opt None = (\<lambda>n. None)" "coins_opt (Some c) = coins_abs c"
  by (simp_all add: coins_opt_def)

text \<open>The flags of an entry are right over a view with the outputs \<open>f\<close>, which has an entry or not.\<close>

definition entry_ok :: "(nat \<Rightarrow> coin option) \<Rightarrow> bool \<Rightarrow> CCoinsCacheEntry \<Rightarrow> bool" where
  "entry_ok f h e \<longleftrightarrow> (is_fresh e \<longrightarrow> f = (\<lambda>n. None)) \<and> (\<not> is_fresh e \<longrightarrow> h) \<and>
     (\<not> is_dirty e \<longrightarrow> coins_abs (ce_coins e) = f)"

definition map_ok :: "coins_fun \<Rightarrow> (uint256 \<Rightarrow> bool) \<Rightarrow> CCoinsMap \<Rightarrow> bool" where
  "map_ok U h m \<longleftrightarrow> distinct (map fst m) \<and>
     (\<forall>txid e. map_of m txid = Some e \<longrightarrow> entry_ok (U txid) (h txid) e)"

definition merged :: "coins_fun \<Rightarrow> CCoinsMap \<Rightarrow> coins_fun" where
  "merged U m txid = (case map_of m txid of None \<Rightarrow> U txid | Some e \<Rightarrow> coins_abs (ce_coins e))"

locale coins_source =
  fixes base :: "'s CCoinsView"
    and invar :: "'s \<Rightarrow> bool"
    and utxo :: "'s \<Rightarrow> coins_fun"
    and has :: "'s \<Rightarrow> uint256 \<Rightarrow> bool"
    and best :: "'s \<Rightarrow> uint256"
  assumes GetCoins_law: "invar s \<Longrightarrow> view_GetCoins base s txid = (r, s') \<Longrightarrow>
      invar s' \<and> utxo s' = utxo s \<and> best s' = best s \<and> (\<forall>t. has s t \<longrightarrow> has s' t) \<and>
      coins_opt r = utxo s txid \<and> (r \<noteq> None \<longrightarrow> has s' txid)"
    and GetBestBlock_law: "invar s \<Longrightarrow> view_GetBestBlock base s = (h, s') \<Longrightarrow>
      invar s' \<and> utxo s' = utxo s \<and> best s' = best s \<and> (\<forall>t. has s t \<longrightarrow> has s' t) \<and> h = best s"

locale coins_view = coins_source +
  assumes BatchWrite_law: "invar s \<Longrightarrow> map_ok (utxo s) (has s) m \<Longrightarrow>
      \<exists>s'. view_BatchWrite base s m h = Some (True, s') \<and> invar s' \<and> utxo s' = merged (utxo s) m \<and>
        (h \<noteq> 0 \<longrightarrow> best s' = h)"

section \<open>The flags\<close>

lemma flag_or [simp]:
  "(f OR 1) AND 1 \<noteq> (0 :: byte)" "(f OR 1) AND 2 = f AND (2 :: byte)"
  "(3 :: byte) AND 1 \<noteq> 0" "(3 :: byte) AND 2 \<noteq> 0"
proof -
  have "bit ((f OR 1) AND 1) 0" by (simp add: bit_and_iff bit_or_iff)
  then show "(f OR 1) AND 1 \<noteq> (0 :: byte)" by auto
  have "(1 :: byte) AND 2 = 0" by simp
  then show "(f OR 1) AND 2 = f AND (2 :: byte)" by (simp add: bit.conj_disj_distrib2)
qed simp_all

lemma entry_okI:
  assumes "is_fresh e \<Longrightarrow> f = (\<lambda>n. None)" and "\<not> is_fresh e \<Longrightarrow> h" and "\<not> is_dirty e \<Longrightarrow> coins_abs (ce_coins e) = f"
  shows "entry_ok f h e"
  using assms by (simp add: entry_ok_def)

lemma map_ok_update:
  assumes "map_ok U h m" and "entry_ok (U txid) (h txid) e"
  shows "map_ok U h (AList.update txid e m)"
  using assms by (auto simp: map_ok_def distinct_update update_conv')

lemma map_ok_delete: "map_ok U h m \<Longrightarrow> map_ok U h (AList.delete txid m)"
  by (auto simp: map_ok_def distinct_delete delete_conv')

lemma map_ok_mono: "map_ok U h m \<Longrightarrow> (\<And>t. h t \<Longrightarrow> h' t) \<Longrightarrow> map_ok U h' m"
  by (auto simp: map_ok_def entry_ok_def)

lemma merged_update: "merged U (AList.update txid e m) = (merged U m)(txid := coins_abs (ce_coins e))"
  by (auto simp: merged_def update_conv' fun_eq_iff)

lemma merged_delete: "merged U (AList.delete txid m) = (merged U m)(txid := U txid)"
  by (auto simp: merged_def delete_conv' fun_eq_iff)

lemma merged_at: "map_of m txid = Some e \<Longrightarrow> merged U m txid = coins_abs (ce_coins e)"
  "map_of m txid = None \<Longrightarrow> merged U m txid = U txid"
  by (simp_all add: merged_def)

section \<open>The state of a cache\<close>

definition cache_inv ::
    "('s \<Rightarrow> bool) \<Rightarrow> ('s \<Rightarrow> coins_fun) \<Rightarrow> ('s \<Rightarrow> uint256 \<Rightarrow> bool) \<Rightarrow> 's \<times> CCoinsViewCache \<Rightarrow> bool" where
  "cache_inv invar utxo has st \<longleftrightarrow> (case st of (s, c) \<Rightarrow>
     invar s \<and> \<not> hasModifier c \<and> map_ok (utxo s) (has s) (cacheCoins c))"

definition cache_utxo :: "('s \<Rightarrow> coins_fun) \<Rightarrow> 's \<times> CCoinsViewCache \<Rightarrow> coins_fun" where
  "cache_utxo utxo st = (case st of (s, c) \<Rightarrow> merged (utxo s) (cacheCoins c))"

definition cache_has :: "'s \<times> CCoinsViewCache \<Rightarrow> uint256 \<Rightarrow> bool" where
  "cache_has st txid \<longleftrightarrow> map_of (cacheCoins (snd st)) txid \<noteq> None"

definition cache_best :: "('s \<Rightarrow> uint256) \<Rightarrow> 's \<times> CCoinsViewCache \<Rightarrow> uint256" where
  "cache_best best st = (case st of (s, c) \<Rightarrow> if cache_hashBlock c = 0 then best s else cache_hashBlock c)"

lemmas cache_simps = cache_inv_def cache_utxo_def cache_has_def cache_best_def

section \<open>A batch written to a cache\<close>

lemma batch_loop_ok:
  assumes "map_ok U h cache" and "map_ok (merged U cache) (\<lambda>t. map_of cache t \<noteq> None) m"
  shows "\<exists>cache'. batch_loop m cache = Some cache' \<and> map_ok U h cache' \<and> merged U cache' = merged (merged U cache) m"
  using assms
proof (induction m arbitrary: cache)
  case Nil
  have "merged (merged U cache) [] = merged U cache" by (simp add: merged_def fun_eq_iff)
  with Nil show ?case by auto
next
  case (Cons x m)
  obtain txid e where x: "x = (txid, e)" by (cases x)
  have e: "entry_ok (merged U cache txid) (map_of cache txid \<noteq> None) e"
    using Cons.prems(2) by (auto simp: map_ok_def x split: if_splits)
  have new: "txid \<notin> fst ` set m" using Cons.prems(2) by (simp add: map_ok_def x)
  then have mt: "map_of m txid = None" by (simp add: map_of_eq_None_iff)
  have goal: "\<exists>cache''. batch_loop m cache' = Some cache'' \<and> map_ok U h cache'' \<and>
      merged U cache'' = merged (merged U cache) (x # m)"
    if ok: "map_ok U h cache'" and same: "merged U cache' = (merged U cache)(txid := coins_abs (ce_coins e))"
      and dom: "\<And>t. t \<noteq> txid \<Longrightarrow> map_of cache' t = None \<longleftrightarrow> map_of cache t = None" for cache'
  proof -
    have "map_ok (merged U cache') (\<lambda>t. map_of cache' t \<noteq> None) m"
      unfolding map_ok_def
    proof (intro conjI allI impI)
      show "distinct (map fst m)" using Cons.prems(2) by (simp add: map_ok_def)
      fix t e' assume t: "map_of m t = Some e'"
      then have "t \<noteq> txid" using mt by auto
      moreover have "entry_ok (merged U cache t) (map_of cache t \<noteq> None) e'"
        using Cons.prems(2) t \<open>t \<noteq> txid\<close> unfolding map_ok_def x by simp
      ultimately show "entry_ok (merged U cache' t) (map_of cache' t \<noteq> None) e'"
        using dom [of t] same by simp
    qed
    from Cons.IH [OF ok this] obtain cache'' where c: "batch_loop m cache' = Some cache''" "map_ok U h cache''"
      "merged U cache'' = merged (merged U cache') m" by blast
    have "merged (merged U cache') m = merged (merged U cache) (x # m)"
      using mt by (auto simp: merged_def same x fun_eq_iff split: option.split)
    then show ?thesis using c by auto
  qed
  have stay: "merged U cache = (merged U cache)(txid := coins_abs (ce_coins e))"
    if "merged U cache txid = coins_abs (ce_coins e)" using that by auto
  show ?case
  proof (cases "is_dirty e")
    case False
    then have "merged U cache txid = coins_abs (ce_coins e)" using e by (simp add: entry_ok_def)
    from goal [OF Cons.prems(1) stay [OF this]] show ?thesis using False by (simp add: x)
  next
    case dirty: True
    show ?thesis
    proof (cases "map_of cache txid")
      case None
      then have fresh: "is_fresh e" and U: "U txid = (\<lambda>n. None)"
        using e by (auto simp: entry_ok_def merged_at)
      show ?thesis
      proof (cases "IsPruned (ce_coins e)")
        case True
        then have "merged U cache txid = coins_abs (ce_coins e)"
          using None U by (simp add: IsPruned_iff merged_at)
        from goal [OF Cons.prems(1) stay [OF this]] show ?thesis using dirty None True by (simp add: x)
      next
        case False
        let ?e = "\<lparr>ce_coins = ce_coins e, ce_flags = DIRTY OR FRESH\<rparr>"
        have "map_ok U h (AList.update txid ?e cache)"
          using Cons.prems(1) U by (intro map_ok_update entry_okI) simp_all
        from goal [OF this] show ?thesis
          using dirty None False fresh by (simp add: x merged_update update_conv')
      qed
    next
      case (Some us)
      then have us: "entry_ok (U txid) (h txid) us" using Cons.prems(1) by (simp add: map_ok_def)
      show ?thesis
      proof (cases "is_fresh us \<and> IsPruned (ce_coins e)")
        case True
        then have "U txid = coins_abs (ce_coins e)" using us by (simp add: entry_ok_def IsPruned_iff)
        with goal [OF map_ok_delete [OF Cons.prems(1), of txid]] show ?thesis
          using dirty Some True by (simp add: x merged_delete delete_conv')
      next
        case False
        let ?e = "\<lparr>ce_coins = ce_coins e, ce_flags = ce_flags us OR DIRTY\<rparr>"
        have "map_ok U h (AList.update txid ?e cache)"
          using us by (intro map_ok_update [OF Cons.prems(1)] entry_okI) (simp_all add: entry_ok_def)
        from goal [OF this] show ?thesis
          using dirty Some False by (auto simp: x merged_update update_conv')
      qed
    qed
  qed
qed

text \<open>The coins an entry of the cache holds: what \<open>AccessCoins\<close> finds there, and goes on to find.\<close>

definition cached :: "'s \<times> CCoinsViewCache \<Rightarrow> uint256 \<Rightarrow> CCoins option" where
  "cached st h = map_option ce_coins (map_of (cacheCoins (snd st)) h)"

definition cache_grows :: "'s \<times> CCoinsViewCache \<Rightarrow> 's \<times> CCoinsViewCache \<Rightarrow> bool" where
  "cache_grows st st' \<longleftrightarrow> (\<forall>h c. cached st h = Some c \<longrightarrow> cached st' h = Some c)"

lemma cache_grows_refl [simp]: "cache_grows st st"
  and cache_grows_trans: "cache_grows st st1 \<Longrightarrow> cache_grows st1 st2 \<Longrightarrow> cache_grows st st2"
  by (simp_all add: cache_grows_def)

section \<open>A cache is a view\<close>

context coins_source
begin

lemma FetchCoins_ok:
  assumes "cache_inv invar utxo has (s, c)" and "FetchCoins base (s, c) txid = (r, s', c')"
  shows "cache_inv invar utxo has (s', c') \<and> cache_utxo utxo (s', c') = cache_utxo utxo (s, c) \<and>
    cache_best best (s', c') = cache_best best (s, c) \<and>
    (\<forall>t. cache_has (s, c) t \<longrightarrow> cache_has (s', c') t) \<and>
    r = map_of (cacheCoins c') txid \<and>
    coins_opt (map_option ce_coins r) = cache_utxo utxo (s, c) txid"
proof (cases "map_of (cacheCoins c) txid")
  case None
  obtain q s'' where g: "view_GetCoins base s txid = (q, s'')" by fastforce
  have i: "invar s" "map_ok (utxo s) (has s) (cacheCoins c)" using assms(1) by (simp_all add: cache_inv_def)
  note law = GetCoins_law [OF i(1) g]
  have mono: "map_ok (utxo s) (has s'') (cacheCoins c)" using law by (blast intro: map_ok_mono [OF i(2)])
  show ?thesis
  proof (cases q)
    case None
    then show ?thesis using assms g law mono \<open>map_of (cacheCoins c) txid = None\<close>
      by (auto simp: FetchCoins_def cache_simps merged_at)
  next
    case (Some tmp)
    let ?e = "\<lparr>ce_coins = tmp, ce_flags = if IsPruned tmp then FRESH else 0\<rparr>"
    have "map_ok (utxo s) (has s'') (AList.update txid ?e (cacheCoins c))"
      using law Some by (intro map_ok_update [OF mono] entry_okI) (auto simp: IsPruned_iff split: if_splits)
    moreover have "merged (utxo s) (AList.update txid ?e (cacheCoins c)) = merged (utxo s) (cacheCoins c)"
      using law Some None by (simp add: merged_update merged_at fun_upd_idem)
    moreover have "r = Some ?e" "s' = s''" "c' = c\<lparr>cacheCoins := AList.update txid ?e (cacheCoins c)\<rparr>"
      using assms(2) g Some None by (simp_all add: FetchCoins_def Let_def)
    ultimately show ?thesis using assms(1) law Some None
      by (simp add: cache_simps merged_at update_conv')
  qed
next
  case (Some e)
  then have "r = Some e" "s' = s" "c' = c" using assms(2) by (simp_all add: FetchCoins_def)
  then show ?thesis using assms(1) Some by (simp add: cache_simps merged_at)
qed

lemma GetBestBlock_ok:
  assumes "cache_inv invar utxo has (s, c)" and "GetBestBlock base (s, c) = (h, s', c')"
  shows "cache_inv invar utxo has (s', c') \<and> cache_utxo utxo (s', c') = cache_utxo utxo (s, c) \<and>
    cache_best best (s', c') = cache_best best (s, c) \<and>
    (\<forall>t. cache_has (s, c) t \<longrightarrow> cache_has (s', c') t) \<and> h = cache_best best (s, c)"
proof (cases "cache_hashBlock c = 0")
  case True
  obtain h' s'' where g: "view_GetBestBlock base s = (h', s'')" by fastforce
  have i: "invar s" "map_ok (utxo s) (has s) (cacheCoins c)" using assms(1) by (simp_all add: cache_inv_def)
  note law = GetBestBlock_law [OF i(1) g]
  have "map_ok (utxo s) (has s'') (cacheCoins c)" using law by (blast intro: map_ok_mono [OF i(2)])
  then show ?thesis using assms True g law by (auto simp: GetBestBlock_def cache_simps)
qed (use assms in \<open>auto simp: GetBestBlock_def cache_simps\<close>)

lemma BatchWrite_ok:
  assumes "cache_inv invar utxo has (s, c)" and "map_ok (cache_utxo utxo (s, c)) (cache_has (s, c)) m"
  shows "\<exists>st. BatchWrite (s, c) m h = Some (True, st) \<and> cache_inv invar utxo has st \<and>
    cache_utxo utxo st = merged (cache_utxo utxo (s, c)) m \<and> (h \<noteq> 0 \<longrightarrow> cache_best best st = h)"
proof -
  have "map_ok (merged (utxo s) (cacheCoins c)) (\<lambda>t. map_of (cacheCoins c) t \<noteq> None) m"
    using assms(2) by (simp add: cache_utxo_def cache_has_def [abs_def])
  then obtain m' where "batch_loop m (cacheCoins c) = Some m'" "map_ok (utxo s) (has s) m'"
    "merged (utxo s) m' = merged (merged (utxo s) (cacheCoins c)) m"
    using batch_loop_ok [of "utxo s" "has s" "cacheCoins c" m] assms(1) by (auto simp: cache_inv_def)
  then show ?thesis using assms(1) by (simp add: BatchWrite_def cache_simps)
qed

text \<open>The promise of the base is the promise of the cache.\<close>

lemma cache_is_view:
  "coins_view (cache_view base) (cache_inv invar utxo has) (cache_utxo utxo) cache_has (cache_best best)"
proof (unfold_locales, goal_cases)
  case (1 st txid r st')
  obtain s c where st: "st = (s, c)" by (cases st)
  obtain q s' c' where f: "FetchCoins base (s, c) txid = (q, s', c')" by (metis prod.exhaust)
  then have "r = map_option ce_coins q" "st' = (s', c')"
    using 1(2) by (simp_all add: cache_view_def GetCoins_def st)
  then show ?case using FetchCoins_ok [OF 1(1) [unfolded st] f] by (auto simp: st cache_has_def)
next
  case (2 st h st')
  then show ?case using GetBestBlock_ok [of "fst st" "snd st" h "fst st'" "snd st'"] by (simp add: cache_view_def)
next
  case (3 st m h)
  then show ?case using BatchWrite_ok [of "fst st" "snd st" m h] by (simp add: cache_view_def)
qed

text \<open>What is done through a modifier is done to the outputs of one transaction.\<close>

lemma ModifyCoins_ok:
  assumes "cache_inv invar utxo has (s, c)"
  shows "\<exists>e s'. ModifyCoins base (s, c) txid =
      Some (e, s', c\<lparr>cacheCoins := AList.update txid e (cacheCoins c), hasModifier := True\<rparr>) \<and>
    cache_inv invar utxo has (s', c) \<and> utxo s' = utxo s \<and> best s' = best s \<and>
    coins_abs (ce_coins e) = cache_utxo utxo (s, c) txid \<and> is_dirty e \<and>
    (is_fresh e \<longrightarrow> utxo s txid = (\<lambda>n. None)) \<and> (\<not> is_fresh e \<longrightarrow> has s' txid) \<and>
    (\<forall>e'. map_of (cacheCoins c) txid = Some e' \<longrightarrow> ce_coins e = ce_coins e')"
proof (cases "map_of (cacheCoins c) txid")
  case None
  obtain q s' where g: "view_GetCoins base s txid = (q, s')" by fastforce
  have i: "invar s" "map_ok (utxo s) (has s) (cacheCoins c)" "\<not> hasModifier c"
    using assms by (simp_all add: cache_inv_def)
  note law = GetCoins_law [OF i(1) g]
  have mono: "map_ok (utxo s) (has s') (cacheCoins c)" using law by (blast intro: map_ok_mono [OF i(2)])
  let ?e = "case q of None \<Rightarrow> \<lparr>ce_coins = CCoins_Clear, ce_flags = FRESH\<rparr>
    | Some coins \<Rightarrow> \<lparr>ce_coins = coins, ce_flags = if IsPruned coins then FRESH else 0\<rparr>"
  have m: "ModifyCoins base (s, c) txid = Some (?e\<lparr>ce_flags := ce_flags ?e OR DIRTY\<rparr>, s',
      c\<lparr>cacheCoins := AList.update txid (?e\<lparr>ce_flags := ce_flags ?e OR DIRTY\<rparr>) (cacheCoins c), hasModifier := True\<rparr>)"
    using g None i(3) by (cases q) (simp_all add: ModifyCoins_def Let_def)
  have a: "coins_abs (ce_coins ?e) = utxo s txid" using law by (cases q) auto
  have b: "is_fresh ?e \<longrightarrow> utxo s txid = (\<lambda>n. None)" "\<not> is_fresh ?e \<longrightarrow> has s' txid"
    using law by (cases q; auto simp: IsPruned_iff)+
  show ?thesis
    using m a b mono law i(3) None by (auto simp: cache_simps merged_at)
next
  case (Some e)
  then have "entry_ok (utxo s txid) (has s txid) e" using assms by (auto simp: cache_inv_def map_ok_def)
  then show ?thesis
    using Some assms by (auto simp: ModifyCoins_def cache_simps merged_at entry_ok_def Let_def)
qed

text \<open>Of the entries of the cache only that of the transaction changes; \<open>f\<close> is given its coins.\<close>

lemma modify_form:
  assumes "cache_inv invar utxo has (s, c)"
  shows "\<exists>coins. coins_abs coins = cache_utxo utxo (s, c) txid \<and>
    (\<forall>c'. cached (s, c) txid = Some c' \<longrightarrow> coins = c') \<and>
    (case f coins of
       None \<Rightarrow> modify base txid f (s, c) = None
     | Some (r, coins') \<Rightarrow> \<exists>st. modify base txid f (s, c) = Some (r, st) \<and>
         cache_inv invar utxo has st \<and> cache_best best st = cache_best best (s, c) \<and>
         cache_utxo utxo st = (cache_utxo utxo (s, c))(txid := coins_abs coins') \<and>
         (\<forall>h. h \<noteq> txid \<longrightarrow> cached st h = cached (s, c) h) \<and>
         (coins_abs coins' \<noteq> (\<lambda>n. None) \<longrightarrow> cached st txid = Some (CCoins_Cleanup coins')))"
proof -
  from ModifyCoins_ok [OF assms, of txid] obtain e s' where
    m: "ModifyCoins base (s, c) txid =
      Some (e, s', c\<lparr>cacheCoins := AList.update txid e (cacheCoins c), hasModifier := True\<rparr>)"
    and i: "cache_inv invar utxo has (s', c)" and u: "utxo s' = utxo s" "best s' = best s"
    and e: "coins_abs (ce_coins e) = cache_utxo utxo (s, c) txid" "is_dirty e"
      "is_fresh e \<longrightarrow> utxo s txid = (\<lambda>n. None)" "\<not> is_fresh e \<longrightarrow> has s' txid"
      "\<And>e'. map_of (cacheCoins c) txid = Some e' \<Longrightarrow> ce_coins e = ce_coins e'" by blast
  have "\<exists>st. modify base txid f (s, c) = Some (r, st) \<and>
         cache_inv invar utxo has st \<and> cache_best best st = cache_best best (s, c) \<and>
         cache_utxo utxo st = (cache_utxo utxo (s, c))(txid := coins_abs coins') \<and>
         (\<forall>h. h \<noteq> txid \<longrightarrow> cached st h = cached (s, c) h) \<and>
         (coins_abs coins' \<noteq> (\<lambda>n. None) \<longrightarrow> cached st txid = Some (CCoins_Cleanup coins'))"
    if f: "f (ce_coins e) = Some (r, coins')" for r coins'
  proof -
    let ?c = "c\<lparr>cacheCoins := AList.update txid e (cacheCoins c), hasModifier := True\<rparr>"
    let ?e = "e\<lparr>ce_coins := CCoins_Cleanup coins'\<rparr>"
    let ?m = "AList.update txid ?e (AList.update txid (e\<lparr>ce_coins := coins'\<rparr>) (AList.update txid e (cacheCoins c)))"
    let ?m' = "if is_fresh e \<and> IsPruned (CCoins_Cleanup coins') then AList.delete txid ?m else ?m"
    have d: "modify base txid f (s, c) = Some (r, s', c\<lparr>cacheCoins := ?m', hasModifier := False\<rparr>)"
      using m f by (simp add: modify_def CCoinsModifier_destroy_def update_conv' Let_def)
    have ok: "map_ok (utxo s') (has s') ?m"
      using i e u(1) by (intro map_ok_update) (simp_all add: cache_inv_def entry_ok_def)
    have abs: "merged (utxo s') ?m = (merged (utxo s') (cacheCoins c))(txid := coins_abs coins')"
      by (simp add: merged_update)
    have "merged (utxo s') ?m' = (merged (utxo s') (cacheCoins c))(txid := coins_abs coins')"
      using abs e(3) u(1) by (simp add: merged_delete IsPruned_iff)
    moreover have "map_ok (utxo s') (has s') ?m'" using ok by (simp add: map_ok_delete)
    moreover have "cached (s', c\<lparr>cacheCoins := ?m', hasModifier := False\<rparr>) h = cached (s, c) h" if "h \<noteq> txid" for h
      using that by (simp add: cached_def update_conv' delete_conv')
    moreover have "cached (s', c\<lparr>cacheCoins := ?m', hasModifier := False\<rparr>) txid = Some (CCoins_Cleanup coins')"
      if "coins_abs coins' \<noteq> (\<lambda>n. None)"
      using that by (simp add: cached_def update_conv' IsPruned_iff)
    ultimately show ?thesis using d i u by (simp add: cache_simps)
  qed
  moreover have "f (ce_coins e) = None \<Longrightarrow> modify base txid f (s, c) = None"
    using m by (simp add: modify_def)
  moreover have "\<forall>c'. cached (s, c) txid = Some c' \<longrightarrow> ce_coins e = c'" using e(5) by (auto simp: cached_def)
  ultimately show ?thesis using e(1)
    by (intro exI [of _ "ce_coins e"]) (auto split: option.split)
qed

lemma modify_ok:
  assumes "cache_inv invar utxo has (s, c)"
  shows "\<exists>coins. coins_abs coins = cache_utxo utxo (s, c) txid \<and>
    (case f coins of
       None \<Rightarrow> modify base txid f (s, c) = None
     | Some (r, coins') \<Rightarrow> \<exists>st. modify base txid f (s, c) = Some (r, st) \<and>
         cache_inv invar utxo has st \<and> cache_best best st = cache_best best (s, c) \<and>
         cache_utxo utxo st = (cache_utxo utxo (s, c))(txid := coins_abs coins'))"
  using modify_form [OF assms, of txid f] by (elim exE) (rule exI, auto split: option.splits)

lemma modify_total:
  assumes "cache_inv invar utxo has st"
  shows "\<exists>coins st'. coins_abs coins = cache_utxo utxo st txid \<and>
    modify base txid (\<lambda>c. Some (f c, g c)) st = Some (f coins, st') \<and>
    cache_inv invar utxo has st' \<and> cache_best best st' = cache_best best st \<and>
    cache_utxo utxo st' = (cache_utxo utxo st)(txid := coins_abs (g coins))"
proof -
  obtain s c where st: "st = (s, c)" by (cases st)
  show ?thesis using modify_ok [OF assms [unfolded st], of txid "\<lambda>c. Some (f c, g c)"] by (auto simp: st)
qed

end

context coins_view
begin

text \<open>\<open>Flush\<close> writes everything through and empties the cache.\<close>

lemma Flush_ok:
  assumes "cache_inv invar utxo has (s, c)"
  shows "\<exists>s' c'. Flush base (s, c) = Some (True, s', c') \<and> cache_inv invar utxo has (s', c') \<and>
    cacheCoins c' = [] \<and> utxo s' = cache_utxo utxo (s, c) \<and>
    cache_utxo utxo (s', c') = cache_utxo utxo (s, c) \<and> (cache_hashBlock c \<noteq> 0 \<longrightarrow> best s' = cache_hashBlock c)"
proof -
  have i: "invar s" "map_ok (utxo s) (has s) (cacheCoins c)" "\<not> hasModifier c"
    using assms by (simp_all add: cache_inv_def)
  obtain s' where s': "view_BatchWrite base s (cacheCoins c) (cache_hashBlock c) = Some (True, s')" "invar s'"
    "utxo s' = merged (utxo s) (cacheCoins c)" "cache_hashBlock c \<noteq> 0 \<longrightarrow> best s' = cache_hashBlock c"
    using BatchWrite_law [OF i(1,2)] by blast
  have "merged (utxo s') [] = utxo s'" by (simp add: merged_def fun_eq_iff)
  then show ?thesis using s' i(3) by (simp add: Flush_def cache_simps map_ok_def)
qed

end

section \<open>The database is a view\<close>

definition db_inv :: "CCoinsViewDB \<Rightarrow> bool" where
  "db_inv db \<longleftrightarrow> (\<forall>txid c. db_coins db txid = Some c \<longrightarrow> \<not> IsPruned c)"

definition db_utxo :: "CCoinsViewDB \<Rightarrow> coins_fun" where
  "db_utxo db txid = coins_opt (db_coins db txid)"

lemma db_batch_other: "map_of m txid = None \<Longrightarrow> db_batch m coins txid = coins txid"
  by (induction m coins rule: db_batch.induct) (auto split: if_splits)

lemma db_batch_at:
  "distinct (map fst m) \<Longrightarrow> map_of m txid = Some e \<Longrightarrow> db_batch m coins txid =
     (if is_dirty e then if IsPruned (ce_coins e) then None else Some (ce_coins e) else coins txid)"
proof (induction m coins rule: db_batch.induct)
  case (2 t e' m coins)
  then show ?case
    by (cases "t = txid") (auto simp: db_batch_other map_of_eq_None_iff)
qed simp

interpretation db: coins_view db_view db_inv db_utxo "\<lambda>db txid. True" "\<lambda>db. fst (db_GetBestBlock db)"
proof (unfold_locales, goal_cases)
  case (3 s m h)
  let ?s = "\<lparr>db_coins = db_batch m (db_coins s), db_best = if h \<noteq> 0 then Some h else db_best s\<rparr>"
  have d: "distinct (map fst m)" using 3(2) by (simp add: map_ok_def)
  have "db_utxo ?s txid = merged (db_utxo s) m txid" for txid
  proof (cases "map_of m txid")
    case (Some e)
    then have "entry_ok (db_utxo s txid) True e" using 3(2) by (simp add: map_ok_def)
    then show ?thesis using db_batch_at [OF d Some, of "db_coins s"] Some
      by (auto simp: db_utxo_def merged_at entry_ok_def IsPruned_iff)
  qed (simp add: db_utxo_def db_batch_other merged_at)
  moreover have "db_inv ?s"
    unfolding db_inv_def
  proof (intro allI impI)
    fix txid c assume "db_coins ?s txid = Some c"
    then show "\<not> IsPruned c"
      using 3(1) db_batch_at [OF d, of txid _ "db_coins s"] db_batch_other [of m txid "db_coins s"]
      by (cases "map_of m txid") (auto simp: db_inv_def split: if_splits)
  qed
  ultimately show ?case
    by (auto simp: db_view_def db_BatchWrite_def db_GetBestBlock_def fun_eq_iff)
qed (auto simp: db_view_def db_GetCoins_def db_GetBestBlock_def db_utxo_def)

text \<open>\<open>pcoinsTip\<close>, the cache over the database, and a cache over it, as \<open>ConnectTip\<close> makes one.\<close>

abbreviation tip_view :: "(CCoinsViewDB \<times> CCoinsViewCache) CCoinsView" where
  "tip_view \<equiv> cache_view db_view"

abbreviation tip_inv :: "CCoinsViewDB \<times> CCoinsViewCache \<Rightarrow> bool" where
  "tip_inv \<equiv> cache_inv db_inv db_utxo (\<lambda>db txid. True)"

abbreviation tip_utxo :: "CCoinsViewDB \<times> CCoinsViewCache \<Rightarrow> coins_fun" where
  "tip_utxo \<equiv> cache_utxo db_utxo"

abbreviation tip_best :: "CCoinsViewDB \<times> CCoinsViewCache \<Rightarrow> uint256" where
  "tip_best \<equiv> cache_best (\<lambda>db. fst (db_GetBestBlock db))"

interpretation tip: coins_view tip_view tip_inv tip_utxo cache_has tip_best
  by (rule db.cache_is_view)

abbreviation work_inv :: "(CCoinsViewDB \<times> CCoinsViewCache) \<times> CCoinsViewCache \<Rightarrow> bool" where
  "work_inv \<equiv> cache_inv tip_inv tip_utxo cache_has"

abbreviation work_utxo :: "(CCoinsViewDB \<times> CCoinsViewCache) \<times> CCoinsViewCache \<Rightarrow> coins_fun" where
  "work_utxo \<equiv> cache_utxo tip_utxo"

abbreviation work_best :: "(CCoinsViewDB \<times> CCoinsViewCache) \<times> CCoinsViewCache \<Rightarrow> uint256" where
  "work_best \<equiv> cache_best tip_best"

interpretation work: coins_view "cache_view tip_view" work_inv work_utxo cache_has work_best
  by (rule tip.cache_is_view)

lemma GetCoins_work:
  assumes "work_inv st"
  shows "\<exists>r st'. GetCoins tip_view st txid = (r, st') \<and> work_inv st' \<and> work_utxo st' = work_utxo st \<and>
    coins_opt r = work_utxo st txid"
proof -
  obtain r st' where g: "GetCoins tip_view st txid = (r, st')" by (metis prod.exhaust)
  then have "view_GetCoins (cache_view tip_view) st txid = (r, st')" by (simp add: cache_view_def)
  from work.GetCoins_law [OF assms this] g show ?thesis by auto
qed

lemma Flush_work:
  assumes "work_inv st"
  shows "\<exists>s c db c'. Flush tip_view st = Some (True, s, c) \<and> Flush db_view s = Some (True, db, c') \<and>
    work_inv (s, c) \<and> tip_inv (db, c') \<and>
    work_utxo (s, c) = work_utxo st \<and> tip_utxo s = work_utxo st \<and> db_utxo db = work_utxo st"
proof -
  obtain s0 c0 where st: "st = (s0, c0)" by (cases st)
  obtain s c where 1: "Flush tip_view (s0, c0) = Some (True, s, c)" "work_inv (s, c)"
      "tip_utxo s = work_utxo (s0, c0)" "work_utxo (s, c) = work_utxo (s0, c0)"
    using tip.Flush_ok [OF assms [unfolded st]] by blast
  then have i: "tip_inv s" by (simp add: cache_inv_def)
  obtain s1 c1 where s: "s = (s1, c1)" by (cases s)
  obtain db c' where 2: "Flush db_view (s1, c1) = Some (True, db, c')" "tip_inv (db, c')"
      "db_utxo db = tip_utxo (s1, c1)"
    using db.Flush_ok [OF i [unfolded s]] by blast
  show ?thesis using 1 2 unfolding st s by metis
qed

text \<open>A state with an output that only the upper cache knows.\<close>

definition dirty_coins :: CCoins where
  "dirty_coins = \<lparr>cc_fCoinBase = True, cc_fCoinStake = False, cc_vout = [CTxOut_of 5 []],
     cc_nHeight = 1, cc_nVersion = 1\<rparr>"

definition dirty_state :: "(CCoinsViewDB \<times> CCoinsViewCache) \<times> CCoinsViewCache" where
  "dirty_state = ((\<lparr>db_coins = (\<lambda>txid. None), db_best = None\<rparr>, CCoinsViewCache_new),
     CCoinsViewCache_new\<lparr>cacheCoins := [(7, \<lparr>ce_coins = dirty_coins, ce_flags = DIRTY OR FRESH\<rparr>)]\<rparr>)"

lemma dirty_state_ok:
  "work_inv dirty_state" "work_utxo dirty_state = (\<lambda>h n. None)(7 := coins_abs dirty_coins)"
  by (auto simp: dirty_state_def cache_simps map_ok_def CCoinsViewCache_new_def db_inv_def db_utxo_def
      merged_def entry_ok_def fun_eq_iff)

section \<open>Properties\<close>

text \<open>
  C20. On the cache ConnectTip puts over pcoinsTip and its database, GetCoins reads the outputs
  the whole stack stands for and changes none of them, a modifier changes those of its transaction
  only, and flushing both caches leaves the database with exactly these outputs.
\<close>

theorem coins_cache:
  assumes "work_inv st"
  shows "(\<exists>r st'. GetCoins tip_view st txid = (r, st') \<and> work_inv st' \<and> work_utxo st' = work_utxo st \<and>
      coins_opt r = work_utxo st txid) \<and>
    (\<exists>coins st'. coins_abs coins = work_utxo st txid \<and>
      modify tip_view txid (\<lambda>coins. Some ((), f coins)) st = Some ((), st') \<and>
      work_inv st' \<and> work_utxo st' = (work_utxo st)(txid := coins_abs (f coins))) \<and>
    (\<exists>s c db c'. Flush tip_view st = Some (True, s, c) \<and> Flush db_view s = Some (True, db, c') \<and>
      work_inv (s, c) \<and> tip_inv (db, c') \<and>
      work_utxo (s, c) = work_utxo st \<and> tip_utxo s = work_utxo st \<and> db_utxo db = work_utxo st)"
  using GetCoins_work [OF assms, of txid] Flush_work [OF assms]
    tip.modify_total [OF assms, of txid "\<lambda>_. ()" f] by fast

theorem coins_cache_witness:
  "\<exists>s c db c'. Flush tip_view dirty_state = Some (True, s, c) \<and> Flush db_view s = Some (True, db, c') \<and>
     db_utxo db = (\<lambda>h n. None)(7 := coins_abs dirty_coins)"
  using coins_cache [OF dirty_state_ok(1), of 7 id] unfolding dirty_state_ok(2) by blast

end
