(* ===== verification/ConnectTx.thy ===== *)
theory ConnectTx
  imports CoinsView
begin

text \<open>
  A transaction applied to a view of the unspent outputs and taken back (\<open>CCoinsViewCache\<close> of
  \<open>src/coins.cpp\<close>, \<open>UpdateCoins\<close> and \<open>DisconnectBlock\<close> of \<open>src/main.cpp\<close>). Over any view the
  first removes the inputs and adds the outputs, and the second restores what was there, except
  for the stake flag of a transaction whose last output was spent.
\<close>

section \<open>Reading inputs\<close>

definition AccessCoins ::
    "'s CCoinsView \<Rightarrow> 's \<times> CCoinsViewCache \<Rightarrow> uint256 \<Rightarrow> CCoins option \<times> 's \<times> CCoinsViewCache" where
  "AccessCoins base st txid = (case FetchCoins base st txid of (r, st) \<Rightarrow> (map_option ce_coins r, st))"

text \<open>\<open>None\<close> is the failed assertion that the output is there.\<close>

definition GetOutputFor ::
    "'s CCoinsView \<Rightarrow> 's \<times> CCoinsViewCache \<Rightarrow> CTxIn \<Rightarrow> (CTxOut \<times> 's \<times> CCoinsViewCache) option" where
  "GetOutputFor base st input =
     (case AccessCoins base st (op_hash (prevout input)) of
        (None, st) \<Rightarrow> None
      | (Some coins, st) \<Rightarrow>
          if IsAvailable coins (unat (op_n (prevout input)))
          then Some (cc_vout coins ! unat (op_n (prevout input)), st) else None)"

fun value_in_loop ::
    "'s CCoinsView \<Rightarrow> CTxIn list \<Rightarrow> CAmount \<Rightarrow> 's \<times> CCoinsViewCache \<Rightarrow> (CAmount \<times> 's \<times> CCoinsViewCache) option" where
  "value_in_loop base [] nResult st = Some (nResult, st)"
| "value_in_loop base (txin # ins) nResult st =
     (case GetOutputFor base st txin of
        None \<Rightarrow> None
      | Some (txout, st) \<Rightarrow> value_in_loop base ins (nResult + nValue txout) st)"

definition GetValueIn ::
    "'s CCoinsView \<Rightarrow> 's \<times> CCoinsViewCache \<Rightarrow> CTransaction \<Rightarrow> (CAmount \<times> 's \<times> CCoinsViewCache) option" where
  "GetValueIn base st tx =
     (if IsCoinBase tx then Some (0, st)
      else if HasZerocoinSpendInputs tx then Some (GetZerocoinSpent tx, st)
      else value_in_loop base (vin tx) 0 st)"

fun have_inputs_loop ::
    "'s CCoinsView \<Rightarrow> bool \<Rightarrow> int \<Rightarrow> CTxIn list \<Rightarrow> 's \<times> CCoinsViewCache \<Rightarrow> bool \<times> 's \<times> CCoinsViewCache" where
  "have_inputs_loop base coinstake Hcheck [] st = (True, st)"
| "have_inputs_loop base coinstake Hcheck (txin # ins) st =
     (case AccessCoins base st (op_hash (prevout txin)) of
        (None, st) \<Rightarrow> (False, st)
      | (Some coins, st) \<Rightarrow>
          if sint (cc_nHeight coins) < Hcheck \<and> \<not> coinstake \<or>
             \<not> IsAvailable coins (unat (op_n (prevout txin)))
          then (False, st) else have_inputs_loop base coinstake Hcheck ins st)"

definition HaveInputs ::
    "'s CCoinsView \<Rightarrow> 's \<times> CCoinsViewCache \<Rightarrow> CTransaction \<Rightarrow> int \<Rightarrow> bool \<times> 's \<times> CCoinsViewCache" where
  "HaveInputs base st tx Hcheck =
     (if \<not> IsCoinBase tx \<and> \<not> HasZerocoinSpendInputs tx
      then have_inputs_loop base (IsCoinStake tx) Hcheck (vin tx) st else (True, st))"

lemma AccessCoins_cached: "cached st h = Some c \<Longrightarrow> AccessCoins base st h = (Some c, st)"
  by (cases st) (auto simp: cached_def AccessCoins_def FetchCoins_def)

lemma AccessCoins_grows:
  assumes "AccessCoins base st h = (q, st')"
  shows "cache_grows st st'" and "q = cached st' h"
proof -
  obtain s c where st: "st = (s, c)" by (cases st)
  have "cache_grows st st' \<and> q = cached st' h"
  proof (cases "map_of (cacheCoins c) h")
    case None
    then show ?thesis
      using assms unfolding st AccessCoins_def FetchCoins_def
      by (auto simp: cache_grows_def cached_def Let_def update_conv' split: prod.splits option.splits)
  next
    case (Some e)
    then show ?thesis using assms by (auto simp: st AccessCoins_def FetchCoins_def cached_def)
  qed
  then show "cache_grows st st'" "q = cached st' h" by simp_all
qed

section \<open>Connecting\<close>

text \<open>\<open>None\<close> is the failed assertion that the output could be spent.\<close>

fun spend_inputs ::
    "'s CCoinsView \<Rightarrow> CTxIn list \<Rightarrow> CTxInUndo list \<Rightarrow> 's \<times> CCoinsViewCache \<Rightarrow>
     (CTxInUndo list \<times> 's \<times> CCoinsViewCache) option" where
  "spend_inputs base [] vprevout st = Some (vprevout, st)"
| "spend_inputs base (txin # ins) vprevout st =
     (case modify base (op_hash (prevout txin))
         (\<lambda>coins. map_option (\<lambda>(coins, undo). (undo, coins)) (CCoins_Spend coins (unat (op_n (prevout txin))))) st of
        None \<Rightarrow> None
      | Some (undo, st) \<Rightarrow> spend_inputs base ins (vprevout @ [undo]) st)"

definition UpdateCoins ::
    "'s CCoinsView \<Rightarrow> CTransaction \<Rightarrow> 's \<times> CCoinsViewCache \<Rightarrow> CTxInUndo list \<Rightarrow> u32 \<Rightarrow>
     (CTxInUndo list \<times> 's \<times> CCoinsViewCache) option" where
  "UpdateCoins base tx inputs txundo nHeight =
     (case (if \<not> IsCoinBase tx \<and> \<not> HasZerocoinSpendInputs tx
            then spend_inputs base (vin tx) txundo inputs else Some (txundo, inputs)) of
        None \<Rightarrow> None
      | Some (txundo, inputs) \<Rightarrow>
          map_option (\<lambda>(_, inputs). (txundo, inputs))
            (modify base (tx_hash tx) (\<lambda>coins. Some ((), CCoins_FromTx tx nHeight)) inputs))"

section \<open>Disconnecting\<close>

definition remove_outputs ::
    "'s CCoinsView \<Rightarrow> CTransaction \<Rightarrow> u32 \<Rightarrow> 's \<times> CCoinsViewCache \<Rightarrow> (bool \<times> 's \<times> CCoinsViewCache) option" where
  "remove_outputs base tx nHeight =
     modify base (tx_hash tx)
       (\<lambda>outs.
         (let outs = ClearUnspendable outs;
              outsBlock = CCoins_FromTx tx nHeight;
              outs = (if cc_nVersion outsBlock <s 0 then outs\<lparr>cc_nVersion := cc_nVersion outsBlock\<rparr> else outs);
              fClean = CCoins_eq outs outsBlock
          in Some (fClean, CCoins_Clear)))"

text \<open>The inputs with their undo data, last input first.\<close>

fun restore_inputs ::
    "'s CCoinsView \<Rightarrow> (CTxIn \<times> CTxInUndo) list \<Rightarrow> bool \<Rightarrow> 's \<times> CCoinsViewCache \<Rightarrow>
     (bool \<times> 's \<times> CCoinsViewCache) option" where
  "restore_inputs base [] fClean st = Some (fClean, st)"
| "restore_inputs base ((txin, undo) # ins) fClean st =
     (case modify base (op_hash (prevout txin))
         (\<lambda>coins. restore_output coins (op_n (prevout txin)) undo) st of
        None \<Rightarrow> None
      | Some (ok, st) \<Rightarrow> restore_inputs base ins (fClean \<and> ok) st)"

text \<open>Without the address index. \<open>None\<close> also stands for the error of inconsistent undo data.\<close>

definition disconnect_tx ::
    "'s CCoinsView \<Rightarrow> CTransaction \<Rightarrow> CTxInUndo list \<Rightarrow> u32 \<Rightarrow> 's \<times> CCoinsViewCache \<Rightarrow>
     (bool \<times> 's \<times> CCoinsViewCache) option" where
  "disconnect_tx base tx vprevout nHeight st =
     (case remove_outputs base tx nHeight st of
        None \<Rightarrow> None
      | Some (fClean, st) \<Rightarrow>
          if \<not> IsCoinBase tx \<and> \<not> HasZerocoinSpendInputs tx then
            (if length vprevout \<noteq> length (vin tx) then None
             else restore_inputs base (rev (zip (vin tx) vprevout)) fClean st)
          else Some (fClean, st))"

section \<open>The same on functions\<close>

abbreviation outpoint :: "CTxIn \<Rightarrow> uint256 \<times> nat" where
  "outpoint txin \<equiv> (op_hash (prevout txin), unat (op_n (prevout txin)))"

definition remove_coin :: "coins_fun \<Rightarrow> uint256 \<times> nat \<Rightarrow> coins_fun" where
  "remove_coin U p = U(fst p := (U (fst p))(snd p := None))"

definition undo_for :: "(nat \<Rightarrow> coin option) \<Rightarrow> nat \<Rightarrow> CTxInUndo" where
  "undo_for f n = (case f n of
     Some x \<Rightarrow>
       if f(n := None) = (\<lambda>n. None)
       then \<lparr>un_txout = coin_out x, un_fCoinBase = coin_base x, un_fCoinStake = coin_stake x,
         un_nHeight = coin_height x, un_nVersion = coin_version x\<rparr>
       else CTxInUndo_of (coin_out x))"

lemma CCoins_Spend_eq:
  "CCoins_Spend c n = (case coins_abs c n of None \<Rightarrow> None
     | Some x \<Rightarrow> Some (fst (the (CCoins_Spend c n)), undo_for (coins_abs c) n))"
proof (cases "CCoins_Spend c n")
  case (Some p)
  then obtain c' undo where "CCoins_Spend c n = Some (c', undo)" by (cases p) auto
  with CCoins_Spend_Some [OF this] show ?thesis by (auto simp: undo_for_def)
qed (use CCoins_Spend_None in auto)

fun undos_for :: "coins_fun \<Rightarrow> (uint256 \<times> nat) list \<Rightarrow> CTxInUndo list" where
  "undos_for U [] = []"
| "undos_for U (p # ps) = undo_for (U (fst p)) (snd p) # undos_for (remove_coin U p) ps"

fun all_there :: "coins_fun \<Rightarrow> (uint256 \<times> nat) list \<Rightarrow> bool" where
  "all_there U [] = True"
| "all_there U (p # ps) \<longleftrightarrow> U (fst p) (snd p) \<noteq> None \<and> all_there (remove_coin U p) ps"

lemma remove_coin_at: "remove_coin U p h n = (if (h, n) = p then None else U h n)"
  by (cases p) (auto simp: remove_coin_def)

lemma fold_remove_coin: "fold (\<lambda>p U. remove_coin U p) ps U h n = (if (h, n) \<in> set ps then None else U h n)"
  by (induction ps arbitrary: U) (auto simp: remove_coin_at)

lemma all_there_iff: "all_there U ps \<longleftrightarrow> distinct ps \<and> (\<forall>(h, n) \<in> set ps. U h n \<noteq> None)"
proof (induction ps arbitrary: U)
  case (Cons p ps)
  then show ?case by (cases p) (auto simp: remove_coin_at split: if_splits)
qed simp

context coins_source
begin

lemma spend_inputs_ok:
  assumes "cache_inv invar utxo has st"
  shows "if all_there (cache_utxo utxo st) (map outpoint ins)
    then \<exists>st'. spend_inputs base ins vs st = Some (vs @ undos_for (cache_utxo utxo st) (map outpoint ins), st') \<and>
      cache_inv invar utxo has st' \<and> cache_best best st' = cache_best best st \<and>
      cache_utxo utxo st' = fold (\<lambda>p U. remove_coin U p) (map outpoint ins) (cache_utxo utxo st)
    else spend_inputs base ins vs st = None"
  using assms
proof (induction ins arbitrary: vs st)
  case (Cons txin ins)
  obtain s c where st: "st = (s, c)" by (cases st)
  let ?h = "op_hash (prevout txin)" and ?n = "unat (op_n (prevout txin))"
  let ?f = "\<lambda>coins. map_option (\<lambda>(coins, undo). (undo, coins)) (CCoins_Spend coins ?n)"
  let ?U = "cache_utxo utxo st"
  obtain coins where coins: "coins_abs coins = ?U ?h"
    and m: "case ?f coins of None \<Rightarrow> modify base ?h ?f st = None
      | Some (r, coins') \<Rightarrow> \<exists>st'. modify base ?h ?f st = Some (r, st') \<and>
         cache_inv invar utxo has st' \<and> cache_best best st' = cache_best best st \<and>
         cache_utxo utxo st' = (cache_utxo utxo st)(?h := coins_abs coins')"
    using modify_ok [OF Cons.prems [unfolded st], of ?h ?f] unfolding st by blast
  show ?case
  proof (cases "?U ?h ?n")
    case None
    then have "CCoins_Spend coins ?n = None" using CCoins_Spend_None coins by simp
    then show ?thesis using m None by simp
  next
    case (Some x)
    then obtain c' where c': "CCoins_Spend coins ?n = Some (c', undo_for (?U ?h) ?n)"
      using CCoins_Spend_eq [of coins ?n] coins by simp
    then have abs: "coins_abs c' = (?U ?h)(?n := None)" using CCoins_Spend_Some [OF c'] coins by auto
    obtain st' where st': "modify base ?h ?f st = Some (undo_for (?U ?h) ?n, st')"
      "cache_inv invar utxo has st'" "cache_best best st' = cache_best best st"
      "cache_utxo utxo st' = remove_coin ?U (outpoint txin)"
      using m c' abs by (auto simp: remove_coin_def)
    then show ?thesis
      using Cons.IH [OF st'(2), of "vs @ [undo_for (?U ?h) ?n]"] Some by (auto split: if_splits)
  qed
qed simp

lemma UpdateCoins_ok:
  assumes "cache_inv invar utxo has st"
  shows "let U = cache_utxo utxo st; ins = (if IsCoinBase tx \<or> HasZerocoinSpendInputs tx then [] else vin tx)
    in if all_there U (map outpoint ins)
      then \<exists>st'. UpdateCoins base tx st [] nHeight = Some (undos_for U (map outpoint ins), st') \<and>
        cache_inv invar utxo has st' \<and> cache_best best st' = cache_best best st \<and>
        cache_utxo utxo st' = (fold (\<lambda>p U. remove_coin U p) (map outpoint ins) U)
          (tx_hash tx := coins_abs (CCoins_FromTx tx nHeight))
      else UpdateCoins base tx st [] nHeight = None"
proof -
  let ?U = "cache_utxo utxo st" and ?ins = "if IsCoinBase tx \<or> HasZerocoinSpendInputs tx then [] else vin tx"
  have u: "UpdateCoins base tx st [] nHeight =
      (case spend_inputs base ?ins [] st of
         None \<Rightarrow> None
       | Some (txundo, inputs) \<Rightarrow>
           map_option (\<lambda>(_, inputs). (txundo, inputs))
             (modify base (tx_hash tx) (\<lambda>coins. Some ((), CCoins_FromTx tx nHeight)) inputs))"
    by (simp add: UpdateCoins_def)
  show ?thesis
  proof (cases "all_there ?U (map outpoint ?ins)")
    case True
    obtain s c where st': "spend_inputs base ?ins [] st = Some (undos_for ?U (map outpoint ?ins), s, c)"
      "cache_inv invar utxo has (s, c)" "cache_best best (s, c) = cache_best best st"
      "cache_utxo utxo (s, c) = fold (\<lambda>p U. remove_coin U p) (map outpoint ?ins) ?U"
      using spend_inputs_ok [OF assms, of ?ins "[]"] True by (auto split: if_splits)
    from modify_ok [OF st'(2), of "tx_hash tx" "\<lambda>coins. Some ((), CCoins_FromTx tx nHeight)"]
    obtain st'' where "modify base (tx_hash tx) (\<lambda>coins. Some ((), CCoins_FromTx tx nHeight)) (s, c) = Some ((), st'')"
      "cache_inv invar utxo has st''" "cache_best best st'' = cache_best best (s, c)"
      "cache_utxo utxo st'' = (cache_utxo utxo (s, c))(tx_hash tx := coins_abs (CCoins_FromTx tx nHeight))"
      by auto
    then show ?thesis using st' True by (simp only: Let_def if_True u) simp
  next
    case False
    then have "spend_inputs base ?ins [] st = None"
      using spend_inputs_ok [OF assms, of ?ins "[]"] by (simp split: if_splits)
    then show ?thesis using False by (simp only: Let_def if_False u) simp
  qed
qed

end

section \<open>The inputs are there\<close>

definition input_ok :: "coins_fun \<Rightarrow> bool \<Rightarrow> int \<Rightarrow> CTxIn \<Rightarrow> bool" where
  "input_ok U coinstake Hcheck txin =
     (case U (op_hash (prevout txin)) (unat (op_n (prevout txin))) of
        None \<Rightarrow> False
      | Some x \<Rightarrow> \<not> CTxOut_IsZerocoinMint (coin_out x) \<and> (coinstake \<or> sint (coin_height x) \<ge> Hcheck))"

lemma IsAvailable_iff:
  "IsAvailable c n \<longleftrightarrow> (\<exists>x. coins_abs c n = Some x \<and> \<not> CTxOut_IsZerocoinMint (coin_out x))"
  by (auto simp: IsAvailable_def coins_abs_def)

lemma coins_abs_fields:
  "coins_abs c n = Some x \<Longrightarrow> coin_out x = cc_vout c ! n \<and> coin_height x = cc_nHeight c \<and>
     coin_base x = cc_fCoinBase c \<and> coin_stake x = cc_fCoinStake c"
  by (auto simp: coins_abs_def split: if_splits)

context coins_source
begin

lemma AccessCoins_ok:
  assumes "cache_inv invar utxo has st" and "AccessCoins base st txid = (r, st')"
  shows "cache_inv invar utxo has st' \<and> cache_utxo utxo st' = cache_utxo utxo st \<and>
    cache_best best st' = cache_best best st \<and> coins_opt r = cache_utxo utxo st txid"
proof -
  obtain s c where st: "st = (s, c)" by (cases st)
  obtain q s' c' where f: "FetchCoins base (s, c) txid = (q, s', c')" by (metis prod.exhaust)
  then have "r = map_option ce_coins q" "st' = (s', c')" using assms(2) by (simp_all add: AccessCoins_def st)
  then show ?thesis using FetchCoins_ok [OF assms(1) [unfolded st] f] unfolding st by metis
qed

lemma have_inputs_loop_ok:
  assumes "cache_inv invar utxo has st"
  shows "\<exists>st'. have_inputs_loop base k H ins st = (list_all (input_ok (cache_utxo utxo st) k H) ins, st') \<and>
    cache_inv invar utxo has st' \<and> cache_utxo utxo st' = cache_utxo utxo st \<and>
    cache_best best st' = cache_best best st"
  using assms
proof (induction ins arbitrary: st)
  case (Cons txin ins)
  let ?h = "op_hash (prevout txin)" and ?n = "unat (op_n (prevout txin))"
  obtain r s1 c1 where a: "AccessCoins base st ?h = (r, s1, c1)" by (metis prod.exhaust)
  note ok = AccessCoins_ok [OF Cons.prems a]
  have "input_ok (cache_utxo utxo st) k H txin \<longleftrightarrow> (case r of None \<Rightarrow> False
    | Some coins \<Rightarrow> \<not> (sint (cc_nHeight coins) < H \<and> \<not> k \<or> \<not> IsAvailable coins ?n))"
  proof (cases r)
    case None
    then have "cache_utxo utxo st ?h = (\<lambda>n. None)" using ok by simp
    then show ?thesis using None by (simp add: input_ok_def)
  next
    case (Some coins)
    then have "cache_utxo utxo st ?h = coins_abs coins" using ok by simp
    then show ?thesis using Some coins_abs_fields [of coins ?n]
      by (cases "coins_abs coins ?n") (auto simp: input_ok_def IsAvailable_iff)
  qed
  moreover obtain s2 c2 where "have_inputs_loop base k H ins (s1, c1) =
      (list_all (input_ok (cache_utxo utxo (s1, c1)) k H) ins, s2, c2)" "cache_inv invar utxo has (s2, c2)"
      "cache_utxo utxo (s2, c2) = cache_utxo utxo (s1, c1)" "cache_best best (s2, c2) = cache_best best (s1, c1)"
    using Cons.IH [of "(s1, c1)"] ok by auto
  ultimately show ?case using a ok by (cases r) auto
qed simp

text \<open>\<open>HaveInputs\<close> looks at the outputs and changes nothing; when it holds and no output is named
  twice, \<open>UpdateCoins\<close> does not fail.\<close>

lemma HaveInputs_ok:
  assumes "cache_inv invar utxo has st"
    and "ins = (if IsCoinBase tx \<or> HasZerocoinSpendInputs tx then [] else vin tx)"
  shows "\<exists>st'. HaveInputs base st tx H = (list_all (input_ok (cache_utxo utxo st) (IsCoinStake tx) H) ins, st') \<and>
    cache_inv invar utxo has st' \<and> cache_utxo utxo st' = cache_utxo utxo st \<and>
    cache_best best st' = cache_best best st"
proof (cases "IsCoinBase tx \<or> HasZerocoinSpendInputs tx")
  case True
  then have "HaveInputs base st tx H = (True, st)" by (auto simp: HaveInputs_def)
  then show ?thesis using True assms by simp
next
  case False
  then show ?thesis
    using have_inputs_loop_ok [OF assms(1), of "IsCoinStake tx" H "vin tx"] assms(2)
    by (simp add: HaveInputs_def)
qed

lemma input_ok_all_there:
  assumes "list_all (input_ok U k H) ins" and "distinct (map outpoint ins)"
  shows "all_there U (map outpoint ins)"
  using assms by (fastforce simp: all_there_iff list_all_iff input_ok_def split: option.splits)

lemma value_in_loop_ok:
  assumes "cache_inv invar utxo has st" and "list_all (input_ok (cache_utxo utxo st) k H) ins"
  shows "\<exists>st'. value_in_loop base ins r st =
      Some (r + (\<Sum>txin \<leftarrow> ins. nValue (coin_out (the (cache_utxo utxo st (op_hash (prevout txin)) (unat (op_n (prevout txin))))))), st') \<and>
    cache_inv invar utxo has st' \<and> cache_utxo utxo st' = cache_utxo utxo st \<and>
    cache_best best st' = cache_best best st"
  using assms
proof (induction ins arbitrary: st r)
  case (Cons txin ins)
  let ?h = "op_hash (prevout txin)" and ?n = "unat (op_n (prevout txin))"
  obtain q st' where a: "AccessCoins base st ?h = (q, st')" by (metis prod.exhaust)
  note ok = AccessCoins_ok [OF Cons.prems(1) a]
  obtain x where x: "cache_utxo utxo st ?h ?n = Some x" "\<not> CTxOut_IsZerocoinMint (coin_out x)"
    using Cons.prems(2) by (auto simp: input_ok_def split: option.splits)
  then have "coins_opt q ?n = Some x" using ok by simp
  then obtain coins where c: "q = Some coins" "coins_abs coins ?n = Some x" by (cases q) auto
  then have "GetOutputFor base st txin = Some (coin_out x, st')"
    using a x coins_abs_fields [OF c(2)] by (simp add: GetOutputFor_def IsAvailable_iff)
  then show ?case using Cons.IH [of st' "r + nValue (coin_out x)"] Cons.prems(2) ok x by (auto simp: add.assoc)
qed simp

end

section \<open>Restoring\<close>

text \<open>The coins of one transaction all carry its data.\<close>

definition same_tx :: "(nat \<Rightarrow> coin option) \<Rightarrow> bool" where
  "same_tx f \<longleftrightarrow> (\<forall>n m x y. f n = Some x \<longrightarrow> f m = Some y \<longrightarrow> y\<lparr>coin_out := coin_out x\<rparr> = x)"

definition unstake :: "bool \<Rightarrow> (nat \<Rightarrow> coin option) \<Rightarrow> nat \<Rightarrow> coin option" where
  "unstake k f = (\<lambda>n. map_option (\<lambda>x. if k then x\<lparr>coin_stake := False\<rparr> else x) (f n))"

lemma same_tx_coins_abs: "same_tx (coins_abs c)"
  using coins_abs_same_tx unfolding same_tx_def by blast

lemma unstake_empty [simp]: "unstake k (\<lambda>n. None) = (\<lambda>n. None)"
  by (simp add: unstake_def)

lemma unstake_empty_iff [simp]: "unstake k f = (\<lambda>n. None) \<longleftrightarrow> f = (\<lambda>n. None)"
  by (simp add: unstake_def fun_eq_iff)

lemma restored_undo:
  assumes "same_tx f" and "f n = Some x" and "coin_height x \<noteq> 0"
    and "g = unstake k (f(n := None))"
  shows "g(n \<mapsto> restored_coin g (undo_for f n)) = unstake (k \<or> f(n := None) = (\<lambda>n. None)) f"
proof (cases "f(n := None) = (\<lambda>n. None)")
  case True
  then have "f m = None" if "m \<noteq> n" for m using that by (metis fun_upd_other)
  then show ?thesis using True assms(2-4)
    by (auto simp: unstake_def undo_for_def restored_coin_def fun_eq_iff)
next
  case False
  let ?x = "if k then x\<lparr>coin_stake := False\<rparr> else x"
  have "\<exists>m. g m \<noteq> None" using False assms(4) by (auto simp: unstake_def fun_eq_iff)
  then have "g (LEAST m. g m \<noteq> None) \<noteq> None" by (rule LeastI_ex)
  then obtain m y where m: "(LEAST m. g m \<noteq> None) = m" "g m = Some y" by blast
  then obtain z where z: "m \<noteq> n" "f m = Some z" "y = (if k then z\<lparr>coin_stake := False\<rparr> else z)"
    using assms(4) by (auto simp: unstake_def split: if_splits)
  have "z\<lparr>coin_out := coin_out x\<rparr> = x" using assms(1,2) z(2) unfolding same_tx_def by blast
  then have "y\<lparr>coin_out := coin_out x\<rparr> = ?x" by (cases k; cases x; cases z) (auto simp: z(3))
  then have "restored_coin g (undo_for f n) = ?x"
    using m False assms(2) by (simp add: restored_coin_def undo_for_def CTxInUndo_of_def)
  moreover have "unstake (k \<or> f(n := None) = (\<lambda>n. None)) f = unstake k f" using False by simp
  moreover have "unstake k f = (unstake k (f(n := None)))(n \<mapsto> ?x)"
    using assms(2) by (simp add: unstake_def fun_eq_iff)
  ultimately show ?thesis unfolding assms(4) by (simp only:)
qed

text \<open>What a database and the caches over it stand for.\<close>

definition utxo_ok :: "coins_fun \<Rightarrow> bool" where
  "utxo_ok U \<longleftrightarrow> (\<forall>h. same_tx (U h)) \<and>
     (\<forall>h n x. U h n = Some x \<longrightarrow> coin_height x \<noteq> 0 \<and> \<not> CTxOut_IsNull (coin_out x))"

lemma utxo_ok_remove [simp]: "utxo_ok U \<Longrightarrow> utxo_ok (remove_coin U p)"
  by (auto simp: utxo_ok_def same_tx_def remove_coin_def)

lemma coins_abs_not_null: "coins_abs c n = Some x \<Longrightarrow> \<not> CTxOut_IsNull (coin_out x)"
  by (auto simp: coins_abs_def split: if_splits)

lemma length_undos_for [simp]: "length (undos_for U ps) = length ps"
  by (induction ps arbitrary: U) auto

text \<open>Whether a list of outpoints takes all that is left of a transaction.\<close>

definition takes_all :: "coins_fun \<Rightarrow> (uint256 \<times> nat) list \<Rightarrow> uint256 \<Rightarrow> bool" where
  "takes_all U ps h \<longleftrightarrow> (\<forall>n. U h n \<noteq> None \<longrightarrow> (h, n) \<in> set ps)"

text \<open>The outputs \<open>U\<close> as they come back: the transactions of \<open>K\<close> and those the list takes all of
  have lost their stake flag.\<close>

definition forget_stakes :: "(uint256 \<Rightarrow> bool) \<Rightarrow> coins_fun \<Rightarrow> (uint256 \<times> nat) list \<Rightarrow> coins_fun" where
  "forget_stakes K U ps h = unstake (K h \<or> takes_all U ps h) (U h)"

lemma unstake_or_empty [simp]: "unstake (k \<or> f = (\<lambda>n. None)) f = unstake k f"
  by (cases "f = (\<lambda>n. None)") simp_all

lemma forget_stakes_Nil [simp]: "forget_stakes K U [] = (\<lambda>h. unstake (K h) (U h))"
proof
  fix h
  have "takes_all U [] h \<longleftrightarrow> U h = (\<lambda>n. None)" by (auto simp: takes_all_def)
  then show "forget_stakes K U [] h = unstake (K h) (U h)" by (simp add: forget_stakes_def)
qed

lemma forget_stakes_Cons:
  assumes "same_tx (U (fst p))" and "U (fst p) (snd p) = Some x" and "coin_height x \<noteq> 0"
    and "V = forget_stakes K (remove_coin U p) ps"
  shows "V(fst p := (V (fst p))(snd p \<mapsto> restored_coin (V (fst p)) (undo_for (U (fst p)) (snd p)))) =
    forget_stakes K U (p # ps)"
proof
  fix h
  obtain ph pn where p: "p = (ph, pn)" by (cases p)
  show "(V(fst p := (V (fst p))(snd p \<mapsto> restored_coin (V (fst p)) (undo_for (U (fst p)) (snd p))))) h =
    forget_stakes K U (p # ps) h"
  proof (cases "h = ph")
    case True
    let ?f = "U ph" and ?t = "takes_all (remove_coin U p) ps ph"
    have g: "V ph = unstake (K ph \<or> ?t) (?f(pn := None))"
      using assms(4) by (simp add: forget_stakes_def remove_coin_def p)
    have "?t \<or> ?f(pn := None) = (\<lambda>n. None) \<longleftrightarrow> takes_all U (p # ps) ph"
    proof -
      have "(remove_coin U p ph n \<noteq> None \<longrightarrow> (ph, n) \<in> set ps) \<longleftrightarrow>
          (U ph n \<noteq> None \<longrightarrow> (ph, n) \<in> set (p # ps))" for n by (simp add: remove_coin_at p)
      then have "?t \<longleftrightarrow> takes_all U (p # ps) ph" unfolding takes_all_def by blast
      moreover have "?f(pn := None) = (\<lambda>n. None) \<Longrightarrow> ?t" by (simp add: takes_all_def remove_coin_def p)
      ultimately show ?thesis by blast
    qed
    then show ?thesis
      using restored_undo [OF _ _ assms(3) g] assms(1,2) True by (simp add: p forget_stakes_def)
  next
    case False
    then have "takes_all (remove_coin U p) ps h \<longleftrightarrow> takes_all U (p # ps) h"
      by (auto simp: takes_all_def remove_coin_at p)
    then show ?thesis using False assms(4) by (simp add: p forget_stakes_def remove_coin_def)
  qed
qed

section \<open>Disconnecting what was connected\<close>

context coins_source
begin

lemma remove_outputs_ok:
  assumes "cache_inv invar utxo has st"
  shows "\<exists>fClean st'. remove_outputs base tx nHeight st = Some (fClean, st') \<and>
    cache_inv invar utxo has st' \<and> cache_best best st' = cache_best best st \<and>
    cache_utxo utxo st' = (cache_utxo utxo st)(tx_hash tx := \<lambda>n. None)"
proof -
  let ?f = "\<lambda>outs. CCoins_eq
    (if cc_nVersion (CCoins_FromTx tx nHeight) <s 0
     then (ClearUnspendable outs)\<lparr>cc_nVersion := cc_nVersion (CCoins_FromTx tx nHeight)\<rparr>
     else ClearUnspendable outs) (CCoins_FromTx tx nHeight)"
  have "remove_outputs base tx nHeight st = modify base (tx_hash tx) (\<lambda>c. Some (?f c, CCoins_Clear)) st"
    by (simp only: remove_outputs_def Let_def)
  then show ?thesis
    using modify_total [OF assms, of "tx_hash tx" ?f "\<lambda>c. CCoins_Clear"] coins_abs_Clear by auto
qed

text \<open>The outputs that were spent, put back last one first.\<close>

lemma restore_inputs_append:
  "restore_inputs base (xs @ ys) k st =
     (case restore_inputs base xs k st of None \<Rightarrow> None | Some (k, st) \<Rightarrow> restore_inputs base ys k st)"
  by (induction xs arbitrary: k st) (auto split: option.splits)

lemma restore_inputs_ok:
  assumes "cache_inv invar utxo has st" and "all_there U (map outpoint ins)"
    and "cache_utxo utxo st = (\<lambda>h. unstake (K h) (fold (\<lambda>p U. remove_coin U p) (map outpoint ins) U h))"
    and "utxo_ok U" and "\<forall>txin \<in> set ins. op_n (prevout txin) \<noteq> -1"
  shows "\<exists>st'. restore_inputs base (rev (zip ins (undos_for U (map outpoint ins)))) k st = Some (k, st') \<and>
    cache_inv invar utxo has st' \<and> cache_best best st' = cache_best best st \<and>
    cache_utxo utxo st' = forget_stakes K U (map outpoint ins)"
  using assms(2-5)
proof (induction ins arbitrary: U)
  case Nil
  then show ?case using assms(1) by simp
next
  case (Cons txin ins)
  let ?h = "op_hash (prevout txin)" and ?n = "op_n (prevout txin)"
  let ?p = "(?h, unat ?n)" and ?ps = "map outpoint ins"
  let ?V = "forget_stakes K (remove_coin U ?p) ?ps" and ?undo = "undo_for (U ?h) (unat ?n)"
  obtain s c where st: "restore_inputs base (rev (zip ins (undos_for (remove_coin U ?p) ?ps))) k st = Some (k, s, c)"
      "cache_inv invar utxo has (s, c)" "cache_best best (s, c) = cache_best best st"
      "cache_utxo utxo (s, c) = ?V"
    using Cons.IH [of "remove_coin U ?p"] Cons.prems by auto
  obtain x where x: "U ?h (unat ?n) = Some x" using Cons.prems(1) by auto
  have ok: "coin_height x \<noteq> 0" "\<not> CTxOut_IsNull (coin_out x)" "same_tx (U ?h)"
    using Cons.prems(3) x unfolding utxo_ok_def by blast+
  let ?f = "\<lambda>coins. restore_output coins ?n ?undo"
  obtain coins where coins: "coins_abs coins = ?V ?h"
    and m: "case ?f coins of None \<Rightarrow> modify base ?h ?f (s, c) = None
      | Some (r, coins') \<Rightarrow> \<exists>st. modify base ?h ?f (s, c) = Some (r, st) \<and>
         cache_inv invar utxo has st \<and> cache_best best st = cache_best best (s, c) \<and>
         cache_utxo utxo st = ?V(?h := coins_abs coins')"
    using modify_ok [OF st(2), of ?h ?f] unfolding st(4) by blast
  have Vh: "?V ?h = unstake (K ?h \<or> takes_all (remove_coin U ?p) ?ps ?h) ((U ?h)(unat ?n := None))"
    by (simp add: forget_stakes_def remove_coin_def)
  have V: "?V ?h (unat ?n) = None" "un_nHeight ?undo \<noteq> 0 \<longleftrightarrow> ?V ?h = (\<lambda>n. None)" "un_txout ?undo = coin_out x"
    unfolding Vh unstake_empty_iff using x ok(1) by (simp_all add: unstake_def undo_for_def CTxInUndo_of_def)
  obtain coins' where c': "?f coins = Some (True, coins')"
      "coins_abs coins' = (?V ?h)(unat ?n \<mapsto> restored_coin (?V ?h) ?undo)"
    using restore_output_abs [of ?n ?undo coins] Cons.prems(4) V ok(2) coins by auto
  obtain st' where st': "modify base ?h ?f (s, c) = Some (True, st')" "cache_inv invar utxo has st'"
      "cache_best best st' = cache_best best (s, c)" "cache_utxo utxo st' = ?V(?h := coins_abs coins')"
    using m c'(1) by auto
  have "cache_utxo utxo st' = forget_stakes K U (?p # ?ps)"
    using forget_stakes_Cons [of U ?p x ?V K ?ps] ok x st'(4) c'(2) by simp
  then show ?case using st st' by (auto simp: restore_inputs_append)
qed

lemma cache_utxo_ok:
  assumes "cache_inv invar utxo has st" and "\<And>h n x. cache_utxo utxo st h n = Some x \<Longrightarrow> coin_height x \<noteq> 0"
  shows "utxo_ok (cache_utxo utxo st)"
proof -
  have "\<exists>c. cache_utxo utxo st h = coins_abs c" for h
    using modify_total [OF assms(1), of h "\<lambda>c. ()" id] by metis
  then show ?thesis using assms(2) same_tx_coins_abs coins_abs_not_null unfolding utxo_ok_def by metis
qed

text \<open>A transaction that is connected and then disconnected leaves the outputs it found, but for
  the stake flags that are forgotten; also when some were forgotten in between.\<close>

lemma disconnect_tx_ok:
  assumes "cache_inv invar utxo has st" and "utxo_ok U" and "all_there U ps" and "U (tx_hash tx) = (\<lambda>n. None)"
    and "cache_utxo utxo st = (\<lambda>h. unstake (K h)
      (((fold (\<lambda>p U. remove_coin U p) ps U)(tx_hash tx := coins_abs (CCoins_FromTx tx nHeight))) h))"
    and "ins = (if IsCoinBase tx \<or> HasZerocoinSpendInputs tx then [] else vin tx)" and "ps = map outpoint ins"
    and "\<forall>txin \<in> set ins. op_n (prevout txin) \<noteq> -1"
  shows "\<exists>fClean st'. disconnect_tx base tx (undos_for U ps) nHeight st = Some (fClean, st') \<and>
    cache_inv invar utxo has st' \<and> cache_best best st' = cache_best best st \<and>
    cache_utxo utxo st' = forget_stakes K U ps"
proof -
  obtain fClean s where s: "remove_outputs base tx nHeight st = Some (fClean, s)"
      "cache_inv invar utxo has s" "cache_best best s = cache_best best st"
      "cache_utxo utxo s = (cache_utxo utxo st)(tx_hash tx := \<lambda>n. None)"
    using remove_outputs_ok [OF assms(1)] by blast
  have "(fold (\<lambda>p U. remove_coin U p) ps U) (tx_hash tx) = (\<lambda>n. None)"
    using assms(4) by (auto simp: fold_remove_coin fun_eq_iff)
  then have cs: "cache_utxo utxo s = (\<lambda>h. unstake (K h) (fold (\<lambda>p U. remove_coin U p) (map outpoint ins) U h))"
    by (simp add: s(4) assms(5,7) fun_eq_iff unstake_def)
  have d: "disconnect_tx base tx (undos_for U ps) nHeight st = restore_inputs base (rev (zip ins (undos_for U ps))) fClean s"
    using s(1) assms(6,7) by (auto simp: disconnect_tx_def)
  show ?thesis
    using restore_inputs_ok [OF s(2) assms(3) [unfolded assms(7)] cs assms(2,8), of fClean] s(3) d assms(7) by auto
qed

lemma disconnect_connected:
  assumes "cache_inv invar utxo has st" and "UpdateCoins base tx st [] nHeight = Some (undos, st')"
    and "utxo_ok (cache_utxo utxo st)" and "cache_utxo utxo st (tx_hash tx) = (\<lambda>n. None)"
    and "ins = (if IsCoinBase tx \<or> HasZerocoinSpendInputs tx then [] else vin tx)"
    and "\<forall>txin \<in> set ins. op_n (prevout txin) \<noteq> -1"
  shows "\<exists>fClean st''. disconnect_tx base tx undos nHeight st' = Some (fClean, st'') \<and>
    cache_inv invar utxo has st'' \<and> cache_best best st'' = cache_best best st \<and>
    cache_utxo utxo st'' = forget_stakes (\<lambda>h. False) (cache_utxo utxo st) (map outpoint ins)"
proof -
  let ?U = "cache_utxo utxo st" and ?ps = "map outpoint ins"
  have id: "unstake False f = f" for f by (simp add: unstake_def fun_eq_iff option.map_ident)
  have u: "all_there ?U ?ps" "undos = undos_for ?U ?ps" "cache_inv invar utxo has st'"
      "cache_best best st' = cache_best best st"
      "cache_utxo utxo st' = (fold (\<lambda>p U. remove_coin U p) ?ps ?U)(tx_hash tx := coins_abs (CCoins_FromTx tx nHeight))"
    using assms(2) UpdateCoins_ok [OF assms(1), of tx nHeight, unfolded Let_def, folded assms(5)] by (auto split: if_splits)
  have "cache_utxo utxo st' = (\<lambda>h. unstake False
      (((fold (\<lambda>p U. remove_coin U p) ?ps ?U)(tx_hash tx := coins_abs (CCoins_FromTx tx nHeight))) h))"
    unfolding id by (rule u(5))
  then show ?thesis
    using disconnect_tx_ok [OF u(3) assms(3) u(1) assms(4) _ assms(5) refl assms(6), of "\<lambda>h. False" nHeight] u(2,4)
    by simp
qed

end

section \<open>An example\<close>

text \<open>A transaction that spends the only output of a coinstake, over a database that holds it.\<close>

definition stake_coins :: CCoins where
  "stake_coins = \<lparr>cc_fCoinBase = False, cc_fCoinStake = True, cc_vout = [CTxOut_of 5 []],
     cc_nHeight = 1, cc_nVersion = 1\<rparr>"

definition spending_tx :: CTransaction where
  "spending_tx = \<lparr>nVersion = 1, vin = [CTxIn_of (COutPoint.make 7 0) [] 0],
     vout = [CTxOut_of 5 []], nLockTime = 0, tx_hash = 9\<rparr>"

definition stake_db :: "(CCoinsViewDB \<times> CCoinsViewCache) \<times> CCoinsViewCache" where
  "stake_db = ((\<lparr>db_coins = [7 \<mapsto> stake_coins], db_best = None\<rparr>, CCoinsViewCache_new), CCoinsViewCache_new)"

lemma coins_abs_stake: "coins_abs stake_coins = [0 \<mapsto>
    \<lparr>coin_out = CTxOut_of 5 [], coin_base = False, coin_stake = True, coin_height = 1, coin_version = 1\<rparr>]"
  by (auto simp: fun_eq_iff coins_abs_def stake_coins_def CTxOut_IsNull_def CTxOut_of_def)

lemma stake_db_utxo: "work_utxo stake_db = (\<lambda>h n. None)(7 := coins_abs stake_coins)"
  by (auto simp: fun_eq_iff stake_db_def cache_utxo_def merged_def CCoinsViewCache_new_def db_utxo_def)

lemma stake_db_inv: "work_inv stake_db"
  by (simp add: stake_db_def cache_inv_def map_ok_def CCoinsViewCache_new_def db_inv_def IsPruned_iff
      coins_abs_stake)

lemma stake_db_ok: "utxo_ok (work_utxo stake_db)"
  by (auto simp: utxo_ok_def same_tx_def stake_db_utxo coins_abs_stake CTxOut_IsNull_def CTxOut_of_def)

lemma spending_tx_inputs:
  "\<not> IsCoinBase spending_tx" "\<not> HasZerocoinSpendInputs spending_tx" "tx_hash spending_tx = 9"
  "vin spending_tx = [CTxIn_of (COutPoint.make 7 0) [] 0]"
  by code_simp+

lemma spending_tx_connected:
  "\<exists>undos st. UpdateCoins tip_view spending_tx stake_db [] 2 = Some (undos, st) \<and> work_inv st"
  using tip.UpdateCoins_ok [OF stake_db_inv, of spending_tx 2]
  by (auto simp: spending_tx_inputs stake_db_utxo coins_abs_stake CTxIn_of_def COutPoint.make_def)

section \<open>Consequences\<close>

text \<open>
  Disconnecting a transaction with the undo data UpdateCoins made for it never fails and gives
  back every output that was there, with its height, version and coinbase flag; only the coinstake
  flag of a transaction whose last outputs it spent is lost.
\<close>

lemma connect_disconnect:
  assumes "work_inv st" and "UpdateCoins tip_view tx st [] nHeight = Some (undos, st')"
    and "\<And>h n x. work_utxo st h n = Some x \<Longrightarrow> coin_height x \<noteq> 0"
    and "work_utxo st (tx_hash tx) = (\<lambda>n. None)"
    and "ins = (if IsCoinBase tx \<or> HasZerocoinSpendInputs tx then [] else vin tx)"
    and "\<forall>txin \<in> set ins. op_n (prevout txin) \<noteq> -1"
  shows "\<exists>fClean st''. disconnect_tx tip_view tx undos nHeight st' = Some (fClean, st'') \<and> work_inv st'' \<and>
    work_best st'' = work_best st \<and>
    (\<forall>h n. work_utxo st'' h n = map_option
      (\<lambda>x. if \<forall>m. work_utxo st h m \<noteq> None \<longrightarrow> (h, m) \<in> set (map outpoint ins)
           then x\<lparr>coin_stake := False\<rparr> else x) (work_utxo st h n))"
proof -
  have ok: "utxo_ok (work_utxo st)" by (rule tip.cache_utxo_ok [OF assms(1)]) (rule assms(3))
  show ?thesis
    using tip.disconnect_connected [OF assms(1,2) ok assms(4-6)]
    unfolding forget_stakes_def unstake_def takes_all_def by fastforce
qed

end
