(* ===== verification/Mempool.thy ===== *)
theory Mempool
  imports StdMap ConnectTx
begin

text \<open>
  The memory pool (\<open>CTxMemPool\<close> of \<open>src/txmempool.h\<close>, \<open>src/txmempool.cpp\<close>): transactions by id and
  an index from an outpoint to the input that spends it. The invariant ties the two together;
  removing a transaction with its descendants, the conflicts of a block and the spends of immature
  coins keep it. Priorities are floating point numbers, which only pass through: their type is a
  parameter. A pointer to a transaction of the pool is the key of its node in \<open>mapTx\<close>, and reading
  through a pointer whose node is gone is an error of the model.
\<close>

section \<open>The pool\<close>

record 'd CTxMemPoolEntry =
  e_tx :: CTransaction
  e_nFee :: CAmount
  e_nTxSize :: u64
  e_nModSize :: u64
  e_nTime :: u64
  e_dPriority :: 'd
  e_nHeight :: u32

definition CTxMemPoolEntry_of :: "CTransaction \<Rightarrow> CAmount \<Rightarrow> u64 \<Rightarrow> 'd \<Rightarrow> u32 \<Rightarrow> 'd CTxMemPoolEntry" where
  "CTxMemPoolEntry_of tx nFee nTime dPriority nHeight =
     (let nTxSize = of_nat (length (ser_tx tx)) :: u32
      in \<lparr>e_tx = tx, e_nFee = nFee, e_nTxSize = ucast nTxSize,
          e_nModSize = ucast (CalculateModifiedSize tx nTxSize), e_nTime = nTime, e_dPriority = dPriority,
          e_nHeight = nHeight\<rparr>)"

text \<open>An input of a transaction: a pointer to the transaction, and the index.\<close>

record CInPoint =
  ptx :: "uint256 option"
  ip_n :: u32

definition CInPoint_Null :: CInPoint where
  "CInPoint_Null = \<lparr>ptx = None, ip_n = -1\<rparr>"

definition CInPoint_IsNull :: "CInPoint \<Rightarrow> bool" where
  "CInPoint_IsNull p \<longleftrightarrow> ptx p = None \<and> ip_n p = -1"

record 'd CTxMemPool =
  fSanityCheck :: bool
  nTransactionsUpdated :: u32
  totalTxSize :: u64
  mapTx :: "(uint256 \<times> 'd CTxMemPoolEntry) list"
  mapNextTx :: "(COutPoint \<times> CInPoint) list"
  mapDeltas :: "(uint256 \<times> ('d \<times> CAmount)) list"

definition CTxMemPool_new :: "'d CTxMemPool" where
  "CTxMemPool_new = \<lparr>fSanityCheck = False, nTransactionsUpdated = 0, totalTxSize = 0, mapTx = [], mapNextTx = [],
     mapDeltas = []\<rparr>"

definition pool_deref :: "'d CTxMemPool \<Rightarrow> uint256 option \<Rightarrow> CTransaction option" where
  "pool_deref P p = (case p of None \<Rightarrow> None | Some h \<Rightarrow> map_option e_tx (map_of (mapTx P) h))"

definition pool_exists :: "'d CTxMemPool \<Rightarrow> uint256 \<Rightarrow> bool" where
  "pool_exists P h \<longleftrightarrow> map_of (mapTx P) h \<noteq> None"

definition pool_lookup :: "'d CTxMemPool \<Rightarrow> uint256 \<Rightarrow> CTransaction option" where
  "pool_lookup P h = map_option e_tx (map_of (mapTx P) h)"

definition queryHashes :: "'d CTxMemPool \<Rightarrow> uint256 list" where
  "queryHashes P = map fst (mapTx P)"

definition pool_clear :: "'d CTxMemPool \<Rightarrow> 'd CTxMemPool" where
  "pool_clear P = P\<lparr>mapTx := [], mapNextTx := [], totalTxSize := 0, nTransactionsUpdated := nTransactionsUpdated P + 1\<rparr>"

definition addUnchecked :: "'d CTxMemPool \<Rightarrow> uint256 \<Rightarrow> 'd CTxMemPoolEntry \<Rightarrow> 'd CTxMemPool" where
  "addUnchecked P h entry =
     (let tx = e_tx entry;
          next = (if \<not> HasZerocoinSpendInputs tx
            then fold (\<lambda>i. map_assign (prevout (vin tx ! i)) \<lparr>ptx = Some h, ip_n = of_nat i\<rparr>) [0..<length (vin tx)] (mapNextTx P)
            else mapNextTx P)
      in P\<lparr>mapTx := map_assign h entry (mapTx P), mapNextTx := next,
           nTransactionsUpdated := nTransactionsUpdated P + 1, totalTxSize := totalTxSize P + e_nTxSize entry\<rparr>)"

section \<open>Removing\<close>

text \<open>The transactions that spend the outputs \<open>is\<close> of \<open>h\<close>.\<close>

fun children_loop :: "'d CTxMemPool \<Rightarrow> uint256 \<Rightarrow> nat list \<Rightarrow> uint256 list option" where
  "children_loop P h [] = Some []"
| "children_loop P h (i # js) =
     (case map_of (mapNextTx P) (COutPoint.make h (of_nat i)) of
        None \<Rightarrow> children_loop P h js
      | Some it \<Rightarrow>
          (case pool_deref P (ptx it) of
             None \<Rightarrow> None
           | Some tx \<Rightarrow> map_option ((#) (tx_hash tx)) (children_loop P h js)))"

definition erase_tx :: "'d CTxMemPool \<Rightarrow> uint256 \<Rightarrow> 'd CTxMemPoolEntry \<Rightarrow> 'd CTxMemPool" where
  "erase_tx P h e =
     P\<lparr>mapNextTx := fold (\<lambda>txin. map_erase (prevout txin)) (vin (e_tx e)) (mapNextTx P),
       totalTxSize := totalTxSize P - e_nTxSize e, mapTx := map_erase h (mapTx P),
       nTransactionsUpdated := nTransactionsUpdated P + 1\<rparr>"

function remove_loop ::
    "bool \<Rightarrow> uint256 list \<Rightarrow> 'd CTxMemPool \<Rightarrow> CTransaction list \<Rightarrow> ('d CTxMemPool \<times> CTransaction list) option" where
  "remove_loop fRecursive [] P removed = Some (P, removed)"
| "remove_loop fRecursive (h # txToRemove) P removed =
     (case map_of (mapTx P) h of
        None \<Rightarrow> remove_loop fRecursive txToRemove P removed
      | Some e \<Rightarrow>
          (case (if fRecursive then children_loop P h [0..<length (vout (e_tx e))] else Some []) of
             None \<Rightarrow> None
           | Some kids \<Rightarrow> remove_loop fRecursive (txToRemove @ kids) (erase_tx P h e) (removed @ [e_tx e])))"
  by pat_completeness auto
termination
  by (relation "inv_image (less_than <*lex*> less_than) (\<lambda>(_, q, P, _). (length (mapTx P), length q))")
    (auto simp: erase_tx_def length_map_erase)

definition pool_remove ::
    "'d CTxMemPool \<Rightarrow> CTransaction \<Rightarrow> CTransaction list \<Rightarrow> bool \<Rightarrow> ('d CTxMemPool \<times> CTransaction list) option" where
  "pool_remove P origTx removed fRecursive =
     (case (if fRecursive \<and> map_of (mapTx P) (tx_hash origTx) = None
            then children_loop P (tx_hash origTx) [0..<length (vout origTx)] else Some []) of
        None \<Rightarrow> None
      | Some kids \<Rightarrow> remove_loop fRecursive (tx_hash origTx # kids) P removed)"

fun conflicts_loop ::
    "CTransaction \<Rightarrow> CTxIn list \<Rightarrow> 'd CTxMemPool \<Rightarrow> CTransaction list \<Rightarrow> ('d CTxMemPool \<times> CTransaction list) option" where
  "conflicts_loop tx [] P removed = Some (P, removed)"
| "conflicts_loop tx (txin # ins) P removed =
     (case map_of (mapNextTx P) (prevout txin) of
        None \<Rightarrow> conflicts_loop tx ins P removed
      | Some it \<Rightarrow>
          (case pool_deref P (ptx it) of
             None \<Rightarrow> None
           | Some txConflict \<Rightarrow>
               if tx_hash txConflict \<noteq> tx_hash tx then
                 (case pool_remove P txConflict removed True of
                    None \<Rightarrow> None
                  | Some (P, removed) \<Rightarrow> conflicts_loop tx ins P removed)
               else conflicts_loop tx ins P removed))"

definition removeConflicts ::
    "'d CTxMemPool \<Rightarrow> CTransaction \<Rightarrow> CTransaction list \<Rightarrow> ('d CTxMemPool \<times> CTransaction list) option" where
  "removeConflicts P tx removed = conflicts_loop tx (vin tx) P removed"

definition ClearPrioritisation :: "'d CTxMemPool \<Rightarrow> uint256 \<Rightarrow> 'd CTxMemPool" where
  "ClearPrioritisation P h = P\<lparr>mapDeltas := map_erase h (mapDeltas P)\<rparr>"

text \<open>Without the call of the fee estimator, an object of its own that only reads the entries.\<close>

fun block_loop ::
    "CTransaction list \<Rightarrow> 'd CTxMemPool \<Rightarrow> CTransaction list \<Rightarrow> ('d CTxMemPool \<times> CTransaction list) option" where
  "block_loop [] P conflicts = Some (P, conflicts)"
| "block_loop (tx # txs) P conflicts =
     (case pool_remove P tx [] False of
        None \<Rightarrow> None
      | Some (P, dummy) \<Rightarrow>
          (case removeConflicts P tx conflicts of
             None \<Rightarrow> None
           | Some (P, conflicts) \<Rightarrow> block_loop txs (ClearPrioritisation P (tx_hash tx)) conflicts))"

definition removeForBlock ::
    "'d CTxMemPool \<Rightarrow> CTransaction list \<Rightarrow> CTransaction list \<Rightarrow> ('d CTxMemPool \<times> CTransaction list) option" where
  "removeForBlock P txs conflicts = block_loop txs P conflicts"

text \<open>Does the transaction spend coins that are not there or not mature? \<open>None\<close> is the failed
  assertion of the sanity check.\<close>

fun immature_loop ::
    "'s CCoinsView \<Rightarrow> 'd CTxMemPool \<Rightarrow> u32 \<Rightarrow> u32 \<Rightarrow> CTxIn list \<Rightarrow> 's \<times> CCoinsViewCache \<Rightarrow>
      (bool \<times> 's \<times> CCoinsViewCache) option" where
  "immature_loop base P nMemPoolHeight nMaturity [] st = Some (False, st)"
| "immature_loop base P nMemPoolHeight nMaturity (txin # ins) st =
     (if map_of (mapTx P) (op_hash (prevout txin)) \<noteq> None
      then immature_loop base P nMemPoolHeight nMaturity ins st
      else
        (case AccessCoins base st (op_hash (prevout txin)) of (coins, st) \<Rightarrow>
           if fSanityCheck P \<and> coins = None then None
           else if (case coins of None \<Rightarrow> True
                    | Some c \<Rightarrow> (cc_fCoinBase c \<or> cc_fCoinStake c) \<and> nMemPoolHeight - cc_nHeight c < nMaturity)
           then Some (True, st)
           else immature_loop base P nMemPoolHeight nMaturity ins st))"

fun find_immature ::
    "'s CCoinsView \<Rightarrow> 'd CTxMemPool \<Rightarrow> u32 \<Rightarrow> u32 \<Rightarrow> (uint256 \<times> 'd CTxMemPoolEntry) list \<Rightarrow> 's \<times> CCoinsViewCache \<Rightarrow>
      (CTransaction list \<times> 's \<times> CCoinsViewCache) option" where
  "find_immature base P nMemPoolHeight nMaturity [] st = Some ([], st)"
| "find_immature base P nMemPoolHeight nMaturity ((h, e) # m) st =
     (case immature_loop base P nMemPoolHeight nMaturity (vin (e_tx e)) st of
        None \<Rightarrow> None
      | Some (r, st) \<Rightarrow>
          map_option (\<lambda>(txs, st). (if r then e_tx e # txs else txs, st))
            (find_immature base P nMemPoolHeight nMaturity m st))"

fun remove_all :: "CTransaction list \<Rightarrow> 'd CTxMemPool \<Rightarrow> 'd CTxMemPool option" where
  "remove_all [] P = Some P"
| "remove_all (tx # txs) P =
     (case pool_remove P tx [] True of None \<Rightarrow> None | Some (P, removed) \<Rightarrow> remove_all txs P)"

definition removeCoinbaseSpends ::
    "'s CCoinsView \<Rightarrow> u32 \<Rightarrow> 'd CTxMemPool \<Rightarrow> 's \<times> CCoinsViewCache \<Rightarrow> u32 \<Rightarrow>
      ('d CTxMemPool \<times> 's \<times> CCoinsViewCache) option" where
  "removeCoinbaseSpends base nMaturity P st nMemPoolHeight =
     (case find_immature base P nMemPoolHeight nMaturity (mapTx P) st of
        None \<Rightarrow> None
      | Some (txs, st) \<Rightarrow> map_option (\<lambda>P. (P, st)) (remove_all txs P))"

section \<open>The sanity check\<close>

text \<open>The assertions about the pool itself; those about the coins it spends are left out.\<close>

fun check_inputs :: "'d CTxMemPool \<Rightarrow> uint256 \<Rightarrow> CTxIn list \<Rightarrow> nat \<Rightarrow> bool" where
  "check_inputs P h [] i = True"
| "check_inputs P h (txin # ins) i =
     ((case map_of (mapTx P) (op_hash (prevout txin)) of
         None \<Rightarrow> True
       | Some e \<Rightarrow>
           length (vout (e_tx e)) > unat (op_n (prevout txin)) \<and>
           \<not> CTxOut_IsNull (vout (e_tx e) ! unat (op_n (prevout txin)))) \<and>
      (case map_of (mapNextTx P) (prevout txin) of
         None \<Rightarrow> False
       | Some it \<Rightarrow> ptx it = Some h \<and> ip_n it = of_nat i) \<and>
      check_inputs P h ins (i + 1))"

definition check_next :: "'d CTxMemPool \<Rightarrow> COutPoint \<times> CInPoint \<Rightarrow> bool" where
  "check_next P x =
     (case x of (p, it) \<Rightarrow>
        (case pool_deref P (ptx it) of
           None \<Rightarrow> False
         | Some tx \<Rightarrow>
             map_of (mapTx P) (tx_hash tx) \<noteq> None \<and> ptx it = Some (tx_hash tx) \<and>
             length (vin tx) > unat (ip_n it) \<and> p = prevout (vin tx ! unat (ip_n it))))"

definition pool_check :: "'d CTxMemPool \<Rightarrow> bool" where
  "pool_check P \<longleftrightarrow>
     (if \<not> fSanityCheck P then True
      else list_all (\<lambda>(h, e). check_inputs P h (vin (e_tx e)) 0) (mapTx P) \<and>
        list_all (check_next P) (mapNextTx P) \<and>
        totalTxSize P = sum_list (map (\<lambda>x. e_nTxSize (snd x)) (mapTx P)))"

section \<open>Priorities, lookups\<close>

definition PrioritiseTransaction ::
    "('d \<Rightarrow> 'd \<Rightarrow> 'd) \<Rightarrow> 'd \<Rightarrow> 'd CTxMemPool \<Rightarrow> uint256 \<Rightarrow> 'd \<Rightarrow> CAmount \<Rightarrow> 'd CTxMemPool" where
  "PrioritiseTransaction add zero P h dPriorityDelta nFeeDelta =
     (let (d, n) = (case map_of (mapDeltas P) h of None \<Rightarrow> (zero, 0) | Some deltas \<Rightarrow> deltas)
      in P\<lparr>mapDeltas := map_assign h (add d dPriorityDelta, n + nFeeDelta) (mapDeltas P)\<rparr>)"

definition ApplyDeltas ::
    "('d \<Rightarrow> 'd \<Rightarrow> 'd) \<Rightarrow> 'd CTxMemPool \<Rightarrow> uint256 \<Rightarrow> 'd \<Rightarrow> CAmount \<Rightarrow> 'd \<times> CAmount" where
  "ApplyDeltas add P h dPriorityDelta nFeeDelta =
     (case map_of (mapDeltas P) h of
        None \<Rightarrow> (dPriorityDelta, nFeeDelta)
      | Some (d, n) \<Rightarrow> (add dPriorityDelta d, nFeeDelta + n))"

section \<open>The invariant\<close>

text \<open>What the checks before the pool let through: no input twice, and null hashes only, and all of
  them, in the inputs of a Zerocoin spend.\<close>

definition pool_tx :: "CTransaction \<Rightarrow> bool" where
  "pool_tx tx \<longleftrightarrow> length (vin tx) < 2 ^ 32 \<and>
     (if HasZerocoinSpendInputs tx then list_all (\<lambda>i. op_hash (prevout i) = 0) (vin tx)
      else list_all (\<lambda>i. op_hash (prevout i) \<noteq> 0) (vin tx) \<and> distinct (map prevout (vin tx)))"

definition spends :: "CTransaction \<Rightarrow> COutPoint \<Rightarrow> bool" where
  "spends tx p \<longleftrightarrow> \<not> HasZerocoinSpendInputs tx \<and> p \<in> prevout ` set (vin tx)"

definition spends_at :: "CTransaction \<Rightarrow> COutPoint \<Rightarrow> u32 \<Rightarrow> bool" where
  "spends_at tx p i \<longleftrightarrow> \<not> HasZerocoinSpendInputs tx \<and> unat i < length (vin tx) \<and> prevout (vin tx ! unat i) = p"

definition pool_inv :: "'d CTxMemPool \<Rightarrow> bool" where
  "pool_inv P \<longleftrightarrow> map_wf (mapTx P) \<and> map_wf (mapNextTx P) \<and>
     (\<forall>h e. map_of (mapTx P) h = Some e \<longrightarrow> tx_hash (e_tx e) = h \<and> pool_tx (e_tx e)) \<and>
     (\<forall>p it. map_of (mapNextTx P) p = Some it \<longleftrightarrow>
       (\<exists>h e. ptx it = Some h \<and> map_of (mapTx P) h = Some e \<and> spends_at (e_tx e) p (ip_n it))) \<and>
     totalTxSize P = sum_list (map (\<lambda>x. e_nTxSize (snd x)) (mapTx P))"

lemma pool_invD:
  assumes "pool_inv P"
  shows "map_wf (mapTx P)" and "map_wf (mapNextTx P)"
    and "map_of (mapTx P) h = Some e \<Longrightarrow> tx_hash (e_tx e) = h"
    and "map_of (mapTx P) h = Some e \<Longrightarrow> pool_tx (e_tx e)"
    and "map_of (mapNextTx P) p = Some it \<longleftrightarrow>
       (\<exists>h e. ptx it = Some h \<and> map_of (mapTx P) h = Some e \<and> spends_at (e_tx e) p (ip_n it))"
    and "totalTxSize P = sum_list (map (\<lambda>x. e_nTxSize (snd x)) (mapTx P))"
  using assms unfolding pool_inv_def by blast+

lemma pool_inv_new: "pool_inv CTxMemPool_new"
  by (simp add: pool_inv_def CTxMemPool_new_def)

lemma pool_inv_clear: "pool_inv (pool_clear P)"
  by (simp add: pool_inv_def pool_clear_def)

lemma pool_inv_more:
  "mapTx Q = mapTx P \<Longrightarrow> mapNextTx Q = mapNextTx P \<Longrightarrow> totalTxSize Q = totalTxSize P \<Longrightarrow> pool_inv P \<Longrightarrow> pool_inv Q"
  by (simp add: pool_inv_def)

lemma spends_iff:
  assumes "pool_tx tx"
  shows "spends tx p \<longleftrightarrow> (\<exists>i. spends_at tx p i)"
proof
  assume "spends tx p"
  then obtain i where "\<not> HasZerocoinSpendInputs tx" "i < length (vin tx)" "prevout (vin tx ! i) = p"
    by (auto simp: spends_def in_set_conv_nth)
  moreover from this have "unat (of_nat i :: u32) = i"
    using assms by (simp add: pool_tx_def unat_of_nat take_bit_nat_eq_self)
  ultimately have "spends_at tx p (of_nat i)" by (simp add: spends_at_def)
  then show "\<exists>i. spends_at tx p i" ..
qed (auto simp: spends_def spends_at_def)

text \<open>The index finds the one transaction that spends an outpoint.\<close>

lemma next_spender:
  assumes "pool_inv P" and "map_of (mapTx P) h = Some e" and "spends (e_tx e) p"
  shows "\<exists>it. map_of (mapNextTx P) p = Some it \<and> ptx it = Some h"
proof -
  obtain i where "spends_at (e_tx e) p i"
    using assms(3) spends_iff [OF pool_invD(4) [OF assms(1,2)]] by blast
  then have "map_of (mapNextTx P) p = Some \<lparr>ptx = Some h, ip_n = i\<rparr>"
    using assms(2) by (simp add: pool_invD(5) [OF assms(1)])
  then show ?thesis by simp
qed

lemma next_spends:
  assumes "pool_inv P" and "map_of (mapNextTx P) p = Some it"
  shows "\<exists>h e. ptx it = Some h \<and> map_of (mapTx P) h = Some e \<and> spends (e_tx e) p \<and>
    pool_deref P (ptx it) = Some (e_tx e) \<and> tx_hash (e_tx e) = h"
proof -
  obtain h e where *: "ptx it = Some h" "map_of (mapTx P) h = Some e" "spends_at (e_tx e) p (ip_n it)"
    using assms(2) pool_invD(5) [OF assms(1)] by blast
  then have "spends (e_tx e) p" using spends_iff [OF pool_invD(4) [OF assms(1)]] by blast
  then show ?thesis using * pool_invD(3) [OF assms(1)] by (simp add: pool_deref_def)
qed

lemma one_spender:
  assumes "pool_inv P" and "map_of (mapTx P) h = Some e" and "spends (e_tx e) p"
    and "map_of (mapTx P) h' = Some e'" and "spends (e_tx e') p"
  shows "h = h'"
  using next_spender [OF assms(1-3)] next_spender [OF assms(1,4,5)] by auto

lemma next_None:
  assumes "pool_inv P"
  shows "map_of (mapNextTx P) p = None \<longleftrightarrow> (\<forall>h e. map_of (mapTx P) h = Some e \<longrightarrow> \<not> spends (e_tx e) p)"
  using next_spender [OF assms] next_spends [OF assms] by (metis not_None_eq)

section \<open>Adding\<close>

lemma addUnchecked_inv:
  assumes "pool_inv P" and "map_of (mapTx P) (tx_hash (e_tx e)) = None" and "pool_tx (e_tx e)"
    and "\<And>p. spends (e_tx e) p \<Longrightarrow> map_of (mapNextTx P) p = None"
  shows "pool_inv (addUnchecked P (tx_hash (e_tx e)) e)"
proof -
  let ?tx = "e_tx e" and ?h = "tx_hash (e_tx e)"
  let ?Q = "addUnchecked P ?h e"
  let ?f = "\<lambda>i. prevout (vin ?tx ! i)" and ?g = "\<lambda>i. \<lparr>ptx = Some ?h, ip_n = of_nat i\<rparr> :: CInPoint"
  have n: "map_of (mapNextTx ?Q) p = Some it \<longleftrightarrow>
      ptx it = Some ?h \<and> spends_at ?tx p (ip_n it) \<or> map_of (mapNextTx P) p = Some it" for p it
  proof (cases "spends ?tx p")
    case True
    then obtain i where i: "i < length (vin ?tx)" "p = ?f i" and z: "\<not> HasZerocoinSpendInputs ?tx"
      by (auto simp: spends_def in_set_conv_nth)
    have inj: "inj_on ?f (set [0..<length (vin ?tx)])"
      using assms(3) z nth_eq_iff_index_eq [of "map prevout (vin ?tx)"] by (auto simp: pool_tx_def inj_on_def)
    have "map_of (mapNextTx ?Q) p = Some (?g i)"
      using fold_assign_at [OF inj, of i ?g "mapNextTx P"] i z by (simp add: addUnchecked_def Let_def)
    moreover have "spends_at ?tx p m \<longleftrightarrow> m = of_nat i" for m
    proof -
      have u: "unat (of_nat i :: u32) = i"
        using assms(3) i by (simp add: pool_tx_def unat_of_nat take_bit_nat_eq_self)
      have "m = of_nat i" if "unat m < length (vin ?tx)" "?f (unat m) = ?f i"
      proof -
        have "unat m = i" using inj_onD [OF inj that(2)] that(1) i(1) by simp
        then show ?thesis by (metis word_unat_eq_iff u)
      qed
      then show ?thesis using i z u by (auto simp: spends_at_def)
    qed
    ultimately show ?thesis using assms(4) [OF True] by (cases it) auto
  next
    case False
    then have "\<not> spends_at ?tx p (ip_n it)" using spends_iff [OF assms(3)] by blast
    moreover have "map_of (mapNextTx ?Q) p = map_of (mapNextTx P) p"
    proof (cases "HasZerocoinSpendInputs ?tx")
      case False
      then have "p \<notin> ?f ` set [0..<length (vin ?tx)]" using \<open>\<not> spends ?tx p\<close> by (auto simp: spends_def)
      from fold_assign_other [OF this] show ?thesis using False by (simp add: addUnchecked_def Let_def)
    qed (simp add: addUnchecked_def Let_def)
    ultimately show ?thesis by simp
  qed
  have t: "map_of (mapTx ?Q) = (map_of (mapTx P))(?h \<mapsto> e)" by (simp add: addUnchecked_def Let_def)
  have "map_wf (mapTx ?Q) \<and> map_wf (mapNextTx ?Q)"
    using pool_invD(1,2) [OF assms(1)] by (simp add: addUnchecked_def Let_def map_wf_fold_assign)
  moreover have "totalTxSize ?Q = sum_list (map (\<lambda>x. e_nTxSize (snd x)) (mapTx ?Q))"
    using sum_map_assign [OF assms(2), of "\<lambda>x. e_nTxSize (snd x)" e] pool_invD(6) [OF assms(1)]
    by (simp add: addUnchecked_def Let_def)
  moreover have "map_of (mapNextTx ?Q) p = Some it \<longleftrightarrow>
      (\<exists>h e'. ptx it = Some h \<and> map_of (mapTx ?Q) h = Some e' \<and> spends_at (e_tx e') p (ip_n it))" for p it
    unfolding n t pool_invD(5) [OF assms(1)] using assms(2) by auto
  ultimately show ?thesis
    unfolding pool_inv_def t using pool_invD(3,4) [OF assms(1)] assms(3) by auto
qed

section \<open>Erasing\<close>

lemma erase_tx_inv:
  assumes "pool_inv P" and "map_of (mapTx P) h = Some e"
  shows "pool_inv (erase_tx P h e)"
proof -
  let ?Q = "erase_tx P h e" and ?tx = "e_tx e"
  have t: "map_of (mapTx ?Q) = (map_of (mapTx P))(h := None)" by (simp add: erase_tx_def)
  have n: "map_of (mapNextTx ?Q) p = (if p \<in> prevout ` set (vin ?tx) then None else map_of (mapNextTx P) p)" for p
    by (simp add: erase_tx_def map_of_fold_erase)
  have "map_wf (mapTx ?Q) \<and> map_wf (mapNextTx ?Q)"
    using pool_invD(1,2) [OF assms(1)] by (simp add: erase_tx_def map_wf_fold_erase)
  moreover have "totalTxSize ?Q = sum_list (map (\<lambda>x. e_nTxSize (snd x)) (mapTx ?Q))"
    using sum_map_erase [OF pool_invD(1) [OF assms(1)] assms(2), of "\<lambda>x. e_nTxSize (snd x)"] pool_invD(6) [OF assms(1)]
    by (simp add: erase_tx_def)
  moreover have "map_of (mapNextTx ?Q) p = Some it \<longleftrightarrow>
      (\<exists>h' e'. ptx it = Some h' \<and> map_of (mapTx ?Q) h' = Some e' \<and> spends_at (e_tx e') p (ip_n it))" for p it
  proof -
    have "p \<notin> prevout ` set (vin ?tx) \<longleftrightarrow> h' \<noteq> h"
      if e': "map_of (mapTx P) h' = Some e'" and s: "spends_at (e_tx e') p (ip_n it)" for h' e'
    proof -
      have sp: "spends (e_tx e') p" using s spends_iff [OF pool_invD(4) [OF assms(1) e']] by blast
      have "op_hash p \<noteq> 0"
        using sp pool_invD(4) [OF assms(1) e'] by (auto simp: spends_def pool_tx_def list_all_iff)
      then have "p \<in> prevout ` set (vin ?tx) \<longleftrightarrow> spends ?tx p"
        using pool_invD(4) [OF assms] by (auto simp: spends_def pool_tx_def list_all_iff)
      then show ?thesis using one_spender [OF assms(1) assms(2) _ e' sp] sp e' assms(2) by auto
    qed
    then show ?thesis unfolding n t using pool_invD(5) [OF assms(1), of p it] by auto
  qed
  ultimately show ?thesis
    unfolding pool_inv_def t using pool_invD(3,4) [OF assms(1)] by auto
qed

section \<open>Descendants\<close>

text \<open>\<open>h'\<close> spends an output of \<open>h\<close>, both in the pool.\<close>

definition child :: "'d CTxMemPool \<Rightarrow> (uint256 \<times> uint256) set" where
  "child P = {(h, h'). \<exists>e e' i. map_of (mapTx P) h = Some e \<and> map_of (mapTx P) h' = Some e' \<and>
     i < length (vout (e_tx e)) \<and> spends (e_tx e') (COutPoint.make h (of_nat i))}"

definition spenders :: "'d CTxMemPool \<Rightarrow> uint256 \<Rightarrow> nat set \<Rightarrow> uint256 set" where
  "spenders P h js = {h'. \<exists>e i. map_of (mapTx P) h' = Some e \<and> i \<in> js \<and> spends (e_tx e) (COutPoint.make h (of_nat i))}"

definition descendants :: "'d CTxMemPool \<Rightarrow> uint256 set \<Rightarrow> uint256 set" where
  "descendants P hashes = (child P)\<^sup>* `` hashes"

lemma children_loop_ok:
  assumes "pool_inv P"
  shows "\<exists>kids. children_loop P h js = Some kids \<and> set kids = spenders P h (set js)"
proof (induction js)
  case Nil
  then show ?case by (simp add: spenders_def)
next
  case (Cons i js)
  then obtain kids where k: "children_loop P h js = Some kids" "set kids = spenders P h (set js)" by blast
  have s: "spenders P h (set (i # js)) = spenders P h {i} \<union> spenders P h (set js)" by (auto simp: spenders_def)
  show ?case
  proof (cases "map_of (mapNextTx P) (COutPoint.make h (of_nat i))")
    case None
    then have "spenders P h {i} = {}" using next_None [OF assms] by (auto simp: spenders_def)
    then show ?thesis using None k s by simp
  next
    case (Some it)
    obtain h' e where e: "map_of (mapTx P) h' = Some e" "spends (e_tx e) (COutPoint.make h (of_nat i))"
      "pool_deref P (ptx it) = Some (e_tx e)" "tx_hash (e_tx e) = h'"
      using next_spends [OF assms Some] by blast
    have "spenders P h {i} = {h'}"
    proof
      show "spenders P h {i} \<subseteq> {h'}"
        using one_spender [OF assms _ _ e(1,2)] unfolding spenders_def by blast
      show "{h'} \<subseteq> spenders P h {i}" using e(1,2) unfolding spenders_def by blast
    qed
    then show ?thesis using Some k s e by simp
  qed
qed

lemma child_erase: "child (erase_tx P q e) = {(a, b) \<in> child P. a \<noteq> q \<and> b \<noteq> q}"
  by (auto simp: child_def erase_tx_def)

lemma reach_without:
  assumes "E1 = {(a, b) \<in> E. a \<noteq> q \<and> b \<noteq> q}"
  shows "x \<in> E\<^sup>* `` insert q S \<longleftrightarrow> x = q \<or> x \<in> E1\<^sup>* `` (S \<union> E `` {q})"
proof
  assume "x \<in> E\<^sup>* `` insert q S"
  then obtain a where a: "a \<in> insert q S" and r: "(a, x) \<in> E\<^sup>*" by auto
  from r have "x = q \<or> (a, x) \<in> E1\<^sup>* \<or> (\<exists>c. (q, c) \<in> E \<and> (c, x) \<in> E1\<^sup>*)"
  proof (induction rule: rtrancl_induct)
    case (step b c)
    then show ?case using assms by (cases "b = q"; cases "c = q") (auto intro: rtrancl_into_rtrancl)
  qed simp
  moreover have "x = q" if "(q, x) \<in> E1\<^sup>*" using that assms by (cases rule: converse_rtranclE) auto
  ultimately show "x = q \<or> x \<in> E1\<^sup>* `` (S \<union> E `` {q})" using a by auto
next
  have "E1\<^sup>* \<subseteq> E\<^sup>*" using assms by (intro rtrancl_mono) auto
  then show "x = q \<or> x \<in> E1\<^sup>* `` (S \<union> E `` {q}) \<Longrightarrow> x \<in> E\<^sup>* `` insert q S"
    by (auto intro: converse_rtrancl_into_rtrancl)
qed

lemma descendants_erase:
  assumes "map_of (mapTx P) q = Some e"
  shows "descendants P (insert q S) =
    insert q (descendants (erase_tx P q e) (S \<union> spenders P q {..<length (vout (e_tx e))}))"
proof -
  have "child P `` {q} = spenders P q {..<length (vout (e_tx e))}"
    using assms by (auto simp: child_def spenders_def)
  then show ?thesis
    unfolding descendants_def using reach_without [OF child_erase [of P q e], of _ S] by auto
qed

lemma descendants_outside:
  assumes "map_of (mapTx P) q = None"
  shows "descendants P (insert q S) = insert q (descendants P S)"
proof -
  have "x = q" if "(q, x) \<in> (child P)\<^sup>*" for x
    using that assms by (cases rule: converse_rtranclE) (auto simp: child_def)
  then show ?thesis by (auto simp: descendants_def)
qed

text \<open>The transactions of the pool without the ones in \<open>D\<close>.\<close>

definition pool_without :: "'d CTxMemPool \<Rightarrow> uint256 set \<Rightarrow> uint256 \<Rightarrow> 'd CTxMemPoolEntry option" where
  "pool_without P D = (\<lambda>h. if h \<in> D then None else map_of (mapTx P) h)"

definition pool_txs :: "'d CTxMemPool \<Rightarrow> uint256 set \<Rightarrow> CTransaction set" where
  "pool_txs P D = {e_tx e | h e. map_of (mapTx P) h = Some e \<and> h \<in> D}"

lemma erase_tx_fields [simp]:
  "mapDeltas (erase_tx P h e) = mapDeltas P" "fSanityCheck (erase_tx P h e) = fSanityCheck P"
  "mapTx (erase_tx P h e) = map_erase h (mapTx P)"
  by (simp_all add: erase_tx_def)

lemma pool_txs_insert:
  assumes "map_of (mapTx P) h = Some e"
  shows "pool_txs P (insert h D) = insert (e_tx e) (pool_txs (erase_tx P h e) D)"
proof
  show "pool_txs P (insert h D) \<subseteq> insert (e_tx e) (pool_txs (erase_tx P h e) D)"
  proof
    fix x assume "x \<in> pool_txs P (insert h D)"
    then obtain h' e' where x: "x = e_tx e'" "map_of (mapTx P) h' = Some e'" "h' = h \<or> h' \<in> D"
      by (auto simp: pool_txs_def)
    then show "x \<in> insert (e_tx e) (pool_txs (erase_tx P h e) D)"
      using assms by (cases "h' = h") (auto simp: pool_txs_def)
  qed
  show "insert (e_tx e) (pool_txs (erase_tx P h e) D) \<subseteq> pool_txs P (insert h D)"
    using assms by (auto simp: pool_txs_def split: if_splits)
qed

lemma remove_loop_ok:
  assumes "pool_inv P"
  shows "\<exists>P' txs. remove_loop True q P removed = Some (P', removed @ txs) \<and> pool_inv P' \<and>
    map_of (mapTx P') = pool_without P (descendants P (set q)) \<and> set txs = pool_txs P (descendants P (set q)) \<and>
    mapDeltas P' = mapDeltas P \<and> fSanityCheck P' = fSanityCheck P"
  using assms
proof (induction True q P removed rule: remove_loop.induct)
  case (1 P removed)
  then show ?case by (auto simp: descendants_def pool_without_def pool_txs_def fun_eq_iff)
next
  case (2 h q P removed)
  show ?case
  proof (cases "map_of (mapTx P) h")
    case None
    obtain P' txs where "remove_loop True q P removed = Some (P', removed @ txs)" "pool_inv P'"
      "map_of (mapTx P') = pool_without P (descendants P (set q))" "set txs = pool_txs P (descendants P (set q))"
      "mapDeltas P' = mapDeltas P" "fSanityCheck P' = fSanityCheck P"
      using 2(1) [OF None "2.prems"] by blast
    then show ?thesis
      using None by (auto simp: descendants_outside pool_without_def pool_txs_def fun_eq_iff)
  next
    case (Some e)
    obtain kids where k: "children_loop P h [0..<length (vout (e_tx e))] = Some kids"
      "set kids = spenders P h {..<length (vout (e_tx e))}"
      using children_loop_ok [OF "2.prems", of h "[0..<length (vout (e_tx e))]"] by (auto simp: atLeast0LessThan)
    let ?Q = "erase_tx P h e"
    have "(if True then children_loop P h [0..<length (vout (e_tx e))] else Some []) = Some kids" using k by simp
    from 2(2) [OF Some this erase_tx_inv [OF "2.prems" Some]] obtain P' txs where
      r: "remove_loop True (q @ kids) ?Q (removed @ [e_tx e]) = Some (P', (removed @ [e_tx e]) @ txs)" "pool_inv P'"
      "map_of (mapTx P') = pool_without ?Q (descendants ?Q (set (q @ kids)))"
      "set txs = pool_txs ?Q (descendants ?Q (set (q @ kids)))"
      "mapDeltas P' = mapDeltas P" "fSanityCheck P' = fSanityCheck P"
      by auto
    have D: "descendants P (set (h # q)) = insert h (descendants ?Q (set (q @ kids)))"
      using descendants_erase [OF Some, of "set q"] k(2) by simp
    have "map_of (mapTx P') = pool_without P (descendants P (set (h # q)))"
      unfolding r(3) D by (auto simp: pool_without_def fun_eq_iff)
    moreover have "set (e_tx e # txs) = pool_txs P (descendants P (set (h # q)))"
      unfolding D pool_txs_insert [OF Some] using r(4) by simp
    ultimately show ?thesis
      using Some k r by (intro exI [of _ P'] exI [of _ "e_tx e # txs"]) simp
  qed
qed

text \<open>The transactions that \<open>remove\<close> starts from.\<close>

definition remove_roots :: "'d CTxMemPool \<Rightarrow> CTransaction \<Rightarrow> uint256 set" where
  "remove_roots P tx = insert (tx_hash tx)
     (if map_of (mapTx P) (tx_hash tx) = None then spenders P (tx_hash tx) {..<length (vout tx)} else {})"

lemma pool_remove_ok:
  assumes "pool_inv P"
  shows "\<exists>P' txs. pool_remove P tx removed True = Some (P', removed @ txs) \<and> pool_inv P' \<and>
    map_of (mapTx P') = pool_without P (descendants P (remove_roots P tx)) \<and>
    set txs = pool_txs P (descendants P (remove_roots P tx)) \<and>
    mapDeltas P' = mapDeltas P \<and> fSanityCheck P' = fSanityCheck P"
proof -
  obtain kids where "(if True \<and> map_of (mapTx P) (tx_hash tx) = None
      then children_loop P (tx_hash tx) [0..<length (vout tx)] else Some []) = Some kids"
    "remove_roots P tx = set (tx_hash tx # kids)"
    using children_loop_ok [OF assms, of "tx_hash tx" "[0..<length (vout tx)]"]
    by (cases "map_of (mapTx P) (tx_hash tx)") (auto simp: remove_roots_def atLeast0LessThan)
  then show ?thesis using remove_loop_ok [OF assms, of "tx_hash tx # kids" removed] by (simp add: pool_remove_def)
qed

lemma pool_remove_one:
  assumes "pool_inv P"
  shows "\<exists>P' txs. pool_remove P tx removed False = Some (P', removed @ txs) \<and> pool_inv P' \<and>
    map_of (mapTx P') = pool_without P {tx_hash tx} \<and> mapDeltas P' = mapDeltas P \<and> fSanityCheck P' = fSanityCheck P"
proof (cases "map_of (mapTx P) (tx_hash tx)")
  case None
  then show ?thesis using assms by (auto simp: pool_remove_def pool_without_def fun_eq_iff)
next
  case (Some e)
  then show ?thesis
    using erase_tx_inv [OF assms Some] by (auto simp: pool_remove_def pool_without_def fun_eq_iff)
qed

text \<open>What is left spends no output of what was removed.\<close>

lemma descendants_closed:
  assumes "(a, b) \<in> child P" and "a \<in> descendants P S"
  shows "b \<in> descendants P S"
  using assms by (auto simp: descendants_def intro: rtrancl_into_rtrancl)

lemma roots_closed:
  assumes "pool_inv P" and "map_of (mapTx P) h = Some e" and "i < length (vout tx)"
    and "spends (e_tx e) (COutPoint.make (tx_hash tx) (of_nat i))"
    and "\<And>e'. map_of (mapTx P) (tx_hash tx) = Some e' \<Longrightarrow> vout (e_tx e') = vout tx"
  shows "h \<in> descendants P (remove_roots P tx)"
proof (cases "map_of (mapTx P) (tx_hash tx)")
  case None
  then have "h \<in> remove_roots P tx" using assms by (auto simp: remove_roots_def spenders_def)
  then show ?thesis by (auto simp: descendants_def)
next
  case (Some e')
  then have "(tx_hash tx, h) \<in> child P" using assms by (auto simp: child_def)
  then show ?thesis
    by (rule descendants_closed) (auto simp: descendants_def remove_roots_def)
qed

section \<open>Conflicts and blocks\<close>

text \<open>The pool only loses transactions.\<close>

definition subpool :: "'d CTxMemPool \<Rightarrow> 'd CTxMemPool \<Rightarrow> bool" where
  "subpool Q P \<longleftrightarrow> map_of (mapTx Q) \<subseteq>\<^sub>m map_of (mapTx P)"

lemma subpoolD: "subpool Q P \<Longrightarrow> map_of (mapTx Q) h = Some e \<Longrightarrow> map_of (mapTx P) h = Some e"
  by (auto simp: subpool_def map_le_def dom_def)

definition conflicts_with :: "CTransaction \<Rightarrow> CTransaction \<Rightarrow> bool" where
  "conflicts_with tx tx' \<longleftrightarrow> tx_hash tx' \<noteq> tx_hash tx \<and> (\<exists>txin \<in> set (vin tx). spends tx' (prevout txin))"

lemma conflicts_loop_ok:
  assumes "pool_inv P"
  shows "\<exists>P' txs. conflicts_loop tx ins P removed = Some (P', removed @ txs) \<and> pool_inv P' \<and> subpool P' P \<and>
    (\<forall>h e. map_of (mapTx P') h = Some e \<longrightarrow> tx_hash (e_tx e) \<noteq> tx_hash tx \<longrightarrow>
      (\<forall>txin \<in> set ins. \<not> spends (e_tx e) (prevout txin))) \<and>
    mapDeltas P' = mapDeltas P"
  using assms
proof (induction ins arbitrary: P removed)
  case Nil
  then show ?case by (simp add: subpool_def)
next
  case (Cons txin ins)
  note inv = Cons.prems
  have skip: ?case if "conflicts_loop tx (txin # ins) P removed = conflicts_loop tx ins P removed"
    and n: "\<And>h e. map_of (mapTx P) h = Some e \<Longrightarrow> tx_hash (e_tx e) \<noteq> tx_hash tx \<Longrightarrow> \<not> spends (e_tx e) (prevout txin)"
  proof -
    obtain P' txs where p: "conflicts_loop tx ins P removed = Some (P', removed @ txs)" "pool_inv P'" "subpool P' P"
      "mapDeltas P' = mapDeltas P"
      "\<And>h e txin. map_of (mapTx P') h = Some e \<Longrightarrow> tx_hash (e_tx e) \<noteq> tx_hash tx \<Longrightarrow> txin \<in> set ins \<Longrightarrow>
        \<not> spends (e_tx e) (prevout txin)"
      using Cons.IH [OF inv, of removed] by blast
    then show ?thesis using that(1) n [OF subpoolD [OF p(3)]] by (intro exI [of _ P'] exI [of _ txs]) simp
  qed
  show ?case
  proof (cases "map_of (mapNextTx P) (prevout txin)")
    case None
    then have n: "\<And>h e. map_of (mapTx P) h = Some e \<Longrightarrow> \<not> spends (e_tx e) (prevout txin)"
      using next_None [OF inv] by blast
    show ?thesis by (rule skip) (use None n in simp_all)
  next
    case (Some it)
    obtain h e where e: "map_of (mapTx P) h = Some e" "spends (e_tx e) (prevout txin)"
      "pool_deref P (ptx it) = Some (e_tx e)" "tx_hash (e_tx e) = h"
      using next_spends [OF inv Some] by blast
    have one: "h' = h" if "map_of (mapTx P) h' = Some e'" "spends (e_tx e') (prevout txin)" for h' e'
      using one_spender [OF inv that e(1,2)] .
    show ?thesis
    proof (cases "h = tx_hash tx")
      case True
      have n: "\<not> spends (e_tx e') (prevout txin)"
        if "map_of (mapTx P) h' = Some e'" "tx_hash (e_tx e') \<noteq> tx_hash tx" for h' e'
        using one [OF that(1)] that True e(1,4) by auto
      show ?thesis by (rule skip) (use Some e True n in simp_all)
    next
      case False
      obtain Q txs where q: "pool_remove P (e_tx e) removed True = Some (Q, removed @ txs)" "pool_inv Q"
        "map_of (mapTx Q) = pool_without P (descendants P (remove_roots P (e_tx e)))" "mapDeltas Q = mapDeltas P"
        using pool_remove_ok [OF inv, of "e_tx e" removed] by blast
      have "h \<in> descendants P (remove_roots P (e_tx e))"
        using e(4) by (auto simp: descendants_def remove_roots_def)
      then have n: "\<not> spends (e_tx e') (prevout txin)" if "map_of (mapTx Q) h' = Some e'" for h' e'
        using that one [of h' e'] unfolding q(3) by (auto simp: pool_without_def split: if_splits)
      have sub: "subpool Q P" unfolding subpool_def q(3) by (auto simp: pool_without_def map_le_def)
      obtain P' txs' where p: "conflicts_loop tx ins Q (removed @ txs) = Some (P', (removed @ txs) @ txs')"
        "pool_inv P'" "subpool P' Q" "mapDeltas P' = mapDeltas Q"
        "\<And>h e txin. map_of (mapTx P') h = Some e \<Longrightarrow> tx_hash (e_tx e) \<noteq> tx_hash tx \<Longrightarrow> txin \<in> set ins \<Longrightarrow>
          \<not> spends (e_tx e) (prevout txin)"
        using Cons.IH [OF q(2), of "removed @ txs"] by blast
      have "\<not> spends (e_tx e') (prevout txin)" if "map_of (mapTx P') h' = Some e'" for h' e'
        using n [OF subpoolD [OF p(3) that]] .
      moreover have "subpool P' P" using sub p(3) unfolding subpool_def by (rule map_le_trans [rotated])
      ultimately show ?thesis
        using Some e False q p by (intro exI [of _ P'] exI [of _ "txs @ txs'"]) auto
    qed
  qed
qed

text \<open>The same for several transactions.\<close>

lemma block_loop_ok:
  assumes "pool_inv P"
  shows "\<exists>P' cs. block_loop txs P conflicts = Some (P', conflicts @ cs) \<and> pool_inv P' \<and> subpool P' P \<and>
    (\<forall>tx \<in> set txs. \<forall>h e. map_of (mapTx P') h = Some e \<longrightarrow> h \<noteq> tx_hash tx \<and> \<not> conflicts_with tx (e_tx e)) \<and>
    (\<forall>h. map_of (mapDeltas P') h = (if h \<in> tx_hash ` set txs then None else map_of (mapDeltas P) h))"
  using assms
proof (induction txs arbitrary: P conflicts)
  case Nil
  then show ?case by (simp add: subpool_def)
next
  case (Cons tx txs)
  obtain P1 ts where 1: "pool_remove P tx [] False = Some (P1, ts)" "pool_inv P1"
    "map_of (mapTx P1) = pool_without P {tx_hash tx}" "mapDeltas P1 = mapDeltas P"
    using pool_remove_one [OF Cons.prems, of tx "[]"] by auto
  obtain P2 cs where 2: "removeConflicts P1 tx conflicts = Some (P2, conflicts @ cs)" "pool_inv P2" "subpool P2 P1"
    "\<And>h e. map_of (mapTx P2) h = Some e \<Longrightarrow> \<not> conflicts_with tx (e_tx e)" "mapDeltas P2 = mapDeltas P1"
    using conflicts_loop_ok [OF 1(2), of tx "vin tx" conflicts] unfolding removeConflicts_def conflicts_with_def by blast
  let ?P3 = "ClearPrioritisation P2 (tx_hash tx)"
  have i3: "pool_inv ?P3" by (rule pool_inv_more [OF _ _ _ 2(2)]) (simp_all add: ClearPrioritisation_def)
  have t3: "mapTx ?P3 = mapTx P2" by (simp add: ClearPrioritisation_def)
  obtain P' cs' where p: "block_loop txs ?P3 (conflicts @ cs) = Some (P', (conflicts @ cs) @ cs')" "pool_inv P'"
    "subpool P' ?P3"
    "\<And>tx h e. tx \<in> set txs \<Longrightarrow> map_of (mapTx P') h = Some e \<Longrightarrow> h \<noteq> tx_hash tx \<and> \<not> conflicts_with tx (e_tx e)"
    "\<And>h. map_of (mapDeltas P') h = (if h \<in> tx_hash ` set txs then None else map_of (mapDeltas ?P3) h)"
    using Cons.IH [OF i3, of "conflicts @ cs"] by blast
  have sub: "map_of (mapTx P2) h = Some e" if "map_of (mapTx P') h = Some e" for h e
    using that p(3) by (auto simp: subpool_def t3 map_le_def dom_def)
  have sub1: "map_of (mapTx P) h = Some e \<and> h \<noteq> tx_hash tx" if "map_of (mapTx P2) h = Some e" for h e
  proof -
    have "map_of (mapTx P1) h = Some e" using that 2(3) by (auto simp: subpool_def map_le_def dom_def)
    then show ?thesis unfolding 1(3) by (auto simp: pool_without_def split: if_splits)
  qed
  have d: "map_of (mapDeltas P') h = (if h \<in> tx_hash ` set (tx # txs) then None else map_of (mapDeltas P) h)" for h
    unfolding p(5) using 1(4) 2(5) by (simp add: ClearPrioritisation_def)
  have "subpool P' P" using sub sub1 by (auto simp: subpool_def map_le_def dom_def)
  moreover have "block_loop (tx # txs) P conflicts = Some (P', conflicts @ cs @ cs')" using 1(1) 2(1) p(1) by simp
  moreover have "h \<noteq> tx_hash tx' \<and> \<not> conflicts_with tx' (e_tx e)"
    if "tx' \<in> set (tx # txs)" "map_of (mapTx P') h = Some e" for tx' h e
    using that p(4) 2(4) sub sub1 by (metis set_ConsD)
  ultimately show ?case using p(2) d by (intro exI [of _ P'] exI [of _ "cs @ cs'"]) blast
qed

section \<open>Immature coins\<close>

definition immature :: "u32 \<Rightarrow> u32 \<Rightarrow> CCoins \<Rightarrow> bool" where
  "immature nHeight nMaturity c \<longleftrightarrow> (cc_fCoinBase c \<or> cc_fCoinStake c) \<and> nHeight - cc_nHeight c < nMaturity"

text \<open>An input that keeps a transaction in the pool, and one that removes it.\<close>

definition spendable :: "'s \<times> CCoinsViewCache \<Rightarrow> 'd CTxMemPool \<Rightarrow> u32 \<Rightarrow> u32 \<Rightarrow> CTxIn list \<Rightarrow> bool" where
  "spendable st P nHeight nMaturity ins \<longleftrightarrow> (\<forall>p \<in> prevout ` set ins. map_of (mapTx P) (op_hash p) \<noteq> None \<or>
     (\<exists>c. cached st (op_hash p) = Some c \<and> \<not> immature nHeight nMaturity c))"

definition unspendable :: "coins_fun \<Rightarrow> 's \<times> CCoinsViewCache \<Rightarrow> 'd CTxMemPool \<Rightarrow> u32 \<Rightarrow> u32 \<Rightarrow> CTxIn list \<Rightarrow> bool" where
  "unspendable U st P nHeight nMaturity ins \<longleftrightarrow> (\<exists>p \<in> prevout ` set ins. map_of (mapTx P) (op_hash p) = None \<and>
     (U (op_hash p) = (\<lambda>n. None) \<or> (\<exists>c. cached st (op_hash p) = Some c \<and> immature nHeight nMaturity c)))"

lemma spendable_Cons: "spendable st P nHeight nMaturity (txin # ins) \<longleftrightarrow>
    (map_of (mapTx P) (op_hash (prevout txin)) \<noteq> None \<or>
     (\<exists>c. cached st (op_hash (prevout txin)) = Some c \<and> \<not> immature nHeight nMaturity c)) \<and>
    spendable st P nHeight nMaturity ins"
  and unspendable_Cons: "unspendable U st P nHeight nMaturity (txin # ins) \<longleftrightarrow>
    map_of (mapTx P) (op_hash (prevout txin)) = None \<and> (U (op_hash (prevout txin)) = (\<lambda>n. None) \<or>
     (\<exists>c. cached st (op_hash (prevout txin)) = Some c \<and> immature nHeight nMaturity c)) \<or>
    unspendable U st P nHeight nMaturity ins"
  unfolding spendable_def unspendable_def by (simp_all only: list.set image_insert ball_simps bex_simps)

lemma spendable_grows: "spendable st P nHeight nMaturity ins \<Longrightarrow> cache_grows st st' \<Longrightarrow> spendable st' P nHeight nMaturity ins"
  and unspendable_grows: "unspendable U st P nHeight nMaturity ins \<Longrightarrow> cache_grows st st' \<Longrightarrow>
    unspendable U st' P nHeight nMaturity ins"
  unfolding spendable_def unspendable_def cache_grows_def by blast+

text \<open>No transaction refers to an output that its parent in the pool does not have.\<close>

definition links_ok :: "'d CTxMemPool \<Rightarrow> bool" where
  "links_ok P \<longleftrightarrow> (\<forall>h e p e'. map_of (mapTx P) h = Some e \<and> spends (e_tx e) p \<and>
     map_of (mapTx P) (op_hash p) = Some e' \<longrightarrow>
       unat (op_n p) < length (vout (e_tx e')) \<and> \<not> CTxOut_IsNull (vout (e_tx e') ! unat (op_n p)))"

lemma remove_all_ok:
  assumes "pool_inv P" and "child P \<subseteq> R" and "\<forall>tx \<in> set txs. \<forall>h e i. map_of (mapTx P) h = Some e \<and>
    i < length (vout tx) \<and> spends (e_tx e) (COutPoint.make (tx_hash tx) (of_nat i)) \<longrightarrow> (tx_hash tx, h) \<in> R"
  shows "\<exists>P' D. remove_all txs P = Some P' \<and> pool_inv P' \<and> map_of (mapTx P') = pool_without P D \<and>
    tx_hash ` set txs \<subseteq> D \<and> child P `` D \<subseteq> D \<and> D \<subseteq> R\<^sup>* `` (tx_hash ` set txs)"
  using assms
proof (induction txs arbitrary: P)
  case Nil
  then show ?case by (intro exI [of _ P] exI [of _ "{}"]) (simp add: pool_without_def)
next
  case (Cons tx txs)
  let ?D = "descendants P (remove_roots P tx)"
  obtain Q ts where q: "pool_remove P tx [] True = Some (Q, ts)" "pool_inv Q" "map_of (mapTx Q) = pool_without P ?D"
    using pool_remove_ok [OF Cons.prems(1), of tx "[]"] by auto
  have sub: "map_of (mapTx P) h = Some e" if "map_of (mapTx Q) h = Some e" for h e
    using that unfolding q(3) by (auto simp: pool_without_def split: if_splits)
  then have "child Q \<subseteq> R" using Cons.prems(2) unfolding child_def by blast
  moreover have "\<forall>tx \<in> set txs. \<forall>h e i. map_of (mapTx Q) h = Some e \<and>
      i < length (vout tx) \<and> spends (e_tx e) (COutPoint.make (tx_hash tx) (of_nat i)) \<longrightarrow> (tx_hash tx, h) \<in> R"
    using Cons.prems(3) sub by (meson list.set_intros(2))
  ultimately obtain P' D where p: "remove_all txs Q = Some P'" "pool_inv P'" "map_of (mapTx P') = pool_without Q D"
    "tx_hash ` set txs \<subseteq> D" "child Q `` D \<subseteq> D" "D \<subseteq> R\<^sup>* `` (tx_hash ` set txs)"
    using Cons.IH [OF q(2)] by blast
  have c: "(a, b) \<in> child Q" if "(a, b) \<in> child P" "a \<notin> ?D" "b \<notin> ?D" for a b
    using that unfolding child_def q(3) by (auto simp: pool_without_def)
  have d: "?D \<subseteq> R\<^sup>* `` {tx_hash tx}"
  proof -
    have "remove_roots P tx \<subseteq> R\<^sup>* `` {tx_hash tx}"
      using Cons.prems(3) by (auto simp: remove_roots_def spenders_def)
    moreover have "(child P)\<^sup>* \<subseteq> R\<^sup>*" using Cons.prems(2) by (rule rtrancl_mono)
    ultimately show ?thesis unfolding descendants_def by (blast intro: rtrancl_trans)
  qed
  have u: "?D \<union> D \<subseteq> R\<^sup>* `` (tx_hash ` set (tx # txs))"
    unfolding list.set image_insert using d p(6) by blast
  have "child P `` (?D \<union> D) \<subseteq> ?D \<union> D" using c descendants_closed p(5) by blast
  moreover have "tx_hash tx \<in> ?D" by (auto simp: descendants_def remove_roots_def)
  moreover have "map_of (mapTx P') = pool_without P (?D \<union> D)"
    unfolding p(3) by (auto simp: pool_without_def q(3) fun_eq_iff)
  ultimately show ?case
    using q(1) p(1,2,4) u by (intro exI [of _ P'] exI [of _ "?D \<union> D"]) auto
qed

context coins_source
begin

lemma immature_loop_ok:
  assumes "cache_inv invar utxo has st" and "\<not> fSanityCheck P"
  shows "\<exists>r st'. immature_loop base P nHeight nMaturity ins st = Some (r, st') \<and>
    cache_inv invar utxo has st' \<and> cache_utxo utxo st' = cache_utxo utxo st \<and> cache_grows st st' \<and>
    (if r then unspendable (cache_utxo utxo st) st' P nHeight nMaturity ins else spendable st' P nHeight nMaturity ins)"
  using assms(1)
proof (induction ins arbitrary: st)
  case Nil
  then show ?case by (intro exI [of _ False] exI [of _ st]) (simp add: spendable_def)
next
  case (Cons txin ins)
  let ?h = "op_hash (prevout txin)"
  show ?case
  proof (cases "map_of (mapTx P) ?h")
    case (Some e)
    obtain r st' where 1: "immature_loop base P nHeight nMaturity ins st = Some (r, st')"
      "cache_inv invar utxo has st'" "cache_utxo utxo st' = cache_utxo utxo st" "cache_grows st st'"
      "if r then unspendable (cache_utxo utxo st) st' P nHeight nMaturity ins else spendable st' P nHeight nMaturity ins"
      using Cons.IH [OF Cons.prems] by blast
    then show ?thesis using Some by (intro exI [of _ r] exI [of _ st']) (simp add: spendable_Cons unspendable_Cons)
  next
    case None
    obtain q st1 where a: "AccessCoins base st ?h = (q, st1)" by (metis prod.exhaust)
    note ok = AccessCoins_ok [OF Cons.prems a] and g = AccessCoins_grows [OF a]
    then have inv: "cache_inv invar utxo has st1" and u: "cache_utxo utxo st1 = cache_utxo utxo st" by blast+
    show ?thesis
    proof (cases "case q of None \<Rightarrow> True | Some c \<Rightarrow> immature nHeight nMaturity c")
      case True
      then have "unspendable (cache_utxo utxo st) st1 P nHeight nMaturity (txin # ins)"
        unfolding unspendable_Cons
      proof (cases q)
        case q: None
        then have "cache_utxo utxo st ?h = (\<lambda>n. None)" using ok by auto
        then show "map_of (mapTx P) ?h = None \<and> (cache_utxo utxo st ?h = (\<lambda>n. None) \<or>
          (\<exists>c. cached st1 ?h = Some c \<and> immature nHeight nMaturity c)) \<or>
          unspendable (cache_utxo utxo st) st1 P nHeight nMaturity ins" using None by blast
      next
        case (Some c)
        then have "cached st1 ?h = Some c" "immature nHeight nMaturity c" using True g(2) by simp_all
        then show "map_of (mapTx P) ?h = None \<and> (cache_utxo utxo st ?h = (\<lambda>n. None) \<or>
          (\<exists>c. cached st1 ?h = Some c \<and> immature nHeight nMaturity c)) \<or>
          unspendable (cache_utxo utxo st) st1 P nHeight nMaturity ins" using None by blast
      qed
      moreover have "immature_loop base P nHeight nMaturity (txin # ins) st = Some (True, st1)"
        using None a assms(2) True by (cases q) (simp_all add: immature_def)
      ultimately show ?thesis using inv u g(1) by (intro exI [of _ True] exI [of _ st1]) simp
    next
      case False
      then obtain c where c: "q = Some c" "\<not> immature nHeight nMaturity c" by (cases q) auto
      obtain r st' where 1: "immature_loop base P nHeight nMaturity ins st1 = Some (r, st')"
        "cache_inv invar utxo has st'" "cache_utxo utxo st' = cache_utxo utxo st1" "cache_grows st1 st'"
        "if r then unspendable (cache_utxo utxo st1) st' P nHeight nMaturity ins else spendable st' P nHeight nMaturity ins"
        using Cons.IH [OF inv] by blast
      have "cached st' ?h = Some c" using 1(4) c(1) g(2) by (simp add: cache_grows_def)
      then have "if r then unspendable (cache_utxo utxo st) st' P nHeight nMaturity (txin # ins)
          else spendable st' P nHeight nMaturity (txin # ins)"
        using 1(5) c(2) u by (cases r) (simp_all add: spendable_Cons unspendable_Cons)
      moreover have "immature_loop base P nHeight nMaturity (txin # ins) st = Some (r, st')"
        using None a c 1(1) unfolding immature_def by auto
      ultimately show ?thesis
        using 1(2,3) cache_grows_trans [OF g(1) 1(4)] u by (intro exI [of _ r] exI [of _ st']) simp
    qed
  qed
qed

lemma find_immature_ok:
  assumes "cache_inv invar utxo has st" and "\<not> fSanityCheck P"
  shows "\<exists>txs st'. find_immature base P nHeight nMaturity m st = Some (txs, st') \<and>
    cache_inv invar utxo has st' \<and> cache_utxo utxo st' = cache_utxo utxo st \<and> cache_grows st st' \<and>
    (\<forall>(h, e) \<in> set m. e_tx e \<notin> set txs \<longrightarrow> spendable st' P nHeight nMaturity (vin (e_tx e))) \<and>
    (\<forall>tx \<in> set txs. (\<exists>(h, e) \<in> set m. tx = e_tx e) \<and> unspendable (cache_utxo utxo st) st' P nHeight nMaturity (vin tx))"
  using assms(1)
proof (induction m arbitrary: st)
  case (Cons x m)
  obtain h e where x: "x = (h, e)" by fastforce
  obtain r st1 where 1: "immature_loop base P nHeight nMaturity (vin (e_tx e)) st = Some (r, st1)"
    "cache_inv invar utxo has st1" "cache_utxo utxo st1 = cache_utxo utxo st" "cache_grows st st1"
    "if r then unspendable (cache_utxo utxo st) st1 P nHeight nMaturity (vin (e_tx e))
     else spendable st1 P nHeight nMaturity (vin (e_tx e))"
    using immature_loop_ok [OF Cons.prems assms(2), of nHeight nMaturity "vin (e_tx e)"] by blast
  obtain txs st2 where 2: "find_immature base P nHeight nMaturity m st1 = Some (txs, st2)"
    "cache_inv invar utxo has st2" "cache_utxo utxo st2 = cache_utxo utxo st1" "cache_grows st1 st2"
    "\<forall>(h, e) \<in> set m. e_tx e \<notin> set txs \<longrightarrow> spendable st2 P nHeight nMaturity (vin (e_tx e))"
    "\<forall>tx \<in> set txs. (\<exists>(h, e) \<in> set m. tx = e_tx e) \<and> unspendable (cache_utxo utxo st1) st2 P nHeight nMaturity (vin tx)"
    using Cons.IH [OF 1(2)] by blast
  have "if r then unspendable (cache_utxo utxo st) st2 P nHeight nMaturity (vin (e_tx e))
     else spendable st2 P nHeight nMaturity (vin (e_tx e))"
    using 1(5) spendable_grows [OF _ 2(4)] unspendable_grows [OF _ 2(4)] by (cases r) simp_all
  then show ?case
    unfolding x find_immature.simps 1(1) using 2 1(3) cache_grows_trans [OF 1(4) 2(4)]
    by (intro exI [of _ "if r then e_tx e # txs else txs"] exI [of _ st2]) auto
qed simp

lemma removeCoinbaseSpends_ok:
  assumes "cache_inv invar utxo has st" and "pool_inv P" and "\<not> fSanityCheck P"
  shows "\<exists>P' st'. removeCoinbaseSpends base nMaturity P st nHeight = Some (P', st') \<and> pool_inv P' \<and> subpool P' P \<and>
    cache_inv invar utxo has st' \<and> cache_utxo utxo st' = cache_utxo utxo st \<and>
    (\<forall>h e p. map_of (mapTx P') h = Some e \<and> spends (e_tx e) p \<longrightarrow>
      map_of (mapTx P') (op_hash p) \<noteq> None \<or>
      (\<exists>e'. map_of (mapTx P) (op_hash p) = Some e' \<and> length (vout (e_tx e')) \<le> unat (op_n p)) \<or>
      (\<exists>c. cached st' (op_hash p) = Some c \<and> \<not> immature nHeight nMaturity c)) \<and>
    (\<forall>h. map_of (mapTx P) h \<noteq> None \<and> map_of (mapTx P') h = None \<longrightarrow>
      (\<exists>a e. (a, h) \<in> (child P)\<^sup>* \<and> map_of (mapTx P) a = Some e \<and>
        unspendable (cache_utxo utxo st) st' P nHeight nMaturity (vin (e_tx e))))"
proof -
  obtain txs st' where f: "find_immature base P nHeight nMaturity (mapTx P) st = Some (txs, st')"
    "cache_inv invar utxo has st'" "cache_utxo utxo st' = cache_utxo utxo st"
    "\<And>h e. (h, e) \<in> set (mapTx P) \<Longrightarrow> e_tx e \<notin> set txs \<Longrightarrow> spendable st' P nHeight nMaturity (vin (e_tx e))"
    "\<And>tx. tx \<in> set txs \<Longrightarrow> (\<exists>(h, e) \<in> set (mapTx P). tx = e_tx e) \<and>
      unspendable (cache_utxo utxo st) st' P nHeight nMaturity (vin tx)"
    using find_immature_ok [OF assms(1,3), of nHeight nMaturity "mapTx P"] by fast
  have own: "\<exists>e. map_of (mapTx P) (tx_hash tx) = Some e \<and> e_tx e = tx" if t: "tx \<in> set txs" for tx
  proof -
    obtain h e where "(h, e) \<in> set (mapTx P)" "tx = e_tx e" using f(5) [OF t] by blast
    moreover from this have "map_of (mapTx P) h = Some e"
      using assms(2) unfolding pool_inv_def map_wf_def strict_sorted_iff by (simp add: map_of_is_SomeI)
    ultimately show ?thesis using pool_invD(3) [OF assms(2)] by blast
  qed
  have kids: "\<forall>tx \<in> set txs. \<forall>h e i. map_of (mapTx P) h = Some e \<and>
      i < length (vout tx) \<and> spends (e_tx e) (COutPoint.make (tx_hash tx) (of_nat i)) \<longrightarrow> (tx_hash tx, h) \<in> child P"
    using own unfolding child_def by blast
  obtain P' D where p: "remove_all txs P = Some P'" "pool_inv P'" "map_of (mapTx P') = pool_without P D"
    "tx_hash ` set txs \<subseteq> D" "child P `` D \<subseteq> D" "D \<subseteq> (child P)\<^sup>* `` (tx_hash ` set txs)"
    using remove_all_ok [OF assms(2) order_refl kids] by blast
  have "map_of (mapTx P') (op_hash p) \<noteq> None \<or>
      (\<exists>e'. map_of (mapTx P) (op_hash p) = Some e' \<and> length (vout (e_tx e')) \<le> unat (op_n p)) \<or>
      (\<exists>c. cached st' (op_hash p) = Some c \<and> \<not> immature nHeight nMaturity c)"
    if h: "map_of (mapTx P') h = Some e" and s: "spends (e_tx e) p" for h e p
  proof (rule ccontr)
    assume n: "\<not> ?thesis"
    have e: "map_of (mapTx P) h = Some e" "h \<notin> D"
      using h unfolding p(3) by (auto simp: pool_without_def split: if_splits)
    then have "e_tx e \<notin> set txs" using p(4) pool_invD(3) [OF assms(2)] by force
    moreover have "(h, e) \<in> set (mapTx P)" using e(1) by (rule map_of_SomeD)
    ultimately obtain e' where e': "map_of (mapTx P) (op_hash p) = Some e'"
      using f(4) s n unfolding spends_def spendable_def by blast
    then have "op_hash p \<in> D" using n unfolding p(3) by (auto simp: pool_without_def split: if_splits)
    moreover have "(op_hash p, h) \<in> child P"
    proof -
      have "unat (op_n p) < length (vout (e_tx e'))" using n e' by (simp add: not_le)
      moreover have "p = COutPoint.make (op_hash p) (of_nat (unat (op_n p)))" by (simp add: COutPoint.make_def)
      ultimately show ?thesis using e(1) e' s unfolding child_def by auto
    qed
    ultimately show False using p(5) e(2) by blast
  qed
  moreover have "\<exists>a e. (a, h) \<in> (child P)\<^sup>* \<and> map_of (mapTx P) a = Some e \<and>
      unspendable (cache_utxo utxo st) st' P nHeight nMaturity (vin (e_tx e))"
    if h: "map_of (mapTx P) h \<noteq> None" "map_of (mapTx P') h = None" for h
  proof -
    have "h \<in> D" using h unfolding p(3) by (auto simp: pool_without_def split: if_splits)
    then show ?thesis using p(6) own f(5) by blast
  qed
  moreover have "subpool P' P" unfolding subpool_def p(3) by (auto simp: pool_without_def map_le_def)
  moreover have "removeCoinbaseSpends base nMaturity P st nHeight = Some (P', st')"
    by (simp add: removeCoinbaseSpends_def f(1) p(1))
  ultimately show ?thesis using p(2) f(2,3) by blast
qed

end

section \<open>What the sanity check finds\<close>

lemma check_inputs_iff:
  "check_inputs P h ins i \<longleftrightarrow> (\<forall>k < length ins.
     (\<forall>e. map_of (mapTx P) (op_hash (prevout (ins ! k))) = Some e \<longrightarrow>
        unat (op_n (prevout (ins ! k))) < length (vout (e_tx e)) \<and>
        \<not> CTxOut_IsNull (vout (e_tx e) ! unat (op_n (prevout (ins ! k))))) \<and>
     (\<exists>it. map_of (mapNextTx P) (prevout (ins ! k)) = Some it \<and> ptx it = Some h \<and> ip_n it = of_nat (i + k)))"
proof (induction ins arbitrary: i)
  case (Cons txin ins)
  show ?case
    unfolding check_inputs.simps Cons.IH length_Cons All_less_Suc2 by (auto split: option.splits)
qed simp

lemma check_next_ok: "pool_inv P \<Longrightarrow> x \<in> set (mapNextTx P) \<Longrightarrow> check_next P x"
proof -
  assume inv: "pool_inv P" and x: "x \<in> set (mapNextTx P)"
  obtain p it where px: "x = (p, it)" by fastforce
  then have "map_of (mapNextTx P) p = Some it" using x map_of_iff [OF pool_invD(2) [OF inv]] by simp
  then obtain h e where "ptx it = Some h" "map_of (mapTx P) h = Some e" "spends_at (e_tx e) p (ip_n it)"
    using pool_invD(5) [OF inv] by blast
  then show ?thesis using pool_invD(3) [OF inv] by (auto simp: check_next_def px pool_deref_def spends_at_def)
qed

lemma check_inputs_ok:
  assumes "pool_inv P" and "links_ok P" and "map_of (mapTx P) h = Some e" and "\<not> HasZerocoinSpendInputs (e_tx e)"
  shows "check_inputs P h (vin (e_tx e)) 0"
  unfolding check_inputs_iff
proof (intro allI impI conjI)
  fix k assume k: "k < length (vin (e_tx e))"
  let ?p = "prevout (vin (e_tx e) ! k)"
  have s: "spends (e_tx e) ?p" using assms(4) k by (auto simp: spends_def)
  show "unat (op_n ?p) < length (vout (e_tx e'))" "\<not> CTxOut_IsNull (vout (e_tx e') ! unat (op_n ?p))"
    if "map_of (mapTx P) (op_hash ?p) = Some e'" for e'
    using that assms(2,3) s unfolding links_ok_def by blast+
  have "unat (of_nat k :: u32) = k"
    using k pool_invD(4) [OF assms(1,3)] by (simp add: pool_tx_def unat_of_nat take_bit_nat_eq_self)
  then have "spends_at (e_tx e) ?p (of_nat k)" using assms(4) k by (simp add: spends_at_def)
  then have "map_of (mapNextTx P) ?p = Some \<lparr>ptx = Some h, ip_n = of_nat k\<rparr>"
    using assms(3) by (simp add: pool_invD(5) [OF assms(1)])
  then show "\<exists>it. map_of (mapNextTx P) ?p = Some it \<and> ptx it = Some h \<and> ip_n it = of_nat (0 + k)" by simp
qed

lemma check_inputs_fails:
  assumes "pool_inv P" and "map_of (mapTx P) h = Some e" and "HasZerocoinSpendInputs (e_tx e)"
  shows "\<not> check_inputs P h (vin (e_tx e)) 0"
proof
  assume c: "check_inputs P h (vin (e_tx e)) 0"
  let ?p = "prevout (vin (e_tx e) ! 0)"
  have l: "0 < length (vin (e_tx e))" using assms(3) by (cases "vin (e_tx e)") (auto simp: HasZerocoinSpendInputs_def)
  then obtain it where "map_of (mapNextTx P) ?p = Some it" using c unfolding check_inputs_iff by blast
  then obtain h' e' where e': "map_of (mapTx P) h' = Some e'" "spends (e_tx e') ?p"
    using next_spends [OF assms(1)] by blast
  then have "op_hash ?p \<noteq> 0"
    using pool_invD(4) [OF assms(1) e'(1)] by (auto simp: spends_def pool_tx_def list_all_iff)
  moreover have "op_hash ?p = 0"
    using pool_invD(4) [OF assms(1,2)] assms(3) l by (simp add: pool_tx_def list_all_iff)
  ultimately show False by simp
qed

lemma check_inputs_links:
  assumes "pool_inv P" and "\<And>h e. map_of (mapTx P) h = Some e \<Longrightarrow> check_inputs P h (vin (e_tx e)) 0"
  shows "links_ok P"
  unfolding links_ok_def
proof (intro allI impI)
  fix h e p e'
  assume a: "map_of (mapTx P) h = Some e \<and> spends (e_tx e) p \<and> map_of (mapTx P) (op_hash p) = Some e'"
  then obtain k where "k < length (vin (e_tx e))" "p = prevout (vin (e_tx e) ! k)"
    by (auto simp: spends_def in_set_conv_nth)
  then show "unat (op_n p) < length (vout (e_tx e')) \<and> \<not> CTxOut_IsNull (vout (e_tx e') ! unat (op_n p))"
    using assms(2) [of h e] a unfolding check_inputs_iff by blast
qed

lemma pool_check_iff:
  assumes "pool_inv P" and "fSanityCheck P"
  shows "pool_check P \<longleftrightarrow> links_ok P \<and> (\<forall>h e. map_of (mapTx P) h = Some e \<longrightarrow> \<not> HasZerocoinSpendInputs (e_tx e))"
proof -
  have "list_all (\<lambda>(h, e). check_inputs P h (vin (e_tx e)) 0) (mapTx P) \<longleftrightarrow>
      (\<forall>h e. map_of (mapTx P) h = Some e \<longrightarrow> check_inputs P h (vin (e_tx e)) 0)"
    by (auto simp: list_all_iff map_of_iff [OF pool_invD(1) [OF assms(1)]])
  moreover have "list_all (check_next P) (mapNextTx P)"
    using check_next_ok [OF assms(1)] by (simp add: list_all_iff)
  ultimately show ?thesis
    using assms(2) pool_invD(6) [OF assms(1)] check_inputs_ok [OF assms(1)] check_inputs_fails [OF assms(1)]
      check_inputs_links [OF assms(1)] unfolding pool_check_def by metis
qed

section \<open>The life of a pool\<close>

text \<open>What \<open>AcceptToMemoryPool\<close> has checked when it calls \<open>addUnchecked\<close>: the pool has neither the
  transaction nor one that spends the same outputs.\<close>

definition may_add :: "'d CTxMemPool \<Rightarrow> CTransaction \<Rightarrow> bool" where
  "may_add P tx \<longleftrightarrow> pool_tx tx \<and> \<not> pool_exists P (tx_hash tx) \<and>
     list_all (\<lambda>txin. map_of (mapNextTx P) (prevout txin) = None) (vin tx)"

inductive pool_step :: "'d CTxMemPool \<Rightarrow> 'd CTxMemPool \<Rightarrow> bool" where
  Add: "may_add P (e_tx e) \<Longrightarrow> pool_step P (addUnchecked P (tx_hash (e_tx e)) e)"
| Remove: "pool_remove P tx removed fRecursive = Some (Q, removed') \<Longrightarrow> pool_step P Q"
| Conflicts: "removeConflicts P tx removed = Some (Q, removed') \<Longrightarrow> pool_step P Q"
| Block: "removeForBlock P txs conflicts = Some (Q, conflicts') \<Longrightarrow> pool_step P Q"
| Immature: "removeCoinbaseSpends db_view nMaturity P st nHeight = Some (Q, st') \<Longrightarrow> pool_step P Q"
| Clear: "pool_step P (pool_clear P)"
| Prioritise: "pool_step P (PrioritiseTransaction add zero P h d n)"
| Deprioritise: "pool_step P (ClearPrioritisation P h)"
| Sanity: "pool_step P (P\<lparr>fSanityCheck := b\<rparr>)"

lemma pool_step_inv:
  assumes "pool_step P Q" and "pool_inv P"
  shows "pool_inv Q"
  using assms
proof (cases rule: pool_step.cases)
  case (Add e)
  have "map_of (mapNextTx P) p = None" if "spends (e_tx e) p" for p
    using that Add(2) by (auto simp: may_add_def spends_def list_all_iff)
  then show ?thesis using addUnchecked_inv [OF assms(2)] Add by (auto simp: may_add_def pool_exists_def)
next
  case (Remove tx removed fRecursive removed')
  then show ?thesis
    using pool_remove_ok [OF assms(2), of tx removed] pool_remove_one [OF assms(2), of tx removed]
    by (cases fRecursive) auto
next
  case (Conflicts tx removed removed')
  then show ?thesis using conflicts_loop_ok [OF assms(2), of tx "vin tx" removed] by (auto simp: removeConflicts_def)
next
  case (Block txs conflicts conflicts')
  then show ?thesis using block_loop_ok [OF assms(2), of txs conflicts] by (auto simp: removeForBlock_def)
next
  case (Immature nMaturity st nHeight st')
  then obtain txs where "remove_all txs P = Some Q"
    by (auto simp: removeCoinbaseSpends_def split: option.splits)
  then show ?thesis using remove_all_ok [OF assms(2), of UNIV txs] by auto
qed (auto simp: pool_inv_clear PrioritiseTransaction_def ClearPrioritisation_def split: prod.split
    intro: pool_inv_more)

definition reachable_pool :: "'d CTxMemPool \<Rightarrow> bool" where
  "reachable_pool P \<longleftrightarrow> pool_step\<^sup>*\<^sup>* CTxMemPool_new P"

lemma reachable_inv: "reachable_pool P \<Longrightarrow> pool_inv P"
  unfolding reachable_pool_def
proof (induction rule: rtranclp_induct)
  case base
  show ?case by (rule pool_inv_new)
next
  case (step P Q)
  then show ?case by (blast intro: pool_step_inv)
qed

text \<open>No transaction that is left spends an output of one that \<open>remove\<close> took out.\<close>

lemma no_orphans:
  assumes "pool_inv P" and "map_of (mapTx P') = pool_without P (descendants P S)" and "map_of (mapTx P') h = Some e"
    and "tx \<in> pool_txs P (descendants P S)" and "i < length (vout tx)"
  shows "\<not> spends (e_tx e) (COutPoint.make (tx_hash tx) (of_nat i))"
proof
  assume s: "spends (e_tx e) (COutPoint.make (tx_hash tx) (of_nat i))"
  obtain h' e' where e': "tx = e_tx e'" "map_of (mapTx P) h' = Some e'" "h' \<in> descendants P S"
    using assms(4) by (auto simp: pool_txs_def)
  have h: "map_of (mapTx P) h = Some e" "h \<notin> descendants P S"
    using assms(2,3) by (auto simp: pool_without_def split: if_splits)
  have "(h', h) \<in> child P"
    using e'(1,2) h(1) s assms(5) pool_invD(3) [OF assms(1) e'(2)] by (auto simp: child_def)
  then show False using descendants_closed e'(3) h(2) by blast
qed

text \<open>A transaction and one that spends it.\<close>

definition example_entry :: "uint256 \<Rightarrow> uint256 \<Rightarrow> nat CTxMemPoolEntry" where
  "example_entry parent h = CTxMemPoolEntry_of
     \<lparr>nVersion = 1, vin = [CTxIn_of (COutPoint.make parent 0) [] 0], vout = [CTxOut_of 9 []], nLockTime = 0, tx_hash = h\<rparr>
     1 0 0 1"

definition example_pool :: "nat CTxMemPool" where
  "example_pool = addUnchecked (addUnchecked CTxMemPool_new 10 (example_entry 5 10)) 11 (example_entry 10 11)"

lemma example_entry_tx:
  "tx_hash (e_tx (example_entry p h)) = h" "vin (e_tx (example_entry p h)) = [CTxIn_of (COutPoint.make p 0) [] 0]"
  "vout (e_tx (example_entry p h)) = [CTxOut_of 9 []]" "\<not> HasZerocoinSpendInputs (e_tx (example_entry p h))"
  "pool_tx (e_tx (example_entry p h)) \<longleftrightarrow> p \<noteq> 0"
  by (simp_all add: example_entry_def CTxMemPoolEntry_of_def Let_def HasZerocoinSpendInputs_def pool_tx_def
      CTxIn_IsZerocoinSpend_def IsZerocoinSpend_def CTxIn_of_def COutPoint.make_def)

lemma example_pool_maps:
  "mapTx example_pool = [(10, example_entry 5 10), (11, example_entry 10 11)]"
  "mapNextTx example_pool = [(COutPoint.make 5 0, \<lparr>ptx = Some 10, ip_n = 0\<rparr>), (COutPoint.make 10 0, \<lparr>ptx = Some 11, ip_n = 0\<rparr>)]"
  "fSanityCheck example_pool = False"
  by (simp_all add: example_pool_def addUnchecked_def CTxMemPool_new_def Let_def example_entry_tx CTxIn_of_def
      COutPoint.make_def less_COutPoint_ext_def outpoint_key_def)

lemma example_pool_reachable: "reachable_pool example_pool"
proof -
  let ?P = "addUnchecked CTxMemPool_new 10 (example_entry 5 10)"
  have "pool_step CTxMemPool_new ?P"
    using pool_step.Add [of CTxMemPool_new "example_entry 5 10"]
    by (simp add: example_entry_tx may_add_def pool_exists_def CTxMemPool_new_def)
  moreover have "pool_step ?P example_pool"
    using pool_step.Add [of ?P "example_entry 10 11"]
    by (simp add: example_entry_tx may_add_def pool_exists_def CTxMemPool_new_def addUnchecked_def Let_def
        example_pool_def CTxIn_of_def COutPoint.make_def)
  ultimately show ?thesis unfolding reachable_pool_def by (meson rtranclp.simps)
qed

lemma example_pool_child: "(10, 11) \<in> child example_pool"
  by (auto simp: child_def example_pool_maps example_entry_tx spends_def CTxIn_of_def intro!: exI [of _ 0])

lemma example_pool_links: "links_ok example_pool"
  by (auto simp: links_ok_def example_pool_maps example_entry_tx spends_def CTxIn_of_def COutPoint.make_def CTxOut_of_def
      CTxOut_IsNull_def split: if_splits)

section \<open>Properties\<close>

text \<open>
  C27. In every pool that adding checked transactions, removing, connecting blocks, dropping
  immature spends, clearing and prioritising can reach, no two transactions spend the same output,
  mapNextTx holds exactly the inputs of the transactions of mapTx, totalTxSize is the sum of their
  sizes, and remove, removeConflicts and removeForBlock never follow a pointer to a transaction
  that is gone.
\<close>

theorem mempool_invariant:
  assumes "reachable_pool P"
  shows "(\<forall>h e h' e' p. map_of (mapTx P) h = Some e \<and> spends (e_tx e) p \<and>
      map_of (mapTx P) h' = Some e' \<and> spends (e_tx e') p \<longrightarrow> h = h') \<and>
    (\<forall>p it. map_of (mapNextTx P) p = Some it \<longleftrightarrow>
      (\<exists>h e. ptx it = Some h \<and> map_of (mapTx P) h = Some e \<and> spends_at (e_tx e) p (ip_n it))) \<and>
    totalTxSize P = sum_list (map (\<lambda>x. e_nTxSize (snd x)) (mapTx P)) \<and>
    (\<forall>tx removed r. pool_remove P tx removed r \<noteq> None) \<and>
    (\<forall>tx removed. removeConflicts P tx removed \<noteq> None) \<and>
    (\<forall>txs conflicts. removeForBlock P txs conflicts \<noteq> None)"
proof (intro conjI)
  note inv = reachable_inv [OF assms]
  show "\<forall>h e h' e' p. map_of (mapTx P) h = Some e \<and> spends (e_tx e) p \<and>
      map_of (mapTx P) h' = Some e' \<and> spends (e_tx e') p \<longrightarrow> h = h'"
    using one_spender [OF inv] by blast
  show "\<forall>tx removed r. pool_remove P tx removed r \<noteq> None"
    using pool_remove_ok [OF inv] pool_remove_one [OF inv] by (metis option.distinct(1))
  show "\<forall>tx removed. removeConflicts P tx removed \<noteq> None"
    using conflicts_loop_ok [OF inv] unfolding removeConflicts_def by (metis option.distinct(1))
  show "\<forall>txs conflicts. removeForBlock P txs conflicts \<noteq> None"
    using block_loop_ok [OF inv] unfolding removeForBlock_def by (metis option.distinct(1))
qed (use pool_invD(5,6) [OF reachable_inv [OF assms]] in blast)+

theorem mempool_invariant_witness:
  "pool_remove example_pool CTransaction_Null [] True \<noteq> None \<and> totalTxSize example_pool =
     e_nTxSize (example_entry 5 10) + e_nTxSize (example_entry 10 11)"
  using mempool_invariant [OF example_pool_reachable] by (simp add: example_pool_maps)

text \<open>
  C28. Removing a transaction of the pool recursively takes out exactly the transaction and its
  descendants, whatever the shape of their graph, hands exactly these back, and leaves no
  transaction that spends an output of a removed one.
\<close>

theorem mempool_remove:
  assumes "reachable_pool P" and "pool_lookup P (tx_hash tx) = Some tx"
  shows "\<exists>P' txs. pool_remove P tx [] True = Some (P', txs) \<and>
    map_of (mapTx P') = pool_without P (descendants P {tx_hash tx}) \<and>
    set txs = pool_txs P (descendants P {tx_hash tx}) \<and>
    (\<forall>h e tx' i. map_of (mapTx P') h = Some e \<and> tx' \<in> set txs \<and> i < length (vout tx') \<longrightarrow>
      \<not> spends (e_tx e) (COutPoint.make (tx_hash tx') (of_nat i)))"
proof -
  have r: "remove_roots P tx = {tx_hash tx}" using assms(2) by (auto simp: remove_roots_def pool_lookup_def)
  obtain P' txs where p: "pool_remove P tx [] True = Some (P', txs)"
    "map_of (mapTx P') = pool_without P (descendants P {tx_hash tx})"
    "set txs = pool_txs P (descendants P {tx_hash tx})"
    using pool_remove_ok [OF reachable_inv [OF assms(1)], of tx "[]"] unfolding r by auto
  then show ?thesis using no_orphans [OF reachable_inv [OF assms(1)] p(2)] by blast
qed

theorem mempool_remove_witness:
  "\<exists>P' txs. pool_remove example_pool (e_tx (example_entry 5 10)) [] True = Some (P', txs) \<and> map_of (mapTx P') 11 = None"
proof -
  have "11 \<in> descendants example_pool {10}" using example_pool_child by (auto simp: descendants_def)
  then show ?thesis
    using mempool_remove [OF example_pool_reachable, of "e_tx (example_entry 5 10)"]
    by (fastforce simp: pool_lookup_def example_pool_maps example_entry_tx pool_without_def)
qed

text \<open>
  C29. After removeForBlock the pool has none of the transactions of the block, no transaction
  that spends an output a transaction of the block spends, no prioritisation of them, and nothing
  that was not there before.
\<close>

theorem mempool_block:
  assumes "reachable_pool P"
  shows "\<exists>P' conflicts. removeForBlock P txs [] = Some (P', conflicts) \<and> reachable_pool P' \<and> subpool P' P \<and>
    (\<forall>tx \<in> set txs. \<forall>h e. map_of (mapTx P') h = Some e \<longrightarrow> h \<noteq> tx_hash tx \<and> \<not> conflicts_with tx (e_tx e)) \<and>
    (\<forall>h. map_of (mapDeltas P') h = (if h \<in> tx_hash ` set txs then None else map_of (mapDeltas P) h))"
proof -
  obtain P' cs where p: "removeForBlock P txs [] = Some (P', cs)" "subpool P' P"
    "\<forall>tx \<in> set txs. \<forall>h e. map_of (mapTx P') h = Some e \<longrightarrow> h \<noteq> tx_hash tx \<and> \<not> conflicts_with tx (e_tx e)"
    "\<forall>h. map_of (mapDeltas P') h = (if h \<in> tx_hash ` set txs then None else map_of (mapDeltas P) h)"
    using block_loop_ok [OF reachable_inv [OF assms], of txs "[]"] unfolding removeForBlock_def by auto
  have "reachable_pool P'"
    using assms pool_step.Block [OF p(1)] unfolding reachable_pool_def by (meson rtranclp.simps)
  then show ?thesis using p by blast
qed

theorem mempool_block_witness:
  "\<exists>P' conflicts. removeForBlock example_pool [e_tx (example_entry 5 12)] [] = Some (P', conflicts) \<and>
     map_of (mapTx P') 10 = None"
proof -
  have "conflicts_with (e_tx (example_entry 5 12)) (e_tx (example_entry 5 10))"
    by (auto simp: conflicts_with_def spends_def example_entry_tx)
  then show ?thesis
    using mempool_block [OF example_pool_reachable, of "[e_tx (example_entry 5 12)]"]
    by (fastforce simp: subpool_def map_le_def dom_def example_pool_maps)
qed

text \<open>
  C30. With the sanity check off, removeCoinbaseSpends never fails over pcoinsTip and its database
  and changes no coin. Every input of a transaction it leaves in the pool is an output of a
  transaction still in the pool, or of coins that AccessCoins finds (it does not ask whether
  outputs are left) and that are not an immature coinbase or coinstake at the height, unless it
  names an output its parent in the pool never had. And it removes nothing without a reason: a
  transaction that is gone is, or descends from, a transaction with an input that is of no
  transaction in the pool and whose coins are gone or immature.
\<close>

theorem mempool_immature:
  assumes "reachable_pool P" and "\<not> fSanityCheck P" and "tip_inv st"
  shows "\<exists>P' st'. removeCoinbaseSpends db_view nMaturity P st nHeight = Some (P', st') \<and> subpool P' P \<and>
    tip_inv st' \<and> tip_utxo st' = tip_utxo st \<and>
    (\<forall>h e p. map_of (mapTx P') h = Some e \<and> spends (e_tx e) p \<longrightarrow>
      map_of (mapTx P') (op_hash p) \<noteq> None \<or>
      (\<exists>e'. map_of (mapTx P) (op_hash p) = Some e' \<and> length (vout (e_tx e')) \<le> unat (op_n p)) \<or>
      (\<exists>c. fst (AccessCoins db_view st' (op_hash p)) = Some c \<and> \<not> immature nHeight nMaturity c)) \<and>
    (\<forall>h. map_of (mapTx P) h \<noteq> None \<and> map_of (mapTx P') h = None \<longrightarrow>
      (\<exists>a e p. (a, h) \<in> (child P)\<^sup>* \<and> map_of (mapTx P) a = Some e \<and> p \<in> prevout ` set (vin (e_tx e)) \<and>
        map_of (mapTx P) (op_hash p) = None \<and> (tip_utxo st (op_hash p) = (\<lambda>n. None) \<or>
          (\<exists>c. fst (AccessCoins db_view st' (op_hash p)) = Some c \<and> immature nHeight nMaturity c))))"
proof -
  have a: "fst (AccessCoins db_view st' h) = Some c" if "cached st' h = Some c" for st' h c
    using AccessCoins_cached [OF that] by simp
  obtain P' st' where r: "removeCoinbaseSpends db_view nMaturity P st nHeight = Some (P', st')" "subpool P' P"
    "tip_inv st'" "tip_utxo st' = tip_utxo st"
    and l: "\<And>h e p. map_of (mapTx P') h = Some e \<Longrightarrow> spends (e_tx e) p \<Longrightarrow> map_of (mapTx P') (op_hash p) \<noteq> None \<or>
      (\<exists>e'. map_of (mapTx P) (op_hash p) = Some e' \<and> length (vout (e_tx e')) \<le> unat (op_n p)) \<or>
      (\<exists>c. cached st' (op_hash p) = Some c \<and> \<not> immature nHeight nMaturity c)"
    and g: "\<And>h. map_of (mapTx P) h \<noteq> None \<Longrightarrow> map_of (mapTx P') h = None \<Longrightarrow>
      (\<exists>a e. (a, h) \<in> (child P)\<^sup>* \<and> map_of (mapTx P) a = Some e \<and>
        unspendable (tip_utxo st) st' P nHeight nMaturity (vin (e_tx e)))"
    using db.removeCoinbaseSpends_ok [OF assms(3) reachable_inv [OF assms(1)] assms(2), of nMaturity nHeight] by blast
  show ?thesis
  proof (rule exI [of _ P'], rule exI [of _ st'], intro conjI r allI impI)
    fix h e p assume "map_of (mapTx P') h = Some e \<and> spends (e_tx e) p"
    then show "map_of (mapTx P') (op_hash p) \<noteq> None \<or>
      (\<exists>e'. map_of (mapTx P) (op_hash p) = Some e' \<and> length (vout (e_tx e')) \<le> unat (op_n p)) \<or>
      (\<exists>c. fst (AccessCoins db_view st' (op_hash p)) = Some c \<and> \<not> immature nHeight nMaturity c)"
      using l [of h e p] a by blast
  next
    fix h assume "map_of (mapTx P) h \<noteq> None \<and> map_of (mapTx P') h = None"
    then show "\<exists>a e p. (a, h) \<in> (child P)\<^sup>* \<and> map_of (mapTx P) a = Some e \<and> p \<in> prevout ` set (vin (e_tx e)) \<and>
        map_of (mapTx P) (op_hash p) = None \<and> (tip_utxo st (op_hash p) = (\<lambda>n. None) \<or>
          (\<exists>c. fst (AccessCoins db_view st' (op_hash p)) = Some c \<and> immature nHeight nMaturity c))"
      using g [of h] a unfolding unspendable_def by blast
  qed
qed

theorem mempool_immature_witness:
  "\<exists>P' st'. removeCoinbaseSpends db_view 100 example_pool (fst dirty_state) 5 = Some (P', st') \<and> subpool P' example_pool"
proof -
  have "tip_inv (fst dirty_state)" using dirty_state_ok(1) by (simp add: dirty_state_def cache_inv_def)
  then show ?thesis
    using mempool_immature [OF example_pool_reachable] example_pool_maps(3) by blast
qed

end
