(* ===== verification/TxRules.thy ===== *)
theory TxRules
  imports Standard ConnectTx
begin

text \<open>
  The rules for a single transaction (\<open>src/main.cpp\<close>): the state a validation leaves behind
  (\<open>CValidationState\<close> of \<open>src/main.h\<close>), \<open>CheckTransaction\<close>, which needs no context, finality, the
  rules of relay, and the counts of signature operations. A function that the code gives a
  \<open>CValidationState&\<close> returns its result with the new state. Parameters of the network and options
  are arguments, and so are the checks of zerocoin mints and spends.
\<close>

section \<open>CValidationState\<close>

datatype mode_state = MODE_VALID | MODE_INVALID | MODE_ERROR

record CValidationState =
  vs_mode :: mode_state
  vs_nDoS :: int
  vs_strRejectReason :: string
  vs_chRejectCode :: byte
  vs_corruptionPossible :: bool

definition CValidationState_new :: CValidationState where
  "CValidationState_new =
     \<lparr>vs_mode = MODE_VALID, vs_nDoS = 0, vs_strRejectReason = [], vs_chRejectCode = 0, vs_corruptionPossible = False\<rparr>"

definition DoS ::
    "CValidationState \<Rightarrow> int \<Rightarrow> bool \<Rightarrow> byte \<Rightarrow> string \<Rightarrow> bool \<Rightarrow> bool \<times> CValidationState" where
  "DoS state level ret chRejectCodeIn strRejectReasonIn corruptionIn =
     (let state = state\<lparr>vs_chRejectCode := chRejectCodeIn, vs_strRejectReason := strRejectReasonIn,
        vs_corruptionPossible := corruptionIn\<rparr>
      in if vs_mode state = MODE_ERROR then (ret, state)
         else (ret, state\<lparr>vs_nDoS := vs_nDoS state + level, vs_mode := MODE_INVALID\<rparr>))"

definition Invalid :: "CValidationState \<Rightarrow> bool \<Rightarrow> byte \<Rightarrow> string \<Rightarrow> bool \<times> CValidationState" where
  "Invalid state ret chRejectCode strRejectReason = DoS state 0 ret chRejectCode strRejectReason False"

definition Error :: "CValidationState \<Rightarrow> string \<Rightarrow> bool \<times> CValidationState" where
  "Error state strRejectReasonIn =
     (let state = (if vs_mode state = MODE_VALID then state\<lparr>vs_strRejectReason := strRejectReasonIn\<rparr> else state)
      in (False, state\<lparr>vs_mode := MODE_ERROR\<rparr>))"

definition IsInvalid :: "CValidationState \<Rightarrow> int option" where
  "IsInvalid state = (if vs_mode state = MODE_INVALID then Some (vs_nDoS state) else None)"

definition REJECT_INVALID :: byte where "REJECT_INVALID = 0x10"
definition REJECT_DUPLICATE :: byte where "REJECT_DUPLICATE = 0x12"
definition REJECT_NONSTANDARD :: byte where "REJECT_NONSTANDARD = 0x40"
definition REJECT_INSUFFICIENTFEE :: byte where "REJECT_INSUFFICIENTFEE = 0x42"

section \<open>CheckTransaction\<close>

definition MAX_STANDARD_TX_SIZE :: nat where "MAX_STANDARD_TX_SIZE = 1000000"
definition MAX_ZEROCOIN_TX_SIZE :: nat where "MAX_ZEROCOIN_TX_SIZE = MAX_STANDARD_TX_SIZE"

definition MoneyRange :: "CAmount \<Rightarrow> CAmount \<Rightarrow> bool" where
  "MoneyRange max_money nValueOut \<longleftrightarrow> 0 \<le>s nValueOut \<and> nValueOut \<le>s max_money"

text \<open>\<open>zc_mint\<close> is \<open>CheckZerocoinMint\<close> without its verification flag, \<open>zc_spend\<close> is
  \<open>CheckZerocoinSpend\<close>, whose flag says whether signatures are verified.\<close>

record zerocoin_rules =
  zc_mint :: "uint256 \<Rightarrow> CTxOut \<Rightarrow> CValidationState \<Rightarrow> bool \<times> CValidationState"
  zc_spend :: "CTransaction \<Rightarrow> bool \<Rightarrow> CValidationState \<Rightarrow> bool \<times> CValidationState"
  zc_max_spends :: int

fun check_outputs ::
    "CAmount \<Rightarrow> zerocoin_rules \<Rightarrow> bool \<Rightarrow> CTransaction \<Rightarrow> CAmount \<Rightarrow> CTxOut list \<Rightarrow> CValidationState \<Rightarrow>
     bool \<times> CValidationState" where
  "check_outputs max_money zc fZerocoinActive tx nValueOut [] state = (True, state)"
| "check_outputs max_money zc fZerocoinActive tx nValueOut (txout # outs) state =
     (if CTxOut_IsEmpty txout \<and> \<not> IsCoinBase tx \<and> \<not> IsCoinStake tx then DoS state 100 False 0 [] False
      else if nValue txout <s 0 then DoS state 100 False REJECT_INVALID ''bad-txns-vout-negative'' False
      else if max_money <s nValue txout then DoS state 100 False REJECT_INVALID ''bad-txns-vout-toolarge'' False
      else
        (let nValueOut = nValueOut + nValue txout
         in if \<not> MoneyRange max_money nValueOut
            then DoS state 100 False REJECT_INVALID ''bad-txns-txouttotal-toolarge'' False
            else if fZerocoinActive \<and> CTxOut_IsZerocoinMint txout then
              (case zc_mint zc (tx_hash tx) txout state of
                 (ok, state) \<Rightarrow>
                   if \<not> ok then DoS state 100 False 0 [] False
                   else check_outputs max_money zc fZerocoinActive tx nValueOut outs state)
            else check_outputs max_money zc fZerocoinActive tx nValueOut outs state))"

text \<open>The number of zerocoin spends, \<open>None\<close> when an input is there twice.\<close>

fun check_duplicates :: "COutPoint set \<Rightarrow> int \<Rightarrow> CTxIn list \<Rightarrow> int option" where
  "check_duplicates vInOutPoints nZCSpendCount [] = Some nZCSpendCount"
| "check_duplicates vInOutPoints nZCSpendCount (txin # ins) =
     (if prevout txin \<in> vInOutPoints then None
      else if \<not> CTxIn_IsZerocoinSpend txin
      then check_duplicates (insert (prevout txin) vInOutPoints) nZCSpendCount ins
      else check_duplicates vInOutPoints (nZCSpendCount + 1) ins)"

definition bad_prevout :: uint256 where
  "bad_prevout = 0x7efe9ca02792f6aa2019b410563bc629949999166c3d4073817e157270fb3290"

fun check_prevouts :: "bool \<Rightarrow> CTxIn list \<Rightarrow> CValidationState \<Rightarrow> bool \<times> CValidationState" where
  "check_prevouts fZerocoinActive [] state = (True, state)"
| "check_prevouts fZerocoinActive (txin # ins) state =
     (if COutPoint_IsNull (prevout txin) \<and> fZerocoinActive \<and> \<not> CTxIn_IsZerocoinSpend txin
      then DoS state 10 False REJECT_INVALID ''bad-txns-prevout-null'' False
      else if op_n (prevout txin) = 0 \<and> COutPoint.op_hash (prevout txin) = bad_prevout
      then DoS state 1 False REJECT_INVALID ''bad-prevout'' False
      else check_prevouts fZerocoinActive ins state)"

text \<open>What is left after the zerocoin checks.\<close>

definition check_kind ::
    "zerocoin_rules \<Rightarrow> bool \<Rightarrow> CTransaction \<Rightarrow> CValidationState \<Rightarrow> bool \<times> CValidationState" where
  "check_kind zc fZerocoinActive tx state =
     (if IsCoinBase tx then
        (if length (scriptSig (vin tx ! 0)) < 2 \<or> length (scriptSig (vin tx ! 0)) > 150
         then DoS state 100 False REJECT_INVALID ''bad-cb-length'' False else (True, state))
      else if fZerocoinActive \<and> HasZerocoinSpendInputs tx then
        (if length (vin tx) < 1 \<or> int (length (vin tx)) > zc_max_spends zc
         then DoS state 10 False REJECT_INVALID ''bad-zerocoinspend'' False else (True, state))
      else
        (case check_prevouts fZerocoinActive (vin tx) state of
           (False, state) \<Rightarrow> (False, state)
         | (True, state) \<Rightarrow>
             if IsCoinStake tx \<and> length (vout tx) > 10
             then DoS state 100 False REJECT_INVALID ''bad-stake-length'' False else (True, state)))"

definition check_zerocoin_spends ::
    "zerocoin_rules \<Rightarrow> bool \<Rightarrow> CTransaction \<Rightarrow> int \<Rightarrow> CValidationState \<Rightarrow> bool \<times> CValidationState" where
  "check_zerocoin_spends zc fVerifySignature tx nZCSpendCount state =
     (if nZCSpendCount > zc_max_spends zc then DoS state 100 False 0 [] False
      else if HasZerocoinSpendInputs tx then
        (if \<not> list_all CTxIn_IsZerocoinSpend (vin tx) then DoS state 100 False 0 [] False
         else
           (case zc_spend zc tx fVerifySignature state of
              (ok, state) \<Rightarrow> if \<not> ok then DoS state 100 False 0 [] False else (True, state)))
      else (True, state))"

text \<open>\<open>fVerifySignature\<close> is computed from the clock and the tip.\<close>

definition CheckTransaction ::
    "CAmount \<Rightarrow> zerocoin_rules \<Rightarrow> bool \<Rightarrow> CTransaction \<Rightarrow> bool \<Rightarrow> CValidationState \<Rightarrow> bool \<times> CValidationState" where
  "CheckTransaction max_money zc fVerifySignature tx fZerocoinActive state =
     (if vin tx = [] then DoS state 10 False REJECT_INVALID ''bad-txns-vin-empty'' False
      else if vout tx = [] then DoS state 10 False REJECT_INVALID ''bad-txns-vout-empty'' False
      else if length (ser_tx tx) > MAX_ZEROCOIN_TX_SIZE
      then DoS state 100 False REJECT_INVALID ''bad-txns-oversize'' False
      else
        (case check_outputs max_money zc fZerocoinActive tx 0 (vout tx) state of
           (False, state) \<Rightarrow> (False, state)
         | (True, state) \<Rightarrow>
             (case check_duplicates {} 0 (vin tx) of
                None \<Rightarrow> DoS state 100 False REJECT_INVALID ''bad-txns-inputs-duplicate'' False
              | Some nZCSpendCount \<Rightarrow>
                  (case (if fZerocoinActive then check_zerocoin_spends zc fVerifySignature tx nZCSpendCount state
                         else (True, state)) of
                     (False, state) \<Rightarrow> (False, state)
                   | (True, state) \<Rightarrow> check_kind zc fZerocoinActive tx state))))"

section \<open>Finality\<close>

definition LOCKTIME_THRESHOLD :: int where "LOCKTIME_THRESHOLD = 500000000"
definition LOCKTIME_MEDIAN_TIME_PAST :: u32 where "LOCKTIME_MEDIAN_TIME_PAST = 2"

text \<open>The arguments before are \<open>chainActive.Height()\<close> and \<open>GetAdjustedTime()\<close>.\<close>

definition IsFinalTx :: "int \<Rightarrow> int \<Rightarrow> CTransaction \<Rightarrow> int \<Rightarrow> int \<Rightarrow> bool" where
  "IsFinalTx height adjusted_time tx nBlockHeight nBlockTime =
     (if nLockTime tx = 0 then True
      else
        (let nBlockHeight = (if nBlockHeight = 0 then height else nBlockHeight);
             nBlockTime = (if nBlockTime = 0 then adjusted_time else nBlockTime)
         in if uint (nLockTime tx) < (if uint (nLockTime tx) < LOCKTIME_THRESHOLD then nBlockHeight else nBlockTime)
            then True
            else list_all IsFinal (vin tx)))"

definition CheckFinalTx :: "int \<Rightarrow> int \<Rightarrow> int \<Rightarrow> CTransaction \<Rightarrow> u32 \<Rightarrow> bool" where
  "CheckFinalTx height adjusted_time median_time_past tx flags =
     (let flags = (if flags <s 0 then 0 else flags);
          nBlockHeight = height + 1;
          nBlockTime = (if flags AND LOCKTIME_MEDIAN_TIME_PAST \<noteq> 0 then median_time_past else adjusted_time)
      in IsFinalTx height adjusted_time tx nBlockHeight nBlockTime)"

section \<open>Standard transactions\<close>

text \<open>The options of the node.\<close>

record relay_policy =
  datacarrier :: bool
  nMaxDatacarrierBytes :: nat
  fIsBareMultisigStd :: bool
  minRelayTxFee :: CAmount

fun standard_inputs :: "CTxIn list \<Rightarrow> string option" where
  "standard_inputs [] = None"
| "standard_inputs (txin # ins) =
     (if IsZerocoinSpend (scriptSig txin) then standard_inputs ins
      else if length (scriptSig txin) > 1650 then Some ''scriptsig-size''
      else if \<not> IsPushOnly (scriptSig txin) then Some ''scriptsig-not-pushonly''
      else standard_inputs ins)"

text \<open>The reason or the number of null data outputs; \<open>None\<close> is the undefined behaviour of \<open>Solver\<close>.\<close>

fun standard_outputs :: "relay_policy \<Rightarrow> nat \<Rightarrow> CTxOut list \<Rightarrow> (string + nat) option" where
  "standard_outputs p nDataOut [] = Some (Inr nDataOut)"
| "standard_outputs p nDataOut (txout # outs) =
     (case IsStandard (datacarrier p) (nMaxDatacarrierBytes p) (scriptPubKey txout) of
        None \<Rightarrow> None
      | Some (False, whichType) \<Rightarrow> Some (Inl ''scriptpubkey'')
      | Some (True, whichType) \<Rightarrow>
          if whichType = TX_NULL_DATA then standard_outputs p (nDataOut + 1) outs
          else if whichType = TX_MULTISIG \<and> \<not> fIsBareMultisigStd p then Some (Inl ''bare-multisig'')
          else if IsDust txout (minRelayTxFee p) then Some (Inl ''dust'')
          else standard_outputs p nDataOut outs)"

text \<open>\<open>Inl\<close> is the reason for which the result is false.\<close>

definition IsStandardTx :: "relay_policy \<Rightarrow> int \<Rightarrow> int \<Rightarrow> CTransaction \<Rightarrow> (string + unit) option" where
  "IsStandardTx p height adjusted_time tx =
     (if sint (nVersion tx) > 1 \<or> sint (nVersion tx) < 1 then Some (Inl ''version'')
      else if \<not> IsFinalTx height adjusted_time tx (height + 1) 0 then Some (Inl ''non-final'')
      else if length (ser_tx tx) \<ge> (if ContainsZerocoins tx then MAX_ZEROCOIN_TX_SIZE else MAX_STANDARD_TX_SIZE)
      then Some (Inl ''tx-size'')
      else
        (case standard_inputs (vin tx) of
           Some reason \<Rightarrow> Some (Inl reason)
         | None \<Rightarrow>
             (case standard_outputs p 0 (vout tx) of
                None \<Rightarrow> None
              | Some (Inl reason) \<Rightarrow> Some (Inl reason)
              | Some (Inr nDataOut) \<Rightarrow> Some (if nDataOut > 1 then Inl ''multi-op-return'' else Inr ()))))"

section \<open>Standard inputs\<close>

definition MAX_P2SH_SIGOPS :: u32 where "MAX_P2SH_SIGOPS = 15"

text \<open>The checker of the base class rejects every signature.\<close>

definition BaseSignatureChecker :: sig_checker where
  "BaseSignatureChecker vchSig vchPubKey script_code = False"

text \<open>One input that spends \<open>prev\<close>: \<open>Inl b\<close> is a \<open>return b\<close> out of the loop, \<open>Inr\<close> its end.\<close>

definition input_standard :: "CTxOut \<Rightarrow> CTxIn \<Rightarrow> (bool + unit) option" where
  "input_standard prev txin =
     (case Solver (scriptPubKey prev) [] of
        None \<Rightarrow> None
      | Some (False, _) \<Rightarrow> Some (Inl False)
      | Some (True, whichType, vSolutions) \<Rightarrow>
          (let nArgsExpected = ScriptSigArgsExpected whichType vSolutions
           in if nArgsExpected < 0 then Some (Inl False)
              else case EvalScript [] (scriptSig txin) 0 BaseSignatureChecker of
                Inl _ \<Rightarrow> Some (Inl False)
              | Inr stack \<Rightarrow>
                  if whichType = TX_SCRIPTHASH then
                    (if stack = [] then Some (Inl False)
                     else
                       (let subscript = hd stack
                        in case Solver subscript [] of
                             None \<Rightarrow> None
                           | Some (True, whichType2, vSolutions2) \<Rightarrow>
                               (let tmpExpected = ScriptSigArgsExpected whichType2 vSolutions2
                                in if tmpExpected < 0 then Some (Inl False)
                                   else Some (if int (length stack) \<noteq> nArgsExpected + tmpExpected then Inl False else Inr ()))
                           | Some (False, _) \<Rightarrow>
                               map_option (\<lambda>sigops. Inl (sigops \<le> MAX_P2SH_SIGOPS)) (GetSigOpCount subscript True)))
                  else Some (if int (length stack) \<noteq> nArgsExpected then Inl False else Inr ())))"

fun inputs_standard_loop ::
    "'s CCoinsView \<Rightarrow> CTxIn list \<Rightarrow> 's \<times> CCoinsViewCache \<Rightarrow> (bool \<times> 's \<times> CCoinsViewCache) option" where
  "inputs_standard_loop base [] st = Some (True, st)"
| "inputs_standard_loop base (txin # ins) st =
     (case GetOutputFor base st txin of
        None \<Rightarrow> None
      | Some (prev, st) \<Rightarrow>
          (case input_standard prev txin of
             None \<Rightarrow> None
           | Some (Inl b) \<Rightarrow> Some (b, st)
           | Some (Inr _) \<Rightarrow> inputs_standard_loop base ins st))"

definition AreInputsStandard ::
    "'s CCoinsView \<Rightarrow> CTransaction \<Rightarrow> 's \<times> CCoinsViewCache \<Rightarrow> (bool \<times> 's \<times> CCoinsViewCache) option" where
  "AreInputsStandard base tx mapInputs =
     (if IsCoinBase tx \<or> HasZerocoinSpendInputs tx then Some (True, mapInputs)
      else inputs_standard_loop base (vin tx) mapInputs)"

section \<open>Signature operations\<close>

fun sum_sigops :: "u32 option list \<Rightarrow> u32 option" where
  "sum_sigops [] = Some 0"
| "sum_sigops (n # ns) = (case n of None \<Rightarrow> None | Some a \<Rightarrow> map_option ((+) a) (sum_sigops ns))"

definition GetLegacySigOpCount :: "CTransaction \<Rightarrow> u32 option" where
  "GetLegacySigOpCount tx =
     sum_sigops (map (\<lambda>txin. GetSigOpCount (scriptSig txin) False) (vin tx) @
       map (\<lambda>txout. GetSigOpCount (scriptPubKey txout) False) (vout tx))"

fun p2sh_sigops_loop ::
    "'s CCoinsView \<Rightarrow> CTxIn list \<Rightarrow> u32 \<Rightarrow> 's \<times> CCoinsViewCache \<Rightarrow> (u32 \<times> 's \<times> CCoinsViewCache) option" where
  "p2sh_sigops_loop base [] nSigOps st = Some (nSigOps, st)"
| "p2sh_sigops_loop base (txin # ins) nSigOps st =
     (case GetOutputFor base st txin of
        None \<Rightarrow> None
      | Some (prev, st) \<Rightarrow>
          if IsPayToScriptHash (scriptPubKey prev) then
            (case GetSigOpCount_P2SH (scriptPubKey prev) (scriptSig txin) of
               None \<Rightarrow> None
             | Some n \<Rightarrow> p2sh_sigops_loop base ins (nSigOps + n) st)
          else p2sh_sigops_loop base ins nSigOps st)"

definition GetP2SHSigOpCount ::
    "'s CCoinsView \<Rightarrow> CTransaction \<Rightarrow> 's \<times> CCoinsViewCache \<Rightarrow> (u32 \<times> 's \<times> CCoinsViewCache) option" where
  "GetP2SHSigOpCount base tx inputs =
     (if IsCoinBase tx \<or> HasZerocoinSpendInputs tx then Some (0, inputs)
      else p2sh_sigops_loop base (vin tx) 0 inputs)"


section \<open>What a checked transaction satisfies\<close>

lemma DoS_fst [simp]: "fst (DoS state level ret cd reason corrupt) = ret"
  by (simp add: DoS_def Let_def)

lemma DoS_False [simp]: "DoS state level False cd reason corrupt \<noteq> (True, state')"
  by (simp add: DoS_def Let_def)

lemmas DoS_False' [simp] = DoS_False [symmetric]

lemma Invalid_nDoS [simp]: "vs_nDoS (snd (Invalid state ret cd reason)) = vs_nDoS state"
  by (simp add: Invalid_def DoS_def Let_def)

text \<open>A rejection: the result is false and the state says why.\<close>

definition rejected :: "CValidationState \<Rightarrow> bool \<times> CValidationState \<Rightarrow> bool" where
  "rejected state r \<longleftrightarrow> (\<exists>level cd reason. r = DoS state level False cd reason False)"

lemma rejected_simps [simp]:
  "rejected state (DoS state level False cd reason False)" "rejected state (Invalid state False cd reason)"
  "\<not> rejected state (True, state')"
  by (auto simp: rejected_def Invalid_def)

lemma ex_pair [simp]: "(\<exists>a b. x = (a, b) \<and> P (a, b)) \<longleftrightarrow> P x"
  by (cases x) simp

lemma rejected_False: "rejected state (r, state') \<Longrightarrow> \<not> r"
  by (cases r) auto

lemma DoS_mode: "vs_mode state \<noteq> MODE_ERROR \<Longrightarrow> IsInvalid (snd (DoS state level ret cd reason corrupt)) = Some (vs_nDoS state + level)"
  by (simp add: DoS_def Let_def IsInvalid_def)

lemma MoneyRange_iff: "MoneyRange m v \<longleftrightarrow> 0 \<le> sint v \<and> sint v \<le> sint m"
  by (simp add: MoneyRange_def word_sle_eq)

definition total_value :: "CTxOut list \<Rightarrow> int" where
  "total_value outs = (\<Sum>txout \<leftarrow> outs. sint (nValue txout))"

lemma total_value_simps [simp]: "total_value [] = 0" "total_value (txout # outs) = sint (nValue txout) + total_value outs"
  by (simp_all add: total_value_def)

text \<open>A sum whose terms are in the range does not wrap.\<close>

lemma range_add:
  assumes "sint m < 2 ^ 62" and "MoneyRange m a" and "MoneyRange m b"
  shows "sint (a + b) = sint a + sint b"
  using assms by (intro sint_add_nonneg) (simp_all add: MoneyRange_iff)

lemma check_outputs_total:
  assumes "sint m < 2 ^ 62" and "MoneyRange m acc"
    and "check_outputs m zc act tx acc outs state = (True, state')"
  shows "(\<forall>txout \<in> set outs. MoneyRange m (nValue txout)) \<and> sint acc + total_value outs \<le> sint m"
  using assms(2,3)
proof (induction outs arbitrary: acc state)
  case (Cons txout outs)
  then have 1: "MoneyRange m (nValue txout)" "MoneyRange m (acc + nValue txout)"
    by (auto simp: MoneyRange_def word_sle_eq word_sless_alt Let_def split: if_splits)
  obtain state'' where 2: "check_outputs m zc act tx (acc + nValue txout) outs state'' = (True, state')"
    using Cons.prems(2) by (auto simp: Let_def split: if_splits prod.splits)
  show ?case using Cons.IH [OF 1(2) 2] 1(1) range_add [OF assms(1) Cons.prems(1) 1(1)] by simp
qed (simp add: MoneyRange_iff)

text \<open>A transaction without zerocoin parts.\<close>

lemma check_outputs_plain:
  assumes "sint m < 2 ^ 62" and "MoneyRange m acc" and "\<not> list_ex CTxOut_IsZerocoinMint outs"
  shows "fst (check_outputs m zc act tx acc outs state) \<longleftrightarrow>
      (\<forall>txout \<in> set outs. MoneyRange m (nValue txout) \<and>
         (CTxOut_IsEmpty txout \<longrightarrow> IsCoinBase tx \<or> IsCoinStake tx)) \<and> sint acc + total_value outs \<le> sint m"
    and "check_outputs m zc act tx acc outs state = (True, state) \<or>
      (\<exists>cd reason. check_outputs m zc act tx acc outs state = DoS state 100 False cd reason False)"
proof -
  have "(fst (check_outputs m zc act tx acc outs state) \<longleftrightarrow>
      (\<forall>txout \<in> set outs. MoneyRange m (nValue txout) \<and>
         (CTxOut_IsEmpty txout \<longrightarrow> IsCoinBase tx \<or> IsCoinStake tx)) \<and> sint acc + total_value outs \<le> sint m) \<and>
    (check_outputs m zc act tx acc outs state = (True, state) \<or>
      (\<exists>cd reason. check_outputs m zc act tx acc outs state = DoS state 100 False cd reason False))"
    using assms(2,3)
  proof (induction outs arbitrary: acc)
    case (Cons txout outs)
    let ?r = "check_outputs m zc act tx acc (txout # outs) state"
    have neg: "0 \<le> total_value outs" if "\<forall>txout \<in> set outs. MoneyRange m (nValue txout)"
      using that unfolding total_value_def by (intro sum_list_nonneg) (auto simp: MoneyRange_iff)
    show ?case
    proof (cases "(CTxOut_IsEmpty txout \<longrightarrow> IsCoinBase tx \<or> IsCoinStake tx) \<and> MoneyRange m (nValue txout)")
      case False
      then have "\<exists>cd reason. ?r = DoS state 100 False cd reason False"
        by (auto simp: MoneyRange_iff word_sless_alt)
      then show ?thesis using False by fastforce
    next
      case ok: True
      then have r: "?r = (if \<not> MoneyRange m (acc + nValue txout)
          then DoS state 100 False REJECT_INVALID ''bad-txns-txouttotal-toolarge'' False
          else check_outputs m zc act tx (acc + nValue txout) outs state)"
        using Cons.prems(2) by (auto simp: MoneyRange_iff word_sless_alt)
      note s = range_add [OF assms(1) Cons.prems(1), of "nValue txout"]
      show ?thesis
      proof (cases "MoneyRange m (acc + nValue txout)")
        case True
        then show ?thesis using Cons.IH [OF True] Cons.prems(2) ok s unfolding r by auto
      next
        case False
        then have "\<not> sint acc + (sint (nValue txout) + total_value outs) \<le> sint m"
          if "\<forall>txout \<in> set outs. MoneyRange m (nValue txout)"
          using neg [OF that] ok s Cons.prems(1) by (auto simp: MoneyRange_iff)
        then show ?thesis using False unfolding r by (auto simp: DoS_fst)
      qed
    qed
  qed (simp add: MoneyRange_iff)
  then show "fst (check_outputs m zc act tx acc outs state) \<longleftrightarrow>
      (\<forall>txout \<in> set outs. MoneyRange m (nValue txout) \<and>
         (CTxOut_IsEmpty txout \<longrightarrow> IsCoinBase tx \<or> IsCoinStake tx)) \<and> sint acc + total_value outs \<le> sint m"
    and "check_outputs m zc act tx acc outs state = (True, state) \<or>
      (\<exists>cd reason. check_outputs m zc act tx acc outs state = DoS state 100 False cd reason False)" by auto
qed

lemma check_duplicates_plain:
  "\<not> list_ex CTxIn_IsZerocoinSpend ins \<Longrightarrow> check_duplicates seen n ins =
     (if distinct (map prevout ins) \<and> prevout ` set ins \<inter> seen = {} then Some n else None)"
  by (induction seen n ins rule: check_duplicates.induct) auto

lemma check_prevouts_plain:
  assumes "\<not> list_ex CTxIn_IsZerocoinSpend ins"
  shows "fst (check_prevouts act ins state) \<longleftrightarrow>
      (\<forall>txin \<in> set ins. (act \<longrightarrow> \<not> COutPoint_IsNull (prevout txin)) \<and>
         \<not> (op_n (prevout txin) = 0 \<and> COutPoint.op_hash (prevout txin) = bad_prevout))"
    and "check_prevouts act ins state = (True, state) \<or>
      (\<exists>level cd reason. level \<in> {1, 10} \<and> check_prevouts act ins state = DoS state level False cd reason False)"
  using assms by (induction act ins state rule: check_prevouts.induct) (auto simp del: DoS_fst, auto)

text \<open>What \<open>CheckTransaction\<close> asks of a transaction without zerocoin parts.\<close>

definition tx_valid :: "CAmount \<Rightarrow> bool \<Rightarrow> CTransaction \<Rightarrow> bool" where
  "tx_valid m act tx \<longleftrightarrow>
     vin tx \<noteq> [] \<and> vout tx \<noteq> [] \<and> length (ser_tx tx) \<le> 1000000 \<and>
     (\<forall>txout \<in> set (vout tx). MoneyRange m (nValue txout) \<and>
        (CTxOut_IsEmpty txout \<longrightarrow> IsCoinBase tx \<or> IsCoinStake tx)) \<and>
     total_value (vout tx) \<le> sint m \<and> distinct (map prevout (vin tx)) \<and>
     (if IsCoinBase tx then 2 \<le> length (scriptSig (vin tx ! 0)) \<and> length (scriptSig (vin tx ! 0)) \<le> 150
      else
        (\<forall>txin \<in> set (vin tx). (act \<longrightarrow> \<not> COutPoint_IsNull (prevout txin)) \<and>
           \<not> (op_n (prevout txin) = 0 \<and> COutPoint.op_hash (prevout txin) = bad_prevout)) \<and>
        (IsCoinStake tx \<longrightarrow> length (vout tx) \<le> 10))"

lemma check_kind_plain:
  assumes "\<not> ContainsZerocoins tx"
  shows "fst (check_kind zc act tx state) \<longleftrightarrow>
      (if IsCoinBase tx then 2 \<le> length (scriptSig (vin tx ! 0)) \<and> length (scriptSig (vin tx ! 0)) \<le> 150
       else
         (\<forall>txin \<in> set (vin tx). (act \<longrightarrow> \<not> COutPoint_IsNull (prevout txin)) \<and>
            \<not> (op_n (prevout txin) = 0 \<and> COutPoint.op_hash (prevout txin) = bad_prevout)) \<and>
         (IsCoinStake tx \<longrightarrow> length (vout tx) \<le> 10))"
    and "check_kind zc act tx state = (True, state) \<or>
      (\<exists>level cd reason. level \<in> {1, 10, 100} \<and> check_kind zc act tx state = DoS state level False cd reason False)"
proof -
  have n: "\<not> HasZerocoinSpendInputs tx" "\<not> list_ex CTxIn_IsZerocoinSpend (vin tx)"
    using assms by (auto simp: ContainsZerocoins_def HasZerocoinSpendInputs_def)
  note p = check_prevouts_plain [OF n(2), of act state]
  obtain b state' where c: "check_prevouts act (vin tx) state = (b, state')" by (metis prod.exhaust)
  show "fst (check_kind zc act tx state) \<longleftrightarrow>
      (if IsCoinBase tx then 2 \<le> length (scriptSig (vin tx ! 0)) \<and> length (scriptSig (vin tx ! 0)) \<le> 150
       else
         (\<forall>txin \<in> set (vin tx). (act \<longrightarrow> \<not> COutPoint_IsNull (prevout txin)) \<and>
            \<not> (op_n (prevout txin) = 0 \<and> COutPoint.op_hash (prevout txin) = bad_prevout)) \<and>
         (IsCoinStake tx \<longrightarrow> length (vout tx) \<le> 10))"
  proof (cases b)
    case True
    then show ?thesis using p(1) n(1) by (auto simp: check_kind_def c)
  next
    case False
    then show ?thesis using p(1) n(1) by (auto simp: check_kind_def c)
  qed
  show "check_kind zc act tx state = (True, state) \<or>
      (\<exists>level cd reason. level \<in> {1, 10, 100} \<and> check_kind zc act tx state = DoS state level False cd reason False)"
  proof (cases b)
    case True
    then have "state' = state" using p(2) c by auto
    then show ?thesis using True n(1) by (auto simp: check_kind_def c)
  next
    case False
    then have "\<exists>level cd reason. level \<in> {1, 10} \<and> (False, state') = DoS state level False cd reason False"
      using p(2) c by auto
    then show ?thesis using False n(1) by (auto simp: check_kind_def c)
  qed
qed

lemma CheckTransaction_plain:
  assumes "\<not> ContainsZerocoins tx" and "0 \<le> sint m" and "sint m < 2 ^ 62" and "0 \<le> zc_max_spends zc"
  shows "fst (CheckTransaction m zc fv tx act state) \<longleftrightarrow> tx_valid m act tx"
    and "CheckTransaction m zc fv tx act state = (True, state) \<or>
      (\<exists>level cd reason. level \<in> {1, 10, 100} \<and> CheckTransaction m zc fv tx act state = DoS state level False cd reason False)"
proof -
  have n: "\<not> HasZerocoinSpendInputs tx" "\<not> list_ex CTxIn_IsZerocoinSpend (vin tx)"
    "\<not> list_ex CTxOut_IsZerocoinMint (vout tx)"
    using assms(1) by (auto simp: ContainsZerocoins_def HasZerocoinSpendInputs_def HasZerocoinMintOutputs_def)
  have "MoneyRange m 0" using assms(2) by (simp add: MoneyRange_iff)
  note o = check_outputs_plain [OF assms(3) this n(3), of zc act tx state] and k = check_kind_plain [OF assms(1), of zc act state]
  have z: "(if act then check_zerocoin_spends zc fv tx 0 state else (True, state)) = (True, state)"
    using assms(4) n(1) by (simp add: check_zerocoin_spends_def)
  obtain b state' where c: "check_outputs m zc act tx 0 (vout tx) state = (b, state')" by (metis prod.exhaust)
  have d: "check_duplicates {} 0 (vin tx) = (if distinct (map prevout (vin tx)) then Some 0 else None)"
    using check_duplicates_plain [OF n(2)] by simp
  note defs = CheckTransaction_def c d tx_valid_def MAX_ZEROCOIN_TX_SIZE_def MAX_STANDARD_TX_SIZE_def
  show "fst (CheckTransaction m zc fv tx act state) \<longleftrightarrow> tx_valid m act tx"
  proof (cases b)
    case True
    then have "state' = state" using o(2) c by auto
    then show ?thesis using True o(1) k(1) z by (auto simp: defs)
  next
    case False
    then show ?thesis using o(1) by (auto simp: defs)
  qed
  show "CheckTransaction m zc fv tx act state = (True, state) \<or>
      (\<exists>level cd reason. level \<in> {1, 10, 100} \<and> CheckTransaction m zc fv tx act state = DoS state level False cd reason False)"
  proof (cases b)
    case True
    then have "state' = state" using o(2) c by auto
    then show ?thesis using True k(2) z unfolding defs by auto
  next
    case False
    then have "\<exists>cd reason. (False, state') = DoS state 100 False cd reason False" using o(2) c by auto
    then show ?thesis using False unfolding defs by auto
  qed
qed

text \<open>The values of any transaction that passes.\<close>

lemma CheckTransaction_values:
  assumes "CheckTransaction m zc fv tx act state = (True, state')" and "0 \<le> sint m" and "sint m < 2 ^ 62"
  shows "(\<forall>txout \<in> set (vout tx). MoneyRange m (nValue txout)) \<and> 0 \<le> total_value (vout tx) \<and> total_value (vout tx) \<le> sint m \<and>
    (\<exists>v. GetValueOut tx = Inr v \<and> sint v = total_value (vout tx))"
proof -
  have "MoneyRange m 0" using assms(2) by (simp add: MoneyRange_iff)
  moreover obtain s where "check_outputs m zc act tx 0 (vout tx) state = (True, s)"
    using assms(1) by (auto simp: CheckTransaction_def split: if_splits prod.splits bool.splits)
  ultimately have "(\<forall>txout \<in> set (vout tx). MoneyRange m (nValue txout)) \<and> sint (0 :: u64) + total_value (vout tx) \<le> sint m"
    by (rule check_outputs_total [OF assms(3)])
  then have 1: "\<forall>txout \<in> set (vout tx). MoneyRange m (nValue txout)" "total_value (vout tx) \<le> sint m" by simp_all
  then have 2: "0 \<le> total_value (vout tx)" unfolding total_value_def by (intro sum_list_nonneg) (auto simp: MoneyRange_iff)
  have "sint (word_of_int (total_value (vout tx)) :: u64) = total_value (vout tx)"
    using 1 2 assms(3) by (simp add: sint_sbintrunc' signed_take_bit_int_eq_self)
  then have "GetValueOut tx = Inr (word_of_int (total_value (vout tx)))"
    using 1 2 assms(3) by (simp add: GetValueOut_def GetValueOut_loop_iff list_all_iff MoneyRange_iff total_value_def)
  then show ?thesis using 1 2 \<open>sint (word_of_int (total_value (vout tx)) :: u64) = total_value (vout tx)\<close> by simp
qed

lemma tx_valid_range:
  "tx_valid m act tx \<longleftrightarrow>
     vin tx \<noteq> [] \<and> vout tx \<noteq> [] \<and> length (ser_tx tx) \<le> 1000000 \<and>
     (\<forall>txout \<in> set (vout tx). 0 \<le> sint (nValue txout) \<and>
        (CTxOut_IsEmpty txout \<longrightarrow> IsCoinBase tx \<or> IsCoinStake tx)) \<and>
     total_value (vout tx) \<le> sint m \<and> distinct (map prevout (vin tx)) \<and>
     (if IsCoinBase tx then 2 \<le> length (scriptSig (vin tx ! 0)) \<and> length (scriptSig (vin tx ! 0)) \<le> 150
      else
        (\<forall>txin \<in> set (vin tx). (act \<longrightarrow> \<not> COutPoint_IsNull (prevout txin)) \<and>
           \<not> (op_n (prevout txin) = 0 \<and> COutPoint.op_hash (prevout txin) = bad_prevout)) \<and>
        (IsCoinStake tx \<longrightarrow> length (vout tx) \<le> 10))"
proof -
  have "sint (nValue txout) \<le> total_value (vout tx)"
    if "txout \<in> set (vout tx)" "\<forall>txout \<in> set (vout tx). 0 \<le> sint (nValue txout)" for txout
    unfolding total_value_def using that by (intro member_le_sum_list) auto
  then show ?thesis unfolding tx_valid_def MoneyRange_iff by (meson order_trans)
qed

lemma DoS_rejects:
  "vs_mode state \<noteq> MODE_ERROR \<Longrightarrow> (r, state') = DoS state level False cd reason corrupt \<Longrightarrow>
   \<not> r \<and> IsInvalid state' = Some (vs_nDoS state + level)"
  by (metis DoS_mode DoS_fst fst_conv snd_conv)

text \<open>A network without zerocoin.\<close>

definition no_zerocoin :: zerocoin_rules where
  "no_zerocoin = \<lparr>zc_mint = (\<lambda>h txout state. (False, state)), zc_spend = (\<lambda>tx fv state. (False, state)), zc_max_spends = 7\<rparr>"

section \<open>Properties\<close>

text \<open>
  C32. CheckTransaction accepts a transaction without zerocoin parts exactly when it has inputs
  and outputs, is at most a million bytes long, every output and their sum are in the range of
  money, no output is empty unless it is a coinbase or a coinstake, no input occurs twice and the
  rules of its kind hold; it leaves the state alone when it accepts and otherwise marks it invalid
  with a ban score of 1, 10 or 100.
\<close>

theorem check_transaction:
  assumes "\<not> ContainsZerocoins tx" and "0 \<le> sint max_money" and "sint max_money < 2 ^ 62" and "0 \<le> zc_max_spends zc"
    and "vs_mode state \<noteq> MODE_ERROR" and "CheckTransaction max_money zc fVerifySignature tx act state = (r, state')"
  shows "(r \<longleftrightarrow>
      vin tx \<noteq> [] \<and> vout tx \<noteq> [] \<and> length (ser_tx tx) \<le> 1000000 \<and>
      (\<forall>txout \<in> set (vout tx). 0 \<le> sint (nValue txout) \<and>
         (CTxOut_IsEmpty txout \<longrightarrow> IsCoinBase tx \<or> IsCoinStake tx)) \<and>
      (\<Sum>txout \<leftarrow> vout tx. sint (nValue txout)) \<le> sint max_money \<and> distinct (map prevout (vin tx)) \<and>
      (if IsCoinBase tx then 2 \<le> length (scriptSig (vin tx ! 0)) \<and> length (scriptSig (vin tx ! 0)) \<le> 150
       else
         (\<forall>txin \<in> set (vin tx). (act \<longrightarrow> \<not> COutPoint_IsNull (prevout txin)) \<and>
            \<not> (op_n (prevout txin) = 0 \<and> COutPoint.op_hash (prevout txin) = bad_prevout)) \<and>
         (IsCoinStake tx \<longrightarrow> length (vout tx) \<le> 10))) \<and>
    (if r then state' = state
     else \<exists>level \<in> {1, 10, 100}. IsInvalid state' = Some (vs_nDoS state + level))"
proof -
  have "r \<longleftrightarrow> tx_valid max_money act tx" "(r, state') = (True, state) \<or>
      (\<exists>level cd reason. level \<in> {1, 10, 100} \<and> (r, state') = DoS state level False cd reason False)"
    using CheckTransaction_plain [OF assms(1-4), of fVerifySignature act state] assms(6) by simp_all
  moreover have "if r then state' = state else \<exists>level \<in> {1, 10, 100}. IsInvalid state' = Some (vs_nDoS state + level)"
    using calculation(2) DoS_rejects [OF assms(5)] by fastforce
  ultimately show ?thesis unfolding tx_valid_range total_value_def by blast
qed

theorem check_transaction_witness:
  "fst (CheckTransaction 2100000000000000 no_zerocoin True spending_tx True CValidationState_new)"
proof -
  obtain r state' where c: "CheckTransaction 2100000000000000 no_zerocoin True spending_tx True CValidationState_new = (r, state')"
    by (metis prod.exhaust)
  have f: "\<not> ContainsZerocoins spending_tx" "length (ser_tx spending_tx) = 60" "\<not> IsCoinBase spending_tx" "\<not> IsCoinStake spending_tx"
    by code_simp+
  have g: "0 \<le> zc_max_spends no_zerocoin" "vs_mode CValidationState_new \<noteq> MODE_ERROR"
    by (simp_all add: no_zerocoin_def CValidationState_new_def)
  have "vout spending_tx = [CTxOut_of 5 []]" by (simp add: spending_tx_def)
  then have r
    using check_transaction [OF f(1) _ _ g c] f(2-4)
    by (simp add: spending_tx_inputs CTxIn_of_def CTxOut_of_def COutPoint.make_def COutPoint_IsNull_def bad_prevout_def
        CTxOut_IsEmpty_def)
  then show ?thesis using c by simp
qed

end
