(* ===== verification/CheckInputs.thy ===== *)
theory CheckInputs
  imports TxRules
begin

text \<open>
  The inputs of a transaction against the coins they spend (\<open>CheckInputs\<close> and \<open>CScriptCheck\<close> of
  \<open>src/main.cpp\<close> and \<open>src/main.h\<close>). \<open>None\<close> is a failed assertion, a thrown exception or an element of
  a vector or a map that is not there. The height of a block of the index is an argument.
\<close>

section \<open>Script checks\<close>

record CScriptCheck =
  sc_scriptPubKey :: "byte list"
  sc_ptxTo :: CTransaction
  sc_nIn :: nat
  sc_nFlags :: u32
  sc_cacheStore :: bool

definition CScriptCheck_of :: "CCoins \<Rightarrow> CTransaction \<Rightarrow> nat \<Rightarrow> u32 \<Rightarrow> bool \<Rightarrow> CScriptCheck" where
  "CScriptCheck_of txFromIn txToIn nInIn nFlagsIn cacheIn =
     \<lparr>sc_scriptPubKey = scriptPubKey (cc_vout txFromIn ! unat (op_n (prevout (vin txToIn ! nInIn)))),
      sc_ptxTo = txToIn, sc_nIn = nInIn, sc_nFlags = nFlagsIn, sc_cacheStore = cacheIn\<rparr>"

text \<open>The result and the error. The signature cache of the checker does not change what it finds.\<close>

definition run_check :: "ecdsa_verify \<Rightarrow> CScriptCheck \<Rightarrow> (bool \<times> ScriptError) option" where
  "run_check ecdsa chk =
     (case VerifyScript (scriptSig (vin (sc_ptxTo chk) ! sc_nIn chk)) (sc_scriptPubKey chk) (sc_nFlags chk)
         (TransactionSignatureChecker ecdsa (sc_ptxTo chk) (sc_nIn chk)) of
        Inr () \<Rightarrow> Some (True, SCRIPT_ERR_OK)
      | Inl (Fail e) \<Rightarrow> Some (False, e)
      | Inl Throw \<Rightarrow> Some (False, SCRIPT_ERR_UNKNOWN_ERROR)
      | Inl AssertFailed \<Rightarrow> None)"

definition MANDATORY_SCRIPT_VERIFY_FLAGS :: u32 where
  "MANDATORY_SCRIPT_VERIFY_FLAGS = SCRIPT_VERIFY_P2SH"

definition STANDARD_SCRIPT_VERIFY_FLAGS :: u32 where
  "STANDARD_SCRIPT_VERIFY_FLAGS = MANDATORY_SCRIPT_VERIFY_FLAGS OR SCRIPT_VERIFY_DERSIG OR SCRIPT_VERIFY_STRICTENC OR
     SCRIPT_VERIFY_MINIMALDATA OR SCRIPT_VERIFY_NULLDUMMY OR SCRIPT_VERIFY_DISCOURAGE_UPGRADABLE_NOPS"

definition STANDARD_NOT_MANDATORY_VERIFY_FLAGS :: u32 where
  "STANDARD_NOT_MANDATORY_VERIFY_FLAGS = STANDARD_SCRIPT_VERIFY_FLAGS AND NOT MANDATORY_SCRIPT_VERIFY_FLAGS"

section \<open>CheckInputs\<close>

text \<open>The first loop: \<open>Inl\<close> is a return, \<open>Inr\<close> the value of the inputs.\<close>

fun tally_inputs ::
    "'s CCoinsView \<Rightarrow> CAmount \<Rightarrow> int \<Rightarrow> int \<Rightarrow> CTxIn list \<Rightarrow> CAmount \<Rightarrow> CValidationState \<Rightarrow> 's \<times> CCoinsViewCache \<Rightarrow>
     (((bool \<times> CValidationState) + CAmount) \<times> 's \<times> CCoinsViewCache) option" where
  "tally_inputs base max_money maturity nSpendHeight [] nValueIn state st = Some (Inr nValueIn, st)"
| "tally_inputs base max_money maturity nSpendHeight (txin # ins) nValueIn state st =
     (case AccessCoins base st (COutPoint.op_hash (prevout txin)) of
        (None, st) \<Rightarrow> None
      | (Some coins, st) \<Rightarrow>
          if (cc_fCoinBase coins \<or> cc_fCoinStake coins) \<and> nSpendHeight - sint (cc_nHeight coins) < maturity
          then Some (Inl (Invalid state False REJECT_INVALID ''bad-txns-premature-spend-of-coinbase''), st)
          else if unat (op_n (prevout txin)) \<ge> length (cc_vout coins) then None
          else
            (let v = nValue (cc_vout coins ! unat (op_n (prevout txin)));
                 nValueIn = nValueIn + v
             in if \<not> MoneyRange max_money v \<or> \<not> MoneyRange max_money nValueIn
                then Some (Inl (DoS state 100 False REJECT_INVALID ''bad-txns-inputvalues-outofrange'' False), st)
                else tally_inputs base max_money maturity nSpendHeight ins nValueIn state st))"

text \<open>\<open>Inr ()\<close> goes on with the scripts.\<close>

definition check_fee ::
    "CAmount \<Rightarrow> CTransaction \<Rightarrow> CAmount \<Rightarrow> CValidationState \<Rightarrow> ((bool \<times> CValidationState) + unit) option" where
  "check_fee max_money tx nValueIn state =
     (if \<not> IsCoinStake tx then
        (case GetValueOut tx of
           Inl _ \<Rightarrow> None
         | Inr nValueOut \<Rightarrow>
             if nValueIn <s nValueOut
             then Some (Inl (DoS state 100 False REJECT_INVALID ''bad-txns-in-belowout'' False))
             else
               (let nTxFee = nValueIn - nValueOut
                in if nTxFee <s 0
                   then Some (Inl (DoS state 100 False REJECT_INVALID ''bad-txns-fee-negative'' False))
                   else
                     (let nFees = 0 + nTxFee
                      in if \<not> MoneyRange max_money nFees
                         then Some (Inl (DoS state 100 False REJECT_INVALID ''bad-txns-fee-outofrange'' False))
                         else Some (Inr ()))))
      else Some (Inr ()))"

text \<open>What is returned when the script of an input fails. The error in the reason of the first case
  is that of the second check, which did not fail.\<close>

definition script_failure_state ::
    "ecdsa_verify \<Rightarrow> CScriptCheck \<Rightarrow> ScriptError \<Rightarrow> CValidationState \<Rightarrow> (bool \<times> CValidationState) option" where
  "script_failure_state ecdsa check error state =
     (let mandatory = DoS state 100 False REJECT_INVALID
        (''mandatory-script-verify-flag-failed ('' @ ScriptErrorString error @ '')'') False
      in if sc_nFlags check AND STANDARD_NOT_MANDATORY_VERIFY_FLAGS \<noteq> 0 then
           (case run_check ecdsa (check\<lparr>sc_nFlags := sc_nFlags check AND NOT STANDARD_NOT_MANDATORY_VERIFY_FLAGS\<rparr>) of
              None \<Rightarrow> None
            | Some (True, error) \<Rightarrow>
                Some (Invalid state False REJECT_NONSTANDARD
                  (''non-mandatory-script-verify-flag ('' @ ScriptErrorString error @ '')''))
            | Some (False, _) \<Rightarrow> Some mandatory)
         else Some mandatory)"

text \<open>The second loop, over the inputs with their indices.\<close>

fun script_loop ::
    "'s CCoinsView \<Rightarrow> ecdsa_verify \<Rightarrow> CTransaction \<Rightarrow> u32 \<Rightarrow> bool \<Rightarrow> nat list \<Rightarrow> CScriptCheck list option \<Rightarrow>
     CValidationState \<Rightarrow> 's \<times> CCoinsViewCache \<Rightarrow>
     (bool \<times> CValidationState \<times> CScriptCheck list option \<times> 's \<times> CCoinsViewCache) option" where
  "script_loop base ecdsa tx flags cacheStore [] pvChecks state st = Some (True, state, pvChecks, st)"
| "script_loop base ecdsa tx flags cacheStore (i # rest) pvChecks state st =
     (case AccessCoins base st (COutPoint.op_hash (prevout (vin tx ! i))) of
        (None, st) \<Rightarrow> None
      | (Some coins, st) \<Rightarrow>
          if unat (op_n (prevout (vin tx ! i))) \<ge> length (cc_vout coins) then None
          else
            (let check = CScriptCheck_of coins tx i flags cacheStore
             in case pvChecks of
                  Some checks \<Rightarrow> script_loop base ecdsa tx flags cacheStore rest (Some (checks @ [check])) state st
                | None \<Rightarrow>
                    (case run_check ecdsa check of
                       None \<Rightarrow> None
                     | Some (True, _) \<Rightarrow> script_loop base ecdsa tx flags cacheStore rest None state st
                     | Some (False, error) \<Rightarrow>
                         map_option (\<lambda>(r, state). (r, state, None, st)) (script_failure_state ecdsa check error state))))"

definition CheckInputs ::
    "'s CCoinsView \<Rightarrow> CAmount \<Rightarrow> int \<Rightarrow> (uint256 \<Rightarrow> int option) \<Rightarrow> ecdsa_verify \<Rightarrow> CTransaction \<Rightarrow> CValidationState \<Rightarrow>
     's \<times> CCoinsViewCache \<Rightarrow> bool \<Rightarrow> u32 \<Rightarrow> bool \<Rightarrow> CScriptCheck list option \<Rightarrow> int \<Rightarrow>
     (bool \<times> CValidationState \<times> CScriptCheck list option \<times> 's \<times> CCoinsViewCache) option" where
  "CheckInputs base max_money maturity block_height ecdsa tx state inputs fScriptChecks flags cacheStore pvChecks Hcheck =
     (if \<not> IsCoinBase tx \<and> \<not> HasZerocoinSpendInputs tx then
        (case HaveInputs base inputs tx Hcheck of
           (False, inputs) \<Rightarrow>
             (case Invalid state False 0 [] of (r, state) \<Rightarrow> Some (r, state, pvChecks, inputs))
         | (True, inputs) \<Rightarrow>
             (case GetBestBlock base inputs of
                (best, inputs) \<Rightarrow>
                  (case block_height best of
                     None \<Rightarrow> None
                   | Some nHeight \<Rightarrow>
                       (case tally_inputs base max_money maturity (nHeight + 1) (vin tx) 0 state inputs of
                          None \<Rightarrow> None
                        | Some (Inl (r, state), inputs) \<Rightarrow> Some (r, state, pvChecks, inputs)
                        | Some (Inr nValueIn, inputs) \<Rightarrow>
                            (case check_fee max_money tx nValueIn state of
                               None \<Rightarrow> None
                             | Some (Inl (r, state)) \<Rightarrow> Some (r, state, pvChecks, inputs)
                             | Some (Inr _) \<Rightarrow>
                                 if fScriptChecks
                                 then script_loop base ecdsa tx flags cacheStore [0..<length (vin tx)] pvChecks state inputs
                                 else Some (True, state, pvChecks, inputs))))))
      else Some (True, state, pvChecks, inputs))"

section \<open>What CheckInputs decides\<close>

definition coin_at :: "coins_fun \<Rightarrow> CTxIn \<Rightarrow> coin" where
  "coin_at U txin = the (U (COutPoint.op_hash (prevout txin)) (unat (op_n (prevout txin))))"

definition input_value :: "coins_fun \<Rightarrow> CTxIn \<Rightarrow> CAmount" where
  "input_value U txin = nValue (coin_out (coin_at U txin))"

definition inputs_value :: "coins_fun \<Rightarrow> CTxIn list \<Rightarrow> int" where
  "inputs_value U ins = (\<Sum>txin \<leftarrow> ins. sint (input_value U txin))"

definition mature_input :: "coins_fun \<Rightarrow> int \<Rightarrow> int \<Rightarrow> CTxIn \<Rightarrow> bool" where
  "mature_input U maturity nSpendHeight txin \<longleftrightarrow>
     (coin_base (coin_at U txin) \<or> coin_stake (coin_at U txin) \<longrightarrow>
      maturity \<le> nSpendHeight - sint (coin_height (coin_at U txin)))"

definition script_ok :: "ecdsa_verify \<Rightarrow> coins_fun \<Rightarrow> CTransaction \<Rightarrow> u32 \<Rightarrow> nat \<Rightarrow> bool" where
  "script_ok ecdsa U tx flags i \<longleftrightarrow>
     VerifyScript (scriptSig (vin tx ! i)) (scriptPubKey (coin_out (coin_at U (vin tx ! i)))) flags
       (TransactionSignatureChecker ecdsa tx i) = Inr ()"

definition check_at :: "coins_fun \<Rightarrow> CTransaction \<Rightarrow> u32 \<Rightarrow> bool \<Rightarrow> nat \<Rightarrow> CScriptCheck" where
  "check_at U tx flags cacheStore i =
     \<lparr>sc_scriptPubKey = scriptPubKey (coin_out (coin_at U (vin tx ! i))),
      sc_ptxTo = tx, sc_nIn = i, sc_nFlags = flags, sc_cacheStore = cacheStore\<rparr>"

lemma inputs_value_simps [simp]:
  "inputs_value U [] = 0" "inputs_value U (txin # ins) = sint (input_value U txin) + inputs_value U ins"
  by (simp_all add: inputs_value_def)

lemma run_check_cases:
  "\<exists>error. run_check ecdsa chk =
     Some (VerifyScript (scriptSig (vin (sc_ptxTo chk) ! sc_nIn chk)) (sc_scriptPubKey chk) (sc_nFlags chk)
         (TransactionSignatureChecker ecdsa (sc_ptxTo chk) (sc_nIn chk)) = Inr (), error)"
  using VerifyScript_no_assert [of "scriptSig (vin (sc_ptxTo chk) ! sc_nIn chk)" "sc_scriptPubKey chk" "sc_nFlags chk"
      "TransactionSignatureChecker ecdsa (sc_ptxTo chk) (sc_nIn chk)"]
  by (auto simp: run_check_def split: sum.splits script_failure.splits unit.splits)

lemma run_check_at:
  "\<exists>error. run_check ecdsa (check_at U tx flags cacheStore i) = Some (script_ok ecdsa U tx flags i, error)"
  using run_check_cases [of ecdsa "check_at U tx flags cacheStore i"] by (simp add: check_at_def script_ok_def)

lemma run_check_flags:
  "\<exists>error. run_check ecdsa (check_at U tx flags cacheStore i\<lparr>sc_nFlags := f\<rparr>) = Some (script_ok ecdsa U tx f i, error)"
  using run_check_at [of ecdsa U tx f cacheStore i] by (simp add: check_at_def)

text \<open>A failed script is a violation of the protocol, or of a rule of relay and then nobody is
  banned.\<close>

lemma script_failure_state_ok:
  "\<exists>reason. script_failure_state ecdsa (check_at U tx flags cacheStore i) error state = Some
     (if flags AND STANDARD_NOT_MANDATORY_VERIFY_FLAGS \<noteq> 0 \<and>
         script_ok ecdsa U tx (flags AND NOT STANDARD_NOT_MANDATORY_VERIFY_FLAGS) i
      then Invalid state False REJECT_NONSTANDARD reason else DoS state 100 False REJECT_INVALID reason False)"
proof -
  have f: "sc_nFlags (check_at U tx flags cacheStore i) = flags" by (simp add: check_at_def)
  obtain error' where "run_check ecdsa (check_at U tx flags cacheStore i
      \<lparr>sc_nFlags := flags AND NOT STANDARD_NOT_MANDATORY_VERIFY_FLAGS\<rparr>) =
      Some (script_ok ecdsa U tx (flags AND NOT STANDARD_NOT_MANDATORY_VERIFY_FLAGS) i, error')"
    using run_check_flags by blast
  then show ?thesis
    unfolding script_failure_state_def f Let_def
    by (cases "script_ok ecdsa U tx (flags AND NOT STANDARD_NOT_MANDATORY_VERIFY_FLAGS) i") auto
qed

text \<open>What the first loop finds.\<close>

definition tally_result ::
    "coins_fun \<Rightarrow> CAmount \<Rightarrow> int \<Rightarrow> int \<Rightarrow> CTxIn list \<Rightarrow> int \<Rightarrow> CValidationState \<Rightarrow>
     (bool \<times> CValidationState) + CAmount \<Rightarrow> bool" where
  "tally_result U m maturity h ins acc state r \<longleftrightarrow>
     (if (\<forall>txin \<in> set ins. mature_input U maturity h txin \<and> MoneyRange m (input_value U txin)) \<and>
         acc + inputs_value U ins \<le> sint m
      then \<exists>v. r = Inr v \<and> sint v = acc + inputs_value U ins
      else \<exists>q. r = Inl q \<and> rejected state q)"

lemma tally_result_Cons:
  "mature_input U maturity h txin \<Longrightarrow> MoneyRange m (input_value U txin) \<Longrightarrow>
   tally_result U m maturity h (txin # ins) acc state r \<longleftrightarrow>
   tally_result U m maturity h ins (acc + sint (input_value U txin)) state r"
  by (simp add: tally_result_def add.assoc)

lemma and_not_of_and_0: "a AND b = 0 \<Longrightarrow> a AND NOT b = a" for a b :: u32
proof (rule bit_word_eqI)
  fix n
  assume "a AND b = 0" and "n < LENGTH(32)"
  then have "\<not> bit (a AND b) n" by simp
  then show "bit (a AND NOT b) n \<longleftrightarrow> bit a n" using \<open>n < LENGTH(32)\<close> by (auto simp: bit_simps)
qed

text \<open>What running the scripts finds. Nobody is banned for a script that only breaks a rule of relay.\<close>

definition script_result ::
    "ecdsa_verify \<Rightarrow> coins_fun \<Rightarrow> CTransaction \<Rightarrow> u32 \<Rightarrow> nat set \<Rightarrow> CValidationState \<Rightarrow> bool \<Rightarrow> CValidationState \<Rightarrow> bool" where
  "script_result ecdsa U tx flags ns state r state' \<longleftrightarrow>
     (if \<forall>i \<in> ns. script_ok ecdsa U tx flags i then (r, state') = (True, state)
      else rejected state (r, state') \<and>
        ((\<forall>i \<in> ns. script_ok ecdsa U tx (flags AND NOT STANDARD_NOT_MANDATORY_VERIFY_FLAGS) i) \<longrightarrow>
         vs_nDoS state' = vs_nDoS state))"

lemma script_result_insert:
  "script_ok ecdsa U tx flags i \<Longrightarrow> script_result ecdsa U tx flags ns state r state' \<Longrightarrow>
   script_result ecdsa U tx flags (insert i ns) state r state'"
  by (auto simp: script_result_def)

text \<open>What is asked of the inputs before their scripts run.\<close>

definition inputs_valid :: "coins_fun \<Rightarrow> CAmount \<Rightarrow> int \<Rightarrow> int \<Rightarrow> int \<Rightarrow> CTransaction \<Rightarrow> bool" where
  "inputs_valid U m maturity nSpendHeight Hcheck tx \<longleftrightarrow>
     list_all (input_ok U (IsCoinStake tx) Hcheck) (vin tx) \<and>
     (\<forall>txin \<in> set (vin tx). mature_input U maturity nSpendHeight txin \<and> MoneyRange m (input_value U txin)) \<and>
     inputs_value U (vin tx) \<le> sint m \<and>
     (IsCoinStake tx \<or> total_value (vout tx) \<le> inputs_value U (vin tx))"

lemma check_fee_ok:
  assumes "GetValueOut tx = Inr vo" and "0 \<le> sint vo" and "0 \<le> sint v" and "sint v \<le> sint m"
  shows "check_fee m tx v state = (if IsCoinStake tx \<or> sint vo \<le> sint v then Some (Inr ())
    else Some (Inl (DoS state 100 False REJECT_INVALID ''bad-txns-in-belowout'' False)))"
proof -
  have "sint (v - vo) = sint v - sint vo" if "sint vo \<le> sint v"
  proof -
    have "sint (v - vo) = signed_take_bit 63 (sint v - sint vo)"
      by (simp add: sint_word_ariths)
    then show ?thesis using that assms sint_u64 [of v] by (simp add: signed_take_bit_int_eq_self)
  qed
  then show ?thesis using assms by (auto simp: check_fee_def word_sless_alt MoneyRange_iff Let_def)
qed

context coins_source
begin

lemma AccessCoins_present:
  assumes "cache_inv invar utxo has st" and "input_ok (cache_utxo utxo st) k H txin"
  shows "\<exists>coins st'. AccessCoins base st (COutPoint.op_hash (prevout txin)) = (Some coins, st') \<and>
    cache_inv invar utxo has st' \<and> cache_utxo utxo st' = cache_utxo utxo st \<and> cache_best best st' = cache_best best st \<and>
    unat (op_n (prevout txin)) < length (cc_vout coins) \<and>
    cc_vout coins ! unat (op_n (prevout txin)) = coin_out (coin_at (cache_utxo utxo st) txin) \<and>
    cc_nHeight coins = coin_height (coin_at (cache_utxo utxo st) txin) \<and>
    cc_fCoinBase coins = coin_base (coin_at (cache_utxo utxo st) txin) \<and>
    cc_fCoinStake coins = coin_stake (coin_at (cache_utxo utxo st) txin)"
proof -
  obtain r st' where a: "AccessCoins base st (COutPoint.op_hash (prevout txin)) = (r, st')" by (metis prod.exhaust)
  note ok = AccessCoins_ok [OF assms(1) a]
  obtain x where x: "cache_utxo utxo st (COutPoint.op_hash (prevout txin)) (unat (op_n (prevout txin))) = Some x"
    using assms(2) by (auto simp: input_ok_def split: option.splits)
  then have "coins_opt r (unat (op_n (prevout txin))) = Some x" using ok by simp
  then obtain coins where c: "r = Some coins" "coins_abs coins (unat (op_n (prevout txin))) = Some x" by (cases r) auto
  then have "unat (op_n (prevout txin)) < length (cc_vout coins)" by (auto simp: coins_abs_def split: if_splits)
  then show ?thesis using a ok x c coins_abs_fields [OF c(2)] by (simp add: coin_at_def)
qed

lemma tally_inputs_ok:
  assumes "cache_inv invar utxo has st" and "list_all (input_ok (cache_utxo utxo st) k H) ins"
    and "sint m < 2 ^ 62" and "MoneyRange m acc"
  shows "\<exists>r st'. tally_inputs base m maturity h ins acc state st = Some (r, st') \<and>
    cache_inv invar utxo has st' \<and> cache_utxo utxo st' = cache_utxo utxo st \<and> cache_best best st' = cache_best best st \<and>
    tally_result (cache_utxo utxo st) m maturity h ins (sint acc) state r"
  using assms(1,2,4)
proof (induction ins arbitrary: st acc)
  case Nil
  then show ?case by (simp add: MoneyRange_iff tally_result_def)
next
  case (Cons txin ins)
  let ?U = "cache_utxo utxo st" and ?v = "input_value (cache_utxo utxo st) txin"
  obtain coins s1 c1 where a: "AccessCoins base st (COutPoint.op_hash (prevout txin)) = (Some coins, s1, c1)"
      and ok: "cache_inv invar utxo has (s1, c1)" "cache_utxo utxo (s1, c1) = ?U"
        "cache_best best (s1, c1) = cache_best best st"
      and c: "unat (op_n (prevout txin)) < length (cc_vout coins)"
        "cc_vout coins ! unat (op_n (prevout txin)) = coin_out (coin_at ?U txin)"
        "cc_nHeight coins = coin_height (coin_at ?U txin)" "cc_fCoinBase coins = coin_base (coin_at ?U txin)"
        "cc_fCoinStake coins = coin_stake (coin_at ?U txin)"
    using AccessCoins_present [OF Cons.prems(1), of k H txin] Cons.prems(2) by auto
  have t: "tally_inputs base m maturity h (txin # ins) acc state st =
    (if \<not> mature_input ?U maturity h txin
     then Some (Inl (Invalid state False REJECT_INVALID ''bad-txns-premature-spend-of-coinbase''), s1, c1)
     else if \<not> MoneyRange m ?v \<or> \<not> MoneyRange m (acc + ?v)
     then Some (Inl (DoS state 100 False REJECT_INVALID ''bad-txns-inputvalues-outofrange'' False), s1, c1)
     else tally_inputs base m maturity h ins (acc + ?v) state (s1, c1))"
    using c by (auto simp: a mature_input_def input_value_def Let_def)
  show ?case
  proof (cases "mature_input ?U maturity h txin \<and> MoneyRange m ?v")
    case False
    then show ?thesis using ok unfolding t by (auto simp: tally_result_def)
  next
    case True
    then have s: "sint (acc + ?v) = sint acc + sint ?v" using range_add [OF assms(3) Cons.prems(3)] by blast
    show ?thesis
    proof (cases "MoneyRange m (acc + ?v)")
      case r: True
      show ?thesis
        using Cons.IH [OF ok(1) _ r] Cons.prems(2) True ok s r unfolding t by (simp add: tally_result_Cons)
    next
      case False
      have "0 \<le> inputs_value ?U ins" if "\<forall>txin \<in> set ins. MoneyRange m (input_value ?U txin)"
        using that unfolding inputs_value_def by (intro sum_list_nonneg) (auto simp: MoneyRange_iff)
      then have "\<not> sint acc + inputs_value ?U (txin # ins) \<le> sint m"
        if "\<forall>txin \<in> set ins. MoneyRange m (input_value ?U txin)"
        using that False s True Cons.prems(3) by (fastforce simp: MoneyRange_iff)
      then show ?thesis using True False ok unfolding t by (auto simp: tally_result_def)
    qed
  qed
qed

lemma script_loop_ok:
  assumes "cache_inv invar utxo has st" and "\<forall>i \<in> set ns. input_ok (cache_utxo utxo st) k H (vin tx ! i)"
  shows "\<exists>r state' st'. script_loop base ecdsa tx flags cacheStore ns None state st = Some (r, state', None, st') \<and>
    cache_inv invar utxo has st' \<and> cache_utxo utxo st' = cache_utxo utxo st \<and> cache_best best st' = cache_best best st \<and>
    script_result ecdsa (cache_utxo utxo st) tx flags (set ns) state r state'"
  using assms
proof (induction ns arbitrary: st)
  case (Cons i ns)
  let ?U = "cache_utxo utxo st"
  obtain coins s1 c1 where a: "AccessCoins base st (COutPoint.op_hash (prevout (vin tx ! i))) = (Some coins, s1, c1)"
      and ok: "cache_inv invar utxo has (s1, c1)" "cache_utxo utxo (s1, c1) = ?U"
        "cache_best best (s1, c1) = cache_best best st"
      and c: "unat (op_n (prevout (vin tx ! i))) < length (cc_vout coins)"
        "cc_vout coins ! unat (op_n (prevout (vin tx ! i))) = coin_out (coin_at ?U (vin tx ! i))"
    using AccessCoins_present [OF Cons.prems(1), of k H "vin tx ! i"] Cons.prems(2) by auto
  have chk: "CScriptCheck_of coins tx i flags cacheStore = check_at ?U tx flags cacheStore i"
    by (simp add: CScriptCheck_of_def check_at_def c)
  obtain error where run: "run_check ecdsa (check_at ?U tx flags cacheStore i) = Some (script_ok ecdsa ?U tx flags i, error)"
    using run_check_at by blast
  show ?case
  proof (cases "script_ok ecdsa ?U tx flags i")
    case True
    obtain r state' s2 c2 where "script_loop base ecdsa tx flags cacheStore ns None state (s1, c1) = Some (r, state', None, s2, c2)"
        "cache_inv invar utxo has (s2, c2)" "cache_utxo utxo (s2, c2) = ?U" "cache_best best (s2, c2) = cache_best best st"
        "script_result ecdsa ?U tx flags (set ns) state r state'"
      using Cons.IH [OF ok(1)] Cons.prems(2) ok by auto
    then show ?thesis using script_result_insert [OF True, of "set ns" state r state'] c run True by (simp add: a chk)
  next
    case False
    obtain reason where f: "script_failure_state ecdsa (check_at ?U tx flags cacheStore i) error state = Some
       (if flags AND STANDARD_NOT_MANDATORY_VERIFY_FLAGS \<noteq> 0 \<and>
           script_ok ecdsa ?U tx (flags AND NOT STANDARD_NOT_MANDATORY_VERIFY_FLAGS) i
        then Invalid state False REJECT_NONSTANDARD reason else DoS state 100 False REJECT_INVALID reason False)"
      using script_failure_state_ok by blast
    have w: "flags AND STANDARD_NOT_MANDATORY_VERIFY_FLAGS \<noteq> 0"
      if "script_ok ecdsa ?U tx (flags AND NOT STANDARD_NOT_MANDATORY_VERIFY_FLAGS) i"
    proof
      assume "flags AND STANDARD_NOT_MANDATORY_VERIFY_FLAGS = 0"
      then have "flags AND NOT STANDARD_NOT_MANDATORY_VERIFY_FLAGS = flags" by (rule and_not_of_and_0)
      then show False using that False by simp
    qed
    have "script_loop base ecdsa tx flags cacheStore (i # ns) None state st =
        map_option (\<lambda>(r, state). (r, state, None, s1, c1))
          (script_failure_state ecdsa (check_at ?U tx flags cacheStore i) error state)"
      using c run False by (simp add: a chk)
    moreover obtain r state' where q: "(if flags AND STANDARD_NOT_MANDATORY_VERIFY_FLAGS \<noteq> 0 \<and>
           script_ok ecdsa ?U tx (flags AND NOT STANDARD_NOT_MANDATORY_VERIFY_FLAGS) i
        then Invalid state False REJECT_NONSTANDARD reason else DoS state 100 False REJECT_INVALID reason False) = (r, state')"
      by (metis prod.exhaust)
    ultimately have "script_loop base ecdsa tx flags cacheStore (i # ns) None state st = Some (r, state', None, s1, c1)"
      unfolding f by simp
    moreover have "rejected state (r, state')" unfolding q [symmetric] by simp
    moreover have "vs_nDoS state' = vs_nDoS state"
      if "script_ok ecdsa ?U tx (flags AND NOT STANDARD_NOT_MANDATORY_VERIFY_FLAGS) i"
      using q that w [OF that] Invalid_nDoS [of state False REJECT_NONSTANDARD reason] by simp
    ultimately show ?thesis using ok False by (auto simp: script_result_def simp del: script_loop.simps)
  qed
qed (auto simp: script_result_def)

lemma script_loop_queue:
  assumes "cache_inv invar utxo has st" and "\<forall>i \<in> set ns. input_ok (cache_utxo utxo st) k H (vin tx ! i)"
  shows "\<exists>st'. script_loop base ecdsa tx flags cacheStore ns (Some checks) state st =
      Some (True, state, Some (checks @ map (check_at (cache_utxo utxo st) tx flags cacheStore) ns), st') \<and>
    cache_inv invar utxo has st' \<and> cache_utxo utxo st' = cache_utxo utxo st \<and> cache_best best st' = cache_best best st"
  using assms
proof (induction ns arbitrary: st checks)
  case (Cons i ns)
  let ?U = "cache_utxo utxo st"
  obtain coins s1 c1 where a: "AccessCoins base st (COutPoint.op_hash (prevout (vin tx ! i))) = (Some coins, s1, c1)"
      and ok: "cache_inv invar utxo has (s1, c1)" "cache_utxo utxo (s1, c1) = ?U"
        "cache_best best (s1, c1) = cache_best best st"
      and c: "unat (op_n (prevout (vin tx ! i))) < length (cc_vout coins)"
        "cc_vout coins ! unat (op_n (prevout (vin tx ! i))) = coin_out (coin_at ?U (vin tx ! i))"
    using AccessCoins_present [OF Cons.prems(1), of k H "vin tx ! i"] Cons.prems(2) by auto
  have chk: "CScriptCheck_of coins tx i flags cacheStore = check_at ?U tx flags cacheStore i"
    by (simp add: CScriptCheck_of_def check_at_def c)
  show ?case
    using Cons.IH [OF ok(1), of "checks @ [check_at ?U tx flags cacheStore i]"] Cons.prems(2) ok c by (simp add: a chk)
qed simp

text \<open>The whole function. Its result depends on the unspent outputs alone, and it changes none.\<close>

lemma CheckInputs_ok:
  assumes "cache_inv invar utxo has st" and "\<not> IsCoinBase tx" and "\<not> HasZerocoinSpendInputs tx"
    and "block_height (cache_best best st) = Some h" and "0 \<le> sint m" and "sint m < 2 ^ 62"
    and "GetValueOut tx = Inr vo" and "sint vo = total_value (vout tx)" and "0 \<le> sint vo"
  shows "\<exists>r state' st'. CheckInputs base m maturity block_height ecdsa tx state st fScriptChecks flags cacheStore None H =
      Some (r, state', None, st') \<and>
    cache_inv invar utxo has st' \<and> cache_utxo utxo st' = cache_utxo utxo st \<and> cache_best best st' = cache_best best st \<and>
    (if inputs_valid (cache_utxo utxo st) m maturity (h + 1) H tx
     then script_result ecdsa (cache_utxo utxo st) tx flags (if fScriptChecks then {..<length (vin tx)} else {}) state r state'
     else rejected state (r, state'))"
proof -
  let ?U = "cache_utxo utxo st" and ?ins = "vin tx"
  obtain s1 c1 where hi: "HaveInputs base st tx H = (list_all (input_ok ?U (IsCoinStake tx) H) ?ins, s1, c1)"
      and i1: "cache_inv invar utxo has (s1, c1)" "cache_utxo utxo (s1, c1) = ?U"
        "cache_best best (s1, c1) = cache_best best st"
    using HaveInputs_ok [OF assms(1), of ?ins tx H] assms(2,3) by auto
  show ?thesis
  proof (cases "list_all (input_ok ?U (IsCoinStake tx) H) ?ins")
    case False
    obtain r state' where q: "Invalid state False 0 [] = (r, state')" by (metis prod.exhaust)
    then have "CheckInputs base m maturity block_height ecdsa tx state st fScriptChecks flags cacheStore None H =
        Some (r, state', None, s1, c1)"
      using False assms(2,3) hi by (simp add: CheckInputs_def)
    moreover have "rejected state (r, state')" using rejected_simps(2) [of state 0 "[]"] unfolding q .
    ultimately show ?thesis using False i1 by (auto simp: inputs_valid_def)
  next
    case there: True
    obtain b s2 c2 where gb: "GetBestBlock base (s1, c1) = (b, s2, c2)" by (metis prod.exhaust)
    note i2 = GetBestBlock_ok [OF i1(1) gb, unfolded i1]
    have "MoneyRange m 0" using assms(5) by (simp add: MoneyRange_iff)
    then obtain r s3 c3 where t: "tally_inputs base m maturity (h + 1) ?ins 0 state (s2, c2) = Some (r, s3, c3)"
        and i3: "cache_inv invar utxo has (s3, c3)" "cache_utxo utxo (s3, c3) = ?U"
          "cache_best best (s3, c3) = cache_best best st"
        and tr: "tally_result ?U m maturity (h + 1) ?ins 0 state r"
      using tally_inputs_ok [of "(s2, c2)" "IsCoinStake tx" H ?ins m 0 maturity "h + 1" state] there i2 assms(6) by auto
    have ci: "CheckInputs base m maturity block_height ecdsa tx state st fScriptChecks flags cacheStore None H =
      (case r of Inl (r, state) \<Rightarrow> Some (r, state, None, s3, c3)
       | Inr nValueIn \<Rightarrow>
           (case check_fee m tx nValueIn state of
              None \<Rightarrow> None
            | Some (Inl (r, state)) \<Rightarrow> Some (r, state, None, s3, c3)
            | Some (Inr u) \<Rightarrow>
                if fScriptChecks then script_loop base ecdsa tx flags cacheStore [0..<length ?ins] None state (s3, c3)
                else Some (True, state, None, s3, c3)))"
      using assms(2-4) i2 there by (simp add: CheckInputs_def hi gb t split: sum.split)
    show ?thesis
    proof (cases r)
      case (Inl q)
      then show ?thesis using tr there i3 unfolding ci by (cases q) (auto simp: tally_result_def inputs_valid_def split: if_splits)
    next
      case (Inr v)
      then have v: "\<forall>txin \<in> set ?ins. mature_input ?U maturity (h + 1) txin \<and> MoneyRange m (input_value ?U txin)"
          "inputs_value ?U ?ins \<le> sint m" "sint v = inputs_value ?U ?ins"
        using tr by (auto simp: tally_result_def split: if_splits)
      have "0 \<le> inputs_value ?U ?ins"
        using v(1) unfolding inputs_value_def by (intro sum_list_nonneg) (auto simp: MoneyRange_iff)
      then have sv: "0 \<le> sint v" "sint v \<le> sint m" using v by simp_all
      have fee: "check_fee m tx v state = (if IsCoinStake tx \<or> sint vo \<le> sint v then Some (Inr ())
          else Some (Inl (DoS state 100 False REJECT_INVALID ''bad-txns-in-belowout'' False)))"
        using check_fee_ok [OF assms(7,9) sv] assms(6) by simp
      have val: "inputs_valid ?U m maturity (h + 1) H tx \<longleftrightarrow> IsCoinStake tx \<or> sint vo \<le> sint v"
        using there v assms(8) by (auto simp: inputs_valid_def)
      show ?thesis
      proof (cases "IsCoinStake tx \<or> sint vo \<le> sint v")
        case False
        obtain r' state' where q: "DoS state 100 False REJECT_INVALID ''bad-txns-in-belowout'' False = (r', state')"
          by (metis prod.exhaust)
        have "rejected state (r', state')" unfolding q [symmetric] by simp
        then show ?thesis using i3 val False q unfolding ci by (simp add: Inr fee)
      next
        case True
        have "\<forall>i \<in> set [0..<length ?ins]. input_ok (cache_utxo utxo (s3, c3)) (IsCoinStake tx) H (?ins ! i)"
          using there i3 by (simp add: list_all_length)
        note loop = script_loop_ok [OF i3(1) this, of ecdsa flags cacheStore state, unfolded i3(2,3) set_upt atLeast0LessThan]
        have fee': "check_fee m tx v state = Some (Inr ())" using fee True by simp
        show ?thesis
        proof (cases fScriptChecks)
          case False
          then show ?thesis using i3 True val unfolding ci by (auto simp: Inr fee' script_result_def)
        next
          case scripts: True
          show ?thesis using loop True val unfolding ci
            by (simp only: Inr fee' scripts sum.case option.case if_True)
        qed
      qed
    qed
  qed
qed

end

lemma script_result_iff:
  "script_result ecdsa U tx flags {..<n} state r state' \<longleftrightarrow>
     (if \<forall>i < n. script_ok ecdsa U tx flags i then r \<and> state' = state
      else rejected state (r, state') \<and> \<not> r \<and>
        ((\<forall>i < n. script_ok ecdsa U tx (flags AND NOT STANDARD_NOT_MANDATORY_VERIFY_FLAGS) i) \<longrightarrow>
         vs_nDoS state' = vs_nDoS state))"
  using rejected_False [of state r state'] by (auto simp: script_result_def)

lemma inputs_valid_range:
  "inputs_valid U m maturity nSpendHeight Hcheck tx \<longleftrightarrow>
     list_all (input_ok U (IsCoinStake tx) Hcheck) (vin tx) \<and>
     (\<forall>txin \<in> set (vin tx). mature_input U maturity nSpendHeight txin \<and> 0 \<le> sint (input_value U txin)) \<and>
     inputs_value U (vin tx) \<le> sint m \<and> (IsCoinStake tx \<or> total_value (vout tx) \<le> inputs_value U (vin tx))"
proof -
  have "sint (input_value U txin) \<le> inputs_value U (vin tx)"
    if "txin \<in> set (vin tx)" "\<forall>txin \<in> set (vin tx). 0 \<le> sint (input_value U txin)" for txin
    unfolding inputs_value_def using that by (intro member_le_sum_list) auto
  then show ?thesis unfolding inputs_valid_def MoneyRange_iff by (meson order_trans)
qed

lemma CheckInputs_work:
  assumes "work_inv st" and "CheckTransaction m zc fVerifySignature tx act state0 = (True, state1)"
    and "0 \<le> sint m" and "sint m < 2 ^ 62" and "\<not> IsCoinBase tx" and "\<not> HasZerocoinSpendInputs tx"
    and "block_height (work_best st) = Some h"
  shows "\<exists>r state' st'. CheckInputs tip_view m maturity block_height ecdsa tx state st True flags cacheStore None H =
      Some (r, state', None, st') \<and> work_inv st' \<and> work_utxo st' = work_utxo st \<and> work_best st' = work_best st \<and>
    (r \<longleftrightarrow> inputs_valid (work_utxo st) m maturity (h + 1) H tx \<and>
      (\<forall>i < length (vin tx). script_ok ecdsa (work_utxo st) tx flags i)) \<and>
    (r \<longrightarrow> state' = state) \<and>
    (inputs_valid (work_utxo st) m maturity (h + 1) H tx \<and>
      (\<forall>i < length (vin tx). script_ok ecdsa (work_utxo st) tx (flags AND NOT STANDARD_NOT_MANDATORY_VERIFY_FLAGS) i) \<longrightarrow>
      vs_nDoS state' = vs_nDoS state)"
proof -
  let ?V = "inputs_valid (work_utxo st) m maturity (h + 1) H tx"
  obtain vo where vo: "GetValueOut tx = Inr vo" "sint vo = total_value (vout tx)" "0 \<le> sint vo"
    using CheckTransaction_values [OF assms(2-4)] by auto
  obtain r state' st' where c: "CheckInputs tip_view m maturity block_height ecdsa tx state st True flags cacheStore None H =
      Some (r, state', None, st')" "work_inv st'" "work_utxo st' = work_utxo st" "work_best st' = work_best st"
    "if ?V then script_result ecdsa (work_utxo st) tx flags (if True then {..<length (vin tx)} else {}) state r state'
     else rejected state (r, state')"
    using tip.CheckInputs_ok [where st = st and tx = tx and block_height = block_height and h = h and m = m and vo = vo
        and maturity = maturity and ecdsa = ecdsa and state = state and fScriptChecks = True and flags = flags
        and cacheStore = cacheStore and H = H, OF assms(1,5,6,7,3,4) vo] by blast
  have "(r \<longleftrightarrow> ?V \<and> (\<forall>i < length (vin tx). script_ok ecdsa (work_utxo st) tx flags i)) \<and> (r \<longrightarrow> state' = state) \<and>
    (?V \<and> (\<forall>i < length (vin tx). script_ok ecdsa (work_utxo st) tx (flags AND NOT STANDARD_NOT_MANDATORY_VERIFY_FLAGS) i) \<longrightarrow>
      vs_nDoS state' = vs_nDoS state)"
  proof (cases ?V)
    case True
    then show ?thesis using c(5) unfolding if_True script_result_iff by (simp split: if_splits)
  next
    case False
    then show ?thesis using c(5) rejected_False by auto
  qed
  then show ?thesis using c(1-4) by blast
qed

text \<open>A transaction that spends an output without conditions.\<close>

definition spend_true :: CTransaction where
  "spend_true = spending_tx\<lparr>vin := [CTxIn_of (COutPoint.make 7 0) [OP_1] 0]\<rparr>"

lemma spend_true_ok:
  "\<not> IsCoinBase spend_true" "\<not> HasZerocoinSpendInputs spend_true" "\<not> IsCoinStake spend_true"
  "list_all (input_ok (work_utxo stake_db) False 0) (vin spend_true)"
  "txin \<in> set (vin spend_true) \<Longrightarrow> mature_input (work_utxo stake_db) 1 2 txin \<and> sint (input_value (work_utxo stake_db) txin) = 5"
  "inputs_value (work_utxo stake_db) (vin spend_true) = 5" "(\<Sum>txout \<leftarrow> vout spend_true. sint (nValue txout)) = 5"
  "i < length (vin spend_true) \<Longrightarrow> script_ok (\<lambda>h sig key. False) (work_utxo stake_db) spend_true STANDARD_SCRIPT_VERIFY_FLAGS i"
proof -
  show "\<not> IsCoinBase spend_true" "\<not> HasZerocoinSpendInputs spend_true" "\<not> IsCoinStake spend_true" by code_simp+
  have v: "vin spend_true = [CTxIn_of (COutPoint.make 7 0) [OP_1] 0]" "vout spend_true = [CTxOut_of 5 []]"
    by (simp_all add: spend_true_def spending_tx_def)
  have u: "coin_at (work_utxo stake_db) (CTxIn_of (COutPoint.make 7 0) [OP_1] 0) =
      \<lparr>coin_out = CTxOut_of 5 [], coin_base = False, coin_stake = True, coin_height = 1, coin_version = 1\<rparr>"
    by (simp add: coin_at_def stake_db_utxo coins_abs_stake CTxIn_of_def COutPoint.make_def)
  show "list_all (input_ok (work_utxo stake_db) False 0) (vin spend_true)"
    by (simp add: v input_ok_def stake_db_utxo coins_abs_stake CTxIn_of_def COutPoint.make_def CTxOut_IsZerocoinMint_def
        IsZerocoinMint_def CTxOut_of_def)
  show "txin \<in> set (vin spend_true) \<Longrightarrow> mature_input (work_utxo stake_db) 1 2 txin \<and> sint (input_value (work_utxo stake_db) txin) = 5"
    and "inputs_value (work_utxo stake_db) (vin spend_true) = 5" "(\<Sum>txout \<leftarrow> vout spend_true. sint (nValue txout)) = 5"
    by (simp_all add: v u mature_input_def input_value_def inputs_value_def CTxOut_of_def)
  have "VerifyScript [OP_1] [] STANDARD_SCRIPT_VERIFY_FLAGS
      (TransactionSignatureChecker (\<lambda>h sig key. False) spend_true 0) = Inr ()" by code_simp
  then show "i < length (vin spend_true) \<Longrightarrow>
      script_ok (\<lambda>h sig key. False) (work_utxo stake_db) spend_true STANDARD_SCRIPT_VERIFY_FLAGS i"
    by (simp add: v u script_ok_def) (simp add: CTxIn_of_def CTxOut_of_def)
qed

lemma spend_true_checked: "fst (CheckTransaction 2100000000000000 no_zerocoin True spend_true True CValidationState_new)"
proof -
  have f: "\<not> ContainsZerocoins spend_true" "length (ser_tx spend_true) = 61" by code_simp+
  have v: "vin spend_true = [CTxIn_of (COutPoint.make 7 0) [OP_1] 0]" "vout spend_true = [CTxOut_of 5 []]"
    by (simp_all add: spend_true_def spending_tx_def)
  have "tx_valid 2100000000000000 True spend_true"
    using f spend_true_ok
    by (simp add: tx_valid_range v total_value_def CTxIn_of_def CTxOut_of_def COutPoint.make_def COutPoint_IsNull_def
        bad_prevout_def CTxOut_IsEmpty_def)
  then show ?thesis using CheckTransaction_plain(1) [OF f(1)] by (simp add: no_zerocoin_def)
qed

section \<open>Properties\<close>

text \<open>
  C33. For a transaction CheckTransaction passed that is neither a coinbase nor a spend of
  zerocoins (both of which the code skips), CheckInputs over the caches, with the scripts checked
  inline and not handed to the queue, never fails an assertion, changes no output, and accepts
  exactly when every input is there, mature and in the range of money, the sum is, the outputs do
  not exceed it unless it is a coinstake, and every script verifies; a script that only breaks a
  rule of relay adds nothing to the ban score.
\<close>

theorem check_inputs:
  assumes "work_inv st" and "CheckTransaction m zc fVerifySignature tx act state0 = (True, state1)"
    and "0 \<le> sint m" and "sint m < 2 ^ 62" and "\<not> IsCoinBase tx" and "\<not> HasZerocoinSpendInputs tx"
    and "block_height (work_best st) = Some h"
  shows "\<exists>r state' st'. CheckInputs tip_view m maturity block_height ecdsa tx state st True flags cacheStore None H =
      Some (r, state', None, st') \<and> work_inv st' \<and> work_utxo st' = work_utxo st \<and> work_best st' = work_best st \<and>
    (r \<longleftrightarrow>
      list_all (input_ok (work_utxo st) (IsCoinStake tx) H) (vin tx) \<and>
      (\<forall>txin \<in> set (vin tx). mature_input (work_utxo st) maturity (h + 1) txin \<and> 0 \<le> sint (input_value (work_utxo st) txin)) \<and>
      inputs_value (work_utxo st) (vin tx) \<le> sint m \<and>
      (IsCoinStake tx \<or> (\<Sum>txout \<leftarrow> vout tx. sint (nValue txout)) \<le> inputs_value (work_utxo st) (vin tx)) \<and>
      (\<forall>i < length (vin tx). script_ok ecdsa (work_utxo st) tx flags i)) \<and>
    (r \<longrightarrow> state' = state) \<and>
    (inputs_valid (work_utxo st) m maturity (h + 1) H tx \<and>
      (\<forall>i < length (vin tx). script_ok ecdsa (work_utxo st) tx (flags AND NOT STANDARD_NOT_MANDATORY_VERIFY_FLAGS) i) \<longrightarrow>
      vs_nDoS state' = vs_nDoS state)"
  using CheckInputs_work [where block_height = block_height and h = h, OF assms] unfolding inputs_valid_range total_value_def by (simp only: conj_assoc)

theorem check_inputs_witness:
  "\<exists>state' st'. CheckInputs tip_view 2100000000000000 1 (\<lambda>h. Some 1) (\<lambda>h sig key. False) spend_true CValidationState_new
     stake_db True STANDARD_SCRIPT_VERIFY_FLAGS False None 0 = Some (True, state', None, st')"
proof -
  have "fst (CheckTransaction 2100000000000000 no_zerocoin True spend_true True CValidationState_new)"
    by (rule spend_true_checked)
  then have "\<exists>s. CheckTransaction 2100000000000000 no_zerocoin True spend_true True CValidationState_new = (True, s)"
    by (metis prod.collapse)
  then obtain s where s: "CheckTransaction 2100000000000000 no_zerocoin True spend_true True CValidationState_new = (True, s)"
    by blast
  let ?ci = "CheckInputs tip_view 2100000000000000 1 (\<lambda>h. Some 1) (\<lambda>h sig key. False) spend_true CValidationState_new
     stake_db True STANDARD_SCRIPT_VERIFY_FLAGS False None 0"
  have "\<exists>r state' st'. ?ci = Some (r, state', None, st') \<and> r"
    using check_inputs [where block_height = "\<lambda>h. Some 1" and h = 1 and H = 0 and maturity = 1 and cacheStore = False
        and state = CValidationState_new and ecdsa = "\<lambda>h sig key. False" and flags = STANDARD_SCRIPT_VERIFY_FLAGS,
        OF stake_db_inv s _ _ spend_true_ok(1,2)]
    by (auto simp: spend_true_ok)
  then show ?thesis by auto
qed

end
