(* ===== verification/BlockRules.thy ===== *)
theory BlockRules
  imports Chain Block PartialMerkle CheckInputs
begin

text \<open>
  The rules for a block (\<open>CheckBlockHeader\<close>, \<open>CheckBlock\<close>, \<open>ContextualCheckBlockHeader\<close> and
  \<open>ContextualCheckBlock\<close> of \<open>src/main.cpp\<close>, the checkpoints of \<open>src/checkpoints.cpp\<close>). What the code
  reads of the clock, of other parts of the program and of the network is a record of the model.
  \<open>None\<close> is a null or invalid pointer followed, a failed assertion or an index out of range.
\<close>

section \<open>The surroundings\<close>

definition StakingProtocol2Height :: int where "StakingProtocol2Height = 654929"
definition nStakeInterval :: int where "nStakeInterval = 15"
definition nMaxStakingFutureDrift :: int where "nMaxStakingFutureDrift = 40"
definition nMaxStakingFutureDriftv3 :: int where "nMaxStakingFutureDriftv3 = 25"
definition MAX_BLOCK_SIGOPS_CURRENT :: u32 where
  "MAX_BLOCK_SIGOPS_CURRENT = of_nat (MAX_BLOCK_SIZE_CURRENT div 50)"
definition MAX_BLOCK_SIZE_LEGACY :: nat where "MAX_BLOCK_SIZE_LEGACY = 4194304"
definition MAX_BLOCK_SIGOPS_LEGACY :: u32 where
  "MAX_BLOCK_SIGOPS_LEGACY = of_nat (MAX_BLOCK_SIZE_LEGACY div 50)"
definition REJECT_CHECKPOINT :: byte where "REJECT_CHECKPOINT = 0x43"

text \<open>The tip is its hash and height, \<open>e_height\<close> the heights of the blocks of \<open>mapBlockIndex\<close>;
  \<open>e_serial\<close> is the serial number of a zerocoin spend.\<close>

record block_env =
  e_params :: CChainParams
  e_HashQuark :: "byte list \<Rightarrow> uint256"
  e_genesis :: uint256
  e_max_money :: CAmount
  e_zc :: zerocoin_rules
  e_zc_start_time :: int
  e_serial :: "CTxIn \<Rightarrow> int"
  e_adjusted_time :: int
  e_now :: int
  e_tip :: "(uint256 \<times> int) option"
  e_height :: "uint256 \<Rightarrow> int option"
  e_fVerifySignature :: bool
  e_initial_download :: bool
  e_spork3 :: bool
  e_locked_inputs :: "COutPoint \<Rightarrow> uint256 option"
  e_payee_valid :: "CBlock \<Rightarrow> int \<Rightarrow> bool"
  e_max_reorg :: int
  e_checkpoints :: "(int \<times> uint256) list"
  e_checkpoints_enabled :: bool

definition e_hash :: "block_env \<Rightarrow> 'a CBlockHeader_scheme \<Rightarrow> uint256" where
  "e_hash e b = CBlockHeader_GetHash (e_HashQuark e) b"

definition block_time :: "'a CBlockHeader_scheme \<Rightarrow> int" where
  "block_time b = uint (bh_nTime b)"

text \<open>A 256-bit number as the limbs of its memory.\<close>

definition uint256_limbs :: "uint256 \<Rightarrow> limbs" where
  "uint256_limbs h = map (\<lambda>i. ucast (drop_bit (32 * i) h)) [0..<8]"

definition BiggerTime :: "block_env \<Rightarrow> int" where
  "BiggerTime e = (let t = e_adjusted_time e in if e_now e > t then e_now e else t)"

section \<open>CheckBlock\<close>

definition CheckBlockHeader ::
    "block_env \<Rightarrow> 'a CBlockHeader_scheme \<Rightarrow> CValidationState \<Rightarrow> bool \<Rightarrow> bool \<times> CValidationState" where
  "CheckBlockHeader e b state fCheckPOW =
     (if nNonce b > 1000000100 \<and> bh_nTime b > 1599070879
      then DoS state 50 False REJECT_INVALID ''too high nNonce'' False
      else if fCheckPOW \<and> \<not> CheckProofOfWork (e_params e) (uint256_limbs (e_hash e b)) (bh_nBits b)
      then DoS state 50 False REJECT_INVALID ''high-hash'' False
      else (True, state))"

text \<open>The checks from the Merkle root to the coinstake; \<open>Inl\<close> is a return.\<close>

definition check_merkle :: "CBlock \<Rightarrow> CValidationState \<Rightarrow> (bool \<times> CValidationState) + unit" where
  "check_merkle b state =
     (case BuildMerkleTree (map tx_hash (vtx b)) of
        (hashMerkleRoot2, mutated, _) \<Rightarrow>
          if hashMerkleRoot b \<noteq> hashMerkleRoot2
          then Inl (DoS state 100 False REJECT_INVALID ''bad-txnmrklroot'' True)
          else if mutated then Inl (DoS state 100 False REJECT_INVALID ''bad-txns-duplicate'' True)
          else Inr ())"

definition check_shape :: "CBlock \<Rightarrow> CValidationState \<Rightarrow> (bool \<times> CValidationState) + unit" where
  "check_shape b state =
     (if vtx b = [] \<or> length (vtx b) > MAX_BLOCK_SIZE_CURRENT \<or> length (ser_CBlock b) > MAX_BLOCK_SIZE_CURRENT
      then Inl (DoS state 100 False REJECT_INVALID ''bad-blk-length'' False)
      else if vtx b = [] \<or> \<not> IsCoinBase (vtx b ! 0)
      then Inl (DoS state 100 False REJECT_INVALID ''bad-cb-missing'' False)
      else if list_ex IsCoinBase (drop 1 (vtx b))
      then Inl (DoS state 100 False REJECT_INVALID ''bad-cb-multiple'' False)
      else if IsProofOfStake b then
        (if length (vout (vtx b ! 0)) \<noteq> 1 \<or> \<not> CTxOut_IsEmpty (vout (vtx b ! 0) ! 0)
         then Inl (DoS state 100 False 0 [] False)
         else if vtx b = [] \<or> \<not> IsCoinStake (vtx b ! 1) then Inl (DoS state 100 False 0 [] False)
         else if list_ex IsCoinStake (drop 2 (vtx b)) then Inl (DoS state 100 False 0 [] False)
         else Inr ())
      else Inr ())"

text \<open>\<open>mapRejectedBlocks\<close> is a map from hashes to times; \<open>insert\<close> does not replace an entry.\<close>

type_synonym rejected_blocks = "uint256 \<Rightarrow> int option"

definition reject_block :: "block_env \<Rightarrow> CBlock \<Rightarrow> rejected_blocks \<Rightarrow> rejected_blocks" where
  "reject_block e b rejects = (if rejects (e_hash e b) = None then rejects(e_hash e b \<mapsto> e_now e) else rejects)"

definition lock_conflict :: "block_env \<Rightarrow> CBlock \<Rightarrow> bool" where
  "lock_conflict e b =
     list_ex (\<lambda>tx. \<not> IsCoinBase tx \<and>
       list_ex (\<lambda>txin. case e_locked_inputs e (prevout txin) of None \<Rightarrow> False | Some h \<Rightarrow> h \<noteq> tx_hash tx) (vin tx)) (vtx b)"

text \<open>The height of the block when the tip is known.\<close>

definition guessed_height :: "block_env \<Rightarrow> CBlock \<Rightarrow> (uint256 \<times> int) \<Rightarrow> int" where
  "guessed_height e b tip =
     (if fst tip = hashPrevBlock b then snd tip + 1
      else case e_height e (hashPrevBlock b) of Some h \<Rightarrow> h + 1 | None \<Rightarrow> 0)"

definition check_stake_time ::
    "block_env \<Rightarrow> CBlock \<Rightarrow> CValidationState \<Rightarrow> rejected_blocks \<Rightarrow> (bool \<times> CValidationState) + unit \<Rightarrow>
     ((bool \<times> CValidationState) + unit) \<times> rejected_blocks" where
  "check_stake_time e b state rejects ok =
     (case e_tip e of
        None \<Rightarrow> (ok, rejects)
      | Some tip \<Rightarrow>
          (let nHeight = guessed_height e b tip
           in if nHeight \<ge> StakingProtocol2Height \<and> block_time b mod nStakeInterval \<noteq> 0
              then (Inl (DoS state 100 False REJECT_INVALID ''time-invalid'' False), rejects)
              else if nHeight \<ge> REWARDFORK_BLOCK \<and> block_time b > BiggerTime e + nMaxStakingFutureDriftv3
              then (Inl (DoS state 10 False REJECT_INVALID ''time-too-new'' False), rejects)
              else if nHeight > 1300 \<and> \<not> e_initial_download e \<and> \<not> e_payee_valid e b nHeight
              then (Inl (DoS state 0 False REJECT_INVALID ''bad-cb-payee'' False), reject_block e b rejects)
              else (ok, rejects)))"

text \<open>The serial numbers of the inputs of one transaction, \<open>None\<close> when one is there already.\<close>

fun spend_serials :: "(CTxIn \<Rightarrow> int) \<Rightarrow> CTxIn list \<Rightarrow> int list \<Rightarrow> int list option" where
  "spend_serials serial [] vBlockSerials = Some vBlockSerials"
| "spend_serials serial (txin # ins) vBlockSerials =
     (if CTxIn_IsZerocoinSpend txin then
        (if serial txin \<in> set vBlockSerials then None
         else spend_serials serial ins (vBlockSerials @ [serial txin]))
      else spend_serials serial ins vBlockSerials)"

fun check_transactions ::
    "block_env \<Rightarrow> bool \<Rightarrow> CTransaction list \<Rightarrow> int list \<Rightarrow> CValidationState \<Rightarrow> bool \<times> CValidationState" where
  "check_transactions e fZerocoinActive [] vBlockSerials state = (True, state)"
| "check_transactions e fZerocoinActive (tx # txs) vBlockSerials state =
     (case CheckTransaction (e_max_money e) (e_zc e) (e_fVerifySignature e) tx fZerocoinActive state of
        (False, state) \<Rightarrow> (False, state)
      | (True, state) \<Rightarrow>
          if HasZerocoinSpendInputs tx then
            (case spend_serials (e_serial e) (vin tx) vBlockSerials of
               None \<Rightarrow> DoS state 100 False 0 [] False
             | Some vBlockSerials \<Rightarrow> check_transactions e fZerocoinActive txs vBlockSerials state)
          else check_transactions e fZerocoinActive txs vBlockSerials state)"

definition check_sigops :: "bool \<Rightarrow> CBlock \<Rightarrow> CValidationState \<Rightarrow> (bool \<times> CValidationState) option" where
  "check_sigops fZerocoinActive b state =
     (case sum_sigops (map GetLegacySigOpCount (vtx b)) of
        None \<Rightarrow> None
      | Some nSigOps \<Rightarrow>
          Some (if nSigOps > (if fZerocoinActive then MAX_BLOCK_SIGOPS_CURRENT else MAX_BLOCK_SIGOPS_LEGACY)
             then DoS state 100 False REJECT_INVALID ''bad-blk-sigops'' True else (True, state)))"

text \<open>\<open>fCheckPOW\<close> and \<open>fCheckSig\<close> are not used by the code.\<close>

definition CheckBlock ::
    "block_env \<Rightarrow> CBlock \<Rightarrow> CValidationState \<Rightarrow> bool \<Rightarrow> rejected_blocks \<Rightarrow>
     (bool \<times> CValidationState \<times> rejected_blocks) option" where
  "CheckBlock e b state fCheckMerkleRoot rejects =
     (case CheckBlockHeader e b state (IsProofOfWork b) of
        (False, state) \<Rightarrow> (case DoS state 100 False REJECT_INVALID ''bad-header'' True of (r, state) \<Rightarrow> Some (r, state, rejects))
      | (True, state) \<Rightarrow>
          if block_time b > BiggerTime e + (if IsProofOfStake b then nMaxStakingFutureDrift else 7200)
          then (case DoS state 10 False REJECT_INVALID ''ime-too-new'' False of (r, state) \<Rightarrow> Some (r, state, rejects))
          else
            (case (if fCheckMerkleRoot then check_merkle b state else Inr ()) of
               Inl (r, state) \<Rightarrow> Some (r, state, rejects)
             | Inr _ \<Rightarrow>
                 (case check_shape b state of
                    Inl (r, state) \<Rightarrow> Some (r, state, rejects)
                  | Inr _ \<Rightarrow>
                      if e_spork3 e \<and> lock_conflict e b
                      then (case DoS state 0 False REJECT_INVALID ''conflicting-tx-ix'' False of
                              (r, state) \<Rightarrow> Some (r, state, reject_block e b rejects))
                      else
                        (case (if IsProofOfStake b then check_stake_time e b state rejects (Inr ()) else (Inr (), rejects)) of
                           (Inl (r, state), rejects) \<Rightarrow> Some (r, state, rejects)
                         | (Inr _, rejects) \<Rightarrow>
                             (let fZerocoinActive = block_time b > e_zc_start_time e
                              in case check_transactions e fZerocoinActive (vtx b) [] state of
                                   (False, state) \<Rightarrow> Some (False, state, rejects)
                                 | (True, state) \<Rightarrow>
                                     map_option (\<lambda>(r, state). (r, state, rejects)) (check_sigops fZerocoinActive b state))))))"

section \<open>In the context of the chain\<close>

definition Checkpoints_CheckBlock :: "block_env \<Rightarrow> int \<Rightarrow> uint256 \<Rightarrow> bool \<Rightarrow> bool" where
  "Checkpoints_CheckBlock e nHeight h fMatchesCheckpoint =
     (if \<not> e_checkpoints_enabled e then True
      else case map_of (e_checkpoints e) nHeight of None \<Rightarrow> \<not> fMatchesCheckpoint | Some c \<Rightarrow> h = c)"

definition GetTotalBlocksEstimate :: "block_env \<Rightarrow> int" where
  "GetTotalBlocksEstimate e = (if \<not> e_checkpoints_enabled e then 0 else fst (last (e_checkpoints e)))"

definition GetLastCheckpoint :: "block_env \<Rightarrow> (uint256 \<Rightarrow> ptr option) \<Rightarrow> ptr option" where
  "GetLastCheckpoint e index =
     (if \<not> e_checkpoints_enabled e then None
      else case find (\<lambda>i. index (snd i) \<noteq> None) (rev (e_checkpoints e)) of None \<Rightarrow> None | Some i \<Rightarrow> index (snd i))"

text \<open>Whether \<open>n\<close> blocks from \<open>p\<close> back, or all there are, are not older than \<open>time\<close>.\<close>

fun too_many_same_time :: "block_map \<Rightarrow> int \<Rightarrow> nat \<Rightarrow> ptr \<Rightarrow> bool option" where
  "too_many_same_time t time 0 p = Some True"
| "too_many_same_time t time (Suc n) p =
     (case t p of
        None \<Rightarrow> None
      | Some aBlockIndex \<Rightarrow>
          if uint (bi_nTime aBlockIndex) < time then Some False
          else case pprev aBlockIndex of None \<Rightarrow> Some True | Some q \<Rightarrow> too_many_same_time t time n q)"

definition check_time_against_prev ::
    "block_env \<Rightarrow> block_map \<Rightarrow> ptr \<Rightarrow> index_entry \<Rightarrow> int \<Rightarrow> 'a CBlockHeader_scheme \<Rightarrow> CValidationState \<Rightarrow>
     ((bool \<times> CValidationState) + unit) option" where
  "check_time_against_prev e t p prev nHeight b state =
     (if nHeight \<ge> REWARDFORK_BLOCK then
        (if block_time b mod nStakeInterval \<noteq> 0
         then Some (Inl (DoS state 100 False REJECT_INVALID ''time-invalid'' False))
         else if block_time b > BiggerTime e + nMaxStakingFutureDriftv3
         then Some (Inl (DoS state 10 False REJECT_INVALID ''time-too-new'' False))
         else if block_time b < uint (bi_nTime prev)
         then Some (Inl (Invalid state False REJECT_INVALID ''time-too-old''))
         else map_option (\<lambda>TooMany. if TooMany then Inl (Invalid state False REJECT_INVALID ''time-too-used'') else Inr ())
           (too_many_same_time t (block_time b) 3 p))
      else map_option (\<lambda>past. if block_time b \<le> past then Inl (Invalid state False REJECT_INVALID ''time-too-old'') else Inr ())
        (GetMedianTimePast t p))"

definition ContextualCheckBlockHeader ::
    "block_env \<Rightarrow> block_map \<Rightarrow> (uint256 \<Rightarrow> ptr option) \<Rightarrow> int \<Rightarrow> 'a CBlockHeader_scheme \<Rightarrow> CValidationState \<Rightarrow>
     ptr option \<Rightarrow> (bool \<times> CValidationState) option" where
  "ContextualCheckBlockHeader e t index height b state pindexPrev =
     (if e_hash e b = e_genesis e then Some (True, state)
      else case pindexPrev of
        None \<Rightarrow> None
      | Some p \<Rightarrow>
          (case t p of
             None \<Rightarrow> None
           | Some prev \<Rightarrow>
               (let nHeight = bi_nHeight prev + 1
                in if height - nHeight \<ge> e_max_reorg e then Some (DoS state 10 False 0 [] False)
                   else case check_time_against_prev e t p prev nHeight b state of
                     None \<Rightarrow> None
                   | Some (Inl r) \<Rightarrow> Some r
                   | Some (Inr _) \<Rightarrow>
                       if \<not> Checkpoints_CheckBlock e nHeight (e_hash e b) False
                       then Some (DoS state 100 False REJECT_CHECKPOINT ''checkpoint mismatch'' False)
                       else
                         (case GetLastCheckpoint e index of
                            None \<Rightarrow> Some (True, state)
                          | Some c \<Rightarrow>
                              (case t c of
                                 None \<Rightarrow> None
                               | Some pcheckpoint \<Rightarrow>
                                   Some (if nHeight < bi_nHeight pcheckpoint then DoS state 1 False 0 [] False
                                     else (True, state)))))))"

definition ContextualCheckBlock ::
    "int \<Rightarrow> int \<Rightarrow> CBlock \<Rightarrow> CValidationState \<Rightarrow> index_entry option \<Rightarrow> (bool \<times> CValidationState) option" where
  "ContextualCheckBlock height adjusted_time b state pindexPrev =
     (let nHeight = (case pindexPrev of None \<Rightarrow> 0 | Some prev \<Rightarrow> bi_nHeight prev + 1)
      in if \<not> list_all (\<lambda>tx. IsFinalTx height adjusted_time tx nHeight (block_time b)) (vtx b)
         then Some (DoS state 10 False REJECT_INVALID ''bad-txns-nonfinal'' False)
         else if vtx b = [] \<or> vin (vtx b ! 0) = [] then None
         else
           (let expect = push_int64 [] nHeight; sig = scriptSig (vin (vtx b ! 0) ! 0)
            in Some (if length sig < length expect \<or> take (length expect) sig \<noteq> expect
               then DoS state 100 False REJECT_INVALID ''bad-cb-height'' False else (True, state))))"

section \<open>Signature operations as numbers\<close>

lemma sigops_le: "sigops acc l (fst (parse_script s)) \<le> 20 * length s"
proof (induction s arbitrary: l rule: script_induct)
  case (Op pc op vch pc')
  have "length pc' < length pc" using Op(2) by (rule GetOp2_True_shorter)
  moreover have "sigops acc op (fst (parse_script pc')) \<le> 20 * length pc'" by (rule Op.IH)
  moreover have "unat l - 80 \<le> 20" if "OP_1 \<le> l" "l \<le> OP_16" using DecodeOP_N_small(2) [OF that] by simp
  then have "sigops acc l (fst (parse_script pc)) \<le> 20 + sigops acc op (fst (parse_script pc'))"
    using Op(1,2) by (auto simp: parse_script_step)
  ultimately show ?case by linarith
next
  case (Fail pc op vch pc')
  then show ?case by (simp add: parse_script_fail)
qed simp

definition script_sigops :: "byte list \<Rightarrow> nat" where
  "script_sigops s = sigops False OP_INVALIDOPCODE (fst (parse_script s))"

definition tx_sigops :: "CTransaction \<Rightarrow> nat" where
  "tx_sigops tx = (\<Sum>txin \<leftarrow> vin tx. script_sigops (scriptSig txin)) + (\<Sum>txout \<leftarrow> vout tx. script_sigops (scriptPubKey txout))"

lemma sum_sigops_Some: "sum_sigops (map (\<lambda>x. Some (of_nat (f x))) xs) = Some (of_nat (sum_list (map f xs)))"
  by (induction xs) simp_all

lemma sum_sigops_append: "sum_sigops (xs @ ys) =
    (case sum_sigops xs of None \<Rightarrow> None | Some a \<Rightarrow> map_option ((+) a) (sum_sigops ys))"
  by (induction xs; cases "sum_sigops ys") (auto simp: add.assoc split: option.splits)

lemma GetLegacySigOpCount_val: "GetLegacySigOpCount tx = Some (of_nat (tx_sigops tx))"
  using sum_sigops_Some [of "\<lambda>txin. script_sigops (scriptSig txin)" "vin tx"]
    sum_sigops_Some [of "\<lambda>txout. script_sigops (scriptPubKey txout)" "vout tx"]
  by (simp add: GetLegacySigOpCount_def sum_sigops_append GetSigOpCount_def GetSigOpCount_loop_sigops script_sigops_def tx_sigops_def)

lemma length_concat_map: "length (concat (map f xs)) = (\<Sum>x \<leftarrow> xs. length (f x))"
  by (induction xs) simp_all

lemma tx_sigops_le: "tx_sigops tx \<le> 20 * length (ser_tx tx)"
proof -
  have s: "script_sigops x \<le> 20 * length x" for x unfolding script_sigops_def by (rule sigops_le)
  have "(\<Sum>txin \<leftarrow> vin tx. script_sigops (scriptSig txin)) \<le> (\<Sum>txin \<leftarrow> vin tx. 20 * length (ser_CTxIn txin))"
    using s by (intro sum_list_mono) (simp add: ser_CTxIn_def ser_bytes_def add_increasing add_increasing2)
  moreover have "(\<Sum>txout \<leftarrow> vout tx. script_sigops (scriptPubKey txout)) \<le> (\<Sum>txout \<leftarrow> vout tx. 20 * length (ser_CTxOut txout))"
    using s by (intro sum_list_mono) (simp add: ser_CTxOut_def ser_bytes_def add_increasing add_increasing2)
  ultimately show ?thesis
    by (simp add: tx_sigops_def ser_tx_def ser_vector_def length_concat_map sum_list_const_mult)
qed

text \<open>The signature operations of a block that is not too long do not overflow the counter.\<close>

definition block_sigops :: "CBlock \<Rightarrow> nat" where
  "block_sigops b = (\<Sum>tx \<leftarrow> vtx b. tx_sigops tx)"

lemma block_sigops_le: "block_sigops b \<le> 20 * length (ser_CBlock b)"
proof -
  have "block_sigops b \<le> (\<Sum>tx \<leftarrow> vtx b. 20 * length (ser_tx tx))"
    unfolding block_sigops_def by (intro sum_list_mono tx_sigops_le)
  then show ?thesis by (simp add: ser_CBlock_def ser_vector_def length_concat_map sum_list_const_mult)
qed

lemma check_sigops_val:
  assumes "length (ser_CBlock b) \<le> MAX_BLOCK_SIZE_CURRENT"
  shows "check_sigops act b state = Some (if block_sigops b \<le> 83886 then (True, state)
    else DoS state 100 False REJECT_INVALID ''bad-blk-sigops'' True)"
proof -
  have "unat (of_nat (block_sigops b) :: u32) = block_sigops b"
    using block_sigops_le [of b] assms by (simp add: unat_of_nat MAX_BLOCK_SIZE_CURRENT_def)
  moreover have "sum_sigops (map GetLegacySigOpCount (vtx b)) = Some (of_nat (block_sigops b))"
    using sum_sigops_Some [of tx_sigops "vtx b"] by (simp add: block_sigops_def GetLegacySigOpCount_val [abs_def])
  moreover have "unat MAX_BLOCK_SIGOPS_CURRENT = 83886" "unat MAX_BLOCK_SIGOPS_LEGACY = 83886"
    by (simp_all add: MAX_BLOCK_SIGOPS_CURRENT_def MAX_BLOCK_SIGOPS_LEGACY_def MAX_BLOCK_SIZE_CURRENT_def
        MAX_BLOCK_SIZE_LEGACY_def)
  ultimately show ?thesis by (simp add: check_sigops_def word_less_nat_alt not_less)
qed

section \<open>What a checked block satisfies\<close>

lemma limbs_val_digits:
  "limbs_val (map (\<lambda>i. of_nat (n div (2 ^ 32) ^ i)) [0..<k]) = n mod (2 ^ 32) ^ k"
proof (induction k)
  case (Suc k)
  have "unat (of_nat (n div (2 ^ 32) ^ k) :: u32) = n div (2 ^ 32) ^ k mod 2 ^ 32" by (simp add: unat_of_nat)
  then have "limbs_val (map (\<lambda>i. of_nat (n div (2 ^ 32) ^ i)) [0..<Suc k]) =
      n mod (2 ^ 32) ^ k + (2 ^ 32) ^ k * (n div (2 ^ 32) ^ k mod 2 ^ 32)"
    using Suc by (simp add: limbs_val_append power_mult)
  also have "\<dots> = n mod ((2 ^ 32) ^ k * 2 ^ 32)" by (simp add: mod_mult2_eq)
  finally show ?case by (simp add: mult.commute)
qed simp

lemma uint256_limbs_val: "limbs_val (uint256_limbs h) = unat h" "length (uint256_limbs h) = 8"
proof -
  have "ucast (drop_bit (32 * i) h) = (of_nat (unat h div (2 ^ 32) ^ i) :: u32)" for i
  proof -
    have "unat (drop_bit (32 * i) h) = unat h div (2 ^ 32) ^ i"
      unfolding unat_drop_bit_eq by (simp only: drop_bit_eq_div power_mult)
    then have "unat (ucast (drop_bit (32 * i) h) :: u32) = unat (of_nat (unat h div (2 ^ 32) ^ i) :: u32)"
      by (simp add: unsigned_ucast_eq unat_of_nat take_bit_eq_mod)
    then show ?thesis by (rule word_unat_eq_iff [THEN iffD2])
  qed
  then have "limbs_val (uint256_limbs h) = unat h mod (2 ^ 32) ^ 8"
    unfolding uint256_limbs_def by (simp only: limbs_val_digits)
  also have "\<dots> = unat h" using unsigned_less [of h, where ?'a = nat] by simp
  finally show "limbs_val (uint256_limbs h) = unat h" .
qed (simp add: uint256_limbs_def)

text \<open>A failed check leaves a state that is not valid.\<close>

definition failed :: "bool \<times> CValidationState \<Rightarrow> bool" where
  "failed q \<longleftrightarrow> \<not> fst q \<and> vs_mode (snd q) \<noteq> MODE_VALID"

lemma failed_DoS [simp]: "failed (DoS state level False cd reason corrupt)"
  by (simp add: failed_def DoS_def Let_def)

lemma check_merkle_cases:
  "if hashMerkleRoot b = merkle_root (map tx_hash (vtx b)) \<and> \<not> list_ex twins (levels (map tx_hash (vtx b)))
   then check_merkle b state = Inr () else \<exists>q. check_merkle b state = Inl q \<and> failed q"
  by (simp add: check_merkle_def BuildMerkleTree_eq)

text \<open>The transactions of a block, by their place.\<close>

definition shape_ok :: "CBlock \<Rightarrow> bool" where
  "shape_ok b \<longleftrightarrow>
     vtx b \<noteq> [] \<and> length (vtx b) \<le> MAX_BLOCK_SIZE_CURRENT \<and> length (ser_CBlock b) \<le> MAX_BLOCK_SIZE_CURRENT \<and>
     (\<forall>i < length (vtx b). IsCoinBase (vtx b ! i) \<longleftrightarrow> i = 0) \<and>
     (IsProofOfStake b \<longrightarrow> length (vout (vtx b ! 0)) = 1 \<and> CTxOut_IsEmpty (vout (vtx b ! 0) ! 0) \<and>
        (\<forall>i < length (vtx b). IsCoinStake (vtx b ! i) \<longleftrightarrow> i = 1))"

lemma list_ex_drop: "list_ex P (drop k xs) \<longleftrightarrow> (\<exists>i < length xs. k \<le> i \<and> P (xs ! i))"
proof -
  have "list_ex P (drop k xs) \<longleftrightarrow> (\<exists>i < length xs - k. P (xs ! (k + i)))" by (auto simp: list_ex_length)
  also have "\<dots> \<longleftrightarrow> (\<exists>i < length xs. k \<le> i \<and> P (xs ! i))"
    by (metis add.commute le_add1 le_add_diff_inverse less_diff_conv)
  finally show ?thesis .
qed

lemma check_shape_cases:
  "if shape_ok b then check_shape b state = Inr () else \<exists>q. check_shape b state = Inl q \<and> failed q"
proof -
  have cb: "(\<forall>i < length (vtx b). IsCoinBase (vtx b ! i) \<longleftrightarrow> i = 0) \<longleftrightarrow>
      IsCoinBase (vtx b ! 0) \<and> \<not> list_ex IsCoinBase (drop 1 (vtx b))" if "vtx b \<noteq> []"
    using that unfolding list_ex_drop by (metis One_nat_def Suc_leI length_greater_0_conv not_one_le_zero neq0_conv)
  have cs: "(\<forall>i < length (vtx b). IsCoinStake (vtx b ! i) \<longleftrightarrow> i = 1) \<longleftrightarrow>
      IsCoinStake (vtx b ! 1) \<and> \<not> list_ex IsCoinStake (drop 2 (vtx b))"
    if "IsProofOfStake b" "IsCoinBase (vtx b ! 0)"
  proof -
    have l: "1 < length (vtx b)" using that(1) by (simp add: IsProofOfStake_def)
    have "(\<forall>i < length (vtx b). IsCoinStake (vtx b ! i) \<longleftrightarrow> i = 1) \<longleftrightarrow>
      IsCoinStake (vtx b ! 1) \<and> (\<forall>i < length (vtx b). 2 \<le> i \<longrightarrow> \<not> IsCoinStake (vtx b ! i))"
      using l coinbase_not_coinstake [OF that(2)] by (auto simp: numeral_2_eq_2 not_less_eq_eq less_Suc_eq) (metis One_nat_def le_SucE le_numeral_extra(3) not_less_eq_eq not_less0 neq0_conv Suc_leI)
    then show ?thesis unfolding list_ex_drop by blast
  qed
  show ?thesis
    unfolding shape_ok_def check_shape_def using cb cs by auto
qed

definition stake_time_ok :: "block_env \<Rightarrow> CBlock \<Rightarrow> bool" where
  "stake_time_ok e b \<longleftrightarrow>
     (\<forall>tip. e_tip e = Some tip \<longrightarrow>
        (StakingProtocol2Height \<le> guessed_height e b tip \<longrightarrow> block_time b mod nStakeInterval = 0) \<and>
        (REWARDFORK_BLOCK \<le> guessed_height e b tip \<longrightarrow> block_time b \<le> BiggerTime e + nMaxStakingFutureDriftv3) \<and>
        (1300 < guessed_height e b tip \<and> \<not> e_initial_download e \<longrightarrow> e_payee_valid e b (guessed_height e b tip)))"

lemma check_stake_time_cases:
  "if stake_time_ok e b then check_stake_time e b state rejects (Inr ()) = (Inr (), rejects)
   else \<exists>q rejects'. check_stake_time e b state rejects (Inr ()) = (Inl q, rejects') \<and> failed q"
  by (cases "e_tip e") (auto simp: stake_time_ok_def check_stake_time_def Let_def)

lemma check_transactions_cases:
  assumes "list_all (\<lambda>tx. \<not> ContainsZerocoins tx) txs" and "0 \<le> sint (e_max_money e)" and "sint (e_max_money e) < 2 ^ 62"
    and "0 \<le> zc_max_spends (e_zc e)"
  shows "if list_all (tx_valid (e_max_money e) act) txs then check_transactions e act txs serials state = (True, state)
    else failed (check_transactions e act txs serials state)"
  using assms(1)
proof (induction txs)
  case (Cons tx txs)
  have n: "\<not> ContainsZerocoins tx" "\<not> HasZerocoinSpendInputs tx" using Cons.prems by (simp_all add: ContainsZerocoins_def)
  note c = CheckTransaction_plain [OF n(1) assms(2-4), of "e_fVerifySignature e" act state]
  show ?case
  proof (cases "tx_valid (e_max_money e) act tx")
    case True
    then have "CheckTransaction (e_max_money e) (e_zc e) (e_fVerifySignature e) tx act state = (True, state)"
      using c by auto
    then show ?thesis using Cons True n(2) by simp
  next
    case False
    then obtain state' where "CheckTransaction (e_max_money e) (e_zc e) (e_fVerifySignature e) tx act state = (False, state')"
        "failed (False, state')"
      using c by (metis failed_DoS failed_def fst_conv prod.collapse)
    then show ?thesis using False by simp
  qed
qed simp

text \<open>What is asked of a block that is looked at alone.\<close>

definition header_ok :: "block_env \<Rightarrow> CBlock \<Rightarrow> bool" where
  "header_ok e b \<longleftrightarrow> \<not> (nNonce b > 1000000100 \<and> bh_nTime b > 1599070879) \<and>
     (IsProofOfWork b \<longrightarrow> SkipProofOfWorkCheck (e_params e) \<or> unat (e_hash e b) \<le> compact_target (bh_nBits b))"

definition block_valid :: "block_env \<Rightarrow> CBlock \<Rightarrow> bool" where
  "block_valid e b \<longleftrightarrow>
     header_ok e b \<and> block_time b \<le> BiggerTime e + (if IsProofOfStake b then nMaxStakingFutureDrift else 7200) \<and>
     hashMerkleRoot b = merkle_root (map tx_hash (vtx b)) \<and> \<not> list_ex twins (levels (map tx_hash (vtx b))) \<and>
     shape_ok b \<and> \<not> (e_spork3 e \<and> lock_conflict e b) \<and> (IsProofOfStake b \<longrightarrow> stake_time_ok e b) \<and>
     list_all (tx_valid (e_max_money e) (block_time b > e_zc_start_time e)) (vtx b) \<and> block_sigops b \<le> 83886"

lemma CheckBlockHeader_cases:
  "if header_ok e b then CheckBlockHeader e b state (IsProofOfWork b) = (True, state)
   else failed (CheckBlockHeader e b state (IsProofOfWork b))"
  by (simp add: CheckBlockHeader_def header_ok_def CheckProofOfWork_iff uint256_limbs_val)

lemma failed_pair: "failed q \<Longrightarrow> \<exists>state. q = (False, state) \<and> vs_mode state \<noteq> MODE_VALID"
  by (cases q) (auto simp: failed_def)

lemma failed_DoS_pair:
  "\<exists>state'. DoS state level False cd reason corrupt = (False, state') \<and> vs_mode state' \<noteq> MODE_VALID"
  by (rule failed_pair) simp

lemma failed_case:
  "failed q \<Longrightarrow> \<exists>state' rejects'. (case q of (r, state) \<Rightarrow> Some (r, state, rejects)) = Some (False, state', rejects') \<and>
     vs_mode state' \<noteq> MODE_VALID"
  by (cases q) (auto simp: failed_def)

lemma CheckBlock_ok:
  assumes "list_all (\<lambda>tx. \<not> ContainsZerocoins tx) (vtx b)" and "0 \<le> sint (e_max_money e)"
    and "sint (e_max_money e) < 2 ^ 62" and "0 \<le> zc_max_spends (e_zc e)"
  shows "if block_valid e b then CheckBlock e b state True rejects = Some (True, state, rejects)
    else \<exists>state' rejects'. CheckBlock e b state True rejects = Some (False, state', rejects') \<and> vs_mode state' \<noteq> MODE_VALID"
proof (cases "header_ok e b")
  case False
  then obtain state1 where "CheckBlockHeader e b state (IsProofOfWork b) = (False, state1)"
    using CheckBlockHeader_cases [of e b state] failed_pair by fastforce
  moreover obtain state' where "DoS state1 100 False REJECT_INVALID ''bad-header'' True = (False, state')"
      "vs_mode state' \<noteq> MODE_VALID"
    using failed_DoS_pair by blast
  moreover have "\<not> block_valid e b" using False by (simp add: block_valid_def)
  ultimately show ?thesis by (simp add: CheckBlock_def)
next
  case h: True
  let ?late = "block_time b > BiggerTime e + (if IsProofOfStake b then nMaxStakingFutureDrift else 7200)"
  let ?merkle = "hashMerkleRoot b = merkle_root (map tx_hash (vtx b)) \<and> \<not> list_ex twins (levels (map tx_hash (vtx b)))"
  let ?act = "block_time b > e_zc_start_time e"
  have hd: "CheckBlockHeader e b state (IsProofOfWork b) = (True, state)"
    using CheckBlockHeader_cases [of e b state] h by simp
  show ?thesis
  proof (cases "?late \<or> \<not> ?merkle \<or> \<not> shape_ok b \<or> e_spork3 e \<and> lock_conflict e b")
    case bad: True
    have "\<exists>state' rejects'. CheckBlock e b state True rejects = Some (False, state', rejects') \<and>
        vs_mode state' \<noteq> MODE_VALID"
    proof (cases ?late)
      case True
      then have "CheckBlock e b state True rejects = (case DoS state 10 False REJECT_INVALID ''ime-too-new'' False of
          (r, state) \<Rightarrow> Some (r, state, rejects))" by (simp add: CheckBlock_def hd)
      then show ?thesis by (simp only: failed_case [OF failed_DoS])
    next
      case late: False
      show ?thesis
      proof (cases ?merkle)
        case False
        then obtain q where q: "check_merkle b state = Inl q" "failed q" using check_merkle_cases [of b state] by auto
        have "CheckBlock e b state True rejects = (case q of (r, state) \<Rightarrow> Some (r, state, rejects))"
          using late q by (simp add: CheckBlock_def hd)
        then show ?thesis by (simp only: failed_case [OF q(2)])
      next
        case True
        then have m: "check_merkle b state = Inr ()" using check_merkle_cases [of b state] by simp
        show ?thesis
        proof (cases "shape_ok b")
          case False
          then obtain q where q: "check_shape b state = Inl q" "failed q" using check_shape_cases [of b state] by auto
          have "CheckBlock e b state True rejects = (case q of (r, state) \<Rightarrow> Some (r, state, rejects))"
            using late m q by (simp add: CheckBlock_def hd)
          then show ?thesis by (simp only: failed_case [OF q(2)])
        next
          case sh: True
          then have "check_shape b state = Inr ()" using check_shape_cases [of b state] by simp
          moreover have "e_spork3 e \<and> lock_conflict e b" using bad late True sh by blast
          ultimately have "CheckBlock e b state True rejects =
              (case DoS state 0 False REJECT_INVALID ''conflicting-tx-ix'' False of
                 (r, state) \<Rightarrow> Some (r, state, reject_block e b rejects))"
            using late m by (simp add: CheckBlock_def hd)
          then show ?thesis by (simp only: failed_case [OF failed_DoS])
        qed
      qed
    qed
    then show ?thesis using bad by (auto simp: block_valid_def)
  next
    case False
    then have f: "?late = False" "check_merkle b state = Inr ()" "check_shape b state = Inr ()"
        "(e_spork3 e \<and> lock_conflict e b) = False" and "shape_ok b"
      using check_merkle_cases [of b state] check_shape_cases [of b state] by auto
    then have c: "CheckBlock e b state True rejects =
      (case (if IsProofOfStake b then check_stake_time e b state rejects (Inr ()) else (Inr (), rejects)) of
         (Inl (r, state), rejects) \<Rightarrow> Some (r, state, rejects)
       | (Inr _, rejects) \<Rightarrow>
           (case check_transactions e ?act (vtx b) [] state of
              (False, state) \<Rightarrow> Some (False, state, rejects)
            | (True, state) \<Rightarrow> map_option (\<lambda>(r, state). (r, state, rejects)) (check_sigops ?act b state)))"
      by (simp only: CheckBlock_def hd f Let_def prod.case bool.case sum.case if_True if_False)
    have len: "length (ser_CBlock b) \<le> MAX_BLOCK_SIZE_CURRENT" using \<open>shape_ok b\<close> by (simp add: shape_ok_def)
    note txs = check_transactions_cases [OF assms, of ?act "[]" state]
    have v: "block_valid e b \<longleftrightarrow> (IsProofOfStake b \<longrightarrow> stake_time_ok e b) \<and>
        list_all (tx_valid (e_max_money e) ?act) (vtx b) \<and> block_sigops b \<le> 83886"
      using False h by (auto simp: block_valid_def)
    show ?thesis
    proof (cases "IsProofOfStake b \<and> \<not> stake_time_ok e b")
      case True
      then obtain q rejects' where q: "check_stake_time e b state rejects (Inr ()) = (Inl q, rejects')" "failed q"
        using check_stake_time_cases [of e b state rejects] by auto
      then show ?thesis using True failed_case [OF q(2), of rejects'] unfolding c v by simp
    next
      case st: False
      then have s: "(if IsProofOfStake b then check_stake_time e b state rejects (Inr ()) else (Inr (), rejects)) = (Inr (), rejects)"
        using check_stake_time_cases [of e b state rejects] by simp
      show ?thesis
      proof (cases "list_all (tx_valid (e_max_money e) ?act) (vtx b)")
        case False
        then have "failed (check_transactions e ?act (vtx b) [] state)" using txs by simp
        then obtain state' where "check_transactions e ?act (vtx b) [] state = (False, state')" "vs_mode state' \<noteq> MODE_VALID"
          using failed_pair by blast
        then show ?thesis using False unfolding c v s by simp
      next
        case True
        then have t: "check_transactions e ?act (vtx b) [] state = (True, state)" using txs by simp
        obtain state' where "DoS state 100 False REJECT_INVALID ''bad-blk-sigops'' True = (False, state')"
            "vs_mode state' \<noteq> MODE_VALID"
          using failed_DoS_pair by blast
        then show ?thesis using st True unfolding c v s by (auto simp: t check_sigops_val [OF len])
      qed
    qed
  qed
qed

text \<open>The number of transactions is bounded by the length in bytes.\<close>

lemma txs_le_block: "length (vtx b) \<le> length (ser_CBlock b)"
proof -
  have "length (vtx b) = (\<Sum>tx \<leftarrow> vtx b. 1)" by (simp add: sum_list_triv)
  also have "\<dots> \<le> (\<Sum>tx \<leftarrow> vtx b. length (ser_tx tx))" by (intro sum_list_mono) (simp add: ser_tx_def ser_u32_def)
  also have "\<dots> \<le> length (ser_CBlock b)" by (simp add: ser_CBlock_def ser_vector_def length_concat_map)
  finally show ?thesis .
qed

lemma block_valid_iff:
  "block_valid e b \<longleftrightarrow>
      \<not> (nNonce b > 1000000100 \<and> bh_nTime b > 1599070879) \<and>
      (IsProofOfWork b \<longrightarrow> SkipProofOfWorkCheck (e_params e) \<or> unat (e_hash e b) \<le> compact_target (bh_nBits b)) \<and>
      block_time b \<le> BiggerTime e + (if IsProofOfStake b then 40 else 7200) \<and>
      hashMerkleRoot b = merkle_root (map tx_hash (vtx b)) \<and> \<not> list_ex twins (levels (map tx_hash (vtx b))) \<and>
      vtx b \<noteq> [] \<and> length (ser_CBlock b) \<le> MAX_BLOCK_SIZE_CURRENT \<and>
      (\<forall>i < length (vtx b). IsCoinBase (vtx b ! i) \<longleftrightarrow> i = 0) \<and>
      (IsProofOfStake b \<longrightarrow> length (vout (vtx b ! 0)) = 1 \<and> CTxOut_IsEmpty (vout (vtx b ! 0) ! 0) \<and>
        (\<forall>i < length (vtx b). IsCoinStake (vtx b ! i) \<longleftrightarrow> i = 1) \<and> stake_time_ok e b) \<and>
      \<not> (e_spork3 e \<and> lock_conflict e b) \<and>
      list_all (tx_valid (e_max_money e) (block_time b > e_zc_start_time e)) (vtx b) \<and> block_sigops b \<le> 83886"
  unfolding block_valid_def header_ok_def shape_ok_def nMaxStakingFutureDrift_def using txs_le_block [of b]
  by (meson dual_order.trans)

section \<open>An example\<close>

definition sample_env :: block_env where
  "sample_env = \<lparr>e_params = \<lparr>ProofOfWorkLimit = [], LAST_POW_BLOCK = 0, SkipProofOfWorkCheck = True\<rparr>,
     e_HashQuark = (\<lambda>s. 1), e_genesis = 1, e_max_money = 2100000000000000, e_zc = no_zerocoin, e_zc_start_time = 0,
     e_serial = (\<lambda>txin. 0), e_adjusted_time = 100, e_now = 100, e_tip = None, e_height = (\<lambda>h. None),
     e_fVerifySignature = True, e_initial_download = False, e_spork3 = True, e_locked_inputs = (\<lambda>p. None),
     e_payee_valid = (\<lambda>b h. True), e_max_reorg = 100, e_checkpoints = [], e_checkpoints_enabled = False\<rparr>"

definition sample_coinbase :: CTransaction where
  "sample_coinbase = \<lparr>nVersion = 1, vin = [CTxIn_of COutPoint_Null [1, 1] 0], vout = [CTxOut_of 5 []], nLockTime = 0,
     tx_hash = 9\<rparr>"

definition sample_block :: CBlock where
  "sample_block = (CBlock_of CBlockHeader_Null)\<lparr>hashMerkleRoot := 9, bh_nVersion := 1, bh_nTime := 60, vtx := [sample_coinbase]\<rparr>"

lemma sample_block_valid: "block_valid sample_env sample_block"
proof -
  have l: "length (ser_tx sample_coinbase) = 62"
    by (simp add: sample_coinbase_def ser_tx_def ser_vector_def ser_CTxIn_def ser_CTxOut_def ser_COutPoint_def ser_bytes_def
        WriteCompactSize_def ser_u32_def ser_u64_def CTxIn_of_def CTxOut_of_def)
  have "\<not> 3 <s (1 :: u32)" by code_simp
  then have "length (ser_CBlock sample_block) = 80 + 1 + length (ser_tx sample_coinbase)"
    by (simp add: sample_block_def CBlock_of_def CBlockHeader_Null_def ser_CBlock_def ser_CBlockHeader_def header_bytes_def
        ser_vector_def WriteCompactSize_def ser_u32_def)
  then have "length (ser_CBlock sample_block) \<le> 1000" "length (ser_tx sample_coinbase) \<le> 1000" using l by simp_all
  then have "length (ser_CBlock sample_block) \<le> MAX_BLOCK_SIZE_CURRENT" "length (ser_tx sample_coinbase) \<le> 1000000"
    by (simp_all add: MAX_BLOCK_SIZE_CURRENT_def)
  moreover have "IsCoinBase sample_coinbase" "\<not> IsProofOfStake sample_block" "tx_sigops sample_coinbase = 0" by code_simp+
  moreover have "vtx sample_block = [sample_coinbase]" "hashMerkleRoot sample_block = 9" "nNonce sample_block = 0"
      "block_time sample_block = 60" "BiggerTime sample_env = 100" "SkipProofOfWorkCheck (e_params sample_env)"
      "e_max_money sample_env = 2100000000000000" "Suc 0 \<le> MAX_BLOCK_SIZE_CURRENT"
    by (simp_all add: sample_block_def CBlock_of_def CBlockHeader_Null_def CBlockHeader.defs block_time_def sample_env_def
        BiggerTime_def Let_def MAX_BLOCK_SIZE_CURRENT_def)
  moreover have "tx_hash sample_coinbase = 9" "vin sample_coinbase = [CTxIn_of COutPoint_Null [1, 1] 0]"
      "vout sample_coinbase = [CTxOut_of 5 []]" by (simp_all add: sample_coinbase_def)
  moreover have "merkle_root [9] = (9 :: uint256)" "levels [9] = [[9 :: uint256]]" "\<not> twins [9 :: uint256]"
    by (simp_all add: merkle_root_def levels_small)
  ultimately show ?thesis
    by (simp add: block_valid_def header_ok_def shape_ok_def IsProofOfWork_def lock_conflict_def block_sigops_def tx_valid_def
        MoneyRange_def total_value_def CTxIn_of_def CTxOut_of_def word_sle_eq)
qed

section \<open>Properties\<close>

text \<open>
  C34. CheckBlock always returns for a block without zerocoin parts. It accepts exactly when the
  nonce and the time keep the rule of CheckBlockHeader; a proof of work block has a hash under the
  target of its bits, unless the network skips that check; the time is at most 40 seconds ahead
  for a proof of stake block and 7200 for a proof of work block; the Merkle root is that of the
  transactions and no level repeats a pair; there is a transaction and the block is within the
  size limit; the first transaction is a coinbase and no other is; a proof of stake block has a
  coinbase with one empty output, a coinstake as its second transaction and nowhere else, and
  keeps the rules of the staking time (in a proof of work block the code does not look for
  coinstakes after the second transaction); with the filter of spork 3 on, no input is locked by
  another transaction; every transaction is valid on its own; and the signature operations,
  counted without overflow, are within the limit. A block that passes leaves the state and the
  rejected blocks alone, a block that fails leaves an invalid state.
\<close>

theorem check_block:
  assumes "list_all (\<lambda>tx. \<not> ContainsZerocoins tx) (vtx b)" and "0 \<le> sint (e_max_money e)"
    and "sint (e_max_money e) < 2 ^ 62" and "0 \<le> zc_max_spends (e_zc e)"
  shows "\<exists>r state' rejects'. CheckBlock e b state True rejects = Some (r, state', rejects') \<and>
    (r \<longleftrightarrow>
      \<not> (nNonce b > 1000000100 \<and> bh_nTime b > 1599070879) \<and>
      (IsProofOfWork b \<longrightarrow> SkipProofOfWorkCheck (e_params e) \<or> unat (e_hash e b) \<le> compact_target (bh_nBits b)) \<and>
      block_time b \<le> BiggerTime e + (if IsProofOfStake b then 40 else 7200) \<and>
      hashMerkleRoot b = merkle_root (map tx_hash (vtx b)) \<and> \<not> list_ex twins (levels (map tx_hash (vtx b))) \<and>
      vtx b \<noteq> [] \<and> length (ser_CBlock b) \<le> MAX_BLOCK_SIZE_CURRENT \<and>
      (\<forall>i < length (vtx b). IsCoinBase (vtx b ! i) \<longleftrightarrow> i = 0) \<and>
      (IsProofOfStake b \<longrightarrow> length (vout (vtx b ! 0)) = 1 \<and> CTxOut_IsEmpty (vout (vtx b ! 0) ! 0) \<and>
        (\<forall>i < length (vtx b). IsCoinStake (vtx b ! i) \<longleftrightarrow> i = 1) \<and> stake_time_ok e b) \<and>
      \<not> (e_spork3 e \<and> lock_conflict e b) \<and>
      list_all (tx_valid (e_max_money e) (block_time b > e_zc_start_time e)) (vtx b) \<and> block_sigops b \<le> 83886) \<and>
    (r \<longrightarrow> state' = state \<and> rejects' = rejects) \<and> (\<not> r \<longrightarrow> vs_mode state' \<noteq> MODE_VALID)"
  using CheckBlock_ok [OF assms, of state rejects] unfolding block_valid_iff [symmetric] by (auto split: if_splits)

theorem check_block_witness:
  "CheckBlock sample_env sample_block CValidationState_new True (\<lambda>h. None) = Some (True, CValidationState_new, \<lambda>h. None)"
proof -
  have a: "list_all (\<lambda>tx. \<not> ContainsZerocoins tx) (vtx sample_block)" by code_simp
  have b: "0 \<le> sint (e_max_money sample_env)" "sint (e_max_money sample_env) < 2 ^ 62" "0 \<le> zc_max_spends (e_zc sample_env)"
    by (simp_all add: sample_env_def no_zerocoin_def)
  obtain r state' rejects' where c: "CheckBlock sample_env sample_block CValidationState_new True (\<lambda>h. None) =
      Some (r, state', rejects')" "r \<longleftrightarrow> block_valid sample_env sample_block"
      "r \<longrightarrow> state' = CValidationState_new \<and> rejects' = (\<lambda>h. None)"
    using check_block [OF a b, of CValidationState_new "\<lambda>h. None"] unfolding block_valid_iff by blast
  then show ?thesis using sample_block_valid by simp
qed

end
