(* ===== verification/Rewards.thy ===== *)
theory Rewards
  imports Pow Transaction
begin

text \<open>
  Block rewards (\<open>GetBlockValue\<close>, \<open>GetMasternodePayment\<close> of \<open>src/main.cpp\<close>). Heights and amounts
  are integers: a height is an \<open>int\<close>, and no sum or product below leaves 64 bits.
\<close>

section \<open>The reward of a block\<close>

definition CENT :: int where
  "CENT = 1000000"

text \<open>\<open>supply\<close> is \<open>chainActive[nHeight - 1]->nMoneySupply\<close>, \<open>None\<close> the null pointer. The arguments
  before are \<open>LAST_POW_BLOCK\<close> and \<open>MaxMoneyOut\<close> of the network.\<close>

definition GetBlockValue :: "int \<Rightarrow> int \<Rightarrow> int option \<Rightarrow> int \<Rightarrow> int option" where
  "GetBlockValue last_pow max_money supply nHeight =
     (if nHeight > 0 then
        if nHeight \<le> 101 then Some (sint COIN)
        else if nHeight \<le> last_pow then
          if nHeight \<ge> last_pow - 100 then Some 0
          else
            (let nSubsidy = 1418178770622
             in Some (if nHeight = 110 then nSubsidy + 1064 else nSubsidy))
        else
          (let nSubsidy = CENT * 80;
               nSubsidy = (if nHeight \<ge> REWARDFORK_BLOCK then
                 (let BlocksPerMonth = 43200;
                      NextChange = BlocksPerMonth * 3 + REWARDFORK_BLOCK;
                      nSubsidy = nSubsidy div 2
                  in if nHeight \<ge> NextChange then
                       (let nSubsidy = nSubsidy - CENT * ((BlocksPerMonth + nHeight - NextChange) div BlocksPerMonth)
                        in if nSubsidy < CENT * 20 then CENT * 20 else nSubsidy)
                     else nSubsidy)
                 else nSubsidy)
           in case supply of
                None \<Rightarrow> None
              | Some nMoneySupply \<Rightarrow> if nMoneySupply + nSubsidy > max_money then Some 0 else Some nSubsidy)
      else Some 0)"

text \<open>The numbers of masternodes and the spork are state of other parts of the program.\<close>

definition GetMasternodePayment :: "int \<Rightarrow> bool \<Rightarrow> bool \<Rightarrow> int \<Rightarrow> int \<Rightarrow> int \<Rightarrow> int \<Rightarrow> int \<Rightarrow> int" where
  "GetMasternodePayment last_pow testnet spork8 stable_size all_size nHeight blockValue nMasternodeCount =
     (if nHeight \<le> last_pow then 0
      else if testnet \<and> nHeight < 200 then 0
      else
        (let nMasternodeCount = (if nMasternodeCount < 1 then if spork8 then stable_size else all_size
               else nMasternodeCount)
         in if nMasternodeCount = 0 \<and> \<not> spork8 then 0 else blockValue div 4))"

section \<open>The supply\<close>

text \<open>What a stake block may mint, before the cap.\<close>

definition stake_subsidy :: "int \<Rightarrow> int" where
  "stake_subsidy nHeight =
     (let m = (nHeight - REWARDFORK_BLOCK) div 43200
      in if nHeight < REWARDFORK_BLOCK then 80 * CENT
         else if m < 3 then 40 * CENT else max (20 * CENT) ((42 - m) * CENT))"

lemma month_div: "(43200 + h - (43200 * 3 + f)) div 43200 = (h - f) div 43200 - 2" for h f :: int
proof -
  have "43200 + h - (43200 * 3 + f) = h - f + (- 2) * 43200" by simp
  then show ?thesis by (simp only: div_mult_self1)
qed

lemma GetBlockValue_stake:
  assumes "nHeight > 101" and "nHeight > last_pow"
  shows "GetBlockValue last_pow max_money (Some s) nHeight =
    Some (if s + stake_subsidy nHeight > max_money then 0 else stake_subsidy nHeight)"
proof -
  let ?m = "(nHeight - REWARDFORK_BLOCK) div 43200"
  have 1: "nHeight \<ge> 43200 * 3 + REWARDFORK_BLOCK \<longleftrightarrow> \<not> ?m < 3" by (auto simp: not_less)
  have 2: "?m < 3" if "nHeight < REWARDFORK_BLOCK"
  proof -
    have "?m \<le> 0 div 43200" using that by (intro zdiv_mono1) simp_all
    then show ?thesis by simp
  qed
  have s: "(let BlocksPerMonth = 43200; NextChange = BlocksPerMonth * 3 + REWARDFORK_BLOCK; nSubsidy = CENT * 80 div 2
       in if nHeight \<ge> NextChange then
            (let nSubsidy = nSubsidy - CENT * ((BlocksPerMonth + nHeight - NextChange) div BlocksPerMonth)
             in if nSubsidy < CENT * 20 then CENT * 20 else nSubsidy)
          else nSubsidy) = (if ?m < 3 then 40 * CENT else max (20 * CENT) ((42 - ?m) * CENT))"
    unfolding Let_def month_div 1 by (simp add: CENT_def max_def)
  have "GetBlockValue last_pow max_money (Some s) nHeight =
      (let n = (if nHeight \<ge> REWARDFORK_BLOCK then (if ?m < 3 then 40 * CENT else max (20 * CENT) ((42 - ?m) * CENT))
         else CENT * 80) in if s + n > max_money then Some 0 else Some n)"
    using assms unfolding GetBlockValue_def s [symmetric] by (simp add: Let_def)
  then show ?thesis by (simp add: stake_subsidy_def Let_def)
qed

text \<open>The reward is halved once and then falls month by month, to a quarter of what it was.\<close>

lemma stake_subsidy_bounds: "20 * CENT \<le> stake_subsidy h" "stake_subsidy h \<le> 80 * CENT"
  by (auto simp: stake_subsidy_def Let_def CENT_def)

lemma stake_subsidy_mono:
  assumes "h \<le> k"
  shows "stake_subsidy k \<le> stake_subsidy h"
proof -
  have "(h - REWARDFORK_BLOCK) div 43200 \<le> (k - REWARDFORK_BLOCK) div 43200"
    using assms by (intro zdiv_mono1) simp_all
  then show ?thesis using assms by (auto simp: stake_subsidy_def Let_def CENT_def)
qed

lemma stake_subsidy_floor: "stake_subsidy h = 20 * CENT \<longleftrightarrow> REWARDFORK_BLOCK + 22 * 43200 \<le> h"
  by (auto simp: stake_subsidy_def Let_def CENT_def max_def)

text \<open>The proof of work blocks of the main network.\<close>

definition pow_supply :: "int \<Rightarrow> int" where
  "pow_supply last_pow = sum_list (map (\<lambda>h. the (GetBlockValue last_pow 0 None (int h))) [1..<nat last_pow + 1])"

lemma pow_subsidy: "\<exists>u. GetBlockValue 1390 max_money None i = Some u \<and> 1418178770622 \<le> u" if "i \<in> {102..1289}"
  using that by (auto simp: GetBlockValue_def)

lemma range_sum: "(\<And>h. a \<le> h \<Longrightarrow> h < b \<Longrightarrow> f h = c) \<Longrightarrow> sum_list (map f [a..<b]) = int (b - a) * c"
proof -
  assume "\<And>h. a \<le> h \<Longrightarrow> h < b \<Longrightarrow> f h = c"
  then have "map f [a..<b] = map (\<lambda>_. c) [a..<b]" by simp
  then have "sum_list (map f [a..<b]) = sum_list (map (\<lambda>_. c) [a..<b])" by (rule arg_cong)
  then show ?thesis by (simp add: sum_list_triv)
qed

lemma upt_split: "a \<le> b \<Longrightarrow> b \<le> c \<Longrightarrow> [a..<c] = [a..<b] @ [b..<c]"
  using upt_add_eq_append [of a b "c - b"] by simp

text \<open>What the proof of work blocks of the main network create is what the comment says.\<close>

lemma pow_supply_main: "pow_supply 1390 = 1684806479500000"
proof -
  let ?f = "\<lambda>h. the (GetBlockValue 1390 0 None (int h))"
  have r: "[1..<1391] = [1..<102] @ [102..<110] @ [110..<111] @ [111..<1290] @ [1290..<1391]"
    using upt_split [of 1 102 1391] upt_split [of 102 110 1391] upt_split [of 110 111 1391] upt_split [of 111 1290 1391]
    by simp
  have 1: "sum_list (map ?f [1..<102]) = int (102 - 1) * 100000000"
    by (rule range_sum) (simp add: GetBlockValue_def COIN_def)
  have 2: "sum_list (map ?f [102..<110]) = int (110 - 102) * 1418178770622"
    by (rule range_sum) (simp add: GetBlockValue_def)
  have 3: "sum_list (map ?f [110..<111]) = int (111 - 110) * 1418178771686"
    by (rule range_sum) (simp add: GetBlockValue_def)
  have 4: "sum_list (map ?f [111..<1290]) = int (1290 - 111) * 1418178770622"
    by (rule range_sum) (simp add: GetBlockValue_def)
  have 5: "sum_list (map ?f [1290..<1391]) = int (1391 - 1290) * 0"
    by (rule range_sum) (simp add: GetBlockValue_def)
  have "nat 1390 + 1 = 1391" by simp
  then show ?thesis unfolding pow_supply_def by (simp only: r map_append sum_list_append 1 2 3 4 5)
qed

text \<open>A stake block never lifts the supply over the cap.\<close>

lemma GetBlockValue_cap:
  assumes "GetBlockValue last_pow max_money (Some s) nHeight = Some v" and "nHeight > 101" and "nHeight > last_pow"
    and "s \<le> max_money"
  shows "s + v \<le> max_money \<and> 0 \<le> v"
  using assms stake_subsidy_bounds [of nHeight] by (auto simp: GetBlockValue_stake CENT_def split: if_splits)

lemma masternode_share:
  assumes "0 \<le> v"
  shows "0 \<le> GetMasternodePayment last_pow testnet spork8 a b h v n \<and>
    4 * GetMasternodePayment last_pow testnet spork8 a b h v n \<le> v"
  using assms by (auto simp: GetMasternodePayment_def Let_def)

section \<open>Properties\<close>

text \<open>
  C31. The proof of work blocks of the main network create exactly the 1684806479500000 satoshis
  the comment in the code promises, almost 14182 coins in each block that is neither among the
  first 101 nor among the last 101 of them (the test subsidy_limit_test in main_tests.cpp is that
  of another schedule and asserts at most 250 coins). A later block may mint a subsidy of at most
  0.8 coins, or nothing if that would lift the supply over its maximum; while it is not zero it
  does not grow with the height, and it is 0.2 coins exactly from 22 months of 43200 blocks after
  the fork on.
\<close>

theorem block_subsidy:
  assumes "1390 < h" and "h \<le> k" and "nMoneySupply \<le> max_money"
    and "GetBlockValue 1390 max_money (Some nMoneySupply) h = Some v" and "GetBlockValue 1390 max_money (Some nMoneySupply) k = Some w"
  shows "pow_supply 1390 = 1684806479500000 \<and>
    (\<forall>i \<in> {102..1289}. \<exists>u. GetBlockValue 1390 max_money None i = Some u \<and> 1418178770622 \<le> u) \<and> 0 \<le> v \<and> v \<le> 80 * CENT \<and> nMoneySupply + v \<le> max_money \<and>
    (v \<noteq> 0 \<longrightarrow> w \<le> v) \<and> (v \<noteq> 0 \<longrightarrow> (v = 20 * CENT \<longleftrightarrow> REWARDFORK_BLOCK + 22 * 43200 \<le> h)) \<and>
    (nMoneySupply + 80 * CENT \<le> max_money \<longrightarrow> v \<noteq> 0)"
  using assms GetBlockValue_stake [of h 1390 max_money nMoneySupply] GetBlockValue_stake [of k 1390 max_money nMoneySupply]
    stake_subsidy_mono [OF assms(2)] stake_subsidy_bounds [of h] stake_subsidy_floor [of h] pow_supply_main pow_subsidy
  by (auto simp: CENT_def split: if_splits)

theorem block_subsidy_witness:
  "GetBlockValue 1390 2100000000000000 (Some 1684806479500000) 2092060 = Some (20 * CENT) \<and> pow_supply 1390 = 1684806479500000"
proof -
  have "GetBlockValue 1390 2100000000000000 (Some 1684806479500000) 2092060 = Some (20 * CENT)"
    by (simp add: GetBlockValue_stake stake_subsidy_def REWARDFORK_BLOCK_def CENT_def)
  then show ?thesis
    using block_subsidy [of 2092060 2092060 1684806479500000 2100000000000000] by (simp add: CENT_def)
qed

end
