(* ===== verification/ConnectBlock.thy ===== *)
theory ConnectBlock
  imports BlockRules Rewards
begin

text \<open>
  A block connected to the chain (\<open>ConnectBlock\<close> of \<open>src/main.cpp\<close>) over any view of the unspent
  outputs. The indexes of addresses and transactions and the files are left out; what the code asks
  Zerocoin, the chain and the sporks is a record. \<open>None\<close> is a failed assertion or an exception.
\<close>

section \<open>The surroundings\<close>

text \<open>\<open>c_money_supply\<close> is the supply recorded for a height of the active chain, \<open>c_threads\<close> says that
  scripts are checked by other threads, \<open>c_coin_spend\<close> is \<open>ContextualCheckCoinSpend\<close>.\<close>

record connect_env =
  c_env :: block_env
  c_maturity :: int
  c_zc_start_height :: int
  c_money_supply :: "int \<Rightarrow> int option"
  c_ecdsa :: ecdsa_verify
  c_threads :: bool
  c_maintenance :: int
  c_in_chain :: "uint256 \<Rightarrow> int option"
  c_verifying :: bool
  c_coin_spend :: "CTxIn \<Rightarrow> uint256 \<Rightarrow> bool"
  c_denomination :: "CTxIn \<Rightarrow> int"
  c_zc_supply :: "CBlock \<Rightarrow> bool"
  c_accumulators :: "CBlock \<Rightarrow> bool"
  c_shutdown :: bool

text \<open>The entry of the block: its hash and height, and the hash and money supply of its predecessor.\<close>

record connect_index =
  ci_hash :: uint256
  ci_height :: int
  ci_prev :: "(uint256 \<times> CAmount) option"

text \<open>The local variables of the loop.\<close>

record connect_sums =
  ca_sigops :: u32
  ca_fees :: CAmount
  ca_in :: CAmount
  ca_out :: CAmount
  ca_undo :: "CTxInUndo list list"
  ca_checks :: "CScriptCheck list"

definition connect_sums_new :: connect_sums where
  "connect_sums_new = \<lparr>ca_sigops = 0, ca_fees = 0, ca_in = 0, ca_out = 0, ca_undo = [], ca_checks = []\<rparr>"

type_synonym ret = "bool \<times> CValidationState"

section \<open>One transaction\<close>

definition too_many_sigops :: "CValidationState \<Rightarrow> ret" where
  "too_many_sigops state = DoS state 100 False REJECT_INVALID ''bad-blk-sigops'' False"

fun zerocoin_values ::
    "connect_env \<Rightarrow> uint256 \<Rightarrow> CTxIn list \<Rightarrow> connect_sums \<Rightarrow> CValidationState \<Rightarrow> ret + connect_sums" where
  "zerocoin_values K txid [] acc state = Inr acc"
| "zerocoin_values K txid (txin # ins) acc state =
     (if \<not> CTxIn_IsZerocoinSpend txin then zerocoin_values K txid ins acc state
      else
        (let acc = acc\<lparr>ca_in := ca_in acc + of_int (c_denomination K txin * CENT)\<rparr>
         in if \<not> c_coin_spend K txin txid then Inl (DoS state 100 False 0 [] False)
            else zerocoin_values K txid ins acc state))"

definition connect_zerocoin ::
    "connect_env \<Rightarrow> int \<Rightarrow> CTransaction \<Rightarrow> connect_sums \<Rightarrow> CValidationState \<Rightarrow> ret + connect_sums" where
  "connect_zerocoin K nHeight tx acc state =
     (if (case c_in_chain K (tx_hash tx) of None \<Rightarrow> False | Some nHeightTx \<Rightarrow> \<not> c_verifying K \<or> nHeight > nHeightTx)
      then Inl (DoS state 100 False REJECT_INVALID ''bad-txns-inputs-missingorspent'' False)
      else zerocoin_values K (tx_hash tx) (vin tx) acc state)"

fun stake_inputs_loop ::
    "connect_env \<Rightarrow> 's CCoinsView \<Rightarrow> bool \<Rightarrow> int \<Rightarrow> CTxIn list \<Rightarrow> 's \<times> CCoinsViewCache \<Rightarrow> bool \<times> 's \<times> CCoinsViewCache" where
  "stake_inputs_loop K base coinstake nHeight [] st = (True, st)"
| "stake_inputs_loop K base coinstake nHeight (txin # ins) st =
     (case AccessCoins base st (COutPoint.op_hash (prevout txin)) of
        (None, st) \<Rightarrow> (False, st)
      | (Some coins, st) \<Rightarrow>
          if coinstake \<and> nHeight - sint (cc_nHeight coins) < c_maturity K \<or>
             sint (cc_nHeight coins) < c_zc_start_height K \<and> \<not> coinstake \<or>
             \<not> IsAvailable coins (unat (op_n (prevout txin)))
          then (False, st) else stake_inputs_loop K base coinstake nHeight ins st)"

definition inputs_present ::
    "connect_env \<Rightarrow> 's CCoinsView \<Rightarrow> int \<Rightarrow> CTransaction \<Rightarrow> CValidationState \<Rightarrow> 's \<times> CCoinsViewCache \<Rightarrow>
     ret option \<times> 's \<times> CCoinsViewCache" where
  "inputs_present K base nHeight tx state st =
     (if nHeight \<ge> StakingProtocol2Height then
        (case stake_inputs_loop K base (IsCoinStake tx) nHeight (vin tx) st of
           (ok, st) \<Rightarrow> (if ok then None else Some (DoS state 100 False REJECT_INVALID ''bad-inputs'' False), st))
      else
        (case HaveInputs base st tx 0 of
           (ok, st) \<Rightarrow>
             (if ok then None else Some (DoS state 100 False REJECT_INVALID ''bad-txns-inputs-missingorspent'' False), st)))"

text \<open>\<open>nFees\<close> and \<open>nValueIn\<close>.\<close>

definition add_values ::
    "'s CCoinsView \<Rightarrow> CTransaction \<Rightarrow> connect_sums \<Rightarrow> 's \<times> CCoinsViewCache \<Rightarrow> (connect_sums \<times> 's \<times> CCoinsViewCache) option" where
  "add_values base tx acc st =
     (case (if \<not> IsCoinStake tx then
              (case GetValueIn base st tx of
                 None \<Rightarrow> None
               | Some (nIn, st) \<Rightarrow>
                   (case GetValueOut tx of
                      Inl _ \<Rightarrow> None
                    | Inr nOut \<Rightarrow> Some (acc\<lparr>ca_fees := ca_fees acc + (nIn - nOut)\<rparr>, st)))
            else Some (acc, st)) of
        None \<Rightarrow> None
      | Some (acc, st) \<Rightarrow> map_option (\<lambda>(nIn, st). (acc\<lparr>ca_in := ca_in acc + nIn\<rparr>, st)) (GetValueIn base st tx))"

definition connect_spends ::
    "connect_env \<Rightarrow> 's CCoinsView \<Rightarrow> bool \<Rightarrow> int \<Rightarrow> CTransaction \<Rightarrow> connect_sums \<Rightarrow> CValidationState \<Rightarrow> 's \<times> CCoinsViewCache \<Rightarrow>
     ((ret + connect_sums \<times> CValidationState) \<times> 's \<times> CCoinsViewCache) option" where
  "connect_spends K base fScriptChecks nHeight tx acc state st =
     (case inputs_present K base nHeight tx state st of
        (Some r, st) \<Rightarrow> Some (Inl r, st)
      | (None, st) \<Rightarrow>
          (case GetP2SHSigOpCount base tx st of
             None \<Rightarrow> None
           | Some (n, st) \<Rightarrow>
               (let acc = acc\<lparr>ca_sigops := ca_sigops acc + n\<rparr>
                in if ca_sigops acc > MAX_BLOCK_SIGOPS_CURRENT then Some (Inl (too_many_sigops state), st)
                   else
                     (case add_values base tx acc st of
                        None \<Rightarrow> None
                      | Some (acc, st) \<Rightarrow>
                          (case CheckInputs base (e_max_money (c_env K)) (c_maturity K) (e_height (c_env K)) (c_ecdsa K) tx state st
                             fScriptChecks (SCRIPT_VERIFY_P2SH OR SCRIPT_VERIFY_DERSIG) False
                             (if c_threads K then Some [] else None) 0 of
                             None \<Rightarrow> None
                           | Some (r, state, vChecks, st) \<Rightarrow>
                               Some (if \<not> r then Inl (False, state)
                                 else Inr (acc\<lparr>ca_checks := ca_checks acc @ (case vChecks of None \<Rightarrow> [] | Some cs \<Rightarrow> cs)\<rparr>, state),
                                 st))))))"

definition connect_tx ::
    "connect_env \<Rightarrow> 's CCoinsView \<Rightarrow> bool \<Rightarrow> u32 \<Rightarrow> int \<Rightarrow> nat \<Rightarrow> CTransaction \<Rightarrow> connect_sums \<Rightarrow> CValidationState \<Rightarrow>
     's \<times> CCoinsViewCache \<Rightarrow> ((ret + connect_sums \<times> CValidationState) \<times> 's \<times> CCoinsViewCache) option" where
  "connect_tx K base fScriptChecks nTime nHeight i tx acc state st =
     (case GetLegacySigOpCount tx of
        None \<Rightarrow> None
      | Some n \<Rightarrow>
          (let acc = acc\<lparr>ca_sigops := ca_sigops acc + n\<rparr>
           in if ca_sigops acc > MAX_BLOCK_SIGOPS_CURRENT then Some (Inl (too_many_sigops state), st)
              else if uint nTime > c_maintenance K \<and> \<not> e_initial_download (c_env K) \<and> ContainsZerocoins tx
              then Some (Inl (DoS state 100 False 0 [] False), st)
              else
                (case (if HasZerocoinSpendInputs tx
                       then Some (map_sum id (\<lambda>acc. (acc, state)) (connect_zerocoin K nHeight tx acc state), st)
                       else if \<not> IsCoinBase tx then connect_spends K base fScriptChecks nHeight tx acc state st
                       else Some (Inr (acc, state), st)) of
                   None \<Rightarrow> None
                 | Some (Inl r, st) \<Rightarrow> Some (Inl r, st)
                 | Some (Inr (acc, state), st) \<Rightarrow>
                     (case GetValueOut tx of
                        Inl _ \<Rightarrow> None
                      | Inr nOut \<Rightarrow>
                          (case UpdateCoins base tx st [] (of_int nHeight) of
                             None \<Rightarrow> None
                           | Some (undo, st) \<Rightarrow>
                               Some (Inr (acc\<lparr>ca_out := ca_out acc + nOut,
                                 ca_undo := ca_undo acc @ (if i > 0 then [undo] else [])\<rparr>, state), st))))))"

fun connect_txs ::
    "connect_env \<Rightarrow> 's CCoinsView \<Rightarrow> bool \<Rightarrow> u32 \<Rightarrow> int \<Rightarrow> nat \<Rightarrow> CTransaction list \<Rightarrow> connect_sums \<Rightarrow> CValidationState \<Rightarrow>
     's \<times> CCoinsViewCache \<Rightarrow> ((ret + connect_sums \<times> CValidationState) \<times> 's \<times> CCoinsViewCache) option" where
  "connect_txs K base fScriptChecks nTime nHeight i [] acc state st = Some (Inr (acc, state), st)"
| "connect_txs K base fScriptChecks nTime nHeight i (tx # txs) acc state st =
     (case connect_tx K base fScriptChecks nTime nHeight i tx acc state st of
        None \<Rightarrow> None
      | Some (Inl r, st) \<Rightarrow> Some (Inl r, st)
      | Some (Inr (acc, state), st) \<Rightarrow> connect_txs K base fScriptChecks nTime nHeight (i + 1) txs acc state st)"

section \<open>The block\<close>

text \<open>No transaction that still has outputs is overwritten.\<close>

fun no_overwrite :: "'s CCoinsView \<Rightarrow> CTransaction list \<Rightarrow> 's \<times> CCoinsViewCache \<Rightarrow> bool \<times> 's \<times> CCoinsViewCache" where
  "no_overwrite base [] st = (True, st)"
| "no_overwrite base (tx # txs) st =
     (case AccessCoins base st (tx_hash tx) of
        (coins, st) \<Rightarrow>
          if (case coins of None \<Rightarrow> False | Some c \<Rightarrow> \<not> IsPruned c) then (False, st) else no_overwrite base txs st)"

text \<open>\<open>CCheckQueueControl::Wait\<close>: whether all the scripts of the queue succeed.\<close>

fun control_wait :: "ecdsa_verify \<Rightarrow> CScriptCheck list \<Rightarrow> bool option" where
  "control_wait ecdsa [] = Some True"
| "control_wait ecdsa (c # cs) =
     (case run_check ecdsa c of
        None \<Rightarrow> None
      | Some (ok, _) \<Rightarrow> if ok then control_wait ecdsa cs else Some False)"

text \<open>The end of the function: the supply, the reward and the scripts. The result has the new values of
  \<open>nMoneySupply\<close> and \<open>nMint\<close>, once they are set, and the undo data.\<close>

type_synonym 's connected =
  "ret \<times> (CAmount \<times> CAmount) option \<times> CTxInUndo list list \<times> 's \<times> CCoinsViewCache"

definition connect_finish ::
    "connect_env \<Rightarrow> CBlock \<Rightarrow> connect_index \<Rightarrow> bool \<Rightarrow> connect_sums \<Rightarrow> CValidationState \<Rightarrow> 's \<times> CCoinsViewCache \<Rightarrow>
     's connected option" where
  "connect_finish K b pindex fJustCheck acc state st =
     (if \<not> c_zc_supply K b then Some (DoS state 100 False REJECT_INVALID [] False, None, [], st)
      else
        (let nMoneySupplyPrev = (case ci_prev pindex of None \<Rightarrow> 0 | Some (_, m) \<Rightarrow> m);
             nMoneySupply = nMoneySupplyPrev + ca_out acc - ca_in acc;
             nMint = nMoneySupply - nMoneySupplyPrev;
             money = Some (nMoneySupply, nMint)
         in case GetBlockValue (LAST_POW_BLOCK (e_params (c_env K))) (sint (e_max_money (c_env K)))
                (c_money_supply K (ci_height pindex - 1)) (ci_height pindex) of
              None \<Rightarrow> None
            | Some v \<Rightarrow>
                (let nExpectedMint = of_int v + (if IsProofOfWork b then ca_fees acc else 0)
                 in if nExpectedMint <s nMint
                    then Some (DoS state 100 False REJECT_INVALID ''bad-cb-amount'' False, money, [], st)
                    else if \<not> c_accumulators K b
                    then Some (if \<not> c_shutdown K then DoS state 100 False REJECT_INVALID ''bad-acc-checkpoint'' False
                      else (False, state), money, [], st)
                    else
                      (case control_wait (c_ecdsa K) (ca_checks acc) of
                         None \<Rightarrow> None
                       | Some False \<Rightarrow> Some (DoS state 100 False 0 [] False, money, [], st)
                       | Some True \<Rightarrow>
                           Some ((True, state), money, ca_undo acc,
                             if fJustCheck then st else SetBestBlock st (ci_hash pindex))))))"

definition connect_checked ::
    "connect_env \<Rightarrow> 's CCoinsView \<Rightarrow> CBlock \<Rightarrow> connect_index \<Rightarrow> bool \<Rightarrow> CValidationState \<Rightarrow> 's \<times> CCoinsViewCache \<Rightarrow>
     's connected option" where
  "connect_checked K base b pindex fJustCheck state st =
     (case GetBestBlock base st of
        (best, st) \<Rightarrow>
          if (case ci_prev pindex of None \<Rightarrow> 0 | Some (h, _) \<Rightarrow> h) \<noteq> best then None
          else if e_hash (c_env K) b = e_genesis (c_env K)
          then Some ((True, state), None, [], SetBestBlock st (ci_hash pindex))
          else if ci_height pindex \<le> LAST_POW_BLOCK (e_params (c_env K)) \<and> IsProofOfStake b
          then Some (DoS state 100 False REJECT_INVALID ''PoS-early'' False, None, [], st)
          else if ci_height pindex > LAST_POW_BLOCK (e_params (c_env K)) \<and> IsProofOfWork b
          then Some (DoS state 100 False REJECT_INVALID ''PoW-ended'' False, None, [], st)
          else
            (case no_overwrite base (vtx b) st of
               (False, st) \<Rightarrow> Some (DoS state 100 False REJECT_INVALID ''bad-txns-BIP30'' False, None, [], st)
             | (True, st) \<Rightarrow>
                 (case connect_txs K base (ci_height pindex \<ge> GetTotalBlocksEstimate (c_env K)) (bh_nTime b) (ci_height pindex)
                    0 (vtx b) connect_sums_new state st of
                    None \<Rightarrow> None
                  | Some (Inl r, st) \<Rightarrow> Some (r, None, [], st)
                  | Some (Inr (acc, state), st) \<Rightarrow> connect_finish K b pindex fJustCheck acc state st)))"

definition ConnectBlock ::
    "connect_env \<Rightarrow> 's CCoinsView \<Rightarrow> CBlock \<Rightarrow> CValidationState \<Rightarrow> connect_index \<Rightarrow> bool \<Rightarrow> bool \<Rightarrow> rejected_blocks \<Rightarrow>
     's \<times> CCoinsViewCache \<Rightarrow> (rejected_blocks \<times> 's connected) option" where
  "ConnectBlock K base b state pindex fJustCheck fAlreadyChecked rejects st =
     (case (if \<not> fAlreadyChecked then CheckBlock (c_env K) b state (\<not> fJustCheck) rejects else Some (True, state, rejects)) of
        None \<Rightarrow> None
      | Some (False, state, rejects) \<Rightarrow> Some (rejects, (False, state), None, [], st)
      | Some (True, state, rejects) \<Rightarrow> map_option (Pair rejects) (connect_checked K base b pindex fJustCheck state st))"

section \<open>What connecting a transaction does to the outputs\<close>

definition tx_apply :: "int \<Rightarrow> CTransaction \<Rightarrow> coins_fun \<Rightarrow> coins_fun" where
  "tx_apply nHeight tx U =
     (fold (\<lambda>p U. remove_coin U p) (if IsCoinBase tx then [] else map outpoint (vin tx)) U)
       (tx_hash tx := coins_abs (CCoins_FromTx tx (of_int nHeight)))"

text \<open>The rule for the inputs from the second staking protocol on.\<close>

definition stake_rule :: "connect_env \<Rightarrow> int \<Rightarrow> CTransaction \<Rightarrow> coins_fun \<Rightarrow> bool" where
  "stake_rule K nHeight tx U \<longleftrightarrow> (\<forall>txin \<in> set (vin tx).
     (IsCoinStake tx \<longrightarrow> c_maturity K \<le> nHeight - sint (coin_height (coin_at U txin))) \<and>
     (\<not> IsCoinStake tx \<longrightarrow> c_zc_start_height K \<le> sint (coin_height (coin_at U txin))))"

definition spend_ok :: "connect_env \<Rightarrow> bool \<Rightarrow> int \<Rightarrow> CTransaction \<Rightarrow> coins_fun \<Rightarrow> bool" where
  "spend_ok K fScriptChecks nHeight tx U \<longleftrightarrow>
     inputs_valid U (e_max_money (c_env K)) (c_maturity K) nHeight 0 tx \<and>
     (StakingProtocol2Height \<le> nHeight \<longrightarrow> stake_rule K nHeight tx U) \<and>
     (fScriptChecks \<longrightarrow> (\<forall>i < length (vin tx). script_ok (c_ecdsa K) U tx (SCRIPT_VERIFY_P2SH OR SCRIPT_VERIFY_DERSIG) i))"

text \<open>What a transaction takes in and what it pays as fee, and what it adds to the sums.\<close>

definition tx_in :: "CTransaction \<Rightarrow> coins_fun \<Rightarrow> int" where
  "tx_in tx U = (if IsCoinBase tx then 0 else inputs_value U (vin tx))"

definition tx_fee :: "CTransaction \<Rightarrow> coins_fun \<Rightarrow> int" where
  "tx_fee tx U = (if IsCoinBase tx \<or> IsCoinStake tx then 0 else inputs_value U (vin tx) - total_value (vout tx))"

section \<open>CheckInputs with and without a queue\<close>

lemma tally_inputs_False: "tally_inputs base m maturity h ins acc state st = Some (Inl q, st') \<Longrightarrow> \<not> fst q"
  by (induction base m maturity h ins acc state st rule: tally_inputs.induct)
    (auto simp: Let_def Invalid_def DoS_def split: option.splits prod.splits if_splits)

lemma check_fee_False: "check_fee m tx v state = Some (Inl q) \<Longrightarrow> \<not> fst q"
  by (auto simp: check_fee_def Let_def DoS_def split: if_splits sum.splits)

lemma CheckInputs_split:
  assumes "\<not> IsCoinBase tx" and "\<not> HasZerocoinSpendInputs tx"
  shows "CheckInputs base m maturity bh ecdsa tx state st fScriptChecks flags cacheStore pv H =
    (case CheckInputs base m maturity bh ecdsa tx state st False flags cacheStore None H of
       None \<Rightarrow> None
     | Some (r, state, _, st) \<Rightarrow>
         if r \<and> fScriptChecks then script_loop base ecdsa tx flags cacheStore [0..<length (vin tx)] pv state st
         else Some (r, state, pv, st))"
  using assms
  by (auto simp: CheckInputs_def Invalid_def dest: tally_inputs_False check_fee_False
      split: prod.split option.split bool.split sum.split)

section \<open>The queue\<close>

definition passes :: "ecdsa_verify \<Rightarrow> CScriptCheck \<Rightarrow> bool" where
  "passes ecdsa c \<longleftrightarrow> (\<exists>error. run_check ecdsa c = Some (True, error))"

lemma control_wait_ok: "control_wait ecdsa cs = Some (list_all (passes ecdsa) cs)"
proof (induction cs)
  case (Cons c cs)
  obtain ok error where "run_check ecdsa c = Some (ok, error)" using run_check_cases by blast
  then show ?case using Cons by (simp add: passes_def)
qed simp

lemma passes_check_at: "passes ecdsa (check_at U tx flags cacheStore i) \<longleftrightarrow> script_ok ecdsa U tx flags i"
  using run_check_at [of ecdsa U tx flags cacheStore i] by (auto simp: passes_def)

definition tx_step ::
    "connect_env \<Rightarrow> bool \<Rightarrow> int \<Rightarrow> CTransaction \<Rightarrow> coins_fun \<Rightarrow> connect_sums \<Rightarrow> connect_sums \<Rightarrow> bool" where
  "tx_step K f h tx U acc acc' \<longleftrightarrow>
     ca_in acc' = ca_in acc + of_int (tx_in tx U) \<and> ca_out acc' = ca_out acc + of_int (total_value (vout tx)) \<and>
     ca_fees acc' = ca_fees acc + of_int (tx_fee tx U) \<and>
     (\<not> IsCoinBase tx \<longrightarrow> inputs_valid U (e_max_money (c_env K)) (c_maturity K) h 0 tx) \<and>
     (\<exists>cs. ca_checks acc' = ca_checks acc @ cs \<and>
        (list_all (passes (c_ecdsa K)) cs \<longrightarrow> IsCoinBase tx \<or> spend_ok K f h tx U))"

text \<open>The same for a list of transactions, each against what those before it leave.\<close>

fun txs_connect :: "connect_env \<Rightarrow> bool \<Rightarrow> int \<Rightarrow> CTransaction list \<Rightarrow> coins_fun \<Rightarrow> bool" where
  "txs_connect K f h [] U = True"
| "txs_connect K f h (tx # txs) U \<longleftrightarrow> (IsCoinBase tx \<or> spend_ok K f h tx U) \<and> txs_connect K f h txs (tx_apply h tx U)"

text \<open>The undo data of the transactions, from the second on, and that each spends what is there.\<close>

definition tx_spends :: "CTransaction \<Rightarrow> (uint256 \<times> nat) list" where
  "tx_spends tx = (if IsCoinBase tx then [] else map outpoint (vin tx))"

fun txs_undo :: "int \<Rightarrow> nat \<Rightarrow> CTransaction list \<Rightarrow> coins_fun \<Rightarrow> CTxInUndo list list" where
  "txs_undo h i [] U = []"
| "txs_undo h i (tx # txs) U = (if i > 0 then [undos_for U (tx_spends tx)] else []) @ txs_undo h (i + 1) txs (tx_apply h tx U)"

fun txs_there :: "int \<Rightarrow> CTransaction list \<Rightarrow> coins_fun \<Rightarrow> bool" where
  "txs_there h [] U = True"
| "txs_there h (tx # txs) U \<longleftrightarrow> all_there U (tx_spends tx) \<and> txs_there h txs (tx_apply h tx U)"

fun txs_inputs :: "connect_env \<Rightarrow> int \<Rightarrow> CTransaction list \<Rightarrow> coins_fun \<Rightarrow> bool" where
  "txs_inputs K h [] U = True"
| "txs_inputs K h (tx # txs) U \<longleftrightarrow>
     (\<not> IsCoinBase tx \<longrightarrow> inputs_valid U (e_max_money (c_env K)) (c_maturity K) h 0 tx) \<and> txs_inputs K h txs (tx_apply h tx U)"

fun txs_in :: "int \<Rightarrow> CTransaction list \<Rightarrow> coins_fun \<Rightarrow> int" where
  "txs_in h [] U = 0"
| "txs_in h (tx # txs) U = tx_in tx U + txs_in h txs (tx_apply h tx U)"

fun txs_fee :: "int \<Rightarrow> CTransaction list \<Rightarrow> coins_fun \<Rightarrow> int" where
  "txs_fee h [] U = 0"
| "txs_fee h (tx # txs) U = tx_fee tx U + txs_fee h txs (tx_apply h tx U)"

definition txs_out :: "CTransaction list \<Rightarrow> int" where
  "txs_out txs = (\<Sum>tx \<leftarrow> txs. total_value (vout tx))"

definition txs_steps ::
    "connect_env \<Rightarrow> bool \<Rightarrow> int \<Rightarrow> CTransaction list \<Rightarrow> coins_fun \<Rightarrow> connect_sums \<Rightarrow> connect_sums \<Rightarrow> bool" where
  "txs_steps K f h txs U acc acc' \<longleftrightarrow>
     ca_in acc' = ca_in acc + of_int (txs_in h txs U) \<and> ca_out acc' = ca_out acc + of_int (txs_out txs) \<and>
     ca_fees acc' = ca_fees acc + of_int (txs_fee h txs U) \<and> txs_inputs K h txs U \<and>
     (\<exists>cs. ca_checks acc' = ca_checks acc @ cs \<and> (list_all (passes (c_ecdsa K)) cs \<longrightarrow> txs_connect K f h txs U))"

lemma txs_steps_Cons:
  assumes "tx_step K f h tx U acc acc1" and "txs_steps K f h txs (tx_apply h tx U) acc1 acc'"
  shows "txs_steps K f h (tx # txs) U acc acc'"
proof -
  obtain cs where cs: "ca_checks acc1 = ca_checks acc @ cs"
      "list_all (passes (c_ecdsa K)) cs \<longrightarrow> IsCoinBase tx \<or> spend_ok K f h tx U"
    using assms(1) unfolding tx_step_def by blast
  obtain cs' where cs': "ca_checks acc' = ca_checks acc1 @ cs'"
      "list_all (passes (c_ecdsa K)) cs' \<longrightarrow> txs_connect K f h txs (tx_apply h tx U)"
    using assms(2) unfolding txs_steps_def by blast
  have "ca_checks acc' = ca_checks acc @ (cs @ cs')" "list_all (passes (c_ecdsa K)) (cs @ cs') \<longrightarrow> txs_connect K f h (tx # txs) U"
    using cs cs' by auto
  then show ?thesis using assms by (auto simp: txs_steps_def tx_step_def txs_out_def)
qed

lemma distinct_outpoints: "distinct (map prevout ins) \<Longrightarrow> distinct (map outpoint ins)"
proof (induction ins)
  case (Cons a ins)
  have "prevout a = prevout b" if "outpoint a = outpoint b" for b
    using that by (intro COutPoint.equality) (simp_all add: word_unat_eq_iff)
  then show ?case using Cons by fastforce
qed simp

lemma tx_valid_value:
  assumes "tx_valid m act tx" and "sint m < 2 ^ 62"
  shows "\<exists>vo. GetValueOut tx = Inr vo \<and> sint vo = total_value (vout tx) \<and> 0 \<le> sint vo"
proof -
  have r: "\<forall>txout \<in> set (vout tx). 0 \<le> sint (nValue txout)" "total_value (vout tx) \<le> sint m"
    using assms(1) by (auto simp: tx_valid_def MoneyRange_iff)
  then have nn: "0 \<le> total_value (vout tx)" unfolding total_value_def by (intro sum_list_nonneg) auto
  have "sint (word_of_int (total_value (vout tx)) :: u64) = total_value (vout tx)"
    using nn r(2) assms(2) by (simp add: sint_sbintrunc' signed_take_bit_int_eq_self)
  then show ?thesis using nn r assms(2)
    by (intro exI [of _ "word_of_int (total_value (vout tx))"]) (auto simp: GetValueOut_iff total_value_def list_all_iff)
qed

section \<open>One transaction over a view\<close>

lemma P2SH_sigops_Some: "\<exists>n. GetSigOpCount_P2SH script sig = Some n"
  by (cases "IsPayToScriptHash script"; cases "last_push sig []")
    (simp_all add: GetSigOpCount_P2SH_def GetSigOpCount_def GetSigOpCount_loop_sigops)

lemma sum_nValue: "(\<Sum>txin \<leftarrow> ins. nValue (coin_out (coin_at U txin))) = of_int (inputs_value U ins)"
  by (induction ins) (simp_all add: input_value_def)

context coins_source
begin

lemma stake_inputs_loop_ok:
  assumes "cache_inv invar utxo has st"
  shows "\<exists>st'. stake_inputs_loop K base k h ins st =
      (list_all (\<lambda>txin. input_ok (cache_utxo utxo st) True 0 txin \<and>
         (k \<longrightarrow> c_maturity K \<le> h - sint (coin_height (coin_at (cache_utxo utxo st) txin))) \<and>
         (\<not> k \<longrightarrow> c_zc_start_height K \<le> sint (coin_height (coin_at (cache_utxo utxo st) txin)))) ins, st') \<and>
    cache_inv invar utxo has st' \<and> cache_utxo utxo st' = cache_utxo utxo st \<and> cache_best best st' = cache_best best st"
  using assms
proof (induction ins arbitrary: st)
  case (Cons txin ins)
  let ?h = "COutPoint.op_hash (prevout txin)" and ?n = "unat (op_n (prevout txin))" and ?U = "cache_utxo utxo st"
  obtain r s1 c1 where a: "AccessCoins base st ?h = (r, s1, c1)" by (metis prod.exhaust)
  note ok = AccessCoins_ok [OF Cons.prems a]
  obtain s2 c2 where r: "stake_inputs_loop K base k h ins (s1, c1) =
      (list_all (\<lambda>txin. input_ok ?U True 0 txin \<and>
         (k \<longrightarrow> c_maturity K \<le> h - sint (coin_height (coin_at ?U txin))) \<and>
         (\<not> k \<longrightarrow> c_zc_start_height K \<le> sint (coin_height (coin_at ?U txin)))) ins, s2, c2)"
      "cache_inv invar utxo has (s2, c2)" "cache_utxo utxo (s2, c2) = ?U" "cache_best best (s2, c2) = cache_best best st"
    using Cons.IH [of "(s1, c1)"] ok by auto
  show ?case
  proof (cases r)
    case None
    then have "?U ?h = (\<lambda>n. None)" using ok by simp
    then show ?thesis using None a ok by (simp add: input_ok_def)
  next
    case (Some coins)
    then have u: "?U ?h = coins_abs coins" using ok by simp
    show ?thesis
    proof (cases "IsAvailable coins ?n")
      case False
      then have "\<not> input_ok ?U True 0 txin" by (auto simp: input_ok_def u IsAvailable_iff split: option.splits)
      then show ?thesis using False Some a ok by simp
    next
      case True
      then obtain x where x: "coins_abs coins ?n = Some x" "\<not> CTxOut_IsZerocoinMint (coin_out x)"
        by (auto simp: IsAvailable_iff)
      then have "input_ok ?U True 0 txin" "coin_height (coin_at ?U txin) = cc_nHeight coins"
        using coins_abs_fields [OF x(1)] by (simp_all add: input_ok_def u coin_at_def)
      then show ?thesis using True Some a ok r by (auto simp: not_less)
    qed
  qed
qed simp

lemma inputs_present_ok:
  assumes "cache_inv invar utxo has st" and "\<not> IsCoinBase tx" and "\<not> HasZerocoinSpendInputs tx"
  shows "\<exists>q st'. inputs_present K base h tx state st = (q, st') \<and>
    cache_inv invar utxo has st' \<and> cache_utxo utxo st' = cache_utxo utxo st \<and> cache_best best st' = cache_best best st \<and>
    (case q of Some r \<Rightarrow> \<not> fst r
     | None \<Rightarrow> list_all (input_ok (cache_utxo utxo st) True 0) (vin tx) \<and>
         (StakingProtocol2Height \<le> h \<longrightarrow> stake_rule K h tx (cache_utxo utxo st)))"
proof (cases "StakingProtocol2Height \<le> h")
  case True
  then show ?thesis
    using stake_inputs_loop_ok [OF assms(1), of K "IsCoinStake tx" h "vin tx"]
    by (auto simp: inputs_present_def stake_rule_def list_all_iff split: prod.split)
next
  case False
  have "list_all (input_ok U k 0) ins \<Longrightarrow> list_all (input_ok U True 0) ins" for U k ins
    by (fastforce simp: list_all_iff input_ok_def split: option.splits)
  then show ?thesis
    using False HaveInputs_ok [OF assms(1), of "vin tx" tx 0] assms(2,3) by (fastforce simp: inputs_present_def split: prod.split)
qed

lemma GetOutputFor_ok:
  assumes "cache_inv invar utxo has st" and "input_ok (cache_utxo utxo st) k H txin"
  shows "\<exists>st'. GetOutputFor base st txin = Some (coin_out (coin_at (cache_utxo utxo st) txin), st') \<and>
    cache_inv invar utxo has st' \<and> cache_utxo utxo st' = cache_utxo utxo st \<and> cache_best best st' = cache_best best st"
proof -
  let ?h = "COutPoint.op_hash (prevout txin)" and ?n = "unat (op_n (prevout txin))"
  obtain q st' where a: "AccessCoins base st ?h = (q, st')" by (metis prod.exhaust)
  note ok = AccessCoins_ok [OF assms(1) a]
  obtain x where x: "cache_utxo utxo st ?h ?n = Some x" "\<not> CTxOut_IsZerocoinMint (coin_out x)"
    using assms(2) by (auto simp: input_ok_def split: option.splits)
  then have "coins_opt q ?n = Some x" using ok by simp
  then obtain coins where c: "q = Some coins" "coins_abs coins ?n = Some x" by (cases q) auto
  then have "GetOutputFor base st txin = Some (coin_out x, st')"
    using a x coins_abs_fields [OF c(2)] by (simp add: GetOutputFor_def IsAvailable_iff)
  then show ?thesis using ok x by (simp add: coin_at_def)
qed

lemma p2sh_sigops_loop_ok:
  assumes "cache_inv invar utxo has st" and "list_all (input_ok (cache_utxo utxo st) k H) ins"
  shows "\<exists>n' st'. p2sh_sigops_loop base ins n st = Some (n', st') \<and>
    cache_inv invar utxo has st' \<and> cache_utxo utxo st' = cache_utxo utxo st \<and> cache_best best st' = cache_best best st"
  using assms
proof (induction ins arbitrary: n st)
  case (Cons txin ins)
  obtain s1 c1 where g: "GetOutputFor base st txin = Some (coin_out (coin_at (cache_utxo utxo st) txin), s1, c1)"
      "cache_inv invar utxo has (s1, c1)" "cache_utxo utxo (s1, c1) = cache_utxo utxo st"
      "cache_best best (s1, c1) = cache_best best st"
    using GetOutputFor_ok [OF Cons.prems(1), of k H txin] Cons.prems(2) by auto
  obtain k' where "GetSigOpCount_P2SH (scriptPubKey (coin_out (coin_at (cache_utxo utxo st) txin))) (scriptSig txin) = Some k'"
    using P2SH_sigops_Some by blast
  then show ?case using g Cons.IH [OF g(2)] Cons.prems(2) by auto
qed simp

lemma GetValueIn_ok:
  assumes "cache_inv invar utxo has st" and "list_all (input_ok (cache_utxo utxo st) k H) (vin tx)"
    and "\<not> IsCoinBase tx" and "\<not> HasZerocoinSpendInputs tx"
  shows "\<exists>st'. GetValueIn base st tx = Some (of_int (inputs_value (cache_utxo utxo st) (vin tx)), st') \<and>
    cache_inv invar utxo has st' \<and> cache_utxo utxo st' = cache_utxo utxo st \<and> cache_best best st' = cache_best best st"
  using value_in_loop_ok [OF assms(1,2), of 0] assms(3,4) sum_nValue [of "cache_utxo utxo st" "vin tx"]
  by (simp add: GetValueIn_def coin_at_def)

lemma add_values_ok:
  assumes "cache_inv invar utxo has st" and "list_all (input_ok (cache_utxo utxo st) k H) (vin tx)"
    and "\<not> IsCoinBase tx" and "\<not> HasZerocoinSpendInputs tx" and "GetValueOut tx = Inr vo" and "sint vo = total_value (vout tx)"
  shows "\<exists>st'. add_values base tx acc st = Some (acc\<lparr>ca_fees := ca_fees acc +
        (if IsCoinStake tx then 0 else of_int (inputs_value (cache_utxo utxo st) (vin tx) - total_value (vout tx))),
      ca_in := ca_in acc + of_int (inputs_value (cache_utxo utxo st) (vin tx))\<rparr>, st') \<and>
    cache_inv invar utxo has st' \<and> cache_utxo utxo st' = cache_utxo utxo st \<and> cache_best best st' = cache_best best st"
proof -
  let ?U = "cache_utxo utxo st"
  have vo: "vo = of_int (total_value (vout tx))" by (simp flip: assms(6))
  obtain s1 c1 where g: "GetValueIn base st tx = Some (of_int (inputs_value ?U (vin tx)), s1, c1)"
      "cache_inv invar utxo has (s1, c1)" "cache_utxo utxo (s1, c1) = ?U" "cache_best best (s1, c1) = cache_best best st"
    using GetValueIn_ok [OF assms(1-4)] by auto
  obtain s2 c2 where h: "GetValueIn base (s1, c1) tx = Some (of_int (inputs_value ?U (vin tx)), s2, c2)"
      "cache_inv invar utxo has (s2, c2)" "cache_utxo utxo (s2, c2) = ?U" "cache_best best (s2, c2) = cache_best best st"
    using GetValueIn_ok [OF g(2), of k H tx] assms(2-4) g by auto
  show ?thesis using g h assms(5) by (simp add: add_values_def vo)
qed

lemma CheckInputs_queue:
  assumes "cache_inv invar utxo has st" and "\<not> IsCoinBase tx" and "\<not> HasZerocoinSpendInputs tx"
    and "bh (cache_best best st) = Some h" and "0 \<le> sint m" and "sint m < 2 ^ 62"
    and "GetValueOut tx = Inr vo" and "sint vo = total_value (vout tx)" and "0 \<le> sint vo"
  shows "\<exists>r state' cs st'. CheckInputs base m maturity bh ecdsa tx state st f flags False (if thr then Some [] else None) H =
      Some (r, state', cs, st') \<and>
    cache_inv invar utxo has st' \<and> cache_utxo utxo st' = cache_utxo utxo st \<and> cache_best best st' = cache_best best st \<and>
    (r \<longrightarrow> state' = state \<and> inputs_valid (cache_utxo utxo st) m maturity (h + 1) H tx \<and>
      (list_all (passes ecdsa) (case cs of None \<Rightarrow> [] | Some cs \<Rightarrow> cs) \<longrightarrow>
       (f \<longrightarrow> (\<forall>i < length (vin tx). script_ok ecdsa (cache_utxo utxo st) tx flags i))))"
proof -
  let ?U = "cache_utxo utxo st"
  obtain r state1 st1 where c: "CheckInputs base m maturity bh ecdsa tx state st False flags False None H = Some (r, state1, None, st1)"
      "cache_inv invar utxo has st1" "cache_utxo utxo st1 = ?U" "cache_best best st1 = cache_best best st"
      "if inputs_valid ?U m maturity (h + 1) H tx then script_result ecdsa ?U tx flags (if False then {..<length (vin tx)} else {}) state r state1
       else rejected state (r, state1)"
    using CheckInputs_ok [OF assms(1-3), where block_height = bh and h = h and m = m and vo = vo and maturity = maturity
        and ecdsa = ecdsa and state = state and fScriptChecks = False and flags = flags and cacheStore = False and H = H,
        OF assms(4-9)] by blast
  have v: "r \<longrightarrow> state1 = state \<and> inputs_valid ?U m maturity (h + 1) H tx"
    using c(5) rejected_False [of state r state1] by (auto simp: script_result_def split: if_splits)
  have sp: "CheckInputs base m maturity bh ecdsa tx state st f flags False pv H =
      (if r \<and> f then script_loop base ecdsa tx flags False [0..<length (vin tx)] pv state1 st1 else Some (r, state1, pv, st1))" for pv
    unfolding CheckInputs_split [OF assms(2,3), where fScriptChecks = f and pv = pv] c(1) by simp
  show ?thesis
  proof (cases "r \<and> f")
    case False
    then have "CheckInputs base m maturity bh ecdsa tx state st f flags False pv H = Some (r, state1, pv, st1)" for pv
      by (simp only: sp if_False)
    then show ?thesis using c(2-4) v False
      by (intro exI [of _ r] exI [of _ state1] exI [of _ "if thr then Some [] else None"] exI [of _ st1]) blast
  next
    case True
    then have there: "\<forall>i \<in> set [0..<length (vin tx)]. input_ok (cache_utxo utxo st1) (IsCoinStake tx) H (vin tx ! i)"
      using v c(3) by (simp add: inputs_valid_def list_all_length)
    have sl: "CheckInputs base m maturity bh ecdsa tx state st f flags False pv H =
        script_loop base ecdsa tx flags False [0..<length (vin tx)] pv state st1" for pv
      unfolding sp using True v by simp
    have iv: "inputs_valid ?U m maturity (h + 1) H tx" using True v by simp
    show ?thesis
    proof (cases thr)
      case q: True
      let ?cs = "map (check_at ?U tx flags False) [0..<length (vin tx)]"
      obtain st' where r: "script_loop base ecdsa tx flags False [0..<length (vin tx)] (Some []) state st1 =
          Some (True, state, Some ([] @ ?cs), st')"
          "cache_inv invar utxo has st'" "cache_utxo utxo st' = ?U" "cache_best best st' = cache_best best st"
        using script_loop_queue [OF c(2) there, of ecdsa flags False "[]" state] c(3,4) by auto
      have "list_all (passes ecdsa) ?cs \<longrightarrow> (\<forall>i < length (vin tx). script_ok ecdsa ?U tx flags i)"
        by (auto simp: list_all_iff passes_check_at)
      then show ?thesis using r(2-4) iv
        by (intro exI [of _ True] exI [of _ state] exI [of _ "Some ?cs"] exI [of _ st']) (simp add: q sl r(1))
    next
      case n: False
      obtain r' state' st' where r: "script_loop base ecdsa tx flags False [0..<length (vin tx)] None state st1 =
          Some (r', state', None, st')" "cache_inv invar utxo has st'" "cache_utxo utxo st' = ?U"
          "cache_best best st' = cache_best best st"
          "script_result ecdsa ?U tx flags {..<length (vin tx)} state r' state'"
        using script_loop_ok [OF c(2) there, of ecdsa flags False state] c(3,4) by (auto simp: atLeast0LessThan)
      have "r' \<longrightarrow> state' = state \<and> (\<forall>i < length (vin tx). script_ok ecdsa ?U tx flags i)"
        using r(5) by (auto simp: script_result_iff split: if_splits)
      then show ?thesis using r(2-4) iv
        by (intro exI [of _ r'] exI [of _ state'] exI [of _ None] exI [of _ st']) (simp add: n sl r(1))
    qed
  qed
qed

text \<open>\<open>spend_ok\<close> once the queued scripts pass.\<close>

lemma connect_spends_ok:
  assumes "cache_inv invar utxo has st" and "\<not> IsCoinBase tx" and "\<not> HasZerocoinSpendInputs tx"
    and "GetValueOut tx = Inr vo" and "sint vo = total_value (vout tx)" and "0 \<le> sint vo"
    and "e_height (c_env K) (cache_best best st) = Some (h - 1)"
    and "0 \<le> sint (e_max_money (c_env K))" and "sint (e_max_money (c_env K)) < 2 ^ 62"
  shows "\<exists>q st'. connect_spends K base f h tx acc state st = Some (q, st') \<and>
    cache_inv invar utxo has st' \<and> cache_utxo utxo st' = cache_utxo utxo st \<and> cache_best best st' = cache_best best st \<and>
    (case q of Inl r \<Rightarrow> \<not> fst r
     | Inr (acc', state') \<Rightarrow> state' = state \<and>
         inputs_valid (cache_utxo utxo st) (e_max_money (c_env K)) (c_maturity K) h 0 tx \<and>
         (\<exists>n cs. acc' = acc\<lparr>ca_sigops := ca_sigops acc + n,
            ca_fees := ca_fees acc + (if IsCoinStake tx then 0
              else of_int (inputs_value (cache_utxo utxo st) (vin tx) - total_value (vout tx))),
            ca_in := ca_in acc + of_int (inputs_value (cache_utxo utxo st) (vin tx)), ca_checks := ca_checks acc @ cs\<rparr> \<and>
          (list_all (passes (c_ecdsa K)) cs \<longrightarrow> spend_ok K f h tx (cache_utxo utxo st))))"
proof -
  let ?U = "cache_utxo utxo st" and ?F = "SCRIPT_VERIFY_P2SH OR SCRIPT_VERIFY_DERSIG :: u32"
  let ?pv = "if c_threads K then Some [] else None" and ?m = "e_max_money (c_env K)"
  obtain q s1 c1 where p: "inputs_present K base h tx state st = (q, s1, c1)" and
      i1: "cache_inv invar utxo has (s1, c1)" "cache_utxo utxo (s1, c1) = ?U" "cache_best best (s1, c1) = cache_best best st" and
      pr: "case q of Some r \<Rightarrow> \<not> fst r | None \<Rightarrow> list_all (input_ok ?U True 0) (vin tx) \<and>
         (StakingProtocol2Height \<le> h \<longrightarrow> stake_rule K h tx ?U)"
    using inputs_present_ok [OF assms(1-3), of K h state] by auto
  show ?thesis
  proof (cases q)
    case (Some r)
    then show ?thesis using p i1 pr by (simp add: connect_spends_def)
  next
    case None
    then have pres: "list_all (input_ok ?U True 0) (vin tx)" "StakingProtocol2Height \<le> h \<longrightarrow> stake_rule K h tx ?U"
      using pr by simp_all
    obtain n s2 c2 where g: "GetP2SHSigOpCount base tx (s1, c1) = Some (n, s2, c2)" and
        i2: "cache_inv invar utxo has (s2, c2)" "cache_utxo utxo (s2, c2) = ?U" "cache_best best (s2, c2) = cache_best best st"
      using p2sh_sigops_loop_ok [OF i1(1), of True 0 "vin tx" 0] pres(1) i1 assms(2,3) by (auto simp: GetP2SHSigOpCount_def)
    show ?thesis
    proof (cases "ca_sigops acc + n > MAX_BLOCK_SIGOPS_CURRENT")
      case True
      then show ?thesis using p None g i2 by (simp add: connect_spends_def too_many_sigops_def Let_def)
    next
      case sig: False
      let ?acc = "acc\<lparr>ca_sigops := ca_sigops acc + n\<rparr>"
      define acc' where "acc' = ?acc\<lparr>ca_fees := ca_fees acc + (if IsCoinStake tx then 0
          else of_int (inputs_value ?U (vin tx) - total_value (vout tx))), ca_in := ca_in acc + of_int (inputs_value ?U (vin tx))\<rparr>"
      obtain s3 c3 where a: "add_values base tx ?acc (s2, c2) = Some (acc', s3, c3)" and
          i3: "cache_inv invar utxo has (s3, c3)" "cache_utxo utxo (s3, c3) = ?U" "cache_best best (s3, c3) = cache_best best st"
        using add_values_ok [OF i2(1), of True 0 tx vo ?acc] pres(1) i2 assms(2-5) unfolding acc'_def by auto
      have ck: "ca_checks acc' = ca_checks acc" by (simp add: acc'_def)
      have e: "connect_spends K base f h tx acc state st =
        (case CheckInputs base ?m (c_maturity K) (e_height (c_env K)) (c_ecdsa K) tx state (s3, c3) f ?F False ?pv 0 of
             None \<Rightarrow> None
           | Some (r, state, vChecks, st) \<Rightarrow>
               Some (if \<not> r then Inl (False, state)
                 else Inr (acc'\<lparr>ca_checks := ca_checks acc' @ (case vChecks of None \<Rightarrow> [] | Some cs \<Rightarrow> cs)\<rparr>, state), st))"
        using p None g sig a by (simp add: connect_spends_def Let_def)
      obtain r state' cs st' where c: "CheckInputs base ?m (c_maturity K) (e_height (c_env K)) (c_ecdsa K) tx state (s3, c3)
            f ?F False ?pv 0 = Some (r, state', cs, st')"
          "cache_inv invar utxo has st'" "cache_utxo utxo st' = ?U" "cache_best best st' = cache_best best st"
          "r \<longrightarrow> state' = state \<and> inputs_valid ?U ?m (c_maturity K) h 0 tx \<and>
             (list_all (passes (c_ecdsa K)) (case cs of None \<Rightarrow> [] | Some cs \<Rightarrow> cs) \<longrightarrow> (f \<longrightarrow> (\<forall>i < length (vin tx). script_ok (c_ecdsa K) ?U tx ?F i)))"
        using CheckInputs_queue [OF i3(1) assms(2,3), where bh = "e_height (c_env K)" and h = "h - 1" and m = ?m and vo = vo
            and maturity = "c_maturity K" and ecdsa = "c_ecdsa K" and state = state and f = f and flags = ?F and H = 0
            and thr = "c_threads K"] i3 assms(4-9) by auto
      show ?thesis
      proof (cases r)
        case False
        then show ?thesis using c(1-4) unfolding e c(1) by simp
      next
        case True
        let ?cs = "case cs of None \<Rightarrow> [] | Some cs \<Rightarrow> cs"
        have "list_all (passes (c_ecdsa K)) ?cs \<longrightarrow> spend_ok K f h tx ?U"
          using c(5) pres(2) True by (simp add: spend_ok_def)
        moreover have "connect_spends K base f h tx acc state st = Some (Inr (acc'\<lparr>ca_checks := ca_checks acc @ ?cs\<rparr>, state), st')"
          using True c(5) unfolding e c(1) by (simp add: ck)
        moreover have "acc'\<lparr>ca_checks := ca_checks acc @ ?cs\<rparr> = acc\<lparr>ca_sigops := ca_sigops acc + n,
            ca_fees := ca_fees acc + (if IsCoinStake tx then 0 else of_int (inputs_value ?U (vin tx) - total_value (vout tx))),
            ca_in := ca_in acc + of_int (inputs_value ?U (vin tx)), ca_checks := ca_checks acc @ ?cs\<rparr>"
          by (simp add: acc'_def)
        ultimately show ?thesis using c(2-5) True
          by (intro exI [of _ "Inr (acc'\<lparr>ca_checks := ca_checks acc @ ?cs\<rparr>, state)"] exI [of _ st']) auto
      qed
    qed
  qed
qed

lemma connect_tx_ok:
  assumes "cache_inv invar utxo has st" and "\<not> ContainsZerocoins tx" and "tx_valid (e_max_money (c_env K)) act tx"
    and "e_height (c_env K) (cache_best best st) = Some (h - 1)"
    and "0 \<le> sint (e_max_money (c_env K))" and "sint (e_max_money (c_env K)) < 2 ^ 62"
  shows "\<exists>q st'. connect_tx K base f nTime h i tx acc state st = Some (q, st') \<and>
    cache_inv invar utxo has st' \<and> cache_best best st' = cache_best best st \<and>
    (case q of Inl r \<Rightarrow> \<not> fst r
     | Inr (acc', state') \<Rightarrow> state' = state \<and> tx_step K f h tx (cache_utxo utxo st) acc acc' \<and>
         cache_utxo utxo st' = tx_apply h tx (cache_utxo utxo st) \<and> all_there (cache_utxo utxo st) (tx_spends tx) \<and>
         ca_undo acc' = ca_undo acc @ (if i > 0 then [undos_for (cache_utxo utxo st) (tx_spends tx)] else []))"
proof -
  let ?U = "cache_utxo utxo st"
  obtain vo where vo: "GetValueOut tx = Inr vo" "sint vo = total_value (vout tx)" "0 \<le> sint vo"
    using tx_valid_value [OF assms(3,6)] by blast
  have vo': "vo = of_int (total_value (vout tx))" by (simp flip: vo(2))
  have zs: "\<not> HasZerocoinSpendInputs tx" using assms(2) by (simp add: ContainsZerocoins_def)
  obtain n0 where n0: "GetLegacySigOpCount tx = Some n0" using GetLegacySigOpCount_val by blast
  let ?acc = "acc\<lparr>ca_sigops := ca_sigops acc + n0\<rparr>"
  let ?mid = "if \<not> IsCoinBase tx then connect_spends K base f h tx ?acc state st else Some (Inr (?acc, state), st)"
  obtain q s1 c1 where m: "?mid = Some (q, s1, c1)" and
      i1: "cache_inv invar utxo has (s1, c1)" "cache_utxo utxo (s1, c1) = ?U" "cache_best best (s1, c1) = cache_best best st" and
      mq: "case q of Inl r \<Rightarrow> \<not> fst r
       | Inr (acc', state') \<Rightarrow> state' = state \<and>
          (\<not> IsCoinBase tx \<longrightarrow> inputs_valid ?U (e_max_money (c_env K)) (c_maturity K) h 0 tx) \<and>
          ca_fees acc' = ca_fees acc + of_int (tx_fee tx ?U) \<and> ca_in acc' = ca_in acc + of_int (tx_in tx ?U) \<and>
          ca_out acc' = ca_out acc \<and> ca_undo acc' = ca_undo acc \<and> (\<exists>cs. ca_checks acc' = ca_checks acc @ cs \<and>
            (list_all (passes (c_ecdsa K)) cs \<longrightarrow> IsCoinBase tx \<or> spend_ok K f h tx ?U))"
  proof (cases "IsCoinBase tx")
    case True
    then show ?thesis using that [of "Inr (?acc, state)"] assms(1) by (cases st) (auto simp: tx_fee_def tx_in_def)
  next
    case False
    obtain q st' where c: "connect_spends K base f h tx ?acc state st = Some (q, st')"
        "cache_inv invar utxo has st'" "cache_utxo utxo st' = ?U" "cache_best best st' = cache_best best st"
        "case q of Inl r \<Rightarrow> \<not> fst r
         | Inr (acc', state') \<Rightarrow> state' = state \<and> inputs_valid ?U (e_max_money (c_env K)) (c_maturity K) h 0 tx \<and>
             (\<exists>n cs. acc' = ?acc\<lparr>ca_sigops := ca_sigops ?acc + n,
                ca_fees := ca_fees ?acc + (if IsCoinStake tx then 0 else of_int (inputs_value ?U (vin tx) - total_value (vout tx))),
                ca_in := ca_in ?acc + of_int (inputs_value ?U (vin tx)), ca_checks := ca_checks ?acc @ cs\<rparr> \<and>
              (list_all (passes (c_ecdsa K)) cs \<longrightarrow> spend_ok K f h tx ?U))"
      using connect_spends_ok [OF assms(1) False zs vo assms(4-6), of f ?acc state] by blast
    have "case q of Inl r \<Rightarrow> \<not> fst r
       | Inr (acc', state') \<Rightarrow> state' = state \<and>
          (\<not> IsCoinBase tx \<longrightarrow> inputs_valid ?U (e_max_money (c_env K)) (c_maturity K) h 0 tx) \<and>
          ca_fees acc' = ca_fees acc + of_int (tx_fee tx ?U) \<and> ca_in acc' = ca_in acc + of_int (tx_in tx ?U) \<and>
          ca_out acc' = ca_out acc \<and> ca_undo acc' = ca_undo acc \<and> (\<exists>cs. ca_checks acc' = ca_checks acc @ cs \<and>
            (list_all (passes (c_ecdsa K)) cs \<longrightarrow> IsCoinBase tx \<or> spend_ok K f h tx ?U))"
      using c(5) False by (auto simp: tx_fee_def tx_in_def split: sum.splits)
    then show ?thesis using that c(1-4) False by (cases st') auto
  qed
  have big: "connect_tx K base f nTime h i tx acc state st =
      (if ca_sigops ?acc > MAX_BLOCK_SIGOPS_CURRENT then Some (Inl (too_many_sigops state), st)
       else case q of Inl r \<Rightarrow> Some (Inl r, s1, c1)
       | Inr (acc, state) \<Rightarrow>
           (case UpdateCoins base tx (s1, c1) [] (of_int h) of
              None \<Rightarrow> None
            | Some (undo, st) \<Rightarrow> Some (Inr (acc\<lparr>ca_out := ca_out acc + vo,
                ca_undo := ca_undo acc @ (if i > 0 then [undo] else [])\<rparr>, state), st)))"
    using m assms(2) zs vo(1) n0
    by (simp add: connect_tx_def Let_def split: if_splits) (auto split: sum.split option.split)
  show ?thesis
  proof (cases "ca_sigops ?acc > MAX_BLOCK_SIGOPS_CURRENT")
    case True
    then show ?thesis using assms(1) unfolding big by (cases st) (simp add: too_many_sigops_def)
  next
    case few: False
    show ?thesis
    proof (cases q)
      case (Inl r)
      then show ?thesis using few i1 mq unfolding big by simp
    next
      case (Inr p)
      then obtain acc1 cs where p: "p = (acc1, state)" and
          acc1: "ca_fees acc1 = ca_fees acc + of_int (tx_fee tx ?U)" "ca_in acc1 = ca_in acc + of_int (tx_in tx ?U)"
            "ca_out acc1 = ca_out acc" "ca_undo acc1 = ca_undo acc" "ca_checks acc1 = ca_checks acc @ cs" and
          sp: "list_all (passes (c_ecdsa K)) cs \<longrightarrow> IsCoinBase tx \<or> spend_ok K f h tx ?U" and
          iv: "\<not> IsCoinBase tx \<longrightarrow> inputs_valid ?U (e_max_money (c_env K)) (c_maturity K) h 0 tx"
        using mq by (cases p) auto
      let ?ins = "if IsCoinBase tx \<or> HasZerocoinSpendInputs tx then [] else vin tx"
      have "distinct (map prevout (vin tx))" using assms(3) by (simp add: tx_valid_def)
      then have "distinct (map outpoint (vin tx))" by (rule distinct_outpoints)
      then have there: "all_there ?U (map outpoint ?ins)"
        using iv zs input_ok_all_there [of ?U "IsCoinStake tx" 0 "vin tx"] by (simp add: inputs_valid_def)
      have ps: "map outpoint ?ins = tx_spends tx" using zs by (simp add: tx_spends_def)
      obtain undo st' where u: "UpdateCoins base tx (s1, c1) [] (of_int h) = Some (undo, st')"
          "cache_inv invar utxo has st'" "cache_best best st' = cache_best best st" "cache_utxo utxo st' = tx_apply h tx ?U"
          "undo = undos_for ?U (tx_spends tx)"
        using UpdateCoins_ok [OF i1(1), of tx "of_int h"] i1(2,3) zs there by (auto simp: Let_def tx_apply_def tx_spends_def)
      have "tx_step K f h tx ?U acc (acc1\<lparr>ca_out := ca_out acc1 + vo, ca_undo := ca_undo acc1 @ (if i > 0 then [undo] else [])\<rparr>)"
        using sp iv by (auto simp: tx_step_def acc1 vo')
      then show ?thesis using few u there ps unfolding big by (cases "0 < i") (simp_all add: Inr p acc1 tx_step_def)
    qed
  qed
qed

lemma no_overwrite_ok:
  assumes "cache_inv invar utxo has st"
  shows "\<exists>r st'. no_overwrite base txs st = (r, st') \<and> cache_inv invar utxo has st' \<and>
    cache_utxo utxo st' = cache_utxo utxo st \<and> cache_best best st' = cache_best best st \<and>
    (r \<longrightarrow> (\<forall>tx \<in> set txs. cache_utxo utxo st (tx_hash tx) = (\<lambda>n. None)))"
  using assms
proof (induction txs arbitrary: st)
  case (Cons tx txs)
  obtain coins s1 c1 where a: "AccessCoins base st (tx_hash tx) = (coins, s1, c1)" by (metis prod.exhaust)
  note ok = AccessCoins_ok [OF Cons.prems a]
  have "cache_utxo utxo st (tx_hash tx) = (\<lambda>n. None)" if "\<not> (case coins of None \<Rightarrow> False | Some c \<Rightarrow> \<not> IsPruned c)"
    using ok that by (cases coins) (auto simp: IsPruned_iff)
  then show ?case using Cons.IH [of "(s1, c1)"] ok by (auto simp: a)
qed auto

lemma connect_txs_ok:
  assumes "cache_inv invar utxo has st" and "\<forall>tx \<in> set txs. \<not> ContainsZerocoins tx \<and> tx_valid (e_max_money (c_env K)) act tx"
    and "e_height (c_env K) (cache_best best st) = Some (h - 1)"
    and "0 \<le> sint (e_max_money (c_env K))" and "sint (e_max_money (c_env K)) < 2 ^ 62"
  shows "\<exists>q st'. connect_txs K base f nTime h i txs acc state st = Some (q, st') \<and>
    cache_inv invar utxo has st' \<and> cache_best best st' = cache_best best st \<and>
    (case q of Inl r \<Rightarrow> \<not> fst r
     | Inr (acc', state') \<Rightarrow> state' = state \<and> txs_steps K f h txs (cache_utxo utxo st) acc acc' \<and>
         cache_utxo utxo st' = fold (tx_apply h) txs (cache_utxo utxo st) \<and> txs_there h txs (cache_utxo utxo st) \<and>
         ca_undo acc' = ca_undo acc @ txs_undo h i txs (cache_utxo utxo st))"
  using assms(1-3)
proof (induction txs arbitrary: i acc st)
  case Nil
  then show ?case by (cases st) (simp add: txs_steps_def txs_out_def)
next
  case (Cons tx txs)
  obtain q s1 c1 where t: "connect_tx K base f nTime h i tx acc state st = Some (q, s1, c1)"
      "cache_inv invar utxo has (s1, c1)" "cache_best best (s1, c1) = cache_best best st"
      "case q of Inl r \<Rightarrow> \<not> fst r
       | Inr (acc', state') \<Rightarrow> state' = state \<and> tx_step K f h tx (cache_utxo utxo st) acc acc' \<and>
           cache_utxo utxo (s1, c1) = tx_apply h tx (cache_utxo utxo st) \<and> all_there (cache_utxo utxo st) (tx_spends tx) \<and>
           ca_undo acc' = ca_undo acc @ (if i > 0 then [undos_for (cache_utxo utxo st) (tx_spends tx)] else [])"
    using connect_tx_ok [OF Cons.prems(1), of tx K act h f nTime i acc state] Cons.prems(2,3) assms(4,5) by auto
  show ?case
  proof (cases q)
    case (Inl r)
    then show ?thesis using t by simp
  next
    case (Inr p)
    then obtain acc1 where p: "p = (acc1, state)" "tx_step K f h tx (cache_utxo utxo st) acc acc1"
        "cache_utxo utxo (s1, c1) = tx_apply h tx (cache_utxo utxo st)" "all_there (cache_utxo utxo st) (tx_spends tx)"
        "ca_undo acc1 = ca_undo acc @ (if i > 0 then [undos_for (cache_utxo utxo st) (tx_spends tx)] else [])"
      using t(4) by (cases p) auto
    have e: "e_height (c_env K) (cache_best best (s1, c1)) = Some (h - 1)" using t(3) Cons.prems(3) by simp
    have v: "\<forall>tx \<in> set txs. \<not> ContainsZerocoins tx \<and> tx_valid (e_max_money (c_env K)) act tx" using Cons.prems(2) by simp
    obtain q' s2 c2 where r: "connect_txs K base f nTime h (i + 1) txs acc1 state (s1, c1) = Some (q', s2, c2)"
        "cache_inv invar utxo has (s2, c2)" "cache_best best (s2, c2) = cache_best best (s1, c1)"
        "case q' of Inl r \<Rightarrow> \<not> fst r
         | Inr (acc', state') \<Rightarrow> state' = state \<and> txs_steps K f h txs (tx_apply h tx (cache_utxo utxo st)) acc1 acc' \<and>
             cache_utxo utxo (s2, c2) = fold (tx_apply h) txs (tx_apply h tx (cache_utxo utxo st)) \<and>
             txs_there h txs (tx_apply h tx (cache_utxo utxo st)) \<and>
             ca_undo acc' = ca_undo acc1 @ txs_undo h (i + 1) txs (tx_apply h tx (cache_utxo utxo st))"
      using Cons.IH [OF t(2) v e, of "i + 1" acc1, unfolded p(3)] by auto
    have "connect_txs K base f nTime h i (tx # txs) acc state st = Some (q', s2, c2)" using t(1) r(1) Inr p(1) by simp
    moreover have "case q' of Inl r \<Rightarrow> \<not> fst r
         | Inr (acc', state') \<Rightarrow> state' = state \<and> txs_steps K f h (tx # txs) (cache_utxo utxo st) acc acc' \<and>
             cache_utxo utxo (s2, c2) = fold (tx_apply h) (tx # txs) (cache_utxo utxo st) \<and> txs_there h (tx # txs) (cache_utxo utxo st) \<and>
            ca_undo acc' = ca_undo acc @ txs_undo h i (tx # txs) (cache_utxo utxo st)"
      using r(4) p(4,5) txs_steps_Cons [OF p(2)] by (cases q') auto
    ultimately show ?thesis using r(2,3) t(3) by auto
  qed
qed

end

end
