(* ===== verification/Supply.thy ===== *)
theory Supply
  imports ConnectBlock
begin

text \<open>
  What a block does to the money there is: the value of the unspent outputs, without regard to
  how the views store them, before and after the transactions of \<open>ConnectBlock\<close>.
\<close>

section \<open>The value of the unspent outputs\<close>

definition coin_places :: "coins_fun \<Rightarrow> (uint256 \<times> nat) set" where
  "coin_places U = {(h, n). U h n \<noteq> None}"

definition value_at :: "coins_fun \<Rightarrow> uint256 \<times> nat \<Rightarrow> int" where
  "value_at U p = sint (nValue (coin_out (the (U (fst p) (snd p)))))"

definition supply_of :: "coins_fun \<Rightarrow> int" where
  "supply_of U = (\<Sum>p \<in> coin_places U. value_at U p)"

text \<open>There are finitely many, and each has a value in the range of money.\<close>

definition coins_ok :: "CAmount \<Rightarrow> coins_fun \<Rightarrow> bool" where
  "coins_ok m U \<longleftrightarrow> finite (coin_places U) \<and> (\<forall>p \<in> coin_places U. 0 \<le> value_at U p \<and> value_at U p \<le> sint m)"

lemma input_value_at: "sint (input_value U txin) = value_at U (outpoint txin)"
  by (simp add: input_value_def coin_at_def value_at_def)

section \<open>Spending and creating\<close>

lemma spent_supply:
  assumes "coins_ok m U" and "distinct ps" and "set ps \<subseteq> coin_places U" and "V = fold (\<lambda>p U. remove_coin U p) ps U"
  shows "coin_places V = coin_places U - set ps" and "\<And>p. p \<in> coin_places V \<Longrightarrow> value_at V p = value_at U p"
    and "supply_of V = supply_of U - (\<Sum>p \<leftarrow> ps. value_at U p)" and "coins_ok m V"
proof -
  show p: "coin_places V = coin_places U - set ps" by (auto simp: coin_places_def assms(4) fold_remove_coin)
  show v: "value_at V p = value_at U p" if "p \<in> coin_places V" for p
    using that unfolding p by (auto simp: value_at_def assms(4) fold_remove_coin)
  have "finite (coin_places U)" using assms(1) by (simp add: coins_ok_def)
  then have "supply_of V = supply_of U - sum (value_at U) (set ps)"
    unfolding supply_of_def p using v assms(3) by (simp add: p sum_diff)
  then show "supply_of V = supply_of U - (\<Sum>p \<leftarrow> ps. value_at U p)"
    using assms(2) by (simp add: sum_list_distinct_conv_sum_set)
  show "coins_ok m V" using assms(1) v by (auto simp: coins_ok_def p)
qed

lemma coins_abs_FromTx:
  "coins_abs (CCoins_FromTx tx h) n = Some x \<Longrightarrow> n < length (vout tx) \<and> nValue (coin_out x) = nValue (vout tx ! n)"
  by (auto simp: CCoins_FromTx_def ClearUnspendable_def coins_abs_def split: if_splits)

lemma created_supply:
  assumes "coins_ok m U" and "\<forall>txout \<in> set (vout tx). 0 \<le> sint (nValue txout) \<and> sint (nValue txout) \<le> sint m"
    and "V = U(tx_hash tx := coins_abs (CCoins_FromTx tx h))"
  shows "supply_of V \<le> supply_of U + total_value (vout tx)" and "coins_ok m V"
proof -
  let ?f = "coins_abs (CCoins_FromTx tx h)" and ?t = "tx_hash tx"
  let ?old = "{p \<in> coin_places U. fst p \<noteq> ?t}" and ?new = "Pair ?t ` {n. ?f n \<noteq> None}"
  have pl: "coin_places V = ?old \<union> ?new" "?old \<inter> ?new = {}"
    by (auto simp: coin_places_def assms(3) image_iff split: if_splits)
  have f: "n < length (vout tx) \<and> value_at V (?t, n) = sint (nValue (vout tx ! n))" if "?f n \<noteq> None" for n
    using that coins_abs_FromTx [of tx h n] by (auto simp: value_at_def assms(3))
  have fin: "finite {n. ?f n \<noteq> None}" by (rule finite_subset [of _ "{..<length (vout tx)}"]) (use f in auto)
  have finU: "finite (coin_places U)" and posU: "\<And>p. p \<in> coin_places U \<Longrightarrow> 0 \<le> value_at U p \<and> value_at U p \<le> sint m"
    using assms(1) by (auto simp: coins_ok_def)
  have old: "value_at V p = value_at U p" if "p \<in> ?old" for p using that by (simp add: value_at_def assms(3))
  have "supply_of V = sum (value_at V) ?old + sum (value_at V) ?new"
    unfolding supply_of_def pl(1) by (rule sum.union_disjoint) (use finU fin pl(2) in auto)
  moreover have "sum (value_at V) ?old = sum (value_at U) ?old" by (rule sum.cong) (use old in auto)
  moreover have "sum (value_at U) ?old \<le> supply_of U"
    unfolding supply_of_def by (rule sum_mono2) (use finU posU in auto)
  moreover have "sum (value_at V) ?new = (\<Sum>n \<in> {n. ?f n \<noteq> None}. value_at V (?t, n))"
    by (subst sum.reindex) (auto intro: inj_onI)
  moreover have "\<dots> = (\<Sum>n \<in> {n. ?f n \<noteq> None}. sint (nValue (vout tx ! n)))" by (rule sum.cong) (use f in auto)
  moreover have "\<dots> \<le> (\<Sum>n \<in> {..<length (vout tx)}. sint (nValue (vout tx ! n)))"
    by (rule sum_mono2) (use f assms(2) in auto)
  moreover have "\<dots> = total_value (vout tx)"
    by (simp add: total_value_def sum_list_sum_nth atLeast0LessThan)
  ultimately show "supply_of V \<le> supply_of U + total_value (vout tx)" by linarith
  show "coins_ok m V"
    unfolding coins_ok_def pl(1)
  proof (intro conjI ballI)
    show "finite (?old \<union> ?new)" using finU fin by simp
    fix p assume p: "p \<in> ?old \<union> ?new"
    have "0 \<le> value_at V p \<and> value_at V p \<le> sint m"
    proof (cases "p \<in> ?old")
      case True
      then show ?thesis using old [OF True] posU [of p] by simp
    next
      case False
      then obtain n where "p = (?t, n)" "?f n \<noteq> None" using p by auto
      then show ?thesis using f [of n] assms(2) by simp
    qed
    then show "0 \<le> value_at V p" "value_at V p \<le> sint m" by simp_all
  qed
qed

text \<open>One transaction.\<close>

lemma apply_supply:
  assumes "coins_ok m U" and "tx_valid m act tx"
    and "\<not> IsCoinBase tx \<longrightarrow> inputs_valid U m maturity h 0 tx"
  shows "supply_of (tx_apply h tx U) \<le> supply_of U + total_value (vout tx) - tx_in tx U" and "coins_ok m (tx_apply h tx U)"
proof -
  let ?ps = "if IsCoinBase tx then [] else map outpoint (vin tx)"
  let ?V = "fold (\<lambda>p U. remove_coin U p) ?ps U"
  have d: "distinct ?ps" using assms(2) distinct_outpoints [of "vin tx"] by (simp add: tx_valid_def)
  have "set ?ps \<subseteq> coin_places U"
    using assms(3) by (auto simp: inputs_valid_def list_all_iff input_ok_def coin_places_def split: option.splits)
  note V = spent_supply [OF assms(1) d this refl]
  have s: "(\<Sum>p \<leftarrow> ?ps. value_at U p) = tx_in tx U"
    by (simp add: tx_in_def inputs_value_def input_value_at o_def)
  have "\<forall>txout \<in> set (vout tx). 0 \<le> sint (nValue txout) \<and> sint (nValue txout) \<le> sint m"
    using assms(2) by (simp add: tx_valid_def MoneyRange_iff)
  note W = created_supply [OF V(4) this, of "tx_apply h tx U" "of_int h"]
  show "supply_of (tx_apply h tx U) \<le> supply_of U + total_value (vout tx) - tx_in tx U" "coins_ok m (tx_apply h tx U)"
    using W V(3) s by (simp_all add: tx_apply_def)
qed

text \<open>The transactions of a block.\<close>

lemma txs_supply:
  assumes "coins_ok (e_max_money (c_env K)) U" and "\<forall>tx \<in> set txs. tx_valid (e_max_money (c_env K)) act tx"
    and "txs_inputs K h txs U"
  shows "supply_of (fold (tx_apply h) txs U) \<le> supply_of U + txs_out txs - txs_in h txs U \<and>
    coins_ok (e_max_money (c_env K)) (fold (tx_apply h) txs U)"
  using assms
proof (induction txs arbitrary: U)
  case Nil
  then show ?case by (simp add: txs_out_def)
next
  case (Cons tx txs)
  have v: "tx_valid (e_max_money (c_env K)) act tx" using Cons.prems(2) by simp
  have i: "\<not> IsCoinBase tx \<longrightarrow> inputs_valid U (e_max_money (c_env K)) (c_maturity K) h 0 tx" using Cons.prems(3) by simp
  note a = apply_supply [OF Cons.prems(1) v i]
  show ?case using Cons.IH [OF a(2)] Cons.prems(2,3) a(1) by (simp add: txs_out_def)
qed

lemma supply_nonneg: "coins_ok m U \<Longrightarrow> 0 \<le> supply_of U"
  unfolding supply_of_def coins_ok_def by (intro sum_nonneg) auto

text \<open>Only a coinbase or a coinstake makes money, at most what money there can be.\<close>

lemma txs_minted:
  assumes "\<forall>tx \<in> set txs. tx_valid (e_max_money (c_env K)) act tx" and "txs_inputs K h txs U"
    and "0 \<le> sint (e_max_money (c_env K))"
  shows "0 \<le> txs_fee h txs U \<and>
    txs_out txs - txs_in h txs U + txs_fee h txs U \<le>
      int (length (filter (\<lambda>tx. IsCoinBase tx \<or> IsCoinStake tx) txs)) * sint (e_max_money (c_env K))"
  using assms(1,2)
proof (induction txs arbitrary: U)
  case Nil
  then show ?case by (simp add: txs_out_def)
next
  case (Cons tx txs)
  let ?m = "sint (e_max_money (c_env K))"
  have v: "total_value (vout tx) \<le> ?m" using Cons.prems(1) by (simp add: tx_valid_def)
  have i: "\<not> IsCoinBase tx \<longrightarrow> inputs_valid U (e_max_money (c_env K)) (c_maturity K) h 0 tx" using Cons.prems(2) by simp
  have "0 \<le> tx_in tx U"
    using i unfolding tx_in_def inputs_value_def by (auto simp: inputs_valid_def MoneyRange_iff intro!: sum_list_nonneg)
  then have t: "0 \<le> tx_fee tx U" "total_value (vout tx) - tx_in tx U + tx_fee tx U \<le>
      (if IsCoinBase tx \<or> IsCoinStake tx then ?m else 0)"
    using i v by (auto simp: tx_fee_def tx_in_def inputs_valid_def)
  show ?case using Cons.IH [of "tx_apply h tx U"] Cons.prems t
    by (cases "IsCoinBase tx \<or> IsCoinStake tx") (auto simp: txs_out_def algebra_simps)
qed

section \<open>The reward is checked\<close>

lemma GetBlockValue_bounds:
  assumes "GetBlockValue last_pow m s h = Some v"
  shows "0 \<le> v \<and> v \<le> 2 ^ 41"
proof (cases "0 < h \<and> 101 < h \<and> last_pow < h")
  case True
  then obtain t where "s = Some t" using assms by (cases s) (auto simp: GetBlockValue_def Let_def)
  then show ?thesis using assms True stake_subsidy_bounds [of h] by (auto simp: GetBlockValue_stake CENT_def split: if_splits)
next
  case False
  then show ?thesis using assms by (auto simp: GetBlockValue_def COIN_def Let_def split: if_splits)
qed

lemma sint_of_int: "- (2 ^ 62) \<le> i \<Longrightarrow> i < 2 ^ 63 \<Longrightarrow> sint (of_int i :: u64) = i"
  by (simp add: sint_sbintrunc' signed_take_bit_int_eq_self)

text \<open>The sums wrap around when a block moves much money many times; what is compared at the end
  is right nevertheless.\<close>

lemma connect_finish_ok:
  assumes "connect_finish K b pindex False acc' state st = Some ((r, state'), money, undo, st')"
    and "acc = connect_sums_new" and "txs_steps K f h (vtx b) U acc acc'" and "h = ci_height pindex"
    and "coins_ok (e_max_money (c_env K)) U" and "\<forall>tx \<in> set (vtx b). tx_valid (e_max_money (c_env K)) act tx"
    and "length (filter (\<lambda>tx. IsCoinBase tx \<or> IsCoinStake tx) (vtx b)) \<le> 2"
    and "0 \<le> sint (e_max_money (c_env K))" and "sint (e_max_money (c_env K)) \<le> 2 ^ 60" and "supply_of U \<le> 2 ^ 61" and r
  shows "st' = SetBestBlock st (ci_hash pindex) \<and> state' = state \<and> undo = ca_undo acc' \<and> txs_connect K f h (vtx b) U \<and>
    (\<exists>v. GetBlockValue (LAST_POW_BLOCK (e_params (c_env K))) (sint (e_max_money (c_env K))) (c_money_supply K (h - 1)) h = Some v \<and>
      txs_out (vtx b) - txs_in h (vtx b) U \<le> v + (if IsProofOfWork b then txs_fee h (vtx b) U else 0)) \<and>
    (\<exists>s n. money = Some (s, n) \<and> sint n = txs_out (vtx b) - txs_in h (vtx b) U \<and>
      s = (case ci_prev pindex of None \<Rightarrow> 0 | Some (_, m) \<Rightarrow> m) + n)"
proof -
  let ?m = "sint (e_max_money (c_env K))"
  let ?D = "txs_out (vtx b) - txs_in h (vtx b) U" and ?F = "txs_fee h (vtx b) U"
  let ?prev = "case ci_prev pindex of None \<Rightarrow> 0 | Some (_, m) \<Rightarrow> m"
  have st: "ca_in acc' = of_int (txs_in h (vtx b) U)" "ca_out acc' = of_int (txs_out (vtx b))" "ca_fees acc' = of_int ?F"
      "txs_inputs K h (vtx b) U" and
      ch: "list_all (passes (c_ecdsa K)) (ca_checks acc') \<longrightarrow> txs_connect K f h (vtx b) U"
    using assms(2,3) by (auto simp: txs_steps_def connect_sums_new_def)
  note s = txs_supply [OF assms(5,6) st(4)] and m = txs_minted [OF assms(6) st(4) assms(8)]
  have "int (length (filter (\<lambda>tx. IsCoinBase tx \<or> IsCoinStake tx) (vtx b))) * ?m \<le> 2 * ?m"
    by (rule mult_right_mono) (use assms(7,8) in simp_all)
  then have up: "?D + ?F \<le> 2 * ?m" "0 \<le> ?F" using m by linarith+
  have "0 \<le> supply_of (fold (tx_apply h) (vtx b) U)" using s supply_nonneg by blast
  then have lo: "- (2 ^ 61) \<le> ?D" using s assms(10) by linarith
  have D: "?prev + ca_out acc' - ca_in acc' - ?prev = of_int ?D" using st by simp
  have sD: "sint (of_int ?D :: u64) = ?D" by (rule sint_of_int) (use lo up assms(9) in simp_all)
  obtain v where v: "GetBlockValue (LAST_POW_BLOCK (e_params (c_env K))) ?m (c_money_supply K (h - 1)) h = Some v"
    using assms(1,4,11) by (auto simp: connect_finish_def Let_def split: if_splits option.splits)
  have vb: "0 \<le> v" "v \<le> 2 ^ 41" using GetBlockValue_bounds [OF v] by simp_all
  let ?E = "v + (if IsProofOfWork b then ?F else 0)"
  have e: "of_int v + (if IsProofOfWork b then ca_fees acc' else 0) = (of_int ?E :: u64)" using st(3) by simp
  have sE: "sint (of_int ?E :: u64) = ?E"
    by (rule sint_of_int) (use lo up vb assms(9) in \<open>auto split: if_splits\<close>)
  have le: "\<not> of_int ?E <s (of_int ?D :: u64)" "control_wait (c_ecdsa K) (ca_checks acc') = Some True"
      "st' = SetBestBlock st (ci_hash pindex)" "state' = state" "undo = ca_undo acc'" "money = Some (?prev + of_int ?D, of_int ?D)"
    using assms(1,4,11) v e D
    by (auto simp: connect_finish_def Let_def DoS_def split: if_splits option.splits bool.splits simp del: of_int_diff of_int_add)
  have "?D \<le> ?E" using le(1) sD sE by (simp add: word_sless_alt)
  then show ?thesis using le ch v sD control_wait_ok [of "c_ecdsa K" "ca_checks acc'"] by auto
qed

section \<open>The whole function\<close>

lemma length_filter_at: "(\<And>i. i < length xs \<Longrightarrow> P (xs ! i) \<Longrightarrow> i = k) \<Longrightarrow> length (filter P xs) \<le> 1"
proof -
  assume a: "\<And>i. i < length xs \<Longrightarrow> P (xs ! i) \<Longrightarrow> i = k"
  then have "{i. i < length xs \<and> P (xs ! i)} \<subseteq> {k}" by auto
  then have "card {i. i < length xs \<and> P (xs ! i)} \<le> 1" using card_mono [of "{k}"] by fastforce
  then show ?thesis by (simp add: length_filter_conv_card)
qed

lemma length_filter_or: "length (filter (\<lambda>x. P x \<or> Q x) xs) \<le> length (filter P xs) + length (filter Q xs)"
  by (induction xs) auto

lemma block_valid_makers:
  assumes "block_valid e b" and "IsProofOfWork b \<Longrightarrow> length (filter IsCoinStake (vtx b)) \<le> 1"
  shows "length (filter (\<lambda>tx. IsCoinBase tx \<or> IsCoinStake tx) (vtx b)) \<le> 2"
proof -
  have "length (filter IsCoinBase (vtx b)) \<le> 1"
    by (rule length_filter_at [where k = 0]) (use assms(1) in \<open>simp add: block_valid_iff\<close>)
  moreover have "length (filter IsCoinStake (vtx b)) \<le> 1"
  proof (cases "IsProofOfStake b")
    case True
    show ?thesis
      by (rule length_filter_at [where k = 1]) (use assms(1) True in \<open>simp add: block_valid_iff\<close>)
  qed (use assms(2) in \<open>simp add: IsProofOfWork_def\<close>)
  ultimately show ?thesis using length_filter_or [of IsCoinBase IsCoinStake "vtx b"] by linarith
qed

lemma SetBestBlock_work:
  assumes "work_inv st"
  shows "work_inv (SetBestBlock st h)" and "work_utxo (SetBestBlock st h) = work_utxo st"
    and "h \<noteq> 0 \<Longrightarrow> work_best (SetBestBlock st h) = h"
  using assms by (cases st; simp add: SetBestBlock_def cache_inv_def cache_utxo_def cache_best_def)+

lemma connect_finish_Some:
  assumes "GetBlockValue (LAST_POW_BLOCK (e_params (c_env K))) (sint (e_max_money (c_env K)))
      (c_money_supply K (ci_height pindex - 1)) (ci_height pindex) \<noteq> None"
  shows "\<exists>r state' money undo st'. connect_finish K b pindex j acc state st = Some ((r, state'), money, undo, st')"
  using assms control_wait_ok [of "c_ecdsa K" "ca_checks acc"]
  by (auto simp: connect_finish_def Let_def DoS_def split: bool.splits)

lemma GetBlockValue_Some: "s \<noteq> None \<Longrightarrow> GetBlockValue last_pow m s h \<noteq> None"
  by (cases s) (simp_all add: GetBlockValue_def Let_def)

lemma first_of_three: "A \<or> B \<or> C \<Longrightarrow> (if A then x else if B then y else if C then z else w) \<in> {x, y, z}"
  by auto

lemma connect_checked_ok:
  assumes "work_inv st" and "coins_ok (e_max_money (c_env K)) (work_utxo st)" and "supply_of (work_utxo st) \<le> 2 ^ 61"
    and "list_all (\<lambda>tx. \<not> ContainsZerocoins tx) (vtx b)" and "block_valid (c_env K) b"
    and "IsProofOfWork b \<Longrightarrow> length (filter IsCoinStake (vtx b)) \<le> 1"
    and "0 \<le> sint (e_max_money (c_env K))" and "sint (e_max_money (c_env K)) \<le> 2 ^ 60"
    and "ci_prev pindex = Some (work_best st, mprev)" and "h = ci_height pindex"
    and "e_height (c_env K) (work_best st) = Some (h - 1)" and "c_money_supply K (h - 1) \<noteq> None"
    and "e_hash (c_env K) b \<noteq> e_genesis (c_env K)" and "ci_hash pindex \<noteq> 0"
  shows "\<exists>r state' money undo st'. connect_checked K tip_view b pindex False state st = Some ((r, state'), money, undo, st') \<and>
    (r \<longrightarrow> state' = state \<and> work_inv st' \<and> work_best st' = ci_hash pindex \<and>
      work_utxo st' = fold (tx_apply h) (vtx b) (work_utxo st) \<and> coins_ok (e_max_money (c_env K)) (work_utxo st') \<and>
      txs_connect K (h \<ge> GetTotalBlocksEstimate (c_env K)) h (vtx b) (work_utxo st) \<and>
      undo = txs_undo h 0 (vtx b) (work_utxo st) \<and> txs_there h (vtx b) (work_utxo st) \<and>
      (\<forall>tx \<in> set (vtx b). work_utxo st (tx_hash tx) = (\<lambda>n. None)) \<and>
      (\<exists>v n. GetBlockValue (LAST_POW_BLOCK (e_params (c_env K))) (sint (e_max_money (c_env K))) (c_money_supply K (h - 1)) h = Some v \<and>
        supply_of (work_utxo st') \<le> supply_of (work_utxo st) + sint n \<and>
        sint n \<le> v + (if IsProofOfWork b then txs_fee h (vtx b) (work_utxo st) else 0) \<and> money = Some (mprev + n, n)))"
proof -
  let ?U = "work_utxo st" and ?m = "e_max_money (c_env K)" and ?f = "h \<ge> GetTotalBlocksEstimate (c_env K)"
  have m62: "sint ?m < 2 ^ 62" using assms(8) by simp
  obtain bst st1 where gb: "GetBestBlock tip_view st = (bst, st1)" by (metis prod.exhaust)
  have i1: "work_inv st1" "work_utxo st1 = ?U" "work_best st1 = work_best st" "bst = work_best st"
    using tip.GetBestBlock_ok [of "fst st" "snd st" bst "fst st1" "snd st1"] assms(1) gb by simp_all
  obtain r2 st2 where no: "no_overwrite tip_view (vtx b) st1 = (r2, st2)" and
      i2: "work_inv st2" "work_utxo st2 = ?U" "work_best st2 = work_best st"
        "r2 \<longrightarrow> (\<forall>tx \<in> set (vtx b). ?U (tx_hash tx) = (\<lambda>n. None))"
    using tip.no_overwrite_ok [OF i1(1), of "vtx b"] i1 by auto
  let ?act = "block_time b > e_zc_start_time (c_env K)"
  have val: "\<forall>tx \<in> set (vtx b). \<not> ContainsZerocoins tx \<and> tx_valid ?m ?act tx"
    using assms(4,5) by (simp add: block_valid_def list_all_iff)
  have eh: "e_height (c_env K) (work_best st2) = Some (h - 1)" using assms(11) i2(3) by simp
  obtain q st3 where ct: "connect_txs K tip_view ?f (bh_nTime b) h 0 (vtx b) connect_sums_new state st2 = Some (q, st3)" and
      i3: "work_inv st3" "work_best st3 = work_best st" and
      cq: "case q of Inl r \<Rightarrow> \<not> fst r | Inr (acc', state') \<Rightarrow> state' = state \<and> txs_steps K ?f h (vtx b) ?U connect_sums_new acc' \<and>
         work_utxo st3 = fold (tx_apply h) (vtx b) ?U \<and> txs_there h (vtx b) ?U \<and>
         ca_undo acc' = ca_undo connect_sums_new @ txs_undo h 0 (vtx b) ?U"
    using tip.connect_txs_ok [OF i2(1) val eh assms(7) m62, of ?f "bh_nTime b" 0 connect_sums_new state, unfolded i2(2)] i2(1,3) by auto
  have cc: "connect_checked K tip_view b pindex False state st =
    (if h \<le> LAST_POW_BLOCK (e_params (c_env K)) \<and> IsProofOfStake b
     then Some (DoS state 100 False REJECT_INVALID ''PoS-early'' False, None, [], st1)
     else if h > LAST_POW_BLOCK (e_params (c_env K)) \<and> IsProofOfWork b
     then Some (DoS state 100 False REJECT_INVALID ''PoW-ended'' False, None, [], st1)
     else if \<not> r2 then Some (DoS state 100 False REJECT_INVALID ''bad-txns-BIP30'' False, None, [], st2)
     else case q of Inl r \<Rightarrow> Some (r, None, [], st3) | Inr (acc, state) \<Rightarrow> connect_finish K b pindex False acc state st3)"
    using assms(9,13) i1(4) no ct by (simp add: connect_checked_def gb assms(10) split: bool.split)
  have rej: "\<exists>r state'. DoS state 100 False REJECT_INVALID reason False = (r, state') \<and> \<not> r" for reason
    using DoS_fst by (metis prod.exhaust fst_conv)
  show ?thesis
  proof (cases "h \<le> LAST_POW_BLOCK (e_params (c_env K)) \<and> IsProofOfStake b \<or>
      h > LAST_POW_BLOCK (e_params (c_env K)) \<and> IsProofOfWork b \<or> \<not> r2")
    case True
    then have "connect_checked K tip_view b pindex False state st \<in>
        {Some (DoS state 100 False REJECT_INVALID ''PoS-early'' False, None, [], st1),
         Some (DoS state 100 False REJECT_INVALID ''PoW-ended'' False, None, [], st1),
         Some (DoS state 100 False REJECT_INVALID ''bad-txns-BIP30'' False, None, [], st2)}"
      unfolding cc by (rule first_of_three)
    then have "\<exists>reason st'. connect_checked K tip_view b pindex False state st =
        Some (DoS state 100 False REJECT_INVALID reason False, None, [], st')" by blast
    then show ?thesis using rej by (metis (no_types, lifting))
  next
    case False
    then have c2: "connect_checked K tip_view b pindex False state st =
      (case q of Inl r \<Rightarrow> Some (r, None, [], st3) | Inr (acc, state) \<Rightarrow> connect_finish K b pindex False acc state st3)"
      unfolding cc by (simp only: if_False de_Morgan_disj not_not) auto
    show ?thesis
    proof (cases q)
      case (Inl p)
      then show ?thesis using cq unfolding c2 by (cases p) auto
    next
      case (Inr p)
      then obtain acc where p: "p = (acc, state)" "txs_steps K ?f h (vtx b) ?U connect_sums_new acc"
          "work_utxo st3 = fold (tx_apply h) (vtx b) ?U" "txs_there h (vtx b) ?U" "ca_undo acc = txs_undo h 0 (vtx b) ?U"
        using cq by (cases p) (auto simp: connect_sums_new_def)
      obtain r state' money undo st' where cf: "connect_finish K b pindex False acc state st3 = Some ((r, state'), money, undo, st')"
        using connect_finish_Some [of K pindex b False acc state st3] GetBlockValue_Some assms(10,12) by blast
      have "state' = state \<and> work_inv st' \<and> work_best st' = ci_hash pindex \<and>
        work_utxo st' = fold (tx_apply h) (vtx b) ?U \<and> coins_ok ?m (work_utxo st') \<and> txs_connect K ?f h (vtx b) ?U \<and>
        undo = txs_undo h 0 (vtx b) ?U \<and> txs_there h (vtx b) ?U \<and> (\<forall>tx \<in> set (vtx b). ?U (tx_hash tx) = (\<lambda>n. None)) \<and>
        (\<exists>v n. GetBlockValue (LAST_POW_BLOCK (e_params (c_env K))) (sint ?m) (c_money_supply K (h - 1)) h = Some v \<and>
          supply_of (work_utxo st') \<le> supply_of ?U + sint n \<and>
          sint n \<le> v + (if IsProofOfWork b then txs_fee h (vtx b) ?U else 0) \<and> money = Some (mprev + n, n))" if r
      proof -
        note f = connect_finish_ok [OF cf refl p(2) assms(10) assms(2) _ block_valid_makers [OF assms(5,6)] assms(7,8,3) that,
            where act = ?act]
        have v': "\<forall>tx \<in> set (vtx b). tx_valid ?m ?act tx" using val by blast
        have "txs_inputs K h (vtx b) ?U" using p(2) by (simp add: txs_steps_def)
        note s = txs_supply [OF assms(2) v' this]
        show ?thesis using f [OF v'] s SetBestBlock_work [OF i3(1), of "ci_hash pindex"] p(3-5) i2(4) False assms(9,14) by auto
      qed
      then show ?thesis using cf unfolding c2 by (auto simp: Inr p(1))
    qed
  qed
qed

section \<open>An example\<close>

definition sample_connect :: connect_env where
  "sample_connect = \<lparr>c_env = sample_env\<lparr>e_params := \<lparr>ProofOfWorkLimit = [], LAST_POW_BLOCK = 1000, SkipProofOfWorkCheck = True\<rparr>,
       e_height := (\<lambda>h. Some 0), e_genesis := 2\<rparr>,
     c_maturity = 100, c_zc_start_height = 0, c_money_supply = (\<lambda>h. Some 0), c_ecdsa = (\<lambda>h sig key. False), c_threads = True,
     c_maintenance = 0, c_in_chain = (\<lambda>h. None), c_verifying = False, c_coin_spend = (\<lambda>txin h. False),
     c_denomination = (\<lambda>txin. 0), c_zc_supply = (\<lambda>b. True), c_accumulators = (\<lambda>b. True), c_shutdown = False\<rparr>"

definition sample_index :: connect_index where
  "sample_index = \<lparr>ci_hash = 1, ci_height = 1, ci_prev = Some (0, 0)\<rparr>"

lemma max_sigops [code]: "MAX_BLOCK_SIGOPS_CURRENT = 83886"
  by (simp add: MAX_BLOCK_SIGOPS_CURRENT_def MAX_BLOCK_SIZE_CURRENT_def)

lemma sample_connects:
  "fst (fst (the (connect_checked sample_connect tip_view sample_block sample_index False CValidationState_new stake_db)))"
  by code_simp

lemma sample_connect_valid: "block_valid (c_env sample_connect) sample_block"
  using sample_block_valid
  by (simp add: block_valid_def header_ok_def lock_conflict_def sample_connect_def e_hash_def BiggerTime_def stake_time_ok_def
      sample_env_def guessed_height_def)

lemma stake_db_coins_ok: "coins_ok 2100000000000000 (work_utxo stake_db)" and stake_db_supply: "supply_of (work_utxo stake_db) = 5"
proof -
  have p: "coin_places (work_utxo stake_db) = {(7, 0)}"
    by (auto simp: coin_places_def stake_db_utxo coins_abs_stake split: if_splits)
  have v: "value_at (work_utxo stake_db) (7, 0) = 5"
    by (simp add: value_at_def stake_db_utxo coins_abs_stake CTxOut_of_def)
  show "coins_ok 2100000000000000 (work_utxo stake_db)" "supply_of (work_utxo stake_db) = 5"
    using v by (simp_all add: coins_ok_def supply_of_def p)
qed

lemma sample_connect_hash: "e_hash (c_env sample_connect) sample_block = 1"
proof -
  have "1 <s (4 :: u32)" by code_simp
  then show ?thesis
    by (simp add: e_hash_def sample_connect_def sample_env_def sample_block_def CBlock_of_def CBlockHeader_Null_def
        CBlockHeader.defs CBlockHeader_GetHash_def)
qed

lemma sample_coinbase_is: "IsCoinBase sample_coinbase"
  by code_simp

section \<open>Properties\<close>

text \<open>
  C36. ConnectBlock never fails an assertion on a block without zerocoin parts that follows the
  best block of the view and, if it is a proof of work block, has at most one coinstake. When it
  accepts, with or without script threads, the unspent outputs are those before with the inputs of
  each transaction removed and its outputs added, in order; every input was there, mature and in
  range, and from the last checkpoint (GetTotalBlocksEstimate) on its script verified (below it
  the code verifies no script); and the money of all unspent outputs grew by no more than the mint
  the index records, which is at most the subsidy, and for a proof of work block the subsidy and
  the fees. The sums of the code over the block are 64 bits wide and may wrap around; with at most
  one coinstake in a proof of work block (a proof of stake block has one by its rules) their
  difference is right nevertheless, and without that hypothesis the mint can come out too small.
\<close>

theorem connect_block:
  assumes "work_inv st" and "coins_ok (e_max_money (c_env K)) (work_utxo st)" and "supply_of (work_utxo st) \<le> 2 ^ 61"
    and "list_all (\<lambda>tx. \<not> ContainsZerocoins tx) (vtx b)" and "fAlreadyChecked \<Longrightarrow> block_valid (c_env K) b"
    and "IsProofOfWork b \<Longrightarrow> length (filter IsCoinStake (vtx b)) \<le> 1" and "0 \<le> zc_max_spends (e_zc (c_env K))"
    and "0 \<le> sint (e_max_money (c_env K))" and "sint (e_max_money (c_env K)) \<le> 2 ^ 60"
    and "ci_prev pindex = Some (work_best st, mprev)" and "h = ci_height pindex"
    and "e_height (c_env K) (work_best st) = Some (h - 1)" and "c_money_supply K (h - 1) \<noteq> None"
    and "e_hash (c_env K) b \<noteq> e_genesis (c_env K)" and "ci_hash pindex \<noteq> 0"
  shows "\<exists>rejects' r state' money undo st'.
    ConnectBlock K tip_view b state pindex False fAlreadyChecked rejects st = Some (rejects', (r, state'), money, undo, st') \<and>
    (r \<longrightarrow> block_valid (c_env K) b \<and> state' = state \<and> work_inv st' \<and> work_best st' = ci_hash pindex \<and>
      work_utxo st' = fold (tx_apply h) (vtx b) (work_utxo st) \<and> coins_ok (e_max_money (c_env K)) (work_utxo st') \<and>
      txs_connect K (h \<ge> GetTotalBlocksEstimate (c_env K)) h (vtx b) (work_utxo st) \<and>
      (\<exists>v n. GetBlockValue (LAST_POW_BLOCK (e_params (c_env K))) (sint (e_max_money (c_env K))) (c_money_supply K (h - 1)) h = Some v \<and>
        supply_of (work_utxo st') \<le> supply_of (work_utxo st) + sint n \<and>
        sint n \<le> v + (if IsProofOfWork b then txs_fee h (vtx b) (work_utxo st) else 0) \<and> money = Some (mprev + n, n)))"
proof (cases "\<not> fAlreadyChecked \<and> \<not> block_valid (c_env K) b")
  case True
  then obtain state' rejects' where "CheckBlock (c_env K) b state True rejects = Some (False, state', rejects')"
    using CheckBlock_ok [of b "c_env K" state rejects] assms(4,7-9) by auto
  then show ?thesis using True by (cases st) (auto simp: ConnectBlock_def)
next
  case False
  then have v: "block_valid (c_env K) b" using assms(5) by blast
  then have "(if \<not> fAlreadyChecked then CheckBlock (c_env K) b state (\<not> False) rejects else Some (True, state, rejects)) =
      Some (True, state, rejects)"
    using CheckBlock_ok [of b "c_env K" state rejects] assms(4,7-9) by simp
  then have "ConnectBlock K tip_view b state pindex False fAlreadyChecked rejects st =
      map_option (Pair rejects) (connect_checked K tip_view b pindex False state st)" by (simp add: ConnectBlock_def)
  then show ?thesis
    using connect_checked_ok [OF assms(1-4) v assms(6,8-15), of state] v by auto
qed

theorem connect_block_witness:
  "\<exists>rejects' state' money undo st'. ConnectBlock sample_connect tip_view sample_block CValidationState_new sample_index
      False True (\<lambda>h. None) stake_db = Some (rejects', (True, state'), money, undo, st') \<and>
     supply_of (work_utxo st') \<le> 5 + 100000000"
proof -
  have a: "list_all (\<lambda>tx. \<not> ContainsZerocoins tx) (vtx sample_block)" "length (filter IsCoinStake (vtx sample_block)) \<le> 1"
    "IsProofOfWork sample_block" "work_best stake_db = 0" by code_simp+
  have m: "e_max_money (c_env sample_connect) = 2100000000000000" by (simp add: sample_connect_def sample_env_def)
  have k: "0 \<le> zc_max_spends (e_zc (c_env sample_connect))" "ci_prev sample_index = Some (work_best stake_db, 0)"
    "ci_height sample_index = 1" "e_height (c_env sample_connect) (work_best stake_db) = Some (1 - 1)"
    "c_money_supply sample_connect (1 - 1) = Some 0" "LAST_POW_BLOCK (e_params (c_env sample_connect)) = 1000"
    "e_hash (c_env sample_connect) sample_block \<noteq> e_genesis (c_env sample_connect)" "ci_hash sample_index \<noteq> 0"
    using a(4) sample_connect_hash by (simp_all add: sample_connect_def sample_env_def sample_index_def no_zerocoin_def)
  have fee: "txs_fee 1 (vtx sample_block) (work_utxo stake_db) = 0"
    by (simp add: sample_block_def tx_fee_def sample_coinbase_is)
  have g: "GetBlockValue 1000 2100000000000000 (Some 0) 1 = Some 100000000" by code_simp
  obtain rejects' r state' money undo st' where c: "ConnectBlock sample_connect tip_view sample_block CValidationState_new
      sample_index False True (\<lambda>h. None) stake_db = Some (rejects', (r, state'), money, undo, st')"
    and s: "r \<longrightarrow> supply_of (work_utxo st') \<le> 5 + 100000000"
    using connect_block [where st = stake_db and K = sample_connect and b = sample_block and pindex = sample_index and mprev = 0
        and h = 1 and state = CValidationState_new and fAlreadyChecked = True and rejects = "\<lambda>h. None"]
      stake_db_inv stake_db_coins_ok stake_db_supply sample_connect_valid a m k fee g by auto
  have "connect_checked sample_connect tip_view sample_block sample_index False CValidationState_new stake_db =
      Some ((r, state'), money, undo, st')" using c by (auto simp: ConnectBlock_def)
  then have r using sample_connects by simp
  then show ?thesis using c s by auto
qed

end
