(* ===== verification/AcceptTx.thy ===== *)
theory AcceptTx
  imports Mempool Supply
begin

text \<open>
  A loose transaction on its way into the memory pool (\<open>AcceptToMemoryPool\<close> of \<open>src/main.cpp\<close>,
  \<open>CCoinsViewMemPool\<close> of \<open>src/txmempool.cpp\<close>). The pool over \<open>pcoinsTip\<close> is a source of coins in
  the sense of \<open>CoinsView\<close>; when all inputs are in the cache the code takes the source away, and the
  theorems on reading a cache hold all the same. The address indexes and the wallets are left out.
\<close>

section \<open>The views\<close>

text \<open>The methods of the class \<open>CCoinsView\<close> itself.\<close>

definition dummy_view :: "unit CCoinsView" where
  "dummy_view = \<lparr>view_GetCoins = (\<lambda>s txid. (None, s)), view_GetBestBlock = (\<lambda>s. (0, s)),
     view_BatchWrite = (\<lambda>s m h. Some (False, s))\<rparr>"

definition MEMPOOL_HEIGHT :: u32 where "MEMPOOL_HEIGHT = 0x7FFFFFFF"

definition mempool_GetCoins :: "'s CCoinsView \<Rightarrow> 'd CTxMemPool \<Rightarrow> 's \<Rightarrow> uint256 \<Rightarrow> CCoins option \<times> 's" where
  "mempool_GetCoins base P s txid =
     (case pool_lookup P txid of
        Some tx \<Rightarrow> (Some (CCoins_FromTx tx MEMPOOL_HEIGHT), s)
      | None \<Rightarrow>
          (case view_GetCoins base s txid of
             (None, s) \<Rightarrow> (None, s)
           | (Some coins, s) \<Rightarrow> (if \<not> IsPruned coins then Some coins else None, s)))"

definition mempool_view :: "'s CCoinsView \<Rightarrow> 'd CTxMemPool \<Rightarrow> 's CCoinsView" where
  "mempool_view base P = \<lparr>view_GetCoins = mempool_GetCoins base P, view_GetBestBlock = view_GetBestBlock base,
     view_BatchWrite = view_BatchWrite base\<rparr>"

section \<open>Accepting\<close>

text \<open>The options and parameters beside those of a block.\<close>

record mempool_env =
  m_connect :: connect_env
  m_policy :: relay_policy
  m_require_standard :: bool
  m_mint_fee :: CAmount

abbreviation m_block :: "mempool_env \<Rightarrow> block_env" where
  "m_block M \<equiv> c_env (m_connect M)"

definition MAX_TX_SIGOPS_CURRENT :: u32 where
  "MAX_TX_SIGOPS_CURRENT = MAX_BLOCK_SIGOPS_CURRENT div 2"

definition active_height :: "block_env \<Rightarrow> int" where
  "active_height e = (case e_tip e of None \<Rightarrow> -1 | Some (_, h) \<Rightarrow> h)"

text \<open>The checks before the coins are looked at. \<open>Inr ()\<close> goes on. There must be a tip when the
  standard rules are asked for.\<close>

definition accept_checks :: "mempool_env \<Rightarrow> 'd CTxMemPool \<Rightarrow> CTransaction \<Rightarrow> CValidationState \<Rightarrow> (ret + unit) option" where
  "accept_checks M P tx state =
     (let e = m_block M; height = active_height e
      in if e_adjusted_time e > c_maintenance (m_connect M) \<and> ContainsZerocoins tx
         then Some (Inl (DoS state 10 False REJECT_INVALID ''bad-tx'' False))
         else
           (case CheckTransaction (e_max_money e) (e_zc e) (e_fVerifySignature e) tx
               (height \<ge> c_zc_start_height (m_connect M)) state of
              (False, state) \<Rightarrow> Some (Inl (DoS state 100 False REJECT_INVALID ''bad-tx'' False))
            | (True, state) \<Rightarrow>
                if IsCoinBase tx then Some (Inl (DoS state 100 False REJECT_INVALID ''coinbase'' False))
                else if IsCoinStake tx then Some (Inl (DoS state 100 False REJECT_INVALID ''coinstake'' False))
                else
                  (case e_tip e of
                     None \<Rightarrow> None
                   | Some (_, tip_height) \<Rightarrow>
                       (case (if tip_height \<ge> LAST_POW_BLOCK (e_params e) \<and> m_require_standard M
                              then IsStandardTx (m_policy M) height (e_adjusted_time e) tx else Some (Inr ())) of
                          None \<Rightarrow> None
                        | Some (Inl reason) \<Rightarrow> Some (Inl (DoS state 0 False REJECT_NONSTANDARD reason False))
                        | Some (Inr _) \<Rightarrow>
                            if pool_exists P (tx_hash tx) then Some (Inl (False, state))
                            else if list_ex (\<lambda>txin. case e_locked_inputs e (prevout txin) of
                                None \<Rightarrow> False | Some h \<Rightarrow> h \<noteq> tx_hash tx) (vin tx)
                            then Some (Inl (DoS state 0 False REJECT_INVALID ''tx-lock-conflict'' False))
                            else if \<not> HasZerocoinSpendInputs tx \<and>
                              list_ex (\<lambda>txin. map_of (mapNextTx P) (prevout txin) \<noteq> None) (vin tx)
                            then Some (Inl (False, state))
                            else Some (Inr ())))))"

text \<open>The coins of all inputs: the last argument is the state of the new cache.\<close>

fun have_all_coins :: "'s CCoinsView \<Rightarrow> CTxIn list \<Rightarrow> 's \<times> CCoinsViewCache \<Rightarrow> bool \<times> 's \<times> CCoinsViewCache" where
  "have_all_coins base [] st = (True, st)"
| "have_all_coins base (txin # ins) st =
     (case HaveCoins base st (COutPoint.op_hash (prevout txin)) of
        (False, st) \<Rightarrow> (False, st)
      | (True, st) \<Rightarrow> have_all_coins base ins st)"

text \<open>\<open>Inl\<close> is a return, with what is written to \<open>*pfMissingInputs\<close>; \<open>Inr\<close> is \<open>nValueIn\<close>.\<close>

definition accept_zerocoin :: "mempool_env \<Rightarrow> CTransaction \<Rightarrow> CValidationState \<Rightarrow> (ret \<times> bool) + CAmount" where
  "accept_zerocoin M tx state =
     (if c_in_chain (m_connect M) (tx_hash tx) \<noteq> None
      then Inl (Invalid state False REJECT_DUPLICATE ''bad-txns-inputs-spent'', False)
      else if list_ex (\<lambda>txin. CTxIn_IsZerocoinSpend txin \<and> \<not> c_coin_spend (m_connect M) txin (tx_hash tx)) (vin tx)
      then Inl (Invalid state False 0 [], False)
      else Inr (GetZerocoinSpent tx))"

definition accept_inputs ::
    "mempool_env \<Rightarrow> 's CCoinsView \<Rightarrow> CTransaction \<Rightarrow> CValidationState \<Rightarrow> 's \<times> CCoinsViewCache \<Rightarrow>
     (((ret \<times> bool) + CAmount) \<times> 's \<times> CCoinsViewCache) option" where
  "accept_inputs M base tx state st =
     (case HaveCoins base st (tx_hash tx) of
        (True, st) \<Rightarrow> Some (Inl ((False, state), False), st)
      | (False, st) \<Rightarrow>
          (case have_all_coins base (vin tx) st of
             (False, st) \<Rightarrow> Some (Inl ((False, state), True), st)
           | (True, st) \<Rightarrow>
               (case HaveInputs base st tx (c_zc_start_height (m_connect M)) of
                  (False, st) \<Rightarrow>
                    Some (Inl (Invalid state False REJECT_DUPLICATE ''bad-txns-inputs-spent'', False), st)
                | (True, st) \<Rightarrow>
                    (case GetBestBlock base st of
                       (h, st) \<Rightarrow> map_option (\<lambda>(v, st). (Inr v, st)) (GetValueIn base st tx)))))"

text \<open>\<open>GetPriority\<close> reads the coins of the inputs, which must be there; its result is dropped.\<close>

fun priority_loop :: "'s CCoinsView \<Rightarrow> CTxIn list \<Rightarrow> 's \<times> CCoinsViewCache \<Rightarrow> ('s \<times> CCoinsViewCache) option" where
  "priority_loop base [] st = Some st"
| "priority_loop base (txin # ins) st =
     (case AccessCoins base st (COutPoint.op_hash (prevout txin)) of
        (None, st) \<Rightarrow> None
      | (Some coins, st) \<Rightarrow> priority_loop base ins st)"

definition GetPriority :: "'s CCoinsView \<Rightarrow> CTransaction \<Rightarrow> 's \<times> CCoinsViewCache \<Rightarrow> ('s \<times> CCoinsViewCache) option" where
  "GetPriority base tx st = (if IsCoinBase tx \<or> IsCoinStake tx then Some st else priority_loop base (vin tx) st)"

definition accept_sigops ::
    "'s CCoinsView \<Rightarrow> CTransaction \<Rightarrow> CValidationState \<Rightarrow> 's \<times> CCoinsViewCache \<Rightarrow>
     (ret option \<times> 's \<times> CCoinsViewCache) option" where
  "accept_sigops base tx state st =
     (if \<not> HasZerocoinSpendInputs tx then
        (case GetLegacySigOpCount tx of
           None \<Rightarrow> None
         | Some n \<Rightarrow>
             (case GetP2SHSigOpCount base tx st of
                None \<Rightarrow> None
              | Some (k, st) \<Rightarrow>
                  Some (if n + k > MAX_TX_SIGOPS_CURRENT
                    then Some (DoS state 0 False REJECT_NONSTANDARD ''bad-txns-too-many-sigops'' False) else None, st)))
      else Some (None, st))"

definition fee_too_low :: "mempool_env \<Rightarrow> CTransaction \<Rightarrow> CAmount \<Rightarrow> u64 \<Rightarrow> string option" where
  "fee_too_low M tx nFees nSize =
     (if HasZerocoinSpendInputs tx then
        (if nFees <s m_mint_fee M * of_int (GetZerocoinMintCount tx) then Some ''insufficient fee for zerocoinmint'' else None)
      else if nFees <s GetFee (minRelayTxFee (m_policy M)) nSize then Some ''insufficient fee'' else None)"

text \<open>The two runs of the scripts: \<open>Inl\<close> is a return, \<open>Inr\<close> the new pool.\<close>

definition accept_scripts ::
    "mempool_env \<Rightarrow> 's CCoinsView \<Rightarrow> 'd CTxMemPool \<Rightarrow> 'd CTxMemPoolEntry \<Rightarrow> CTransaction \<Rightarrow> CValidationState \<Rightarrow>
     's \<times> CCoinsViewCache \<Rightarrow> (ret + 'd CTxMemPool \<times> CValidationState) option" where
  "accept_scripts M base P new tx state st =
     (let K = m_connect M; e = m_block M
      in case CheckInputs base (e_max_money e) (c_maturity K) (e_height e) (c_ecdsa K) tx state st
             True STANDARD_SCRIPT_VERIFY_FLAGS True None
             (if active_height e \<ge> StakingProtocol2Height then c_zc_start_height K else 0) of
           None \<Rightarrow> None
         | Some (False, state, _, st) \<Rightarrow> Some (Inl (False, state))
         | Some (True, state, _, st) \<Rightarrow>
             (case CheckInputs base (e_max_money e) (c_maturity K) (e_height e) (c_ecdsa K) tx state st
                 True MANDATORY_SCRIPT_VERIFY_FLAGS True None 0 of
                None \<Rightarrow> None
              | Some (False, state, _, st) \<Rightarrow> Some (Inl (False, state))
              | Some (True, state, _, st) \<Rightarrow> Some (Inr (addUnchecked P (tx_hash tx) new, state))))"

text \<open>The fees and the entry. The priority of an entry is the constant \<open>zero\<close>.\<close>

definition mempool_entry :: "mempool_env \<Rightarrow> 'd \<Rightarrow> CTransaction \<Rightarrow> CAmount \<Rightarrow> 'd CTxMemPoolEntry" where
  "mempool_entry M zero tx nFees =
     CTxMemPoolEntry_of tx nFees (of_int (e_now (m_block M))) zero (of_int (active_height (m_block M)))"

definition accept_fees ::
    "mempool_env \<Rightarrow> 's CCoinsView \<Rightarrow> 'd \<Rightarrow> bool \<Rightarrow> 'd CTxMemPool \<Rightarrow> CTransaction \<Rightarrow> CAmount \<Rightarrow> CValidationState \<Rightarrow>
     's \<times> CCoinsViewCache \<Rightarrow> (ret + 'd CTxMemPool \<times> CValidationState) option" where
  "accept_fees M base zero fRejectInsaneFee P tx nFees state st =
     (let new = mempool_entry M zero tx nFees; nSize = e_nTxSize new
      in case fee_too_low M tx nFees nSize of
           Some reason \<Rightarrow> Some (Inl (DoS state 0 False REJECT_INSUFFICIENTFEE reason False))
         | None \<Rightarrow>
             if fRejectInsaneFee \<and> GetFee (minRelayTxFee (m_policy M)) nSize * 10000 <s nFees
             then Some (Inl (False, state))
             else accept_scripts M base P new tx state st)"

text \<open>What is left once the coins are in the cache.\<close>

definition accept_entry ::
    "mempool_env \<Rightarrow> 's CCoinsView \<Rightarrow> 'd \<Rightarrow> bool \<Rightarrow> 'd CTxMemPool \<Rightarrow> CTransaction \<Rightarrow> CAmount \<Rightarrow> CValidationState \<Rightarrow>
     's \<times> CCoinsViewCache \<Rightarrow> (ret + 'd CTxMemPool \<times> CValidationState) option" where
  "accept_entry M base zero fRejectInsaneFee P tx nValueIn state st =
     (case (if m_require_standard M then AreInputsStandard base tx st else Some (True, st)) of
        None \<Rightarrow> None
      | Some (False, st) \<Rightarrow> Some (Inl (False, state))
      | Some (True, st) \<Rightarrow>
          (case accept_sigops base tx state st of
             None \<Rightarrow> None
           | Some (Some r, st) \<Rightarrow> Some (Inl r)
           | Some (None, st) \<Rightarrow>
               (case GetValueOut tx of
                  Inl _ \<Rightarrow> None
                | Inr nValueOut \<Rightarrow>
                    (case (if \<not> HasZerocoinSpendInputs tx then GetPriority base tx st else Some st) of
                       None \<Rightarrow> None
                     | Some st \<Rightarrow> accept_fees M base zero fRejectInsaneFee P tx (nValueIn - nValueOut) state st))))"

text \<open>The result, \<open>*pfMissingInputs\<close>, the pool and \<open>pcoinsTip\<close>. The local cache starts empty over the
  pool, and ends over the dummy.\<close>

definition AcceptToMemoryPool ::
    "mempool_env \<Rightarrow> 's CCoinsView \<Rightarrow> 'd \<Rightarrow> bool \<Rightarrow> 'd CTxMemPool \<Rightarrow> CValidationState \<Rightarrow> CTransaction \<Rightarrow> 's \<Rightarrow>
     (ret \<times> bool \<times> 'd CTxMemPool \<times> 's) option" where
  "AcceptToMemoryPool M tip zero fRejectInsaneFee P state tx s =
     (case accept_checks M P tx state of
        None \<Rightarrow> None
      | Some (Inl r) \<Rightarrow> Some (r, False, P, s)
      | Some (Inr _) \<Rightarrow>
          (case (if HasZerocoinSpendInputs tx then Some (accept_zerocoin M tx state, s, CCoinsViewCache_new)
                 else accept_inputs M (mempool_view tip P) tx state (s, CCoinsViewCache_new)) of
             None \<Rightarrow> None
           | Some (Inl (r, fMissingInputs), s, view) \<Rightarrow> Some (r, fMissingInputs, P, s)
           | Some (Inr nValueIn, s, view) \<Rightarrow>
               (case accept_entry M dummy_view zero fRejectInsaneFee P tx nValueIn state ((), view) of
                  None \<Rightarrow> None
                | Some (Inl r) \<Rightarrow> Some (r, False, P, s)
                | Some (Inr (P, state)) \<Rightarrow> Some ((True, state), False, P, s))))"

section \<open>The pool as a source of coins\<close>

definition pool_utxo :: "'d CTxMemPool \<Rightarrow> coins_fun \<Rightarrow> coins_fun" where
  "pool_utxo P U txid =
     (case pool_lookup P txid of Some tx \<Rightarrow> coins_abs (CCoins_FromTx tx MEMPOOL_HEIGHT) | None \<Rightarrow> U txid)"

context coins_source
begin

text \<open>Reading changes neither the outputs nor the best block of the base.\<close>

lemma mempool_is_source:
  "coins_source (mempool_view base P) (\<lambda>s. invar s \<and> utxo s = V \<and> best s = b) (\<lambda>s. pool_utxo P (utxo s)) (\<lambda>s txid. pool_exists P txid \<or> has s txid) best"
proof (unfold_locales, goal_cases)
  case (1 s txid r s')
  show ?case
  proof (cases "pool_lookup P txid")
    case None
    obtain q t where g: "view_GetCoins base s txid = (q, t)" by fastforce
    have "s' = t" "r = (case q of None \<Rightarrow> None | Some coins \<Rightarrow> if \<not> IsPruned coins then Some coins else None)"
      using 1(2) None g by (auto simp: mempool_view_def mempool_GetCoins_def split: option.splits)
    then show ?thesis using GetCoins_law [OF conjunct1 [OF 1(1)] g] 1(1) None
      by (auto simp: pool_utxo_def IsPruned_iff split: option.splits)
  next
    case (Some tx)
    then have "s' = s" "r = Some (CCoins_FromTx tx MEMPOOL_HEIGHT)" "pool_exists P txid"
      using 1(2) by (auto simp: mempool_view_def mempool_GetCoins_def pool_lookup_def pool_exists_def)
    then show ?thesis using 1(1) Some by (simp add: pool_utxo_def)
  qed
next
  case (2 s h s')
  then show ?case using GetBestBlock_law [of s h s'] by (auto simp: mempool_view_def)
qed

lemma HaveCoins_ok:
  assumes "cache_inv invar utxo has st"
  shows "\<exists>r st'. HaveCoins base st txid = (r, st') \<and> cache_inv invar utxo has st' \<and>
    cache_utxo utxo st' = cache_utxo utxo st \<and> cache_best best st' = cache_best best st \<and>
    (\<forall>t. cache_has st t \<longrightarrow> cache_has st' t) \<and> (r \<longrightarrow> cache_has st' txid) \<and> (cache_utxo utxo st txid \<noteq> (\<lambda>n. None) \<longrightarrow> r)"
proof -
  obtain s c q s' c' where st: "st = (s, c)" and f: "FetchCoins base (s, c) txid = (q, s', c')" by (metis prod.exhaust)
  note ok = FetchCoins_ok [OF assms [unfolded st] f]
  have n: "cc_vout (ce_coins e) \<noteq> []" if "q = Some e" "cache_utxo utxo st txid \<noteq> (\<lambda>n. None)" for e
    using ok that by (auto simp: st coins_abs_def fun_eq_iff)
  show ?thesis
  proof (cases q)
    case None
    then have "coins_opt (map_option ce_coins q) = (\<lambda>n. None)" by simp
    then have "cache_utxo utxo st txid = (\<lambda>n. None)" using ok unfolding st by metis
    then show ?thesis using None ok f unfolding st by (intro exI [of _ False]) (simp add: HaveCoins_def)
  next
    case (Some e)
    then have "map_of (cacheCoins c') txid = Some e" using ok by simp
    then have "cache_has (s', c') txid" by (simp add: cache_has_def)
    moreover have "HaveCoins base st txid = (cc_vout (ce_coins e) \<noteq> [], s', c')" using f by (simp add: HaveCoins_def st Some)
    ultimately show ?thesis using n [OF Some] ok unfolding st by blast
  qed
qed

lemma have_all_coins_ok:
  assumes "cache_inv invar utxo has st"
  shows "\<exists>r st'. have_all_coins base ins st = (r, st') \<and> cache_inv invar utxo has st' \<and>
    cache_utxo utxo st' = cache_utxo utxo st \<and> cache_best best st' = cache_best best st \<and>
    (\<forall>t. cache_has st t \<longrightarrow> cache_has st' t) \<and> (r \<longrightarrow> (\<forall>txin \<in> set ins. cache_has st' (COutPoint.op_hash (prevout txin))))"
  using assms
proof (induction ins arbitrary: st)
  case (Cons txin ins)
  obtain r s1 c1 where h: "HaveCoins base st (COutPoint.op_hash (prevout txin)) = (r, s1, c1)"
      "cache_inv invar utxo has (s1, c1)" "cache_utxo utxo (s1, c1) = cache_utxo utxo st"
      "cache_best best (s1, c1) = cache_best best st" "\<forall>t. cache_has st t \<longrightarrow> cache_has (s1, c1) t"
      "r \<longrightarrow> cache_has (s1, c1) (COutPoint.op_hash (prevout txin))"
    using HaveCoins_ok [OF Cons.prems, of "COutPoint.op_hash (prevout txin)"] by auto
  obtain r2 s2 c2 where i: "have_all_coins base ins (s1, c1) = (r2, s2, c2)" "cache_inv invar utxo has (s2, c2)"
      "cache_utxo utxo (s2, c2) = cache_utxo utxo st" "cache_best best (s2, c2) = cache_best best st"
      "\<forall>t. cache_has (s1, c1) t \<longrightarrow> cache_has (s2, c2) t"
      "r2 \<longrightarrow> (\<forall>txin \<in> set ins. cache_has (s2, c2) (COutPoint.op_hash (prevout txin)))"
    using Cons.IH [OF h(2)] h(3,4) by auto
  show ?case using h i by (cases r) auto
qed (auto intro: exI [of _ True])

end

section \<open>Reading what is in the cache\<close>

definition all_cached :: "CCoinsViewCache \<Rightarrow> CTxIn list \<Rightarrow> bool" where
  "all_cached c ins \<longleftrightarrow> (\<forall>txin \<in> set ins. map_of (cacheCoins c) (COutPoint.op_hash (prevout txin)) \<noteq> None)"

text \<open>Two computations over one cache and different sources: the same result, and nothing is changed.\<close>

definition same_reads ::
    "('r \<times> 's \<times> CCoinsViewCache) option \<Rightarrow> ('r \<times> 't \<times> CCoinsViewCache) option \<Rightarrow> 's \<Rightarrow> 't \<Rightarrow> CCoinsViewCache \<Rightarrow> bool" where
  "same_reads x y s t c \<longleftrightarrow> (\<exists>q. x = map_option (\<lambda>r. (r, s, c)) q \<and> y = map_option (\<lambda>r. (r, t, c)) q)"

lemma same_readsI: "x = map_option (\<lambda>r. (r, s, c)) q \<Longrightarrow> y = map_option (\<lambda>r. (r, t, c)) q \<Longrightarrow> same_reads x y s t c"
  by (auto simp: same_reads_def)

lemma same_reads_const: "same_reads (Some (r, s, c)) (Some (r, t, c)) s t c" "same_reads None None s t c"
  by (rule same_readsI [of _ _ _ "Some r"]; simp) (rule same_readsI [of _ _ _ None]; simp)

lemma same_readsE:
  assumes "same_reads x y s t c"
  obtains "x = None" "y = None" | r where "x = Some (r, s, c)" "y = Some (r, t, c)"
proof -
  obtain q where "x = map_option (\<lambda>r. (r, s, c)) q" "y = map_option (\<lambda>r. (r, t, c)) q"
    using assms unfolding same_reads_def by blast
  then show thesis using that by (cases q) simp_all
qed

lemma all_cached_Cons [simp]:
  "all_cached c (txin # ins) \<longleftrightarrow> (\<exists>e. map_of (cacheCoins c) (COutPoint.op_hash (prevout txin)) = Some e) \<and> all_cached c ins"
  by (auto simp: all_cached_def)

lemma AccessCoins_in_cache:
  "map_of (cacheCoins c) h \<noteq> None \<Longrightarrow> AccessCoins base (s, c) h = (map_option ce_coins (map_of (cacheCoins c) h), s, c)"
  by (auto simp: AccessCoins_def FetchCoins_def)

lemma GetOutputFor_cached:
  "map_of (cacheCoins c) (COutPoint.op_hash (prevout txin)) \<noteq> None \<Longrightarrow> GetOutputFor base (s, c) txin =
    (let e = the (map_of (cacheCoins c) (COutPoint.op_hash (prevout txin)))
     in if IsAvailable (ce_coins e) (unat (op_n (prevout txin)))
        then Some (cc_vout (ce_coins e) ! unat (op_n (prevout txin)), s, c) else None)"
  by (auto simp: GetOutputFor_def AccessCoins_in_cache)

lemma inputs_standard_cached:
  "all_cached c ins \<Longrightarrow> same_reads (inputs_standard_loop b1 ins (s, c)) (inputs_standard_loop b2 ins (t, c)) s t c"
  by (induction ins) (auto simp: GetOutputFor_cached same_reads_const Let_def split: option.split sum.split if_splits)

lemma p2sh_sigops_cached:
  "all_cached c ins \<Longrightarrow> same_reads (p2sh_sigops_loop b1 ins n (s, c)) (p2sh_sigops_loop b2 ins n (t, c)) s t c"
  by (induction ins arbitrary: n) (auto simp: GetOutputFor_cached same_reads_const Let_def split: option.split if_splits)

lemma have_inputs_cached:
  "all_cached c ins \<Longrightarrow> \<exists>r. have_inputs_loop b1 k H ins (s, c) = (r, s, c) \<and> have_inputs_loop b2 k H ins (t, c) = (r, t, c)"
  by (induction ins) (auto simp: AccessCoins_in_cache)

lemma tally_cached:
  "all_cached c ins \<Longrightarrow> same_reads (tally_inputs b1 m maturity h ins v state (s, c)) (tally_inputs b2 m maturity h ins v state (t, c)) s t c"
  by (induction ins arbitrary: v) (auto simp: AccessCoins_in_cache same_reads_const Let_def)

lemma script_loop_cached:
  assumes "all_cached c (vin tx)" and "\<forall>i \<in> set ns. i < length (vin tx)"
  shows "\<exists>q. script_loop b1 ecdsa tx flags k ns cs state (s, c) = map_option (\<lambda>(r, state, cs). (r, state, cs, s, c)) q \<and>
    script_loop b2 ecdsa tx flags k ns cs state (t, c) = map_option (\<lambda>(r, state, cs). (r, state, cs, t, c)) q"
  using assms(2)
proof (induction ns arbitrary: cs)
  case Nil
  then show ?case by (intro exI [of _ "Some (True, state, cs)"]) simp
next
  case (Cons i ns)
  obtain e where e: "map_of (cacheCoins c) (COutPoint.op_hash (prevout (vin tx ! i))) = Some e"
    using assms(1) Cons.prems unfolding all_cached_def by (meson list.set_intros(1) not_None_eq nth_mem)
  have fail: "\<exists>q. map_option (\<lambda>p. (fst p, snd p, None, s, c)) z = map_option (\<lambda>a. (fst a, fst (snd a), snd (snd a), s, c)) q \<and>
      map_option (\<lambda>p. (fst p, snd p, None, t, c)) z = map_option (\<lambda>a. (fst a, fst (snd a), snd (snd a), t, c)) q"
    for z :: "(bool \<times> CValidationState) option"
    by (intro exI [of _ "map_option (\<lambda>p. (fst p, snd p, None)) z"]) (simp add: option.map_comp comp_def)
  have none: "\<exists>q. None = map_option f q \<and> None = map_option g q" for f :: "'x \<Rightarrow> 'y" and g :: "'x \<Rightarrow> 'z" by simp
  show ?case
    using Cons.IH [of "map_option (\<lambda>cs. cs @ [CScriptCheck_of (ce_coins e) tx i flags k]) cs"] Cons.prems
    by (auto simp: AccessCoins_in_cache e none fail Let_def option.map_comp comp_def case_prod_unfold split: option.split prod.split bool.split)
qed

lemma priority_cached:
  "all_cached c ins \<Longrightarrow> priority_loop b (ins) (s, c) = Some (s, c)"
  by (induction ins) (auto simp: AccessCoins_in_cache)


lemma value_in_cached: "all_cached c ins \<Longrightarrow> value_in_loop base ins v (s, c) = Some (w, st) \<Longrightarrow> st = (s, c)"
  by (induction ins arbitrary: v) (auto simp: GetOutputFor_cached Let_def split: if_splits)

lemma GetBestBlock_cached:
  "GetBestBlock base (s, c) = (h, s', c') \<Longrightarrow> cacheCoins c' = cacheCoins c \<and> cache_hashBlock c' = h"
  by (auto simp: GetBestBlock_def split: if_splits prod.splits)

lemma CheckInputs_cached:
  assumes "all_cached c (vin tx)" and "cache_hashBlock c \<noteq> 0"
  shows "\<exists>q. CheckInputs b1 m maturity bh ecdsa tx state (s, c) f flags k cs H = map_option (\<lambda>(r, state, cs). (r, state, cs, s, c)) q \<and>
    CheckInputs b2 m maturity bh ecdsa tx state (t, c) f flags k cs H = map_option (\<lambda>(r, state, cs). (r, state, cs, t, c)) q"
proof -
  have some: "\<exists>q. Some (r, st, cs, s, c) = map_option (\<lambda>(r, state, cs). (r, state, cs, s, c)) q \<and>
      Some (r, st, cs, t, c) = map_option (\<lambda>(r, state, cs). (r, state, cs, t, c)) q" for r st and cs :: "CScriptCheck list option"
    by (rule exI [of _ "Some (r, st, cs)"]) simp
  have none: "\<exists>q. None = map_option (\<lambda>(r, state, cs). (r :: bool, state :: CValidationState, cs :: CScriptCheck list option, s, c)) q \<and>
      None = map_option (\<lambda>(r, state, cs). (r, state, cs, t, c)) q"
    by (rule exI [of _ None]) simp
  obtain r where h: "have_inputs_loop b1 (IsCoinStake tx) H (vin tx) (s, c) = (r, s, c)"
      "have_inputs_loop b2 (IsCoinStake tx) H (vin tx) (t, c) = (r, t, c)"
    using have_inputs_cached [OF assms(1), of b1 "IsCoinStake tx" H s b2 t] by auto
  have g: "GetBestBlock b1 (s, c) = (cache_hashBlock c, s, c)" "GetBestBlock b2 (t, c) = (cache_hashBlock c, t, c)"
    using assms(2) by (simp_all add: GetBestBlock_def)
  note l = script_loop_cached [OF assms(1), of "[0..<length (vin tx)]" b1 ecdsa flags k cs state s b2 t]
  show ?thesis
  proof (cases "\<not> IsCoinBase tx \<and> \<not> HasZerocoinSpendInputs tx \<and> r")
    case False
    then show ?thesis
      by (auto simp: CheckInputs_def HaveInputs_def h some split: prod.split)
  next
    case True
    show ?thesis
    proof (cases "bh (cache_hashBlock c)")
      case None
      then show ?thesis using True none by (simp add: CheckInputs_def HaveInputs_def h g)
    next
      case (Some nHeight)
      from tally_cached [OF assms(1), of b1 m maturity "nHeight + 1" 0 state s b2 t] show ?thesis
      proof (cases rule: same_readsE)
        case 1
        then show ?thesis using True none Some by (simp add: CheckInputs_def HaveInputs_def h g)
      next
        case (2 v)
        then show ?thesis using True Some l none some
          by (auto simp: CheckInputs_def HaveInputs_def h g split: sum.split option.split)
      qed
    qed
  qed
qed

text \<open>Once the coins of the inputs are in the cache, the rest does not depend on the source.\<close>

lemma accept_scripts_cached:
  assumes "all_cached c (vin tx)" and "cache_hashBlock c \<noteq> 0"
  shows "accept_scripts M b1 P new tx state (s, c) = accept_scripts M b2 P new tx state (t, c)"
proof -
  let ?e = "m_block M" and ?K = "m_connect M"
  define H where "H = (if active_height ?e \<ge> StakingProtocol2Height then c_zc_start_height ?K else 0)"
  obtain q where q:
    "CheckInputs b1 (e_max_money ?e) (c_maturity ?K) (e_height ?e) (c_ecdsa ?K) tx state (s, c) True STANDARD_SCRIPT_VERIFY_FLAGS
       True None H = map_option (\<lambda>(r, state, cs). (r, state, cs, s, c)) q"
    "CheckInputs b2 (e_max_money ?e) (c_maturity ?K) (e_height ?e) (c_ecdsa ?K) tx state (t, c) True STANDARD_SCRIPT_VERIFY_FLAGS
       True None H = map_option (\<lambda>(r, state, cs). (r, state, cs, t, c)) q"
    using CheckInputs_cached [OF assms, where ?b1.0 = b1 and ?b2.0 = b2 and m = "e_max_money ?e" and maturity = "c_maturity ?K"
        and bh = "e_height ?e" and ecdsa = "c_ecdsa ?K" and state = state and s = s and t = t and f = True
        and flags = STANDARD_SCRIPT_VERIFY_FLAGS and k = True and cs = None and H = H] by blast
  show ?thesis
  proof (cases q)
    case None
    then show ?thesis using q by (simp add: accept_scripts_def Let_def flip: H_def)
  next
    case (Some x)
    obtain r state' cs where x: "x = (r, state', cs)" by (cases x)
    obtain y where y:
      "CheckInputs b1 (e_max_money ?e) (c_maturity ?K) (e_height ?e) (c_ecdsa ?K) tx state' (s, c) True MANDATORY_SCRIPT_VERIFY_FLAGS
         True None 0 = map_option (\<lambda>(r, state, cs). (r, state, cs, s, c)) y"
      "CheckInputs b2 (e_max_money ?e) (c_maturity ?K) (e_height ?e) (c_ecdsa ?K) tx state' (t, c) True MANDATORY_SCRIPT_VERIFY_FLAGS
         True None 0 = map_option (\<lambda>(r, state, cs). (r, state, cs, t, c)) y"
      using CheckInputs_cached [OF assms, where ?b1.0 = b1 and ?b2.0 = b2 and m = "e_max_money ?e" and maturity = "c_maturity ?K"
        and bh = "e_height ?e" and ecdsa = "c_ecdsa ?K" and state = state' and s = s and t = t and f = True
        and flags = MANDATORY_SCRIPT_VERIFY_FLAGS and k = True and cs = None and H = 0] by blast
    then show ?thesis using q Some x
      by (cases r; cases y) (auto simp: accept_scripts_def Let_def split: bool.split simp flip: H_def)
  qed
qed

lemma accept_entry_cached:
  assumes "all_cached c (vin tx)" and "cache_hashBlock c \<noteq> 0"
  shows "accept_entry M b1 zero f P tx v state (s, c) = accept_entry M b2 zero f P tx v state (t, c)"
proof -
  have 1: "same_reads (if m_require_standard M then AreInputsStandard b1 tx (s, c) else Some (True, s, c))
      (if m_require_standard M then AreInputsStandard b2 tx (t, c) else Some (True, t, c)) s t c"
    using inputs_standard_cached [OF assms(1), of b1 s b2 t] by (simp add: AreInputsStandard_def same_reads_const)
  have 2: "same_reads (accept_sigops b1 tx state (s, c)) (accept_sigops b2 tx state (t, c)) s t c"
  proof -
    from p2sh_sigops_cached [OF assms(1), of b1 0 s b2 t] show ?thesis
      by (cases rule: same_readsE)
        (auto simp: accept_sigops_def GetP2SHSigOpCount_def same_reads_const split: option.split)
  qed
  have 3: "GetPriority b1 tx (s, c) = Some (s, c)" "GetPriority b2 tx (t, c) = Some (t, c)"
    by (simp_all add: GetPriority_def priority_cached [OF assms(1)])
  have 4: "accept_fees M b1 zero f P tx n state (s, c) = accept_fees M b2 zero f P tx n state (t, c)" for n
    by (simp only: accept_fees_def accept_scripts_cached [OF assms, of M b1 P _ state s b2 t])
  from 1 show ?thesis
  proof (cases rule: same_readsE)
    case 1
    then show ?thesis by (simp only: accept_entry_def option.case)
  next
    case r: (2 r)
    show ?thesis
    proof (cases r)
      case False
      then show ?thesis by (simp only: accept_entry_def option.case r prod.case bool.case)
    next
      case True
      from 2 show ?thesis
        by (cases rule: same_readsE)
          (simp_all only: accept_entry_def option.case r prod.case bool.case True 3 4 if_cancel)
    qed
  qed
qed

section \<open>What is accepted\<close>

lemma Solver_None: "Solver script vs = None \<longleftrightarrow> script = [OP_ZEROCOINMINT]"
proof -
  have "Solver script vs = None \<longleftrightarrow> \<not> IsPayToScriptHash script \<and> IsZerocoinMint script \<and> length script < 2"
    by (cases "scan_templates script mTemplates") (auto simp: Solver_def)
  then show ?thesis by (cases script; cases "tl script") (auto simp: IsZerocoinMint_def IsPayToScriptHash_def)
qed

lemma IsStandard_None: "IsStandard dc n script = None \<longleftrightarrow> script = [OP_ZEROCOINMINT]"
  by (cases "Solver script []") (auto simp: IsStandard_def Solver_None [of _ "[]", symmetric] split: prod.split)

lemma not_mint_script: "\<not> CTxOut_IsZerocoinMint txout \<Longrightarrow> scriptPubKey txout \<noteq> [OP_ZEROCOINMINT]"
  by (auto simp: CTxOut_IsZerocoinMint_def IsZerocoinMint_def)

lemma standard_outputs_Some: "\<not> list_ex CTxOut_IsZerocoinMint outs \<Longrightarrow> standard_outputs p n outs \<noteq> None"
  by (induction outs arbitrary: n) (auto simp: IsStandard_None not_mint_script split: option.split bool.split)

lemma IsStandardTx_Some: "\<not> ContainsZerocoins tx \<Longrightarrow> IsStandardTx p height time tx \<noteq> None"
  using standard_outputs_Some [of "vout tx" p 0]
  by (auto simp: IsStandardTx_def ContainsZerocoins_def HasZerocoinMintOutputs_def split: option.split sum.split)

text \<open>A redeem script for which \<open>Solver\<close> is undefined.\<close>

definition bare_mint_redeem :: "CTxIn \<Rightarrow> bool" where
  "bare_mint_redeem txin \<longleftrightarrow>
     (\<exists>stack. EvalScript [] (scriptSig txin) 0 BaseSignatureChecker = Inr ([OP_ZEROCOINMINT] # stack))"

lemma input_standard_Some:
  assumes "\<not> CTxOut_IsZerocoinMint prev" and "\<not> bare_mint_redeem txin"
  shows "input_standard prev txin \<noteq> None"
proof -
  have "Solver (scriptPubKey prev) [] \<noteq> None" using assms(1) by (simp add: Solver_None not_mint_script)
  moreover have "Solver (hd stack) [] \<noteq> None"
    if "EvalScript [] (scriptSig txin) 0 BaseSignatureChecker = Inr stack" "stack \<noteq> []" for stack
    using assms(2) that by (cases stack) (auto simp: Solver_None bare_mint_redeem_def)
  moreover have "GetSigOpCount script True \<noteq> None" for script by (simp add: GetSigOpCount_def GetSigOpCount_loop_sigops)
  ultimately show ?thesis by (auto simp: input_standard_def Let_def split: option.split sum.split bool.split)
qed

context coins_source
begin

lemma inputs_standard_ok:
  assumes "cache_inv invar utxo has st" and "list_all (input_ok (cache_utxo utxo st) k H) ins"
    and "\<not> list_ex bare_mint_redeem ins"
  shows "\<exists>r st'. inputs_standard_loop base ins st = Some (r, st') \<and>
    cache_inv invar utxo has st' \<and> cache_utxo utxo st' = cache_utxo utxo st \<and> cache_best best st' = cache_best best st"
  using assms
proof (induction ins arbitrary: st)
  case (Cons txin ins)
  obtain s1 c1 where g: "GetOutputFor base st txin = Some (coin_out (coin_at (cache_utxo utxo st) txin), s1, c1)"
      "cache_inv invar utxo has (s1, c1)" "cache_utxo utxo (s1, c1) = cache_utxo utxo st"
      "cache_best best (s1, c1) = cache_best best st"
    using GetOutputFor_ok [OF Cons.prems(1), of k H txin] Cons.prems(2) by auto
  have "\<not> CTxOut_IsZerocoinMint (coin_out (coin_at (cache_utxo utxo st) txin))"
    using Cons.prems(2) by (auto simp: input_ok_def coin_at_def split: option.splits)
  then obtain q where q: "input_standard (coin_out (coin_at (cache_utxo utxo st) txin)) txin = Some q"
    using input_standard_Some [of _ txin] Cons.prems(3) by fastforce
  show ?case using Cons.IH [OF g(2)] Cons.prems(2,3) g q by (cases q) auto
qed (auto intro: exI [of _ True])

lemma priority_loop_ok:
  assumes "cache_inv invar utxo has st" and "list_all (input_ok (cache_utxo utxo st) k H) ins"
  shows "\<exists>st'. priority_loop base ins st = Some st' \<and>
    cache_inv invar utxo has st' \<and> cache_utxo utxo st' = cache_utxo utxo st \<and> cache_best best st' = cache_best best st"
  using assms
proof (induction ins arbitrary: st)
  case (Cons txin ins)
  obtain coins s1 c1 where "AccessCoins base st (COutPoint.op_hash (prevout txin)) = (Some coins, s1, c1)"
      "cache_inv invar utxo has (s1, c1)" "cache_utxo utxo (s1, c1) = cache_utxo utxo st"
      "cache_best best (s1, c1) = cache_best best st"
    using AccessCoins_present [OF Cons.prems(1), of k H txin] Cons.prems(2) by auto
  then show ?case using Cons.IH [of "(s1, c1)"] Cons.prems(2) by auto
qed simp

text \<open>The part before the source is taken away.\<close>

lemma accept_inputs_ok:
  assumes "cache_inv invar utxo has st" and "\<not> IsCoinBase tx" and "\<not> HasZerocoinSpendInputs tx" and "\<not> IsCoinStake tx"
  shows "\<exists>r s' c'. accept_inputs M base tx state st = Some (r, s', c') \<and> cache_inv invar utxo has (s', c') \<and>
    cache_utxo utxo (s', c') = cache_utxo utxo st \<and> cache_best best (s', c') = cache_best best st \<and>
    (case r of Inl ((ok, _), _) \<Rightarrow> \<not> ok
     | Inr v \<Rightarrow> list_all (input_ok (cache_utxo utxo st) False (c_zc_start_height (m_connect M))) (vin tx) \<and>
         v = of_int (inputs_value (cache_utxo utxo st) (vin tx)) \<and> cache_utxo utxo st (tx_hash tx) = (\<lambda>n. None) \<and>
         (cache_best best st \<noteq> 0 \<longrightarrow> cache_hashBlock c' \<noteq> 0) \<and> all_cached c' (vin tx))"
proof -
  let ?U = "cache_utxo utxo st" and ?H = "c_zc_start_height (m_connect M)"
  obtain r1 s1 c1 where 1: "HaveCoins base st (tx_hash tx) = (r1, s1, c1)" "cache_inv invar utxo has (s1, c1)"
      "cache_utxo utxo (s1, c1) = ?U" "cache_best best (s1, c1) = cache_best best st" "?U (tx_hash tx) \<noteq> (\<lambda>n. None) \<longrightarrow> r1"
    using HaveCoins_ok [OF assms(1), of "tx_hash tx"] by auto
  obtain r2 s2 c2 where 2: "have_all_coins base (vin tx) (s1, c1) = (r2, s2, c2)" "cache_inv invar utxo has (s2, c2)"
      "cache_utxo utxo (s2, c2) = ?U" "cache_best best (s2, c2) = cache_best best st"
      "r2 \<longrightarrow> (\<forall>txin \<in> set (vin tx). cache_has (s2, c2) (COutPoint.op_hash (prevout txin)))"
    using have_all_coins_ok [OF 1(2), of "vin tx"] 1(3,4) by auto
  show ?thesis
  proof (cases "\<not> r1 \<and> r2")
    case False
    then show ?thesis using 1 2 by (cases r1) (simp_all add: accept_inputs_def)
  next
    case True
    then have a: "all_cached c2 (vin tx)" using 2(5) by (simp add: all_cached_def cache_has_def)
    have "HaveInputs base (s2, c2) tx ?H = (list_all (input_ok ?U False ?H) (vin tx), s2, c2)"
    proof -
      obtain r where r: "have_inputs_loop base False ?H (vin tx) (s2, c2) = (r, s2, c2)"
        using have_inputs_cached [OF a, of base False ?H s2 base s2] by auto
      then have "HaveInputs base (s2, c2) tx ?H = (r, s2, c2)" using assms(2-4) by (simp add: HaveInputs_def)
      then show ?thesis using HaveInputs_ok [OF 2(2) refl, of tx ?H] assms(2-4) 2(3) by simp
    qed
    note h = this
    show ?thesis
    proof (cases "list_all (input_ok ?U False ?H) (vin tx)")
      case False
      obtain r state' where "Invalid state False REJECT_DUPLICATE ''bad-txns-inputs-spent'' = (r, state')" "\<not> r"
        using rejected_simps(2) [of state REJECT_DUPLICATE "''bad-txns-inputs-spent''"] rejected_False by (metis prod.exhaust)
      then show ?thesis using False True 1 2 h by (simp add: accept_inputs_def)
    next
      case i: True
      obtain q s3 c3 where g: "GetBestBlock base (s2, c2) = (q, s3, c3)" by (metis prod.exhaust)
      note 3 = GetBestBlock_ok [OF 2(2) g] GetBestBlock_cached [OF g]
      have a3: "all_cached c3 (vin tx)" using a 3 by (simp add: all_cached_def)
      have "list_all (input_ok (cache_utxo utxo (s3, c3)) False ?H) (vin tx)" using i 2(3) 3 by simp
      then obtain st4 where v: "GetValueIn base (s3, c3) tx = Some (of_int (inputs_value ?U (vin tx)), st4)"
        using GetValueIn_ok [of "(s3, c3)" False ?H tx] assms(2,3) 2(3) 3 by auto
      have "st4 = (s3, c3)"
        using v value_in_cached [OF a3] assms(2,3) by (simp add: GetValueIn_def)
      then have "accept_inputs M base tx state st = Some (Inr (of_int (inputs_value ?U (vin tx))), s3, c3)"
        using True 1 2 h i g v by (simp add: accept_inputs_def)
      then show ?thesis using True i 1 2 3 a3 by auto
    qed
  qed
qed

lemma accept_scripts_ok:
  assumes "cache_inv invar utxo has st" and "\<not> IsCoinBase tx" and "\<not> HasZerocoinSpendInputs tx"
    and "e_height (m_block M) (cache_best best st) = Some h" and "0 \<le> sint (e_max_money (m_block M))"
    and "sint (e_max_money (m_block M)) < 2 ^ 62" and "GetValueOut tx = Inr vo" and "sint vo = total_value (vout tx)" and "0 \<le> sint vo"
  shows "\<exists>r. accept_scripts M base P new tx state st = Some r \<and>
    (case r of Inl (ok, _) \<Rightarrow> \<not> ok
     | Inr (P', state') \<Rightarrow> P' = addUnchecked P (tx_hash tx) new \<and> state' = state \<and>
         inputs_valid (cache_utxo utxo st) (e_max_money (m_block M)) (c_maturity (m_connect M)) (h + 1) 0 tx \<and>
         (\<forall>i < length (vin tx). script_ok (c_ecdsa (m_connect M)) (cache_utxo utxo st) tx STANDARD_SCRIPT_VERIFY_FLAGS i))"
proof -
  let ?e = "m_block M" and ?K = "m_connect M" and ?U = "cache_utxo utxo st"
  define H where "H = (if active_height ?e \<ge> StakingProtocol2Height then c_zc_start_height ?K else 0)"
  note ci = CheckInputs_ok [where m = "e_max_money ?e" and maturity = "c_maturity ?K" and block_height = "e_height ?e"
      and ecdsa = "c_ecdsa ?K" and tx = tx and fScriptChecks = True and cacheStore = True and h = h and vo = vo,
      unfolded if_True]
  obtain r1 state1 s1 c1 where 1: "CheckInputs base (e_max_money ?e) (c_maturity ?K) (e_height ?e) (c_ecdsa ?K) tx state st
        True STANDARD_SCRIPT_VERIFY_FLAGS True None H = Some (r1, state1, None, s1, c1)"
      "cache_inv invar utxo has (s1, c1)" "cache_utxo utxo (s1, c1) = ?U" "cache_best best (s1, c1) = cache_best best st"
      "if inputs_valid ?U (e_max_money ?e) (c_maturity ?K) (h + 1) H tx
       then script_result (c_ecdsa ?K) ?U tx STANDARD_SCRIPT_VERIFY_FLAGS {..<length (vin tx)} state r1 state1
       else rejected state (r1, state1)"
    using ci [OF assms, of state STANDARD_SCRIPT_VERIFY_FLAGS H] by (metis (no_types) prod.exhaust)
  have e1: "e_height ?e (cache_best best (s1, c1)) = Some h" using assms(4) 1(4) by simp
  obtain r2 state2 st2 where 2: "CheckInputs base (e_max_money ?e) (c_maturity ?K) (e_height ?e) (c_ecdsa ?K) tx state1 (s1, c1)
        True MANDATORY_SCRIPT_VERIFY_FLAGS True None 0 = Some (r2, state2, None, st2)"
      "if inputs_valid ?U (e_max_money ?e) (c_maturity ?K) (h + 1) 0 tx
       then script_result (c_ecdsa ?K) ?U tx MANDATORY_SCRIPT_VERIFY_FLAGS {..<length (vin tx)} state1 r2 state2
       else rejected state1 (r2, state2)"
    using ci [OF 1(2) assms(2,3) e1 assms(5-9), of state1 MANDATORY_SCRIPT_VERIFY_FLAGS 0, unfolded 1(3)] by (metis (no_types))
  have "state1 = state \<and> (\<forall>i < length (vin tx). script_ok (c_ecdsa ?K) ?U tx STANDARD_SCRIPT_VERIFY_FLAGS i)" if r1
    using 1(5) that rejected_False [of state r1 state1] unfolding script_result_def by (auto split: if_splits)
  moreover have "state2 = state1 \<and> inputs_valid ?U (e_max_money ?e) (c_maturity ?K) (h + 1) 0 tx" if r2
    using 2(2) that rejected_False [of state1 r2 state2] unfolding script_result_def by (auto split: if_splits)
  ultimately show ?thesis using 1(1) 2(1) by (cases r1; cases r2) (simp_all add: accept_scripts_def Let_def flip: H_def)
qed

lemma accept_entry_ok:
  assumes "cache_inv invar utxo has st" and "\<not> IsCoinBase tx" and "\<not> HasZerocoinSpendInputs tx"
    and "e_height (m_block M) (cache_best best st) = Some h" and "0 \<le> sint (e_max_money (m_block M))"
    and "sint (e_max_money (m_block M)) < 2 ^ 62" and "GetValueOut tx = Inr vo" and "sint vo = total_value (vout tx)" and "0 \<le> sint vo"
    and "list_all (input_ok (cache_utxo utxo st) k H) (vin tx)"
    and "m_require_standard M \<Longrightarrow> \<not> list_ex bare_mint_redeem (vin tx)"
  shows "\<exists>r. accept_entry M base zero f P tx v state st = Some r \<and>
    (case r of Inl (ok, _) \<Rightarrow> \<not> ok
     | Inr (P', state') \<Rightarrow> P' = addUnchecked P (tx_hash tx) (mempool_entry M zero tx (v - vo)) \<and> state' = state \<and>
         inputs_valid (cache_utxo utxo st) (e_max_money (m_block M)) (c_maturity (m_connect M)) (h + 1) 0 tx \<and>
         (\<forall>i < length (vin tx). script_ok (c_ecdsa (m_connect M)) (cache_utxo utxo st) tx STANDARD_SCRIPT_VERIFY_FLAGS i) \<and>
         fee_too_low M tx (v - vo) (e_nTxSize (mempool_entry M zero tx (v - vo))) = None)"
proof -
  let ?U = "cache_utxo utxo st" and ?new = "mempool_entry M zero tx (v - vo)"
  have rej: "fst (DoS state n False c reason False) = False" for n c reason by simp
  obtain r1 s1 c1 where 1: "(if m_require_standard M then AreInputsStandard base tx st else Some (True, st)) = Some (r1, s1, c1)"
      "cache_inv invar utxo has (s1, c1)" "cache_utxo utxo (s1, c1) = ?U" "cache_best best (s1, c1) = cache_best best st"
    using inputs_standard_ok [OF assms(1,10)] assms(1-3,11)
    by (cases st; cases "m_require_standard M") (auto simp: AreInputsStandard_def)
  show ?thesis
  proof (cases r1)
    case False
    then show ?thesis using 1(1) by (simp add: accept_entry_def)
  next
    case True
    obtain n s2 c2 where 2: "p2sh_sigops_loop base (vin tx) 0 (s1, c1) = Some (n, s2, c2)"
        "cache_inv invar utxo has (s2, c2)" "cache_utxo utxo (s2, c2) = ?U" "cache_best best (s2, c2) = cache_best best st"
      using p2sh_sigops_loop_ok [OF 1(2), of k H "vin tx" 0] assms(10) 1(3,4) by auto
    define q where "q = (if of_nat (tx_sigops tx) + n > MAX_TX_SIGOPS_CURRENT
      then Some (DoS state 0 False REJECT_NONSTANDARD ''bad-txns-too-many-sigops'' False) else None)"
    have sig: "accept_sigops base tx state (s1, c1) = Some (q, s2, c2)"
      using 2(1) assms(2,3) by (simp add: accept_sigops_def GetP2SHSigOpCount_def GetLegacySigOpCount_val q_def)
    have no: "\<not> fst r" if "q = Some r" for r using that by (auto simp: q_def split: if_splits)
    show ?thesis
    proof (cases q)
      case (Some r)
      then show ?thesis using 1(1) sig no [of r] True by (cases r) (simp add: accept_entry_def)
    next
      case None
      obtain s3 c3 where 3: "GetPriority base tx (s2, c2) = Some (s3, c3)"
          "cache_inv invar utxo has (s3, c3)" "cache_utxo utxo (s3, c3) = ?U" "cache_best best (s3, c3) = cache_best best st"
        using priority_loop_ok [OF 2(2), of k H "vin tx"] assms(10) 2(2-4)
        by (cases "IsCoinBase tx \<or> IsCoinStake tx") (auto simp: GetPriority_def)
      have e: "accept_entry M base zero f P tx v state st = accept_fees M base zero f P tx (v - vo) state (s3, c3)"
        using 1(1) sig 3(1) True None assms(3,7) by (simp add: accept_entry_def)
      have h3: "e_height (m_block M) (cache_best best (s3, c3)) = Some h" using assms(4) 3(4) by simp
      obtain r where r: "accept_scripts M base P ?new tx state (s3, c3) = Some r"
          "case r of Inl (ok, _) \<Rightarrow> \<not> ok
           | Inr (P', state') \<Rightarrow> P' = addUnchecked P (tx_hash tx) ?new \<and> state' = state \<and>
               inputs_valid ?U (e_max_money (m_block M)) (c_maturity (m_connect M)) (h + 1) 0 tx \<and>
               (\<forall>i < length (vin tx). script_ok (c_ecdsa (m_connect M)) ?U tx STANDARD_SCRIPT_VERIFY_FLAGS i)"
        using accept_scripts_ok [OF 3(2) assms(2,3) h3 assms(5-9), of P ?new state, unfolded 3(3)] by blast
      show ?thesis
      proof (cases "fee_too_low M tx (v - vo) (e_nTxSize ?new)")
        case None
        then show ?thesis using r unfolding e by (auto simp: accept_fees_def Let_def split: sum.splits)
      next
        case (Some reason)
        then show ?thesis using rej [of 0 REJECT_INSUFFICIENTFEE reason] unfolding e
          by (auto simp: accept_fees_def Let_def split: prod.split)
      qed
    qed
  qed
qed

end

lemma accept_checks_ok:
  assumes "\<not> ContainsZerocoins tx" and "e_tip (m_block M) = Some (b, h)" and "0 \<le> sint (e_max_money (m_block M))"
    and "sint (e_max_money (m_block M)) < 2 ^ 62" and "0 \<le> zc_max_spends (e_zc (m_block M))"
  shows "\<exists>r. accept_checks M P tx state = Some r \<and>
    (case r of Inl (ok, _) \<Rightarrow> \<not> ok
     | Inr _ \<Rightarrow> CheckTransaction (e_max_money (m_block M)) (e_zc (m_block M)) (e_fVerifySignature (m_block M)) tx
           (h \<ge> c_zc_start_height (m_connect M)) state = (True, state) \<and>
         \<not> IsCoinBase tx \<and> \<not> IsCoinStake tx \<and> \<not> pool_exists P (tx_hash tx) \<and>
         list_all (\<lambda>txin. map_of (mapNextTx P) (prevout txin) = None) (vin tx) \<and>
         (h \<ge> LAST_POW_BLOCK (e_params (m_block M)) \<and> m_require_standard M \<longrightarrow>
           IsStandardTx (m_policy M) h (e_adjusted_time (m_block M)) tx = Some (Inr ())))"
proof -
  let ?e = "m_block M"
  have a: "active_height ?e = h" using assms(2) by (simp add: active_height_def)
  have z: "\<not> HasZerocoinSpendInputs tx" using assms(1) by (simp add: ContainsZerocoins_def)
  define ct where "ct = CheckTransaction (e_max_money ?e) (e_zc ?e) (e_fVerifySignature ?e) tx (h \<ge> c_zc_start_height (m_connect M)) state"
  obtain ok state' where c: "ct = (ok, state')" by (cases ct)
  have s: "ok \<Longrightarrow> state' = state"
    using CheckTransaction_plain(2) [OF assms(1,3-5), of "e_fVerifySignature ?e" "h \<ge> c_zc_start_height (m_connect M)" state] c
    unfolding ct_def by auto
  have rej: "\<exists>r. Some (Inl (DoS state' n False cd reason False)) = Some r \<and> (case r of Inl (ok, _) \<Rightarrow> \<not> ok | Inr u \<Rightarrow> Q u)"
    for state' n cd reason and Q :: "unit \<Rightarrow> bool"
    using DoS_fst [of state' n False cd reason False] by (auto split: prod.split)
  obtain q where q: "(if h \<ge> LAST_POW_BLOCK (e_params ?e) \<and> m_require_standard M
      then IsStandardTx (m_policy M) h (e_adjusted_time ?e) tx else Some (Inr ())) = Some q"
    using IsStandardTx_Some [OF assms(1), of "m_policy M" h "e_adjusted_time ?e"]
    by (cases "h \<ge> LAST_POW_BLOCK (e_params ?e) \<and> m_require_standard M") auto
  show ?thesis
    unfolding accept_checks_def Let_def a ct_def [symmetric] c assms(2) option.case prod.case q
    using rej assms(1) z s q
    by (cases ok; cases q) (auto simp: list_all_iff list_ex_iff split: if_splits)
qed

interpretation memview: coins_source "mempool_view tip_view P" "\<lambda>s. tip_inv s \<and> tip_utxo s = V \<and> tip_best s = b"
    "\<lambda>s. pool_utxo P (tip_utxo s)" "\<lambda>s txid. pool_exists P txid \<or> cache_has s txid" tip_best
  for P :: "'d CTxMemPool" and V :: coins_fun and b :: uint256
  by (rule tip.mempool_is_source)

text \<open>What an accepted transaction satisfies, over the outputs \<open>U\<close> of the chain and the pool.\<close>

definition loose_tx_ok :: "mempool_env \<Rightarrow> coins_fun \<Rightarrow> 'd CTxMemPool \<Rightarrow> int \<Rightarrow> CTransaction \<Rightarrow> bool" where
  "loose_tx_ok M U P h tx \<longleftrightarrow>
     tx_valid (e_max_money (m_block M)) (h \<ge> c_zc_start_height (m_connect M)) tx \<and> \<not> IsCoinBase tx \<and> \<not> IsCoinStake tx \<and>
     \<not> pool_exists P (tx_hash tx) \<and> (\<forall>txin \<in> set (vin tx). map_of (mapNextTx P) (prevout txin) = None) \<and>
     inputs_valid U (e_max_money (m_block M)) (c_maturity (m_connect M)) (h + 1) 0 tx \<and>
     (\<forall>i < length (vin tx). script_ok (c_ecdsa (m_connect M)) U tx STANDARD_SCRIPT_VERIFY_FLAGS i) \<and>
     sint (GetFee (minRelayTxFee (m_policy M)) (e_nTxSize (mempool_entry M () tx 0))) \<le>
       inputs_value U (vin tx) - total_value (vout tx)"

lemma vin_le_ser: "length (vin tx) \<le> length (ser_tx tx)"
proof -
  have "length ins \<le> length (concat (map ser_CTxIn ins))" for ins :: "CTxIn list"
    by (induction ins) (auto simp: ser_CTxIn_def ser_COutPoint_def)
  then show ?thesis unfolding ser_tx_def ser_vector_def by (simp add: trans_le_add2 trans_le_add1)
qed

lemma mempool_entry_fields:
  "e_tx (mempool_entry M z tx n) = tx" "e_nTxSize (mempool_entry M z tx n) = e_nTxSize (mempool_entry M () tx 0)"
  by (simp_all add: mempool_entry_def CTxMemPoolEntry_of_def Let_def)

lemma addUnchecked_loose:
  assumes "pool_inv P" and "loose_tx_ok M U P h tx" and "\<not> ContainsZerocoins tx"
    and "\<forall>txin \<in> set (vin tx). COutPoint.op_hash (prevout txin) \<noteq> 0"
  shows "pool_inv (addUnchecked P (tx_hash tx) (mempool_entry M z tx n))"
proof -
  have "length (vin tx) < 2 ^ 32"
    using assms(2) vin_le_ser [of tx] by (simp add: loose_tx_ok_def tx_valid_def)
  then have "pool_tx tx"
    using assms(2-4) by (auto simp: pool_tx_def loose_tx_ok_def tx_valid_def ContainsZerocoins_def list_all_iff)
  moreover have "map_of (mapNextTx P) p = None" if "spends tx p" for p
    using assms(2) that by (auto simp: loose_tx_ok_def spends_def)
  ultimately show ?thesis
    using addUnchecked_inv [OF assms(1), of "mempool_entry M z tx n"] assms(2)
    by (simp add: mempool_entry_fields(1) loose_tx_ok_def pool_exists_def)
qed

lemma AcceptToMemoryPool_ok:
  assumes "tip_inv tip" and "pool_inv P" and "\<not> ContainsZerocoins tx" and "0 \<le> sint (e_max_money (m_block M))"
    and "sint (e_max_money (m_block M)) < 2 ^ 62" and "0 \<le> zc_max_spends (e_zc (m_block M))"
    and "e_tip (m_block M) = Some (tip_best tip, h)" and "e_height (m_block M) (tip_best tip) = Some h" and "tip_best tip \<noteq> 0"
    and "m_require_standard M \<Longrightarrow> \<not> list_ex bare_mint_redeem (vin tx)"
    and "tip_utxo tip 0 = (\<lambda>n. None)" and "\<not> pool_exists P 0"
  shows "\<exists>ok state' missing P' tip'. AcceptToMemoryPool M tip_view zero insane P state tx tip = Some ((ok, state'), missing, P', tip') \<and>
    tip_inv tip' \<and> tip_utxo tip' = tip_utxo tip \<and> tip_best tip' = tip_best tip \<and> (\<not> ok \<longrightarrow> P' = P) \<and>
    (ok \<longrightarrow> state' = state \<and> loose_tx_ok M (pool_utxo P (tip_utxo tip)) P h tx \<and> pool_inv P' \<and>
      P' = addUnchecked P (tx_hash tx) (mempool_entry M zero tx
        (of_int (inputs_value (pool_utxo P (tip_utxo tip)) (vin tx) - total_value (vout tx)))))"
proof -
  let ?m = "e_max_money (m_block M)" and ?U = "pool_utxo P (tip_utxo tip)"
  let ?inv = "cache_inv (\<lambda>s. tip_inv s \<and> tip_utxo s = tip_utxo tip \<and> tip_best s = tip_best tip)
    (\<lambda>s. pool_utxo P (tip_utxo s)) (\<lambda>s txid. pool_exists P txid \<or> cache_has s txid)"
  have z: "\<not> HasZerocoinSpendInputs tx" using assms(3) by (simp add: ContainsZerocoins_def)
  obtain r where r: "accept_checks M P tx state = Some r" and ok: "case r of Inl (ok, _) \<Rightarrow> \<not> ok
     | Inr _ \<Rightarrow> CheckTransaction ?m (e_zc (m_block M)) (e_fVerifySignature (m_block M)) tx
           (h \<ge> c_zc_start_height (m_connect M)) state = (True, state) \<and>
         \<not> IsCoinBase tx \<and> \<not> IsCoinStake tx \<and> \<not> pool_exists P (tx_hash tx) \<and>
         list_all (\<lambda>txin. map_of (mapNextTx P) (prevout txin) = None) (vin tx) \<and>
         (h \<ge> LAST_POW_BLOCK (e_params (m_block M)) \<and> m_require_standard M \<longrightarrow>
           IsStandardTx (m_policy M) h (e_adjusted_time (m_block M)) tx = Some (Inr ()))"
    using accept_checks_ok [OF assms(3,7,4-6), of P state] by blast
  show ?thesis
  proof (cases r)
    case (Inl q)
    then show ?thesis using r ok assms(1) by (cases q) (auto simp: AcceptToMemoryPool_def)
  next
    case (Inr u)
    note ok = ok [unfolded Inr sum.case]
    have i0: "?inv (tip, CCoinsViewCache_new)" "cache_utxo (\<lambda>s. pool_utxo P (tip_utxo s)) (tip, CCoinsViewCache_new) = ?U"
        "cache_best tip_best (tip, CCoinsViewCache_new) = tip_best tip"
      using assms(1) by (auto simp: cache_simps CCoinsViewCache_new_def map_ok_def merged_def fun_eq_iff)
    obtain q s c where a: "accept_inputs M (mempool_view tip_view P) tx state (tip, CCoinsViewCache_new) = Some (q, s, c)"
        and i: "?inv (s, c)" "cache_utxo (\<lambda>s. pool_utxo P (tip_utxo s)) (s, c) = ?U" "cache_best tip_best (s, c) = tip_best tip"
        and q: "case q of Inl ((ok, _), _) \<Rightarrow> \<not> ok
          | Inr v \<Rightarrow> list_all (input_ok ?U False (c_zc_start_height (m_connect M))) (vin tx) \<and> v = of_int (inputs_value ?U (vin tx)) \<and>
              ?U (tx_hash tx) = (\<lambda>n. None) \<and> (tip_best tip \<noteq> 0 \<longrightarrow> cache_hashBlock c \<noteq> 0) \<and> all_cached c (vin tx)"
      using memview.accept_inputs_ok [OF i0(1) _ z, of M state, unfolded i0(2,3)] ok by blast
    have tip': "tip_inv s" "tip_utxo s = tip_utxo tip" "tip_best s = tip_best tip" using i(1) by (simp_all add: cache_inv_def)
    show ?thesis
    proof (cases q)
      case (Inl x)
      obtain ok state' missing where x: "x = ((ok, state'), missing)" by (metis prod.exhaust)
      then have "\<not> ok" using Inl q by simp
      moreover have "AcceptToMemoryPool M tip_view zero insane P state tx tip = Some ((ok, state'), missing, P, s)"
        using Inl x r a z by (simp add: AcceptToMemoryPool_def Inr)
      ultimately show ?thesis using tip' by blast
    next
      case v: (Inr v)
      note q = q [unfolded v sum.case]
      obtain vo where vo: "GetValueOut tx = Inr vo" "sint vo = total_value (vout tx)" "0 \<le> sint vo"
        using CheckTransaction_values [OF conjunct1 [OF ok] assms(4,5)] by auto
      obtain w where w: "accept_entry M (mempool_view tip_view P) zero insane P tx v state (s, c) = Some w"
          and wr: "case w of Inl (ok, _) \<Rightarrow> \<not> ok
           | Inr (P', state') \<Rightarrow> P' = addUnchecked P (tx_hash tx) (mempool_entry M zero tx (v - vo)) \<and> state' = state \<and>
               inputs_valid ?U ?m (c_maturity (m_connect M)) (h + 1) 0 tx \<and>
               (\<forall>i < length (vin tx). script_ok (c_ecdsa (m_connect M)) ?U tx STANDARD_SCRIPT_VERIFY_FLAGS i) \<and>
               fee_too_low M tx (v - vo) (e_nTxSize (mempool_entry M zero tx (v - vo))) = None"
        using memview.accept_entry_ok [OF i(1) _ z _ assms(4,5) vo _ assms(10), where k = False
            and H = "c_zc_start_height (m_connect M)" and zero = zero and f = insane and v = v and state = state,
            unfolded i(2,3)] ok q assms(8) by blast
      have "accept_entry M dummy_view zero insane P tx v state ((), c) = Some w"
        using accept_entry_cached [of c tx M dummy_view zero insane P v state "()" "mempool_view tip_view P" s] q assms(9) w by simp
      note res = this
      show ?thesis
      proof (cases w)
        case (Inl x)
        obtain ok state' where x: "x = (ok, state')" by (cases x)
        then have "\<not> ok" using Inl wr by simp
        moreover have "AcceptToMemoryPool M tip_view zero insane P state tx tip = Some ((ok, state'), False, P, s)"
          using Inl x r a z res by (simp add: AcceptToMemoryPool_def \<open>r = Inr u\<close> v)
        ultimately show ?thesis using tip' by blast
      next
        case (Inr y)
        obtain P' state' where y: "y = (P', state')" by (cases y)
        let ?n = "inputs_value ?U (vin tx) - total_value (vout tx)"
        have n: "v - vo = of_int ?n" "total_value (vout tx) \<le> inputs_value ?U (vin tx)" "inputs_value ?U (vin tx) \<le> sint ?m"
        proof -
          have "vo = of_int (total_value (vout tx))" by (simp flip: vo(2))
          then show "v - vo = of_int ?n" using q by simp
          have "inputs_valid ?U ?m (c_maturity (m_connect M)) (h + 1) 0 tx" using wr Inr y by simp
          then show "total_value (vout tx) \<le> inputs_value ?U (vin tx)" "inputs_value ?U (vin tx) \<le> sint ?m"
            using ok by (simp_all add: inputs_valid_def)
        qed
        have "0 \<le> ?n" "?n \<le> sint ?m" using n(2,3) vo(2,3) by simp_all
        then have "sint (of_int ?n :: u64) = ?n" using assms(5) by (intro sint_of_int) simp_all
        then have "sint (v - vo) = ?n" unfolding n(1) .
        then have "sint (GetFee (minRelayTxFee (m_policy M)) (e_nTxSize (mempool_entry M () tx 0))) \<le> ?n"
          using wr Inr y z mempool_entry_fields(2) [of M zero tx "v - vo"]
          by (auto simp: fee_too_low_def word_sless_alt split: if_splits)
        then have l: "loose_tx_ok M ?U P h tx"
          using ok wr Inr y CheckTransaction_plain(1) [OF assms(3-6), of "e_fVerifySignature (m_block M)"
              "h \<ge> c_zc_start_height (m_connect M)" state] by (simp add: loose_tx_ok_def list_all_iff)
        have "\<forall>txin \<in> set (vin tx). COutPoint.op_hash (prevout txin) \<noteq> 0"
          using q assms(11,12) by (auto simp: list_all_iff input_ok_def pool_utxo_def pool_exists_def pool_lookup_def)
        note p = addUnchecked_loose [OF assms(2) l assms(3) this]
        have "AcceptToMemoryPool M tip_view zero insane P state tx tip = Some ((True, state'), False, P', s)"
          using r a z res by (simp add: AcceptToMemoryPool_def \<open>r = Inr u\<close> v Inr y)
        then show ?thesis using wr Inr y n(1) l p tip' by auto
      qed
    qed
  qed
qed

end
