(* ===== verification/BlockIndex.thy ===== *)
theory BlockIndex
  imports BlockRules
begin

text \<open>
  The index of blocks and how it grows (\<open>AcceptBlockHeader\<close> and \<open>AddToBlockIndex\<close> of
  \<open>src/main.cpp\<close>). The entries are those of \<open>Chain\<close>; the work, the forward pointers and the
  global variables the functions change are the other fields of the state. The address \<open>new\<close>
  gives is an argument, and so is whether the first staking protocol generated a stake modifier.
\<close>

section \<open>State and operations\<close>

record block_index =
  bx_map :: block_map
  mapBlockIndex :: "uint256 \<Rightarrow> ptr option"
  nChainWork :: "ptr \<Rightarrow> limbs"
  pnext :: "ptr \<Rightarrow> ptr option"
  pindexBestHeader :: "ptr option"
  setDirtyBlockIndex :: "ptr set"

definition block_index_empty :: block_index where
  "block_index_empty = \<lparr>bx_map = (\<lambda>p. None), mapBlockIndex = (\<lambda>h. None), nChainWork = (\<lambda>p. bu_zero 8), pnext = (\<lambda>p. None),
     pindexBestHeader = None, setDirtyBlockIndex = {}\<rparr>"

definition CBlockIndex_of :: "CBlock \<Rightarrow> uint256 \<Rightarrow> index_entry" where
  "CBlockIndex_of b h =
     (let pindexNew = \<lparr>bi_nHeight = 0, bi_nTime = bh_nTime b, bi_nBits = bh_nBits b, phashBlock = h, pprev = None, pskip = None,
            bi_nVersion = sint (bh_nVersion b), bi_nStatus = 0, bi_nFlags = 0\<rparr>
      in if IsProofOfStake b then SetProofOfStake pindexNew else pindexNew)"

abbreviation BLOCK_VALID_TREE :: u32 where "BLOCK_VALID_TREE \<equiv> 2"

text \<open>The part for a block whose predecessor is in the index: \<open>fGenerated\<close> belongs to the first
  staking protocol, the second reads the first input of the coinstake.\<close>

definition link_to_prev ::
    "block_map \<Rightarrow> CBlock \<Rightarrow> ptr \<Rightarrow> ptr \<Rightarrow> bool \<Rightarrow> block_map option" where
  "link_to_prev t b pindexNew q fGenerated =
     (case (t pindexNew, t q) of
        (Some new, Some prev) \<Rightarrow>
          (case BuildSkip (t(pindexNew \<mapsto> new\<lparr>pprev := Some q, bi_nHeight := bi_nHeight prev + 1\<rparr>)) pindexNew of
             None \<Rightarrow> None
           | Some t \<Rightarrow>
               (case t pindexNew of
                  None \<Rightarrow> None
                | Some new \<Rightarrow>
                    (let new = snd (SetStakeEntropyBit new (GetStakeEntropyBit new))
                     in if bi_nHeight new < StakingProtocol2Height
                        then Some (t(pindexNew \<mapsto> (if fGenerated
                          then new\<lparr>bi_nFlags := bi_nFlags new OR BLOCK_STAKE_MODIFIER\<rparr> else new)))
                        else if length (vtx b) < 2 \<or> vin (vtx b ! 1) = [] then None
                        else Some (t(pindexNew \<mapsto> new)))))
      | _ \<Rightarrow> None)"

definition AddToBlockIndex ::
    "block_env \<Rightarrow> block_index \<Rightarrow> CBlock \<Rightarrow> ptr \<Rightarrow> bool \<Rightarrow> (ptr \<times> block_index) option" where
  "AddToBlockIndex e X b pindexNew fGenerated =
     (let h = e_hash e b
      in case mapBlockIndex X h of
           Some p \<Rightarrow> Some (p, X)
         | None \<Rightarrow>
             (let t = (bx_map X)(pindexNew \<mapsto> CBlockIndex_of b h);
                  index = (mapBlockIndex X)(h \<mapsto> pindexNew);
                  prev = index (hashPrevBlock b)
              in case (case prev of None \<Rightarrow> Some t | Some q \<Rightarrow> link_to_prev t b pindexNew q fGenerated) of
                   None \<Rightarrow> None
                 | Some t \<Rightarrow>
                     (case t pindexNew of
                        None \<Rightarrow> None
                      | Some new \<Rightarrow>
                          (case (GetBlockProof (bi_nBits new), RaiseValidity new BLOCK_VALID_TREE) of
                             (Some proof, Some (_, new)) \<Rightarrow>
                               (let work = bu_add (case prev of None \<Rightarrow> uint256_of 0 | Some q \<Rightarrow> nChainWork X q) proof;
                                    best = (case pindexBestHeader X of
                                        None \<Rightarrow> Some pindexNew
                                      | Some p \<Rightarrow> if bu_gt work (nChainWork X p) then Some pindexNew else Some p)
                                in Some (pindexNew,
                                     X\<lparr>bx_map := t(pindexNew \<mapsto> new), mapBlockIndex := index,
                                       nChainWork := (nChainWork X)(pindexNew := work),
                                       pnext := (case prev of None \<Rightarrow> pnext X | Some q \<Rightarrow> (pnext X)(q \<mapsto> pindexNew)),
                                       pindexBestHeader := best,
                                       setDirtyBlockIndex := insert pindexNew (setDirtyBlockIndex X)\<rparr>))
                           | _ \<Rightarrow> None))))"

text \<open>The result comes with \<open>*ppindex\<close>, which stays null on most errors.\<close>

definition AcceptBlockHeader ::
    "block_env \<Rightarrow> block_index \<Rightarrow> int \<Rightarrow> CBlock \<Rightarrow> CValidationState \<Rightarrow> ptr \<Rightarrow> bool \<Rightarrow>
     (bool \<times> CValidationState \<times> ptr option \<times> block_index) option" where
  "AcceptBlockHeader e X height b state new fGenerated =
     (let t = bx_map X; h = e_hash e b
      in case mapBlockIndex X h of
           Some p \<Rightarrow>
             (case t p of
                None \<Rightarrow> None
              | Some pindex \<Rightarrow>
                  Some (if bi_nStatus pindex AND BLOCK_FAILED_MASK \<noteq> 0
                    then (case Invalid state False 0 ''duplicate'' of (r, state) \<Rightarrow> (r, state, Some p, X))
                    else (True, state, Some p, X)))
         | None \<Rightarrow>
             (case CheckBlockHeader e b state False of
                (False, state) \<Rightarrow> Some (False, state, None, X)
              | (True, state) \<Rightarrow>
                  (case (if h \<noteq> e_genesis e then
                           (case mapBlockIndex X (hashPrevBlock b) of
                              None \<Rightarrow> Some (Inl (DoS state 0 False 0 ''bad-prevblk'' False))
                            | Some q \<Rightarrow>
                                (case t q of
                                   None \<Rightarrow> None
                                 | Some prev \<Rightarrow>
                                     Some (if bi_nStatus prev AND BLOCK_FAILED_MASK \<noteq> 0
                                       then Inl (DoS state 100 False REJECT_INVALID ''bad-prevblk'' False) else Inr (Some q))))
                         else Some (Inr None)) of
                     None \<Rightarrow> None
                   | Some (Inl (r, state)) \<Rightarrow> Some (r, state, None, X)
                   | Some (Inr pindexPrev) \<Rightarrow>
                       (case ContextualCheckBlockHeader e t (mapBlockIndex X) height b state pindexPrev of
                          None \<Rightarrow> None
                        | Some (False, state) \<Rightarrow> Some (False, state, None, X)
                        | Some (True, state) \<Rightarrow>
                            map_option (\<lambda>(p, X). (True, state, Some p, X)) (AddToBlockIndex e X b new fGenerated)))))"

section \<open>Changing an entry\<close>

lemma walk_back_upd:
  assumes "t p = Some b" and "pprev b' = pprev b"
  shows "walk_back (t(p \<mapsto> b')) k x = walk_back t k x"
  by (rule walk_back_cong) (use assms in auto)

lemma ancestor_at_upd:
  assumes "t p = Some b" and "pprev b' = pprev b" and "bi_nHeight b' = bi_nHeight b"
  shows "ancestor_at (t(p \<mapsto> b')) h x = ancestor_at t h x"
proof -
  have "height_of (t(p \<mapsto> b')) x = height_of t x" using assms by (simp add: height_of_def)
  then show ?thesis unfolding ancestor_at_def walk_back_upd [of t p b b', OF assms(1,2)] by (simp only:)
qed

lemma tree_upd:
  assumes "wf_tree t" and "skips_ok t" and "t p = Some b"
    and "pprev b' = pprev b" and "bi_nHeight b' = bi_nHeight b" and "pskip b' = pskip b"
  shows "wf_tree (t(p \<mapsto> b'))" and "skips_ok (t(p \<mapsto> b'))"
proof -
  show "wf_tree (t(p \<mapsto> b'))"
    unfolding wf_tree_def
  proof (intro allI impI)
    fix x c assume a: "(t(p \<mapsto> b')) x = Some c"
    obtain c0 where c0: "t x = Some c0" "bi_nHeight c0 = bi_nHeight c" "pprev c0 = pprev c"
      using a assms(3-5) by (cases "x = p") auto
    note w = wf_treeD [OF assms(1) c0(1)]
    have "\<exists>d. (t(p \<mapsto> b')) q = Some d \<and> bi_nHeight d = bi_nHeight c - 1" if "pprev c = Some q" for q
      using w(3) [of q] that c0 assms(3,5) by (cases "q = p") auto
    then show "0 \<le> bi_nHeight c \<and> (pprev c = None \<longleftrightarrow> bi_nHeight c = 0) \<and>
        (\<forall>q. pprev c = Some q \<longrightarrow> (\<exists>d. (t(p \<mapsto> b')) q = Some d \<and> bi_nHeight d = bi_nHeight c - 1))"
      using w(1,2) c0 by simp
  qed
  show "skips_ok (t(p \<mapsto> b'))"
    unfolding skips_ok_def ancestor_at_upd [of t p b b', OF assms(3-5)] using assms(2,3,5,6) by (auto simp: skips_ok_def)
qed

lemma root_new:
  assumes "wf_tree t" and "skips_ok t" and "t p = None" and "pprev b = None" and "bi_nHeight b = 0"
  shows "wf_tree (t(p \<mapsto> b))" and "skips_ok (t(p \<mapsto> b))"
proof -
  show "wf_tree (t(p \<mapsto> b))"
    unfolding wf_tree_def
  proof (intro allI impI)
    fix x c assume a: "(t(p \<mapsto> b)) x = Some c"
    show "0 \<le> bi_nHeight c \<and> (pprev c = None \<longleftrightarrow> bi_nHeight c = 0) \<and>
        (\<forall>q. pprev c = Some q \<longrightarrow> (\<exists>d. (t(p \<mapsto> b)) q = Some d \<and> bi_nHeight d = bi_nHeight c - 1))"
    proof (cases "x = p")
      case True
      then show ?thesis using a assms(4,5) by simp
    next
      case False
      then have x: "t x = Some c" using a by simp
      have "\<exists>d. (t(p \<mapsto> b)) q = Some d \<and> bi_nHeight d = bi_nHeight c - 1" if "pprev c = Some q" for q
        using wf_treeD(3) [OF assms(1) x that] assms(3) by auto
      then show ?thesis using wf_treeD(1,2) [OF assms(1) x] by blast
    qed
  qed
  show "skips_ok (t(p \<mapsto> b))"
    using assms(2,3,5) ancestor_at_new [OF assms(1,3)] by (auto simp: skips_ok_def)
qed

lemma link_to_prev_ok:
  assumes "wf_tree t" and "skips_ok t" and "t p = None" and "t q = Some c"
    and "link_to_prev (t(p \<mapsto> new)) b p q fGenerated = Some t'"
  shows "wf_tree t' \<and> skips_ok t' \<and> (\<forall>x. x \<noteq> p \<longrightarrow> t' x = t x) \<and>
    (\<exists>b'. t' p = Some b' \<and> pprev b' = Some q \<and> bi_nHeight b' = bi_nHeight c + 1 \<and> bi_nTime b' = bi_nTime new \<and>
       phashBlock b' = phashBlock new \<and> bi_nBits b' = bi_nBits new)"
proof -
  have qp: "q \<noteq> p" using assms(3,4) by auto
  let ?new = "new\<lparr>pprev := Some q, bi_nHeight := bi_nHeight c + 1\<rparr>"
  obtain t1 where t1: "BuildSkip (t(p \<mapsto> ?new)) p = Some t1" "wf_tree t1" "skips_ok t1"
    using BuildSkip_keeps [OF assms(1-3), of ?new q c] assms(4) by auto
  obtain r where r: "t1 = t(p \<mapsto> ?new\<lparr>pskip := r\<rparr>)"
    using t1(1) by (auto simp: BuildSkip_def split: option.splits)
  obtain new' where n: "t' = t1(p \<mapsto> new')" "pprev new' = Some q" "bi_nHeight new' = bi_nHeight c + 1" "pskip new' = r"
      "bi_nTime new' = bi_nTime new" "phashBlock new' = phashBlock new" "bi_nBits new' = bi_nBits new"
    using assms(4,5) qp t1(1) by (auto simp: link_to_prev_def r SetStakeEntropyBit_def Let_def split: if_splits)
  have "t1 p = Some (?new\<lparr>pskip := r\<rparr>)" by (simp add: r)
  then have "wf_tree t'" "skips_ok t'" using tree_upd [of t1 p "?new\<lparr>pskip := r\<rparr>" new', OF t1(2,3)] n by simp_all
  then show ?thesis using n by (auto simp: r)
qed

section \<open>What holds of the index\<close>

text \<open>The timestamps of a block from the fork of the rewards on: a multiple of the interval, not
  before that of the previous block, and not used by more than two of the blocks before it.\<close>

definition times_ok :: "uint256 \<Rightarrow> block_map \<Rightarrow> ptr \<Rightarrow> bool" where
  "times_ok g t p \<longleftrightarrow> (\<forall>b. t p = Some b \<longrightarrow> REWARDFORK_BLOCK \<le> bi_nHeight b \<longrightarrow> phashBlock b \<noteq> g \<longrightarrow>
     GetBlockTime b mod nStakeInterval = 0 \<and>
     (\<exists>q c. pprev b = Some q \<and> t q = Some c \<and> GetBlockTime c \<le> GetBlockTime b) \<and>
     (\<exists>j \<in> {1, 2, 3}. \<exists>r d. walk_back t j p = Some r \<and> t r = Some d \<and> GetBlockTime d < GetBlockTime b))"

text \<open>The work of a header is that of its predecessor and its own, and the best header has the most.\<close>

definition best_ok :: "block_index \<Rightarrow> bool" where
  "best_ok X \<longleftrightarrow> (\<forall>p. length (nChainWork X p) = 8) \<and>
     (\<forall>p b. bx_map X p = Some b \<longrightarrow> (\<exists>proof. GetBlockProof (bi_nBits b) = Some proof \<and>
        nChainWork X p = bu_add (case pprev b of None \<Rightarrow> uint256_of 0 | Some q \<Rightarrow> nChainWork X q) proof)) \<and>
     (case pindexBestHeader X of
        None \<Rightarrow> bx_map X = (\<lambda>p. None)
      | Some p \<Rightarrow> bx_map X p \<noteq> None \<and>
          (\<forall>q. bx_map X q \<noteq> None \<longrightarrow> limbs_val (nChainWork X q) \<le> limbs_val (nChainWork X p)))"

definition index_inv :: "uint256 \<Rightarrow> block_index \<Rightarrow> bool" where
  "index_inv g X \<longleftrightarrow> wf_tree (bx_map X) \<and> skips_ok (bx_map X) \<and>
     (\<forall>h p. mapBlockIndex X h = Some p \<longleftrightarrow> (\<exists>b. bx_map X p = Some b \<and> phashBlock b = h)) \<and>
     (\<forall>p b. bx_map X p = Some b \<longrightarrow> bi_nHeight b = 0 \<longrightarrow> phashBlock b = g) \<and>
     (\<forall>p. times_ok g (bx_map X) p) \<and> best_ok X"

lemma index_inv_empty: "index_inv g block_index_empty"
  by (simp add: index_inv_def block_index_empty_def wf_tree_def skips_ok_def times_ok_def best_ok_def bu_zero_def)

lemma too_many_same_time_False:
  "too_many_same_time t time n p = Some False \<Longrightarrow>
   \<exists>j < n. \<exists>r d. walk_back t j p = Some r \<and> t r = Some d \<and> GetBlockTime d < time"
proof (induction t time n p rule: too_many_same_time.induct)
  case (2 t time n p)
  obtain b where b: "t p = Some b" using 2(2) by (cases "t p") auto
  show ?case
  proof (cases "uint (bi_nTime b) < time")
    case True
    then show ?thesis using b by (intro exI [of _ 0]) (simp add: GetBlockTime_def)
  next
    case False
    then obtain q where q: "pprev b = Some q" "too_many_same_time t time n q = Some False"
      using 2(2) b by (cases "pprev b") auto
    obtain j where "j < n" "\<exists>r d. walk_back t j q = Some r \<and> t r = Some d \<and> GetBlockTime d < time"
      using 2(1) [OF b False q] by blast
    then show ?thesis using b q(1) by (intro exI [of _ "Suc j"]) simp
  qed
qed simp

text \<open>A header that is accepted in its context keeps the rule.\<close>

lemma check_time_against_prev_no: "check_time_against_prev e t p prev nHeight b state \<noteq> Some (Inl (True, state'))"
  by (simp add: check_time_against_prev_def DoS_def Invalid_def Let_def split: if_splits option.splits)

lemma ContextualCheckBlockHeader_times:
  assumes "ContextualCheckBlockHeader e t index height b state (Some p) = Some (True, state')"
    and "e_hash e b \<noteq> e_genesis e" and "t p = Some prev" and "REWARDFORK_BLOCK \<le> bi_nHeight prev + 1"
  shows "block_time b mod nStakeInterval = 0 \<and> GetBlockTime prev \<le> block_time b \<and>
    (\<exists>j < 3. \<exists>r d. walk_back t j p = Some r \<and> t r = Some d \<and> GetBlockTime d < block_time b)"
proof -
  have "check_time_against_prev e t p prev (bi_nHeight prev + 1) b state = Some (Inr ())"
    using assms(1-3)
    by (auto simp: ContextualCheckBlockHeader_def Let_def check_time_against_prev_no split: if_splits option.splits sum.splits)
  then have "block_time b mod nStakeInterval = 0" "GetBlockTime prev \<le> block_time b"
      "too_many_same_time t (block_time b) 3 p = Some False"
    using assms(4) by (auto simp: check_time_against_prev_def GetBlockTime_def split: if_splits)
  then show ?thesis using too_many_same_time_False by blast
qed

lemma times_ok_old:
  assumes "wf_tree t" and "t p = None" and "\<And>x. x \<noteq> p \<Longrightarrow> t' x = t x" and "times_ok g t x" and "x \<noteq> p"
  shows "times_ok g t' x"
proof (cases "t x")
  case None
  then show ?thesis using assms(3,5) by (simp add: times_ok_def)
next
  case (Some b)
  have bk: "walk_back t' k y = walk_back t k y" if "t y = Some c" for k y c
    using that
  proof (induction k arbitrary: y c)
    case (Suc k)
    then have "y \<noteq> p" using assms(2) by auto
    then have "t' y = Some c" using Suc.prems assms(3) by simp
    then show ?case using Suc wf_treeD(3) [OF assms(1) Suc.prems] by (cases "pprev c") auto
  qed simp
  have same: "t q = Some c \<Longrightarrow> t' q = t q" for q c using assms(2) assms(3) [of q] by (cases "q = p") auto
  show ?thesis
    unfolding times_ok_def
  proof (intro allI impI)
    fix b' assume a: "t' x = Some b'" "REWARDFORK_BLOCK \<le> bi_nHeight b'" "phashBlock b' \<noteq> g"
    then have b: "b' = b" using Some assms(3,5) by simp
    from assms(4) Some a obtain q c j r d where "GetBlockTime b mod nStakeInterval = 0" "pprev b = Some q" "t q = Some c"
        "GetBlockTime c \<le> GetBlockTime b" "j \<in> {1, 2, 3}" "walk_back t j x = Some r" "t r = Some d" "GetBlockTime d < GetBlockTime b"
      unfolding times_ok_def b by blast
    moreover then have "t' q = Some c" "t' r = Some d" "walk_back t' j x = Some r"
      using same [of q c] same [of r d] bk [OF Some] by simp_all
    ultimately show "GetBlockTime b' mod nStakeInterval = 0 \<and>
        (\<exists>q c. pprev b' = Some q \<and> t' q = Some c \<and> GetBlockTime c \<le> GetBlockTime b') \<and>
        (\<exists>j \<in> {1, 2, 3}. \<exists>r d. walk_back t' j x = Some r \<and> t' r = Some d \<and> GetBlockTime d < GetBlockTime b')"
      unfolding b by blast
  qed
qed

section \<open>Adding a header keeps it\<close>

lemma length_GetBlockProof: "GetBlockProof nBits = Some p \<Longrightarrow> length p = 8"
proof -
  assume a: "GetBlockProof nBits = Some p"
  obtain t n ov where s: "SetCompact nBits = (t, n, ov)" by (metis prod.exhaust)
  have l: "length t = 8" using s length_SetCompact [of nBits] by simp
  have "length q = 8" if "bu_div (bu_not t) (bu_add t (uint256_of 1)) = Some q" for q
    using that bu_div_val [of "bu_not t" "bu_add t (uint256_of 1)"] l
      bu_div_zero [of "bu_add t (uint256_of 1)" "bu_not t"]
    by (cases "limbs_val (bu_add t (uint256_of 1)) = 0") (auto simp: bu_not_def)
  then show ?thesis using a l by (auto simp: GetBlockProof_def s split: if_splits)
qed

lemma RaiseValidity_fields:
  "RaiseValidity b m = Some (r, b') \<Longrightarrow> pprev b' = pprev b \<and> bi_nHeight b' = bi_nHeight b \<and> pskip b' = pskip b \<and>
     bi_nTime b' = bi_nTime b \<and> phashBlock b' = phashBlock b \<and> bi_nBits b' = bi_nBits b"
  by (auto simp: RaiseValidity_def Let_def split: if_splits)

lemma CBlockIndex_of_fields:
  "bi_nHeight (CBlockIndex_of b h) = 0" "bi_nTime (CBlockIndex_of b h) = bh_nTime b" "bi_nBits (CBlockIndex_of b h) = bh_nBits b"
  "phashBlock (CBlockIndex_of b h) = h" "pprev (CBlockIndex_of b h) = None" "pskip (CBlockIndex_of b h) = None"
  by (simp_all add: CBlockIndex_of_def Let_def SetProofOfStake_def)

text \<open>What the new entry is.\<close>

lemma AddToBlockIndex_new:
  assumes "AddToBlockIndex e X b p fGenerated = Some (r, X')" and "mapBlockIndex X (e_hash e b) = None"
    and "wf_tree (bx_map X)" and "skips_ok (bx_map X)" and "bx_map X p = None" and "hashPrevBlock b \<noteq> e_hash e b"
    and "\<And>q. mapBlockIndex X (hashPrevBlock b) = Some q \<Longrightarrow> bx_map X q \<noteq> None"
  shows "wf_tree (bx_map X') \<and> skips_ok (bx_map X') \<and> (\<forall>x. x \<noteq> p \<longrightarrow> bx_map X' x = bx_map X x) \<and>
    mapBlockIndex X' = (mapBlockIndex X)(e_hash e b \<mapsto> p) \<and>
    (\<exists>new proof. bx_map X' p = Some new \<and> pprev new = mapBlockIndex X (hashPrevBlock b) \<and>
       bi_nTime new = bh_nTime b \<and> phashBlock new = e_hash e b \<and> GetBlockProof (bi_nBits new) = Some proof \<and>
       bi_nHeight new = (case mapBlockIndex X (hashPrevBlock b) of None \<Rightarrow> 0 | Some q \<Rightarrow> bi_nHeight (the (bx_map X q)) + 1) \<and>
       nChainWork X' = (nChainWork X)(p := bu_add (case mapBlockIndex X (hashPrevBlock b) of
          None \<Rightarrow> uint256_of 0 | Some q \<Rightarrow> nChainWork X q) proof) \<and>
       pindexBestHeader X' = (case pindexBestHeader X of None \<Rightarrow> Some p
         | Some y \<Rightarrow> if bu_gt (nChainWork X' p) (nChainWork X y) then Some p else Some y))"
proof -
  let ?new = "CBlockIndex_of b (e_hash e b)"
  let ?t = "(bx_map X)(p \<mapsto> ?new)"
  let ?q = "mapBlockIndex X (hashPrevBlock b)"
  have ix: "((mapBlockIndex X)(e_hash e b \<mapsto> p)) (hashPrevBlock b) = ?q" using assms(6) by simp
  obtain t1 where t1: "(case ?q of None \<Rightarrow> Some ?t | Some q \<Rightarrow> link_to_prev ?t b p q fGenerated) = Some t1"
    using assms(1,2) unfolding AddToBlockIndex_def Let_def ix
    by (cases "case ?q of None \<Rightarrow> Some ?t | Some q \<Rightarrow> link_to_prev ?t b p q fGenerated") simp_all
  have w: "wf_tree t1 \<and> skips_ok t1 \<and> (\<forall>x. x \<noteq> p \<longrightarrow> t1 x = bx_map X x) \<and>
    (\<exists>b'. t1 p = Some b' \<and> pprev b' = ?q \<and>
       bi_nHeight b' = (case ?q of None \<Rightarrow> 0 | Some q \<Rightarrow> bi_nHeight (the (bx_map X q)) + 1) \<and>
       bi_nTime b' = bh_nTime b \<and> phashBlock b' = e_hash e b)"
  proof (cases ?q)
    case None
    then have "t1 = ?t" using t1 by simp
    moreover have "wf_tree ?t" "skips_ok ?t"
      by (rule root_new [OF assms(3-5)]; simp add: CBlockIndex_of_fields)+
    ultimately show ?thesis using None by (simp add: CBlockIndex_of_fields)
  next
    case (Some q)
    then obtain c where c: "bx_map X q = Some c" using assms(7) by blast
    have "link_to_prev ?t b p q fGenerated = Some t1" using t1 Some by simp
    from link_to_prev_ok [OF assms(3-5) c this] show ?thesis using Some c by (auto simp: CBlockIndex_of_fields)
  qed
  then obtain b1 where b1: "t1 p = Some b1" by blast
  obtain pf where pr: "GetBlockProof (bi_nBits b1) = Some pf"
    using assms(1,2) t1 b1 unfolding AddToBlockIndex_def Let_def ix
    by (cases "GetBlockProof (bi_nBits b1)") simp_all
  obtain b2 where rv: "RaiseValidity b1 BLOCK_VALID_TREE = Some b2"
    using assms(1,2) t1 b1 pr unfolding AddToBlockIndex_def Let_def ix
    by (cases "RaiseValidity b1 BLOCK_VALID_TREE") simp_all
  then obtain y where y: "RaiseValidity b1 BLOCK_VALID_TREE = Some (y, snd b2)" by (metis prod.collapse)
  note f = RaiseValidity_fields [OF y]
  have X': "bx_map X' = t1(p \<mapsto> snd b2)" "mapBlockIndex X' = (mapBlockIndex X)(e_hash e b \<mapsto> p)"
      "nChainWork X' = (nChainWork X)(p := bu_add (case ?q of None \<Rightarrow> uint256_of 0 | Some q \<Rightarrow> nChainWork X q) pf)"
      "pindexBestHeader X' = (case pindexBestHeader X of None \<Rightarrow> Some p
         | Some y \<Rightarrow> if bu_gt (nChainWork X' p) (nChainWork X y) then Some p else Some y)"
    using assms(1,2) t1 b1 pr y unfolding AddToBlockIndex_def Let_def ix by (auto split: option.split)
  moreover have "wf_tree (bx_map X')" "skips_ok (bx_map X')"
    using tree_upd [of t1 p b1 "snd b2"] w b1 f X'(1) by simp_all
  ultimately show ?thesis using w f b1 pr by auto
qed

lemma walk_back_one: "t p = Some b \<Longrightarrow> pprev b = Some q \<Longrightarrow> walk_back t (Suc j) p = walk_back t j q"
  by simp

lemma AddToBlockIndex_inv:
  assumes "AddToBlockIndex e X b p fGenerated = Some (r, X')" and "mapBlockIndex X (e_hash e b) = None"
    and "index_inv (e_genesis e) X" and "bx_map X p = None" and "hashPrevBlock b \<noteq> e_hash e b"
    and "e_hash e b \<noteq> e_genesis e \<Longrightarrow> \<exists>q c. mapBlockIndex X (hashPrevBlock b) = Some q \<and> bx_map X q = Some c \<and>
      (REWARDFORK_BLOCK \<le> bi_nHeight c + 1 \<longrightarrow> block_time b mod nStakeInterval = 0 \<and> GetBlockTime c \<le> block_time b \<and>
        (\<exists>j < 3. \<exists>r d. walk_back (bx_map X) j q = Some r \<and> bx_map X r = Some d \<and> GetBlockTime d < block_time b))"
  shows "index_inv (e_genesis e) X'"
proof -
  let ?q = "mapBlockIndex X (hashPrevBlock b)" and ?g = "e_genesis e" and ?h = "e_hash e b"
  have tr: "wf_tree (bx_map X)" "skips_ok (bx_map X)" and
      ix: "\<And>h p. mapBlockIndex X h = Some p \<longleftrightarrow> (\<exists>b. bx_map X p = Some b \<and> phashBlock b = h)" and
      gen: "\<And>p b. bx_map X p = Some b \<Longrightarrow> bi_nHeight b = 0 \<Longrightarrow> phashBlock b = ?g" and
      tm: "\<And>p. times_ok ?g (bx_map X) p" and bst: "best_ok X"
    using assms(3) unfolding index_inv_def by blast+
  have qm: "bx_map X q \<noteq> None" if "?q = Some q" for q using ix that by blast
  from AddToBlockIndex_new [OF assms(1,2) tr assms(4,5) qm] obtain new pf where
    tr': "wf_tree (bx_map X')" "skips_ok (bx_map X')" and old: "\<And>x. x \<noteq> p \<Longrightarrow> bx_map X' x = bx_map X x" and
    ix': "mapBlockIndex X' = (mapBlockIndex X)(?h \<mapsto> p)" and
    new: "bx_map X' p = Some new" "pprev new = ?q" "bi_nTime new = bh_nTime b" "phashBlock new = ?h"
      "GetBlockProof (bi_nBits new) = Some pf"
      "bi_nHeight new = (case ?q of None \<Rightarrow> 0 | Some q \<Rightarrow> bi_nHeight (the (bx_map X q)) + 1)" and
    work: "nChainWork X' = (nChainWork X)(p := bu_add (case ?q of None \<Rightarrow> uint256_of 0 | Some q \<Rightarrow> nChainWork X q) pf)" and
    bh: "pindexBestHeader X' = (case pindexBestHeader X of None \<Rightarrow> Some p
         | Some y \<Rightarrow> if bu_gt (nChainWork X' p) (nChainWork X y) then Some p else Some y)"
    by blast
  have "mapBlockIndex X' h = Some x \<longleftrightarrow> (\<exists>b. bx_map X' x = Some b \<and> phashBlock b = h)" for h x
  proof (cases "x = p")
    case True
    then show ?thesis using ix [of h p] assms(4) new ix' by (auto split: if_splits)
  next
    case False
    then show ?thesis using ix [of h x] old [OF False] assms(2) ix' by auto
  qed
  moreover have "phashBlock c = ?g" if "bx_map X' x = Some c" "bi_nHeight c = 0" for x c
  proof (cases "x = p")
    case True
    show ?thesis
    proof (rule ccontr)
      assume "phashBlock c \<noteq> ?g"
      then have "?h \<noteq> ?g" using True that new by simp
      then obtain q d where "?q = Some q" "bx_map X q = Some d" using assms(6) by auto
      then show False using True that new wf_treeD(1) [OF tr(1), of q d] by simp
    qed
  next
    case False
    then show ?thesis using old that gen by simp
  qed
  moreover have "times_ok ?g (bx_map X') x" for x
  proof (cases "x = p")
    case True
    show ?thesis
      unfolding times_ok_def
    proof (intro allI impI)
      fix c assume a: "bx_map X' x = Some c" "REWARDFORK_BLOCK \<le> bi_nHeight c" "phashBlock c \<noteq> ?g"
      then have c: "c = new" using True new(1) by simp
      have "?h \<noteq> ?g" using a(3) c new(4) by simp
      then obtain q d where q: "?q = Some q" "bx_map X q = Some d" and
          rule: "REWARDFORK_BLOCK \<le> bi_nHeight d + 1 \<longrightarrow> block_time b mod nStakeInterval = 0 \<and> GetBlockTime d \<le> block_time b \<and>
            (\<exists>j < 3. \<exists>r f. walk_back (bx_map X) j q = Some r \<and> bx_map X r = Some f \<and> GetBlockTime f < block_time b)"
        using assms(6) [OF \<open>?h \<noteq> ?g\<close>] by (elim exE conjE) (rule that)
      have ht: "bi_nHeight new = bi_nHeight d + 1" using new(6) q by simp
      have bt: "GetBlockTime new = block_time b" using new(3) by (simp add: GetBlockTime_def block_time_def)
      obtain j r f where j: "j < 3" "walk_back (bx_map X) j q = Some r" "bx_map X r = Some f"
          "GetBlockTime f < block_time b"
        using rule a(2) ht c by auto
      have rp: "r \<noteq> p" "q \<noteq> p" using j(3) q(2) assms(4) by auto
      have "bx_map X' = (bx_map X)(p \<mapsto> new)" using old new(1) by (intro ext) auto
      then have "walk_back (bx_map X') j q = Some r" using walk_back_new [OF tr(1) assms(4) q(2)] j(2) by simp
      then have "walk_back (bx_map X') (Suc j) x = Some r" using True new(1,2) q(1) by simp
      moreover have "Suc j \<in> {1, 2, 3}" using j(1) by auto
      moreover have "bx_map X' r = Some f" using old rp j(3) by simp
      ultimately have "\<exists>j \<in> {1, 2, 3}. \<exists>r d. walk_back (bx_map X') j x = Some r \<and> bx_map X' r = Some d \<and>
          GetBlockTime d < GetBlockTime c"
        using j(4) unfolding c bt by blast
      moreover have "\<exists>q d. pprev c = Some q \<and> bx_map X' q = Some d \<and> GetBlockTime d \<le> GetBlockTime c"
        using rule a(2) ht c new(2) q old rp bt by auto
      moreover have "GetBlockTime c mod nStakeInterval = 0" using rule a(2) ht bt unfolding c by simp
      ultimately show "GetBlockTime c mod nStakeInterval = 0 \<and>
          (\<exists>q d. pprev c = Some q \<and> bx_map X' q = Some d \<and> GetBlockTime d \<le> GetBlockTime c) \<and>
          (\<exists>j \<in> {1, 2, 3}. \<exists>r d. walk_back (bx_map X') j x = Some r \<and> bx_map X' r = Some d \<and> GetBlockTime d < GetBlockTime c)"
        by blast
    qed
  next
    case False
    then show ?thesis using times_ok_old [OF tr(1) assms(4) old tm] by simp
  qed
  moreover have "best_ok X'"
  proof -
    have len: "length (nChainWork X x) = 8" for x using bst by (simp add: best_ok_def)
    have len': "length (nChainWork X' x) = 8" for x
      using len length_GetBlockProof [OF new(5)] by (simp add: work split: option.split)
    have "\<exists>pf. GetBlockProof (bi_nBits c) = Some pf \<and>
        nChainWork X' x = bu_add (case pprev c of None \<Rightarrow> uint256_of 0 | Some q \<Rightarrow> nChainWork X' q) pf"
      if c: "bx_map X' x = Some c" for x c
    proof (cases "x = p")
      case True
      have "q \<noteq> p" if "?q = Some q" for q using qm [OF that] assms(4) by auto
      then show ?thesis using True c new by (auto simp: work split: option.splits)
    next
      case False
      then have x: "bx_map X x = Some c" using c old by simp
      have "q \<noteq> p" if "pprev c = Some q" for q using wf_treeD(3) [OF tr(1) x that] assms(4) by auto
      moreover obtain pf' where "GetBlockProof (bi_nBits c) = Some pf'"
          "nChainWork X x = bu_add (case pprev c of None \<Rightarrow> uint256_of 0 | Some q \<Rightarrow> nChainWork X q) pf'"
        using bst x unfolding best_ok_def by blast
      ultimately show ?thesis using False by (auto simp: work split: option.splits)
    qed
    moreover have "case pindexBestHeader X' of None \<Rightarrow> bx_map X' = (\<lambda>p. None)
      | Some y \<Rightarrow> bx_map X' y \<noteq> None \<and>
          (\<forall>q. bx_map X' q \<noteq> None \<longrightarrow> limbs_val (nChainWork X' q) \<le> limbs_val (nChainWork X' y))"
    proof (cases "pindexBestHeader X")
      case None
      then have "bx_map X = (\<lambda>p. None)" using bst by (simp add: best_ok_def)
      then have "x = p" if "bx_map X' x \<noteq> None" for x using that old [of x] by (cases "x = p") auto
      then show ?thesis using None new(1) by (auto simp: bh)
    next
      case (Some y)
      then have y: "bx_map X y \<noteq> None" and
          most: "\<And>q. bx_map X q \<noteq> None \<Longrightarrow> limbs_val (nChainWork X q) \<le> limbs_val (nChainWork X y)"
        using bst by (simp_all add: best_ok_def)
      have yp: "y \<noteq> p" using y assms(4) by auto
      have oo: "x \<noteq> p \<Longrightarrow> bx_map X' x = bx_map X x \<and> nChainWork X' x = nChainWork X x" for x
        using old by (simp add: work)
      have gt: "bu_gt (nChainWork X' p) (nChainWork X y) \<longleftrightarrow> limbs_val (nChainWork X y) < limbs_val (nChainWork X' p)"
        by (rule bu_gt_val) (simp add: len len')
      have "limbs_val (nChainWork X' q) \<le> limbs_val (nChainWork X' z)"
        if "z = (if bu_gt (nChainWork X' p) (nChainWork X y) then p else y)" "bx_map X' q \<noteq> None" for q z
      proof (cases "q = p")
        case True
        then show ?thesis using that(1) oo [OF yp] gt by auto
      next
        case False
        then show ?thesis using that oo [OF False] oo [OF yp] gt most [of q] by (auto split: if_splits)
      qed
      then show ?thesis using Some y oo [OF yp] new(1)
        by (cases "bu_gt (nChainWork X' p) (nChainWork X y)") (simp_all add: bh)
    qed
    ultimately show ?thesis using len' unfolding best_ok_def by blast
  qed
  ultimately show ?thesis using tr' unfolding index_inv_def by blast
qed

text \<open>\<open>AcceptBlockHeader\<close>, whatever the header is; \<open>new\<close> is a fresh address.\<close>

lemma AcceptBlockHeader_inv:
  assumes "AcceptBlockHeader e X height b state p fGenerated = Some (r, state', pp, X')"
    and "index_inv (e_genesis e) X" and "bx_map X p = None" and "hashPrevBlock b \<noteq> e_hash e b"
  shows "index_inv (e_genesis e) X'"
proof (cases "X' = X")
  case True
  then show ?thesis using assms(2) by simp
next
  case False
  then have nm: "mapBlockIndex X (e_hash e b) = None"
    using assms(1) by (auto simp: AcceptBlockHeader_def Let_def split: option.splits if_splits prod.splits)
  obtain state1 q state2 where q: "e_hash e b \<noteq> e_genesis e \<Longrightarrow> mapBlockIndex X (hashPrevBlock b) = q \<and> q \<noteq> None" and
      c: "ContextualCheckBlockHeader e (bx_map X) (mapBlockIndex X) height b state1 q = Some (True, state2)" and
      a: "AddToBlockIndex e X b p fGenerated = Some (the pp, X')"
    using assms(1) nm False
    by (auto simp: AcceptBlockHeader_def Let_def split: option.splits if_splits prod.splits sum.splits bool.splits)
  show ?thesis
  proof (rule AddToBlockIndex_inv [OF a nm assms(2,3,4)])
    assume h: "e_hash e b \<noteq> e_genesis e"
    then obtain q' where q': "q = Some q'" "mapBlockIndex X (hashPrevBlock b) = Some q'" using q by auto
    obtain d where d: "bx_map X q' = Some d"
      using assms(2) q' unfolding index_inv_def by blast
    note t = ContextualCheckBlockHeader_times [OF c [unfolded q'(1)] h d]
    show "\<exists>q c. mapBlockIndex X (hashPrevBlock b) = Some q \<and> bx_map X q = Some c \<and>
        (REWARDFORK_BLOCK \<le> bi_nHeight c + 1 \<longrightarrow> block_time b mod nStakeInterval = 0 \<and> GetBlockTime c \<le> block_time b \<and>
          (\<exists>j < 3. \<exists>r d. walk_back (bx_map X) j q = Some r \<and> bx_map X r = Some d \<and> GetBlockTime d < block_time b))"
      by (rule exI [of _ q'], rule exI [of _ d], intro conjI impI) (use q' d t in simp_all)
  qed
qed

text \<open>Any number of headers from the network, each judged in the surroundings of its time; the
  genesis block and the hash function are the network's.\<close>

inductive reachable_index :: "uint256 \<Rightarrow> (byte list \<Rightarrow> uint256) \<Rightarrow> block_index \<Rightarrow> bool" for g HashQuark where
  empty: "reachable_index g HashQuark block_index_empty"
| header: "reachable_index g HashQuark X \<Longrightarrow> e_genesis e = g \<Longrightarrow> e_HashQuark e = HashQuark \<Longrightarrow>
    hashPrevBlock b \<noteq> e_hash e b \<Longrightarrow> bx_map X p = None \<Longrightarrow>
    AcceptBlockHeader e X height b state p fGenerated = Some (r, state', pp, X') \<Longrightarrow> reachable_index g HashQuark X'"

lemma reachable_index_inv: "reachable_index g HashQuark X \<Longrightarrow> index_inv g X"
  by (induction rule: reachable_index.induct) (use index_inv_empty AcceptBlockHeader_inv in blast)+

text \<open>The work as a number.\<close>

lemma best_ok_work:
  assumes "best_ok X" and "bx_map X p = Some b"
  shows "\<exists>pf. GetBlockProof (bi_nBits b) = Some pf \<and> limbs_val (nChainWork X p) =
    ((case pprev b of None \<Rightarrow> 0 | Some q \<Rightarrow> limbs_val (nChainWork X q)) + limbs_val pf) mod 2 ^ 256"
proof -
  obtain pf where pf: "GetBlockProof (bi_nBits b) = Some pf"
      "nChainWork X p = bu_add (case pprev b of None \<Rightarrow> uint256_of 0 | Some q \<Rightarrow> nChainWork X q) pf"
    using assms unfolding best_ok_def by blast
  let ?w = "case pprev b of None \<Rightarrow> uint256_of 0 | Some q \<Rightarrow> nChainWork X q"
  have l: "length ?w = 8" using assms(1) by (simp add: best_ok_def split: option.split)
  have "limbs_val (nChainWork X p) = (limbs_val ?w + limbs_val pf) mod 2 ^ 256"
    using bu_add_val [of ?w pf] l length_GetBlockProof [OF pf(1)] pf(2) by simp
  moreover have "limbs_val ?w = (case pprev b of None \<Rightarrow> 0 | Some q \<Rightarrow> limbs_val (nChainWork X q))"
    by (simp split: option.split)
  ultimately show ?thesis using pf(1) by auto
qed

lemma sample_hash:
  "e_hash sample_env sample_block = 1" "hashPrevBlock sample_block = 0" "nNonce sample_block = 0" "bh_nBits sample_block = 0"
proof -
  have "1 <s (4 :: u32)" by code_simp
  then show "e_hash sample_env sample_block = 1"
    by (simp add: e_hash_def sample_env_def sample_block_def CBlock_of_def CBlockHeader_Null_def CBlockHeader.defs
        CBlockHeader_GetHash_def)
qed (simp_all add: sample_block_def CBlock_of_def CBlockHeader_Null_def CBlockHeader.defs)

lemma sample_header:
  "\<exists>X. AcceptBlockHeader sample_env block_index_empty 0 sample_block CValidationState_new 0 False =
      Some (True, CValidationState_new, Some 0, X) \<and> pindexBestHeader X = Some 0"
proof -
  have g: "e_genesis sample_env = 1" by (simp add: sample_env_def)
  have p: "\<not> IsProofOfStake sample_block" by code_simp
  obtain pf where "GetBlockProof 0 = Some pf" by (cases "GetBlockProof 0") (code_simp, auto)
  then show ?thesis
    by (simp add: AcceptBlockHeader_def block_index_empty_def CheckBlockHeader_def sample_hash g ContextualCheckBlockHeader_def
        AddToBlockIndex_def CBlockIndex_of_def p RaiseValidity_def)
qed

section \<open>Properties\<close>

text \<open>
  C35. Whatever headers arrive, in any order, as long as AddToBlockIndex does not read a second
  transaction that the block does not have (from height 654929 on it does, outside the bounds of
  the vector; such runs are not covered): the index stays a tree rooted at the genesis block, with
  right skip pointers; mapBlockIndex finds exactly the entry of a hash; the work of an entry is
  that of its predecessor and its own, modulo 2^256; pindexBestHeader has the most work; and from
  the fork of the rewards on the time of a block is a multiple of 15 seconds, not before that of
  its predecessor, and later than that of one of the three blocks before it.
\<close>

theorem block_index:
  assumes "reachable_index g HashQuark X"
  shows "wf_tree (bx_map X) \<and> skips_ok (bx_map X) \<and>
    (\<forall>h p. mapBlockIndex X h = Some p \<longleftrightarrow> (\<exists>b. bx_map X p = Some b \<and> phashBlock b = h)) \<and>
    (\<forall>p b. bx_map X p = Some b \<longrightarrow>
       (bi_nHeight b = 0 \<longrightarrow> phashBlock b = g) \<and>
       (\<exists>pf. GetBlockProof (bi_nBits b) = Some pf \<and> limbs_val (nChainWork X p) =
          ((case pprev b of None \<Rightarrow> 0 | Some q \<Rightarrow> limbs_val (nChainWork X q)) + limbs_val pf) mod 2 ^ 256) \<and>
       (1141660 \<le> bi_nHeight b \<and> phashBlock b \<noteq> g \<longrightarrow>
          GetBlockTime b mod 15 = 0 \<and>
          (\<exists>q c. pprev b = Some q \<and> bx_map X q = Some c \<and> GetBlockTime c \<le> GetBlockTime b) \<and>
          (\<exists>j \<in> {1, 2, 3}. \<exists>r d. walk_back (bx_map X) j p = Some r \<and> bx_map X r = Some d \<and> GetBlockTime d < GetBlockTime b))) \<and>
    (case pindexBestHeader X of
       None \<Rightarrow> bx_map X = (\<lambda>p. None)
     | Some p \<Rightarrow> bx_map X p \<noteq> None \<and>
         (\<forall>q. bx_map X q \<noteq> None \<longrightarrow> limbs_val (nChainWork X q) \<le> limbs_val (nChainWork X p)))"
proof -
  have i: "index_inv g X" by (rule reachable_index_inv [OF assms])
  then have "best_ok X" "\<And>p. times_ok g (bx_map X) p" by (simp_all add: index_inv_def)
  then show ?thesis using i best_ok_work [OF \<open>best_ok X\<close>]
    unfolding index_inv_def times_ok_def REWARDFORK_BLOCK_def nStakeInterval_def by (simp add: best_ok_def)
qed

theorem block_index_witness:
  "\<exists>X. reachable_index 1 (\<lambda>s. 1) X \<and> pindexBestHeader X = Some 0 \<and> bx_map X 0 \<noteq> None"
proof -
  obtain X where X: "AcceptBlockHeader sample_env block_index_empty 0 sample_block CValidationState_new 0 False =
      Some (True, CValidationState_new, Some 0, X)" "pindexBestHeader X = Some 0"
    using sample_header by blast
  have "reachable_index 1 (\<lambda>s. 1) X"
    by (rule reachable_index.header [OF reachable_index.empty _ _ _ _ X(1)])
      (simp_all add: sample_hash, simp_all add: sample_env_def block_index_empty_def)
  then show ?thesis using X(2) block_index [of 1 "\<lambda>s. 1" X] by auto
qed

end
