(* ===== verification/CoinsForm.thy ===== *)
theory CoinsForm
  imports Supply
begin

text \<open>
  The form of the entries in a cache while a block is connected. \<open>CCoins\<close> are compared with \<open>==\<close> by
  \<open>DisconnectBlock\<close>, which looks at more than the outputs that are left: the outputs of the block must
  be held with their spent outputs reset (\<open>CTxOut::SetNull\<close>) and without null outputs at the end. What
  \<open>ConnectBlock\<close> does to a view is a sequence of few kinds of steps, and each keeps that form.
\<close>

section \<open>Coins in normal form\<close>

definition nulls_ok :: "CCoins \<Rightarrow> bool" where
  "nulls_ok c \<longleftrightarrow> (\<forall>t \<in> set (cc_vout c). CTxOut_IsNull t \<longrightarrow> t = CTxOut_Null)"

definition trimmed :: "CCoins \<Rightarrow> bool" where
  "trimmed c \<longleftrightarrow> (cc_vout c \<noteq> [] \<longrightarrow> \<not> CTxOut_IsNull (last (cc_vout c)))"

lemma trimmed_Cleanup: "trimmed (CCoins_Cleanup c)"
  using last_cleanup_loop [of "cc_vout c"] by (simp add: trimmed_def CCoins_Cleanup_def)

lemma nulls_ok_Cleanup: "nulls_ok c \<Longrightarrow> nulls_ok (CCoins_Cleanup c)"
proof -
  assume a: "nulls_ok c"
  obtain zs where "cc_vout c = cleanup_loop (cc_vout c) @ zs" using cleanup_loop_append by blast
  then have "set (cleanup_loop (cc_vout c)) \<subseteq> set (cc_vout c)" by (metis Un_upper1 set_append)
  then show ?thesis using a by (auto simp: nulls_ok_def CCoins_Cleanup_def)
qed

lemma vout_le:
  assumes "trimmed b" and "coins_abs a = coins_abs b"
  shows "length (cc_vout b) \<le> length (cc_vout a)"
proof (rule ccontr)
  assume n: "\<not> ?thesis"
  then have ne: "cc_vout b \<noteq> []" by auto
  let ?i = "length (cc_vout b) - 1"
  have "\<not> CTxOut_IsNull (cc_vout b ! ?i)" using assms(1) ne by (simp add: trimmed_def last_conv_nth)
  then have "coins_abs b ?i \<noteq> None" using ne by (simp add: coins_abs_def)
  moreover have "\<not> ?i < length (cc_vout a)" using n by linarith
  then have "coins_abs a ?i = None" by (simp add: coins_abs_def)
  ultimately show False using assms(2) by simp
qed

text \<open>Coins in this form are determined by the outputs that are left, and equal for the code.\<close>

lemma vout_unique:
  assumes "nulls_ok a" and "nulls_ok b" and "trimmed a" and "trimmed b" and "coins_abs a = coins_abs b"
  shows "cc_vout a = cc_vout b"
proof (rule nth_equalityI)
  show l: "length (cc_vout a) = length (cc_vout b)"
    using vout_le [OF assms(4,5)] vout_le [OF assms(3) assms(5) [symmetric]] by simp
  fix i assume i: "i < length (cc_vout a)"
  have e: "coins_abs a i = coins_abs b i" using assms(5) by simp
  show "cc_vout a ! i = cc_vout b ! i"
  proof (cases "CTxOut_IsNull (cc_vout a ! i)")
    case True
    then have "CTxOut_IsNull (cc_vout b ! i)" using e i l by (simp add: coins_abs_def split: if_splits)
    then have "cc_vout a ! i = CTxOut_Null" "cc_vout b ! i = CTxOut_Null"
      using True assms(1,2) i l unfolding nulls_ok_def by (blast intro: nth_mem, metis nth_mem)
    then show ?thesis by simp
  next
    case False
    then show ?thesis using e i l by (auto simp: coins_abs_def split: if_splits)
  qed
qed

lemma CCoins_eq_abs:
  assumes "nulls_ok a" and "nulls_ok b" and "trimmed a" and "trimmed b" and "coins_abs a = coins_abs b"
  shows "CCoins_eq a b"
proof (cases "coins_abs b = (\<lambda>n. None)")
  case True
  then show ?thesis using assms(5) by (simp add: CCoins_eq_def IsPruned_iff)
next
  case False
  then obtain n x where x: "coins_abs b n = Some x" by (auto simp: fun_eq_iff)
  then have y: "coins_abs a n = Some x" using assms(5) by simp
  have "cc_vout a = cc_vout b" by (rule vout_unique [OF assms])
  then show ?thesis using x y by (auto simp: CCoins_eq_def coins_abs_def split: if_splits)
qed

text \<open>The outputs of a transaction.\<close>

definition no_nulls :: "CTransaction \<Rightarrow> bool" where
  "no_nulls tx \<longleftrightarrow> (\<forall>t \<in> set (vout tx). \<not> CTxOut_IsNull t)"

lemma nulls_ok_ClearUnspendable: "nulls_ok c \<Longrightarrow> nulls_ok (ClearUnspendable c)"
  unfolding ClearUnspendable_def by (rule nulls_ok_Cleanup) (auto simp: nulls_ok_def)

lemma trimmed_ClearUnspendable: "trimmed (ClearUnspendable c)"
  unfolding ClearUnspendable_def by (rule trimmed_Cleanup)

lemma coins_abs_ClearUnspendable:
  "coins_abs (ClearUnspendable c) n =
    (case coins_abs c n of None \<Rightarrow> None | Some x \<Rightarrow> if IsUnspendable (scriptPubKey (coin_out x)) then None else Some x)"
  by (auto simp: ClearUnspendable_def coins_abs_def [of c] coins_abs_def [of "c\<lparr>cc_vout := _\<rparr>"])

lemma FromTx_form: "trimmed (CCoins_FromTx tx h)" "no_nulls tx \<Longrightarrow> nulls_ok (CCoins_FromTx tx h)"
  unfolding CCoins_FromTx_def
  by (rule trimmed_ClearUnspendable, rule nulls_ok_ClearUnspendable) (auto simp: nulls_ok_def no_nulls_def)

lemma ClearUnspendable_twice:
  assumes "coins_abs c = coins_abs (CCoins_FromTx tx h)"
  shows "coins_abs (ClearUnspendable c) = coins_abs (CCoins_FromTx tx h)"
proof
  fix n
  show "coins_abs (ClearUnspendable c) n = coins_abs (CCoins_FromTx tx h) n"
    unfolding coins_abs_ClearUnspendable assms unfolding CCoins_FromTx_def coins_abs_ClearUnspendable
    by (auto split: option.split)
qed

text \<open>The test of \<open>DisconnectBlock\<close> passes.\<close>

lemma added_transaction_matches:
  assumes "coins_abs c = coins_abs (CCoins_FromTx tx h)" and "coins_abs c \<noteq> (\<lambda>n. None) \<Longrightarrow> nulls_ok c" and "no_nulls tx"
  shows "CCoins_eq (if cc_nVersion (CCoins_FromTx tx h) <s 0
      then (ClearUnspendable c)\<lparr>cc_nVersion := cc_nVersion (CCoins_FromTx tx h)\<rparr> else ClearUnspendable c)
    (CCoins_FromTx tx h)"
proof (cases "coins_abs c = (\<lambda>n. None)")
  case True
  have "coins_abs (ClearUnspendable c) = (\<lambda>n. None)" using ClearUnspendable_twice [OF assms(1)] assms(1) True by simp
  then have "IsPruned (ClearUnspendable c)" by (simp add: IsPruned_iff)
  moreover have "IsPruned (CCoins_FromTx tx h)" using assms(1) True by (simp add: IsPruned_iff)
  ultimately show ?thesis by (simp add: CCoins_eq_def IsPruned_def)
next
  case False
  let ?d = "CCoins_FromTx tx h"
  have e: "CCoins_eq (ClearUnspendable c) ?d"
    by (rule CCoins_eq_abs [OF nulls_ok_ClearUnspendable FromTx_form(2) trimmed_ClearUnspendable FromTx_form(1)
        ClearUnspendable_twice]) (use assms False in auto)
  have "\<not> IsPruned ?d" using assms(1) False by (simp add: IsPruned_iff)
  then have "cc_nVersion (ClearUnspendable c) = cc_nVersion ?d" using e by (simp add: CCoins_eq_def)
  then have "(ClearUnspendable c)\<lparr>cc_nVersion := cc_nVersion ?d\<rparr> = ClearUnspendable c"
    by (intro CCoins.equality) simp_all
  then show ?thesis using e by simp
qed


section \<open>The steps of ConnectBlock on a view\<close>

inductive view_steps ::
    "'s CCoinsView \<Rightarrow> CTransaction set \<Rightarrow> u32 \<Rightarrow> 's \<times> CCoinsViewCache \<Rightarrow> 's \<times> CCoinsViewCache \<Rightarrow> bool"
  for base :: "'s CCoinsView" and T :: "CTransaction set" and nHeight :: u32 and st :: "'s \<times> CCoinsViewCache" where
  Stay: "view_steps base T nHeight st st"
| Fetch: "view_steps base T nHeight st st1 \<Longrightarrow> AccessCoins base st1 h = (r, st2) \<Longrightarrow> view_steps base T nHeight st st2"
| Best: "view_steps base T nHeight st st1 \<Longrightarrow> GetBestBlock base st1 = (r, st2) \<Longrightarrow> view_steps base T nHeight st st2"
| Set_Best: "view_steps base T nHeight st st1 \<Longrightarrow> view_steps base T nHeight st (SetBestBlock st1 h)"
| Spend: "view_steps base T nHeight st st1 \<Longrightarrow>
    modify base h (\<lambda>coins. map_option (\<lambda>(coins, undo). (undo, coins)) (CCoins_Spend coins n)) st1 = Some (undo, st2) \<Longrightarrow>
    view_steps base T nHeight st st2"
| Create: "view_steps base T nHeight st st1 \<Longrightarrow> tx \<in> T \<Longrightarrow>
    modify base (tx_hash tx) (\<lambda>coins. Some ((), CCoins_FromTx tx nHeight)) st1 = Some (u, st2) \<Longrightarrow>
    view_steps base T nHeight st st2"

lemma view_steps_trans:
  "view_steps base T h st1 st2 \<Longrightarrow> view_steps base T h st st1 \<Longrightarrow> view_steps base T h st st2"
  by (induction rule: view_steps.induct) (blast intro: view_steps.intros)+

lemmas step_rules = view_steps.Stay view_steps.Fetch [OF view_steps.Stay] view_steps.Best [OF view_steps.Stay]
  view_steps.Set_Best [OF view_steps.Stay]

lemma GetOutputFor_steps: "GetOutputFor base st txin = Some (t, st') \<Longrightarrow> view_steps base T h st st'"
  by (auto simp: GetOutputFor_def intro: step_rules split: prod.splits option.splits if_splits)

lemma value_in_loop_steps: "value_in_loop base ins n st = Some (m, st') \<Longrightarrow> view_steps base T h st st'"
proof (induction base ins n st rule: value_in_loop.induct)
  case (2 base txin ins n st)
  then obtain t s where g: "GetOutputFor base st txin = Some (t, s)" and l: "value_in_loop base ins (n + nValue t) s = Some (m, st')"
    by (auto split: option.splits prod.splits)
  show ?case
    by (rule view_steps_trans [OF 2(1) [OF g refl l] GetOutputFor_steps [OF g]])
qed (simp add: step_rules)

lemma GetValueIn_steps: "GetValueIn base st tx = Some (m, st') \<Longrightarrow> view_steps base T h st st'"
  by (auto simp: GetValueIn_def intro: step_rules value_in_loop_steps split: if_splits)

lemma have_inputs_loop_steps: "have_inputs_loop base cs H ins st = (r, st') \<Longrightarrow> view_steps base T h st st'"
proof (induction base cs H ins st rule: have_inputs_loop.induct)
  case (2 base cs H txin ins st)
  obtain q s where a: "AccessCoins base st (COutPoint.op_hash (prevout txin)) = (q, s)" by (metis prod.exhaust)
  have s: "view_steps base T h st s" by (rule step_rules(2) [OF a])
  show ?case
  proof (cases "st' = s")
    case False
    then obtain c where c: "q = Some c" "\<not> (sint (cc_nHeight c) < H \<and> \<not> cs \<or> \<not> IsAvailable c (unat (op_n (prevout txin))))"
        "have_inputs_loop base cs H ins s = (r, st')"
      using 2(2) a by (cases q) (auto split: if_splits)
    show ?thesis by (rule view_steps_trans [OF 2(1) [OF _ c(1) c(2) c(3)] s]) (simp add: a c(1))
  qed (use s in simp)
qed (simp add: step_rules)

lemma HaveInputs_steps: "HaveInputs base st tx H = (r, st') \<Longrightarrow> view_steps base T h st st'"
  by (auto simp: HaveInputs_def intro: step_rules have_inputs_loop_steps split: if_splits)

lemma p2sh_sigops_loop_steps: "p2sh_sigops_loop base ins n st = Some (m, st') \<Longrightarrow> view_steps base T h st st'"
proof (induction base ins n st rule: p2sh_sigops_loop.induct)
  case (2 base txin ins n st)
  then obtain t s where g: "GetOutputFor base st txin = Some (t, s)" by (auto split: option.splits)
  have "view_steps base T h s st'"
    using 2 g by (auto split: option.splits if_splits)
  then show ?case by (rule view_steps_trans [OF _ GetOutputFor_steps [OF g]])
qed (simp add: step_rules)

lemma GetP2SHSigOpCount_steps: "GetP2SHSigOpCount base tx st = Some (m, st') \<Longrightarrow> view_steps base T h st st'"
  by (auto simp: GetP2SHSigOpCount_def intro: step_rules p2sh_sigops_loop_steps split: if_splits)

lemma tally_inputs_steps: "tally_inputs base m maturity k ins n state st = Some (q, st') \<Longrightarrow> view_steps base T h st st'"
proof (induction base m maturity k ins n state st rule: tally_inputs.induct)
  case (2 base m maturity k txin ins n state st)
  obtain r s where a: "AccessCoins base st (COutPoint.op_hash (prevout txin)) = (r, s)" by (metis prod.exhaust)
  have "view_steps base T h s st'"
    using 2 a by (cases r) (auto simp: Let_def intro: step_rules split: if_splits)
  then show ?case by (rule view_steps_trans [OF _ step_rules(2) [OF a]])
qed (simp add: step_rules)

lemma script_loop_steps:
  "script_loop base ecdsa tx flags cacheStore is pv state st = Some (r, state', pv', st') \<Longrightarrow> view_steps base T h st st'"
proof (induction "is" arbitrary: pv state st)
  case (Cons i rest)
  obtain q s where a: "AccessCoins base st (COutPoint.op_hash (prevout (vin tx ! i))) = (q, s)" by (metis prod.exhaust)
  have "s = st' \<or> (\<exists>pv1. script_loop base ecdsa tx flags cacheStore rest pv1 state s = Some (r, state', pv', st'))"
    using Cons.prems a by (cases q) (auto simp: Let_def split: if_splits option.splits bool.splits)
  then have "view_steps base T h s st'" by (elim disjE exE) (simp add: step_rules, rule Cons.IH)
  then show ?case by (rule view_steps_trans [OF _ step_rules(2) [OF a]])
qed (simp add: step_rules)

lemma CheckInputs_steps:
  assumes "CheckInputs base m maturity bh ecdsa tx state st f flags cs pv H = Some (r, state', pv', st')"
  shows "view_steps base T h st st'"
proof (cases "\<not> IsCoinBase tx \<and> \<not> HasZerocoinSpendInputs tx")
  case True
  obtain ok s1 where 1: "HaveInputs base st tx H = (ok, s1)" by (metis prod.exhaust)
  obtain best s2 where 2: "GetBestBlock base s1 = (best, s2)" by (metis prod.exhaust)
  note v1 = HaveInputs_steps [OF 1, of T h]
  show ?thesis
  proof (cases ok)
    case False
    then show ?thesis using assms True 1 v1 by (auto simp: CheckInputs_def split: prod.splits)
  next
    case ok: True
    then obtain k q s3 where 3: "bh best = Some k" "tally_inputs base m maturity (k + 1) (vin tx) 0 state s2 = Some (q, s3)"
      using assms True 1 2 by (auto simp: CheckInputs_def split: option.splits)
    have v3: "view_steps base T h st s3"
      by (rule view_steps_trans [OF tally_inputs_steps [OF 3(2)] view_steps_trans [OF step_rules(3) [OF 2] v1]])
    have "view_steps base T h s3 st'"
      using assms True 1 2 3 ok
      by (auto simp: CheckInputs_def intro: step_rules script_loop_steps split: sum.splits option.splits if_splits)
    then show ?thesis by (rule view_steps_trans [OF _ v3])
  qed
next
  case False
  then show ?thesis using assms by (auto simp: CheckInputs_def intro: step_rules)
qed

lemma stake_inputs_loop_steps: "stake_inputs_loop K base cs k ins st = (r, st') \<Longrightarrow> view_steps base T h st st'"
proof (induction K base cs k ins st rule: stake_inputs_loop.induct)
  case (2 K base cs k txin ins st)
  obtain q s where a: "AccessCoins base st (COutPoint.op_hash (prevout txin)) = (q, s)" by (metis prod.exhaust)
  have "view_steps base T h s st'"
    using 2 a by (cases q) (auto intro: step_rules split: if_splits)
  then show ?case by (rule view_steps_trans [OF _ step_rules(2) [OF a]])
qed (simp add: step_rules)

lemma inputs_present_steps: "inputs_present K base k tx state st = (r, st') \<Longrightarrow> view_steps base T h st st'"
  by (auto simp: inputs_present_def intro: stake_inputs_loop_steps HaveInputs_steps split: if_splits prod.splits)

lemma add_values_steps:
  assumes "add_values base tx acc st = Some (acc', st')"
  shows "view_steps base T h st st'"
proof (cases "IsCoinStake tx")
  case True
  then show ?thesis using assms by (auto simp: add_values_def intro: GetValueIn_steps)
next
  case False
  then obtain n s where 1: "GetValueIn base st tx = Some (n, s)" "\<exists>m. GetValueIn base s tx = Some (m, st')"
    using assms by (auto simp: add_values_def split: option.splits sum.splits)
  then show ?thesis using view_steps_trans [OF GetValueIn_steps GetValueIn_steps [OF 1(1)]] by blast
qed

lemma connect_spends_steps:
  assumes "connect_spends K base f k tx acc state st = Some (q, st')"
  shows "view_steps base T h st st'"
proof -
  obtain r1 s1 where 1: "inputs_present K base k tx state st = (r1, s1)" by (metis prod.exhaust)
  note v1 = inputs_present_steps [OF 1, of T h]
  show ?thesis
  proof (cases r1)
    case (Some r)
    then show ?thesis using assms 1 v1 by (simp add: connect_spends_def)
  next
    case None
    then obtain n s2 where 2: "GetP2SHSigOpCount base tx s1 = Some (n, s2)"
      using assms 1 by (auto simp: connect_spends_def split: option.splits)
    note v2 = view_steps_trans [OF GetP2SHSigOpCount_steps [OF 2] v1]
    show ?thesis
    proof (cases "ca_sigops acc + n > MAX_BLOCK_SIGOPS_CURRENT")
      case True
      then show ?thesis using assms 1 2 None v2 by (simp add: connect_spends_def Let_def)
    next
      case False
      then obtain acc3 s3 where 3: "add_values base tx (acc\<lparr>ca_sigops := ca_sigops acc + n\<rparr>) s2 = Some (acc3, s3)"
        using assms 1 2 None by (auto simp: connect_spends_def Let_def split: option.splits)
      note v3 = view_steps_trans [OF add_values_steps [OF 3] v2]
      have "view_steps base T h s3 st'"
        using assms 1 2 3 None False by (auto simp: connect_spends_def Let_def intro: CheckInputs_steps split: option.splits)
      then show ?thesis by (rule view_steps_trans [OF _ v3])
    qed
  qed
qed

lemma spend_inputs_steps: "spend_inputs base ins vs st = Some (undos, st') \<Longrightarrow> view_steps base T h st st'"
proof (induction base ins vs st rule: spend_inputs.induct)
  case (2 base txin ins vs st)
  then obtain undo s where m: "modify base (COutPoint.op_hash (prevout txin))
      (\<lambda>coins. map_option (\<lambda>(coins, undo). (undo, coins)) (CCoins_Spend coins (unat (op_n (prevout txin))))) st = Some (undo, s)"
    and l: "spend_inputs base ins (vs @ [undo]) s = Some (undos, st')" by (auto split: option.splits)
  show ?case
    by (rule view_steps_trans [OF 2(1) [OF m refl l] view_steps.Spend [OF view_steps.Stay m]])
qed (simp add: step_rules)

lemma UpdateCoins_steps:
  assumes "UpdateCoins base tx st [] h = Some (undos, st')" and "tx \<in> T"
  shows "view_steps base T h st st'"
proof -
  obtain us s where 1: "(if \<not> IsCoinBase tx \<and> \<not> HasZerocoinSpendInputs tx
      then spend_inputs base (vin tx) [] st else Some ([], st)) = Some (us, s)"
    and 2: "modify base (tx_hash tx) (\<lambda>coins. Some ((), CCoins_FromTx tx h)) s = Some ((), st')"
    using assms(1) unfolding UpdateCoins_def by (auto split: option.splits)
  have "view_steps base T h st s" using 1 by (auto intro: step_rules spend_inputs_steps split: if_splits)
  then show ?thesis by (rule view_steps.Create [OF _ assms(2) 2])
qed

lemma connect_tx_steps:
  assumes "connect_tx K base f t k i tx acc state st = Some (Inr (acc', state'), st')" and "tx \<in> T"
  shows "view_steps base T (of_int k) st st'"
proof -
  obtain n where n: "GetLegacySigOpCount tx = Some n" using assms(1) by (cases "GetLegacySigOpCount tx") (auto simp: connect_tx_def)
  let ?acc = "acc\<lparr>ca_sigops := ca_sigops acc + n\<rparr>"
  obtain q s undo where 1: "(if HasZerocoinSpendInputs tx
      then Some (map_sum id (\<lambda>acc. (acc, state)) (connect_zerocoin K k tx ?acc state), st)
      else if \<not> IsCoinBase tx then connect_spends K base f k tx ?acc state st
      else Some (Inr (?acc, state), st)) = Some (q, s)"
    and 2: "UpdateCoins base tx s [] (of_int k) = Some (undo, st')"
    using assms(1) n unfolding connect_tx_def Let_def
    by (auto split: if_splits option.splits sum.splits prod.splits)
  have "view_steps base T (of_int k) st s"
    using 1 by (auto intro: step_rules connect_spends_steps split: if_splits)
  then show ?thesis by (rule view_steps_trans [OF UpdateCoins_steps [OF 2 assms(2)]])
qed

lemma connect_txs_steps:
  "connect_txs K base f t k i txs acc state st = Some (Inr (acc', state'), st') \<Longrightarrow> set txs \<subseteq> T \<Longrightarrow>
    view_steps base T (of_int k) st st'"
proof (induction txs arbitrary: i acc state st)
  case (Cons tx txs)
  then obtain acc1 state1 s where 1: "connect_tx K base f t k i tx acc state st = Some (Inr (acc1, state1), s)"
      "connect_txs K base f t k (i + 1) txs acc1 state1 s = Some (Inr (acc', state'), st')"
    by (auto split: option.splits sum.splits)
  have m: "tx \<in> T" "set txs \<subseteq> T" using Cons.prems(2) by simp_all
  show ?case by (rule view_steps_trans [OF Cons.IH [OF 1(2) m(2)] connect_tx_steps [OF 1(1) m(1)]])
qed (simp add: step_rules)

lemma no_overwrite_steps: "no_overwrite base txs st = (r, st') \<Longrightarrow> view_steps base T h st st'"
proof (induction base txs st rule: no_overwrite.induct)
  case (2 base tx txs st)
  obtain q s where a: "AccessCoins base st (tx_hash tx) = (q, s)" by (metis prod.exhaust)
  have "view_steps base T h s st'"
    using 2 a by (auto intro: step_rules split: if_splits)
  then show ?case by (rule view_steps_trans [OF _ step_rules(2) [OF a]])
qed (simp add: step_rules)

lemma connect_spends_False: "connect_spends K base f k tx acc state st = Some (Inl q, st') \<Longrightarrow> \<not> fst q"
  by (auto simp: connect_spends_def inputs_present_def too_many_sigops_def Let_def split: option.splits prod.splits if_splits)

lemma zerocoin_values_False: "zerocoin_values K txid ins acc state = Inl q \<Longrightarrow> \<not> fst q"
  by (induction K txid ins acc state rule: zerocoin_values.induct) (auto simp: Let_def split: if_splits)

lemma connect_tx_False:
  assumes "connect_tx K base f t k i tx acc state st = Some (Inl q, st')"
  shows "\<not> fst q"
proof -
  have z: "map_sum id g (connect_zerocoin K k tx acc state) = Inl q \<Longrightarrow> \<not> fst q" for acc and g :: "connect_sums \<Rightarrow> connect_sums \<times> CValidationState"
    by (cases "connect_zerocoin K k tx acc state")
      (auto simp: connect_zerocoin_def split: if_splits dest: zerocoin_values_False)
  show ?thesis
    using assms z unfolding connect_tx_def Let_def
    by (auto simp: too_many_sigops_def split: if_splits option.splits sum.splits prod.splits dest: connect_spends_False)
qed

lemma connect_txs_False: "connect_txs K base f t k i txs acc state st = Some (Inl q, st') \<Longrightarrow> \<not> fst q"
proof (induction txs arbitrary: i acc state st)
  case (Cons tx txs)
  obtain q1 s1 where 1: "connect_tx K base f t k i tx acc state st = Some (q1, s1)"
    using Cons.prems by (cases "connect_tx K base f t k i tx acc state st") auto
  show ?case
  proof (cases q1)
    case (Inl q')
    then show ?thesis using Cons.prems 1 connect_tx_False [OF 1 [unfolded Inl]] by simp
  next
    case (Inr p)
    obtain acc1 state1 where p: "p = (acc1, state1)" by (cases p)
    then have "connect_txs K base f t k (i + 1) txs acc1 state1 s1 = Some (Inl q, st')"
      using Cons.prems 1 Inr by (cases s1) simp
    then show ?thesis by (rule Cons.IH)
  qed
qed simp

lemma connect_txs_True [simp]: "connect_txs K base f t k i txs acc state st \<noteq> Some (Inl (True, state'), st')"
  using connect_txs_False by fastforce

text \<open>A block that is accepted.\<close>

lemma connect_checked_steps:
  assumes "connect_checked K base b pindex False state st = Some ((True, state'), money, undo, st')"
  shows "view_steps base (set (vtx b)) (of_int (ci_height pindex)) st st'"
proof -
  let ?T = "set (vtx b)" and ?h = "of_int (ci_height pindex) :: u32"
  obtain best s1 where 1: "GetBestBlock base st = (best, s1)" by (metis prod.exhaust)
  note v1 = step_rules(3) [OF 1, of ?T ?h]
  show ?thesis
  proof (cases "e_hash (c_env K) b = e_genesis (c_env K)")
    case True
    then have "st' = SetBestBlock s1 (ci_hash pindex)" using assms 1 by (auto simp: connect_checked_def split: if_splits)
    then show ?thesis using view_steps.Set_Best [OF v1] by simp
  next
    case False
    obtain ok s2 where 2: "no_overwrite base (vtx b) s1 = (ok, s2)" by (metis prod.exhaust)
    note v2 = view_steps_trans [OF no_overwrite_steps [OF 2, of ?T ?h] v1]
    obtain acc state3 s3 where 3: "connect_txs K base (ci_height pindex \<ge> GetTotalBlocksEstimate (c_env K)) (bh_nTime b)
        (ci_height pindex) 0 (vtx b) connect_sums_new state s2 = Some (Inr (acc, state3), s3)"
      and 4: "connect_finish K b pindex False acc state3 s3 = Some ((True, state'), money, undo, st')"
      using assms 1 2 False unfolding connect_checked_def
      by (auto split: if_splits option.splits sum.splits bool.splits)
    have "st' = SetBestBlock s3 (ci_hash pindex)"
      using 4 unfolding connect_finish_def Let_def by (auto split: if_splits option.splits bool.splits)
    then show ?thesis
      using view_steps.Set_Best [OF view_steps_trans [OF connect_txs_steps [OF 3 subset_refl] v2]] by simp
  qed
qed

section \<open>The form is kept\<close>

text \<open>The transactions of \<open>H\<close> that have outputs left are in the cache, in normal form.\<close>

definition coins_form :: "('s \<Rightarrow> coins_fun) \<Rightarrow> uint256 set \<Rightarrow> 's \<times> CCoinsViewCache \<Rightarrow> bool" where
  "coins_form utxo H st \<longleftrightarrow>
     (\<forall>h \<in> H. cache_utxo utxo st h \<noteq> (\<lambda>n. None) \<longrightarrow> (\<exists>c. cached st h = Some c \<and> nulls_ok c))"

lemma coins_form_grows:
  "coins_form utxo H st \<Longrightarrow> cache_grows st st' \<Longrightarrow> cache_utxo utxo st' = cache_utxo utxo st \<Longrightarrow> coins_form utxo H st'"
  unfolding coins_form_def cache_grows_def by metis

lemma Spend_nulls_ok: "CCoins_Spend c n = Some (c', undo) \<Longrightarrow> nulls_ok c \<Longrightarrow> nulls_ok c'"
proof -
  assume "CCoins_Spend c n = Some (c', undo)" and c: "nulls_ok c"
  then have "c' = CCoins_Cleanup (c\<lparr>cc_vout := (cc_vout c)[n := CTxOut_Null]\<rparr>)"
    by (auto simp: CCoins_Spend_def Let_def split: if_splits)
  moreover have "nulls_ok (c\<lparr>cc_vout := (cc_vout c)[n := CTxOut_Null]\<rparr>)"
    using c by (auto simp: nulls_ok_def dest!: subsetD [OF set_update_subset_insert])
  ultimately show ?thesis by (simp add: nulls_ok_Cleanup)
qed

lemma restore_nulls_ok:
  assumes "restore_output c n undo = Some (True, c')" and "\<not> CTxOut_IsNull (un_txout undo)"
    and "coins_abs c \<noteq> (\<lambda>n. None) \<Longrightarrow> nulls_ok c"
  shows "nulls_ok c'"
proof -
  let ?c = "if un_nHeight undo \<noteq> 0
    then CCoins_Clear\<lparr>cc_fCoinBase := un_fCoinBase undo, cc_nHeight := un_nHeight undo, cc_nVersion := un_nVersion undo\<rparr> else c"
  let ?vs = "cc_vout ?c"
  let ?vs' = "if length ?vs < unat (n + 1) then ?vs @ replicate (unat (n + 1) - length ?vs) CTxOut_Null else ?vs"
  have v: "cc_vout c' = ?vs'[unat n := un_txout undo]" and p: "un_nHeight undo \<noteq> 0 \<or> \<not> IsPruned c"
    using assms(1) by (auto simp: restore_output_def Let_def split: if_splits)
  have "nulls_ok ?c" using p assms(3) by (auto simp: nulls_ok_def CCoins_Clear_def IsPruned_iff)
  then have "\<forall>t \<in> set ?vs'. CTxOut_IsNull t \<longrightarrow> t = CTxOut_Null" by (auto simp: nulls_ok_def)
  then have "\<forall>t \<in> insert (un_txout undo) (set ?vs'). CTxOut_IsNull t \<longrightarrow> t = CTxOut_Null" using assms(2) by blast
  then show ?thesis unfolding nulls_ok_def v using set_update_subset_insert [of ?vs' "unat n" "un_txout undo"] by blast
qed

lemma restore_inputs_True: "restore_inputs base xs k st = Some (True, st') \<Longrightarrow> k"
proof (induction xs arbitrary: k st)
  case (Cons x xs)
  obtain txin undo where x: "x = (txin, undo)" by fastforce
  obtain ok s where "restore_inputs base xs (k \<and> ok) s = Some (True, st')"
    using Cons.prems unfolding x by (auto split: option.splits)
  from Cons.IH [OF this] show ?case by simp
qed simp

lemma undos_not_null:
  "all_there U ps \<Longrightarrow> utxo_ok U \<Longrightarrow> u \<in> set (undos_for U ps) \<Longrightarrow> \<not> CTxOut_IsNull (un_txout u)"
proof (induction ps arbitrary: U)
  case (Cons p ps)
  obtain x where x: "U (fst p) (snd p) = Some x" using Cons.prems(1) by auto
  then have "\<not> CTxOut_IsNull (coin_out x)" using Cons.prems(2) unfolding utxo_ok_def by blast
  then have "\<not> CTxOut_IsNull (un_txout (undo_for (U (fst p)) (snd p)))"
    using x by (simp add: undo_for_def CTxInUndo_of_def)
  moreover have "\<not> CTxOut_IsNull (un_txout u)" if "u \<in> set (undos_for (remove_coin U p) ps)"
    using Cons.IH [OF _ _ that] Cons.prems(1,2) by simp
  ultimately show ?case using Cons.prems(3) by auto
qed simp

context coins_source
begin

lemma modify_keeps_form:
  assumes "cache_inv invar utxo has st" and "coins_form utxo H st" and "modify base k f st = Some (r, st')"
    and "\<And>c c'. f c = Some (r, c') \<Longrightarrow> (coins_abs c \<noteq> (\<lambda>n. None) \<Longrightarrow> nulls_ok c) \<Longrightarrow> k \<in> H \<Longrightarrow> nulls_ok c'"
  shows "cache_inv invar utxo has st' \<and> coins_form utxo H st'"
proof -
  obtain s c where st: "st = (s, c)" by (cases st)
  obtain coins where coins: "coins_abs coins = cache_utxo utxo st k" "\<And>c'. cached st k = Some c' \<Longrightarrow> coins = c'"
    and m: "case f coins of None \<Rightarrow> modify base k f st = None
      | Some (r, coins') \<Rightarrow> \<exists>st'. modify base k f st = Some (r, st') \<and>
         cache_inv invar utxo has st' \<and> cache_best best st' = cache_best best st \<and>
         cache_utxo utxo st' = (cache_utxo utxo st)(k := coins_abs coins') \<and>
         (\<forall>h. h \<noteq> k \<longrightarrow> cached st' h = cached st h) \<and>
         (coins_abs coins' \<noteq> (\<lambda>n. None) \<longrightarrow> cached st' k = Some (CCoins_Cleanup coins'))"
    using modify_form [OF assms(1) [unfolded st], of k f] unfolding st by blast
  obtain coins' where f: "f coins = Some (r, coins')" and i: "cache_inv invar utxo has st'"
    and u: "cache_utxo utxo st' = (cache_utxo utxo st)(k := coins_abs coins')" "\<forall>h. h \<noteq> k \<longrightarrow> cached st' h = cached st h"
      "coins_abs coins' \<noteq> (\<lambda>n. None) \<longrightarrow> cached st' k = Some (CCoins_Cleanup coins')"
    using m assms(3) by (cases "f coins") auto
  have "nulls_ok coins" if "k \<in> H" "coins_abs coins \<noteq> (\<lambda>n. None)"
    using that assms(2) coins unfolding coins_form_def by metis
  then have n: "k \<in> H \<Longrightarrow> nulls_ok (CCoins_Cleanup coins')" using assms(4) [OF f] nulls_ok_Cleanup by blast
  have "coins_form utxo H st'"
    unfolding coins_form_def
  proof (intro ballI impI)
    fix h assume h: "h \<in> H" "cache_utxo utxo st' h \<noteq> (\<lambda>n. None)"
    show "\<exists>c. cached st' h = Some c \<and> nulls_ok c"
    proof (cases "h = k")
      case True
      then show ?thesis using h u(1,3) n by simp
    next
      case False
      then show ?thesis using h u(1,2) assms(2) by (simp add: coins_form_def)
    qed
  qed
  then show ?thesis using i by blast
qed

lemma view_steps_form:
  assumes "view_steps base T nHeight st st'" and "cache_inv invar utxo has st" and "coins_form utxo H st"
    and "\<forall>tx \<in> T. no_nulls tx"
  shows "cache_inv invar utxo has st' \<and> coins_form utxo H st'"
  using assms(1)
proof (induction rule: view_steps.induct)
  case Stay
  show ?case using assms(2,3) ..
next
  case (Fetch st1 h r st2)
  note ok = AccessCoins_ok [OF conjunct1 [OF Fetch.IH] Fetch.hyps(2)]
  then show ?case using coins_form_grows [OF conjunct2 [OF Fetch.IH] AccessCoins_grows(1) [OF Fetch.hyps(2)]] by blast
next
  case (Best st1 r st2)
  have i: "cache_inv invar utxo has (fst st1, snd st1)" "GetBestBlock base (fst st1, snd st1) = (r, fst st2, snd st2)"
    using Best by simp_all
  have "cacheCoins (snd st2) = cacheCoins (snd st1)"
    using i(2) by (auto simp: GetBestBlock_def split: if_splits prod.splits)
  then have "cache_grows st1 st2" by (simp add: cache_grows_def cached_def)
  then show ?case using GetBestBlock_ok [OF i] coins_form_grows [OF conjunct2 [OF Best.IH]] by simp
next
  case (Set_Best st1 h)
  obtain s c where st1: "st1 = (s, c)" by (cases st1)
  then show ?case using Set_Best.IH
    by (simp add: SetBestBlock_def cache_inv_def coins_form_def cache_utxo_def cached_def)
next
  case (Spend st1 h n undo st2)
  show ?case
  proof (rule modify_keeps_form [OF conjunct1 [OF Spend.IH] conjunct2 [OF Spend.IH] Spend.hyps(2)])
    fix c c' assume f: "map_option (\<lambda>(coins, undo). (undo, coins)) (CCoins_Spend c n) = Some (undo, c')"
      and c: "coins_abs c \<noteq> (\<lambda>n. None) \<Longrightarrow> nulls_ok c"
    have s: "CCoins_Spend c n = Some (c', undo)" using f by auto
    have "coins_abs c n \<noteq> None" using CCoins_Spend_Some [OF s] by auto
    then have "coins_abs c \<noteq> (\<lambda>n. None)" by auto
    then show "nulls_ok c'" using Spend_nulls_ok [OF s] c by blast
  qed
next
  case (Create st1 tx u st2)
  show ?case
    by (rule modify_keeps_form [OF conjunct1 [OF Create.IH] conjunct2 [OF Create.IH] Create.hyps(3)])
      (use assms(4) Create.hyps(2) FromTx_form(2) in auto)
qed

text \<open>The outputs of a transaction of the block, when they are removed again.\<close>

lemma remove_outputs_clean:
  assumes "cache_inv invar utxo has st" and "coins_form utxo H st" and "tx_hash tx \<in> H" and "no_nulls tx"
    and "cache_utxo utxo st (tx_hash tx) = coins_abs (CCoins_FromTx tx nHeight)"
  shows "\<exists>st'. remove_outputs base tx nHeight st = Some (True, st') \<and>
    cache_inv invar utxo has st' \<and> cache_best best st' = cache_best best st \<and>
    cache_utxo utxo st' = (cache_utxo utxo st)(tx_hash tx := \<lambda>n. None) \<and> coins_form utxo H st'"
proof -
  let ?f = "\<lambda>outs. CCoins_eq
    (if cc_nVersion (CCoins_FromTx tx nHeight) <s 0
     then (ClearUnspendable outs)\<lparr>cc_nVersion := cc_nVersion (CCoins_FromTx tx nHeight)\<rparr>
     else ClearUnspendable outs) (CCoins_FromTx tx nHeight)"
  obtain s c where st: "st = (s, c)" by (cases st)
  have d: "remove_outputs base tx nHeight st = modify base (tx_hash tx) (\<lambda>c. Some (?f c, CCoins_Clear)) st"
    by (simp only: remove_outputs_def Let_def)
  obtain coins st' where coins: "coins_abs coins = cache_utxo utxo st (tx_hash tx)" "\<And>c'. cached st (tx_hash tx) = Some c' \<Longrightarrow> coins = c'"
    and m: "modify base (tx_hash tx) (\<lambda>c. Some (?f c, CCoins_Clear)) st = Some (?f coins, st')"
      "cache_inv invar utxo has st'" "cache_best best st' = cache_best best st"
      "cache_utxo utxo st' = (cache_utxo utxo st)(tx_hash tx := \<lambda>n. None)"
    using modify_form [OF assms(1) [unfolded st], of "tx_hash tx" "\<lambda>c. Some (?f c, CCoins_Clear)"] unfolding st by auto
  have "nulls_ok coins" if "coins_abs coins \<noteq> (\<lambda>n. None)"
    using that assms(2,3) coins unfolding coins_form_def by metis
  then have "?f coins" by (rule added_transaction_matches [OF coins(1) [unfolded assms(5)] _ assms(4)])
  moreover have "coins_form utxo H st'"
    using modify_keeps_form [OF assms(1,2) m(1)] by (simp add: nulls_ok_def CCoins_Clear_def)
  ultimately show ?thesis using d m by simp
qed

lemma restore_inputs_form:
  "restore_inputs base xs k st = Some (True, st') \<Longrightarrow> cache_inv invar utxo has st \<Longrightarrow> coins_form utxo H st \<Longrightarrow>
    \<forall>(txin, undo) \<in> set xs. \<not> CTxOut_IsNull (un_txout undo) \<Longrightarrow> coins_form utxo H st'"
proof (induction xs arbitrary: k st)
  case (Cons x xs)
  obtain txin undo where x: "x = (txin, undo)" by fastforce
  obtain ok s where m: "modify base (COutPoint.op_hash (prevout txin)) (\<lambda>coins. restore_output coins (op_n (prevout txin)) undo) st = Some (ok, s)"
      and l: "restore_inputs base xs (k \<and> ok) s = Some (True, st')"
    using Cons.prems(1) unfolding x by (auto split: option.splits)
  have ok: "ok = True" using restore_inputs_True [OF l] by simp
  have n: "\<not> CTxOut_IsNull (un_txout undo)" using Cons.prems(4) by (simp add: x)
  have "cache_inv invar utxo has s \<and> coins_form utxo H s"
    by (rule modify_keeps_form [OF Cons.prems(2,3) m]) (rule restore_nulls_ok [OF _ n], simp_all add: ok)
  then show ?case using Cons.IH [OF l] Cons.prems(4) by (simp add: x)
qed simp

end

section \<open>Outputs of a coinstake stay\<close>

text \<open>In the block of a coinstake its outputs are not mature, so no transaction of the block spends them.\<close>

lemma stakes_stay:
  assumes "txs_inputs K h txs V" and "n \<notin> tx_hash ` set txs" and "0 < c_maturity K" and "sint (of_int h :: u32) = h"
    and "\<And>i x. V n i = Some x \<Longrightarrow> coin_stake x \<and> coin_height x = of_int h"
  shows "fold (tx_apply h) txs V n = V n"
  using assms(1,2,5)
proof (induction txs arbitrary: V)
  case (Cons tx txs)
  have "COutPoint.op_hash (prevout txin) \<noteq> n" if tx: "\<not> IsCoinBase tx" "txin \<in> set (vin tx)" for txin
  proof
    assume p: "COutPoint.op_hash (prevout txin) = n"
    have v: "inputs_valid V (e_max_money (c_env K)) (c_maturity K) h 0 tx" using Cons.prems(1) tx(1) by simp
    then have i: "input_ok V (IsCoinStake tx) 0 txin" "mature_input V (c_maturity K) h txin"
      using tx(2) by (simp_all add: inputs_valid_def list_all_iff)
    then obtain x where x: "V n (unat (op_n (prevout txin))) = Some x"
      by (auto simp: input_ok_def p split: option.splits)
    then have "coin_at V txin = x" by (simp add: coin_at_def p)
    then show False using i(2) Cons.prems(3) [OF x] assms(3,4) by (simp add: mature_input_def)
  qed
  then have e: "tx_apply h tx V n = V n"
    using Cons.prems(2) by (auto simp: tx_apply_def fold_remove_coin fun_eq_iff)
  then show ?case using Cons.IH [of "tx_apply h tx V"] Cons.prems by simp
qed simp

lemma coins_abs_FromTx_stake:
  "coins_abs (CCoins_FromTx tx h) n = Some x \<Longrightarrow> coin_stake x = IsCoinStake tx \<and> coin_height x = h"
  by (auto dest!: coins_abs_fields simp: CCoins_FromTx_def ClearUnspendable_def CCoins_Cleanup_def)

lemma coinstake_left:
  assumes "txs_inputs K h txs U" and "distinct (map tx_hash txs)" and "0 < c_maturity K" and "sint (of_int h :: u32) = h"
    and "tx \<in> set txs" and "IsCoinStake tx"
  shows "fold (tx_apply h) txs U (tx_hash tx) = coins_abs (CCoins_FromTx tx (of_int h))"
  using assms(1,2,5)
proof (induction txs arbitrary: U)
  case (Cons t txs)
  show ?case
  proof (cases "tx = t")
    case True
    have "tx_apply h t U (tx_hash t) = coins_abs (CCoins_FromTx t (of_int h))" by (simp add: tx_apply_def)
    moreover from this have "fold (tx_apply h) txs (tx_apply h t U) (tx_hash t) = tx_apply h t U (tx_hash t)"
      using Cons.prems(1,2) coins_abs_FromTx_stake [of t "of_int h"] assms(3,4,6) True
      by (intro stakes_stay [of K]) auto
    ultimately show ?thesis using True by simp
  next
    case False
    then show ?thesis using Cons by simp
  qed
qed simp

lemma txs_connect_inputs: "txs_connect K f h txs U \<Longrightarrow> txs_inputs K h txs U"
  by (induction txs arbitrary: U) (auto simp: spend_ok_def)

lemma tx_valid_no_nulls: "tx_valid m act tx \<Longrightarrow> no_nulls tx"
  by (auto simp: tx_valid_def no_nulls_def CTxOut_IsNull_def MoneyRange_def)

end
