(* ===== verification/DisconnectBlock.thy ===== *)
theory DisconnectBlock
  imports CoinsForm
begin

text \<open>
  A block taken back (\<open>DisconnectBlock\<close> of \<open>src/main.cpp\<close>) over any view of the unspent outputs,
  and the two functions together: after \<open>ConnectBlock\<close> and \<open>DisconnectBlock\<close> the view stands for the
  outputs it stood for before, but for stake flags.
\<close>

section \<open>The function\<close>

text \<open>What the code asks the disk and the Zerocoin database: whether there is a position of undo data, the
  undo data read from it with the hash of the predecessor, whether the serials and coins of a transaction
  and the accumulator checkpoint can be erased.\<close>

record disconnect_env =
  d_pos_null :: bool
  d_read_undo :: "uint256 \<Rightarrow> CTxInUndo list list option"
  d_erase_zerocoins :: "CTransaction \<Rightarrow> bool"
  d_erase_accumulators :: bool

text \<open>The transactions with their undo data, last one first: \<open>vtxundo[i - 1]\<close> is \<open>None\<close> for the first. The
  result is \<open>fClean\<close>, or nothing after an error; the outer \<open>None\<close> is undefined.\<close>

fun disconnect_txs ::
    "disconnect_env \<Rightarrow> 's CCoinsView \<Rightarrow> u32 \<Rightarrow> (CTransaction \<times> CTxInUndo list option) list \<Rightarrow> bool \<Rightarrow> 's \<times> CCoinsViewCache \<Rightarrow>
     (bool option \<times> 's \<times> CCoinsViewCache) option" where
  "disconnect_txs D base nHeight [] fClean st = Some (Some fClean, st)"
| "disconnect_txs D base nHeight ((tx, txundo) # txs) fClean st =
     (if ContainsZerocoins tx \<and> HasZerocoinSpendInputs tx \<and> \<not> d_erase_zerocoins D tx then Some (None, st)
      else
        (case remove_outputs base tx nHeight st of
           None \<Rightarrow> None
         | Some (ok, st) \<Rightarrow>
             if \<not> IsCoinBase tx \<and> \<not> HasZerocoinSpendInputs tx then
               (case txundo of
                  None \<Rightarrow> None
                | Some vprevout \<Rightarrow>
                    if length vprevout \<noteq> length (vin tx) then Some (None, st)
                    else
                      (case restore_inputs base (rev (zip (vin tx) vprevout)) (fClean \<and> ok) st of
                         None \<Rightarrow> None
                       | Some (fClean, st) \<Rightarrow> disconnect_txs D base nHeight txs fClean st))
             else disconnect_txs D base nHeight txs (fClean \<and> ok) st))"

text \<open>The result is the returned value and what \<open>*pfClean\<close> is in the end, when the pointer is given. A
  failed assertion or a null predecessor is \<open>None\<close>. The address index is off.\<close>

definition DisconnectBlock ::
    "disconnect_env \<Rightarrow> 's CCoinsView \<Rightarrow> CBlock \<Rightarrow> connect_index \<Rightarrow> bool \<Rightarrow> 's \<times> CCoinsViewCache \<Rightarrow>
     ((bool \<times> bool) \<times> 's \<times> CCoinsViewCache) option" where
  "DisconnectBlock D base b pindex pfClean st =
     (case GetBestBlock base st of
        (best, st) \<Rightarrow>
          if ci_hash pindex \<noteq> best then None
          else if d_pos_null D then Some ((False, False), st)
          else
            (case ci_prev pindex of
               None \<Rightarrow> None
             | Some (prev, _) \<Rightarrow>
                 (case d_read_undo D prev of
                    None \<Rightarrow> Some ((False, False), st)
                  | Some vtxundo \<Rightarrow>
                      if length vtxundo + 1 \<noteq> length (vtx b) then Some ((False, False), st)
                      else
                        (case disconnect_txs D base (of_int (ci_height pindex)) (rev (zip (vtx b) (None # map Some vtxundo))) True st of
                           None \<Rightarrow> None
                         | Some (None, st) \<Rightarrow> Some ((False, False), st)
                         | Some (Some fClean, st) \<Rightarrow>
                             (let st = SetBestBlock st prev
                              in if \<not> d_erase_accumulators D then Some ((False, False), st)
                                 else if pfClean then Some ((True, fClean), st)
                                 else Some ((fClean, False), st))))))"

section \<open>The transactions taken back\<close>

fun undo_pairs :: "int \<Rightarrow> nat \<Rightarrow> CTransaction list \<Rightarrow> coins_fun \<Rightarrow> (CTransaction \<times> CTxInUndo list option) list" where
  "undo_pairs h i [] U = []"
| "undo_pairs h i (tx # txs) U =
     (tx, if i > 0 then Some (undos_for U (tx_spends tx)) else None) # undo_pairs h (i + 1) txs (tx_apply h tx U)"

lemma undo_pairs_zip:
  "undo_pairs h i txs U = zip txs (if i = 0 then None # map Some (txs_undo h i txs U) else map Some (txs_undo h i txs U))"
proof (induction txs arbitrary: i U)
  case (Cons tx txs)
  then show ?case by (cases "i = 0") simp_all
qed simp

lemma length_txs_undo: "length (txs_undo h i txs U) = (if i = 0 then length txs - 1 else length txs)"
  by (induction txs arbitrary: i U) auto

lemma disconnect_txs_append:
  "disconnect_txs D base h (xs @ ys) k st =
     (case disconnect_txs D base h xs k st of
        None \<Rightarrow> None
      | Some (None, st) \<Rightarrow> Some (None, st)
      | Some (Some k, st) \<Rightarrow> disconnect_txs D base h ys k st)"
  by (induction D base h xs k st rule: disconnect_txs.induct) (auto split: option.split)

lemma disconnect_txs_one:
  assumes "disconnect_tx base tx vs h st = Some (True, st')" and "\<not> ContainsZerocoins tx"
    and "\<not> IsCoinBase tx \<Longrightarrow> txundo = Some vs"
  shows "disconnect_txs D base h [(tx, txundo)] True st = Some (Some True, st')"
proof -
  have z: "\<not> HasZerocoinSpendInputs tx" using assms(2) by (simp add: ContainsZerocoins_def)
  obtain ok s where r: "remove_outputs base tx h st = Some (ok, s)"
    using assms(1) by (auto simp: disconnect_tx_def split: option.splits)
  show ?thesis
  proof (cases "IsCoinBase tx")
    case True
    then show ?thesis using assms(1) r z by (simp add: disconnect_tx_def)
  next
    case False
    then have l: "length vs = length (vin tx)" and t: "restore_inputs base (rev (zip (vin tx) vs)) ok s = Some (True, st')"
      using assms(1) r z by (simp_all add: disconnect_tx_def split: if_splits)
    have ok using restore_inputs_True [OF t] .
    then show ?thesis using False r z l t assms(2,3) by simp
  qed
qed

section \<open>The outputs before and after\<close>

lemma tx_apply_empty: "U h' = (\<lambda>n. None) \<Longrightarrow> h' \<noteq> tx_hash tx \<Longrightarrow> tx_apply h tx U h' = (\<lambda>n. None)"
  by (auto simp: tx_apply_def fold_remove_coin fun_eq_iff)

lemma txs_apply_empty: "U h' = (\<lambda>n. None) \<Longrightarrow> h' \<notin> tx_hash ` set txs \<Longrightarrow> fold (tx_apply h) txs U h' = (\<lambda>n. None)"
  by (induction txs arbitrary: U) (auto simp: tx_apply_empty)

lemma utxo_ok_fold_remove: "utxo_ok U \<Longrightarrow> utxo_ok (fold (\<lambda>p U. remove_coin U p) ps U)"
  by (induction ps arbitrary: U) auto

lemma utxo_ok_update:
  "utxo_ok V \<Longrightarrow> (\<And>n x. coins_abs c n = Some x \<Longrightarrow> coin_height x \<noteq> 0) \<Longrightarrow> utxo_ok (V(h := coins_abs c))"
  using same_tx_coins_abs [of c] coins_abs_not_null [of c] unfolding utxo_ok_def by auto

lemma utxo_ok_apply:
  assumes "utxo_ok U" and "(of_int h :: u32) \<noteq> 0"
  shows "utxo_ok (tx_apply h tx U)"
proof -
  let ?V = "fold (\<lambda>p U. remove_coin U p) (if IsCoinBase tx then [] else map outpoint (vin tx)) U"
    and ?c = "CCoins_FromTx tx (of_int h)"
  have "cc_nHeight ?c = of_int h" by (simp add: CCoins_FromTx_def ClearUnspendable_def CCoins_Cleanup_def)
  then have "coin_height x \<noteq> 0" if "coins_abs ?c n = Some x" for n x
    using coins_abs_fields [OF that] assms(2) by simp
  then show ?thesis unfolding tx_apply_def by (intro utxo_ok_update utxo_ok_fold_remove [OF assms(1)])
qed

text \<open>What a transaction needs so that it can be taken back.\<close>

definition tx_undoable :: "coins_fun \<Rightarrow> CTransaction \<Rightarrow> bool" where
  "tx_undoable U tx \<longleftrightarrow> \<not> ContainsZerocoins tx \<and> U (tx_hash tx) = (\<lambda>n. None) \<and>
     (IsCoinBase tx \<or> (\<forall>txin \<in> set (vin tx). op_n (prevout txin) \<noteq> -1))"

definition gone :: "coins_fun \<Rightarrow> uint256 \<Rightarrow> bool" where
  "gone U h \<longleftrightarrow> U h = (\<lambda>n. None)"

lemma undoable_later:
  assumes "\<forall>tx \<in> set (tx # txs). tx_undoable U tx" and "distinct (map tx_hash (tx # txs))"
  shows "\<forall>tx' \<in> set txs. tx_undoable (tx_apply h tx U) tx'"
proof
  fix tx' assume "tx' \<in> set txs"
  then have "tx_undoable U tx'" "tx_hash tx' \<noteq> tx_hash tx" using assms by (auto simp: image_iff)
  then show "tx_undoable (tx_apply h tx U) tx'" by (simp add: tx_undoable_def tx_apply_empty)
qed

text \<open>A transaction the first one takes all of, or that is gone after the others, is gone after all of them.\<close>

lemma taken_is_gone:
  assumes "\<forall>tx \<in> set (tx # txs). tx_undoable U tx" and "U n \<noteq> (\<lambda>n. None)" and "takes_all U (tx_spends tx) n"
  shows "gone (fold (tx_apply h) (tx # txs) U) n"
proof -
  have n: "n \<notin> tx_hash ` set (tx # txs)" using assms(1,2) by (auto simp: tx_undoable_def)
  have "tx_apply h tx U n = (\<lambda>n. None)"
    using n assms(3) by (auto simp: tx_apply_def takes_all_def tx_spends_def fold_remove_coin fun_eq_iff)
  then show ?thesis using n txs_apply_empty by (simp add: gone_def)
qed

lemma forget_stakes_gone:
  assumes "\<forall>tx \<in> set (tx # txs). tx_undoable U tx"
  shows "forget_stakes (\<lambda>n. K n \<or> gone (fold (tx_apply h) (tx # txs) U) n) U (tx_spends tx) =
    (\<lambda>n. unstake (K n \<or> gone (fold (tx_apply h) (tx # txs) U) n) (U n))"
proof
  fix n
  show "forget_stakes (\<lambda>n. K n \<or> gone (fold (tx_apply h) (tx # txs) U) n) U (tx_spends tx) n =
    unstake (K n \<or> gone (fold (tx_apply h) (tx # txs) U) n) (U n)"
  proof (cases "U n = (\<lambda>n. None)")
    case False
    then have "takes_all U (tx_spends tx) n \<Longrightarrow> gone (fold (tx_apply h) (tx # txs) U) n"
      using taken_is_gone [OF assms] by blast
    then have "(K n \<or> gone (fold (tx_apply h) (tx # txs) U) n) \<or> takes_all U (tx_spends tx) n \<longleftrightarrow>
        K n \<or> gone (fold (tx_apply h) (tx # txs) U) n" by blast
    then show ?thesis by (simp only: forget_stakes_def)
  qed (simp add: forget_stakes_def)
qed

text \<open>The outputs of coinstakes are there as the block made them, if it made any.\<close>

definition stakes_left :: "(uint256 \<Rightarrow> bool) \<Rightarrow> int \<Rightarrow> CTransaction list \<Rightarrow> coins_fun \<Rightarrow> bool" where
  "stakes_left K h txs W \<longleftrightarrow> (\<forall>tx \<in> set txs. IsCoinStake tx \<longrightarrow>
     coins_abs (CCoins_FromTx tx (of_int h)) = (\<lambda>n. None) \<or> (\<not> K (tx_hash tx) \<and> \<not> gone W (tx_hash tx)))"

lemma unstake_other:
  assumes "k \<Longrightarrow> f = (\<lambda>n. None) \<or> (\<forall>n x. f n = Some x \<longrightarrow> \<not> coin_stake x)"
  shows "unstake k f = f"
proof
  fix n
  show "unstake k f n = f n" using assms by (cases "f n") (auto simp: unstake_def)
qed

lemma unstake_left:
  assumes "stakes_left K h (tx # txs) W"
  shows "unstake (K (tx_hash tx) \<or> gone W (tx_hash tx)) (coins_abs (CCoins_FromTx tx (of_int h))) =
    coins_abs (CCoins_FromTx tx (of_int h))"
proof (rule unstake_other)
  assume g: "K (tx_hash tx) \<or> gone W (tx_hash tx)"
  show "coins_abs (CCoins_FromTx tx (of_int h)) = (\<lambda>n. None) \<or>
    (\<forall>n x. coins_abs (CCoins_FromTx tx (of_int h)) n = Some x \<longrightarrow> \<not> coin_stake x)"
  proof (cases "IsCoinStake tx")
    case True
    then show ?thesis using assms g by (auto simp: stakes_left_def)
  next
    case False
    then show ?thesis using coins_abs_FromTx_stake [of tx "of_int h"] by blast
  qed
qed

context coins_source
begin

lemma disconnect_tx_clean:
  assumes "cache_inv invar utxo has st" and "utxo_ok U" and "all_there U ps" and "U (tx_hash tx) = (\<lambda>n. None)"
    and "cache_utxo utxo st = (\<lambda>h. unstake (K h)
      (((fold (\<lambda>p U. remove_coin U p) ps U)(tx_hash tx := coins_abs (CCoins_FromTx tx nHeight))) h))"
    and "ins = (if IsCoinBase tx \<or> HasZerocoinSpendInputs tx then [] else vin tx)" and "ps = map outpoint ins"
    and "\<forall>txin \<in> set ins. op_n (prevout txin) \<noteq> -1"
    and "coins_form utxo H st" and "tx_hash tx \<in> H" and "no_nulls tx"
    and "unstake (K (tx_hash tx)) (coins_abs (CCoins_FromTx tx nHeight)) = coins_abs (CCoins_FromTx tx nHeight)"
  shows "\<exists>st'. disconnect_tx base tx (undos_for U ps) nHeight st = Some (True, st') \<and>
    cache_inv invar utxo has st' \<and> cache_best best st' = cache_best best st \<and>
    cache_utxo utxo st' = forget_stakes K U ps \<and> coins_form utxo H st'"
proof -
  have v: "cache_utxo utxo st (tx_hash tx) = coins_abs (CCoins_FromTx tx nHeight)" using assms(5,12) by simp
  obtain s where s: "remove_outputs base tx nHeight st = Some (True, s)"
      "cache_inv invar utxo has s" "cache_best best s = cache_best best st"
      "cache_utxo utxo s = (cache_utxo utxo st)(tx_hash tx := \<lambda>n. None)" "coins_form utxo H s"
    using remove_outputs_clean [OF assms(1,9-11) v] by blast
  have "(fold (\<lambda>p U. remove_coin U p) ps U) (tx_hash tx) = (\<lambda>n. None)"
    using assms(4) by (auto simp: fold_remove_coin fun_eq_iff)
  then have cs: "cache_utxo utxo s = (\<lambda>h. unstake (K h) (fold (\<lambda>p U. remove_coin U p) (map outpoint ins) U h))"
    by (simp add: s(4) assms(5,7) fun_eq_iff unstake_def)
  have d: "disconnect_tx base tx (undos_for U ps) nHeight st = restore_inputs base (rev (zip ins (undos_for U ps))) True s"
    using s(1) assms(6,7) by (auto simp: disconnect_tx_def)
  obtain st' where r: "restore_inputs base (rev (zip ins (undos_for U ps))) True s = Some (True, st')"
      "cache_inv invar utxo has st'" "cache_best best st' = cache_best best s" "cache_utxo utxo st' = forget_stakes K U ps"
    using restore_inputs_ok [OF s(2) assms(3) [unfolded assms(7)] cs assms(2,8), of True] assms(7) by auto
  have "\<forall>(txin, undo) \<in> set (rev (zip ins (undos_for U ps))). \<not> CTxOut_IsNull (un_txout undo)"
    using undos_not_null [OF assms(3,2)] by (auto dest: set_zip_rightD)
  then have "coins_form utxo H st'" by (rule restore_inputs_form [OF r(1) s(2,5)])
  then show ?thesis using d r s(3) by simp
qed

lemma disconnect_txs_ok:
  assumes "cache_inv invar utxo has st" and "utxo_ok U" and "txs_there h txs U" and "distinct (map tx_hash txs)"
    and "\<forall>tx \<in> set txs. tx_undoable U tx" and "(of_int h :: u32) \<noteq> 0" and "i = 0 \<and> txs \<noteq> [] \<longrightarrow> IsCoinBase (hd txs)"
    and "cache_utxo utxo st = (\<lambda>n. unstake (K n) (fold (tx_apply h) txs U n))"
    and "coins_form utxo H st" and "tx_hash ` set txs \<subseteq> H" and "\<forall>tx \<in> set txs. no_nulls tx"
    and "stakes_left K h txs (fold (tx_apply h) txs U)"
  shows "\<exists>st'. disconnect_txs D base (of_int h) (rev (undo_pairs h i txs U)) True st = Some (Some True, st') \<and>
    cache_inv invar utxo has st' \<and> cache_best best st' = cache_best best st \<and>
    cache_utxo utxo st' = (\<lambda>n. unstake (K n \<or> gone (fold (tx_apply h) txs U) n) (U n)) \<and> coins_form utxo H st'"
  using assms(1-5,7-12)
proof (induction txs arbitrary: i U st)
  case Nil
  have "cache_utxo utxo st = (\<lambda>n. unstake (K n \<or> gone U n) (U n))"
    using Nil.prems(7) by (auto simp: gone_def)
  then show ?case using Nil.prems(1,8) by (cases st) simp
next
  case (Cons tx txs)
  let ?U = "tx_apply h tx U" and ?W = "fold (tx_apply h) (tx # txs) U" and ?p = "(tx, if i > 0 then Some (undos_for U (tx_spends tx)) else None)"
  have d: "distinct (map tx_hash txs)" and t: "all_there U (tx_spends tx)" "txs_there h txs ?U"
    using Cons.prems(3,4) by simp_all
  have w: "fold (tx_apply h) txs ?U = ?W" by simp
  have l: "stakes_left K h txs (fold (tx_apply h) txs ?U)" using Cons.prems(11) unfolding w by (simp add: stakes_left_def)
  obtain s1 c1 where r: "disconnect_txs D base (of_int h) (rev (undo_pairs h (i + 1) txs ?U)) True st = Some (Some True, s1, c1)"
      "cache_inv invar utxo has (s1, c1)" "cache_best best (s1, c1) = cache_best best st"
      "cache_utxo utxo (s1, c1) = (\<lambda>n. unstake (K n \<or> gone ?W n) (?U n))" "coins_form utxo H (s1, c1)"
    using Cons.IH [OF Cons.prems(1) utxo_ok_apply [OF Cons.prems(2) assms(6)] t(2) d
        undoable_later [OF Cons.prems(5,4)] _ _ Cons.prems(8) _ _ l, of "i + 1"] Cons.prems(7,9,10) by auto
  have u: "\<not> ContainsZerocoins tx" "U (tx_hash tx) = (\<lambda>n. None)" and
      n: "\<forall>txin \<in> set (if IsCoinBase tx then [] else vin tx). op_n (prevout txin) \<noteq> -1"
    using Cons.prems(5) by (auto simp: tx_undoable_def)
  then have z: "\<not> HasZerocoinSpendInputs tx" by (simp add: ContainsZerocoins_def)
  have s: "tx_spends tx = map outpoint (if IsCoinBase tx then [] else vin tx)" by (simp add: tx_spends_def)
  have a: "cache_utxo utxo (s1, c1) = (\<lambda>n. unstake (K n \<or> gone ?W n)
      (((fold (\<lambda>p U. remove_coin U p) (tx_spends tx) U)(tx_hash tx := coins_abs (CCoins_FromTx tx (of_int h)))) n))"
    unfolding r(4) by (simp only: tx_apply_def tx_spends_def)
  have hn: "tx_hash tx \<in> H" "no_nulls tx" using Cons.prems(9,10) by simp_all
  obtain s2 c2 where o: "disconnect_tx base tx (undos_for U (tx_spends tx)) (of_int h) (s1, c1) = Some (True, s2, c2)"
      "cache_inv invar utxo has (s2, c2)" "cache_best best (s2, c2) = cache_best best (s1, c1)"
      "cache_utxo utxo (s2, c2) = forget_stakes (\<lambda>n. K n \<or> gone ?W n) U (tx_spends tx)" "coins_form utxo H (s2, c2)"
    using disconnect_tx_clean [OF r(2) Cons.prems(2) t(1) u(2) a _ s n r(5) hn unstake_left [OF Cons.prems(11)]] z by auto
  have "disconnect_txs D base (of_int h) [?p] True (s1, c1) = Some (Some True, s2, c2)"
    using Cons.prems(6) by (intro disconnect_txs_one [OF o(1) u(1)]) (cases "i = 0", auto)
  then have "disconnect_txs D base (of_int h) (rev (undo_pairs h i (tx # txs) U)) True st = Some (Some True, s2, c2)"
    using r(1) by (simp add: disconnect_txs_append)
  then show ?case using o(2-5) r(3) forget_stakes_gone [OF Cons.prems(5)] by auto
qed

end

section \<open>The block taken back\<close>

lemma block_valid_first: "block_valid e b \<Longrightarrow> vtx b \<noteq> [] \<and> IsCoinBase (hd (vtx b))"
  by (simp add: block_valid_iff hd_conv_nth)

lemma DisconnectBlock_ok:
  assumes "work_inv st1" and "work_best st1 = ci_hash pindex" and "work_utxo st1 = fold (tx_apply h) (vtx b) U"
    and "utxo_ok U" and "txs_there h (vtx b) U" and "distinct (map tx_hash (vtx b))"
    and "\<forall>tx \<in> set (vtx b). tx_undoable U tx" and "(of_int h :: u32) \<noteq> 0" and "h = ci_height pindex"
    and "vtx b \<noteq> []" and "IsCoinBase (hd (vtx b))" and "ci_prev pindex = Some (prev, m)" and "prev \<noteq> 0"
    and "\<not> d_pos_null D" and "d_read_undo D prev = Some (txs_undo h 0 (vtx b) U)" and "d_erase_accumulators D"
    and "coins_form tip_utxo (tx_hash ` set (vtx b)) st1" and "\<forall>tx \<in> set (vtx b). no_nulls tx"
    and "stakes_left (\<lambda>n. False) h (vtx b) (work_utxo st1)"
  shows "\<exists>st2. DisconnectBlock D tip_view b pindex pfClean st1 = Some ((True, pfClean), st2) \<and> work_inv st2 \<and> work_best st2 = prev \<and>
    work_utxo st2 = (\<lambda>n. unstake (gone (work_utxo st1) n) (U n))"
proof -
  obtain best s where g: "GetBestBlock tip_view st1 = (best, s)" by (metis prod.exhaust)
  have i: "work_inv s" "work_utxo s = fold (tx_apply h) (vtx b) U" "best = ci_hash pindex"
    using tip.GetBestBlock_ok [of "fst st1" "snd st1" best "fst s" "snd s"] assms(1-3) g by simp_all
  have f: "coins_form tip_utxo (tx_hash ` set (vtx b)) s"
    by (rule conjunct2 [OF tip.view_steps_form [OF step_rules(3) [OF g] assms(1,17,18)]])
  have u: "unstake False f = f" for f by (simp add: unstake_def fun_eq_iff option.map_ident)
  obtain st2 where d: "disconnect_txs D tip_view (of_int h) (rev (undo_pairs h 0 (vtx b) U)) True s = Some (Some True, st2)"
      "work_inv st2" "work_utxo st2 = (\<lambda>n. unstake (gone (work_utxo st1) n) (U n))"
    using tip.disconnect_txs_ok [OF i(1) assms(4-8) _ _ f subset_refl assms(18), of 0 "\<lambda>n. False" D]
      i(2) assms(3,11,19) by (auto simp: u)
  let ?undo = "txs_undo h 0 (vtx b) U"
  have l: "length ?undo + 1 = length (vtx b)" using assms(10) by (simp add: length_txs_undo)
  have z: "zip (vtx b) (None # map Some ?undo) = undo_pairs h 0 (vtx b) U" by (simp add: undo_pairs_zip)
  have h: "ci_height pindex = h" using assms(9) by simp
  have "DisconnectBlock D tip_view b pindex pfClean st1 =
      Some ((True, pfClean), SetBestBlock st2 prev)"
    using assms(12,14-16) g i(3) l d(1) [folded z] unfolding DisconnectBlock_def h by (simp add: Let_def)
  then show ?thesis using SetBestBlock_work [OF d(2), of prev] d(3) assms(13) by auto
qed

lemma ConnectBlock_accepts:
  assumes "list_all (\<lambda>tx. \<not> ContainsZerocoins tx) (vtx b)" and "fAlreadyChecked \<Longrightarrow> block_valid (c_env K) b"
    and "0 \<le> zc_max_spends (e_zc (c_env K))" and "0 \<le> sint (e_max_money (c_env K))" and "sint (e_max_money (c_env K)) < 2 ^ 62"
    and "ConnectBlock K base b state pindex False fAlreadyChecked rejects st = Some (rejects', (True, state'), money, undo, st1)"
  shows "block_valid (c_env K) b \<and> connect_checked K base b pindex False state st = Some ((True, state'), money, undo, st1)"
proof -
  note c = CheckBlock_ok [OF assms(1,4,5,3), of state rejects]
  have v: "block_valid (c_env K) b"
    using c assms(2,6) by (cases fAlreadyChecked) (auto simp: ConnectBlock_def split: if_splits)
  then show ?thesis using c assms(6) by (cases fAlreadyChecked) (auto simp: ConnectBlock_def)
qed

lemma block_valid_no_nulls: "block_valid e b \<Longrightarrow> \<forall>tx \<in> set (vtx b). no_nulls tx"
  by (auto simp: block_valid_iff list_all_iff dest: tx_valid_no_nulls)

lemma height_u32:
  assumes "0 < h" and "h < 2 ^ 31"
  shows "sint (of_int h :: u32) = h" and "(of_int h :: u32) \<noteq> 0"
proof -
  show s: "sint (of_int h :: u32) = h" using assms by (simp add: sint_sbintrunc' signed_take_bit_int_eq_self)
  show "(of_int h :: u32) \<noteq> 0" using s assms(1) by (metis sint_0 less_irrefl)
qed

section \<open>An example\<close>

text \<open>The block of a coinbase after the block with the hash 5.\<close>

definition sample_view :: "(CCoinsViewDB \<times> CCoinsViewCache) \<times> CCoinsViewCache" where
  "sample_view = SetBestBlock stake_db 5"

definition sample_place :: connect_index where
  "sample_place = sample_index\<lparr>ci_prev := Some (5, 0)\<rparr>"

definition sample_undo :: disconnect_env where
  "sample_undo = \<lparr>d_pos_null = False, d_read_undo = (\<lambda>h. Some []), d_erase_zerocoins = (\<lambda>tx. True), d_erase_accumulators = True\<rparr>"

lemma sample_view_inv: "work_inv sample_view" "work_utxo sample_view = work_utxo stake_db" "work_best sample_view = 5"
  unfolding sample_view_def using SetBestBlock_work [OF stake_db_inv, of 5] by simp_all

lemma sample_view_connects:
  "case connect_checked sample_connect tip_view sample_block sample_place False CValidationState_new sample_view of
     None \<Rightarrow> False | Some ((r, state), money, undo, st) \<Rightarrow> r \<and> undo = []"
  by code_simp

section \<open>Properties\<close>

text \<open>
  C39. A block that ConnectBlock accepted (with or without script threads, over any content of the
  views) is taken back by DisconnectBlock with the undo data it returned: no assertion fails, no
  error is returned and the block is found clean (the outputs of every transaction are those the
  block made, and no undo data overwrites or misses an output), the best block is the predecessor
  again, and every output that was unspent before is back with its value, script, height, version
  and coinbase flag, and no other; the coinstake flag is kept exactly for the transactions of
  which an output was left. The block has no zerocoin parts and, if it is a proof of work block,
  at most one coinstake; it is not the genesis block, follows a block that is not the null hash,
  and its transactions have different ids and spend no output with the index 2^32 - 1; the coins
  of the view have a height other than 0 and the maturity of the network is at least one block
  (then the outputs of a coinstake are not spent in its own block); the undo data is read from the
  disk as it was written, the accumulator checkpoint can be erased and the address index is off.
\<close>

theorem disconnect_block:
  assumes "work_inv st" and "coins_ok (e_max_money (c_env K)) (work_utxo st)" and "supply_of (work_utxo st) \<le> 2 ^ 61"
    and "list_all (\<lambda>tx. \<not> ContainsZerocoins tx) (vtx b)" and "fAlreadyChecked \<Longrightarrow> block_valid (c_env K) b"
    and "IsProofOfWork b \<Longrightarrow> length (filter IsCoinStake (vtx b)) \<le> 1" and "0 \<le> zc_max_spends (e_zc (c_env K))"
    and "0 \<le> sint (e_max_money (c_env K))" and "sint (e_max_money (c_env K)) \<le> 2 ^ 60"
    and "ci_prev pindex = Some (work_best st, mprev)" and "e_height (c_env K) (work_best st) = Some (ci_height pindex - 1)"
    and "c_money_supply K (ci_height pindex - 1) \<noteq> None"
    and "e_hash (c_env K) b \<noteq> e_genesis (c_env K)" and "ci_hash pindex \<noteq> 0" and "work_best st \<noteq> 0"
    and "ConnectBlock K tip_view b state pindex False fAlreadyChecked rejects st = Some (rejects', (True, state'), money, undo, st1)"
    and "\<And>h n x. work_utxo st h n = Some x \<Longrightarrow> coin_height x \<noteq> 0" and "0 < ci_height pindex" and "ci_height pindex < 2 ^ 31"
    and "0 < c_maturity K"
    and "distinct (map tx_hash (vtx b))"
    and "\<forall>tx \<in> set (vtx b). IsCoinBase tx \<or> (\<forall>txin \<in> set (vin tx). op_n (prevout txin) \<noteq> -1)"
    and "\<not> d_pos_null D" and "d_read_undo D (work_best st) = Some undo" and "d_erase_accumulators D"
  shows "\<exists>st2. DisconnectBlock D tip_view b pindex pfClean st1 = Some ((True, pfClean), st2) \<and> work_inv st2 \<and> work_best st2 = work_best st \<and>
    (\<forall>h n. work_utxo st2 h n = map_option
      (\<lambda>x. if work_utxo st1 h = (\<lambda>m. None) then x\<lparr>coin_stake := False\<rparr> else x) (work_utxo st h n))"
proof -
  let ?h = "ci_height pindex" and ?U = "work_utxo st" and ?W = "work_utxo st1"
  have m: "sint (e_max_money (c_env K)) < 2 ^ 62" using assms(9) by simp
  have v: "block_valid (c_env K) b"
      and c: "connect_checked K tip_view b pindex False state st = Some ((True, state'), money, undo, st1)"
    using ConnectBlock_accepts [OF assms(4,5,7,8) m assms(16)] by simp_all
  have o: "work_inv st1" "work_best st1 = ci_hash pindex" "?W = fold (tx_apply ?h) (vtx b) ?U"
      "undo = txs_undo ?h 0 (vtx b) ?U" "txs_there ?h (vtx b) ?U" "\<forall>tx \<in> set (vtx b). ?U (tx_hash tx) = (\<lambda>n. None)"
      "txs_connect K (?h \<ge> GetTotalBlocksEstimate (c_env K)) ?h (vtx b) ?U"
    using connect_checked_ok [OF assms(1-4) v assms(6,8-10) refl assms(11-14), of state] c by auto
  have h: "sint (of_int ?h :: u32) = ?h" "(of_int ?h :: u32) \<noteq> 0" using height_u32 [OF assms(18,19)] .
  have ok: "utxo_ok ?U" by (rule tip.cache_utxo_ok [OF assms(1)]) (rule assms(17))
  have t: "\<forall>tx \<in> set (vtx b). tx_undoable ?U tx" using assms(4,22) o(6) by (simp add: tx_undoable_def list_all_iff)
  note n = block_valid_no_nulls [OF v]
  have f: "coins_form tip_utxo (tx_hash ` set (vtx b)) st1"
    by (rule conjunct2 [OF tip.view_steps_form [OF connect_checked_steps [OF c] assms(1) _ n]])
      (use o(6) in \<open>simp add: coins_form_def\<close>)
  have l: "stakes_left (\<lambda>n. False) ?h (vtx b) ?W"
    using coinstake_left [OF txs_connect_inputs [OF o(7)] assms(21,20) h(1)] unfolding stakes_left_def gone_def o(3) by auto
  show ?thesis
    using DisconnectBlock_ok [OF o(1-3) ok o(5) assms(21) t h(2) refl _ _ assms(10,15,23) _ assms(25) f n l, of pfClean]
      block_valid_first [OF v] assms(24) o(4) by (auto simp: unstake_def gone_def)
qed

theorem disconnect_block_witness:
  "\<exists>state' money undo st1 st2. ConnectBlock sample_connect tip_view sample_block CValidationState_new sample_place
      False True (\<lambda>h. None) sample_view = Some (\<lambda>h. None, (True, state'), money, undo, st1) \<and>
     DisconnectBlock sample_undo tip_view sample_block sample_place True st1 = Some ((True, True), st2) \<and>
     work_best st2 = 5 \<and> map_option coin_out (work_utxo st2 7 0) = map_option coin_out (work_utxo sample_view 7 0)"
proof -
  have a: "list_all (\<lambda>tx. \<not> ContainsZerocoins tx) (vtx sample_block)" "length (filter IsCoinStake (vtx sample_block)) \<le> 1"
    "distinct (map tx_hash (vtx sample_block))" "list_all IsCoinBase (vtx sample_block)" by code_simp+
  have k: "e_max_money (c_env sample_connect) = 2100000000000000" "0 \<le> zc_max_spends (e_zc (c_env sample_connect))"
    "ci_prev sample_place = Some (work_best sample_view, 0)" "work_best sample_view = 5" "ci_height sample_place = 1"
    "e_height (c_env sample_connect) h = Some (1 - 1)" "c_money_supply sample_connect (1 - 1) = Some 0"
    "e_hash (c_env sample_connect) sample_block \<noteq> e_genesis (c_env sample_connect)" "ci_hash sample_place = 1" for h
    using sample_connect_hash sample_view_inv(3)
    by (simp_all add: sample_connect_def sample_env_def sample_place_def sample_index_def no_zerocoin_def)
  have d: "\<not> d_pos_null sample_undo" "d_read_undo sample_undo h = Some []" "d_erase_accumulators sample_undo" for h
    by (simp_all add: sample_undo_def)
  have mt: "c_maturity sample_connect = 100" by (simp add: sample_connect_def)
  have u: "coin_height x \<noteq> 0" if "work_utxo sample_view h n = Some x" for h n x
    using stake_db_ok that by (simp add: sample_view_inv(2) utxo_ok_def)
  obtain state' money st1 where c: "ConnectBlock sample_connect tip_view sample_block CValidationState_new sample_place
      False True (\<lambda>h. None) sample_view = Some (\<lambda>h. None, (True, state'), money, [], st1)"
    using sample_view_connects
    by (cases "connect_checked sample_connect tip_view sample_block sample_place False CValidationState_new sample_view")
      (auto simp: ConnectBlock_def)
  have v: "coins_ok 2100000000000000 (work_utxo sample_view)" "supply_of (work_utxo sample_view) \<le> 2 ^ 61"
    using stake_db_coins_ok stake_db_supply by (simp_all add: sample_view_inv(2))
  obtain st2 where dc: "DisconnectBlock sample_undo tip_view sample_block sample_place True st1 = Some ((True, True), st2)"
      "work_best st2 = 5" "\<forall>h n. work_utxo st2 h n = map_option
        (\<lambda>x. if work_utxo st1 h = (\<lambda>m. None) then x\<lparr>coin_stake := False\<rparr> else x) (work_utxo sample_view h n)"
    using disconnect_block [OF sample_view_inv(1), where K = sample_connect and b = sample_block and pindex = sample_place
        and mprev = 0 and D = sample_undo and pfClean = True, OF _ _ _ _ _ _ _ _ _ _ _ _ _ _ c]
      v a k d u mt sample_connect_valid by (auto simp: list_all_iff)
  have "map_option coin_out (work_utxo st2 7 0) = map_option coin_out (work_utxo sample_view 7 0)"
    using dc(3) by (cases "work_utxo sample_view 7 0") auto
  then show ?thesis using c dc by blast
qed

end
