(* ===== verification/CheckQueue.thy ===== *)
theory CheckQueue
  imports ConnectBlock
begin

text \<open>
  \<open>CCheckQueue\<close> of \<open>checkqueue.h\<close>, the queue on which the script checks of a block run in several
  threads: its state under the mutex, the critical sections of \<open>Loop\<close>, and the interleavings of the
  master with any number of workers. Whatever the interleaving, \<open>Wait\<close> returns the conjunction
  of all the checks and returns after finitely many steps.
\<close>

section \<open>The state\<close>

record 'a CCheckQueue =
  cq_queue :: "'a list"
  nIdle :: int
  nTotal :: int
  fAllOk :: bool
  nTodo :: u32
  fQuit :: bool
  nBatchSize :: u32

definition CCheckQueue_new :: "u32 \<Rightarrow> 'a CCheckQueue" where
  "CCheckQueue_new nBatchSizeIn =
     \<lparr>cq_queue = [], nIdle = 0, nTotal = 0, fAllOk = True, nTodo = 0, fQuit = False, nBatchSize = nBatchSizeIn\<rparr>"

text \<open>
  A thread is outside of \<open>Loop\<close>, runs its batch (and takes the lock when the batch is done), sleeps in
  \<open>cond.wait\<close> or has been woken there and waits for the lock. Its locals are the checks still to
  run, the size of the batch and the result so far.
\<close>

datatype place = Outside | Running | Sleeping | Woken

record 'a cq_thread =
  t_place :: place
  vChecks :: "'a list"
  nNow :: u32
  fOk :: bool

definition Loop_start :: "'a cq_thread" where
  "Loop_start = \<lparr>t_place = Running, vChecks = [], nNow = 0, fOk = True\<rparr>"

section \<open>The critical sections\<close>

text \<open>The first branch: the result of the batch is recorded, or the thread is counted. The flag says
  that the master is notified.\<close>

definition cq_record :: "bool \<Rightarrow> 'a cq_thread \<Rightarrow> 'a CCheckQueue \<Rightarrow> 'a CCheckQueue \<times> bool" where
  "cq_record fMaster t q =
     (if nNow t \<noteq> 0 then
        let q = q\<lparr>fAllOk := fAllOk q \<and> fOk t, nTodo := nTodo q - nNow t\<rparr> in (q, nTodo q = 0 \<and> \<not> fMaster)
      else (q\<lparr>nTotal := nTotal q + 1\<rparr>, False))"

definition cq_batch :: "'a CCheckQueue \<Rightarrow> u32" where
  "cq_batch q = max 1 (min (nBatchSize q) (of_nat (length (cq_queue q)) div of_int (nTotal q + nIdle q + 1)))"

text \<open>The loop that takes checks from the back; \<open>None\<close> is \<open>back()\<close> of an empty vector.\<close>

fun take_back :: "nat \<Rightarrow> 'a list \<Rightarrow> ('a list \<times> 'a list) option" where
  "take_back 0 xs = Some ([], xs)"
| "take_back (Suc n) xs =
     (if xs = [] then None
      else case take_back n (butlast xs) of None \<Rightarrow> None | Some (taken, rest) \<Rightarrow> Some (last xs # taken, rest))"

text \<open>From the test of the inner loop to the end of the critical section: return, sleep, or take a batch.\<close>

definition cq_take ::
    "bool \<Rightarrow> 'a cq_thread \<Rightarrow> 'a CCheckQueue \<Rightarrow> ('a CCheckQueue \<times> 'a cq_thread \<times> bool option) option" where
  "cq_take fMaster t q =
     (if cq_queue q = [] then
        if (fMaster \<or> fQuit q) \<and> nTodo q = 0 then
          Some (q\<lparr>nTotal := nTotal q - 1, fAllOk := if fMaster then True else fAllOk q\<rparr>,
                t\<lparr>t_place := Outside\<rparr>, Some (fAllOk q))
        else Some (q\<lparr>nIdle := nIdle q + 1\<rparr>, t\<lparr>t_place := Sleeping\<rparr>, None)
      else case take_back (unat (cq_batch q)) (cq_queue q) of
             None \<Rightarrow> None
           | Some (taken, rest) \<Rightarrow>
               Some (q\<lparr>cq_queue := rest\<rparr>,
                     \<lparr>t_place = Running, vChecks = taken, nNow = cq_batch q, fOk = fAllOk q\<rparr>, None))"

text \<open>The two ways into it: at the start of the outer loop, and out of \<open>cond.wait\<close>.\<close>

definition cq_enter ::
    "bool \<Rightarrow> 'a cq_thread \<Rightarrow> 'a CCheckQueue \<Rightarrow> ('a CCheckQueue \<times> 'a cq_thread \<times> bool option \<times> bool) option" where
  "cq_enter fMaster t q =
     (case cq_record fMaster t q of
        (q, notify) \<Rightarrow>
          (case cq_take fMaster t q of None \<Rightarrow> None | Some (q, t, ret) \<Rightarrow> Some (q, t, ret, notify)))"

definition cq_resume ::
    "bool \<Rightarrow> 'a cq_thread \<Rightarrow> 'a CCheckQueue \<Rightarrow> ('a CCheckQueue \<times> 'a cq_thread \<times> bool option) option" where
  "cq_resume fMaster t q = cq_take fMaster t (q\<lparr>nIdle := nIdle q - 1\<rparr>)"

text \<open>One check of the batch, without the lock.\<close>

definition run_one :: "('a \<Rightarrow> bool) \<Rightarrow> 'a cq_thread \<Rightarrow> 'a cq_thread" where
  "run_one check t =
     (case vChecks t of
        [] \<Rightarrow> t
      | c # cs \<Rightarrow> t\<lparr>vChecks := cs, fOk := if fOk t then check c else fOk t\<rparr>)"

definition cq_Add :: "'a list \<Rightarrow> 'a CCheckQueue \<Rightarrow> 'a CCheckQueue" where
  "cq_Add vs q = q\<lparr>cq_queue := cq_queue q @ vs, nTodo := nTodo q + of_nat (length vs)\<rparr>"

definition IsIdle :: "'a CCheckQueue \<Rightarrow> bool" where
  "IsIdle q \<longleftrightarrow> nTotal q = nIdle q \<and> nTodo q = 0 \<and> fAllOk q = True"

section \<open>Threads and their interleavings\<close>

text \<open>The threads of the process: number 0 is the master, the others are workers.\<close>

type_synonym 'a cq_state = "'a CCheckQueue \<times> 'a cq_thread list"

datatype 'a cq_event = AddE "'a list" | WaitE | LockE nat | RunE nat | WakeE nat | ReturnE bool

definition wake :: "'a cq_thread \<Rightarrow> 'a cq_thread" where
  "wake t = (if t_place t = Sleeping then t\<lparr>t_place := Woken\<rparr> else t)"

definition wake_at :: "nat \<Rightarrow> 'a cq_thread list \<Rightarrow> 'a cq_thread list" where
  "wake_at i ts = ts[i := wake (ts ! i)]"

text \<open>\<open>notify_one\<close> wakes some worker that sleeps, when there is one, and \<open>notify_all\<close> all of them.\<close>

definition notified :: "nat \<Rightarrow> 'a cq_thread list \<Rightarrow> 'a cq_thread list \<Rightarrow> bool" where
  "notified n ts ts' \<longleftrightarrow>
     (if n = 0 then ts' = ts
      else if n = 1 then
        (if list_ex (\<lambda>t. t_place t = Sleeping) (tl ts)
         then list_ex (\<lambda>i. 0 < i \<and> t_place (ts ! i) = Sleeping \<and> ts' = wake_at i ts) [0..<length ts]
         else ts' = ts)
      else ts' = take 1 ts @ map wake (tl ts))"

definition returns :: "bool option \<Rightarrow> nat \<Rightarrow> 'a cq_event" where
  "returns ret i = (case ret of None \<Rightarrow> LockE i | Some b \<Rightarrow> if i = 0 then ReturnE b else LockE i)"

text \<open>The steps: the master adds checks or calls \<open>Wait\<close>, a thread takes the lock, runs a check, or
  leaves \<open>cond.wait\<close> without a notification, which condition variables allow.\<close>

inductive cq_step :: "('a \<Rightarrow> bool) \<Rightarrow> 'a cq_state \<Rightarrow> 'a cq_event \<Rightarrow> 'a cq_state \<Rightarrow> bool" for check where
  step_add: "t_place (ts ! 0) = Outside \<Longrightarrow> notified (length vs) ts ts' \<Longrightarrow>
     cq_step check (q, ts) (AddE vs) (cq_Add vs q, ts')"
| step_wait: "t_place (ts ! 0) = Outside \<Longrightarrow> cq_step check (q, ts) WaitE (q, ts[0 := Loop_start])"
| step_enter: "i < length ts \<Longrightarrow> t_place (ts ! i) = Running \<Longrightarrow> vChecks (ts ! i) = [] \<Longrightarrow>
     cq_enter (i = 0) (ts ! i) q = Some (q', t, ret, notify) \<Longrightarrow>
     cq_step check (q, ts) (returns ret i) (q', if notify then wake_at 0 (ts[i := t]) else ts[i := t])"
| step_resume: "i < length ts \<Longrightarrow> t_place (ts ! i) = Woken \<Longrightarrow>
     cq_resume (i = 0) (ts ! i) q = Some (q', t, ret) \<Longrightarrow>
     cq_step check (q, ts) (returns ret i) (q', ts[i := t])"
| step_run: "i < length ts \<Longrightarrow> t_place (ts ! i) = Running \<Longrightarrow> vChecks (ts ! i) \<noteq> [] \<Longrightarrow>
     cq_step check (q, ts) (RunE i) (q, ts[i := run_one check (ts ! i)])"
| step_wake: "i < length ts \<Longrightarrow> t_place (ts ! i) = Sleeping \<Longrightarrow> cq_step check (q, ts) (WakeE i) (q, wake_at i ts)"

lemma returns_simps [simp]: "returns ret i \<noteq> AddE vs" "returns ret i \<noteq> WaitE" "returns ret i \<noteq> WakeE j"
    "returns ret i \<noteq> RunE j" "returns None i = LockE i" "returns (Some b) 0 = ReturnE b"
  by (simp_all add: returns_def split: option.split)

inductive_cases cq_step_AddE: "cq_step check s (AddE vs) s'"

lemma add_outside: "cq_step check s (AddE vs) s' \<Longrightarrow> t_place (snd s ! 0) = Outside"
  by (erule cq_step_AddE) (simp_all add: returns_simps(1) [symmetric])

inductive cq_steps :: "('a \<Rightarrow> bool) \<Rightarrow> 'a cq_state \<Rightarrow> 'a cq_event list \<Rightarrow> 'a cq_state \<Rightarrow> bool" for check where
  steps_none: "cq_steps check s [] s"
| steps_snoc: "cq_steps check s es s' \<Longrightarrow> cq_step check s' e s'' \<Longrightarrow> cq_steps check s (es @ [e]) s''"

text \<open>At the start no thread of \<open>n\<close> workers has entered the critical section yet, and the master is outside.\<close>

definition cq_init :: "u32 \<Rightarrow> nat \<Rightarrow> 'a cq_state" where
  "cq_init nBatchSizeIn n =
     (CCheckQueue_new nBatchSizeIn, Loop_start\<lparr>t_place := Outside\<rparr> # replicate n Loop_start)"

text \<open>The checks added since the last return of \<open>Wait\<close>, and the results of \<open>Wait\<close> with the checks
  of each.\<close>

fun round_event :: "'a cq_event \<Rightarrow> ('a list \<times> bool) list \<times> 'a list \<Rightarrow> ('a list \<times> bool) list \<times> 'a list" where
  "round_event (AddE vs) (rs, cs) = (rs, cs @ vs)"
| "round_event (ReturnE b) (rs, cs) = (rs @ [(cs, b)], [])"
| "round_event _ (rs, cs) = (rs, cs)"

definition rounds :: "'a cq_event list \<Rightarrow> ('a list \<times> bool) list \<times> 'a list" where
  "rounds es = fold round_event es ([], [])"

section \<open>What each thread contributes\<close>

definition flight :: "'a cq_thread \<Rightarrow> nat" where
  "flight t = (if t_place t = Running then unat (nNow t) else 0)"

definition counted :: "'a cq_thread \<Rightarrow> nat" where
  "counted t = (if t_place t = Outside \<or> t_place t = Running \<and> nNow t = 0 then 0 else 1)"

definition idle :: "'a cq_thread \<Rightarrow> nat" where
  "idle t = (if t_place t = Sleeping \<or> t_place t = Woken then 1 else 0)"

definition bad :: "('a \<Rightarrow> bool) \<Rightarrow> 'a cq_thread \<Rightarrow> nat" where
  "bad check t = (if t_place t = Running \<and> nNow t \<noteq> 0 \<and> \<not> (fOk t \<and> list_all check (vChecks t)) then 1 else 0)"

definition thread_ok :: "'a cq_thread \<Rightarrow> bool" where
  "thread_ok t \<longleftrightarrow> (t_place t = Running \<longrightarrow> length (vChecks t) \<le> unat (nNow t))"

lemmas thread_defs = flight_def counted_def idle_def bad_def thread_ok_def

abbreviation tsum :: "('a cq_thread \<Rightarrow> nat) \<Rightarrow> 'a cq_thread list \<Rightarrow> nat" where
  "tsum f ts \<equiv> sum_list (map f ts)"

text \<open>The queue agrees with the contributions \<open>F\<close>, \<open>C\<close>, \<open>I\<close> and \<open>B\<close> of the threads and with the
  checks \<open>cs\<close> of the round.\<close>

definition cq_ok :: "('a \<Rightarrow> bool) \<Rightarrow> 'a list \<Rightarrow> nat \<Rightarrow> nat \<Rightarrow> nat \<Rightarrow> nat \<Rightarrow> 'a CCheckQueue \<Rightarrow> bool" where
  "cq_ok check cs F C I B q \<longleftrightarrow>
     nTodo q = of_nat (length (cq_queue q) + F) \<and> length (cq_queue q) + F \<le> length cs \<and>
     nTotal q = int C \<and> nIdle q = int I \<and> \<not> fQuit q \<and>
     list_all check cs = (fAllOk q \<and> list_all check (cq_queue q) \<and> B = 0)"

definition cq_base :: "('a \<Rightarrow> bool) \<Rightarrow> 'a list \<Rightarrow> 'a cq_state \<Rightarrow> bool" where
  "cq_base check cs s \<longleftrightarrow>
     (case s of (q, ts) \<Rightarrow>
        cq_ok check cs (tsum flight ts) (tsum counted ts) (tsum idle ts) (tsum (bad check) ts) q \<and>
        list_all thread_ok ts \<and> ts \<noteq> [] \<and> list_all (\<lambda>t. t_place t \<noteq> Outside) (tl ts))"

text \<open>While the master sleeps, the queue is empty and some check is in flight.\<close>

definition cq_inv :: "('a \<Rightarrow> bool) \<Rightarrow> 'a list \<Rightarrow> 'a cq_state \<Rightarrow> bool" where
  "cq_inv check cs s \<longleftrightarrow>
     cq_base check cs s \<and>
     (case s of (q, ts) \<Rightarrow> t_place (ts ! 0) = Sleeping \<longrightarrow> cq_queue q = [] \<and> nTodo q \<noteq> 0)"

declare sum_list_eq_0_iff [simp del]

lemma tsum_update: "i < length ts \<Longrightarrow> tsum f (ts[i := t]) + f (ts ! i) = tsum f ts + f t"
proof (induction ts arbitrary: i)
  case (Cons a ts)
  then show ?case by (cases i) (simp_all add: algebra_simps)
qed simp

lemma tsum_wake_at: "i < length ts \<Longrightarrow> f (wake (ts ! i)) = f (ts ! i) \<Longrightarrow> tsum f (wake_at i ts) = tsum f ts"
  using tsum_update [of i ts f "wake (ts ! i)"] by (simp add: wake_at_def)

lemma tsum_wake: "(\<And>t. f (wake t) = f t) \<Longrightarrow> tsum f (map wake ts) = tsum f ts"
  by (induction ts) auto

lemma wake_contributes [simp]:
  "flight (wake t) = flight t" "counted (wake t) = counted t" "idle (wake t) = idle t"
  "bad check (wake t) = bad check t" "thread_ok (wake t) = thread_ok t"
  "t_place (wake t) = Outside \<longleftrightarrow> t_place t = Outside" "t_place (wake t) \<noteq> Sleeping"
  "t_place (wake t) = Running \<longleftrightarrow> t_place t = Running" "vChecks (wake t) = vChecks t"
  by (auto simp: wake_def thread_defs)

lemma run_one_contributes:
  assumes "t_place t = Running" and "vChecks t \<noteq> []" and "thread_ok t"
  shows "flight (run_one check t) = flight t" "counted (run_one check t) = counted t"
    "idle (run_one check t) = idle t" "bad check (run_one check t) = bad check t"
    "thread_ok (run_one check t)" "t_place (run_one check t) = Running"
  using assms by (auto simp: run_one_def thread_defs split: list.splits)

section \<open>The batch\<close>

lemma take_back_length:
  "n \<le> length xs \<Longrightarrow> take_back n xs = Some (rev (drop (length xs - n) xs), take (length xs - n) xs)"
proof (induction n arbitrary: xs)
  case (Suc n)
  then obtain ys y where xs: "xs = ys @ [y]" by (cases xs rule: rev_cases) auto
  then show ?case using Suc by simp
qed simp

lemma cq_batch_bounds:
  assumes "cq_queue q \<noteq> []"
  shows "0 < unat (cq_batch q)" and "unat (cq_batch q) \<le> length (cq_queue q)" and "cq_batch q \<noteq> 0"
proof -
  let ?n = "of_nat (length (cq_queue q)) :: u32" and ?k = "of_int (nTotal q + nIdle q + 1) :: u32"
  have "unat (?n div ?k) \<le> unat ?n" by (simp add: unat_div)
  also have "\<dots> \<le> length (cq_queue q)" by (simp add: unat_of_nat)
  finally have d: "unat (?n div ?k) \<le> length (cq_queue q)" .
  have "1 \<le> length (cq_queue q)" using assms by (cases "cq_queue q") auto
  with d show "unat (cq_batch q) \<le> length (cq_queue q)"
    by (auto simp: cq_batch_def max_def min_def word_le_nat_alt)
  have "1 \<le> cq_batch q" by (simp add: cq_batch_def)
  then show "0 < unat (cq_batch q)" by (simp add: word_le_nat_alt)
  then show "cq_batch q \<noteq> 0" by auto
qed

lemma cq_batch_taken:
  assumes "cq_queue q \<noteq> []"
  obtains taken rest where "take_back (unat (cq_batch q)) (cq_queue q) = Some (taken, rest)"
    and "cq_queue q = rest @ rev taken" and "length taken = unat (cq_batch q)" and "taken \<noteq> []"
proof -
  let ?n = "unat (cq_batch q)" and ?Q = "cq_queue q"
  show ?thesis
    using that [of "rev (drop (length ?Q - ?n) ?Q)" "take (length ?Q - ?n) ?Q"] cq_batch_bounds [OF assms]
    by (simp add: take_back_length)
qed

section \<open>The critical sections keep the bookkeeping\<close>

lemma cq_record_ok:
  assumes "cq_record m t q = (q', notify)" and "t_place t = Running" and "vChecks t = []"
    and "cq_ok check cs (F + flight t) (C + counted t) (I + idle t) (B + bad check t) q"
  shows "cq_ok check cs F (C + 1) I B q'" and "notify \<Longrightarrow> nTodo q' = 0" and "cq_queue q' = cq_queue q"
    and "nTodo q' = 0 \<Longrightarrow> notify \<or> m \<or> nTodo q = 0"
  using assms by (auto simp: cq_record_def cq_ok_def thread_defs Let_def split: if_splits)

lemma cq_take_ok:
  assumes "cq_ok check cs F (C + 1) I B q" and "cq_take m t q = Some (q', t', ret)"
  shows "ret = None \<Longrightarrow> cq_ok check cs (F + flight t') (C + counted t') (I + idle t') (B + bad check t') q'"
    and "ret = None \<Longrightarrow> t_place t' \<noteq> Outside" and "ret = Some b \<Longrightarrow> m \<and> cq_queue q = [] \<and> nTodo q = 0"
    and "thread_ok t'" and "t_place t' = Sleeping \<Longrightarrow> cq_queue q' = [] \<and> (m \<longrightarrow> nTodo q' \<noteq> 0)"
    and "nTodo q' = nTodo q" and "cq_queue q = [] \<Longrightarrow> cq_queue q' = []"
proof -
  have *: "(ret = None \<longrightarrow> cq_ok check cs (F + flight t') (C + counted t') (I + idle t') (B + bad check t') q' \<and>
        t_place t' \<noteq> Outside) \<and> (ret \<noteq> None \<longrightarrow> m \<and> cq_queue q = [] \<and> nTodo q = 0) \<and> thread_ok t' \<and>
      (t_place t' = Sleeping \<longrightarrow> cq_queue q' = [] \<and> (m \<longrightarrow> nTodo q' \<noteq> 0)) \<and> nTodo q' = nTodo q \<and>
      (cq_queue q = [] \<longrightarrow> cq_queue q' = [])"
  proof (cases "cq_queue q = []")
    case True
    show ?thesis
    proof (cases "(m \<or> fQuit q) \<and> nTodo q = 0")
      case out: True
      then have "t' = t\<lparr>t_place := Outside\<rparr>" "ret \<noteq> None" "nTodo q' = nTodo q" "cq_queue q' = []"
        using True assms(2) by (auto simp: cq_take_def)
      moreover have "m" using out assms(1) by (simp add: cq_ok_def)
      ultimately show ?thesis using True out by (simp add: thread_ok_def)
    next
      case False
      then have e: "q' = q\<lparr>nIdle := nIdle q + 1\<rparr>" "t' = t\<lparr>t_place := Sleeping\<rparr>" "ret = None"
        using True assms(2) by (auto simp: cq_take_def)
      then have c: "flight t' = 0" "counted t' = 1" "idle t' = 1" "bad check t' = 0" "thread_ok t'"
        by (simp_all add: thread_defs)
      have "cq_ok check cs (F + flight t') (C + counted t') (I + idle t') (B + bad check t') q'"
        using assms(1) unfolding cq_ok_def c e(1) by simp
      then show ?thesis using True False e c(5) by auto
    qed
  next
    case False
    obtain taken rest where t: "take_back (unat (cq_batch q)) (cq_queue q) = Some (taken, rest)"
      "cq_queue q = rest @ rev taken" "length taken = unat (cq_batch q)" "taken \<noteq> []"
      using cq_batch_taken [OF False] .
    then have e: "q' = q\<lparr>cq_queue := rest\<rparr>" "t' = \<lparr>t_place = Running, vChecks = taken, nNow = cq_batch q, fOk = fAllOk q\<rparr>"
      "ret = None"
      using assms(2) False by (auto simp: cq_take_def)
    have c: "flight t' = length taken" "counted t' = 1" "idle t' = 0" "thread_ok t'"
      "bad check t' = (if fAllOk q \<and> list_all check taken then 0 else 1)"
      using cq_batch_bounds(3) [OF False] t(3) by (simp_all add: e thread_defs)
    have "cq_ok check cs (F + flight t') (C + counted t') (I + idle t') (B + bad check t') q'"
      using assms(1) unfolding cq_ok_def c e(1) t(2) by (auto simp: algebra_simps)
    then show ?thesis using False c(4) e by simp
  qed
  show "ret = None \<Longrightarrow> cq_ok check cs (F + flight t') (C + counted t') (I + idle t') (B + bad check t') q'"
    and "ret = None \<Longrightarrow> t_place t' \<noteq> Outside" and "ret = Some b \<Longrightarrow> m \<and> cq_queue q = [] \<and> nTodo q = 0"
    and "thread_ok t'" and "t_place t' = Sleeping \<Longrightarrow> cq_queue q' = [] \<and> (m \<longrightarrow> nTodo q' \<noteq> 0)"
    and "nTodo q' = nTodo q" and "cq_queue q = [] \<Longrightarrow> cq_queue q' = []"
    using * by auto
qed

lemma cq_take_returns:
  assumes "cq_ok check cs F (C + 1) I B q" and "cq_take m t q = Some (q', t', Some b)" and "length cs < 2 ^ 32"
  shows "m" and "F = 0" and "B = 0 \<Longrightarrow> b = list_all check cs" and "t_place t' = Outside"
    and "cq_ok check [] 0 C I 0 q'" and "cq_queue q' = []" and "nTodo q' = 0" and "fAllOk q'"
proof -
  have q: "cq_queue q = []" "nTodo q = 0" "m" using cq_take_ok(3) [OF assms(1,2)] by auto
  then have t: "q' = q\<lparr>nTotal := nTotal q - 1, fAllOk := True\<rparr>" "t' = t\<lparr>t_place := Outside\<rparr>" "b = fAllOk q"
    using assms(2) by (auto simp: cq_take_def)
  have "(of_nat F :: u32) = 0" "F < 2 ^ 32" using q assms(1,3) by (auto simp: cq_ok_def)
  then have "F = 0" by (auto simp: word_of_nat_eq_0_iff dest: dvd_imp_le)
  then show "F = 0" .
  show "m" by (rule q)
  show "B = 0 \<Longrightarrow> b = list_all check cs" "t_place t' = Outside" "cq_ok check [] 0 C I 0 q'"
    "cq_queue q' = []" "nTodo q' = 0" "fAllOk q'"
    using assms(1) q t by (auto simp: cq_ok_def)
qed

lemma list_all_update: "list_all P ts \<Longrightarrow> P t \<Longrightarrow> list_all P (ts[i := t])"
  by (auto simp: list_all_iff dest!: set_update_subset_insert [THEN subsetD])

lemma tl_update: "tl (ts[i := t]) = (case i of 0 \<Rightarrow> tl ts | Suc j \<Rightarrow> (tl ts)[j := t])"
  by (cases ts; cases i) auto

text \<open>The list with the entry \<open>i\<close> taken away, as the contribution of the others.\<close>

definition others :: "('a cq_thread \<Rightarrow> nat) \<Rightarrow> nat \<Rightarrow> 'a cq_thread list \<Rightarrow> nat" where
  "others f i ts = tsum f ts - f (ts ! i)"

lemma others_at: "i < length ts \<Longrightarrow> tsum f ts = others f i ts + f (ts ! i)"
  using elem_le_sum_list [of i "map f ts"] by (simp add: others_def)

lemma others_update: "i < length ts \<Longrightarrow> tsum f (ts[i := t]) = others f i ts + f t"
  using tsum_update [of i ts f t] others_at [of i ts f] by simp

lemma bad_flight: "flight t = 0 \<Longrightarrow> bad check t = 0"
  by (auto simp: thread_defs unat_eq_0)

lemma tsum_bad: "tsum flight ts = 0 \<Longrightarrow> tsum (bad check) ts = 0"
  by (auto simp: sum_list_eq_0_iff bad_flight)

section \<open>Every step keeps the invariant\<close>

lemma cq_base_update:
  assumes "i < length ts" and "cq_base check cs (q0, ts)"
    and "cq_ok check ds (others flight i ts + flight t) (others counted i ts + counted t) (others idle i ts + idle t)
      (others (bad check) i ts + bad check t) q"
    and "thread_ok t" and "i \<noteq> 0 \<longrightarrow> t_place t \<noteq> Outside"
  shows "cq_base check ds (q, ts[i := t])"
  using assms by (auto simp: cq_base_def others_update tl_update list_all_update split: nat.splits)

lemma cq_base_others:
  assumes "cq_base check cs (q, ts)" and "i < length ts"
  shows "cq_ok check cs (others flight i ts + flight (ts ! i)) (others counted i ts + counted (ts ! i))
    (others idle i ts + idle (ts ! i)) (others (bad check) i ts + bad check (ts ! i)) q"
  using assms by (simp add: cq_base_def others_at [symmetric])

lemma cq_base_at:
  assumes "cq_base check cs (q, ts)" and "i < length ts"
  shows "thread_ok (ts ! i)" and "i \<noteq> 0 \<longrightarrow> t_place (ts ! i) \<noteq> Outside"
  using assms by (cases i; auto simp: cq_base_def list_all_length nth_tl)+

lemma cq_base_wake_at:
  assumes "cq_base check cs (q, ts)" and "i < length ts"
  shows "cq_base check cs (q, wake_at i ts)"
  unfolding wake_at_def
  by (rule cq_base_update [OF assms(2,1)])
    (use cq_base_others [OF assms] cq_base_at [OF assms] in simp_all)

lemma wake_at_place: "i < length ts \<Longrightarrow> t_place (wake_at i ts ! 0) = Sleeping \<Longrightarrow> t_place (ts ! 0) = Sleeping \<and> i \<noteq> 0"
  by (cases "i = 0") (auto simp: wake_at_def)

lemma cq_inv_wake_at: "cq_inv check cs (q, ts) \<Longrightarrow> i < length ts \<Longrightarrow> cq_inv check cs (q, wake_at i ts)"
  using wake_at_place [of i ts] by (auto simp: cq_inv_def cq_base_wake_at)

lemma cq_inv_notified:
  assumes "cq_inv check cs (q, ts)" and "notified n ts ts'" and "t_place (ts ! 0) = Outside"
  shows "cq_inv check cs (q, ts') \<and> t_place (ts' ! 0) = Outside"
proof (cases "ts' = ts")
  case False
  show ?thesis
  proof (cases "n = 1")
    case True
    then obtain i where "0 < i" "i < length ts" "ts' = wake_at i ts"
      using assms(2) False by (auto simp: notified_def list_ex_iff split: if_splits)
    then show ?thesis using assms cq_inv_wake_at by (simp add: wake_at_def)
  next
    case neq: False
    then have "ts' = take 1 ts @ map wake (tl ts)" using assms(2) False by (simp add: notified_def split: if_splits)
    moreover obtain t us where "ts = t # us" using assms(1) by (cases ts) (auto simp: cq_inv_def cq_base_def)
    ultimately show ?thesis using assms(1,3) by (auto simp: cq_inv_def cq_base_def comp_def list_all_iff)
  qed
qed (use assms in simp)

lemma cq_inv_Add:
  assumes "cq_inv check cs (q, ts)" and "t_place (ts ! 0) = Outside"
  shows "cq_inv check (cs @ vs) (cq_Add vs q, ts)"
  using assms by (auto simp: cq_inv_def cq_base_def cq_ok_def cq_Add_def)

lemma cq_inv_wait:
  assumes "cq_inv check cs (q, ts)" and "t_place (ts ! 0) = Outside"
  shows "cq_inv check cs (q, ts[0 := Loop_start])"
proof -
  have b: "cq_base check cs (q, ts)" "0 < length ts" using assms(1) by (simp_all add: cq_inv_def cq_base_def)
  have "cq_base check cs (q, ts[0 := Loop_start])"
    by (rule cq_base_update [OF b(2,1)])
      (use assms(2) cq_base_others [OF b] in \<open>simp_all add: Loop_start_def thread_defs\<close>)
  then show ?thesis using b(2) by (simp add: cq_inv_def Loop_start_def)
qed

lemma cq_inv_run:
  assumes "cq_inv check cs (q, ts)" and "i < length ts" and "t_place (ts ! i) = Running" and "vChecks (ts ! i) \<noteq> []"
  shows "cq_inv check cs (q, ts[i := run_one check (ts ! i)])"
proof -
  have b: "cq_base check cs (q, ts)" using assms(1) by (simp add: cq_inv_def)
  note r = run_one_contributes [OF assms(3,4) cq_base_at(1) [OF b assms(2)], of check]
  have "cq_base check cs (q, ts[i := run_one check (ts ! i)])"
    by (rule cq_base_update [OF assms(2) b]) (use cq_base_others [OF b assms(2)] r in simp_all)
  moreover have "t_place (ts[i := run_one check (ts ! i)] ! 0) = Sleeping \<longrightarrow> t_place (ts ! 0) = Sleeping"
    using assms(2) r(6) by (cases "i = 0") auto
  ultimately show ?thesis using assms(1) by (auto simp: cq_inv_def)
qed

text \<open>A critical section that does not return, from the state after its first branch.\<close>

lemma cq_inv_take:
  assumes "cq_inv check cs (q0, ts)" and "i < length ts" and "t_place (ts ! i) = Running \<or> t_place (ts ! i) = Woken"
    and "cq_ok check cs (others flight i ts) (others counted i ts + 1) (others idle i ts) (others (bad check) i ts) q"
    and "cq_take (i = 0) t q = Some (q', t', None)" and "cq_queue q = cq_queue q0"
    and "nTodo q = 0 \<Longrightarrow> notify \<or> i = 0 \<or> nTodo q0 = 0"
  defines "us \<equiv> if notify then wake_at 0 (ts[i := t']) else ts[i := t']"
  shows "cq_inv check cs (q', us)" and "t_place (us ! 0) = Outside \<Longrightarrow> t_place (ts ! 0) = Outside"
proof -
  note t = cq_take_ok [OF assms(4) assms(5)]
  have b: "cq_base check cs (q0, ts)" using assms(1) by (simp add: cq_inv_def)
  have c: "cq_base check cs (q', ts[i := t'])" by (rule cq_base_update [OF assms(2) b]) (use t in auto)
  have l: "0 < length (ts[i := t'])" using assms(2) by (metis length_list_update less_nat_zero_code neq0_conv)
  have "cq_base check cs (q', us)" using c cq_base_wake_at [OF c l] by (simp add: us_def)
  moreover have "cq_queue q' = [] \<and> nTodo q' \<noteq> 0" if p: "t_place (us ! 0) = Sleeping"
  proof -
    have n: "\<not> notify" "t_place (ts[i := t'] ! 0) = Sleeping"
      using p wake_at_place [OF l] by (auto simp: us_def split: if_splits)
    show ?thesis
    proof (cases "i = 0")
      case True
      then show ?thesis using n(2) t(5) assms(2) by auto
    next
      case False
      then have "cq_queue q0 = []" "nTodo q0 \<noteq> 0" using n assms(1) by (auto simp: cq_inv_def)
      then show ?thesis using False n assms(6,7) t(6,7) by auto
    qed
  qed
  ultimately show "cq_inv check cs (q', us)" by (simp add: cq_inv_def)
  show "t_place (us ! 0) = Outside \<Longrightarrow> t_place (ts ! 0) = Outside"
    using assms(2,3) t(2) l by (cases "i = 0") (auto simp: us_def wake_at_def nth_list_update split: if_splits)
qed

text \<open>One that returns: it is the master's, and all is done.\<close>

lemma others_0: "ts \<noteq> [] \<Longrightarrow> others f 0 ts = tsum f (tl ts)"
  by (cases ts) (simp_all add: others_def)

lemma idle_threads:
  assumes "tsum flight ts = 0" and "list_all (\<lambda>t. t_place t \<noteq> Outside) ts"
  shows "tsum counted ts = tsum idle ts"
  using assms by (induction ts) (auto simp: thread_defs unat_eq_0 split: if_splits intro: place.exhaust)

lemma cq_inv_return:
  assumes "cq_inv check cs (q0, ts)" and "i < length ts"
    and "cq_ok check cs (others flight i ts) (others counted i ts + 1) (others idle i ts) (others (bad check) i ts) q"
    and "cq_take (i = 0) t q = Some (q', t', Some b)" and "length cs < 2 ^ 32"
  shows "i = 0" and "b = list_all check cs" and "cq_inv check [] (q', ts[0 := t'])" and "t_place t' = Outside"
proof -
  note r = cq_take_returns [OF assms(3,4,5)]
  have b: "cq_base check cs (q0, ts)" using assms(1) by (simp add: cq_inv_def)
  have ts: "ts \<noteq> []" "list_all (\<lambda>t. t_place t \<noteq> Outside) (tl ts)" "0 < length ts" using b by (auto simp: cq_base_def)
  show i: "i = 0" using r(1) .
  have f: "tsum flight (tl ts) = 0" using r(2) i ts(1) by (simp add: others_0)
  then have "others (bad check) 0 ts = 0" using ts(1) by (simp add: others_0 tsum_bad)
  then show "b = list_all check cs" using r(3) i by simp
  show o: "t_place t' = Outside" by (rule r)
  have t0: "flight t' = 0" "counted t' = 0" "idle t' = 0" "bad check t' = 0" "thread_ok t'"
    using o by (simp_all add: thread_defs)
  have "cq_base check [] (q', ts[0 := t'])"
    by (rule cq_base_update [OF ts(3) b])
      (use r(2,5) i t0 f ts(1) in \<open>simp_all add: others_0 tsum_bad\<close>)
  then show "cq_inv check [] (q', ts[0 := t'])" using o ts(3) by (simp add: cq_inv_def)
qed

lemma cq_ok_resume:
  assumes "cq_ok check cs (F + flight t) (C + counted t) (I + idle t) (B + bad check t) q" and "t_place t = Woken"
  shows "cq_ok check cs F (C + 1) I B (q\<lparr>nIdle := nIdle q - 1\<rparr>)"
  using assms by (simp add: cq_ok_def thread_defs)

lemma critical_section:
  assumes "cq_inv check cs (q0, ts)" and "i < length ts" and "t_place (ts ! i) = Running \<or> t_place (ts ! i) = Woken"
    and "cq_ok check cs (others flight i ts) (others counted i ts + 1) (others idle i ts) (others (bad check) i ts) q"
    and "cq_take (i = 0) (ts ! i) q = Some (q', t', ret)" and "cq_queue q = cq_queue q0"
    and "notify \<Longrightarrow> i \<noteq> 0" and "nTodo q = 0 \<Longrightarrow> notify \<or> i = 0 \<or> nTodo q0 = 0"
    and "us = (if notify then wake_at 0 (ts[i := t']) else ts[i := t'])" and "e = returns ret i"
    and "\<forall>b. e = ReturnE b \<longrightarrow> length cs < 2 ^ 32"
  shows "(\<exists>b. e = ReturnE b \<and> b = list_all check cs \<and> cq_inv check [] (q', us)) \<or> e = LockE i \<and> cq_inv check cs (q', us)"
proof (cases ret)
  case None
  then show ?thesis using cq_inv_take(1) [OF assms(1-4) _ assms(6,8)] assms(5,9,10) by (simp add: returns_def)
next
  case (Some b)
  then have "i = 0" using cq_take_ok(3) [OF assms(4,5), of b] by simp
  then have e: "e = ReturnE b" "\<not> notify" using assms(7,10) Some by (auto simp: returns_def)
  have l: "length cs < 2 ^ 32" using assms(11) e(1) by simp
  have t: "cq_take (i = 0) (ts ! i) q = Some (q', t', Some b)" using assms(5) Some by simp
  show ?thesis using cq_inv_return(2,3) [OF assms(1,2,4) t l] e \<open>i = 0\<close> assms(9) by simp
qed

lemma cq_step_inv:
  assumes "cq_inv check cs s" and "cq_step check s e s'" and "\<forall>b. e = ReturnE b \<longrightarrow> length cs < 2 ^ 32"
  shows "(\<exists>b. e = ReturnE b \<and> b = list_all check cs \<and> cq_inv check [] s') \<or>
    (\<exists>vs. e = AddE vs \<and> cq_inv check (cs @ vs) s') \<or> (\<forall>b vs. e \<noteq> ReturnE b \<and> e \<noteq> AddE vs) \<and> cq_inv check cs s'"
  using assms(2)
proof cases
  case (step_add ts vs ts' q)
  then have "cq_inv check cs (q, ts')" "t_place (ts' ! 0) = Outside"
    using cq_inv_notified [of check cs q ts] assms(1) by simp_all
  then show ?thesis using cq_inv_Add step_add by blast
next
  case (step_wait ts q)
  then show ?thesis using assms(1) cq_inv_wait by auto
next
  case (step_enter i ts q q' t ret notify)
  obtain q1 where r: "cq_record (i = 0) (ts ! i) q = (q1, notify)" "cq_take (i = 0) (ts ! i) q1 = Some (q', t, ret)"
    using step_enter(7) by (auto simp: cq_enter_def split: prod.splits option.splits)
  have b: "cq_inv check cs (q, ts)" "cq_base check cs (q, ts)" using assms(1) step_enter(1) by (simp_all add: cq_inv_def)
  note o = cq_record_ok [OF r(1) step_enter(5,6) cq_base_others [OF b(2) step_enter(4)]]
  have n: "notify \<Longrightarrow> i \<noteq> 0" using r(1) by (auto simp: cq_record_def Let_def split: if_splits)
  have "(\<exists>b. e = ReturnE b \<and> b = list_all check cs \<and> cq_inv check [] s') \<or> e = LockE i \<and> cq_inv check cs s'"
    unfolding step_enter(3)
    by (rule critical_section [OF b(1) step_enter(4) disjI1 [OF step_enter(5)] o(1) r(2) o(3) n _ refl step_enter(2) assms(3)])
      (use o(4) in simp_all)
  then show ?thesis by auto
next
  case (step_resume i ts q q' t ret)
  have b: "cq_inv check cs (q, ts)" "cq_base check cs (q, ts)" using assms(1) step_resume(1) by (simp_all add: cq_inv_def)
  note o = cq_ok_resume [OF cq_base_others [OF b(2) step_resume(4)] step_resume(5)]
  have "(\<exists>b. e = ReturnE b \<and> b = list_all check cs \<and> cq_inv check [] s') \<or> e = LockE i \<and> cq_inv check cs s'"
    unfolding step_resume(3)
    by (rule critical_section [OF b(1) step_resume(4) disjI2 [OF step_resume(5)] o, where notify = False])
      (use step_resume assms(3) in \<open>simp_all add: cq_resume_def\<close>)
  then show ?thesis by auto
next
  case (step_run i ts q)
  then show ?thesis using assms(1) cq_inv_run by auto
next
  case (step_wake i ts q)
  then show ?thesis using assms(1) cq_inv_wake_at by auto
qed

section \<open>Rounds\<close>

lemma rounds_snoc [simp]: "rounds (es @ [e]) = round_event e (rounds es)"
  by (simp add: rounds_def)

lemma rounds_Nil [simp]: "rounds [] = ([], [])"
  by (simp add: rounds_def)

definition round_fits :: "'a list \<times> bool \<Rightarrow> bool" where
  "round_fits r \<longleftrightarrow> length (fst r) < 2 ^ 32"

definition round_right :: "('a \<Rightarrow> bool) \<Rightarrow> 'a list \<times> bool \<Rightarrow> bool" where
  "round_right check r \<longleftrightarrow> snd r = list_all check (fst r)"

lemma round_right_all: "round_right check (cs, list_all check cs)"
  by (simp add: round_right_def)

lemma cq_init_inv: "cq_inv check [] (cq_init nb n)"
  by (auto simp: cq_inv_def cq_base_def cq_ok_def cq_init_def CCheckQueue_new_def Loop_start_def thread_defs
      list_all_iff sum_list_replicate)

lemma cq_steps_inv:
  assumes "cq_steps check s es s'" and "s = cq_init nb n" and "list_all round_fits (fst (rounds es))"
  shows "cq_inv check (snd (rounds es)) s' \<and> list_all (round_right check) (fst (rounds es))"
  using assms
proof (induction rule: cq_steps.induct)
  case (steps_snoc s es s' e s'')
  obtain rs cs where r: "rounds es = (rs, cs)" by (metis prod.exhaust)
  have p: "list_all round_fits (fst (round_event e (rs, cs)))" using steps_snoc.prems(2) unfolding rounds_snoc r .
  then have n: "\<forall>b. e = ReturnE b \<longrightarrow> length cs < 2 ^ 32" by (auto simp: round_fits_def)
  have "list_all round_fits rs" using p by (cases e) simp_all
  then have "cq_inv check cs s'" "list_all (round_right check) rs"
    using steps_snoc.IH [OF steps_snoc.prems(1)] r by simp_all
  then consider b where "e = ReturnE b" "b = list_all check cs" "cq_inv check [] s''"
    | vs where "e = AddE vs" "cq_inv check (cs @ vs) s''"
    | "\<forall>b vs. e \<noteq> ReturnE b \<and> e \<noteq> AddE vs" "cq_inv check cs s''"
    using cq_step_inv [OF _ steps_snoc.hyps(2), of cs] n by blast
  then show ?case
  proof cases
    case 3
    then show ?thesis using \<open>list_all (round_right check) rs\<close> r by (cases e) auto
  qed (use \<open>list_all (round_right check) rs\<close> r in \<open>simp_all add: round_right_all\<close>)
qed (simp add: cq_init_inv)

text \<open>Between the rounds, \<open>CCheckQueueControl\<close> finds the queue idle, as its constructor asserts.\<close>

lemma cq_inv_idle:
  assumes "cq_inv check [] (q, ts)" and "t_place (ts ! 0) = Outside"
  shows "IsIdle q"
proof -
  obtain t us where ts: "ts = t # us" using assms(1) by (cases ts) (auto simp: cq_inv_def cq_base_def)
  have ok: "cq_ok check [] (tsum flight ts) (tsum counted ts) (tsum idle ts) (tsum (bad check) ts) q"
    and u: "list_all (\<lambda>t. t_place t \<noteq> Outside) us"
    using assms(1) ts by (auto simp: cq_inv_def cq_base_def)
  have "tsum flight us = 0" using ok ts by (simp add: cq_ok_def)
  then have "tsum counted us = tsum idle us" using u by (rule idle_threads)
  moreover have "counted t = 0" "idle t = 0" using assms(2) ts by (simp_all add: thread_defs)
  ultimately show ?thesis using ok ts by (auto simp: IsIdle_def cq_ok_def)
qed

section \<open>Waiting ends\<close>

text \<open>No critical section runs out of the vector.\<close>

lemma cq_take_total: "\<exists>q' t' ret. cq_take m t q = Some (q', t', ret)"
proof (cases "cq_queue q = []")
  case False
  obtain taken rest where "take_back (unat (cq_batch q)) (cq_queue q) = Some (taken, rest)"
    using cq_batch_taken [OF False] .
  then show ?thesis using False by (simp add: cq_take_def)
qed (simp add: cq_take_def)

lemma cq_enabled:
  assumes "i < length ts" and "t_place (ts ! i) = Running \<or> t_place (ts ! i) = Woken"
  shows "\<exists>e s'. cq_step check (q, ts) e s' \<and> (\<forall>j. e \<noteq> WakeE j)"
proof (cases "t_place (ts ! i) = Running \<and> vChecks (ts ! i) \<noteq> []")
  case True
  then show ?thesis using step_run [of i ts check q] assms(1) by blast
next
  case False
  have r: "returns ret i \<noteq> WakeE j" for ret :: "bool option" and j by (simp add: returns_def split: option.split)
  show ?thesis
  proof (cases "t_place (ts ! i) = Running")
    case True
    obtain q1 notify where "cq_record (i = 0) (ts ! i) q = (q1, notify)" by (metis prod.exhaust)
    moreover obtain q' t ret where "cq_take (i = 0) (ts ! i) q1 = Some (q', t, ret)" using cq_take_total by blast
    ultimately have "cq_enter (i = 0) (ts ! i) q = Some (q', t, ret, notify)" by (simp add: cq_enter_def)
    then show ?thesis using step_enter [of i ts q q' t ret notify check] r True False assms(1) by blast
  next
    case w: False
    obtain q' t ret where "cq_resume (i = 0) (ts ! i) q = Some (q', t, ret)"
      using cq_take_total unfolding cq_resume_def by blast
    then show ?thesis using step_resume [of i ts q q' t ret check] r w assms by blast
  qed
qed

lemma cq_progress:
  assumes "cq_inv check cs (q, ts)" and "t_place (ts ! 0) \<noteq> Outside"
  shows "\<exists>e s'. cq_step check (q, ts) e s' \<and> (\<forall>j. e \<noteq> WakeE j)"
proof (cases "t_place (ts ! 0) = Sleeping")
  case True
  then have "cq_queue q = []" "nTodo q \<noteq> 0" "cq_base check cs (q, ts)" using assms(1) by (auto simp: cq_inv_def)
  then have "tsum flight ts \<noteq> 0" by (intro notI) (simp add: cq_base_def cq_ok_def)
  then obtain t where "t \<in> set ts" "flight t \<noteq> 0" by (auto simp: sum_list_eq_0_iff)
  then obtain i where "i < length ts" "t_place (ts ! i) = Running"
    by (auto simp: in_set_conv_nth flight_def split: if_splits)
  then show ?thesis using cq_enabled by blast
next
  case False
  moreover have "0 < length ts" using assms(1) by (simp add: cq_inv_def cq_base_def)
  ultimately show ?thesis using cq_enabled [of 0 ts] assms(2) by (cases "t_place (ts ! 0)") auto
qed

text \<open>Four steps for a check in the queue, one for a check in a batch, and the critical sections that are due.\<close>

definition t_work :: "'a cq_thread \<Rightarrow> nat" where
  "t_work t = (case t_place t of Running \<Rightarrow> 2 + length (vChecks t) | Woken \<Rightarrow> 1 | _ \<Rightarrow> 0)"

definition cq_work :: "'a cq_state \<Rightarrow> nat" where
  "cq_work s = 4 * length (cq_queue (fst s)) + tsum t_work (snd s)"

lemma cq_take_work:
  assumes "cq_take m t q = Some (q', t', None)"
  shows "4 * length (cq_queue q') + t_work t' \<le> 4 * length (cq_queue q)"
proof (cases "cq_queue q = []")
  case True
  then show ?thesis using assms by (auto simp: cq_take_def t_work_def split: if_splits)
next
  case False
  obtain taken rest where t: "take_back (unat (cq_batch q)) (cq_queue q) = Some (taken, rest)"
    "cq_queue q = rest @ rev taken" "taken \<noteq> []"
    using cq_batch_taken [OF False] .
  then have "1 \<le> length taken" by (cases taken) auto
  then show ?thesis using assms False t by (auto simp: cq_take_def t_work_def)
qed

lemma t_work_wake: "t_work (wake t) \<le> t_work t + 1"
  by (auto simp: t_work_def wake_def split: place.split)

lemma tsum_wake_work: "i < length ts \<Longrightarrow> tsum t_work (wake_at i ts) \<le> tsum t_work ts + 1"
  using others_update [of i ts t_work "wake (ts ! i)"] others_at [of i ts t_work] t_work_wake [of "ts ! i"]
  by (simp add: wake_at_def)

lemma cq_take_place: "cq_take m t q = Some (q', t', None) \<Longrightarrow> t_place t' \<noteq> Outside"
  by (auto simp: cq_take_def split: if_splits option.splits)

lemma returns_None:
  assumes "cq_take (i = 0) t q = Some (q', t', ret)" and "\<not> fQuit q" and "\<forall>b. returns ret i \<noteq> ReturnE b"
  shows "ret = None"
  using assms by (auto simp: cq_take_def returns_def split: if_splits option.splits)

lemma critical_work:
  assumes "cq_take (i = 0) t q = Some (q', t', None)" and "i < length ts" and "t_place (ts ! 0) \<noteq> Outside"
    and "us = (if notify then wake_at 0 (ts[i := t']) else ts[i := t'])"
  shows "4 * length (cq_queue q') + tsum t_work us \<le> 4 * length (cq_queue q) + others t_work i ts + (if notify then 1 else 0)"
    and "t_place (us ! 0) \<noteq> Outside"
proof -
  have l: "0 < length (ts[i := t'])" using assms(2) by (metis length_list_update less_nat_zero_code neq0_conv)
  have "tsum t_work us \<le> tsum t_work (ts[i := t']) + (if notify then 1 else 0)"
    using tsum_wake_work [OF l] by (simp add: assms(4))
  then show "4 * length (cq_queue q') + tsum t_work us \<le> 4 * length (cq_queue q) + others t_work i ts + (if notify then 1 else 0)"
    using cq_take_work [OF assms(1)] assms(2) by (simp add: others_update split: if_splits)
  show "t_place (us ! 0) \<noteq> Outside"
    using cq_take_place [OF assms(1)] assms(2,3) l by (cases "i = 0") (auto simp: assms(4) wake_at_def nth_list_update)
qed

lemma cq_step_work:
  assumes "cq_inv check cs s" and "cq_step check s e s'" and "t_place (snd s ! 0) \<noteq> Outside"
    and "\<forall>b. e \<noteq> ReturnE b" and "\<forall>j. e \<noteq> WakeE j"
  shows "cq_work s' < cq_work s \<and> t_place (snd s' ! 0) \<noteq> Outside"
  using assms(2)
proof cases
  case (step_enter i ts q q' t ret notify)
  obtain q1 where r: "cq_record (i = 0) (ts ! i) q = (q1, notify)" "cq_take (i = 0) (ts ! i) q1 = Some (q', t, ret)"
    using step_enter(7) by (auto simp: cq_enter_def split: prod.splits option.splits)
  have q1: "cq_queue q1 = cq_queue q" "fQuit q1 = fQuit q" using r(1) by (auto simp: cq_record_def Let_def split: if_splits)
  have "\<not> fQuit q" using assms(1) step_enter(1) by (simp add: cq_inv_def cq_base_def cq_ok_def)
  then have "ret = None" using returns_None [OF r(2)] assms(4) step_enter(2) q1 by simp
  then show ?thesis
    using critical_work [of i "ts ! i" q1 q' t ts "snd s'" notify] r(2) step_enter(1,3,4,5,6) assms(3) q1(1)
      others_at [of i ts t_work] by (auto simp: cq_work_def t_work_def split: if_splits)
next
  case (step_resume i ts q q' t ret)
  let ?q = "q\<lparr>nIdle := nIdle q - 1\<rparr>"
  have r: "cq_take (i = 0) (ts ! i) ?q = Some (q', t, ret)" using step_resume(6) by (simp add: cq_resume_def)
  have "\<not> fQuit ?q" using assms(1) step_resume(1) by (simp add: cq_inv_def cq_base_def cq_ok_def)
  then have "ret = None" using returns_None [OF r] assms(4) step_resume(2) by simp
  then show ?thesis
    using critical_work [of i "ts ! i" ?q q' t ts "snd s'" False] r step_resume(1,3,4,5) assms(3)
      others_at [of i ts t_work] by (auto simp: cq_work_def t_work_def)
next
  case (step_run i ts q)
  have "t_work (run_one check (ts ! i)) < t_work (ts ! i)" "t_place (run_one check (ts ! i)) = Running"
    using step_run(5,6) by (auto simp: t_work_def run_one_def split: list.split)
  then show ?thesis
    using others_at [of i ts t_work] step_run(1,3,4) assms(3)
    by (cases "i = 0") (auto simp: cq_work_def others_update)
qed (use assms in auto)

lemma cq_steps_work:
  assumes "cq_steps check s es s'" and "cq_inv check cs s" and "t_place (snd s ! 0) \<noteq> Outside"
    and "\<forall>b. ReturnE b \<notin> set es" and "\<forall>j. WakeE j \<notin> set es"
  shows "length es + cq_work s' \<le> cq_work s \<and> t_place (snd s' ! 0) \<noteq> Outside \<and> cq_inv check cs s'"
  using assms
proof (induction rule: cq_steps.induct)
  case (steps_snoc s es s' e s'')
  then have i: "length es + cq_work s' \<le> cq_work s" "t_place (snd s' ! 0) \<noteq> Outside" "cq_inv check cs s'" by auto
  have n: "\<forall>b. e \<noteq> ReturnE b" "\<forall>j. e \<noteq> WakeE j" using steps_snoc.prems by auto
  have w: "cq_work s'' < cq_work s'" "t_place (snd s'' ! 0) \<noteq> Outside"
    using cq_step_work [OF i(3) steps_snoc.hyps(2) i(2) n] by auto
  have "\<forall>vs. e \<noteq> AddE vs" using steps_snoc.hyps(2) i(2) add_outside by blast
  then have "cq_inv check cs s''" using cq_step_inv [OF i(3) steps_snoc.hyps(2)] n by auto
  then show ?case using i w by simp
qed simp

text \<open>For the checks of scripts, this is the queue of \<open>ConnectBlock\<close>.\<close>

lemma round_right_scripts: "round_right (passes ecdsa) (cs, b) \<Longrightarrow> control_wait ecdsa cs = Some b"
  by (simp add: round_right_def control_wait_ok)

section \<open>A run\<close>

text \<open>One worker: it sleeps, is notified of a check, takes it, and wakes the master when it is done.\<close>

definition sample_thread :: "place \<Rightarrow> bool list \<Rightarrow> u32 \<Rightarrow> bool \<Rightarrow> bool cq_thread" where
  "sample_thread p cs n ok = \<lparr>t_place = p, vChecks = cs, nNow = n, fOk = ok\<rparr>"

definition sample_queue :: "bool list \<Rightarrow> int \<Rightarrow> int \<Rightarrow> bool \<Rightarrow> u32 \<Rightarrow> bool CCheckQueue" where
  "sample_queue cs ni nt ok n =
     \<lparr>cq_queue = cs, nIdle = ni, nTotal = nt, fAllOk = ok, nTodo = n, fQuit = False, nBatchSize = 128\<rparr>"

lemmas sample_defs = sample_thread_def sample_queue_def cq_init_def CCheckQueue_new_def Loop_start_def cq_enter_def
  cq_resume_def cq_record_def cq_take_def cq_batch_def run_one_def cq_Add_def notified_def wake_at_def wake_def

lemma enter_step:
  "i < length ts \<Longrightarrow> t_place (ts ! i) = Running \<Longrightarrow> vChecks (ts ! i) = [] \<Longrightarrow>
     cq_enter (i = 0) (ts ! i) q = Some (q', t, None, notify) \<Longrightarrow>
     us = (if notify then wake_at 0 (ts[i := t]) else ts[i := t]) \<Longrightarrow> cq_step check (q, ts) (LockE i) (q', us)"
  using step_enter [of i ts q q' t None notify check] by simp

lemma sample_run:
  "cq_steps id (cq_init 128 1)
     [LockE 1, AddE [False], WaitE, LockE 1, LockE 0, RunE 1, LockE 1, ReturnE False]
     (sample_queue [] 1 1 True 0, [sample_thread Outside [] 0 True, sample_thread Sleeping [] 1 False])"
proof -
  let ?o = "sample_thread Outside [] 0 True" and ?w = "sample_thread Woken [] 0 True"
    and ?s = "sample_thread Sleeping [] 0 True" and ?r = "sample_thread Running [] 0 True"
    and ?b = "sample_thread Running [False] 1 True" and ?d = "sample_thread Running [] 1 False"
    and ?e = "sample_thread Sleeping [] 1 False"
  have 1: "cq_step id (cq_init 128 1) (LockE 1) (sample_queue [] 1 1 True 0, [?o, ?s])"
    unfolding cq_init_def by (rule enter_step [where notify = False]) (simp_all add: sample_defs)
  have 2: "cq_step id (sample_queue [] 1 1 True 0, [?o, ?s]) (AddE [False]) (sample_queue [False] 1 1 True 1, [?o, ?w])"
    using step_add [of "[?o, ?s]" "[False]" "[?o, ?w]" id "sample_queue [] 1 1 True 0"] by (simp add: sample_defs)
  have 3: "cq_step id (sample_queue [False] 1 1 True 1, [?o, ?w]) WaitE (sample_queue [False] 1 1 True 1, [?r, ?w])"
    using step_wait [of "[?o, ?w]" id "sample_queue [False] 1 1 True 1"] by (simp add: sample_defs)
  have 4: "cq_step id (sample_queue [False] 1 1 True 1, [?r, ?w]) (LockE 1) (sample_queue [] 0 1 True 1, [?r, ?b])"
    using step_resume [of 1 "[?r, ?w]" "sample_queue [False] 1 1 True 1" "sample_queue [] 0 1 True 1" ?b None id]
    by (simp add: sample_defs)
  have 5: "cq_step id (sample_queue [] 0 1 True 1, [?r, ?b]) (LockE 0) (sample_queue [] 1 2 True 1, [?s, ?b])"
    by (rule enter_step [where notify = False]) (simp_all add: sample_defs)
  have 6: "cq_step id (sample_queue [] 1 2 True 1, [?s, ?b]) (RunE 1) (sample_queue [] 1 2 True 1, [?s, ?d])"
    using step_run [of 1 "[?s, ?b]" id "sample_queue [] 1 2 True 1"] by (simp add: sample_defs)
  have 7: "cq_step id (sample_queue [] 1 2 True 1, [?s, ?d]) (LockE 1) (sample_queue [] 2 2 False 0, [?w, ?e])"
    by (rule enter_step [where notify = True]) (simp_all add: sample_defs)
  have 8: "cq_step id (sample_queue [] 2 2 False 0, [?w, ?e]) (ReturnE False) (sample_queue [] 1 1 True 0, [?o, ?e])"
    using step_resume [of 0 "[?w, ?e]" "sample_queue [] 2 2 False 0" "sample_queue [] 1 1 True 0" ?o "Some False" id]
    by (simp add: sample_defs)
  show ?thesis
    using steps_snoc [OF steps_snoc [OF steps_snoc [OF steps_snoc [OF steps_snoc [OF steps_snoc [OF steps_snoc
      [OF steps_snoc [OF steps_none 1] 2] 3] 4] 5] 6] 7] 8] by simp
qed

section \<open>Properties\<close>

text \<open>
  C37. In every interleaving of the master with any number of workers, with notifications that
  wake any sleeper and with spurious wake-ups, each Wait returns exactly whether all the checks
  added since the previous one succeed, and between the rounds the queue is idle, as the
  constructor of CCheckQueueControl asserts: nothing is left in a batch, the status is reset and
  every thread that counts is counted idle; only that less than 2^32 checks are added for a Wait
  is assumed, since nTodo is an unsigned int.
\<close>

theorem check_queue:
  assumes "cq_steps check (cq_init nBatchSizeIn n) es (q, ts)" and "list_all round_fits (fst (rounds es))"
  shows "list_all (\<lambda>(cs, b). b = list_all check cs) (fst (rounds es)) \<and>
    (t_place (ts ! 0) = Outside \<and> snd (rounds es) = [] \<longrightarrow> IsIdle q)"
proof -
  have i: "cq_inv check (snd (rounds es)) (q, ts)" "list_all (round_right check) (fst (rounds es))"
    using cq_steps_inv [OF assms(1) refl assms(2)] by simp_all
  show ?thesis using i cq_inv_idle [of check q ts] by (auto simp: round_right_def list_all_iff)
qed

theorem check_queue_witness:
  "cq_steps id (cq_init 128 1) [LockE 1, AddE [False], WaitE, LockE 1, LockE 0, RunE 1, LockE 1, ReturnE False]
      (sample_queue [] 1 1 True 0, [sample_thread Outside [] 0 True, sample_thread Sleeping [] 1 False]) \<and>
   False = list_all id [False] \<and> IsIdle (sample_queue [] 1 1 True 0)"
  using check_queue [OF sample_run] sample_run by (simp add: rounds_def round_fits_def sample_thread_def)

text \<open>
  C38. Wait returns under every scheduling: once the master is in Wait, there is a bound on the
  number of steps the threads can take, spurious wake-ups apart, before Wait returns, and until it
  returns some thread can take a step that is no spurious wake-up (no deadlock and no lost
  notification, and no batch takes from an empty vector), with or without workers.
\<close>

theorem check_queue_returns:
  assumes "cq_steps check (cq_init nBatchSizeIn n) es s" and "list_all round_fits (fst (rounds es))"
    and "t_place (snd s ! 0) \<noteq> Outside"
  shows "\<exists>bound. \<forall>es' s'. cq_steps check s es' s' \<and> (\<forall>b. ReturnE b \<notin> set es') \<and> (\<forall>j. WakeE j \<notin> set es') \<longrightarrow>
    length es' \<le> bound \<and> (\<exists>e s''. cq_step check s' e s'' \<and> (\<forall>j. e \<noteq> WakeE j))"
proof (intro exI [of _ "cq_work s"] allI impI)
  fix es' s'
  assume a: "cq_steps check s es' s' \<and> (\<forall>b. ReturnE b \<notin> set es') \<and> (\<forall>j. WakeE j \<notin> set es')"
  have "cq_inv check (snd (rounds es)) s" using cq_steps_inv [OF assms(1) refl assms(2)] by simp
  then have "length es' + cq_work s' \<le> cq_work s" "t_place (snd s' ! 0) \<noteq> Outside" "cq_inv check (snd (rounds es)) s'"
    using cq_steps_work [of check s es' s'] a assms(3) by auto
  then show "length es' \<le> cq_work s \<and> (\<exists>e s''. cq_step check s' e s'' \<and> (\<forall>j. e \<noteq> WakeE j))"
    using cq_progress [of check _ "fst s'" "snd s'"] by simp
qed

theorem check_queue_returns_witness:
  "\<exists>bound. \<forall>es' s'. cq_steps id (CCheckQueue_new 128, [Loop_start]) es' s' \<and>
     (\<forall>b. ReturnE b \<notin> set es') \<and> (\<forall>j. WakeE j \<notin> set es') \<longrightarrow>
    length es' \<le> bound \<and> (\<exists>e s''. cq_step id s' e s'' \<and> (\<forall>j. e \<noteq> WakeE j))"
proof -
  have "cq_step id (cq_init 128 0) WaitE (CCheckQueue_new 128, [Loop_start])"
    using step_wait [of "[Loop_start\<lparr>t_place := Outside\<rparr>]" id "CCheckQueue_new 128"] by (simp add: cq_init_def)
  then have "cq_steps id (cq_init 128 0) [WaitE] (CCheckQueue_new 128, [Loop_start])"
    using steps_snoc [OF steps_none] by fastforce
  then show ?thesis using check_queue_returns [of id 128 0 "[WaitE]"] by (simp add: rounds_def Loop_start_def)
qed

end
