(* ===== verification/Keys.thy ===== *)
theory Keys
  imports Standard
begin

text \<open>
  Private keys and key stores (\<open>src/key.h\<close>, \<open>src/key.cpp\<close>, \<open>src/keystore.h\<close>, \<open>src/keystore.cpp\<close>). The curve is a
  parameter: the public key of a secret and the signature that \<open>CKey::Sign\<close> ends with.
\<close>

section \<open>Keys\<close>

record CKey =
  fValid :: bool
  fCompressed :: bool
  key_vch :: "byte list"

definition CKey_new :: CKey where
  "CKey_new = \<lparr>fValid = False, fCompressed = False, key_vch = replicate 32 0\<rparr>"

definition CKey_size :: "CKey \<Rightarrow> nat" where
  "CKey_size k = (if fValid k then 32 else 0)"

definition CKey_eq :: "CKey \<Rightarrow> CKey \<Rightarrow> bool" where
  "CKey_eq a b \<longleftrightarrow> fCompressed a = fCompressed b \<and> CKey_size a = CKey_size b \<and>
     take (CKey_size a) (key_vch a) = take (CKey_size a) (key_vch b)"

definition CKey_Set :: "CKey \<Rightarrow> byte list \<Rightarrow> bool \<Rightarrow> CKey" where
  "CKey_Set k data fCompressedIn =
     (if length data \<noteq> 32 then k\<lparr>fValid := False\<rparr>
      else if Check data then k\<lparr>key_vch := data, fValid := True, fCompressed := fCompressedIn\<rparr>
      else k\<lparr>fValid := False\<rparr>)"

text \<open>The library: the public key of a secret, compressed or not, and the signature of a hash.\<close>

record key_library =
  kl_pubkey :: "byte list \<Rightarrow> bool \<Rightarrow> CPubKey"
  kl_sign :: "byte list \<Rightarrow> uint256 \<Rightarrow> valtype"

definition CKey_GetPubKey :: "key_library \<Rightarrow> CKey \<Rightarrow> CPubKey option" where
  "CKey_GetPubKey L k = (if fValid k then Some (kl_pubkey L (key_vch k) (fCompressed k)) else None)"

text \<open>\<open>None\<close> is the result false.\<close>

definition CKey_Sign :: "key_library \<Rightarrow> CKey \<Rightarrow> uint256 \<Rightarrow> valtype option" where
  "CKey_Sign L k h = (if \<not> fValid k then None else Some (kl_sign L (key_vch k) h))"

section \<open>The interface of a key store\<close>

text \<open>What the signing code calls, and what a store promises: a key or script that was added is found
  under its hash and nothing else changes.\<close>

locale key_store =
  fixes AddKeyPubKey :: "'s \<Rightarrow> CKey \<Rightarrow> CPubKey \<Rightarrow> 's"
    and GetKey :: "'s \<Rightarrow> uint160 \<Rightarrow> CKey option"
    and AddCScript :: "'s \<Rightarrow> byte list \<Rightarrow> bool \<times> 's"
    and GetCScript :: "'s \<Rightarrow> uint160 \<Rightarrow> byte list option"
  assumes get_key_added: "GetKey (AddKeyPubKey s k p) a = (if a = CPubKey_GetID p then Some k else GetKey s a)"
    and script_key_added: "GetCScript (AddKeyPubKey s k p) h = GetCScript s h"
    and script_added: "AddCScript s r = (ok, s') \<Longrightarrow>
      ok = (length r \<le> MAX_SCRIPT_ELEMENT_SIZE) \<and> GetKey s' a = GetKey s a \<and>
      GetCScript s' h = (if ok \<and> h = Hash160 r then Some r else GetCScript s h)"
begin

definition add_keys :: "(CKey \<times> CPubKey) list \<Rightarrow> 's \<Rightarrow> 's" where
  "add_keys ks s = fold (\<lambda>(k, p) s. AddKeyPubKey s k p) ks s"

lemma get_key_all:
  assumes "\<forall>(k, p) \<in> set ks. \<forall>(k', p') \<in> set ks. CPubKey_GetID p = CPubKey_GetID p' \<longrightarrow> k = k'" and "(k, p) \<in> set ks"
  shows "GetKey (add_keys ks s) (CPubKey_GetID p) = Some k"
  using assms
proof (induction ks rule: rev_induct)
  case (snoc x ks)
  obtain k' p' where x: "x = (k', p')" by (cases x)
  have a: "add_keys (ks @ [x]) s = AddKeyPubKey (add_keys ks s) k' p'" by (simp add: add_keys_def x)
  show ?case
  proof (cases "CPubKey_GetID p = CPubKey_GetID p'")
    case True
    then have "k = k'" using snoc.prems unfolding x by fastforce
    then show ?thesis unfolding a using True by (simp add: get_key_added)
  next
    case False
    then have "(k, p) \<in> set ks" using snoc.prems(2) x by auto
    moreover have "\<forall>(k, p) \<in> set ks. \<forall>(k', p') \<in> set ks. CPubKey_GetID p = CPubKey_GetID p' \<longrightarrow> k = k'"
      using snoc.prems(1) by auto
    ultimately show ?thesis unfolding a using snoc.IH False by (simp add: get_key_added)
  qed
qed simp

lemma get_script_keys: "GetCScript (add_keys ks s) h = GetCScript s h"
  by (induction ks rule: rev_induct) (auto simp: add_keys_def script_key_added)

lemma get_script_added: "length r \<le> MAX_SCRIPT_ELEMENT_SIZE \<Longrightarrow> GetCScript (snd (AddCScript s r)) (Hash160 r) = Some r"
  using script_added [of s r] by (metis prod.exhaust_sel)

end

section \<open>The basic store\<close>

record CBasicKeyStore =
  mapKeys :: "uint160 \<rightharpoonup> CKey"
  mapScripts :: "uint160 \<rightharpoonup> byte list"
  setWatchOnly :: "byte list set"
  setMultiSig :: "byte list set"

definition CBasicKeyStore_new :: CBasicKeyStore where
  "CBasicKeyStore_new = \<lparr>mapKeys = Map.empty, mapScripts = Map.empty, setWatchOnly = {}, setMultiSig = {}\<rparr>"

definition AddKeyPubKey :: "CBasicKeyStore \<Rightarrow> CKey \<Rightarrow> CPubKey \<Rightarrow> CBasicKeyStore" where
  "AddKeyPubKey s k pubkey = s\<lparr>mapKeys := (mapKeys s)(CPubKey_GetID pubkey \<mapsto> k)\<rparr>"

definition AddKey :: "key_library \<Rightarrow> CBasicKeyStore \<Rightarrow> CKey \<Rightarrow> CBasicKeyStore option" where
  "AddKey L s k = map_option (AddKeyPubKey s k) (CKey_GetPubKey L k)"

definition HaveKey :: "CBasicKeyStore \<Rightarrow> uint160 \<Rightarrow> bool" where
  "HaveKey s a \<longleftrightarrow> mapKeys s a \<noteq> None"

definition GetKeys :: "CBasicKeyStore \<Rightarrow> uint160 set" where
  "GetKeys s = dom (mapKeys s)"

definition GetKey :: "CBasicKeyStore \<Rightarrow> uint160 \<Rightarrow> CKey option" where
  "GetKey s a = mapKeys s a"

text \<open>The outer \<open>None\<close> is the failed assertion on an invalid key, the inner one the result false.\<close>

definition GetPubKey :: "key_library \<Rightarrow> CBasicKeyStore \<Rightarrow> uint160 \<Rightarrow> CPubKey option option" where
  "GetPubKey L s a = (case GetKey s a of None \<Rightarrow> Some None | Some k \<Rightarrow> map_option Some (CKey_GetPubKey L k))"

definition AddCScript :: "CBasicKeyStore \<Rightarrow> byte list \<Rightarrow> bool \<times> CBasicKeyStore" where
  "AddCScript s redeemScript =
     (if length redeemScript > MAX_SCRIPT_ELEMENT_SIZE then (False, s)
      else (True, s\<lparr>mapScripts := (mapScripts s)(Hash160 redeemScript \<mapsto> redeemScript)\<rparr>))"

definition HaveCScript :: "CBasicKeyStore \<Rightarrow> uint160 \<Rightarrow> bool" where
  "HaveCScript s h \<longleftrightarrow> mapScripts s h \<noteq> None"

definition GetCScript :: "CBasicKeyStore \<Rightarrow> uint160 \<Rightarrow> byte list option" where
  "GetCScript s h = mapScripts s h"

definition AddWatchOnly :: "CBasicKeyStore \<Rightarrow> byte list \<Rightarrow> CBasicKeyStore" where
  "AddWatchOnly s dest = s\<lparr>setWatchOnly := insert dest (setWatchOnly s)\<rparr>"

definition RemoveWatchOnly :: "CBasicKeyStore \<Rightarrow> byte list \<Rightarrow> CBasicKeyStore" where
  "RemoveWatchOnly s dest = s\<lparr>setWatchOnly := setWatchOnly s - {dest}\<rparr>"

definition HaveWatchOnly :: "CBasicKeyStore \<Rightarrow> byte list \<Rightarrow> bool" where
  "HaveWatchOnly s dest \<longleftrightarrow> dest \<in> setWatchOnly s"

definition AddMultiSig :: "CBasicKeyStore \<Rightarrow> byte list \<Rightarrow> CBasicKeyStore" where
  "AddMultiSig s dest = s\<lparr>setMultiSig := insert dest (setMultiSig s)\<rparr>"

definition RemoveMultiSig :: "CBasicKeyStore \<Rightarrow> byte list \<Rightarrow> CBasicKeyStore" where
  "RemoveMultiSig s dest = s\<lparr>setMultiSig := setMultiSig s - {dest}\<rparr>"

definition HaveMultiSig :: "CBasicKeyStore \<Rightarrow> byte list \<Rightarrow> bool" where
  "HaveMultiSig s dest \<longleftrightarrow> dest \<in> setMultiSig s"

interpretation basic_store: key_store AddKeyPubKey GetKey AddCScript GetCScript
  by unfold_locales (auto simp: AddKeyPubKey_def GetKey_def AddCScript_def GetCScript_def split: if_splits)

section \<open>Setting a key\<close>

lemma CKey_Set_bytes: "length data = 32 \<Longrightarrow> Check data \<Longrightarrow>
    CKey_Set k data c = k\<lparr>key_vch := data, fValid := True, fCompressed := c\<rparr>"
  by (simp add: CKey_Set_def)

end
