(* ===== verification/Base58.thy ===== *)
theory Base58
  imports Keys
begin

text \<open>
  Base58 (\<open>src/base58.cpp\<close>): the encoding of bytes as text and its decoding with the carry loops of the
  code, the checksum, and the addresses. No assertion on a carry fails, and the strings that decode to
  some bytes are their encoding with white space around it.
\<close>

section \<open>The codec\<close>

text \<open>The digits are worked on from the end of the vector; \<open>mul_add\<close> is the loop over them, given last
  digit first: "times \<open>m\<close> plus carry" in base \<open>b\<close>, and the carry that is left.\<close>

fun mul_add :: "nat \<Rightarrow> nat \<Rightarrow> byte list \<Rightarrow> nat \<Rightarrow> byte list \<times> nat" where
  "mul_add m b [] carry = ([], carry)"
| "mul_add m b (d # ds) carry =
     (let carry = carry + m * unat d
      in case mul_add m b ds (carry div b) of (ds, rest) \<Rightarrow> (of_nat (carry mod b) # ds, rest))"

definition pszBase58 :: string where
  "pszBase58 = ''123456789ABCDEFGHJKLMNPQRSTUVWXYZabcdefghijkmnopqrstuvwxyz''"

fun strchr :: "string \<Rightarrow> char \<Rightarrow> nat option" where
  "strchr [] c = None"
| "strchr (x # xs) c = (if x = c then Some 0 else map_option Suc (strchr xs c))"

definition isspace :: "char \<Rightarrow> bool" where
  "isspace c = (c = CHR '' '' \<or> 9 \<le> (of_char c :: nat) \<and> (of_char c :: nat) \<le> 13)"

text \<open>\<open>None\<close> is a failed assertion, \<open>Some None\<close> the return on a character that is no digit.\<close>

fun decode_loop :: "string \<Rightarrow> byte list \<Rightarrow> (string \<times> byte list) option option" where
  "decode_loop [] b256 = Some (Some ([], b256))"
| "decode_loop (c # psz) b256 =
     (if isspace c then Some (Some (c # psz, b256))
      else
        (case strchr pszBase58 c of
           None \<Rightarrow> Some None
         | Some ch \<Rightarrow>
             (case mul_add 58 256 (rev b256) ch of
                (ds, carry) \<Rightarrow> if carry \<noteq> 0 then None else decode_loop psz (rev ds))))"

definition DecodeBase58 :: "string \<Rightarrow> byte list \<Rightarrow> (bool \<times> byte list) option" where
  "DecodeBase58 psz vch =
     (let psz = dropWhile isspace psz;
          zeroes = length (takeWhile (\<lambda>c. c = CHR ''1'') psz);
          psz = dropWhile (\<lambda>c. c = CHR ''1'') psz;
          b256 = replicate (length psz * 733 div 1000 + 1) 0
      in case decode_loop psz b256 of
           None \<Rightarrow> None
         | Some None \<Rightarrow> Some (False, vch)
         | Some (Some (psz, b256)) \<Rightarrow>
             (let psz = dropWhile isspace psz
              in if psz \<noteq> [] then Some (False, vch)
                 else Some (True, replicate zeroes 0 @ dropWhile (\<lambda>d. d = 0) b256)))"

fun encode_loop :: "byte list \<Rightarrow> byte list \<Rightarrow> byte list option" where
  "encode_loop [] b58 = Some b58"
| "encode_loop (x # xs) b58 =
     (case mul_add 256 58 (rev b58) (unat x) of
        (ds, carry) \<Rightarrow> if carry \<noteq> 0 then None else encode_loop xs (rev ds))"

definition EncodeBase58 :: "byte list \<Rightarrow> string option" where
  "EncodeBase58 vch =
     (let zeroes = length (takeWhile (\<lambda>x. x = 0) vch);
          rest = dropWhile (\<lambda>x. x = 0) vch;
          b58 = replicate (length rest * 138 div 100 + 1) 0
      in map_option (\<lambda>b58. replicate zeroes (CHR ''1'') @ map (\<lambda>d. pszBase58 ! unat d) (dropWhile (\<lambda>d. d = 0) b58))
           (encode_loop rest b58))"

section \<open>The value of digits\<close>

text \<open>Last digit first, and as the vectors have them.\<close>

fun low_val :: "nat \<Rightarrow> byte list \<Rightarrow> nat" where
  "low_val b [] = 0"
| "low_val b (d # ds) = unat d + b * low_val b ds"

definition digits_val :: "nat \<Rightarrow> byte list \<Rightarrow> nat" where
  "digits_val b ds = foldl (\<lambda>n d. n * b + unat d) 0 ds"

definition is_digits :: "nat \<Rightarrow> byte list \<Rightarrow> bool" where
  "is_digits b ds = list_all (\<lambda>d. unat d < b) ds"

lemma digits_val_rev: "digits_val b (rev ds) = low_val b ds"
  by (induction ds) (simp_all add: digits_val_def mult.commute)

lemma digits_val_snoc: "digits_val b (ds @ [d]) = digits_val b ds * b + unat d"
  by (simp add: digits_val_def)

lemma digits_val_Nil [simp]: "digits_val b [] = 0"
  by (simp add: digits_val_def)

lemma digits_val_append: "digits_val b (xs @ ys) = digits_val b xs * b ^ length ys + digits_val b ys"
proof (induction ys rule: rev_induct)
  case (snoc y ys)
  have "digits_val b (xs @ ys @ [y]) = digits_val b (xs @ ys) * b + unat y"
    using digits_val_snoc [of b "xs @ ys" y] by simp
  then show ?case by (simp add: snoc digits_val_snoc algebra_simps)
qed simp

lemma digits_val_zeros: "digits_val b (replicate n 0 @ ds) = digits_val b ds"
proof -
  have "digits_val b (replicate n 0) = 0" by (induction n) (simp_all add: digits_val_def replicate_append_same [symmetric])
  then show ?thesis by (simp add: digits_val_append)
qed

lemma leading_same: "replicate (length (takeWhile (\<lambda>c. c = x) xs)) x @ dropWhile (\<lambda>c. c = x) xs = xs"
  by (induction xs) auto

lemma digits_val_drop: "digits_val b (dropWhile (\<lambda>d. d = 0) ds) = digits_val b ds"
proof -
  show ?thesis by (subst (2) leading_same [of 0 ds, symmetric]) (simp only: digits_val_zeros)
qed

lemma low_val_less: "list_all (\<lambda>d. unat d < b) ds \<Longrightarrow> low_val b ds < b ^ length ds"
proof (induction ds)
  case (Cons d ds)
  then have "unat d + b * low_val b ds < b + b * low_val b ds" by simp
  also have "\<dots> \<le> b * b ^ length ds" using Cons by (metis Suc_leI list.pred_inject(2) mult_Suc_right mult_le_mono2)
  finally show ?case by simp
qed simp

lemma low_val_inj:
  "length xs = length ys \<Longrightarrow> list_all (\<lambda>d. unat d < b) xs \<Longrightarrow> list_all (\<lambda>d. unat d < b) ys \<Longrightarrow>
     low_val b xs = low_val b ys \<Longrightarrow> xs = ys"
proof (induction xs ys rule: list_induct2)
  case (Cons x xs y ys)
  then have e: "(unat x + b * low_val b xs) mod b = (unat y + b * low_val b ys) mod b"
    "(unat x + b * low_val b xs) div b = (unat y + b * low_val b ys) div b" by simp_all
  have "unat x < b" "unat y < b" using Cons.prems by simp_all
  then have "unat x = unat y" "low_val b xs = low_val b ys" using e by simp_all
  then show ?case using Cons by (simp add: word_unat_eq_iff)
qed simp

lemma trimmed_unique:
  assumes "is_digits b xs" and "is_digits b ys" and "digits_val b xs = digits_val b ys" and "0 < b"
  shows "dropWhile (\<lambda>d. d = 0) xs = dropWhile (\<lambda>d. d = 0) ys"
proof -
  let ?z = "\<lambda>d. d = (0 :: byte)"
  define xs' where "xs' = replicate (length ys) 0 @ xs"
  define ys' where "ys' = replicate (length xs) 0 @ ys"
  have "list_all (\<lambda>d. unat d < b) (rev xs')" "list_all (\<lambda>d. unat d < b) (rev ys')"
    using assms by (auto simp: is_digits_def xs'_def ys'_def list_all_iff)
  moreover have "low_val b (rev xs') = low_val b (rev ys')"
    using assms(3) by (simp add: digits_val_rev [symmetric] xs'_def ys'_def digits_val_zeros)
  moreover have "length (rev xs') = length (rev ys')" by (simp add: xs'_def ys'_def)
  ultimately have "rev xs' = rev ys'" using low_val_inj [of "rev xs'" "rev ys'" b] by blast
  then have "xs' = ys'" by simp
  moreover have "dropWhile ?z (replicate n 0 @ zs) = dropWhile ?z zs" for n zs by (induction n) auto
  ultimately show ?thesis by (metis xs'_def ys'_def)
qed

section \<open>The loops\<close>

lemma mul_add_ok:
  assumes "mul_add m b ds c = (ds', c')" and "0 < b" and "b \<le> 256"
  shows "low_val b ds' + c' * b ^ length ds = m * low_val b ds + c" and "length ds' = length ds"
    and "list_all (\<lambda>d. unat d < b) ds'"
proof -
  have "low_val b ds' + c' * b ^ length ds = m * low_val b ds + c \<and> length ds' = length ds \<and> list_all (\<lambda>d. unat d < b) ds'"
    using assms(1)
  proof (induction ds arbitrary: c ds' c')
    case (Cons d ds)
    let ?c = "c + m * unat d"
    obtain es e where r: "mul_add m b ds (?c div b) = (es, e)" by (metis prod.exhaust)
    have ds': "ds' = of_nat (?c mod b) # es" "c' = e" using Cons.prems r by (simp_all add: Let_def)
    have m: "?c mod b < b" using assms(2) by simp
    then have u: "unat (of_nat (?c mod b) :: byte) = ?c mod b" using assms(3) by (simp add: unat_of_nat)
    have i: "low_val b es + e * b ^ length ds = m * low_val b ds + ?c div b" "length es = length ds"
      "list_all (\<lambda>d. unat d < b) es" using Cons.IH [OF r] by simp_all
    have "?c mod b + b * (low_val b es + e * b ^ length ds) = (?c mod b + b * (?c div b)) + b * m * low_val b ds"
      by (simp only: i(1)) (simp add: algebra_simps)
    then have "?c mod b + b * (low_val b es + e * b ^ length ds) = ?c + b * m * low_val b ds" by simp
    then show ?case using i(2,3) u m by (simp add: ds' algebra_simps)
  qed simp
  then show "low_val b ds' + c' * b ^ length ds = m * low_val b ds + c" and "length ds' = length ds"
    and "list_all (\<lambda>d. unat d < b) ds'" by simp_all
qed

text \<open>The step of both loops: with room for the value there is no carry left.\<close>

lemma mul_add_step:
  assumes "0 < b" and "b \<le> 256" and "m * digits_val b ds + c < b ^ length ds"
  shows "\<exists>ds'. mul_add m b (rev ds) c = (rev ds', 0) \<and> digits_val b ds' = m * digits_val b ds + c \<and>
    length ds' = length ds \<and> is_digits b ds'"
proof -
  obtain es e where r: "mul_add m b (rev ds) c = (es, e)" by (metis prod.exhaust)
  note ok = mul_add_ok [OF r assms(1,2)]
  have v: "low_val b (rev ds) = digits_val b ds" using digits_val_rev [of b "rev ds"] by simp
  have "e = 0"
  proof (rule ccontr)
    assume "e \<noteq> 0"
    then have "b ^ length ds \<le> e * b ^ length ds" by simp
    also have "\<dots> \<le> m * digits_val b ds + c" using ok(1) v by simp
    finally show False using assms(3) by simp
  qed
  then show ?thesis
    using r ok v by (intro exI [of _ "rev es"]) (simp add: digits_val_rev is_digits_def)
qed

lemma encode_loop_ok:
  assumes "digits_val 58 b58 * 256 ^ length xs + digits_val 256 xs < 58 ^ length b58" and "is_digits 58 b58"
  shows "\<exists>r. encode_loop xs b58 = Some r \<and> is_digits 58 r \<and>
    digits_val 58 r = digits_val 58 b58 * 256 ^ length xs + digits_val 256 xs"
  using assms
proof (induction xs arbitrary: b58)
  case (Cons x xs)
  let ?v = "256 * digits_val 58 b58 + unat x"
  have x: "digits_val 256 (x # xs) = unat x * 256 ^ length xs + digits_val 256 xs"
    using digits_val_append [of 256 "[x]" xs] by (simp add: digits_val_def)
  then have t: "?v * 256 ^ length xs + digits_val 256 xs =
      digits_val 58 b58 * 256 ^ length (x # xs) + digits_val 256 (x # xs)" by (simp add: algebra_simps)
  have "?v \<le> ?v * 256 ^ length xs" by simp
  also have "\<dots> \<le> ?v * 256 ^ length xs + digits_val 256 xs" by simp
  also have "\<dots> < 58 ^ length b58" using Cons.prems(1) t by simp
  finally obtain ds where ds: "mul_add 256 58 (rev b58) (unat x) = (rev ds, 0)" "digits_val 58 ds = ?v"
      "length ds = length b58" "is_digits 58 ds"
    using mul_add_step [of 58 256 b58 "unat x"] by auto
  show ?case using Cons.IH [of ds] Cons.prems(1) ds t by simp
qed simp

text \<open>The characters.\<close>

lemma strchr_Some: "strchr xs c = Some i \<Longrightarrow> i < length xs \<and> xs ! i = c"
  by (induction xs c arbitrary: i rule: strchr.induct) (auto split: if_splits)

lemma strchr_nth: "distinct xs \<Longrightarrow> i < length xs \<Longrightarrow> strchr xs (xs ! i) = Some i"
proof (induction xs arbitrary: i)
  case (Cons x xs)
  then show ?case by (cases i) (auto simp: nth_mem)
qed simp

lemma pszBase58_facts: "distinct pszBase58" "length pszBase58 = 58" "list_all (\<lambda>c. \<not> isspace c) pszBase58" "pszBase58 ! 0 = CHR ''1''"
  by code_simp+

definition digit_char :: "byte \<Rightarrow> char" where
  "digit_char d = pszBase58 ! unat d"

lemma strchr_digit_char: "unat d < 58 \<Longrightarrow> strchr pszBase58 (digit_char d) = Some (unat d)"
  using strchr_nth [of pszBase58 "unat d"] by (simp add: pszBase58_facts digit_char_def)

lemma digit_char_eq: "unat d < 58 \<Longrightarrow> unat e < 58 \<Longrightarrow> digit_char d = digit_char e \<Longrightarrow> d = e"
  using strchr_digit_char [of d] strchr_digit_char [of e] by (simp add: word_unat_eq_iff)

lemma map_digit_char_eq:
  "is_digits 58 ds \<Longrightarrow> is_digits 58 es \<Longrightarrow> map digit_char ds = map digit_char es \<Longrightarrow> ds = es"
proof (induction ds arbitrary: es)
  case (Cons d ds)
  then show ?case using digit_char_eq by (cases es) (auto simp: is_digits_def)
qed simp

lemma digit_char_strchr: "strchr pszBase58 c = Some i \<Longrightarrow> i < 58 \<and> digit_char (of_nat i) = c"
  using strchr_Some [of pszBase58 c i] by (simp add: pszBase58_facts digit_char_def unat_of_nat)

lemma digit_char_not_space: "unat d < 58 \<Longrightarrow> \<not> isspace (digit_char d)"
  using pszBase58_facts by (simp add: digit_char_def list_all_length)

lemma digit_char_one: "unat d < 58 \<Longrightarrow> digit_char d = CHR ''1'' \<longleftrightarrow> d = 0"
  using strchr_digit_char [of d] strchr_digit_char [of 0] pszBase58_facts(4)
  by (auto simp: digit_char_def word_unat_eq_iff)

text \<open>On digits, up to the white space.\<close>

lemma decode_loop_ok:
  assumes "digits_val 256 b256 * 58 ^ length ds + digits_val 58 ds < 256 ^ length b256" and "is_digits 58 ds"
    and "is_digits 256 b256" and "rest = [] \<or> isspace (hd rest)"
  shows "\<exists>r. decode_loop (map digit_char ds @ rest) b256 = Some (Some (rest, r)) \<and> is_digits 256 r \<and>
    digits_val 256 r = digits_val 256 b256 * 58 ^ length ds + digits_val 58 ds"
  using assms(1-3)
proof (induction ds arbitrary: b256)
  case Nil
  then show ?case using assms(4) by (cases rest) simp_all
next
  case (Cons d ds)
  let ?v = "58 * digits_val 256 b256 + unat d"
  have x: "digits_val 58 (d # ds) = unat d * 58 ^ length ds + digits_val 58 ds"
    using digits_val_append [of 58 "[d]" ds] by (simp add: digits_val_def)
  then have t: "?v * 58 ^ length ds + digits_val 58 ds =
      digits_val 256 b256 * 58 ^ length (d # ds) + digits_val 58 (d # ds)" by (simp add: algebra_simps)
  have "?v \<le> ?v * 58 ^ length ds" by simp
  also have "\<dots> \<le> ?v * 58 ^ length ds + digits_val 58 ds" by simp
  also have "\<dots> < 256 ^ length b256" using Cons.prems(1) t by simp
  finally obtain es where es: "mul_add 58 256 (rev b256) (unat d) = (rev es, 0)" "digits_val 256 es = ?v"
      "length es = length b256" "is_digits 256 es"
    using mul_add_step [of 256 58 b256 "unat d"] by auto
  have d: "unat d < 58" using Cons.prems(2) by (simp add: is_digits_def)
  then have "decode_loop (map digit_char (d # ds) @ rest) b256 = decode_loop (map digit_char ds @ rest) es"
    using es(1) by (simp add: digit_char_not_space strchr_digit_char)
  then show ?case using Cons.IH [of es] Cons.prems(1,2) es t by (simp add: is_digits_def)
qed

text \<open>The other way round: what the loop accepts.\<close>

definition is_b58 :: "char \<Rightarrow> bool" where
  "is_b58 c \<longleftrightarrow> strchr pszBase58 c \<noteq> None"

lemma b58_chars: "list_all is_b58 cs \<Longrightarrow> \<exists>ds. cs = map digit_char ds \<and> is_digits 58 ds"
proof (induction cs)
  case (Cons c cs)
  then obtain ds i where "cs = map digit_char ds" "is_digits 58 ds" "strchr pszBase58 c = Some i"
    by (auto simp: is_b58_def)
  then show ?case using digit_char_strchr [of c i]
    by (intro exI [of _ "of_nat i # ds"]) (simp add: is_digits_def unat_of_nat)
qed (simp add: is_digits_def)

lemma decode_loop_bad:
  assumes "(digits_val 256 b256 + 1) * 58 ^ length psz \<le> 256 ^ length b256"
    and "\<not> list_all is_b58 (takeWhile (\<lambda>c. \<not> isspace c) psz)"
  shows "decode_loop psz b256 = Some None"
  using assms
proof (induction psz arbitrary: b256)
  case (Cons c psz)
  then have s: "\<not> isspace c" by (auto split: if_splits)
  show ?case
  proof (cases "strchr pszBase58 c")
    case (Some d)
    let ?v = "58 * digits_val 256 b256 + d"
    have d: "d < 58" using digit_char_strchr [OF Some] by simp
    have "(?v + 1) * 58 ^ length psz \<le> (58 * (digits_val 256 b256 + 1)) * 58 ^ length psz"
      by (rule mult_right_mono) (use d in simp_all)
    also have "\<dots> = (digits_val 256 b256 + 1) * 58 ^ length (c # psz)" by (simp add: algebra_simps)
    also have "\<dots> \<le> 256 ^ length b256" by (rule Cons.prems(1))
    finally have b: "(?v + 1) * 58 ^ length psz \<le> 256 ^ length b256" .
    have "(?v + 1) * 1 \<le> (?v + 1) * 58 ^ length psz" by (rule mult_le_mono2) simp
    then have "?v < (?v + 1) * 58 ^ length psz" by (rule order.strict_trans2 [rotated]) simp
    then have "?v < 256 ^ length b256" using b by linarith
    then obtain es where es: "mul_add 58 256 (rev b256) d = (rev es, 0)" "digits_val 256 es = ?v" "length es = length b256"
      using mul_add_step [of 256 58 b256 d] by auto
    have "\<not> list_all is_b58 (takeWhile (\<lambda>c. \<not> isspace c) psz)" using Cons.prems(2) s Some
      by (cases "is_b58 c") (simp_all add: is_b58_def [of c])
    then show ?thesis using Cons.IH [of es] b es s Some by simp
  qed (use s in simp)
qed simp

text \<open>The room the code allocates is enough.\<close>

lemma room:
  assumes "(a :: nat) ^ i \<le> b ^ j" and "j * n \<le> i * q" and "0 < i" and "1 \<le> b"
  shows "a ^ n \<le> b ^ q"
proof -
  have "(a ^ n) ^ i = (a ^ i) ^ n" by (simp add: power_mult [symmetric] mult.commute)
  also have "\<dots> \<le> (b ^ j) ^ n" using assms(1) by (rule power_mono) simp
  also have "\<dots> = b ^ (j * n)" by (simp add: power_mult)
  also have "\<dots> \<le> b ^ (i * q)" by (rule power_increasing [OF assms(2,4)])
  also have "\<dots> = (b ^ q) ^ i" by (simp add: power_mult [symmetric] mult.commute)
  finally show ?thesis using assms(3) by (simp add: power_mono_iff)
qed

lemma room_256: "58 ^ n \<le> (256 :: nat) ^ (n * 733 div 1000 + 1)"
proof (rule room [of 58 71 256 52])
  define q where "q = n * 733 div 1000"
  have "n * 733 < 1000 + 1000 * q" unfolding q_def by (rule dividend_less_times_div) simp
  then have "733 * (52 * n) \<le> 733 * (71 * (q + 1))" by simp
  then have "52 * n \<le> 71 * (q + 1)" by simp
  then show "52 * n \<le> 71 * (n * 733 div 1000 + 1)" by (simp only: q_def)
  show "(58 :: nat) ^ 71 \<le> 256 ^ 52" by simp
qed simp_all

lemma room_58: "256 ^ n \<le> (58 :: nat) ^ (n * 138 div 100 + 1)"
proof (rule room [of 256 41 58 56])
  define q where "q = n * 138 div 100"
  have "n * 138 < 100 + 100 * q" unfolding q_def by (rule dividend_less_times_div) simp
  then have "138 * (56 * n) \<le> 138 * (41 * (q + 1))" by simp
  then have "56 * n \<le> 41 * (q + 1)" by simp
  then show "56 * n \<le> 41 * (n * 138 div 100 + 1)" by (simp only: q_def)
  show "(256 :: nat) ^ 41 \<le> 58 ^ 56" by simp
qed simp_all

section \<open>Encoding and decoding\<close>

lemma digits_val_less: "is_digits b ds \<Longrightarrow> digits_val b ds < b ^ length ds"
  using low_val_less [of b "rev ds"] digits_val_rev [of b "rev ds"] by (simp add: is_digits_def)

lemma is_digits_256 [simp]: "is_digits 256 ds"
proof -
  have "unat d < 256" for d :: byte using unsigned_less [of d] by simp
  then show ?thesis by (simp add: is_digits_def list_all_iff)
qed

lemma digits_val_replicate [simp]: "digits_val b (replicate n 0) = 0"
  using digits_val_zeros [of b n "[]"] by simp

lemma is_digits_zeros: "0 < b \<Longrightarrow> is_digits b (replicate n 0)"
  by (auto simp: is_digits_def list_all_iff)

definition drop_zeros :: "byte list \<Rightarrow> byte list" where
  "drop_zeros = dropWhile (\<lambda>d. d = 0)"

definition count_zeros :: "byte list \<Rightarrow> nat" where
  "count_zeros ds = length (takeWhile (\<lambda>d. d = 0) ds)"

lemma drop_zeros_val: "digits_val b (drop_zeros ds) = digits_val b ds"
  by (simp add: drop_zeros_def digits_val_drop)

lemma drop_zeros_idem: "drop_zeros (drop_zeros ds) = drop_zeros ds"
  by (simp add: drop_zeros_def dropWhile_idem)

lemma is_digits_drop: "is_digits b ds \<Longrightarrow> is_digits b (drop_zeros ds)"
  by (auto simp: is_digits_def drop_zeros_def list_all_iff dest: set_dropWhileD)

lemma zeros_drop: "replicate (count_zeros ds) 0 @ drop_zeros ds = ds"
  unfolding count_zeros_def drop_zeros_def by (rule leading_same)

lemma EncodeBase58_ok:
  "\<exists>ds. EncodeBase58 v = Some (replicate (count_zeros v) (CHR ''1'') @ map digit_char ds) \<and> is_digits 58 ds \<and>
     drop_zeros ds = ds \<and> digits_val 58 ds = digits_val 256 v"
proof -
  let ?w = "drop_zeros v"
  define b where "b = (replicate (length ?w * 138 div 100 + 1) 0 :: byte list)"
  have b: "digits_val 58 b = 0" "is_digits 58 b" unfolding b_def by (simp only: digits_val_replicate) (rule is_digits_zeros, simp)
  have "digits_val 256 ?w < 256 ^ length ?w" by (rule digits_val_less) simp
  also have "\<dots> \<le> 58 ^ length b" using room_58 [of "length ?w"] by (simp only: b_def length_replicate)
  finally obtain r where r: "encode_loop ?w b = Some r" "is_digits 58 r" "digits_val 58 r = digits_val 256 ?w"
    using encode_loop_ok [of b ?w] b by auto
  have "EncodeBase58 v = Some (replicate (count_zeros v) (CHR ''1'') @ map digit_char (drop_zeros r))"
    using r(1) unfolding EncodeBase58_def Let_def count_zeros_def drop_zeros_def b_def by (simp add: digit_char_def)
  then show ?thesis using r(2,3)
    by (intro exI [of _ "drop_zeros r"]) (simp add: is_digits_drop drop_zeros_idem drop_zeros_val)
qed

text \<open>The input in parts: white space, ones, and the rest up to the next white space.\<close>

definition base58_rest :: "string \<Rightarrow> string" where
  "base58_rest psz = dropWhile (\<lambda>c. c = CHR ''1'') (dropWhile isspace psz)"

definition base58_ones :: "string \<Rightarrow> nat" where
  "base58_ones psz = length (takeWhile (\<lambda>c. c = CHR ''1'') (dropWhile isspace psz))"

lemma DecodeBase58_ok:
  assumes "cs = takeWhile (\<lambda>c. \<not> isspace c) (base58_rest psz)" and "rest = dropWhile (\<lambda>c. \<not> isspace c) (base58_rest psz)"
  shows "(list_all is_b58 cs \<and> list_all isspace rest \<longrightarrow>
      (\<exists>ds r. cs = map digit_char ds \<and> is_digits 58 ds \<and> digits_val 256 r = digits_val 58 ds \<and>
         DecodeBase58 psz vch = Some (True, replicate (base58_ones psz) 0 @ drop_zeros r))) \<and>
    (\<not> (list_all is_b58 cs \<and> list_all isspace rest) \<longrightarrow> DecodeBase58 psz vch = Some (False, vch))"
proof -
  let ?p = "base58_rest psz"
  define b where "b = (replicate (length ?p * 733 div 1000 + 1) 0 :: byte list)"
  have b: "digits_val 256 b = 0" "length b = length ?p * 733 div 1000 + 1"
    unfolding b_def by (simp_all only: digits_val_replicate length_replicate)
  have e: "DecodeBase58 psz vch = (case decode_loop ?p b of None \<Rightarrow> None
      | Some None \<Rightarrow> Some (False, vch)
      | Some (Some (psz', b256)) \<Rightarrow>
          if dropWhile isspace psz' \<noteq> [] then Some (False, vch)
          else Some (True, replicate (base58_ones psz) 0 @ drop_zeros b256))"
    unfolding DecodeBase58_def Let_def b_def base58_rest_def base58_ones_def drop_zeros_def by (rule refl)
  have p: "?p = cs @ rest" using assms by simp
  have r: "rest = [] \<or> isspace (hd rest)" using assms(2) hd_dropWhile [of "\<lambda>c. \<not> isspace c" ?p] by auto
  show ?thesis
  proof (cases "list_all is_b58 cs")
    case True
    then obtain ds where ds: "cs = map digit_char ds" "is_digits 58 ds" using b58_chars by blast
    have "digits_val 58 ds < 58 ^ length ds" using ds(2) by (rule digits_val_less)
    also have "\<dots> \<le> 58 ^ length ?p" by (rule power_increasing) (simp_all add: p ds(1))
    also have "\<dots> \<le> 256 ^ length b" unfolding b(2) by (rule room_256)
    finally obtain q where q: "decode_loop ?p b = Some (Some (rest, q))" "digits_val 256 q = digits_val 58 ds"
      using decode_loop_ok [OF _ ds(2) _ r, of b] b(1) unfolding p ds(1) by auto
    have "dropWhile isspace rest = [] \<longleftrightarrow> list_all isspace rest" by (simp add: list_all_iff)
    then show ?thesis using q ds True unfolding e by auto
  next
    case False
    have "(digits_val 256 b + 1) * 58 ^ length ?p \<le> 256 ^ length b" unfolding b using room_256 by simp
    then have "decode_loop ?p b = Some None" using decode_loop_bad False assms(1) by blast
    then show ?thesis using False unfolding e by simp
  qed
qed

text \<open>The bytes and their text determine each other.\<close>

lemma count_zeros_append: "count_zeros (replicate n 0 @ drop_zeros r) = n"
proof -
  have "takeWhile (\<lambda>d. d = 0) (drop_zeros r) = []" unfolding drop_zeros_def by (induction r) auto
  moreover have "takeWhile (\<lambda>d. d = (0 :: byte)) (replicate n 0 @ zs) = replicate n 0 @ takeWhile (\<lambda>d. d = 0) zs" for zs
    by (induction n) auto
  ultimately show ?thesis by (simp add: count_zeros_def)
qed

lemma same_bytes: "count_zeros v = count_zeros w \<Longrightarrow> digits_val 256 v = digits_val 256 w \<Longrightarrow> v = w"
  using trimmed_unique [of 256 v w] zeros_drop [of v] zeros_drop [of w] by (simp add: drop_zeros_def)

lemma same_digits:
  "is_digits 58 ds \<Longrightarrow> is_digits 58 es \<Longrightarrow> drop_zeros ds = ds \<Longrightarrow> drop_zeros es = es \<Longrightarrow>
     digits_val 58 ds = digits_val 58 es \<Longrightarrow> ds = es"
  using trimmed_unique [of 58 ds es] by (simp add: drop_zeros_def)

lemma trimmed_hd:
  assumes "drop_zeros ds = ds"
  shows "ds = [] \<or> hd ds \<noteq> 0"
proof (cases "ds = []")
  case False
  then have "dropWhile (\<lambda>d. d = 0) ds \<noteq> []" using assms by (simp only: drop_zeros_def) simp
  then have "hd (drop_zeros ds) \<noteq> 0" unfolding drop_zeros_def by (rule hd_dropWhile)
  then show ?thesis using assms by simp
qed simp

lemma hd_trimmed: "ds = [] \<or> hd ds \<noteq> 0 \<Longrightarrow> drop_zeros ds = ds"
  by (cases ds) (auto simp: drop_zeros_def)

lemma one_not_space: "\<not> isspace (CHR ''1'')"
  by code_simp

lemma parse_encoded:
  assumes "list_all isspace a" and "list_all isspace b" and "is_digits 58 ds" and "drop_zeros ds = ds"
    and "t = a @ (replicate z (CHR ''1'') @ map digit_char ds) @ b"
  shows "base58_ones t = z" and "takeWhile (\<lambda>c. \<not> isspace c) (base58_rest t) = map digit_char ds"
    and "list_all isspace (dropWhile (\<lambda>c. \<not> isspace c) (base58_rest t))"
proof -
  let ?one = "\<lambda>c. c = CHR ''1''" and ?d = "map digit_char ds"
  have sp: "\<not> isspace c" if "c \<in> set ?d" for c
    using that assms(3) digit_char_not_space by (auto simp: is_digits_def list_all_iff)
  have b: "b = [] \<or> isspace (hd b)" using assms(2) by (cases b) auto
  have hd: "ds = [] \<or> \<not> ?one (digit_char (hd ds))"
    using trimmed_hd [OF assms(4)] assms(3) digit_char_one by (cases ds) (auto simp: is_digits_def)
  have tw: "takeWhile ?one (?d @ b) = []" "dropWhile ?one (?d @ b) = ?d @ b"
    using hd b one_not_space by (cases ds; cases b; auto)+
  have ones: "takeWhile ?one (replicate z (CHR ''1'') @ xs) = replicate z (CHR ''1'') @ takeWhile ?one xs"
    "dropWhile ?one (replicate z (CHR ''1'') @ xs) = dropWhile ?one xs" for xs by (induction z) auto
  have da: "dropWhile isspace (a @ xs) = dropWhile isspace xs" for xs using assms(1) by (induction a) auto
  have "base58_ones t = z \<and> takeWhile (\<lambda>c. \<not> isspace c) (base58_rest t) = ?d \<and>
    list_all isspace (dropWhile (\<lambda>c. \<not> isspace c) (base58_rest t))"
  proof (cases "z = 0 \<and> ds = []")
    case True
    have "dropWhile isspace b = []" using assms(2) by (simp add: list_all_iff)
    then have d: "dropWhile isspace t = []" using True unfolding assms(5) da by simp
    show ?thesis unfolding base58_ones_def base58_rest_def d using True by simp
  next
    case False
    then have "dropWhile isspace t = replicate z (CHR ''1'') @ ?d @ b"
      using sp one_not_space unfolding assms(5) da by (cases z; cases ds) auto
    then have "base58_ones t = z" "base58_rest t = ?d @ b"
      unfolding base58_ones_def base58_rest_def by (simp_all only: ones tw append_Nil2 length_replicate)
    moreover have "takeWhile (\<lambda>c. \<not> isspace c) (?d @ b) = ?d" "dropWhile (\<lambda>c. \<not> isspace c) (?d @ b) = b"
      using sp b by (cases b; simp add: takeWhile_append dropWhile_append)+
    ultimately show ?thesis using assms(2) by simp
  qed
  then show "base58_ones t = z" and "takeWhile (\<lambda>c. \<not> isspace c) (base58_rest t) = map digit_char ds"
    and "list_all isspace (dropWhile (\<lambda>c. \<not> isspace c) (base58_rest t))" by simp_all
qed

lemma base58_exact:
  "\<exists>s. EncodeBase58 v = Some s \<and> (\<forall>t vch. DecodeBase58 t vch \<noteq> None \<and>
     (DecodeBase58 t vch = Some (True, v) \<longleftrightarrow> (\<exists>a b. list_all isspace a \<and> list_all isspace b \<and> t = a @ s @ b)))"
proof -
  let ?one = "CHR ''1''"
  obtain ds where s: "EncodeBase58 v = Some (replicate (count_zeros v) ?one @ map digit_char ds)" "is_digits 58 ds"
      "drop_zeros ds = ds" "digits_val 58 ds = digits_val 256 v"
    using EncodeBase58_ok by blast
  have "DecodeBase58 t vch \<noteq> None \<and> (DecodeBase58 t vch = Some (True, v) \<longleftrightarrow>
      (\<exists>a b. list_all isspace a \<and> list_all isspace b \<and> t = a @ (replicate (count_zeros v) ?one @ map digit_char ds) @ b))" for t vch
  proof -
    define cs rest where "cs = takeWhile (\<lambda>c. \<not> isspace c) (base58_rest t)"
      and "rest = dropWhile (\<lambda>c. \<not> isspace c) (base58_rest t)"
    note d = DecodeBase58_ok [OF cs_def rest_def, of vch]
    have "\<exists>a b. list_all isspace a \<and> list_all isspace b \<and> t = a @ (replicate (count_zeros v) ?one @ map digit_char ds) @ b"
      if v: "DecodeBase58 t vch = Some (True, v)"
    proof -
      obtain es r where es: "list_all isspace rest" "cs = map digit_char es" "is_digits 58 es" "digits_val 256 r = digits_val 58 es"
          "v = replicate (base58_ones t) 0 @ drop_zeros r"
        using d v by (cases "list_all is_b58 cs \<and> list_all isspace rest") auto
      have z: "count_zeros v = base58_ones t" unfolding es(5) by (rule count_zeros_append)
      have "digits_val 58 es = digits_val 58 ds" using s(4) es(4,5) by (simp add: digits_val_zeros drop_zeros_val)
      moreover have "drop_zeros es = es"
      proof (rule hd_trimmed)
        have "base58_rest t \<noteq> [] \<Longrightarrow> hd (base58_rest t) \<noteq> ?one" unfolding base58_rest_def by (rule hd_dropWhile)
        moreover have "base58_rest t = map digit_char es @ rest"
          unfolding es(2) [symmetric] cs_def rest_def by simp
        ultimately show "es = [] \<or> hd es \<noteq> 0"
          using es(3) digit_char_one by (cases es) (auto simp: is_digits_def)
      qed
      ultimately have e: "es = ds" using same_digits s(2,3) es(3) by blast
      have "dropWhile isspace t = replicate (base58_ones t) ?one @ base58_rest t"
        unfolding base58_ones_def base58_rest_def by (rule leading_same [symmetric])
      also have "base58_rest t = map digit_char ds @ rest" unfolding e [symmetric] es(2) [symmetric] cs_def rest_def by simp
      finally have "t = takeWhile isspace t @ (replicate (count_zeros v) ?one @ map digit_char ds) @ rest"
        using takeWhile_dropWhile_id [of isspace t] z by simp
      moreover have "list_all isspace (takeWhile isspace t)" by (auto simp: list_all_iff dest: set_takeWhileD)
      ultimately show ?thesis using es(1) by blast
    qed
    moreover have "DecodeBase58 t vch = Some (True, v)"
      if t: "list_all isspace a" "list_all isspace b" "t = a @ (replicate (count_zeros v) ?one @ map digit_char ds) @ b" for a b
    proof -
      note p = parse_encoded [OF t(1,2) s(2,3) t(3)]
      have "list_all is_b58 cs" using s(2) strchr_digit_char unfolding cs_def p(2)
        by (auto simp: list_all_iff is_b58_def is_digits_def)
      moreover have "list_all isspace rest" unfolding rest_def by (rule p(3))
      ultimately obtain es r where es: "cs = map digit_char es" "is_digits 58 es" "digits_val 256 r = digits_val 58 es"
          "DecodeBase58 t vch = Some (True, replicate (base58_ones t) 0 @ drop_zeros r)" using d by blast
      then have "es = ds" using s(2) p(2) by (intro map_digit_char_eq) (simp_all add: cs_def)
      then have "replicate (base58_ones t) 0 @ drop_zeros r = v"
        using es(3) s(4) p(1) by (intro same_bytes) (simp_all add: count_zeros_append digits_val_zeros drop_zeros_val)
      then show ?thesis using es(4) by simp
    qed
    moreover have "DecodeBase58 t vch \<noteq> None" using d by (cases "list_all is_b58 cs \<and> list_all isspace rest") auto
    ultimately show ?thesis by blast
  qed
  then show ?thesis using s(1) by blast
qed

section \<open>The checksum\<close>

definition EncodeBase58Check :: "byte list \<Rightarrow> string option" where
  "EncodeBase58Check vchIn =
     (let hash = Hash vchIn; vch = vchIn @ take 4 (uint256_bytes hash) in EncodeBase58 vch)"

definition DecodeBase58Check :: "string \<Rightarrow> byte list \<Rightarrow> (bool \<times> byte list) option" where
  "DecodeBase58Check psz vchRet =
     (case DecodeBase58 psz vchRet of
        None \<Rightarrow> None
      | Some (ok, vchRet) \<Rightarrow>
          if \<not> ok \<or> length vchRet < 4 then Some (False, [])
          else
            (let hash = Hash (take (length vchRet - 4) vchRet)
             in if take 4 (uint256_bytes hash) \<noteq> drop (length vchRet - 4) vchRet then Some (False, [])
                else Some (True, take (length vchRet - 4) vchRet)))"

lemma base58check_exact:
  "\<exists>s. EncodeBase58Check v = Some s \<and> (\<forall>t vch. DecodeBase58Check t vch \<noteq> None \<and>
     (DecodeBase58Check t vch = Some (True, v) \<longleftrightarrow> (\<exists>a b. list_all isspace a \<and> list_all isspace b \<and> t = a @ s @ b)))"
proof -
  let ?w = "v @ take 4 (uint256_bytes (Hash v))"
  obtain s where s: "EncodeBase58 ?w = Some s"
      "\<And>t vch. DecodeBase58 t vch \<noteq> None \<and> (DecodeBase58 t vch = Some (True, ?w) \<longleftrightarrow>
        (\<exists>a b. list_all isspace a \<and> list_all isspace b \<and> t = a @ s @ b))"
    using base58_exact [of ?w] by blast
  have "DecodeBase58Check t vch \<noteq> None \<and> (DecodeBase58Check t vch = Some (True, v) \<longleftrightarrow> DecodeBase58 t vch = Some (True, ?w))" for t vch
  proof -
    obtain ok u where u: "DecodeBase58 t vch = Some (ok, u)" using s(2) [of t vch] by fastforce
    have "u = ?w" if "4 \<le> length u" "take (length u - 4) u = v" "take 4 (uint256_bytes (Hash v)) = drop (length u - 4) u"
      using append_take_drop_id [of "length u - 4" u] that by simp
    then show ?thesis using u by (auto simp: DecodeBase58Check_def Let_def)
  qed
  then show ?thesis using s by (intro exI [of _ s]) (simp add: EncodeBase58Check_def)
qed

section \<open>Data with a version\<close>

record CBase58Data =
  vchVersion :: "byte list"
  vchData :: "byte list"

definition CBase58Data_new :: CBase58Data where
  "CBase58Data_new = \<lparr>vchVersion = [], vchData = []\<rparr>"

definition SetData :: "byte list \<Rightarrow> byte list \<Rightarrow> CBase58Data" where
  "SetData vchVersionIn pdata = \<lparr>vchVersion = vchVersionIn, vchData = pdata\<rparr>"

definition SetString :: "string \<Rightarrow> nat \<Rightarrow> (bool \<times> CBase58Data) option" where
  "SetString psz nVersionBytes =
     (case DecodeBase58Check psz [] of
        None \<Rightarrow> None
      | Some (rc58, vchTemp) \<Rightarrow>
          if \<not> rc58 \<or> length vchTemp < nVersionBytes then Some (False, \<lparr>vchVersion = [], vchData = []\<rparr>)
          else Some (True, \<lparr>vchVersion = take nVersionBytes vchTemp, vchData = drop nVersionBytes vchTemp\<rparr>))"

definition ToString :: "CBase58Data \<Rightarrow> string option" where
  "ToString d = EncodeBase58Check (vchVersion d @ vchData d)"

fun vec_less :: "byte list \<Rightarrow> byte list \<Rightarrow> bool" where
  "vec_less _ [] = False"
| "vec_less [] (y # ys) = True"
| "vec_less (x # xs) (y # ys) = (x < y \<or> x = y \<and> vec_less xs ys)"

definition CompareTo :: "CBase58Data \<Rightarrow> CBase58Data \<Rightarrow> int" where
  "CompareTo a b =
     (if vec_less (vchVersion a) (vchVersion b) then -1
      else if vec_less (vchVersion b) (vchVersion a) then 1
      else if vec_less (vchData a) (vchData b) then -1
      else if vec_less (vchData b) (vchData a) then 1
      else 0)"

section \<open>Addresses and secrets\<close>

text \<open>The prefixes of the networks (\<open>chainparams.cpp\<close>); the test network and the regression test share theirs.\<close>

datatype Network = MAIN | TESTNET | REGTEST

datatype Base58Type = PUBKEY_ADDRESS | SCRIPT_ADDRESS | SECRET_KEY

fun Base58Prefix :: "Network \<Rightarrow> Base58Type \<Rightarrow> byte list" where
  "Base58Prefix MAIN PUBKEY_ADDRESS = [0]"
| "Base58Prefix MAIN SCRIPT_ADDRESS = [5]"
| "Base58Prefix MAIN SECRET_KEY = [128]"
| "Base58Prefix _ PUBKEY_ADDRESS = [111]"
| "Base58Prefix _ SCRIPT_ADDRESS = [196]"
| "Base58Prefix _ SECRET_KEY = [239]"

fun CBitcoinAddress_Set :: "Network \<Rightarrow> CTxDestination \<Rightarrow> bool \<times> CBase58Data" where
  "CBitcoinAddress_Set net (CKeyID i) = (True, SetData (Base58Prefix net PUBKEY_ADDRESS) (uint160_bytes i))"
| "CBitcoinAddress_Set net (CScriptID i) = (True, SetData (Base58Prefix net SCRIPT_ADDRESS) (uint160_bytes i))"
| "CBitcoinAddress_Set net CNoDestination = (False, CBase58Data_new)"

definition CBitcoinAddress_IsValid :: "Network \<Rightarrow> CBase58Data \<Rightarrow> bool" where
  "CBitcoinAddress_IsValid net d =
     (let fCorrectSize = (length (vchData d) = 20);
          fKnownVersion = (vchVersion d = Base58Prefix net PUBKEY_ADDRESS \<or> vchVersion d = Base58Prefix net SCRIPT_ADDRESS)
      in fCorrectSize \<and> fKnownVersion)"

definition CBitcoinAddress_Get :: "Network \<Rightarrow> CBase58Data \<Rightarrow> CTxDestination" where
  "CBitcoinAddress_Get net d =
     (if \<not> CBitcoinAddress_IsValid net d then CNoDestination
      else
        (let i = uint160_of_bytes (take 20 (vchData d))
         in if vchVersion d = Base58Prefix net PUBKEY_ADDRESS then CKeyID i
            else if vchVersion d = Base58Prefix net SCRIPT_ADDRESS then CScriptID i
            else CNoDestination))"

definition GetIndexKey :: "Network \<Rightarrow> CBase58Data \<Rightarrow> (uint160 \<times> int) option" where
  "GetIndexKey net d =
     (if \<not> CBitcoinAddress_IsValid net d then None
      else if vchVersion d = Base58Prefix net PUBKEY_ADDRESS then Some (uint160_of_bytes (take 20 (vchData d)), 1)
      else if vchVersion d = Base58Prefix net SCRIPT_ADDRESS then Some (uint160_of_bytes (take 20 (vchData d)), 2)
      else None)"

definition GetKeyID :: "Network \<Rightarrow> CBase58Data \<Rightarrow> uint160 option" where
  "GetKeyID net d =
     (if \<not> CBitcoinAddress_IsValid net d \<or> vchVersion d \<noteq> Base58Prefix net PUBKEY_ADDRESS then None
      else Some (uint160_of_bytes (take 20 (vchData d))))"

definition CBitcoinAddress_IsScript :: "Network \<Rightarrow> CBase58Data \<Rightarrow> bool" where
  "CBitcoinAddress_IsScript net d \<longleftrightarrow> CBitcoinAddress_IsValid net d \<and> vchVersion d = Base58Prefix net SCRIPT_ADDRESS"

text \<open>\<open>None\<close> is a failed assertion.\<close>

definition CBitcoinSecret_SetKey :: "Network \<Rightarrow> CKey \<Rightarrow> CBase58Data option" where
  "CBitcoinSecret_SetKey net vchSecret =
     (if \<not> fValid vchSecret then None
      else
        (let d = SetData (Base58Prefix net SECRET_KEY) (take (CKey_size vchSecret) (key_vch vchSecret))
         in Some (if fCompressed vchSecret then d\<lparr>vchData := vchData d @ [1]\<rparr> else d)))"

definition CBitcoinSecret_GetKey :: "CBase58Data \<Rightarrow> CKey option" where
  "CBitcoinSecret_GetKey d =
     (if length (vchData d) < 32 then None
      else Some (CKey_Set CKey_new (take 32 (vchData d)) (length (vchData d) > 32 \<and> vchData d ! 32 = 1)))"

definition CBitcoinSecret_IsValid :: "Network \<Rightarrow> CBase58Data \<Rightarrow> bool" where
  "CBitcoinSecret_IsValid net d =
     (let fExpectedFormat = (length (vchData d) = 32 \<or> length (vchData d) = 33 \<and> vchData d ! 32 = 1);
          fCorrectVersion = (vchVersion d = Base58Prefix net SECRET_KEY)
      in fExpectedFormat \<and> fCorrectVersion)"

definition CBitcoinSecret_SetString :: "Network \<Rightarrow> string \<Rightarrow> (bool \<times> CBase58Data) option" where
  "CBitcoinSecret_SetString net pszSecret =
     map_option (\<lambda>(ok, d). (ok \<and> CBitcoinSecret_IsValid net d, d)) (SetString pszSecret 1)"

text \<open>The constructor from a string, then \<open>Get\<close>; and the constructor from a destination, then \<open>ToString\<close>.\<close>

definition address_of_string :: "Network \<Rightarrow> string \<Rightarrow> CTxDestination option" where
  "address_of_string net t = map_option (\<lambda>(ok, d). CBitcoinAddress_Get net d) (SetString t 1)"

definition string_of_address :: "Network \<Rightarrow> CTxDestination \<Rightarrow> string option" where
  "string_of_address net dest = ToString (snd (CBitcoinAddress_Set net dest))"

lemma prefixes:
  "length (Base58Prefix net k) = 1" "Base58Prefix net k = Base58Prefix net k' \<longleftrightarrow> k = k'"
  by (cases net; cases k; cases k'; simp)+

lemma Get_iff:
  assumes "dest \<noteq> CNoDestination"
  shows "CBitcoinAddress_Get net d = dest \<longleftrightarrow> d = snd (CBitcoinAddress_Set net dest)"
proof -
  obtain ver data where d: "d = \<lparr>vchVersion = ver, vchData = data\<rparr>" by (cases d)
  have e: "uint160_of_bytes data = i \<longleftrightarrow> data = uint160_bytes i" if "length data = 20" for i
    using that uint160_bytes_of_bytes by auto
  show ?thesis
    using assms e prefixes(2) [of net PUBKEY_ADDRESS SCRIPT_ADDRESS]
    by (cases dest; cases "length data = 20")
      (auto simp: d CBitcoinAddress_Get_def CBitcoinAddress_IsValid_def SetData_def Let_def)
qed

lemma SetString_iff:
  assumes "v \<noteq> []"
  shows "(\<exists>ok. SetString t 1 = Some (ok, SetData (take 1 v) (drop 1 v))) \<longleftrightarrow> DecodeBase58Check t [] = Some (True, v)"
proof -
  have "u = v" if "take 1 u = take 1 v" "drop 1 u = drop 1 v" for u :: "byte list"
    using that append_take_drop_id by metis
  then show ?thesis using assms
    by (cases v) (auto simp: SetString_def SetData_def split: option.splits)
qed

lemma address_exact:
  assumes "dest \<noteq> CNoDestination"
  shows "\<exists>s. string_of_address net dest = Some s \<and> (\<forall>t. address_of_string net t = Some dest \<longleftrightarrow>
    (\<exists>a b. list_all isspace a \<and> list_all isspace b \<and> t = a @ s @ b))"
proof -
  obtain k i where k: "snd (CBitcoinAddress_Set net dest) = SetData (Base58Prefix net k) i" using assms by (cases dest) auto
  let ?v = "Base58Prefix net k @ i"
  have v: "?v \<noteq> []" "take 1 ?v = Base58Prefix net k" "drop 1 ?v = i" using prefixes(1) [of net k] by auto
  obtain s where s: "EncodeBase58Check ?v = Some s"
      "\<And>t vch. DecodeBase58Check t vch \<noteq> None \<and> (DecodeBase58Check t vch = Some (True, ?v) \<longleftrightarrow>
        (\<exists>a b. list_all isspace a \<and> list_all isspace b \<and> t = a @ s @ b))"
    using base58check_exact [of ?v] by blast
  have "address_of_string net t = Some dest \<longleftrightarrow> (\<exists>ok. SetString t 1 = Some (ok, SetData (Base58Prefix net k) i))" for t
    using Get_iff [OF assms, of net] k by (cases "SetString t 1") (auto simp: address_of_string_def)
  then have "address_of_string net t = Some dest \<longleftrightarrow> DecodeBase58Check t [] = Some (True, ?v)" for t
    using SetString_iff [OF v(1), of t] v by simp
  moreover have "string_of_address net dest = Some s" using s(1) k by (simp add: string_of_address_def ToString_def SetData_def)
  ultimately show ?thesis using s(2) by blast
qed

text \<open>A secret key comes back from its text.\<close>

lemma secret_roundtrip:
  assumes "fValid k" and "length (key_vch k) = 32" and "Check (key_vch k)"
  shows "\<exists>d s. CBitcoinSecret_SetKey net k = Some d \<and> ToString d = Some s \<and>
    CBitcoinSecret_SetString net s = Some (True, d) \<and> CBitcoinSecret_GetKey d = Some k"
proof -
  let ?i = "key_vch k @ (if fCompressed k then [1] else [])" and ?p = "Base58Prefix net SECRET_KEY"
  let ?d = "SetData ?p ?i"
  have v: "?p @ ?i \<noteq> []" "take 1 (?p @ ?i) = ?p" "drop 1 (?p @ ?i) = ?i" using prefixes(1) [of net SECRET_KEY] by auto
  obtain s where s0: "EncodeBase58Check (?p @ ?i) = Some s"
      "\<And>t vch. DecodeBase58Check t vch \<noteq> None \<and> (DecodeBase58Check t vch = Some (True, ?p @ ?i) \<longleftrightarrow>
        (\<exists>a b. list_all isspace a \<and> list_all isspace b \<and> t = a @ s @ b))"
    using base58check_exact [of "?p @ ?i"] by blast
  have "\<exists>a b. list_all isspace a \<and> list_all isspace b \<and> s = a @ s @ b" by (rule exI [of _ "[]"], rule exI [of _ "[]"]) simp
  then have s: "EncodeBase58Check (?p @ ?i) = Some s" "DecodeBase58Check s [] = Some (True, ?p @ ?i)" using s0 by simp_all
  have "SetString s 1 = Some (True, ?d)" using s(2) v by (simp add: SetString_def SetData_def)
  moreover have "CBitcoinSecret_IsValid net ?d"
    using assms(2) by (simp add: CBitcoinSecret_IsValid_def SetData_def nth_append)
  moreover have "CBitcoinSecret_SetKey net k = Some ?d"
    using assms by (simp add: CBitcoinSecret_SetKey_def CKey_size_def SetData_def)
  moreover have "CBitcoinSecret_GetKey ?d = Some k"
    using assms by (cases k) (simp add: CBitcoinSecret_GetKey_def SetData_def CKey_Set_bytes CKey_new_def nth_append)
  ultimately show ?thesis
    using s(1) by (intro exI [of _ ?d] exI [of _ s]) (simp add: CBitcoinSecret_SetString_def ToString_def SetData_def)
qed

section \<open>Properties\<close>

text \<open>
  C40. The loops of EncodeBase58 and DecodeBase58 never run out of the room allocated for them (no
  assertion on a carry fails, on any input), DecodeBase58 accepts exactly the encoding of a byte
  string with white space around it, leading zeros included, and on every network the texts that
  an address is read from are exactly its text, with version and checksum, with white space around
  it.
\<close>

theorem base58_address:
  "(\<exists>s. EncodeBase58 v = Some s \<and> (\<forall>t vch. DecodeBase58 t vch \<noteq> None \<and>
      (DecodeBase58 t vch = Some (True, v) \<longleftrightarrow> (\<exists>a b. list_all isspace a \<and> list_all isspace b \<and> t = a @ s @ b)))) \<and>
   (dest \<noteq> CNoDestination \<longrightarrow> (\<exists>s. string_of_address net dest = Some s \<and> (\<forall>t. address_of_string net t = Some dest \<longleftrightarrow>
      (\<exists>a b. list_all isspace a \<and> list_all isspace b \<and> t = a @ s @ b))))"
  using base58_exact address_exact by blast

theorem base58_address_witness:
  "EncodeBase58 [0, 0, 1, 2] = Some ''115T'' \<and> DecodeBase58 '' 115T '' [] = Some (True, [0, 0, 1, 2]) \<and>
   (\<exists>s. string_of_address MAIN (CKeyID 7) = Some s \<and> address_of_string MAIN s = Some (CKeyID 7))"
proof -
  have e: "EncodeBase58 [0, 0, 1, 2] = Some ''115T''" by code_simp
  have sp: "list_all isspace '' ''" by code_simp
  then have "\<exists>a b. list_all isspace a \<and> list_all isspace b \<and> '' 115T '' = a @ ''115T'' @ b"
    by (intro exI [of _ "'' ''"]) simp
  then have "DecodeBase58 '' 115T '' [] = Some (True, [0, 0, 1, 2])"
    using base58_address [of "[0, 0, 1, 2]" "CKeyID 7" MAIN] e by fastforce
  moreover obtain s where s: "string_of_address MAIN (CKeyID 7) = Some s" "\<forall>t. address_of_string MAIN t = Some (CKeyID 7) \<longleftrightarrow>
      (\<exists>a b. list_all isspace a \<and> list_all isspace b \<and> t = a @ s @ b)"
    using base58_address [of "[0, 0, 1, 2]" "CKeyID 7" MAIN] by auto
  moreover have "\<exists>a b. list_all isspace a \<and> list_all isspace b \<and> s = a @ s @ b"
    by (rule exI [of _ "[]"], rule exI [of _ "[]"]) simp
  ultimately show ?thesis using e by blast
qed

end
