(* ===== verification/Spec2Isabelle.thy ===== *)
theory Spec2Isabelle
  imports Chain CoinsSer Bloom AcceptTx BlockIndex DisconnectBlock CheckQueue Base58
begin

text \<open>
  A model of the consensus core of the node under \<open>src/src\<close>: scripts and their interpreter,
  transactions and what a signature signs, the hash functions, proof of work, the unspent outputs,
  the rules for transactions and blocks, the block index, blocks connected and taken back, the
  queue of script checks, the memory pool, and addresses. A node accepts a block when its header
  meets the target that \<open>GetNextWorkRequired\<close> computes from its predecessors, and a transaction
  when each input's script, run by \<open>VerifyScript\<close>, accepts; the script calls the hash functions and, through a
  \<open>BaseSignatureChecker\<close>, \<open>SignatureHash\<close> and ECDSA. The theories follow these calls, each one
  holding the definitions of one component in the order of the source, its invariants and its
  properties. The properties are numbered C1, C2, ... in the order of their importance.

  Conventions. A byte is an \<open>8 word\<close>, \<open>uint32_t\<close> and \<open>uint64_t\<close> are words, \<open>int64_t\<close> is a 64-bit
  word read by \<open>sint\<close> where it wraps and an \<open>int\<close> where it cannot overflow; a byte vector is a
  list; the stack of the interpreter is a list with its top first. A function that throws or
  fails returns a sum with the error on the left; a failed assertion, undefined behaviour, a
  null pointer followed or a loop without end is an error value of its own (\<open>AssertFailed\<close>,
  \<open>None\<close>), so that the properties can say that it does not happen. Pointers to block index
  entries are addresses in a map. Iterators are positions. OpenSSL and libsecp256k1 are a
  parameter (\<open>ecdsa_verify\<close>), and so is the state of \<open>Params()\<close>, the command line and sporks.

  Foundations.
  \<^item> \<open>Prelude\<close>: the types, little- and big-endian integers (\<open>crypto/common.h\<close>), errors.
  \<^item> \<open>BlockHash\<close>: the buffering hasher that SHA-256, SHA-1 and RIPEMD-160 share, with the padding
    of the standards as its specification; a locale takes the compression function and is
    interpreted by \<open>Sha256\<close>, \<open>Sha1\<close>, \<open>Ripemd160\<close> (\<open>crypto/*.cpp\<close>). \<open>Hash\<close>: \<open>hash.h\<close>, \<open>hash.cpp\<close>.
  \<^item> \<open>Serialize\<close>: \<open>serialize.h\<close>. The locale \<open>codec\<close> is the contract of a pair of a writer and a
    reader: the reader accepts exactly what the writer writes. It is interpreted for integers,
    CompactSize, byte vectors, outpoints, inputs, outputs and transactions; a sublocale gives the
    codec of vectors from that of their elements.

  Scripts.
  \<^item> \<open>Opcodes\<close>, \<open>ScriptNum\<close>, \<open>Script\<close>: \<open>script/script.h\<close>, \<open>script/script.cpp\<close>. The specification of a
    script is the list of operations \<open>parse_script\<close> reads from it.
  \<^item> \<open>SigEncoding\<close>: the checks of encodings in \<open>script/interpreter.cpp\<close> and \<open>eccryptoverify.cpp\<close>,
    against DER and numbers.
  \<^item> \<open>Interpreter\<close>: \<open>EvalScript\<close> as a loop over a state record, one definition for each group of
    opcodes, and \<open>VerifyScript\<close>, over any signature checker. \<open>ScriptLimits\<close>: the invariant of the
    loop. \<open>ScriptFlags\<close>: flags only restrict. \<open>ScriptControl\<close>: conditionals and what an accepted
    script looks like. \<open>ScriptTemplates\<close>: what the standard scripts mean.
  \<^item> \<open>Standard\<close>: \<open>script/standard.cpp\<close>, the recognition and construction of standard scripts.

  Transactions.
  \<^item> \<open>Transaction\<close>: \<open>primitives/transaction.h\<close>, \<open>.cpp\<close>, \<open>amount.h\<close>, \<open>.cpp\<close>. \<open>PubKey\<close>: \<open>pubkey.h\<close>.
  \<^item> \<open>SigHash\<close>: \<open>SignatureHash\<close> and the signature checker of a transaction. The specification is a
    transaction, \<open>signed_tx\<close>, whose serialization is what is hashed.

  Unspent outputs.
  \<^item> \<open>Coins\<close>: \<open>CCoins\<close> of \<open>coins.h\<close>, \<open>CTxInUndo\<close> of \<open>undo.h\<close>; \<open>coins_abs\<close> is the function from output
    numbers to what is left.
  \<^item> \<open>CoinsView\<close>: \<open>CCoinsViewCache\<close> over any \<open>CCoinsView\<close>, and \<open>CCoinsViewDB\<close> of \<open>txdb.cpp\<close>. The locale
    \<open>coins_source\<close> is the contract of what a cache reads from, and \<open>coins_view\<close> extends it by the
    law of writing; the database satisfies it, and a cache over a view does, so it is interpreted
    for \<open>pcoinsTip\<close> and for the cache \<open>ConnectTip\<close> puts over it. All that only reads a view, or
    changes the cache on top of it, is proved once over any \<open>coins_source\<close>.
  \<^item> \<open>ConnectTx\<close>: \<open>HaveInputs\<close>, \<open>GetValueIn\<close>, \<open>UpdateCoins\<close>, and the part of \<open>DisconnectBlock\<close> that takes
    a transaction back, over any source.
  \<^item> \<open>Compressor\<close>, \<open>CoinsSer\<close>: \<open>compressor.h\<close>, \<open>compressor.cpp\<close>, and the form in which \<open>coins.h\<close> and
    \<open>undo.h\<close> store coins; reading gives back what was written.

  Rules for transactions.
  \<^item> \<open>TxRules\<close>: \<open>CValidationState\<close> of \<open>main.h\<close>, \<open>CheckTransaction\<close>, finality, \<open>IsStandardTx\<close> and the counts
    of signature operations of \<open>main.cpp\<close>; \<open>tx_valid\<close> says what a valid transaction is.
  \<^item> \<open>CheckInputs\<close>: \<open>CheckInputs\<close> and \<open>CScriptCheck\<close> over the caches of \<open>CoinsView\<close>. The theorem says
    when a transaction \<open>CheckTransaction\<close> passed is accepted, in terms of the unspent outputs.
  \<^item> \<open>Rewards\<close>: \<open>GetBlockValue\<close>, \<open>GetMasternodePayment\<close>.
  \<^item> \<open>AcceptTx\<close>: \<open>AcceptToMemoryPool\<close>, with \<open>CCoinsViewMemPool\<close> as another \<open>coins_source\<close>. A lemma says
    what an accepted transaction satisfies (\<open>loose_tx_ok\<close>) and that the pool keeps its invariant.
  \<^item> \<open>StdMap\<close>, \<open>Mempool\<close>: \<open>std::map\<close> as a sorted association list, and \<open>CTxMemPool\<close> of
    \<open>txmempool.cpp\<close>: the pool and the index of what it spends stay consistent, and removing takes out
    exactly the descendants, the conflicts or the immature spends.

  Blocks.
  \<^item> \<open>Uint256\<close>: \<open>uint256.h\<close>, \<open>uint256.cpp\<close>, numbers as lists of 32-bit limbs, least first;
    \<open>limbs_val\<close> is the number. \<open>Compact\<close>: the floating point form of targets.
  \<^item> \<open>Pow\<close>: \<open>pow.cpp\<close>.
  \<^item> \<open>Block\<close>: \<open>primitives/block.h\<close>, \<open>.cpp\<close>: headers, blocks and their signature. \<open>Merkle\<close>: the Merkle
    tree with its test for repeated pairs, against the levels of the tree; two blocks with one
    root are the same transactions or show a collision of the hash. \<open>PartialMerkle\<close>: \<open>merkleblock.h\<close>,
    \<open>.cpp\<close>. \<open>Bloom\<close>: \<open>bloom.h\<close>, \<open>.cpp\<close>, and the block a filter makes.
  \<^item> \<open>Chain\<close>: \<open>chain.h\<close>, \<open>chain.cpp\<close>, and the functions of \<open>main.cpp\<close> on the block index. The
    specification walks back one block at a time (\<open>walk_back\<close>, \<open>ancestor_at\<close>).
  \<^item> \<open>BlockRules\<close>: \<open>CheckBlock\<close> and the checks of a block in its context, over a record of the
    surroundings (clock, tip, locks, checkpoints). \<open>BlockIndex\<close>: \<open>AcceptBlockHeader\<close> and
    \<open>AddToBlockIndex\<close> as the steps of a relation, with the invariant of every index they reach.
  \<^item> \<open>ConnectBlock\<close>: \<open>ConnectBlock\<close> over any view, against the transactions applied one by one to the
    unspent outputs. \<open>Supply\<close>: the value of the unspent outputs, and how much a block can add to it.
  \<^item> \<open>CoinsForm\<close>: the steps \<open>ConnectBlock\<close> takes on a view as a relation (\<open>view_steps\<close>), and the form of
    the cached coins each of them keeps. \<open>DisconnectBlock\<close>: \<open>DisconnectBlock\<close>, and that it takes back
    what \<open>ConnectBlock\<close> did, finding the block clean.
  \<^item> \<open>CheckQueue\<close>: \<open>checkqueue.h\<close>, the queue through which \<open>ConnectBlock\<close> hands the scripts to other
    threads, as the steps of its critical sections in any order. Its properties justify
    \<open>control_wait\<close>, by which \<open>ConnectBlock\<close> waits: the result is whether all checks pass, and the wait
    ends.

  Keys and addresses.
  \<^item> \<open>Keys\<close>: \<open>CKey\<close> of \<open>key.h\<close> and the key store of \<open>keystore.cpp\<close>. \<open>Base58\<close>: \<open>base58.cpp\<close>, addresses and
    secret keys in text, with the prefixes of \<open>chainparams.cpp\<close>.

  Loops. No definition uses fuel: a loop is structural recursion, a \<open>function\<close> with its measure,
  or, where it follows pointers, a \<open>partial_function\<close> into \<open>option\<close>, and the properties prove
  that it returns.

  Not modelled: the network, the wallet with the signing of scripts (\<open>script/sign.cpp\<close>), RPC and
  start-up (input and output around global state and locks); the choice of the active chain
  (\<open>ActivateBestChain\<close>), which calls \<open>ConnectBlock\<close> and \<open>DisconnectBlock\<close>; masternodes, sporks and budgets; Zerocoin (zero-knowledge proofs over OpenSSL
  numbers); ECDSA itself; text forms (\<open>ToString\<close>, \<open>GetHex\<close>); floating point numbers
  (\<open>ComputePriority\<close>, \<open>getdouble\<close>); the Quark hash of block headers (the C code of sphlib).
  Of \<open>main.cpp\<close> the files of blocks on disk, the threads and locks are left out.
\<close>

end
